(* ===== verification/Prelude.thy ===== *)
theory Prelude
  imports Main "HOL-Library.Word"
begin

text \<open>
  Shared vocabulary of the development: the machine integers of \<open>arch/cc.h\<close>
  (\<open>u8_t\<close>, \<open>u16_t\<close>, \<open>u32_t\<close>, \<open>s32_t\<close>) as fixed-width words, the error codes of
  \<open>lwip/err.h\<close>, and the generic facts on words and lists that several components use.
\<close>

unbundle bit_operations_syntax

type_synonym u8 = "8 word"
type_synonym u16 = "16 word"
type_synonym u32 = "32 word"
type_synonym s32 = "32 word"
type_synonym bytes = "8 word list"

text \<open>The error codes of \<open>lwip/err.h\<close>; \<open>ERR_OK\<close> is 0, the others are negative.\<close>

datatype err_t =
    ERR_OK | ERR_MEM | ERR_BUF | ERR_TIMEOUT | ERR_RTE | ERR_INPROGRESS | ERR_VAL
  | ERR_WOULDBLOCK | ERR_USE | ERR_ALREADY | ERR_ISCONN | ERR_CONN | ERR_IF
  | ERR_ABRT | ERR_RST | ERR_CLSD | ERR_ARG

subsection \<open>Words read as numbers\<close>

named_theorems unat_simps \<open>the value of a word expression as a natural number\<close>

lemma unat_ucast_mod: "unat (ucast (a :: 'a::len word) :: 'b::len word) = unat a mod 2 ^ LENGTH('b)"
  by (simp add: unsigned_ucast_eq take_bit_eq_mod)

lemma unat_lt_8 [simp]: "unat (a :: u8) < 256"
  using unsigned_less [of a] by simp

lemma unat_lt_16 [simp]: "unat (a :: u16) < 65536"
  using unsigned_less [of a] by simp

lemma unat_lt_32 [simp]: "unat (a :: u32) < 4294967296"
  using unsigned_less [of a] by simp

lemma unat_le_8: "unat (a :: u8) \<le> 255"
  using unat_lt_8 [of a] by linarith

lemma unat_le_16: "unat (a :: u16) \<le> 65535"
  using unat_lt_16 [of a] by linarith

lemma unat_ucast_8_16 [unat_simps]: "unat (ucast (a :: u8) :: u16) = unat a"
  by (simp add: unat_ucast_mod mod_less order_less_trans [OF unat_lt_8])

lemma unat_ucast_8_32 [unat_simps]: "unat (ucast (a :: u8) :: u32) = unat a"
  by (simp add: unat_ucast_mod mod_less order_less_trans [OF unat_lt_8])

lemma unat_ucast_16_32 [unat_simps]: "unat (ucast (a :: u16) :: u32) = unat a"
  by (simp add: unat_ucast_mod mod_less order_less_trans [OF unat_lt_16])

lemma unat_ucast_32_16 [unat_simps]: "unat (ucast (a :: u32) :: u16) = unat a mod 65536"
  by (simp add: unat_ucast_mod)

lemma unat_ucast_32_8 [unat_simps]: "unat (ucast (a :: u32) :: u8) = unat a mod 256"
  by (simp add: unat_ucast_mod)

lemma unat_ucast_16_8 [unat_simps]: "unat (ucast (a :: u16) :: u8) = unat a mod 256"
  by (simp add: unat_ucast_mod)

lemma unat_drop_bit_div: "unat (drop_bit n (w :: 'a::len word)) = unat w div 2 ^ n"
  by (simp add: unsigned_drop_bit_eq drop_bit_eq_div [where 'a = nat] take_bit_nat_eq_self)

lemma unat_and_mask_mod: "unat (w AND mask n :: 'a::len word) = unat w mod 2 ^ n"
  by (simp flip: take_bit_eq_mask add: unsigned_take_bit_eq take_bit_eq_mod [where 'a = nat])

lemma unat_push_bit_mult:
  "unat (push_bit n (w :: 'a::len word)) = unat w * 2 ^ n mod 2 ^ LENGTH('a)"
  by (simp add: unsigned_push_bit_eq take_bit_eq_mod [where 'a = nat] push_bit_eq_mult [where 'a = nat])

lemma unat_add_nowrap:
  "unat (a :: 'a::len word) + unat b < 2 ^ LENGTH('a) \<Longrightarrow> unat (a + b) = unat a + unat b"
  by (simp add: unat_word_ariths)

lemma unat_sub_nowrap:
  "unat b \<le> unat (a :: 'a::len word) \<Longrightarrow> unat (a - b) = unat a - unat b"
  by (simp add: unat_sub word_le_nat_alt)

lemma unat_pred: "n \<noteq> 0 \<Longrightarrow> unat (n - 1 :: 'a::len word) = unat n - 1"
  by (subst unat_sub_nowrap) (simp_all add: unat_gt_0 Suc_le_eq)

lemma unat_pred_Suc: "unat r = Suc m \<Longrightarrow> r \<noteq> 0 \<and> unat (r - 1 :: 'a::len word) = m"
proof -
  assume r: "unat r = Suc m"
  have "r \<noteq> 0"
  proof
    assume "r = 0"
    with r show False by simp
  qed
  with r unat_pred [of r] show ?thesis by simp
qed

lemma unat_pred_less [termination_simp]: "n \<noteq> 0 \<Longrightarrow> unat (n - 1 :: 'a::len word) < unat n"
  by (simp add: unat_pred unat_gt_0)

lemma unat_pred_less_pos: "0 < n \<Longrightarrow> unat (n - 1 :: 'a::len word) < unat n"
  by (rule unat_pred_less) simp

lemma not_1_less: "n \<noteq> 0 \<Longrightarrow> \<not> 1 < n \<Longrightarrow> n = (1 :: 'a::len word)"
proof -
  assume "n \<noteq> 0" "\<not> 1 < n"
  then have "0 < unat n" "\<not> 1 < unat n"
    by (simp_all add: unat_gt_0 word_less_nat_alt)
  then have "unat n = unat (1 :: 'a word)" by simp
  then show "n = 1" by (rule unsigned_word_eqI)
qed

lemma unat_of_nat_16: "n < 65536 \<Longrightarrow> unat (of_nat n :: u16) = n"
  by (simp add: unsigned_of_nat take_bit_nat_eq_self)

lemma unat_of_nat_32: "n < 4294967296 \<Longrightarrow> unat (of_nat n :: u32) = n"
  by (simp add: unsigned_of_nat take_bit_nat_eq_self)

lemma and_not_eq_minus: "a AND NOT b = a - (a AND b)" for a b :: "'a::len word"
  by (subst disjunctive_diff_eq_and_not) (auto simp: bit_eq_iff bit_simps)

lemma or_eq_add: "a AND b = 0 \<Longrightarrow> a OR b = a + (b :: 'a::len word)"
  by (simp add: disjunctive_add_eq_or)

subsection \<open>Memory blocks\<close>

text \<open>
  \<open>mem_write off src mem\<close> is \<open>MEMCPY(mem + off, src, length src)\<close> on a block that is
  large enough.
\<close>

definition mem_write :: "nat \<Rightarrow> 'a list \<Rightarrow> 'a list \<Rightarrow> 'a list" where
  "mem_write off src mem = take off mem @ src @ drop (off + length src) mem"

lemma length_mem_write [simp]:
  "off + length src \<le> length mem \<Longrightarrow> length (mem_write off src mem) = length mem"
  by (simp add: mem_write_def)

lemma mem_write_Nil [simp]: "mem_write off [] mem = mem"
  by (simp add: mem_write_def)

lemma mem_write_append_left:
  "off + length src \<le> length xs \<Longrightarrow> mem_write off src (xs @ ys) = mem_write off src xs @ ys"
  by (simp add: mem_write_def)

lemma mem_write_append_right:
  "length xs \<le> off \<Longrightarrow> mem_write off src (xs @ ys) = xs @ mem_write (off - length xs) src ys"
  by (simp add: mem_write_def add.commute)

lemma mem_write_split:
  assumes "off \<le> length xs" "n = length xs - off" "n \<le> length src"
  shows "mem_write off src (xs @ ys) = mem_write off (take n src) xs @ mem_write 0 (drop n src) ys"
proof -
  have "drop (off + length src) (xs @ ys) = drop (length src - n) ys"
    using assms by (simp add: Nat.diff_diff_right add.commute)
  moreover have "src = take n src @ drop n src" by simp
  ultimately show ?thesis
    using assms by (simp add: mem_write_def)
qed

lemma take_mem_write:
  "off + length src \<le> n \<Longrightarrow> n \<le> length mem \<Longrightarrow>
   take n (mem_write off src mem) = mem_write off src (take n mem)"
  by (simp add: mem_write_def drop_take)

lemma nth_mem_write:
  "i < length mem \<Longrightarrow> off + length src \<le> length mem \<Longrightarrow>
   mem_write off src mem ! i =
     (if off \<le> i \<and> i < off + length src then src ! (i - off) else mem ! i)"
  by (auto simp: mem_write_def nth_append min_def)

text \<open>Two writes that meet are one write.\<close>

lemma mem_write_mem_write:
  "off + length xs + length ys \<le> length mem \<Longrightarrow>
   mem_write (off + length xs) ys (mem_write off xs mem) = mem_write off (xs @ ys) mem"
  by (cases xs) (auto simp: mem_write_def min_def ac_simps)

end
