(* ===== verification/ByteOrder.thy ===== *)
theory ByteOrder
  imports Prelude
begin

text \<open>
  The byte-order functions of \<open>core/def.c\<close>, compiled for a little-endian target
  (\<open>BYTE_ORDER\<close> in \<open>arch/cc.h\<close>): \<open>lwip_htons\<close>, \<open>lwip_ntohs\<close>, \<open>lwip_htonl\<close> and
  \<open>lwip_ntohl\<close>. \<open>le16\<close> and \<open>le32\<close> are how such a target reads memory as an integer,
  \<open>be16\<close> and \<open>be32\<close> are the network reading of the same bytes; the swap functions are
  their own inverse and turn one reading into the other.
\<close>

subsection \<open>The functions of def.c\<close>

definition lwip_htons :: "u16 \<Rightarrow> u16" where
  "lwip_htons n = push_bit 8 (n AND 0xff) OR drop_bit 8 (n AND 0xff00)"

definition lwip_ntohs :: "u16 \<Rightarrow> u16" where
  "lwip_ntohs n = lwip_htons n"

definition lwip_htonl :: "u32 \<Rightarrow> u32" where
  "lwip_htonl n =
     push_bit 24 (n AND 0xff) OR push_bit 8 (n AND 0xff00)
     OR drop_bit 8 (n AND 0xff0000) OR drop_bit 24 (n AND 0xff000000)"

definition lwip_ntohl :: "u32 \<Rightarrow> u32" where
  "lwip_ntohl n = lwip_htonl n"

subsection \<open>Memory read as an integer\<close>

definition le16 :: "u8 \<Rightarrow> u8 \<Rightarrow> u16" where
  "le16 a b = ucast a OR push_bit 8 (ucast b)"

definition be16 :: "u8 \<Rightarrow> u8 \<Rightarrow> u16" where
  "be16 a b = push_bit 8 (ucast a) OR ucast b"

definition le32 :: "u8 \<Rightarrow> u8 \<Rightarrow> u8 \<Rightarrow> u8 \<Rightarrow> u32" where
  "le32 a b c d =
     ucast a OR push_bit 8 (ucast b) OR push_bit 16 (ucast c) OR push_bit 24 (ucast d)"

definition be32 :: "u8 \<Rightarrow> u8 \<Rightarrow> u8 \<Rightarrow> u8 \<Rightarrow> u32" where
  "be32 a b c d = le32 d c b a"

text \<open>
  The bytes in memory of an integer. An address is held in network order; on this
  little-endian target its bytes are those of the number from the least significant one on.
\<close>

definition u32_bytes :: "u32 \<Rightarrow> bytes" where
  "u32_bytes a = [ucast a, ucast (drop_bit 8 a), ucast (drop_bit 16 a), ucast (drop_bit 24 a)]"

definition u16_bytes :: "u16 \<Rightarrow> bytes" where
  "u16_bytes n = [ucast n, ucast (drop_bit 8 n)]"

definition u16_bytes_be :: "u16 \<Rightarrow> bytes" where
  "u16_bytes_be n = [ucast (drop_bit 8 n), ucast n]"

subsection \<open>Their values\<close>

lemma byte_masks:
  "(0xff :: u16) = mask 8" "(0xff00 :: u16) = push_bit 8 (mask 8)"
  "(0xff :: u32) = mask 8" "(0xff00 :: u32) = push_bit 8 (mask 8)"
  "(0xff0000 :: u32) = push_bit 16 (mask 8)" "(0xff000000 :: u32) = push_bit 24 (mask 8)"
  by (simp_all add: mask_numeral)

lemma bit_u8_lt: "bit (a :: u8) n \<Longrightarrow> n < 8"
  using bit_imp_le_length [of a n] by simp

lemma unat_le16 [unat_simps]: "unat (le16 a b) = unat a + 256 * unat b"
proof -
  have "le16 a b = ucast a + push_bit 8 (ucast b)"
    unfolding le16_def by (rule or_eq_add, rule bit_word_eqI) (auto simp: bit_simps dest: bit_u8_lt)
  moreover have "unat (push_bit 8 (ucast b) :: u16) = 256 * unat b"
    using unat_lt_8 [of b] by (simp add: unat_push_bit_mult unat_simps del: unat_lt_8)
  ultimately show ?thesis
    using unat_lt_8 [of a] unat_lt_8 [of b]
    by (simp add: unat_add_nowrap unat_simps del: unat_lt_8)
qed

lemma be16_le16: "be16 a b = le16 b a"
  by (simp add: be16_def le16_def or.commute)

lemma lwip_htons_le16 [simp]: "lwip_htons (le16 a b) = le16 b a"
  unfolding lwip_htons_def le16_def byte_masks
  by (rule bit_word_eqI) (auto simp: bit_simps dest: bit_u8_lt)

lemma le16_split: "n = le16 (ucast n) (ucast (drop_bit 8 n))"
  unfolding le16_def by (rule bit_word_eqI) (auto simp: bit_simps)

lemma le16_exhaust: obtains a b where "n = le16 a b"
  using le16_split by blast

text \<open>Swapping twice is the identity, on 16 and on 32 bits.\<close>

lemma lwip_htons_htons [simp]: "lwip_htons (lwip_htons n) = n"
  by (rule le16_exhaust [of n]) simp

lemma unat_lwip_htons:
  "unat (lwip_htons n) = unat n div 256 + 256 * (unat n mod 256)"
proof -
  obtain a b where n: "n = le16 a b" by (rule le16_exhaust)
  then show ?thesis
    using unat_lt_8 [of a] unat_lt_8 [of b] by (simp add: unat_simps del: unat_lt_8)
qed


lemma bit_le32:
  "bit (le32 a b c d) n \<longleftrightarrow>
     (if n < 8 then bit a n else if n < 16 then bit b (n - 8)
      else if n < 24 then bit c (n - 16) else if n < 32 then bit d (n - 24) else False)"
  unfolding le32_def by (auto simp: bit_simps dest: bit_u8_lt)

lemma le32_split:
  "n = le32 (ucast n) (ucast (drop_bit 8 n)) (ucast (drop_bit 16 n)) (ucast (drop_bit 24 n))"
  by (rule bit_word_eqI) (auto simp: bit_le32 bit_simps)

lemma le32_exhaust: obtains a b c d where "n = le32 a b c d"
  using le32_split by blast

lemma bit_lwip_htonl:
  "bit (lwip_htonl n) k \<longleftrightarrow>
     (if k < 8 then bit n (k + 24) else if k < 16 then bit n (k + 8)
      else if k < 24 then bit n (k - 8) else if k < 32 then bit n (k - 24) else False)"
  unfolding lwip_htonl_def byte_masks
  by (auto simp: bit_simps add.commute)

lemma lwip_htonl_le32 [simp]: "lwip_htonl (le32 a b c d) = le32 d c b a"
  by (rule bit_word_eqI) (auto simp: bit_le32 bit_lwip_htonl)

lemma lwip_htonl_htonl [simp]: "lwip_htonl (lwip_htonl n) = n"
  by (rule le32_exhaust [of n]) simp

end
