(* ===== verification/Pbuf.thy ===== *)
theory Pbuf
  imports Prelude
begin

text \<open>
  Packet buffers (\<open>core/pbuf.c\<close>, \<open>include/lwip/pbuf.h\<close>): the operations that read and
  write the bytes of a pbuf chain. A chain is the list of its pbufs, so \<open>p->next\<close> is the
  rest of the list and \<open>NULL\<close> is the empty list; a pointer into a chain is the suffix that
  starts there. The bytes a chain carries are the first \<open>len\<close> bytes of each payload, and
  every operation is shown to act on that byte string as one contiguous buffer.
  \<open>None\<close> is a run that dereferences a null pointer (the assertions of this build are
  compiled out: \<open>LWIP_NOASSERT\<close> is defined).
\<close>

subsection \<open>The data structure\<close>

text \<open>
  The \<open>payload\<close> pointer is kept as its numeric value (\<open>p_addr\<close>, whose alignment some
  checksum routines look at) and the memory behind it (\<open>p_payload\<close>).
\<close>

datatype pbuf_type = PBUF_RAM | PBUF_ROM | PBUF_REF | PBUF_POOL

record pbuf =
  p_addr :: u32
  p_payload :: bytes
  p_tot_len :: u16
  p_len :: u16
  p_type :: pbuf_type
  p_flags :: u8
  p_ref :: u16

definition pbuf_bytes :: "pbuf \<Rightarrow> bytes" where
  "pbuf_bytes p = take (unat (p_len p)) (p_payload p)"

definition chain_bytes :: "pbuf list \<Rightarrow> bytes" where
  "chain_bytes ps = concat (map pbuf_bytes ps)"

definition chain_tot_len :: "pbuf list \<Rightarrow> nat" where
  "chain_tot_len ps = (case ps of [] \<Rightarrow> 0 | p # _ \<Rightarrow> unat (p_tot_len p))"

text \<open>
  The invariant stated in \<open>struct pbuf\<close>: \<open>p->tot_len == p->len + p->next->tot_len\<close>, and
  \<open>len\<close> bytes really lie behind \<open>payload\<close>.
\<close>

fun chain_ok :: "pbuf list \<Rightarrow> bool" where
  "chain_ok [] = True"
| "chain_ok (p # ps) =
     (unat (p_len p) \<le> length (p_payload p)
      \<and> unat (p_tot_len p) = unat (p_len p) + chain_tot_len ps \<and> chain_ok ps)"

subsection \<open>Operations\<close>

fun pbuf_copy_partial_loop :: "pbuf list \<Rightarrow> u16 \<Rightarrow> u16 \<Rightarrow> u16 \<Rightarrow> bytes \<Rightarrow> u16 \<times> bytes" where
  "pbuf_copy_partial_loop [] len offset copied_total out = (copied_total, out)"
| "pbuf_copy_partial_loop (p # ps) len offset copied_total out =
     (if len = 0 then (copied_total, out)
      else if offset \<noteq> 0 \<and> p_len p \<le> offset
      then pbuf_copy_partial_loop ps len (offset - p_len p) copied_total out
      else let buf_copy_len = (if len < p_len p - offset then len else p_len p - offset)
        in pbuf_copy_partial_loop ps (len - buf_copy_len) 0 (copied_total + buf_copy_len)
             (out @ take (unat buf_copy_len) (drop (unat offset) (p_payload p))))"

text \<open>The bytes stored at \<open>dataptr\<close> are returned beside the number of bytes copied.\<close>

definition pbuf_copy_partial :: "pbuf list \<Rightarrow> u16 \<Rightarrow> u16 \<Rightarrow> u16 \<times> bytes" where
  "pbuf_copy_partial buf len offset =
     (if buf = [] then (0, []) else pbuf_copy_partial_loop buf len offset 0 [])"

fun pbuf_skip :: "pbuf list \<Rightarrow> u16 \<Rightarrow> pbuf list \<times> u16" where
  "pbuf_skip [] offset_left = ([], offset_left)"
| "pbuf_skip (q # qs) offset_left =
     (if p_len q \<le> offset_left then pbuf_skip qs (offset_left - p_len q)
      else (q # qs, offset_left))"

fun pbuf_take_loop :: "pbuf list \<Rightarrow> bytes \<Rightarrow> u16 \<Rightarrow> u16 \<Rightarrow> pbuf list option" where
  "pbuf_take_loop [] dataptr total_copy_len copied_total =
     (if total_copy_len = 0 then Some [] else None)"
| "pbuf_take_loop (p # ps) dataptr total_copy_len copied_total =
     (if total_copy_len = 0 then Some (p # ps)
      else let buf_copy_len = (if p_len p < total_copy_len then p_len p else total_copy_len);
               src = take (unat buf_copy_len) (drop (unat copied_total) dataptr)
        in map_option (\<lambda>qs. p\<lparr>p_payload := mem_write 0 src (p_payload p)\<rparr> # qs)
             (pbuf_take_loop ps dataptr (total_copy_len - buf_copy_len)
                (copied_total + buf_copy_len)))"

definition pbuf_take :: "pbuf list \<Rightarrow> bytes \<Rightarrow> u16 \<Rightarrow> (err_t \<times> pbuf list) option" where
  "pbuf_take buf dataptr len =
     (case buf of
        [] \<Rightarrow> Some (ERR_ARG, buf)
      | p # _ \<Rightarrow>
          if p_tot_len p < len then Some (ERR_MEM, buf)
          else map_option (Pair ERR_OK) (pbuf_take_loop buf dataptr len 0))"

definition pbuf_take_at :: "pbuf list \<Rightarrow> bytes \<Rightarrow> u16 \<Rightarrow> u16 \<Rightarrow> (err_t \<times> pbuf list) option" where
  "pbuf_take_at buf dataptr len offset =
     (case pbuf_skip buf offset of
        ([], target_offset) \<Rightarrow> Some (ERR_MEM, buf)
      | (q # qs, target_offset) \<Rightarrow>
          if unat target_offset + unat len \<le> unat (p_tot_len q) then
            let before = take (length buf - Suc (length qs)) buf;
                first_copy_len =
                  (if p_len q - target_offset < len then p_len q - target_offset else len);
                src = take (unat first_copy_len) dataptr;
                q' = q\<lparr>p_payload := mem_write (unat target_offset) src (p_payload q)\<rparr>;
                remaining_len = len - first_copy_len
            in if 0 < remaining_len
               then map_option (\<lambda>(err, qs'). (err, before @ q' # qs'))
                      (pbuf_take qs (drop (unat first_copy_len) dataptr) remaining_len)
               else Some (ERR_OK, before @ q' # qs)
          else Some (ERR_MEM, buf))"

definition pbuf_get_at :: "pbuf list \<Rightarrow> u16 \<Rightarrow> u8" where
  "pbuf_get_at p offset =
     (case pbuf_skip p offset of
        ([], q_idx) \<Rightarrow> 0
      | (q # qs, q_idx) \<Rightarrow> if q_idx < p_len q then p_payload q ! unat q_idx else 0)"

definition pbuf_put_at :: "pbuf list \<Rightarrow> u16 \<Rightarrow> u8 \<Rightarrow> pbuf list" where
  "pbuf_put_at p offset data =
     (case pbuf_skip p offset of
        ([], q_idx) \<Rightarrow> p
      | (q # qs, q_idx) \<Rightarrow>
          if q_idx < p_len q
          then take (length p - Suc (length qs)) p
               @ q\<lparr>p_payload := (p_payload q)[unat q_idx := data]\<rparr> # qs
          else p)"

text \<open>The loop of \<open>pbuf_memcmp\<close> over the rest of \<open>s2\<close>, with the index reached so far.\<close>

fun pbuf_memcmp_loop :: "pbuf list \<Rightarrow> u16 \<Rightarrow> bytes \<Rightarrow> u16 \<Rightarrow> u16" where
  "pbuf_memcmp_loop q start [] i = 0"
| "pbuf_memcmp_loop q start (b # s2) i =
     (if pbuf_get_at q (start + i) \<noteq> b then i + 1 else pbuf_memcmp_loop q start s2 (i + 1))"

definition pbuf_memcmp :: "pbuf list \<Rightarrow> u16 \<Rightarrow> bytes \<Rightarrow> u16 \<Rightarrow> u16" where
  "pbuf_memcmp p offset s2 n =
     (case pbuf_skip p offset of
        ([], start) \<Rightarrow> 0xffff
      | (q # qs, start) \<Rightarrow>
          if start < p_len q then pbuf_memcmp_loop (q # qs) start (take (unat n) s2) 0
          else 0xffff)"

text \<open>
  The search loop counts a 16-bit index up to \<open>max\<close>; with \<open>max = 0xFFFF\<close> the test
  \<open>i <= max\<close> never fails, so the loop is given fuel and \<open>None\<close> is "still searching".
\<close>

fun pbuf_memfind_loop :: "nat \<Rightarrow> pbuf list \<Rightarrow> bytes \<Rightarrow> u16 \<Rightarrow> u16 \<Rightarrow> u16 \<Rightarrow> u16 option" where
  "pbuf_memfind_loop 0 p mem mem_len i mx = None"
| "pbuf_memfind_loop (Suc fuel) p mem mem_len i mx =
     (if i \<le> mx then
        (if pbuf_memcmp p i mem mem_len = 0 then Some i
         else pbuf_memfind_loop fuel p mem mem_len (i + 1) mx)
      else Some 0xFFFF)"

definition pbuf_memfind :: "pbuf list \<Rightarrow> bytes \<Rightarrow> u16 \<Rightarrow> u16 \<Rightarrow> u16 option" where
  "pbuf_memfind p mem mem_len start_offset =
     (case p of
        [] \<Rightarrow> None
      | h # _ \<Rightarrow>
          if unat mem_len + unat start_offset \<le> unat (p_tot_len h)
          then pbuf_memfind_loop 65537 p mem mem_len start_offset (p_tot_len h - mem_len)
          else Some 0xFFFF)"

definition pbuf_strstr :: "pbuf list \<Rightarrow> bytes \<Rightarrow> u16 option" where
  "pbuf_strstr p substr =
     (case p of
        [] \<Rightarrow> (if substr = [] then Some 0xFFFF else None)
      | h # _ \<Rightarrow>
          if substr = [] \<or> p_tot_len h = 0xFFFF then Some 0xFFFF
          else if 0xFFFF \<le> length substr then Some 0xFFFF
          else pbuf_memfind p substr (of_nat (length substr)) 0)"

subsection \<open>The chain as one byte string\<close>

lemma chain_bytes_simps [simp]:
  "chain_bytes [] = []"
  "chain_bytes (p # ps) = pbuf_bytes p @ chain_bytes ps"
  "chain_bytes (ps @ qs) = chain_bytes ps @ chain_bytes qs"
  by (simp_all add: chain_bytes_def)

lemma chain_tot_len_simps [simp]:
  "chain_tot_len [] = 0"
  "chain_tot_len (p # ps) = unat (p_tot_len p)"
  by (simp_all add: chain_tot_len_def)

lemma chain_tot_len_lt [simp]: "chain_tot_len ps < 65536"
  by (cases ps) simp_all

lemma length_pbuf_bytes [simp]:
  "unat (p_len p) \<le> length (p_payload p) \<Longrightarrow> length (pbuf_bytes p) = unat (p_len p)"
  by (simp add: pbuf_bytes_def)

lemma length_chain_bytes [simp]: "chain_ok ps \<Longrightarrow> length (chain_bytes ps) = chain_tot_len ps"
  by (induction ps) simp_all

lemma chain_ok_append: "chain_ok (ps @ qs) \<Longrightarrow> chain_ok qs"
  by (induction ps) simp_all

lemma chain_tot_len_append:
  "chain_ok (ps @ qs) \<Longrightarrow> chain_tot_len (ps @ qs) = length (chain_bytes ps) + chain_tot_len qs"
  by (induction ps) simp_all

text \<open>Replacing a suffix by one of the same total length keeps the invariant.\<close>

lemma chain_ok_replace:
  "chain_ok (ps @ qs) \<Longrightarrow> chain_ok qs' \<Longrightarrow> chain_tot_len qs' = chain_tot_len qs \<Longrightarrow>
   chain_ok (ps @ qs')"
proof (induction ps)
  case Nil
  then show ?case by simp
next
  case (Cons p ps)
  have "chain_tot_len (ps @ qs') = chain_tot_len (ps @ qs)"
    using Cons by (cases ps) simp_all
  with Cons show ?case by simp
qed

lemma unat_diff_le: "b \<le> a \<Longrightarrow> unat (a - b :: u16) = unat a - unat b"
  by (simp add: unat_sub)

text \<open>
  \<open>pbuf_skip\<close> returns the suffix that holds the byte at the offset, and the offset of
  that byte inside the suffix.
\<close>

lemma pbuf_skip_suffix:
  assumes "chain_ok ps" "pbuf_skip ps off = (qs, t)"
  shows "\<exists>pre. ps = pre @ qs \<and> unat off = length (chain_bytes pre) + unat t
           \<and> (qs \<noteq> [] \<longrightarrow> t < p_len (hd qs))"
  using assms
proof (induction ps arbitrary: off)
  case Nil
  then show ?case by simp
next
  case (Cons p ps)
  show ?case
  proof (cases "p_len p \<le> off")
    case True
    with Cons.prems have "pbuf_skip ps (off - p_len p) = (qs, t)" "chain_ok ps"
      by simp_all
    then obtain pre where pre: "ps = pre @ qs"
      "unat (off - p_len p) = length (chain_bytes pre) + unat t"
      "qs \<noteq> [] \<longrightarrow> t < p_len (hd qs)"
      using Cons.IH by blast
    have "unat off = unat (p_len p) + unat (off - p_len p)"
      using True by (simp add: unat_diff_le word_le_nat_alt)
    with pre Cons.prems show ?thesis
      by (intro exI [of _ "p # pre"]) simp
  next
    case False
    with Cons.prems show ?thesis
      by (intro exI [of _ "[]"]) auto
  qed
qed

lemma pbuf_skip_Nil_iff:
  assumes "chain_ok ps" "pbuf_skip ps off = (qs, t)"
  shows "qs = [] \<longleftrightarrow> chain_tot_len ps \<le> unat off"
proof -
  obtain pre where pre: "ps = pre @ qs" "unat off = length (chain_bytes pre) + unat t"
    "qs \<noteq> [] \<longrightarrow> t < p_len (hd qs)"
    using pbuf_skip_suffix [OF assms] by blast
  have tot: "chain_tot_len ps = length (chain_bytes pre) + chain_tot_len qs"
    using assms(1) pre(1) chain_tot_len_append by blast
  show ?thesis
  proof (cases qs)
    case Nil
    with tot pre show ?thesis by simp
  next
    case (Cons q qs')
    with pre assms(1) have "chain_ok (q # qs')" using chain_ok_append by blast
    with Cons pre tot show ?thesis by (simp add: word_less_nat_alt)
  qed
qed

subsection \<open>Reading\<close>

lemma pbuf_copy_partial_loop_eq:
  "chain_ok ps \<Longrightarrow>
   pbuf_copy_partial_loop ps len off c out =
     (c + of_nat (min (unat len) (chain_tot_len ps - unat off)),
      out @ take (unat len) (drop (unat off) (chain_bytes ps)))"
proof (induction ps arbitrary: len off c out)
  case Nil
  then show ?case by simp
next
  case (Cons p ps)
  note ok = Cons.prems
  consider (zero) "len = 0" | (skip) "len \<noteq> 0" "off \<noteq> 0" "p_len p \<le> off"
    | (copy) "len \<noteq> 0" "off = 0 \<or> off < p_len p"
    by force
  then show ?case
  proof cases
    case zero
    then show ?thesis by simp
  next
    case skip
    moreover have "unat (p_len p) \<le> unat off" using skip(3) by (simp add: word_le_nat_alt)
    ultimately show ?thesis
      using ok Cons.IH by (simp add: unat_diff_le add.commute)
  next
    case copy
    define n where "n = (if len < p_len p - off then len else p_len p - off)"
    have le: "off \<le> p_len p" using copy by auto
    then have n: "unat n = min (unat len) (unat (p_len p) - unat off)"
      by (auto simp: n_def unat_diff_le word_less_nat_alt)
    have m: "unat (len - n) = unat len - unat n"
      by (rule unat_diff_le) (auto simp: n_def)
    have "pbuf_copy_partial_loop (p # ps) len off c out =
        pbuf_copy_partial_loop ps (len - n) 0 (c + n)
          (out @ take (unat n) (drop (unat off) (p_payload p)))"
      using copy by (auto simp: Let_def n_def)
    also have "\<dots> = (c + n + of_nat (min (unat len - unat n) (chain_tot_len ps)),
        out @ take (unat n) (drop (unat off) (p_payload p))
          @ take (unat len - unat n) (chain_bytes ps))"
      using ok Cons.IH m by simp
    also have "c + n + of_nat (min (unat len - unat n) (chain_tot_len ps)) =
        c + of_nat (unat n + min (unat len - unat n) (chain_tot_len ps))"
      by (simp add: add.assoc)
    also have "unat n + min (unat len - unat n) (chain_tot_len ps) =
        min (unat len) (chain_tot_len (p # ps) - unat off)"
      using ok le n by (auto simp: word_le_nat_alt min_def)
    also have "take (unat n) (drop (unat off) (p_payload p)) =
        take (unat len) (drop (unat off) (pbuf_bytes p))"
      unfolding n pbuf_bytes_def by (simp add: drop_take min.commute)
    also have "take (unat len - unat n) (chain_bytes ps) =
        take (unat len - (unat (p_len p) - unat off)) (chain_bytes ps)"
      unfolding n by (simp add: min_def)
    finally show ?thesis
      using ok le by (simp add: word_le_nat_alt del: pbuf_copy_partial_loop.simps)
  qed
qed

lemma pbuf_copy_partial_eq:
  "chain_ok ps \<Longrightarrow>
   pbuf_copy_partial ps len off =
     (of_nat (min (unat len) (chain_tot_len ps - unat off)),
      take (unat len) (drop (unat off) (chain_bytes ps)))"
  by (cases ps) (simp_all add: pbuf_copy_partial_def pbuf_copy_partial_loop_eq del: pbuf_copy_partial_loop.simps)

lemma pbuf_get_at_eq:
  assumes ok: "chain_ok ps"
  shows "pbuf_get_at ps off =
           (if unat off < chain_tot_len ps then chain_bytes ps ! unat off else 0)"
proof -
  obtain qs t where skip: "pbuf_skip ps off = (qs, t)" by (cases "pbuf_skip ps off")
  obtain pre where pre: "ps = pre @ qs" "unat off = length (chain_bytes pre) + unat t"
    "qs \<noteq> [] \<longrightarrow> t < p_len (hd qs)"
    using pbuf_skip_suffix [OF ok skip] by blast
  note nil = pbuf_skip_Nil_iff [OF ok skip]
  show ?thesis
  proof (cases qs)
    case Nil
    with nil skip show ?thesis by (simp add: pbuf_get_at_def)
  next
    case (Cons q qs')
    with pre ok have "chain_ok (q # qs')" using chain_ok_append by blast
    with Cons pre nil skip show ?thesis
      by (simp add: pbuf_get_at_def pbuf_bytes_def nth_append word_less_nat_alt not_le)
  qed
qed

subsection \<open>Writing\<close>

text \<open>Everything of a chain but the bytes: what no write changes.\<close>

definition chain_frame :: "pbuf list \<Rightarrow> pbuf list" where
  "chain_frame ps = map (\<lambda>p. p\<lparr>p_payload := []\<rparr>) ps"

lemma chain_frame_simps [simp]:
  "chain_frame [] = []"
  "chain_frame (p # ps) = p\<lparr>p_payload := []\<rparr> # chain_frame ps"
  "chain_frame (ps @ qs) = chain_frame ps @ chain_frame qs"
  by (simp_all add: chain_frame_def)

lemma pbuf_bytes_write:
  "off + length src \<le> unat (p_len p) \<Longrightarrow> unat (p_len p) \<le> length (p_payload p) \<Longrightarrow>
   pbuf_bytes (p\<lparr>p_payload := mem_write off src (p_payload p)\<rparr>) = mem_write off src (pbuf_bytes p)"
  by (simp add: pbuf_bytes_def take_mem_write)

text \<open>
  What a write of \<open>src\<close> at offset \<open>off\<close> does to a chain: the byte string is overwritten
  there, and nothing else changes.
\<close>

definition chain_written :: "nat \<Rightarrow> bytes \<Rightarrow> pbuf list \<Rightarrow> pbuf list \<Rightarrow> bool" where
  "chain_written off src ps ps' \<longleftrightarrow>
     chain_bytes ps' = mem_write off src (chain_bytes ps)
     \<and> chain_frame ps' = chain_frame ps \<and> chain_ok ps'"

lemma chain_frame_tot_len: "chain_frame ps' = chain_frame ps \<Longrightarrow> chain_tot_len ps' = chain_tot_len ps"
  by (cases ps; cases ps') (auto dest: arg_cong [where f = p_tot_len])

lemma chain_written_prefix:
  assumes "chain_ok (pre @ qs)" "chain_written off src qs qs'"
    and "off + length src \<le> chain_tot_len qs"
  shows "chain_written (length (chain_bytes pre) + off) src (pre @ qs) (pre @ qs')"
proof -
  have "chain_tot_len qs' = chain_tot_len qs"
    using assms(2) by (intro chain_frame_tot_len) (simp add: chain_written_def)
  then have "chain_ok (pre @ qs')"
    using assms(1,2) chain_ok_replace by (auto simp: chain_written_def)
  then show ?thesis
    using assms(2) by (simp add: chain_written_def mem_write_append_right)
qed

lemma pbuf_take_loop_written:
  "chain_ok ps \<Longrightarrow> unat left \<le> chain_tot_len ps \<Longrightarrow>
   unat copied + unat left \<le> length dataptr \<Longrightarrow>  unat copied + unat left < 65536 \<Longrightarrow>
   \<exists>ps'. pbuf_take_loop ps dataptr left copied = Some ps'
     \<and> chain_written 0 (take (unat left) (drop (unat copied) dataptr)) ps ps'"
proof (induction ps arbitrary: left copied)
  case Nil
  then show ?case by (simp add: chain_written_def unat_eq_zero)
next
  case (Cons p ps)
  show ?case
  proof (cases "left = 0")
    case True
    with Cons.prems show ?thesis by (simp add: chain_written_def)
  next
    case False
    define n where "n = (if p_len p < left then p_len p else left)"
    have n: "unat n = min (unat (p_len p)) (unat left)"
      by (auto simp: n_def word_less_nat_alt)
    have m: "unat (left - n) = unat left - unat n"
      by (rule unat_diff_le) (auto simp: n_def)
    have c: "unat (copied + n) = unat copied + unat n"
      using Cons.prems n by (subst unat_add_nowrap) auto
    define src where "src = take (unat n) (drop (unat copied) dataptr)"
    have len_src: "length src = unat n"
      using Cons.prems n by (auto simp: src_def)
    have data: "take (unat left) (drop (unat copied) dataptr) =
        src @ take (unat left - unat n) (drop (unat copied + unat n) dataptr)"
    proof -
      have "unat left = unat n + (unat left - unat n)" using n by simp
      then have "take (unat left) (drop (unat copied) dataptr) =
          take (unat n) (drop (unat copied) dataptr)
          @ take (unat left - unat n) (drop (unat n) (drop (unat copied) dataptr))"
        by (metis take_add)
      then show ?thesis by (simp add: src_def add.commute)
    qed
    have "chain_ok ps" "unat (left - n) \<le> chain_tot_len ps"
      "unat (copied + n) + unat (left - n) \<le> length dataptr"
      "unat (copied + n) + unat (left - n) < 65536"
      using Cons.prems n m c by auto
    then obtain ps' where ps': "pbuf_take_loop ps dataptr (left - n) (copied + n) = Some ps'"
      "chain_written 0 (take (unat left - unat n) (drop (unat copied + unat n) dataptr)) ps ps'"
      using Cons.IH m c by metis
    define rest where "rest = take (unat left - unat n) (drop (unat copied + unat n) dataptr)"
    have len_rest: "length rest = unat left - unat n"
      using Cons.prems n by (auto simp: rest_def)
    define p' where "p' = p\<lparr>p_payload := mem_write 0 src (p_payload p)\<rparr>"
    have run: "pbuf_take_loop (p # ps) dataptr left copied = Some (p' # ps')"
      using False ps'(1) by (simp add: Let_def n_def [symmetric] src_def [symmetric] p'_def)
    have ok: "unat (p_len p) \<le> length (p_payload p)" using Cons.prems by simp
    have "pbuf_bytes p' = mem_write 0 src (pbuf_bytes p)"
      unfolding p'_def using ok len_src n by (intro pbuf_bytes_write) auto
    moreover have "mem_write 0 src (pbuf_bytes p) @ mem_write 0 rest (chain_bytes ps) =
        mem_write 0 (src @ rest) (pbuf_bytes p @ chain_bytes ps)"
    proof (cases "unat left \<le> unat (p_len p)")
      case True
      with n len_rest have "rest = []" by simp
      with True ok len_src n show ?thesis by (simp add: mem_write_append_left)
    next
      case False
      with n len_src ok have "length src = length (pbuf_bytes p)" by simp
      then show ?thesis by (simp add: mem_write_def)
    qed
    ultimately have "chain_bytes (p' # ps') = mem_write 0 (src @ rest) (chain_bytes (p # ps))"
      using ps'(2) by (simp add: chain_written_def rest_def)
    moreover have "length (mem_write 0 src (p_payload p)) = length (p_payload p)"
      using ok len_src n by (intro length_mem_write) simp
    then have "chain_frame (p' # ps') = chain_frame (p # ps)" "chain_ok (p' # ps')"
      using ps'(2) Cons.prems n len_src chain_frame_tot_len [of ps' ps]
      by (simp_all add: chain_written_def p'_def)
    ultimately show ?thesis
      using run data by (simp add: chain_written_def rest_def)
  qed
qed

lemma pbuf_take_written:
  assumes "chain_ok ps" "ps \<noteq> []" "unat len \<le> chain_tot_len ps" "unat len \<le> length dataptr"
  shows "\<exists>ps'. pbuf_take ps dataptr len = Some (ERR_OK, ps')
           \<and> chain_written 0 (take (unat len) dataptr) ps ps'"
proof -
  have "unat (0 :: u16) + unat len < 65536" by simp
  then obtain ps' where "pbuf_take_loop ps dataptr len 0 = Some ps'"
    "chain_written 0 (take (unat len) dataptr) ps ps'"
    using pbuf_take_loop_written [of ps len 0 dataptr] assms by auto
  moreover have "\<not> p_tot_len (hd ps) < len"
    using assms by (cases ps) (auto simp: word_less_nat_alt)
  ultimately show ?thesis
    using assms(2) by (cases ps) (auto simp: pbuf_take_def simp del: pbuf_take_loop.simps)
qed

text \<open>
  \<open>pbuf_take_at\<close> either overwrites the bytes at the offset, across segment boundaries, or
  refuses with \<open>ERR_MEM\<close> and leaves the chain alone. It accepts exactly the writes that
  start inside the chain and end inside it.
\<close>

lemma pbuf_take_at_refused:
  assumes ok: "chain_ok ps"
    and out: "chain_tot_len ps \<le> unat off \<or> chain_tot_len ps < unat off + unat len"
  shows "pbuf_take_at ps dataptr len off = Some (ERR_MEM, ps)"
proof -
  obtain qs t where skip: "pbuf_skip ps off = (qs, t)" by (cases "pbuf_skip ps off")
  obtain pre where pre: "ps = pre @ qs" "unat off = length (chain_bytes pre) + unat t"
    using pbuf_skip_suffix [OF ok skip] by blast
  have "chain_tot_len ps = length (chain_bytes pre) + chain_tot_len qs"
    using ok pre(1) chain_tot_len_append by blast
  with out pre pbuf_skip_Nil_iff [OF ok skip] skip show ?thesis
    by (cases qs) (auto simp: pbuf_take_at_def)
qed

lemma pbuf_take_at_first:
  assumes ok: "chain_ok (q # qs)" and t: "t < p_len q"
    and fits: "unat t + unat len \<le> unat (p_tot_len q)" and data: "unat len \<le> length dataptr"
  shows "\<exists>q' qs'. pbuf_take_at (q # qs) dataptr len t = Some (ERR_OK, q' # qs')
           \<and> chain_written (unat t) (take (unat len) dataptr) (q # qs) (q' # qs')"
proof -
  have skip: "pbuf_skip (q # qs) t = (q # qs, t)"
    using t by (simp add: linorder_not_less [symmetric])
  define n where "n = (if p_len q - t < len then p_len q - t else len)"
  define src where "src = take (unat n) dataptr"
  define q' where "q' = q\<lparr>p_payload := mem_write (unat t) src (p_payload q)\<rparr>"
  have tl: "unat t < unat (p_len q)" using t by (simp add: word_less_nat_alt)
  have "unat (p_len q - t) = unat (p_len q) - unat t"
    using t by (intro unat_diff_le) simp
  then have n: "unat n = min (unat (p_len q) - unat t) (unat len)"
    by (simp add: n_def word_less_nat_alt min_def)
  have m: "unat (len - n) = unat len - unat n"
    by (rule unat_diff_le) (auto simp: n_def)
  have len_src: "length src = unat n" using n data by (simp add: src_def)
  have lq: "unat (p_len q) \<le> length (p_payload q)" using ok by simp
  have q': "pbuf_bytes q' = mem_write (unat t) src (pbuf_bytes q)"
    unfolding q'_def using n tl lq len_src by (intro pbuf_bytes_write) auto
  have lq': "length (p_payload q') = length (p_payload q)"
    unfolding q'_def using n tl lq len_src by (simp add: length_mem_write)
  show ?thesis
  proof (cases "0 < len - n")
    case True
    then have pos: "0 < unat len - unat n" using m by (metis unat_gt_0 word_neq_0_conv)
    have n': "unat n = unat (p_len q) - unat t" using n pos by (auto simp: min_def split: if_splits)
    have "qs \<noteq> []" using ok fits pos n' tl by (cases qs) auto
    moreover have "chain_ok qs" "unat (len - n) \<le> chain_tot_len qs"
      "unat (len - n) \<le> length (drop (unat n) dataptr)"
      using ok fits m n' tl data by auto
    ultimately obtain qs' where qs':
      "pbuf_take qs (drop (unat n) dataptr) (len - n) = Some (ERR_OK, qs')"
      "chain_written 0 (take (unat (len - n)) (drop (unat n) dataptr)) qs qs'"
      using pbuf_take_written by blast
    have "pbuf_take_at (q # qs) dataptr len t = Some (ERR_OK, q' # qs')"
      using fits True qs'(1) skip
      by (simp add: pbuf_take_at_def Let_def n_def [symmetric] src_def [symmetric] q'_def del: pbuf_skip.simps)
    moreover have "take (unat len) dataptr = src @ take (unat len - unat n) (drop (unat n) dataptr)"
      using n' pos by (simp add: src_def take_add [symmetric])
    moreover have "length src = length (pbuf_bytes q) - unat t" "unat t \<le> length (pbuf_bytes q)"
      using len_src n' lq tl by simp_all
    ultimately have "chain_bytes (q' # qs') =
        mem_write (unat t) (take (unat len) dataptr) (chain_bytes (q # qs))"
      using qs'(2) m q' by (simp add: chain_written_def mem_write_split)
    with \<open>pbuf_take_at _ _ _ _ = _\<close> qs'(2) ok lq' chain_frame_tot_len [of qs' qs]
    show ?thesis by (auto simp: chain_written_def q'_def)
  next
    case False
    then have "len = n" by (metis eq_iff_diff_eq_0 word_gt_0)
    have "pbuf_take_at (q # qs) dataptr len t = Some (ERR_OK, q' # qs)"
      using fits False skip
      by (simp add: pbuf_take_at_def Let_def n_def [symmetric] src_def [symmetric] q'_def not_le del: pbuf_skip.simps)
    moreover have "chain_bytes (q' # qs) = mem_write (unat t) src (chain_bytes (q # qs))"
      using q' n tl lq len_src by (simp add: mem_write_append_left)
    ultimately show ?thesis
      using \<open>len = n\<close> ok lq' by (auto simp: chain_written_def src_def q'_def)
  qed
qed

lemma pbuf_take_at_written:
  assumes ok: "chain_ok ps" and data: "unat len \<le> length dataptr"
    and fits: "unat off < chain_tot_len ps" "unat off + unat len \<le> chain_tot_len ps"
  shows "\<exists>ps'. pbuf_take_at ps dataptr len off = Some (ERR_OK, ps')
           \<and> chain_written (unat off) (take (unat len) dataptr) ps ps'"
proof -
  obtain qs t where skip: "pbuf_skip ps off = (qs, t)" by (cases "pbuf_skip ps off")
  obtain pre where pre: "ps = pre @ qs" "unat off = length (chain_bytes pre) + unat t"
    "qs \<noteq> [] \<longrightarrow> t < p_len (hd qs)"
    using pbuf_skip_suffix [OF ok skip] by blast
  from fits obtain q qs0 where qs: "qs = q # qs0"
    using pbuf_skip_Nil_iff [OF ok skip] by (cases qs) auto
  have okq: "chain_ok (q # qs0)" using ok pre(1) qs chain_ok_append by blast
  have tot: "chain_tot_len ps = length (chain_bytes pre) + unat (p_tot_len q)"
    using ok pre(1) qs chain_tot_len_append by fastforce
  have t: "t < p_len q" using pre(3) qs by simp
  have "unat t + unat len \<le> unat (p_tot_len q)" using fits(2) pre(2) tot by simp
  then obtain q' qs' where at: "pbuf_take_at (q # qs0) dataptr len t = Some (ERR_OK, q' # qs')"
    and wr: "chain_written (unat t) (take (unat len) dataptr) (q # qs0) (q' # qs')"
    using pbuf_take_at_first [OF okq t _ data] by blast
  have "pbuf_skip (q # qs0) t = (q # qs0, t)" using t by (simp add: linorder_not_less [symmetric])
  with at skip qs pre(1) have "pbuf_take_at ps dataptr len off = Some (ERR_OK, pre @ q' # qs')"
    by (auto simp: pbuf_take_at_def Let_def split: if_splits prod.splits)
  moreover have "chain_written (unat off) (take (unat len) dataptr) (pre @ qs) (pre @ q' # qs')"
    unfolding pre(2) qs
    using ok pre(1) qs wr \<open>unat t + unat len \<le> unat (p_tot_len q)\<close>
    by (intro chain_written_prefix) simp_all
  ultimately show ?thesis using pre(1) by blast
qed

lemma list_update_mem_write: "i < length xs \<Longrightarrow> xs[i := v] = mem_write i [v] xs"
  by (simp add: mem_write_def upd_conv_take_nth_drop)

lemma pbuf_put_at_written:
  assumes ok: "chain_ok ps" and inside: "unat off < chain_tot_len ps"
  shows "chain_written (unat off) [v] ps (pbuf_put_at ps off v)"
proof -
  obtain qs t where skip: "pbuf_skip ps off = (qs, t)" by (cases "pbuf_skip ps off")
  obtain pre where pre: "ps = pre @ qs" "unat off = length (chain_bytes pre) + unat t"
    "qs \<noteq> [] \<longrightarrow> t < p_len (hd qs)"
    using pbuf_skip_suffix [OF ok skip] by blast
  from inside obtain q qs0 where qs: "qs = q # qs0"
    using pbuf_skip_Nil_iff [OF ok skip] by (cases qs) auto
  have okq: "chain_ok (q # qs0)" using ok pre(1) qs chain_ok_append by blast
  have t: "t < p_len q" "unat t < unat (p_len q)"
    using pre(3) qs by (simp_all add: word_less_nat_alt)
  let ?q = "q\<lparr>p_payload := (p_payload q)[unat t := v]\<rparr>"
  have "?q = q\<lparr>p_payload := mem_write (unat t) [v] (p_payload q)\<rparr>"
    using t okq by (simp add: list_update_mem_write)
  then have "pbuf_bytes ?q = mem_write (unat t) [v] (pbuf_bytes q)"
    using t okq by (simp add: pbuf_bytes_write del: list_update_mem_write)
  then have "chain_written (unat t) [v] (q # qs0) (?q # qs0)"
    using okq t by (simp add: chain_written_def mem_write_append_left)
  then have "chain_written (unat off) [v] (pre @ qs) (pre @ ?q # qs0)"
    unfolding pre(2) qs using ok pre(1) qs t okq by (intro chain_written_prefix) simp_all
  moreover have "pbuf_put_at ps off v = pre @ ?q # qs0"
    using skip qs pre(1) t by (simp add: pbuf_put_at_def)
  ultimately show ?thesis using pre(1) by simp
qed

lemma pbuf_put_at_ignored:
  assumes "chain_ok ps" "chain_tot_len ps \<le> unat off"
  shows "pbuf_put_at ps off v = ps"
  using assms pbuf_skip_Nil_iff [OF assms(1)]
  by (cases "pbuf_skip ps off") (auto simp: pbuf_put_at_def split: list.splits)

subsection \<open>Comparing and searching\<close>

lemma pbuf_memcmp_loop_zero_iff:
  assumes "chain_ok q"
  shows "unat start + unat i + length s2 \<le> chain_tot_len q \<Longrightarrow>
   pbuf_memcmp_loop q start s2 i = 0 \<longleftrightarrow>
     take (length s2) (drop (unat start + unat i) (chain_bytes q)) = s2"
proof (induction s2 arbitrary: i)
  case Nil
  then show ?case by simp
next
  case (Cons b s2)
  have tot: "chain_tot_len q < 65536" by simp
  have small: "unat start + unat i + 1 < 65536"
    using Cons.prems tot unfolding list.size by linarith
  then have i1: "unat (i + 1) = unat i + 1"
    by (subst unat_add_nowrap) auto
  then have "i + 1 \<noteq> 0" by (metis add_is_0 one_neq_zero unat_0)
  moreover have si: "unat (start + i) = unat start + unat i"
    using small by (subst unat_add_nowrap) auto
  moreover have "take (length (b # s2)) (drop (unat start + unat i) (chain_bytes q)) =
      chain_bytes q ! (unat start + unat i)
      # take (length s2) (drop (unat start + unat (i + 1)) (chain_bytes q))"
    using Cons.prems assms i1 by (simp flip: Cons_nth_drop_Suc)
  ultimately show ?case
    using Cons.prems assms Cons.IH [of "i + 1"] i1 by (simp add: pbuf_get_at_eq)
qed

text \<open>
  Inside the chain, \<open>pbuf_memcmp\<close> returns 0 exactly when the \<open>n\<close> bytes at the offset are
  the bytes compared with.
\<close>

lemma pbuf_memcmp_zero_iff:
  assumes ok: "chain_ok p" and n: "unat n \<le> length s2"
    and inside: "unat off < chain_tot_len p" "unat off + unat n \<le> chain_tot_len p"
  shows "pbuf_memcmp p off s2 n = 0 \<longleftrightarrow>
           take (unat n) (drop (unat off) (chain_bytes p)) = take (unat n) s2"
proof -
  obtain qs t where skip: "pbuf_skip p off = (qs, t)" by (cases "pbuf_skip p off")
  obtain pre where pre: "p = pre @ qs" "unat off = length (chain_bytes pre) + unat t"
    "qs \<noteq> [] \<longrightarrow> t < p_len (hd qs)"
    using pbuf_skip_suffix [OF ok skip] by blast
  from inside obtain q qs0 where qs: "qs = q # qs0"
    using pbuf_skip_Nil_iff [OF ok skip] by (cases qs) auto
  have okq: "chain_ok qs" using ok pre(1) chain_ok_append by blast
  have "chain_tot_len p = length (chain_bytes pre) + chain_tot_len qs"
    using ok pre(1) chain_tot_len_append by blast
  with inside pre(2) n have "unat t + unat (0 :: u16) + length (take (unat n) s2) \<le> chain_tot_len qs"
    by simp
  from pbuf_memcmp_loop_zero_iff [OF okq this] show ?thesis
    using skip qs pre n by (simp add: pbuf_memcmp_def)
qed

lemma pbuf_memcmp_outside:
  "chain_ok p \<Longrightarrow> chain_tot_len p \<le> unat off \<Longrightarrow> pbuf_memcmp p off s2 n = 0xffff"
  using pbuf_skip_Nil_iff [of p off]
  by (cases "pbuf_skip p off") (auto simp: pbuf_memcmp_def split: list.splits)

text \<open>\<open>occurs_at\<close> is the specification of the search.\<close>

definition occurs_at :: "bytes \<Rightarrow> bytes \<Rightarrow> nat \<Rightarrow> bool" where
  "occurs_at mem bs i \<longleftrightarrow> i + length mem \<le> length bs \<and> take (length mem) (drop i bs) = mem"

lemma pbuf_memfind_loop_found:
  assumes ok: "chain_ok p" and mem: "mem \<noteq> []" "unat mem_len = length mem"
    and mx: "unat mx + length mem = chain_tot_len p" "chain_tot_len p < 0xFFFF"
  shows "unat i \<le> unat mx + 1 \<Longrightarrow> unat mx + 1 < unat i + fuel \<Longrightarrow>
    \<exists>r. pbuf_memfind_loop fuel p mem mem_len i mx = Some r
      \<and> (if r = 0xFFFF then \<forall>k \<ge> unat i. \<not> occurs_at mem (chain_bytes p) k
         else unat i \<le> unat r \<and> occurs_at mem (chain_bytes p) (unat r)
              \<and> (\<forall>k. unat i \<le> k \<and> k < unat r \<longrightarrow> \<not> occurs_at mem (chain_bytes p) k))"
proof (induction fuel arbitrary: i)
  case 0
  then show ?case by simp
next
  case (Suc fuel)
  have len: "length (chain_bytes p) = chain_tot_len p" using ok by simp
  show ?case
  proof (cases "i \<le> mx")
    case False
    then have "unat mx < unat i" by (simp add: word_le_nat_alt)
    then have "\<forall>k \<ge> unat i. \<not> occurs_at mem (chain_bytes p) k"
      using mx(1) len by (auto simp: occurs_at_def)
    with False show ?thesis by simp
  next
    case True
    then have le: "unat i \<le> unat mx" by (simp add: word_le_nat_alt)
    have nz: "0 < length mem" using mem(1) by simp
    have here: "pbuf_memcmp p i mem mem_len = 0 \<longleftrightarrow> occurs_at mem (chain_bytes p) (unat i)"
      using pbuf_memcmp_zero_iff [OF ok, of mem_len mem i] le nz mx(1) mem(2) len
      by (simp add: occurs_at_def)
    show ?thesis
    proof (cases "pbuf_memcmp p i mem mem_len = 0")
      case found: True
      have "i \<noteq> 0xFFFF"
      proof
        assume "i = 0xFFFF"
        then have "unat i = 0xFFFF" by simp
        with le mx show False by simp
      qed
      with found True here show ?thesis by auto
    next
      case not_here: False
      have i1: "unat (i + 1) = unat i + 1"
        using le mx by (subst unat_add_nowrap) auto
      then obtain r where r: "pbuf_memfind_loop fuel p mem mem_len (i + 1) mx = Some r"
        and spec: "if r = 0xFFFF then \<forall>k \<ge> unat (i + 1). \<not> occurs_at mem (chain_bytes p) k
         else unat (i + 1) \<le> unat r \<and> occurs_at mem (chain_bytes p) (unat r)
              \<and> (\<forall>k. unat (i + 1) \<le> k \<and> k < unat r \<longrightarrow> \<not> occurs_at mem (chain_bytes p) k)"
        using Suc.IH [of "i + 1"] Suc.prems le by auto
      have step: "k = unat i \<or> unat (i + 1) \<le> k" if "unat i \<le> k" for k
        using that i1 by auto
      have "pbuf_memfind_loop (Suc fuel) p mem mem_len i mx = Some r"
        using True not_here r by simp
      moreover have "if r = 0xFFFF then \<forall>k \<ge> unat i. \<not> occurs_at mem (chain_bytes p) k
         else unat i \<le> unat r \<and> occurs_at mem (chain_bytes p) (unat r)
              \<and> (\<forall>k. unat i \<le> k \<and> k < unat r \<longrightarrow> \<not> occurs_at mem (chain_bytes p) k)"
        using spec step not_here here i1 by (auto split: if_splits)
      ultimately show ?thesis by blast
    qed
  qed
qed

text \<open>
  \<open>pbuf_memfind\<close> on a non-empty pattern returns (65537 rounds are enough) and finds the
  first occurrence at or after \<open>start_offset\<close>, or 0xFFFF when there is none.
\<close>

lemma pbuf_memfind_first:
  assumes ok: "chain_ok p" "p \<noteq> []" and mem: "mem \<noteq> []" "unat mem_len = length mem"
    and tot: "chain_tot_len p < 0xFFFF"
  shows "\<exists>r. pbuf_memfind p mem mem_len start = Some r
      \<and> (if r = 0xFFFF then \<forall>k \<ge> unat start. \<not> occurs_at mem (chain_bytes p) k
         else unat start \<le> unat r \<and> occurs_at mem (chain_bytes p) (unat r)
              \<and> (\<forall>k. unat start \<le> k \<and> k < unat r \<longrightarrow> \<not> occurs_at mem (chain_bytes p) k))"
proof -
  obtain h ps where p: "p = h # ps" using ok(2) by (cases p) auto
  have h: "unat (p_tot_len h) = chain_tot_len p" using p by simp
  have len: "length (chain_bytes p) = chain_tot_len p" using ok(1) by simp
  show ?thesis
  proof (cases "unat mem_len + unat start \<le> unat (p_tot_len h)")
    case True
    then have "mem_len \<le> p_tot_len h" by (simp add: word_le_nat_alt)
    then have mx: "unat (p_tot_len h - mem_len) + length mem = chain_tot_len p"
      using True mem(2) h by (simp add: unat_diff_le)
    have "unat start \<le> unat (p_tot_len h - mem_len) + 1"
      "unat (p_tot_len h - mem_len) + 1 < unat start + 65537"
      using True mem(2) h mx tot by auto
    from pbuf_memfind_loop_found [OF ok(1) mem mx tot this] show ?thesis
      using p True by (simp add: pbuf_memfind_def)
  next
    case False
    then have "\<forall>k \<ge> unat start. \<not> occurs_at mem (chain_bytes p) k"
      using mem(2) h len by (auto simp: occurs_at_def)
    with False p show ?thesis by (simp add: pbuf_memfind_def)
  qed
qed

subsection \<open>Properties\<close>

definition seg :: "bytes \<Rightarrow> nat \<Rightarrow> pbuf" where
  "seg d tot = \<lparr>p_addr = 0x1000, p_payload = d, p_tot_len = of_nat tot, p_len = of_nat (length d),
     p_type = PBUF_POOL, p_flags = 0, p_ref = 1\<rparr>"

text \<open>\<open>pbuf_copy_partial\<close> copies the slice of the packet that starts at the offset,
  across segment boundaries, cut at the end of the packet, and returns its length.\<close>

theorem pbuf_copy_partial_slice:
  assumes "chain_ok buf"
  shows "pbuf_copy_partial buf len offset =
     (of_nat (length (take (unat len) (drop (unat offset) (chain_bytes buf)))),
      take (unat len) (drop (unat offset) (chain_bytes buf)))"
  using pbuf_copy_partial_eq [OF assms] assms by (simp add: min.commute)

theorem pbuf_copy_partial_slice_witness:
  "pbuf_copy_partial [seg [1, 2] 5, seg [] 3, seg [3, 4, 5] 3] 9 1 = (4, [2, 3, 4, 5])"
  using pbuf_copy_partial_slice [of "[seg [1, 2] 5, seg [] 3, seg [3, 4, 5] 3]" 9 1]
  by (simp add: seg_def pbuf_bytes_def)

text \<open>\<open>pbuf_take_at\<close> on a well-formed chain always returns. A write that starts and ends
  inside the packet is carried out: the packet's bytes are overwritten at the offset,
  across segments, and no length, type or reference count changes. Any other write is
  refused with \<open>ERR_MEM\<close> and the chain is left untouched.\<close>

theorem pbuf_take_at_total:
  assumes "chain_ok buf" "unat len \<le> length dataptr"
  shows "\<exists>err buf'. pbuf_take_at buf dataptr len offset = Some (err, buf')
    \<and> (if unat offset < chain_tot_len buf \<and> unat offset + unat len \<le> chain_tot_len buf
       then err = ERR_OK \<and> chain_ok buf' \<and> chain_frame buf' = chain_frame buf
            \<and> chain_bytes buf' = mem_write (unat offset) (take (unat len) dataptr) (chain_bytes buf)
       else err = ERR_MEM \<and> buf' = buf)"
proof (cases "unat offset < chain_tot_len buf \<and> unat offset + unat len \<le> chain_tot_len buf")
  case True
  with pbuf_take_at_written [OF assms] show ?thesis by (auto simp: chain_written_def)
next
  case False
  with pbuf_take_at_refused [OF assms(1)] show ?thesis by (auto simp: not_less not_le)
qed

theorem pbuf_take_at_total_witness:
  "\<exists>err buf'. pbuf_take_at [seg [1, 2] 5, seg [3, 4, 5] 3] [8, 9] 2 1 = Some (err, buf')
     \<and> err = ERR_OK \<and> chain_bytes buf' = [1, 8, 9, 4, 5]"
proof -
  let ?p = "[seg [1, 2] 5, seg [3, 4, 5] 3]"
  have "chain_ok ?p" "unat (2 :: u16) \<le> length [8 :: u8, 9]" by (simp_all add: seg_def)
  moreover have "unat (1 :: u16) < chain_tot_len ?p \<and> unat (1 :: u16) + unat (2 :: u16) \<le> chain_tot_len ?p"
    by (simp add: seg_def)
  moreover have "mem_write (unat (1 :: u16)) (take (unat (2 :: u16)) [8, 9]) (chain_bytes ?p) = [1, 8, 9, 4, 5]"
    by (simp add: seg_def pbuf_bytes_def mem_write_def)
  ultimately show ?thesis using pbuf_take_at_total [of ?p 2 "[8, 9]" 1] by metis
qed

text \<open>What \<open>pbuf_take_at\<close> has written is what \<open>pbuf_copy_partial\<close> reads back from the
  same place, and \<open>pbuf_memcmp\<close> finds it equal.\<close>

theorem pbuf_take_at_read_back:
  assumes "chain_ok buf" "length dataptr = unat len"
    and "pbuf_take_at buf dataptr len offset = Some (ERR_OK, buf')"
  shows "pbuf_copy_partial buf' len offset = (len, dataptr) \<and> pbuf_memcmp buf' offset dataptr len = 0"
proof -
  have fits: "unat offset < chain_tot_len buf" "unat offset + unat len \<le> chain_tot_len buf"
    using assms(1,3) pbuf_take_at_refused [of buf offset len dataptr] by fastforce+
  then have wr: "chain_written (unat offset) dataptr buf buf'"
    using pbuf_take_at_written [OF assms(1), of len dataptr offset] assms(2,3) by simp
  then have ok: "chain_ok buf'" and tot: "chain_tot_len buf' = chain_tot_len buf"
    using chain_frame_tot_len [of buf' buf] by (simp_all add: chain_written_def)
  have slice: "take (unat len) (drop (unat offset) (chain_bytes buf')) = dataptr"
    using wr fits assms(1,2) by (simp add: chain_written_def mem_write_def)
  have "pbuf_copy_partial buf' len offset = (len, dataptr)"
    using pbuf_copy_partial_eq [OF ok, of len offset] slice tot
      min_absorb1 [of "unat len" "chain_tot_len buf - unat offset"] fits by simp
  moreover have "pbuf_memcmp buf' offset dataptr len = 0"
    using pbuf_memcmp_zero_iff [OF ok, of len dataptr offset] slice fits tot assms(2) by simp
  ultimately show ?thesis ..
qed

theorem pbuf_take_at_read_back_witness:
  "pbuf_copy_partial [seg [1, 8] 5, seg [9, 4, 5] 3] 2 1 = (2, [8, 9])
   \<and> pbuf_memcmp [seg [1, 8] 5, seg [9, 4, 5] 3] 1 [8, 9] 2 = 0"
  by (rule pbuf_take_at_read_back [of "[seg [1, 2] 5, seg [3, 4, 5] 3]"])
    (simp_all add: seg_def pbuf_take_at_def pbuf_take_def mem_write_def word_le_nat_alt)

text \<open>\<open>pbuf_put_at\<close> sets the byte at an index inside the packet and ignores an index
  outside, and \<open>pbuf_get_at\<close> sees exactly that change.\<close>

theorem pbuf_get_put_at:
  assumes "chain_ok p"
  shows "pbuf_get_at (pbuf_put_at p i data) j =
     (if i = j \<and> unat i < chain_tot_len p then data else pbuf_get_at p j)"
proof (cases "unat i < chain_tot_len p")
  case True
  from pbuf_put_at_written [OF assms True, of data]
  have wr: "chain_bytes (pbuf_put_at p i data) = mem_write (unat i) [data] (chain_bytes p)"
    and ok: "chain_ok (pbuf_put_at p i data)"
    and tot: "chain_tot_len (pbuf_put_at p i data) = chain_tot_len p"
    using chain_frame_tot_len [of "pbuf_put_at p i data" p] by (simp_all add: chain_written_def)
  have "unat i = unat j \<longleftrightarrow> i = j" by (simp add: word_unat_eq_iff)
  with True assms wr tot show ?thesis
    unfolding pbuf_get_at_eq [OF ok] pbuf_get_at_eq [OF assms]
    by (auto simp: nth_mem_write)
next
  case False
  with pbuf_put_at_ignored [OF assms] show ?thesis by simp
qed

theorem pbuf_get_put_at_witness:
  "pbuf_get_at (pbuf_put_at [seg [1, 2] 5, seg [3, 4, 5] 3] 3 7) 3 = 7"
  using pbuf_get_put_at [of "[seg [1, 2] 5, seg [3, 4, 5] 3]" 3 7 3] by (simp add: seg_def)

text \<open>\<open>pbuf_strstr\<close> always returns on a packet shorter than 65535 bytes: the position of
  the first occurrence of the string in the packet's bytes, wherever it is cut by
  segments, or 0xFFFF when the string is empty or does not occur.\<close>

theorem pbuf_strstr_first:
  assumes "chain_ok p" "p \<noteq> []" "chain_tot_len p < 0xFFFF"
  shows "\<exists>r. pbuf_strstr p substr = Some r
    \<and> (if r = 0xFFFF then substr = [] \<or> (\<forall>k. \<not> occurs_at substr (chain_bytes p) k)
       else occurs_at substr (chain_bytes p) (unat r)
            \<and> (\<forall>k. k < unat r \<longrightarrow> \<not> occurs_at substr (chain_bytes p) k))"
proof (cases "substr = [] \<or> 0xFFFF \<le> length substr")
  case True
  have "\<not> occurs_at substr (chain_bytes p) k" if "0xFFFF \<le> length substr" for k
    using that assms by (simp add: occurs_at_def)
  with True assms(2) show ?thesis
    by (intro exI [of _ "0xFFFF"]) (auto simp: pbuf_strstr_def split: list.split)
next
  case False
  then have len: "substr \<noteq> []" "unat (of_nat (length substr) :: u16) = length substr"
    by (simp_all add: unsigned_of_nat take_bit_nat_eq_self)
  have "p_tot_len (hd p) \<noteq> 0xFFFF"
    using assms(2,3) by (cases p) auto
  then have run: "pbuf_strstr p substr = pbuf_memfind p substr (of_nat (length substr)) 0"
    using False assms(2) by (cases p) (simp_all add: pbuf_strstr_def)
  from pbuf_memfind_first [OF assms(1,2) len assms(3), of 0] obtain r
    where r: "pbuf_memfind p substr (of_nat (length substr)) 0 = Some r"
      "if r = 0xFFFF then \<forall>k \<ge> unat (0 :: u16). \<not> occurs_at substr (chain_bytes p) k
       else unat (0 :: u16) \<le> unat r \<and> occurs_at substr (chain_bytes p) (unat r)
         \<and> (\<forall>k. unat (0 :: u16) \<le> k \<and> k < unat r \<longrightarrow> \<not> occurs_at substr (chain_bytes p) k)"
    by blast
  from r(2) show ?thesis unfolding run r(1) by (intro exI [of _ r]) (simp split: if_splits)
qed

theorem pbuf_strstr_first_witness:
  "\<exists>r. pbuf_strstr [seg [71, 69] 5, seg [84, 32, 47] 3] [69, 84] = Some r
    \<and> (if r = 0xFFFF then ([69, 84] :: bytes) = [] \<or> (\<forall>k. \<not> occurs_at [69, 84] [71, 69, 84, 32, 47] k)
       else occurs_at [69, 84] [71, 69, 84, 32, 47] (unat r)
            \<and> (\<forall>k. k < unat r \<longrightarrow> \<not> occurs_at [69, 84] [71, 69, 84, 32, 47] k))"
proof -
  let ?p = "[seg [71, 69] 5, seg [84, 32, 47] 3]"
  have "chain_ok ?p" "?p \<noteq> []" "chain_tot_len ?p < 0xFFFF" by (simp_all add: seg_def)
  moreover have "chain_bytes ?p = [71, 69, 84, 32, 47]" by (simp add: seg_def pbuf_bytes_def)
  ultimately show ?thesis using pbuf_strstr_first [of ?p "[69, 84]"] by metis
qed

end
