(* ===== verification/Chksum.thy ===== *)
theory Chksum
  imports ByteOrder Pbuf
begin

text \<open>
  The three interchangeable versions of \<open>lwip_standard_chksum\<close> (\<open>core/inet_chksum.c\<close>)
  among which \<open>LWIP_CHKSUM_ALGORITHM\<close> chooses, with the arithmetic of ones' complement
  sums; each of the three returns the ones' complement sum of the block.
\<close>

subsection \<open>Macros of inet_chksum.h\<close>

definition FOLD_U32T :: "u32 \<Rightarrow> u32" where
  "FOLD_U32T u = drop_bit 16 u + (u AND 0xffff)"

definition SWAP_BYTES_IN_WORD :: "u32 \<Rightarrow> u32" where
  "SWAP_BYTES_IN_WORD w = push_bit 8 (w AND 0xff) OR drop_bit 8 (w AND 0xff00)"

subsection \<open>Version 1: octet by octet\<close>

fun chksum1_loop :: "u32 \<Rightarrow> bytes \<Rightarrow> u32" where
  "chksum1_loop acc (a # b # octets) =
     (let src = push_bit 8 (ucast a) OR ucast b :: u16
      in chksum1_loop (acc + ucast src) octets)"
| "chksum1_loop acc [a] = (let src = push_bit 8 (ucast a) :: u16 in acc + ucast src)"
| "chksum1_loop acc [] = acc"

definition lwip_standard_chksum_1 :: "bytes \<Rightarrow> u16" where
  "lwip_standard_chksum_1 octets =
     (let acc = chksum1_loop 0 octets;
          acc = drop_bit 16 acc + (acc AND 0xffff);
          acc = (if acc AND 0xffff0000 \<noteq> 0 then drop_bit 16 acc + (acc AND 0xffff) else acc)
      in lwip_htons (ucast acc))"

subsection \<open>Version 2: 16 bits at a time\<close>

fun chksum2_loop :: "u32 \<Rightarrow> bytes \<Rightarrow> u32 \<times> bytes" where
  "chksum2_loop sm (a # b # ps) = chksum2_loop (sm + ucast (le16 a b)) ps"
| "chksum2_loop sm ps = (sm, ps)"

text \<open>
  \<open>t\<close> holds the bytes at the ends: its high byte the first one when the buffer starts at
  an odd address, its low byte the last one when a single byte is left over.
\<close>

definition lwip_standard_chksum_2 :: "u32 \<Rightarrow> bytes \<Rightarrow> u16" where
  "lwip_standard_chksum_2 pb octets =
     (let odd = (pb AND 1 \<noteq> 0);
          (t1, ps) = (case octets of
                        b # rest \<Rightarrow> if odd then (b, rest) else (0, octets)
                      | [] \<Rightarrow> (0, octets));
          (sm, left) = chksum2_loop 0 ps;
          t0 = (case left of [] \<Rightarrow> 0 | c # _ \<Rightarrow> c);
          sm = sm + ucast (le16 t0 t1);
          sm = FOLD_U32T sm;
          sm = FOLD_U32T sm;
          sm = (if odd then SWAP_BYTES_IN_WORD sm else sm)
      in ucast sm)"

subsection \<open>Version 3: 32 bits at a time, unrolled\<close>

text \<open>One addition with the carry added back in.\<close>

definition add_carry :: "u32 \<Rightarrow> u32 \<Rightarrow> u32" where
  "add_carry s w = (let tmp = s + w in if tmp < s then tmp + 1 else tmp)"

fun chksum3_loop :: "u32 \<Rightarrow> bytes \<Rightarrow> u32 \<times> bytes" where
  "chksum3_loop sm (a # b # c # d # e # f # g # h # pl) =
     chksum3_loop (add_carry (add_carry sm (le32 a b c d)) (le32 e f g h)) pl"
| "chksum3_loop sm pl = (sm, pl)"

definition lwip_standard_chksum_3 :: "u32 \<Rightarrow> bytes \<Rightarrow> u16" where
  "lwip_standard_chksum_3 pb octets =
     (let odd = (pb AND 1 \<noteq> 0);
          (t1, pb, ps) = (case octets of
                        b # rest \<Rightarrow> if odd then (b, pb + 1, rest) else (0, pb, octets)
                      | [] \<Rightarrow> (0, pb, octets));
          (sm, pl) = (case ps of
                         a # b # rest \<Rightarrow> if pb AND 3 \<noteq> 0 then (ucast (le16 a b), rest) else (0, ps)
                       | _ \<Rightarrow> (0, ps));
          (sm, ps) = chksum3_loop sm pl;
          sm = FOLD_U32T sm;
          (sm, left) = chksum2_loop sm ps;
          t0 = (case left of [] \<Rightarrow> 0 | c # _ \<Rightarrow> c);
          sm = sm + ucast (le16 t0 t1);
          sm = FOLD_U32T sm;
          sm = FOLD_U32T sm;
          sm = (if odd then SWAP_BYTES_IN_WORD sm else sm)
      in ucast sm)"

subsection \<open>Ones' complement sums\<close>

text \<open>
  \<open>sum_le\<close> is the sum of a block read as 16-bit words of the target (the first byte of
  each pair is the low one, a last single byte is padded with zero), \<open>sum_be\<close> the sum of
  the same words in network order. \<open>ocs\<close> brings a sum to the value ones' complement
  addition gives: congruent modulo 65535, and zero only for the sum zero.
\<close>

fun sum_le :: "bytes \<Rightarrow> nat" where
  "sum_le (a # b # ws) = unat a + 256 * unat b + sum_le ws"
| "sum_le [a] = unat a"
| "sum_le [] = 0"

fun sum_be :: "bytes \<Rightarrow> nat" where
  "sum_be (a # b # ws) = 256 * unat a + unat b + sum_be ws"
| "sum_be [a] = 256 * unat a"
| "sum_be [] = 0"

definition ocs :: "nat \<Rightarrow> nat" where
  "ocs n = (if n = 0 then 0 else if n mod 65535 = 0 then 65535 else n mod 65535)"

lemma ocs_0 [simp]: "ocs 0 = 0"
  by (simp add: ocs_def)

lemma ocs_eq_0_iff [simp]: "ocs n = 0 \<longleftrightarrow> n = 0"
  by (simp add: ocs_def)

lemma ocs_le [simp]: "ocs n \<le> 65535"
  by (simp add: ocs_def)

lemma ocs_lt [simp]: "ocs n < 65536"
  using ocs_le [of n] by linarith

lemma ocs_mod [simp]: "ocs n mod 65535 = n mod 65535"
  by (simp add: ocs_def)

lemma ocs_id: "n \<le> 65535 \<Longrightarrow> ocs n = n"
  by (cases "n = 65535") (simp_all add: ocs_def)

lemma ocs_eqI: "a mod 65535 = b mod 65535 \<Longrightarrow> (a = 0 \<longleftrightarrow> b = 0) \<Longrightarrow> ocs a = ocs b"
  by (simp add: ocs_def)

lemma ocs_ocs [simp]: "ocs (ocs n) = ocs n"
  by (simp add: ocs_id)

lemma ocs_add_cong: "ocs a = ocs a' \<Longrightarrow> ocs b = ocs b' \<Longrightarrow> ocs (a + b) = ocs (a' + b')"
  by (rule ocs_eqI) (metis mod_add_cong ocs_mod, metis add_is_0 ocs_eq_0_iff)

lemma ocs_mult_cong: "ocs a = ocs b \<Longrightarrow> ocs (k * a) = ocs (k * b)"
  by (rule ocs_eqI) (metis mod_mult_cong ocs_mod, metis mult_is_0 ocs_eq_0_iff)

lemma ocs_add_left [simp]: "ocs (ocs a + b) = ocs (a + b)"
  by (rule ocs_add_cong) simp_all

lemma ocs_add_right [simp]: "ocs (a + ocs b) = ocs (a + b)"
  by (rule ocs_add_cong) simp_all

lemma ocs_mult [simp]: "ocs (k * ocs a) = ocs (k * a)"
  by (rule ocs_mult_cong) simp

text \<open>A carry out of 16 bits counts one.\<close>

lemma ocs_carry: "ocs (a + 65536 * b) = ocs (a + b)"
proof (rule ocs_eqI)
  have "a + 65536 * b = (a + b) + b * 65535" by simp
  then show "(a + 65536 * b) mod 65535 = (a + b) mod 65535"
    by (metis mod_mult_self1)
qed simp

lemma ocs_carry_left: "ocs (65536 * b + a) = ocs (a + b)"
  using ocs_carry [of a b] by (simp add: add.commute)

lemma ocs_65536 [simp]: "ocs (65536 * n) = ocs n"
  using ocs_carry [of 0 n] by simp

lemma ocs_swap: "ocs (256 * (256 * h + l)) = ocs (256 * l + h)"
  using ocs_carry [of "256 * l" h] by (simp add: algebra_simps)

subsection \<open>Folding and swapping\<close>

lemma masks_32: "(0xffff :: u32) = mask 16" "(0xffff0000 :: u32) = push_bit 16 (mask 16)"
  by (simp_all add: mask_numeral)

lemma unat_FOLD_U32T: "unat (FOLD_U32T u) = unat u div 65536 + unat u mod 65536"
proof -
  have "unat u div 65536 < 65536"
    using unat_lt_32 [of u] by (simp add: less_mult_imp_div_less)
  moreover have "unat u mod 65536 < 65536" by simp
  ultimately show ?thesis
    unfolding FOLD_U32T_def masks_32
    by (subst unat_add_nowrap) (simp_all add: unat_drop_bit_div unat_and_mask_mod)
qed

lemma ocs_FOLD_U32T [simp]: "ocs (unat (FOLD_U32T u)) = ocs (unat u)"
proof -
  have "ocs (unat u) = ocs (unat u mod 65536 + 65536 * (unat u div 65536))" by simp
  also have "\<dots> = ocs (unat u mod 65536 + unat u div 65536)" by (rule ocs_carry)
  finally show ?thesis by (simp add: unat_FOLD_U32T add.commute)
qed

lemma FOLD_U32T_le: "unat u \<le> 131070 \<Longrightarrow> unat (FOLD_U32T u) \<le> 65535"
proof -
  assume u: "unat u \<le> 131070"
  have "unat u = 65536 * (unat u div 65536) + unat u mod 65536" by simp
  moreover have "unat u mod 65536 < 65536" by simp
  moreover have "unat u div 65536 = 0 \<or> unat u div 65536 = 1" using u by auto
  ultimately show "unat (FOLD_U32T u) \<le> 65535"
    using u unfolding unat_FOLD_U32T by linarith
qed

lemma unat_FOLD_small: "unat u \<le> 131070 \<Longrightarrow> unat (FOLD_U32T u) = ocs (unat u)"
  using ocs_id [OF FOLD_U32T_le] by simp

lemma unat_FOLD_FOLD: "unat (FOLD_U32T (FOLD_U32T u)) = ocs (unat u)"
proof -
  have "unat u div 65536 < 65536"
    using unat_lt_32 [of u] by (simp add: less_mult_imp_div_less)
  moreover have "unat u mod 65536 < 65536" by simp
  ultimately have "unat (FOLD_U32T u) \<le> 131070" by (simp add: unat_FOLD_U32T)
  then show ?thesis by (simp add: unat_FOLD_small)
qed

lemma SWAP_htons: "SWAP_BYTES_IN_WORD w = ucast (lwip_htons (ucast w))"
  unfolding SWAP_BYTES_IN_WORD_def lwip_htons_def byte_masks
  by (rule bit_word_eqI) (auto simp: bit_simps)

lemma ocs_lwip_htons [simp]: "ocs (unat (lwip_htons n)) = ocs (256 * unat n)"
proof -
  have "256 * unat n = 256 * (256 * (unat n div 256) + unat n mod 256)" by simp
  then show ?thesis
    unfolding unat_lwip_htons using ocs_swap by (metis add.commute)
qed

lemma unat_lwip_htons_ocs: "unat (lwip_htons n) = ocs (256 * unat n)"
  using ocs_id [of "unat (lwip_htons n)"] unat_lt_16 [of "lwip_htons n"] by simp

lemma unat_SWAP: "unat w \<le> 65535 \<Longrightarrow> unat (SWAP_BYTES_IN_WORD w) = ocs (256 * unat w)"
  by (simp add: SWAP_htons unat_simps unat_lwip_htons_ocs)

subsection \<open>Sums of blocks\<close>

lemma sum_le_le: "sum_le d \<le> 65535 * ((length d + 1) div 2)"
proof (induction d rule: sum_le.induct)
  case (1 a b ws)
  have "unat a \<le> 255" "unat b \<le> 255"
    by (rule unat_le_8)+
  with 1 show ?case by simp
next
  case (2 a)
  show ?case using unat_le_8 [of a] by simp
qed simp

lemma sum_be_le: "sum_be d \<le> 65535 * ((length d + 1) div 2)"
proof (induction d rule: sum_be.induct)
  case (1 a b ws)
  have "unat a \<le> 255" "unat b \<le> 255"
    by (rule unat_le_8)+
  with 1 show ?case by simp
next
  case (2 a)
  show ?case using unat_le_8 [of a] by simp
qed simp

lemma ocs_sum_be: "ocs (256 * sum_be d) = ocs (sum_le d)"
proof (induction d rule: sum_le.induct)
  case (1 a b ws)
  have "ocs (256 * (256 * unat a + unat b) + 256 * sum_be ws) =
      ocs (256 * unat b + unat a + sum_le ws)"
    using ocs_swap 1 by (rule ocs_add_cong)
  then show ?case by (simp add: algebra_simps)
next
  case (2 a)
  show ?case using ocs_swap [of "unat a" 0] by simp
qed simp

lemma ocs_sum_le_Cons: "ocs (sum_le (b # d)) = ocs (unat b + 256 * sum_le d)"
proof (induction d arbitrary: b rule: sum_le.induct)
  case (1 c e ws)
  have "ocs (sum_le (b # c # e # ws)) = ocs (unat b + 256 * unat c + (unat e + 256 * sum_le ws))"
    using ocs_add_cong [OF refl "1.IH"] by simp
  also have "\<dots> = ocs ((unat b + 256 * unat c + 256 * sum_le ws) + unat e)"
    by (simp add: ac_simps)
  also have "\<dots> = ocs ((unat b + 256 * unat c + 256 * sum_le ws) + 65536 * unat e)"
    by (rule ocs_carry [symmetric])
  finally show ?case by (simp add: algebra_simps)
qed simp_all

lemma ocs_sum_le_append:
  "ocs (sum_le (xs @ ys)) =
     ocs (sum_le xs + (if even (length xs) then 1 else 256) * sum_le ys)"
proof (induction xs rule: sum_le.induct)
  case (1 a b ws)
  show ?case
    using ocs_add_cong [OF refl "1.IH", of "unat a + 256 * unat b"] by (simp add: add.assoc)
next
  case (2 a)
  show ?case using ocs_sum_le_Cons by simp
qed simp

subsection \<open>The three versions compute the same sum\<close>

lemma chksum1_loop_value:
  "unat acc + sum_be d < 2 ^ 32 \<Longrightarrow> unat (chksum1_loop acc d) = unat acc + sum_be d"
proof (induction acc d rule: chksum1_loop.induct)
  case (1 acc a b octets)
  have "unat (acc + ucast (be16 a b)) = unat acc + (256 * unat a + unat b)"
    using "1.prems" by (subst unat_add_nowrap) (simp_all add: unat_simps be16_le16)
  with 1 show ?case by (simp add: be16_def Let_def)
next
  case (2 acc a)
  have "(push_bit 8 (ucast a) :: u16) = le16 0 a" by (simp add: le16_def)
  with 2 show ?case by (simp add: Let_def unat_add_nowrap unat_simps)
qed simp

lemma chksum_length_le:
  "length d \<le> 0x20000 \<Longrightarrow> 65535 * ((length d + 1) div 2) \<le> 4294901760"
  by (simp add: div_le_mono [of "length d + 1" "0x20001" 2, simplified])

lemma acc_high_zero: "acc AND 0xffff0000 = (0 :: u32) \<longleftrightarrow> unat acc < 65536"
proof -
  have bits: "bit (acc AND 0xffff0000) (16 + n) = bit (drop_bit 16 acc) n" for n
    unfolding masks_32 using bit_imp_le_length [of acc "16 + n"] by (auto simp: bit_simps)
  have "acc AND 0xffff0000 = 0 \<longleftrightarrow> drop_bit 16 acc = 0"
  proof
    assume "acc AND 0xffff0000 = 0"
    then show "drop_bit 16 acc = 0"
      by (intro bit_word_eqI) (simp flip: bits)
  next
    assume z: "drop_bit 16 acc = 0"
    show "acc AND 0xffff0000 = 0"
    proof (rule bit_word_eqI)
      fix n
      show "bit (acc AND 0xffff0000) n = bit (0 :: u32) n"
      proof (cases "16 \<le> n")
        case True
        then show ?thesis using bits [of "n - 16"] z by simp
      next
        case False
        then show ?thesis unfolding masks_32 by (simp add: bit_simps)
      qed
    qed
  qed
  also have "\<dots> \<longleftrightarrow> unat (drop_bit 16 acc) = 0" by (simp add: unat_eq_zero)
  finally show ?thesis by (simp add: unat_drop_bit_div div_eq_0_iff)
qed

lemma chksum_1_value:
  assumes "length d \<le> 0x20000"
  shows "unat (lwip_standard_chksum_1 d) = ocs (sum_le d)"
proof -
  have "sum_be d < 2 ^ 32"
    using sum_be_le [of d] chksum_length_le [OF assms] by simp
  then have loop: "unat (chksum1_loop 0 d) = sum_be d"
    using chksum1_loop_value [of 0 d] by simp
  define acc where "acc = FOLD_U32T (chksum1_loop 0 d)"
  define acc' where "acc' = (if acc AND 0xffff0000 \<noteq> 0 then FOLD_U32T acc else acc)"
  have "unat acc' = ocs (unat (chksum1_loop 0 d))"
  proof (cases "acc AND 0xffff0000 = 0")
    case True
    then have "unat acc \<le> 65535" by (simp add: acc_high_zero)
    with True show ?thesis using ocs_id [of "unat acc"] by (simp add: acc'_def acc_def)
  next
    case False
    then show ?thesis by (simp add: acc'_def acc_def unat_FOLD_FOLD)
  qed
  then have acc': "unat acc' = ocs (sum_be d)" using loop by simp
  have "lwip_standard_chksum_1 d = lwip_htons (ucast acc')"
    by (simp add: lwip_standard_chksum_1_def acc'_def acc_def FOLD_U32T_def Let_def)
  then have "unat (lwip_standard_chksum_1 d) = ocs (256 * ocs (sum_be d))"
    using acc' ocs_le [of "sum_be d"] by (simp add: unat_lwip_htons_ocs unat_simps)
  then show ?thesis by (simp add: ocs_sum_be)
qed

lemma chksum2_loop_value:
  "unat s + sum_le d < 2 ^ 32 \<Longrightarrow>
   \<exists>s' left. chksum2_loop s d = (s', left) \<and> length left \<le> 1
     \<and> unat s' + sum_le left = unat s + sum_le d"
proof (induction s d rule: chksum2_loop.induct)
  case (1 s a b ps)
  have "unat (s + ucast (le16 a b)) = unat s + (unat a + 256 * unat b)"
    using "1.prems" by (subst unat_add_nowrap) (simp_all add: unat_simps)
  with 1 show ?case by (simp add: add.assoc)
qed simp_all

text \<open>The last steps of versions 2 and 3: the bytes at the ends, folding, swapping.\<close>

lemma chksum_tail_value:
  assumes "length left \<le> 1"
    and fits: "unat s + sum_le left + 256 * unat t1 < 2 ^ 32"
    and t0: "t0 = (case left of [] \<Rightarrow> 0 | c # _ \<Rightarrow> c)"
  shows "unat (FOLD_U32T (FOLD_U32T (s + ucast (le16 t0 t1)))) =
           ocs (unat s + sum_le left + 256 * unat t1)"
proof -
  have "sum_le left = unat t0" using assms(1) t0 by (cases left) auto
  moreover have "unat (s + ucast (le16 t0 t1)) = unat s + (unat t0 + 256 * unat t1)"
    using fits calculation by (subst unat_add_nowrap) (simp_all add: unat_simps)
  ultimately show ?thesis by (simp add: unat_FOLD_FOLD add.assoc)
qed

lemma chksum_swap_value:
  assumes "unat s = ocs n"
  shows "unat (ucast (if swap then SWAP_BYTES_IN_WORD s else s) :: u16) =
           ocs (if swap then 256 * n else n)"
proof -
  have le: "unat s \<le> 65535" using assms ocs_le by simp
  then have "unat (SWAP_BYTES_IN_WORD s) = ocs (256 * n)" using assms by (simp add: unat_SWAP)
  moreover have "ocs (256 * n) < 65536" "ocs n < 65536"
    using ocs_le [of "256 * n"] ocs_le [of n] by linarith+
  ultimately show ?thesis using assms by (simp add: unat_simps)
qed

text \<open>A first byte taken apart and swapped into place counts as it does in the sum.\<close>

lemma ocs_odd_start: "ocs (256 * (sum_le d + 256 * unat b)) = ocs (sum_le (b # d))"
proof -
  have "ocs (256 * (sum_le d + 256 * unat b)) = ocs (256 * sum_le d + 65536 * unat b)"
    by (simp add: algebra_simps)
  then show ?thesis
    using ocs_carry ocs_sum_le_Cons by (simp add: add.commute)
qed

lemma chksum_2_value:
  assumes "length d \<le> 0x20000"
  shows "unat (lwip_standard_chksum_2 pb d) = ocs (sum_le d)"
proof -
  define odd where "odd \<longleftrightarrow> pb AND 1 \<noteq> 0"
  define swap where "swap \<longleftrightarrow> odd \<and> d \<noteq> []"
  define t1 where "t1 = (if swap then hd d else 0)"
  define ps where "ps = (if swap then tl d else d)"
  have "length ps + (if swap then 1 else 0) \<le> 0x20000"
    using assms by (cases d) (auto simp: ps_def swap_def)
  then have "sum_le ps + 256 * unat t1 < 2 ^ 32"
    using sum_le_le [of ps] chksum_length_le [of ps] unat_le_8 [of t1]
    by (cases swap) (auto simp: t1_def)
  moreover from this obtain s left where run: "chksum2_loop 0 ps = (s, left)" "length left \<le> 1"
    "unat s + sum_le left = sum_le ps"
    using chksum2_loop_value [of 0 ps] by auto
  ultimately have tail: "unat (FOLD_U32T (FOLD_U32T (s + ucast (le16 (case left of [] \<Rightarrow> 0 | c # _ \<Rightarrow> c) t1))))
      = ocs (sum_le ps + 256 * unat t1)"
    using chksum_tail_value [of left s t1] by simp
  have "unat (lwip_standard_chksum_2 pb d) =
      ocs (if odd then 256 * (sum_le ps + 256 * unat t1) else sum_le ps + 256 * unat t1)"
    using chksum_swap_value [OF tail, of odd] run(1)
    by (cases d) (auto simp: lwip_standard_chksum_2_def odd_def [symmetric] ps_def t1_def swap_def Let_def)
  also have "\<dots> = ocs (sum_le d)"
    using ocs_odd_start by (cases d) (auto simp: ps_def t1_def swap_def)
  finally show ?thesis .
qed

lemma unat_le32: "unat (le32 a b c d) = unat (le16 a b) + 65536 * unat (le16 c d)"
proof -
  have "le32 a b c d = ucast (le16 a b) + push_bit 16 (ucast (le16 c d))"
  proof -
    have "(ucast (le16 a b) :: u32) AND push_bit 16 (ucast (le16 c d)) = 0"
      by (rule bit_word_eqI) (auto simp: bit_simps dest: bit_imp_le_length)
    then have "ucast (le16 a b) + push_bit 16 (ucast (le16 c d)) =
        (ucast (le16 a b) :: u32) OR push_bit 16 (ucast (le16 c d))"
      by (simp add: or_eq_add)
    moreover have "le32 a b c d = ucast (le16 a b) OR push_bit 16 (ucast (le16 c d))"
      by (rule bit_word_eqI) (auto simp: bit_le32 le16_def bit_simps dest: bit_u8_lt)
    ultimately show ?thesis by simp
  qed
  moreover have "unat (push_bit 16 (ucast (le16 c d)) :: u32) = 65536 * unat (le16 c d)"
    using unat_lt_16 [of "le16 c d"] by (simp add: unat_push_bit_mult unat_ucast_16_32 del: unat_lt_16)
  ultimately show ?thesis
    using unat_lt_16 [of "le16 a b"] unat_lt_16 [of "le16 c d"]
    by (simp add: unat_add_nowrap unat_ucast_16_32 del: unat_lt_16)
qed

lemma ocs_le32: "ocs (unat (le32 a b c d)) = ocs (sum_le [a, b, c, d])"
  unfolding unat_le32 ocs_carry by (simp add: unat_le16)

lemma ocs_add_carry: "ocs (unat (add_carry s w)) = ocs (unat s + unat w)"
proof (cases "unat s + unat w < 2 ^ 32")
  case True
  then have "unat (s + w) = unat s + unat w" by (simp add: unat_add_nowrap)
  moreover from this have "\<not> s + w < s" by (simp add: word_less_nat_alt)
  ultimately show ?thesis by (simp add: add_carry_def)
next
  case False
  define r where "r = unat s + unat w - 4294967296"
  have "unat s \<le> 4294967295" "unat w \<le> 4294967295"
    using unat_lt_32 [of s] unat_lt_32 [of w] by linarith+
  with False have r: "unat s + unat w = r + 4294967296" "r < 4294967296" "r < unat s" "r + 1 < 4294967296"
    unfolding r_def by simp_all
  have sw: "unat (s + w) = r" using r by (simp add: unat_word_ariths)
  then have "s + w < s" using r by (simp add: word_less_nat_alt)
  moreover have "unat (s + w + 1) = r + 1"
    using sw r(4) by (subst unat_add_nowrap) simp_all
  ultimately have "unat (add_carry s w) = r + 1" by (simp add: add_carry_def)
  moreover have "ocs (r + 65536 * 65536) = ocs (r + 65536 * 1)"
    using ocs_carry [of r 65536] by simp
  then have "ocs (r + 4294967296) = ocs (r + 1)"
    using ocs_carry [of r 1] by simp
  ultimately show ?thesis using r(1) by simp
qed

lemma chksum3_loop_value:
  "\<exists>s' left. chksum3_loop s d = (s', left) \<and> length left < 8
     \<and> ocs (unat s' + sum_le left) = ocs (unat s + sum_le d)"
proof (induction s d rule: chksum3_loop.induct)
  case (1 s a b c d e f g h pl)
  let ?s = "add_carry (add_carry s (le32 a b c d)) (le32 e f g h)"
  have "ocs (unat ?s) = ocs (unat s + unat (le32 a b c d) + unat (le32 e f g h))"
    using ocs_add_cong [OF ocs_add_carry refl] by (simp add: ocs_add_carry)
  also have "\<dots> = ocs (unat s + sum_le [a, b, c, d] + sum_le [e, f, g, h])"
    by (intro ocs_add_cong ocs_le32 refl)
  finally have "ocs (unat ?s + sum_le pl) =
      ocs (unat s + sum_le [a, b, c, d] + sum_le [e, f, g, h] + sum_le pl)"
    by (rule ocs_add_cong) simp
  with 1 show ?case by (simp add: add.assoc)
qed simp_all

lemma chksum_3_value:
  assumes "length d \<le> 0x20000"
  shows "unat (lwip_standard_chksum_3 pb d) = ocs (sum_le d)"
proof -
  define odd where "odd \<longleftrightarrow> pb AND 1 \<noteq> 0"
  define swap where "swap \<longleftrightarrow> odd \<and> d \<noteq> []"
  define t1 where "t1 = (if swap then hd d else 0)"
  define ps where "ps = (if swap then tl d else d)"
  define pb' where "pb' = (if swap then pb + 1 else pb)"
  define al where "al \<longleftrightarrow> pb' AND 3 \<noteq> 0 \<and> length ps > 1"
  define s1 where "s1 = (if al then ucast (le16 (hd ps) (ps ! 1)) else 0 :: u32)"
  define pl where "pl = (if al then drop 2 ps else ps)"
  have first: "unat s1 + sum_le pl = sum_le ps"
    by (cases ps rule: sum_le.cases) (auto simp: s1_def pl_def al_def unat_simps)
  obtain s2 left2 where loop3: "chksum3_loop s1 pl = (s2, left2)" "length left2 < 8"
    "ocs (unat s2 + sum_le left2) = ocs (sum_le ps)"
    using chksum3_loop_value [of s1 pl] first by auto
  have "(length left2 + 1) div 2 \<le> 4" using loop3(2) by simp
  then have "sum_le left2 \<le> 65535 * 4" using sum_le_le [of left2] by linarith
  moreover have "unat s2 div 65536 < 65536"
    using unat_lt_32 [of s2] by (simp add: less_mult_imp_div_less)
  then have "unat (FOLD_U32T s2) \<le> 131070"
    using unat_FOLD_U32T [of s2] mod_less_divisor [of 65536 "unat s2"] by linarith
  ultimately have small: "unat (FOLD_U32T s2) + sum_le left2 + 256 * unat t1 < 2 ^ 32"
    using unat_le_8 [of t1] by simp
  then obtain s3 left where loop2: "chksum2_loop (FOLD_U32T s2) left2 = (s3, left)"
    "length left \<le> 1" "unat s3 + sum_le left = unat (FOLD_U32T s2) + sum_le left2"
    using chksum2_loop_value [of "FOLD_U32T s2" left2] by auto
  have "unat (FOLD_U32T (FOLD_U32T (s3 + ucast (le16 (case left of [] \<Rightarrow> 0 | c # _ \<Rightarrow> c) t1))))
      = ocs (unat (FOLD_U32T s2) + sum_le left2 + 256 * unat t1)"
    using chksum_tail_value [of left s3 t1] loop2 small by simp
  also have "\<dots> = ocs (sum_le ps + 256 * unat t1)"
    using loop3(3) by (intro ocs_add_cong refl) (metis ocs_FOLD_U32T ocs_add_cong)
  finally have tail: "unat (FOLD_U32T (FOLD_U32T
      (s3 + ucast (le16 (case left of [] \<Rightarrow> 0 | c # _ \<Rightarrow> c) t1)))) = \<dots>" .
  have start: "(case d of b # rest \<Rightarrow> if odd then (b, pb + 1, rest) else (0, pb, d)
                 | [] \<Rightarrow> (0, pb, d)) = (t1, pb', ps)"
    by (cases d) (auto simp: t1_def pb'_def ps_def swap_def)
  have align: "(case ps of a # b # rest \<Rightarrow> if pb' AND 3 \<noteq> 0 then (ucast (le16 a b), rest) else (0, ps)
                 | _ \<Rightarrow> (0, ps)) = (s1, pl)"
    by (cases ps rule: sum_le.cases) (auto simp: s1_def pl_def al_def)
  have "unat (lwip_standard_chksum_3 pb d) =
      ocs (if odd then 256 * (sum_le ps + 256 * unat t1) else sum_le ps + 256 * unat t1)"
    using chksum_swap_value [OF tail, of odd]
    by (simp add: lwip_standard_chksum_3_def odd_def [symmetric] start align loop3(1) loop2(1) Let_def)
  also have "\<dots> = ocs (sum_le d)"
    using ocs_odd_start by (cases d) (auto simp: ps_def t1_def swap_def)
  finally show ?thesis .
qed

end
