(* ===== verification/PbufChksum.thy ===== *)
theory PbufChksum
  imports Chksum
begin

text \<open>
  The callers of \<open>LWIP_CHKSUM\<close> in \<open>core/inet_chksum.c\<close> and \<open>core/pbuf.c\<close>: the checksum
  of a block, of a pbuf chain, with the IPv4 and IPv6 pseudo headers, of a prefix of a
  chain, and the copy that updates a checksum. They are proved once, in the locale
  \<open>lwip_chksum\<close>, from what a version of \<open>lwip_standard_chksum\<close> owes its callers.
\<close>

subsection \<open>The users of LWIP_CHKSUM\<close>

text \<open>
  \<open>chk\<close> stands for the macro \<open>LWIP_CHKSUM\<close>: it is given the address of a block (some
  versions look at its alignment) and the bytes of the block.
\<close>

type_synonym chksum_fn = "u32 \<Rightarrow> bytes \<Rightarrow> u16"

fun chksum_chain_loop :: "chksum_fn \<Rightarrow> pbuf list \<Rightarrow> u32 \<Rightarrow> bool \<Rightarrow> u32 \<times> bool" where
  "chksum_chain_loop chk [] acc swapped = (acc, swapped)"
| "chksum_chain_loop chk (q # qs) acc swapped =
     (let acc = acc + ucast (chk (p_addr q) (pbuf_bytes q));
          acc = FOLD_U32T acc
      in if p_len q mod 2 \<noteq> 0 then chksum_chain_loop chk qs (SWAP_BYTES_IN_WORD acc) (\<not> swapped)
         else chksum_chain_loop chk qs acc swapped)"

definition inet_cksum_pseudo_base :: "chksum_fn \<Rightarrow> pbuf list \<Rightarrow> u8 \<Rightarrow> u16 \<Rightarrow> u32 \<Rightarrow> u16" where
  "inet_cksum_pseudo_base chk p proto proto_len acc =
     (let (acc, swapped) = chksum_chain_loop chk p acc False;
          acc = (if swapped then SWAP_BYTES_IN_WORD acc else acc);
          acc = acc + ucast (lwip_htons (ucast proto));
          acc = acc + ucast (lwip_htons proto_len);
          acc = FOLD_U32T acc;
          acc = FOLD_U32T acc
      in ucast (NOT (acc AND 0xffff)))"

definition inet_chksum_pseudo :: "chksum_fn \<Rightarrow> pbuf list \<Rightarrow> u8 \<Rightarrow> u16 \<Rightarrow> u32 \<Rightarrow> u32 \<Rightarrow> u16" where
  "inet_chksum_pseudo chk p proto proto_len src dest =
     (let acc = src AND 0xffff;
          acc = acc + (drop_bit 16 src AND 0xffff);
          acc = acc + (dest AND 0xffff);
          acc = acc + (drop_bit 16 dest AND 0xffff);
          acc = FOLD_U32T acc;
          acc = FOLD_U32T acc
      in inet_cksum_pseudo_base chk p proto proto_len acc)"

text \<open>An IPv6 address is its four 32-bit words; the loop runs over the words of both.\<close>

fun ip6_addr_sum :: "u32 \<Rightarrow> u32 list \<Rightarrow> u32 list \<Rightarrow> u32" where
  "ip6_addr_sum acc (s # src) (d # dest) =
     ip6_addr_sum (acc + (s AND 0xffff) + (drop_bit 16 s AND 0xffff)
                     + (d AND 0xffff) + (drop_bit 16 d AND 0xffff)) src dest"
| "ip6_addr_sum acc src dest = acc"

definition ip6_chksum_pseudo ::
  "chksum_fn \<Rightarrow> pbuf list \<Rightarrow> u8 \<Rightarrow> u16 \<Rightarrow> u32 list \<Rightarrow> u32 list \<Rightarrow> u16" where
  "ip6_chksum_pseudo chk p proto proto_len src dest =
     (let acc = ip6_addr_sum 0 (take 4 src) (take 4 dest);
          acc = FOLD_U32T acc;
          acc = FOLD_U32T acc
      in inet_cksum_pseudo_base chk p proto proto_len acc)"

fun chksum_partial_loop :: "chksum_fn \<Rightarrow> pbuf list \<Rightarrow> u16 \<Rightarrow> u32 \<Rightarrow> bool \<Rightarrow> u32 \<times> bool" where
  "chksum_partial_loop chk [] chksum_len acc swapped = (acc, swapped)"
| "chksum_partial_loop chk (q # qs) chksum_len acc swapped =
     (if chksum_len = 0 then (acc, swapped)
      else let chklen = (if chksum_len < p_len q then chksum_len else p_len q);
               acc = acc + ucast (chk (p_addr q) (take (unat chklen) (p_payload q)));
               chksum_len = chksum_len - chklen;
               acc = FOLD_U32T acc
        in if p_len q mod 2 \<noteq> 0
           then chksum_partial_loop chk qs chksum_len (SWAP_BYTES_IN_WORD acc) (\<not> swapped)
           else chksum_partial_loop chk qs chksum_len acc swapped)"

definition inet_cksum_pseudo_partial_base ::
  "chksum_fn \<Rightarrow> pbuf list \<Rightarrow> u8 \<Rightarrow> u16 \<Rightarrow> u16 \<Rightarrow> u32 \<Rightarrow> u16" where
  "inet_cksum_pseudo_partial_base chk p proto proto_len chksum_len acc =
     (let (acc, swapped) = chksum_partial_loop chk p chksum_len acc False;
          acc = (if swapped then SWAP_BYTES_IN_WORD acc else acc);
          acc = acc + ucast (lwip_htons (ucast proto));
          acc = acc + ucast (lwip_htons proto_len);
          acc = FOLD_U32T acc;
          acc = FOLD_U32T acc
      in ucast (NOT (acc AND 0xffff)))"

definition inet_chksum_pseudo_partial ::
  "chksum_fn \<Rightarrow> pbuf list \<Rightarrow> u8 \<Rightarrow> u16 \<Rightarrow> u16 \<Rightarrow> u32 \<Rightarrow> u32 \<Rightarrow> u16" where
  "inet_chksum_pseudo_partial chk p proto proto_len chksum_len src dest =
     (let acc = src AND 0xffff;
          acc = acc + (drop_bit 16 src AND 0xffff);
          acc = acc + (dest AND 0xffff);
          acc = acc + (drop_bit 16 dest AND 0xffff);
          acc = FOLD_U32T acc;
          acc = FOLD_U32T acc
      in inet_cksum_pseudo_partial_base chk p proto proto_len chksum_len acc)"

definition ip6_chksum_pseudo_partial ::
  "chksum_fn \<Rightarrow> pbuf list \<Rightarrow> u8 \<Rightarrow> u16 \<Rightarrow> u16 \<Rightarrow> u32 list \<Rightarrow> u32 list \<Rightarrow> u16" where
  "ip6_chksum_pseudo_partial chk p proto proto_len chksum_len src dest =
     (let acc = ip6_addr_sum 0 (take 4 src) (take 4 dest);
          acc = FOLD_U32T acc;
          acc = FOLD_U32T acc
      in inet_cksum_pseudo_partial_base chk p proto proto_len chksum_len acc)"

definition inet_chksum :: "chksum_fn \<Rightarrow> u32 \<Rightarrow> bytes \<Rightarrow> u16" where
  "inet_chksum chk dataptr data = NOT (chk dataptr data)"

definition inet_chksum_pbuf :: "chksum_fn \<Rightarrow> pbuf list \<Rightarrow> u16" where
  "inet_chksum_pbuf chk p =
     (let (acc, swapped) = chksum_chain_loop chk p 0 False;
          acc = (if swapped then SWAP_BYTES_IN_WORD acc else acc)
      in ucast (NOT (acc AND 0xffff)))"

text \<open>\<open>lwip_chksum_copy\<close> returns the bytes now at \<open>dst\<close> and their checksum.\<close>

definition lwip_chksum_copy :: "chksum_fn \<Rightarrow> u32 \<Rightarrow> bytes \<Rightarrow> bytes \<times> u16" where
  "lwip_chksum_copy chk dst src = (src, chk dst src)"

text \<open>\<open>pbuf_fill_chksum\<close> of \<open>core/pbuf.c\<close>: copy into one pbuf and update a checksum.\<close>

definition pbuf_fill_chksum ::
  "chksum_fn \<Rightarrow> pbuf \<Rightarrow> u16 \<Rightarrow> bytes \<Rightarrow> u16 \<Rightarrow> u16 \<Rightarrow> err_t \<times> pbuf \<times> u16" where
  "pbuf_fill_chksum chk p start_offset dataptr len chksum =
     (if p_len p \<le> start_offset \<or> unat (p_len p) < unat start_offset + unat len
      then (ERR_ARG, p, chksum)
      else let (copied, copy_chksum) =
                 lwip_chksum_copy chk (p_addr p + ucast start_offset) (take (unat len) dataptr);
               copy_chksum = (if start_offset AND 1 \<noteq> 0
                              then ucast (SWAP_BYTES_IN_WORD (ucast copy_chksum)) else copy_chksum);
               acc = ucast chksum;
               acc = acc + ucast copy_chksum
        in (ERR_OK, p\<lparr>p_payload := mem_write (unat start_offset) copied (p_payload p)\<rparr>,
            ucast (FOLD_U32T acc)))"

subsection \<open>Accumulators kept byte-swapped\<close>

text \<open>
  Over a chain, after an odd number of bytes the accumulator is kept byte-swapped, which is
  what makes the sums of the following segments line up. \<open>swap_inv acc swapped n\<close>: the
  accumulator stands for the sum \<open>n\<close>.
\<close>

definition weight :: "bool \<Rightarrow> nat" where
  "weight swapped = (if swapped then 256 else 1)"

definition swap_inv :: "u32 \<Rightarrow> bool \<Rightarrow> nat \<Rightarrow> bool" where
  "swap_inv acc swapped n \<longleftrightarrow> unat acc = ocs (weight swapped * n)"

lemma weight_weight: "ocs (weight s * (weight s * n)) = ocs n"
  by (simp add: weight_def)

lemma swap_inv_le: "swap_inv acc s n \<Longrightarrow> unat acc \<le> 65535"
  by (simp add: swap_inv_def)

lemma swap_inv_cong: "swap_inv acc s n \<Longrightarrow> ocs n = ocs m \<Longrightarrow> swap_inv acc s m"
  using ocs_mult_cong [of n m "weight s"] by (simp add: swap_inv_def)

lemma swap_inv_start: "unat acc \<le> 65535 \<Longrightarrow> swap_inv acc False (unat acc)"
  by (simp add: swap_inv_def weight_def ocs_id)

lemma swap_inv_toggle: "swap_inv acc s n \<Longrightarrow> swap_inv (SWAP_BYTES_IN_WORD acc) (\<not> s) n"
  by (cases s) (simp_all add: swap_inv_def weight_def unat_SWAP)

lemma swap_inv_result:
  "swap_inv acc s n \<Longrightarrow> unat (if s then SWAP_BYTES_IN_WORD acc else acc) = ocs n"
  by (cases s) (simp_all add: swap_inv_def weight_def unat_SWAP)

lemma ocs_segment:
  "ocs (n + weight s * sum_le d + weight (s \<noteq> odd (length d)) * sum_le e) =
     ocs (n + weight s * sum_le (d @ e))"
proof -
  have "ocs (weight s * sum_le (d @ e)) =
      ocs (weight s * (sum_le d + (if even (length d) then 1 else 256) * sum_le e))"
    using ocs_sum_le_append by (rule ocs_mult_cong)
  also have "\<dots> = ocs (weight s * sum_le d + weight (s \<noteq> odd (length d)) * sum_le e)"
  proof (cases "s \<and> odd (length d)")
    case True
    then show ?thesis
      using ocs_carry [of "256 * sum_le d" "sum_le e"] by (simp add: weight_def algebra_simps)
  next
    case False
    then show ?thesis by (auto simp: weight_def algebra_simps)
  qed
  finally show ?thesis by (metis ocs_add_cong add.assoc)
qed

lemma even_unat_16: "even (unat (w :: u16)) \<longleftrightarrow> even w"
proof -
  have "unat (w mod 2) = unat w mod 2" by (simp add: unat_mod)
  then show ?thesis by (metis unat_eq_zero even_iff_mod_2_eq_zero)
qed

lemma odd_p_len: "p_len q mod 2 \<noteq> 0 \<longleftrightarrow> odd (unat (p_len q))"
  by (metis even_unat_16 even_iff_mod_2_eq_zero)

text \<open>The step of the loops over a chain, with the parity of a segment as a number's.\<close>

lemma chksum_chain_step:
  "chksum_chain_loop chk (q # qs) acc swapped =
     (let acc = FOLD_U32T (acc + ucast (chk (p_addr q) (pbuf_bytes q)))
      in chksum_chain_loop chk qs (if odd (unat (p_len q)) then SWAP_BYTES_IN_WORD acc else acc)
           (swapped \<noteq> odd (unat (p_len q))))"
  unfolding chksum_chain_loop.simps odd_p_len by (simp add: Let_def)

lemma chksum_partial_step:
  "chksum_len \<noteq> 0 \<Longrightarrow> chksum_partial_loop chk (q # qs) chksum_len acc swapped =
     (let chklen = (if chksum_len < p_len q then chksum_len else p_len q);
          acc = FOLD_U32T (acc + ucast (chk (p_addr q) (take (unat chklen) (p_payload q))))
      in chksum_partial_loop chk qs (chksum_len - chklen)
           (if odd (unat (p_len q)) then SWAP_BYTES_IN_WORD acc else acc)
           (swapped \<noteq> odd (unat (p_len q))))"
  unfolding chksum_partial_loop.simps odd_p_len by (simp add: Let_def)

lemma unat_NOT_16: "unat (NOT (w :: u16)) = 65535 - unat w"
proof -
  have ones: "unat (- 1 :: u16) = 65535" by (simp add: unsigned_minus_1_eq_mask mask_eq_exp_minus_1)
  have "NOT w = - 1 - w" by (simp add: not_eq_complement)
  moreover have "unat (- 1 - w) = unat (- 1 :: u16) - unat w"
    using unat_le_16 [of w] by (intro unat_sub_nowrap) (simp add: ones)
  ultimately show ?thesis by (simp add: ones)
qed

lemma unat_NOT_low: "unat acc \<le> 65535 \<Longrightarrow> unat (ucast (NOT (acc AND 0xffff :: u32)) :: u16) = 65535 - unat acc"
proof -
  assume le: "unat acc \<le> 65535"
  have "ucast (NOT (acc AND 0xffff)) = (NOT (ucast acc) :: u16)"
    unfolding masks_32 by (rule bit_word_eqI) (auto simp: bit_simps)
  with le show ?thesis by (simp only: unat_NOT_16) (simp add: unat_simps)
qed

subsection \<open>The pseudo headers\<close>

text \<open>The pseudo header of RFC 793 and RFC 768, and the one of RFC 2460.\<close>

definition pseudo_header :: "u32 \<Rightarrow> u32 \<Rightarrow> u8 \<Rightarrow> u16 \<Rightarrow> bytes" where
  "pseudo_header src dest proto len = u32_bytes src @ u32_bytes dest @ [0, proto] @ u16_bytes_be len"

definition pseudo_header6 :: "u32 list \<Rightarrow> u32 list \<Rightarrow> u8 \<Rightarrow> u16 \<Rightarrow> bytes" where
  "pseudo_header6 src dest proto len =
     concat (map u32_bytes src) @ concat (map u32_bytes dest) @ [0, 0] @ u16_bytes_be len @ [0, 0, 0, proto]"

lemma sum_le_append_even: "even (length xs) \<Longrightarrow> sum_le (xs @ ys) = sum_le xs + sum_le ys"
  by (induction xs rule: sum_le.induct) simp_all

lemma length_pseudo_header [simp]: "length (pseudo_header src dest proto len) = 12"
  by (simp add: pseudo_header_def u32_bytes_def u16_bytes_be_def)

lemma unat_low_half: "unat (w AND 0xffff :: u32) = unat w mod 65536"
  unfolding masks_32 by (simp add: unat_and_mask_mod)

lemma unat_high_half: "unat (drop_bit 16 w :: u32) mod 65536 = unat w div 65536"
  using unat_lt_32 [of w] by (simp add: unat_drop_bit_div less_mult_imp_div_less del: unat_lt_32)

lemma div_mod_parts: "n mod 256 + 256 * (n div 256 mod 256) = n mod (65536::nat)"
  using mod_mult2_eq [of n 256 256] by simp

lemma sum_le_u32_bytes: "sum_le (u32_bytes a) = unat a mod 65536 + unat a div 65536"
proof -
  have "unat a div 65536 mod 256 + 256 * (unat a div 16777216 mod 256) = unat a div 65536 mod 65536"
    using div_mod_parts [of "unat a div 65536"] by (simp add: div_mult2_eq [symmetric])
  moreover have "unat a div 65536 < 65536"
    using unat_lt_32 [of a] by (simp add: less_mult_imp_div_less del: unat_lt_32)
  ultimately show ?thesis
    using div_mod_parts [of "unat a"] by (simp add: u32_bytes_def unat_simps unat_drop_bit_div)
qed

lemma sum_le_u16_bytes_be: "sum_le (u16_bytes_be n) = unat (lwip_htons n)"
proof -
  have "unat n div 256 < 256"
    using unat_lt_16 [of n] by (simp add: less_mult_imp_div_less del: unat_lt_16)
  then show ?thesis
    by (simp add: u16_bytes_be_def unat_lwip_htons unat_simps unat_drop_bit_div)
qed

lemma unat_htons_proto: "unat (lwip_htons (ucast (proto :: u8))) = 256 * unat proto"
  using unat_lt_8 [of proto] by (simp add: unat_lwip_htons unat_simps del: unat_lt_8)

lemma sum_le_pseudo_header:
  "sum_le (pseudo_header src dest proto len) =
     unat src mod 65536 + unat src div 65536 + unat dest mod 65536 + unat dest div 65536
     + unat (lwip_htons (ucast proto)) + unat (lwip_htons len)"
  using sum_le_u32_bytes [of src] sum_le_u32_bytes [of dest] sum_le_u16_bytes_be [of len]
  by (simp add: pseudo_header_def u32_bytes_def sum_le_append_even unat_htons_proto)

lemma sum_le_concat_u32:
  "sum_le (concat (map u32_bytes ws) @ d) = (\<Sum>w\<leftarrow>ws. unat w mod 65536 + unat w div 65536) + sum_le d"
proof (induction ws)
  case (Cons w ws)
  have "even (length (u32_bytes w))" by (simp add: u32_bytes_def)
  with Cons show ?case by (simp add: sum_le_append_even sum_le_u32_bytes)
qed simp

lemma sum_le_pseudo_header6:
  "sum_le (pseudo_header6 src dest proto len) =
     (\<Sum>w\<leftarrow>src. unat w mod 65536 + unat w div 65536) + (\<Sum>w\<leftarrow>dest. unat w mod 65536 + unat w div 65536)
     + unat (lwip_htons (ucast proto)) + unat (lwip_htons len)"
  using sum_le_u16_bytes_be [of len]
  by (simp add: pseudo_header6_def sum_le_concat_u32 u16_bytes_be_def unat_htons_proto)

lemma unat_sum4:
  assumes "unat a \<le> 65535" "unat b \<le> 65535" "unat c \<le> 65535" "unat (d :: u32) \<le> 65535"
  shows "unat (a + b + c + d) = unat a + unat b + unat c + unat d"
proof -
  have "unat (a + b) = unat a + unat b" using assms by (simp add: unat_add_nowrap)
  moreover from this have "unat (a + b + c) = unat a + unat b + unat c"
    using assms by (subst unat_add_nowrap) simp_all
  ultimately show ?thesis using assms by (subst unat_add_nowrap) simp_all
qed

lemma half_le: "unat (w :: u32) mod 65536 \<le> 65535" "unat w div 65536 \<le> 65535"
  using unat_lt_32 [of w]
  by (simp_all add: less_Suc_eq_le [symmetric] less_mult_imp_div_less del: unat_lt_32)

lemma addr_sum_value:
  "unat (FOLD_U32T (FOLD_U32T ((src AND 0xffff) + (drop_bit 16 src AND 0xffff)
      + (dest AND 0xffff) + (drop_bit 16 dest AND 0xffff)))) =
    ocs (unat src mod 65536 + unat src div 65536 + unat dest mod 65536 + unat dest div 65536)"
  unfolding unat_FOLD_FOLD
  by (subst unat_sum4) (simp_all only: unat_low_half unat_high_half half_le)

lemma ip6_addr_sum_value:
  "length src = length dest \<Longrightarrow> unat acc + 262140 * length src \<le> 4294967295 \<Longrightarrow>
   unat (ip6_addr_sum acc src dest) = unat acc
     + (\<Sum>w\<leftarrow>src. unat w mod 65536 + unat w div 65536) + (\<Sum>w\<leftarrow>dest. unat w mod 65536 + unat w div 65536)"
proof (induction acc src dest rule: ip6_addr_sum.induct)
  case (1 acc s src d dest)
  let ?n = "(s AND 0xffff) + (drop_bit 16 s AND 0xffff) + (d AND 0xffff) + (drop_bit 16 d AND 0xffff)"
  have n: "unat ?n = unat s mod 65536 + unat s div 65536 + unat d mod 65536 + unat d div 65536"
    by (subst unat_sum4) (simp_all only: unat_low_half unat_high_half half_le)
  have "unat ?n \<le> 262140"
    unfolding n using half_le [of s] half_le [of d] by linarith
  moreover from this have "unat (acc + ?n) = unat acc + unat ?n"
    using "1.prems" by (intro unat_add_nowrap) (simp add: n)
  ultimately have "unat (ip6_addr_sum (acc + ?n) src dest) = unat acc + unat ?n
      + (\<Sum>w\<leftarrow>src. unat w mod 65536 + unat w div 65536) + (\<Sum>w\<leftarrow>dest. unat w mod 65536 + unat w div 65536)"
    using "1.IH" "1.prems" by (simp add: add.assoc)
  then show ?case unfolding n by (simp add: add.assoc)
qed simp_all

subsection \<open>What a checksum routine owes its callers\<close>

text \<open>
  The contract of \<open>LWIP_CHKSUM\<close>: the ones' complement sum of the block, at any address.
  The callers are proved once from it, whichever version is configured.
\<close>

locale lwip_chksum =
  fixes chk :: chksum_fn
  assumes chk_value: "length data \<le> 0x20000 \<Longrightarrow> unat (chk addr data) = ocs (sum_le data)"
begin

lemma segment_step:
  assumes inv: "swap_inv acc s n" and d: "length d < 65536"
  shows "swap_inv (FOLD_U32T (acc + ucast (chk a d))) s (n + weight s * sum_le d)"
proof -
  have c: "unat (chk a d) = ocs (sum_le d)" using d by (intro chk_value) simp
  have le: "unat acc \<le> 65535" "unat (chk a d) \<le> 65535"
    using swap_inv_le [OF inv] unat_le_16 by simp_all
  then have sum: "unat (acc + ucast (chk a d)) = unat acc + unat (chk a d)"
    by (subst unat_add_nowrap) (simp_all add: unat_simps)
  have "unat (acc + ucast (chk a d)) \<le> 131070" using le unfolding sum by linarith
  from unat_FOLD_small [OF this]
  have "unat (FOLD_U32T (acc + ucast (chk a d))) = ocs (unat acc + unat (chk a d))"
    unfolding sum .
  also have "\<dots> = ocs (weight s * n + sum_le d)"
    using inv c by (simp add: swap_inv_def)
  also have "\<dots> = ocs (weight s * n + weight s * (weight s * sum_le d))"
    by (rule ocs_add_cong) (simp_all add: weight_weight)
  finally show ?thesis by (simp add: swap_inv_def distrib_left)
qed

lemma chain_loop_value:
  "chain_ok ps \<Longrightarrow> swap_inv acc s n \<Longrightarrow>
   \<exists>acc' s'. chksum_chain_loop chk ps acc s = (acc', s')
     \<and> swap_inv acc' s' (n + weight s * sum_le (chain_bytes ps))"
proof (induction ps arbitrary: acc s n)
  case Nil
  then show ?case by simp
next
  case (Cons q qs)
  define od where "od = odd (unat (p_len q))"
  define acc1 where "acc1 = FOLD_U32T (acc + ucast (chk (p_addr q) (pbuf_bytes q)))"
  define acc2 where "acc2 = (if od then SWAP_BYTES_IN_WORD acc1 else acc1)"
  have len: "length (pbuf_bytes q) = unat (p_len q)" and ok: "chain_ok qs" using Cons.prems by simp_all
  have "swap_inv acc1 s (n + weight s * sum_le (pbuf_bytes q))"
    unfolding acc1_def using Cons.prems len by (intro segment_step) auto
  then have "swap_inv acc2 (s \<noteq> od) (n + weight s * sum_le (pbuf_bytes q))"
    using swap_inv_toggle by (cases od) (simp_all add: acc2_def)
  from Cons.IH [OF ok this] obtain acc' s' where run: "chksum_chain_loop chk qs acc2 (s \<noteq> od) = (acc', s')"
    and inv: "swap_inv acc' s' (n + weight s * sum_le (pbuf_bytes q) + weight (s \<noteq> od) * sum_le (chain_bytes qs))"
    by blast
  have "chksum_chain_loop chk (q # qs) acc s = (acc', s')"
    unfolding chksum_chain_step Let_def using run unfolding acc2_def acc1_def od_def .
  moreover have "swap_inv acc' s' (n + weight s * sum_le (chain_bytes (q # qs)))"
    using swap_inv_cong [OF inv] ocs_segment [of n s "pbuf_bytes q"] unfolding od_def len by simp
  ultimately show ?case by blast
qed

lemma partial_loop_value:
  "chain_ok ps \<Longrightarrow> swap_inv acc s n \<Longrightarrow>
   \<exists>acc' s'. chksum_partial_loop chk ps chksum_len acc s = (acc', s')
     \<and> swap_inv acc' s' (n + weight s * sum_le (take (unat chksum_len) (chain_bytes ps)))"
proof (induction ps arbitrary: acc s n chksum_len)
  case Nil
  then show ?case by simp
next
  case (Cons q qs)
  define chklen where "chklen = (if chksum_len < p_len q then chksum_len else p_len q)"
  define od where "od = odd (unat (p_len q))"
  define d where "d = take (unat chklen) (p_payload q)"
  define acc1 where "acc1 = FOLD_U32T (acc + ucast (chk (p_addr q) d))"
  define acc2 where "acc2 = (if od then SWAP_BYTES_IN_WORD acc1 else acc1)"
  show ?case
  proof (cases "chksum_len = 0")
    case True
    with Cons.prems show ?thesis by simp
  next
    case False
    have ok: "unat (p_len q) \<le> length (p_payload q)" "chain_ok qs"
      using Cons.prems by simp_all
    have d: "d = take (unat chksum_len) (pbuf_bytes q)"
      by (auto simp: d_def chklen_def pbuf_bytes_def min_def word_less_nat_alt)
    have "length d < 65536"
      using unat_lt_16 [of chklen] unfolding d_def length_take by linarith
    then have "swap_inv acc1 s (n + weight s * sum_le d)"
      unfolding acc1_def using Cons.prems by (intro segment_step)
    then have inv: "swap_inv acc2 (s \<noteq> od) (n + weight s * sum_le d)"
      using swap_inv_toggle by (cases od) (simp_all add: acc2_def)
    have step: "chksum_partial_loop chk (q # qs) chksum_len acc s =
        chksum_partial_loop chk qs (chksum_len - chklen) acc2 (s \<noteq> od)"
      unfolding chksum_partial_step [OF False] Let_def acc2_def acc1_def od_def d_def chklen_def ..
    from Cons.IH [OF ok(2) inv] obtain acc' s'
      where run: "chksum_partial_loop chk qs (chksum_len - chklen) acc2 (s \<noteq> od) = (acc', s')"
      and inv': "swap_inv acc' s' (n + weight s * sum_le d
          + weight (s \<noteq> od) * sum_le (take (unat (chksum_len - chklen)) (chain_bytes qs)))"
      by blast
    have "ocs (n + weight s * sum_le d
          + weight (s \<noteq> od) * sum_le (take (unat (chksum_len - chklen)) (chain_bytes qs))) =
        ocs (n + weight s * sum_le (take (unat chksum_len) (chain_bytes (q # qs))))"
    proof (cases "chksum_len < p_len q")
      case True
      then have "unat chksum_len < unat (p_len q)" by (simp add: word_less_nat_alt)
      with True show ?thesis using d ok by (simp add: chklen_def)
    next
      case False
      then have le: "unat (p_len q) \<le> unat chksum_len" by (simp add: word_less_nat_alt)
      with False show ?thesis
        using d ok ocs_segment [of n s "pbuf_bytes q" "take (unat chksum_len - unat (p_len q)) (chain_bytes qs)"]
        by (simp add: unat_sub_nowrap chklen_def od_def)
    qed
    with swap_inv_cong [OF inv'] step run show ?thesis by metis
  qed
qed

lemma inet_chksum_pbuf_eq:
  assumes "chain_ok ps"
  shows "unat (inet_chksum_pbuf chk ps) = 65535 - ocs (sum_le (chain_bytes ps))"
proof -
  have "swap_inv 0 False 0" by (simp add: swap_inv_def)
  from chain_loop_value [OF assms this] obtain acc s
    where run: "chksum_chain_loop chk ps 0 False = (acc, s)"
      and inv: "swap_inv acc s (sum_le (chain_bytes ps))" by (auto simp: weight_def)
  show ?thesis
    using swap_inv_result [OF inv] unat_NOT_low [of "if s then SWAP_BYTES_IN_WORD acc else acc"]
    by (simp add: inet_chksum_pbuf_def run)
qed

text \<open>What the pseudo-header functions do after the loop.\<close>

lemma pseudo_tail:
  assumes acc: "unat acc = ocs n"
  shows "unat (ucast (NOT (FOLD_U32T (FOLD_U32T (acc + ucast (lwip_htons a) + ucast (lwip_htons b)))
            AND 0xffff)) :: u16) = 65535 - ocs (n + unat (lwip_htons a) + unat (lwip_htons b))"
proof -
  have le: "unat acc \<le> 65535" "unat (lwip_htons a) \<le> 65535" "unat (lwip_htons b) \<le> 65535"
    using acc ocs_le unat_le_16 by simp_all
  then have "unat (acc + ucast (lwip_htons a)) = unat acc + unat (lwip_htons a)"
    by (subst unat_add_nowrap) (simp_all add: unat_simps)
  with le have "unat (acc + ucast (lwip_htons a) + ucast (lwip_htons b)) =
      unat acc + unat (lwip_htons a) + unat (lwip_htons b)"
    by (subst unat_add_nowrap) (simp_all add: unat_simps)
  then have "unat (FOLD_U32T (FOLD_U32T (acc + ucast (lwip_htons a) + ucast (lwip_htons b)))) =
      ocs (n + unat (lwip_htons a) + unat (lwip_htons b))"
    using acc ocs_add_left [of n "unat (lwip_htons a) + unat (lwip_htons b)"]
    by (simp add: unat_FOLD_FOLD add.assoc)
  with unat_NOT_low show ?thesis by (metis ocs_le)
qed

lemma pseudo_base_eq:
  assumes "chain_ok ps" and acc: "unat acc = ocs h"
  shows "unat (inet_cksum_pseudo_base chk ps proto len acc) =
    65535 - ocs (h + sum_le (chain_bytes ps) + unat (lwip_htons (ucast proto)) + unat (lwip_htons len))"
proof -
  have "swap_inv acc False h" using acc by (simp add: swap_inv_def weight_def)
  from chain_loop_value [OF assms(1) this] obtain acc' s
    where run: "chksum_chain_loop chk ps acc False = (acc', s)"
      and inv: "swap_inv acc' s (h + sum_le (chain_bytes ps))" by (auto simp: weight_def)
  show ?thesis
    using pseudo_tail [OF swap_inv_result [OF inv], of "ucast proto" len]
    by (simp add: inet_cksum_pseudo_base_def run Let_def)
qed

lemma pseudo_partial_base_eq:
  assumes "chain_ok ps" and acc: "unat acc = ocs h"
  shows "unat (inet_cksum_pseudo_partial_base chk ps proto len chksum_len acc) =
    65535 - ocs (h + sum_le (take (unat chksum_len) (chain_bytes ps))
                 + unat (lwip_htons (ucast proto)) + unat (lwip_htons len))"
proof -
  have "swap_inv acc False h" using acc by (simp add: swap_inv_def weight_def)
  from partial_loop_value [OF assms(1) this, of chksum_len] obtain acc' s
    where run: "chksum_partial_loop chk ps chksum_len acc False = (acc', s)"
      and inv: "swap_inv acc' s (h + sum_le (take (unat chksum_len) (chain_bytes ps)))"
    by (auto simp: weight_def)
  show ?thesis
    using pseudo_tail [OF swap_inv_result [OF inv], of "ucast proto" len]
    by (simp add: inet_cksum_pseudo_partial_base_def run Let_def)
qed

lemma inet_chksum_pseudo_eq:
  assumes "chain_ok ps"
  shows "unat (inet_chksum_pseudo chk ps proto len src dest) =
    65535 - ocs (sum_le (pseudo_header src dest proto len @ chain_bytes ps))"
  unfolding inet_chksum_pseudo_def Let_def pseudo_base_eq [OF assms addr_sum_value]
  by (simp add: sum_le_append_even sum_le_pseudo_header ac_simps)

lemma inet_chksum_pseudo_partial_eq:
  assumes "chain_ok ps"
  shows "unat (inet_chksum_pseudo_partial chk ps proto len chksum_len src dest) =
    65535 - ocs (sum_le (pseudo_header src dest proto len @ take (unat chksum_len) (chain_bytes ps)))"
  unfolding inet_chksum_pseudo_partial_def Let_def pseudo_partial_base_eq [OF assms addr_sum_value]
  by (simp add: sum_le_append_even sum_le_pseudo_header ac_simps)

lemma ip6_acc_value:
  assumes "length src = 4" "length dest = 4"
  shows "unat (FOLD_U32T (FOLD_U32T (ip6_addr_sum 0 (take 4 src) (take 4 dest)))) =
    ocs ((\<Sum>w\<leftarrow>src. unat w mod 65536 + unat w div 65536) + (\<Sum>w\<leftarrow>dest. unat w mod 65536 + unat w div 65536))"
  using assms ip6_addr_sum_value [of src dest 0] by (simp add: unat_FOLD_FOLD)

lemma ip6_chksum_pseudo_eq:
  assumes "chain_ok ps" "length src = 4" "length dest = 4"
  shows "unat (ip6_chksum_pseudo chk ps proto len src dest) =
    65535 - ocs (sum_le (pseudo_header6 src dest proto len @ chain_bytes ps))"
proof -
  have "even (length (pseudo_header6 src dest proto len))"
    using assms by (simp add: pseudo_header6_def u16_bytes_be_def u32_bytes_def length_concat sum_list_triv o_def)
  then show ?thesis
    unfolding ip6_chksum_pseudo_def Let_def pseudo_base_eq [OF assms(1) ip6_acc_value [OF assms(2,3)]]
    by (simp add: sum_le_append_even sum_le_pseudo_header6 ac_simps)
qed

lemma ip6_chksum_pseudo_partial_eq:
  assumes "chain_ok ps" "length src = 4" "length dest = 4"
  shows "unat (ip6_chksum_pseudo_partial chk ps proto len chksum_len src dest) =
    65535 - ocs (sum_le (pseudo_header6 src dest proto len @ take (unat chksum_len) (chain_bytes ps)))"
proof -
  have "even (length (pseudo_header6 src dest proto len))"
    using assms by (simp add: pseudo_header6_def u16_bytes_be_def u32_bytes_def length_concat sum_list_triv o_def)
  then show ?thesis
    unfolding ip6_chksum_pseudo_partial_def Let_def
      pseudo_partial_base_eq [OF assms(1) ip6_acc_value [OF assms(2,3)]]
    by (simp add: sum_le_append_even sum_le_pseudo_header6 ac_simps)
qed

lemma inet_chksum_eq:
  "length d \<le> 0x20000 \<Longrightarrow> unat (inet_chksum chk a d) = 65535 - ocs (sum_le d)"
  by (simp add: inet_chksum_def unat_NOT_16 chk_value)

text \<open>
  \<open>pbuf_fill_chksum\<close> keeps a checksum of what has been filled in up to date, at odd
  offsets too.
\<close>

lemma fill_chksum_value:
  assumes len: "length d < 65536"
    and c: "unat chksum = ocs (sum_le (take (unat (off :: u16)) mem))" and off: "unat off \<le> length mem"
  shows "unat (ucast (FOLD_U32T (ucast (chksum :: u16) +
      ucast (if off AND 1 \<noteq> 0 then ucast (SWAP_BYTES_IN_WORD (ucast (chk a d))) else chk a d))) :: u16) =
    ocs (sum_le (take (unat off) mem @ d))"
proof -
  define cc where "cc = (if off AND 1 \<noteq> 0 then ucast (SWAP_BYTES_IN_WORD (ucast (chk a d))) else chk a d :: u16)"
  have odd: "off AND 1 \<noteq> 0 \<longleftrightarrow> odd (unat off)"
    by (metis and_one_eq even_unat_16 even_iff_mod_2_eq_zero)
  have chk: "unat (chk a d) = ocs (sum_le d)" using len by (intro chk_value) simp
  then have "unat (SWAP_BYTES_IN_WORD (ucast (chk a d))) = ocs (256 * sum_le d)"
    using unat_SWAP [of "ucast (chk a d)"] unat_le_16 [of "chk a d"] by (simp add: unat_simps)
  then have cc: "unat cc = ocs ((if even (unat off) then 1 else 256) * sum_le d)"
    using chk odd by (simp add: cc_def unat_simps)
  have "unat (ucast chksum + ucast cc :: u32) = unat chksum + unat cc"
    using unat_le_16 [of chksum] unat_le_16 [of cc] by (subst unat_add_nowrap) (simp_all add: unat_simps)
  moreover from this have "unat (ucast chksum + ucast cc :: u32) \<le> 131070"
    using unat_le_16 [of chksum] unat_le_16 [of cc] by linarith
  ultimately have "unat (FOLD_U32T (ucast chksum + ucast cc)) = ocs (unat chksum + unat cc)"
    using unat_FOLD_small by metis
  also have "\<dots> = ocs (sum_le (take (unat off) mem @ d))"
    using c cc off by (simp add: ocs_sum_le_append)
  finally show ?thesis unfolding cc_def by (simp add: unat_simps)
qed

end

text \<open>Each version that can be configured keeps the contract.\<close>

interpretation ck1: lwip_chksum "\<lambda>_. lwip_standard_chksum_1"
  by unfold_locales (rule chksum_1_value)

interpretation ck2: lwip_chksum lwip_standard_chksum_2
  by unfold_locales (rule chksum_2_value)

interpretation ck3: lwip_chksum lwip_standard_chksum_3
  by unfold_locales (rule chksum_3_value)

text \<open>The versions among which \<open>LWIP_CHKSUM_ALGORITHM\<close> (1, 2 or 3) chooses.\<close>

fun LWIP_CHKSUM :: "nat \<Rightarrow> chksum_fn" where
  "LWIP_CHKSUM algorithm addr octets =
     (if algorithm = 1 then lwip_standard_chksum_1 octets
      else if algorithm = 2 then lwip_standard_chksum_2 addr octets
      else lwip_standard_chksum_3 addr octets)"

interpretation ck: lwip_chksum "LWIP_CHKSUM algorithm" for algorithm
  by unfold_locales (simp add: ck1.chk_value ck2.chk_value ck3.chk_value)

subsection \<open>Writing a checksum into its field\<close>

lemma sum_le_u16_bytes: "sum_le (u16_bytes n @ d) = unat n + sum_le d"
  using div_mod_parts [of "unat n"] unat_lt_16 [of n]
  by (simp add: u16_bytes_def unat_simps unat_drop_bit_div del: unat_lt_16)

lemma ocs_fill_complement: "ocs (65535 - ocs n + n) = 65535"
proof -
  have "ocs (65535 - ocs n + n) = ocs (65535 - ocs n + ocs n)" by (rule ocs_add_right [symmetric])
  also have "\<dots> = ocs 65535" using ocs_le [of n] by (metis le_add_diff_inverse2)
  finally show ?thesis by (simp add: ocs_def)
qed

lemma chksum_field_fill:
  assumes "even (length xs)" "unat c = 65535 - ocs (h + sum_le (xs @ [0, 0] @ ys))"
  shows "ocs (h + sum_le (xs @ u16_bytes c @ ys)) = 65535"
proof -
  have "h + sum_le (xs @ u16_bytes c @ ys) = unat c + (h + sum_le (xs @ [0, 0] @ ys))"
    using assms(1) by (simp add: sum_le_append_even sum_le_u16_bytes)
  then show ?thesis using assms(2) ocs_fill_complement by metis
qed

text \<open>A single byte that differs is always seen.\<close>

lemma weighted_byte_differs:
  assumes "(if e then 1 else 256) * unat (a :: u8) mod 65535 = (if e then 1 else 256) * unat (b :: u8) mod 65535"
  shows "a = b"
proof -
  have "(if e then 1 else 256) * unat c < 65535" for c :: u8
    using unat_le_8 [of c] by auto
  then have "(if e then 1 else 256) * unat a = (if e then 1 else 256) * unat b"
    using assms by (metis mod_less)
  then show ?thesis by (auto split: if_splits simp: word_unat_eq_iff)
qed

lemma ocs_single_byte:
  assumes "ocs (sum_le (xs @ a # ys)) = ocs (sum_le (xs @ b # ys))"
  shows "a = b"
proof -
  have split: "ocs (sum_le (xs @ c # ys)) =
      ocs ((if even (length xs) then 1 else 256) * unat c
        + (sum_le xs + (if even (length xs) then 1 else 256) * (256 * sum_le ys)))" for c
  proof -
    have "ocs (sum_le (xs @ c # ys)) =
        ocs (sum_le xs + (if even (length xs) then 1 else 256) * sum_le (c # ys))"
      by (rule ocs_sum_le_append)
    also have "\<dots> = ocs (sum_le xs + (if even (length xs) then 1 else 256) * (unat c + 256 * sum_le ys))"
      by (intro ocs_add_cong ocs_mult_cong ocs_sum_le_Cons refl)
    finally show ?thesis by (simp add: algebra_simps)
  qed
  let ?w = "if even (length xs) then 1 else 256 :: nat"
  from assms have "(?w * unat a + (sum_le xs + ?w * (256 * sum_le ys))) mod 65535 =
      (?w * unat b + (sum_le xs + ?w * (256 * sum_le ys))) mod 65535"
    unfolding split by (metis ocs_mod)
  then have "(?w * unat a) mod 65535 = (?w * unat b) mod 65535"
    unfolding nat_mod_eq_iff by auto
  then show "a = b" by (rule weighted_byte_differs)
qed

subsection \<open>Properties\<close>

text \<open>C39: The three versions of \<open>lwip_standard_chksum\<close> compute the same 16-bit value for every
  block of up to 128 KiB at every address, whatever its alignment, so that
  \<open>LWIP_CHKSUM_ALGORITHM\<close> is a choice of speed only.\<close>

theorem lwip_standard_chksum_versions_agree:
  assumes "length octets \<le> 0x20000"
  shows "lwip_standard_chksum_2 addr octets = lwip_standard_chksum_1 octets
       \<and> lwip_standard_chksum_3 addr octets = lwip_standard_chksum_1 octets"
  using assms chksum_1_value chksum_2_value chksum_3_value by (simp add: word_unat_eq_iff)

theorem lwip_standard_chksum_versions_agree_witness:
  "lwip_standard_chksum_3 3 [1, 2, 3, 4, 5, 6, 7, 8, 9, 10, 255] =
     lwip_standard_chksum_1 [1, 2, 3, 4, 5, 6, 7, 8, 9, 10, 255]"
  using lwip_standard_chksum_versions_agree [of "[1, 2, 3, 4, 5, 6, 7, 8, 9, 10, 255]" 3] by simp

text \<open>C35: The TCP and UDP checksum over a pbuf chain, however the packet is cut into
  segments, is the ones' complement of the ones' complement sum of the RFC 793 pseudo
  header followed by the bytes of the packet.\<close>

theorem inet_chksum_pseudo_value:
  assumes "chain_ok p"
  shows "unat (inet_chksum_pseudo (LWIP_CHKSUM algorithm) p proto proto_len src dest) =
    65535 - ocs (sum_le (pseudo_header src dest proto proto_len @ chain_bytes p))"
  using assms by (rule ck.inet_chksum_pseudo_eq)

definition lone_pbuf :: "bytes \<Rightarrow> pbuf" where
  "lone_pbuf d = \<lparr>p_addr = 0x1001, p_payload = d, p_tot_len = of_nat (length d), p_len = of_nat (length d),
     p_type = PBUF_RAM, p_flags = 0, p_ref = 1\<rparr>"

theorem inet_chksum_pseudo_value_witness:
  "unat (inet_chksum_pseudo (LWIP_CHKSUM 1) [(lone_pbuf [1, 2, 3])\<lparr>p_tot_len := 5\<rparr>, lone_pbuf [4, 5]] 17 5 0x0101a8c0 0x0201a8c0) =
     65535 - ocs (sum_le (pseudo_header 0x0101a8c0 0x0201a8c0 17 5 @ [1, 2, 3, 4, 5]))"
  using inet_chksum_pseudo_value [of "[(lone_pbuf [1, 2, 3])\<lparr>p_tot_len := 5\<rparr>, lone_pbuf [4, 5]]" 1 17 5 "0x0101a8c0" "0x0201a8c0"]
  by (simp add: lone_pbuf_def pbuf_bytes_def)

text \<open>A receiver accepts what a sender fills in. When the checksum of a datagram with a
  zero checksum field is written into that field (at an even offset), the checksum of the
  result with the same pseudo header is 0, over any other segmentation of the same bytes
  and with any other version of \<open>LWIP_CHKSUM\<close>.\<close>

theorem inet_chksum_pseudo_verifies:
  assumes "chain_ok p" "chain_ok q"
    and "chain_bytes p = xs @ [0, 0] @ ys" "even (length xs)"
    and "chain_bytes q = xs @ u16_bytes (inet_chksum_pseudo (LWIP_CHKSUM a) p proto proto_len src dest) @ ys"
  shows "inet_chksum_pseudo (LWIP_CHKSUM b) q proto proto_len src dest = 0"
proof -
  let ?h = "sum_le (pseudo_header src dest proto proto_len)"
  have "unat (inet_chksum_pseudo (LWIP_CHKSUM a) p proto proto_len src dest) =
      65535 - ocs (?h + sum_le (xs @ [0, 0] @ ys))"
    using assms(1,3) by (simp add: ck.inet_chksum_pseudo_eq sum_le_append_even)
  from chksum_field_fill [OF assms(4) this] show ?thesis
    using assms(2,5) by (simp add: unat_eq_zero [symmetric] ck.inet_chksum_pseudo_eq sum_le_append_even)
qed

theorem inet_chksum_pseudo_verifies_witness:
  "inet_chksum_pseudo (LWIP_CHKSUM 3)
     [lone_pbuf ([0, 7] @ u16_bytes (inet_chksum_pseudo (LWIP_CHKSUM 1) [lone_pbuf [0, 7, 0, 0, 9]] 17 5 1 2) @ [9])]
     17 5 1 2 = 0"
  by (rule inet_chksum_pseudo_verifies [where p = "[lone_pbuf [0, 7, 0, 0, 9]]" and a = 1
        and xs = "[0, 7]" and ys = "[9]"])
    (simp_all add: lone_pbuf_def pbuf_bytes_def u16_bytes_def)

text \<open>A datagram in which exactly one byte has been changed in transit never keeps its
  TCP or UDP checksum.\<close>

theorem inet_chksum_pseudo_detects_byte:
  assumes "chain_ok p" "chain_ok q"
    and "chain_bytes p = xs @ a # ys" "chain_bytes q = xs @ b # ys" "a \<noteq> b"
  shows "inet_chksum_pseudo (LWIP_CHKSUM algorithm) q proto proto_len src dest \<noteq>
         inet_chksum_pseudo (LWIP_CHKSUM algorithm) p proto proto_len src dest"
proof
  assume eq: "inet_chksum_pseudo (LWIP_CHKSUM algorithm) q proto proto_len src dest =
      inet_chksum_pseudo (LWIP_CHKSUM algorithm) p proto proto_len src dest"
  let ?h = "pseudo_header src dest proto proto_len"
  have "65535 - ocs (sum_le (?h @ xs @ b # ys)) = 65535 - ocs (sum_le (?h @ xs @ a # ys))"
    using ck.inet_chksum_pseudo_eq [OF assms(1)] ck.inet_chksum_pseudo_eq [OF assms(2)] eq assms(3,4)
    by metis
  then have "ocs (sum_le (?h @ xs @ b # ys)) = ocs (sum_le (?h @ xs @ a # ys))"
    using ocs_le [of "sum_le (?h @ xs @ b # ys)"] ocs_le [of "sum_le (?h @ xs @ a # ys)"] by linarith
  then show False using ocs_single_byte [of "?h @ xs" b ys a] assms(5) by simp
qed

theorem inet_chksum_pseudo_detects_byte_witness:
  "inet_chksum_pseudo (LWIP_CHKSUM 1) [lone_pbuf [1, 9, 3]] 6 3 1 2 \<noteq>
   inet_chksum_pseudo (LWIP_CHKSUM 1) [lone_pbuf [1, 2, 3]] 6 3 1 2"
  by (rule inet_chksum_pseudo_detects_byte [where xs = "[1]" and a = 2 and b = 9 and ys = "[3]"])
    (simp_all add: lone_pbuf_def pbuf_bytes_def)

text \<open>The partial checksum of UDP-Lite covers exactly the first \<open>chksum_len\<close> bytes of the
  chain, also when the coverage ends inside a segment.\<close>

theorem inet_chksum_pseudo_partial_value:
  assumes "chain_ok p"
  shows "unat (inet_chksum_pseudo_partial (LWIP_CHKSUM algorithm) p proto proto_len chksum_len src dest) =
    65535 - ocs (sum_le (pseudo_header src dest proto proto_len @ take (unat chksum_len) (chain_bytes p)))"
  using assms by (rule ck.inet_chksum_pseudo_partial_eq)

theorem inet_chksum_pseudo_partial_value_witness:
  "unat (inet_chksum_pseudo_partial (LWIP_CHKSUM 2) [(lone_pbuf [1, 2, 3])\<lparr>p_tot_len := 5\<rparr>, lone_pbuf [4, 5]] 136 5 4 7 8) =
     65535 - ocs (sum_le (pseudo_header 7 8 136 5 @ [1, 2, 3, 4]))"
  using inet_chksum_pseudo_partial_value [of "[(lone_pbuf [1, 2, 3])\<lparr>p_tot_len := 5\<rparr>, lone_pbuf [4, 5]]" 2 136 5 4 7 8]
  by (simp add: lone_pbuf_def pbuf_bytes_def)

text \<open>Over IPv6 the checksum is that of the RFC 2460 pseudo header and the packet.\<close>

theorem ip6_chksum_pseudo_value:
  assumes "chain_ok p" "length src = 4" "length dest = 4"
  shows "unat (ip6_chksum_pseudo (LWIP_CHKSUM algorithm) p proto proto_len src dest) =
    65535 - ocs (sum_le (pseudo_header6 src dest proto proto_len @ chain_bytes p))"
  using assms by (rule ck.ip6_chksum_pseudo_eq)

theorem ip6_chksum_pseudo_value_witness:
  "unat (ip6_chksum_pseudo (LWIP_CHKSUM 1) [lone_pbuf [1, 2, 3]] 17 3 [1, 2, 3, 4] [5, 6, 7, 8]) =
     65535 - ocs (sum_le (pseudo_header6 [1, 2, 3, 4] [5, 6, 7, 8] 17 3 @ [1, 2, 3]))"
  using ip6_chksum_pseudo_value [of "[lone_pbuf [1, 2, 3]]" "[1, 2, 3, 4]" "[5, 6, 7, 8]" 1 17 3]
  by (simp add: lone_pbuf_def pbuf_bytes_def)

text \<open>\<open>pbuf_fill_chksum\<close> called for consecutive pieces keeps the checksum of all the bytes
  filled in so far, at odd offsets too: it writes exactly the piece and returns the ones'
  complement sum of the bytes up to its end.\<close>

theorem pbuf_fill_chksum_incremental:
  assumes "unat (p_len p) \<le> length (p_payload p)" "length data = unat len"
    and "start_offset < p_len p" "unat start_offset + unat len \<le> unat (p_len p)"
    and "unat chksum = ocs (sum_le (take (unat start_offset) (p_payload p)))"
  shows "\<exists>p' chksum'. pbuf_fill_chksum (LWIP_CHKSUM algorithm) p start_offset data len chksum = (ERR_OK, p', chksum')
     \<and> p' = p\<lparr>p_payload := mem_write (unat start_offset) data (p_payload p)\<rparr>
     \<and> unat chksum' = ocs (sum_le (take (unat start_offset + unat len) (p_payload p')))"
proof -
  have off: "unat start_offset \<le> length (p_payload p)" "unat start_offset + length data \<le> length (p_payload p)"
    using assms by linarith+
  have len: "length data < 65536" using assms(2) by simp
  have "take (unat start_offset + unat len) (mem_write (unat start_offset) data (p_payload p)) =
      take (unat start_offset) (p_payload p) @ data"
    using off assms(2) by (simp add: mem_write_def)
  with ck.fill_chksum_value [OF len assms(5) off(1), of algorithm "p_addr p + ucast start_offset"] show ?thesis
    using assms(2-4)
    by (simp add: pbuf_fill_chksum_def lwip_chksum_copy_def Let_def not_less del: LWIP_CHKSUM.simps)
qed

theorem pbuf_fill_chksum_incremental_witness:
  "\<exists>p' chksum'. pbuf_fill_chksum (LWIP_CHKSUM 1) (lone_pbuf [1, 0, 0, 0]) 1 [5, 6] 2 1 = (ERR_OK, p', chksum')
     \<and> p' = (lone_pbuf [1, 0, 0, 0])\<lparr>p_payload := [1, 5, 6, 0]\<rparr>
     \<and> unat chksum' = ocs (sum_le [1, 5, 6])"
  using pbuf_fill_chksum_incremental [of "lone_pbuf [1, 0, 0, 0]" "[5, 6]" 2 1 1 1]
  by (simp add: lone_pbuf_def mem_write_def ocs_def word_less_nat_alt del: LWIP_CHKSUM.simps)

end
