(* ===== verification/Ip4Addr.thy ===== *)
theory Ip4Addr
  imports ByteOrder
begin

text \<open>
  IPv4 addresses (\<open>core/ipv4/ip4_addr.c\<close>): the broadcast and netmask tests, the reader of
  addresses in text (\<open>ip4addr_aton\<close>, \<open>ipaddr_addr\<close>) and the writer (\<open>ip4addr_ntoa_r\<close>).
  An address is kept in network order, as the code keeps it in \<open>ip4_addr_t\<close>. A C string is
  the list of its bytes; the end of the list reads as the terminating zero.
\<close>

subsection \<open>Broadcast and netmask\<close>

text \<open>The fields of \<open>struct netif\<close> the tests look at.\<close>

record netif =
  ip_addr :: u32
  netmask :: u32
  netif_flags :: u8

definition IPADDR_ANY :: u32 where "IPADDR_ANY = 0"
definition IPADDR_NONE :: u32 where "IPADDR_NONE = 0xffffffff"
definition IPADDR_BROADCAST :: u32 where "IPADDR_BROADCAST = 0xffffffff"
definition NETIF_FLAG_BROADCAST :: u8 where "NETIF_FLAG_BROADCAST = 0x02"

definition ip4_addr_netcmp :: "u32 \<Rightarrow> u32 \<Rightarrow> u32 \<Rightarrow> bool" where
  "ip4_addr_netcmp addr1 addr2 nmask \<longleftrightarrow> addr1 AND nmask = addr2 AND nmask"

definition ip4_addr_isbroadcast_u32 :: "u32 \<Rightarrow> netif \<Rightarrow> bool" where
  "ip4_addr_isbroadcast_u32 addr netif =
     (if NOT addr = IPADDR_ANY \<or> addr = IPADDR_ANY then True
      else if netif_flags netif AND NETIF_FLAG_BROADCAST = 0 then False
      else if addr = ip_addr netif then False
      else if ip4_addr_netcmp addr (ip_addr netif) (netmask netif)
           \<and> addr AND NOT (netmask netif) = IPADDR_BROADCAST AND NOT (netmask netif) then True
      else False)"

text \<open>The two loops of \<open>ip4_addr_netmask_valid\<close>; \<open>mask\<close> runs from bit 31 down to nothing.\<close>

lemma drop_bit_1_less: "m \<noteq> 0 \<Longrightarrow> unat (drop_bit 1 (m :: u32)) < unat m"
  by (simp add: unat_drop_bit_div unat_gt_0)

function nm_first_zero :: "u32 \<Rightarrow> u32 \<Rightarrow> u32" where
  "nm_first_zero nm_hostorder m =
     (if m = 0 then m
      else if nm_hostorder AND m = 0 then m
      else nm_first_zero nm_hostorder (drop_bit 1 m))"
  by pat_completeness auto
termination by (relation "measure (\<lambda>(_, m). unat m)") (simp_all add: drop_bit_1_less [unfolded One_nat_def])

function nm_no_one :: "u32 \<Rightarrow> u32 \<Rightarrow> bool" where
  "nm_no_one nm_hostorder m =
     (if m = 0 then True
      else if nm_hostorder AND m \<noteq> 0 then False
      else nm_no_one nm_hostorder (drop_bit 1 m))"
  by pat_completeness auto
termination by (relation "measure (\<lambda>(_, m). unat m)") (simp_all add: drop_bit_1_less [unfolded One_nat_def])

declare nm_first_zero.simps [simp del] nm_no_one.simps [simp del]

definition ip4_addr_netmask_valid :: "u32 \<Rightarrow> bool" where
  "ip4_addr_netmask_valid nmask =
     (let nm_hostorder = lwip_htonl nmask
      in nm_no_one nm_hostorder (nm_first_zero nm_hostorder (push_bit 31 1)))"

subsection \<open>Reading an address\<close>

definition in_range :: "u8 \<Rightarrow> u8 \<Rightarrow> u8 \<Rightarrow> bool" where
  "in_range c lo up \<longleftrightarrow> lo \<le> c \<and> c \<le> up"

definition isdigit :: "u8 \<Rightarrow> bool" where
  "isdigit c \<longleftrightarrow> in_range c 0x30 0x39"

definition isxdigit :: "u8 \<Rightarrow> bool" where
  "isxdigit c \<longleftrightarrow> isdigit c \<or> in_range c 0x61 0x66 \<or> in_range c 0x41 0x46"

definition islower :: "u8 \<Rightarrow> bool" where
  "islower c \<longleftrightarrow> in_range c 0x61 0x7a"

definition isspace :: "u8 \<Rightarrow> bool" where
  "isspace c \<longleftrightarrow> c = 0x20 \<or> c = 0x0c \<or> c = 0x0a \<or> c = 0x0d \<or> c = 0x09 \<or> c = 0x0b"

text \<open>\<open>*cp\<close>.\<close>

fun cur :: "bytes \<Rightarrow> u8" where
  "cur [] = 0"
| "cur (c # cs) = c"

text \<open>The base announced by the first characters of a number, and where its digits start.\<close>

definition aton_base :: "bytes \<Rightarrow> u8 \<times> bytes" where
  "aton_base cp =
     (if cur cp = 0x30 then
        let cp = tl cp
        in if cur cp = 0x78 \<or> cur cp = 0x58 then (16, tl cp) else (8, cp)
      else (10, cp))"

fun aton_digits :: "u8 \<Rightarrow> u32 \<Rightarrow> bytes \<Rightarrow> u32 \<times> bytes" where
  "aton_digits base val [] = (val, [])"
| "aton_digits base val (c # cp) =
     (if isdigit c then aton_digits base (val * ucast base + (ucast c - 0x30)) cp
      else if base = 16 \<and> isxdigit c
      then aton_digits base
             (push_bit 4 val OR (ucast c + 10 - (if islower c then 0x61 else 0x41))) cp
      else (val, c # cp))"

text \<open>
  The outer loop: \<open>parts\<close> holds the numbers already followed by a dot, at most three. The
  result is those, the last number and the rest of the string; \<open>None\<close> is \<open>return 0\<close>.
\<close>

function aton_parts :: "u32 list \<Rightarrow> bytes \<Rightarrow> (u32 list \<times> u32 \<times> bytes) option" where
  "aton_parts parts cp =
     (if \<not> isdigit (cur cp) then None
      else let (base, cp) = aton_base cp;
               (val, cp) = aton_digits base 0 cp
        in if cur cp = 0x2e then
             (if 3 \<le> length parts then None else aton_parts (parts @ [val]) (tl cp))
           else Some (parts, val, cp))"
  by pat_completeness auto
termination by (relation "measure (\<lambda>(parts, _). 3 - length parts)") auto

declare aton_parts.simps [simp del]

text \<open>The address from its parts, each checked against the bytes it has to fill.\<close>

fun aton_combine :: "u32 list \<Rightarrow> u32 \<Rightarrow> u32 option" where
  "aton_combine [] val = Some val"
| "aton_combine [a] val =
     (if val > 0xffffff \<or> a > 0xff then None else Some (val OR push_bit 24 a))"
| "aton_combine [a, b] val =
     (if val > 0xffff \<or> a > 0xff \<or> b > 0xff then None
      else Some (val OR push_bit 24 a OR push_bit 16 b))"
| "aton_combine [a, b, c] val =
     (if val > 0xff \<or> a > 0xff \<or> b > 0xff \<or> c > 0xff then None
      else Some (val OR push_bit 24 a OR push_bit 16 b OR push_bit 8 c))"
| "aton_combine _ val = Some val"

definition ip4addr_aton :: "bytes \<Rightarrow> u32 option" where
  "ip4addr_aton cp =
     (case aton_parts [] cp of
        None \<Rightarrow> None
      | Some (parts, val, rest) \<Rightarrow>
          if cur rest \<noteq> 0 \<and> \<not> isspace (cur rest) then None
          else map_option lwip_htonl (aton_combine parts val))"

definition ipaddr_addr :: "bytes \<Rightarrow> u32" where
  "ipaddr_addr cp = (case ip4addr_aton cp of Some v \<Rightarrow> v | None \<Rightarrow> IPADDR_NONE)"

subsection \<open>Writing an address\<close>

text \<open>The digits of an octet, last one first, as the code collects them in \<open>inv\<close>.\<close>

lemma div_10_less: "ap \<noteq> 0 \<Longrightarrow> unat ((ap :: u8) div 10) < unat ap"
  by (simp add: unat_div unat_gt_0)

function ntoa_inv :: "u8 \<Rightarrow> bytes" where
  "ntoa_inv ap = (0x30 + ap mod 10) # (if ap div 10 \<noteq> 0 then ntoa_inv (ap div 10) else [])"
  by pat_completeness auto
termination
  by (relation "measure unat") (auto intro: div_10_less)

declare ntoa_inv.simps [simp del]

text \<open>\<open>*rp++ = c\<close> for each of the characters, refused when the buffer is full.\<close>

fun ntoa_put :: "bytes \<Rightarrow> int \<Rightarrow> int \<Rightarrow> bytes \<Rightarrow> (int \<times> bytes) option" where
  "ntoa_put [] buflen len out = Some (len, out)"
| "ntoa_put (c # cs) buflen len out =
     (if len \<ge> buflen then None else ntoa_put cs buflen (len + 1) (out @ [c]))"

fun ntoa_octets :: "bytes \<Rightarrow> int \<Rightarrow> int \<Rightarrow> bytes \<Rightarrow> bytes option" where
  "ntoa_octets [] buflen len out = Some out"
| "ntoa_octets (ap # aps) buflen len out =
     (case ntoa_put (rev (ntoa_inv ap)) buflen len out of
        None \<Rightarrow> None
      | Some (len, out) \<Rightarrow>
          if len \<ge> buflen then None else ntoa_octets aps buflen (len + 1) (out @ [0x2e]))"

text \<open>The string in \<open>buf\<close>: the last dot is overwritten with the terminating zero.\<close>

definition ip4addr_ntoa_r :: "u32 \<Rightarrow> int \<Rightarrow> bytes option" where
  "ip4addr_ntoa_r s_addr buflen =
     map_option butlast
       (ntoa_octets [ucast s_addr, ucast (drop_bit 8 s_addr), ucast (drop_bit 16 s_addr),
                     ucast (drop_bit 24 s_addr)] buflen 0 [])"

definition IP4ADDR_STRLEN_MAX :: int where "IP4ADDR_STRLEN_MAX = 16"

definition ip4addr_ntoa :: "u32 \<Rightarrow> bytes option" where
  "ip4addr_ntoa addr = ip4addr_ntoa_r addr IP4ADDR_STRLEN_MAX"

subsection \<open>Netmasks\<close>

definition nm_bit :: "nat \<Rightarrow> u32" where
  "nm_bit k = push_bit k 1"

lemma drop_nm_bit: "Suc k < 32 \<Longrightarrow> drop_bit (Suc 0) (nm_bit (Suc k)) = nm_bit k"
  unfolding nm_bit_def by (rule bit_word_eqI) (auto simp: bit_simps)

lemma drop_nm_bit_0: "drop_bit (Suc 0) (nm_bit 0) = 0"
  unfolding nm_bit_def by (rule bit_word_eqI) (auto simp: bit_simps)

lemma and_nm_bit: "k < 32 \<Longrightarrow> (w :: u32) AND nm_bit k = 0 \<longleftrightarrow> \<not> bit w k"
  by (simp add: nm_bit_def push_bit_eq_mult and_exp_eq_0_iff_not_bit)

lemma nm_bit_nonzero: "k < 32 \<Longrightarrow> nm_bit k \<noteq> 0"
  by (simp add: nm_bit_def push_bit_eq_mult)

lemma nm_step:
  assumes "k < 32"
  shows "nm_no_one w (nm_bit k) \<longleftrightarrow> \<not> bit w k \<and> nm_no_one w (drop_bit (Suc 0) (nm_bit k))"
    and "nm_first_zero w (nm_bit k) =
           (if bit w k then nm_first_zero w (drop_bit (Suc 0) (nm_bit k)) else nm_bit k)"
  using assms nm_no_one.simps [of w "nm_bit k"] nm_first_zero.simps [of w "nm_bit k"]
  by (simp_all add: and_nm_bit nm_bit_nonzero)

lemma nm_no_one_iff: "k < 32 \<Longrightarrow> nm_no_one w (nm_bit k) \<longleftrightarrow> (\<forall>j \<le> k. \<not> bit w j)"
proof (induction k)
  case 0
  then show ?case
    using nm_step(1) [of 0 w] by (simp add: drop_nm_bit_0 nm_no_one.simps [of w 0])
next
  case (Suc k)
  then show ?case
    by (simp add: nm_step(1) [OF Suc.prems] drop_nm_bit le_Suc_eq all_conj_distrib conj_commute)
qed

text \<open>From bit \<open>k\<close> down: ones as far as some bit \<open>z\<close>, and only zeros below it.\<close>

lemma nm_loops_iff:
  "k < 32 \<Longrightarrow> nm_no_one w (nm_first_zero w (nm_bit k)) \<longleftrightarrow>
     (\<exists>z \<le> Suc k. \<forall>j \<le> k. bit w j \<longleftrightarrow> z \<le> j)"
proof (induction k)
  case 0
  show ?case
  proof (cases "bit w 0")
    case True
    then have "nm_no_one w (nm_first_zero w (nm_bit 0))"
      using nm_step(2) [of 0 w] by (simp add: drop_nm_bit_0 nm_first_zero.simps [of w 0] nm_no_one.simps [of w 0])
    with True show ?thesis by auto
  next
    case False
    then have "nm_no_one w (nm_first_zero w (nm_bit 0))"
      using nm_step(2) [of 0 w] nm_no_one_iff [of 0 w] by simp
    with False show ?thesis by auto
  qed
next
  case (Suc k)
  show ?case
  proof (cases "bit w (Suc k)")
    case True
    then have "nm_no_one w (nm_first_zero w (nm_bit (Suc k))) \<longleftrightarrow>
        (\<exists>z \<le> Suc k. \<forall>j \<le> k. bit w j \<longleftrightarrow> z \<le> j)"
      using Suc nm_step(2) [OF Suc.prems, of w] by (simp add: drop_nm_bit)
    also have "\<dots> \<longleftrightarrow> (\<exists>z \<le> Suc (Suc k). \<forall>j \<le> Suc k. bit w j \<longleftrightarrow> z \<le> j)"
      using True by (metis le_Suc_eq order_refl)
    finally show ?thesis .
  next
    case False
    then have "nm_no_one w (nm_first_zero w (nm_bit (Suc k))) \<longleftrightarrow> (\<forall>j \<le> Suc k. \<not> bit w j)"
      using Suc.prems nm_step(2) [OF Suc.prems, of w] nm_no_one_iff by simp
    also have "\<dots> \<longleftrightarrow> (\<exists>z \<le> Suc (Suc k). \<forall>j \<le> Suc k. bit w j \<longleftrightarrow> z \<le> j)"
      using False by (metis le_Suc_eq not_less_eq_eq)
    finally show ?thesis .
  qed
qed

lemma bits_above_iff: "(\<forall>j \<le> 31. bit w j \<longleftrightarrow> z \<le> j) \<longleftrightarrow> w = NOT (mask z)" for w :: u32
proof
  assume "\<forall>j \<le> 31. bit w j \<longleftrightarrow> z \<le> j"
  then show "w = NOT (mask z)" by (intro bit_word_eqI) (auto simp: bit_simps not_less)
qed (auto simp: bit_simps)

lemma nm_valid_bits:
  "ip4_addr_netmask_valid m \<longleftrightarrow> (\<exists>z \<le> 32. lwip_htonl m = NOT (mask z))"
  using nm_loops_iff [of 31 "lwip_htonl m"]
  unfolding ip4_addr_netmask_valid_def Let_def nm_bit_def [symmetric] bits_above_iff by simp

subsection \<open>Decimal numbers\<close>

fun dec :: "nat \<Rightarrow> bytes" where
  "dec n = (if n < 10 then [0x30 + of_nat n] else dec (n div 10) @ [0x30 + of_nat (n mod 10)])"

declare dec.simps [simp del]

definition digit_char :: "nat \<Rightarrow> u8" where
  "digit_char d = 0x30 + of_nat d"

lemma unat_digit_char: "d < 10 \<Longrightarrow> unat (digit_char d) = 48 + d"
  by (simp add: digit_char_def unat_add_nowrap unsigned_of_nat take_bit_nat_eq_self)

lemma isdigit_unat: "isdigit c \<longleftrightarrow> 48 \<le> unat c \<and> unat c \<le> 57"
  by (simp add: isdigit_def in_range_def word_le_nat_alt)

lemma isdigit_digit_char: "d < 10 \<Longrightarrow> isdigit (digit_char d)"
  by (simp add: isdigit_unat unat_digit_char)

lemma dec_digits: "\<forall>c \<in> set (dec n). isdigit c"
  by (induction n rule: dec.induct) (subst dec.simps, auto simp: isdigit_digit_char [unfolded digit_char_def])

lemma dec_nonempty [simp]: "dec n \<noteq> []"
  by (subst dec.simps) simp

text \<open>No leading zero, but for the number 0 itself.\<close>

lemma dec_hd_zero: "hd (dec n) = 0x30 \<longleftrightarrow> n = 0"
proof (induction n rule: dec.induct)
  case (1 n)
  show ?case
  proof (cases "n < 10")
    case True
    then have "hd (dec n) = digit_char n" by (subst dec.simps) (simp add: digit_char_def)
    with True show ?thesis by (simp add: word_unat_eq_iff unat_digit_char)
  next
    case False
    then show ?thesis using 1 by (subst dec.simps) simp
  qed
qed

text \<open>The value the digit loop computes.\<close>

definition digits_value :: "u8 \<Rightarrow> u32 \<Rightarrow> bytes \<Rightarrow> u32" where
  "digits_value base = foldl (\<lambda>val c. val * ucast base + (ucast c - 0x30))"

lemma aton_digits_digits:
  "\<forall>c \<in> set ds. isdigit c \<Longrightarrow> aton_digits base val (ds @ cp) = aton_digits base (digits_value base val ds) cp"
  by (induction ds arbitrary: val) (simp_all add: digits_value_def)

lemma digits_value_dec: "digits_value 10 0 (dec n) = of_nat n"
proof (induction n rule: dec.induct)
  case (1 n)
  have digit: "(ucast (0x30 + of_nat d :: u8) :: u32) - 0x30 = of_nat d" if "d < 10" for d
  proof -
    have "unat (ucast (digit_char d) :: u32) = unat (0x30 + of_nat d :: u32)"
      using that by (simp add: unat_ucast_8_32 unat_digit_char unat_add_nowrap unsigned_of_nat take_bit_nat_eq_self)
    then have "(ucast (digit_char d) :: u32) = 0x30 + of_nat d" by (simp only: word_unat_eq_iff)
    then show ?thesis by (simp add: digit_char_def)
  qed
  show ?case
  proof (cases "n < 10")
    case True
    then show ?thesis using digit by (subst dec.simps) (simp add: digits_value_def)
  next
    case False
    have "digits_value 10 0 (dec n) = of_nat (n div 10) * 10 + of_nat (n mod 10)"
      using False 1 digit [of "n mod 10"] by (subst dec.simps) (simp add: digits_value_def)
    also have "\<dots> = of_nat (n div 10 * 10 + n mod 10)" by (simp only: of_nat_add of_nat_mult of_nat_numeral)
    finally show ?thesis by (simp only: div_mult_mod_eq)
  qed
qed

text \<open>A string that does not go on with a digit, an \<open>x\<close> or an \<open>X\<close>.\<close>

definition number_end :: "bytes \<Rightarrow> bool" where
  "number_end cp \<longleftrightarrow> \<not> isdigit (cur cp) \<and> cur cp \<noteq> 0x78 \<and> cur cp \<noteq> 0x58"

lemma aton_digits_end: "base \<noteq> 16 \<Longrightarrow> number_end cp \<Longrightarrow> aton_digits base val cp = (val, cp)"
  by (cases cp) (simp_all add: number_end_def)

lemma aton_parts_dec:
  assumes "number_end cp"
  shows "aton_parts parts (dec n @ cp) =
    (if cur cp = 0x2e then (if 3 \<le> length parts then None else aton_parts (parts @ [of_nat n]) (tl cp))
     else Some (parts, of_nat n, cp))"
proof -
  obtain c ds where d: "dec n = c # ds" by (cases "dec n") auto
  have "isdigit (cur (dec n @ cp))" using d dec_digits [of n] by simp
  moreover have "(let (base, cp') = aton_base (dec n @ cp) in aton_digits base 0 cp') = (of_nat n, cp)"
  proof (cases "n = 0")
    case True
    then show ?thesis
      using assms by (simp add: dec.simps [of 0] aton_base_def number_end_def [unfolded atomize_eq] aton_digits_end)
  next
    case False
    then have "c \<noteq> 0x30" using d dec_hd_zero [of n] by simp
    then have "aton_base (dec n @ cp) = (10, dec n @ cp)" by (simp add: aton_base_def d)
    then show ?thesis
      using assms by (simp add: aton_digits_digits dec_digits digits_value_dec aton_digits_end)
  qed
  ultimately show ?thesis
    by (subst aton_parts.simps) (auto simp: Let_def split: prod.splits)
qed

subsection \<open>Dotted addresses\<close>

definition dotted :: "nat \<Rightarrow> nat \<Rightarrow> nat \<Rightarrow> nat \<Rightarrow> bytes" where
  "dotted a b c d = dec a @ [0x2e] @ dec b @ [0x2e] @ dec c @ [0x2e] @ dec d"

lemma number_end_dot [simp]: "number_end (0x2e # cp)"
  by (simp add: number_end_def isdigit_unat)

text \<open>The string ends, or goes on with white space.\<close>

definition text_end :: "bytes \<Rightarrow> bool" where
  "text_end cp \<longleftrightarrow> cur cp = 0 \<or> isspace (cur cp)"

lemma text_end_number_end: "text_end cp \<Longrightarrow> number_end cp \<and> cur cp \<noteq> 0x2e"
  by (auto simp: text_end_def number_end_def isspace_def isdigit_unat)

lemma aton_parts_dotted:
  assumes "text_end cp"
  shows "aton_parts [] (dotted a b c d @ cp) =
    Some ([of_nat a, of_nat b, of_nat c], of_nat d, cp)"
  using text_end_number_end [OF assms]
  by (simp add: dotted_def aton_parts_dec)

lemma of_nat_le_255: "n < 2 ^ 32 \<Longrightarrow> (of_nat n :: u32) > 0xff \<longleftrightarrow> n > 255"
  by (simp add: word_less_nat_alt unsigned_of_nat take_bit_nat_eq_self)

lemma octets_be:
  "(ucast d :: u32) OR push_bit 24 (ucast a) OR push_bit 16 (ucast b) OR push_bit 8 (ucast c) = be32 a b c d"
  by (simp add: be32_def le32_def or.assoc or.commute or.left_commute)

lemma lwip_htonl_be32: "lwip_htonl (be32 a b c d) = le32 a b c d"
  by (rule bit_word_eqI) (auto simp: bit_lwip_htonl be32_def bit_le32 dest: bit_u8_lt)

lemma ip4addr_aton_dotted:
  assumes "text_end cp" and lt: "a < 2 ^ 32" "b < 2 ^ 32" "c < 2 ^ 32" "d < 2 ^ 32"
  shows "ip4addr_aton (dotted a b c d @ cp) =
    (if a \<le> 255 \<and> b \<le> 255 \<and> c \<le> 255 \<and> d \<le> 255
     then Some (le32 (of_nat a) (of_nat b) (of_nat c) (of_nat d)) else None)"
proof -
  have octet: "(of_nat n :: u32) = ucast (of_nat n :: u8)" if "n \<le> 255" for n
    using that by (simp add: word_unat_eq_iff unat_ucast_8_32 unsigned_of_nat take_bit_nat_eq_self)
  have end_ok: "\<not> (cur cp \<noteq> 0 \<and> \<not> isspace (cur cp))"
    using assms(1) by (simp add: text_end_def)
  show ?thesis
  proof (cases "a \<le> 255 \<and> b \<le> 255 \<and> c \<le> 255 \<and> d \<le> 255")
    case True
    have "aton_combine [of_nat a, of_nat b, of_nat c] (of_nat d) =
        Some (of_nat d OR push_bit 24 (of_nat a) OR push_bit 16 (of_nat b) OR push_bit 8 (of_nat c))"
      using True lt of_nat_le_255 by simp
    also have "\<dots> = Some (be32 (of_nat a) (of_nat b) (of_nat c) (of_nat d))"
      using True by (simp add: octet octets_be)
    finally have "aton_combine [of_nat a, of_nat b, of_nat c] (of_nat d) =
        Some (be32 (of_nat a) (of_nat b) (of_nat c) (of_nat d))" .
    with True end_ok show ?thesis
      by (simp add: ip4addr_aton_def aton_parts_dotted [OF assms(1)] lwip_htonl_be32)
  next
    case False
    then have "aton_combine [of_nat a, of_nat b, of_nat c] (of_nat d) = None"
      using lt by (auto simp: of_nat_le_255)
    with False show ?thesis
      by (auto simp: ip4addr_aton_def aton_parts_dotted [OF assms(1)])
  qed
qed

subsection \<open>Writing\<close>

lemma rev_ntoa_inv: "rev (ntoa_inv a) = dec (unat a)"
proof (induction a rule: ntoa_inv.induct)
  case (1 a)
  have m: "(of_nat (unat a mod 10) :: u8) = a mod 10"
    by (simp add: word_unat_eq_iff unat_mod unsigned_of_nat take_bit_nat_eq_self order.strict_trans2 [OF mod_less_divisor])
  have q: "unat (a div 10) = unat a div 10" by (simp add: unat_div)
  have small: "a div 10 = 0 \<longleftrightarrow> unat a < 10"
    by (metis q div_eq_0_iff unat_eq_zero zero_neq_numeral)
  show ?case
  proof (cases "a div 10 = 0")
    case True
    then have "unat a < 10" by (simp add: small)
    with m True show ?thesis by (subst ntoa_inv.simps, subst dec.simps) simp
  next
    case False
    then have "\<not> unat a < 10" by (simp add: small)
    with m q False 1 show ?thesis by (subst ntoa_inv.simps, subst dec.simps) simp
  qed
qed

lemma ntoa_put_eq:
  "0 \<le> len \<Longrightarrow> ntoa_put cs buflen len out =
     (if cs = [] \<or> len + int (length cs) \<le> buflen then Some (len + int (length cs), out @ cs) else None)"
proof (induction cs arbitrary: len out)
  case (Cons c cs)
  have "0 \<le> len + 1" using Cons.prems by simp
  from Cons.IH [OF this, of "out @ [c]"] Cons.prems show ?case by auto
qed simp

fun octets_text :: "bytes \<Rightarrow> bytes" where
  "octets_text [] = []"
| "octets_text (a # aps) = dec (unat a) @ [0x2e] @ octets_text aps"

lemma ntoa_octets_eq:
  "0 \<le> len \<Longrightarrow> ntoa_octets aps buflen len out =
     (if aps = [] \<or> len + int (length (octets_text aps)) \<le> buflen
      then Some (out @ octets_text aps) else None)"
proof (induction aps arbitrary: len out)
  case (Cons a aps)
  have "0 \<le> len + int (length (dec (unat a))) + 1" using Cons.prems by simp
  from Cons.IH [OF this, of "out @ dec (unat a) @ [0x2e]"] Cons.prems show ?case
    by (auto simp: ntoa_put_eq rev_ntoa_inv add.assoc)
qed simp

lemma length_dec: "n \<le> 255 \<Longrightarrow> 1 \<le> length (dec n) \<and> length (dec n) \<le> 3"
proof -
  assume n: "n \<le> 255"
  have 1: "length (dec k) = 1" if "k < 10" for k using that by (subst dec.simps) simp
  have 2: "length (dec k) \<le> 2" if "k < 100" for k
    using that 1 [of k] 1 [of "k div 10"] by (cases "k < 10") (simp, subst dec.simps, simp)
  have "length (dec n) \<le> 3"
    using n 1 [of n] 2 [of "n div 10"] by (cases "n < 10") (simp, subst dec.simps, simp)
  moreover have "dec n \<noteq> []" by simp
  ultimately show ?thesis by (simp add: Suc_leI)
qed

definition octet :: "nat \<Rightarrow> u32 \<Rightarrow> nat" where
  "octet i a = unat (ucast (drop_bit (8 * i) a) :: u8)"

definition dotted_of :: "u32 \<Rightarrow> bytes" where
  "dotted_of a = dotted (octet 0 a) (octet 1 a) (octet 2 a) (octet 3 a)"

lemma octet_le: "octet i a \<le> 255"
  unfolding octet_def by (rule unat_le_8)

lemma ip4addr_ntoa_r_eq:
  "ip4addr_ntoa_r a buflen =
     (if int (length (dotted_of a)) + 1 \<le> buflen then Some (dotted_of a) else None)"
proof -
  have "octets_text [ucast a, ucast (drop_bit 8 a), ucast (drop_bit 16 a), ucast (drop_bit 24 a)] =
      dotted_of a @ [0x2e]"
    by (simp add: dotted_of_def dotted_def octet_def)
  then show ?thesis
    by (auto simp add: ip4addr_ntoa_r_def ntoa_octets_eq simp del: octets_text.simps ntoa_octets.simps)
qed

lemma length_dotted_of: "length (dotted_of a) \<le> 15"
  using length_dec [OF octet_le, of 0 a] length_dec [OF octet_le, of 1 a]
    length_dec [OF octet_le, of 2 a] length_dec [OF octet_le, of 3 a]
  by (simp add: dotted_of_def dotted_def)

lemma le32_octets: "le32 (of_nat (octet 0 a)) (of_nat (octet 1 a)) (of_nat (octet 2 a)) (of_nat (octet 3 a)) = a"
  by (rule bit_word_eqI) (auto simp: octet_def bit_le32 bit_simps dest: bit_imp_le_length)

subsection \<open>Properties\<close>

text \<open>\<open>ip4_addr_netmask_valid\<close> accepts a mask exactly when, in host order, it is some
  number of ones followed only by zeros.\<close>

theorem ip4_addr_netmask_valid_iff:
  "ip4_addr_netmask_valid m \<longleftrightarrow> (\<exists>z \<le> 32. lwip_ntohl m = NOT (mask z))"
  using nm_valid_bits by (simp add: lwip_ntohl_def)

text \<open>The addresses taken as broadcast on an interface are all zeros, all ones and, when
  the interface can broadcast, the one address of its subnet with a host part of all ones,
  unless that is the interface's own address.\<close>

theorem ip4_addr_isbroadcast_iff:
  "ip4_addr_isbroadcast_u32 addr netif \<longleftrightarrow>
     addr = 0 \<or> addr = 0xffffffff
     \<or> netif_flags netif AND 2 \<noteq> 0 \<and> addr \<noteq> ip_addr netif
       \<and> addr = (ip_addr netif AND netmask netif) OR NOT (netmask netif)"
proof -
  have ones: "NOT addr = 0 \<longleftrightarrow> addr = 0xffffffff"
  proof -
    have "(0xffffffff :: u32) = NOT 0" by simp
    then show ?thesis by (metis bit.double_compl)
  qed
  have "addr AND m = i AND m \<and> addr AND NOT m = 0xffffffff AND NOT m \<longleftrightarrow> addr = (i AND m) OR NOT m"
    for i m :: u32
  proof -
    have "(0xffffffff :: u32) = mask 32" by (simp add: mask_numeral)
    then show ?thesis by (auto simp: bit_eq_iff [where ?'a = "32 word"] bit_simps)
  qed
  then show ?thesis
    unfolding ip4_addr_isbroadcast_u32_def ip4_addr_netcmp_def IPADDR_ANY_def IPADDR_BROADCAST_def
      NETIF_FLAG_BROADCAST_def ones by simp
qed

text \<open>A dotted quad of decimal numbers is read as the address with these four bytes in
  memory when each number is at most 255, and is refused otherwise; what follows it may
  only be the end of the string or white space.\<close>

theorem ip4addr_aton_quad:
  assumes "text_end cp" "a < 2 ^ 32" "b < 2 ^ 32" "c < 2 ^ 32" "d < 2 ^ 32"
  shows "ip4addr_aton (dec a @ [0x2e] @ dec b @ [0x2e] @ dec c @ [0x2e] @ dec d @ cp) =
    (if a \<le> 255 \<and> b \<le> 255 \<and> c \<le> 255 \<and> d \<le> 255
     then Some (le32 (of_nat a) (of_nat b) (of_nat c) (of_nat d)) else None)"
  using ip4addr_aton_dotted [OF assms] by (simp add: dotted_def)

theorem ip4addr_aton_quad_witness:
  "ip4addr_aton (dec 10 @ [0x2e] @ dec 0 @ [0x2e] @ dec 256 @ [0x2e] @ dec 1 @ [0x20]) = None"
  using ip4addr_aton_quad [of "[0x20]" 10 0 256 1] by (simp add: text_end_def isspace_def)

text \<open>A single decimal number of any size is accepted as an address: its value is taken
  modulo \<open>2 ^ 32\<close>, no overflow is noticed.\<close>

theorem ip4addr_aton_number:
  assumes "text_end cp"
  shows "ip4addr_aton (dec n @ cp) = Some (lwip_htonl (of_nat n))"
  using text_end_number_end [OF assms] assms
  by (auto simp: ip4addr_aton_def aton_parts_dec text_end_def)

theorem ip4addr_aton_number_witness: "ip4addr_aton (dec 4294967297 @ []) = Some 0x01000000"
  using ip4addr_aton_number [of "[]" 4294967297]
  by (simp add: text_end_def lwip_htonl_def mask_eq_exp_minus_1)

text \<open>\<open>ip4addr_ntoa_r\<close> writes the four octets as a dotted quad when the buffer has room
  for the text and its terminating zero, and refuses the buffer otherwise; the 16 bytes of
  \<open>IP4ADDR_STRLEN_MAX\<close> are always enough.\<close>

theorem ip4addr_ntoa_r_text:
  "ip4addr_ntoa_r a buflen =
     (if int (length (dotted_of a)) + 1 \<le> buflen then Some (dotted_of a) else None)
   \<and> ip4addr_ntoa a = Some (dotted_of a)"
  using ip4addr_ntoa_r_eq [of a] length_dotted_of [of a]
  by (simp add: ip4addr_ntoa_def IP4ADDR_STRLEN_MAX_def)

text \<open>C40: Reading back the text of an address gives that address, for every address, with
  \<open>ip4addr_aton\<close> and with \<open>ipaddr_addr\<close>.\<close>

theorem ip4addr_ntoa_aton:
  "\<exists>s. ip4addr_ntoa a = Some s \<and> ip4addr_aton s = Some a \<and> ipaddr_addr s = a"
proof -
  have "octet i a < 2 ^ 32" for i using octet_le [of i a] by simp
  then have "ip4addr_aton (dotted_of a @ []) = Some a"
    using ip4addr_aton_dotted [of "[]" "octet 0 a" "octet 1 a" "octet 2 a" "octet 3 a"] octet_le le32_octets
    by (simp add: dotted_of_def text_end_def)
  moreover have "ip4addr_ntoa a = Some (dotted_of a)"
    using ip4addr_ntoa_r_eq [of a 16] length_dotted_of [of a]
    by (simp add: ip4addr_ntoa_def IP4ADDR_STRLEN_MAX_def)
  ultimately show ?thesis by (simp add: ipaddr_addr_def)
qed

end
