(* ===== verification/SnmpStream.thy ===== *)
theory SnmpStream
  imports Pbuf
begin

text \<open>
  Streams over a pbuf chain (\<open>apps/snmp/snmp_pbuf_stream.c\<close>): a cursor that reads and
  writes a window of the chain byte by byte. A stream is shown to behave as the byte list
  of its window: reading takes its head, writing overwrites it from the front. \<open>None\<close> is a
  run that dereferences a null pointer or reads outside the memory of a pbuf. In
  \<open>snmp_pbuf_stream_writeto\<close> the two streams are over different chains, as they are in
  its callers (the request and the response).
\<close>

subsection \<open>Operations\<close>

record snmp_pbuf_stream =
  s_pbuf :: "pbuf list"
  s_offset :: u16
  s_length :: u16

definition snmp_pbuf_stream_init :: "pbuf list \<Rightarrow> u16 \<Rightarrow> u16 \<Rightarrow> err_t \<times> snmp_pbuf_stream" where
  "snmp_pbuf_stream_init p offset len =
     (ERR_OK, \<lparr>s_pbuf = p, s_offset = offset, s_length = len\<rparr>)"

definition snmp_pbuf_stream_read :: "snmp_pbuf_stream \<Rightarrow> (err_t + u8) \<times> snmp_pbuf_stream" where
  "snmp_pbuf_stream_read s =
     (if s_length s = 0 then (Inl ERR_BUF, s)
      else let (copied, data) = pbuf_copy_partial (s_pbuf s) 1 (s_offset s)
        in if copied = 0 then (Inl ERR_BUF, s)
           else (Inr (hd data), s\<lparr>s_offset := s_offset s + 1, s_length := s_length s - 1\<rparr>))"

definition snmp_pbuf_stream_writebuf ::
  "snmp_pbuf_stream \<Rightarrow> bytes \<Rightarrow> u16 \<Rightarrow> (err_t \<times> snmp_pbuf_stream) option" where
  "snmp_pbuf_stream_writebuf s buf buf_len =
     (if s_length s < buf_len then Some (ERR_BUF, s)
      else case pbuf_take_at (s_pbuf s) buf buf_len (s_offset s) of
             None \<Rightarrow> None
           | Some (err, p) \<Rightarrow>
               if err \<noteq> ERR_OK then Some (ERR_BUF, s\<lparr>s_pbuf := p\<rparr>)
               else Some (ERR_OK, s\<lparr>s_pbuf := p, s_offset := s_offset s + buf_len,
                                   s_length := s_length s - buf_len\<rparr>))"

definition snmp_pbuf_stream_write ::
  "snmp_pbuf_stream \<Rightarrow> u8 \<Rightarrow> (err_t \<times> snmp_pbuf_stream) option" where
  "snmp_pbuf_stream_write s data = snmp_pbuf_stream_writebuf s [data] 1"

text \<open>
  The copying loop. Each round reads \<open>min len (pbuf->len)\<close> bytes from \<open>target_offset\<close> on in
  the payload of the pbuf that holds the stream's position; when that runs past the memory
  of the payload the result is \<open>None\<close>.
\<close>

function snmp_writeto_loop ::
  "snmp_pbuf_stream \<Rightarrow> snmp_pbuf_stream \<Rightarrow> u16 \<Rightarrow> (err_t \<times> snmp_pbuf_stream \<times> snmp_pbuf_stream) option" where
  "snmp_writeto_loop s tgt len =
     (if len = 0 then Some (ERR_OK, s, tgt)
      else case pbuf_skip (s_pbuf s) (s_offset s) of
             ([], target_offset) \<Rightarrow> Some (ERR_BUF, s, tgt)
           | (q # qs, target_offset) \<Rightarrow>
               if p_len q = 0 then Some (ERR_BUF, s, tgt)
               else let chunk_len = min len (p_len q);
                        src = take (unat chunk_len) (drop (unat target_offset) (p_payload q))
                 in if length src < unat chunk_len then None
                    else case snmp_pbuf_stream_writebuf tgt src chunk_len of
                           None \<Rightarrow> None
                         | Some (err, tgt) \<Rightarrow>
                             if err \<noteq> ERR_OK then Some (err, s, tgt)
                             else snmp_writeto_loop
                                    (s\<lparr>s_offset := s_offset s + chunk_len,
                                       s_length := s_length s - chunk_len\<rparr>) tgt (len - chunk_len))"
  by pat_completeness auto
termination
proof (relation "measure (\<lambda>(_, _, len). unat len)")
  show "((s', tgt', len - chunk), (s, tgt, len)) \<in> measure (\<lambda>(_, _, len). unat len)"
    if "len \<noteq> 0" "p_len q \<noteq> 0" "chunk = min len (p_len q)"
    for s s' tgt tgt' :: snmp_pbuf_stream and len chunk :: u16 and q :: pbuf
  proof -
    have "0 < chunk" using that by (simp add: min_def word_neq_0_conv)
    moreover have "chunk \<le> len" unfolding that(3) by (rule min.cobounded1)
    ultimately have "0 < chunk" "chunk \<le> len" .
    then have "0 < unat chunk" "unat chunk \<le> unat len" by (simp_all add: word_le_nat_alt unat_gt_0)
    then show ?thesis by (simp add: unat_sub_nowrap)
  qed
qed simp_all

declare snmp_writeto_loop.simps [simp del]

definition snmp_pbuf_stream_writeto ::
  "snmp_pbuf_stream option \<Rightarrow> snmp_pbuf_stream option \<Rightarrow> u16
     \<Rightarrow> (err_t \<times> snmp_pbuf_stream option \<times> snmp_pbuf_stream option) option" where
  "snmp_pbuf_stream_writeto s tgt len =
     (case (s, tgt) of
        (Some s', Some tgt') \<Rightarrow>
          if len > s_length s' \<or> len > s_length tgt' then Some (ERR_ARG, s, tgt)
          else let len = (if len = 0 then min (s_length s') (s_length tgt') else len)
            in map_option (\<lambda>(err, s', tgt'). (err, Some s', Some tgt')) (snmp_writeto_loop s' tgt' len)
      | _ \<Rightarrow> Some (ERR_ARG, s, tgt))"

text \<open>The \<open>s32_t\<close> argument is the signed reading of its word.\<close>

definition snmp_pbuf_stream_seek :: "snmp_pbuf_stream \<Rightarrow> s32 \<Rightarrow> err_t \<times> snmp_pbuf_stream" where
  "snmp_pbuf_stream_seek s offset =
     (if sint offset < 0 \<or> sint offset > uint (s_length s) then (ERR_ARG, s)
      else (ERR_OK, s\<lparr>s_offset := s_offset s + ucast offset, s_length := s_length s - ucast offset\<rparr>))"

definition snmp_pbuf_stream_seek_abs :: "snmp_pbuf_stream \<Rightarrow> u32 \<Rightarrow> err_t \<times> snmp_pbuf_stream" where
  "snmp_pbuf_stream_seek_abs s offset =
     (let rel_offset = offset - ucast (s_offset s) in snmp_pbuf_stream_seek s rel_offset)"

subsection \<open>A stream as the bytes of its window\<close>

definition stream_ok :: "snmp_pbuf_stream \<Rightarrow> bool" where
  "stream_ok s \<longleftrightarrow> chain_ok (s_pbuf s) \<and> unat (s_offset s) + unat (s_length s) \<le> chain_tot_len (s_pbuf s)"

definition stream_bytes :: "snmp_pbuf_stream \<Rightarrow> bytes" where
  "stream_bytes s = take (unat (s_length s)) (drop (unat (s_offset s)) (chain_bytes (s_pbuf s)))"

lemma length_stream_bytes [simp]: "stream_ok s \<Longrightarrow> length (stream_bytes s) = unat (s_length s)"
  by (auto simp: stream_ok_def stream_bytes_def)

text \<open>The stream after moving over the first \<open>n\<close> bytes of its window.\<close>

definition stream_advance :: "nat \<Rightarrow> snmp_pbuf_stream \<Rightarrow> snmp_pbuf_stream" where
  "stream_advance n s =
     s\<lparr>s_offset := s_offset s + of_nat n, s_length := s_length s - of_nat n\<rparr>"

lemma stream_advance_fields:
  assumes "stream_ok s" "n \<le> unat (s_length s)"
  shows "unat (s_offset (stream_advance n s)) = unat (s_offset s) + n"
    and "unat (s_length (stream_advance n s)) = unat (s_length s) - n"
    and "s_pbuf (stream_advance n s) = s_pbuf s"
proof -
  have "n < 65536" using assms(2) unat_lt_16 [of "s_length s"] by linarith
  then have n: "unat (of_nat n :: u16) = n" by (rule unat_of_nat_16)
  moreover have "unat (s_offset s) + unat (s_length s) < 65536"
    using assms(1) chain_tot_len_lt [of "s_pbuf s"] unfolding stream_ok_def by linarith
  ultimately show "unat (s_offset (stream_advance n s)) = unat (s_offset s) + n"
    using assms(2) by (simp add: stream_advance_def unat_add_nowrap)
  show "unat (s_length (stream_advance n s)) = unat (s_length s) - n"
    using assms(2) n by (simp add: stream_advance_def unat_sub_nowrap)
qed (simp add: stream_advance_def)

lemma stream_advance_ok:
  assumes "stream_ok s" "n \<le> unat (s_length s)"
  shows "stream_ok (stream_advance n s)" "stream_bytes (stream_advance n s) = drop n (stream_bytes s)"
  using assms stream_advance_fields [OF assms]
  by (simp_all add: stream_ok_def stream_bytes_def drop_take add.commute)

lemma stream_advance_add:
  "stream_advance m (stream_advance n s) = stream_advance (n + m) s"
  by (simp add: stream_advance_def add.assoc diff_diff_eq)

lemma stream_advance_0 [simp]: "stream_advance 0 s = s"
  by (simp add: stream_advance_def)

subsection \<open>Reading\<close>

lemma read_eq:
  assumes "stream_ok s"
  shows "snmp_pbuf_stream_read s =
    (case stream_bytes s of [] \<Rightarrow> (Inl ERR_BUF, s) | b # _ \<Rightarrow> (Inr b, stream_advance 1 s))"
proof (cases "s_length s = 0")
  case True
  then show ?thesis by (simp add: snmp_pbuf_stream_read_def stream_bytes_def)
next
  case False
  then have len: "0 < unat (s_length s)" by (simp add: unat_gt_0)
  then have inside: "unat (s_offset s) < chain_tot_len (s_pbuf s)"
    using assms by (simp add: stream_ok_def)
  have "stream_bytes s \<noteq> []" using assms len length_stream_bytes [of s] by fastforce
  then obtain b bs where b: "stream_bytes s = b # bs" by (cases "stream_bytes s") auto
  have "take 1 (drop (unat (s_offset s)) (chain_bytes (s_pbuf s))) = take 1 (stream_bytes s)"
    using len by (simp add: stream_bytes_def min_def)
  then have "pbuf_copy_partial (s_pbuf s) 1 (s_offset s) = (1, [b])"
    using assms inside b by (simp add: pbuf_copy_partial_eq stream_ok_def min_def)
  with False b show ?thesis
    by (simp add: snmp_pbuf_stream_read_def stream_advance_def)
qed

subsection \<open>Writing\<close>

text \<open>\<open>wrote s bs s'\<close>: from \<open>s\<close>, the bytes \<open>bs\<close> have been written and the stream is now \<open>s'\<close>.\<close>

definition wrote :: "snmp_pbuf_stream \<Rightarrow> bytes \<Rightarrow> snmp_pbuf_stream \<Rightarrow> bool" where
  "wrote s bs s' \<longleftrightarrow>
     length bs \<le> unat (s_length s)
     \<and> (\<exists>p. s' = stream_advance (length bs) (s\<lparr>s_pbuf := p\<rparr>)
          \<and> chain_written (unat (s_offset s)) bs (s_pbuf s) p)"

lemma chain_written_ok:
  "chain_written off bs ps ps' \<Longrightarrow> chain_ok ps' \<and> chain_tot_len ps' = chain_tot_len ps"
  using chain_frame_tot_len [of ps' ps] by (simp add: chain_written_def)

lemma stream_ok_written:
  "stream_ok s \<Longrightarrow> chain_written off bs (s_pbuf s) p \<Longrightarrow> stream_ok (s\<lparr>s_pbuf := p\<rparr>)"
  using chain_written_ok by (simp add: stream_ok_def)

lemma wrote_ok: "stream_ok s \<Longrightarrow> wrote s bs s' \<Longrightarrow> stream_ok s'"
  using stream_ok_written stream_advance_ok(1) by (fastforce simp: wrote_def)

lemma wrote_length:
  "stream_ok s \<Longrightarrow> wrote s bs s' \<Longrightarrow> unat (s_length s') = unat (s_length s) - length bs"
  using stream_ok_written stream_advance_fields(2) by (fastforce simp: wrote_def)

lemma chain_written_refl [simp]: "chain_ok ps \<Longrightarrow> chain_written off [] ps ps"
  by (simp add: chain_written_def)

lemma wrote_Nil [simp]: "stream_ok s \<Longrightarrow> wrote s [] s"
  by (auto simp: wrote_def stream_ok_def intro: exI [of _ "s_pbuf s"])

lemma wrote_append:
  assumes ok: "stream_ok s" and 1: "wrote s xs s1" and 2: "wrote s1 ys s2"
  shows "wrote s (xs @ ys) s2"
proof -
  obtain p where p: "s1 = stream_advance (length xs) (s\<lparr>s_pbuf := p\<rparr>)" "length xs \<le> unat (s_length s)"
    "chain_written (unat (s_offset s)) xs (s_pbuf s) p"
    using 1 by (auto simp: wrote_def)
  obtain q where q: "s2 = stream_advance (length ys) (s1\<lparr>s_pbuf := q\<rparr>)" "length ys \<le> unat (s_length s1)"
    "chain_written (unat (s_offset s1)) ys (s_pbuf s1) q"
    using 2 by (auto simp: wrote_def)
  have okp: "stream_ok (s\<lparr>s_pbuf := p\<rparr>)" using ok p(3) by (rule stream_ok_written)
  note f = stream_advance_fields [OF okp, of "length xs", simplified, OF p(2)]
  have s2: "s2 = stream_advance (length (xs @ ys)) (s\<lparr>s_pbuf := q\<rparr>)"
    unfolding q(1) p(1) by (simp add: stream_advance_def add.assoc diff_diff_eq)
  have "length xs + length ys \<le> unat (s_length s)" using q(2) f p by simp
  moreover have "unat (s_offset s) + unat (s_length s) \<le> length (chain_bytes (s_pbuf s))"
    using ok by (simp add: stream_ok_def)
  ultimately have "mem_write (unat (s_offset s) + length xs) ys
      (mem_write (unat (s_offset s)) xs (chain_bytes (s_pbuf s))) =
      mem_write (unat (s_offset s)) (xs @ ys) (chain_bytes (s_pbuf s))"
    by (intro mem_write_mem_write) simp
  then have "chain_written (unat (s_offset s)) (xs @ ys) (s_pbuf s) q"
    using p(1,3) q(3) f by (simp add: chain_written_def)
  with s2 \<open>length xs + length ys \<le> _\<close> show ?thesis by (auto simp: wrote_def)
qed

text \<open>What has been written is read back from the same place.\<close>

lemma wrote_stream_bytes:
  assumes ok: "stream_ok s" and w: "wrote s bs s'"
  shows "stream_bytes (s\<lparr>s_pbuf := s_pbuf s'\<rparr>) = bs @ drop (length bs) (stream_bytes s)"
    and "stream_ok (s\<lparr>s_pbuf := s_pbuf s'\<rparr>)"
proof -
  from w obtain p where p: "s_pbuf s' = p" "chain_written (unat (s_offset s)) bs (s_pbuf s) p"
    and le: "length bs \<le> unat (s_length s)"
    by (auto simp: wrote_def stream_advance_def)
  show "stream_ok (s\<lparr>s_pbuf := s_pbuf s'\<rparr>)"
    using stream_ok_written [OF ok p(2)] p(1) by simp
  have room: "unat (s_offset s) + unat (s_length s) \<le> length (chain_bytes (s_pbuf s))"
    using ok by (simp add: stream_ok_def)
  have "take (unat (s_length s)) (drop (unat (s_offset s)) (mem_write (unat (s_offset s)) bs (chain_bytes (s_pbuf s)))) =
      bs @ drop (length bs) (take (unat (s_length s)) (drop (unat (s_offset s)) (chain_bytes (s_pbuf s))))"
    using room le by (simp add: mem_write_def drop_take add.commute)
  then show "stream_bytes (s\<lparr>s_pbuf := s_pbuf s'\<rparr>) = bs @ drop (length bs) (stream_bytes s)"
    using p by (simp add: stream_bytes_def chain_written_def)
qed

lemma writebuf_room:
  assumes ok: "stream_ok s" and n: "unat n = length bs" and le: "length bs \<le> unat (s_length s)" and ne: "bs \<noteq> []"
  shows "\<exists>s'. snmp_pbuf_stream_writebuf s bs n = Some (ERR_OK, s') \<and> wrote s bs s'"
proof -
  have "unat (s_offset s) < chain_tot_len (s_pbuf s)" "unat (s_offset s) + unat n \<le> chain_tot_len (s_pbuf s)"
    using ok n le ne by (cases bs; simp add: stream_ok_def)+
  then obtain p where p: "pbuf_take_at (s_pbuf s) bs n (s_offset s) = Some (ERR_OK, p)"
    "chain_written (unat (s_offset s)) bs (s_pbuf s) p"
    using pbuf_take_at_written [of "s_pbuf s" n bs "s_offset s"] ok n by (auto simp: stream_ok_def)
  moreover have "\<not> s_length s < n" using n le by (simp add: word_less_nat_alt)
  moreover have "(of_nat (length bs) :: u16) = n" using n [symmetric] by simp
  ultimately show ?thesis
    using le by (auto simp: snmp_pbuf_stream_writebuf_def wrote_def stream_advance_def)
qed

lemma writebuf_full:
  "unat (s_length s) < unat n \<Longrightarrow> snmp_pbuf_stream_writebuf s bs n = Some (ERR_BUF, s)"
  by (simp add: snmp_pbuf_stream_writebuf_def word_less_nat_alt)

lemma write_room:
  "stream_ok s \<Longrightarrow> s_length s \<noteq> 0 \<Longrightarrow>
   \<exists>s'. snmp_pbuf_stream_write s b = Some (ERR_OK, s') \<and> wrote s [b] s'"
  unfolding snmp_pbuf_stream_write_def by (rule writebuf_room) (simp_all add: unat_gt_0 Suc_le_eq)

lemma write_full: "s_length s = 0 \<Longrightarrow> snmp_pbuf_stream_write s b = Some (ERR_BUF, s)"
  unfolding snmp_pbuf_stream_write_def by (rule writebuf_full) simp

subsection \<open>Copying between streams\<close>

lemma pbuf_skip_0: "snd (pbuf_skip qs 0) = 0"
  by (induction qs) simp_all

text \<open>Moving on by the whole segment leads to the start of the next one that is not empty.\<close>

lemma pbuf_skip_next:
  "chain_ok ps \<Longrightarrow> pbuf_skip ps off = (q # qs, 0) \<Longrightarrow> unat off + unat (p_len q) < 65536 \<Longrightarrow>
   pbuf_skip ps (off + p_len q) = pbuf_skip qs 0"
proof (induction ps arbitrary: off)
  case (Cons p ps)
  show ?case
  proof (cases "p_len p \<le> off")
    case True
    have sum: "unat (off + p_len q) = unat off + unat (p_len q)"
      using Cons.prems(3) by (simp add: unat_add_nowrap)
    have "unat (off - p_len p) \<le> unat off" using True by (simp add: unat_diff_le)
    then have "pbuf_skip ps (off - p_len p + p_len q) = pbuf_skip qs 0"
      using Cons True by auto
    moreover have "off - p_len p + p_len q = off + p_len q - p_len p" by simp
    moreover have "p_len p \<le> off + p_len q"
      using True sum by (simp add: word_le_nat_alt)
    ultimately show ?thesis by simp
  next
    case False
    with Cons.prems(2) have "p = q" "ps = qs" "off = 0" by auto
    then show ?thesis by simp
  qed
qed simp

definition at_segment_start :: "snmp_pbuf_stream \<Rightarrow> bool" where
  "at_segment_start s \<longleftrightarrow> snd (pbuf_skip (s_pbuf s) (s_offset s)) = 0"

lemma stream_skip:
  assumes ok: "stream_ok s" and len: "s_length s \<noteq> 0"
  obtains q qs t where "pbuf_skip (s_pbuf s) (s_offset s) = (q # qs, t)" "t < p_len q"
    "unat (p_len q) \<le> length (p_payload q)"
    "\<And>n. n \<le> unat (p_len q) - unat t \<Longrightarrow> n \<le> unat (s_length s) \<Longrightarrow>
       take n (drop (unat t) (p_payload q)) = take n (stream_bytes s)"
proof -
  obtain qs' t where skip: "pbuf_skip (s_pbuf s) (s_offset s) = (qs', t)"
    by (cases "pbuf_skip (s_pbuf s) (s_offset s)")
  have okp: "chain_ok (s_pbuf s)" using ok by (simp add: stream_ok_def)
  obtain pre where pre: "s_pbuf s = pre @ qs'" "unat (s_offset s) = length (chain_bytes pre) + unat t"
    "qs' \<noteq> [] \<longrightarrow> t < p_len (hd qs')"
    using pbuf_skip_suffix [OF okp skip] by blast
  have "unat (s_offset s) < chain_tot_len (s_pbuf s)"
    using ok len unat_gt_0 [of "s_length s"] by (simp add: stream_ok_def)
  then obtain q qs where qs: "qs' = q # qs"
    using pbuf_skip_Nil_iff [OF okp skip] by (cases qs') auto
  have okq: "chain_ok (q # qs)" using okp pre(1) qs chain_ok_append by metis
  have "take n (drop (unat t) (p_payload q)) = take n (stream_bytes s)"
    if "n \<le> unat (p_len q) - unat t" "n \<le> unat (s_length s)" for n
  proof -
    have "take n (stream_bytes s) = take n (drop (unat (s_offset s)) (chain_bytes (s_pbuf s)))"
      using that by (simp add: stream_bytes_def min_def)
    also have "\<dots> = take n (drop (unat t) (pbuf_bytes q))"
      using pre qs that okq by simp
    also have "\<dots> = take n (drop (unat t) (p_payload q))"
      using that by (simp add: pbuf_bytes_def drop_take min_def)
    finally show ?thesis ..
  qed
  with that skip qs pre(3) okq show thesis by simp
qed

lemma writeto_loop_aligned:
  "stream_ok s \<Longrightarrow> stream_ok tgt \<Longrightarrow> len \<le> s_length s \<Longrightarrow> len \<le> s_length tgt \<Longrightarrow> at_segment_start s \<Longrightarrow>
   \<exists>tgt'. snmp_writeto_loop s tgt len = Some (ERR_OK, stream_advance (unat len) s, tgt')
     \<and> wrote tgt (take (unat len) (stream_bytes s)) tgt'"
proof (induction "unat len" arbitrary: s tgt len rule: less_induct)
  case less
  note prems = less.prems
  show ?case
  proof (cases "len = 0")
    case True
    with prems show ?thesis by (simp add: snmp_writeto_loop.simps)
  next
    case False
    then have "s_length s \<noteq> 0" using prems(3) by auto
    then obtain q qs t where q: "pbuf_skip (s_pbuf s) (s_offset s) = (q # qs, t)" "t < p_len q"
      "unat (p_len q) \<le> length (p_payload q)"
      "\<And>n. n \<le> unat (p_len q) - unat t \<Longrightarrow> n \<le> unat (s_length s) \<Longrightarrow>
         take n (drop (unat t) (p_payload q)) = take n (stream_bytes s)"
      using stream_skip [OF prems(1)] by metis
    have t: "t = 0" using prems(5) q(1) by (simp add: at_segment_start_def)
    have nz: "p_len q \<noteq> 0" using q(2) t by auto
    define n where "n = min len (p_len q)"
    have n: "unat n \<le> unat len" "unat n \<le> unat (p_len q)" "n \<noteq> 0"
      using False nz by (simp_all add: n_def min_def word_le_nat_alt)
    define src where "src = take (unat n) (drop (unat t) (p_payload q))"
    have len: "unat len \<le> unat (s_length s)" "unat len \<le> unat (s_length tgt)"
      using prems(3,4) by (simp_all add: word_le_nat_alt)
    have "src = take (unat n) (stream_bytes s)" using q(4) n len t by (simp add: src_def)
    moreover have "length src = unat n" using q(3) n t by (simp add: src_def)
    ultimately have src: "src = take (unat n) (stream_bytes s)" "length src = unat n" .
    have "src \<noteq> []" using src(2) n(3) by (auto simp: unat_eq_zero)
    then obtain tgt1 where w: "snmp_pbuf_stream_writebuf tgt src n = Some (ERR_OK, tgt1)" "wrote tgt src tgt1"
      using writebuf_room [OF prems(2), of n src] src(2) n len by auto
    define s1 where "s1 = s\<lparr>s_offset := s_offset s + n, s_length := s_length s - n\<rparr>"
    have s1: "s1 = stream_advance (unat n) s" by (simp add: s1_def stream_advance_def)
    have ok1: "stream_ok s1" and by1: "stream_bytes s1 = drop (unat n) (stream_bytes s)"
      and f1: "unat (s_length s1) = unat (s_length s) - unat n"
      using stream_advance_ok [OF prems(1)] stream_advance_fields(2) [OF prems(1)] n len
      unfolding s1 by simp_all
    have okt: "stream_ok tgt1" and ft: "unat (s_length tgt1) = unat (s_length tgt) - unat n"
      using wrote_ok [OF prems(2) w(2)] wrote_length [OF prems(2) w(2)] src(2) by simp_all
    have m: "unat (len - n) = unat len - unat n" using n by (simp add: unat_sub_nowrap)
    have "min (length (p_payload q) - unat t) (unat n) = unat n" using q(3) n(2) t by simp
    then have run: "snmp_writeto_loop s tgt len = snmp_writeto_loop s1 tgt1 (len - n)"
      using False q(1) nz w(1)
      by (subst snmp_writeto_loop.simps) (simp add: Let_def n_def [symmetric] src_def [symmetric] s1_def)
    have step: "\<exists>tgt'. snmp_writeto_loop s1 tgt1 (len - n) = Some (ERR_OK, stream_advance (unat (len - n)) s1, tgt')
        \<and> wrote tgt1 (take (unat (len - n)) (stream_bytes s1)) tgt'"
    proof (cases "len = n")
      case True
      with okt show ?thesis by (simp add: snmp_writeto_loop.simps)
    next
      case False
      then have whole: "n = p_len q" by (auto simp: n_def min_def split: if_splits)
      have "unat (s_offset s) + unat (p_len q) < 65536"
        using prems(1) n(1) len(1) chain_tot_len_lt [of "s_pbuf s"]
        unfolding stream_ok_def whole by linarith
      then have "at_segment_start s1"
        using pbuf_skip_next [of "s_pbuf s" "s_offset s" q qs] prems(1) q(1) t whole pbuf_skip_0 [of qs]
        by (simp add: at_segment_start_def s1_def stream_ok_def)
      moreover have "unat (len - n) < unat len"
        using m n \<open>len \<noteq> 0\<close> unat_gt_0 [of n] unat_gt_0 [of len] by simp
      ultimately show ?thesis
        using less.hyps [of "len - n" s1 tgt1] ok1 okt f1 ft m len n
        by (simp add: word_le_nat_alt)
    qed
    then obtain tgt' where fin: "snmp_writeto_loop s1 tgt1 (len - n) = Some (ERR_OK, stream_advance (unat (len - n)) s1, tgt')"
      "wrote tgt1 (take (unat (len - n)) (stream_bytes s1)) tgt'" by blast
    have "wrote tgt (src @ take (unat (len - n)) (stream_bytes s1)) tgt'"
      using wrote_append [OF prems(2) w(2) fin(2)] .
    moreover have "src @ take (unat (len - n)) (stream_bytes s1) = take (unat len) (stream_bytes s)"
      unfolding src(1) by1 m using n(1) by (simp flip: take_add)
    moreover have "stream_advance (unat (len - n)) s1 = stream_advance (unat len) s"
      unfolding s1 m stream_advance_add using n(1) by simp
    ultimately show ?thesis using run fin(1) by auto
  qed
qed

subsection \<open>Properties\<close>

text \<open>A stream over a well-formed chain reads the bytes of its window one by one and then
  reports \<open>ERR_BUF\<close> without moving; reading never leaves the window.\<close>

theorem snmp_pbuf_stream_read_bytes:
  assumes "stream_ok s"
  shows "snmp_pbuf_stream_read s =
      (case stream_bytes s of
         [] \<Rightarrow> (Inl ERR_BUF, s)
       | b # _ \<Rightarrow> (Inr b, s\<lparr>s_offset := s_offset s + 1, s_length := s_length s - 1\<rparr>))
    \<and> (\<forall>b bs. stream_bytes s = b # bs \<longrightarrow> stream_bytes (snd (snmp_pbuf_stream_read s)) = bs)"
proof -
  have "stream_bytes (stream_advance 1 s) = bs" if "stream_bytes s = b # bs" for b bs
  proof -
    have "1 \<le> unat (s_length s)" using length_stream_bytes [OF assms] that by simp
    from stream_advance_ok(2) [OF assms this] that show ?thesis by simp
  qed
  then show ?thesis
    using read_eq [OF assms] by (auto simp: stream_advance_def split: list.splits)
qed

definition stream_of :: "bytes \<Rightarrow> snmp_pbuf_stream" where
  "stream_of d = \<lparr>s_pbuf = [seg d (length d)], s_offset = 0, s_length = of_nat (length d)\<rparr>"

theorem snmp_pbuf_stream_read_bytes_witness:
  "fst (snmp_pbuf_stream_read (stream_of [7, 8])) = Inr 7"
  using snmp_pbuf_stream_read_bytes [of "stream_of [7, 8]"]
  by (simp add: stream_ok_def stream_bytes_def stream_of_def seg_def pbuf_bytes_def)

text \<open>\<open>snmp_pbuf_stream_writebuf\<close> writes all the bytes or, when they do not fit into the
  window, none: it returns \<open>ERR_BUF\<close> and the stream is as before. What it has written can
  be read back from the place where the stream was.\<close>

theorem snmp_pbuf_stream_writebuf_all_or_nothing:
  assumes "stream_ok s" "unat n = length buf" "buf \<noteq> []"
  shows "\<exists>err s'. snmp_pbuf_stream_writebuf s buf n = Some (err, s')
    \<and> (if length buf \<le> unat (s_length s)
       then err = ERR_OK \<and> stream_ok s'
            \<and> unat (s_offset s') = unat (s_offset s) + length buf
            \<and> unat (s_length s') = unat (s_length s) - length buf
            \<and> stream_bytes (s\<lparr>s_pbuf := s_pbuf s'\<rparr>) = buf @ drop (length buf) (stream_bytes s)
       else err = ERR_BUF \<and> s' = s)"
proof (cases "length buf \<le> unat (s_length s)")
  case True
  then obtain s' where s': "snmp_pbuf_stream_writebuf s buf n = Some (ERR_OK, s')" "wrote s buf s'"
    using writebuf_room [OF assms(1,2) _ assms(3)] by blast
  then obtain p where p: "s' = stream_advance (length buf) (s\<lparr>s_pbuf := p\<rparr>)"
    "chain_written (unat (s_offset s)) buf (s_pbuf s) p"
    by (auto simp: wrote_def)
  have "stream_ok (s\<lparr>s_pbuf := p\<rparr>)" using assms(1) p(2) by (rule stream_ok_written)
  from stream_advance_fields [OF this, of "length buf"] True
  have "unat (s_offset s') = unat (s_offset s) + length buf"
    "unat (s_length s') = unat (s_length s) - length buf"
    unfolding p(1) by simp_all
  with s' True wrote_ok [OF assms(1)] wrote_stream_bytes(1) [OF assms(1) s'(2)] show ?thesis by simp
next
  case False
  with writebuf_full [of s n buf] assms(2) show ?thesis by simp
qed

theorem snmp_pbuf_stream_writebuf_all_or_nothing_witness:
  "\<exists>err s'. snmp_pbuf_stream_writebuf (stream_of [7, 8]) [1, 2, 3] 3 = Some (err, s') \<and> err = ERR_BUF"
proof -
  have "stream_ok (stream_of [7, 8])" by (simp add: stream_of_def stream_ok_def seg_def)
  from snmp_pbuf_stream_writebuf_all_or_nothing [OF this, of 3 "[1, 2, 3]"]
  show ?thesis by (auto simp: stream_of_def)
qed

text \<open>Copying \<open>len\<close> bytes from a stream that stands at the start of a segment moves both
  streams over \<open>len\<close> bytes and makes the target's bytes those of the source.\<close>

theorem snmp_pbuf_stream_writeto_copies:
  assumes "stream_ok s" "stream_ok tgt" "at_segment_start s"
    and "len \<noteq> 0" "len \<le> s_length s" "len \<le> s_length tgt"
  shows "\<exists>s' tgt'. snmp_pbuf_stream_writeto (Some s) (Some tgt) len = Some (ERR_OK, Some s', Some tgt')
    \<and> stream_bytes s' = drop (unat len) (stream_bytes s)
    \<and> stream_bytes (tgt\<lparr>s_pbuf := s_pbuf tgt'\<rparr>) =
        take (unat len) (stream_bytes s) @ drop (unat len) (stream_bytes tgt)"
proof -
  obtain tgt' where run: "snmp_writeto_loop s tgt len = Some (ERR_OK, stream_advance (unat len) s, tgt')"
    and w: "wrote tgt (take (unat len) (stream_bytes s)) tgt'"
    using writeto_loop_aligned [OF assms(1,2,5,6,3)] by blast
  have len: "unat len \<le> unat (s_length s)" using assms(5) by (simp add: word_le_nat_alt)
  have "snmp_pbuf_stream_writeto (Some s) (Some tgt) len =
      Some (ERR_OK, Some (stream_advance (unat len) s), Some tgt')"
    using run assms(4-6) by (simp add: snmp_pbuf_stream_writeto_def not_less)
  with stream_advance_ok(2) [OF assms(1) len] wrote_stream_bytes(1) [OF assms(2) w] len assms(1)
  show ?thesis by simp
qed

theorem snmp_pbuf_stream_writeto_copies_witness:
  "\<exists>s' tgt'. snmp_pbuf_stream_writeto (Some (stream_of [1, 2, 3])) (Some (stream_of [7, 8, 9])) 2 =
      Some (ERR_OK, Some s', Some tgt')
    \<and> stream_bytes s' = [3] \<and> stream_bytes ((stream_of [7, 8, 9])\<lparr>s_pbuf := s_pbuf tgt'\<rparr>) = [1, 2, 9]"
proof -
  have ok: "stream_ok (stream_of [1, 2, 3])" "stream_ok (stream_of [7, 8, 9])"
    "at_segment_start (stream_of [1, 2, 3])"
    by (simp_all add: stream_of_def stream_ok_def seg_def at_segment_start_def word_le_nat_alt)
  have "stream_bytes (stream_of [1, 2, 3]) = [1, 2, 3]" "stream_bytes (stream_of [7, 8, 9]) = [7, 8, 9]"
    by (simp_all add: stream_of_def stream_bytes_def seg_def pbuf_bytes_def)
  with snmp_pbuf_stream_writeto_copies [OF ok, of 2] show ?thesis
    by (simp add: stream_of_def word_le_nat_alt)
qed

text \<open>From the middle of a segment \<open>snmp_pbuf_stream_writeto\<close> is wrong: it takes the
  length of the whole segment as what is left of it. The copy of the four bytes that
  follow the first one of a chain of two three-byte segments reads beyond the first
  segment's memory.\<close>

theorem snmp_pbuf_stream_writeto_reads_beyond_segment:
  "let s = \<lparr>s_pbuf = [seg [1, 2, 3] 6, seg [4, 5, 6] 3], s_offset = 1, s_length = 5\<rparr>
   in stream_ok s \<and> stream_bytes s = [2, 3, 4, 5, 6]
      \<and> snmp_pbuf_stream_writeto (Some s) (Some (stream_of [0, 0, 0, 0])) 4 = None"
  by (simp add: stream_ok_def stream_bytes_def stream_of_def seg_def pbuf_bytes_def
      snmp_pbuf_stream_writeto_def snmp_writeto_loop.simps word_le_nat_alt word_less_nat_alt min_def)

end
