(* ===== verification/Asn1.thy ===== *)
theory Asn1
  imports SnmpStream ByteOrder
begin

text \<open>
  The BER encoding of SNMP (\<open>apps/snmp/snmp_asn1.c\<close>): type-length-value headers, unsigned
  and signed integers, 64-bit counters, object identifiers and raw octets, written to and
  read from a \<open>snmp_pbuf_stream\<close>. Each encoder is shown to be the writing of one byte
  list; decoding that list gives back the value, and the \<open>_cnt\<close> functions tell its length.
  An encoder returns \<open>None\<close> only where it shifts by the width of the word or more; a
  decoder returns its result as \<open>Inr\<close> and its error code as \<open>Inl\<close>.
\<close>

subsection \<open>PBUF_OP_EXEC\<close>

text \<open>The macro ends the function with \<open>ERR_BUF\<close> when the stream operation fails.\<close>

definition PBUF_OP_EXEC ::
  "(err_t \<times> snmp_pbuf_stream) option \<Rightarrow> (snmp_pbuf_stream \<Rightarrow> (err_t \<times> snmp_pbuf_stream) option)
     \<Rightarrow> (err_t \<times> snmp_pbuf_stream) option" where
  "PBUF_OP_EXEC code rest =
     (case code of
        None \<Rightarrow> None
      | Some (err, s) \<Rightarrow> if err \<noteq> ERR_OK then Some (ERR_BUF, s) else rest s)"

definition PBUF_OP_READ ::
  "(err_t + u8) \<times> snmp_pbuf_stream \<Rightarrow> (u8 \<Rightarrow> snmp_pbuf_stream \<Rightarrow> (err_t + 'a) \<times> snmp_pbuf_stream)
     \<Rightarrow> (err_t + 'a) \<times> snmp_pbuf_stream" where
  "PBUF_OP_READ code rest =
     (case code of (Inl err, s) \<Rightarrow> (Inl ERR_BUF, s) | (Inr data, s) \<Rightarrow> rest data s)"

lemma unat_minus_7_less: "\<not> n < 7 \<Longrightarrow> unat (n - 7 :: u8) < unat n"
proof -
  assume "\<not> n < 7"
  then have "7 \<le> unat n" by (simp add: word_less_nat_alt)
  then show "unat (n - 7) < unat n" by (simp add: unat_sub_nowrap)
qed

subsection \<open>Type, length, value\<close>

record snmp_asn1_tlv =
  tlv_type :: u8
  type_len :: u8
  length_len :: u8
  value_len :: u16

definition SNMP_ASN1_DATATYPE_MASK :: u8 where "SNMP_ASN1_DATATYPE_MASK = 0x1F"
definition SNMP_ASN1_DATATYPE_EXTENDED :: u8 where "SNMP_ASN1_DATATYPE_EXTENDED = 0x1F"

function enc_length_loop ::
  "snmp_pbuf_stream \<Rightarrow> u8 \<Rightarrow> u16 \<Rightarrow> (err_t \<times> snmp_pbuf_stream) option" where
  "enc_length_loop s length_bytes_required vlen =
     (if length_bytes_required > 1 then
        let data = (if length_bytes_required = 2 then ucast (drop_bit 8 vlen) else 0x00)
        in PBUF_OP_EXEC (snmp_pbuf_stream_write s data)
             (\<lambda>s. enc_length_loop s (length_bytes_required - 1) vlen)
      else Some (ERR_OK, s))"
  by pat_completeness auto
termination by (relation "measure (\<lambda>(_, n, _). unat n)") (auto intro: unat_pred_less)

declare enc_length_loop.simps [simp del]

text \<open>The length octets, once their number is known.\<close>

definition enc_length ::
  "snmp_pbuf_stream \<Rightarrow> u8 \<Rightarrow> u16 \<Rightarrow> (err_t \<times> snmp_pbuf_stream) option" where
  "enc_length s length_bytes_required vlen =
     (if length_bytes_required > 1 then
        let length_bytes_required = length_bytes_required - 1;
            data = 0x80 OR length_bytes_required
        in PBUF_OP_EXEC (snmp_pbuf_stream_write s data) (\<lambda>s.
             PBUF_OP_EXEC (enc_length_loop s length_bytes_required vlen) (\<lambda>s.
               PBUF_OP_EXEC (snmp_pbuf_stream_write s (ucast (vlen AND 0xFF))) (\<lambda>s. Some (ERR_OK, s))))
      else PBUF_OP_EXEC (snmp_pbuf_stream_write s (ucast (vlen AND 0xFF))) (\<lambda>s. Some (ERR_OK, s)))"

text \<open>The TLV is updated with the lengths chosen, which the callers read afterwards.\<close>

definition snmp_ans1_enc_tlv ::
  "snmp_pbuf_stream \<Rightarrow> snmp_asn1_tlv \<Rightarrow> (err_t \<times> snmp_asn1_tlv \<times> snmp_pbuf_stream) option" where
  "snmp_ans1_enc_tlv s tlv =
     (if tlv_type tlv AND SNMP_ASN1_DATATYPE_MASK = SNMP_ASN1_DATATYPE_EXTENDED then Some (ERR_ARG, tlv, s)
      else if type_len tlv \<noteq> 0 then Some (ERR_ARG, tlv, s)
      else case snmp_pbuf_stream_write s (tlv_type tlv) of
             None \<Rightarrow> None
           | Some (err, s) \<Rightarrow>
               if err \<noteq> ERR_OK then Some (ERR_BUF, tlv, s)
               else let tlv = tlv\<lparr>type_len := 1\<rparr>;
                        required = (if value_len tlv \<le> 127 then 1 else if value_len tlv \<le> 255 then 2 else 3)
                 in if length_len tlv > 0 \<and> length_len tlv < required then Some (ERR_ARG, tlv, s)
                    else let (required, tlv) =
                               (if length_len tlv > 0 then (length_len tlv, tlv)
                                else (required, tlv\<lparr>length_len := required\<rparr>))
                      in map_option (\<lambda>(err, s). (err, tlv, s)) (enc_length s required (value_len tlv)))"

definition snmp_asn1_enc_length_cnt :: "u16 \<Rightarrow> u8" where
  "snmp_asn1_enc_length_cnt len = (if len < 0x80 then 1 else if len < 0x100 then 2 else 3)"

function dec_length_loop :: "snmp_pbuf_stream \<Rightarrow> u8 \<Rightarrow> u16 \<Rightarrow> (err_t + u16) \<times> snmp_pbuf_stream" where
  "dec_length_loop s length_bytes vlen =
     (if length_bytes = 0 then (Inr vlen, s)
      else if vlen > 0xFF then (Inl ERR_VAL, s)
      else PBUF_OP_READ (snmp_pbuf_stream_read s) (\<lambda>data s.
             let vlen = push_bit 8 vlen OR ucast data
             in if vlen = 0xFFFF then (Inl ERR_VAL, s) else dec_length_loop s (length_bytes - 1) vlen))"
  by pat_completeness auto
termination by (relation "measure (\<lambda>(_, n, _). unat n)") (auto intro: unat_pred_less)

declare dec_length_loop.simps [simp del]

definition snmp_asn1_dec_tlv :: "snmp_pbuf_stream \<Rightarrow> (err_t + snmp_asn1_tlv) \<times> snmp_pbuf_stream" where
  "snmp_asn1_dec_tlv s =
     PBUF_OP_READ (snmp_pbuf_stream_read s) (\<lambda>ty s.
       if ty AND SNMP_ASN1_DATATYPE_MASK = SNMP_ASN1_DATATYPE_EXTENDED then (Inl ERR_VAL, s)
       else PBUF_OP_READ (snmp_pbuf_stream_read s) (\<lambda>data s.
         if data < 0x80 then
           (Inr \<lparr>tlv_type = ty, type_len = 1, length_len = 1, value_len = ucast data\<rparr>, s)
         else if data > 0x80 then
           let length_bytes = data - 0x80
           in (case dec_length_loop s length_bytes 0 of
                 (Inl err, s) \<Rightarrow> (Inl err, s)
               | (Inr vlen, s) \<Rightarrow>
                   (Inr \<lparr>tlv_type = ty, type_len = 1, length_len = length_bytes + 1, value_len = vlen\<rparr>, s))
         else (Inl ERR_VAL, s)))"

subsection \<open>Raw octets\<close>

definition snmp_asn1_enc_raw ::
  "snmp_pbuf_stream \<Rightarrow> bytes \<Rightarrow> u16 \<Rightarrow> (err_t \<times> snmp_pbuf_stream) option" where
  "snmp_asn1_enc_raw s raw raw_len =
     PBUF_OP_EXEC (snmp_pbuf_stream_writebuf s raw raw_len) (\<lambda>s. Some (ERR_OK, s))"

function dec_raw_loop :: "snmp_pbuf_stream \<Rightarrow> u16 \<Rightarrow> bytes \<Rightarrow> (err_t + bytes) \<times> snmp_pbuf_stream" where
  "dec_raw_loop s len buf =
     (if len > 0 then
        PBUF_OP_READ (snmp_pbuf_stream_read s) (\<lambda>data s. dec_raw_loop s (len - 1) (buf @ [data]))
      else (Inr buf, s))"
  by pat_completeness auto
termination by (relation "measure (\<lambda>(_, n, _). unat n)") (auto intro: unat_pred_less)

declare dec_raw_loop.simps [simp del]

definition snmp_asn1_dec_raw ::
  "snmp_pbuf_stream \<Rightarrow> u16 \<Rightarrow> u16 \<Rightarrow> (err_t + bytes) \<times> snmp_pbuf_stream" where
  "snmp_asn1_dec_raw s len buf_max_len =
     (if len > buf_max_len then (Inl ERR_MEM, s) else dec_raw_loop s len [])"

subsection \<open>Unsigned integers of 32 bits\<close>

function enc_u32_loop ::
  "snmp_pbuf_stream \<Rightarrow> u16 \<Rightarrow> u32 \<Rightarrow> (err_t \<times> snmp_pbuf_stream) option" where
  "enc_u32_loop s octets_needed val =
     (if octets_needed > 1 then
        let octets_needed = octets_needed - 1
        in PBUF_OP_EXEC (snmp_pbuf_stream_write s (ucast (drop_bit (unat octets_needed * 8) val)))
             (\<lambda>s. enc_u32_loop s octets_needed val)
      else PBUF_OP_EXEC (snmp_pbuf_stream_write s (ucast val)) (\<lambda>s. Some (ERR_OK, s)))"
  by pat_completeness auto
termination by (relation "measure (\<lambda>(_, n, _). unat n)") (auto intro: unat_pred_less)

declare enc_u32_loop.simps [simp del]

definition snmp_asn1_enc_u32t ::
  "snmp_pbuf_stream \<Rightarrow> u16 \<Rightarrow> u32 \<Rightarrow> (err_t \<times> snmp_pbuf_stream) option" where
  "snmp_asn1_enc_u32t s octets_needed val =
     (if octets_needed > 5 then Some (ERR_ARG, s)
      else if octets_needed = 5
      then PBUF_OP_EXEC (snmp_pbuf_stream_write s 0x00) (\<lambda>s. enc_u32_loop s (octets_needed - 1) val)
      else enc_u32_loop s octets_needed val)"

definition snmp_asn1_enc_u32t_cnt :: "u32 \<Rightarrow> u16" where
  "snmp_asn1_enc_u32t_cnt val =
     (if val < 0x80 then 1 else if val < 0x8000 then 2 else if val < 0x800000 then 3
      else if val < 0x80000000 then 4 else 5)"

function dec_u32_loop :: "snmp_pbuf_stream \<Rightarrow> u16 \<Rightarrow> u32 \<Rightarrow> (err_t + u32) \<times> snmp_pbuf_stream" where
  "dec_u32_loop s len val =
     (if len > 0 then
        PBUF_OP_READ (snmp_pbuf_stream_read s) (\<lambda>data s.
          dec_u32_loop s (len - 1) (push_bit 8 val OR ucast data))
      else (Inr val, s))"
  by pat_completeness auto
termination by (relation "measure (\<lambda>(_, n, _). unat n)") (auto intro: unat_pred_less)

declare dec_u32_loop.simps [simp del]

definition snmp_asn1_dec_u32t :: "snmp_pbuf_stream \<Rightarrow> u16 \<Rightarrow> (err_t + u32) \<times> snmp_pbuf_stream" where
  "snmp_asn1_dec_u32t s len =
     (if len > 0 \<and> len \<le> 5 then
        PBUF_OP_READ (snmp_pbuf_stream_read s) (\<lambda>data s.
          if len = 5 \<and> data = 0x00 \<or> len < 5 \<and> data AND 0x80 = 0
          then dec_u32_loop s (len - 1) (ucast data)
          else (Inl ERR_VAL, s))
      else (Inl ERR_VAL, s))"

subsection \<open>Unsigned integers of 64 bits\<close>

text \<open>A 64-bit value is the array of its high and its low word.\<close>

function enc_u64_high ::
  "snmp_pbuf_stream \<Rightarrow> u16 \<Rightarrow> u32 \<Rightarrow> (err_t \<times> snmp_pbuf_stream) option" where
  "enc_u64_high s octets_needed hi =
     (if octets_needed > 4 then
        let octets_needed = octets_needed - 1
        in PBUF_OP_EXEC (snmp_pbuf_stream_write s (ucast (drop_bit (unat (octets_needed - 4) * 8) hi)))
             (\<lambda>s. enc_u64_high s octets_needed hi)
      else Some (ERR_OK, s))"
  by pat_completeness auto
termination by (relation "measure (\<lambda>(_, n, _). unat n)") (auto intro: unat_pred_less)

declare enc_u64_high.simps [simp del]

definition snmp_asn1_enc_u64t ::
  "snmp_pbuf_stream \<Rightarrow> u16 \<Rightarrow> u32 \<times> u32 \<Rightarrow> (err_t \<times> snmp_pbuf_stream) option" where
  "snmp_asn1_enc_u64t s octets_needed val =
     (let rest = (\<lambda>s octets_needed.
            PBUF_OP_EXEC (enc_u64_high s octets_needed (fst val))
              (\<lambda>s. enc_u32_loop s (min octets_needed 4) (snd val)))
      in if octets_needed > 9 then Some (ERR_ARG, s)
         else if octets_needed = 9
         then PBUF_OP_EXEC (snmp_pbuf_stream_write s 0x00) (\<lambda>s. rest s (octets_needed - 1))
         else rest s octets_needed)"

definition snmp_asn1_enc_u64t_cnt :: "u32 \<times> u32 \<Rightarrow> u16" where
  "snmp_asn1_enc_u64t_cnt val =
     (if fst val = 0 then snmp_asn1_enc_u32t_cnt (snd val) else snmp_asn1_enc_u32t_cnt (fst val) + 4)"

text \<open>\<open>low\<close>: the pointer \<open>value\<close> has moved on to the low word.\<close>

function dec_u64_loop ::
  "snmp_pbuf_stream \<Rightarrow> u16 \<Rightarrow> bool \<Rightarrow> u32 \<Rightarrow> u32 \<Rightarrow> (err_t + u32 \<times> u32) \<times> snmp_pbuf_stream" where
  "dec_u64_loop s len low hi lo =
     (if len > 0 then
        PBUF_OP_READ (snmp_pbuf_stream_read s) (\<lambda>data s.
          if len = 4 then dec_u64_loop s (len - 1) True hi (0 OR ucast data)
          else if low then dec_u64_loop s (len - 1) low hi (push_bit 8 lo OR ucast data)
          else dec_u64_loop s (len - 1) low (push_bit 8 hi OR ucast data) lo)
      else (Inr (hi, lo), s))"
  by pat_completeness auto
termination by (relation "measure (\<lambda>(_, n, _). unat n)") (auto intro: unat_pred_less)

declare dec_u64_loop.simps [simp del]

definition snmp_asn1_dec_u64t :: "snmp_pbuf_stream \<Rightarrow> u16 \<Rightarrow> (err_t + u32 \<times> u32) \<times> snmp_pbuf_stream" where
  "snmp_asn1_dec_u64t s len =
     (let low = (len \<le> 4)
      in if len > 0 \<and> len \<le> 9 then
           PBUF_OP_READ (snmp_pbuf_stream_read s) (\<lambda>data s.
             if len = 9 \<and> data = 0x00 \<or> len < 9 \<and> data AND 0x80 = 0
             then (if low then dec_u64_loop s (len - 1) low 0 (ucast data)
                   else dec_u64_loop s (len - 1) low (ucast data) 0)
             else (Inl ERR_VAL, s))
         else (Inl ERR_VAL, s))"

subsection \<open>Signed integers\<close>

text \<open>A shift by 32 bits or more, which C leaves undefined, is \<open>None\<close>.\<close>

function snmp_asn1_enc_s32t ::
  "snmp_pbuf_stream \<Rightarrow> u16 \<Rightarrow> s32 \<Rightarrow> (err_t \<times> snmp_pbuf_stream) option" where
  "snmp_asn1_enc_s32t s octets_needed val =
     (if octets_needed > 1 then
        let octets_needed = octets_needed - 1
        in if octets_needed \<ge> 4 then None
           else PBUF_OP_EXEC
                  (snmp_pbuf_stream_write s (ucast (signed_drop_bit (unat octets_needed * 8) val)))
                  (\<lambda>s. snmp_asn1_enc_s32t s octets_needed val)
      else PBUF_OP_EXEC (snmp_pbuf_stream_write s (ucast val)) (\<lambda>s. Some (ERR_OK, s)))"
  by pat_completeness auto
termination by (relation "measure (\<lambda>(_, n, _). unat n)") (auto intro: unat_pred_less)

declare snmp_asn1_enc_s32t.simps [simp del]

definition snmp_asn1_enc_s32t_cnt :: "s32 \<Rightarrow> u16" where
  "snmp_asn1_enc_s32t_cnt val =
     (let val = (if sint val < 0 then NOT val else val)
      in if sint val < 0x80 then 1 else if sint val < 0x8000 then 2
         else if sint val < 0x800000 then 3 else 4)"

text \<open>\<open>*lsb_ptr\<close> is the low byte of the value on a little-endian target.\<close>

definition get_lsb :: "u32 \<Rightarrow> u8" where
  "get_lsb val = ucast val"

definition set_lsb :: "u32 \<Rightarrow> u8 \<Rightarrow> u32" where
  "set_lsb val b = (val AND 0xffffff00) OR ucast b"

function dec_s32_loop ::
  "snmp_pbuf_stream \<Rightarrow> u16 \<Rightarrow> bool \<Rightarrow> s32 \<Rightarrow> (err_t + s32) \<times> snmp_pbuf_stream" where
  "dec_s32_loop s len sign val =
     (if len > 0 then
        PBUF_OP_READ (snmp_pbuf_stream_read s) (\<lambda>data s.
          let val = push_bit 8 val
          in if sign
             then let val = set_lsb val (get_lsb val OR 255)
               in dec_s32_loop s (len - 1) sign (set_lsb val (get_lsb val AND data))
             else dec_s32_loop s (len - 1) sign (set_lsb val (get_lsb val OR data)))
      else (Inr val, s))"
  by pat_completeness auto
termination by (relation "measure (\<lambda>(_, n, _). unat n)") (auto intro: unat_pred_less)

declare dec_s32_loop.simps [simp del]

definition snmp_asn1_dec_s32t :: "snmp_pbuf_stream \<Rightarrow> u16 \<Rightarrow> (err_t + s32) \<times> snmp_pbuf_stream" where
  "snmp_asn1_dec_s32t s len =
     (if len > 0 \<and> len < 5 then
        PBUF_OP_READ (snmp_pbuf_stream_read s) (\<lambda>data s.
          if data AND 0x80 \<noteq> 0
          then dec_s32_loop s (len - 1) True (set_lsb (- 1) (get_lsb (- 1) AND data))
          else dec_s32_loop s (len - 1) False (set_lsb 0 (get_lsb 0 OR data)))
      else (Inl ERR_VAL, s))"

subsection \<open>Object identifiers\<close>

function enc_sub_id ::
  "snmp_pbuf_stream \<Rightarrow> u32 \<Rightarrow> u8 \<Rightarrow> bool \<Rightarrow> (err_t \<times> snmp_pbuf_stream) option" where
  "enc_sub_id s sub_id shift tail =
     (if shift > 0 then
        let code = ucast (drop_bit (unat shift) sub_id) :: u8
        in if code \<noteq> 0 \<or> tail
           then PBUF_OP_EXEC (snmp_pbuf_stream_write s (code OR 0x80))
                  (\<lambda>s. if shift < 7 then None else enc_sub_id s sub_id (shift - 7) True)
           else if shift < 7 then None else enc_sub_id s sub_id (shift - 7) tail
      else PBUF_OP_EXEC (snmp_pbuf_stream_write s (ucast sub_id AND 0x7F)) (\<lambda>s. Some (ERR_OK, s)))"
  by pat_completeness auto
termination by (relation "measure (\<lambda>(_, _, n, _). unat n)") (auto intro: unat_minus_7_less)

declare enc_sub_id.simps [simp del]

fun enc_sub_ids :: "snmp_pbuf_stream \<Rightarrow> u32 list \<Rightarrow> (err_t \<times> snmp_pbuf_stream) option" where
  "enc_sub_ids s [] = Some (ERR_OK, s)"
| "enc_sub_ids s (sub_id # oid) =
     PBUF_OP_EXEC (enc_sub_id s sub_id 28 False) (\<lambda>s. enc_sub_ids s oid)"

definition snmp_asn1_enc_oid ::
  "snmp_pbuf_stream \<Rightarrow> u32 list \<Rightarrow> (err_t \<times> snmp_pbuf_stream) option" where
  "snmp_asn1_enc_oid s oid =
     (case oid of
        a # b # rest \<Rightarrow>
          (let compressed_byte = a * 40 + b
           in PBUF_OP_EXEC (snmp_pbuf_stream_write s (ucast compressed_byte)) (\<lambda>s. enc_sub_ids s rest))
      | _ \<Rightarrow> Some (ERR_ARG, s))"

function sub_id_cnt :: "u32 \<Rightarrow> u16 \<Rightarrow> u16" where
  "sub_id_cnt sub_id octets_needed =
     (if sub_id > 0 then sub_id_cnt (drop_bit 7 sub_id) (octets_needed + 1) else octets_needed)"
  by pat_completeness auto
termination
  by (relation "measure (\<lambda>(n, _). unat n)") (auto simp: unat_drop_bit_div unat_gt_0)

declare sub_id_cnt.simps [simp del]

fun oid_cnt_loop :: "u32 list \<Rightarrow> u16 \<Rightarrow> u16" where
  "oid_cnt_loop [] octets_needed = octets_needed"
| "oid_cnt_loop (sub_id # oid) octets_needed =
     oid_cnt_loop oid (sub_id_cnt (drop_bit 7 sub_id) (octets_needed + 1))"

definition snmp_asn1_enc_oid_cnt :: "u32 list \<Rightarrow> u16" where
  "snmp_asn1_enc_oid_cnt oid =
     (case oid of
        a # b # rest \<Rightarrow> oid_cnt_loop rest 1
      | _ \<Rightarrow> oid_cnt_loop oid 0)"

text \<open>The octets of one sub-identifier after its first; the last octet read is kept.\<close>

function dec_sub_id ::
  "snmp_pbuf_stream \<Rightarrow> u16 \<Rightarrow> u8 \<Rightarrow> u32 \<Rightarrow> (err_t + u16 \<times> u8 \<times> u32) \<times> snmp_pbuf_stream" where
  "dec_sub_id s len data sub_id =
     (if len > 0 \<and> data AND 0x80 \<noteq> 0 then
        PBUF_OP_READ (snmp_pbuf_stream_read s) (\<lambda>data s.
          dec_sub_id s (len - 1) data (push_bit 7 sub_id + (ucast data AND 0x7F)))
      else (Inr (len, data, sub_id), s))"
  by pat_completeness auto
termination by (relation "measure (\<lambda>(_, n, _). unat n)") (auto intro: unat_pred_less)

declare dec_sub_id.simps [simp del]

lemma dec_sub_id_len:
  "dec_sub_id s len data sub_id = (Inr (len', data', sub_id'), s') \<Longrightarrow> unat len' \<le> unat len"
proof (induction s len data sub_id rule: dec_sub_id.induct)
  case (1 s len data sub_id)
  show ?case
  proof (cases "len > 0 \<and> data AND 0x80 \<noteq> 0")
    case True
    then obtain d s1 where rd: "snmp_pbuf_stream_read s = (Inr d, s1)"
      using "1.prems" by (subst (asm) dec_sub_id.simps)
        (auto simp: PBUF_OP_READ_def split: prod.splits sum.splits)
    then have "dec_sub_id s1 (len - 1) d (push_bit 7 sub_id + (ucast d AND 0x7F)) = (Inr (len', data', sub_id'), s')"
      using "1.prems" True by (subst (asm) dec_sub_id.simps) (simp add: PBUF_OP_READ_def)
    then have "unat len' \<le> unat (len - 1)" using "1.IH" [OF True] by blast
    with True show ?thesis using unat_pred_less_pos [of len] by linarith
  next
    case False
    then show ?thesis using "1.prems" by (subst (asm) dec_sub_id.simps) auto
  qed
qed

function dec_oid_loop ::
  "snmp_pbuf_stream \<Rightarrow> u16 \<Rightarrow> u32 list \<Rightarrow> u8 \<Rightarrow> (err_t + u32 list) \<times> snmp_pbuf_stream" where
  "dec_oid_loop s len oid oid_max_len =
     (if len > 0 \<and> length oid < unat oid_max_len then
        (case snmp_pbuf_stream_read s of
           (Inl err, s) \<Rightarrow> (Inl ERR_BUF, s)
         | (Inr data, s) \<Rightarrow>
             if data AND 0x80 = 0x00 then dec_oid_loop s (len - 1) (oid @ [ucast data]) oid_max_len
             else (case dec_sub_id s (len - 1) data (ucast data AND 0x7F) of
                     (Inl err, s) \<Rightarrow> (Inl err, s)
                   | (Inr (len, data, sub_id), s) \<Rightarrow>
                       if data AND 0x80 \<noteq> 0 then (Inl ERR_VAL, s)
                       else dec_oid_loop s len (oid @ [sub_id]) oid_max_len))
      else if len > 0 then (Inl ERR_MEM, s)
      else (Inr oid, s))"
  by pat_completeness auto
termination
proof (relation "measure (\<lambda>(_, n, _). unat n)", goal_cases)
  case (2 s len oid oid_max_len)
  then show ?case by (auto intro: unat_pred_less)
next
  case (3 s len oid oid_max_len x s1 data y s2 z len' w data' sub_id)
  then have "unat len' \<le> unat (len - 1)"
    using dec_sub_id_len [of s1 "len - 1" data "ucast data AND 0x7F" len' data' sub_id s2] by auto
  moreover have "0 < len" using 3(1) by simp
  ultimately show ?case using unat_pred_less_pos [of len] by simp
qed simp

declare dec_oid_loop.simps [simp del]

definition snmp_asn1_dec_oid ::
  "snmp_pbuf_stream \<Rightarrow> u16 \<Rightarrow> u8 \<Rightarrow> (err_t + u32 list) \<times> snmp_pbuf_stream" where
  "snmp_asn1_dec_oid s len oid_max_len =
     (if len > 0 then
        if oid_max_len < 2 then (Inl ERR_MEM, s)
        else PBUF_OP_READ (snmp_pbuf_stream_read s) (\<lambda>data s.
          let oid = (if data = 0x2B then [1, 3]
                     else if data < 40 then [0, ucast data]
                     else if data < 80 then [1, ucast data - 40]
                     else [2, ucast data - 80])
          in dec_oid_loop s (len - 1) oid oid_max_len)
      else (Inr [], s))"

subsection \<open>Writing a byte list\<close>

text \<open>What every encoder amounts to: the octets of the encoding written one by one.\<close>

fun write_bytes :: "bytes \<Rightarrow> snmp_pbuf_stream \<Rightarrow> (err_t \<times> snmp_pbuf_stream) option" where
  "write_bytes [] s = Some (ERR_OK, s)"
| "write_bytes (b # bs) s = PBUF_OP_EXEC (snmp_pbuf_stream_write s b) (write_bytes bs)"

lemma exec_OK [simp]: "PBUF_OP_EXEC (Some (ERR_OK, s)) rest = rest s"
  by (simp add: PBUF_OP_EXEC_def)

lemma exec_assoc:
  "PBUF_OP_EXEC (PBUF_OP_EXEC r f) g = PBUF_OP_EXEC r (\<lambda>s. PBUF_OP_EXEC (f s) g)"
  by (auto simp: PBUF_OP_EXEC_def split: option.splits)

lemma write_bytes_Nil [simp]: "write_bytes [] = (\<lambda>s. Some (ERR_OK, s))"
  by (rule ext) simp

lemma write_bytes_append:
  "write_bytes (xs @ ys) = (\<lambda>s. PBUF_OP_EXEC (write_bytes xs s) (write_bytes ys))"
proof (induction xs)
  case (Cons x xs)
  show ?case by (rule ext) (simp add: Cons exec_assoc)
qed simp

lemma write_bytes_Cons: "write_bytes (b # bs) = (\<lambda>s. PBUF_OP_EXEC (snmp_pbuf_stream_write s b) (write_bytes bs))"
  by (rule ext) simp

text \<open>With room for all the bytes they are written, otherwise as many as fit and \<open>ERR_BUF\<close>.\<close>

lemma write_bytes_result:
  "stream_ok s \<Longrightarrow>
   \<exists>s'. write_bytes bs s = Some (if length bs \<le> unat (s_length s) then ERR_OK else ERR_BUF, s')
     \<and> wrote s (take (unat (s_length s)) bs) s'"
proof (induction bs arbitrary: s)
  case Nil
  then show ?case by simp
next
  case (Cons b bs)
  show ?case
  proof (cases "s_length s = 0")
    case True
    with Cons.prems show ?thesis by (simp add: write_full PBUF_OP_EXEC_def)
  next
    case False
    then obtain s1 where w: "snmp_pbuf_stream_write s b = Some (ERR_OK, s1)" "wrote s [b] s1"
      using write_room Cons.prems by blast
    have pos: "0 < unat (s_length s)" using False by (simp add: unat_gt_0)
    have len: "unat (s_length s1) = unat (s_length s) - 1"
      using wrote_length [OF Cons.prems w(2)] by simp
    obtain s' where s': "write_bytes bs s1 = Some (if length bs \<le> unat (s_length s1) then ERR_OK else ERR_BUF, s')"
      "wrote s1 (take (unat (s_length s1)) bs) s'"
      using Cons.IH [OF wrote_ok [OF Cons.prems w(2)]] by blast
    have "wrote s (take (unat (s_length s)) (b # bs)) s'"
      using wrote_append [OF Cons.prems w(2) s'(2)] pos len by (cases "unat (s_length s)") simp_all
    moreover have "length (b # bs) \<le> unat (s_length s) \<longleftrightarrow> length bs \<le> unat (s_length s1)"
      using pos len by auto
    ultimately show ?thesis using w(1) s'(1) by simp
  qed
qed

lemma write_bytes_ok:
  "stream_ok s \<Longrightarrow> length bs \<le> unat (s_length s) \<Longrightarrow>
   \<exists>s'. write_bytes bs s = Some (ERR_OK, s') \<and> wrote s bs s'"
  using write_bytes_result [of s bs] by simp

subsection \<open>Reading a byte list\<close>

text \<open>\<open>reads s bs\<close>: the next bytes of the stream are \<open>bs\<close>.\<close>

definition reads :: "snmp_pbuf_stream \<Rightarrow> bytes \<Rightarrow> bool" where
  "reads s bs \<longleftrightarrow> stream_ok s \<and> length bs \<le> unat (s_length s) \<and> take (length bs) (stream_bytes s) = bs"

lemma reads_Cons:
  assumes "reads s (b # bs)"
  shows "snmp_pbuf_stream_read s = (Inr b, stream_advance 1 s)" "reads (stream_advance 1 s) bs"
proof -
  have ok: "stream_ok s" and len: "Suc (length bs) \<le> unat (s_length s)"
    using assms by (simp_all add: reads_def)
  obtain rest where rest: "stream_bytes s = b # rest" "take (length bs) rest = bs"
    using assms by (cases "stream_bytes s") (auto simp: reads_def)
  show "snmp_pbuf_stream_read s = (Inr b, stream_advance 1 s)"
    using read_eq [OF ok] rest by simp
  have "1 \<le> unat (s_length s)" using len by simp
  from stream_advance_ok [OF ok this] stream_advance_fields(2) [OF ok this] rest len
  show "reads (stream_advance 1 s) bs" by (simp add: reads_def)
qed

lemma read_reads [simp]:
  "reads s (b # bs) \<Longrightarrow> PBUF_OP_READ (snmp_pbuf_stream_read s) rest = rest b (stream_advance 1 s)"
  by (simp add: reads_Cons PBUF_OP_READ_def)

lemma reads_after_write:
  "stream_ok s \<Longrightarrow> wrote s bs s' \<Longrightarrow> reads (s\<lparr>s_pbuf := s_pbuf s'\<rparr>) bs"
  using wrote_stream_bytes [of s bs s'] by (auto simp: reads_def wrote_def)

lemma unat_Suc_length:
  "unat (n :: 'a::len word) = length (b # bs) \<Longrightarrow> 0 < n \<and> unat (n - 1) = length bs"
  by (metis One_nat_def diff_Suc_1 length_Cons nat.simps(3) unat_0 unat_pred word_neq_0_conv)

subsection \<open>Octets of a word\<close>

text \<open>The \<open>n\<close> low octets of a word, the most significant one first.\<close>

fun octets_be :: "nat \<Rightarrow> 'a::len word \<Rightarrow> bytes" where
  "octets_be 0 w = []"
| "octets_be (Suc n) w = ucast (drop_bit (8 * n) w) # octets_be n w"

lemma length_octets_be [simp]: "length (octets_be n w) = n"
  by (induction n) simp_all

text \<open>The value collected from octets, as the decoders compute it.\<close>

definition be_fold :: "'a::len word \<Rightarrow> bytes \<Rightarrow> 'a word" where
  "be_fold = foldl (\<lambda>val data. push_bit 8 val OR ucast data)"

lemma be_fold_simps [simp]:
  "be_fold val [] = val"
  "be_fold val (b # bs) = be_fold (push_bit 8 val OR ucast b) bs"
  by (simp_all add: be_fold_def)

lemma be_fold_octets:
  "be_fold val (octets_be n w) = push_bit (8 * n) val OR take_bit (8 * n) (w :: u32)"
proof (induction n arbitrary: val)
  case (Suc n)
  have "push_bit (8 * n) (push_bit 8 val OR ucast (ucast (drop_bit (8 * n) w) :: u8)) OR take_bit (8 * n) w =
      push_bit (8 * Suc n) val OR take_bit (8 * Suc n) w"
    by (rule bit_word_eqI) (auto simp: bit_simps ac_simps dest: bit_imp_le_length)
  with Suc show ?case by simp
qed simp

lemma enc_u32_loop_eq:
  "octets_needed \<noteq> 0 \<Longrightarrow> enc_u32_loop s octets_needed val = write_bytes (octets_be (unat octets_needed) val) s"
proof (induction s octets_needed val rule: enc_u32_loop.induct)
  case (1 s n val)
  show ?case
  proof (cases "n > 1")
    case True
    then have nz: "n \<noteq> 0" "n - 1 \<noteq> 0" by auto
    then have "unat n = Suc (unat (n - 1))" by (simp add: unat_pred unat_gt_0)
    then have "octets_be (unat n) val = ucast (drop_bit (unat (n - 1) * 8) val) # octets_be (unat (n - 1)) val"
      by (simp add: mult.commute)
    with 1 True nz show ?thesis by (subst enc_u32_loop.simps) (simp add: Let_def)
  next
    case False
    with 1 have "n = 1" by (simp add: not_1_less)
    then show ?thesis by (subst enc_u32_loop.simps) (simp add: Let_def)
  qed
qed

lemma less_take_bit: "unat (v :: 'a::len word) < 2 ^ k \<Longrightarrow> take_bit k v = v"
  by (simp only: word_unat_eq_iff unsigned_take_bit_eq take_bit_nat_eq_self)

lemma take_bit_not_bit: "take_bit k v = v \<Longrightarrow> k \<le> j \<Longrightarrow> \<not> bit (v :: 'a::len word) j"
  by (metis bit_take_bit_iff not_less)

lemma u8_and_0x80: "(d :: u8) AND 0x80 = 0 \<longleftrightarrow> \<not> bit d 7"
  using and_exp_eq_0_iff_not_bit [of d 7] by simp

text \<open>The first octet of a value whose top bit is clear is accepted as that of a positive number.\<close>

lemma octets_be_sign:
  "take_bit (8 * n + 7) v = (v :: u32) \<Longrightarrow> \<not> bit (ucast (drop_bit (8 * n) v) :: u8) 7"
  using take_bit_not_bit [of "8 * n + 7" v "8 * n + 7"] by (simp add: bit_simps)

lemma dec_u32_loop_reads:
  "reads s bs \<Longrightarrow> unat len = length bs \<Longrightarrow>
   dec_u32_loop s len val = (Inr (be_fold val bs), stream_advance (length bs) s)"
proof (induction bs arbitrary: s len val)
  case Nil
  then show ?case by (subst dec_u32_loop.simps) (simp add: unat_eq_zero)
next
  case (Cons b bs)
  then show ?case
    using unat_Suc_length [OF Cons.prems(2)] reads_Cons(2) [OF Cons.prems(1)]
    by (subst dec_u32_loop.simps) (simp add: stream_advance_add)
qed

subsection \<open>Encodings of unsigned integers\<close>

definition u32_octets :: "u32 \<Rightarrow> bytes" where
  "u32_octets v =
     (if v < 0x80000000 then octets_be (unat (snmp_asn1_enc_u32t_cnt v)) v else 0 # octets_be 4 v)"

lemma u32_cnt_cases:
  obtains (short) n where "snmp_asn1_enc_u32t_cnt v = of_nat (Suc n)" "n < 4" "v < 0x80000000"
      "take_bit (8 * n + 7) v = v"
  | (long) "snmp_asn1_enc_u32t_cnt v = 5" "\<not> v < 0x80000000"
proof -
  have bits: "take_bit k v = v" if "v < of_nat m" "m = 2 ^ k" "m < 4294967296" for k m
  proof -
    have "unat v < unat (of_nat m :: u32)" using that(1) by (simp add: word_less_nat_alt)
    also have "\<dots> = m" using that(3) by (simp add: unsigned_of_nat take_bit_nat_eq_self)
    also have "\<dots> = 2 ^ k" by (rule that(2))
    finally show ?thesis by (rule less_take_bit)
  qed
  consider "v < 0x80" | "\<not> v < 0x80" "v < 0x8000" | "\<not> v < 0x8000" "v < 0x800000"
    | "\<not> v < 0x800000" "v < 0x80000000" | "\<not> v < 0x80000000" by blast
  then show thesis
  proof cases
    case 1
    have "v < 0x80000000" using 1 by (rule order.strict_trans) simp
    moreover have "snmp_asn1_enc_u32t_cnt v = of_nat (Suc 0)" using 1 by (simp add: snmp_asn1_enc_u32t_cnt_def)
    moreover have "take_bit (8 * 0 + 7) v = v" by (rule bits [of 128]) (simp_all add: 1)
    moreover have "(0 :: nat) < 4" by simp
    ultimately show thesis using short [of 0] by blast
  next
    case 2
    have "v < 0x80000000" using 2(2) by (rule order.strict_trans) simp
    moreover have "snmp_asn1_enc_u32t_cnt v = of_nat (Suc 1)" using 2 by (simp add: snmp_asn1_enc_u32t_cnt_def)
    moreover have "take_bit (8 * 1 + 7) v = v" by (rule bits [of 32768]) (simp_all add: 2)
    ultimately show thesis using short [of 1] by simp
  next
    case 3
    have "v < 0x80000000" using 3(2) by (rule order.strict_trans) simp
    moreover have "\<not> v < 0x80" using 3(1) by (auto simp: word_less_nat_alt)
    then have "snmp_asn1_enc_u32t_cnt v = of_nat (Suc 2)" using 3 by (simp add: snmp_asn1_enc_u32t_cnt_def)
    moreover have "take_bit (8 * 2 + 7) v = v" by (rule bits [of 8388608]) (simp_all add: 3)
    ultimately show thesis using short [of 2] by simp
  next
    case 4
    have "\<not> v < 0x80" "\<not> v < 0x8000" using 4(1) by (auto simp: word_less_nat_alt)
    then have "snmp_asn1_enc_u32t_cnt v = of_nat (Suc 3)" using 4 by (simp add: snmp_asn1_enc_u32t_cnt_def)
    moreover have "take_bit (8 * 3 + 7) v = v" by (rule bits [of 2147483648]) (simp_all add: 4)
    ultimately show thesis using short [of 3] 4(2) by simp
  next
    case 5
    then have "\<not> v < 0x80" "\<not> v < 0x8000" "\<not> v < 0x800000" by (auto simp: word_less_nat_alt)
    with 5 have "snmp_asn1_enc_u32t_cnt v = 5" by (simp add: snmp_asn1_enc_u32t_cnt_def)
    with 5 show thesis by (intro long)
  qed
qed

lemma length_u32_octets: "length (u32_octets v) = unat (snmp_asn1_enc_u32t_cnt v)"
  by (rule u32_cnt_cases [of v]) (simp_all add: u32_octets_def)

lemma enc_u32_eq:
  "snmp_asn1_enc_u32t s (snmp_asn1_enc_u32t_cnt v) v = write_bytes (u32_octets v) s"
proof (rule u32_cnt_cases [of v])
  fix n assume n: "snmp_asn1_enc_u32t_cnt v = of_nat (Suc n)" "n < 4" "v < 0x80000000"
  have m: "unat (of_nat (Suc n) :: u16) = Suc n" using n(2) by (intro unat_of_nat_16) simp
  then have "\<not> (of_nat (Suc n) :: u16) > 5" "(of_nat (Suc n) :: u16) \<noteq> 5" "(of_nat (Suc n) :: u16) \<noteq> 0"
    using n(2) by (auto simp: word_less_nat_alt)
  with n m enc_u32_loop_eq [of "of_nat (Suc n)" s v] show ?thesis
    by (simp only: snmp_asn1_enc_u32t_def u32_octets_def if_True if_False simp_thms)
next
  assume "snmp_asn1_enc_u32t_cnt v = 5" "\<not> v < 0x80000000"
  then show ?thesis
    by (simp add: snmp_asn1_enc_u32t_def u32_octets_def enc_u32_loop_eq)
qed

lemma take_bit_more: "take_bit k v = v \<Longrightarrow> k \<le> j \<Longrightarrow> take_bit j v = (v :: 'a::len word)"
  by (metis min.absorb2 take_bit_take_bit)

lemma be_fold_octets_self:
  assumes "take_bit (8 * n + 7) v = (v :: u32)"
  shows "be_fold (ucast (ucast (drop_bit (8 * n) v) :: u8)) (octets_be n v) = v"
proof -
  have "be_fold (ucast (ucast (drop_bit (8 * n) v) :: u8)) (octets_be n v) = be_fold 0 (octets_be (Suc n) v)"
    by simp
  also have "\<dots> = take_bit (8 * Suc n) v" by (simp only: be_fold_octets) simp
  also have "\<dots> = v" using assms by (rule take_bit_more) simp
  finally show ?thesis .
qed

lemma be_fold_octets_4: "be_fold 0 (octets_be 4 v) = (v :: u32)"
  by (simp only: be_fold_octets) (simp add: take_bit_word_eq_self)

lemma unat_of_nat_Suc: "n < 255 \<Longrightarrow> unat (of_nat (Suc n) :: u16) = Suc n"
  by (rule unat_of_nat_16) simp

lemma of_nat_Suc_pred: "n < 255 \<Longrightarrow> unat ((of_nat (Suc n) :: u16) - 1) = n"
  by (simp add: unat_of_nat_16)

lemma dec_u32_eq:
  assumes "reads s (u32_octets v)"
  shows "snmp_asn1_dec_u32t s (snmp_asn1_enc_u32t_cnt v) =
    (Inr v, stream_advance (length (u32_octets v)) s)"
proof (rule u32_cnt_cases [of v])
  fix n assume n: "snmp_asn1_enc_u32t_cnt v = of_nat (Suc n)" "n < 4" "v < 0x80000000"
    "take_bit (8 * n + 7) v = v"
  let ?b = "ucast (drop_bit (8 * n) v) :: u8"
  have m: "unat (of_nat (Suc n) :: u16) = Suc n" using n(2) by (intro unat_of_nat_Suc) simp
  have oct: "u32_octets v = ?b # octets_be n v"
    using n m by (simp add: u32_octets_def del: of_nat_Suc)
  have rd: "reads s (?b # octets_be n v)" using assms oct by simp
  have len: "0 < (of_nat (Suc n) :: u16)" "(of_nat (Suc n) :: u16) \<le> 5" "(of_nat (Suc n) :: u16) < 5"
    "(of_nat (Suc n) :: u16) \<noteq> 5"
    using n(2) m by (auto simp: word_less_nat_alt word_le_nat_alt simp del: of_nat_Suc)
  have "snmp_asn1_dec_u32t s (snmp_asn1_enc_u32t_cnt v) =
      dec_u32_loop (stream_advance 1 s) (of_nat (Suc n) - 1) (ucast ?b)"
    using rd len octets_be_sign [OF n(4)]
    by (simp add: snmp_asn1_dec_u32t_def n(1) u8_and_0x80 del: of_nat_Suc)
  also have "\<dots> = (Inr (be_fold (ucast ?b) (octets_be n v)), stream_advance 1 (stream_advance n s))"
    using dec_u32_loop_reads [OF reads_Cons(2) [OF rd], of "of_nat (Suc n) - 1"] of_nat_Suc_pred [of n] n(2)
    by (simp add: stream_advance_add del: of_nat_Suc)
  also have "be_fold (ucast ?b) (octets_be n v) = v" using n(4) by (rule be_fold_octets_self)
  finally show ?thesis by (simp add: oct stream_advance_add add.commute)
next
  assume long: "snmp_asn1_enc_u32t_cnt v = 5" "\<not> v < 0x80000000"
  then have rd: "reads s (0 # octets_be 4 v)" using assms by (simp add: u32_octets_def)
  have "snmp_asn1_dec_u32t s 5 = dec_u32_loop (stream_advance 1 s) 4 0"
    using rd by (simp add: snmp_asn1_dec_u32t_def)
  also have "\<dots> = (Inr (be_fold 0 (octets_be 4 v)), stream_advance 4 (stream_advance 1 s))"
    using dec_u32_loop_reads [OF reads_Cons(2) [OF rd], of 4] by simp
  also have "be_fold 0 (octets_be 4 v) = v" by (rule be_fold_octets_4)
  finally show ?thesis using long by (simp add: u32_octets_def stream_advance_add)
qed

subsection \<open>Encodings of 64-bit integers\<close>

lemma enc_u64_high_eq:
  "unat octets_needed = n + 4 \<Longrightarrow> enc_u64_high s octets_needed hi = write_bytes (octets_be n hi) s"
proof (induction n arbitrary: s octets_needed)
  case 0
  then have "\<not> octets_needed > 4" by (simp add: word_less_nat_alt)
  then show ?case by (subst enc_u64_high.simps) simp
next
  case (Suc n)
  then have "4 < octets_needed" "octets_needed \<noteq> 0" by (auto simp: word_less_nat_alt)
  moreover from this have p: "unat (octets_needed - 1) = n + 4" using Suc.prems by (simp add: unat_pred)
  moreover from this have "unat (octets_needed - 1 - 4) = n" by (subst unat_sub_nowrap) simp_all
  ultimately show ?case
    using Suc.IH [OF p] by (subst enc_u64_high.simps) (simp add: Let_def mult.commute)
qed

lemma enc_u64_high_none: "\<not> octets_needed > 4 \<Longrightarrow> enc_u64_high s octets_needed hi = Some (ERR_OK, s)"
  by (subst enc_u64_high.simps) simp

definition u64_octets :: "u32 \<times> u32 \<Rightarrow> bytes" where
  "u64_octets v = (if fst v = 0 then u32_octets (snd v) else u32_octets (fst v) @ octets_be 4 (snd v))"

lemma u64_cnt_ranges:
  "unat (snmp_asn1_enc_u32t_cnt v) \<le> 5" "0 < unat (snmp_asn1_enc_u32t_cnt v)"
  by (simp_all add: snmp_asn1_enc_u32t_cnt_def)

lemma length_u64_octets: "length (u64_octets v) = unat (snmp_asn1_enc_u64t_cnt v)"
  using u64_cnt_ranges [of "fst v"]
  by (simp add: u64_octets_def snmp_asn1_enc_u64t_cnt_def length_u32_octets unat_add_nowrap)

lemma enc_u64_eq:
  "snmp_asn1_enc_u64t s (snmp_asn1_enc_u64t_cnt v) v = write_bytes (u64_octets v) s"
proof (cases "fst v = 0")
  case hi0: True
  show ?thesis
  proof (rule u32_cnt_cases [of "snd v"])
    fix n assume n: "snmp_asn1_enc_u32t_cnt (snd v) = of_nat (Suc n)" "n < 4" "snd v < 0x80000000"
    have m: "unat (of_nat (Suc n) :: u16) = Suc n" using n(2) by (intro unat_of_nat_Suc) simp
    then have "\<not> (of_nat (Suc n) :: u16) > 9" "(of_nat (Suc n) :: u16) \<noteq> 9" "\<not> (of_nat (Suc n) :: u16) > 4"
      "(of_nat (Suc n) :: u16) \<noteq> 0"
      using n(2) by (auto simp: word_less_nat_alt simp del: of_nat_Suc)
    moreover from this have "min (of_nat (Suc n) :: u16) 4 = of_nat (Suc n)" by (auto simp: min_def)
    ultimately show ?thesis
      using n m hi0 enc_u64_high_none enc_u32_loop_eq [of "of_nat (Suc n)" _ "snd v"]
      by (simp add: snmp_asn1_enc_u64t_def snmp_asn1_enc_u64t_cnt_def u64_octets_def u32_octets_def del: of_nat_Suc)
  next
    assume long: "snmp_asn1_enc_u32t_cnt (snd v) = 5" "\<not> snd v < 0x80000000"
    have "enc_u64_high s 5 0 = write_bytes (octets_be 1 (0 :: u32)) s" for s by (rule enc_u64_high_eq) simp
    with long hi0 show ?thesis
      using enc_u32_loop_eq [of 4 _ "snd v"]
      by (simp add: snmp_asn1_enc_u64t_def snmp_asn1_enc_u64t_cnt_def u64_octets_def u32_octets_def exec_assoc min_def)
  qed
next
  case False
  show ?thesis
  proof (rule u32_cnt_cases [of "fst v"])
    fix n assume n: "snmp_asn1_enc_u32t_cnt (fst v) = of_nat (Suc n)" "n < 4" "fst v < 0x80000000"
    define k where "k = (of_nat (Suc n) :: u16) + 4"
    have m: "unat (of_nat (Suc n) :: u16) = Suc n" using n(2) by (intro unat_of_nat_Suc) simp
    then have k: "unat k = Suc n + 4" using n(2) by (simp add: k_def unat_add_nowrap del: of_nat_Suc)
    then have "\<not> k > 9" "k \<noteq> 9" "k > 4" using n(2) by (auto simp: word_less_nat_alt)
    moreover from this have "min k 4 = 4" by (auto simp: min_def)
    ultimately show ?thesis
      using n m False enc_u64_high_eq [OF k] enc_u32_loop_eq [of 4 _ "snd v"]
      by (simp add: snmp_asn1_enc_u64t_def snmp_asn1_enc_u64t_cnt_def u64_octets_def u32_octets_def
          k_def [symmetric] write_bytes_append del: of_nat_Suc octets_be.simps)
  next
    assume long: "snmp_asn1_enc_u32t_cnt (fst v) = 5" "\<not> fst v < 0x80000000"
    have "enc_u64_high s 8 (fst v) = write_bytes (octets_be 4 (fst v)) s" for s by (rule enc_u64_high_eq) simp
    with long False show ?thesis
      using enc_u32_loop_eq [of 4 _ "snd v"]
      by (simp add: snmp_asn1_enc_u64t_def snmp_asn1_enc_u64t_cnt_def u64_octets_def u32_octets_def
          exec_assoc min_def write_bytes_append del: octets_be.simps)
  qed
qed

lemma dec_u64_low:
  "reads s bs \<Longrightarrow> unat len = length bs \<Longrightarrow> length bs < 4 \<Longrightarrow>
   dec_u64_loop s len True hi lo = (Inr (hi, be_fold lo bs), stream_advance (length bs) s)"
proof (induction bs arbitrary: s len lo)
  case Nil
  then show ?case by (subst dec_u64_loop.simps) (simp add: unat_eq_zero)
next
  case (Cons b bs)
  have "len \<noteq> 4" using Cons.prems(2,3) by auto
  then show ?case
    using Cons unat_Suc_length [OF Cons.prems(2)] reads_Cons(2) [OF Cons.prems(1)]
    by (subst dec_u64_loop.simps) (simp add: stream_advance_add)
qed

lemma dec_u64_high:
  "reads s (xs @ ys) \<Longrightarrow> length ys = 4 \<Longrightarrow> unat len = length xs + 4 \<Longrightarrow>
   dec_u64_loop s len False hi lo = (Inr (be_fold hi xs, be_fold 0 ys), stream_advance (length xs + 4) s)"
proof (induction xs arbitrary: s len hi)
  case Nil
  then obtain y ys' where ys: "ys = y # ys'" "length ys' = 3" by (cases ys) auto
  have "unat len = unat (4 :: u16)" using Nil.prems(3) by simp
  then have "len = 4" by (rule unsigned_word_eqI)
  then show ?case
    using Nil.prems(1) ys dec_u64_low [OF reads_Cons(2), of s y ys' 3]
    by (subst dec_u64_loop.simps) (simp add: stream_advance_add)
next
  case (Cons x xs)
  have rd: "reads s (x # (xs @ ys))" using Cons.prems(1) by simp
  have len: "len \<noteq> 4" "0 < len" "unat (len - 1) = length xs + 4"
    using Cons.prems(3) unat_Suc_length [of len x "xs @ ys"] Cons.prems(2) by auto
  from Cons.IH [OF reads_Cons(2) [OF rd] Cons.prems(2) len(3)] len(1,2) rd show ?case
    by (subst dec_u64_loop.simps) (simp add: stream_advance_add)
qed

lemma dec_u64_eq:
  assumes "reads s (u64_octets v)"
  shows "snmp_asn1_dec_u64t s (snmp_asn1_enc_u64t_cnt v) = (Inr v, stream_advance (length (u64_octets v)) s)"
proof (cases "fst v = 0")
  case hi0: True
  then have rd: "reads s (u32_octets (snd v))" and oct: "u64_octets v = u32_octets (snd v)"
    and cnt: "snmp_asn1_enc_u64t_cnt v = snmp_asn1_enc_u32t_cnt (snd v)"
    using assms by (simp_all add: u64_octets_def snmp_asn1_enc_u64t_cnt_def)
  show ?thesis
  proof (rule u32_cnt_cases [of "snd v"])
    fix n assume n: "snmp_asn1_enc_u32t_cnt (snd v) = of_nat (Suc n)" "n < 4" "snd v < 0x80000000"
      "take_bit (8 * n + 7) (snd v) = snd v"
    let ?b = "ucast (drop_bit (8 * n) (snd v)) :: u8"
    have m: "unat (of_nat (Suc n) :: u16) = Suc n" using n(2) by (intro unat_of_nat_Suc) simp
    have oct': "u32_octets (snd v) = ?b # octets_be n (snd v)"
      using n m by (simp add: u32_octets_def del: of_nat_Suc)
    have rd': "reads s (?b # octets_be n (snd v))" using rd oct' by simp
    have len: "0 < (of_nat (Suc n) :: u16)" "(of_nat (Suc n) :: u16) \<le> 9" "(of_nat (Suc n) :: u16) < 9"
      "(of_nat (Suc n) :: u16) \<le> 4" "(of_nat (Suc n) :: u16) \<noteq> 9"
      using n(2) m by (auto simp: word_less_nat_alt word_le_nat_alt simp del: of_nat_Suc)
    have val: "be_fold (ucast ?b) (octets_be n (snd v)) = snd v" using n(4) by (rule be_fold_octets_self)
    have "snmp_asn1_dec_u64t s (of_nat (Suc n)) =
        dec_u64_loop (stream_advance 1 s) (of_nat (Suc n) - 1) True 0 (ucast ?b)"
      using rd' len octets_be_sign [OF n(4)]
      by (simp add: snmp_asn1_dec_u64t_def u8_and_0x80 Let_def del: of_nat_Suc)
    also have "\<dots> = (Inr (0, snd v), stream_advance (Suc n) s)"
      using dec_u64_low [OF reads_Cons(2) [OF rd'], of "of_nat (Suc n) - 1"] of_nat_Suc_pred [of n] n(2) val
      by (simp add: stream_advance_add del: of_nat_Suc)
    finally show ?thesis using hi0 n(1) by (simp add: cnt oct oct' prod_eq_iff)
  next
    assume long: "snmp_asn1_enc_u32t_cnt (snd v) = 5" "\<not> snd v < 0x80000000"
    then have rd': "reads s (0 # octets_be 4 (snd v))" using rd by (simp add: u32_octets_def)
    have "snmp_asn1_dec_u64t s 5 = dec_u64_loop (stream_advance 1 s) 4 False 0 0"
      using rd' by (simp add: snmp_asn1_dec_u64t_def)
    also have "\<dots> = (Inr (0, be_fold 0 (octets_be 4 (snd v))), stream_advance 5 s)"
      using dec_u64_high [of "stream_advance 1 s" "[]" "octets_be 4 (snd v)" 4 0 0] reads_Cons(2) [OF rd']
      by (simp add: stream_advance_add del: octets_be.simps)
    also have "be_fold 0 (octets_be 4 (snd v)) = snd v"
      by (rule be_fold_octets_4)
    finally show ?thesis using long hi0 by (simp add: cnt oct u32_octets_def prod_eq_iff)
  qed
next
  case False
  then have rd: "reads s (u32_octets (fst v) @ octets_be 4 (snd v))"
    and oct: "u64_octets v = u32_octets (fst v) @ octets_be 4 (snd v)"
    and cnt: "snmp_asn1_enc_u64t_cnt v = snmp_asn1_enc_u32t_cnt (fst v) + 4"
    using assms by (simp_all add: u64_octets_def snmp_asn1_enc_u64t_cnt_def)
  have lo: "be_fold 0 (octets_be 4 (snd v)) = snd v"
    by (rule be_fold_octets_4)
  show ?thesis
  proof (rule u32_cnt_cases [of "fst v"])
    fix n assume n: "snmp_asn1_enc_u32t_cnt (fst v) = of_nat (Suc n)" "n < 4" "fst v < 0x80000000"
      "take_bit (8 * n + 7) (fst v) = fst v"
    let ?b = "ucast (drop_bit (8 * n) (fst v)) :: u8"
    define k where "k = (of_nat (Suc n) :: u16) + 4"
    have m: "unat (of_nat (Suc n) :: u16) = Suc n" using n(2) by (intro unat_of_nat_Suc) simp
    then have k: "unat k = Suc n + 4" using n(2) by (simp add: k_def unat_add_nowrap del: of_nat_Suc)
    then have len: "0 < k" "k \<le> 9" "k < 9" "\<not> k \<le> 4" "k \<noteq> 9"
      using n(2) by (auto simp: word_less_nat_alt word_le_nat_alt)
    then have k1: "unat (k - 1) = n + 4" using k unat_pred [of k] by auto
    have oct': "u32_octets (fst v) = ?b # octets_be n (fst v)"
      using n m by (simp add: u32_octets_def del: of_nat_Suc)
    have rd': "reads s (?b # (octets_be n (fst v) @ octets_be 4 (snd v)))" using rd oct' by simp
    have val: "be_fold (ucast ?b) (octets_be n (fst v)) = fst v" using n(4) by (rule be_fold_octets_self)
    have "snmp_asn1_dec_u64t s k = dec_u64_loop (stream_advance 1 s) (k - 1) False (ucast ?b) 0"
      using rd' len octets_be_sign [OF n(4)]
      by (simp add: snmp_asn1_dec_u64t_def u8_and_0x80 Let_def)
    also have "\<dots> = (Inr v, stream_advance (Suc n + 4) s)"
      using dec_u64_high [OF reads_Cons(2) [OF rd'], of "k - 1"] k1 val lo
      by (simp add: stream_advance_add del: octets_be.simps)
    finally show ?thesis using n(1) by (simp add: cnt oct oct' k_def)
  next
    assume long: "snmp_asn1_enc_u32t_cnt (fst v) = 5" "\<not> fst v < 0x80000000"
    then have rd': "reads s (0 # (octets_be 4 (fst v) @ octets_be 4 (snd v)))"
      using rd by (simp add: u32_octets_def)
    have "snmp_asn1_dec_u64t s 9 = dec_u64_loop (stream_advance 1 s) 8 False 0 0"
      using rd' by (simp add: snmp_asn1_dec_u64t_def)
    also have "\<dots> = (Inr (be_fold 0 (octets_be 4 (fst v)), snd v), stream_advance 9 s)"
      using dec_u64_high [of "stream_advance 1 s" "octets_be 4 (fst v)" "octets_be 4 (snd v)" 8 0 0]
        reads_Cons(2) [OF rd'] lo
      by (simp add: stream_advance_add del: octets_be.simps)
    also have "be_fold 0 (octets_be 4 (fst v)) = fst v"
      by (rule be_fold_octets_4)
    finally show ?thesis using long by (simp add: cnt oct u32_octets_def)
  qed
qed

subsection \<open>Encodings of signed integers\<close>

lemma u8_ucast_signed_drop:
  "k + 8 \<le> 32 \<Longrightarrow> (ucast (signed_drop_bit k (v :: u32)) :: u8) = ucast (drop_bit k v)"
  by (rule bit_word_eqI) (auto simp: bit_simps)

lemma enc_s32_eq:
  "octets_needed \<noteq> 0 \<Longrightarrow> octets_needed \<le> 4 \<Longrightarrow>
   snmp_asn1_enc_s32t s octets_needed val = write_bytes (octets_be (unat octets_needed) val) s"
proof (induction s octets_needed val rule: snmp_asn1_enc_s32t.induct)
  case (1 s n val)
  show ?case
  proof (cases "n > 1")
    case True
    then have nz: "n \<noteq> 0" "n - 1 \<noteq> 0" by auto
    have u: "unat n = Suc (unat (n - 1))" "unat (n - 1) < 4"
      using nz "1.prems"(2) by (auto simp: unat_pred unat_gt_0 word_le_nat_alt)
    then have lt: "\<not> 4 \<le> n - 1" "n - 1 \<le> 4" by (simp_all add: word_le_nat_alt)
    have "octets_be (unat n) val =
        ucast (signed_drop_bit (unat (n - 1) * 8) val) # octets_be (unat (n - 1)) val"
      using u by (simp add: mult.commute u8_ucast_signed_drop)
    with "1.IH" [OF True refl lt(1) nz(2) lt(2)] True lt show ?thesis
      by (subst snmp_asn1_enc_s32t.simps) (simp add: Let_def)
  next
    case False
    with 1 have "n = 1" by (simp add: not_1_less)
    then show ?thesis by (subst snmp_asn1_enc_s32t.simps) simp
  qed
qed

lemma set_lsb_steps:
  "set_lsb (push_bit 8 v) (get_lsb (push_bit 8 v) OR d) = push_bit 8 v OR ucast d"
  "set_lsb (push_bit 8 v) (get_lsb (push_bit 8 v) OR 255) = push_bit 8 v OR 255"
  "set_lsb (push_bit 8 v OR 255) (get_lsb (push_bit 8 v OR 255) AND d) = push_bit 8 v OR ucast d"
  "set_lsb (- 1) (get_lsb (- 1) AND d) = push_bit 8 (- 1) OR ucast d"
  "set_lsb 0 (get_lsb 0 OR d) = ucast d"
proof -
  have m: "(0xffffff00 :: u32) = push_bit 8 (mask 24)" "(255 :: u8) = mask 8" "(255 :: u32) = mask 8"
    by (simp_all add: mask_numeral)
  show "set_lsb (push_bit 8 v) (get_lsb (push_bit 8 v) OR d) = push_bit 8 v OR ucast d"
    unfolding set_lsb_def get_lsb_def m by (rule bit_word_eqI) (auto simp: bit_simps dest: bit_u8_lt)
  show "set_lsb (push_bit 8 v) (get_lsb (push_bit 8 v) OR 255) = push_bit 8 v OR 255"
    unfolding set_lsb_def get_lsb_def m by (rule bit_word_eqI) (auto simp: bit_simps)
  show "set_lsb (push_bit 8 v OR 255) (get_lsb (push_bit 8 v OR 255) AND d) = push_bit 8 v OR ucast d"
    unfolding set_lsb_def get_lsb_def m by (rule bit_word_eqI) (auto simp: bit_simps dest: bit_u8_lt)
  show "set_lsb (- 1) (get_lsb (- 1) AND d) = push_bit 8 (- 1) OR ucast d"
    unfolding set_lsb_def get_lsb_def m by (rule bit_word_eqI) (auto simp: bit_simps dest: bit_u8_lt)
  show "set_lsb 0 (get_lsb 0 OR d) = ucast d"
    unfolding set_lsb_def get_lsb_def m by (rule bit_word_eqI) (auto simp: bit_simps dest: bit_u8_lt)
qed

lemma dec_s32_loop_reads:
  "reads s bs \<Longrightarrow> unat len = length bs \<Longrightarrow>
   dec_s32_loop s len sign val = (Inr (be_fold val bs), stream_advance (length bs) s)"
proof (induction bs arbitrary: s len val sign)
  case Nil
  then show ?case by (subst dec_s32_loop.simps) (simp add: unat_eq_zero)
next
  case (Cons b bs)
  note step = unat_Suc_length [OF Cons.prems(2)] reads_Cons(2) [OF Cons.prems(1)]
  show ?case
    using Cons step by (subst dec_s32_loop.simps) (simp add: Let_def set_lsb_steps stream_advance_add)
qed

text \<open>A signed value: its bits above the sign bit of the encoding are copies of it.\<close>

definition s32_octets :: "u32 \<Rightarrow> bytes" where
  "s32_octets v = octets_be (unat (snmp_asn1_enc_s32t_cnt v)) v"

lemma sint_msb: "sint (v :: u32) < 0 \<longleftrightarrow> bit v 31"
  by (simp add: sint_uint signed_take_bit_negative_iff bit_uint_iff)

lemma sint_nonneg:
  assumes "\<not> bit (v :: u32) 31"
  shows "sint v = int (unat v)"
proof -
  have "take_bit 31 v = v"
  proof (rule bit_word_eqI)
    fix n assume "n < LENGTH(32)"
    then have "n < 31 \<or> n = 31" by auto
    with assms show "bit (take_bit 31 v) n = bit v n" by (auto simp: bit_simps)
  qed
  then have "take_bit 31 (uint v) = uint v" by (metis unsigned_take_bit_eq)
  then have "sint v = uint v"
    using assms by (simp add: sint_uint signed_take_bit_eq_if_positive bit_uint_iff)
  then show ?thesis by simp
qed

text \<open>
  The encoding has \<open>n + 1\<close> octets; the value, or its complement when it is negative,
  needs only the \<open>8 n + 7\<close> bits below the sign bit.
\<close>

lemma s32_cnt_cases:
  obtains n where "snmp_asn1_enc_s32t_cnt v = of_nat (Suc n)" "n < 4"
    "take_bit (8 * n + 7) (if bit v 31 then NOT v else v) = (if bit v 31 then NOT v else v)"
proof -
  define w where "w = (if bit v 31 then NOT v else v)"
  have top: "\<not> bit w 31" by (simp add: w_def bit_simps)
  then have w: "sint w = int (unat w)" by (rule sint_nonneg)
  have lt: "sint w < numeral k \<longleftrightarrow> unat w < numeral k" for k
    unfolding w by (metis of_nat_less_iff of_nat_numeral)
  have cnt: "snmp_asn1_enc_s32t_cnt v =
      (if unat w < 0x80 then 1 else if unat w < 0x8000 then 2 else if unat w < 0x800000 then 3 else 4)"
    by (simp add: snmp_asn1_enc_s32t_cnt_def sint_msb w_def [symmetric] Let_def lt)
  have "unat w < 2 ^ 31"
  proof -
    have "sint w < 2 ^ 31" using sint_lt [of w] by simp
    then show ?thesis using lt by simp
  qed
  consider "unat w < 2 ^ 7" "snmp_asn1_enc_s32t_cnt v = of_nat (Suc 0)"
    | "unat w < 2 ^ 15" "snmp_asn1_enc_s32t_cnt v = of_nat (Suc 1)"
    | "unat w < 2 ^ 23" "snmp_asn1_enc_s32t_cnt v = of_nat (Suc 2)"
    | "unat w < 2 ^ 31" "snmp_asn1_enc_s32t_cnt v = of_nat (Suc 3)"
  proof -
    assume *: "unat w < 2 ^ 7 \<Longrightarrow> snmp_asn1_enc_s32t_cnt v = of_nat (Suc 0) \<Longrightarrow> thesis"
      "unat w < 2 ^ 15 \<Longrightarrow> snmp_asn1_enc_s32t_cnt v = of_nat (Suc 1) \<Longrightarrow> thesis"
      "unat w < 2 ^ 23 \<Longrightarrow> snmp_asn1_enc_s32t_cnt v = of_nat (Suc 2) \<Longrightarrow> thesis"
      "unat w < 2 ^ 31 \<Longrightarrow> snmp_asn1_enc_s32t_cnt v = of_nat (Suc 3) \<Longrightarrow> thesis"
    consider "unat w < 128" | "\<not> unat w < 128" "unat w < 32768"
      | "\<not> unat w < 128" "\<not> unat w < 32768" "unat w < 8388608"
      | "\<not> unat w < 128" "\<not> unat w < 32768" "\<not> unat w < 8388608" by blast
    then show thesis
      using * \<open>unat w < 2 ^ 31\<close> by cases (simp_all add: cnt)
  qed
  then show thesis
    using that [of 0] that [of 1] that [of 2] that [of 3] unfolding w_def [symmetric]
    by cases (simp_all add: less_take_bit)
qed

lemma length_s32_octets: "length (s32_octets v) = unat (snmp_asn1_enc_s32t_cnt v)"
  by (simp add: s32_octets_def)

text \<open>The sign-extended octets are the value.\<close>

lemma be_fold_signed:
  assumes "take_bit (8 * n + 7) (if bit v 31 then NOT v else v) = (if bit v 31 then NOT v else (v :: u32))"
    and "n < 4"
  shows "be_fold (if bit v 31 then - 1 else 0) (octets_be (Suc n) v) = v"
    and "bit (ucast (drop_bit (8 * n) v) :: u8) 7 \<longleftrightarrow> bit v 31"
proof -
  have high: "bit v j \<longleftrightarrow> bit v 31" if "8 * n + 7 \<le> j" "j < 32" for j
    using take_bit_not_bit [OF assms(1) that(1)] that(2) by (auto simp: bit_simps split: if_splits)
  show "be_fold (if bit v 31 then - 1 else 0) (octets_be (Suc n) v) = v"
    unfolding be_fold_octets
  proof (rule bit_word_eqI)
    fix j assume "j < LENGTH(32)"
    then show "bit (push_bit (8 * Suc n) (if bit v 31 then - 1 else 0) OR take_bit (8 * Suc n) v) j = bit v j"
      using high [of j] by (cases "8 * Suc n \<le> j") (auto simp: bit_simps)
  qed
  show "bit (ucast (drop_bit (8 * n) v) :: u8) 7 \<longleftrightarrow> bit v 31"
    using high [of "8 * n + 7"] assms(2) by (simp add: bit_simps)
qed

lemma dec_s32_eq:
  assumes "reads s (s32_octets v)"
  shows "snmp_asn1_dec_s32t s (snmp_asn1_enc_s32t_cnt v) =
    (Inr v, stream_advance (length (s32_octets v)) s)"
proof (rule s32_cnt_cases [of v])
  fix n assume n: "snmp_asn1_enc_s32t_cnt v = of_nat (Suc n)" "n < 4"
    "take_bit (8 * n + 7) (if bit v 31 then NOT v else v) = (if bit v 31 then NOT v else v)"
  let ?b = "ucast (drop_bit (8 * n) v) :: u8"
  have m: "unat (of_nat (Suc n) :: u16) = Suc n" using n(2) by (intro unat_of_nat_Suc) simp
  have oct: "s32_octets v = ?b # octets_be n v"
    using n m by (simp add: s32_octets_def del: of_nat_Suc)
  have rd: "reads s (?b # octets_be n v)" using assms oct by simp
  have len: "0 < (of_nat (Suc n) :: u16)" "(of_nat (Suc n) :: u16) < 5"
    using n(2) m by (auto simp: word_less_nat_alt simp del: of_nat_Suc)
  define start where "start = (if bit v 31 then push_bit 8 (- 1) OR ucast ?b else ucast ?b :: u32)"
  have "snmp_asn1_dec_s32t s (of_nat (Suc n)) =
      dec_s32_loop (stream_advance 1 s) (of_nat (Suc n) - 1) (bit v 31) start"
    using rd len be_fold_signed(2) [OF n(3,2)]
    by (simp add: snmp_asn1_dec_s32t_def u8_and_0x80 set_lsb_steps start_def del: of_nat_Suc)
  also have "\<dots> = (Inr (be_fold start (octets_be n v)), stream_advance (Suc n) s)"
    using dec_s32_loop_reads [OF reads_Cons(2) [OF rd], of "of_nat (Suc n) - 1"] of_nat_Suc_pred [of n] n(2)
    by (simp add: stream_advance_add del: of_nat_Suc)
  also have "be_fold start (octets_be n v) = v"
    using be_fold_signed(1) [OF n(3,2)] by (auto simp: start_def split: if_splits)
  finally show ?thesis by (simp add: n(1) oct)
qed

lemma enc_s32_octets: "snmp_asn1_enc_s32t s (snmp_asn1_enc_s32t_cnt v) v = write_bytes (s32_octets v) s"
  unfolding s32_octets_def by (rule enc_s32_eq) (simp_all add: snmp_asn1_enc_s32t_cnt_def Let_def)

subsection \<open>Encoding, then decoding\<close>

lemma encoded_reads:
  assumes ok: "stream_ok s" and room: "length bs \<le> unat (s_length s)"
  obtains s' where "write_bytes bs s = Some (ERR_OK, s')" "wrote s bs s'"
    "reads (s\<lparr>s_pbuf := s_pbuf s'\<rparr>) bs" "stream_advance (length bs) (s\<lparr>s_pbuf := s_pbuf s'\<rparr>) = s'"
proof -
  obtain s' where s': "write_bytes bs s = Some (ERR_OK, s')" "wrote s bs s'"
    using write_bytes_ok [OF ok room] by blast
  moreover have "stream_advance (length bs) (s\<lparr>s_pbuf := s_pbuf s'\<rparr>) = s'"
    using s'(2) by (auto simp: wrote_def stream_advance_def)
  ultimately show thesis using that reads_after_write [OF ok s'(2)] by blast
qed

subsection \<open>Length octets\<close>

fun len_mid :: "nat \<Rightarrow> u16 \<Rightarrow> bytes" where
  "len_mid (Suc (Suc m)) v = (if m = 0 then ucast (drop_bit 8 v) else 0) # len_mid (Suc m) v"
| "len_mid m v = []"

definition length_octets :: "u8 \<Rightarrow> u16 \<Rightarrow> bytes" where
  "length_octets r v =
     (if r > 1 then (0x80 OR (r - 1)) # len_mid (unat (r - 1)) v @ [ucast v] else [ucast v])"

lemma length_len_mid [simp]: "length (len_mid m v) = m - 1"
  by (induction m v rule: len_mid.induct) simp_all

lemma length_length_octets: "r \<noteq> 0 \<Longrightarrow> length (length_octets r v) = unat r"
proof (cases "r > 1")
  case True
  then have "1 < unat r" by (simp add: word_less_nat_alt)
  moreover have "unat (r - 1) = unat r - 1" using True by (intro unat_pred) auto
  ultimately show ?thesis using True by (simp add: length_octets_def)
next
  case False
  assume "r \<noteq> 0"
  with False have "r = 1" by (intro not_1_less)
  then show ?thesis by (simp add: length_octets_def)
qed

lemma enc_length_loop_eq:
  "unat r = m \<Longrightarrow> enc_length_loop s r v = write_bytes (len_mid m v) s"
proof (induction m arbitrary: s r)
  case 0
  then show ?case by (subst enc_length_loop.simps) (simp add: unat_eq_zero)
next
  case (Suc m)
  show ?case
  proof (cases m)
    case 0
    then have "\<not> r > 1" using Suc.prems by (simp add: word_less_nat_alt)
    with 0 show ?thesis by (subst enc_length_loop.simps) simp
  next
    case (Suc k)
    then have r: "r > 1" "unat (r - 1) = m" using Suc.prems unat_pred_Suc [OF Suc.prems] by (auto simp: word_less_nat_alt)
    have "r = 2 \<longleftrightarrow> unat r = unat (2 :: u8)" by (metis unsigned_word_eqI)
    then have "r = 2 \<longleftrightarrow> k = 0" using \<open>m = Suc k\<close> Suc.prems by simp
    then show ?thesis
      using r Suc.IH [OF r(2)] \<open>m = Suc k\<close> by (subst enc_length_loop.simps) (simp add: Let_def)
  qed
qed

lemma ucast_and_ff: "(ucast (v AND 0xFF :: u16) :: u8) = ucast v"
  unfolding byte_masks by (rule bit_word_eqI) (auto simp: bit_simps)

lemma enc_length_eq: "enc_length s r v = write_bytes (length_octets r v) s"
proof (cases "r > 1")
  case True
  have "enc_length_loop s (r - 1) v = write_bytes (len_mid (unat (r - 1)) v) s" for s
    by (rule enc_length_loop_eq) simp
  with True show ?thesis
    by (simp add: enc_length_def length_octets_def Let_def ucast_and_ff write_bytes_append write_bytes_Cons)
next
  case False
  then show ?thesis by (simp add: enc_length_def length_octets_def ucast_and_ff)
qed

text \<open>Two octets give the 16-bit value back.\<close>

lemma u16_octets: "push_bit 8 (ucast (ucast (drop_bit 8 v) :: u8)) OR ucast (ucast v :: u8) = (v :: u16)"
  by (rule bit_word_eqI) (auto simp: bit_simps)

lemma u16_small: "v \<le> 0xFF \<Longrightarrow> ucast (ucast v :: u8) = (v :: u16)"
proof -
  assume "v \<le> 0xFF"
  then have "unat v < 256" by (simp add: word_le_nat_alt)
  then show ?thesis by (simp add: word_unat_eq_iff unat_simps)
qed

lemma dec_length_loop_reads:
  "reads s (len_mid m v @ [ucast v]) \<Longrightarrow> unat lb = m \<Longrightarrow> 0 < m \<Longrightarrow> m = 1 \<longrightarrow> v \<le> 0xFF \<Longrightarrow> v \<noteq> 0xFFFF \<Longrightarrow>
   dec_length_loop s lb 0 = (Inr v, stream_advance m s)"
proof (induction m arbitrary: s lb)
  case (Suc m)
  have nz: "lb \<noteq> 0" "unat (lb - 1) = m" using unat_pred_Suc [OF Suc.prems(2)] by simp_all
  show ?case
  proof (cases m)
    case 0
    then have rd: "reads s [ucast v]" and lb: "lb - 1 = 0" using Suc.prems(1) nz by (simp_all add: unat_eq_zero)
    have "v \<le> 0xFF" using 0 Suc.prems(4) by simp
    then show ?thesis
      using rd nz(1) lb 0 Suc.prems(5)
      by (subst dec_length_loop.simps) (simp add: u16_small, subst dec_length_loop.simps, simp)
  next
    case (Suc k)
    show ?thesis
    proof (cases "k = 0")
      case True
      then have rd: "reads s (ucast (drop_bit 8 v) # [ucast v])" using Suc.prems(1) Suc by simp
      let ?h = "ucast (ucast (drop_bit 8 v) :: u8) :: u16"
      have "unat ?h \<le> 255" using unat_le_8 [of "ucast (drop_bit 8 v)"] by (simp add: unat_simps)
      then have h: "\<not> ?h > 0xFF" "?h \<noteq> 0xFFFF" by (auto simp: word_less_nat_alt)
      have lb2: "lb - 1 \<noteq> 0" "lb - 2 = 0"
      proof -
        show "lb - 1 \<noteq> 0" using nz(2) Suc by auto
        have "unat (lb - 1 - 1) = 0" using nz(2) Suc True unat_pred_Suc [of "lb - 1" 0] by auto
        then have "lb - 1 - 1 = 0" by (simp only: unat_eq_zero)
        then show "lb - 2 = 0" by simp
      qed
      have rest: "dec_length_loop (stream_advance 1 s) (lb - 1) ?h = (Inr v, stream_advance 2 s)"
        using reads_Cons(2) [OF rd] h lb2 Suc.prems(5)
        by (subst dec_length_loop.simps)
          (simp add: u16_octets stream_advance_add, subst dec_length_loop.simps, simp add: numeral_2_eq_2)
      show ?thesis
        using rd nz(1) h rest Suc True by (subst dec_length_loop.simps) (simp add: numeral_2_eq_2)
    next
      case False
      then have rd: "reads s (0 # (len_mid m v @ [ucast v]))" using Suc.prems(1) Suc by simp
      have "dec_length_loop (stream_advance 1 s) (lb - 1) 0 = (Inr v, stream_advance m (stream_advance 1 s))"
        using Suc.IH [OF reads_Cons(2) [OF rd] nz(2)] False Suc Suc.prems(5) by simp
      then show ?thesis
        using rd nz(1) by (subst dec_length_loop.simps) (simp add: stream_advance_add)
    qed
  qed
qed simp

text \<open>The octets of a header: the type, then the length.\<close>

definition required_len :: "u16 \<Rightarrow> u8" where
  "required_len v = (if v \<le> 127 then 1 else if v \<le> 255 then 2 else 3)"

lemma required_len_cnt: "required_len v = snmp_asn1_enc_length_cnt v"
  by (auto simp: required_len_def snmp_asn1_enc_length_cnt_def word_less_nat_alt word_le_nat_alt)

definition tlv_length_len :: "snmp_asn1_tlv \<Rightarrow> u8" where
  "tlv_length_len tlv = (if length_len tlv = 0 then required_len (value_len tlv) else length_len tlv)"

definition tlv_octets :: "snmp_asn1_tlv \<Rightarrow> bytes" where
  "tlv_octets tlv = tlv_type tlv # length_octets (tlv_length_len tlv) (value_len tlv)"

lemma enc_tlv_eq:
  assumes ty: "tlv_type tlv AND 0x1F \<noteq> 0x1F" and tl: "type_len tlv = 0"
    and ll: "required_len (value_len tlv) \<le> tlv_length_len tlv"
    and w: "write_bytes (tlv_octets tlv) s = Some (ERR_OK, s')"
  shows "snmp_ans1_enc_tlv s tlv =
    Some (ERR_OK, tlv\<lparr>type_len := 1, length_len := tlv_length_len tlv\<rparr>, s')"
proof -
  obtain s1 where s1: "snmp_pbuf_stream_write s (tlv_type tlv) = Some (ERR_OK, s1)"
    "write_bytes (length_octets (tlv_length_len tlv) (value_len tlv)) s1 = Some (ERR_OK, s')"
    using w by (auto simp: tlv_octets_def PBUF_OP_EXEC_def split: option.splits if_splits)
  show ?thesis
  proof (cases "length_len tlv = 0")
    case True
    then show ?thesis
      using ty tl s1 by (simp add: snmp_ans1_enc_tlv_def SNMP_ASN1_DATATYPE_MASK_def
          SNMP_ASN1_DATATYPE_EXTENDED_def Let_def enc_length_eq tlv_length_len_def required_len_def split: if_splits)
  next
    case False
    then have "0 < length_len tlv" "\<not> length_len tlv < required_len (value_len tlv)"
      using ll False by (auto simp: tlv_length_len_def word_neq_0_conv not_less split: if_splits)
    then show ?thesis
      using ty tl s1 False by (simp add: snmp_ans1_enc_tlv_def SNMP_ASN1_DATATYPE_MASK_def
          SNMP_ASN1_DATATYPE_EXTENDED_def Let_def enc_length_eq tlv_length_len_def required_len_def split: if_splits)
  qed
qed

lemma long_form:
  assumes "r > 1" "r \<le> 128"
  shows "\<not> 0x80 OR (r - 1) < 0x80" "0x80 < 0x80 OR (r - 1 :: u8)" "(0x80 OR (r - 1)) - 0x80 = r - 1"
proof -
  have r: "1 < unat r" "unat r \<le> 128" using assms by (simp_all add: word_less_nat_alt word_le_nat_alt)
  then have p: "unat (r - 1) = unat r - 1" by (intro unat_pred) auto
  have "take_bit 7 (r - 1) = r - 1" using p r by (intro less_take_bit) simp
  then have "\<not> bit (r - 1) 7" by (rule take_bit_not_bit) simp
  moreover have x: "(0x80 :: u8) = push_bit 7 1" by simp
  ultimately have "(r - 1) AND 0x80 = 0" by (simp add: u8_and_0x80)
  then have "0x80 AND (r - 1) = 0" by (simp only: and.commute)
  then have sum: "0x80 OR (r - 1) = 0x80 + (r - 1)" by (rule or_eq_add)
  then show "(0x80 OR (r - 1)) - 0x80 = r - 1" by simp
  have "unat (0x80 + (r - 1)) = 128 + (unat r - 1)" using p r by (subst unat_add_nowrap) simp_all
  then show "\<not> 0x80 OR (r - 1) < 0x80" "0x80 < 0x80 OR (r - 1)"
    using r unfolding sum word_less_nat_alt by simp_all
qed

lemma dec_tlv_eq:
  assumes ty: "tlv_type tlv AND 0x1F \<noteq> 0x1F"
    and ll: "required_len (value_len tlv) \<le> tlv_length_len tlv" "tlv_length_len tlv \<le> 128"
    and v: "value_len tlv \<noteq> 0xFFFF" and rd: "reads s (tlv_octets tlv)"
  shows "snmp_asn1_dec_tlv s =
    (Inr \<lparr>tlv_type = tlv_type tlv, type_len = 1, length_len = tlv_length_len tlv, value_len = value_len tlv\<rparr>,
     stream_advance (length (tlv_octets tlv)) s)"
proof -
  let ?r = "tlv_length_len tlv" and ?v = "value_len tlv"
  note rd1 = rd [unfolded tlv_octets_def]
  note rd2 = reads_Cons(2) [OF rd1]
  have r0: "?r \<noteq> 0"
  proof -
    have "1 \<le> unat (required_len ?v)" by (simp add: required_len_def)
    then show ?thesis using ll(1) by (auto simp: word_le_nat_alt)
  qed
  have start: "snmp_asn1_dec_tlv s = (let s = stream_advance 1 s in PBUF_OP_READ (snmp_pbuf_stream_read s) (\<lambda>data s.
         if data < 0x80 then
           (Inr \<lparr>tlv_type = tlv_type tlv, type_len = 1, length_len = 1, value_len = ucast data\<rparr>, s)
         else if data > 0x80 then
           let length_bytes = data - 0x80
           in (case dec_length_loop s length_bytes 0 of
                 (Inl err, s) \<Rightarrow> (Inl err, s)
               | (Inr vlen, s) \<Rightarrow>
                   (Inr \<lparr>tlv_type = tlv_type tlv, type_len = 1, length_len = length_bytes + 1, value_len = vlen\<rparr>, s))
         else (Inl ERR_VAL, s)))"
    using rd1 ty by (simp add: snmp_asn1_dec_tlv_def SNMP_ASN1_DATATYPE_MASK_def SNMP_ASN1_DATATYPE_EXTENDED_def)
  show ?thesis
  proof (cases "?r > 1")
    case False
    with r0 have r1: "?r = 1" by (intro not_1_less)
    then have small: "?v \<le> 127" using ll(1) by (auto simp: required_len_def word_le_nat_alt split: if_splits)
    then have "unat (ucast ?v :: u8) < 128" by (simp add: word_le_nat_alt unat_simps)
    then have "(ucast ?v :: u8) < 0x80" by (simp add: word_less_nat_alt)
    moreover have "ucast (ucast ?v :: u8) = ?v"
      by (rule u16_small) (use small in \<open>simp add: word_le_nat_alt\<close>)
    ultimately show ?thesis
      using rd2 r1 by (simp add: start tlv_octets_def length_octets_def stream_advance_add)
  next
    case True
    have m: "unat (?r - 1) = unat ?r - 1" "1 < unat ?r"
      using True unat_pred [OF r0] by (simp_all add: word_less_nat_alt)
    have "unat (?r - 1) = 1 \<longrightarrow> ?v \<le> 0xFF"
      using m ll(1) by (auto simp: required_len_def word_le_nat_alt split: if_splits)
    moreover have oct: "length_octets ?r ?v = (0x80 OR (?r - 1)) # len_mid (unat (?r - 1)) ?v @ [ucast ?v]"
      using True by (simp add: length_octets_def)
    moreover have "reads (stream_advance 1 (stream_advance 1 s)) (len_mid (unat (?r - 1)) ?v @ [ucast ?v])"
      using reads_Cons(2) rd2 unfolding oct by blast
    ultimately have "dec_length_loop (stream_advance 1 (stream_advance 1 s)) (?r - 1) 0 =
        (Inr ?v, stream_advance (unat (?r - 1)) (stream_advance 1 (stream_advance 1 s)))"
      using m v by (intro dec_length_loop_reads) auto
    moreover have "Suc (Suc (unat ?r - Suc (Suc 0))) = unat ?r" using m(2) by simp
    ultimately show ?thesis
      using rd2 long_form [OF True ll(2)] m unfolding oct tlv_octets_def
      by (simp add: start stream_advance_add Let_def)
  qed
qed

subsection \<open>Sub-identifiers\<close>

text \<open>The groups of seven bits from group \<open>j\<close> down, leading zero groups left out.\<close>

fun sub_id_octets :: "nat \<Rightarrow> u32 \<Rightarrow> bool \<Rightarrow> bytes" where
  "sub_id_octets 0 v tail = [ucast v AND 0x7F]"
| "sub_id_octets (Suc j) v tail =
     (let code = ucast (drop_bit (7 * Suc j) v) :: u8
      in if code \<noteq> 0 \<or> tail then (code OR 0x80) # sub_id_octets j v True
         else sub_id_octets j v tail)"

lemma enc_sub_id_eq:
  "unat shift = 7 * j \<Longrightarrow> enc_sub_id s v shift tail = write_bytes (sub_id_octets j v tail) s"
proof (induction j arbitrary: s shift tail)
  case 0
  then show ?case by (subst enc_sub_id.simps) (simp add: unat_eq_zero)
next
  case (Suc j)
  then have sh: "0 < shift" "\<not> shift < 7" by (auto simp: word_less_nat_alt)
  have shift7: "unat (shift - 7) = 7 * j" using Suc.prems by (subst unat_sub_nowrap) simp_all
  show ?case
    using sh Suc.prems Suc.IH [OF shift7] by (subst enc_sub_id.simps) (simp add: Let_def write_bytes_Cons)
qed

text \<open>The value collected from the octets, seven bits each.\<close>

definition groups_fold :: "u32 \<Rightarrow> bytes \<Rightarrow> u32" where
  "groups_fold = foldl (\<lambda>sub_id data. push_bit 7 sub_id + (ucast data AND 0x7F))"

lemma groups_fold_simps [simp]:
  "groups_fold sub_id [] = sub_id"
  "groups_fold sub_id (d # ds) = groups_fold (push_bit 7 sub_id + (ucast d AND 0x7F)) ds"
  by (simp_all add: groups_fold_def)

lemma mask_7: "(0x7F :: u32) = mask 7" "(0x7F :: u8) = mask 7" "(0x80 :: u8) = push_bit 7 1"
  by (simp_all add: mask_numeral)

lemma push_7_plus: "push_bit 7 acc + (x AND 0x7F) = push_bit 7 acc OR (x AND 0x7F :: u32)"
proof -
  have "push_bit 7 acc AND (x AND 0x7F) = 0"
    unfolding mask_7 by (rule bit_word_eqI) (auto simp: bit_simps)
  from or_eq_add [OF this] show ?thesis by simp
qed

lemma bit_0x80: "bit (0x80 :: u8) n \<longleftrightarrow> n = 7" "bit (0x80 :: int) n \<longleftrightarrow> n = 7"
  using bit_exp_iff [of 7 n, where 'a = "8 word"] bit_exp_iff [of 7 n, where 'a = int] by auto

lemma group_bits: "(ucast ((ucast w :: u8) OR 0x80) AND 0x7F :: u32) = take_bit 7 (w :: u32)"
  unfolding mask_7(1) by (rule bit_word_eqI) (auto simp: bit_simps bit_0x80)

lemma push_7_plus_take: "push_bit 7 acc + take_bit 7 x = push_bit 7 acc OR take_bit 7 (x :: u32)"
  using push_7_plus [of acc x] unfolding mask_7(1) by (simp add: take_bit_eq_mask)

lemma group_join:
  "push_bit k (push_bit 7 acc OR take_bit 7 (drop_bit k v)) OR take_bit k v =
     push_bit (k + 7) acc OR take_bit (k + 7) (v :: u32)"
  by (rule bit_word_eqI) (auto simp: bit_simps ac_simps)

lemma groups_fold_tail:
  "groups_fold acc (sub_id_octets j v True) = push_bit (7 * Suc j) acc OR take_bit (7 * Suc j) v"
proof (induction j arbitrary: acc)
  case 0
  have "push_bit 7 acc OR (ucast (ucast v AND 0x7F :: u8) AND 0x7F) = push_bit 7 acc OR take_bit 7 v"
    unfolding mask_7 by (rule bit_word_eqI) (auto simp: bit_simps)
  then show ?case by (simp add: push_7_plus)
next
  case (Suc j)
  have "groups_fold acc (sub_id_octets (Suc j) v True) =
      push_bit (7 * Suc j) (push_bit 7 acc OR take_bit 7 (drop_bit (7 * Suc j) v)) OR take_bit (7 * Suc j) v"
    using Suc by (simp add: push_7_plus_take group_bits Let_def)
  then show ?case unfolding group_join by (simp add: ac_simps)
qed

lemma groups_fold_octets: "groups_fold 0 (sub_id_octets j v False) = take_bit (7 * Suc j) v"
proof (induction j)
  case 0
  have "(ucast (ucast v AND 0x7F :: u8) AND 0x7F :: u32) = take_bit 7 v"
    unfolding mask_7 by (rule bit_word_eqI) (auto simp: bit_simps)
  then show ?case by simp
next
  case (Suc j)
  let ?code = "ucast (drop_bit (7 * Suc j) v) :: u8"
  show ?case
  proof (cases "?code = 0")
    case False
    then have "groups_fold 0 (sub_id_octets (Suc j) v False) = groups_fold 0 (sub_id_octets (Suc j) v True)"
      by (simp add: Let_def)
    then show ?thesis by (simp only: groups_fold_tail) simp
  next
    case True
    have "take_bit (7 * Suc (Suc j)) v = take_bit (7 * Suc j) v"
    proof (rule bit_word_eqI)
      fix n assume n: "n < LENGTH(32)"
      show "bit (take_bit (7 * Suc (Suc j)) v) n = bit (take_bit (7 * Suc j) v) n"
      proof (cases "7 * Suc j \<le> n \<and> n < 7 * Suc (Suc j)")
        case in_group: True
        then have "\<not> bit ?code (n - 7 * Suc j)" using True by simp
        then show ?thesis using in_group n by (auto simp: bit_simps)
      qed (auto simp: bit_simps)
    qed
    with Suc True show ?thesis by (simp add: Let_def)
  qed
qed

text \<open>All octets but the last have their top bit set.\<close>

fun groups_ok :: "bytes \<Rightarrow> bool" where
  "groups_ok [] = False"
| "groups_ok [d] = (\<not> bit d 7)"
| "groups_ok (d # ds) = (bit d 7 \<and> groups_ok ds)"

lemma groups_ok_octets: "groups_ok (sub_id_octets j v tail)"
proof (induction j arbitrary: tail)
  case 0
  show ?case unfolding mask_7 sub_id_octets.simps by (simp add: bit_simps)
next
  case (Suc j)
  have "bit ((ucast (drop_bit (7 * Suc j) v) :: u8) OR 0x80) 7"
    unfolding mask_7 by (simp add: bit_simps)
  moreover obtain d ds where "sub_id_octets j v True = d # ds"
    using Suc [of True] by (cases "sub_id_octets j v True") auto
  ultimately show ?case using Suc [of True] Suc [of False] by (simp add: Let_def)
qed

lemma dec_sub_id_reads:
  "groups_ok (d # ds) \<Longrightarrow> reads s ds \<Longrightarrow> length ds \<le> unat len \<Longrightarrow>
   dec_sub_id s len d sub_id =
     (Inr (len - of_nat (length ds), last (d # ds), groups_fold sub_id ds), stream_advance (length ds) s)"
proof (induction ds arbitrary: s len d sub_id)
  case Nil
  then show ?case by (subst dec_sub_id.simps) (simp add: u8_and_0x80)
next
  case (Cons e ds)
  have d: "bit d 7" "groups_ok (e # ds)" using Cons.prems(1) by simp_all
  obtain m where m: "unat len = Suc m" using Cons.prems(3) by (cases "unat len") auto
  then have len: "len \<noteq> 0" "unat (len - 1) = m" using unat_pred_Suc by auto
  then have "dec_sub_id (stream_advance 1 s) (len - 1) e (push_bit 7 sub_id + (ucast e AND 0x7F)) =
      (Inr (len - 1 - of_nat (length ds), last (e # ds), groups_fold (push_bit 7 sub_id + (ucast e AND 0x7F)) ds),
       stream_advance (length ds) (stream_advance 1 s))"
    using Cons.IH [OF d(2) reads_Cons(2) [OF Cons.prems(2)]] Cons.prems(3) m by simp
  then show ?case
    using d len Cons.prems(2)
    by (subst dec_sub_id.simps) (simp add: u8_and_0x80 stream_advance_add word_neq_0_conv diff_diff_eq)
qed

subsection \<open>Object identifiers\<close>

definition sub_ids_octets :: "u32 list \<Rightarrow> bytes" where
  "sub_ids_octets oid = concat (map (\<lambda>v. sub_id_octets 4 v False) oid)"

lemma enc_sub_ids_eq: "enc_sub_ids s oid = write_bytes (sub_ids_octets oid) s"
proof (induction oid arbitrary: s)
  case (Cons v oid)
  have "enc_sub_id s v 28 False = write_bytes (sub_id_octets 4 v False) s" for s
    by (rule enc_sub_id_eq) simp
  with Cons show ?case by (simp add: sub_ids_octets_def write_bytes_append del: sub_id_octets.simps)
qed (simp add: sub_ids_octets_def)

lemma length_sub_id_octets: "0 < length (sub_id_octets j v tail)" "length (sub_id_octets j v tail) \<le> Suc j"
  by (induction j arbitrary: tail) (auto simp: Let_def le_SucI)

lemma length_sub_ids_octets: "length (sub_ids_octets oid) \<le> 5 * length oid"
proof (induction oid)
  case (Cons v oid)
  then show ?case
    using length_sub_id_octets(2) [of 4 v False] by (simp add: sub_ids_octets_def del: sub_id_octets.simps)
qed (simp add: sub_ids_octets_def)

lemma reads_append:
  "reads s (xs @ ys) \<Longrightarrow> reads s xs \<and> reads (stream_advance (length xs) s) ys"
proof (induction xs arbitrary: s)
  case Nil
  then show ?case by (simp add: reads_def)
next
  case (Cons x xs)
  have "reads s (x # (xs @ ys))" using Cons.prems by simp
  from Cons.IH [OF reads_Cons(2) [OF this]]
  have "reads (stream_advance (length (x # xs)) s) ys" by (simp add: stream_advance_add)
  moreover have "take (length (x # xs)) (take (length ((x # xs) @ ys)) (stream_bytes s)) = x # xs"
    using Cons.prems unfolding reads_def by simp
  then have "reads s (x # xs)" using Cons.prems by (simp add: reads_def min_def)
  ultimately show ?case by simp
qed

text \<open>One sub-identifier is read and appended.\<close>

lemma dec_oid_step:
  assumes rd: "reads s (sub_id_octets 4 v False)" and len: "length (sub_id_octets 4 v False) \<le> unat len"
    and max: "length oid < unat oid_max_len"
  shows "dec_oid_loop s len oid oid_max_len =
    dec_oid_loop (stream_advance (length (sub_id_octets 4 v False)) s)
      (len - of_nat (length (sub_id_octets 4 v False))) (oid @ [v]) oid_max_len"
proof -
  obtain d ds where dds: "sub_id_octets 4 v False = d # ds"
    using length_sub_id_octets(1) [of 4 v False] by (cases "sub_id_octets 4 v False") auto
  have v: "groups_fold 0 (d # ds) = v"
    using groups_fold_octets [of 4 v] dds by (simp add: take_bit_word_eq_self del: groups_fold_simps sub_id_octets.simps)
  have ok: "groups_ok (d # ds)" using groups_ok_octets [of 4 v False] dds by simp
  obtain m where m: "unat len = Suc m" using len dds by (cases "unat len") auto
  then have len1: "len \<noteq> 0" "0 < len" "unat (len - 1) = m"
    using unat_pred_Suc [OF m] by (auto simp: word_neq_0_conv)
  have rd1: "reads s (d # ds)" using rd dds by simp
  note step = reads_Cons [OF rd1]
  show ?thesis
  proof (cases "bit d 7")
    case False
    then have ds: "ds = []" using ok by (cases ds) simp_all
    have "v = ucast d AND 0x7F" using v ds by simp
    also have "\<dots> = ucast d"
    proof (rule bit_word_eqI)
      fix n assume "n < LENGTH(32)"
      show "bit (ucast d AND 0x7F :: u32) n = bit (ucast d :: u32) n"
        using False bit_u8_lt [of d n] unfolding mask_7(1) by (cases "n = 7") (auto simp: bit_simps)
    qed
    finally show ?thesis
      using step(1) False max len1 unfolding dds ds
      by (subst dec_oid_loop.simps) (simp add: u8_and_0x80)
  next
    case True
    then have ne: "ds \<noteq> []" using ok by (cases ds) simp_all
    then have last: "\<not> bit (last (d # ds)) 7" using ok
    proof (induction ds arbitrary: d)
      case (Cons e es)
      then show ?case by (cases es) auto
    qed simp
    have "length ds \<le> unat (len - 1)" using len dds m len1 by simp
    from dec_sub_id_reads [OF ok step(2) this, of "ucast d AND 0x7F"]
    have sub: "dec_sub_id (stream_advance 1 s) (len - 1) d (ucast d AND 0x7F) =
      (Inr (len - 1 - of_nat (length ds), last (d # ds), v), stream_advance (length ds) (stream_advance 1 s))"
      using v by simp
    show ?thesis
      using step(1) True max len1 sub last unfolding dds
      by (subst dec_oid_loop.simps) (simp add: u8_and_0x80 stream_advance_add diff_diff_eq)
  qed
qed

lemma dec_oid_loop_reads:
  "reads s (sub_ids_octets rest) \<Longrightarrow> unat len = length (sub_ids_octets rest) \<Longrightarrow>
   length oid + length rest \<le> unat oid_max_len \<Longrightarrow>
   dec_oid_loop s len oid oid_max_len = (Inr (oid @ rest), stream_advance (length (sub_ids_octets rest)) s)"
proof (induction rest arbitrary: s len oid)
  case Nil
  then show ?case by (subst dec_oid_loop.simps) (simp add: sub_ids_octets_def unat_eq_zero)
next
  case (Cons v rest)
  define xs where "xs = sub_id_octets 4 v False"
  have split: "sub_ids_octets (v # rest) = xs @ sub_ids_octets rest"
    by (simp add: sub_ids_octets_def xs_def)
  have rd: "reads s xs" "reads (stream_advance (length xs) s) (sub_ids_octets rest)"
    using Cons.prems(1) reads_append unfolding split by blast+
  have le: "length xs \<le> unat len" using Cons.prems(2) by (simp add: split)
  then have "length xs < 65536" using unat_lt_16 [of len] by linarith
  then have "unat (len - of_nat (length xs)) = length (sub_ids_octets rest)"
    using le Cons.prems(2) by (subst unat_sub_nowrap) (simp_all add: unat_of_nat_16 split)
  from Cons.IH [OF rd(2) this, of "oid @ [v]"] Cons.prems(3)
  show ?case
    using dec_oid_step [OF rd(1) [unfolded xs_def] le [unfolded xs_def], of oid oid_max_len]
    by (simp add: xs_def [symmetric] split stream_advance_add)
qed

text \<open>The identifiers the first octet can hold.\<close>

definition oid_encodable :: "u32 list \<Rightarrow> bool" where
  "oid_encodable oid \<longleftrightarrow>
     (case oid of
        a # b # rest \<Rightarrow> (a < 2 \<and> b < 40) \<or> (a = 2 \<and> b < 176)
      | _ \<Rightarrow> False)"

definition oid_octets :: "u32 list \<Rightarrow> bytes" where
  "oid_octets oid = ucast (oid ! 0 * 40 + oid ! 1) # sub_ids_octets (drop 2 oid)"

lemma enc_oid_eq: "2 \<le> length oid \<Longrightarrow> snmp_asn1_enc_oid s oid = write_bytes (oid_octets oid) s"
  by (cases oid rule: list.exhaust [case_names Nil Cons]; cases "tl oid")
    (auto simp: snmp_asn1_enc_oid_def oid_octets_def enc_sub_ids_eq)

lemma first_octet_inverse:
  assumes "(a < 2 \<and> b < 40) \<or> (a = 2 \<and> (b :: u32) < 176)"
  shows "(let data = ucast (a * 40 + b) :: u8
          in if data = 0x2B then [1, 3] else if data < 40 then [0, ucast data]
             else if data < 80 then [1, ucast data - 40] else [2, ucast data - 80]) = [a, b]"
proof -
  have a: "a = 0 \<or> a = 1 \<or> a = 2"
  proof -
    have "unat a < 2 \<or> a = 2" using assms by (auto simp: word_less_nat_alt)
    then have "unat a = unat (0 :: u32) \<or> unat a = unat (1 :: u32) \<or> a = 2" by auto
    then show ?thesis by (metis unsigned_word_eqI)
  qed
  have b: "unat b < 176" "a \<noteq> 2 \<longrightarrow> unat b < 40" using assms by (auto simp: word_less_nat_alt)
  define d where "d = (ucast (a * 40 + b) :: u8)"
  have d: "unat d = unat a * 40 + unat b"
    using a b by (auto simp: d_def unat_simps unat_word_ariths)
  have word: "x = y \<longleftrightarrow> unat x = unat y" for x y :: u32 by (metis unsigned_word_eqI)
  have bytes: "d = 0x2B \<longleftrightarrow> unat d = 43" "d < 40 \<longleftrightarrow> unat d < 40" "d < 80 \<longleftrightarrow> unat d < 80"
    by (simp_all add: word_less_nat_alt word_unat_eq_iff)
  have sub: "unat (ucast d - numeral k :: u32) = unat d - unat (numeral k :: u32)"
    if "unat (numeral k :: u32) \<le> unat d" for k
    using that by (subst unat_sub_nowrap) (simp_all add: unat_ucast_8_32)
  from a show ?thesis
  proof (elim disjE)
    assume "a = 0"
    with b d show ?thesis
      unfolding d_def [symmetric] Let_def bytes by (simp add: word unat_ucast_8_32)
  next
    assume "a = 1"
    with b d sub [of "num.Bit0 (num.Bit0 (num.Bit0 (num.Bit1 (num.Bit0 num.One))))"] show ?thesis
      unfolding d_def [symmetric] Let_def bytes by (simp add: word)
  next
    assume "a = 2"
    with b d sub [of "num.Bit0 (num.Bit0 (num.Bit0 (num.Bit0 (num.Bit1 (num.Bit0 num.One)))))"] show ?thesis
      unfolding d_def [symmetric] Let_def bytes by (simp add: word)
  qed
qed

lemma dec_oid_eq:
  assumes ok: "oid_encodable oid" and rd: "reads s (oid_octets oid)"
    and len: "unat len = length (oid_octets oid)" and max: "length oid \<le> unat oid_max_len"
  shows "snmp_asn1_dec_oid s len oid_max_len = (Inr oid, stream_advance (length (oid_octets oid)) s)"
proof -
  obtain a b rest where oid: "oid = a # b # rest" and ab: "(a < 2 \<and> b < 40) \<or> (a = 2 \<and> b < 176)"
    using ok by (auto simp: oid_encodable_def split: list.splits)
  have oct: "oid_octets oid = ucast (a * 40 + b) # sub_ids_octets rest"
    by (simp add: oid_octets_def oid)
  note rd1 = rd [unfolded oct]
  have n: "unat len = Suc (length (sub_ids_octets rest))" using len oct by simp
  then have len1: "0 < len" "unat (len - 1) = length (sub_ids_octets rest)"
    using unat_pred_Suc [OF n] by (auto simp: word_neq_0_conv)
  have "\<not> oid_max_len < 2" using max oid by (simp add: word_less_nat_alt)
  with len1(1) rd1 have "snmp_asn1_dec_oid s len oid_max_len =
      dec_oid_loop (stream_advance 1 s) (len - 1) [a, b] oid_max_len"
    using first_octet_inverse [OF ab] by (simp add: snmp_asn1_dec_oid_def Let_def)
  also have "\<dots> = (Inr ([a, b] @ rest), stream_advance (length (sub_ids_octets rest)) (stream_advance 1 s))"
    using max oid by (intro dec_oid_loop_reads reads_Cons(2) [OF rd1] len1(2)) simp
  finally show ?thesis by (simp add: oid oct [unfolded oid] stream_advance_add)
qed

subsection \<open>Counting the octets\<close>

lemma length_sub_id_True: "length (sub_id_octets j v True) = Suc j"
  by (induction j) (simp_all add: Let_def)

lemma sub_id_cnt_groups:
  "drop_bit (7 * k) w \<noteq> 0 \<Longrightarrow> drop_bit (7 * Suc k) w = 0 \<Longrightarrow> sub_id_cnt w n = n + of_nat (Suc k)"
proof (induction k arbitrary: w n)
  case 0
  then have "sub_id_cnt (drop_bit 7 w) (n + 1) = n + 1" by (subst sub_id_cnt.simps) simp
  with 0 show ?case by (subst sub_id_cnt.simps) (simp add: word_neq_0_conv)
next
  case (Suc k)
  have "drop_bit (7 * k) (drop_bit 7 w) \<noteq> 0" "drop_bit (7 * Suc k) (drop_bit 7 w) = 0"
    using Suc.prems by (simp_all add: add.commute)
  from Suc.IH [OF this] have "sub_id_cnt (drop_bit 7 w) (n + 1) = n + of_nat (Suc (Suc k))" by simp
  moreover have "0 < w"
  proof -
    have "w \<noteq> 0" using Suc.prems(1) by auto
    then show ?thesis by (simp add: word_neq_0_conv)
  qed
  ultimately show ?case by (subst sub_id_cnt.simps) simp
qed

lemma drop_bit_small: "drop_bit (k + 7) v = 0 \<Longrightarrow> (ucast (drop_bit k v :: u32) :: u8) = 0 \<longleftrightarrow> drop_bit k v = 0"
proof -
  assume "drop_bit (k + 7) v = 0"
  then have "drop_bit 7 (drop_bit k v) = 0" by (simp add: add.commute)
  then have "unat (drop_bit k v) div 128 = 0" using unat_drop_bit_div [of 7 "drop_bit k v"] by simp
  then have "unat (drop_bit k v) < 128" by (simp add: div_eq_0_iff)
  then have "unat (ucast (drop_bit k v) :: u8) = unat (drop_bit k v)" by (simp add: unat_simps)
  then show ?thesis by (metis unat_eq_zero)
qed

lemma sub_id_cnt_length:
  "drop_bit (7 * Suc j) v = 0 \<Longrightarrow>
   sub_id_cnt (drop_bit 7 v) n + 1 = n + of_nat (length (sub_id_octets j v False))"
proof (induction j)
  case 0
  then show ?case by (simp add: sub_id_cnt.simps [of 0])
next
  case (Suc j)
  have code: "(ucast (drop_bit (7 * Suc j) v) :: u8) = 0 \<longleftrightarrow> drop_bit (7 * Suc j) v = 0"
    using Suc.prems by (intro drop_bit_small) (simp add: add.commute)
  show ?case
  proof (cases "drop_bit (7 * Suc j) v = 0")
    case True
    with Suc code show ?thesis by (simp add: Let_def)
  next
    case False
    have "drop_bit (7 * j) (drop_bit 7 v) \<noteq> 0" "drop_bit (7 * Suc j) (drop_bit 7 v) = 0"
      using False Suc.prems by (simp_all add: add.commute)
    from sub_id_cnt_groups [OF this] False code show ?thesis
      by (simp add: Let_def length_sub_id_True add.assoc)
  qed
qed

lemma oid_cnt_loop_length:
  "oid_cnt_loop oid n = n + of_nat (length (sub_ids_octets oid))"
proof (induction oid arbitrary: n)
  case (Cons v oid)
  have "unat (drop_bit 35 v) = 0"
    using unat_lt_32 [of v] by (simp add: unat_drop_bit_div)
  then have "drop_bit (7 * Suc 4) v = 0" by (simp add: unat_eq_zero)
  from sub_id_cnt_length [OF this, of n]
  have "sub_id_cnt (drop_bit 7 v) (n + 1) = n + of_nat (length (sub_id_octets 4 v False))"
  proof -
    have shift: "sub_id_cnt w (n + 1) = sub_id_cnt w n + 1" for w n
    proof (induction w n rule: sub_id_cnt.induct)
      case (1 w n)
      then show ?case by (subst (1 2) sub_id_cnt.simps) simp
    qed
    with \<open>sub_id_cnt (drop_bit 7 v) n + 1 = _\<close> show ?thesis by simp
  qed
  with Cons show ?case by (simp add: sub_ids_octets_def add.assoc del: sub_id_octets.simps)
qed (simp add: sub_ids_octets_def)

lemma oid_cnt_eq: "2 \<le> length oid \<Longrightarrow> snmp_asn1_enc_oid_cnt oid = of_nat (length (oid_octets oid))"
  by (cases oid rule: list.exhaust; cases "tl oid")
    (auto simp: snmp_asn1_enc_oid_cnt_def oid_cnt_loop_length oid_octets_def)

lemma dec_raw_loop_reads:
  "reads s bs \<Longrightarrow> unat len = length bs \<Longrightarrow>
   dec_raw_loop s len buf = (Inr (buf @ bs), stream_advance (length bs) s)"
proof (induction bs arbitrary: s len buf)
  case Nil
  then show ?case by (subst dec_raw_loop.simps) (simp add: unat_eq_zero)
next
  case (Cons b bs)
  then show ?case
    using unat_Suc_length [OF Cons.prems(2)] reads_Cons(2) [OF Cons.prems(1)]
    by (subst dec_raw_loop.simps) (simp add: stream_advance_add)
qed

subsection \<open>Properties\<close>

text \<open>Every 32-bit value written with the octet count of \<open>snmp_asn1_enc_u32t_cnt\<close> is read
  back from the place where it was written, and the reader ends where the writer did.\<close>

theorem snmp_asn1_u32t_roundtrip:
  assumes "stream_ok s" "unat (snmp_asn1_enc_u32t_cnt v) \<le> unat (s_length s)"
  shows "\<exists>s'. snmp_asn1_enc_u32t s (snmp_asn1_enc_u32t_cnt v) v = Some (ERR_OK, s')
    \<and> snmp_asn1_dec_u32t (s\<lparr>s_pbuf := s_pbuf s'\<rparr>) (snmp_asn1_enc_u32t_cnt v) = (Inr v, s')"
proof -
  have "length (u32_octets v) \<le> unat (s_length s)" using assms(2) by (simp add: length_u32_octets)
  with assms(1) show ?thesis by (elim encoded_reads) (auto simp: enc_u32_eq dec_u32_eq)
qed

theorem snmp_asn1_u32t_roundtrip_witness:
  "\<exists>s'. snmp_asn1_enc_u32t (stream_of (replicate 8 0)) 5 0xFFFFFFFF = Some (ERR_OK, s')
    \<and> snmp_asn1_dec_u32t ((stream_of (replicate 8 0))\<lparr>s_pbuf := s_pbuf s'\<rparr>) 5 = (Inr 0xFFFFFFFF, s')"
proof -
  have "stream_ok (stream_of (replicate 8 0))" "snmp_asn1_enc_u32t_cnt 0xFFFFFFFF = 5"
    by (simp_all add: stream_of_def stream_ok_def seg_def snmp_asn1_enc_u32t_cnt_def word_less_nat_alt)
  with snmp_asn1_u32t_roundtrip [of "stream_of (replicate 8 0)" "0xFFFFFFFF"] show ?thesis
    by (simp add: stream_of_def)
qed

text \<open>The same for 64-bit counters, kept as a high and a low word.\<close>

theorem snmp_asn1_u64t_roundtrip:
  assumes "stream_ok s" "unat (snmp_asn1_enc_u64t_cnt v) \<le> unat (s_length s)"
  shows "\<exists>s'. snmp_asn1_enc_u64t s (snmp_asn1_enc_u64t_cnt v) v = Some (ERR_OK, s')
    \<and> snmp_asn1_dec_u64t (s\<lparr>s_pbuf := s_pbuf s'\<rparr>) (snmp_asn1_enc_u64t_cnt v) = (Inr v, s')"
proof -
  have "length (u64_octets v) \<le> unat (s_length s)" using assms(2) by (simp add: length_u64_octets)
  with assms(1) show ?thesis by (elim encoded_reads) (auto simp: enc_u64_eq dec_u64_eq)
qed

theorem snmp_asn1_u64t_roundtrip_witness:
  "\<exists>s'. snmp_asn1_enc_u64t (stream_of (replicate 12 0)) 5 (1, 2) = Some (ERR_OK, s')
    \<and> snmp_asn1_dec_u64t ((stream_of (replicate 12 0))\<lparr>s_pbuf := s_pbuf s'\<rparr>) 5 = (Inr (1, 2), s')"
proof -
  have "stream_ok (stream_of (replicate 12 0))" "snmp_asn1_enc_u64t_cnt (1, 2) = 5"
    by (simp_all add: stream_of_def stream_ok_def seg_def snmp_asn1_enc_u64t_cnt_def
        snmp_asn1_enc_u32t_cnt_def word_less_nat_alt)
  with snmp_asn1_u64t_roundtrip [of "stream_of (replicate 12 0)" "(1, 2)"] show ?thesis
    by (simp add: stream_of_def)
qed

text \<open>The same for signed integers, negative ones in two's complement with the sign
  extended by the decoder.\<close>

theorem snmp_asn1_s32t_roundtrip:
  assumes "stream_ok s" "unat (snmp_asn1_enc_s32t_cnt v) \<le> unat (s_length s)"
  shows "\<exists>s'. snmp_asn1_enc_s32t s (snmp_asn1_enc_s32t_cnt v) v = Some (ERR_OK, s')
    \<and> snmp_asn1_dec_s32t (s\<lparr>s_pbuf := s_pbuf s'\<rparr>) (snmp_asn1_enc_s32t_cnt v) = (Inr v, s')"
proof -
  have "length (s32_octets v) \<le> unat (s_length s)" using assms(2) by (simp add: length_s32_octets)
  with assms(1) show ?thesis by (elim encoded_reads) (auto simp: enc_s32_octets dec_s32_eq)
qed

theorem snmp_asn1_s32t_roundtrip_witness:
  "\<exists>s'. snmp_asn1_enc_s32t (stream_of (replicate 4 0)) 1 (- 2) = Some (ERR_OK, s')
    \<and> snmp_asn1_dec_s32t ((stream_of (replicate 4 0))\<lparr>s_pbuf := s_pbuf s'\<rparr>) 1 = (Inr (- 2), s')"
proof -
  have "stream_ok (stream_of (replicate 4 0))" "snmp_asn1_enc_s32t_cnt (- 2) = 1"
    by (simp_all add: stream_of_def stream_ok_def seg_def snmp_asn1_enc_s32t_cnt_def)
  with snmp_asn1_s32t_roundtrip [of "stream_of (replicate 4 0)" "- 2"] show ?thesis
    by (simp add: stream_of_def)
qed



text \<open>Object identifiers whose first two numbers fit the first octet, of any length the
  caller has room for, are read back; \<open>snmp_asn1_enc_oid_cnt\<close> tells the number of octets.\<close>

theorem snmp_asn1_oid_roundtrip:
  assumes "stream_ok s" "oid_encodable oid" "length oid \<le> unat oid_max_len"
    and "length (oid_octets oid) \<le> unat (s_length s)"
  shows "unat (snmp_asn1_enc_oid_cnt oid) = length (oid_octets oid)
    \<and> (\<exists>s'. snmp_asn1_enc_oid s oid = Some (ERR_OK, s')
         \<and> snmp_asn1_dec_oid (s\<lparr>s_pbuf := s_pbuf s'\<rparr>) (snmp_asn1_enc_oid_cnt oid) oid_max_len = (Inr oid, s'))"
proof -
  have two: "2 \<le> length oid"
    using assms(2) by (auto simp: oid_encodable_def split: list.splits)
  have "length (oid_octets oid) < 65536" using assms(4) unat_lt_16 [of "s_length s"] by linarith
  then have cnt: "unat (snmp_asn1_enc_oid_cnt oid) = length (oid_octets oid)"
    by (simp add: oid_cnt_eq [OF two] unat_of_nat_16)
  from assms(1,4) obtain s' where s': "write_bytes (oid_octets oid) s = Some (ERR_OK, s')"
    "reads (s\<lparr>s_pbuf := s_pbuf s'\<rparr>) (oid_octets oid)"
    "stream_advance (length (oid_octets oid)) (s\<lparr>s_pbuf := s_pbuf s'\<rparr>) = s'"
    by (elim encoded_reads)
  with cnt dec_oid_eq [OF assms(2) s'(2) cnt assms(3)] show ?thesis
    by (simp add: enc_oid_eq [OF two])
qed

theorem snmp_asn1_oid_roundtrip_witness:
  "\<exists>s'. snmp_asn1_enc_oid (stream_of (replicate 32 0)) [1, 3, 6, 1, 4, 1, 26381] = Some (ERR_OK, s')
    \<and> snmp_asn1_dec_oid ((stream_of (replicate 32 0))\<lparr>s_pbuf := s_pbuf s'\<rparr>)
        (snmp_asn1_enc_oid_cnt [1, 3, 6, 1, 4, 1, 26381]) 50 = (Inr [1, 3, 6, 1, 4, 1, 26381], s')"
proof -
  let ?oid = "[1, 3, 6, 1, 4, 1, 26381] :: u32 list"
  have "stream_ok (stream_of (replicate 32 0))" by (simp add: stream_of_def stream_ok_def seg_def)
  moreover have "oid_encodable ?oid" by (simp add: oid_encodable_def word_less_nat_alt)
  moreover have "length (oid_octets ?oid) \<le> unat (s_length (stream_of (replicate 32 0)))"
    using length_sub_ids_octets [of "[6, 1, 4, 1, 26381]"] by (simp add: oid_octets_def stream_of_def)
  moreover have "length ?oid \<le> unat (50 :: u8)" by simp
  ultimately show ?thesis using snmp_asn1_oid_roundtrip by blast
qed

text \<open>A value length of 65535 is written without complaint and refused by the decoder of
  this module with \<open>ERR_VAL\<close>.\<close>

theorem snmp_asn1_tlv_65535_not_decoded:
  "\<exists>tlv' s'. snmp_ans1_enc_tlv (stream_of [0, 0, 0, 0])
      \<lparr>tlv_type = 0x04, type_len = 0, length_len = 0, value_len = 0xFFFF\<rparr> = Some (ERR_OK, tlv', s')
    \<and> fst (snmp_asn1_dec_tlv ((stream_of [0, 0, 0, 0])\<lparr>s_pbuf := s_pbuf s'\<rparr>)) = Inl ERR_VAL"
proof -
  let ?tlv = "\<lparr>tlv_type = 0x04, type_len = 0, length_len = 0, value_len = 0xFFFF\<rparr>"
  have oct: "tlv_octets ?tlv = [0x04, 0x82, 0xFF, 0xFF]"
  proof -
    have "required_len 0xFFFF = 3" by (simp add: required_len_def word_le_nat_alt)
    moreover have "len_mid (Suc (Suc 0)) 0xFFFF = [0xFF]" by simp
    then have "len_mid 2 0xFFFF = [0xFF]" by (simp only: numeral_2_eq_2)
    ultimately show ?thesis
      by (simp add: tlv_octets_def length_octets_def tlv_length_len_def word_less_nat_alt)
  qed
  have "stream_ok (stream_of [0, 0, 0, 0])" by (simp add: stream_of_def stream_ok_def seg_def)
  then obtain s' where s': "write_bytes (tlv_octets ?tlv) (stream_of [0, 0, 0, 0]) = Some (ERR_OK, s')"
    "reads ((stream_of [0, 0, 0, 0])\<lparr>s_pbuf := s_pbuf s'\<rparr>) (tlv_octets ?tlv)"
    by (rule encoded_reads [of _ "tlv_octets ?tlv"]) (simp_all add: oct, simp add: stream_of_def)
  let ?s = "(stream_of [0, 0, 0, 0])\<lparr>s_pbuf := s_pbuf s'\<rparr>"
  note r1 = s'(2) [unfolded oct]
  note r2 = reads_Cons(2) [OF r1]
  note r3 = reads_Cons(2) [OF r2]
  note r4 = reads_Cons(2) [OF r3]
  have "fst (dec_length_loop (stream_advance 1 (stream_advance 1 ?s)) 2 0) = Inl ERR_VAL"
    using r3 r4 by (subst dec_length_loop.simps) (simp add: word_less_nat_alt, subst dec_length_loop.simps,
        simp add: word_less_nat_alt)
  then have "fst (snmp_asn1_dec_tlv ?s) = Inl ERR_VAL"
    using r1 r2 by (auto simp: snmp_asn1_dec_tlv_def SNMP_ASN1_DATATYPE_MASK_def
        SNMP_ASN1_DATATYPE_EXTENDED_def word_less_nat_alt split: prod.split sum.split)
  moreover have "snmp_ans1_enc_tlv (stream_of [0, 0, 0, 0]) ?tlv =
      Some (ERR_OK, ?tlv\<lparr>type_len := 1, length_len := tlv_length_len ?tlv\<rparr>, s')"
    by (rule enc_tlv_eq) (simp_all add: s'(1) tlv_length_len_def)
  ultimately show ?thesis by blast
qed

end
