(* ===== verification/Machine.thy ===== *)
theory Machine
  imports Prelude
begin

text \<open>
  Machines: a component that starts in an initial state and reacts to events. What every
  step keeps holds in every reachable state; the components interpret this once for each
  invariant of theirs.
\<close>

inductive reachable :: "('s \<Rightarrow> bool) \<Rightarrow> ('s \<Rightarrow> 's \<Rightarrow> bool) \<Rightarrow> 's \<Rightarrow> bool"
  for init :: "'s \<Rightarrow> bool" and step :: "'s \<Rightarrow> 's \<Rightarrow> bool" where
  reachable_init: "init s \<Longrightarrow> reachable init step s"
| reachable_step: "reachable init step s \<Longrightarrow> step s t \<Longrightarrow> reachable init step t"

locale invariant_of =
  fixes init :: "'s \<Rightarrow> bool" and step :: "'s \<Rightarrow> 's \<Rightarrow> bool" and inv :: "'s \<Rightarrow> bool"
  assumes inv_init: "init s \<Longrightarrow> inv s"
    and inv_step: "inv s \<Longrightarrow> step s t \<Longrightarrow> inv t"
begin

lemma reachable_inv: "reachable init step s \<Longrightarrow> inv s"
  by (induction rule: reachable.induct) (blast intro: inv_init inv_step)+

end

text \<open>An invariant proved with the help of another one.\<close>

locale invariant_with = base: invariant_of init step inv
  for init :: "'s \<Rightarrow> bool" and step inv +
  fixes more :: "'s \<Rightarrow> bool"
  assumes more_init: "init s \<Longrightarrow> more s"
    and more_step: "inv s \<Longrightarrow> more s \<Longrightarrow> step s t \<Longrightarrow> more t"
begin

lemma reachable_more: "reachable init step s \<Longrightarrow> more s"
  by (induction rule: reachable.induct) (blast intro: more_init more_step base.reachable_inv)+

end

sublocale invariant_with \<subseteq> both: invariant_of init step "\<lambda>s. inv s \<and> more s"
  by unfold_locales (blast intro: base.inv_init base.inv_step more_init more_step)+

end
