(* ===== verification/PppFsm.thy ===== *)
theory PppFsm
  imports Machine
begin

text \<open>
  The option negotiation automaton of PPP (\<open>netif/ppp/fsm.c\<close>), which LCP, IPCP and the
  other control protocols share: its states, the events from the layers below and above,
  the packets received and the retransmission timer. The protocol's own routines are the
  callbacks of \<open>struct fsm_callbacks\<close>; they are parameters (a routine that may be \<open>NULL\<close>
  is an option or a flag), and their calls are recorded in the log of actions, beside the
  packets sent. A callback does not call back into the automaton it belongs to.
\<close>

subsection \<open>Data\<close>

datatype fsm_state =
    PPP_FSM_INITIAL | PPP_FSM_STARTING | PPP_FSM_CLOSED | PPP_FSM_STOPPED | PPP_FSM_CLOSING
  | PPP_FSM_STOPPING | PPP_FSM_REQSENT | PPP_FSM_ACKRCVD | PPP_FSM_ACKSENT | PPP_FSM_OPENED

definition HEADERLEN :: int where "HEADERLEN = 4"
definition PPP_HDRLEN :: int where "PPP_HDRLEN = 4"
definition PPP_ALLSTATIONS :: u8 where "PPP_ALLSTATIONS = 0xff"
definition PPP_UI :: u8 where "PPP_UI = 0x03"

definition CONFREQ :: u8 where "CONFREQ = 1"
definition CONFACK :: u8 where "CONFACK = 2"
definition CONFNAK :: u8 where "CONFNAK = 3"
definition CONFREJ :: u8 where "CONFREJ = 4"
definition TERMREQ :: u8 where "TERMREQ = 5"
definition TERMACK :: u8 where "TERMACK = 6"
definition CODEREJ :: u8 where "CODEREJ = 7"

definition OPT_PASSIVE :: u8 where "OPT_PASSIVE = 1"
definition OPT_RESTART :: u8 where "OPT_RESTART = 2"
definition OPT_SILENT :: u8 where "OPT_SILENT = 4"

text \<open>What the automaton does to the outside: the packets it writes and the callbacks it calls.\<close>

datatype fsm_action =
    Ppp_write bytes | Cb_up | Cb_down | Cb_starting | Cb_finished | Cb_resetci | Cb_retransmit

text \<open>
  \<open>timers\<close> is the number of pending timeouts of the automaton, \<open>allocs\<close> the number of
  pbufs asked for, \<open>actions\<close> the log with the latest action first.
\<close>

record fsm =
  term_reason :: "bytes option"
  seen_ack :: bool
  protocol :: u16
  state :: fsm_state
  flags :: u8
  fid :: u8
  reqid :: u8
  retransmits :: u8
  nakloops :: u8
  rnakloops :: u8
  maxnakloops :: u8
  term_reason_len :: u8
  timers :: nat
  allocs :: nat
  actions :: "fsm_action list"

text \<open>
  The environment: the settings of the \<open>ppp_pcb\<close>, the callbacks, and whether the n-th
  \<open>pbuf_alloc\<close> gives one contiguous pbuf of the size asked for.
\<close>

record fsm_env =
  fsm_max_conf_req_transmits :: u8
  fsm_max_term_transmits :: u8
  fsm_max_nak_loops :: u8
  peer_mru :: u16
  alloc_ok :: "nat \<Rightarrow> u16 \<Rightarrow> bool"
  cb_resetci :: bool
  cb_cilen :: "(fsm \<Rightarrow> int) option"
  cb_addci :: "(fsm \<Rightarrow> int \<Rightarrow> bytes) option"
  cb_ackci :: "(fsm \<Rightarrow> bytes \<Rightarrow> bool) option"
  cb_nakci :: "(fsm \<Rightarrow> bytes \<Rightarrow> bool \<Rightarrow> int) option"
  cb_rejci :: "(fsm \<Rightarrow> bytes \<Rightarrow> int) option"
  cb_reqci :: "(fsm \<Rightarrow> bytes \<Rightarrow> bool \<Rightarrow> u8 \<times> bytes) option"
  cb_up :: bool
  cb_down :: bool
  cb_starting :: bool
  cb_finished :: bool
  cb_retransmit :: bool
  cb_extcode :: "(fsm \<Rightarrow> u8 \<Rightarrow> u8 \<Rightarrow> bytes \<Rightarrow> bool) option"

subsection \<open>Timers, callbacks, packets\<close>

definition UNTIMEOUT :: "fsm \<Rightarrow> fsm" where
  "UNTIMEOUT f = f\<lparr>timers := timers f - 1\<rparr>"

definition TIMEOUT :: "fsm \<Rightarrow> fsm" where
  "TIMEOUT f = (let f = UNTIMEOUT f in f\<lparr>timers := timers f + 1\<rparr>)"

definition act :: "fsm_action \<Rightarrow> fsm \<Rightarrow> fsm" where
  "act a f = f\<lparr>actions := a # actions f\<rparr>"

text \<open>\<open>if (f->callbacks->cb) (*f->callbacks->cb)(f);\<close>\<close>

definition call :: "bool \<Rightarrow> fsm_action \<Rightarrow> fsm \<Rightarrow> fsm" where
  "call present a f = (if present then act a f else f)"

definition putshort :: "int \<Rightarrow> bytes" where
  "putshort s = [word_of_int (s div 256), word_of_int s]"

definition MAKEHEADER :: "u16 \<Rightarrow> bytes" where
  "MAKEHEADER t = [PPP_ALLSTATIONS, PPP_UI] @ putshort (uint t)"

definition fsm_sdata :: "fsm_env \<Rightarrow> u8 \<Rightarrow> u8 \<Rightarrow> bytes \<Rightarrow> int \<Rightarrow> fsm \<Rightarrow> fsm" where
  "fsm_sdata e code ident data datalen f =
     (let datalen = (if datalen > uint (peer_mru e) - HEADERLEN then uint (peer_mru e) - HEADERLEN
                     else datalen);
          outlen = datalen + HEADERLEN;
          ok = alloc_ok e (allocs f) (word_of_int (outlen + PPP_HDRLEN));
          f = f\<lparr>allocs := allocs f + 1\<rparr>
      in if \<not> ok then f
         else act (Ppp_write (MAKEHEADER (protocol f) @ [code, ident] @ putshort outlen
                              @ take (nat datalen) data)) f)"

definition fsm_sconfreq :: "fsm_env \<Rightarrow> bool \<Rightarrow> fsm \<Rightarrow> fsm" where
  "fsm_sconfreq e retransmit f =
     (let f = (if state f \<noteq> PPP_FSM_REQSENT \<and> state f \<noteq> PPP_FSM_ACKRCVD \<and> state f \<noteq> PPP_FSM_ACKSENT
               then (call (cb_resetci e) Cb_resetci f)\<lparr>nakloops := 0, rnakloops := 0\<rparr> else f);
          f = (if \<not> retransmit
               then f\<lparr>retransmits := fsm_max_conf_req_transmits e, fid := fid f + 1, reqid := fid f + 1\<rparr>
               else f);
          f = f\<lparr>seen_ack := False\<rparr>;
          cilen = (case (cb_cilen e, cb_addci e) of
                     (Some get, Some _) \<Rightarrow>
                       let n = get f
                       in if n > uint (peer_mru e) - HEADERLEN then uint (peer_mru e) - HEADERLEN else n
                   | _ \<Rightarrow> 0);
          ok = alloc_ok e (allocs f) (word_of_int (cilen + HEADERLEN + PPP_HDRLEN));
          f = f\<lparr>allocs := allocs f + 1\<rparr>
      in if \<not> ok then f
         else let opts = (if cilen \<noteq> 0 then (case cb_addci e of Some add \<Rightarrow> add f cilen | None \<Rightarrow> []) else []);
                  f = act (Ppp_write (MAKEHEADER (protocol f) @ [CONFREQ, reqid f]
                                      @ putshort (cilen + HEADERLEN) @ opts)) f;
                  f = f\<lparr>retransmits := retransmits f - 1\<rparr>
           in TIMEOUT f)"

subsection \<open>Events from the layers below and above\<close>

definition fsm_init :: "fsm_env \<Rightarrow> fsm \<Rightarrow> fsm" where
  "fsm_init e f =
     f\<lparr>state := PPP_FSM_INITIAL, flags := 0, fid := 0, maxnakloops := fsm_max_nak_loops e,
       term_reason_len := 0\<rparr>"

definition fsm_lowerup :: "fsm_env \<Rightarrow> fsm \<Rightarrow> fsm" where
  "fsm_lowerup e f =
     (case state f of
        PPP_FSM_INITIAL \<Rightarrow> f\<lparr>state := PPP_FSM_CLOSED\<rparr>
      | PPP_FSM_STARTING \<Rightarrow>
          if flags f AND OPT_SILENT \<noteq> 0 then f\<lparr>state := PPP_FSM_STOPPED\<rparr>
          else (fsm_sconfreq e False f)\<lparr>state := PPP_FSM_REQSENT\<rparr>
      | _ \<Rightarrow> f)"

definition fsm_lowerdown :: "fsm_env \<Rightarrow> fsm \<Rightarrow> fsm" where
  "fsm_lowerdown e f =
     (case state f of
        PPP_FSM_CLOSED \<Rightarrow> f\<lparr>state := PPP_FSM_INITIAL\<rparr>
      | PPP_FSM_STOPPED \<Rightarrow> call (cb_starting e) Cb_starting (f\<lparr>state := PPP_FSM_STARTING\<rparr>)
      | PPP_FSM_CLOSING \<Rightarrow> UNTIMEOUT (f\<lparr>state := PPP_FSM_INITIAL\<rparr>)
      | PPP_FSM_STOPPING \<Rightarrow> UNTIMEOUT (f\<lparr>state := PPP_FSM_STARTING\<rparr>)
      | PPP_FSM_REQSENT \<Rightarrow> UNTIMEOUT (f\<lparr>state := PPP_FSM_STARTING\<rparr>)
      | PPP_FSM_ACKRCVD \<Rightarrow> UNTIMEOUT (f\<lparr>state := PPP_FSM_STARTING\<rparr>)
      | PPP_FSM_ACKSENT \<Rightarrow> UNTIMEOUT (f\<lparr>state := PPP_FSM_STARTING\<rparr>)
      | PPP_FSM_OPENED \<Rightarrow> (call (cb_down e) Cb_down f)\<lparr>state := PPP_FSM_STARTING\<rparr>
      | _ \<Rightarrow> f)"

definition open_restart :: "fsm_env \<Rightarrow> fsm \<Rightarrow> fsm" where
  "open_restart e f =
     (if flags f AND OPT_RESTART \<noteq> 0 then fsm_lowerup e (fsm_lowerdown e f) else f)"

definition fsm_open :: "fsm_env \<Rightarrow> fsm \<Rightarrow> fsm" where
  "fsm_open e f =
     (case state f of
        PPP_FSM_INITIAL \<Rightarrow> call (cb_starting e) Cb_starting (f\<lparr>state := PPP_FSM_STARTING\<rparr>)
      | PPP_FSM_CLOSED \<Rightarrow>
          if flags f AND OPT_SILENT \<noteq> 0 then f\<lparr>state := PPP_FSM_STOPPED\<rparr>
          else (fsm_sconfreq e False f)\<lparr>state := PPP_FSM_REQSENT\<rparr>
      | PPP_FSM_CLOSING \<Rightarrow> open_restart e (f\<lparr>state := PPP_FSM_STOPPING\<rparr>)
      | PPP_FSM_STOPPED \<Rightarrow> open_restart e f
      | PPP_FSM_OPENED \<Rightarrow> open_restart e f
      | _ \<Rightarrow> f)"

definition send_termreq :: "fsm_env \<Rightarrow> fsm \<Rightarrow> fsm" where
  "send_termreq e f =
     (let f = f\<lparr>fid := fid f + 1, reqid := fid f + 1\<rparr>
      in fsm_sdata e TERMREQ (reqid f)
           (case term_reason f of Some reason \<Rightarrow> reason | None \<Rightarrow> []) (uint (term_reason_len f)) f)"

definition terminate_layer :: "fsm_env \<Rightarrow> fsm_state \<Rightarrow> fsm \<Rightarrow> fsm" where
  "terminate_layer e nextstate f =
     (let f = (if state f \<noteq> PPP_FSM_OPENED then UNTIMEOUT f else call (cb_down e) Cb_down f);
          f = f\<lparr>retransmits := fsm_max_term_transmits e\<rparr>;
          f = send_termreq e f
      in if retransmits f = 0
         then call (cb_finished e) Cb_finished
                (f\<lparr>state := if nextstate = PPP_FSM_CLOSING then PPP_FSM_CLOSED else PPP_FSM_STOPPED\<rparr>)
         else let f = TIMEOUT f
           in f\<lparr>retransmits := retransmits f - 1, state := nextstate\<rparr>)"

definition fsm_close :: "fsm_env \<Rightarrow> bytes option \<Rightarrow> fsm \<Rightarrow> fsm" where
  "fsm_close e reason f =
     (let f = f\<lparr>term_reason := reason,
                term_reason_len := (case reason of None \<Rightarrow> 0 | Some r \<Rightarrow> of_nat (min (length r) 0xFF))\<rparr>
      in case state f of
           PPP_FSM_STARTING \<Rightarrow> f\<lparr>state := PPP_FSM_INITIAL\<rparr>
         | PPP_FSM_STOPPED \<Rightarrow> f\<lparr>state := PPP_FSM_CLOSED\<rparr>
         | PPP_FSM_STOPPING \<Rightarrow> f\<lparr>state := PPP_FSM_CLOSING\<rparr>
         | PPP_FSM_REQSENT \<Rightarrow> terminate_layer e PPP_FSM_CLOSING f
         | PPP_FSM_ACKRCVD \<Rightarrow> terminate_layer e PPP_FSM_CLOSING f
         | PPP_FSM_ACKSENT \<Rightarrow> terminate_layer e PPP_FSM_CLOSING f
         | PPP_FSM_OPENED \<Rightarrow> terminate_layer e PPP_FSM_CLOSING f
         | _ \<Rightarrow> f)"

text \<open>The handler of the timer; \<open>fsm_timer_fires\<close> takes the timeout off the list and calls it.\<close>

definition fsm_timeout :: "fsm_env \<Rightarrow> fsm \<Rightarrow> fsm" where
  "fsm_timeout e f =
     (if state f = PPP_FSM_CLOSING \<or> state f = PPP_FSM_STOPPING then
        (if retransmits f \<le> 0
         then call (cb_finished e) Cb_finished
                (f\<lparr>state := if state f = PPP_FSM_CLOSING then PPP_FSM_CLOSED else PPP_FSM_STOPPED\<rparr>)
         else let f = TIMEOUT (send_termreq e f) in f\<lparr>retransmits := retransmits f - 1\<rparr>)
      else if state f = PPP_FSM_REQSENT \<or> state f = PPP_FSM_ACKRCVD \<or> state f = PPP_FSM_ACKSENT then
        (if retransmits f \<le> 0
         then call (flags f AND OPT_PASSIVE = 0 \<and> cb_finished e) Cb_finished (f\<lparr>state := PPP_FSM_STOPPED\<rparr>)
         else let f = fsm_sconfreq e True (call (cb_retransmit e) Cb_retransmit f)
           in if state f = PPP_FSM_ACKRCVD then f\<lparr>state := PPP_FSM_REQSENT\<rparr> else f)
      else f)"

definition fsm_timer_fires :: "fsm_env \<Rightarrow> fsm \<Rightarrow> fsm" where
  "fsm_timer_fires e f = fsm_timeout e (f\<lparr>timers := timers f - 1\<rparr>)"

subsection \<open>Packets received\<close>

text \<open>The end of \<open>fsm_rconfreq\<close>: the options are checked and answered.\<close>

definition rconfreq_answer :: "fsm_env \<Rightarrow> u8 \<Rightarrow> bytes \<Rightarrow> fsm \<Rightarrow> fsm" where
  "rconfreq_answer e ident inp f =
     (let reject_if_disagree = (maxnakloops f \<le> nakloops f);
          (code, reply) = (case cb_reqci e of
                             Some reqci \<Rightarrow> reqci f inp reject_if_disagree
                           | None \<Rightarrow> if inp \<noteq> [] then (CONFREJ, inp) else (CONFACK, inp));
          f = fsm_sdata e code ident reply (int (length reply)) f
      in if code = CONFACK then
           (let f = (if state f = PPP_FSM_ACKRCVD
                     then call (cb_up e) Cb_up ((UNTIMEOUT f)\<lparr>state := PPP_FSM_OPENED\<rparr>)
                     else f\<lparr>state := PPP_FSM_ACKSENT\<rparr>)
            in f\<lparr>nakloops := 0\<rparr>)
         else
           (let f = (if state f \<noteq> PPP_FSM_ACKRCVD then f\<lparr>state := PPP_FSM_REQSENT\<rparr> else f)
            in if code = CONFNAK then f\<lparr>nakloops := nakloops f + 1\<rparr> else f))"

definition fsm_rconfreq :: "fsm_env \<Rightarrow> u8 \<Rightarrow> bytes \<Rightarrow> fsm \<Rightarrow> fsm" where
  "fsm_rconfreq e ident inp f =
     (case state f of
        PPP_FSM_CLOSED \<Rightarrow> fsm_sdata e TERMACK ident [] 0 f
      | PPP_FSM_CLOSING \<Rightarrow> f
      | PPP_FSM_STOPPING \<Rightarrow> f
      | PPP_FSM_OPENED \<Rightarrow>
          rconfreq_answer e ident inp
            ((fsm_sconfreq e False (call (cb_down e) Cb_down f))\<lparr>state := PPP_FSM_REQSENT\<rparr>)
      | PPP_FSM_STOPPED \<Rightarrow>
          rconfreq_answer e ident inp ((fsm_sconfreq e False f)\<lparr>state := PPP_FSM_REQSENT\<rparr>)
      | _ \<Rightarrow> rconfreq_answer e ident inp f)"

definition fsm_rconfack :: "fsm_env \<Rightarrow> u8 \<Rightarrow> bytes \<Rightarrow> fsm \<Rightarrow> fsm" where
  "fsm_rconfack e ident inp f =
     (if ident \<noteq> reqid f \<or> seen_ack f then f
      else if \<not> (case cb_ackci e of Some ackci \<Rightarrow> ackci f inp | None \<Rightarrow> inp = []) then f
      else let f = f\<lparr>seen_ack := True, rnakloops := 0\<rparr>
        in case state f of
             PPP_FSM_CLOSED \<Rightarrow> fsm_sdata e TERMACK ident [] 0 f
           | PPP_FSM_STOPPED \<Rightarrow> fsm_sdata e TERMACK ident [] 0 f
           | PPP_FSM_REQSENT \<Rightarrow>
               f\<lparr>state := PPP_FSM_ACKRCVD, retransmits := fsm_max_conf_req_transmits e\<rparr>
           | PPP_FSM_ACKRCVD \<Rightarrow> (fsm_sconfreq e False (UNTIMEOUT f))\<lparr>state := PPP_FSM_REQSENT\<rparr>
           | PPP_FSM_ACKSENT \<Rightarrow>
               call (cb_up e) Cb_up
                 ((UNTIMEOUT f)\<lparr>state := PPP_FSM_OPENED, retransmits := fsm_max_conf_req_transmits e\<rparr>)
           | PPP_FSM_OPENED \<Rightarrow>
               (fsm_sconfreq e False (call (cb_down e) Cb_down f))\<lparr>state := PPP_FSM_REQSENT\<rparr>
           | _ \<Rightarrow> f)"

definition fsm_rconfnakrej :: "fsm_env \<Rightarrow> u8 \<Rightarrow> u8 \<Rightarrow> bytes \<Rightarrow> fsm \<Rightarrow> fsm" where
  "fsm_rconfnakrej e code ident inp f =
     (if ident \<noteq> reqid f \<or> seen_ack f then f
      else let (f, ret) =
             (if code = CONFNAK then
                let f = f\<lparr>rnakloops := rnakloops f + 1\<rparr>;
                    treat_as_reject = (maxnakloops f \<le> rnakloops f)
                in (f, case cb_nakci e of None \<Rightarrow> 0 | Some nakci \<Rightarrow> nakci f inp treat_as_reject)
              else
                let f = f\<lparr>rnakloops := 0\<rparr>
                in (f, case cb_rejci e of None \<Rightarrow> 0 | Some rejci \<Rightarrow> rejci f inp))
        in if ret = 0 then f
           else let f = f\<lparr>seen_ack := True\<rparr>
             in case state f of
                  PPP_FSM_CLOSED \<Rightarrow> fsm_sdata e TERMACK ident [] 0 f
                | PPP_FSM_STOPPED \<Rightarrow> fsm_sdata e TERMACK ident [] 0 f
                | PPP_FSM_REQSENT \<Rightarrow>
                    (if ret < 0 then (UNTIMEOUT f)\<lparr>state := PPP_FSM_STOPPED\<rparr>
                     else fsm_sconfreq e False (UNTIMEOUT f))
                | PPP_FSM_ACKSENT \<Rightarrow>
                    (if ret < 0 then (UNTIMEOUT f)\<lparr>state := PPP_FSM_STOPPED\<rparr>
                     else fsm_sconfreq e False (UNTIMEOUT f))
                | PPP_FSM_ACKRCVD \<Rightarrow> (fsm_sconfreq e False (UNTIMEOUT f))\<lparr>state := PPP_FSM_REQSENT\<rparr>
                | PPP_FSM_OPENED \<Rightarrow>
                    (fsm_sconfreq e False (call (cb_down e) Cb_down f))\<lparr>state := PPP_FSM_REQSENT\<rparr>
                | _ \<Rightarrow> f)"

definition fsm_rtermreq :: "fsm_env \<Rightarrow> u8 \<Rightarrow> fsm \<Rightarrow> fsm" where
  "fsm_rtermreq e ident f =
     (let f = (case state f of
                 PPP_FSM_ACKRCVD \<Rightarrow> f\<lparr>state := PPP_FSM_REQSENT\<rparr>
               | PPP_FSM_ACKSENT \<Rightarrow> f\<lparr>state := PPP_FSM_REQSENT\<rparr>
               | PPP_FSM_OPENED \<Rightarrow>
                   TIMEOUT (call (cb_down e) Cb_down (f\<lparr>retransmits := 0, state := PPP_FSM_STOPPING\<rparr>))
               | _ \<Rightarrow> f)
      in fsm_sdata e TERMACK ident [] 0 f)"

definition fsm_rtermack :: "fsm_env \<Rightarrow> fsm \<Rightarrow> fsm" where
  "fsm_rtermack e f =
     (case state f of
        PPP_FSM_CLOSING \<Rightarrow> call (cb_finished e) Cb_finished ((UNTIMEOUT f)\<lparr>state := PPP_FSM_CLOSED\<rparr>)
      | PPP_FSM_STOPPING \<Rightarrow> call (cb_finished e) Cb_finished ((UNTIMEOUT f)\<lparr>state := PPP_FSM_STOPPED\<rparr>)
      | PPP_FSM_ACKRCVD \<Rightarrow> f\<lparr>state := PPP_FSM_REQSENT\<rparr>
      | PPP_FSM_OPENED \<Rightarrow>
          (fsm_sconfreq e False (call (cb_down e) Cb_down f))\<lparr>state := PPP_FSM_REQSENT\<rparr>
      | _ \<Rightarrow> f)"

definition fsm_rcoderej :: "bytes \<Rightarrow> fsm \<Rightarrow> fsm" where
  "fsm_rcoderej inp f =
     (if int (length inp) < HEADERLEN then f
      else if state f = PPP_FSM_ACKRCVD then f\<lparr>state := PPP_FSM_REQSENT\<rparr> else f)"

text \<open>The packet is the list of its \<open>l\<close> bytes.\<close>

definition fsm_input :: "fsm_env \<Rightarrow> bytes \<Rightarrow> fsm \<Rightarrow> fsm" where
  "fsm_input e inpacket f =
     (case inpacket of
        code # ident # hi # lo # inp \<Rightarrow>
          (let len = uint hi * 256 + uint lo
           in if len < HEADERLEN then f
              else if len > int (length inpacket) then f
              else let inp = take (nat (len - HEADERLEN)) inp
                in if state f = PPP_FSM_INITIAL \<or> state f = PPP_FSM_STARTING then f
                   else if code = CONFREQ then fsm_rconfreq e ident inp f
                   else if code = CONFACK then fsm_rconfack e ident inp f
                   else if code = CONFNAK \<or> code = CONFREJ then fsm_rconfnakrej e code ident inp f
                   else if code = TERMREQ then fsm_rtermreq e ident f
                   else if code = TERMACK then fsm_rtermack e f
                   else if code = CODEREJ then fsm_rcoderej inp f
                   else if (case cb_extcode e of None \<Rightarrow> True | Some ext \<Rightarrow> \<not> ext f code ident inp)
                   then let f = f\<lparr>fid := fid f + 1\<rparr>
                     in fsm_sdata e CODEREJ (fid f) (take (nat len) inpacket) len f
                   else f)
      | _ \<Rightarrow> f)"

definition fsm_protreject :: "fsm_env \<Rightarrow> fsm \<Rightarrow> fsm" where
  "fsm_protreject e f =
     (let closed = (\<lambda>f. call (cb_finished e) Cb_finished (f\<lparr>state := PPP_FSM_CLOSED\<rparr>));
          stopped = (\<lambda>f. call (cb_finished e) Cb_finished (f\<lparr>state := PPP_FSM_STOPPED\<rparr>))
      in case state f of
           PPP_FSM_CLOSING \<Rightarrow> closed (UNTIMEOUT f)
         | PPP_FSM_CLOSED \<Rightarrow> closed f
         | PPP_FSM_STOPPING \<Rightarrow> stopped (UNTIMEOUT f)
         | PPP_FSM_REQSENT \<Rightarrow> stopped (UNTIMEOUT f)
         | PPP_FSM_ACKRCVD \<Rightarrow> stopped (UNTIMEOUT f)
         | PPP_FSM_ACKSENT \<Rightarrow> stopped (UNTIMEOUT f)
         | PPP_FSM_STOPPED \<Rightarrow> stopped f
         | PPP_FSM_OPENED \<Rightarrow> terminate_layer e PPP_FSM_STOPPING f
         | _ \<Rightarrow> f)"

subsection \<open>Runs\<close>

datatype fsm_event =
    Ev_lowerup | Ev_lowerdown | Ev_open | Ev_close "bytes option" | Ev_timeout | Ev_input bytes | Ev_protreject

definition fsm_event :: "fsm_env \<Rightarrow> fsm_event \<Rightarrow> fsm \<Rightarrow> fsm" where
  "fsm_event e ev f =
     (case ev of
        Ev_lowerup \<Rightarrow> fsm_lowerup e f
      | Ev_lowerdown \<Rightarrow> fsm_lowerdown e f
      | Ev_open \<Rightarrow> fsm_open e f
      | Ev_close reason \<Rightarrow> fsm_close e reason f
      | Ev_timeout \<Rightarrow> fsm_timer_fires e f
      | Ev_input p \<Rightarrow> fsm_input e p f
      | Ev_protreject \<Rightarrow> fsm_protreject e f)"

text \<open>The timer event can only happen while a timeout is pending.\<close>

inductive fsm_step :: "fsm_env \<Rightarrow> fsm \<Rightarrow> fsm \<Rightarrow> bool" for e :: fsm_env where
  timer: "0 < timers f \<Longrightarrow> fsm_step e f (fsm_event e Ev_timeout f)"
| event: "ev \<noteq> Ev_timeout \<Longrightarrow> fsm_step e f (fsm_event e ev f)"

inductive_cases fsm_stepE: "fsm_step e f g"

text \<open>The automaton after \<open>fsm_init\<close> and the setting of its flags, on a control block of zeros.\<close>

definition fsm_start :: "fsm_env \<Rightarrow> fsm \<Rightarrow> bool" where
  "fsm_start e f \<longleftrightarrow>
     (\<exists>prot fl. f = (fsm_init e \<lparr>term_reason = None, seen_ack = False, protocol = prot, state = PPP_FSM_INITIAL,
        flags = 0, fid = 0, reqid = 0, retransmits = 0, nakloops = 0, rnakloops = 0, maxnakloops = 0,
        term_reason_len = 0, timers = 0, allocs = 0, actions = []\<rparr>)\<lparr>flags := fl\<rparr>)"

subsection \<open>What the parts of an operation change\<close>

text \<open>The states with a timeout, and the calls of \<open>up\<close> and \<open>down\<close> in a log.\<close>

fun timed :: "fsm_state \<Rightarrow> bool" where
  "timed PPP_FSM_CLOSING = True"
| "timed PPP_FSM_STOPPING = True"
| "timed PPP_FSM_REQSENT = True"
| "timed PPP_FSM_ACKRCVD = True"
| "timed PPP_FSM_ACKSENT = True"
| "timed _ = False"

definition updown :: "fsm_action list \<Rightarrow> fsm_action list" where
  "updown as = filter (\<lambda>a. a = Cb_up \<or> a = Cb_down) as"

lemma updown_simps [simp]:
  "updown [] = []"
  "updown (Cb_up # as) = Cb_up # updown as"
  "updown (Cb_down # as) = Cb_down # updown as"
  "updown (Ppp_write p # as) = updown as"
  "updown (Cb_starting # as) = updown as"
  "updown (Cb_finished # as) = updown as"
  "updown (Cb_resetci # as) = updown as"
  "updown (Cb_retransmit # as) = updown as"
  by (simp_all add: updown_def)

definition alloc_always :: "fsm_env \<Rightarrow> bool" where
  "alloc_always e \<longleftrightarrow> (\<forall>n s. alloc_ok e n s)"

lemma act_sel [simp]:
  "state (act a f) = state f" "timers (act a f) = timers f" "seen_ack (act a f) = seen_ack f"
  "retransmits (act a f) = retransmits f" "flags (act a f) = flags f" "reqid (act a f) = reqid f"
  "term_reason (act a f) = term_reason f" "term_reason_len (act a f) = term_reason_len f"
  "actions (act a f) = a # actions f"
  by (simp_all add: act_def)

lemma call_sel [simp]:
  "state (call c a f) = state f" "timers (call c a f) = timers f" "seen_ack (call c a f) = seen_ack f"
  "retransmits (call c a f) = retransmits f" "flags (call c a f) = flags f"
  "reqid (call c a f) = reqid f"
  "term_reason (call c a f) = term_reason f" "term_reason_len (call c a f) = term_reason_len f"
  "actions (call c a f) = (if c then a # actions f else actions f)"
  by (simp_all add: call_def)

lemma UNTIMEOUT_sel [simp]:
  "state (UNTIMEOUT f) = state f" "timers (UNTIMEOUT f) = timers f - 1"
  "seen_ack (UNTIMEOUT f) = seen_ack f" "retransmits (UNTIMEOUT f) = retransmits f"
  "flags (UNTIMEOUT f) = flags f" "actions (UNTIMEOUT f) = actions f" "reqid (UNTIMEOUT f) = reqid f"
  "term_reason (UNTIMEOUT f) = term_reason f" "term_reason_len (UNTIMEOUT f) = term_reason_len f"
  by (simp_all add: UNTIMEOUT_def)

lemma TIMEOUT_sel [simp]:
  "state (TIMEOUT f) = state f" "timers (TIMEOUT f) = timers f - 1 + 1"
  "seen_ack (TIMEOUT f) = seen_ack f" "retransmits (TIMEOUT f) = retransmits f"
  "flags (TIMEOUT f) = flags f" "actions (TIMEOUT f) = actions f" "reqid (TIMEOUT f) = reqid f"
  "term_reason (TIMEOUT f) = term_reason f" "term_reason_len (TIMEOUT f) = term_reason_len f"
  by (simp_all add: TIMEOUT_def Let_def)

lemma fsm_sdata_sel [simp]:
  "state (fsm_sdata e c i d n f) = state f" "timers (fsm_sdata e c i d n f) = timers f"
  "seen_ack (fsm_sdata e c i d n f) = seen_ack f"
  "retransmits (fsm_sdata e c i d n f) = retransmits f"
  "flags (fsm_sdata e c i d n f) = flags f"
  "reqid (fsm_sdata e c i d n f) = reqid f"
  "term_reason (fsm_sdata e c i d n f) = term_reason f"
  "term_reason_len (fsm_sdata e c i d n f) = term_reason_len f"
  "updown (actions (fsm_sdata e c i d n f)) = updown (actions f)"
  by (simp_all add: fsm_sdata_def Let_def)

lemma send_termreq_sel [simp]:
  "state (send_termreq e f) = state f" "timers (send_termreq e f) = timers f"
  "seen_ack (send_termreq e f) = seen_ack f"
  "retransmits (send_termreq e f) = retransmits f"
  "flags (send_termreq e f) = flags f"
  "term_reason (send_termreq e f) = term_reason f"
  "term_reason_len (send_termreq e f) = term_reason_len f"
  "updown (actions (send_termreq e f)) = updown (actions f)"
  by (simp_all add: send_termreq_def Let_def)

lemma fsm_sconfreq_sel [simp]:
  "state (fsm_sconfreq e r f) = state f" "seen_ack (fsm_sconfreq e r f) = False"
  "flags (fsm_sconfreq e r f) = flags f"
  "term_reason (fsm_sconfreq e r f) = term_reason f"
  "term_reason_len (fsm_sconfreq e r f) = term_reason_len f"
  "updown (actions (fsm_sconfreq e r f)) = updown (actions f)"
  by (simp_all add: fsm_sconfreq_def Let_def)

lemma fsm_sconfreq_timers:
  "timers (fsm_sconfreq e r f) = timers f \<or> timers (fsm_sconfreq e r f) = timers f - 1 + 1"
  "alloc_always e \<Longrightarrow> timers (fsm_sconfreq e r f) = timers f - 1 + 1"
  by (simp_all add: fsm_sconfreq_def alloc_always_def Let_def)

lemma fsm_sconfreq_timers_le [simp]:
  "timers f \<le> Suc 0 \<Longrightarrow> timers (fsm_sconfreq e r f) \<le> Suc 0"
  using fsm_sconfreq_timers(1) [of e r f] by auto

lemmas fsm_handlers =
  fsm_lowerup_def fsm_lowerdown_def fsm_open_def open_restart_def fsm_close_def terminate_layer_def
  fsm_timeout_def fsm_rconfreq_def rconfreq_answer_def fsm_rconfack_def fsm_rconfnakrej_def
  fsm_rtermreq_def fsm_rtermack_def fsm_rcoderej_def fsm_protreject_def fsm_timer_fires_def

subsection \<open>Invariants\<close>

text \<open>
  A timeout is pending only in the five states that have one, and never two; when every
  \<open>pbuf_alloc\<close> succeeds it is pending in each of them, and in the two that close the
  link it is pending whatever fails.
\<close>

definition timer_bound :: "fsm \<Rightarrow> bool" where
  "timer_bound f \<longleftrightarrow> timers f \<le> 1 \<and> (timers f = 1 \<longrightarrow> timed (state f))
     \<and> (state f = PPP_FSM_CLOSING \<or> state f = PPP_FSM_STOPPING \<longrightarrow> timers f = 1)"

definition timer_exact :: "fsm \<Rightarrow> bool" where
  "timer_exact f \<longleftrightarrow> timers f = (if timed (state f) then 1 else 0)"

text \<open>Our Configure-Request has been answered once we wait for the peer's only.\<close>

definition acked :: "fsm \<Rightarrow> bool" where
  "acked f \<longleftrightarrow> (state f = PPP_FSM_ACKRCVD \<or> state f = PPP_FSM_OPENED \<longrightarrow> seen_ack f)"

text \<open>The calls of \<open>up\<close> and \<open>down\<close>, latest first, alternate, and begin with \<open>up\<close>.\<close>

fun alternating :: "fsm_action list \<Rightarrow> bool" where
  "alternating [] = True"
| "alternating [a] = (a = Cb_up)"
| "alternating (a # b # as) = (a \<noteq> b \<and> alternating (b # as))"

definition bracketed :: "fsm \<Rightarrow> bool" where
  "bracketed f \<longleftrightarrow> alternating (updown (actions f))
     \<and> (if state f = PPP_FSM_OPENED then \<exists>as. updown (actions f) = Cb_up # as
        else updown (actions f) = [] \<or> (\<exists>as. updown (actions f) = Cb_down # as))"

named_theorems timer_bound_keep and timer_exact_keep and acked_keep and bracketed_keep

lemma alternating_down [simp]: "alternating (Cb_up # as) \<Longrightarrow> alternating (Cb_down # Cb_up # as)"
  by simp

lemma alternating_up: "as = [] \<or> (\<exists>bs. as = Cb_down # bs) \<Longrightarrow> alternating (Cb_up # as) = alternating as"
  by auto


lemma timer_bound_fsm_lowerdown [timer_bound_keep]:
  "timer_bound f \<Longrightarrow> timer_bound (fsm_lowerdown e f)"
  by (cases "state f") (auto simp: timer_bound_def fsm_lowerdown_def Let_def)

lemma timer_bound_fsm_lowerup [timer_bound_keep]:
  "timer_bound f \<Longrightarrow> timer_bound (fsm_lowerup e f)"
  by (cases "state f") (auto simp: timer_bound_def fsm_lowerup_def Let_def)

lemma timer_bound_fsm_open [timer_bound_keep]:
  "timer_bound f \<Longrightarrow> timer_bound (fsm_open e f)"
  by (cases "state f") (auto simp: timer_bound_def fsm_open_def open_restart_def fsm_lowerdown_def fsm_lowerup_def Let_def)

lemma timer_bound_fsm_close [timer_bound_keep]:
  "timer_bound f \<Longrightarrow> timer_bound (fsm_close e reason f)"
  by (cases "state f") (auto simp: timer_bound_def fsm_close_def terminate_layer_def Let_def)

lemma timer_bound_fsm_timer_fires [timer_bound_keep]:
  "timer_bound f \<Longrightarrow> timer_bound (fsm_timer_fires e f)"
  by (cases "state f") (auto simp: timer_bound_def fsm_timer_fires_def fsm_timeout_def Let_def)

lemma timer_bound_fsm_rconfreq [timer_bound_keep]:
  "state f \<notin> {PPP_FSM_INITIAL, PPP_FSM_STARTING} \<Longrightarrow> timer_bound f \<Longrightarrow> timer_bound (fsm_rconfreq e i inp f)"
  by (cases "state f") (auto simp: timer_bound_def fsm_rconfreq_def rconfreq_answer_def Let_def split: prod.splits option.splits)

lemma timer_bound_fsm_rconfack [timer_bound_keep]:
  "timer_bound f \<Longrightarrow> timer_bound (fsm_rconfack e i inp f)"
  by (cases "state f") (auto simp: timer_bound_def fsm_rconfack_def Let_def split: prod.splits)

lemma timer_bound_fsm_rconfnakrej [timer_bound_keep]:
  "timer_bound f \<Longrightarrow> timer_bound (fsm_rconfnakrej e c i inp f)"
  by (cases "state f") (auto simp: timer_bound_def fsm_rconfnakrej_def Let_def split: prod.splits)

lemma timer_bound_fsm_rtermreq [timer_bound_keep]:
  "timer_bound f \<Longrightarrow> timer_bound (fsm_rtermreq e i f)"
  by (cases "state f") (auto simp: timer_bound_def fsm_rtermreq_def Let_def)

lemma timer_bound_fsm_rtermack [timer_bound_keep]:
  "timer_bound f \<Longrightarrow> timer_bound (fsm_rtermack e f)"
  by (cases "state f") (auto simp: timer_bound_def fsm_rtermack_def Let_def)

lemma timer_bound_fsm_rcoderej [timer_bound_keep]:
  "timer_bound f \<Longrightarrow> timer_bound (fsm_rcoderej inp f)"
  by (cases "state f") (auto simp: timer_bound_def fsm_rcoderej_def Let_def)

lemma timer_bound_fsm_protreject [timer_bound_keep]:
  "timer_bound f \<Longrightarrow> timer_bound (fsm_protreject e f)"
  by (cases "state f") (auto simp: timer_bound_def fsm_protreject_def terminate_layer_def Let_def)

lemma timer_bound_sdata [timer_bound_keep]:
  "timer_bound f \<Longrightarrow> timer_bound (fsm_sdata e c i d n (f\<lparr>fid := k\<rparr>))"
  by (simp add: timer_bound_def)

lemma timer_bound_fsm_input [timer_bound_keep]:
  "timer_bound f \<Longrightarrow> timer_bound (fsm_input e p f)"
  by (auto simp: fsm_input_def Let_def timer_bound_keep split: list.split option.splits)

lemma timer_bound_fsm_event [timer_bound_keep]:
  "timer_bound f \<Longrightarrow> timer_bound (fsm_event e ev f)"
  by (cases ev) (simp_all add: fsm_event_def timer_bound_keep)

lemma timer_exact_fsm_lowerdown [timer_exact_keep]:
  "alloc_always e \<Longrightarrow> timer_exact f \<Longrightarrow> timer_exact (fsm_lowerdown e f)"
  by (cases "state f") (auto simp: timer_exact_def fsm_lowerdown_def Let_def fsm_sconfreq_timers(2))

lemma timer_exact_fsm_lowerup [timer_exact_keep]:
  "alloc_always e \<Longrightarrow> timer_exact f \<Longrightarrow> timer_exact (fsm_lowerup e f)"
  by (cases "state f") (auto simp: timer_exact_def fsm_lowerup_def Let_def fsm_sconfreq_timers(2))

lemma timer_exact_fsm_open [timer_exact_keep]:
  "alloc_always e \<Longrightarrow> timer_exact f \<Longrightarrow> timer_exact (fsm_open e f)"
  by (cases "state f") (auto simp: timer_exact_def fsm_open_def open_restart_def fsm_lowerdown_def fsm_lowerup_def Let_def fsm_sconfreq_timers(2))

lemma timer_exact_fsm_close [timer_exact_keep]:
  "alloc_always e \<Longrightarrow> timer_exact f \<Longrightarrow> timer_exact (fsm_close e reason f)"
  by (cases "state f") (auto simp: timer_exact_def fsm_close_def terminate_layer_def Let_def fsm_sconfreq_timers(2))

lemma timer_exact_fsm_timer_fires [timer_exact_keep]:
  "alloc_always e \<Longrightarrow> timer_exact f \<Longrightarrow> timer_exact (fsm_timer_fires e f)"
  by (cases "state f") (auto simp: timer_exact_def fsm_timer_fires_def fsm_timeout_def Let_def fsm_sconfreq_timers(2))

lemma timer_exact_fsm_rconfreq [timer_exact_keep]:
  "state f \<notin> {PPP_FSM_INITIAL, PPP_FSM_STARTING} \<Longrightarrow> alloc_always e \<Longrightarrow> timer_exact f \<Longrightarrow> timer_exact (fsm_rconfreq e i inp f)"
  by (cases "state f") (auto simp: timer_exact_def fsm_rconfreq_def rconfreq_answer_def Let_def fsm_sconfreq_timers(2) split: prod.splits option.splits)

lemma timer_exact_fsm_rconfack [timer_exact_keep]:
  "alloc_always e \<Longrightarrow> timer_exact f \<Longrightarrow> timer_exact (fsm_rconfack e i inp f)"
  by (cases "state f") (auto simp: timer_exact_def fsm_rconfack_def Let_def fsm_sconfreq_timers(2) split: prod.splits)

lemma timer_exact_fsm_rconfnakrej [timer_exact_keep]:
  "alloc_always e \<Longrightarrow> timer_exact f \<Longrightarrow> timer_exact (fsm_rconfnakrej e c i inp f)"
  by (cases "state f") (auto simp: timer_exact_def fsm_rconfnakrej_def Let_def fsm_sconfreq_timers(2) split: prod.splits)

lemma timer_exact_fsm_rtermreq [timer_exact_keep]:
  "alloc_always e \<Longrightarrow> timer_exact f \<Longrightarrow> timer_exact (fsm_rtermreq e i f)"
  by (cases "state f") (auto simp: timer_exact_def fsm_rtermreq_def Let_def fsm_sconfreq_timers(2))

lemma timer_exact_fsm_rtermack [timer_exact_keep]:
  "alloc_always e \<Longrightarrow> timer_exact f \<Longrightarrow> timer_exact (fsm_rtermack e f)"
  by (cases "state f") (auto simp: timer_exact_def fsm_rtermack_def Let_def fsm_sconfreq_timers(2))

lemma timer_exact_fsm_rcoderej [timer_exact_keep]:
  "timer_exact f \<Longrightarrow> timer_exact (fsm_rcoderej inp f)"
  by (cases "state f") (auto simp: timer_exact_def fsm_rcoderej_def Let_def fsm_sconfreq_timers(2))

lemma timer_exact_fsm_protreject [timer_exact_keep]:
  "alloc_always e \<Longrightarrow> timer_exact f \<Longrightarrow> timer_exact (fsm_protreject e f)"
  by (cases "state f") (auto simp: timer_exact_def fsm_protreject_def terminate_layer_def Let_def fsm_sconfreq_timers(2))

lemma timer_exact_sdata [timer_exact_keep]:
  "timer_exact f \<Longrightarrow> timer_exact (fsm_sdata e c i d n (f\<lparr>fid := k\<rparr>))"
  by (simp add: timer_exact_def)

lemma timer_exact_fsm_input [timer_exact_keep]:
  "alloc_always e \<Longrightarrow> timer_exact f \<Longrightarrow> timer_exact (fsm_input e p f)"
  by (auto simp: fsm_input_def Let_def timer_exact_keep split: list.split option.splits)

lemma timer_exact_fsm_event [timer_exact_keep]:
  "alloc_always e \<Longrightarrow> timer_exact f \<Longrightarrow> timer_exact (fsm_event e ev f)"
  by (cases ev) (simp_all add: fsm_event_def timer_exact_keep)

lemma acked_fsm_lowerdown [acked_keep]:
  "acked f \<Longrightarrow> acked (fsm_lowerdown e f)"
  by (cases "state f") (auto simp: acked_def fsm_lowerdown_def Let_def)

lemma acked_fsm_lowerup [acked_keep]:
  "acked f \<Longrightarrow> acked (fsm_lowerup e f)"
  by (cases "state f") (auto simp: acked_def fsm_lowerup_def Let_def)

lemma acked_fsm_open [acked_keep]:
  "acked f \<Longrightarrow> acked (fsm_open e f)"
  by (cases "state f") (auto simp: acked_def fsm_open_def open_restart_def fsm_lowerdown_def fsm_lowerup_def Let_def)

lemma acked_fsm_close [acked_keep]:
  "acked f \<Longrightarrow> acked (fsm_close e reason f)"
  by (cases "state f") (auto simp: acked_def fsm_close_def terminate_layer_def Let_def)

lemma acked_fsm_timer_fires [acked_keep]:
  "acked f \<Longrightarrow> acked (fsm_timer_fires e f)"
  by (cases "state f") (auto simp: acked_def fsm_timer_fires_def fsm_timeout_def Let_def)

lemma acked_fsm_rconfreq [acked_keep]:
  "state f \<notin> {PPP_FSM_INITIAL, PPP_FSM_STARTING} \<Longrightarrow> acked f \<Longrightarrow> acked (fsm_rconfreq e i inp f)"
  by (cases "state f") (auto simp: acked_def fsm_rconfreq_def rconfreq_answer_def Let_def split: prod.splits option.splits)

lemma acked_fsm_rconfack [acked_keep]:
  "acked f \<Longrightarrow> acked (fsm_rconfack e i inp f)"
  by (cases "state f") (auto simp: acked_def fsm_rconfack_def Let_def split: prod.splits)

lemma acked_fsm_rconfnakrej [acked_keep]:
  "acked f \<Longrightarrow> acked (fsm_rconfnakrej e c i inp f)"
  by (cases "state f") (auto simp: acked_def fsm_rconfnakrej_def Let_def split: prod.splits)

lemma acked_fsm_rtermreq [acked_keep]:
  "acked f \<Longrightarrow> acked (fsm_rtermreq e i f)"
  by (cases "state f") (auto simp: acked_def fsm_rtermreq_def Let_def)

lemma acked_fsm_rtermack [acked_keep]:
  "acked f \<Longrightarrow> acked (fsm_rtermack e f)"
  by (cases "state f") (auto simp: acked_def fsm_rtermack_def Let_def)

lemma acked_fsm_rcoderej [acked_keep]:
  "acked f \<Longrightarrow> acked (fsm_rcoderej inp f)"
  by (cases "state f") (auto simp: acked_def fsm_rcoderej_def Let_def)

lemma acked_fsm_protreject [acked_keep]:
  "acked f \<Longrightarrow> acked (fsm_protreject e f)"
  by (cases "state f") (auto simp: acked_def fsm_protreject_def terminate_layer_def Let_def)

lemma acked_sdata [acked_keep]:
  "acked f \<Longrightarrow> acked (fsm_sdata e c i d n (f\<lparr>fid := k\<rparr>))"
  by (simp add: acked_def)

lemma acked_fsm_input [acked_keep]:
  "acked f \<Longrightarrow> acked (fsm_input e p f)"
  by (auto simp: fsm_input_def Let_def acked_keep split: list.split option.splits)

lemma acked_fsm_event [acked_keep]:
  "acked f \<Longrightarrow> acked (fsm_event e ev f)"
  by (cases ev) (simp_all add: fsm_event_def acked_keep)

lemma bracketed_fsm_lowerdown [bracketed_keep]:
  "cb_up e \<Longrightarrow> cb_down e \<Longrightarrow> bracketed f \<Longrightarrow> bracketed (fsm_lowerdown e f)"
  by (cases "state f") (auto simp: bracketed_def fsm_lowerdown_def Let_def alternating_up)

lemma bracketed_fsm_lowerup [bracketed_keep]:
  "cb_up e \<Longrightarrow> cb_down e \<Longrightarrow> bracketed f \<Longrightarrow> bracketed (fsm_lowerup e f)"
  by (cases "state f") (auto simp: bracketed_def fsm_lowerup_def Let_def alternating_up)

lemma bracketed_fsm_open [bracketed_keep]:
  "cb_up e \<Longrightarrow> cb_down e \<Longrightarrow> bracketed f \<Longrightarrow> bracketed (fsm_open e f)"
  by (cases "state f") (auto simp: bracketed_def fsm_open_def open_restart_def fsm_lowerdown_def fsm_lowerup_def Let_def alternating_up)

lemma bracketed_fsm_close [bracketed_keep]:
  "cb_up e \<Longrightarrow> cb_down e \<Longrightarrow> bracketed f \<Longrightarrow> bracketed (fsm_close e reason f)"
  by (cases "state f") (auto simp: bracketed_def fsm_close_def terminate_layer_def Let_def alternating_up)

lemma bracketed_fsm_timer_fires [bracketed_keep]:
  "cb_up e \<Longrightarrow> cb_down e \<Longrightarrow> bracketed f \<Longrightarrow> bracketed (fsm_timer_fires e f)"
  by (cases "state f") (auto simp: bracketed_def fsm_timer_fires_def fsm_timeout_def Let_def alternating_up)

lemma bracketed_fsm_rconfreq [bracketed_keep]:
  "state f \<notin> {PPP_FSM_INITIAL, PPP_FSM_STARTING} \<Longrightarrow> cb_up e \<Longrightarrow> cb_down e \<Longrightarrow> bracketed f \<Longrightarrow> bracketed (fsm_rconfreq e i inp f)"
  by (cases "state f") (auto simp: bracketed_def fsm_rconfreq_def rconfreq_answer_def Let_def alternating_up split: prod.splits option.splits)

lemma bracketed_fsm_rconfack [bracketed_keep]:
  "cb_up e \<Longrightarrow> cb_down e \<Longrightarrow> bracketed f \<Longrightarrow> bracketed (fsm_rconfack e i inp f)"
  by (cases "state f") (auto simp: bracketed_def fsm_rconfack_def Let_def alternating_up split: prod.splits)

lemma bracketed_fsm_rconfnakrej [bracketed_keep]:
  "cb_up e \<Longrightarrow> cb_down e \<Longrightarrow> bracketed f \<Longrightarrow> bracketed (fsm_rconfnakrej e c i inp f)"
  by (cases "state f") (auto simp: bracketed_def fsm_rconfnakrej_def Let_def alternating_up split: prod.splits)

lemma bracketed_fsm_rtermreq [bracketed_keep]:
  "cb_up e \<Longrightarrow> cb_down e \<Longrightarrow> bracketed f \<Longrightarrow> bracketed (fsm_rtermreq e i f)"
  by (cases "state f") (auto simp: bracketed_def fsm_rtermreq_def Let_def alternating_up)

lemma bracketed_fsm_rtermack [bracketed_keep]:
  "cb_up e \<Longrightarrow> cb_down e \<Longrightarrow> bracketed f \<Longrightarrow> bracketed (fsm_rtermack e f)"
  by (cases "state f") (auto simp: bracketed_def fsm_rtermack_def Let_def alternating_up)

lemma bracketed_fsm_rcoderej [bracketed_keep]:
  "bracketed f \<Longrightarrow> bracketed (fsm_rcoderej inp f)"
  by (cases "state f") (auto simp: bracketed_def fsm_rcoderej_def Let_def alternating_up)

lemma bracketed_fsm_protreject [bracketed_keep]:
  "cb_up e \<Longrightarrow> cb_down e \<Longrightarrow> bracketed f \<Longrightarrow> bracketed (fsm_protreject e f)"
  by (cases "state f") (auto simp: bracketed_def fsm_protreject_def terminate_layer_def Let_def alternating_up)

lemma bracketed_sdata [bracketed_keep]:
  "bracketed f \<Longrightarrow> bracketed (fsm_sdata e c i d n (f\<lparr>fid := k\<rparr>))"
  by (simp add: bracketed_def)

lemma bracketed_fsm_input [bracketed_keep]:
  "cb_up e \<Longrightarrow> cb_down e \<Longrightarrow> bracketed f \<Longrightarrow> bracketed (fsm_input e p f)"
  by (auto simp: fsm_input_def Let_def bracketed_keep split: list.split option.splits)

lemma bracketed_fsm_event [bracketed_keep]:
  "cb_up e \<Longrightarrow> cb_down e \<Longrightarrow> bracketed f \<Longrightarrow> bracketed (fsm_event e ev f)"
  by (cases ev) (simp_all add: fsm_event_def bracketed_keep)


subsection \<open>Packets written are well formed\<close>

text \<open>
  What the callbacks are relied on for: \<open>cilen\<close> is not negative and \<open>addci\<close> fills exactly the
  length it is given; and the peer's MRU has room for the header.
\<close>

definition well_behaved :: "fsm_env \<Rightarrow> bool" where
  "well_behaved e \<longleftrightarrow> 4 \<le> uint (peer_mru e)
     \<and> (\<forall>get. cb_cilen e = Some get \<longrightarrow> (\<forall>f. 0 \<le> get f))
     \<and> (\<forall>add. cb_addci e = Some add \<longrightarrow> (\<forall>f n. 0 \<le> n \<longrightarrow> int (length (add f n)) = n))"

fun framed :: "fsm_env \<Rightarrow> bytes \<Rightarrow> bool" where
  "framed e (a # c # _ # _ # code # ident # hi # lo # body) =
     (a = PPP_ALLSTATIONS \<and> c = PPP_UI
      \<and> uint hi * 256 + uint lo = 4 + int (length body) \<and> 4 + int (length body) \<le> uint (peer_mru e))"
| "framed e _ = False"

definition reason_ok :: "fsm \<Rightarrow> bool" where
  "reason_ok f \<longleftrightarrow> unat (term_reason_len f) = (case term_reason f of None \<Rightarrow> 0 | Some r \<Rightarrow> min (length r) 255)"

definition all_framed :: "fsm_env \<Rightarrow> fsm \<Rightarrow> bool" where
  "all_framed e f \<longleftrightarrow> (\<forall>p. Ppp_write p \<in> set (actions f) \<longrightarrow> framed e p)"

lemma putshort_value:
  assumes "0 \<le> n" "n < 65536"
  shows "\<exists>hi lo. putshort n = [hi, lo] \<and> uint hi * 256 + uint lo = n"
proof -
  have "uint (word_of_int (n div 256) :: u8) = n div 256"
    using assms by (simp add: uint_word_of_int_eq take_bit_eq_mod)
  moreover have "uint (word_of_int n :: u8) = n mod 256"
    by (simp add: uint_word_of_int_eq take_bit_eq_mod)
  ultimately show ?thesis
    unfolding putshort_def by (metis div_mult_mod_eq)
qed

lemma framed_packet:
  assumes "n = 4 + int (length body)" "n \<le> uint (peer_mru e)"
  shows "framed e (MAKEHEADER prot @ [code, ident] @ putshort n @ body)"
proof -
  have "n < 65536"
    using assms(2) uint_lt2p [of "peer_mru e"] by simp
  then obtain hi lo where "putshort n = [hi, lo]" "uint hi * 256 + uint lo = n"
    using putshort_value [of n] assms(1) by auto
  then show ?thesis
    using assms by (simp add: MAKEHEADER_def putshort_def)
qed

lemma all_framed_act [simp]:
  "all_framed e (act a f) \<longleftrightarrow> all_framed e f \<and> (\<forall>p. a = Ppp_write p \<longrightarrow> framed e p)"
  by (auto simp: all_framed_def)

lemma all_framed_call [simp]:
  "(\<And>p. a \<noteq> Ppp_write p) \<Longrightarrow> all_framed e (call c a f) \<longleftrightarrow> all_framed e f"
  by (simp add: call_def)

lemma all_framed_upd [simp]:
  "all_framed e (UNTIMEOUT f) = all_framed e f" "all_framed e (TIMEOUT f) = all_framed e f"
  "all_framed e (f\<lparr>state := s\<rparr>) = all_framed e f" "all_framed e (f\<lparr>fid := k\<rparr>) = all_framed e f"
  "all_framed e (f\<lparr>reqid := k\<rparr>) = all_framed e f" "all_framed e (f\<lparr>retransmits := k\<rparr>) = all_framed e f"
  "all_framed e (f\<lparr>nakloops := k\<rparr>) = all_framed e f" "all_framed e (f\<lparr>rnakloops := k\<rparr>) = all_framed e f"
  "all_framed e (f\<lparr>seen_ack := b\<rparr>) = all_framed e f" "all_framed e (f\<lparr>timers := n\<rparr>) = all_framed e f"
  "all_framed e (f\<lparr>allocs := n\<rparr>) = all_framed e f" "all_framed e (f\<lparr>term_reason := r\<rparr>) = all_framed e f"
  "all_framed e (f\<lparr>term_reason_len := k\<rparr>) = all_framed e f"
  by (simp_all add: all_framed_def UNTIMEOUT_def TIMEOUT_def Let_def)

lemma all_framed_sdata [simp]:
  assumes "well_behaved e" "0 \<le> n" "n \<le> int (length d)"
  shows "all_framed e (fsm_sdata e c i d n f) = all_framed e f"
proof -
  let ?n = "if n > uint (peer_mru e) - HEADERLEN then uint (peer_mru e) - HEADERLEN else n"
  have "framed e (MAKEHEADER (protocol f) @ [c, i] @ putshort (?n + HEADERLEN) @ take (nat ?n) d)"
    using assms by (intro framed_packet) (auto simp: well_behaved_def HEADERLEN_def)
  then show ?thesis
    by (cases "alloc_ok e (allocs f) (word_of_int (?n + HEADERLEN + PPP_HDRLEN))")
       (simp_all add: fsm_sdata_def Let_def split del: if_split)
qed

lemma all_framed_sconfreq [simp]:
  assumes "well_behaved e"
  shows "all_framed e (fsm_sconfreq e r f) = all_framed e f"
proof -
  have frame: "framed e (MAKEHEADER p @ [CONFREQ, i] @ putshort (n + HEADERLEN) @
                 (if n \<noteq> 0 then case cb_addci e of None \<Rightarrow> [] | Some add \<Rightarrow> add g n else []))"
    if "0 \<le> n" "n + 4 \<le> uint (peer_mru e)" "n \<noteq> 0 \<longrightarrow> cb_addci e \<noteq> None" for p i n g
    using that assms by (intro framed_packet) (auto simp: well_behaved_def HEADERLEN_def)
  then show ?thesis
    using assms frame [of 0]
    by (cases "cb_cilen e"; cases "cb_addci e")
       (auto simp: fsm_sconfreq_def Let_def well_behaved_def HEADERLEN_def)
qed

lemma reason_length:
  "reason_ok f \<Longrightarrow> int (unat (term_reason_len f)) \<le> int (length (case term_reason f of Some r \<Rightarrow> r | None \<Rightarrow> []))"
  by (auto simp: reason_ok_def split: option.splits)

lemma all_framed_termreq [simp]:
  assumes "well_behaved e" "reason_ok f"
  shows "all_framed e (send_termreq e f) = all_framed e f"
  using assms reason_length [OF assms(2)] by (simp add: send_termreq_def Let_def)

named_theorems reason_keep and framed_keep

lemma reason_len_word: "unat (word_of_nat (min n 255) :: u8) = min n 255"
  by (simp add: unat_of_nat)

lemma reason_ok_closed:
  "reason_ok (f\<lparr>term_reason := r, term_reason_len := case r of None \<Rightarrow> 0 | Some s \<Rightarrow> word_of_nat (min (length s) 255)\<rparr>)"
  by (cases r) (simp_all add: reason_ok_def reason_len_word)

lemma reason_ok_upd [simp]:
  "reason_ok (UNTIMEOUT f) = reason_ok f" "reason_ok (TIMEOUT f) = reason_ok f"
  "reason_ok (call c a f) = reason_ok f" "reason_ok (f\<lparr>retransmits := k\<rparr>) = reason_ok f"
  "reason_ok (f\<lparr>state := s\<rparr>) = reason_ok f" "reason_ok (f\<lparr>timers := n\<rparr>) = reason_ok f"
  by (simp_all add: reason_ok_def)

lemma reason_sdata: "reason_ok f \<Longrightarrow> reason_ok (fsm_sdata e c i d n (f\<lparr>fid := k\<rparr>))"
  by (simp add: reason_ok_def)

lemma reason_fsm_lowerdown [reason_keep]:
  "reason_ok f \<Longrightarrow> reason_ok (fsm_lowerdown e f)"
  by (cases "state f") (auto simp: fsm_lowerdown_def Let_def reason_ok_def)

lemma reason_fsm_lowerup [reason_keep]:
  "reason_ok f \<Longrightarrow> reason_ok (fsm_lowerup e f)"
  by (cases "state f") (auto simp: fsm_lowerup_def Let_def reason_ok_def)

lemma reason_fsm_open [reason_keep]:
  "reason_ok f \<Longrightarrow> reason_ok (fsm_open e f)"
  by (cases "state f") (auto simp: fsm_open_def open_restart_def fsm_lowerdown_def fsm_lowerup_def Let_def reason_ok_def)

lemma reason_fsm_close [reason_keep]:
  "reason_ok f \<Longrightarrow> reason_ok (fsm_close e reason f)"
  by (cases "state f") (auto simp: fsm_close_def terminate_layer_def Let_def reason_ok_def reason_len_word split: option.splits)

lemma reason_fsm_timer_fires [reason_keep]:
  "reason_ok f \<Longrightarrow> reason_ok (fsm_timer_fires e f)"
  by (cases "state f") (auto simp: fsm_timer_fires_def fsm_timeout_def Let_def reason_ok_def)

lemma reason_fsm_rconfreq [reason_keep]:
  "reason_ok f \<Longrightarrow> reason_ok (fsm_rconfreq e i inp f)"
  by (cases "state f") (auto simp: fsm_rconfreq_def rconfreq_answer_def Let_def reason_ok_def split: prod.splits option.splits)

lemma reason_fsm_rconfack [reason_keep]:
  "reason_ok f \<Longrightarrow> reason_ok (fsm_rconfack e i inp f)"
  by (cases "state f") (auto simp: fsm_rconfack_def Let_def reason_ok_def split: prod.splits)

lemma reason_fsm_rconfnakrej [reason_keep]:
  "reason_ok f \<Longrightarrow> reason_ok (fsm_rconfnakrej e c i inp f)"
  by (cases "state f") (auto simp: fsm_rconfnakrej_def Let_def reason_ok_def split: prod.splits)

lemma reason_fsm_rtermreq [reason_keep]:
  "reason_ok f \<Longrightarrow> reason_ok (fsm_rtermreq e i f)"
  by (cases "state f") (auto simp: fsm_rtermreq_def Let_def reason_ok_def)

lemma reason_fsm_rtermack [reason_keep]:
  "reason_ok f \<Longrightarrow> reason_ok (fsm_rtermack e f)"
  by (cases "state f") (auto simp: fsm_rtermack_def Let_def reason_ok_def)

lemma reason_fsm_rcoderej [reason_keep]:
  "reason_ok f \<Longrightarrow> reason_ok (fsm_rcoderej inp f)"
  by (cases "state f") (auto simp: fsm_rcoderej_def Let_def reason_ok_def)

lemma reason_fsm_protreject [reason_keep]:
  "reason_ok f \<Longrightarrow> reason_ok (fsm_protreject e f)"
  by (cases "state f") (auto simp: fsm_protreject_def terminate_layer_def Let_def reason_ok_def)

lemma reason_fsm_input [reason_keep]:
  "reason_ok f \<Longrightarrow> reason_ok (fsm_input e p f)"
  by (auto simp: fsm_input_def Let_def reason_keep reason_sdata split: list.split option.splits)

lemma reason_fsm_event [reason_keep]:
  "reason_ok f \<Longrightarrow> reason_ok (fsm_event e ev f)"
  by (cases ev) (simp_all add: fsm_event_def reason_keep)

lemma framed_fsm_lowerdown [framed_keep]:
  "well_behaved e \<Longrightarrow> reason_ok f \<Longrightarrow> all_framed e f \<Longrightarrow> all_framed e (fsm_lowerdown e f)"
  by (cases "state f") (auto simp: fsm_lowerdown_def Let_def)

lemma framed_fsm_lowerup [framed_keep]:
  "well_behaved e \<Longrightarrow> reason_ok f \<Longrightarrow> all_framed e f \<Longrightarrow> all_framed e (fsm_lowerup e f)"
  by (cases "state f") (auto simp: fsm_lowerup_def Let_def)

lemma framed_fsm_open [framed_keep]:
  "well_behaved e \<Longrightarrow> reason_ok f \<Longrightarrow> all_framed e f \<Longrightarrow> all_framed e (fsm_open e f)"
  by (cases "state f") (auto simp: fsm_open_def open_restart_def fsm_lowerdown_def fsm_lowerup_def Let_def)

lemma framed_fsm_close [framed_keep]:
  "well_behaved e \<Longrightarrow> reason_ok f \<Longrightarrow> all_framed e f \<Longrightarrow> all_framed e (fsm_close e reason f)"
  by (cases "state f") (auto simp: fsm_close_def terminate_layer_def Let_def reason_ok_closed)

lemma framed_fsm_timer_fires [framed_keep]:
  "well_behaved e \<Longrightarrow> reason_ok f \<Longrightarrow> all_framed e f \<Longrightarrow> all_framed e (fsm_timer_fires e f)"
  by (cases "state f") (auto simp: fsm_timer_fires_def fsm_timeout_def Let_def)

lemma framed_fsm_rconfreq [framed_keep]:
  "well_behaved e \<Longrightarrow> reason_ok f \<Longrightarrow> all_framed e f \<Longrightarrow> all_framed e (fsm_rconfreq e i inp f)"
  by (cases "state f") (auto simp: fsm_rconfreq_def rconfreq_answer_def Let_def split: prod.splits option.splits)

lemma framed_fsm_rconfack [framed_keep]:
  "well_behaved e \<Longrightarrow> reason_ok f \<Longrightarrow> all_framed e f \<Longrightarrow> all_framed e (fsm_rconfack e i inp f)"
  by (cases "state f") (auto simp: fsm_rconfack_def Let_def split: prod.splits)

lemma framed_fsm_rconfnakrej [framed_keep]:
  "well_behaved e \<Longrightarrow> reason_ok f \<Longrightarrow> all_framed e f \<Longrightarrow> all_framed e (fsm_rconfnakrej e c i inp f)"
  by (cases "state f") (auto simp: fsm_rconfnakrej_def Let_def split: prod.splits)

lemma framed_fsm_rtermreq [framed_keep]:
  "well_behaved e \<Longrightarrow> reason_ok f \<Longrightarrow> all_framed e f \<Longrightarrow> all_framed e (fsm_rtermreq e i f)"
  by (cases "state f") (auto simp: fsm_rtermreq_def Let_def)

lemma framed_fsm_rtermack [framed_keep]:
  "well_behaved e \<Longrightarrow> reason_ok f \<Longrightarrow> all_framed e f \<Longrightarrow> all_framed e (fsm_rtermack e f)"
  by (cases "state f") (auto simp: fsm_rtermack_def Let_def)

lemma framed_fsm_rcoderej [framed_keep]:
  "well_behaved e \<Longrightarrow> reason_ok f \<Longrightarrow> all_framed e f \<Longrightarrow> all_framed e (fsm_rcoderej inp f)"
  by (cases "state f") (auto simp: fsm_rcoderej_def Let_def)

lemma framed_fsm_protreject [framed_keep]:
  "well_behaved e \<Longrightarrow> reason_ok f \<Longrightarrow> all_framed e f \<Longrightarrow> all_framed e (fsm_protreject e f)"
  by (cases "state f") (auto simp: fsm_protreject_def terminate_layer_def Let_def)

lemma framed_fsm_input [framed_keep]:
  "well_behaved e \<Longrightarrow> reason_ok f \<Longrightarrow> all_framed e f \<Longrightarrow> all_framed e (fsm_input e p f)"
  by (auto simp: fsm_input_def Let_def framed_keep HEADERLEN_def split: list.split option.splits)

lemma framed_fsm_event [framed_keep]:
  "well_behaved e \<Longrightarrow> reason_ok f \<Longrightarrow> all_framed e f \<Longrightarrow> all_framed e (fsm_event e ev f)"
  by (cases ev) (simp_all add: fsm_event_def framed_keep)

subsection \<open>Every reachable state\<close>

lemma fsm_stepD: "fsm_step e f g \<Longrightarrow> \<exists>ev. g = fsm_event e ev f"
  by (erule fsm_stepE) blast+

lemma fsm_start_sel:
  assumes "fsm_start e f"
  shows "state f = PPP_FSM_INITIAL" "timers f = 0" "actions f = []" "term_reason f = None"
    "term_reason_len f = 0" "seen_ack f = False"
  using assms by (auto simp: fsm_start_def fsm_init_def)

lemma fsm_start_invs:
  assumes "fsm_start e f"
  shows "timer_bound f" "timer_exact f" "acked f" "bracketed f" "reason_ok f" "all_framed e' f"
  using fsm_start_sel [OF assms]
  by (simp_all add: timer_bound_def timer_exact_def acked_def bracketed_def reason_ok_def all_framed_def)

interpretation timer_pending: invariant_of "fsm_start e" "fsm_step e" timer_bound for e
  by unfold_locales (auto simp: fsm_start_invs dest!: fsm_stepD intro: timer_bound_fsm_event)

interpretation timer_running:
  invariant_of "fsm_start e" "fsm_step e" "\<lambda>f. alloc_always e \<longrightarrow> timer_exact f" for e
  by unfold_locales (auto simp: fsm_start_invs dest!: fsm_stepD intro: timer_exact_fsm_event)

interpretation request_acked: invariant_of "fsm_start e" "fsm_step e" acked for e
  by unfold_locales (auto simp: fsm_start_invs dest!: fsm_stepD intro: acked_fsm_event)

interpretation up_and_down:
  invariant_of "fsm_start e" "fsm_step e" "\<lambda>f. cb_up e \<longrightarrow> cb_down e \<longrightarrow> bracketed f" for e
  by unfold_locales (auto simp: fsm_start_invs dest!: fsm_stepD intro: bracketed_fsm_event)

interpretation written: invariant_with "fsm_start e" "fsm_step e" reason_ok
  "\<lambda>f. well_behaved e \<longrightarrow> all_framed e f" for e
  by unfold_locales
    (auto simp: fsm_start_invs dest!: fsm_stepD intro: reason_fsm_event framed_fsm_event)

subsection \<open>Giving up after the last retransmission\<close>

definition write_count :: "fsm \<Rightarrow> nat" where
  "write_count f = length (filter (\<lambda>a. case a of Ppp_write _ \<Rightarrow> True | _ \<Rightarrow> False) (actions f))"

lemma write_count_upd [simp]:
  "write_count (f\<lparr>state := s\<rparr>) = write_count f" "write_count (f\<lparr>timers := n\<rparr>) = write_count f"
  "write_count (f\<lparr>retransmits := k\<rparr>) = write_count f" "write_count (f\<lparr>seen_ack := b\<rparr>) = write_count f"
  "write_count (f\<lparr>fid := k\<rparr>) = write_count f" "write_count (f\<lparr>reqid := k\<rparr>) = write_count f"
  "write_count (f\<lparr>allocs := n\<rparr>) = write_count f"
  "write_count (f\<lparr>nakloops := k\<rparr>) = write_count f" "write_count (f\<lparr>rnakloops := k\<rparr>) = write_count f"
  "write_count (TIMEOUT f) = write_count f"
  "write_count (act (Ppp_write p) f) = Suc (write_count f)"
  "(\<And>p. a \<noteq> Ppp_write p) \<Longrightarrow> write_count (call c a f) = write_count f"
  by (auto simp: write_count_def TIMEOUT_def UNTIMEOUT_def Let_def split: fsm_action.splits)

lemma termreq_writes: "alloc_always e \<Longrightarrow> write_count (send_termreq e f) = Suc (write_count f)"
  by (simp add: send_termreq_def fsm_sdata_def Let_def alloc_always_def)

definition closing :: "fsm_state \<Rightarrow> bool" where
  "closing s \<longleftrightarrow> s = PPP_FSM_CLOSING \<or> s = PPP_FSM_STOPPING"

definition negotiating :: "fsm_state \<Rightarrow> bool" where
  "negotiating s \<longleftrightarrow> s = PPP_FSM_REQSENT \<or> s = PPP_FSM_ACKRCVD \<or> s = PPP_FSM_ACKSENT"

lemma closing_timer:
  assumes "closing (state f)" "retransmits f \<noteq> 0" "timers f = 1"
  shows "state (fsm_timer_fires e f) = state f" "timers (fsm_timer_fires e f) = 1"
    "unat (retransmits (fsm_timer_fires e f)) = unat (retransmits f) - 1"
    "alloc_always e \<Longrightarrow> write_count (fsm_timer_fires e f) = Suc (write_count f)"
  using assms by (auto simp: fsm_timer_fires_def fsm_timeout_def closing_def Let_def unat_pred termreq_writes)

lemma sconfreq_resend:
  assumes "alloc_always e" "negotiating (state f)"
  shows "retransmits (fsm_sconfreq e True f) = retransmits f - 1"
    "write_count (fsm_sconfreq e True f) = Suc (write_count f)"
  using assms by (auto simp: fsm_sconfreq_def Let_def alloc_always_def negotiating_def)

lemma negotiating_timer:
  assumes "alloc_always e" "negotiating (state f)" "retransmits f \<noteq> 0" "timers f = 1"
  shows "negotiating (state (fsm_timer_fires e f))" "timers (fsm_timer_fires e f) = 1"
    "unat (retransmits (fsm_timer_fires e f)) = unat (retransmits f) - 1"
    "write_count (fsm_timer_fires e f) = Suc (write_count f)"
  using assms fsm_sconfreq_timers(2) [OF assms(1)]
  by (auto simp: fsm_timer_fires_def fsm_timeout_def negotiating_def Let_def unat_pred sconfreq_resend)

lemma closing_rounds:
  assumes "alloc_always e" "closing (state f)" "timers f = 1" "k \<le> unat (retransmits f)"
  shows "state ((fsm_timer_fires e ^^ k) f) = state f \<and> timers ((fsm_timer_fires e ^^ k) f) = 1
    \<and> unat (retransmits ((fsm_timer_fires e ^^ k) f)) = unat (retransmits f) - k
    \<and> write_count ((fsm_timer_fires e ^^ k) f) = write_count f + k"
  using assms(4)
proof (induction k)
  case 0
  then show ?case using assms(3) by simp
next
  case (Suc k)
  let ?g = "(fsm_timer_fires e ^^ k) f"
  have g: "state ?g = state f" "timers ?g = 1" "unat (retransmits ?g) = unat (retransmits f) - k"
    "write_count ?g = write_count f + k"
    using Suc by auto
  then have "retransmits ?g \<noteq> 0"
    using Suc.prems by auto
  then show ?case
    using g assms closing_timer [of ?g e] by auto
qed

lemma negotiating_rounds:
  assumes "alloc_always e" "negotiating (state f)" "timers f = 1" "k \<le> unat (retransmits f)"
  shows "negotiating (state ((fsm_timer_fires e ^^ k) f)) \<and> timers ((fsm_timer_fires e ^^ k) f) = 1
    \<and> unat (retransmits ((fsm_timer_fires e ^^ k) f)) = unat (retransmits f) - k
    \<and> write_count ((fsm_timer_fires e ^^ k) f) = write_count f + k"
  using assms(4)
proof (induction k)
  case 0
  then show ?case using assms(2,3) by simp
next
  case (Suc k)
  let ?g = "(fsm_timer_fires e ^^ k) f"
  have g: "negotiating (state ?g)" "timers ?g = 1" "unat (retransmits ?g) = unat (retransmits f) - k"
    "write_count ?g = write_count f + k"
    using Suc by auto
  then have "retransmits ?g \<noteq> 0"
    using Suc.prems by auto
  then show ?case
    using g assms negotiating_timer [of e ?g] by auto
qed

lemma reachable_timers:
  assumes "reachable (fsm_start e) (fsm_step e) f" "alloc_always e" "timed (state f)"
  shows "timers f = 1"
  using timer_running.reachable_inv [OF assms(1)] assms by (simp add: timer_exact_def)

subsection \<open>A concrete automaton\<close>

definition plain_env :: fsm_env where
  "plain_env = \<lparr>fsm_max_conf_req_transmits = 3, fsm_max_term_transmits = 2, fsm_max_nak_loops = 5,
     peer_mru = 1500, alloc_ok = (\<lambda>n s. True), cb_resetci = False, cb_cilen = None, cb_addci = None,
     cb_ackci = None, cb_nakci = None, cb_rejci = None, cb_reqci = None, cb_up = True, cb_down = True,
     cb_starting = True, cb_finished = True, cb_retransmit = False, cb_extcode = None\<rparr>"

definition plain_fsm :: fsm where
  "plain_fsm = \<lparr>term_reason = None, seen_ack = False, protocol = 0xc021, state = PPP_FSM_INITIAL,
     flags = 0, fid = 0, reqid = 0, retransmits = 0, nakloops = 0, rnakloops = 0, maxnakloops = 5,
     term_reason_len = 0, timers = 0, allocs = 0, actions = []\<rparr>"

lemma plain_start: "fsm_start e plain_fsm" if "fsm_max_nak_loops e = 5"
  unfolding fsm_start_def plain_fsm_def fsm_init_def
  by (rule exI [of _ "0xc021"], rule exI [of _ 0]) (simp add: that)

fun fsm_run :: "fsm_env \<Rightarrow> fsm_event list \<Rightarrow> fsm \<Rightarrow> fsm" where
  "fsm_run e [] f = f"
| "fsm_run e (ev # evs) f = fsm_run e evs (fsm_event e ev f)"

fun no_timeout :: "fsm_event list \<Rightarrow> bool" where
  "no_timeout [] = True"
| "no_timeout (Ev_timeout # _) = False"
| "no_timeout (_ # evs) = no_timeout evs"

lemma fsm_run_reachable:
  "reachable (fsm_start e) (fsm_step e) f \<Longrightarrow> no_timeout evs \<Longrightarrow>
   reachable (fsm_start e) (fsm_step e) (fsm_run e evs f)"
proof (induction evs arbitrary: f)
  case (Cons ev evs)
  then show ?case
    by (cases ev) (auto intro: reachable_step fsm_step.event)
qed simp

lemma plain_reachable:
  "fsm_max_nak_loops e = 5 \<Longrightarrow> no_timeout evs \<Longrightarrow>
   reachable (fsm_start e) (fsm_step e) (fsm_run e evs plain_fsm)"
  by (intro fsm_run_reachable reachable_init plain_start)

text \<open>The packets that open the link: our request acknowledged, the peer's request with no option.\<close>

definition plain_ack :: bytes where "plain_ack = [2, 1, 0, 4]"
definition plain_req :: bytes where "plain_req = [1, 7, 0, 4]"

subsection \<open>Properties\<close>

text \<open>In every state the automaton can reach, whatever fails, at most one timeout is pending, it is
pending only in a state that waits for an answer, and the two closing states always have theirs.\<close>

theorem fsm_timer_safe:
  assumes "reachable (fsm_start e) (fsm_step e) f"
  shows "timers f \<le> 1 \<and> (timers f = 1 \<longrightarrow> timed (state f))
    \<and> (state f = PPP_FSM_CLOSING \<or> state f = PPP_FSM_STOPPING \<longrightarrow> timers f = 1)"
  using timer_pending.reachable_inv [OF assms] by (simp add: timer_bound_def)

theorem fsm_timer_safe_witness:
  "timers (fsm_run plain_env [Ev_lowerup, Ev_open, Ev_close None] plain_fsm) \<le> 1
   \<and> state (fsm_run plain_env [Ev_lowerup, Ev_open, Ev_close None] plain_fsm) = PPP_FSM_CLOSING"
  using fsm_timer_safe [OF plain_reachable, of plain_env "[Ev_lowerup, Ev_open, Ev_close None]"]
  by (simp add: plain_env_def) code_simp



text \<open>When the pbuf of the first Configure-Request cannot be had, opening the link leaves the
automaton waiting in REQSENT with nothing sent and no timeout pending, so nothing is ever resent.\<close>

theorem fsm_open_without_pbuf_not_timed:
  assumes "reachable (fsm_start e) (fsm_step e) f" and "state f = PPP_FSM_CLOSED"
    and "flags f AND OPT_SILENT = 0" and "\<forall>n s. \<not> alloc_ok e n s"
  shows "state (fsm_open e f) = PPP_FSM_REQSENT \<and> timers (fsm_open e f) = 0
    \<and> write_count (fsm_open e f) = write_count f"
proof -
  have "timers f = 0"
    using timer_pending.reachable_inv [OF assms(1)] assms(2) by (auto simp: timer_bound_def)
  then show ?thesis
    using assms(2-4) by (simp add: fsm_open_def fsm_sconfreq_def Let_def)
qed

theorem fsm_open_without_pbuf_not_timed_witness:
  "timers (fsm_open (plain_env\<lparr>alloc_ok := \<lambda>n s. False\<rparr>) (fsm_run plain_env [Ev_lowerup] plain_fsm)) = 0"
proof -
  let ?e = "plain_env\<lparr>alloc_ok := \<lambda>n s. False\<rparr>" and ?f = "fsm_run plain_env [Ev_lowerup] plain_fsm"
  have run: "fsm_run ?e [Ev_lowerup] plain_fsm = ?f"
    by (simp add: fsm_event_def fsm_lowerup_def plain_fsm_def)
  have "reachable (fsm_start ?e) (fsm_step ?e) ?f"
    using plain_reachable [of ?e "[Ev_lowerup]"] unfolding run by (simp add: plain_env_def)
  moreover have "state ?f = PPP_FSM_CLOSED" "flags ?f AND OPT_SILENT = 0"
    by code_simp+
  ultimately show ?thesis
    using fsm_open_without_pbuf_not_timed [of ?e ?f] by simp
qed



text \<open>Once our request has been acknowledged, a further Configure-Ack, -Nak or -Reject changes
nothing at all, in ACKRCVD as in OPENED: the restart that the code has for these states is never taken.\<close>

theorem fsm_acked_ignores_answers:
  assumes "reachable (fsm_start e) (fsm_step e) f"
    and "state f = PPP_FSM_ACKRCVD \<or> state f = PPP_FSM_OPENED"
    and "code = CONFACK \<or> code = CONFNAK \<or> code = CONFREJ"
  shows "fsm_input e (code # rest) f = f"
proof -
  have "seen_ack f"
    using request_acked.reachable_inv [OF assms(1)] assms(2) by (simp add: acked_def)
  then show ?thesis
    using assms(3)
    by (auto simp: fsm_input_def fsm_rconfack_def fsm_rconfnakrej_def Let_def CONFREQ_def CONFACK_def
        CONFNAK_def CONFREJ_def split: list.split)
qed

theorem fsm_acked_ignores_answers_witness:
  "fsm_input plain_env (CONFACK # [1, 0, 4]) (fsm_run plain_env [Ev_lowerup, Ev_open, Ev_input plain_ack] plain_fsm)
     = fsm_run plain_env [Ev_lowerup, Ev_open, Ev_input plain_ack] plain_fsm"
proof -
  let ?evs = "[Ev_lowerup, Ev_open, Ev_input plain_ack]"
  have "state (fsm_run plain_env ?evs plain_fsm) = PPP_FSM_ACKRCVD"
    by code_simp
  then show ?thesis
    using fsm_acked_ignores_answers [OF plain_reachable, of plain_env ?evs CONFACK "[1, 0, 4]"]
    by (simp add: plain_env_def)
qed

text \<open>Every packet the automaton writes, in any run, is framed correctly: its length field is the
length of the packet that follows, and it is never longer than the MRU of the peer.\<close>

theorem fsm_packets_framed:
  assumes "reachable (fsm_start e) (fsm_step e) f" and "well_behaved e"
    and "Ppp_write p \<in> set (actions f)"
  shows "framed e p"
  using written.reachable_more [OF assms(1)] assms(2,3) by (simp add: all_framed_def)

theorem fsm_packets_framed_witness:
  "framed plain_env [0xff, 0x03, 0xc0, 0x21, 5, 2, 0, 7, 98, 121, 101]"
proof -
  let ?evs = "[Ev_lowerup, Ev_open, Ev_close (Some [98, 121, 101])]"
  have "Ppp_write [0xff, 0x03, 0xc0, 0x21, 5, 2, 0, 7, 98, 121, 101]
      \<in> set (actions (fsm_run plain_env ?evs plain_fsm))"
    by code_simp
  then show ?thesis
    by (intro fsm_packets_framed [OF plain_reachable, of plain_env ?evs])
      (simp_all add: plain_env_def well_behaved_def)
qed

text \<open>A link that is closing and hears nothing gives up: the pending timeout fires once more than there
are retransmissions left, each firing but the last sends one Terminate-Request, and the last
one ends in CLOSED with no timeout pending.\<close>

theorem fsm_closing_gives_up:
  assumes "reachable (fsm_start e) (fsm_step e) f" and "alloc_always e" and "state f = PPP_FSM_CLOSING"
  defines "n \<equiv> unat (retransmits f)"
  shows "(\<forall>k\<le>n. timers ((fsm_timer_fires e ^^ k) f) = 1 \<and> state ((fsm_timer_fires e ^^ k) f) = PPP_FSM_CLOSING)
    \<and> state ((fsm_timer_fires e ^^ Suc n) f) = PPP_FSM_CLOSED \<and> timers ((fsm_timer_fires e ^^ Suc n) f) = 0
    \<and> write_count ((fsm_timer_fires e ^^ Suc n) f) = write_count f + n"
proof -
  have rounds: "state ((fsm_timer_fires e ^^ k) f) = PPP_FSM_CLOSING \<and> timers ((fsm_timer_fires e ^^ k) f) = 1
      \<and> unat (retransmits ((fsm_timer_fires e ^^ k) f)) = n - k
      \<and> write_count ((fsm_timer_fires e ^^ k) f) = write_count f + k" if "k \<le> n" for k
    using closing_rounds [OF assms(2), of f k] that assms(3) reachable_timers [OF assms(1,2)]
    by (simp add: closing_def n_def)
  moreover have "retransmits ((fsm_timer_fires e ^^ n) f) = 0"
    using rounds [of n] by (simp add: unat_eq_zero)
  ultimately show ?thesis
    using rounds [of n] by (simp add: fsm_timer_fires_def [of e "(_ ^^ _) _"] fsm_timeout_def)
qed

theorem fsm_closing_gives_up_witness:
  "state ((fsm_timer_fires plain_env ^^ 2) (fsm_run plain_env [Ev_lowerup, Ev_open, Ev_close None] plain_fsm))
     = PPP_FSM_CLOSED"
proof -
  let ?f = "fsm_run plain_env [Ev_lowerup, Ev_open, Ev_close None] plain_fsm"
  have f: "state ?f = PPP_FSM_CLOSING" "unat (retransmits ?f) = 1"
    by code_simp+
  show ?thesis
    using fsm_closing_gives_up [OF plain_reachable, of plain_env "[Ev_lowerup, Ev_open, Ev_close None]"] f
    by (simp add: plain_env_def alloc_always_def numeral_2_eq_2 del: fsm_run.simps)
qed

text \<open>A negotiation that hears nothing more ends as well: after the retransmissions that are left, one
Configure-Request each, the last timeout stops the automaton.\<close>

theorem fsm_negotiation_gives_up:
  assumes "reachable (fsm_start e) (fsm_step e) f" and "alloc_always e"
    and "state f = PPP_FSM_REQSENT \<or> state f = PPP_FSM_ACKRCVD \<or> state f = PPP_FSM_ACKSENT"
  defines "n \<equiv> unat (retransmits f)"
  shows "(\<forall>k\<le>n. timers ((fsm_timer_fires e ^^ k) f) = 1)
    \<and> state ((fsm_timer_fires e ^^ Suc n) f) = PPP_FSM_STOPPED \<and> timers ((fsm_timer_fires e ^^ Suc n) f) = 0
    \<and> write_count ((fsm_timer_fires e ^^ Suc n) f) = write_count f + n"
proof -
  have "negotiating (state f)" "timers f = 1"
    using assms(3) reachable_timers [OF assms(1,2)] by (auto simp: negotiating_def)
  note rounds = negotiating_rounds [OF assms(2) this, folded n_def]
  let ?g = "(fsm_timer_fires e ^^ n) f"
  have last: "negotiating (state ?g)" "timers ?g = 1" "retransmits ?g = 0" "write_count ?g = write_count f + n"
    using rounds [of n] by (auto simp: unat_eq_zero)
  then have "state (fsm_timer_fires e ?g) = PPP_FSM_STOPPED \<and> timers (fsm_timer_fires e ?g) = 0
      \<and> write_count (fsm_timer_fires e ?g) = write_count f + n"
    by (auto simp: fsm_timer_fires_def fsm_timeout_def negotiating_def)
  then show ?thesis
    using rounds by simp
qed

theorem fsm_negotiation_gives_up_witness:
  "state ((fsm_timer_fires plain_env ^^ 3) (fsm_run plain_env [Ev_lowerup, Ev_open] plain_fsm)) = PPP_FSM_STOPPED"
proof -
  let ?f = "fsm_run plain_env [Ev_lowerup, Ev_open] plain_fsm"
  have f: "state ?f = PPP_FSM_REQSENT" "unat (retransmits ?f) = 2"
    by code_simp+
  show ?thesis
    using fsm_negotiation_gives_up [OF plain_reachable, of plain_env "[Ev_lowerup, Ev_open]"] f
    by (simp add: plain_env_def alloc_always_def numeral_3_eq_3 numeral_2_eq_2 del: fsm_run.simps)
qed

text \<open>A request of ours that the peer acknowledges and a request of the peer that we accept open the
link, in whichever order the two packets arrive, and the layer above is told once.\<close>

theorem fsm_opens_in_either_order:
  assumes "state f = PPP_FSM_REQSENT" and "\<not> seen_ack f" and "cb_up e"
    and "ack = CONFACK # reqid f # hi # lo # opts" and "uint hi * 256 + uint lo = int (length ack)"
    and "req = CONFREQ # i # hi' # lo' # opts'" and "uint hi' * 256 + uint lo' = int (length req)"
    and "case cb_ackci e of None \<Rightarrow> opts = [] | Some ackci \<Rightarrow> \<forall>g. ackci g opts"
    and "case cb_reqci e of None \<Rightarrow> opts' = [] | Some reqci \<Rightarrow> \<forall>g b. fst (reqci g opts' b) = CONFACK"
  shows "state (fsm_input e req (fsm_input e ack f)) = PPP_FSM_OPENED
    \<and> state (fsm_input e ack (fsm_input e req f)) = PPP_FSM_OPENED
    \<and> updown (actions (fsm_input e req (fsm_input e ack f))) = Cb_up # updown (actions f)
    \<and> updown (actions (fsm_input e ack (fsm_input e req f))) = Cb_up # updown (actions f)"
proof -
  let ?acked = "\<lambda>g. (case cb_ackci e of Some ackci \<Rightarrow> ackci g opts | None \<Rightarrow> opts = [])"
  have ack: "fsm_input e ack g = (if state g = PPP_FSM_INITIAL \<or> state g = PPP_FSM_STARTING then g
      else fsm_rconfack e (reqid f) opts g)" for g
    using assms(4,5) by (simp add: fsm_input_def HEADERLEN_def CONFREQ_def CONFACK_def Let_def)
  have req: "fsm_input e req g = (if state g = PPP_FSM_INITIAL \<or> state g = PPP_FSM_STARTING then g
      else fsm_rconfreq e i opts' g)" for g
    using assms(6,7) by (simp add: fsm_input_def HEADERLEN_def Let_def)
  have acked: "?acked g" for g
    using assms(8) by (auto split: option.splits)
  obtain reply where reply: "(case cb_reqci e of Some reqci \<Rightarrow> reqci g opts' b
      | None \<Rightarrow> if opts' \<noteq> [] then (CONFREJ, opts') else (CONFACK, opts')) = (CONFACK, reply g b)" for g b
    using assms(9) by (auto split: option.splits simp: prod_eq_iff)
  show ?thesis
    using assms(1-3) acked
    by (simp add: ack req fsm_rconfack_def fsm_rconfreq_def rconfreq_answer_def reply Let_def)
qed

theorem fsm_opens_in_either_order_witness:
  "state (fsm_input plain_env plain_ack (fsm_input plain_env plain_req
     (fsm_run plain_env [Ev_lowerup, Ev_open] plain_fsm))) = PPP_FSM_OPENED"
proof -
  let ?f = "fsm_run plain_env [Ev_lowerup, Ev_open] plain_fsm"
  have f: "state ?f = PPP_FSM_REQSENT" "\<not> seen_ack ?f" "reqid ?f = 1"
    by code_simp+
  show ?thesis
    using fsm_opens_in_either_order [of ?f plain_env plain_ack 0 4 "[]" plain_req 7 0 4 "[]"] f
    by (simp add: plain_ack_def plain_req_def plain_env_def CONFACK_def CONFREQ_def del: fsm_run.simps)
qed

end
