(* ===== verification/Timers.thy ===== *)
theory Timers
  imports Machine "HOL-Library.Multiset"
begin

text \<open>
  The timeouts of the stack (\<open>core/timers.c\<close>): a list of pending timeouts in which each
  entry holds the time that remains after the entry before it, the registration and removal
  of a timeout, the cyclic timers of the protocols, and the loop of the tcpip thread that
  waits for a message and calls the handlers that become due. The abstract view of the list
  is the queue of its absolute deadlines.
\<close>

subsection \<open>Data\<close>

text \<open>The handlers registered by this file, by name, and those of other files by a number.\<close>

datatype sys_timeout_handler =
    Tcpip_tcp_timer | Ip_reass_timer | Arp_timer | Dhcp_timer_coarse | Dhcp_timer_fine
  | Autoip_timer | Igmp_timer | Dns_timer | Nd6_timer | Ip6_reass_timer | Mld6_timer
  | Other_handler nat

text \<open>An entry of the list; a handler may be \<open>NULL\<close>, the argument is an address.\<close>

record sys_timeo =
  time :: u32
  h :: "sys_timeout_handler option"
  arg :: nat

text \<open>
  The variables of the file, the number of entries asked of the memory pool so far, and the
  state of the rest of the stack.
\<close>

record 'w timers =
  next_timeout :: "sys_timeo list"
  tcpip_tcp_timer_active :: bool
  memp_count :: nat
  timeouts_last_time :: u32
  world :: 'w

text \<open>
  What the file calls: whether the n-th request to the pool \<open>MEMP_SYS_TIMEOUT\<close> succeeds,
  the timer functions of the protocols, the handlers of other files, the mailbox
  (\<open>sys_arch_mbox_fetch\<close> with its timeout; \<open>SYS_ARCH_TIMEOUT\<close> when no message came), the
  clock \<open>sys_now\<close>, and the options of the build.
\<close>

record 'w timer_env =
  memp_ok :: "nat \<Rightarrow> bool"
  tcp_pcbs :: "'w \<Rightarrow> bool"
  tmr :: "sys_timeout_handler \<Rightarrow> 'w timers \<Rightarrow> 'w timers"
  other :: "nat \<Rightarrow> nat \<Rightarrow> 'w timers \<Rightarrow> 'w timers"
  sys_now :: "'w \<Rightarrow> u32"
  mbox_fetch :: "u32 \<Rightarrow> 'w \<Rightarrow> u32 \<times> 'w"
  LWIP_IPV4 :: bool
  IP_REASSEMBLY :: bool
  LWIP_ARP :: bool
  LWIP_DHCP :: bool
  LWIP_AUTOIP :: bool
  LWIP_IGMP :: bool
  LWIP_DNS :: bool
  LWIP_IPV6 :: bool
  LWIP_IPV6_REASS :: bool
  LWIP_IPV6_MLD :: bool

definition SYS_ARCH_TIMEOUT :: u32 where "SYS_ARCH_TIMEOUT = 0xffffffff"

definition TCP_TMR_INTERVAL :: u32 where "TCP_TMR_INTERVAL = 250"
definition IP_TMR_INTERVAL :: u32 where "IP_TMR_INTERVAL = 1000"
definition ARP_TMR_INTERVAL :: u32 where "ARP_TMR_INTERVAL = 1000"
definition DHCP_COARSE_TIMER_MSECS :: u32 where "DHCP_COARSE_TIMER_MSECS = 60 * 1000"
definition DHCP_FINE_TIMER_MSECS :: u32 where "DHCP_FINE_TIMER_MSECS = 500"
definition AUTOIP_TMR_INTERVAL :: u32 where "AUTOIP_TMR_INTERVAL = 100"
definition IGMP_TMR_INTERVAL :: u32 where "IGMP_TMR_INTERVAL = 100"
definition DNS_TMR_INTERVAL :: u32 where "DNS_TMR_INTERVAL = 1000"
definition ND6_TMR_INTERVAL :: u32 where "ND6_TMR_INTERVAL = 1000"
definition IP6_REASS_TMR_INTERVAL :: u32 where "IP6_REASS_TMR_INTERVAL = 1000"
definition MLD6_TMR_INTERVAL :: u32 where "MLD6_TMR_INTERVAL = 100"

subsection \<open>The list of timeouts\<close>

text \<open>The loop that looks for the place of an entry behind the first one.\<close>

fun timeout_loop :: "sys_timeo \<Rightarrow> sys_timeo list \<Rightarrow> sys_timeo list" where
  "timeout_loop timeout [] = []"
| "timeout_loop timeout (t # ts) =
     (let timeout = timeout\<lparr>time := time timeout - time t\<rparr>
      in case ts of
           [] \<Rightarrow> [t, timeout]
         | n # rest \<Rightarrow>
             if time n > time timeout
             then t # timeout # n\<lparr>time := time n - time timeout\<rparr> # rest
             else t # timeout_loop timeout ts)"

text \<open>
  The entry is linked into the list; \<open>diff\<close> is the time since the list was last served,
  which is counted when the stack runs without an operating system (\<open>NO_SYS\<close>) and is 0
  with one.
\<close>

definition link_timeout :: "u32 \<Rightarrow> u32 \<Rightarrow> sys_timeo \<Rightarrow> sys_timeo list \<Rightarrow> sys_timeo list" where
  "link_timeout diff msecs timeout ts =
     (let timeout = timeout\<lparr>time := msecs + diff\<rparr>
      in case ts of
           [] \<Rightarrow> [timeout]
         | n # rest \<Rightarrow>
             if time n > msecs
             then timeout # n\<lparr>time := time n - msecs\<rparr> # rest
             else timeout_loop timeout ts)"

definition sys_timeout ::
  "'w timer_env \<Rightarrow> u32 \<Rightarrow> sys_timeout_handler option \<Rightarrow> nat \<Rightarrow> 'w timers \<Rightarrow> 'w timers" where
  "sys_timeout e msecs handler a s =
     (let ok = memp_ok e (memp_count s); s = s\<lparr>memp_count := memp_count s + 1\<rparr>
      in if \<not> ok then s
         else s\<lparr>next_timeout := link_timeout 0 msecs \<lparr>time = 0, h = handler, arg = a\<rparr> (next_timeout s)\<rparr>)"

fun untimeout_loop :: "sys_timeout_handler option \<Rightarrow> nat \<Rightarrow> sys_timeo list \<Rightarrow> sys_timeo list" where
  "untimeout_loop handler a [] = []"
| "untimeout_loop handler a (t # ts) =
     (if h t = handler \<and> arg t = a
      then (case ts of [] \<Rightarrow> [] | n # rest \<Rightarrow> n\<lparr>time := time n + time t\<rparr> # rest)
      else t # untimeout_loop handler a ts)"

definition sys_untimeout :: "sys_timeout_handler option \<Rightarrow> nat \<Rightarrow> 'w timers \<Rightarrow> 'w timers" where
  "sys_untimeout handler a s = s\<lparr>next_timeout := untimeout_loop handler a (next_timeout s)\<rparr>"

subsection \<open>The cyclic timers\<close>

definition tcpip_tcp_timer :: "'w timer_env \<Rightarrow> 'w timers \<Rightarrow> 'w timers" where
  "tcpip_tcp_timer e s =
     (let s = tmr e Tcpip_tcp_timer s
      in if tcp_pcbs e (world s) then sys_timeout e TCP_TMR_INTERVAL (Some Tcpip_tcp_timer) 0 s
         else s\<lparr>tcpip_tcp_timer_active := False\<rparr>)"

definition tcp_timer_needed :: "'w timer_env \<Rightarrow> 'w timers \<Rightarrow> 'w timers" where
  "tcp_timer_needed e s =
     (if \<not> tcpip_tcp_timer_active s \<and> tcp_pcbs e (world s)
      then sys_timeout e TCP_TMR_INTERVAL (Some Tcpip_tcp_timer) 0 (s\<lparr>tcpip_tcp_timer_active := True\<rparr>)
      else s)"

definition ip_reass_timer :: "'w timer_env \<Rightarrow> 'w timers \<Rightarrow> 'w timers" where
  "ip_reass_timer e s = sys_timeout e IP_TMR_INTERVAL (Some Ip_reass_timer) 0 (tmr e Ip_reass_timer s)"

definition arp_timer :: "'w timer_env \<Rightarrow> 'w timers \<Rightarrow> 'w timers" where
  "arp_timer e s = sys_timeout e ARP_TMR_INTERVAL (Some Arp_timer) 0 (tmr e Arp_timer s)"

definition dhcp_timer_coarse :: "'w timer_env \<Rightarrow> 'w timers \<Rightarrow> 'w timers" where
  "dhcp_timer_coarse e s =
     sys_timeout e DHCP_COARSE_TIMER_MSECS (Some Dhcp_timer_coarse) 0 (tmr e Dhcp_timer_coarse s)"

definition dhcp_timer_fine :: "'w timer_env \<Rightarrow> 'w timers \<Rightarrow> 'w timers" where
  "dhcp_timer_fine e s =
     sys_timeout e DHCP_FINE_TIMER_MSECS (Some Dhcp_timer_fine) 0 (tmr e Dhcp_timer_fine s)"

definition autoip_timer :: "'w timer_env \<Rightarrow> 'w timers \<Rightarrow> 'w timers" where
  "autoip_timer e s = sys_timeout e AUTOIP_TMR_INTERVAL (Some Autoip_timer) 0 (tmr e Autoip_timer s)"

definition igmp_timer :: "'w timer_env \<Rightarrow> 'w timers \<Rightarrow> 'w timers" where
  "igmp_timer e s = sys_timeout e IGMP_TMR_INTERVAL (Some Igmp_timer) 0 (tmr e Igmp_timer s)"

definition dns_timer :: "'w timer_env \<Rightarrow> 'w timers \<Rightarrow> 'w timers" where
  "dns_timer e s = sys_timeout e DNS_TMR_INTERVAL (Some Dns_timer) 0 (tmr e Dns_timer s)"

definition nd6_timer :: "'w timer_env \<Rightarrow> 'w timers \<Rightarrow> 'w timers" where
  "nd6_timer e s = sys_timeout e ND6_TMR_INTERVAL (Some Nd6_timer) 0 (tmr e Nd6_timer s)"

definition ip6_reass_timer :: "'w timer_env \<Rightarrow> 'w timers \<Rightarrow> 'w timers" where
  "ip6_reass_timer e s =
     sys_timeout e IP6_REASS_TMR_INTERVAL (Some Ip6_reass_timer) 0 (tmr e Ip6_reass_timer s)"

definition mld6_timer :: "'w timer_env \<Rightarrow> 'w timers \<Rightarrow> 'w timers" where
  "mld6_timer e s = sys_timeout e MLD6_TMR_INTERVAL (Some Mld6_timer) 0 (tmr e Mld6_timer s)"

definition sys_timeouts_init :: "'w timer_env \<Rightarrow> 'w timers \<Rightarrow> 'w timers" where
  "sys_timeouts_init e s =
     (let start = (\<lambda>present msecs handler s. if present then sys_timeout e msecs (Some handler) 0 s else s);
          s = start (LWIP_IPV4 e \<and> IP_REASSEMBLY e) IP_TMR_INTERVAL Ip_reass_timer s;
          s = start (LWIP_IPV4 e \<and> LWIP_ARP e) ARP_TMR_INTERVAL Arp_timer s;
          s = start (LWIP_IPV4 e \<and> LWIP_DHCP e) DHCP_COARSE_TIMER_MSECS Dhcp_timer_coarse s;
          s = start (LWIP_IPV4 e \<and> LWIP_DHCP e) DHCP_FINE_TIMER_MSECS Dhcp_timer_fine s;
          s = start (LWIP_IPV4 e \<and> LWIP_AUTOIP e) AUTOIP_TMR_INTERVAL Autoip_timer s;
          s = start (LWIP_IPV4 e \<and> LWIP_IGMP e) IGMP_TMR_INTERVAL Igmp_timer s;
          s = start (LWIP_DNS e) DNS_TMR_INTERVAL Dns_timer s;
          s = start (LWIP_IPV6 e) ND6_TMR_INTERVAL Nd6_timer s;
          s = start (LWIP_IPV6 e \<and> LWIP_IPV6_REASS e) IP6_REASS_TMR_INTERVAL Ip6_reass_timer s;
          s = start (LWIP_IPV6 e \<and> LWIP_IPV6_MLD e) MLD6_TMR_INTERVAL Mld6_timer s
      in s)"

subsection \<open>The loop of the tcpip thread\<close>

text \<open>\<open>if (handler != NULL) handler(arg);\<close>\<close>

fun call_handler :: "'w timer_env \<Rightarrow> sys_timeout_handler option \<Rightarrow> nat \<Rightarrow> 'w timers \<Rightarrow> 'w timers" where
  "call_handler e None a s = s"
| "call_handler e (Some Tcpip_tcp_timer) a s = tcpip_tcp_timer e s"
| "call_handler e (Some Ip_reass_timer) a s = ip_reass_timer e s"
| "call_handler e (Some Arp_timer) a s = arp_timer e s"
| "call_handler e (Some Dhcp_timer_coarse) a s = dhcp_timer_coarse e s"
| "call_handler e (Some Dhcp_timer_fine) a s = dhcp_timer_fine e s"
| "call_handler e (Some Autoip_timer) a s = autoip_timer e s"
| "call_handler e (Some Igmp_timer) a s = igmp_timer e s"
| "call_handler e (Some Dns_timer) a s = dns_timer e s"
| "call_handler e (Some Nd6_timer) a s = nd6_timer e s"
| "call_handler e (Some Ip6_reass_timer) a s = ip6_reass_timer e s"
| "call_handler e (Some Mld6_timer) a s = mld6_timer e s"
| "call_handler e (Some (Other_handler n)) a s = other e n a s"

text \<open>The wait of one round, and the two ways it ends.\<close>

definition fetch_wait :: "'w timer_env \<Rightarrow> 'w timers \<Rightarrow> u32 \<times> 'w timers" where
  "fetch_wait e s =
     (case next_timeout s of
        [] \<Rightarrow> let (t, w) = mbox_fetch e 0 (world s) in (t, s\<lparr>world := w\<rparr>)
      | n # _ \<Rightarrow>
          if time n > 0 then let (t, w) = mbox_fetch e (time n) (world s) in (t, s\<lparr>world := w\<rparr>)
          else (SYS_ARCH_TIMEOUT, s))"

definition fetch_expired :: "'w timer_env \<Rightarrow> 'w timers \<Rightarrow> 'w timers" where
  "fetch_expired e s =
     (let tmptimeout = hd (next_timeout s); s = s\<lparr>next_timeout := tl (next_timeout s)\<rparr>
      in call_handler e (h tmptimeout) (arg tmptimeout) s)"

definition fetch_message :: "u32 \<Rightarrow> 'w timers \<Rightarrow> 'w timers" where
  "fetch_message time_needed s =
     (case next_timeout s of
        [] \<Rightarrow> s
      | n # rest \<Rightarrow>
          s\<lparr>next_timeout := n\<lparr>time := if time_needed < time n then time n - time_needed else 0\<rparr> # rest\<rparr>)"

text \<open>\<open>None\<close>: the loop never gets a message.\<close>

partial_function (option) sys_timeouts_mbox_fetch :: "'w timer_env \<Rightarrow> 'w timers \<Rightarrow> 'w timers option" where
  "sys_timeouts_mbox_fetch e s =
     (let (time_needed, s') = fetch_wait e s
      in if next_timeout s = [] then Some s'
         else if time_needed = SYS_ARCH_TIMEOUT then sys_timeouts_mbox_fetch e (fetch_expired e s')
         else Some (fetch_message time_needed s'))"

subsection \<open>Without an operating system\<close>

text \<open>The variants of the file for \<open>NO_SYS\<close>: the list is served by a call from the main loop.\<close>

definition sys_timeout_nosys ::
  "'w timer_env \<Rightarrow> u32 \<Rightarrow> sys_timeout_handler option \<Rightarrow> nat \<Rightarrow> 'w timers \<Rightarrow> 'w timers" where
  "sys_timeout_nosys e msecs handler a s =
     (let ok = memp_ok e (memp_count s); s = s\<lparr>memp_count := memp_count s + 1\<rparr>
      in if \<not> ok then s
         else let now = sys_now e (world s);
                  diff = (if next_timeout s = [] then 0 else now - timeouts_last_time s);
                  s = (if next_timeout s = [] then s\<lparr>timeouts_last_time := now\<rparr> else s)
           in s\<lparr>next_timeout := link_timeout diff msecs \<lparr>time = 0, h = handler, arg = a\<rparr> (next_timeout s)\<rparr>)"

partial_function (option) check_loop :: "'w timer_env \<Rightarrow> u32 \<Rightarrow> 'w timers \<Rightarrow> 'w timers option" where
  "check_loop e diff s =
     (case next_timeout s of
        [] \<Rightarrow> Some s
      | n # rest \<Rightarrow>
          if time n \<le> diff
          then check_loop e (diff - time n)
                 (call_handler e (h n) (arg n)
                    (s\<lparr>timeouts_last_time := timeouts_last_time s + time n, next_timeout := rest\<rparr>))
          else Some s)"

definition sys_check_timeouts :: "'w timer_env \<Rightarrow> 'w timers \<Rightarrow> 'w timers option" where
  "sys_check_timeouts e s =
     (if next_timeout s \<noteq> [] then check_loop e (sys_now e (world s) - timeouts_last_time s) s else Some s)"

definition sys_restart_timeouts :: "'w timer_env \<Rightarrow> 'w timers \<Rightarrow> 'w timers" where
  "sys_restart_timeouts e s = s\<lparr>timeouts_last_time := sys_now e (world s)\<rparr>"

definition sys_timeouts_sleeptime :: "'w timer_env \<Rightarrow> 'w timers \<Rightarrow> u32" where
  "sys_timeouts_sleeptime e s =
     (case next_timeout s of
        [] \<Rightarrow> 0xffffffff
      | n # _ \<Rightarrow>
          let diff = sys_now e (world s) - timeouts_last_time s
          in if diff > time n then 0 else time n - diff)"

subsection \<open>Deadlines\<close>

text \<open>The deadlines of a list that was last served at time \<open>c\<close>, and the queue operations on them.\<close>

type_synonym due = "nat \<times> sys_timeout_handler option \<times> nat"

fun deadlines :: "nat \<Rightarrow> sys_timeo list \<Rightarrow> due list" where
  "deadlines c [] = []"
| "deadlines c (t # ts) = (c + unat (time t), h t, arg t) # deadlines (c + unat (time t)) ts"

definition insert_due :: "due \<Rightarrow> due list \<Rightarrow> due list" where
  "insert_due d ds = takeWhile (\<lambda>x. fst x \<le> fst d) ds @ d # dropWhile (\<lambda>x. fst x \<le> fst d) ds"

fun remove_due :: "sys_timeout_handler option \<times> nat \<Rightarrow> due list \<Rightarrow> due list" where
  "remove_due k [] = []"
| "remove_due k (d # ds) = (if snd d = k then ds else d # remove_due k ds)"

text \<open>Every deadline is within the range of the counter.\<close>

definition horizon :: "sys_timeo list \<Rightarrow> bool" where
  "horizon ts \<longleftrightarrow> (\<forall>d\<in>set (deadlines 0 ts). fst d < 2 ^ 32)"

lemma length_deadlines [simp]: "length (deadlines c ts) = length ts"
  by (induction ts arbitrary: c) auto

lemma deadlines_Nil_iff [simp]: "deadlines c ts = [] \<longleftrightarrow> ts = []" "[] = deadlines c ts \<longleftrightarrow> ts = []"
  by (cases ts; simp)+

lemma deadlines_shift: "deadlines c ts = map (apfst ((+) c)) (deadlines 0 ts)"
proof (induction ts arbitrary: c)
  case (Cons t ts)
  show ?case
    using Cons [of "c + unat (time t)"] Cons [of "unat (time t)"] by (auto simp: ac_simps)
qed simp

lemma deadlines_ge: "d \<in> set (deadlines c ts) \<Longrightarrow> c \<le> fst d"
  by (induction ts arbitrary: c) force+

lemma sorted_deadlines: "sorted (map fst (deadlines c ts))"
  by (induction ts arbitrary: c) (auto dest: deadlines_ge)

lemma insert_due_Cons:
  "fst x \<le> fst d \<Longrightarrow> insert_due d (x # ds) = x # insert_due d ds"
  "\<not> fst x \<le> fst d \<Longrightarrow> insert_due d (x # ds) = d # x # ds"
  "insert_due d [] = [d]"
  by (simp_all add: insert_due_def)

lemma set_insert_due [simp]: "set (insert_due d ds) = insert d (set ds)"
  by (induction ds) (auto simp: insert_due_def)

lemma set_remove_due: "set (remove_due k ds) \<subseteq> set ds"
  by (induction ds) auto

lemma unat_le: "a \<le> b \<Longrightarrow> unat (a :: u32) \<le> unat b"
  by (simp add: word_le_nat_alt)

lemma unat_minus_le: "b \<le> a \<Longrightarrow> unat (a - b :: u32) = unat a - unat b"
  by (simp add: unat_sub_nowrap word_le_nat_alt)

lemma deadlines_timeout_loop:
  assumes "time t \<le> time timeout"
  shows "deadlines c (timeout_loop timeout (t # ts)) =
    insert_due (c + unat (time timeout), h timeout, arg timeout) (deadlines c (t # ts))"
  using assms
proof (induction ts arbitrary: c t timeout)
  case Nil
  then show ?case
    by (simp add: insert_due_Cons unat_minus_le word_le_nat_alt)
next
  case (Cons n ts)
  let ?rest = "timeout\<lparr>time := time timeout - time t\<rparr>"
  have t: "unat (time t) \<le> unat (time timeout)"
    using Cons.prems by (simp add: word_le_nat_alt)
  show ?case
  proof (cases "time n > time ?rest")
    case True
    then show ?thesis
      using t Cons.prems
      by (simp add: insert_due_Cons unat_minus_le word_less_nat_alt less_imp_le word_le_nat_alt ac_simps)
  next
    case False
    then have "deadlines (c + unat (time t)) (timeout_loop ?rest (n # ts)) =
        insert_due (c + unat (time t) + unat (time timeout - time t), h timeout, arg timeout)
          (deadlines (c + unat (time t)) (n # ts))"
      using Cons.IH [of n ?rest "c + unat (time t)"] by (simp add: not_less)
    then show ?thesis
      using t False Cons.prems by (simp add: insert_due_Cons unat_minus_le)
  qed
qed

lemma deadlines_link_timeout:
  "deadlines c (link_timeout 0 msecs timeout ts) = insert_due (c + unat msecs, h timeout, arg timeout) (deadlines c ts)"
proof (cases ts)
  case Nil
  then show ?thesis by (simp add: link_timeout_def insert_due_Cons)
next
  case (Cons n rest)
  show ?thesis
  proof (cases "time n > msecs")
    case True
    then show ?thesis
      using Cons by (simp add: link_timeout_def insert_due_Cons unat_minus_le less_imp_le word_less_nat_alt word_le_nat_alt)
  next
    case False
    then show ?thesis
      using Cons False deadlines_timeout_loop [of n "timeout\<lparr>time := msecs\<rparr>" c rest]
      by (auto simp: link_timeout_def Let_def not_less simp del: timeout_loop.simps)
  qed
qed

lemma horizon_link: "horizon ts \<Longrightarrow> horizon (link_timeout 0 msecs timeout ts)"
  using unsigned_less [of msecs, where 'a = nat]
  by (simp add: horizon_def deadlines_link_timeout)

lemma deadlines_untimeout:
  "\<forall>d\<in>set (deadlines c ts). fst d < 2 ^ 32 \<Longrightarrow>
   deadlines c (untimeout_loop handler a ts) = remove_due (handler, a) (deadlines c ts)"
proof (induction ts arbitrary: c)
  case (Cons t ts)
  show ?case
  proof (cases "h t = handler \<and> arg t = a")
    case match: True
    show ?thesis
    proof (cases ts)
      case second: (Cons n rest)
      have "c + unat (time t) + unat (time n) < 2 ^ 32"
        using Cons.prems unfolding second by simp
      then have "unat (time n + time t) = unat (time n) + unat (time t)"
        by (intro unat_add_nowrap) simp
      then show ?thesis
        using match second by (simp add: ac_simps)
    qed (use match in simp)
  next
    case False
    moreover have "deadlines (c + unat (time t)) (untimeout_loop handler a ts) =
        remove_due (handler, a) (deadlines (c + unat (time t)) ts)"
      by (rule Cons.IH) (use Cons.prems in simp)
    ultimately show ?thesis
      by auto
  qed
qed simp

lemma horizon_untimeout: "horizon ts \<Longrightarrow> horizon (untimeout_loop handler a ts)"
  using set_remove_due by (fastforce simp: horizon_def deadlines_untimeout)

subsection \<open>The contract of the timeouts\<close>

text \<open>
  What the clients rely on: registering adds one pending entry and removing takes away one
  of the same handler and argument, whatever the other entries are. Cancelling and
  registering again, as the clients that keep one timeout do, leaves exactly one.
\<close>

locale timeout_service =
  fixes pending :: "'q \<Rightarrow> 'k multiset" and set_timeout :: "'k \<Rightarrow> 'q \<Rightarrow> 'q" and cancel :: "'k \<Rightarrow> 'q \<Rightarrow> 'q"
  assumes pending_set: "pending (set_timeout k q) = add_mset k (pending q)"
    and pending_cancel: "pending (cancel k q) = pending q - {#k#}"
begin

lemma count_set: "count (pending (set_timeout k q)) j = count (pending q) j + (if j = k then 1 else 0)"
  by (simp add: pending_set)

lemma count_cancel: "count (pending (cancel k q)) j = count (pending q) j - (if j = k then 1 else 0)"
  by (simp add: pending_cancel)

lemma restart_keeps_others: "j \<noteq> k \<Longrightarrow> count (pending (set_timeout k (cancel k q))) j = count (pending q) j"
  by (simp add: count_set count_cancel)

lemma restart_single: "count (pending q) k \<le> 1 \<Longrightarrow> count (pending (set_timeout k (cancel k q))) k = 1"
  by (simp add: count_set count_cancel)

end

definition pending :: "sys_timeo list \<Rightarrow> (sys_timeout_handler option \<times> nat) multiset" where
  "pending ts = mset (map (\<lambda>t. (h t, arg t)) ts)"

lemma pending_deadlines: "pending ts = image_mset snd (mset (deadlines c ts))"
  by (induction ts arbitrary: c) (simp_all add: pending_def)

lemma mset_insert_due [simp]: "mset (insert_due d ds) = add_mset d (mset ds)"
  by (induction ds) (auto simp: insert_due_def)

lemma pending_link: "pending (link_timeout 0 msecs timeout ts) = add_mset (h timeout, arg timeout) (pending ts)"
  unfolding pending_deadlines [of _ 0] deadlines_link_timeout by simp

lemma pending_untimeout: "pending (untimeout_loop handler a ts) = pending ts - {#(handler, a)#}"
proof (induction ts)
  case (Cons t ts)
  then show ?case
    by (cases ts) (auto simp: pending_def diff_add_mset_swap)
qed (simp add: pending_def)

interpretation timeouts: timeout_service "\<lambda>s. pending (next_timeout s)"
  "\<lambda>(handler, a) s. s\<lparr>next_timeout := link_timeout 0 msecs \<lparr>time = 0, h = handler, arg = a\<rparr> (next_timeout s)\<rparr>"
  "\<lambda>(handler, a). sys_untimeout handler a" for msecs
  by unfold_locales (auto simp: pending_link pending_untimeout sys_untimeout_def)

subsection \<open>Rounds of the tcpip thread\<close>

definition memp_always :: "'w timer_env \<Rightarrow> bool" where
  "memp_always e \<longleftrightarrow> (\<forall>n. memp_ok e n)"

lemma next_timeout_sys_timeout:
  "memp_always e \<Longrightarrow> next_timeout (sys_timeout e msecs handler a s) =
     link_timeout 0 msecs \<lparr>time = 0, h = handler, arg = a\<rparr> (next_timeout s)"
  by (simp add: sys_timeout_def memp_always_def Let_def)

text \<open>A round: the wait, and the expiry of the first timeout or the arrival of a message.\<close>

inductive timer_round :: "'w timer_env \<Rightarrow> 'w timers \<Rightarrow> 'w timers \<Rightarrow> bool" for e :: "'w timer_env" where
  expired: "next_timeout s \<noteq> [] \<Longrightarrow> fetch_wait e s = (SYS_ARCH_TIMEOUT, s') \<Longrightarrow>
     timer_round e s (fetch_expired e s')"
| message: "fetch_wait e s = (d, s') \<Longrightarrow> d \<noteq> SYS_ARCH_TIMEOUT \<or> next_timeout s = [] \<Longrightarrow>
     timer_round e s (fetch_message d s')"

inductive_cases timer_roundE: "timer_round e s t"

lemma fetch_wait_list: "fetch_wait e s = (d, s') \<Longrightarrow> next_timeout s' = next_timeout s"
  by (auto simp: fetch_wait_def Let_def split: list.splits prod.splits if_splits)

text \<open>The timers that run for ever, and the assumption that the other code leaves them alone.\<close>

definition cyclic :: "'w timer_env \<Rightarrow> sys_timeout_handler set" where
  "cyclic e =
     (if LWIP_IPV4 e \<and> IP_REASSEMBLY e then {Ip_reass_timer} else {})
     \<union> (if LWIP_IPV4 e \<and> LWIP_ARP e then {Arp_timer} else {})
     \<union> (if LWIP_IPV4 e \<and> LWIP_DHCP e then {Dhcp_timer_coarse, Dhcp_timer_fine} else {})
     \<union> (if LWIP_IPV4 e \<and> LWIP_AUTOIP e then {Autoip_timer} else {})
     \<union> (if LWIP_IPV4 e \<and> LWIP_IGMP e then {Igmp_timer} else {})
     \<union> (if LWIP_DNS e then {Dns_timer} else {})
     \<union> (if LWIP_IPV6 e then {Nd6_timer} else {})
     \<union> (if LWIP_IPV6 e \<and> LWIP_IPV6_REASS e then {Ip6_reass_timer} else {})
     \<union> (if LWIP_IPV6 e \<and> LWIP_IPV6_MLD e then {Mld6_timer} else {})"

definition handlers :: "sys_timeo list \<Rightarrow> sys_timeout_handler option multiset" where
  "handlers ts = image_mset fst (pending ts)"

definition leaves_cyclic :: "'w timer_env \<Rightarrow> bool" where
  "leaves_cyclic e \<longleftrightarrow> (\<forall>c\<in>cyclic e. \<forall>s.
     (\<forall>k. count (handlers (next_timeout (tmr e k s))) (Some c) = count (handlers (next_timeout s)) (Some c))
     \<and> (\<forall>n a. count (handlers (next_timeout (other e n a s))) (Some c) = count (handlers (next_timeout s)) (Some c)))"

definition each_pending_once :: "'w timer_env \<Rightarrow> 'w timers \<Rightarrow> bool" where
  "each_pending_once e s \<longleftrightarrow> (\<forall>c\<in>cyclic e. count (handlers (next_timeout s)) (Some c) = 1)"

lemma handlers_simps [simp]:
  "handlers [] = {#}" "handlers (t # ts) = add_mset (h t) (handlers ts)"
  "handlers (link_timeout 0 msecs t ts) = add_mset (h t) (handlers ts)"
  by (simp_all add: handlers_def pending_link) (simp_all add: pending_def)

lemma handlers_sys_timeout [simp]:
  "memp_always e \<Longrightarrow> handlers (next_timeout (sys_timeout e msecs k a s)) = add_mset k (handlers (next_timeout s))"
  by (simp add: next_timeout_sys_timeout)

lemma count_call_handler:
  assumes "leaves_cyclic e" "memp_always e" "c \<in> cyclic e"
  shows "count (handlers (next_timeout (call_handler e k a s))) (Some c) =
    count (handlers (next_timeout s)) (Some c) + (if k = Some c then 1 else 0)"
proof -
  have tmr: "count (handlers (next_timeout (tmr e j s))) (Some c) = count (handlers (next_timeout s)) (Some c)"
    and other: "count (handlers (next_timeout (other e n a s))) (Some c) = count (handlers (next_timeout s)) (Some c)"
    for j n using assms by (auto simp: leaves_cyclic_def)
  have c: "c \<noteq> Tcpip_tcp_timer" "c \<noteq> Other_handler n" for n
    using assms(3) by (auto simp: cyclic_def split: if_splits)
  show ?thesis
  proof (cases k)
    case (Some j)
    then show ?thesis
      using c assms(2) tmr other
      by (cases j)
        (auto simp: tcpip_tcp_timer_def ip_reass_timer_def arp_timer_def dhcp_timer_coarse_def
          dhcp_timer_fine_def autoip_timer_def igmp_timer_def dns_timer_def nd6_timer_def
          ip6_reass_timer_def mld6_timer_def Let_def)
  qed simp
qed

lemma each_pending_once_round:
  assumes "leaves_cyclic e" "memp_always e" "each_pending_once e s" "timer_round e s t"
  shows "each_pending_once e t"
  using assms(4)
proof (rule timer_roundE)
  fix s'
  assume s': "next_timeout s \<noteq> []" "fetch_wait e s = (SYS_ARCH_TIMEOUT, s')" "t = fetch_expired e s'"
  then obtain n rest where "next_timeout s' = n # rest" "next_timeout s = n # rest"
    using fetch_wait_list by (metis list.exhaust)
  then show ?thesis
    using assms(3) count_call_handler [OF assms(1,2)]
    by (auto simp: each_pending_once_def fetch_expired_def s'(3))
next
  fix d s'
  assume s': "fetch_wait e s = (d, s')" "t = fetch_message d s'"
  have "handlers (next_timeout t) = handlers (next_timeout s')"
    by (auto simp: s'(2) fetch_message_def split: list.split)
  then show ?thesis
    using assms(3) fetch_wait_list [OF s'(1)] by (simp add: each_pending_once_def)
qed

lemma each_pending_once_init:
  assumes "memp_always e" "next_timeout s = []"
  shows "each_pending_once e (sys_timeouts_init e s)"
  using assms by (simp add: each_pending_once_def sys_timeouts_init_def cyclic_def Let_def)

interpretation cyclic_timers: invariant_of "\<lambda>s. \<exists>s0. next_timeout s0 = [] \<and> s = sys_timeouts_init e s0"
  "timer_round e" "\<lambda>s. leaves_cyclic e \<longrightarrow> memp_always e \<longrightarrow> each_pending_once e s" for e
  by unfold_locales (use each_pending_once_init each_pending_once_round in blast)+

subsection \<open>A small stack\<close>

text \<open>The options of this build, a mailbox that delivers a message after 3 ms, and no effects.\<close>

definition quiet_env :: "unit timer_env" where
  "quiet_env = \<lparr>memp_ok = (\<lambda>n. True), tcp_pcbs = (\<lambda>w. False), tmr = (\<lambda>k s. s), other = (\<lambda>n a s. s),
     sys_now = (\<lambda>w. 5), mbox_fetch = (\<lambda>t w. (3, w)),
     LWIP_IPV4 = True, IP_REASSEMBLY = False, LWIP_ARP = True, LWIP_DHCP = True, LWIP_AUTOIP = False,
     LWIP_IGMP = True, LWIP_DNS = False, LWIP_IPV6 = False, LWIP_IPV6_REASS = False, LWIP_IPV6_MLD = False\<rparr>"

definition empty_timers :: "unit timers" where
  "empty_timers = \<lparr>next_timeout = [], tcpip_tcp_timer_active = False, memp_count = 0,
     timeouts_last_time = 0, world = ()\<rparr>"

lemma quiet_env_sel [simp]:
  "memp_always quiet_env" "leaves_cyclic quiet_env" "mbox_fetch quiet_env t w = (3, w)"
  "memp_ok quiet_env n" "sys_now quiet_env w = 5" "tcp_pcbs quiet_env w = False"
  by (simp_all add: quiet_env_def memp_always_def leaves_cyclic_def)

lemma quiet_env_cyclic: "cyclic quiet_env = {Arp_timer, Dhcp_timer_coarse, Dhcp_timer_fine, Igmp_timer}"
  by (auto simp: cyclic_def quiet_env_def)

definition build_timers :: "unit timers" where
  "build_timers = sys_timeouts_init quiet_env empty_timers"

lemma build_timers_list:
  "map (\<lambda>t. (time t, h t)) (next_timeout build_timers) =
     [(100, Some Igmp_timer), (400, Some Dhcp_timer_fine), (500, Some Arp_timer), (59000, Some Dhcp_timer_coarse)]"
  by code_simp

lemma horizon_build_timers: "horizon (next_timeout build_timers)"
proof -
  have empty: "horizon (next_timeout empty_timers)"
    by (simp add: horizon_def empty_timers_def)
  have add: "horizon (next_timeout s) \<Longrightarrow> horizon (next_timeout (sys_timeout quiet_env m k a s))" for m k a s
    by (simp add: next_timeout_sys_timeout horizon_link)
  show ?thesis
    unfolding build_timers_def sys_timeouts_init_def Let_def by (simp add: add empty)
qed

subsection \<open>Properties\<close>

text \<open>C25: Registering a timeout is an insertion into the queue of deadlines: the new deadline, \<open>msecs\<close> after the
time the list counts from, goes behind those that are not later, and no other deadline moves.\<close>

theorem sys_timeout_inserts:
  assumes "memp_ok e (memp_count s)" and "horizon (next_timeout s)"
  shows "deadlines c (next_timeout (sys_timeout e msecs k a s)) =
      insert_due (c + unat msecs, k, a) (deadlines c (next_timeout s))
    \<and> sorted (map fst (deadlines c (next_timeout (sys_timeout e msecs k a s))))
    \<and> horizon (next_timeout (sys_timeout e msecs k a s))"
proof (intro conjI)
  show "sorted (map fst (deadlines c (next_timeout (sys_timeout e msecs k a s))))"
    by (rule sorted_deadlines)
qed (use assms in \<open>simp_all add: sys_timeout_def deadlines_link_timeout horizon_link Let_def\<close>)

theorem sys_timeout_inserts_witness:
  "deadlines 0 (next_timeout (sys_timeout quiet_env 250 (Some Tcpip_tcp_timer) 0 build_timers)) =
     insert_due (250, Some Tcpip_tcp_timer, 0) (deadlines 0 (next_timeout build_timers))"
proof -
  show ?thesis
    using horizon_build_timers sys_timeout_inserts [of quiet_env build_timers 0 250] by simp
qed

text \<open>Cancelling a timeout removes the earliest pending entry of that handler and argument and moves no other
deadline; when there is none nothing changes.\<close>

theorem sys_untimeout_removes:
  assumes "horizon (next_timeout s)"
  shows "deadlines 0 (next_timeout (sys_untimeout k a s)) = remove_due (k, a) (deadlines 0 (next_timeout s))
    \<and> horizon (next_timeout (sys_untimeout k a s))
    \<and> pending (next_timeout (sys_untimeout k a s)) = pending (next_timeout s) - {#(k, a)#}"
  using assms
  by (simp add: sys_untimeout_def deadlines_untimeout horizon_untimeout pending_untimeout)
     (simp add: horizon_def deadlines_untimeout)

theorem sys_untimeout_removes_witness:
  "deadlines 0 (next_timeout (sys_untimeout (Some Arp_timer) 0 build_timers)) =
     remove_due (Some Arp_timer, 0) (deadlines 0 (next_timeout build_timers))"
proof -
  show ?thesis
    using horizon_build_timers sys_untimeout_removes [of build_timers] by simp
qed

text \<open>The loop of the tcpip thread keeps the deadlines exactly. When a message comes after \<open>d\<close> milliseconds
the loop returns and all deadlines stand; when the wait for the first deadline runs out, the
handler of that deadline is called at that very time, with the other deadlines unmoved.\<close>

theorem sys_timeouts_mbox_fetch_on_time:
  assumes "next_timeout s = n # rest" and "0 < time n" and "mbox_fetch e (time n) (world s) = (d, w)"
    and "d = SYS_ARCH_TIMEOUT \<or> d \<le> time n"
  shows "if d \<noteq> SYS_ARCH_TIMEOUT
     then \<exists>t. sys_timeouts_mbox_fetch e s = Some t \<and> world t = w
       \<and> deadlines (c + unat d) (next_timeout t) = deadlines c (next_timeout s)
     else \<exists>t. sys_timeouts_mbox_fetch e s = sys_timeouts_mbox_fetch e (call_handler e (h n) (arg n) t)
       \<and> world t = w \<and> c + unat (time n) = fst (hd (deadlines c (next_timeout s)))
       \<and> deadlines (c + unat (time n)) (next_timeout t) = tl (deadlines c (next_timeout s))"
proof (cases "d = SYS_ARCH_TIMEOUT")
  case True
  have "sys_timeouts_mbox_fetch e s =
      sys_timeouts_mbox_fetch e (call_handler e (h n) (arg n) (s\<lparr>world := w, next_timeout := rest\<rparr>))"
    by (subst sys_timeouts_mbox_fetch.simps)
      (use assms True in \<open>simp add: fetch_wait_def fetch_expired_def\<close>)
  then show ?thesis
    using assms(1) True by (auto intro!: exI [of _ "s\<lparr>world := w, next_timeout := rest\<rparr>"])
next
  case False
  have "sys_timeouts_mbox_fetch e s = Some (fetch_message d (s\<lparr>world := w\<rparr>))"
    by (subst sys_timeouts_mbox_fetch.simps) (use assms False in \<open>simp add: fetch_wait_def\<close>)
  moreover have "unat d + unat (if d < time n then time n - d else 0) = unat (time n)"
    using assms(4) False unat_le [of d "time n"] by (auto simp: unat_minus_le less_imp_le not_less)
  ultimately show ?thesis
    using assms(1) False by (auto simp: fetch_message_def add.assoc)
qed

theorem sys_timeouts_mbox_fetch_on_time_witness:
  "\<exists>t. sys_timeouts_mbox_fetch quiet_env build_timers = Some t
     \<and> deadlines 3 (next_timeout t) = deadlines 0 (next_timeout build_timers)"
proof -
  obtain n rest where n: "next_timeout build_timers = n # rest" "time n = 100"
    using build_timers_list by auto
  show ?thesis
    using sys_timeouts_mbox_fetch_on_time [OF n(1), of quiet_env 3 "()" 0] n(2)
    by (auto simp: SYS_ARCH_TIMEOUT_def)
qed



text \<open>Without an operating system, a timeout that is registered \<open>diff\<close> milliseconds after the list was last
served and is due before the first entry postpones every other timeout by \<open>diff\<close>.\<close>

theorem sys_timeout_nosys_postpones:
  assumes "memp_ok e (memp_count s)" and "next_timeout s = n # rest" and "msecs < time n"
    and "diff = sys_now e (world s) - timeouts_last_time s" and "unat msecs + unat diff < 2 ^ 32"
  shows "deadlines 0 (next_timeout (sys_timeout_nosys e msecs k a s)) =
    (unat msecs + unat diff, k, a) # deadlines (unat diff) (next_timeout s)"
proof -
  have sum: "unat (msecs + diff) = unat msecs + unat diff"
    using assms(5) by (intro unat_add_nowrap) simp
  have rest: "unat (time n - msecs) = unat (time n) - unat msecs" "unat msecs \<le> unat (time n)"
    using assms(3) by (simp_all add: unat_minus_le word_le_nat_alt word_less_nat_alt)
  have "next_timeout (sys_timeout_nosys e msecs k a s) =
      \<lparr>time = msecs + diff, h = k, arg = a\<rparr> # n\<lparr>time := time n - msecs\<rparr> # rest"
    using assms(1-4) by (simp add: sys_timeout_nosys_def link_timeout_def Let_def)
  then show ?thesis
    using assms(2) rest by (simp add: sum add.assoc [symmetric])
qed

theorem sys_timeout_nosys_postpones_witness:
  "deadlines 0 (next_timeout (sys_timeout_nosys quiet_env 7 (Some (Other_handler 2)) 0
      (empty_timers\<lparr>next_timeout := [\<lparr>time = 10, h = Some (Other_handler 1), arg = 0\<rparr>]\<rparr>))) =
    [(12, Some (Other_handler 2), 0), (15, Some (Other_handler 1), 0)]"
  using sys_timeout_nosys_postpones [of quiet_env
      "empty_timers\<lparr>next_timeout := [\<lparr>time = 10, h = Some (Other_handler 1), arg = 0\<rparr>]\<rparr>" _ "[]" 7 5]
  by (simp add: empty_timers_def)

text \<open>When the pool is exhausted at the moment the TCP timer is needed, it is marked active without being
pending, and asking for it again does nothing from then on.\<close>

theorem tcp_timer_needed_can_be_lost:
  assumes "\<not> memp_ok e (memp_count s)" and "\<not> tcpip_tcp_timer_active s" and "tcp_pcbs e (world s)"
  shows "next_timeout (tcp_timer_needed e s) = next_timeout s
    \<and> tcp_timer_needed e (tcp_timer_needed e s) = tcp_timer_needed e s"
  using assms by (simp add: tcp_timer_needed_def sys_timeout_def Let_def)

theorem tcp_timer_needed_can_be_lost_witness:
  "next_timeout (tcp_timer_needed (quiet_env\<lparr>memp_ok := \<lambda>n. False, tcp_pcbs := \<lambda>w. True\<rparr>) empty_timers) = []"
  using tcp_timer_needed_can_be_lost [of "quiet_env\<lparr>memp_ok := \<lambda>n. False, tcp_pcbs := \<lambda>w. True\<rparr>" empty_timers]
  by (simp add: empty_timers_def)

end
