(* ===== verification/PbufHeap.thy ===== *)
theory PbufHeap
  imports Pbuf
begin

text \<open>
  The life of packet buffers (\<open>core/pbuf.c\<close>): allocation, reference counts, chaining,
  headers, trimming and copying, on an explicit store of pbufs. The store maps the address
  of each allocated pbuf to its fields; \<open>next\<close> is an address, so chains may share their
  tails. \<open>None\<close> is a run that dereferences \<open>NULL\<close> or a freed pbuf, or never ends. The
  chains of the theory of the byte operations are the abstraction of those of the store.
\<close>

subsection \<open>Data\<close>

datatype pbuf_layer = PBUF_TRANSPORT | PBUF_IP | PBUF_LINK | PBUF_RAW_TX | PBUF_RAW

text \<open>
  \<open>n_payload\<close> is the address in \<open>payload\<close>; the memory the pbuf may use for it begins at
  the address \<open>n_base\<close> (behind the structure for \<open>PBUF_RAM\<close> and \<open>PBUF_POOL\<close>) and holds the
  bytes \<open>n_mem\<close>.
\<close>

record pnode =
  n_next :: "nat option"
  n_payload :: nat
  n_tot_len :: u16
  n_len :: u16
  n_type :: pbuf_type
  n_flags :: u8
  n_ref :: u16
  n_base :: nat
  n_mem :: bytes

text \<open>
  \<open>requests\<close> counts the allocations asked for, \<open>ooseq_calls\<close> the calls of
  \<open>tcpip_callback_with_block\<close>, of which \<open>ooseq_call_ok\<close> tells whether the i-th returned \<open>ERR_OK\<close>.
\<close>

record pheap =
  nodes :: "nat \<Rightarrow> pnode option"
  requests :: nat
  pbuf_free_ooseq_pending :: bool
  ooseq_calls :: nat
  ooseq_call_ok :: "nat \<Rightarrow> bool"

text \<open>
  The allocators (\<open>memp_malloc\<close> for a pool, \<open>mem_malloc\<close> for \<open>PBUF_RAM\<close>): given the number
  of the request, the addresses in use, the kind and the number of bytes behind the
  structure, they give the address of the structure and the content of these bytes.
\<close>

type_synonym pbuf_malloc = "nat \<Rightarrow> (nat \<Rightarrow> bool) \<Rightarrow> pbuf_type \<Rightarrow> nat \<Rightarrow> (nat \<times> bytes) option"

definition malloc_ok :: "pbuf_malloc \<Rightarrow> bool" where
  "malloc_ok malloc \<longleftrightarrow> (\<forall>i used typ nbytes a mem.
     malloc i used typ nbytes = Some (a, mem) \<longrightarrow> \<not> used a \<and> a mod 4 = 0 \<and> length mem = nbytes)"

definition LWIP_MEM_ALIGN_SIZE :: "nat \<Rightarrow> nat" where
  "LWIP_MEM_ALIGN_SIZE n = (n + 3) div 4 * 4"

definition SIZEOF_STRUCT_PBUF :: nat where "SIZEOF_STRUCT_PBUF = 16"
definition PBUF_LINK_ENCAPSULATION_HLEN :: nat where "PBUF_LINK_ENCAPSULATION_HLEN = 0"
definition PBUF_LINK_HLEN :: nat where "PBUF_LINK_HLEN = 14"
definition PBUF_IP_HLEN :: nat where "PBUF_IP_HLEN = 20"
definition PBUF_TRANSPORT_HLEN :: nat where "PBUF_TRANSPORT_HLEN = 20"
definition TCP_MSS :: nat where "TCP_MSS = 256"
definition PBUF_POOL_BUFSIZE_ALIGNED :: nat where
  "PBUF_POOL_BUFSIZE_ALIGNED =
     LWIP_MEM_ALIGN_SIZE (TCP_MSS + 40 + PBUF_LINK_ENCAPSULATION_HLEN + PBUF_LINK_HLEN)"

fun layer_offset :: "pbuf_layer \<Rightarrow> nat" where
  "layer_offset PBUF_TRANSPORT =
     PBUF_LINK_ENCAPSULATION_HLEN + PBUF_LINK_HLEN + PBUF_IP_HLEN + PBUF_TRANSPORT_HLEN"
| "layer_offset PBUF_IP = PBUF_LINK_ENCAPSULATION_HLEN + PBUF_LINK_HLEN + PBUF_IP_HLEN"
| "layer_offset PBUF_LINK = PBUF_LINK_ENCAPSULATION_HLEN + PBUF_LINK_HLEN"
| "layer_offset PBUF_RAW_TX = PBUF_LINK_ENCAPSULATION_HLEN"
| "layer_offset PBUF_RAW = 0"

definition put_node :: "nat \<Rightarrow> pnode \<Rightarrow> pheap \<Rightarrow> pheap" where
  "put_node a n hp = hp\<lparr>nodes := (nodes hp)(a := Some n)\<rparr>"

definition drop_node :: "nat \<Rightarrow> pheap \<Rightarrow> pheap" where
  "drop_node a hp = hp\<lparr>nodes := (nodes hp)(a := None)\<rparr>"

subsection \<open>Reference counts\<close>

partial_function (option) pbuf_free_loop :: "nat option \<Rightarrow> u8 \<Rightarrow> pheap \<Rightarrow> (u8 \<times> pheap) option" where
  "pbuf_free_loop p count hp =
     (case p of
        None \<Rightarrow> Some (count, hp)
      | Some a \<Rightarrow>
          (case nodes hp a of
             None \<Rightarrow> None
           | Some n \<Rightarrow>
               let ref = n_ref n - 1
               in if ref = 0 then pbuf_free_loop (n_next n) (count + 1) (drop_node a hp)
                  else Some (count, put_node a (n\<lparr>n_ref := ref\<rparr>) hp)))"

definition pbuf_free :: "nat option \<Rightarrow> pheap \<Rightarrow> (u8 \<times> pheap) option" where
  "pbuf_free p hp = (if p = None then Some (0, hp) else pbuf_free_loop p 0 hp)"

definition pbuf_ref :: "nat option \<Rightarrow> pheap \<Rightarrow> pheap option" where
  "pbuf_ref p hp =
     (case p of
        None \<Rightarrow> Some hp
      | Some a \<Rightarrow> map_option (\<lambda>n. put_node a (n\<lparr>n_ref := n_ref n + 1\<rparr>) hp) (nodes hp a))"

subsection \<open>Allocation\<close>

definition pbuf_pool_is_empty :: "pheap \<Rightarrow> pheap" where
  "pbuf_pool_is_empty hp =
     (let queued = pbuf_free_ooseq_pending hp; hp = hp\<lparr>pbuf_free_ooseq_pending := True\<rparr>
      in if \<not> queued
         then hp\<lparr>ooseq_calls := ooseq_calls hp + 1,
                 pbuf_free_ooseq_pending := ooseq_call_ok hp (ooseq_calls hp)\<rparr>
         else hp)"

definition request :: "pbuf_malloc \<Rightarrow> pbuf_type \<Rightarrow> nat \<Rightarrow> pheap \<Rightarrow> (nat \<times> bytes) option \<times> pheap" where
  "request malloc typ nbytes hp =
     (malloc (requests hp) (\<lambda>a. nodes hp a \<noteq> None) typ nbytes, hp\<lparr>requests := requests hp + 1\<rparr>)"

text \<open>
  The tail of a chain from the pool; \<open>p\<close> is its first pbuf and \<open>r\<close> the last one so far. The
  inner \<open>None\<close> is \<open>NULL\<close>.
\<close>

function alloc_tail :: "pbuf_malloc \<Rightarrow> nat \<Rightarrow> nat \<Rightarrow> int \<Rightarrow> pheap \<Rightarrow> (nat option \<times> pheap) option" where
  "alloc_tail malloc p r rem_len hp =
     (if rem_len \<le> 0 then Some (Some p, hp)
      else case request malloc PBUF_POOL PBUF_POOL_BUFSIZE_ALIGNED hp of
        (None, hp) \<Rightarrow>
          map_option (\<lambda>(_, hp). (None, hp)) (pbuf_free (Some p) (pbuf_pool_is_empty hp))
      | (Some (q, mem), hp) \<Rightarrow>
          (case nodes hp r of
             None \<Rightarrow> None
           | Some rn \<Rightarrow>
               let hp = put_node r (rn\<lparr>n_next := Some q\<rparr>) hp;
                   qlen = min (unat (word_of_int rem_len :: u16)) PBUF_POOL_BUFSIZE_ALIGNED;
                   qn = \<lparr>n_next = None, n_payload = q + SIZEOF_STRUCT_PBUF,
                         n_tot_len = word_of_int rem_len, n_len = of_nat qlen, n_type = PBUF_POOL,
                         n_flags = 0, n_ref = 1, n_base = q + SIZEOF_STRUCT_PBUF, n_mem = mem\<rparr>;
                   hp = put_node q qn hp
               in if qlen = 0 then None else alloc_tail malloc p q (rem_len - int qlen) hp))"
  by pat_completeness auto
termination by (relation "measure (\<lambda>(_, _, _, n, _). nat n)") auto

declare alloc_tail.simps [simp del]

definition pbuf_alloc ::
  "pbuf_malloc \<Rightarrow> pbuf_layer \<Rightarrow> u16 \<Rightarrow> pbuf_type \<Rightarrow> pheap \<Rightarrow> (nat option \<times> pheap) option" where
  "pbuf_alloc malloc layer len typ hp =
     (let offset = layer_offset layer
      in if typ = PBUF_POOL then
           (case request malloc PBUF_POOL PBUF_POOL_BUFSIZE_ALIGNED hp of
              (None, hp) \<Rightarrow> Some (None, pbuf_pool_is_empty hp)
            | (Some (p, mem), hp) \<Rightarrow>
                let plen = min (unat len) (PBUF_POOL_BUFSIZE_ALIGNED - LWIP_MEM_ALIGN_SIZE offset);
                    pn = \<lparr>n_next = None,
                          n_payload = LWIP_MEM_ALIGN_SIZE (p + (SIZEOF_STRUCT_PBUF + offset)),
                          n_tot_len = len, n_len = of_nat plen, n_type = typ, n_flags = 0, n_ref = 1,
                          n_base = p + SIZEOF_STRUCT_PBUF, n_mem = mem\<rparr>
                in alloc_tail malloc p p (int (unat len) - int plen) (put_node p pn hp))
         else if typ = PBUF_RAM then
           (case request malloc PBUF_RAM
                   (LWIP_MEM_ALIGN_SIZE (SIZEOF_STRUCT_PBUF + offset) + LWIP_MEM_ALIGN_SIZE (unat len)
                      - SIZEOF_STRUCT_PBUF) hp of
              (None, hp) \<Rightarrow> Some (None, hp)
            | (Some (p, mem), hp) \<Rightarrow>
                Some (Some p, put_node p
                  \<lparr>n_next = None, n_payload = LWIP_MEM_ALIGN_SIZE (p + SIZEOF_STRUCT_PBUF + offset),
                   n_tot_len = len, n_len = len, n_type = typ, n_flags = 0, n_ref = 1,
                   n_base = p + SIZEOF_STRUCT_PBUF, n_mem = mem\<rparr> hp))
         else
           (case request malloc typ 0 hp of
              (None, hp) \<Rightarrow> Some (None, hp)
            | (Some (p, mem), hp) \<Rightarrow>
                Some (Some p, put_node p
                  \<lparr>n_next = None, n_payload = 0, n_tot_len = len, n_len = len, n_type = typ,
                   n_flags = 0, n_ref = 1, n_base = 0, n_mem = []\<rparr> hp)))"

subsection \<open>Chaining\<close>

partial_function (option) pbuf_clen_loop :: "nat option \<Rightarrow> u8 \<Rightarrow> pheap \<Rightarrow> u8 option" where
  "pbuf_clen_loop p len hp =
     (case p of
        None \<Rightarrow> Some len
      | Some a \<Rightarrow> (case nodes hp a of None \<Rightarrow> None | Some n \<Rightarrow> pbuf_clen_loop (n_next n) (len + 1) hp))"

definition pbuf_clen :: "nat option \<Rightarrow> pheap \<Rightarrow> u8 option" where
  "pbuf_clen p hp = pbuf_clen_loop p 0 hp"

partial_function (option) pbuf_cat_loop :: "nat \<Rightarrow> nat \<Rightarrow> pheap \<Rightarrow> pheap option" where
  "pbuf_cat_loop p t hp =
     (case (nodes hp p, nodes hp t) of
        (Some n, Some tn) \<Rightarrow>
          let n = n\<lparr>n_tot_len := n_tot_len n + n_tot_len tn\<rparr>
          in (case n_next n of
                Some q \<Rightarrow> pbuf_cat_loop q t (put_node p n hp)
              | None \<Rightarrow> Some (put_node p (n\<lparr>n_next := Some t\<rparr>) hp))
      | _ \<Rightarrow> None)"

definition pbuf_cat :: "nat option \<Rightarrow> nat option \<Rightarrow> pheap \<Rightarrow> pheap option" where
  "pbuf_cat h t hp = (case (h, t) of (Some h, Some t) \<Rightarrow> pbuf_cat_loop h t hp | _ \<Rightarrow> Some hp)"

definition pbuf_chain :: "nat option \<Rightarrow> nat option \<Rightarrow> pheap \<Rightarrow> pheap option" where
  "pbuf_chain h t hp = Option.bind (pbuf_cat h t hp) (pbuf_ref t)"

definition pbuf_dechain :: "nat \<Rightarrow> pheap \<Rightarrow> (nat option \<times> pheap) option" where
  "pbuf_dechain p hp =
     (case nodes hp p of
        None \<Rightarrow> None
      | Some n \<Rightarrow>
          (case n_next n of
             None \<Rightarrow> Some (None, hp)
           | Some q \<Rightarrow>
               (case nodes hp q of
                  None \<Rightarrow> None
                | Some qn \<Rightarrow>
                    let hp = put_node q (qn\<lparr>n_tot_len := n_tot_len n - n_len n\<rparr>) hp;
                        hp = put_node p (n\<lparr>n_next := None, n_tot_len := n_len n\<rparr>) hp
                    in map_option (\<lambda>(tail_gone, hp). (if tail_gone > 0 then None else Some q, hp))
                         (pbuf_free (Some q) hp))))"

subsection \<open>Trimming and headers\<close>

partial_function (option) pbuf_realloc_loop :: "nat \<Rightarrow> u16 \<Rightarrow> u16 \<Rightarrow> pheap \<Rightarrow> (nat \<times> u16 \<times> pheap) option" where
  "pbuf_realloc_loop q rem_len grow hp =
     (case nodes hp q of
        None \<Rightarrow> None
      | Some n \<Rightarrow>
          if rem_len > n_len n then
            (case n_next n of
               None \<Rightarrow> None
             | Some q' \<Rightarrow>
                 pbuf_realloc_loop q' (rem_len - n_len n) grow
                   (put_node q (n\<lparr>n_tot_len := n_tot_len n + grow\<rparr>) hp))
          else Some (q, rem_len, hp))"

text \<open>\<open>mem_trim\<close> leaves the memory where it is (\<open>MEM_LIBC_MALLOC\<close>).\<close>

definition pbuf_realloc :: "nat \<Rightarrow> u16 \<Rightarrow> pheap \<Rightarrow> pheap option" where
  "pbuf_realloc p new_len hp =
     (case nodes hp p of
        None \<Rightarrow> None
      | Some pn \<Rightarrow>
          if new_len \<ge> n_tot_len pn then Some hp
          else
            (case pbuf_realloc_loop p new_len (new_len - n_tot_len pn) hp of
               None \<Rightarrow> None
             | Some (q, rem_len, hp) \<Rightarrow>
                 (case nodes hp q of
                    None \<Rightarrow> None
                  | Some n \<Rightarrow>
                      let n' = n\<lparr>n_len := rem_len, n_tot_len := rem_len\<rparr>
                      in if n_next n \<noteq> None
                         then map_option (\<lambda>(_, hp). put_node q (n'\<lparr>n_next := None\<rparr>) hp)
                                (pbuf_free (n_next n) (put_node q n' hp))
                         else Some (put_node q (n'\<lparr>n_next := None\<rparr>) hp))))"

text \<open>The result is \<open>True\<close> on failure (the C function returns 1).\<close>

definition pbuf_header_impl :: "nat option \<Rightarrow> 16 word \<Rightarrow> bool \<Rightarrow> pheap \<Rightarrow> (bool \<times> pheap) option" where
  "pbuf_header_impl p header_size_increment force hp =
     (case p of
        None \<Rightarrow> Some (False, hp)
      | Some a \<Rightarrow>
          if header_size_increment = 0 then Some (False, hp)
          else (case nodes hp a of
             None \<Rightarrow> None
           | Some n \<Rightarrow>
               let inc = sint header_size_increment;
                   increment_magnitude = (if inc < 0 then - header_size_increment else header_size_increment);
                   payload = int (n_payload n) - inc;
                   done = Some (False, put_node a
                     (n\<lparr>n_payload := nat payload, n_len := n_len n + header_size_increment,
                        n_tot_len := n_tot_len n + header_size_increment\<rparr>) hp);
                   fail = Some (True, hp)
               in if inc < 0 \<and> \<not> increment_magnitude \<le> n_len n then fail
                  else if n_type n = PBUF_RAM \<or> n_type n = PBUF_POOL then
                    (if payload < int (a + SIZEOF_STRUCT_PBUF) then fail else done)
                  else if inc < 0 \<and> increment_magnitude \<le> n_len n then done
                  else if inc > 0 \<and> force then done
                  else fail))"

definition pbuf_header :: "nat option \<Rightarrow> 16 word \<Rightarrow> pheap \<Rightarrow> (bool \<times> pheap) option" where
  "pbuf_header p header_size_increment hp = pbuf_header_impl p header_size_increment False hp"

definition pbuf_header_force :: "nat option \<Rightarrow> 16 word \<Rightarrow> pheap \<Rightarrow> (bool \<times> pheap) option" where
  "pbuf_header_force p header_size_increment hp = pbuf_header_impl p header_size_increment True hp"

subsection \<open>Copying\<close>

text \<open>The bytes at an offset behind \<open>payload\<close>, and \<open>MEMCPY\<close> to there.\<close>

definition node_read :: "pnode \<Rightarrow> nat \<Rightarrow> nat \<Rightarrow> bytes" where
  "node_read n off len = take len (drop (n_payload n - n_base n + off) (n_mem n))"

definition node_write :: "nat \<Rightarrow> bytes \<Rightarrow> pnode \<Rightarrow> pnode" where
  "node_write off src n = n\<lparr>n_mem := mem_write (n_payload n - n_base n + off) src (n_mem n)\<rparr>"

text \<open>A chain behind this pbuf, although it is the last of its packet.\<close>

definition is_queue :: "nat option \<Rightarrow> pheap \<Rightarrow> bool option" where
  "is_queue p hp =
     (case p of
        None \<Rightarrow> Some False
      | Some a \<Rightarrow> map_option (\<lambda>n. n_len n = n_tot_len n \<and> n_next n \<noteq> None) (nodes hp a))"

partial_function (option) pbuf_copy_loop ::
  "nat \<Rightarrow> nat \<Rightarrow> u16 \<Rightarrow> u16 \<Rightarrow> pheap \<Rightarrow> (err_t \<times> pheap) option" where
  "pbuf_copy_loop p_to p_from offset_to offset_from hp =
     (case (nodes hp p_to, nodes hp p_from) of
        (Some tn, Some fn) \<Rightarrow>
          let len = (if uint (n_len tn) - uint offset_to \<ge> uint (n_len fn) - uint offset_from
                     then n_len fn - offset_from else n_len tn - offset_to);
              hp = put_node p_to
                (node_write (unat offset_to) (node_read fn (unat offset_from) (unat len)) tn) hp;
              offset_to = offset_to + len;
              offset_from = offset_from + len;
              (from', offset_from) = (if offset_from \<ge> n_len fn then (n_next fn, 0) else (Some p_from, offset_from));
              (to', offset_to) = (if offset_to = n_len tn then (n_next tn, 0) else (Some p_to, offset_to))
          in if to' = None \<and> from' \<noteq> None then Some (ERR_ARG, hp)
             else (case (is_queue from' hp, is_queue to' hp) of
               (Some fq, Some tq) \<Rightarrow>
                 if fq then Some (ERR_VAL, hp)
                 else if tq then Some (ERR_VAL, hp)
                 else (case from' of
                         None \<Rightarrow> Some (ERR_OK, hp)
                       | Some f \<Rightarrow>
                           (case to' of None \<Rightarrow> None | Some t \<Rightarrow> pbuf_copy_loop t f offset_to offset_from hp))
             | _ \<Rightarrow> None)
      | _ \<Rightarrow> None)"

definition pbuf_copy :: "nat option \<Rightarrow> nat option \<Rightarrow> pheap \<Rightarrow> (err_t \<times> pheap) option" where
  "pbuf_copy p_to p_from hp =
     (case (p_to, p_from) of
        (Some t, Some f) \<Rightarrow>
          (case (nodes hp t, nodes hp f) of
             (Some tn, Some fn) \<Rightarrow>
               if n_tot_len tn \<ge> n_tot_len fn then pbuf_copy_loop t f 0 0 hp else Some (ERR_ARG, hp)
           | _ \<Rightarrow> None)
      | _ \<Rightarrow> Some (ERR_ARG, hp))"

definition pbuf_coalesce :: "pbuf_malloc \<Rightarrow> nat \<Rightarrow> pbuf_layer \<Rightarrow> pheap \<Rightarrow> (nat \<times> pheap) option" where
  "pbuf_coalesce malloc p layer hp =
     (case nodes hp p of
        None \<Rightarrow> None
      | Some n \<Rightarrow>
          if n_next n = None then Some (p, hp)
          else (case pbuf_alloc malloc layer (n_tot_len n) PBUF_RAM hp of
             None \<Rightarrow> None
           | Some (None, hp) \<Rightarrow> Some (p, hp)
           | Some (Some q, hp) \<Rightarrow>
               (case pbuf_copy (Some q) (Some p) hp of
                  None \<Rightarrow> None
                | Some (_, hp) \<Rightarrow> map_option (\<lambda>(_, hp). (q, hp)) (pbuf_free (Some p) hp))))"

subsection \<open>Chains of the store\<close>

text \<open>From \<open>p\<close> the \<open>next\<close> pointers lead through these addresses to \<open>q\<close>; a chain leads to \<open>NULL\<close>.\<close>

fun path :: "(nat \<Rightarrow> pnode option) \<Rightarrow> nat option \<Rightarrow> nat list \<Rightarrow> nat option \<Rightarrow> bool" where
  "path ns p [] q = (p = q)"
| "path ns p (a # as) q = (p = Some a \<and> (case ns a of None \<Rightarrow> False | Some n \<Rightarrow> path ns (n_next n) as q))"

abbreviation linked :: "(nat \<Rightarrow> pnode option) \<Rightarrow> nat option \<Rightarrow> nat list \<Rightarrow> bool" where
  "linked ns p as \<equiv> path ns p as None"

definition pbuf_of :: "pnode \<Rightarrow> pbuf" where
  "pbuf_of n = \<lparr>p_addr = of_nat (n_payload n), p_payload = drop (n_payload n - n_base n) (n_mem n),
     p_tot_len = n_tot_len n, p_len = n_len n, p_type = n_type n, p_flags = n_flags n, p_ref = n_ref n\<rparr>"

definition chain_of :: "(nat \<Rightarrow> pnode option) \<Rightarrow> nat list \<Rightarrow> pbuf list" where
  "chain_of ns as = map (\<lambda>a. pbuf_of (the (ns a))) as"

lemma pbuf_of_sel [simp]:
  "p_tot_len (pbuf_of n) = n_tot_len n" "p_len (pbuf_of n) = n_len n" "p_ref (pbuf_of n) = n_ref n"
  "p_payload (pbuf_of n) = drop (n_payload n - n_base n) (n_mem n)"
  by (simp_all add: pbuf_of_def)

lemma chain_of_simps [simp]:
  "chain_of ns [] = []" "chain_of ns (a # as) = pbuf_of (the (ns a)) # chain_of ns as"
  "chain_of ns (as @ bs) = chain_of ns as @ chain_of ns bs"
  by (simp_all add: chain_of_def)

lemma chain_of_bytes [simp]:
  "chain_bytes [] = []" "chain_bytes (p # ps) = pbuf_bytes p @ chain_bytes ps"
  "chain_bytes (ps @ qs) = chain_bytes ps @ chain_bytes qs"
  by (simp_all add: chain_bytes_def)

lemma nodes_put [simp]: "nodes (put_node a n hp) = (nodes hp)(a := Some n)"
  by (simp add: put_node_def)

lemma nodes_drop [simp]: "nodes (drop_node a hp) = (nodes hp)(a := None)"
  by (simp add: drop_node_def)

lemma nodes_update_put [simp]: "(put_node a n hp)\<lparr>nodes := ns\<rparr> = hp\<lparr>nodes := ns\<rparr>"
  by (simp add: put_node_def)

lemma nodes_update_drop [simp]: "(drop_node a hp)\<lparr>nodes := ns\<rparr> = hp\<lparr>nodes := ns\<rparr>"
  by (simp add: drop_node_def)

lemma path_cong: "(\<And>a. a \<in> set as \<Longrightarrow> ns a = ns' a) \<Longrightarrow> path ns p as q = path ns' p as q"
  by (induction as arbitrary: p) (auto split: option.splits)

lemma chain_of_cong: "(\<And>a. a \<in> set as \<Longrightarrow> ns a = ns' a) \<Longrightarrow> chain_of ns as = chain_of ns' as"
  by (simp add: chain_of_def)

lemma path_upd [simp]: "a \<notin> set as \<Longrightarrow> path (ns(a := n)) p as q = path ns p as q"
  by (rule path_cong) auto

lemma chain_of_upd [simp]: "a \<notin> set as \<Longrightarrow> chain_of (ns(a := n)) as = chain_of ns as"
  by (rule chain_of_cong) auto

lemma path_append: "path ns p (as @ bs) q \<longleftrightarrow> (\<exists>r. path ns p as r \<and> path ns r bs q)"
  by (induction as arbitrary: p) (auto split: option.splits)

lemma linked_unique: "linked ns p as \<Longrightarrow> linked ns p bs \<Longrightarrow> as = bs"
proof (induction as arbitrary: p bs)
  case Nil
  then show ?case by (cases bs) auto
next
  case (Cons a as)
  then show ?case by (cases bs) (auto split: option.splits)
qed

lemma linked_distinct: "linked ns p as \<Longrightarrow> distinct as"
proof (induction as arbitrary: p)
  case (Cons a as)
  then obtain n :: pnode where tail: "linked ns (n_next n) as"
    by (auto split: option.splits)
  have all: "linked ns (Some a) (a # as)"
    using Cons.prems by simp
  have "a \<notin> set as"
  proof
    assume "a \<in> set as"
    then obtain xs ys where as: "as = xs @ a # ys"
      by (auto dest: split_list)
    then obtain r where "linked ns r (a # ys)"
      using tail by (auto simp only: path_append)
    then have "linked ns (Some a) (a # ys)"
      by auto
    then have "a # as = a # ys"
      using all linked_unique by blast
    then show False
      using as by auto
  qed
  then show ?case
    using Cons.IH [OF tail] by simp
qed simp

lemma linked_ConsE:
  assumes "linked ns p (a # as)"
  obtains n where "p = Some a" "ns a = Some n" "linked ns (n_next n) as" "a \<notin> set as"
  using assms linked_distinct [OF assms] by (auto split: option.splits)

lemma linked_alloc: "path ns p as q \<Longrightarrow> a \<in> set as \<Longrightarrow> ns a \<noteq> None"
  by (induction as arbitrary: p) (auto split: option.splits)

subsection \<open>Freeing\<close>

text \<open>The pbufs of a chain that \<open>pbuf_free\<close> gives back: those at its head with no other reference.\<close>

definition unshared :: "(nat \<Rightarrow> pnode option) \<Rightarrow> nat list \<Rightarrow> nat" where
  "unshared ns as = length (takeWhile (\<lambda>a. n_ref (the (ns a)) = 1) as)"

definition freed_nodes :: "(nat \<Rightarrow> pnode option) \<Rightarrow> nat list \<Rightarrow> nat \<Rightarrow> pnode option" where
  "freed_nodes ns as a =
     (let k = unshared ns as
      in if a \<in> set (take k as) then None
         else if k < length as \<and> a = as ! k then map_option (\<lambda>n. n\<lparr>n_ref := n_ref n - 1\<rparr>) (ns a)
         else ns a)"

lemma unshared_Cons [simp]: "ns a = Some n \<Longrightarrow>
   unshared ns (a # as) = (if n_ref n = 1 then Suc (unshared ns as) else 0)"
  by (simp add: unshared_def)

lemma unshared_cong: "(\<And>a. a \<in> set as \<Longrightarrow> ns a = ns' a) \<Longrightarrow> unshared ns as = unshared ns' as"
  unfolding unshared_def by (metis (mono_tags, lifting) takeWhile_cong)

lemma unshared_le: "unshared ns as \<le> length as"
  by (simp add: unshared_def length_takeWhile_le)

lemma freed_nodes_cong:
  assumes "\<And>c. c \<in> set as \<Longrightarrow> ns c = ns' c" "ns b = ns' b"
  shows "freed_nodes ns as b = freed_nodes ns' as b"
  unfolding freed_nodes_def using unshared_cong [of as ns ns'] assms by (simp only:)

lemma freed_nodes_Nil [simp]: "freed_nodes ns [] = ns"
  by (simp add: freed_nodes_def Let_def fun_eq_iff)

lemma unshared_upd [simp]: "a \<notin> set as \<Longrightarrow> unshared (ns(a := n)) as = unshared ns as"
  by (rule unshared_cong) auto

lemma freed_nodes_Cons:
  assumes "ns a = Some n" "a \<notin> set as"
  shows "freed_nodes ns (a # as) =
    (if n_ref n = 1 then freed_nodes (ns(a := None)) as else ns(a := Some (n\<lparr>n_ref := n_ref n - 1\<rparr>)))"
proof (cases "n_ref n = 1")
  case True
  have "freed_nodes ns (a # as) b = freed_nodes (ns(a := None)) as b" for b
  proof (cases "b = a")
    case b: True
    then have "a \<noteq> as ! unshared ns as" if "unshared ns as < length as"
      using assms(2) that by (metis nth_mem)
    then show ?thesis
      using True assms b by (auto simp: freed_nodes_def Let_def dest: in_set_takeD)
  qed (use True assms in \<open>simp add: freed_nodes_def Let_def\<close>)
  then show ?thesis
    using True by auto
qed (use assms in \<open>auto simp: freed_nodes_def Let_def fun_eq_iff\<close>)

lemma pbuf_free_loop_nodes:
  assumes "linked (nodes hp) p as"
  shows "\<exists>hp'. pbuf_free_loop p count hp = Some (count + of_nat (unshared (nodes hp) as), hp')
    \<and> hp' = hp\<lparr>nodes := freed_nodes (nodes hp) as\<rparr>"
  using assms
proof (induction as arbitrary: p count hp)
  case Nil
  then show ?case
    by (subst pbuf_free_loop.simps) (simp add: unshared_def)
next
  case (Cons a as)
  obtain n where n: "p = Some a" "nodes hp a = Some n" "linked (nodes hp) (n_next n) as" "a \<notin> set as"
    using linked_ConsE [OF Cons.prems] .
  show ?case
  proof (cases "n_ref n = 1")
    case True
    have "linked (nodes (drop_node a hp)) (n_next n) as"
      using n by simp
    from Cons.IH [OF this, of "count + 1"] show ?thesis
      using n True
      by (subst pbuf_free_loop.simps)
        (simp add: freed_nodes_Cons add.assoc del: fun_upd_apply)
  next
    case False
    then have "n_ref n - 1 \<noteq> 0"
      by simp
    then show ?thesis
      using n False
      by (subst pbuf_free_loop.simps) (simp add: put_node_def freed_nodes_Cons)
  qed
qed

lemma pbuf_free_nodes:
  assumes "linked (nodes hp) p as"
  shows "pbuf_free p hp =
    Some (of_nat (unshared (nodes hp) as), hp\<lparr>nodes := freed_nodes (nodes hp) as\<rparr>)"
proof (cases p)
  case None
  then show ?thesis
    using assms by (cases as) (simp_all add: pbuf_free_def unshared_def)
next
  case (Some a)
  then show ?thesis
    using pbuf_free_loop_nodes [OF assms, of 0] by (simp add: pbuf_free_def)
qed

lemma freed_nodes_other: "a \<notin> set as \<Longrightarrow> freed_nodes ns as a = ns a"
  using unshared_le [of ns as] by (auto simp: freed_nodes_def Let_def dest: in_set_takeD)

lemma freed_nodes_all:
  "\<forall>a\<in>set as. n_ref (the (ns a)) = 1 \<Longrightarrow> freed_nodes ns as = (\<lambda>a. if a \<in> set as then None else ns a)"
  "\<forall>a\<in>set as. n_ref (the (ns a)) = 1 \<Longrightarrow> unshared ns as = length as"
proof -
  assume "\<forall>a\<in>set as. n_ref (the (ns a)) = 1"
  then have "takeWhile (\<lambda>a. n_ref (the (ns a)) = 1) as = as"
    by (auto simp only: takeWhile_eq_all_conv)
  then show "freed_nodes ns as = (\<lambda>a. if a \<in> set as then None else ns a)" "unshared ns as = length as"
    by (simp_all add: freed_nodes_def unshared_def Let_def fun_eq_iff del: takeWhile_eq_all_conv)
qed

subsection \<open>Concatenation\<close>

text \<open>What \<open>pbuf_cat\<close> makes of the pbufs of the first chain.\<close>

definition cat_nodes :: "(nat \<Rightarrow> pnode option) \<Rightarrow> nat list \<Rightarrow> nat \<Rightarrow> u16 \<Rightarrow> nat \<Rightarrow> pnode option" where
  "cat_nodes ns as t tot a =
     (if a \<in> set as
      then map_option (\<lambda>n. n\<lparr>n_tot_len := n_tot_len n + tot,
             n_next := if a = last as then Some t else n_next n\<rparr>) (ns a)
      else ns a)"

lemma cat_nodes_at:
  "a \<in> set as \<Longrightarrow> ns a = Some n \<Longrightarrow> cat_nodes ns as t tot a =
     Some (n\<lparr>n_tot_len := n_tot_len n + tot, n_next := if a = last as then Some t else n_next n\<rparr>)"
  by (simp add: cat_nodes_def)

lemma cat_nodes_other: "a \<notin> set as \<Longrightarrow> cat_nodes ns as t tot a = ns a"
  by (simp add: cat_nodes_def)

lemma pbuf_cat_loop_nodes:
  assumes "linked (nodes hp) (Some p) (p # as)" "nodes hp t = Some tn" "t \<notin> set (p # as)"
  shows "pbuf_cat_loop p t hp = Some (hp\<lparr>nodes := cat_nodes (nodes hp) (p # as) t (n_tot_len tn)\<rparr>)"
  using assms
proof (induction as arbitrary: p hp)
  case Nil
  obtain n where "nodes hp p = Some n" "n_next n = None"
    using Nil.prems(1) by (auto split: option.splits)
  moreover have "cat_nodes (nodes hp) [p] t (n_tot_len tn) =
      (nodes hp)(p := Some (n\<lparr>n_tot_len := n_tot_len n + n_tot_len tn, n_next := Some t\<rparr>))"
    using calculation by (auto simp: cat_nodes_def fun_eq_iff)
  ultimately show ?case
    using Nil.prems(2) by (subst pbuf_cat_loop.simps) (simp add: put_node_def del: fun_upd_apply)
next
  case (Cons q as)
  obtain n where n: "nodes hp p = Some n" "linked (nodes hp) (n_next n) (q # as)" "p \<notin> set (q # as)"
    using linked_ConsE [OF Cons.prems(1)] .
  let ?hp = "put_node p (n\<lparr>n_tot_len := n_tot_len n + n_tot_len tn\<rparr>) hp"
  have next_q: "n_next n = Some q"
    using n(2) by simp
  have "linked (nodes hp) (Some q) (q # as)"
    using n(2) next_q by simp
  then have link: "linked (nodes ?hp) (Some q) (q # as)"
    using n(3) unfolding nodes_put by (subst path_upd)
  have tn: "nodes ?hp t = Some tn" "t \<notin> set (q # as)"
    using Cons.prems(2,3) by simp_all
  have "pbuf_cat_loop q t ?hp = Some (?hp\<lparr>nodes := cat_nodes (nodes ?hp) (q # as) t (n_tot_len tn)\<rparr>)"
    by (rule Cons.IH [OF link tn])
  moreover have "cat_nodes (nodes ?hp) (q # as) t (n_tot_len tn) a =
      cat_nodes (nodes hp) (p # q # as) t (n_tot_len tn) a" for a
    using n(1,3) last_in_set [of as] by (cases "a = p") (auto simp: cat_nodes_def)
  then have "cat_nodes (nodes ?hp) (q # as) t (n_tot_len tn) = cat_nodes (nodes hp) (p # q # as) t (n_tot_len tn)"
    by (rule ext)
  ultimately show ?case
    using n(1) next_q Cons.prems(2) by (subst pbuf_cat_loop.simps) (simp del: nodes_put)
qed

lemma cat_nodes_bytes:
  "(\<And>a. a \<in> set as \<Longrightarrow> ns a \<noteq> None) \<Longrightarrow>
   chain_bytes (chain_of (cat_nodes ns bs t tot) as) = chain_bytes (chain_of ns as)"
proof (induction as)
  case (Cons a as)
  then obtain n where "ns a = Some n"
    by auto
  then have "pbuf_bytes (pbuf_of (the (cat_nodes ns bs t tot a))) = pbuf_bytes (pbuf_of (the (ns a)))"
    by (cases "a \<in> set bs") (simp_all add: cat_nodes_at cat_nodes_other pbuf_bytes_def)
  then show ?case
    using Cons by simp
qed simp

lemma cat_nodes_path:
  assumes "linked ns p as" "as \<noteq> []"
  shows "path (cat_nodes ns as t tot) p as (Some t)"
  using assms
proof (induction as arbitrary: p)
  case (Cons a as)
  obtain n where n: "p = Some a" "ns a = Some n" "linked ns (n_next n) as" "a \<notin> set as"
    using linked_ConsE [OF Cons.prems(1)] .
  show ?case
  proof (cases "as = []")
    case False
    have "path (cat_nodes ns as t tot) (n_next n) as (Some t)"
      using Cons.IH [OF n(3) False] .
    moreover have "cat_nodes ns as t tot b = cat_nodes ns (a # as) t tot b" if "b \<in> set as" for b
      using that n(4) False by (simp add: cat_nodes_def)
    ultimately have "path (cat_nodes ns (a # as) t tot) (n_next n) as (Some t)"
      using path_cong [of as] by (metis (no_types, lifting))
    then show ?thesis
      using n False by (auto simp: cat_nodes_def [of _ "a # as" _ _ a] dest: last_in_set)
  qed (use n in \<open>simp add: cat_nodes_def\<close>)
qed simp

text \<open>Every pbuf of the prefix of a chain counts \<open>r\<close> bytes behind the prefix in its tot.\<close>

fun prefix_ok :: "pbuf list \<Rightarrow> nat \<Rightarrow> bool" where
  "prefix_ok [] r = True"
| "prefix_ok (p # ps) r =
     (unat (p_len p) \<le> length (p_payload p)
      \<and> unat (p_tot_len p) = unat (p_len p) + (case ps of [] \<Rightarrow> r | q # _ \<Rightarrow> unat (p_tot_len q))
      \<and> prefix_ok ps r)"

lemma chain_ok_prefix: "chain_ok ps = prefix_ok ps 0"
  by (induction ps) (auto simp: chain_tot_len_def split: list.splits)

lemma prefix_ok_append:
  "prefix_ok (ps @ qs) r \<longleftrightarrow> prefix_ok ps (case qs of [] \<Rightarrow> r | q # _ \<Rightarrow> unat (p_tot_len q)) \<and> prefix_ok qs r"
  by (induction ps) (auto split: list.splits)

lemma prefix_ok_tot: "prefix_ok (p # ps) r \<Longrightarrow> unat (p_tot_len p) = length (chain_bytes (p # ps)) + r"
proof (induction ps arbitrary: p)
  case (Cons q ps)
  have "unat (p_tot_len q) = length (chain_bytes (q # ps)) + r"
    by (rule Cons.IH) (use Cons.prems in simp)
  then show ?case
    using Cons.prems by (simp add: pbuf_bytes_def)
qed (simp add: pbuf_bytes_def)

lemma cat_nodes_prefix:
  assumes "prefix_ok (chain_of ns as) 0" "\<And>a. a \<in> set as \<Longrightarrow> ns a \<noteq> None"
    and "length (chain_bytes (chain_of ns as)) + unat tot < 2 ^ 16" and "set as \<subseteq> set bs"
  shows "prefix_ok (chain_of (cat_nodes ns bs t tot) as) (unat tot)"
  using assms
proof (induction as)
  case (Cons a as)
  obtain n where n: "ns a = Some n"
    using Cons.prems(2) by auto
  have len: "unat (n_tot_len n) = length (chain_bytes (chain_of ns (a # as)))"
    using prefix_ok_tot [of "pbuf_of n" "chain_of ns as" 0] Cons.prems(1) n by simp
  then have sum: "unat (n_tot_len n + tot) = unat (n_tot_len n) + unat tot"
    using Cons.prems(3) by (intro unat_add_nowrap) simp
  have ih: "prefix_ok (chain_of (cat_nodes ns bs t tot) as) (unat tot)"
    using Cons by simp
  show ?case
  proof (cases as)
    case Nil
    then show ?thesis
      using Cons.prems n sum by (simp add: cat_nodes_at)
  next
    case (Cons b cs)
    obtain m where m: "ns b = Some m"
      using Cons.prems(2) Cons by auto
    have "unat (n_tot_len m) = length (chain_bytes (chain_of ns as))"
      using prefix_ok_tot [of "pbuf_of m" "chain_of ns cs" 0] Cons.prems(1) Cons m by simp
    then have "unat (n_tot_len m + tot) = unat (n_tot_len m) + unat tot"
      using Cons.prems(3) by (intro unat_add_nowrap) simp
    then show ?thesis
      using ih Cons Cons.prems(1,4) n m sum by (simp add: cat_nodes_at)
  qed
qed simp

subsection \<open>Lengths of chains\<close>

lemma pbuf_clen_loop_length:
  "linked (nodes hp) p as \<Longrightarrow> pbuf_clen_loop p k hp = Some (k + of_nat (length as))"
proof (induction as arbitrary: p k)
  case Nil
  then show ?case by (subst pbuf_clen_loop.simps) simp
next
  case (Cons a as)
  obtain n where "p = Some a" "nodes hp a = Some n" "linked (nodes hp) (n_next n) as"
    using linked_ConsE [OF Cons.prems] .
  then show ?case
    using Cons.IH by (subst pbuf_clen_loop.simps) (simp add: add.assoc)
qed

subsection \<open>Trimming\<close>

text \<open>
  The search stops at the pbuf that holds the last byte to be kept; the pbufs before it have
  their total adjusted.
\<close>

lemma pbuf_realloc_loop_nodes:
  assumes "linked (nodes hp) (Some a) (a # as)" "prefix_ok (chain_of (nodes hp) (a # as)) 0"
    and "unat rem_len \<le> length (chain_bytes (chain_of (nodes hp) (a # as)))"
    and "unat (n_tot_len (the (nodes hp a)) + grow) = unat rem_len"
  shows "\<exists>xs q ys hp' rem'. a # as = xs @ q # ys \<and> pbuf_realloc_loop a rem_len grow hp = Some (q, rem', hp')
    \<and> (\<exists>n. nodes hp q = Some n \<and> rem' \<le> n_len n)
    \<and> (\<forall>b. b \<notin> set xs \<longrightarrow> nodes hp' b = nodes hp b)
    \<and> path (nodes hp') (Some a) xs (Some q)
    \<and> chain_bytes (chain_of (nodes hp') xs) = chain_bytes (chain_of (nodes hp) xs)
    \<and> unat rem_len = length (chain_bytes (chain_of (nodes hp) xs)) + unat rem'
    \<and> prefix_ok (chain_of (nodes hp') xs) (unat rem')
    \<and> (case chain_of (nodes hp') xs of [] \<Rightarrow> True | p # _ \<Rightarrow> p_tot_len p = rem_len)"
  using assms
proof (induction as arbitrary: a rem_len hp)
  case Nil
  obtain n where n: "nodes hp a = Some n"
    using Nil.prems(1) by (auto split: option.splits)
  then have "rem_len \<le> n_len n"
    using Nil.prems(2,3) by (simp add: pbuf_bytes_def word_le_nat_alt min_def split: if_splits)
  then show ?case
    using n by (subst pbuf_realloc_loop.simps) (auto intro!: exI [of _ "[]"] exI [of _ a])
next
  case (Cons b as)
  obtain n where n: "nodes hp a = Some n" "linked (nodes hp) (n_next n) (b # as)" "a \<notin> set (b # as)"
    using linked_ConsE [OF Cons.prems(1)] .
  show ?case
  proof (cases "rem_len > n_len n")
    case False
    then show ?thesis
      using n(1) by (subst pbuf_realloc_loop.simps)
        (rule exI [of _ "[]"], rule exI [of _ a], rule exI [of _ "b # as"], auto simp: not_less)
  next
    case True
    let ?hp = "put_node a (n\<lparr>n_tot_len := n_tot_len n + grow\<rparr>) hp"
    let ?rem = "rem_len - n_len n"
    have next_b: "n_next n = Some b"
      using n(2) by simp
    have tail: "chain_of (nodes ?hp) (b # as) = chain_of (nodes hp) (b # as)"
      using n(3) unfolding nodes_put by (subst chain_of_upd) simp_all
    have link: "linked (nodes ?hp) (Some b) (b # as)"
      using n(2,3) next_b unfolding nodes_put by (subst path_upd) simp_all
    have ok: "prefix_ok (chain_of (nodes ?hp) (b # as)) 0"
      unfolding tail using Cons.prems(2) by simp
    have rem: "unat ?rem = unat rem_len - unat (n_len n)" "unat (n_len n) \<le> unat rem_len"
      using True by (simp_all add: unat_sub_nowrap word_le_nat_alt word_less_nat_alt)
    have len_n: "length (pbuf_bytes (pbuf_of n)) = unat (n_len n)"
      using Cons.prems(2) n(1) by (simp add: pbuf_bytes_def)
    have rem_le: "unat ?rem \<le> length (chain_bytes (chain_of (nodes ?hp) (b # as)))"
      unfolding tail using Cons.prems(3) n(1) rem len_n by simp
    obtain m where m: "nodes hp b = Some m" "nodes ?hp b = Some m"
      using link n(3) by (auto split: option.splits)
    have sum: "unat (n_tot_len n) = unat (n_len n) + unat (n_tot_len m)"
      using Cons.prems(2) n(1) m by simp
    have "unat (n_tot_len m) = unat (n_tot_len n - n_len n)"
      by (simp add: unat_sub_nowrap sum)
    then have "n_tot_len m = n_tot_len n - n_len n"
      by (rule unsigned_word_eqI)
    moreover have tot_rem: "n_tot_len n + grow = rem_len"
      using Cons.prems(4) n(1) by (intro unsigned_word_eqI) simp
    ultimately have "n_tot_len m + grow = ?rem"
      by auto
    then have grow: "unat (n_tot_len (the (nodes ?hp b)) + grow) = unat ?rem"
      using m(2) by simp
    from Cons.IH [OF link ok rem_le grow] obtain xs q ys hp' rem' where
      ih: "b # as = xs @ q # ys" "pbuf_realloc_loop b ?rem grow ?hp = Some (q, rem', hp')"
        "\<exists>n. nodes ?hp q = Some n \<and> rem' \<le> n_len n" "\<forall>c. c \<notin> set xs \<longrightarrow> nodes hp' c = nodes ?hp c"
        "path (nodes hp') (Some b) xs (Some q)"
        "chain_bytes (chain_of (nodes hp') xs) = chain_bytes (chain_of (nodes ?hp) xs)"
        "unat ?rem = length (chain_bytes (chain_of (nodes ?hp) xs)) + unat rem'"
        "prefix_ok (chain_of (nodes hp') xs) (unat rem')"
        "case chain_of (nodes hp') xs of [] \<Rightarrow> True | p # _ \<Rightarrow> p_tot_len p = ?rem"
      by blast
    have sub: "set xs \<subseteq> set (b # as)" "q \<in> set (b # as)"
      unfolding ih(1) by auto
    have a_xs: "a \<notin> set xs" "a \<noteq> q"
      using sub n(3) by auto
    have a': "nodes hp' a = Some (n\<lparr>n_tot_len := n_tot_len n + grow\<rparr>)"
      using ih(4) a_xs(1) by simp
    have xs': "chain_of (nodes ?hp) xs = chain_of (nodes hp) xs"
      unfolding nodes_put by (rule chain_of_upd) (rule a_xs)
    have "unat (n_tot_len (n\<lparr>n_tot_len := n_tot_len n + grow\<rparr>)) =
        unat (n_len n) + (case chain_of (nodes hp') xs of [] \<Rightarrow> unat rem' | p # _ \<Rightarrow> unat (p_tot_len p))"
      using ih(7,9) rem tot_rem xs' by (cases xs) simp_all
    then have prefix_step: "prefix_ok (chain_of (nodes hp') (a # xs)) (unat rem')"
      using ih(8) Cons.prems(2) n(1) a' by simp
    show ?thesis
    proof (intro exI conjI)
      show "a # b # as = (a # xs) @ q # ys"
        using ih(1) by simp
      show "pbuf_realloc_loop a rem_len grow hp = Some (q, rem', hp')"
        using n(1) True next_b ih(2) by (subst pbuf_realloc_loop.simps) simp
      show "nodes hp q = Some (the (nodes hp q))" "rem' \<le> n_len (the (nodes hp q))"
        using ih(3) a_xs(2) by auto
      show "\<forall>c. c \<notin> set (a # xs) \<longrightarrow> nodes hp' c = nodes hp c"
        using ih(4) by simp
      show "path (nodes hp') (Some a) (a # xs) (Some q)"
        using a' next_b ih(5) by simp
      show "chain_bytes (chain_of (nodes hp') (a # xs)) = chain_bytes (chain_of (nodes hp) (a # xs))"
        using a' n(1) ih(6) xs' by (simp add: pbuf_bytes_def)
      show "unat rem_len = length (chain_bytes (chain_of (nodes hp) (a # xs))) + unat rem'"
        using n(1) ih(7) xs' rem len_n by simp
      show "prefix_ok (chain_of (nodes hp') (a # xs)) (unat rem')"
        using prefix_step .
      show "case chain_of (nodes hp') (a # xs) of [] \<Rightarrow> True | p # _ \<Rightarrow> p_tot_len p = rem_len"
        using a' tot_rem by simp
    qed
  qed
qed

text \<open>The result of \<open>pbuf_realloc\<close>: a first part of the chain, with the bytes asked for.\<close>

lemma pbuf_realloc_chain:
  assumes "linked (nodes hp) (Some a) (a # as)" "chain_ok (chain_of (nodes hp) (a # as))"
    and "unat new_len < length (chain_bytes (chain_of (nodes hp) (a # as)))"
  shows "\<exists>hp' bs cs. pbuf_realloc a new_len hp = Some hp' \<and> a # as = bs @ cs \<and> bs \<noteq> []
    \<and> linked (nodes hp') (Some a) bs \<and> chain_ok (chain_of (nodes hp') bs)
    \<and> chain_bytes (chain_of (nodes hp') bs) = take (unat new_len) (chain_bytes (chain_of (nodes hp) (a # as)))
    \<and> (\<forall>b. b \<notin> set bs \<longrightarrow> nodes hp' b = freed_nodes (nodes hp) cs b)"
proof -
  obtain pn where pn: "nodes hp a = Some pn"
    using assms(1) by (auto split: option.splits)
  have ok: "prefix_ok (chain_of (nodes hp) (a # as)) 0"
    using assms(2) unfolding chain_ok_prefix .
  have tot: "unat (n_tot_len pn) = length (chain_bytes (chain_of (nodes hp) (a # as)))"
    using prefix_ok_tot [of "pbuf_of pn" "chain_of (nodes hp) as" 0] ok pn by simp
  have grow: "unat (n_tot_len (the (nodes hp a)) + (new_len - n_tot_len pn)) = unat new_len"
    using pn by simp
  from pbuf_realloc_loop_nodes [OF assms(1) ok less_imp_le [OF assms(3)] grow]
  obtain xs q ys hp1 rem' n where
    r: "a # as = xs @ q # ys" "pbuf_realloc_loop a new_len (new_len - n_tot_len pn) hp = Some (q, rem', hp1)"
      "nodes hp q = Some n" "rem' \<le> n_len n" "\<forall>b. b \<notin> set xs \<longrightarrow> nodes hp1 b = nodes hp b"
      "path (nodes hp1) (Some a) xs (Some q)"
      "chain_bytes (chain_of (nodes hp1) xs) = chain_bytes (chain_of (nodes hp) xs)"
      "unat new_len = length (chain_bytes (chain_of (nodes hp) xs)) + unat rem'"
      "prefix_ok (chain_of (nodes hp1) xs) (unat rem')"
    by blast
  have disj: "distinct (xs @ q # ys)"
    using linked_distinct [OF assms(1)] r(1) by simp
  have q1: "nodes hp1 q = Some n"
    using r(3,5) disj by auto
  have ys: "linked (nodes hp) (n_next n) ys"
    using assms(1) r(3) unfolding r(1) by (auto simp: path_append)
  let ?n' = "n\<lparr>n_len := rem', n_tot_len := rem', n_next := None\<rparr>"
  define ns where "ns = (\<lambda>b. if b = q then Some ?n' else freed_nodes (nodes hp1) ys b)"
  have mid: "nodes (put_node q (n\<lparr>n_len := rem', n_tot_len := rem'\<rparr>) hp1) b = nodes hp b" if "b \<in> set ys" for b
    using that disj r(5) by auto
  have free: "pbuf_free (n_next n) (put_node q (n\<lparr>n_len := rem', n_tot_len := rem'\<rparr>) hp1) =
      Some (of_nat (unshared (nodes hp) ys), hp1\<lparr>nodes := freed_nodes (nodes (put_node q (n\<lparr>n_len := rem', n_tot_len := rem'\<rparr>) hp1)) ys\<rparr>)"
    using pbuf_free_nodes [of "put_node q (n\<lparr>n_len := rem', n_tot_len := rem'\<rparr>) hp1" "n_next n" ys] ys mid
      path_cong [of ys "nodes (put_node q (n\<lparr>n_len := rem', n_tot_len := rem'\<rparr>) hp1)" "nodes hp"]
      unshared_cong [of ys "nodes (put_node q (n\<lparr>n_len := rem', n_tot_len := rem'\<rparr>) hp1)" "nodes hp"]
    by (metis nodes_update_put)
  have "\<exists>hp'. pbuf_realloc a new_len hp = Some hp' \<and> nodes hp' = ns"
  proof (cases "n_next n = None")
    case True
    then have "ys = []"
      using ys by (cases ys) auto
    then show ?thesis
      using pn r(2) q1 True assms(3) tot
      by (auto simp: pbuf_realloc_def ns_def word_le_nat_alt Let_def fun_eq_iff)
  next
    case False
    have "freed_nodes (nodes (put_node q (n\<lparr>n_len := rem', n_tot_len := rem'\<rparr>) hp1)) ys b = freed_nodes (nodes hp1) ys b"
      if "b \<noteq> q" for b
    proof (cases "b \<in> set ys")
      case True
      then show ?thesis
        using that disj unshared_upd [of q ys "nodes hp1"] by (simp add: freed_nodes_def Let_def del: fun_upd_apply) simp
    qed (use that in \<open>simp add: freed_nodes_other\<close>)
    then show ?thesis
      using pn r(2) q1 False assms(3) tot free
      by (auto simp: pbuf_realloc_def ns_def word_le_nat_alt Let_def fun_eq_iff)
  qed
  then obtain hp' where hp': "pbuf_realloc a new_len hp = Some hp'" "nodes hp' = ns"
    by blast
  have keep: "nodes hp' b = nodes hp1 b" if "b \<in> set xs" for b
  proof -
    have "b \<notin> set ys" "b \<noteq> q"
      using that disj by auto
    then show ?thesis
      by (simp add: hp'(2) ns_def freed_nodes_other)
  qed
  have xs: "chain_of (nodes hp') xs = chain_of (nodes hp1) xs" "path (nodes hp') (Some a) xs (Some q)"
    using chain_of_cong [of xs] path_cong [of xs] keep r(6) by blast+
  have q': "nodes hp' q = Some ?n'"
    by (simp add: hp'(2) ns_def)
  show ?thesis
  proof (intro exI conjI)
    show "pbuf_realloc a new_len hp = Some hp'" by (rule hp')
    show "a # as = (xs @ [q]) @ ys" using r(1) by simp
    show "linked (nodes hp') (Some a) (xs @ [q])"
      using xs(2) q' by (auto simp: path_append)
    have room: "unat (n_len n) \<le> length (p_payload (pbuf_of n))"
      using ok r(3) unfolding r(1) by (simp add: prefix_ok_append)
    have le: "unat rem' \<le> unat (n_len n)"
      using r(4) by (simp add: word_le_nat_alt)
    then have fits: "unat rem' \<le> length (p_payload (pbuf_of n))"
      using room by simp
    show "chain_ok (chain_of (nodes hp') (xs @ [q]))"
      using xs(1) q' r(9) fits unfolding chain_ok_prefix by (simp add: prefix_ok_append)
    have "pbuf_bytes (pbuf_of ?n') = take (unat rem') (pbuf_bytes (pbuf_of n))"
      using r(4) by (simp add: pbuf_bytes_def word_le_nat_alt min_def)
    then show "chain_bytes (chain_of (nodes hp') (xs @ [q])) =
        take (unat new_len) (chain_bytes (chain_of (nodes hp) (a # as)))"
      using xs(1) q' r(3,7,8) fits le room unfolding r(1) by (simp add: pbuf_bytes_def)
    show "\<forall>b. b \<notin> set (xs @ [q]) \<longrightarrow> nodes hp' b = freed_nodes (nodes hp) ys b"
    proof (intro allI impI)
      fix b assume b: "b \<notin> set (xs @ [q])"
      have "freed_nodes (nodes hp1) ys b = freed_nodes (nodes hp) ys b"
        by (rule freed_nodes_cong) (use b r(5) disj in auto)
      then show "nodes hp' b = freed_nodes (nodes hp) ys b"
        using b by (simp add: hp'(2) ns_def)
    qed
  qed simp
qed

subsection \<open>Building a chain\<close>

text \<open>
  A new chain: its pbufs were not allocated in \<open>ns0\<close> and have one reference, nothing else
  differs from \<open>ns0\<close>, and \<open>rem\<close> bytes are still to be provided for.
\<close>

definition built :: "(nat \<Rightarrow> pnode option) \<Rightarrow> (nat \<Rightarrow> pnode option) \<Rightarrow> nat \<Rightarrow> nat list \<Rightarrow> nat \<Rightarrow> bool" where
  "built ns0 ns p as rem \<longleftrightarrow> linked ns (Some p) as \<and> as \<noteq> []
     \<and> (\<forall>a\<in>set as. ns0 a = None \<and> n_ref (the (ns a)) = 1)
     \<and> (\<forall>b. b \<notin> set as \<longrightarrow> ns b = ns0 b) \<and> prefix_ok (chain_of ns as) rem"

lemma pbuf_of_next [simp]: "pbuf_of (n\<lparr>n_next := q\<rparr>) = pbuf_of n"
  by (simp add: pbuf_of_def)

lemma chain_of_next: "ns r = Some rn \<Longrightarrow> chain_of (ns(r := Some (rn\<lparr>n_next := q\<rparr>))) as = chain_of ns as"
  by (simp add: chain_of_def)

lemma path_redirect:
  assumes "linked ns p as" "as \<noteq> []" "last as = r" "ns r = Some rn"
  shows "path (ns(r := Some (rn\<lparr>n_next := q\<rparr>))) p as q"
proof -
  define bs where "bs = butlast as"
  have as: "as = bs @ [r]"
    using append_butlast_last_id [OF assms(2)] assms(3) by (simp add: bs_def)
  then have "r \<notin> set bs"
    using linked_distinct [OF assms(1)] by simp
  then show ?thesis
    using assms(1,4) unfolding as path_append by auto
qed

lemma built_last: "built ns0 ns p as rem \<Longrightarrow> \<exists>rn. ns (last as) = Some rn"
  using linked_alloc [of ns "Some p" as None "last as"] by (auto simp: built_def)

lemma built_extend:
  assumes "built ns0 ns p as rem" "ns (last as) = Some rn" "ns q = None"
    and "n_next qn = None" "n_ref qn = 1" "unat (n_tot_len qn) = rem" "rem = unat (n_len qn) + rem'"
    and "unat (n_len qn) \<le> length (n_mem qn)" "n_payload qn = n_base qn"
  shows "built ns0 (ns(last as := Some (rn\<lparr>n_next := Some q\<rparr>), q := Some qn)) p (as @ [q]) rem'"
    (is "built ns0 ?ns p _ _")
proof -
  have as: "linked ns (Some p) as" "as \<noteq> []" "prefix_ok (chain_of ns as) rem"
    "\<forall>a\<in>set as. ns0 a = None \<and> n_ref (the (ns a)) = 1" "\<forall>b. b \<notin> set as \<longrightarrow> ns b = ns0 b"
    using assms(1) by (auto simp: built_def)
  have q: "q \<notin> set as"
    using linked_alloc [OF as(1), of q] assms(3) by auto
  have "path ?ns (Some p) as (Some q)"
    using path_redirect [OF as(1,2) refl assms(2), of "Some q"] q by simp
  moreover have "chain_of ?ns as = chain_of ns as"
    using q chain_of_next [where ns = ns and r = "last as" and rn = rn] assms(2) by simp
  moreover have "n_ref (the (ns (last as))) = 1"
    using as(2,4) last_in_set [of as] by blast
  then have "n_ref rn = 1"
    using assms(2) by simp
  ultimately show ?thesis
    using as assms(2-) q unfolding built_def
    by (auto simp: path_append prefix_ok_append)
qed

lemma built_freed:
  assumes "built ns0 (nodes hp) p as rem"
  shows "\<exists>k hp'. pbuf_free (Some p) hp = Some (k, hp') \<and> nodes hp' = ns0"
proof -
  have "linked (nodes hp) (Some p) as" "\<forall>a\<in>set as. n_ref (the (nodes hp a)) = 1"
    using assms by (auto simp: built_def)
  moreover from this have "freed_nodes (nodes hp) as = ns0"
    using assms by (auto simp: freed_nodes_all(1) built_def fun_eq_iff)
  ultimately show ?thesis
    using pbuf_free_nodes by fastforce
qed

lemma nodes_env [simp]:
  "nodes (pbuf_pool_is_empty hp) = nodes hp" "nodes (hp\<lparr>requests := i\<rparr>) = nodes hp"
  by (simp_all add: pbuf_pool_is_empty_def Let_def)

lemma request_Some:
  assumes "malloc_ok malloc" "request malloc typ k hp = (Some (a, mem), hp')"
  shows "nodes hp a = None" "a mod 4 = 0" "length mem = k" "nodes hp' = nodes hp"
proof -
  have m: "malloc (requests hp) (\<lambda>b. nodes hp b \<noteq> None) typ k = Some (a, mem)"
    using assms(2) by (simp add: request_def)
  have "\<not> nodes hp a \<noteq> None \<and> a mod 4 = 0 \<and> length mem = k"
    using assms(1) m unfolding malloc_ok_def by blast
  then show "nodes hp a = None" "a mod 4 = 0" "length mem = k"
    by simp_all
  show "nodes hp' = nodes hp"
    using assms(2) by (auto simp: request_def)
qed

lemma bufsize: "PBUF_POOL_BUFSIZE_ALIGNED = 312"
  by (simp add: PBUF_POOL_BUFSIZE_ALIGNED_def LWIP_MEM_ALIGN_SIZE_def TCP_MSS_def
      PBUF_LINK_ENCAPSULATION_HLEN_def PBUF_LINK_HLEN_def)

lemma u16_of_int: "0 \<le> i \<Longrightarrow> i < 65536 \<Longrightarrow> unat (word_of_int i :: u16) = nat i"
  by (simp add: unsigned_of_int take_bit_eq_mod)

lemma alloc_tail_built:
  assumes "malloc_ok malloc" "built ns0 (nodes hp) p as (nat rem)" "last as = r" "0 \<le> rem" "rem < 65536"
  shows "\<exists>res hp'. alloc_tail malloc p r rem hp = Some (res, hp') \<and>
    (case res of None \<Rightarrow> nodes hp' = ns0
     | Some q \<Rightarrow> q = p \<and> (\<exists>bs. built ns0 (nodes hp') p (as @ bs) 0
                        \<and> p_tot_len (pbuf_of (the (nodes hp' p))) = p_tot_len (pbuf_of (the (nodes hp p)))))"
  using assms(2-)
proof (induction "nat rem" arbitrary: rem r as hp rule: less_induct)
  case less
  show ?case
  proof (cases "rem \<le> 0")
    case True
    then show ?thesis
      using less.prems by (subst alloc_tail.simps) (auto intro!: exI [of _ "[]"])
  next
    case pos: False
    obtain res hp1 where req: "request malloc PBUF_POOL PBUF_POOL_BUFSIZE_ALIGNED hp = (res, hp1)"
      by (cases "request malloc PBUF_POOL PBUF_POOL_BUFSIZE_ALIGNED hp")
    have same: "nodes hp1 = nodes hp"
      using req by (auto simp: request_def)
    show ?thesis
    proof (cases res)
      case None
      have "built ns0 (nodes (pbuf_pool_is_empty hp1)) p as (nat rem)"
        using less.prems(1) same by simp
      then show ?thesis
        using built_freed pos req None by (subst alloc_tail.simps) fastforce
    next
      case (Some qm)
      obtain q mem where q: "res = Some (q, mem)"
        using Some by (cases qm) auto
      note fresh = request_Some [OF assms(1) req [unfolded q]]
      obtain rn where rn: "nodes hp r = Some rn"
        using built_last [OF less.prems(1)] less.prems(2) by auto
      define qlen where "qlen = min (unat (word_of_int rem :: u16)) PBUF_POOL_BUFSIZE_ALIGNED"
      define qn where "qn = \<lparr>n_next = None, n_payload = q + SIZEOF_STRUCT_PBUF,
        n_tot_len = word_of_int rem, n_len = of_nat qlen, n_type = PBUF_POOL,
        n_flags = 0, n_ref = 1, n_base = q + SIZEOF_STRUCT_PBUF, n_mem = mem\<rparr>"
      define hp2 where "hp2 = put_node q qn (put_node r (rn\<lparr>n_next := Some q\<rparr>) hp1)"
      have qlen: "qlen = min (nat rem) 312" "0 < qlen" "unat (of_nat qlen :: u16) = qlen"
        using pos less.prems(3,4) by (simp_all add: qlen_def u16_of_int bufsize unat_of_nat_16)
      have "built ns0 ((nodes hp)(last as := Some (rn\<lparr>n_next := Some q\<rparr>), q := Some qn)) p (as @ [q])
          (nat (rem - int qlen))"
        by (rule built_extend [OF less.prems(1)])
          (use rn fresh less.prems(2-4) qlen in \<open>auto simp: qn_def u16_of_int bufsize nat_diff_distrib\<close>)
      then have b: "built ns0 (nodes hp2) p (as @ [q]) (nat (rem - int qlen))"
        using less.prems(2) same by (simp add: hp2_def)
      have less': "nat (rem - int qlen) < nat rem" "0 \<le> rem - int qlen" "rem - int qlen < 65536"
        using pos qlen less.prems(3,4) by auto
      from less.hyps [OF less'(1) b _ less'(2,3)]
      obtain res' hp' where ih: "alloc_tail malloc p q (rem - int qlen) hp2 = Some (res', hp')"
        "case res' of None \<Rightarrow> nodes hp' = ns0
         | Some q' \<Rightarrow> q' = p \<and> (\<exists>bs. built ns0 (nodes hp') p ((as @ [q]) @ bs) 0
            \<and> p_tot_len (pbuf_of (the (nodes hp' p))) = p_tot_len (pbuf_of (the (nodes hp2 p))))"
        by auto
      have "alloc_tail malloc p r rem hp = Some (res', hp')"
        using pos req q rn same ih(1) qlen(2)
        by (subst alloc_tail.simps) (simp add: hp2_def qn_def qlen_def Let_def)
      moreover have "p \<noteq> q"
        using less.prems(1) fresh(1) by (cases as) (auto simp: built_def split: option.splits)
      then have "pbuf_of (the (nodes hp2 p)) = pbuf_of (the (nodes hp p))"
        using rn same by (simp add: hp2_def)
      ultimately show ?thesis
        using ih(2) by (auto split: option.splits)
    qed
  qed
qed

lemma offset_room: "LWIP_MEM_ALIGN_SIZE (layer_offset layer) \<le> 56"
  by (cases layer) (simp_all add: LWIP_MEM_ALIGN_SIZE_def PBUF_LINK_ENCAPSULATION_HLEN_def
      PBUF_LINK_HLEN_def PBUF_IP_HLEN_def PBUF_TRANSPORT_HLEN_def)

lemma align_sum: "a mod 4 = 0 \<Longrightarrow> LWIP_MEM_ALIGN_SIZE (a + k) = a + LWIP_MEM_ALIGN_SIZE k"
  unfolding LWIP_MEM_ALIGN_SIZE_def by presburger

lemma align_ge: "k \<le> LWIP_MEM_ALIGN_SIZE k"
  unfolding LWIP_MEM_ALIGN_SIZE_def by presburger

lemma align_struct: "a mod 4 = 0 \<Longrightarrow>
   LWIP_MEM_ALIGN_SIZE (a + (SIZEOF_STRUCT_PBUF + k)) = a + SIZEOF_STRUCT_PBUF + LWIP_MEM_ALIGN_SIZE k"
  unfolding SIZEOF_STRUCT_PBUF_def LWIP_MEM_ALIGN_SIZE_def by presburger

text \<open>A request to the pool ends with the whole chain or with the store as it was.\<close>

lemma pbuf_alloc_pool:
  assumes "malloc_ok malloc"
  shows "\<exists>res hp'. pbuf_alloc malloc layer len PBUF_POOL hp = Some (res, hp') \<and>
    (case res of None \<Rightarrow> nodes hp' = nodes hp
     | Some p \<Rightarrow> \<exists>as. built (nodes hp) (nodes hp') p as 0 \<and> n_tot_len (the (nodes hp' p)) = len)"
proof -
  obtain r hp1 where req: "request malloc PBUF_POOL PBUF_POOL_BUFSIZE_ALIGNED hp = (r, hp1)"
    by (cases "request malloc PBUF_POOL PBUF_POOL_BUFSIZE_ALIGNED hp")
  have same: "nodes hp1 = nodes hp"
    using req by (auto simp: request_def)
  show ?thesis
  proof (cases r)
    case None
    then show ?thesis
      using req same by (simp add: pbuf_alloc_def)
  next
    case (Some pm)
    obtain p mem where pm: "r = Some (p, mem)"
      using Some by (cases pm) auto
    note fresh = request_Some [OF assms req [unfolded pm]]
    define off where "off = LWIP_MEM_ALIGN_SIZE (layer_offset layer)"
    define plen where "plen = min (unat len) (PBUF_POOL_BUFSIZE_ALIGNED - off)"
    define pn where "pn = \<lparr>n_next = None,
        n_payload = LWIP_MEM_ALIGN_SIZE (p + (SIZEOF_STRUCT_PBUF + layer_offset layer)),
        n_tot_len = len, n_len = of_nat plen, n_type = PBUF_POOL, n_flags = 0, n_ref = 1,
        n_base = p + SIZEOF_STRUCT_PBUF, n_mem = mem\<rparr>"
    have off: "off \<le> 56"
      unfolding off_def by (rule offset_room)
    have ulen: "unat len < 65536"
      using unsigned_less [of len, where 'a = nat] by simp
    have plen: "unat (of_nat plen :: u16) = plen" "plen \<le> unat len" "plen + off \<le> 312"
      using off unsigned_less [of len, where 'a = nat]
      by (auto simp: plen_def bufsize unat_of_nat_16)
    have "n_payload pn = n_base pn + off"
      using fresh(2) by (simp add: pn_def off_def align_struct)
    then have "built (nodes hp) (nodes (put_node p pn hp1)) p [p] (unat len - plen)"
      using plen fresh same by (simp add: built_def) (simp add: pn_def bufsize)
    moreover have "nat (int (unat len) - int plen) = unat len - plen"
      using plen(2) by linarith
    ultimately have "built (nodes hp) (nodes (put_node p pn hp1)) p [p] (nat (int (unat len) - int plen))"
      by (simp only:)
    moreover have "0 \<le> int (unat len) - int plen" "int (unat len) - int plen < 65536"
      using plen(2) ulen by linarith+
    ultimately obtain res hp' where
      res: "alloc_tail malloc p p (int (unat len) - int plen) (put_node p pn hp1) = Some (res, hp')"
        "case res of None \<Rightarrow> nodes hp' = nodes hp
         | Some q \<Rightarrow> q = p \<and> (\<exists>bs. built (nodes hp) (nodes hp') p ([p] @ bs) 0
            \<and> p_tot_len (pbuf_of (the (nodes hp' p))) = p_tot_len (pbuf_of (the (nodes (put_node p pn hp1) p))))"
      using alloc_tail_built [OF assms, of "nodes hp" "put_node p pn hp1" p "[p]" _ p] by force
    have "pbuf_alloc malloc layer len PBUF_POOL hp = Some (res, hp')"
      using req pm res(1) by (simp add: pbuf_alloc_def pn_def plen_def off_def Let_def)
    then show ?thesis
      using res(2) by (auto simp: pn_def split: option.splits)
  qed
qed

lemma pbuf_alloc_ram:
  assumes "malloc_ok malloc"
  shows "\<exists>res hp'. pbuf_alloc malloc layer len PBUF_RAM hp = Some (res, hp') \<and>
    (case res of None \<Rightarrow> nodes hp' = nodes hp
     | Some p \<Rightarrow> \<exists>n. nodes hp p = None \<and> nodes hp' = (nodes hp)(p := Some n) \<and> n_next n = None
         \<and> n_ref n = 1 \<and> n_len n = len \<and> n_tot_len n = len \<and> n_type n = PBUF_RAM
         \<and> n_base n = p + SIZEOF_STRUCT_PBUF
         \<and> n_payload n = n_base n + LWIP_MEM_ALIGN_SIZE (layer_offset layer)
         \<and> LWIP_MEM_ALIGN_SIZE (layer_offset layer) + unat len \<le> length (n_mem n))"
proof -
  let ?size = "LWIP_MEM_ALIGN_SIZE (SIZEOF_STRUCT_PBUF + layer_offset layer) + LWIP_MEM_ALIGN_SIZE (unat len)
      - SIZEOF_STRUCT_PBUF"
  obtain r hp1 where req: "request malloc PBUF_RAM ?size hp = (r, hp1)"
    by (cases "request malloc PBUF_RAM ?size hp")
  have same: "nodes hp1 = nodes hp"
    using req by (auto simp: request_def)
  have size: "?size = LWIP_MEM_ALIGN_SIZE (layer_offset layer) + LWIP_MEM_ALIGN_SIZE (unat len)"
    using align_struct [of 0 "layer_offset layer"] by simp
  show ?thesis
  proof (cases r)
    case None
    then show ?thesis
      using req same by (simp add: pbuf_alloc_def)
  next
    case (Some pm)
    obtain p mem where pm: "r = Some (p, mem)"
      using Some by (cases pm) auto
    note fresh = request_Some [OF assms req [unfolded pm]]
    have "LWIP_MEM_ALIGN_SIZE (p + SIZEOF_STRUCT_PBUF + layer_offset layer) =
        p + SIZEOF_STRUCT_PBUF + LWIP_MEM_ALIGN_SIZE (layer_offset layer)"
      using align_struct [OF fresh(2)] by (simp add: add.assoc)
    moreover define n where "n = \<lparr>n_next = None,
        n_payload = LWIP_MEM_ALIGN_SIZE (p + SIZEOF_STRUCT_PBUF + layer_offset layer),
        n_tot_len = len, n_len = len, n_type = PBUF_RAM, n_flags = 0, n_ref = 1,
        n_base = p + SIZEOF_STRUCT_PBUF, n_mem = mem\<rparr>"
    moreover have "pbuf_alloc malloc layer len PBUF_RAM hp = Some (Some p, put_node p n hp1)"
      using req pm by (simp add: pbuf_alloc_def Let_def n_def)
    ultimately show ?thesis
      using same fresh align_ge [of "unat len"] size
      by (intro exI [of _ "Some p"] exI [of _ "put_node p n hp1"]) (auto intro!: exI [of _ n])
  qed
qed

subsection \<open>Copying into one pbuf\<close>

text \<open>The memory of a pbuf covers its length; no pbuf of a packet is empty.\<close>

definition room :: "pnode \<Rightarrow> bool" where
  "room n \<longleftrightarrow> n_base n \<le> n_payload n \<and> n_payload n - n_base n + unat (n_len n) \<le> length (n_mem n)"

definition no_empty :: "(nat \<Rightarrow> pnode option) \<Rightarrow> nat list \<Rightarrow> bool" where
  "no_empty ns as \<longleftrightarrow> (\<forall>a\<in>set as. n_len (the (ns a)) \<noteq> 0)"

lemma no_empty_Cons [simp]: "no_empty ns (a # as) \<longleftrightarrow> n_len (the (ns a)) \<noteq> 0 \<and> no_empty ns as"
  by (simp add: no_empty_def)

lemma node_write_sel [simp]:
  "n_next (node_write off src n) = n_next n" "n_len (node_write off src n) = n_len n"
  "n_tot_len (node_write off src n) = n_tot_len n" "n_ref (node_write off src n) = n_ref n"
  "n_payload (node_write off src n) = n_payload n" "n_base (node_write off src n) = n_base n"
  by (simp_all add: node_write_def)

lemma node_write_write:
  assumes "room n" "off + length xs + length ys \<le> unat (n_len n)"
  shows "node_write (off + length xs) ys (node_write off xs n) = node_write off (xs @ ys) n"
proof -
  define d where "d = n_payload n - n_base n"
  have "d + off + length xs + length ys \<le> length (n_mem n)"
    using assms unfolding room_def d_def [symmetric] by simp
  then have "mem_write (d + (off + length xs)) ys (mem_write (d + off) xs (n_mem n)) = mem_write (d + off) (xs @ ys) (n_mem n)"
    using mem_write_mem_write [of "d + off" xs ys "n_mem n"] by (simp add: add.assoc)
  then show ?thesis
    unfolding node_write_def by (simp add: d_def)
qed

lemma room_write: "room n \<Longrightarrow> off + length src \<le> unat (n_len n) \<Longrightarrow> room (node_write off src n)"
proof -
  assume n: "room n" "off + length src \<le> unat (n_len n)"
  define d where "d = n_payload n - n_base n"
  have "d + off + length src \<le> length (n_mem n)"
    using n unfolding room_def d_def [symmetric] by simp
  then have "length (n_mem (node_write off src n)) = length (n_mem n)"
    unfolding node_write_def d_def [symmetric] by simp
  then show "room (node_write off src n)"
    using n(1) unfolding room_def node_write_sel by linarith
qed

lemma node_read_all: "node_read n 0 (unat (n_len n)) = pbuf_bytes (pbuf_of n)"
  by (simp add: node_read_def pbuf_bytes_def)

lemma word_add_unat: "unat (a :: u16) + unat b \<le> unat (c :: u16) \<Longrightarrow> unat (a + b) = unat a + unat b"
  using le_less_trans [OF _ unsigned_less [of c, where 'a = nat]] by (intro unat_add_nowrap) blast

lemma pbuf_copy_loop_single:
  assumes "linked (nodes hp) (Some f) (f # fs)" "prefix_ok (chain_of (nodes hp) (f # fs)) 0"
    and "no_empty (nodes hp) (f # fs)" "nodes hp t = Some tn" "t \<notin> set (f # fs)" "n_next tn = None"
    and "unat off + length (chain_bytes (chain_of (nodes hp) (f # fs))) \<le> unat (n_len tn)" "room tn"
  shows "pbuf_copy_loop t f off 0 hp = Some (ERR_OK,
    put_node t (node_write (unat off) (chain_bytes (chain_of (nodes hp) (f # fs))) tn) hp)"
  using assms
proof (induction fs arbitrary: f off hp tn)
  case Nil
  obtain n where n: "nodes hp f = Some n" "n_next n = None"
    using Nil.prems(1) by (auto split: option.splits)
  have len: "length (pbuf_bytes (pbuf_of n)) = unat (n_len n)"
    using Nil.prems(2) n by (simp add: pbuf_bytes_def)
  then have "unat off + unat (n_len n) \<le> unat (n_len tn)"
    using Nil.prems(7) n by simp
  then have "uint (n_len n) \<le> uint (n_len tn) - uint off"
    unfolding uint_nat by linarith
  then show ?case
    using n Nil.prems(4,6)
    by (subst pbuf_copy_loop.simps) (simp add: node_read_all is_queue_def Let_def)
next
  case (Cons g fs)
  obtain n where n: "nodes hp f = Some n" "linked (nodes hp) (n_next n) (g # fs)" "f \<notin> set (g # fs)"
    using linked_ConsE [OF Cons.prems(1)] .
  have next_g: "n_next n = Some g"
    using n(2) by simp
  obtain m where m: "nodes hp g = Some m"
    using n(2) by (auto split: option.splits)
  have len: "length (pbuf_bytes (pbuf_of n)) = unat (n_len n)"
    using Cons.prems(2) n by (simp add: pbuf_bytes_def)
  define rest where "rest = chain_bytes (chain_of (nodes hp) (g # fs))"
  have rest_pos: "0 < length rest"
    using Cons.prems(2,3) m by (auto simp: rest_def pbuf_bytes_def unat_gt_0)
  have fits: "unat off + unat (n_len n) + length rest \<le> unat (n_len tn)"
    using Cons.prems(7) n len by (simp add: rest_def)
  then have le: "uint (n_len n) \<le> uint (n_len tn) - uint off"
    unfolding uint_nat by linarith
  have sum: "unat (off + n_len n) = unat off + unat (n_len n)"
    using fits by (intro word_add_unat [of _ _ "n_len tn"]) simp
  then have not_full: "off + n_len n \<noteq> n_len tn"
    using fits rest_pos by auto
  let ?tn = "node_write (unat off) (pbuf_bytes (pbuf_of n)) tn"
  let ?hp = "put_node t ?tn hp"
  have tg: "t \<noteq> g" "t \<notin> set (g # fs)" "t \<noteq> f"
    using Cons.prems(5) by auto
  have same: "chain_of (nodes ?hp) (g # fs) = chain_of (nodes hp) (g # fs)"
    using tg unfolding nodes_put by (subst chain_of_upd) simp_all
  have "unat (n_tot_len m) = length rest"
    using prefix_ok_tot [of "pbuf_of m" "chain_of (nodes hp) fs" 0] Cons.prems(2) m
    by (simp add: rest_def)
  have fq: "\<not> (n_len m = n_tot_len m \<and> n_next m \<noteq> None)"
  proof
    assume q: "n_len m = n_tot_len m \<and> n_next m \<noteq> None"
    then obtain k ks where fs: "fs = k # ks"
      using n(2) m by (cases fs) auto
    then have "n_len (the (nodes hp k)) \<noteq> 0" "unat (n_tot_len m) = unat (n_len m) + unat (n_tot_len (the (nodes hp k)))"
      "unat (n_len (the (nodes hp k))) \<le> unat (n_tot_len (the (nodes hp k)))"
      using Cons.prems(2,3) m by auto
    then show False
      using q by (simp add: unat_eq_zero)
  qed
  have "pbuf_copy_loop t g (off + n_len n) 0 ?hp = Some (ERR_OK,
      put_node t (node_write (unat (off + n_len n)) (chain_bytes (chain_of (nodes ?hp) (g # fs))) ?tn) ?hp)"
  proof (rule Cons.IH)
    show "linked (nodes ?hp) (Some g) (g # fs)"
      using n(2) next_g tg unfolding nodes_put by (subst path_upd) simp_all
    show "prefix_ok (chain_of (nodes ?hp) (g # fs)) 0"
      unfolding same using Cons.prems(2) by simp
    show "no_empty (nodes ?hp) (g # fs)"
      using Cons.prems(3) tg by (auto simp: no_empty_def)
    show "unat (off + n_len n) + length (chain_bytes (chain_of (nodes ?hp) (g # fs))) \<le> unat (n_len ?tn)"
      unfolding same using fits sum by (simp add: rest_def)
    show "room ?tn"
      using Cons.prems(8) fits len by (intro room_write) simp_all
  qed (use Cons.prems(6) tg in simp_all)
  moreover have "node_write (unat (off + n_len n)) rest ?tn = node_write (unat off) (pbuf_bytes (pbuf_of n) @ rest) tn"
    using node_write_write [OF Cons.prems(8), of "unat off" "pbuf_bytes (pbuf_of n)" rest] fits sum len by simp
  ultimately have "pbuf_copy_loop t g (off + n_len n) 0 ?hp = Some (ERR_OK,
      put_node t (node_write (unat off) (pbuf_bytes (pbuf_of n) @ rest) tn) hp)"
    unfolding same rest_def [symmetric] by (simp add: put_node_def)
  then show ?case
    using n(1) next_g m Cons.prems(4,6) le not_full fq tg
    by (subst pbuf_copy_loop.simps) (auto simp: node_read_all is_queue_def Let_def rest_def)
qed

lemma pbuf_of_bytes_write:
  assumes "room n" "length src = unat (n_len n)"
  shows "pbuf_bytes (pbuf_of (node_write 0 src n)) = src"
proof -
  define d where "d = n_payload n - n_base n"
  have "d + length src \<le> length (n_mem n)"
    using assms unfolding room_def d_def [symmetric] by simp
  then show ?thesis
    using assms(2) unfolding pbuf_bytes_def pbuf_of_sel node_write_sel d_def [symmetric]
    by (simp add: node_write_def d_def [symmetric] mem_write_def)
qed

lemma pbuf_coalesce_chain:
  assumes "malloc_ok malloc" "linked (nodes hp) (Some p) (p # q # as)"
    and "chain_ok (chain_of (nodes hp) (p # q # as))" "no_empty (nodes hp) (p # q # as)"
  shows "\<exists>r hp'. pbuf_coalesce malloc p layer hp = Some (r, hp') \<and>
    (if r = p then nodes hp' = nodes hp
     else nodes hp r = None \<and> linked (nodes hp') (Some r) [r] \<and> n_ref (the (nodes hp' r)) = 1
       \<and> chain_ok (chain_of (nodes hp') [r])
       \<and> chain_bytes (chain_of (nodes hp') [r]) = chain_bytes (chain_of (nodes hp) (p # q # as))
       \<and> (\<forall>b. b \<noteq> r \<longrightarrow> nodes hp' b = freed_nodes (nodes hp) (p # q # as) b))"
proof -
  let ?as = "p # q # as"
  obtain n where n: "nodes hp p = Some n" "linked (nodes hp) (n_next n) (q # as)"
    using linked_ConsE [OF assms(2)] .
  have next_q: "n_next n \<noteq> None"
    using n(2) by auto
  have ok: "prefix_ok (chain_of (nodes hp) ?as) 0"
    using assms(3) unfolding chain_ok_prefix .
  have tot: "unat (n_tot_len n) = length (chain_bytes (chain_of (nodes hp) ?as))"
    using prefix_ok_tot [of "pbuf_of n" "chain_of (nodes hp) (q # as)" 0] ok n(1) by simp
  obtain res hp1 where alloc: "pbuf_alloc malloc layer (n_tot_len n) PBUF_RAM hp = Some (res, hp1)"
    "case res of None \<Rightarrow> nodes hp1 = nodes hp
     | Some r \<Rightarrow> \<exists>rn. nodes hp r = None \<and> nodes hp1 = (nodes hp)(r := Some rn) \<and> n_next rn = None
         \<and> n_ref rn = 1 \<and> n_len rn = n_tot_len n \<and> n_tot_len rn = n_tot_len n \<and> n_type rn = PBUF_RAM
         \<and> n_base rn = r + SIZEOF_STRUCT_PBUF
         \<and> n_payload rn = n_base rn + LWIP_MEM_ALIGN_SIZE (layer_offset layer)
         \<and> LWIP_MEM_ALIGN_SIZE (layer_offset layer) + unat (n_tot_len n) \<le> length (n_mem rn)"
    using pbuf_alloc_ram [OF assms(1)] by blast
  show ?thesis
  proof (cases res)
    case None
    then show ?thesis
      using n next_q alloc by (auto simp: pbuf_coalesce_def)
  next
    case (Some r)
    then obtain rn where r: "nodes hp r = None" "nodes hp1 = (nodes hp)(r := Some rn)" "n_next rn = None"
      "n_ref rn = 1" "n_len rn = n_tot_len n" "n_tot_len rn = n_tot_len n" "room rn"
      using alloc(2) by (auto simp: room_def)
    have fresh: "r \<notin> set ?as"
      using linked_alloc [OF assms(2), of r] r(1) by blast
    have same: "chain_of (nodes hp1) ?as = chain_of (nodes hp) ?as" "linked (nodes hp1) (Some p) ?as"
      using fresh assms(2) unfolding r(2) by (subst chain_of_upd path_upd; simp)+
    have p1: "nodes hp1 p = Some n" "nodes hp1 r = Some rn"
      using fresh n(1) r(2) by auto
    let ?bytes = "chain_bytes (chain_of (nodes hp) ?as)"
    let ?rn = "node_write 0 ?bytes rn"
    have "pbuf_copy_loop r p 0 0 hp1 = Some (ERR_OK, put_node r (node_write (unat (0 :: u16))
        (chain_bytes (chain_of (nodes hp1) ?as)) rn) hp1)"
    proof (rule pbuf_copy_loop_single [OF same(2)])
      show "prefix_ok (chain_of (nodes hp1) ?as) 0"
        unfolding same(1) by (rule ok)
      show "no_empty (nodes hp1) ?as"
        using assms(4) fresh unfolding r(2) no_empty_def by auto
      show "unat (0 :: u16) + length (chain_bytes (chain_of (nodes hp1) ?as)) \<le> unat (n_len rn)"
        unfolding same(1) r(5) tot by simp
    qed (use p1 r fresh in simp_all)
    then have copy: "pbuf_copy (Some r) (Some p) hp1 = Some (ERR_OK, put_node r ?rn hp1)"
      unfolding same(1) using p1 r by (simp add: pbuf_copy_def)
    let ?hp2 = "put_node r ?rn hp1"
    have "linked (nodes ?hp2) (Some p) ?as"
      using same(2) fresh unfolding nodes_put by (subst path_upd)
    from pbuf_free_nodes [OF this]
    obtain k where free: "pbuf_free (Some p) ?hp2 = Some (k, ?hp2\<lparr>nodes := freed_nodes (nodes ?hp2) ?as\<rparr>)"
      by blast
    let ?hp' = "?hp2\<lparr>nodes := freed_nodes (nodes ?hp2) ?as\<rparr>"
    have coalesce: "pbuf_coalesce malloc p layer hp = Some (r, ?hp')"
      unfolding pbuf_coalesce_def using n(1) next_q alloc(1) Some copy free by auto
    have at_r: "nodes ?hp' r = Some ?rn"
      using freed_nodes_other [OF fresh, of "nodes ?hp2"] by simp
    have others: "nodes ?hp' b = freed_nodes (nodes hp) ?as b" if "b \<noteq> r" for b
    proof -
      have keep: "nodes ?hp2 c = nodes hp c" if "c \<noteq> r" for c
        using r(2) that by simp
      have "freed_nodes (nodes ?hp2) ?as b = freed_nodes (nodes hp) ?as b"
        by (rule freed_nodes_cong; rule keep) (use fresh that in auto)
      then show ?thesis
        by simp
    qed
    have bytes: "pbuf_bytes (pbuf_of ?rn) = ?bytes"
      by (rule pbuf_of_bytes_write) (use r tot in simp_all)
    have "chain_ok (chain_of (nodes ?hp') [r])"
      using at_r r room_write [OF r(7), of 0 ?bytes] tot
      by (simp add: chain_tot_len_def) (simp add: room_def)
    moreover have "r \<noteq> p"
      using fresh by auto
    ultimately show ?thesis
      using coalesce at_r others r bytes by (intro exI [of _ r] exI [of _ ?hp']) simp
  qed
qed

subsection \<open>Headers\<close>

lemma sint_minus_pos:
  fixes w :: "16 word"
  assumes "0 < sint w"
  shows "sint (- w) = - sint w"
proof -
  have "sint w < 2 ^ 15"
    using sint_lt [of w] by simp
  then show ?thesis
    using assms by (simp add: sint_word_ariths signed_take_bit_int_eq_self)
qed

lemma uint_pos:
  fixes w :: "16 word"
  assumes "0 < sint w"
  shows "int (unat w) = sint w"
proof -
  have "sint w < 2 ^ 15"
    using sint_lt [of w] by simp
  then show ?thesis
    using assms uint_sint [of w] by (simp add: take_bit_int_eq_self)
qed

lemma pbuf_header_reveal:
  assumes "nodes hp a = Some n" "n_type n = PBUF_RAM \<or> n_type n = PBUF_POOL" "0 < sint k"
  shows "pbuf_header (Some a) k hp =
    (if int (n_payload n) - sint k < int (a + SIZEOF_STRUCT_PBUF) then Some (True, hp)
     else Some (False, put_node a (n\<lparr>n_payload := nat (int (n_payload n) - sint k),
        n_len := n_len n + k, n_tot_len := n_tot_len n + k\<rparr>) hp))"
proof -
  have "k \<noteq> 0"
    using assms(3) by auto
  then show ?thesis
    using assms by (simp add: pbuf_header_def pbuf_header_impl_def Let_def)
qed

lemma pbuf_header_hide:
  assumes "nodes hp a = Some n" "0 < sint k" "k \<le> n_len n" "a + SIZEOF_STRUCT_PBUF \<le> n_payload n"
  shows "pbuf_header (Some a) (- k) hp =
    Some (False, put_node a (n\<lparr>n_payload := nat (int (n_payload n) + sint k),
        n_len := n_len n - k, n_tot_len := n_tot_len n - k\<rparr>) hp)"
proof -
  have "k \<noteq> 0"
    using assms(2) by auto
  then show ?thesis
    using assms by (cases "n_type n")
      (simp_all add: pbuf_header_def pbuf_header_impl_def Let_def sint_minus_pos)
qed

subsection \<open>Properties\<close>

text \<open>C34: A request for pbufs from the pool succeeds as a whole or leaves the store as it was: what it gives is a
chain of new pbufs with one reference each, whose lengths add up to the length asked for;
freeing that chain restores the store.\<close>

theorem pbuf_alloc_pool_all_or_nothing:
  assumes "malloc_ok malloc"
  shows "\<exists>res hp'. pbuf_alloc malloc layer len PBUF_POOL hp = Some (res, hp') \<and>
    (case res of None \<Rightarrow> nodes hp' = nodes hp
     | Some p \<Rightarrow> \<exists>as. linked (nodes hp') (Some p) as \<and> (\<forall>a\<in>set as. nodes hp a = None)
         \<and> chain_ok (chain_of (nodes hp') as) \<and> length (chain_bytes (chain_of (nodes hp') as)) = unat len
         \<and> (\<exists>k hp''. pbuf_free (Some p) hp' = Some (k, hp'') \<and> nodes hp'' = nodes hp))"
proof -
  obtain res hp' where alloc: "pbuf_alloc malloc layer len PBUF_POOL hp = Some (res, hp')"
    "case res of None \<Rightarrow> nodes hp' = nodes hp
     | Some p \<Rightarrow> \<exists>as. built (nodes hp) (nodes hp') p as 0 \<and> n_tot_len (the (nodes hp' p)) = len"
    using pbuf_alloc_pool [OF assms] by blast
  have "\<exists>as. linked (nodes hp') (Some p) as \<and> (\<forall>a\<in>set as. nodes hp a = None)
      \<and> chain_ok (chain_of (nodes hp') as) \<and> length (chain_bytes (chain_of (nodes hp') as)) = unat len
      \<and> (\<exists>k hp''. pbuf_free (Some p) hp' = Some (k, hp'') \<and> nodes hp'' = nodes hp)" if res: "res = Some p" for p
  proof -
    obtain as where as: "built (nodes hp) (nodes hp') p as 0" "n_tot_len (the (nodes hp' p)) = len"
      using alloc(2) res by auto
    then obtain bs where "as = p # bs"
      by (cases as) (auto simp: built_def)
    then have "length (chain_bytes (chain_of (nodes hp') as)) = unat len"
      using as prefix_ok_tot [of "pbuf_of (the (nodes hp' p))" "chain_of (nodes hp') bs" 0]
      by (simp add: built_def)
    then show ?thesis
      using as built_freed [OF as(1)] by (auto simp: built_def chain_ok_prefix)
  qed
  then show ?thesis
    using alloc by (auto split: option.splits)
qed

text \<open>A pool with one free pbuf at address 64 and a heap with no pbuf.\<close>

definition one_pbuf :: pbuf_malloc where
  "one_pbuf i used typ nbytes = (if used 64 then None else Some (64, replicate nbytes 0))"

definition no_pbufs :: pheap where
  "no_pbufs = \<lparr>nodes = (\<lambda>a. None), requests = 0, pbuf_free_ooseq_pending = False, ooseq_calls = 0,
     ooseq_call_ok = (\<lambda>i. True)\<rparr>"

lemma one_pbuf_ok: "malloc_ok one_pbuf"
  by (simp add: malloc_ok_def one_pbuf_def)

theorem pbuf_alloc_pool_all_or_nothing_witness:
  "\<exists>res hp'. pbuf_alloc one_pbuf PBUF_RAW 1000 PBUF_POOL no_pbufs = Some (res, hp')"
  using pbuf_alloc_pool_all_or_nothing [OF one_pbuf_ok, of PBUF_RAW 1000 no_pbufs] by blast

text \<open>Freeing a chain gives back the pbufs at its head up to the first one that is referenced from elsewhere,
takes one reference from that one, touches nothing else, and tells how many were freed (modulo 256).\<close>

theorem pbuf_free_releases_unshared:
  assumes "linked (nodes hp) p as"
  defines "k \<equiv> unshared (nodes hp) as"
  shows "\<exists>hp'. pbuf_free p hp = Some (of_nat k, hp')
    \<and> (\<forall>a\<in>set (take k as). nodes hp' a = None)
    \<and> (k < length as \<longrightarrow> n_ref (the (nodes hp (as ! k))) \<noteq> 1
         \<and> nodes hp' (as ! k) = map_option (\<lambda>n. n\<lparr>n_ref := n_ref n - 1\<rparr>) (nodes hp (as ! k)))
    \<and> (\<forall>a. a \<notin> set (take (Suc k) as) \<longrightarrow> nodes hp' a = nodes hp a)"
proof -
  have "as ! k \<notin> set (take k as)" if "k < length as"
    using linked_distinct [OF assms(1)] that by (simp add: distinct_conv_nth in_set_conv_nth)
  moreover have "n_ref (the (nodes hp (as ! k))) \<noteq> 1" if "k < length as"
    using that nth_length_takeWhile [of "\<lambda>a. n_ref (the (nodes hp a)) = 1" as] by (simp add: k_def unshared_def)
  moreover have "set (take k as) \<subseteq> set (take (Suc k) as)"
    by (rule set_take_subset_set_take) simp
  ultimately show ?thesis
    unfolding pbuf_free_nodes [OF assms(1), folded k_def]
    by (auto simp: freed_nodes_def Let_def take_Suc_conv_app_nth k_def [symmetric])
qed

text \<open>The first example in the comment of the function: reference counts 1, 2, 3 become 1, 3.\<close>

definition example_node :: "nat option \<Rightarrow> u16 \<Rightarrow> u16 \<Rightarrow> pnode" where
  "example_node q tot ref = \<lparr>n_next = q, n_payload = 0, n_tot_len = tot, n_len = 1, n_type = PBUF_REF,
     n_flags = 0, n_ref = ref, n_base = 0, n_mem = [7]\<rparr>"

definition example_heap :: pheap where
  "example_heap = no_pbufs\<lparr>nodes := [100 \<mapsto> example_node (Some 200) 3 1, 200 \<mapsto> example_node (Some 300) 2 2,
     300 \<mapsto> example_node None 1 3]\<rparr>"

lemma example_chain:
  "linked (nodes example_heap) (Some 100) [100, 200, 300]"
  "chain_ok (chain_of (nodes example_heap) [100, 200, 300])"
  "chain_bytes (chain_of (nodes example_heap) [100, 200, 300]) = [7, 7, 7]"
  "no_empty (nodes example_heap) [100, 200, 300]"
  by (simp_all add: example_heap_def example_node_def chain_tot_len_def pbuf_bytes_def no_empty_def)

theorem pbuf_free_releases_unshared_witness:
  "\<exists>hp'. pbuf_free (Some 100) example_heap = Some (1, hp') \<and> nodes hp' 100 = None
     \<and> map_option n_ref (nodes hp' 200) = Some 1 \<and> map_option n_ref (nodes hp' 300) = Some 3"
proof -
  have link: "linked (nodes example_heap) (Some 100) [100, 200, 300]"
    and k: "unshared (nodes example_heap) [100, 200, 300] = 1"
    by (simp_all add: example_heap_def example_node_def unshared_def)
  show ?thesis
    using pbuf_free_releases_unshared [OF link] unfolding k
    by (auto simp: example_heap_def example_node_def)
qed

text \<open>Concatenating two chains gives the chain of the pbufs of both, with the bytes of the first followed by
those of the second and every total length right, as long as the sum fits into 16 bits.\<close>

theorem pbuf_cat_appends:
  assumes "linked (nodes hp) (Some a) (a # as)" and "linked (nodes hp) (Some b) (b # bs)"
    and "set (a # as) \<inter> set (b # bs) = {}"
    and "chain_ok (chain_of (nodes hp) (a # as))" and "chain_ok (chain_of (nodes hp) (b # bs))"
    and "length (chain_bytes (chain_of (nodes hp) (a # as))) + length (chain_bytes (chain_of (nodes hp) (b # bs))) < 2 ^ 16"
  shows "\<exists>hp'. pbuf_cat (Some a) (Some b) hp = Some hp'
    \<and> linked (nodes hp') (Some a) ((a # as) @ b # bs) \<and> chain_ok (chain_of (nodes hp') ((a # as) @ b # bs))
    \<and> chain_bytes (chain_of (nodes hp') ((a # as) @ b # bs)) =
        chain_bytes (chain_of (nodes hp) (a # as)) @ chain_bytes (chain_of (nodes hp) (b # bs))"
proof -
  obtain bn where bn: "nodes hp b = Some bn"
    using linked_ConsE [OF assms(2)] by metis
  let ?ns = "cat_nodes (nodes hp) (a # as) b (n_tot_len bn)"
  have b: "b \<notin> set (a # as)"
    using assms(3) by auto
  have ok: "prefix_ok (chain_of (nodes hp) (a # as)) 0" "prefix_ok (chain_of (nodes hp) (b # bs)) 0"
    using assms(4,5) unfolding chain_ok_prefix .
  have tot: "unat (n_tot_len bn) = length (chain_bytes (chain_of (nodes hp) (b # bs)))"
    using prefix_ok_tot [of "pbuf_of bn" "chain_of (nodes hp) bs" 0] ok(2) bn by simp
  have alive: "nodes hp c \<noteq> None" if "c \<in> set (a # as)" for c
    using linked_alloc [OF assms(1) that] .
  have others: "?ns c = nodes hp c" if "c \<in> set (b # bs)" for c
    using that assms(3) by (intro cat_nodes_other) auto
  have second: "chain_of ?ns (b # bs) = chain_of (nodes hp) (b # bs)" "linked ?ns (Some b) (b # bs)"
    using chain_of_cong [of "b # bs"] path_cong [of "b # bs"] others assms(2) by blast+
  have "prefix_ok (chain_of ?ns (a # as)) (unat (n_tot_len bn))"
    by (rule cat_nodes_prefix [OF ok(1) alive]) (use assms(6) tot in simp_all)
  then have chain: "chain_ok (chain_of ?ns ((a # as) @ b # bs))"
    using ok(2) unfolding chain_ok_prefix chain_of_simps(3) prefix_ok_append second(1)
    by (simp only: chain_of_simps(2) list.case bn option.sel pbuf_of_sel simp_thms)
  have link: "linked ?ns (Some a) ((a # as) @ b # bs)"
    using cat_nodes_path [OF assms(1)] second(2) unfolding path_append by blast
  have first: "chain_bytes (chain_of ?ns (a # as)) = chain_bytes (chain_of (nodes hp) (a # as))"
    by (rule cat_nodes_bytes) (rule alive)
  obtain hp' where hp': "nodes hp' = ?ns" "pbuf_cat (Some a) (Some b) hp = Some hp'"
    using pbuf_cat_loop_nodes [OF assms(1) bn b]
    by (intro that [of "hp\<lparr>nodes := ?ns\<rparr>"]) (simp_all add: pbuf_cat_def)
  show ?thesis
  proof (intro exI conjI)
    show "pbuf_cat (Some a) (Some b) hp = Some hp'" by (rule hp')
  qed (unfold hp'(1), rule link, rule chain, simp only: chain_of_simps(3) chain_of_bytes(3) first second(1))
qed

theorem pbuf_cat_appends_witness:
  "\<exists>hp'. pbuf_cat (Some 100) (Some 400) (put_node 400 (example_node None 1 1) example_heap) = Some hp'
     \<and> chain_bytes (chain_of (nodes hp') [100, 200, 300, 400]) = [7, 7, 7, 7]"
proof -
  let ?hp = "put_node 400 (example_node None 1 1) example_heap"
  have first: "chain_of (nodes ?hp) [100, 200, 300] = chain_of (nodes example_heap) [100, 200, 300]"
    "linked (nodes ?hp) (Some 100) [100, 200, 300]"
    using example_chain(1) unfolding nodes_put by (subst chain_of_upd path_upd; simp)+
  have second: "linked (nodes ?hp) (Some 400) [400]" "chain_ok (chain_of (nodes ?hp) [400])"
    "chain_bytes (chain_of (nodes ?hp) [400]) = [7]"
    by (simp_all add: example_node_def chain_tot_len_def pbuf_bytes_def)
  have "\<exists>hp'. pbuf_cat (Some 100) (Some 400) ?hp = Some hp'
    \<and> linked (nodes hp') (Some 100) ([100, 200, 300] @ [400]) \<and> chain_ok (chain_of (nodes hp') ([100, 200, 300] @ [400]))
    \<and> chain_bytes (chain_of (nodes hp') ([100, 200, 300] @ [400])) =
        chain_bytes (chain_of (nodes ?hp) [100, 200, 300]) @ chain_bytes (chain_of (nodes ?hp) [400])"
    by (rule pbuf_cat_appends) (unfold first(1) example_chain(3) second(3), rule first(2), rule second(1),
        simp, rule example_chain(2), rule second(2), simp)
  then show ?thesis
    unfolding first(1) example_chain(3) second(3) by auto
qed

text \<open>Trimming a chain to fewer bytes keeps a first part of its pbufs, which holds exactly the first bytes asked
for with right totals, and releases the others as \<open>pbuf_free\<close> does.\<close>

theorem pbuf_realloc_truncates:
  assumes "linked (nodes hp) (Some a) (a # as)" and "chain_ok (chain_of (nodes hp) (a # as))"
    and "unat new_len < length (chain_bytes (chain_of (nodes hp) (a # as)))"
  shows "\<exists>hp' bs cs. pbuf_realloc a new_len hp = Some hp' \<and> a # as = bs @ cs \<and> bs \<noteq> []
    \<and> linked (nodes hp') (Some a) bs \<and> chain_ok (chain_of (nodes hp') bs)
    \<and> chain_bytes (chain_of (nodes hp') bs) = take (unat new_len) (chain_bytes (chain_of (nodes hp) (a # as)))
    \<and> (\<forall>b. b \<notin> set bs \<longrightarrow> nodes hp' b = freed_nodes (nodes hp) cs b)"
  by (rule pbuf_realloc_chain [OF assms])

theorem pbuf_realloc_truncates_witness:
  "\<exists>hp' bs. pbuf_realloc 100 2 example_heap = Some hp' \<and> linked (nodes hp') (Some 100) bs
     \<and> chain_bytes (chain_of (nodes hp') bs) = [7, 7]"
proof -
  have "unat (2 :: u16) < length (chain_bytes (chain_of (nodes example_heap) [100, 200, 300]))"
    unfolding example_chain(3) by simp
  from pbuf_realloc_truncates [OF example_chain(1,2) this] obtain hp' bs cs where
    "pbuf_realloc 100 2 example_heap = Some hp'" "linked (nodes hp') (Some 100) bs"
    "chain_bytes (chain_of (nodes hp') bs) = take (unat (2 :: u16)) [7, 7, 7]"
    unfolding example_chain(3) by blast
  then show ?thesis
    by (intro exI [of _ hp'] exI [of _ bs]) simp
qed

text \<open>Making one pbuf of a packet of several keeps the bytes: either no memory can be had and the packet stays as
it is, or a new single pbuf holds all its bytes and the old chain has been released.\<close>

theorem pbuf_coalesce_keeps_bytes:
  assumes "malloc_ok malloc" and "linked (nodes hp) (Some p) (p # q # as)"
    and "chain_ok (chain_of (nodes hp) (p # q # as))" and "no_empty (nodes hp) (p # q # as)"
  shows "\<exists>r hp'. pbuf_coalesce malloc p layer hp = Some (r, hp') \<and>
    (if r = p then nodes hp' = nodes hp
     else nodes hp r = None \<and> linked (nodes hp') (Some r) [r] \<and> n_ref (the (nodes hp' r)) = 1
       \<and> chain_ok (chain_of (nodes hp') [r])
       \<and> chain_bytes (chain_of (nodes hp') [r]) = chain_bytes (chain_of (nodes hp) (p # q # as))
       \<and> (\<forall>b. b \<noteq> r \<longrightarrow> nodes hp' b = freed_nodes (nodes hp) (p # q # as) b))"
  by (rule pbuf_coalesce_chain [OF assms])

theorem pbuf_coalesce_keeps_bytes_witness:
  "\<exists>r hp'. pbuf_coalesce one_pbuf 100 PBUF_RAW example_heap = Some (r, hp')"
  using pbuf_coalesce_keeps_bytes [OF one_pbuf_ok example_chain(1,2,4)] by blast

text \<open>Revealing a header in front of a pbuf that holds its own memory is granted exactly when the room in front of
the payload is large enough, leaves the old bytes behind the header, and hiding the same header
again restores the store; a refused request changes nothing.\<close>

theorem pbuf_header_roundtrip:
  assumes "nodes hp a = Some n" and "n_type n = PBUF_RAM \<or> n_type n = PBUF_POOL"
    and "n_base n = a + SIZEOF_STRUCT_PBUF" and "room n"
    and "0 < sint k" and "unat (n_len n) + unat k < 2 ^ 16"
  shows "if unat k \<le> n_payload n - n_base n
    then \<exists>hp' n'. pbuf_header (Some a) k hp = Some (False, hp') \<and> nodes hp' a = Some n' \<and> room n'
      \<and> length (pbuf_bytes (pbuf_of n')) = unat k + unat (n_len n)
      \<and> drop (unat k) (pbuf_bytes (pbuf_of n')) = pbuf_bytes (pbuf_of n)
      \<and> pbuf_header (Some a) (- k) hp' = Some (False, hp)
    else pbuf_header (Some a) k hp = Some (True, hp)"
proof -
  have k: "sint k = int (unat k)"
    using uint_pos [OF assms(5)] by simp
  define d where "d = n_payload n - n_base n"
  have payload: "n_payload n = n_base n + d" "d + unat (n_len n) \<le> length (n_mem n)"
    using assms(4) by (auto simp: room_def d_def)
  note reveal = pbuf_header_reveal [where hp = hp, OF assms(1,2,5)]
  show ?thesis
  proof (cases "unat k \<le> d")
    case True
    define n' where "n' = n\<lparr>n_payload := n_base n + (d - unat k), n_len := n_len n + k, n_tot_len := n_tot_len n + k\<rparr>"
    have len: "unat (n_len n + k) = unat (n_len n) + unat k"
      using assms(6) by (intro unat_add_nowrap) simp
    have payload': "nat (int (n_payload n) - sint k) = n_base n + (d - unat k)"
      unfolding payload(1) k using True by linarith
    moreover have "uint k \<le> int d"
      unfolding uint_nat using True by linarith
    ultimately have granted: "pbuf_header (Some a) k hp = Some (False, put_node a n' hp)"
      using reveal payload(1) k assms(3) by (simp add: n'_def)
    have room': "room n'"
      using True payload(2) len by (simp add: room_def n'_def)
    have "length (pbuf_bytes (pbuf_of n')) = unat k + unat (n_len n)"
      using True payload(2) len by (simp add: pbuf_bytes_def n'_def)
    moreover have "drop (unat k) (pbuf_bytes (pbuf_of n')) = pbuf_bytes (pbuf_of n)"
      using True payload len by (simp add: pbuf_bytes_def n'_def drop_take)
    moreover have "k \<le> n_len n'"
      using len by (simp add: n'_def word_le_nat_alt)
    then have "pbuf_header (Some a) (- k) (put_node a n' hp) = Some (False, put_node a (n'\<lparr>
        n_payload := nat (int (n_payload n') + sint k), n_len := n_len n' - k, n_tot_len := n_tot_len n' - k\<rparr>)
        (put_node a n' hp))"
      by (intro pbuf_header_hide) (use assms(3,5) in \<open>simp_all add: n'_def\<close>)
    moreover have "n'\<lparr>n_payload := nat (int (n_payload n') + sint k), n_len := n_len n' - k, n_tot_len := n_tot_len n' - k\<rparr> = n"
    proof -
      have "nat (int (n_base n + (d - unat k)) + sint k) = n_payload n"
        unfolding payload(1) k using True by linarith
      then show ?thesis
        by (simp add: n'_def)
    qed
    moreover have "put_node a n (put_node a n' hp) = hp"
      using assms(1) by (simp add: put_node_def fun_upd_idem)
    ultimately show ?thesis
      using True granted room' unfolding d_def [symmetric] by auto
  next
    case False
    then have "int d < uint k"
      unfolding uint_nat by linarith
    then show ?thesis
      using False reveal payload(1) k assms(3) unfolding d_def [symmetric] by simp
  qed
qed

text \<open>A pbuf at address 64 with 20 bytes in front of its payload of 4 bytes.\<close>

definition header_node :: pnode where
  "header_node = \<lparr>n_next = None, n_payload = 100, n_tot_len = 4, n_len = 4, n_type = PBUF_RAM, n_flags = 0,
     n_ref = 1, n_base = 80, n_mem = replicate 24 0\<rparr>"

theorem pbuf_header_roundtrip_witness:
  "\<exists>hp'. pbuf_header (Some 64) 20 (put_node 64 header_node no_pbufs) = Some (False, hp')
     \<and> pbuf_header (Some 64) (- 20) hp' = Some (False, put_node 64 header_node no_pbufs)"
  using pbuf_header_roundtrip [of "put_node 64 header_node no_pbufs" 64 header_node 20]
  by (auto simp: header_node_def room_def SIZEOF_STRUCT_PBUF_def)

text \<open>Taking the first pbuf off its chain leaves it alone and releases the rest; the address of the rest is
returned unless something was freed. The number freed is counted modulo 256, so after 256
pbufs the address returned is that of a pbuf that is no longer allocated.\<close>

theorem pbuf_dechain_result:
  assumes "linked (nodes hp) (Some a) (a # q # as)"
  defines "k \<equiv> unshared (nodes hp) (q # as)"
  shows "\<exists>hp'. pbuf_dechain a hp = Some (if k mod 256 = 0 then Some q else None, hp')
    \<and> linked (nodes hp') (Some a) [a] \<and> n_tot_len (the (nodes hp' a)) = n_len (the (nodes hp a))
    \<and> (nodes hp' q = None \<longleftrightarrow> 0 < k)"
proof -
  obtain n where n: "nodes hp a = Some n" "linked (nodes hp) (n_next n) (q # as)" "a \<notin> set (q # as)"
    using linked_ConsE [OF assms(1)] .
  obtain m where m: "n_next n = Some q" "nodes hp q = Some m" "linked (nodes hp) (n_next m) as" "q \<notin> set as"
    using linked_ConsE [OF n(2)] .
  let ?m = "m\<lparr>n_tot_len := n_tot_len n - n_len n\<rparr>" and ?n = "n\<lparr>n_next := None, n_tot_len := n_len n\<rparr>"
  let ?hp = "put_node a ?n (put_node q ?m hp)"
  have link: "linked (nodes ?hp) (Some q) (q # as)"
    using n(3) m by simp
  have "n_ref (the (nodes ?hp b)) = n_ref (the (nodes hp b))" for b
    using n(1,3) m(2) by simp
  then have k: "unshared (nodes ?hp) (q # as) = k"
    unfolding k_def unshared_def by (simp only:)
  have "pbuf_dechain a hp = Some (if (of_nat k :: u8) > 0 then None else Some q, ?hp\<lparr>nodes := freed_nodes (nodes ?hp) (q # as)\<rparr>)"
    using n(1) m(1,2) pbuf_free_nodes [OF link] unfolding k by (simp add: pbuf_dechain_def Let_def del: nodes_put)
  moreover have "(of_nat k :: u8) > 0 \<longleftrightarrow> k mod 256 \<noteq> 0"
    by (simp add: word_less_nat_alt unat_of_nat)
  moreover have "freed_nodes (nodes ?hp) (q # as) a = Some ?n"
    using n(3) by (subst freed_nodes_other) simp_all
  moreover have "freed_nodes (nodes ?hp) (q # as) q = None \<longleftrightarrow> 0 < k"
    using n(3) m(2) k by (cases k) (auto simp: freed_nodes_def Let_def)
  ultimately show ?thesis
    using n(1) by (intro exI [of _ "?hp\<lparr>nodes := freed_nodes (nodes ?hp) (q # as)\<rparr>"]) simp
qed

text \<open>A chain of 257 pbufs of one byte each, at the addresses 0 to 256.\<close>

definition long_heap :: pheap where
  "long_heap = no_pbufs\<lparr>nodes := \<lambda>a. if a \<le> 256
     then Some (example_node (if a = 256 then None else Some (a + 1)) (of_nat (257 - a)) 1) else None\<rparr>"

lemma long_heap_node:
  "a < 257 \<Longrightarrow> nodes long_heap a = Some (example_node (if Suc a = 257 then None else Some (Suc a)) (of_nat (257 - a)) 1)"
  by (auto simp: long_heap_def)

lemma long_heap_linked: "a + d = 257 \<Longrightarrow> linked (nodes long_heap) (if a = 257 then None else Some a) [a..<a + d]"
proof (induction d arbitrary: a)
  case (Suc d)
  from Suc.prems have a: "a < 257" "a \<noteq> 257" "Suc a + d = 257" by simp_all
  have "linked (nodes long_heap) (if Suc a = 257 then None else Some (Suc a)) [Suc a..<Suc a + d]"
    by (rule Suc.IH) (rule a(3))
  moreover have "[a..<a + Suc d] = a # [Suc a..<Suc a + d]"
    by (subst upt_conv_Cons) simp_all
  ultimately show ?case
    using a(2) long_heap_node [OF a(1)] by (simp del: upt_Suc add: example_node_def)
qed simp

theorem pbuf_dechain_result_witness:
  "\<exists>hp'. pbuf_dechain 0 long_heap = Some (Some 1, hp') \<and> nodes hp' 1 = None"
proof -
  have upt: "[0..<0 + 257] = 0 # 1 # [Suc 1..<257]"
    by (subst upt_conv_Cons, simp, subst upt_conv_Cons, simp, simp only: One_nat_def add_0)
  have link: "linked (nodes long_heap) (Some 0) (0 # 1 # [Suc 1..<257])"
    using long_heap_linked [of 0 257] unfolding upt by (simp only: add_0 simp_thms if_False zero_neq_numeral)
  have one: "n_ref (the (nodes long_heap a)) = 1" if "a < 257" for a
    using long_heap_node [OF that] by (simp add: example_node_def)
  have "\<forall>a\<in>set (1 # [Suc 1..<257]). n_ref (the (nodes long_heap a)) = 1"
    by (intro ballI one) (auto simp only: set_simps set_upt insert_iff atLeastLessThan_iff)
  then have "unshared (nodes long_heap) (1 # [Suc 1..<257]) = length (1 # [Suc 1..<257])"
    by (rule freed_nodes_all(2))
  also have "\<dots> = 256"
    by (simp only: length_Cons length_upt)
  finally show ?thesis
    using pbuf_dechain_result [OF link] by (simp only:) auto
qed

end
