(* ===== verification/Heap4.thy ===== *)
theory Heap4
  imports Machine
begin

text \<open>
  The allocator of the RTOS (\<open>freertos/portable/MemMang/heap_4.c\<close>), which also serves
  lwIP's \<open>mem_malloc\<close>: a list of free blocks in the order of their addresses, first fit,
  adjacent free blocks joined. The headers of the blocks lie in the heap itself, so the
  state maps every address to the header found there. Pointers are natural numbers with 0
  for \<open>NULL\<close>, sizes are of type \<open>size_t\<close> (32 bits). The operations run with the scheduler
  suspended, that is without interleaving. The specification is a list of tiles that cover
  the heap.
\<close>

subsection \<open>Data\<close>

record block_link =
  pxNextFreeBlock :: nat
  xBlockSize :: u32

record heap4 =
  links :: "nat \<Rightarrow> block_link"
  pxEnd :: nat
  xFreeBytesRemaining :: u32
  xMinimumEverFreeBytesRemaining :: u32
  xBlockAllocatedBit :: u32

text \<open>Where the linker put the array \<open>ucHeap\<close> and the variable \<open>xStart\<close>.\<close>

record heap_layout =
  ucHeap :: nat
  xStart :: nat

definition portBYTE_ALIGNMENT :: u32 where "portBYTE_ALIGNMENT = 8"
definition portBYTE_ALIGNMENT_MASK :: u32 where "portBYTE_ALIGNMENT_MASK = 0x0007"
definition configTOTAL_HEAP_SIZE :: u32 where "configTOTAL_HEAP_SIZE = 28 * 1024"

definition xHeapStructSize :: u32 where
  "xHeapStructSize = (8 + (portBYTE_ALIGNMENT - 1)) AND NOT portBYTE_ALIGNMENT_MASK"

definition heapMINIMUM_BLOCK_SIZE :: u32 where
  "heapMINIMUM_BLOCK_SIZE = push_bit 1 xHeapStructSize"

definition heapBITS_PER_BYTE :: nat where "heapBITS_PER_BYTE = 8"

abbreviation next_of :: "heap4 \<Rightarrow> nat \<Rightarrow> nat" where
  "next_of h p \<equiv> pxNextFreeBlock (links h p)"

abbreviation size_of :: "heap4 \<Rightarrow> nat \<Rightarrow> u32" where
  "size_of h p \<equiv> xBlockSize (links h p)"

definition set_next :: "nat \<Rightarrow> nat \<Rightarrow> heap4 \<Rightarrow> heap4" where
  "set_next p v h = h\<lparr>links := (links h)(p := (links h p)\<lparr>pxNextFreeBlock := v\<rparr>)\<rparr>"

definition set_size :: "nat \<Rightarrow> u32 \<Rightarrow> heap4 \<Rightarrow> heap4" where
  "set_size p v h = h\<lparr>links := (links h)(p := (links h p)\<lparr>xBlockSize := v\<rparr>)\<rparr>"

subsection \<open>Operations\<close>

text \<open>The aligned start of the array and the bytes left behind it.\<close>

definition align_heap :: "heap_layout \<Rightarrow> u32 \<times> u32" where
  "align_heap l =
     (let uxAddress = of_nat (ucHeap l);
          xTotalHeapSize = configTOTAL_HEAP_SIZE
      in if uxAddress AND portBYTE_ALIGNMENT_MASK \<noteq> 0
         then let uxAddress = (uxAddress + (portBYTE_ALIGNMENT - 1)) AND NOT portBYTE_ALIGNMENT_MASK
              in (uxAddress, xTotalHeapSize - (uxAddress - of_nat (ucHeap l)))
         else (uxAddress, xTotalHeapSize))"

definition prvHeapInit :: "heap_layout \<Rightarrow> heap4 \<Rightarrow> heap4" where
  "prvHeapInit l h =
     (let (uxAddress, xTotalHeapSize) = align_heap l;
          pucAlignedHeap = unat uxAddress;
          h = set_size (xStart l) 0 (set_next (xStart l) pucAlignedHeap h);
          uxAddress = (of_nat pucAlignedHeap + xTotalHeapSize - xHeapStructSize) AND NOT portBYTE_ALIGNMENT_MASK;
          h = h\<lparr>pxEnd := unat uxAddress\<rparr>;
          h = set_next (pxEnd h) 0 (set_size (pxEnd h) 0 h);
          pxFirstFreeBlock = pucAlignedHeap;
          h = set_size pxFirstFreeBlock (uxAddress - of_nat pxFirstFreeBlock) h;
          h = set_next pxFirstFreeBlock (pxEnd h) h
      in h\<lparr>xMinimumEverFreeBytesRemaining := size_of h pxFirstFreeBlock,
           xFreeBytesRemaining := size_of h pxFirstFreeBlock,
           xBlockAllocatedBit := push_bit (4 * heapBITS_PER_BYTE - 1) 1\<rparr>)"

text \<open>\<open>None\<close> is a run that dereferences \<open>NULL\<close> or never ends.\<close>

partial_function (option) insert_loop :: "nat \<Rightarrow> nat \<Rightarrow> heap4 \<Rightarrow> nat option" where
  "insert_loop pxBlockToInsert pxIterator h =
     (if pxIterator = 0 then None
      else if next_of h pxIterator < pxBlockToInsert
        then insert_loop pxBlockToInsert (next_of h pxIterator) h
      else Some pxIterator)"

text \<open>The block is linked before the next one, or joined with it when they touch.\<close>

definition link_next :: "nat \<Rightarrow> nat \<Rightarrow> heap4 \<Rightarrow> heap4" where
  "link_next pxBlockToInsert pxIterator h =
     (if pxBlockToInsert + unat (size_of h pxBlockToInsert) = next_of h pxIterator
      then if next_of h pxIterator \<noteq> pxEnd h
        then let h = set_size pxBlockToInsert (size_of h pxBlockToInsert + size_of h (next_of h pxIterator)) h
             in set_next pxBlockToInsert (next_of h (next_of h pxIterator)) h
        else set_next pxBlockToInsert (pxEnd h) h
      else set_next pxBlockToInsert (next_of h pxIterator) h)"

definition prvInsertBlockIntoFreeList :: "heap_layout \<Rightarrow> nat \<Rightarrow> heap4 \<Rightarrow> heap4 option" where
  "prvInsertBlockIntoFreeList l pxBlockToInsert h =
     map_option (\<lambda>pxIterator.
       let (pxBlockToInsert, h) =
             (if pxIterator + unat (size_of h pxIterator) = pxBlockToInsert
              then (pxIterator, set_size pxIterator (size_of h pxIterator + size_of h pxBlockToInsert) h)
              else (pxBlockToInsert, h));
           h = link_next pxBlockToInsert pxIterator h
       in if pxIterator \<noteq> pxBlockToInsert then set_next pxIterator pxBlockToInsert h else h)
     (insert_loop pxBlockToInsert (xStart l) h)"

partial_function (option) malloc_loop :: "u32 \<Rightarrow> nat \<Rightarrow> nat \<Rightarrow> heap4 \<Rightarrow> (nat \<times> nat) option" where
  "malloc_loop xWantedSize pxPreviousBlock pxBlock h =
     (if pxBlock = 0 then None
      else if size_of h pxBlock < xWantedSize \<and> next_of h pxBlock \<noteq> 0
        then malloc_loop xWantedSize pxBlock (next_of h pxBlock) h
      else Some (pxPreviousBlock, pxBlock))"

text \<open>The room a request takes: the header and the bytes, rounded up to the alignment.\<close>

definition adjust_size :: "u32 \<Rightarrow> u32" where
  "adjust_size xWantedSize =
     (if xWantedSize > 0
      then let xWantedSize = xWantedSize + xHeapStructSize
           in if xWantedSize AND portBYTE_ALIGNMENT_MASK \<noteq> 0
              then xWantedSize + (portBYTE_ALIGNMENT - (xWantedSize AND portBYTE_ALIGNMENT_MASK))
              else xWantedSize
      else xWantedSize)"

text \<open>The parts of \<open>pvPortMalloc\<close> that split the block found and that hand it out.\<close>

definition split_block :: "heap_layout \<Rightarrow> u32 \<Rightarrow> nat \<Rightarrow> heap4 \<Rightarrow> heap4 option" where
  "split_block l xWantedSize pxBlock h =
     (if size_of h pxBlock - xWantedSize > heapMINIMUM_BLOCK_SIZE
      then let pxNewBlockLink = pxBlock + unat xWantedSize;
               h = set_size pxNewBlockLink (size_of h pxBlock - xWantedSize) h;
               h = set_size pxBlock xWantedSize h
           in prvInsertBlockIntoFreeList l pxNewBlockLink h
      else Some h)"

definition hand_out :: "nat \<Rightarrow> heap4 \<Rightarrow> heap4" where
  "hand_out pxBlock h =
     (let h = h\<lparr>xFreeBytesRemaining := xFreeBytesRemaining h - size_of h pxBlock\<rparr>;
          h = (if xFreeBytesRemaining h < xMinimumEverFreeBytesRemaining h
               then h\<lparr>xMinimumEverFreeBytesRemaining := xFreeBytesRemaining h\<rparr> else h);
          h = set_size pxBlock (size_of h pxBlock OR xBlockAllocatedBit h) h
      in set_next pxBlock 0 h)"

definition take_block :: "heap_layout \<Rightarrow> u32 \<Rightarrow> nat \<Rightarrow> nat \<Rightarrow> heap4 \<Rightarrow> (nat \<times> heap4) option" where
  "take_block l xWantedSize pxPreviousBlock pxBlock h =
     (let pvReturn = next_of h pxPreviousBlock + unat xHeapStructSize;
          h = set_next pxPreviousBlock (next_of h pxBlock) h
      in map_option (\<lambda>h. (pvReturn, hand_out pxBlock h)) (split_block l xWantedSize pxBlock h))"

definition pvPortMalloc :: "heap_layout \<Rightarrow> u32 \<Rightarrow> heap4 \<Rightarrow> (nat \<times> heap4) option" where
  "pvPortMalloc l xWantedSize h =
     (let h = (if pxEnd h = 0 then prvHeapInit l h else h)
      in if xWantedSize AND xBlockAllocatedBit h = 0
         then let xWantedSize = adjust_size xWantedSize
              in if xWantedSize > 0 \<and> xWantedSize \<le> xFreeBytesRemaining h
                 then Option.bind (malloc_loop xWantedSize (xStart l) (next_of h (xStart l)) h)
                        (\<lambda>(pxPreviousBlock, pxBlock).
                           if pxBlock \<noteq> pxEnd h then take_block l xWantedSize pxPreviousBlock pxBlock h
                           else Some (0, h))
                 else Some (0, h)
         else Some (0, h))"

definition vPortFree :: "heap_layout \<Rightarrow> nat \<Rightarrow> heap4 \<Rightarrow> heap4 option" where
  "vPortFree l pv h =
     (if pv \<noteq> 0
      then let pxLink = pv - unat xHeapStructSize
           in if size_of h pxLink AND xBlockAllocatedBit h \<noteq> 0
              then if next_of h pxLink = 0
                then let h = set_size pxLink (size_of h pxLink AND NOT (xBlockAllocatedBit h)) h;
                         h = h\<lparr>xFreeBytesRemaining := xFreeBytesRemaining h + size_of h pxLink\<rparr>
                     in prvInsertBlockIntoFreeList l pxLink h
                else Some h
              else Some h
      else Some h)"

definition xPortGetFreeHeapSize :: "heap4 \<Rightarrow> u32" where
  "xPortGetFreeHeapSize h = xFreeBytesRemaining h"

definition xPortGetMinimumEverFreeHeapSize :: "heap4 \<Rightarrow> u32" where
  "xPortGetMinimumEverFreeHeapSize h = xMinimumEverFreeBytesRemaining h"

subsection \<open>Specification: tiles\<close>

text \<open>A tile is a block: its address, its size and whether it is free.\<close>

type_synonym tile = "nat \<times> nat \<times> bool"

fun tiled :: "nat \<Rightarrow> tile list \<Rightarrow> nat \<Rightarrow> bool" where
  "tiled lo [] hi = (lo = hi)"
| "tiled lo ((a, s, f) # bs) hi = (a = lo \<and> 16 \<le> s \<and> s mod 8 = 0 \<and> tiled (lo + s) bs hi)"

text \<open>No two neighbours are free.\<close>

definition separated :: "tile list \<Rightarrow> bool" where
  "separated bs = successively (\<lambda>(a, s, f) (b, t, g). \<not> (f \<and> g)) bs"

text \<open>First fit; the rest of the tile stays free when it is worth a block.\<close>

fun first_fit :: "nat \<Rightarrow> tile list \<Rightarrow> (nat \<times> tile list) option" where
  "first_fit w [] = None"
| "first_fit w ((a, s, f) # bs) =
     (if f \<and> w \<le> s
      then Some (a, if 16 < s - w then (a, w, False) # (a + w, s - w, True) # bs else (a, s, False) # bs)
      else map_option (\<lambda>(p, bs). (p, (a, s, f) # bs)) (first_fit w bs))"

fun cons_tile :: "tile \<Rightarrow> tile list \<Rightarrow> tile list" where
  "cons_tile (a, s, True) ((b, t, True) # bs) = (a, s + t, True) # bs"
| "cons_tile x bs = x # bs"

text \<open>A tile becomes free and is joined with its free neighbours.\<close>

fun release :: "nat \<Rightarrow> tile list \<Rightarrow> tile list" where
  "release p [] = []"
| "release p ((a, s, f) # bs) =
     (if a = p then cons_tile (a, s, True) bs else cons_tile (a, s, f) (release p bs))"

definition free_blocks :: "tile list \<Rightarrow> (nat \<times> nat) list" where
  "free_blocks bs = map (\<lambda>(a, s, f). (a, s)) (filter (\<lambda>(a, s, f). f) bs)"

definition free_bytes :: "tile list \<Rightarrow> nat" where
  "free_bytes bs = sum_list (map snd (free_blocks bs))"

text \<open>The list of free blocks in memory, from a header on to the end marker.\<close>

fun free_chain :: "(nat \<Rightarrow> block_link) \<Rightarrow> nat \<Rightarrow> (nat \<times> nat) list \<Rightarrow> nat \<Rightarrow> bool" where
  "free_chain ls p [] e = (pxNextFreeBlock (ls p) = e)"
| "free_chain ls p ((a, s) # fs) e =
     (pxNextFreeBlock (ls p) = a \<and> unat (xBlockSize (ls a)) = s \<and> free_chain ls a fs e)"

text \<open>The headers of the blocks that are in use.\<close>

definition taken :: "(nat \<Rightarrow> block_link) \<Rightarrow> tile list \<Rightarrow> bool" where
  "taken ls bs \<longleftrightarrow> (\<forall>(a, s, f)\<in>set bs. \<not> f \<longrightarrow> ls a = \<lparr>pxNextFreeBlock = 0, xBlockSize = of_nat s OR 2 ^ 31\<rparr>)"

text \<open>The bounds of the heap after alignment, and what is needed of the addresses.\<close>

definition heap_lo :: "heap_layout \<Rightarrow> nat" where
  "heap_lo l = (ucHeap l + 7) div 8 * 8"

definition heap_hi :: "heap_layout \<Rightarrow> nat" where
  "heap_hi l = (ucHeap l + 28672 - 8) div 8 * 8"

definition layout_ok :: "heap_layout \<Rightarrow> bool" where
  "layout_ok l \<longleftrightarrow> 0 < ucHeap l \<and> ucHeap l + 28672 < 2 ^ 32 \<and> 0 < xStart l
     \<and> (xStart l + 8 \<le> ucHeap l \<or> ucHeap l + 28672 \<le> xStart l)"

definition represents :: "heap_layout \<Rightarrow> tile list \<Rightarrow> heap4 \<Rightarrow> bool" where
  "represents l bs h \<longleftrightarrow>
     tiled (heap_lo l) bs (heap_hi l) \<and> separated bs \<and> pxEnd h = heap_hi l
     \<and> xBlockAllocatedBit h = 2 ^ 31
     \<and> unat (xFreeBytesRemaining h) = free_bytes bs
     \<and> xMinimumEverFreeBytesRemaining h \<le> xFreeBytesRemaining h
     \<and> free_chain (links h) (xStart l) (free_blocks bs) (heap_hi l)
     \<and> size_of h (xStart l) = 0 \<and> size_of h (heap_hi l) = 0 \<and> next_of h (heap_hi l) = 0
     \<and> taken (links h) bs"

subsection \<open>Tiles\<close>

lemma tiled_append: "tiled lo (xs @ ys) hi \<longleftrightarrow> (\<exists>m. tiled lo xs m \<and> tiled m ys hi)"
  by (induction xs arbitrary: lo) auto

lemma tiled_le: "tiled lo bs hi \<Longrightarrow> lo \<le> hi"
  by (induction lo bs hi rule: tiled.induct) auto

lemma tiled_member: "tiled lo bs hi \<Longrightarrow> (a, s, f) \<in> set bs \<Longrightarrow> lo \<le> a \<and> a + s \<le> hi \<and> 16 \<le> s \<and> s mod 8 = 0"
  by (induction lo bs hi rule: tiled.induct) (auto dest: tiled_le)

lemma tiled_aligned: "tiled lo bs hi \<Longrightarrow> lo mod 8 = 0 \<Longrightarrow> (a, s, f) \<in> set bs \<Longrightarrow> a mod 8 = 0"
  by (induction lo bs hi rule: tiled.induct) (auto simp: mod_add_eq [symmetric])

lemma tiled_disjoint:
  "tiled lo bs hi \<Longrightarrow> (a, s, f) \<in> set bs \<Longrightarrow> (b, t, g) \<in> set bs \<Longrightarrow>
   (a, s, f) = (b, t, g) \<or> a + s \<le> b \<or> b + t \<le> a"
proof (induction lo bs hi rule: tiled.induct)
  case (2 lo c u k bs hi)
  then show ?case
    by (auto dest: tiled_member)
qed simp

lemma tiled_unique: "tiled lo bs hi \<Longrightarrow> (a, s, f) \<in> set bs \<Longrightarrow> (a, t, g) \<in> set bs \<Longrightarrow> s = t \<and> f = g"
  using tiled_disjoint [of lo bs hi a s f a t g] tiled_member [of lo bs hi a s f] tiled_member [of lo bs hi a t g] by auto

lemma tiled_split:
  assumes "tiled lo (xs @ (a, s, f) # ys) hi"
  shows "tiled lo xs a" "tiled (a + s) ys hi" "16 \<le> s" "s mod 8 = 0"
    "(b, t, g) \<in> set xs \<Longrightarrow> b + t \<le> a \<and> 16 \<le> t"
    "(b, t, g) \<in> set ys \<Longrightarrow> a + s \<le> b \<and> b + t \<le> hi \<and> 16 \<le> t"
  using assms by (auto simp: tiled_append dest: tiled_member)

lemma separated_simps [simp]:
  "separated []" "separated [x]"
  "separated ((a, s, f) # (b, t, g) # bs) \<longleftrightarrow> \<not> (f \<and> g) \<and> separated ((b, t, g) # bs)"
  by (simp_all add: separated_def)

lemma separated_append:
  "separated (xs @ ys) \<longleftrightarrow> separated xs \<and> separated ys \<and>
     (xs = [] \<or> ys = [] \<or> \<not> (snd (snd (last xs)) \<and> snd (snd (hd ys))))"
  by (auto simp: separated_def successively_append_iff split: prod.splits)

lemma separated_tl: "separated (x # bs) \<Longrightarrow> separated bs"
  by (cases bs) (auto simp: separated_def)

lemma cons_tile_tiled: "tiled lo (cons_tile x bs) hi" if "tiled lo (x # bs) hi"
  using that by (cases "(x, bs)" rule: cons_tile.cases) (auto simp: mod_add_eq [symmetric] ac_simps)

lemma cons_tile_head: "\<exists>s'. hd (cons_tile (a, s, f) bs) = (a, s', f)" "cons_tile x bs \<noteq> []"
  by (cases "((a, s, f), bs)" rule: cons_tile.cases; simp) (cases "(x, bs)" rule: cons_tile.cases; simp)

lemma cons_tile_separated: "separated bs \<Longrightarrow> separated (cons_tile x bs)"
  by (cases "(x, bs)" rule: cons_tile.cases) (auto simp: separated_def successively_Cons split: prod.splits)

lemma cons_tile_separate [simp]: "separated (x # y # ys) \<Longrightarrow> cons_tile x (y # ys) = x # y # ys"
  by (cases "(x, y # ys)" rule: cons_tile.cases) auto

lemma cons_tile_allocated [simp]:
  "cons_tile (a, s, False) bs = (a, s, False) # bs" "cons_tile x ((a, s, False) # bs) = x # (a, s, False) # bs"
  by (cases "(x, (a, s, False) # bs)" rule: cons_tile.cases; simp)+

lemma release_split:
  assumes "tiled lo (xs @ (a, s, f) # ys) hi"
  shows "release a (xs @ (a, s, f) # ys) = foldr cons_tile xs (cons_tile (a, s, True) ys)"
  using assms
proof (induction xs arbitrary: lo)
  case (Cons x xs)
  obtain b t g where x: "x = (b, t, g)" by (cases x)
  with Cons.prems have "b + t \<le> a" "16 \<le> t"
    using tiled_split(5) [of lo "x # xs" a s f ys hi b t g] by auto
  with Cons x show ?case by auto
qed simp

lemma foldr_cons_tile:
  assumes "separated (xs @ [x])"
  shows "foldr cons_tile (xs @ [x]) zs = xs @ cons_tile x zs"
  using assms
proof (induction xs)
  case (Cons y xs)
  have IH: "foldr cons_tile (xs @ [x]) zs = xs @ cons_tile x zs"
    using Cons separated_tl [of y "xs @ [x]"] by simp
  obtain a s f where x: "x = (a, s, f)" by (cases x)
  obtain s' ws where head: "cons_tile x zs = (a, s', f) # ws"
    using cons_tile_head(1) [of a s f zs] cons_tile_head(2) [of x zs] unfolding x by (cases "cons_tile (a, s, f) zs") auto
  show ?case
  proof (cases xs)
    case Nil
    with Cons.prems IH head x show ?thesis by (cases y; cases f) auto
  next
    case (Cons z zs')
    with \<open>separated ((y # xs) @ [x])\<close> IH show ?thesis by (cases y; cases z; auto)
  qed
qed simp

lemma release_tiled: "tiled lo bs hi \<Longrightarrow> tiled lo (release p bs) hi"
proof (induction p bs arbitrary: lo rule: release.induct)
  case (2 p a s f bs)
  then show ?case
    by (auto intro!: cons_tile_tiled simp del: cons_tile.simps)
qed simp

lemma release_separated: "separated bs \<Longrightarrow> separated (release p bs)"
  by (induction p bs rule: release.induct)
     (auto intro!: cons_tile_separated dest: separated_tl simp del: cons_tile.simps)

lemma first_fit_split:
  assumes "first_fit w bs = Some (p, bs')"
  obtains xs s ys where "bs = xs @ (p, s, True) # ys" "w \<le> s"
    "bs' = xs @ (if 16 < s - w then (p, w, False) # (p + w, s - w, True) # ys else (p, s, False) # ys)"
    "\<forall>(a, u, f)\<in>set xs. f \<longrightarrow> u < w"
  using assms
proof (induction w bs arbitrary: p bs' thesis rule: first_fit.induct)
  case (2 w a s f bs)
  show ?case
  proof (cases "f \<and> w \<le> s")
    case True
    with 2(3) show ?thesis by (intro 2(2) [of "[]" s bs]) auto
  next
    case False
    with 2(3) obtain cs where "first_fit w bs = Some (p, cs)" "bs' = (a, s, f) # cs"
      by (auto split: if_splits)
    with 2(1) [OF False] obtain xs u ys where "bs = xs @ (p, u, True) # ys" "w \<le> u"
        "bs' = (a, s, f) # xs @ (if 16 < u - w then (p, w, False) # (p + w, u - w, True) # ys else (p, u, False) # ys)"
        "\<forall>(a, u, f)\<in>set xs. f \<longrightarrow> u < w"
      by metis
    with False show ?thesis by (intro 2(2) [of "(a, s, f) # xs" u ys]) auto
  qed
qed simp

lemma first_fit_None: "first_fit w bs = None \<longleftrightarrow> (\<forall>(a, u, f)\<in>set bs. f \<longrightarrow> u < w)"
  by (induction w bs rule: first_fit.induct) auto

lemma free_blocks_simps [simp]:
  "free_blocks [] = []"
  "free_blocks ((a, s, f) # bs) = (if f then (a, s) # free_blocks bs else free_blocks bs)"
  "free_blocks (xs @ ys) = free_blocks xs @ free_blocks ys"
  by (simp_all add: free_blocks_def)

lemma set_free_blocks: "(a, s) \<in> set (free_blocks bs) \<longleftrightarrow> (a, s, True) \<in> set bs"
  by (induction bs) (auto split: if_splits)

subsection \<open>The free list\<close>

text \<open>The effect of \<open>prvInsertBlockIntoFreeList\<close> on the list of free blocks.\<close>

fun join :: "nat \<Rightarrow> nat \<Rightarrow> (nat \<times> nat) list \<Rightarrow> (nat \<times> nat) list" where
  "join b s ((c, u) # fs) = (if b + s = c then (b, s + u) # fs else (b, s) # (c, u) # fs)"
| "join b s [] = [(b, s)]"

definition insert_free :: "nat \<Rightarrow> nat \<Rightarrow> (nat \<times> nat) list \<Rightarrow> (nat \<times> nat) list \<Rightarrow> (nat \<times> nat) list" where
  "insert_free b s fs1 fs2 =
     (if fs1 \<noteq> [] \<and> fst (last fs1) + snd (last fs1) = b
      then butlast fs1 @ join (fst (last fs1)) (snd (last fs1) + s) fs2
      else fs1 @ join b s fs2)"

lemma join_free:
  assumes "tiled (a + s) ys hi"
  shows "join a s (free_blocks ys) = free_blocks (cons_tile (a, s, True) ys)"
proof (cases ys)
  case (Cons y bs)
  obtain c u g where y: "y = (c, u, g)" by (cases y)
  show ?thesis
  proof (cases g)
    case True
    with assms show ?thesis by (simp add: Cons y)
  next
    case False
    then have "\<forall>(d, v)\<in>set (free_blocks bs). a + s < d"
      using assms by (auto simp: Cons y set_free_blocks dest!: tiled_member)
    then have "join a s (free_blocks bs) = (a, s) # free_blocks bs"
      by (cases "free_blocks bs") auto
    with False show ?thesis by (simp add: Cons y)
  qed
qed simp

lemma free_blocks_release:
  assumes "tiled lo (xs @ (a, s, f) # ys) hi" "separated xs"
  shows "free_blocks (release a (xs @ (a, s, f) # ys)) = insert_free a s (free_blocks xs) (free_blocks ys)"
proof (cases xs rule: rev_cases)
  case Nil
  then show ?thesis
    using assms(1) join_free [of a s ys hi] by (auto simp: insert_free_def)
next
  case (snoc xs' x)
  obtain p t g where x: "x = (p, t, g)" by (cases x)
  have eq: "release a (xs @ (a, s, f) # ys) = xs' @ cons_tile (p, t, g) (cons_tile (a, s, True) ys)"
    using release_split [OF assms(1)] foldr_cons_tile [OF assms(2) [unfolded snoc x]] by (simp only: snoc x)
  have p: "p + t = a" "tiled (a + s) ys hi" "tiled lo xs' p"
    using assms(1) by (auto simp: snoc x tiled_append)
  show ?thesis
  proof (cases g)
    case True
    obtain s' ws where ws: "cons_tile (a, s, True) ys = (a, s', True) # ws"
      using cons_tile_head(1) [of a s True ys] cons_tile_head(2) [of "(a, s, True)" ys]
      by (cases "cons_tile (a, s, True) ys") auto
    have "tiled a (cons_tile (a, s, True) ys) hi"
      using assms(1) by (intro cons_tile_tiled) (auto simp: snoc x tiled_append)
    then have "free_blocks (cons_tile (p, t, True) (cons_tile (a, s, True) ys)) = join p (t + s) (free_blocks ys)"
      using join_free [OF p(2)] ws p(1) by (cases "free_blocks ys") (auto split: if_splits)
    with eq True p(1) show ?thesis
      by (simp add: insert_free_def snoc x)
  next
    case False
    have "0 < t"
      using assms(1) by (auto simp: snoc x tiled_append)
    then have "\<forall>(q, u)\<in>set (free_blocks xs'). q + u < a"
      using p(1) tiled_member [OF p(3)] by (fastforce simp: set_free_blocks)
    then have "insert_free a s (free_blocks xs') (free_blocks ys) = free_blocks xs' @ join a s (free_blocks ys)"
      using last_in_set [of "free_blocks xs'"] by (cases "last (free_blocks xs')") (auto simp: insert_free_def)
    with eq False show ?thesis
      by (simp add: snoc x join_free [OF p(2)])
  qed
qed

text \<open>The chain of headers, stated header by header.\<close>

definition first_addr :: "(nat \<times> nat) list \<Rightarrow> nat \<Rightarrow> nat" where
  "first_addr fs e = (case fs of [] \<Rightarrow> e | (a, s) # _ \<Rightarrow> a)"

lemma first_addr_simps [simp]: "first_addr [] e = e" "first_addr ((a, s) # fs) e = a"
  by (simp_all add: first_addr_def)

lemma free_chain_first: "free_chain ls p fs e \<Longrightarrow> pxNextFreeBlock (ls p) = first_addr fs e"
  by (cases "(ls, p, fs, e)" rule: free_chain.cases) auto

lemma free_chain_append:
  "free_chain ls p (xs @ (a, s) # ys) e \<longleftrightarrow>
     free_chain ls p xs a \<and> unat (xBlockSize (ls a)) = s \<and> free_chain ls a ys e"
  by (induction ls p xs a rule: free_chain.induct) auto

lemma free_chain_cong:
  "pxNextFreeBlock (ls p) = pxNextFreeBlock (ls' p) \<Longrightarrow> (\<And>a. a \<in> fst ` set fs \<Longrightarrow> ls a = ls' a) \<Longrightarrow>
   free_chain ls p fs e = free_chain ls' p fs e"
  by (induction ls p fs e rule: free_chain.induct) auto

lemma free_chain_upd [simp]: "x \<noteq> p \<Longrightarrow> x \<notin> fst ` set fs \<Longrightarrow> free_chain (ls(x := v)) p fs e = free_chain ls p fs e"
  by (rule free_chain_cong) auto

lemma free_chain_cases:
  "free_chain ls p fs e \<longleftrightarrow> pxNextFreeBlock (ls p) = first_addr fs e \<and>
     (case fs of [] \<Rightarrow> True | (a, s) # fs \<Rightarrow> unat (xBlockSize (ls a)) = s \<and> free_chain ls a fs e)"
  by (cases fs) auto

lemma free_chain_from:
  "free_chain ls q fs e \<Longrightarrow> pxNextFreeBlock (ls' p) = first_addr fs e \<Longrightarrow>
   (\<And>a. a \<in> fst ` set fs \<Longrightarrow> ls' a = ls a) \<Longrightarrow> free_chain ls' p fs e"
  using free_chain_cong [of ls' _ ls "tl fs" e] by (cases fs) auto

lemma insert_loop_last:
  assumes "free_chain (links h) p (fs1 @ fs2) e" "0 < p" "\<forall>(a, s)\<in>set fs1. 0 < a \<and> a < b" "b \<le> first_addr fs2 e"
  shows "insert_loop b p h = Some (last (p # map fst fs1))"
  using assms
proof (induction fs1 arbitrary: p)
  case Nil
  then have "next_of h p = first_addr fs2 e" by (auto dest: free_chain_first)
  with Nil show ?case by (subst insert_loop.simps) simp
next
  case (Cons x fs1)
  obtain a s where x: "x = (a, s)" by (cases x)
  with Cons show ?case by (subst insert_loop.simps) auto
qed

lemma links_set [simp]:
  "links (set_next p v h) = (links h)(p := (links h p)\<lparr>pxNextFreeBlock := v\<rparr>)"
  "links (set_size p w h) = (links h)(p := (links h p)\<lparr>xBlockSize := w\<rparr>)"
  by (simp_all add: set_next_def set_size_def)

lemma set_sel [simp]:
  "pxEnd (set_next p v h) = pxEnd h" "pxEnd (set_size p w h) = pxEnd h"
  "xFreeBytesRemaining (set_next p v h) = xFreeBytesRemaining h"
  "xFreeBytesRemaining (set_size p w h) = xFreeBytesRemaining h"
  "xMinimumEverFreeBytesRemaining (set_next p v h) = xMinimumEverFreeBytesRemaining h"
  "xMinimumEverFreeBytesRemaining (set_size p w h) = xMinimumEverFreeBytesRemaining h"
  "xBlockAllocatedBit (set_next p v h) = xBlockAllocatedBit h"
  "xBlockAllocatedBit (set_size p w h) = xBlockAllocatedBit h"
  by (simp_all add: set_next_def set_size_def)

lemma block_link_upd [simp]:
  fixes r :: block_link
  shows "r\<lparr>pxNextFreeBlock := v, xBlockSize := w\<rparr> = \<lparr>pxNextFreeBlock = v, xBlockSize = w\<rparr>"
    "r\<lparr>xBlockSize := w, pxNextFreeBlock := v\<rparr> = \<lparr>pxNextFreeBlock = v, xBlockSize = w\<rparr>"
  by (cases r; simp)+

lemma block_link_next: "r\<lparr>pxNextFreeBlock := v\<rparr> = \<lparr>pxNextFreeBlock = v, xBlockSize = xBlockSize r\<rparr>" for r :: block_link
  by (cases r) simp

text \<open>Only the header of the block changes when it is linked.\<close>

lemma link_next_join:
  assumes chain: "free_chain (links h) it fs2 (pxEnd h)" and b: "b \<notin> fst ` set fs2" "it \<notin> fst ` set fs2"
    and s: "unat (size_of h b) = s" "s + sum_list (map snd fs2) < 2 ^ 32" and e: "pxEnd h \<notin> fst ` set fs2"
  obtains s' fs where "join b s fs2 = (b, s') # fs" "fst ` set fs \<subseteq> fst ` set fs2" "s' \<le> s + sum_list (map snd fs2)"
    "link_next b it h = h\<lparr>links := (links h)(b := \<lparr>pxNextFreeBlock = first_addr fs (pxEnd h), xBlockSize = of_nat s'\<rparr>)\<rparr>"
    "\<And>ls p. pxNextFreeBlock (ls p) = first_addr fs (pxEnd h) \<Longrightarrow> (\<And>a. a \<in> fst ` set fs \<Longrightarrow> ls a = links h a) \<Longrightarrow>
       free_chain ls p fs (pxEnd h)"
proof (cases fs2)
  case Nil
  then have "link_next b it h = set_next b (pxEnd h) h"
    using chain by (simp add: link_next_def)
  then show ?thesis
    using Nil s by (intro that [of s "[]"]) (auto simp: set_next_def intro!: arg_cong [where f = "\<lambda>f. h\<lparr>links := f\<rparr>"])
next
  case (Cons x fs)
  obtain c u where x: "x = (c, u)" by (cases x)
  have c: "next_of h it = c" "unat (size_of h c) = u" "free_chain (links h) c fs (pxEnd h)" "c \<noteq> pxEnd h" "c \<noteq> b"
    using chain e b by (auto simp: Cons x)
  have walk: "free_chain ls p fs (pxEnd h)"
    if "pxNextFreeBlock (ls p) = first_addr fs (pxEnd h)" "\<And>a. a \<in> fst ` set fs \<Longrightarrow> ls a = links h a" for ls p
    using c(3) that by (rule free_chain_from)
  show ?thesis
  proof (cases "b + s = c")
    case True
    have "link_next b it h = h\<lparr>links := (links h)(b := \<lparr>pxNextFreeBlock = next_of h c, xBlockSize = of_nat (s + u)\<rparr>)\<rparr>"
      using True c(1,4,5) s(1) c(2) by (auto simp: link_next_def Let_def set_next_def set_size_def)
    with True show ?thesis
      using s(2) free_chain_first [OF c(3)] walk by (intro that [of "s + u" fs]) (auto simp: Cons x)
  next
    case False
    have "link_next b it h = h\<lparr>links := (links h)(b := \<lparr>pxNextFreeBlock = c, xBlockSize = of_nat s\<rparr>)\<rparr>"
      using False c(1) s(1) by (auto simp: link_next_def set_next_def block_link_next)
    moreover have "free_chain ls p (x # fs) (pxEnd h)"
      if "pxNextFreeBlock (ls p) = first_addr (x # fs) (pxEnd h)" "\<And>a. a \<in> fst ` set (x # fs) \<Longrightarrow> ls a = links h a" for ls p
      using that walk [of ls c] c(2) free_chain_first [OF c(3)] by (auto simp: x)
    ultimately show ?thesis
      using False s(2) by (intro that [of s "x # fs"]) (auto simp: Cons x)
  qed
qed

text \<open>
  Inserting a block keeps the chain of headers, joins the block with the free neighbours it
  touches, and changes no header but those of the free list and the block.
\<close>

lemma insert_block:
  assumes chain: "free_chain (links h) (xStart l) (fs1 @ fs2) (pxEnd h)"
    and start: "0 < xStart l" "size_of h (xStart l) = 0" "xStart l \<notin> insert b (insert (pxEnd h) (fst ` set (fs1 @ fs2)))"
    and fs1: "\<forall>(a, u)\<in>set fs1. 0 < a \<and> a < b \<and> a \<notin> fst ` set fs2" "distinct (map fst fs1)"
    and fs2: "\<forall>(a, u)\<in>set fs2. b < a \<and> a < pxEnd h" and b: "b < pxEnd h"
    and s: "unat (size_of h b) = s" "sum_list (map snd fs1) + s + sum_list (map snd fs2) < 2 ^ 32"
  obtains ls where "prvInsertBlockIntoFreeList l b h = Some (h\<lparr>links := ls\<rparr>)"
    "free_chain ls (xStart l) (insert_free b s fs1 fs2) (pxEnd h)"
    "\<And>a. a \<notin> insert (xStart l) (insert b (fst ` set fs1)) \<Longrightarrow> ls a = links h a"
    "xBlockSize (ls (xStart l)) = 0" "unat (xBlockSize (ls b)) \<le> s + sum_list (map snd fs2)"
proof -
  have loop: "insert_loop b (xStart l) h = Some (last (xStart l # map fst fs1))"
    using fs2 b fs1(1) by (intro insert_loop_last [OF chain start(1)]) (auto simp: first_addr_def split: list.splits)
  have e: "pxEnd h \<notin> fst ` set fs2"
    using fs2 by auto
  show ?thesis
  proof (cases fs1 rule: rev_cases)
    case Nil
    then have it: "insert_loop b (xStart l) h = Some (xStart l)" "xStart l \<noteq> b" "xStart l \<notin> fst ` set fs2"
      using loop start(3) by auto
    obtain s' fs where j: "join b s fs2 = (b, s') # fs" "fst ` set fs \<subseteq> fst ` set fs2" "s' \<le> s + sum_list (map snd fs2)"
      "link_next b (xStart l) h = h\<lparr>links := (links h)(b := \<lparr>pxNextFreeBlock = first_addr fs (pxEnd h), xBlockSize = of_nat s'\<rparr>)\<rparr>"
      "\<And>ls p. pxNextFreeBlock (ls p) = first_addr fs (pxEnd h) \<Longrightarrow> (\<And>a. a \<in> fst ` set fs \<Longrightarrow> ls a = links h a) \<Longrightarrow>
         free_chain ls p fs (pxEnd h)"
      by (rule link_next_join [of h "xStart l" fs2 b s]) (use chain Nil it fs2 s e in auto)
    have "b \<notin> fst ` set fs2"
      using fs2 by auto
    then have out: "b \<notin> fst ` set fs" "xStart l \<notin> fst ` set fs"
      using j(2) it(3) by blast+
    let ?ls = "(links h)(b := \<lparr>pxNextFreeBlock = first_addr fs (pxEnd h), xBlockSize = of_nat s'\<rparr>,
                         xStart l := (links h (xStart l))\<lparr>pxNextFreeBlock := b\<rparr>)"
    have "prvInsertBlockIntoFreeList l b h = Some (h\<lparr>links := ?ls\<rparr>)"
      using it start(2) j(4) by (simp add: prvInsertBlockIntoFreeList_def Let_def set_next_def)
    moreover have "free_chain ?ls b fs (pxEnd h)"
      using out it(2) by (intro j(5)) (auto simp: image_iff)
    ultimately show ?thesis
      using it j(1,3) s(2) start(2) Nil by (intro that [of ?ls]) (auto simp: insert_free_def unat_of_nat_32)
  next
    case (snoc gs x)
    obtain p t where x: "x = (p, t)" by (cases x)
    have it: "insert_loop b (xStart l) h = Some p" "p \<noteq> b" "p \<noteq> xStart l" "p \<notin> fst ` set fs2" "b \<notin> fst ` set fs2"
      "p \<notin> fst ` set gs" "b \<notin> fst ` set gs" "xStart l \<noteq> b" "xStart l \<notin> fst ` set gs" "xStart l \<notin> fst ` set fs2"
      using loop start(3) fs1 fs2 by (auto simp: snoc x)
    have old: "free_chain (links h) (xStart l) gs p" "unat (size_of h p) = t" "free_chain (links h) p fs2 (pxEnd h)"
      using chain by (simp_all add: snoc x free_chain_append)
    show ?thesis
    proof (cases "p + t = b")
      case True
      let ?h = "set_size p (size_of h p + size_of h b) h"
      have t: "unat (size_of h p + size_of h b) = t + s"
        using s old(2) by (subst unat_add_nowrap) (auto simp: snoc x)
      have "free_chain (links ?h) p fs2 (pxEnd ?h)"
        unfolding set_sel by (rule free_chain_from [OF old(3)]) (use free_chain_first [OF old(3)] it(4) in auto)
      then obtain s' fs where j: "join p (t + s) fs2 = (p, s') # fs" "fst ` set fs \<subseteq> fst ` set fs2" "s' \<le> t + s + sum_list (map snd fs2)"
        "link_next p p ?h = ?h\<lparr>links := (links ?h)(p := \<lparr>pxNextFreeBlock = first_addr fs (pxEnd ?h), xBlockSize = of_nat s'\<rparr>)\<rparr>"
        "\<And>ls q. pxNextFreeBlock (ls q) = first_addr fs (pxEnd ?h) \<Longrightarrow> (\<And>a. a \<in> fst ` set fs \<Longrightarrow> ls a = links ?h a) \<Longrightarrow>
           free_chain ls q fs (pxEnd ?h)"
        by (rule link_next_join [of ?h p fs2 p "t + s"]) (use it s t e in \<open>auto simp: snoc x\<close>)
      let ?ls = "(links h)(p := \<lparr>pxNextFreeBlock = first_addr fs (pxEnd h), xBlockSize = of_nat s'\<rparr>)"
      have "prvInsertBlockIntoFreeList l b h = Some (h\<lparr>links := ?ls\<rparr>)"
        using it True old(2) j(4) by (simp add: prvInsertBlockIntoFreeList_def Let_def set_size_def)
      moreover have "free_chain ?ls p fs (pxEnd h)"
        using j(2) it(4) by (intro j(5) [unfolded set_sel]) (auto simp: subset_iff)
      ultimately show ?thesis
        using it j(1,3) s old True start(2) by (intro that [of ?ls])
          (auto simp: insert_free_def snoc x free_chain_append unat_of_nat_32)
    next
      case False
      have "pxNextFreeBlock ((links h) p) = first_addr fs2 (pxEnd h)"
        using old(3) by (rule free_chain_first)
      obtain s' fs where j: "join b s fs2 = (b, s') # fs" "fst ` set fs \<subseteq> fst ` set fs2" "s' \<le> s + sum_list (map snd fs2)"
        "link_next b p h = h\<lparr>links := (links h)(b := \<lparr>pxNextFreeBlock = first_addr fs (pxEnd h), xBlockSize = of_nat s'\<rparr>)\<rparr>"
        "\<And>ls q. pxNextFreeBlock (ls q) = first_addr fs (pxEnd h) \<Longrightarrow> (\<And>a. a \<in> fst ` set fs \<Longrightarrow> ls a = links h a) \<Longrightarrow>
           free_chain ls q fs (pxEnd h)"
        by (rule link_next_join [of h p fs2 b s]) (use old it s e in \<open>auto simp: snoc x\<close>)
      have out: "b \<notin> fst ` set fs" "p \<notin> fst ` set fs"
        using j(2) it by auto
      let ?ls = "(links h)(b := \<lparr>pxNextFreeBlock = first_addr fs (pxEnd h), xBlockSize = of_nat s'\<rparr>,
                           p := (links h p)\<lparr>pxNextFreeBlock := b\<rparr>)"
      have "prvInsertBlockIntoFreeList l b h = Some (h\<lparr>links := ?ls\<rparr>)"
        using it False old(2) j(4) by (simp add: prvInsertBlockIntoFreeList_def Let_def set_next_def)
      moreover have "free_chain ?ls b fs (pxEnd h)"
        using out it(2) by (intro j(5)) (auto simp: image_iff)
      ultimately show ?thesis
        using it j(1,3) s(2) old False start(2) by (intro that [of ?ls])
          (auto simp: insert_free_def snoc x free_chain_append unat_of_nat_32)
    qed
  qed
qed

subsection \<open>Requests\<close>

text \<open>The size of the block that serves a request.\<close>

definition block_bytes :: "nat \<Rightarrow> nat" where
  "block_bytes n = (n + 15) div 8 * 8"

lemma heap_consts [simp]:
  "xHeapStructSize = 8" "heapMINIMUM_BLOCK_SIZE = 16" "unat portBYTE_ALIGNMENT_MASK = 7"
  by (simp_all add: xHeapStructSize_def portBYTE_ALIGNMENT_def portBYTE_ALIGNMENT_MASK_def heapMINIMUM_BLOCK_SIZE_def)

lemma unat_align_mask: "unat (w AND portBYTE_ALIGNMENT_MASK) = unat w mod 8"
  using unat_and_mask_mod [of w 3] by (simp add: portBYTE_ALIGNMENT_MASK_def mask_eq_exp_minus_1)

lemma round_up_8: "(n + 15) div 8 * 8 = (if (n + 8) mod 8 = 0 then n + 8 else n + 8 + (8 - (n + 8) mod 8))" for n :: nat
proof -
  define q r where "q = (n + 8) div 8" and "r = (n + 8) mod 8"
  have n: "n + 15 = 8 * q + (r + 7)" "n + 8 = 8 * q + r" "r < 8"
    using div_mult_mod_eq [of "n + 8" 8] by (simp_all add: q_def r_def)
  have "(r + 7) div 8 = (if r = 0 then 0 else 1)"
    using n(3) by (auto simp: div_nat_eqI)
  then have "(n + 15) div 8 * 8 = (if r = 0 then 8 * q else 8 * q + 8)"
    unfolding n(1) by simp
  then show ?thesis
    using n(2,3) unfolding r_def [symmetric] by auto
qed

lemma unat_adjust_size:
  assumes "0 < unat w" "unat w < 2 ^ 31"
  shows "unat (adjust_size w) = block_bytes (unat w)"
proof -
  have w8: "unat (w + 8) = unat w + 8"
    using assms by (subst unat_add_nowrap) simp_all
  define r where "r = (unat w + 8) mod 8"
  have r: "unat ((w + 8) AND portBYTE_ALIGNMENT_MASK) = r" "r < 8"
    by (simp_all add: unat_align_mask w8 r_def)
  have "unat (8 - ((w + 8) AND portBYTE_ALIGNMENT_MASK)) = 8 - r"
    using r by (subst unat_sub_nowrap) simp_all
  then have "unat (w + 8 + (8 - ((w + 8) AND portBYTE_ALIGNMENT_MASK))) = unat w + 8 + (8 - r)"
    using w8 assms(2) by (subst unat_add_nowrap) simp_all
  moreover have "block_bytes (unat w) = (if r = 0 then unat w + 8 else unat w + 8 + (8 - r))"
    unfolding block_bytes_def r_def by (rule round_up_8)
  moreover have "(w + 8) AND portBYTE_ALIGNMENT_MASK = 0 \<longleftrightarrow> r = 0"
    using r(1) unat_eq_0 by metis
  moreover have "0 < w"
    using assms(1) by (simp add: word_less_nat_alt)
  ultimately show ?thesis
    using w8 by (simp add: adjust_size_def Let_def portBYTE_ALIGNMENT_def)
qed

lemma block_bytes_ge: "0 < n \<Longrightarrow> 16 \<le> block_bytes n" "block_bytes n mod 8 = 0" "n + 8 \<le> block_bytes n"
  unfolding block_bytes_def by presburger+

lemma heap_bounds:
  assumes "layout_ok l"
  shows "0 < heap_lo l" "heap_lo l mod 8 = 0" "heap_hi l mod 8 = 0" "ucHeap l \<le> heap_lo l" "heap_lo l + 28648 \<le> heap_hi l"
    "heap_hi l \<le> heap_lo l + 28664" "heap_hi l + 8 \<le> ucHeap l + 28672" "heap_hi l < 2 ^ 32"
    "0 < xStart l" "xStart l < heap_lo l \<or> heap_hi l < xStart l"
proof -
  have "heap_lo l = ucHeap l + 7 - (ucHeap l + 7) mod 8" "heap_hi l = ucHeap l + 28664 - (ucHeap l + 28664) mod 8"
    by (simp_all add: heap_lo_def heap_hi_def minus_mod_eq_div_mult)
  moreover have "(ucHeap l + 7) mod 8 < 8" "(ucHeap l + 28664) mod 8 < 8"
    by simp_all
  ultimately show "0 < heap_lo l" "ucHeap l \<le> heap_lo l" "heap_lo l + 28648 \<le> heap_hi l"
      "heap_hi l \<le> heap_lo l + 28664" "heap_hi l + 8 \<le> ucHeap l + 28672" "heap_hi l < 2 ^ 32"
      "0 < xStart l" "xStart l < heap_lo l \<or> heap_hi l < xStart l"
    using assms unfolding layout_ok_def by linarith+
qed (simp_all add: heap_lo_def heap_hi_def)

lemma free_bytes_simps [simp]:
  "free_bytes [] = 0" "free_bytes ((a, s, f) # bs) = (if f then s else 0) + free_bytes bs"
  "free_bytes (xs @ ys) = free_bytes xs + free_bytes ys"
  by (simp_all add: free_bytes_def)

lemma free_bytes_le: "tiled lo bs hi \<Longrightarrow> lo + free_bytes bs \<le> hi"
  by (induction lo bs hi rule: tiled.induct) auto

lemma free_blocks_tiled: "tiled lo bs hi \<Longrightarrow> (a, s) \<in> set (free_blocks bs) \<Longrightarrow> lo \<le> a \<and> a + s \<le> hi \<and> 16 \<le> s"
  by (simp add: set_free_blocks tiled_member)

lemma free_blocks_distinct: "tiled lo bs hi \<Longrightarrow> distinct (map fst (free_blocks bs))"
proof (induction lo bs hi rule: tiled.induct)
  case (2 lo a s f bs hi)
  then show ?case
    by (auto dest!: free_blocks_tiled)
qed simp

text \<open>First fit on the free list, and the search in memory.\<close>

lemma malloc_loop_found:
  assumes "free_chain (links h) p (gs @ (a, s) # fs) e" "\<forall>(b, u)\<in>set gs. 0 < b \<and> u < unat w" "unat w \<le> s"
    "0 < a"
  shows "malloc_loop w p (next_of h p) h = Some (last (p # map fst gs), a)"
  using assms
proof (induction gs arbitrary: p)
  case Nil
  then show ?case
    by (subst malloc_loop.simps) (simp add: word_less_nat_alt)
next
  case (Cons x gs)
  obtain b u where x: "x = (b, u)" by (cases x)
  with Cons.prems have b: "next_of h p = b" "unat (size_of h b) < unat w" "0 < b"
    "free_chain (links h) b (gs @ (a, s) # fs) e" by auto
  moreover have "0 < next_of h b"
    using b(4) Cons.prems by (auto simp: first_addr_def dest!: free_chain_first split: list.splits)
       (cases gs; auto)
  ultimately show ?case
    using Cons by (subst malloc_loop.simps) (simp add: word_less_nat_alt x)
qed

lemma malloc_loop_none:
  assumes "free_chain (links h) p fs e" "\<forall>(b, u)\<in>set fs. 0 < b \<and> u < unat w" "0 < e" "next_of h e = 0"
  shows "\<exists>q. malloc_loop w p (next_of h p) h = Some (q, e)"
  using assms
proof (induction fs arbitrary: p)
  case Nil
  then show ?case
    by (subst malloc_loop.simps) simp
next
  case (Cons x fs)
  obtain b u where x: "x = (b, u)" by (cases x)
  with Cons.prems have b: "next_of h p = b" "unat (size_of h b) < unat w" "0 < b"
    "free_chain (links h) b fs e" by auto
  moreover have "0 < next_of h b"
    using b(4) Cons.prems by (cases fs) auto
  ultimately show ?case
    using Cons by (subst malloc_loop.simps) (simp add: word_less_nat_alt x)
qed

text \<open>Taking a block out of the list.\<close>

lemma free_chain_unlink:
  assumes "free_chain ls p (gs @ (a, s) # fs) e" "distinct (p # map fst gs)" "p \<notin> fst ` set fs"
    "fst ` set gs \<inter> fst ` set fs = {}" "last (p # map fst gs) = q"
  shows "free_chain (ls(q := (ls q)\<lparr>pxNextFreeBlock := pxNextFreeBlock (ls a)\<rparr>)) p (gs @ fs) e"
  using assms
proof (induction gs arbitrary: p)
  case Nil
  then have a: "free_chain ls a fs e" by simp
  show ?case
    unfolding append_Nil by (rule free_chain_from [OF a]) (use Nil free_chain_first [OF a] in auto)
next
  case (Cons x gs)
  obtain b u where x: "x = (b, u)" by (cases x)
  have q: "last (b # map fst gs) = q"
    using Cons.prems(5) by (simp add: x)
  then have "q \<noteq> p"
    using Cons.prems(2) last_in_set [of "b # map fst gs"] by (auto simp: x simp del: last.simps)
  then have "pxNextFreeBlock ((ls(q := (ls q)\<lparr>pxNextFreeBlock := pxNextFreeBlock (ls a)\<rparr>)) p) = b"
    using Cons.prems(1) by (simp add: x)
  moreover have "free_chain (ls(q := (ls q)\<lparr>pxNextFreeBlock := pxNextFreeBlock (ls a)\<rparr>)) b (gs @ fs) e"
    using Cons.prems q by (intro Cons.IH) (auto simp: x)
  moreover have "unat (xBlockSize ((ls(q := (ls q)\<lparr>pxNextFreeBlock := pxNextFreeBlock (ls a)\<rparr>)) b)) = u"
    using Cons.prems(1) by (auto simp: x)
  ultimately show ?case
    unfolding x append_Cons free_chain.simps by (intro conjI)
qed

lemma free_chain_last:
  "free_chain ls p (gs @ (a, s) # fs) e \<Longrightarrow> pxNextFreeBlock (ls (last (p # map fst gs))) = a"
proof (induction gs arbitrary: p)
  case (Cons x gs)
  then show ?case by (cases x) auto
qed simp

lemma taken_simps [simp]:
  "taken ls []" "taken ls (xs @ ys) \<longleftrightarrow> taken ls xs \<and> taken ls ys"
  "taken ls ((a, s, f) # bs) \<longleftrightarrow> (f \<or> ls a = \<lparr>pxNextFreeBlock = 0, xBlockSize = of_nat s OR 2 ^ 31\<rparr>) \<and> taken ls bs"
  by (auto simp: taken_def ball_Un)

lemma takenD: "taken ls bs \<Longrightarrow> (a, s, False) \<in> set bs \<Longrightarrow> ls a = \<lparr>pxNextFreeBlock = 0, xBlockSize = of_nat s OR 2 ^ 31\<rparr>"
  by (fastforce simp: taken_def)

lemma taken_cong: "(\<And>a s. (a, s, False) \<in> set bs \<Longrightarrow> ls a = ls' a) \<Longrightarrow> taken ls bs = taken ls' bs"
  by (fastforce simp: taken_def)

lemma taken_upd [simp]: "\<forall>s. (x, s, False) \<notin> set bs \<Longrightarrow> taken (ls(x := v)) bs = taken ls bs"
  by (rule taken_cong) auto

lemma hand_out_sel:
  "links (hand_out a h) = (links h)(a := \<lparr>pxNextFreeBlock = 0, xBlockSize = size_of h a OR xBlockAllocatedBit h\<rparr>)"
  "pxEnd (hand_out a h) = pxEnd h" "xBlockAllocatedBit (hand_out a h) = xBlockAllocatedBit h"
  "xFreeBytesRemaining (hand_out a h) = xFreeBytesRemaining h - size_of h a"
  "xMinimumEverFreeBytesRemaining (hand_out a h) \<le> xFreeBytesRemaining (hand_out a h)"
  by (auto simp: hand_out_def Let_def)

lemma represents_hand_out:
  assumes "tiled (heap_lo l) (xs @ (a, s, False) # ys) (heap_hi l)" "separated (xs @ (a, s, False) # ys)"
    and "pxEnd h = heap_hi l" "xBlockAllocatedBit h = 2 ^ 31"
    and "unat (xFreeBytesRemaining h) = s + free_bytes (xs @ ys)" "size_of h a = of_nat s"
    and "free_chain (links h) (xStart l) (free_blocks (xs @ ys)) (heap_hi l)"
    and "size_of h (xStart l) = 0" "size_of h (heap_hi l) = 0" "next_of h (heap_hi l) = 0" "layout_ok l"
    and "taken (links h) (xs @ ys)"
  shows "represents l (xs @ (a, s, False) # ys) (hand_out a h)"
proof -
  have a: "heap_lo l \<le> a" "a + s \<le> heap_hi l" "16 \<le> s"
    using tiled_member [OF assms(1), of a s False] by auto
  have "unat (of_nat s :: u32) = s"
    using a(2) heap_bounds [OF assms(11)] by (intro unat_of_nat_32) simp
  then have free: "unat (xFreeBytesRemaining h - of_nat s) = free_bytes (xs @ ys)"
    using assms(5) by (subst unat_sub_nowrap) simp_all
  have other: "a \<noteq> xStart l" "a \<noteq> heap_hi l"
    using a heap_bounds [OF assms(11)] by auto
  have "a \<noteq> b" if "(b, t, g) \<in> set (xs @ ys)" for b t g
    using that tiled_split(5,6) [OF assms(1), of b t g] a(3) by auto
  then have "a \<notin> fst ` set (free_blocks (xs @ ys))" "\<forall>t. (a, t, False) \<notin> set (xs @ ys)"
    by (fastforce simp del: free_blocks_simps simp: set_free_blocks)+
  then show ?thesis
    using assms free other hand_out_sel(5) [of a h]
    unfolding represents_def hand_out_sel(1-4) by (simp del: fun_upd_apply) simp
qed

lemma outside:
  assumes "tiled (heap_lo l) bs (heap_hi l)" "layout_ok l"
  shows "(xStart l, s, f) \<notin> set bs" "(heap_hi l, s, f) \<notin> set bs"
    "xStart l \<notin> fst ` set (free_blocks bs)" "heap_hi l \<notin> fst ` set (free_blocks bs)" "xStart l \<noteq> heap_hi l"
proof -
  show out: "(xStart l, s, f) \<notin> set bs" "(heap_hi l, s, f) \<notin> set bs" for s f
    using tiled_member [OF assms(1), of _ s f] heap_bounds(9,10) [OF assms(2)] by fastforce+
  show "xStart l \<notin> fst ` set (free_blocks bs)" "heap_hi l \<notin> fst ` set (free_blocks bs)" "xStart l \<noteq> heap_hi l"
    using out heap_bounds [OF assms(2)] by (auto simp: set_free_blocks)
qed

text \<open>The invariant with a block unlinked from the list but not yet handed out.\<close>

lemma unlinked:
  assumes rep: "represents l (xs @ (a, s, True) # ys) h" and l: "layout_ok l"
    and q: "q = last (xStart l # map fst (free_blocks xs))"
  defines "h1 \<equiv> set_next q (next_of h a) h"
  shows "next_of h q = a" "size_of h a = of_nat s"
    "free_chain (links h1) (xStart l) (free_blocks (xs @ ys)) (heap_hi l)"
    "next_of h1 (heap_hi l) = 0" "taken (links h1) (xs @ ys)"
    "size_of h1 (xStart l) = 0" "size_of h1 (heap_hi l) = 0"
proof -
  have tiled: "tiled (heap_lo l) (xs @ (a, s, True) # ys) (heap_hi l)"
    and chain: "free_chain (links h) (xStart l) (free_blocks xs @ (a, s) # free_blocks ys) (heap_hi l)"
    using rep by (simp_all add: represents_def)
  show "next_of h q = a" "size_of h a = of_nat s"
    using free_chain_last [OF chain] chain unfolding q by (auto simp: free_chain_append)
  note out = outside [OF tiled l]
  have "distinct (map fst (free_blocks (xs @ (a, s, True) # ys)))"
    by (rule free_blocks_distinct [OF tiled])
  then have dist: "distinct (map fst (free_blocks xs))" "fst ` set (free_blocks xs) \<inter> fst ` set (free_blocks ys) = {}"
    by auto
  show "free_chain (links h1) (xStart l) (free_blocks (xs @ ys)) (heap_hi l)"
    using out(3) dist unfolding h1_def links_set free_blocks_simps
    by (intro free_chain_unlink [OF chain]) (auto simp: q)
  have "q = xStart l \<or> (\<exists>u. (q, u, True) \<in> set xs)"
    using last_in_set [of "xStart l # map fst (free_blocks xs)"] unfolding q by (auto simp: set_free_blocks)
  moreover have "\<forall>u. (q, u, False) \<notin> set (xs @ ys)" if "(q, v, True) \<in> set xs" for v
    using that tiled_unique [OF tiled, of q v True _ False] by auto
  ultimately have "q \<noteq> heap_hi l" "\<forall>u. (q, u, False) \<notin> set (xs @ ys)"
    using out by auto
  then show "next_of h1 (heap_hi l) = 0" "taken (links h1) (xs @ ys)"
      "size_of h1 (xStart l) = 0" "size_of h1 (heap_hi l) = 0"
    using rep by (auto simp: h1_def represents_def)
qed

lemma tiled_once:
  assumes "tiled lo (xs @ (a, s, f) # ys) hi"
  shows "(a, t, g) \<notin> set (xs @ ys)" "a \<notin> fst ` set (free_blocks (xs @ ys))"
proof -
  show "(a, t, g) \<notin> set (xs @ ys)" for t g
    using tiled_split(3) [OF assms] tiled_split(5,6) [OF assms, of a t g] by auto
  then show "a \<notin> fst ` set (free_blocks (xs @ ys))"
    by (auto simp: set_free_blocks)
qed

lemma cons_tile_id: "separated (x # ys) \<Longrightarrow> cons_tile x ys = x # ys"
  by (cases ys) auto

text \<open>Inserting a block that is a tile: the free list is that of the tiles with the tile released.\<close>

lemma insert_tile:
  assumes tiled: "tiled (heap_lo l) (xs @ (b, s, f) # ys) (heap_hi l)" "separated xs" and l: "layout_ok l"
    and h: "free_chain (links h) (xStart l) (free_blocks (xs @ ys)) (heap_hi l)" "pxEnd h = heap_hi l"
      "size_of h (xStart l) = 0" "unat (size_of h b) = s"
  obtains ls where "prvInsertBlockIntoFreeList l b h = Some (h\<lparr>links := ls\<rparr>)"
    "free_chain ls (xStart l) (free_blocks (release b (xs @ (b, s, f) # ys))) (heap_hi l)"
    "xBlockSize (ls (xStart l)) = 0" "ls (heap_hi l) = links h (heap_hi l)"
    "\<And>a t. (a, t, False) \<in> set (xs @ ys) \<Longrightarrow> ls a = links h a" "unat (xBlockSize (ls b)) < 2 ^ 31"
proof -
  note order = tiled_split(3,5,6) [OF tiled(1)] and out = outside [OF tiled(1) l]
  have b: "b + s \<le> heap_hi l" "0 < s"
    using tiled_member [OF tiled(1), of b s f] by auto
  have b_out: "b \<noteq> xStart l"
    using out(1) [of s f] by auto
  have "0 < p \<and> p < b \<and> p \<notin> fst ` set (free_blocks ys)" if "(p, u) \<in> set (free_blocks xs)" for p u
  proof -
    have p: "(p, u, True) \<in> set xs"
      using that by (simp add: set_free_blocks)
    then have "p < b" "0 < p"
      using order(2) [OF p] tiled_member [OF tiled(1), of p u True] heap_bounds(1) [OF l] by auto
    moreover have "p \<notin> fst ` set (free_blocks ys)"
      using order(3) [of p _ True] \<open>p < b\<close> by (auto simp: set_free_blocks dest: order(3))
    ultimately show ?thesis by simp
  qed
  then have fs1: "\<forall>(p, u)\<in>set (free_blocks xs). 0 < p \<and> p < b \<and> p \<notin> fst ` set (free_blocks ys)"
    by auto
  have fs2: "\<forall>(p, u)\<in>set (free_blocks ys). b < p \<and> p < heap_hi l"
    using order(3) [of _ _ True] b(2) by (fastforce simp: set_free_blocks)
  have sum: "sum_list (map snd (free_blocks xs)) + s + sum_list (map snd (free_blocks ys)) < 2 ^ 31"
  proof -
    obtain m where "tiled (heap_lo l) xs m" "tiled (m + s) ys (heap_hi l)"
      using tiled(1) by (auto simp: tiled_append)
    then have "heap_lo l + free_bytes xs + s + free_bytes ys \<le> heap_hi l"
      using free_bytes_le [of "heap_lo l" xs m] free_bytes_le [of "m + s" ys "heap_hi l"] by simp
    then show ?thesis
      using heap_bounds(6) [OF l] by (simp add: free_bytes_def)
  qed
  have st: "xStart l \<notin> insert b (insert (pxEnd h) (fst ` set (free_blocks xs @ free_blocks ys)))"
    using b_out out(5) out(3) h(2) by (cases f) auto
  have dist: "distinct (map fst (free_blocks xs))"
    using free_blocks_distinct [OF tiled(1)] by simp
  obtain ls where ls: "prvInsertBlockIntoFreeList l b h = Some (h\<lparr>links := ls\<rparr>)"
    "free_chain ls (xStart l) (insert_free b s (free_blocks xs) (free_blocks ys)) (pxEnd h)"
    "\<And>a. a \<notin> insert (xStart l) (insert b (fst ` set (free_blocks xs))) \<Longrightarrow> ls a = links h a"
    "xBlockSize (ls (xStart l)) = 0" "unat (xBlockSize (ls b)) \<le> s + sum_list (map snd (free_blocks ys))"
    by (rule insert_block [of h l "free_blocks xs" "free_blocks ys" b s])
       (use h st fs1 fs2 b sum dist heap_bounds(9) [OF l] in simp_all)
  have "ls a = links h a" if "(a, t, False) \<in> set (xs @ ys)" for a t
  proof (rule ls(3))
    have "a \<notin> fst ` set (free_blocks xs)"
    proof
      assume "a \<in> fst ` set (free_blocks xs)"
      then obtain u where "(a, u, True) \<in> set xs"
        by (auto simp: set_free_blocks)
      then show False
        using that tiled_unique [OF tiled(1), of a t False u True] by auto
    qed
    then show "a \<notin> insert (xStart l) (insert b (fst ` set (free_blocks xs)))"
      using that out(1) [of t False] tiled_once(1) [OF tiled(1), of t False] by auto
  qed
  moreover have "ls (heap_hi l) = links h (heap_hi l)"
    using b out(4,5) by (intro ls(3)) auto
  ultimately show ?thesis
    using ls h(2) sum free_blocks_release [OF tiled] by (intro that [of ls]) simp_all
qed

text \<open>What \<open>take_block\<close> leaves of the tile.\<close>

definition cut :: "nat \<Rightarrow> nat \<Rightarrow> nat \<Rightarrow> tile list" where
  "cut w a s = (if 16 < s - w then [(a, w, False), (a + w, s - w, True)] else [(a, s, False)])"

lemma cut_tiles:
  assumes "tiled lo (xs @ (a, s, True) # ys) hi" "separated (xs @ (a, s, True) # ys)" "16 \<le> w" "w \<le> s" "w mod 8 = 0"
  shows "tiled lo (xs @ cut w a s @ ys) hi" "separated (xs @ cut w a s @ ys)"
proof -
  have "(s - w) mod 8 = 0"
    using assms(4,5) tiled_split(4) [OF assms(1)] by (simp add: mod_eq_0_iff_dvd)
  then show "tiled lo (xs @ cut w a s @ ys) hi"
    using assms by (auto simp: cut_def tiled_append)
  show "separated (xs @ cut w a s @ ys)"
    using assms(2) by (cases ys) (auto simp: cut_def separated_append)
qed

lemma take_block_represents:
  assumes rep: "represents l (xs @ (a, s, True) # ys) h" and l: "layout_ok l"
    and w: "16 \<le> unat w" "unat w mod 8 = 0" "unat w \<le> s"
  shows "\<exists>h'. take_block l w (last (xStart l # map fst (free_blocks xs))) a h = Some (a + 8, h')
    \<and> represents l (xs @ cut (unat w) a s @ ys) h'"
proof -
  let ?q = "last (xStart l # map fst (free_blocks xs))"
  define h1 where "h1 = set_next ?q (next_of h a) h"
  note un = unlinked [OF rep l refl, folded h1_def]
  have tiled: "tiled (heap_lo l) (xs @ (a, s, True) # ys) (heap_hi l)" and sep: "separated (xs @ (a, s, True) # ys)"
    and free: "unat (xFreeBytesRemaining h) = s + free_bytes (xs @ ys)" and bit: "xBlockAllocatedBit h = 2 ^ 31"
    and pxEnd: "pxEnd h = heap_hi l"
    using rep by (simp_all add: represents_def)
  have a: "heap_lo l \<le> a" "a + s \<le> heap_hi l" "16 \<le> s"
    using tiled_member [OF tiled, of a s True] by auto
  have s: "unat (size_of h1 a) = s" "size_of h1 a = of_nat s"
    using un(2) a(2) heap_bounds(8) [OF l] by (auto simp: h1_def unat_of_nat_32)
  have rest: "unat (size_of h1 a - w) = s - unat w"
    using s(1) w(3) by (subst unat_sub_nowrap) simp_all
  have take: "take_block l w ?q a h = map_option (\<lambda>h. (a + 8, hand_out a h)) (split_block l w a h1)"
    using un(1) by (simp add: take_block_def Let_def h1_def)
  have h1: "pxEnd h1 = heap_hi l" "xBlockAllocatedBit h1 = 2 ^ 31" "unat (xFreeBytesRemaining h1) = s + free_bytes (xs @ ys)"
    using free bit pxEnd by (simp_all add: h1_def)
  note tiles = cut_tiles [OF tiled sep w(1) w(3) w(2)]
  show ?thesis
  proof (cases "16 < s - unat w")
    case False
    then have "split_block l w a h1 = Some h1"
      using rest by (simp add: split_block_def word_less_nat_alt)
    moreover have "represents l (xs @ (a, s, False) # ys) (hand_out a h1)"
      by (rule represents_hand_out) (use tiles False h1 un(3-) s(2) l in \<open>simp_all add: cut_def\<close>)
    ultimately show ?thesis
      using take False by (simp add: cut_def)
  next
    case True
    let ?b = "a + unat w" and ?r = "s - unat w"
    define h2 where "h2 = set_size a w (set_size ?b (size_of h1 a - w) h1)"
    have split: "split_block l w a h1 = prvInsertBlockIntoFreeList l ?b h2"
      using True rest by (simp add: split_block_def word_less_nat_alt h2_def Let_def)
    have cut: "tiled (heap_lo l) (xs @ (a, unat w, False) # (?b, ?r, True) # ys) (heap_hi l)"
      "separated (xs @ (a, unat w, False) # (?b, ?r, True) # ys)"
      using tiles True by (simp_all add: cut_def)
    have notin: "a \<notin> fst ` set (free_blocks (xs @ ys))" "?b \<notin> fst ` set (free_blocks (xs @ ys))"
      "\<forall>t. (a, t, False) \<notin> set (xs @ ys)" "\<forall>t. (?b, t, False) \<notin> set (xs @ ys)" "?b \<noteq> a"
      using tiled_once [OF cut(1)] tiled_once [of _ "xs @ [(a, unat w, False)]" ?b ?r True ys] cut(1) w(1) by auto
    have out: "a \<noteq> xStart l" "?b \<noteq> xStart l" "a \<noteq> heap_hi l" "?b \<noteq> heap_hi l"
      using outside(1,2) [OF cut(1) l, of "unat w" False] outside(1,2) [OF cut(1) l, of ?r True] by auto
    have h2: "next_of h2 (heap_hi l) = 0" "taken (links h2) (xs @ ys)" "size_of h2 (xStart l) = 0" "size_of h2 (heap_hi l) = 0"
      "free_chain (links h2) (xStart l) (free_blocks (xs @ ys)) (heap_hi l)" "size_of h2 a = w" "unat (size_of h2 ?b) = ?r"
      using notin out un(3-) rest by (simp_all add: h2_def)
    have rel: "release ?b ((xs @ [(a, unat w, False)]) @ (?b, ?r, True) # ys) = xs @ (a, unat w, False) # (?b, ?r, True) # ys"
      using cut release_split [of "heap_lo l" "xs @ [(a, unat w, False)]" ?b ?r True ys "heap_hi l"]
        foldr_cons_tile [of xs "(a, unat w, False)"] cons_tile_id [of "(?b, ?r, True)" ys]
      by (auto simp: separated_append)
    have cut': "tiled (heap_lo l) ((xs @ [(a, unat w, False)]) @ (?b, ?r, True) # ys) (heap_hi l)"
      "separated (xs @ [(a, unat w, False)])"
      using cut by (auto simp: separated_append)
    have e: "pxEnd h2 = heap_hi l"
      using h1(1) by (simp add: h2_def)
    obtain ls where ls: "prvInsertBlockIntoFreeList l ?b h2 = Some (h2\<lparr>links := ls\<rparr>)"
      "free_chain ls (xStart l) (free_blocks (xs @ (a, unat w, False) # (?b, ?r, True) # ys)) (heap_hi l)"
      "xBlockSize (ls (xStart l)) = 0" "ls (heap_hi l) = links h2 (heap_hi l)"
      "\<And>x t. (x, t, False) \<in> set (xs @ (a, unat w, False) # ys) \<Longrightarrow> ls x = links h2 x"
      by (rule insert_tile [OF cut' l, of h2, unfolded rel]) (use h2 e in auto)
    have "taken ls (xs @ ys) = taken (links h2) (xs @ ys)"
      using ls(5) by (intro taken_cong) auto
    then have "represents l (xs @ (a, unat w, False) # (?b, ?r, True) # ys) (hand_out a (h2\<lparr>links := ls\<rparr>))"
      using ls(2-4) ls(5) [of a "unat w"] h1 h2 w True l by (intro represents_hand_out [OF cut]) (simp_all add: h2_def)
    then show ?thesis
      using take split ls(1) True by (simp add: cut_def)
  qed
qed

subsection \<open>Every operation keeps the representation\<close>

lemma unat_align: "unat (w AND NOT portBYTE_ALIGNMENT_MASK) = unat w div 8 * 8"
  unfolding and_not_eq_minus by (simp add: unat_sub_nowrap unat_align_mask minus_mod_eq_div_mult)

definition whole_heap :: "heap_layout \<Rightarrow> tile list" where
  "whole_heap l = [(heap_lo l, heap_hi l - heap_lo l, True)]"

lemma align_up:
  fixes u :: u32
  assumes "unat u + 7 < 2 ^ 32"
  shows "unat (if u AND portBYTE_ALIGNMENT_MASK \<noteq> 0
      then (u + (portBYTE_ALIGNMENT - 1)) AND NOT portBYTE_ALIGNMENT_MASK else u) = (unat u + 7) div 8 * 8"
proof (cases "unat u mod 8 = 0")
  case True
  then have "u AND portBYTE_ALIGNMENT_MASK = 0"
    using unat_align_mask [of u] unat_eq_0 by metis
  moreover obtain q where "unat u = 8 * q"
    using True by (auto simp: dvd_def)
  then have "(unat u + 7) div 8 * 8 = unat u"
    by simp
  ultimately show ?thesis by simp
next
  case False
  then have "u AND portBYTE_ALIGNMENT_MASK \<noteq> 0"
    using unat_align_mask [of u] by auto
  moreover have "unat (u + 7) = unat u + 7"
    using assms by (subst unat_add_nowrap) simp_all
  ultimately show ?thesis
    by (simp add: portBYTE_ALIGNMENT_def unat_align)
qed

lemma align_heap_value:
  assumes l: "layout_ok l"
  obtains a total where "align_heap l = (a, total)" "unat a = heap_lo l"
    "unat ((a + total - 8) AND NOT portBYTE_ALIGNMENT_MASK) = heap_hi l"
proof -
  let ?u = "of_nat (ucHeap l) :: u32" and ?mask = portBYTE_ALIGNMENT_MASK
  define a where "a = (if ?u AND ?mask \<noteq> 0 then (?u + (portBYTE_ALIGNMENT - 1)) AND NOT ?mask else ?u)"
  note b = heap_bounds [OF l]
  have u: "unat ?u = ucHeap l" "ucHeap l + 28672 < 2 ^ 32"
    using l by (auto simp: layout_ok_def intro!: unat_of_nat_32)
  have a: "unat a = heap_lo l"
    using align_up [of ?u] u unfolding a_def heap_lo_def by simp
  have d: "unat (a - ?u) = heap_lo l - ucHeap l"
    using a u(1) b(4) by (subst unat_sub_nowrap) simp_all
  have "unat (configTOTAL_HEAP_SIZE - (a - ?u)) = 28672 - (heap_lo l - ucHeap l)"
    using b(5,7) by (subst unat_sub_nowrap) (simp_all add: configTOTAL_HEAP_SIZE_def d)
  then have "unat (a + (configTOTAL_HEAP_SIZE - (a - ?u))) = ucHeap l + 28672"
    using a b(4,5,7) u(2) by (subst unat_add_nowrap) simp_all
  then have "unat (a + (configTOTAL_HEAP_SIZE - (a - ?u)) - 8) = ucHeap l + 28672 - 8"
    by (subst unat_sub_nowrap) simp_all
  then have e: "unat ((a + (configTOTAL_HEAP_SIZE - (a - ?u)) - 8) AND NOT ?mask) = heap_hi l"
    by (simp only: unat_align heap_hi_def)
  have "align_heap l = (a, configTOTAL_HEAP_SIZE - (a - ?u))"
    by (simp add: align_heap_def Let_def a_def)
  then show ?thesis
    using a e by (rule that)
qed

lemma represents_init:
  assumes l: "layout_ok l"
  shows "represents l (whole_heap l) (prvHeapInit l h)"
proof -
  note b = heap_bounds [OF l]
  obtain a total where a: "align_heap l = (a, total)" "unat a = heap_lo l"
    "unat ((a + total - 8) AND NOT portBYTE_ALIGNMENT_MASK) = heap_hi l"
    using align_heap_value [OF l] .
  define e where "e = (a + total - 8) AND NOT portBYTE_ALIGNMENT_MASK"
  have size: "unat (e - a) = heap_hi l - heap_lo l"
    using a b(5) by (subst unat_sub_nowrap) (simp_all add: e_def)
  have "prvHeapInit l h =
     (let h = set_size (xStart l) 0 (set_next (xStart l) (heap_lo l) h); h = h\<lparr>pxEnd := heap_hi l\<rparr>;
          h = set_next (heap_hi l) 0 (set_size (heap_hi l) 0 h);
          h = set_next (heap_lo l) (heap_hi l) (set_size (heap_lo l) (e - a) h)
      in h\<lparr>xMinimumEverFreeBytesRemaining := size_of h (heap_lo l), xFreeBytesRemaining := size_of h (heap_lo l),
           xBlockAllocatedBit := 2 ^ 31\<rparr>)"
    using a unfolding prvHeapInit_def
    by (simp add: Let_def e_def [symmetric] heapBITS_PER_BYTE_def a(2) [symmetric] push_bit_eq_mult)
  moreover have "(heap_hi l - heap_lo l) mod 8 = 0" "heap_lo l \<noteq> heap_hi l" "heap_lo l \<noteq> xStart l" "heap_hi l \<noteq> xStart l"
    using b(2,3,5,10) by (auto simp: mod_eq_0_iff_dvd)
  ultimately show ?thesis
    using size b(5) by (simp add: represents_def whole_heap_def Let_def)
qed

text \<open>The top bit of a size marks a block in use.\<close>

lemma bit_31_iff: "bit w 31 \<longleftrightarrow> 2 ^ 31 \<le> unat w" for w :: u32
proof -
  have "bit (unat w) 31 = bit w 31"
    by (simp add: bit_unsigned_iff)
  then have "bit w 31 \<longleftrightarrow> odd (unat w div 2 ^ 31)"
    by (simp only: bit_iff_odd [of "unat w"])
  moreover have "unat w div 2 ^ 31 < 2"
    using unat_lt_32 [of w] by (simp add: less_mult_imp_div_less del: unat_lt_32)
  then have "odd (unat w div 2 ^ 31) \<longleftrightarrow> unat w div 2 ^ 31 \<noteq> 0"
    by (auto elim!: oddE simp: less_2_cases_iff)
  ultimately show ?thesis
    by (simp add: div_eq_0_iff not_less)
qed

lemma top_bit_clear: "w AND 2 ^ 31 = 0 \<longleftrightarrow> unat w < 2 ^ 31" for w :: u32
  using bit_31_iff [of w] by (simp only: and_exp_eq_0_iff_not_bit not_le)

lemma top_bit_or:
  assumes "s < 2 ^ 31"
  shows "(of_nat s OR 2 ^ 31 :: u32) AND 2 ^ 31 \<noteq> 0" "(of_nat s OR 2 ^ 31 :: u32) AND NOT (2 ^ 31) = of_nat s"
proof -
  have low: "\<not> bit (of_nat s :: u32) 31"
    using assms bit_31_iff [of "of_nat s"] by (simp add: unat_of_nat_32)
  show "(of_nat s OR 2 ^ 31 :: u32) AND 2 ^ 31 \<noteq> 0"
    by (simp only: and_exp_eq_0_iff_not_bit) (simp only: bit_or_iff bit_exp_iff, simp)
  have "bit ((of_nat s OR 2 ^ 31 :: u32) AND NOT (2 ^ 31)) n = bit (of_nat s :: u32) n" if "n < 32" for n
    using low that by (cases "n = 31") (simp_all only: bit_simps, simp_all)
  then show "(of_nat s OR 2 ^ 31 :: u32) AND NOT (2 ^ 31) = of_nat s"
    by (intro bit_word_eqI) simp
qed

lemma tile_size_bound: "layout_ok l \<Longrightarrow> tiled (heap_lo l) bs (heap_hi l) \<Longrightarrow> (a, s, f) \<in> set bs \<Longrightarrow> s < 2 ^ 31"
  using tiled_member [of "heap_lo l" bs "heap_hi l" a s f] heap_bounds(6) [of l] by simp

lemma cons_tile_allocated_iff: "(b, t, False) \<in> set (cons_tile x ws) \<longleftrightarrow> (b, t, False) = x \<or> (b, t, False) \<in> set ws"
  by (cases "(x, ws)" rule: cons_tile.cases) auto

lemma release_allocated:
  "tiled lo bs hi \<Longrightarrow> (b, t, False) \<in> set (release p bs) \<longleftrightarrow> (b, t, False) \<in> set bs \<and> b \<noteq> p"
proof (induction p bs arbitrary: lo rule: release.induct)
  case (2 p a s f bs)
  have tail: "tiled (lo + s) bs hi" "a = lo" "16 \<le> s"
    using "2.prems" by auto
  show ?case
  proof (cases "a = p")
    case True
    then show ?thesis
      using tiled_member [OF tail(1), of b t False] tail by (auto simp: cons_tile_allocated_iff)
  next
    case False
    then show ?thesis
      using "2.IH" [OF False tail(1)] by (auto simp: cons_tile_allocated_iff)
  qed
qed simp

lemma free_bytes_cons_tile: "free_bytes (cons_tile x bs) = free_bytes (x # bs)"
  by (cases "(x, bs)" rule: cons_tile.cases) auto

lemma free_bytes_release:
  "tiled lo bs hi \<Longrightarrow> (a, s, False) \<in> set bs \<Longrightarrow> free_bytes (release a bs) = free_bytes bs + s"
proof (induction a bs arbitrary: lo rule: release.induct)
  case (2 p a u f bs)
  then show ?case
    by (fastforce simp: free_bytes_cons_tile dest: tiled_member)
qed simp

lemma free_block_fits: "(a, s, True) \<in> set bs \<Longrightarrow> s \<le> free_bytes bs"
  by (induction bs) auto

text \<open>The tile that serves a request, if the request can be served.\<close>

definition fitting :: "u32 \<Rightarrow> tile list \<Rightarrow> (nat \<times> tile list) option" where
  "fitting w bs = (if 0 < unat w \<and> unat w < 2 ^ 31 then first_fit (block_bytes (unat w)) bs else None)"

lemma malloc_fits:
  assumes rep: "represents l bs h" and l: "layout_ok l" and fit: "fitting w bs = Some (a, bs')"
  shows "\<exists>h'. pvPortMalloc l w h = Some (a + 8, h') \<and> represents l bs' h'"
proof -
  let ?w = "adjust_size w"
  have w: "0 < unat w" "unat w < 2 ^ 31" "unat ?w = block_bytes (unat w)" "first_fit (unat ?w) bs = Some (a, bs')"
    using fit unat_adjust_size [of w] by (auto simp: fitting_def split: if_splits)
  have bytes: "16 \<le> unat ?w" "unat ?w mod 8 = 0"
    using w block_bytes_ge by simp_all
  obtain xs s ys where split: "bs = xs @ (a, s, True) # ys" "unat ?w \<le> s"
    "bs' = xs @ (if 16 < s - unat ?w then (a, unat ?w, False) # (a + unat ?w, s - unat ?w, True) # ys else (a, s, False) # ys)"
    "\<forall>(a, u, f)\<in>set xs. f \<longrightarrow> u < unat ?w"
    using first_fit_split [OF w(4)] .
  then have bs': "bs' = xs @ cut (unat ?w) a s @ ys"
    by (simp add: cut_def)
  have tiled: "tiled (heap_lo l) bs (heap_hi l)" and free: "unat (xFreeBytesRemaining h) = free_bytes bs"
    and h: "pxEnd h = heap_hi l" "xBlockAllocatedBit h = 2 ^ 31"
    using rep by (simp_all add: represents_def)
  note b = heap_bounds [OF l]
  have a: "heap_lo l \<le> a" "a + s \<le> heap_hi l" "16 \<le> s"
    using tiled_member [OF tiled, of a s True] by (simp_all add: split(1))
  have "s \<le> free_bytes bs"
    by (rule free_block_fits [of a]) (simp add: split(1))
  then have enough: "0 < ?w" "?w \<le> xFreeBytesRemaining h"
    using free split(2) bytes(1) by (auto simp: word_less_nat_alt word_le_nat_alt)
  have "0 < p \<and> u < unat ?w" if "(p, u) \<in> set (free_blocks xs)" for p u
    using that split(1,4) b(1) tiled_member [OF tiled, of p u True] by (auto simp: set_free_blocks)
  then have "\<forall>(p, u)\<in>set (free_blocks xs). 0 < p \<and> u < unat ?w"
    by auto
  then have "malloc_loop ?w (xStart l) (next_of h (xStart l)) h = Some (last (xStart l # map fst (free_blocks xs)), a)"
    using rep split(2) a(1) b(1) by (intro malloc_loop_found) (auto simp: represents_def split(1))
  moreover have "\<exists>h'. take_block l ?w (last (xStart l # map fst (free_blocks xs))) a h = Some (a + 8, h') \<and> represents l bs' h'"
    unfolding bs' by (rule take_block_represents [OF rep [unfolded split(1)] l bytes split(2)])
  ultimately show ?thesis
    using enough w(2) h b(1,5) a top_bit_clear [of w] by (auto simp: pvPortMalloc_def Let_def)
qed

lemma malloc_refused:
  assumes rep: "represents l bs h" and l: "layout_ok l" and fit: "fitting w bs = None"
  shows "pvPortMalloc l w h = Some (0, h)"
proof -
  let ?w = "adjust_size w"
  have tiled: "tiled (heap_lo l) bs (heap_hi l)"
    and h: "pxEnd h = heap_hi l" "xBlockAllocatedBit h = 2 ^ 31" "next_of h (heap_hi l) = 0"
    "free_chain (links h) (xStart l) (free_blocks bs) (heap_hi l)"
    using rep by (simp_all add: represents_def)
  note b = heap_bounds [OF l]
  show ?thesis
  proof (cases "0 < unat w \<and> unat w < 2 ^ 31")
    case False
    then show ?thesis
      using h b(1,5) top_bit_clear [of w] by (auto simp: pvPortMalloc_def Let_def adjust_size_def unat_gt_0)
  next
    case True
    then have "\<forall>(a, u, f)\<in>set bs. f \<longrightarrow> u < unat ?w"
      using fit unat_adjust_size [of w] by (auto simp: fitting_def first_fit_None)
    then have "0 < p \<and> u < unat ?w" if "(p, u) \<in> set (free_blocks bs)" for p u
      using that b(1) tiled_member [OF tiled, of p u True] by (auto simp: set_free_blocks)
    then have "\<forall>(p, u)\<in>set (free_blocks bs). 0 < p \<and> u < unat ?w"
      by auto
    then obtain q where "malloc_loop ?w (xStart l) (next_of h (xStart l)) h = Some (q, heap_hi l)"
      using malloc_loop_none [OF h(4), of ?w] b(1,5) h(3) by auto
    then show ?thesis
      using h b(1,5) by (simp add: pvPortMalloc_def Let_def)
  qed
qed

lemma free_represents:
  assumes rep: "represents l bs h" and l: "layout_ok l" and mem: "(a, s, False) \<in> set bs"
  obtains ls where "vPortFree l (a + 8) h =
      Some (h\<lparr>links := ls, xFreeBytesRemaining := xFreeBytesRemaining h + of_nat s\<rparr>)"
    "represents l (release a bs) (h\<lparr>links := ls, xFreeBytesRemaining := xFreeBytesRemaining h + of_nat s\<rparr>)"
    "unat (xBlockSize (ls a)) < 2 ^ 31"
proof -
  have tiled: "tiled (heap_lo l) bs (heap_hi l)" and sep: "separated bs"
    and free: "unat (xFreeBytesRemaining h) = free_bytes bs" and bit: "xBlockAllocatedBit h = 2 ^ 31"
    and taken: "taken (links h) bs" and chain: "free_chain (links h) (xStart l) (free_blocks bs) (heap_hi l)"
    and fields: "pxEnd h = heap_hi l" "size_of h (xStart l) = 0" "size_of h (heap_hi l) = 0" "next_of h (heap_hi l) = 0"
      "xMinimumEverFreeBytesRemaining h \<le> xFreeBytesRemaining h"
    using rep by (simp_all add: represents_def)
  obtain xs ys where bs: "bs = xs @ (a, s, False) # ys"
    using mem by (auto simp: in_set_conv_decomp)
  have s: "s < 2 ^ 31"
    using tile_size_bound [OF l tiled mem] .
  have hdr: "links h a = \<lparr>pxNextFreeBlock = 0, xBlockSize = of_nat s OR 2 ^ 31\<rparr>"
    using taken by (simp add: bs)
  define h1 where "h1 = set_size a (of_nat s) h"
  define h2 where "h2 = h1\<lparr>xFreeBytesRemaining := xFreeBytesRemaining h + of_nat s\<rparr>"
  have eq: "vPortFree l (a + 8) h = prvInsertBlockIntoFreeList l a h2"
    using hdr bit top_bit_or [OF s] by (simp add: vPortFree_def Let_def h2_def h1_def)
  have out: "a \<noteq> xStart l" "a \<noteq> heap_hi l"
    using outside(1,2) [OF tiled l] mem by auto
  have notin: "a \<notin> fst ` set (free_blocks (xs @ ys))" "\<forall>t. (a, t, False) \<notin> set (xs @ ys)"
    using tiled_once [OF tiled [unfolded bs]] by auto
  have "separated xs" and frees: "free_blocks bs = free_blocks (xs @ ys)"
    using sep by (simp_all add: bs separated_append)
  obtain ls where ls: "prvInsertBlockIntoFreeList l a h2 = Some (h2\<lparr>links := ls\<rparr>)"
    "free_chain ls (xStart l) (free_blocks (release a bs)) (heap_hi l)"
    "xBlockSize (ls (xStart l)) = 0" "ls (heap_hi l) = links h2 (heap_hi l)"
    "\<And>b t. (b, t, False) \<in> set (xs @ ys) \<Longrightarrow> ls b = links h2 b" "unat (xBlockSize (ls a)) < 2 ^ 31"
  proof (rule insert_tile [OF tiled [unfolded bs] \<open>separated xs\<close> l, of h2])
    show "free_chain (links h2) (xStart l) (free_blocks (xs @ ys)) (heap_hi l)"
      using chain out(1) notin(1) unfolding frees by (simp add: h2_def h1_def)
  qed (use fields out s in \<open>simp_all add: h2_def h1_def bs unat_of_nat_32\<close>)
  have total: "free_bytes bs + s < 2 ^ 32"
    using free_bytes_le [OF release_tiled [OF tiled], of a] free_bytes_release [OF tiled mem] heap_bounds(8) [OF l] by simp
  then have "unat (xFreeBytesRemaining h + of_nat s) = free_bytes bs + s"
    using free s by (subst unat_add_nowrap) (simp_all add: unat_of_nat_32)
  then have sum: "unat (xFreeBytesRemaining h + of_nat s) = free_bytes (release a bs)"
    "xMinimumEverFreeBytesRemaining h \<le> xFreeBytesRemaining h + of_nat s"
    using free_bytes_release [OF tiled mem] fields(5) free by (auto simp: word_le_nat_alt)
  have "taken ls (release a bs)"
    unfolding taken_def
  proof clarify
    fix b t f
    assume "(b, t, f) \<in> set (release a bs)" "\<not> f"
    then have b: "(b, t, False) \<in> set (xs @ ys)" "b \<noteq> a"
      using release_allocated [OF tiled] by (auto simp: bs)
    then have "ls b = links h b"
      using ls(5) [OF b(1)] by (simp add: h2_def h1_def)
    then show "ls b = \<lparr>pxNextFreeBlock = 0, xBlockSize = of_nat t OR 2 ^ 31\<rparr>"
      using takenD [OF taken, of b t] b(1) by (simp add: bs)
  qed
  then have "represents l (release a bs) (h\<lparr>links := ls, xFreeBytesRemaining := xFreeBytesRemaining h + of_nat s\<rparr>)"
    using ls(2-4) sum fields bit release_tiled [OF tiled] release_separated [OF sep] out
    by (simp add: represents_def h2_def h1_def)
  moreover have "h2\<lparr>links := ls\<rparr> = h\<lparr>links := ls, xFreeBytesRemaining := xFreeBytesRemaining h + of_nat s\<rparr>"
    by (simp add: h2_def h1_def set_size_def)
  ultimately show ?thesis
    using eq ls(1,6) by (intro that [of ls]) simp_all
qed

text \<open>The start of the program: the first request sets up the heap.\<close>

lemma malloc_first: "layout_ok l \<Longrightarrow> pxEnd h = 0 \<Longrightarrow> pvPortMalloc l w h = pvPortMalloc l w (prvHeapInit l h)"
  using represents_init [of l h] heap_bounds(1,5) [of l] by (simp add: pvPortMalloc_def represents_def)

lemma free_null: "vPortFree l 0 h = Some h"
  by (simp add: vPortFree_def)

text \<open>
  A program that uses the heap: requests, releases of what it was given, and writes to it.
  The second component lists the pointers it holds, with the sizes it asked for. A header
  occupies eight bytes; a write may change every header that overlaps the bytes written.
\<close>

inductive heap_step :: "heap_layout \<Rightarrow> heap4 \<times> (nat \<times> nat) list \<Rightarrow> heap4 \<times> (nat \<times> nat) list \<Rightarrow> bool"
  for l :: heap_layout where
  step_malloc: "pvPortMalloc l w h = Some (p, h') \<Longrightarrow>
    heap_step l (h, ps) (h', if p = 0 then ps else (p, unat w) # ps)"
| step_free: "(p, n) \<in> set ps \<Longrightarrow> vPortFree l p h = Some h' \<Longrightarrow> heap_step l (h, ps) (h', remove1 (p, n) ps)"
| step_free_null: "vPortFree l 0 h = Some h' \<Longrightarrow> heap_step l (h, ps) (h', ps)"
| step_write: "(p, n) \<in> set ps \<Longrightarrow> \<forall>a. a + 8 \<le> p \<or> p + n \<le> a \<longrightarrow> ls a = links h a \<Longrightarrow>
    heap_step l (h, ps) (h\<lparr>links := ls\<rparr>, ps)"

definition heap_start :: "heap4 \<times> (nat \<times> nat) list \<Rightarrow> bool" where
  "heap_start s \<longleftrightarrow> pxEnd (fst s) = 0 \<and> snd s = []"

text \<open>The blocks in use are those the program holds.\<close>

definition owns :: "tile list \<Rightarrow> (nat \<times> nat) list \<Rightarrow> bool" where
  "owns bs ps \<longleftrightarrow> distinct (map fst ps)
     \<and> (\<forall>(p, n)\<in>set ps. \<exists>a s. p = a + 8 \<and> n + 8 \<le> s \<and> (a, s, False) \<in> set bs)
     \<and> (\<forall>a s. (a, s, False) \<in> set bs \<longrightarrow> a + 8 \<in> fst ` set ps)"

definition heap_inv :: "heap_layout \<Rightarrow> heap4 \<times> (nat \<times> nat) list \<Rightarrow> bool" where
  "heap_inv l s \<longleftrightarrow> heap_start s \<or> (\<exists>bs. represents l bs (fst s) \<and> owns bs (snd s))"

lemma represents_cong:
  assumes "represents l bs h" "ls (xStart l) = links h (xStart l)" "ls (heap_hi l) = links h (heap_hi l)"
    "\<And>a s f. (a, s, f) \<in> set bs \<Longrightarrow> ls a = links h a"
  shows "represents l bs (h\<lparr>links := ls\<rparr>)"
proof -
  have "free_chain ls (xStart l) (free_blocks bs) (heap_hi l) = free_chain (links h) (xStart l) (free_blocks bs) (heap_hi l)"
    using assms(2,4) by (intro free_chain_cong) (auto simp: set_free_blocks)
  moreover have "taken ls bs = taken (links h) bs"
    using assms(4) by (rule taken_cong)
  ultimately show ?thesis
    using assms(1-3) by (simp add: represents_def)
qed

lemma ownsE:
  assumes "owns bs ps" "(p, n) \<in> set ps"
  obtains a s where "p = a + 8" "n + 8 \<le> s" "(a, s, False) \<in> set bs"
  using assms by (fastforce simp: owns_def)

lemma owns_malloc:
  assumes tiled: "tiled lo bs hi" and fit: "first_fit v bs = Some (a, bs')" "n + 8 \<le> v" and own: "owns bs ps"
  shows "owns bs' ((a + 8, n) # ps)"
proof -
  obtain xs s ys where bs: "bs = xs @ (a, s, True) # ys" "v \<le> s" "bs' = xs @ (if 16 < s - v then (a, v, False) # (a + v, s - v, True) # ys else (a, s, False) # ys)"
    using first_fit_split [OF fit(1)] by metis
  have alloc: "(b, t, False) \<in> set bs' \<longleftrightarrow> (b, t, False) \<in> set bs \<or> b = a \<and> t = (if 16 < s - v then v else s)" for b t
    by (auto simp: bs)
  have "(a, t, False) \<notin> set bs" for t
    using tiled_once(1) [OF tiled [unfolded bs(1)], of t False] by (auto simp: bs(1))
  then have "a + 8 \<notin> fst ` set ps"
    using own by (fastforce simp: owns_def)
  moreover have "\<forall>(p, m)\<in>set ps. \<exists>b t. p = b + 8 \<and> m + 8 \<le> t \<and> (b, t, False) \<in> set bs'"
    using own unfolding owns_def alloc by blast
  moreover have "\<forall>b t. (b, t, False) \<in> set bs' \<longrightarrow> b + 8 \<in> insert (a + 8) (fst ` set ps)"
    using own unfolding owns_def alloc by blast
  moreover have "\<exists>b t. a + 8 = b + 8 \<and> n + 8 \<le> t \<and> (b, t, False) \<in> set bs'"
    using alloc fit(2) bs(2) by (intro exI [of _ a] exI [of _ "if 16 < s - v then v else s"]) auto
  ultimately show ?thesis
    using own by (simp add: owns_def)
qed

lemma distinct_map_remove1: "distinct (map f xs) \<Longrightarrow> distinct (map f (remove1 x xs))"
  using set_remove1_subset by (induction xs) fastforce+

lemma owns_free:
  assumes tiled: "tiled lo bs hi" and own: "owns bs ps" and mem: "(a + 8, n) \<in> set ps"
  shows "owns (release a bs) (remove1 (a + 8, n) ps)"
proof -
  have dist: "distinct (map fst ps)"
    using own by (simp add: owns_def)
  then have set: "set (remove1 (a + 8, n) ps) = set ps - {(a + 8, n)}"
    by (simp add: distinct_map)
  have other: "p \<noteq> a + 8" if "(p, m) \<in> set ps - {(a + 8, n)}" for p m
    using that mem eq_key_imp_eq_value [OF dist, of "a + 8" m n] by auto
  have "\<exists>b t. p = b + 8 \<and> m + 8 \<le> t \<and> (b, t, False) \<in> set (release a bs)" if pm: "(p, m) \<in> set ps - {(a + 8, n)}" for p m
  proof -
    obtain b t where "p = b + 8" "m + 8 \<le> t" "(b, t, False) \<in> set bs"
      using ownsE [OF own DiffD1 [OF pm]] .
    then show ?thesis
      using other [OF pm] release_allocated [OF tiled] by auto
  qed
  then have held: "\<forall>(p, m)\<in>set ps - {(a + 8, n)}. \<exists>b t. p = b + 8 \<and> m + 8 \<le> t \<and> (b, t, False) \<in> set (release a bs)"
    by blast
  have "b + 8 \<in> fst ` (set ps - {(a + 8, n)})" if "(b, t, False) \<in> set (release a bs)" for b t
  proof -
    have b: "(b, t, False) \<in> set bs" "b \<noteq> a"
      using that release_allocated [OF tiled] by auto
    then obtain m where "(b + 8, m) \<in> set ps"
      using own by (fastforce simp: owns_def)
    then show ?thesis
      using b(2) by force
  qed
  then show ?thesis
    using distinct_map_remove1 [OF dist] held unfolding owns_def set by blast
qed

lemma owns_whole: "owns (whole_heap l) []"
  by (simp add: owns_def whole_heap_def)

lemma malloc_inv:
  assumes l: "layout_ok l" and inv: "heap_inv l (h, ps)" and malloc: "pvPortMalloc l w h = Some (p, h')"
  shows "heap_inv l (h', if p = 0 then ps else (p, unat w) # ps)"
proof -
  obtain h0 bs where rep: "represents l bs h0" "owns bs ps" "pvPortMalloc l w h0 = Some (p, h')"
    using inv malloc malloc_first [OF l, of h w] represents_init [OF l, of h] owns_whole [of l]
    by (auto simp: heap_inv_def heap_start_def)
  show ?thesis
  proof (cases "fitting w bs")
    case None
    then show ?thesis
      using malloc_refused [OF rep(1) l None] rep by (auto simp: heap_inv_def)
  next
    case (Some x)
    obtain a bs' where x: "x = (a, bs')" by (cases x)
    then have "p = a + 8" "represents l bs' h'"
      using malloc_fits [OF rep(1) l, of w a bs'] Some rep(3) by auto
    moreover have "owns bs' ((a + 8, unat w) # ps)"
    proof (rule owns_malloc [OF _ _ _ rep(2)])
      show "tiled (heap_lo l) bs (heap_hi l)"
        using rep(1) by (simp add: represents_def)
      show "first_fit (block_bytes (unat w)) bs = Some (a, bs')"
        using Some x by (simp add: fitting_def split: if_splits)
    qed (rule block_bytes_ge)
    ultimately show ?thesis by (auto simp: heap_inv_def)
  qed
qed

lemma free_inv:
  assumes l: "layout_ok l" and inv: "heap_inv l (h, ps)" and mem: "(p, n) \<in> set ps"
  shows "\<exists>h'. vPortFree l p h = Some h' \<and> heap_inv l (h', remove1 (p, n) ps)"
proof -
  obtain bs where bs: "represents l bs h" "owns bs ps"
    using inv mem by (auto simp: heap_inv_def heap_start_def)
  then have tiled: "tiled (heap_lo l) bs (heap_hi l)"
    by (simp add: represents_def)
  obtain a s where a: "p = a + 8" "n + 8 \<le> s" "(a, s, False) \<in> set bs"
    using ownsE [OF bs(2) mem] .
  obtain ls where "vPortFree l (a + 8) h = Some (h\<lparr>links := ls, xFreeBytesRemaining := xFreeBytesRemaining h + of_nat s\<rparr>)"
    "represents l (release a bs) (h\<lparr>links := ls, xFreeBytesRemaining := xFreeBytesRemaining h + of_nat s\<rparr>)"
    using free_represents [OF bs(1) l a(3)] .
  then show ?thesis
    using owns_free [OF tiled bs(2) mem [unfolded a(1)]] by (auto simp: heap_inv_def a(1))
qed

lemma write_inv:
  assumes l: "layout_ok l" and inv: "heap_inv l (h, ps)" and mem: "(p, n) \<in> set ps"
    and bytes: "\<forall>a. a + 8 \<le> p \<or> p + n \<le> a \<longrightarrow> ls a = links h a"
  shows "heap_inv l (h\<lparr>links := ls\<rparr>, ps)"
proof -
  obtain bs where bs: "represents l bs h" "owns bs ps"
    using inv mem by (auto simp: heap_inv_def heap_start_def)
  then have tiled: "tiled (heap_lo l) bs (heap_hi l)"
    by (simp add: represents_def)
  obtain a s where a: "p = a + 8" "n + 8 \<le> s" "(a, s, False) \<in> set bs"
    using ownsE [OF bs(2) mem] .
  have b: "heap_lo l \<le> a" "a + s \<le> heap_hi l"
    using tiled_member [OF tiled a(3)] by auto
  have "represents l bs (h\<lparr>links := ls\<rparr>)"
  proof (rule represents_cong [OF bs(1)])
    have "xStart l + 8 \<le> p \<or> p + n \<le> xStart l"
      using l b a(1,2) heap_bounds(4,7) [OF l] by (auto simp: layout_ok_def)
    then show "ls (xStart l) = links h (xStart l)"
      using bytes by auto
    show "ls (heap_hi l) = links h (heap_hi l)"
      using bytes b(2) a(1,2) by auto
    show "ls c = links h c" if "(c, t, f) \<in> set bs" for c t f
      using bytes tiled_disjoint [OF tiled a(3) that] tiled_member [OF tiled that] a(1,2) by auto
  qed
  then show ?thesis
    using bs(2) by (auto simp: heap_inv_def)
qed

lemma heap_step_inv:
  assumes l: "layout_ok l" and step: "heap_step l s t" and inv: "heap_inv l s"
  shows "heap_inv l t"
  using step
proof cases
  case (step_malloc w h p h' ps)
  then show ?thesis
    using malloc_inv [OF l, of h ps w p h'] inv by simp
next
  case (step_free p n ps h h')
  then show ?thesis
    using free_inv [OF l, of h ps p n] inv by auto
next
  case (step_free_null h h' ps)
  then show ?thesis
    using inv by (simp add: free_null)
next
  case (step_write p n ps ls h)
  then show ?thesis
    using write_inv [OF l, of h ps p n ls] inv by simp
qed

interpretation heap_use: invariant_of heap_start "heap_step l" "\<lambda>s. layout_ok l \<longrightarrow> heap_inv l s" for l
  by unfold_locales (simp add: heap_inv_def, blast intro: heap_step_inv)

subsection \<open>Properties\<close>

text \<open>C27: A request is served by the first tile that is large enough, split when the rest is worth a block;
when no tile is, or the size is 0 or has its top bit set, \<open>NULL\<close> is returned and nothing changes.\<close>

theorem pvPortMalloc_first_fit:
  assumes "represents l bs h" and "layout_ok l"
  shows "case fitting w bs of
      None \<Rightarrow> pvPortMalloc l w h = Some (0, h)
    | Some (a, bs') \<Rightarrow> \<exists>h'. pvPortMalloc l w h = Some (a + 8, h') \<and> represents l bs' h'"
  using malloc_fits [OF assms] malloc_refused [OF assms] by (auto split: option.splits)

text \<open>An array at \<open>0x10000004\<close> and \<open>xStart\<close> below it.\<close>

definition example_layout :: heap_layout where
  "example_layout = \<lparr>ucHeap = 0x10000004, xStart = 0x10000ff0 - 0x1000\<rparr>"

definition unused_heap :: heap4 where
  "unused_heap = \<lparr>links = (\<lambda>a. \<lparr>pxNextFreeBlock = 0, xBlockSize = 0\<rparr>), pxEnd = 0, xFreeBytesRemaining = 0,
     xMinimumEverFreeBytesRemaining = 0, xBlockAllocatedBit = 0\<rparr>"

lemma example_layout: "layout_ok example_layout" "heap_lo example_layout = 0x10000008" "heap_hi example_layout = 0x10006ff8"
  by (simp_all add: layout_ok_def heap_lo_def heap_hi_def example_layout_def)

lemma block_bytes_100: "block_bytes 100 = 112"
  by (simp add: block_bytes_def)

theorem pvPortMalloc_first_fit_witness:
  "\<exists>h'. pvPortMalloc example_layout 100 (prvHeapInit example_layout unused_heap) = Some (0x10000010, h')"
  using pvPortMalloc_first_fit [OF represents_init [OF example_layout(1), of unused_heap] example_layout(1), of 100]
  by (auto simp: fitting_def whole_heap_def example_layout(2,3) block_bytes_100)

text \<open>C28: Releasing a block that is in use returns its tile to the free ones and joins it with the free
neighbours on both sides.\<close>

theorem vPortFree_coalesces:
  assumes "represents l bs h" and "layout_ok l" and "(a, s, False) \<in> set bs"
  shows "\<exists>h'. vPortFree l (a + 8) h = Some h' \<and> represents l (release a bs) h'
    \<and> xPortGetFreeHeapSize h' = xPortGetFreeHeapSize h + of_nat s"
proof -
  obtain ls where "vPortFree l (a + 8) h = Some (h\<lparr>links := ls, xFreeBytesRemaining := xFreeBytesRemaining h + of_nat s\<rparr>)"
    "represents l (release a bs) (h\<lparr>links := ls, xFreeBytesRemaining := xFreeBytesRemaining h + of_nat s\<rparr>)"
    using free_represents [OF assms] .
  then show ?thesis
    by (simp add: xPortGetFreeHeapSize_def)
qed

text \<open>The heap after one request.\<close>

lemma example_request:
  "\<exists>h'. pvPortMalloc example_layout 100 (prvHeapInit example_layout unused_heap) = Some (0x10000010, h')
    \<and> represents example_layout [(0x10000008, 112, False), (0x10000078, 28544, True)] h'"
  using malloc_fits [OF represents_init [OF example_layout(1), of unused_heap] example_layout(1), of 100]
  by (auto simp: fitting_def whole_heap_def example_layout(2,3) block_bytes_100)

theorem vPortFree_coalesces_witness:
  "\<exists>h h'. vPortFree example_layout 0x10000010 h = Some h' \<and> represents example_layout (whole_heap example_layout) h'"
proof -
  obtain h where "represents example_layout [(0x10000008, 112, False), (0x10000078, 28544, True)] h"
    using example_request by blast
  from vPortFree_coalesces [where a = "0x10000008" and s = 112, OF this example_layout(1)] show ?thesis
    by (auto simp: whole_heap_def example_layout(2,3))
qed

lemma malloc_returns:
  assumes l: "layout_ok l" and inv: "heap_inv l (h, ps)"
  shows "\<exists>p h'. pvPortMalloc l w h = Some (p, h')"
proof -
  obtain h0 bs where "represents l bs h0" "pvPortMalloc l w h = pvPortMalloc l w h0"
    using inv malloc_first [OF l, of h w] represents_init [OF l, of h] by (auto simp: heap_inv_def heap_start_def)
  then show ?thesis
    using malloc_fits [of l bs h0 w] malloc_refused [of l bs h0 w] l by (cases "fitting w bs") auto
qed

lemma owned_block:
  assumes l: "layout_ok l" and inv: "heap_inv l (h, ps)" and mem: "(p, n) \<in> set ps"
  shows "p mod 8 = 0 \<and> ucHeap l \<le> p \<and> p + n \<le> ucHeap l + 28672"
proof -
  obtain bs where bs: "represents l bs h" "owns bs ps"
    using inv mem by (auto simp: heap_inv_def heap_start_def)
  then have tiled: "tiled (heap_lo l) bs (heap_hi l)"
    by (simp add: represents_def)
  obtain a s where a: "p = a + 8" "n + 8 \<le> s" "(a, s, False) \<in> set bs"
    using ownsE [OF bs(2) mem] .
  then show ?thesis
    using tiled_member [OF tiled a(3)] tiled_aligned [OF tiled heap_bounds(2) [OF l] a(3)] heap_bounds(4,7) [OF l]
    by (simp add: mod_add_eq [symmetric])
qed

lemma owned_disjoint:
  assumes inv: "heap_inv l (h, ps)"
  shows "sorted_wrt (\<lambda>(p, n) (q, m). p + n \<le> q \<or> q + m \<le> p) ps"
proof (cases "ps = []")
  case False
  then obtain bs where bs: "represents l bs h" "owns bs ps"
    using inv by (auto simp: heap_inv_def heap_start_def)
  then have tiled: "tiled (heap_lo l) bs (heap_hi l)" and dist: "distinct (map fst ps)"
    by (simp_all add: represents_def owns_def)
  have "p + n \<le> q \<or> q + m \<le> p" if mem: "(p, n) \<in> set ps" "(q, m) \<in> set ps" and ne: "p \<noteq> q" for p n q m
  proof -
    obtain a s where a: "p = a + 8" "n + 8 \<le> s" "(a, s, False) \<in> set bs"
      using ownsE [OF bs(2) mem(1)] .
    obtain b t where b: "q = b + 8" "m + 8 \<le> t" "(b, t, False) \<in> set bs"
      using ownsE [OF bs(2) mem(2)] .
    show ?thesis
      using tiled_disjoint [OF tiled a(3) b(3)] a b ne by auto
  qed
  moreover have "fst (ps ! i) \<noteq> fst (ps ! j)" if "i < j" "j < length ps" for i j
    using that dist nth_eq_iff_index_eq [of "map fst ps" i j] by simp
  ultimately show ?thesis
    by (simp add: sorted_wrt_iff_nth_less split_beta)
qed simp

text \<open>C29: Whatever the program requests, releases and writes into its own memory: its allocations are
aligned, lie inside \<open>ucHeap\<close> and do not overlap, and every further request and release returns.\<close>

theorem heap_allocations_disjoint:
  assumes "layout_ok l" and "reachable heap_start (heap_step l) (h, ps)"
  shows "(\<forall>(p, n)\<in>set ps. p mod 8 = 0 \<and> ucHeap l \<le> p \<and> p + n \<le> ucHeap l + 28672)
    \<and> sorted_wrt (\<lambda>(p, n) (q, m). p + n \<le> q \<or> q + m \<le> p) ps
    \<and> (\<exists>p h'. pvPortMalloc l w h = Some (p, h')) \<and> (\<forall>(p, n)\<in>set ps. \<exists>h'. vPortFree l p h = Some h')"
proof -
  have inv: "heap_inv l (h, ps)"
    using heap_use.reachable_inv [OF assms(2)] assms(1) by simp
  have "\<forall>(p, n)\<in>set ps. p mod 8 = 0 \<and> ucHeap l \<le> p \<and> p + n \<le> ucHeap l + 28672"
    using owned_block [OF assms(1) inv] by blast
  moreover have "\<forall>(p, n)\<in>set ps. \<exists>h'. vPortFree l p h = Some h'"
    using free_inv [OF assms(1) inv] by blast
  ultimately show ?thesis
    using owned_disjoint [OF inv] malloc_returns [OF assms(1) inv] by blast
qed

lemma example_reachable:
  "\<exists>h. reachable heap_start (heap_step example_layout) (h, [(0x10000010, 100)])
     \<and> represents example_layout [(0x10000008, 112, False), (0x10000078, 28544, True)] h"
proof -
  obtain h where h: "pvPortMalloc example_layout 100 (prvHeapInit example_layout unused_heap) = Some (0x10000010, h)"
    "represents example_layout [(0x10000008, 112, False), (0x10000078, 28544, True)] h"
    using example_request by blast
  have "pvPortMalloc example_layout 100 unused_heap = Some (0x10000010, h)"
    using h(1) malloc_first [OF example_layout(1), of unused_heap 100] by (simp add: unused_heap_def)
  then have "heap_step example_layout (unused_heap, []) (h, if 0x10000010 = (0::nat) then [] else [(0x10000010, unat (100::u32))])"
    by (rule heap_step.step_malloc)
  then have "reachable heap_start (heap_step example_layout) (h, [(0x10000010, 100)])"
    by (intro reachable_step [OF reachable_init]) (auto simp: heap_start_def unused_heap_def)
  then show ?thesis
    using h(2) by blast
qed

theorem heap_allocations_disjoint_witness:
  "\<exists>h h'. reachable heap_start (heap_step example_layout) (h, [(0x10000010, 100)]) \<and> vPortFree example_layout 0x10000010 h = Some h'"
proof -
  obtain h where "reachable heap_start (heap_step example_layout) (h, [(0x10000010, 100)])"
    using example_reachable by blast
  with heap_allocations_disjoint [OF example_layout(1) this] show ?thesis by auto
qed

lemma foldr_cons_tile_id: "separated (xs @ zs) \<Longrightarrow> foldr cons_tile xs zs = xs @ zs"
proof (induction xs)
  case (Cons x xs)
  then have "foldr cons_tile xs zs = xs @ zs"
    using separated_tl [of x "xs @ zs"] by simp
  with Cons.prems show ?case
    by (simp add: cons_tile_id)
qed simp

lemma release_first_fit:
  assumes sep: "separated bs" and fit: "first_fit w bs = Some (a, bs')" and tiled: "tiled lo bs' hi"
  shows "\<exists>s. (a, s, False) \<in> set bs'" "release a bs' = bs"
proof -
  obtain xs s ys where bs: "bs = xs @ (a, s, True) # ys" "w \<le> s"
    "bs' = xs @ (if 16 < s - w then (a, w, False) # (a + w, s - w, True) # ys else (a, s, False) # ys)"
    using first_fit_split [OF fit] by metis
  show "\<exists>s. (a, s, False) \<in> set bs'"
    by (cases "16 < s - w") (auto simp: bs(3))
  have "release a bs' = foldr cons_tile xs ((a, s, True) # ys)"
  proof (cases "16 < s - w")
    case True
    then show ?thesis
      using release_split [of lo xs a w False "(a + w, s - w, True) # ys" hi] tiled bs(2) by (simp add: bs(3))
  next
    case False
    moreover have "cons_tile (a, s, True) ys = (a, s, True) # ys"
      using sep by (intro cons_tile_id) (simp add: bs(1) separated_append)
    ultimately show ?thesis
      using release_split [of lo xs a s False ys hi] tiled by (simp add: bs(3))
  qed
  then show "release a bs' = bs"
    using foldr_cons_tile_id [of xs "(a, s, True) # ys"] sep by (simp add: bs(1))
qed

text \<open>A request that is served and released again leaves the tiles as they were.\<close>

theorem malloc_free_restores:
  assumes "represents l bs h" and "layout_ok l" and "pvPortMalloc l w h = Some (p, h')" and "p \<noteq> 0"
  shows "\<exists>h''. vPortFree l p h' = Some h'' \<and> represents l bs h''"
proof -
  obtain a bs' where fit: "fitting w bs = Some (a, bs')"
    using malloc_refused [OF assms(1,2), of w] assms(3,4) by (cases "fitting w bs") auto
  then have p: "p = a + 8" and rep: "represents l bs' h'"
    using malloc_fits [OF assms(1,2) fit] assms(3) by auto
  have "first_fit (block_bytes (unat w)) bs = Some (a, bs')" "separated bs" "tiled (heap_lo l) bs' (heap_hi l)"
    using fit assms(1) rep by (simp_all add: fitting_def represents_def split: if_splits)
  then obtain s where "(a, s, False) \<in> set bs'" and same: "release a bs' = bs"
    using release_first_fit by metis
  from free_represents [OF rep assms(2) this(1)] show ?thesis
    unfolding p same by metis
qed

theorem malloc_free_restores_witness:
  "\<exists>h h' h''. pvPortMalloc example_layout 100 h = Some (0x10000010, h') \<and> vPortFree example_layout 0x10000010 h' = Some h''
     \<and> represents example_layout (whole_heap example_layout) h''"
proof -
  let ?h = "prvHeapInit example_layout unused_heap"
  obtain h' where h': "pvPortMalloc example_layout 100 ?h = Some (0x10000010, h')"
    using example_request by blast
  moreover have "(0x10000010 :: nat) \<noteq> 0" by simp
  note malloc_free_restores [OF represents_init [OF example_layout(1), of unused_heap] example_layout(1) h' this]
  ultimately show ?thesis by blast
qed

text \<open>Releasing a block twice in a row changes nothing the second time.\<close>

theorem vPortFree_twice:
  assumes "represents l bs h" and "layout_ok l" and "(a, s, False) \<in> set bs"
  shows "\<exists>h'. vPortFree l (a + 8) h = Some h' \<and> vPortFree l (a + 8) h' = Some h'"
proof -
  obtain ls where ls: "vPortFree l (a + 8) h = Some (h\<lparr>links := ls, xFreeBytesRemaining := xFreeBytesRemaining h + of_nat s\<rparr>)"
    "unat (xBlockSize (ls a)) < 2 ^ 31"
    using free_represents [OF assms] by blast
  moreover have "xBlockSize (ls a) AND xBlockAllocatedBit h = 0"
    using assms(1) ls(2) top_bit_clear [of "xBlockSize (ls a)"] by (simp add: represents_def)
  ultimately show ?thesis
    by (simp add: vPortFree_def)
qed

theorem vPortFree_twice_witness:
  "\<exists>h h'. vPortFree example_layout 0x10000010 h = Some h' \<and> vPortFree example_layout 0x10000010 h' = Some h'"
proof -
  obtain h where "represents example_layout [(0x10000008, 112, False), (0x10000078, 28544, True)] h"
    using example_request by blast
  from vPortFree_twice [where a = "0x10000008" and s = 112, OF this example_layout(1)] show ?thesis
    by auto
qed

lemma all_free_one_tile:
  assumes "tiled lo bs hi" "separated bs" "lo < hi" "\<forall>a s. (a, s, False) \<notin> set bs"
  shows "bs = [(lo, hi - lo, True)]"
proof (cases bs)
  case Nil
  with assms show ?thesis by simp
next
  case (Cons x ys)
  obtain a s where x: "x = (a, s, True)"
    using assms(4) Cons by (cases x) auto
  have "ys = []"
  proof (rule ccontr)
    assume "ys \<noteq> []"
    then obtain b t zs where "ys = (b, t, True) # zs"
      using assms(4) Cons by (cases ys) auto
    then show False
      using assms(2) by (simp add: Cons x)
  qed
  with assms(1) show ?thesis
    by (auto simp: Cons x)
qed

text \<open>When the program has released everything, the heap is one free block again.\<close>

theorem heap_defragments:
  assumes "layout_ok l" and "reachable heap_start (heap_step l) (h, [])" and "pxEnd h \<noteq> 0"
  shows "represents l (whole_heap l) h"
proof -
  obtain bs where bs: "represents l bs h" "owns bs []"
    using heap_use.reachable_inv [OF assms(2)] assms(1,3) by (auto simp: heap_inv_def heap_start_def)
  then have "bs = whole_heap l"
    using heap_bounds(5) [OF assms(1)] unfolding whole_heap_def
    by (intro all_free_one_tile) (auto simp: represents_def owns_def)
  with bs(1) show ?thesis by simp
qed

theorem heap_defragments_witness:
  "\<exists>h. reachable heap_start (heap_step example_layout) (h, []) \<and> represents example_layout (whole_heap example_layout) h"
proof -
  obtain h where h: "reachable heap_start (heap_step example_layout) (h, [(0x10000010, 100)])"
    "represents example_layout [(0x10000008, 112, False), (0x10000078, 28544, True)] h"
    using example_reachable by blast
  obtain ls where "vPortFree example_layout (0x10000008 + 8) h =
      Some (h\<lparr>links := ls, xFreeBytesRemaining := xFreeBytesRemaining h + of_nat 112\<rparr>)" (is "_ = Some ?h")
    using free_represents [where a = "0x10000008" and s = 112, OF h(2) example_layout(1)] by auto
  then have "heap_step example_layout (h, [(0x10000010, 100)]) (?h, remove1 (0x10000010, 100) [(0x10000010, 100)])"
    by (intro heap_step.step_free) simp_all
  then have reach: "reachable heap_start (heap_step example_layout) (?h, [])"
    using reachable_step [OF h(1)] by simp
  have "pxEnd ?h \<noteq> 0"
    using h(2) heap_bounds(1,5) [OF example_layout(1)] by (simp add: represents_def)
  then show ?thesis
    using heap_defragments [OF example_layout(1) reach] reach by blast
qed

end
