(* ===== verification/Etharp.thy ===== *)
theory Etharp
  imports PbufHeap Ip4Addr Machine "HOL-Library.Monad_Syntax"
begin

text \<open>
  Address resolution on Ethernet (\<open>netif/etharp.c\<close>, \<open>netif/ethernet.c\<close>): the ARP table with its
  states, ages and queued packets, the lookup that recycles entries, the timer, requests,
  replies and the output of IP packets. Packets live in the store of pbufs. The options of
  the build are fields of the environment; VLAN tags are not compiled in and not modelled.
  \<open>None\<close> is a run that dereferences \<open>NULL\<close>, a freed pbuf or memory outside a pbuf.
\<close>

subsection \<open>Data\<close>

datatype etharp_state =
    ETHARP_STATE_EMPTY | ETHARP_STATE_PENDING | ETHARP_STATE_STABLE
  | ETHARP_STATE_STABLE_REREQUESTING_1 | ETHARP_STATE_STABLE_REREQUESTING_2 | ETHARP_STATE_STATIC

text \<open>The code compares states as the numbers of the enumeration.\<close>

fun state_num :: "etharp_state \<Rightarrow> nat" where
  "state_num ETHARP_STATE_EMPTY = 0"
| "state_num ETHARP_STATE_PENDING = 1"
| "state_num ETHARP_STATE_STABLE = 2"
| "state_num ETHARP_STATE_STABLE_REREQUESTING_1 = 3"
| "state_num ETHARP_STATE_STABLE_REREQUESTING_2 = 4"
| "state_num ETHARP_STATE_STATIC = 5"

lemma state_num_inject: "state_num s = state_num t \<Longrightarrow> s = t"
  by (cases s; cases t) simp_all

instantiation etharp_state :: linorder
begin

definition less_eq_etharp_state :: "etharp_state \<Rightarrow> etharp_state \<Rightarrow> bool" where
  "less_eq_etharp_state s t \<longleftrightarrow> state_num s \<le> state_num t"

definition less_etharp_state :: "etharp_state \<Rightarrow> etharp_state \<Rightarrow> bool" where
  "less_etharp_state s t \<longleftrightarrow> state_num s < state_num t"

instance
  by standard (auto simp: less_eq_etharp_state_def less_etharp_state_def intro: state_num_inject)

end

text \<open>
  An entry of the table. The queue holds the addresses of the packets that wait for the
  answer: at most one without \<open>ARP_QUEUEING\<close>. Interfaces are numbers, \<open>None\<close> is \<open>NULL\<close>.
\<close>

record etharp_entry =
  arp_q :: "nat list"
  arp_ipaddr :: u32
  arp_netif :: "nat option"
  arp_ethaddr :: bytes
  arp_ctime :: u16
  arp_state :: etharp_state

record eth_netif = netif +
  hwaddr :: bytes
  gw :: u32

text \<open>
  The variables of the file, the interfaces, the store of pbufs, the frames given to the
  drivers so far, the queue entries asked of the pool, and the state of everything else.
\<close>

record 'w arp =
  arp_table :: "etharp_entry list"
  etharp_cached_entry :: nat
  netifs :: "nat \<Rightarrow> eth_netif"
  pbufs :: pheap
  frames :: "(nat \<times> bytes) list"
  queue_requests :: nat
  env_state :: 'w

text \<open>
  What the files call: the allocators, the driver of an interface (\<open>linkoutput\<close>, which reads
  the frame), \<open>ip4_route\<close>, the layers above and the modules that look at ARP messages; and the
  options of the build.
\<close>

record 'w arp_env =
  pbuf_memory :: pbuf_malloc
  memp_arp_queue :: "nat \<Rightarrow> bool"
  linkoutput :: "nat \<Rightarrow> bytes \<Rightarrow> 'w \<Rightarrow> err_t \<times> 'w"
  ip4_route :: "u32 \<Rightarrow> 'w \<Rightarrow> nat option"
  ip4_input :: "nat \<Rightarrow> nat \<Rightarrow> 'w arp \<Rightarrow> 'w arp option"
  autoip_arp_reply :: "nat \<Rightarrow> bytes \<Rightarrow> 'w \<Rightarrow> 'w"
  dhcp_arp_reply :: "nat \<Rightarrow> u32 \<Rightarrow> 'w \<Rightarrow> 'w"
  ARP_QUEUEING :: bool
  ETHARP_SUPPORT_STATIC_ENTRIES :: bool
  ETHARP_TABLE_MATCH_NETIF :: bool
  ETHARP_TRUST_IP_MAC :: bool
  LWIP_AUTOIP :: bool
  DHCP_DOES_ARP_CHECK :: bool

definition ARP_TABLE_SIZE :: nat where "ARP_TABLE_SIZE = 10"
definition ARP_MAXAGE :: u16 where "ARP_MAXAGE = 300"
definition ARP_QUEUE_LEN :: nat where "ARP_QUEUE_LEN = 3"
definition ARP_AGE_REREQUEST_USED_UNICAST :: u16 where "ARP_AGE_REREQUEST_USED_UNICAST = ARP_MAXAGE - 30"
definition ARP_AGE_REREQUEST_USED_BROADCAST :: u16 where "ARP_AGE_REREQUEST_USED_BROADCAST = ARP_MAXAGE - 15"
definition ARP_MAXPENDING :: u16 where "ARP_MAXPENDING = 5"
definition HWTYPE_ETHERNET :: u16 where "HWTYPE_ETHERNET = 1"
definition ETHARP_FLAG_TRY_HARD :: u8 where "ETHARP_FLAG_TRY_HARD = 1"
definition ETHARP_FLAG_FIND_ONLY :: u8 where "ETHARP_FLAG_FIND_ONLY = 2"
definition ETHARP_FLAG_STATIC_ENTRY :: u8 where "ETHARP_FLAG_STATIC_ENTRY = 4"
definition ETHTYPE_IP :: u16 where "ETHTYPE_IP = 0x0800"
definition ETHTYPE_ARP :: u16 where "ETHTYPE_ARP = 0x0806"
definition ARP_REQUEST :: u16 where "ARP_REQUEST = 1"
definition ARP_REPLY :: u16 where "ARP_REPLY = 2"
definition SIZEOF_ETH_HDR :: nat where "SIZEOF_ETH_HDR = 14"
definition SIZEOF_ETHARP_HDR :: nat where "SIZEOF_ETHARP_HDR = 28"
definition SIZEOF_ETHARP_PACKET :: nat where "SIZEOF_ETHARP_PACKET = SIZEOF_ETH_HDR + SIZEOF_ETHARP_HDR"
definition ethbroadcast :: bytes where "ethbroadcast = [0xff, 0xff, 0xff, 0xff, 0xff, 0xff]"
definition ethzero :: bytes where "ethzero = [0, 0, 0, 0, 0, 0]"
definition NETIF_FLAG_ETHARP :: u8 where "NETIF_FLAG_ETHARP = 0x08"
definition PBUF_FLAG_LLBCAST :: u8 where "PBUF_FLAG_LLBCAST = 0x08"
definition PBUF_FLAG_LLMCAST :: u8 where "PBUF_FLAG_LLMCAST = 0x10"

definition ip4_addr_ismulticast :: "u32 \<Rightarrow> bool" where
  "ip4_addr_ismulticast a \<longleftrightarrow> a AND lwip_htonl 0xf0000000 = lwip_htonl 0xe0000000"

definition ip4_addr_islinklocal :: "u32 \<Rightarrow> bool" where
  "ip4_addr_islinklocal a \<longleftrightarrow> a AND lwip_htonl 0xffff0000 = lwip_htonl 0xa9fe0000"

definition ip4_addr_isbroadcast :: "u32 \<Rightarrow> eth_netif \<Rightarrow> bool" where
  "ip4_addr_isbroadcast a n = ip4_addr_isbroadcast_u32 a (netif.truncate n)"

subsection \<open>Access to packets\<close>

text \<open>
  Memory behind \<open>payload\<close> of a single pbuf, and the frame a driver reads off a chain. The
  first two are defined only inside the memory of the pbuf.
\<close>

definition in_pbuf :: "pnode \<Rightarrow> nat \<Rightarrow> nat \<Rightarrow> bool" where
  "in_pbuf n off len \<longleftrightarrow> n_base n \<le> n_payload n \<and> n_payload n - n_base n + off + len \<le> length (n_mem n)"

definition payload_read :: "nat \<Rightarrow> nat \<Rightarrow> nat \<Rightarrow> pheap \<Rightarrow> bytes option" where
  "payload_read p off len hp =
     (case nodes hp p of
        None \<Rightarrow> None
      | Some n \<Rightarrow> if in_pbuf n off len then Some (node_read n off len) else None)"

definition payload_write :: "nat \<Rightarrow> nat \<Rightarrow> bytes \<Rightarrow> pheap \<Rightarrow> pheap option" where
  "payload_write p off src hp =
     (case nodes hp p of
        None \<Rightarrow> None
      | Some n \<Rightarrow> if in_pbuf n off (length src) then Some (put_node p (node_write off src n) hp) else None)"

partial_function (option) frame_of :: "nat option \<Rightarrow> pheap \<Rightarrow> bytes option" where
  "frame_of p hp =
     (case p of
        None \<Rightarrow> Some []
      | Some a \<Rightarrow>
          (case nodes hp a of
             None \<Rightarrow> None
           | Some n \<Rightarrow>
               if in_pbuf n 0 (unat (n_len n))
               then Option.bind (frame_of (n_next n) hp) (\<lambda>rest. Some (node_read n 0 (unat (n_len n)) @ rest))
               else None))"

definition link_output :: "'w arp_env \<Rightarrow> nat \<Rightarrow> nat \<Rightarrow> 'w arp \<Rightarrow> (err_t \<times> 'w arp) option" where
  "link_output env netif p s =
     map_option (\<lambda>frame.
       let (r, w) = linkoutput env netif frame (env_state s)
       in (r, s\<lparr>frames := frames s @ [(netif, frame)], env_state := w\<rparr>))
     (frame_of (Some p) (pbufs s))"

definition free_pbuf :: "nat \<Rightarrow> 'w arp \<Rightarrow> 'w arp option" where
  "free_pbuf p s = map_option (\<lambda>(_, hp). s\<lparr>pbufs := hp\<rparr>) (pbuf_free (Some p) (pbufs s))"

text \<open>A sequence of steps that may fail.\<close>

primrec run_all :: "('a \<Rightarrow> 's \<Rightarrow> 's option) \<Rightarrow> 'a list \<Rightarrow> 's \<Rightarrow> 's option" where
  "run_all f [] s = Some s"
| "run_all f (x # xs) s = Option.bind (f x s) (run_all f xs)"

definition set_entry :: "nat \<Rightarrow> etharp_entry \<Rightarrow> 'w arp \<Rightarrow> 'w arp" where
  "set_entry i e s = s\<lparr>arp_table := (arp_table s)[i := e]\<rparr>"

subsection \<open>ARP requests\<close>

text \<open>The frame \<open>etharp_raw\<close> writes: Ethernet header and ARP message.\<close>

definition arp_frame :: "bytes \<Rightarrow> bytes \<Rightarrow> bytes \<Rightarrow> u32 \<Rightarrow> bytes \<Rightarrow> u32 \<Rightarrow> u16 \<Rightarrow> bytes" where
  "arp_frame ethdst ethsrc hwsrc ipsrc hwdst ipdst opcode =
     ethdst @ ethsrc @ u16_bytes (lwip_htons ETHTYPE_ARP)
     @ u16_bytes (lwip_htons HWTYPE_ETHERNET) @ u16_bytes (lwip_htons ETHTYPE_IP) @ [6, 4]
     @ u16_bytes (lwip_htons opcode) @ hwsrc @ u32_bytes ipsrc @ hwdst @ u32_bytes ipdst"

definition etharp_raw ::
  "'w arp_env \<Rightarrow> nat \<Rightarrow> bytes \<Rightarrow> bytes \<Rightarrow> bytes \<Rightarrow> u32 \<Rightarrow> bytes \<Rightarrow> u32 \<Rightarrow> u16 \<Rightarrow> 'w arp \<Rightarrow> (err_t \<times> 'w arp) option" where
  "etharp_raw env netif ethsrc_addr ethdst_addr hwsrc_addr ipsrc_addr hwdst_addr ipdst_addr opcode s = do {
     (p, hp) \<leftarrow> pbuf_alloc (pbuf_memory env) PBUF_RAW_TX (of_nat SIZEOF_ETHARP_PACKET) PBUF_RAM (pbufs s);
     case p of
       None \<Rightarrow> Some (ERR_MEM, s\<lparr>pbufs := hp\<rparr>)
     | Some p \<Rightarrow> do {
         let dst = (if LWIP_AUTOIP env \<and> ip4_addr_islinklocal ipsrc_addr then ethbroadcast else ethdst_addr);
         hp \<leftarrow> payload_write p 0 (arp_frame dst ethsrc_addr hwsrc_addr ipsrc_addr hwdst_addr ipdst_addr opcode) hp;
         (result, s) \<leftarrow> link_output env netif p (s\<lparr>pbufs := hp\<rparr>);
         s \<leftarrow> free_pbuf p s;
         Some (result, s)
       }
   }"

definition etharp_request_dst :: "'w arp_env \<Rightarrow> nat \<Rightarrow> u32 \<Rightarrow> bytes \<Rightarrow> 'w arp \<Rightarrow> (err_t \<times> 'w arp) option" where
  "etharp_request_dst env netif ipaddr hw_dst_addr s =
     (let n = netifs s netif
      in etharp_raw env netif (hwaddr n) hw_dst_addr (hwaddr n) (ip_addr n) ethzero ipaddr ARP_REQUEST s)"

definition etharp_request :: "'w arp_env \<Rightarrow> nat \<Rightarrow> u32 \<Rightarrow> 'w arp \<Rightarrow> (err_t \<times> 'w arp) option" where
  "etharp_request env netif ipaddr s = etharp_request_dst env netif ipaddr ethbroadcast s"

subsection \<open>The table\<close>

text \<open>
  \<open>free_etharp_q\<close>; without \<open>ARP_QUEUEING\<close> it is \<open>pbuf_free\<close> of the only packet. An entry is
  cleaned out completely: \<open>lwipopts.h\<close> defines \<open>LWIP_DEBUG\<close> (as 0), which \<open>#ifdef\<close> tests.
\<close>

definition free_etharp_q :: "nat list \<Rightarrow> 'w arp \<Rightarrow> 'w arp option" where
  "free_etharp_q q s = run_all free_pbuf q s"

definition etharp_free_entry :: "nat \<Rightarrow> 'w arp \<Rightarrow> 'w arp option" where
  "etharp_free_entry i s = do {
     s \<leftarrow> free_etharp_q (arp_q (arp_table s ! i)) s;
     Some (set_entry i ((arp_table s ! i)\<lparr>arp_q := [], arp_state := ETHARP_STATE_EMPTY, arp_ctime := 0,
                          arp_netif := None, arp_ipaddr := 0, arp_ethaddr := ethzero\<rparr>) s)
   }"

definition tmr_entry :: "'w arp_env \<Rightarrow> nat \<Rightarrow> 'w arp \<Rightarrow> 'w arp option" where
  "tmr_entry env i s =
     (let e = arp_table s ! i
      in if arp_state e \<noteq> ETHARP_STATE_EMPTY
            \<and> (ETHARP_SUPPORT_STATIC_ENTRIES env \<longrightarrow> arp_state e \<noteq> ETHARP_STATE_STATIC) then
           let e = e\<lparr>arp_ctime := arp_ctime e + 1\<rparr>; s = set_entry i e s
           in if arp_ctime e \<ge> ARP_MAXAGE
                 \<or> arp_state e = ETHARP_STATE_PENDING \<and> arp_ctime e \<ge> ARP_MAXPENDING
              then etharp_free_entry i s
              else if arp_state e = ETHARP_STATE_STABLE_REREQUESTING_1
              then Some (set_entry i (e\<lparr>arp_state := ETHARP_STATE_STABLE_REREQUESTING_2\<rparr>) s)
              else if arp_state e = ETHARP_STATE_STABLE_REREQUESTING_2
              then Some (set_entry i (e\<lparr>arp_state := ETHARP_STATE_STABLE\<rparr>) s)
              else if arp_state e = ETHARP_STATE_PENDING
              then do { netif \<leftarrow> arp_netif e; (_, s) \<leftarrow> etharp_request env netif (arp_ipaddr e) s; Some s }
              else Some s
         else Some s)"

definition etharp_tmr :: "'w arp_env \<Rightarrow> 'w arp \<Rightarrow> 'w arp option" where
  "etharp_tmr env s = run_all (tmr_entry env) [0..<ARP_TABLE_SIZE] s"

text \<open>
  What the sweep of \<open>etharp_find_entry\<close> remembers; \<open>ARP_TABLE_SIZE\<close> stands for none. The
  sweep ends with the index of a match (\<open>Inl\<close>) or with the candidates (\<open>Inr\<close>).
\<close>

record candidates =
  old_pending :: nat
  old_stable :: nat
  empty_entry :: nat
  old_queue :: nat
  age_queue :: u16
  age_pending :: u16
  age_stable :: u16

definition no_candidates :: candidates where
  "no_candidates = \<lparr>old_pending = ARP_TABLE_SIZE, old_stable = ARP_TABLE_SIZE,
     empty_entry = ARP_TABLE_SIZE, old_queue = ARP_TABLE_SIZE,
     age_queue = 0, age_pending = 0, age_stable = 0\<rparr>"

definition entry_matches :: "'w arp_env \<Rightarrow> u32 option \<Rightarrow> nat option \<Rightarrow> etharp_entry \<Rightarrow> bool" where
  "entry_matches env ipaddr netif e \<longleftrightarrow>
     ipaddr = Some (arp_ipaddr e)
     \<and> (ETHARP_TABLE_MATCH_NETIF env \<longrightarrow> netif = None \<or> netif = arp_netif e)"

definition remember :: "'w arp_env \<Rightarrow> nat \<Rightarrow> etharp_entry \<Rightarrow> candidates \<Rightarrow> candidates" where
  "remember env i e c =
     (if arp_state e = ETHARP_STATE_PENDING then
        if arp_q e \<noteq> [] then
          if arp_ctime e \<ge> age_queue c then c\<lparr>old_queue := i, age_queue := arp_ctime e\<rparr> else c
        else if arp_ctime e \<ge> age_pending c then c\<lparr>old_pending := i, age_pending := arp_ctime e\<rparr> else c
      else if arp_state e \<ge> ETHARP_STATE_STABLE then
        if ETHARP_SUPPORT_STATIC_ENTRIES env \<longrightarrow> arp_state e < ETHARP_STATE_STATIC then
          if arp_ctime e \<ge> age_stable c then c\<lparr>old_stable := i, age_stable := arp_ctime e\<rparr> else c
        else c
      else c)"

fun find_sweep ::
  "'w arp_env \<Rightarrow> u32 option \<Rightarrow> nat option \<Rightarrow> nat \<Rightarrow> etharp_entry list \<Rightarrow> candidates \<Rightarrow> nat + candidates" where
  "find_sweep env ipaddr netif i [] c = Inr c"
| "find_sweep env ipaddr netif i (e # es) c =
     (if empty_entry c = ARP_TABLE_SIZE \<and> arp_state e = ETHARP_STATE_EMPTY
      then find_sweep env ipaddr netif (i + 1) es (c\<lparr>empty_entry := i\<rparr>)
      else if arp_state e \<noteq> ETHARP_STATE_EMPTY then
        if entry_matches env ipaddr netif e then Inl i
        else find_sweep env ipaddr netif (i + 1) es (remember env i e c)
      else find_sweep env ipaddr netif (i + 1) es c)"

text \<open>The entry to recycle when none is empty.\<close>

definition recycle :: "candidates \<Rightarrow> nat option" where
  "recycle c =
     (if old_stable c < ARP_TABLE_SIZE then Some (old_stable c)
      else if old_pending c < ARP_TABLE_SIZE then Some (old_pending c)
      else if old_queue c < ARP_TABLE_SIZE then Some (old_queue c)
      else None)"

text \<open>The index, or the error the C function returns in its place.\<close>

definition etharp_find_entry ::
  "'w arp_env \<Rightarrow> u32 option \<Rightarrow> u8 \<Rightarrow> nat option \<Rightarrow> 'w arp \<Rightarrow> ((err_t + nat) \<times> 'w arp) option" where
  "etharp_find_entry env ipaddr flags netif s =
     (case find_sweep env ipaddr netif 0 (arp_table s) no_candidates of
        Inl i \<Rightarrow> Some (Inr i, s)
      | Inr c \<Rightarrow>
          if flags AND ETHARP_FLAG_FIND_ONLY \<noteq> 0
             \<or> empty_entry c = ARP_TABLE_SIZE \<and> flags AND ETHARP_FLAG_TRY_HARD = 0
          then Some (Inl ERR_MEM, s)
          else do {
            (i, s) \<leftarrow> (if empty_entry c < ARP_TABLE_SIZE then Some (Some (empty_entry c), s)
                       else case recycle c of
                         None \<Rightarrow> Some (None, s)
                       | Some i \<Rightarrow> map_option (Pair (Some i)) (etharp_free_entry i s));
            case i of
              None \<Rightarrow> Some (Inl ERR_MEM, s)
            | Some i \<Rightarrow>
                let e = arp_table s ! i;
                    e = (case ipaddr of None \<Rightarrow> e | Some a \<Rightarrow> e\<lparr>arp_ipaddr := a\<rparr>);
                    e = e\<lparr>arp_ctime := 0\<rparr>;
                    e = (if ETHARP_TABLE_MATCH_NETIF env then e\<lparr>arp_netif := netif\<rparr> else e)
                in Some (Inr i, set_entry i e s)
          })"

subsection \<open>Sending packets and updating entries\<close>

definition etharp_send_ip ::
  "'w arp_env \<Rightarrow> nat \<Rightarrow> nat \<Rightarrow> bytes \<Rightarrow> bytes \<Rightarrow> 'w arp \<Rightarrow> (err_t \<times> 'w arp) option" where
  "etharp_send_ip env netif p src dst s = do {
     hp \<leftarrow> payload_write p 0 (dst @ src @ u16_bytes (lwip_htons ETHTYPE_IP)) (pbufs s);
     link_output env netif p (s\<lparr>pbufs := hp\<rparr>)
   }"

text \<open>The loop that sends the queue of entry \<open>i\<close>; it runs at most once without \<open>ARP_QUEUEING\<close>.\<close>

fun send_queue :: "'w arp_env \<Rightarrow> nat \<Rightarrow> nat \<Rightarrow> bytes \<Rightarrow> nat list \<Rightarrow> 'w arp \<Rightarrow> 'w arp option" where
  "send_queue env netif i ethaddr [] s = Some s"
| "send_queue env netif i ethaddr (p # q) s = do {
     let s = set_entry i ((arp_table s ! i)\<lparr>arp_q := q\<rparr>) s;
     (_, s) \<leftarrow> etharp_send_ip env netif p (hwaddr (netifs s netif)) ethaddr s;
     s \<leftarrow> free_pbuf p s;
     send_queue env netif i ethaddr q s
   }"

definition etharp_update_arp_entry ::
  "'w arp_env \<Rightarrow> nat \<Rightarrow> u32 \<Rightarrow> bytes \<Rightarrow> u8 \<Rightarrow> 'w arp \<Rightarrow> (err_t \<times> 'w arp) option" where
  "etharp_update_arp_entry env netif ipaddr ethaddr flags s =
     (if ipaddr = IPADDR_ANY \<or> ip4_addr_isbroadcast ipaddr (netifs s netif) \<or> ip4_addr_ismulticast ipaddr
      then Some (ERR_ARG, s)
      else do {
        (found, s) \<leftarrow> etharp_find_entry env (Some ipaddr) flags (Some netif) s;
        case found of
          Inl err \<Rightarrow> Some (err, s)
        | Inr i \<Rightarrow> do {
            let state = (if ETHARP_SUPPORT_STATIC_ENTRIES env \<and> flags AND ETHARP_FLAG_STATIC_ENTRY \<noteq> 0
                         then ETHARP_STATE_STATIC else ETHARP_STATE_STABLE);
            let e = (arp_table s ! i)\<lparr>arp_state := state, arp_netif := Some netif, arp_ethaddr := ethaddr,
                                      arp_ctime := 0\<rparr>;
            s \<leftarrow> send_queue env netif i ethaddr (arp_q e) (set_entry i e s);
            Some (ERR_OK, s)
          }
      })"

definition etharp_add_static_entry :: "'w arp_env \<Rightarrow> u32 \<Rightarrow> bytes \<Rightarrow> 'w arp \<Rightarrow> (err_t \<times> 'w arp) option" where
  "etharp_add_static_entry env ipaddr ethaddr s =
     (case ip4_route env ipaddr (env_state s) of
        None \<Rightarrow> Some (ERR_RTE, s)
      | Some netif \<Rightarrow>
          etharp_update_arp_entry env netif ipaddr ethaddr (ETHARP_FLAG_TRY_HARD OR ETHARP_FLAG_STATIC_ENTRY) s)"

definition etharp_remove_static_entry :: "'w arp_env \<Rightarrow> u32 \<Rightarrow> 'w arp \<Rightarrow> (err_t \<times> 'w arp) option" where
  "etharp_remove_static_entry env ipaddr s = do {
     (found, s) \<leftarrow> etharp_find_entry env (Some ipaddr) ETHARP_FLAG_FIND_ONLY None s;
     case found of
       Inl err \<Rightarrow> Some (err, s)
     | Inr i \<Rightarrow>
         if arp_state (arp_table s ! i) \<noteq> ETHARP_STATE_STATIC then Some (ERR_ARG, s)
         else map_option (Pair ERR_OK) (etharp_free_entry i s)
   }"

definition cleanup_entry :: "nat \<Rightarrow> nat \<Rightarrow> 'w arp \<Rightarrow> 'w arp option" where
  "cleanup_entry netif i s =
     (let e = arp_table s ! i
      in if arp_state e \<noteq> ETHARP_STATE_EMPTY \<and> arp_netif e = Some netif then etharp_free_entry i s else Some s)"

definition etharp_cleanup_netif :: "nat \<Rightarrow> 'w arp \<Rightarrow> 'w arp option" where
  "etharp_cleanup_netif netif s = run_all (cleanup_entry netif) [0..<ARP_TABLE_SIZE] s"

text \<open>The index with the two addresses; \<open>None\<close> inside is the result -1.\<close>

definition etharp_find_addr ::
  "'w arp_env \<Rightarrow> nat \<Rightarrow> u32 option \<Rightarrow> 'w arp \<Rightarrow> ((nat \<times> bytes \<times> u32) option \<times> 'w arp) option" where
  "etharp_find_addr env netif ipaddr s = do {
     (found, s) \<leftarrow> etharp_find_entry env ipaddr ETHARP_FLAG_FIND_ONLY (Some netif) s;
     case found of
       Inr i \<Rightarrow>
         let e = arp_table s ! i
         in Some (if arp_state e \<ge> ETHARP_STATE_STABLE then Some (i, arp_ethaddr e, arp_ipaddr e) else None, s)
     | Inl _ \<Rightarrow> Some (None, s)
   }"

definition etharp_get_entry :: "u8 \<Rightarrow> 'w arp \<Rightarrow> (u32 \<times> nat option \<times> bytes) option" where
  "etharp_get_entry i s =
     (let e = arp_table s ! unat i
      in if unat i < ARP_TABLE_SIZE \<and> arp_state e \<ge> ETHARP_STATE_STABLE
         then Some (arp_ipaddr e, arp_netif e, arp_ethaddr e) else None)"

subsection \<open>Incoming packets\<close>

text \<open>Fields of a packet that has been read.\<close>

definition field :: "nat \<Rightarrow> nat \<Rightarrow> bytes \<Rightarrow> bytes" where
  "field off len m = take len (drop off m)"

definition addr_field :: "nat \<Rightarrow> bytes \<Rightarrow> u32" where
  "addr_field off m = le32 (m ! off) (m ! (off + 1)) (m ! (off + 2)) (m ! (off + 3))"

definition etharp_ip_input :: "'w arp_env \<Rightarrow> nat \<Rightarrow> nat \<Rightarrow> 'w arp \<Rightarrow> 'w arp option" where
  "etharp_ip_input env netif p s = do {
     src \<leftarrow> payload_read p (SIZEOF_ETH_HDR + 12) 4 (pbufs s);
     let iphdr_src = addr_field 0 src;
     let n = netifs s netif;
     if \<not> ip4_addr_netcmp iphdr_src (ip_addr n) (netmask n) then Some s
     else do {
       ethaddr \<leftarrow> payload_read p 6 6 (pbufs s);
       (_, s) \<leftarrow> etharp_update_arp_entry env netif iphdr_src ethaddr ETHARP_FLAG_FIND_ONLY s;
       Some s
     }
   }"

text \<open>The reply written over a request \<open>m\<close>: its sender becomes the target.\<close>

definition arp_reply_frame :: "bytes \<Rightarrow> bytes \<Rightarrow> u32 \<Rightarrow> bytes \<Rightarrow> bytes" where
  "arp_reply_frame ethdst ethaddr ip m =
     ethdst @ ethaddr @ field 12 8 m @ u16_bytes (lwip_htons ARP_REPLY)
     @ ethaddr @ u32_bytes ip @ field 22 6 m @ field 28 4 m"

text \<open>
  The header is read before the table is updated and again for the reply, as in the code;
  \<open>for_us\<close> is computed in between.
\<close>

definition arp_header_ok :: "bytes \<Rightarrow> bool" where
  "arp_header_ok m \<longleftrightarrow>
     field 14 2 m = u16_bytes (lwip_htons HWTYPE_ETHERNET) \<and> m ! 18 = 6 \<and> m ! 19 = 4
     \<and> field 16 2 m = u16_bytes (lwip_htons ETHTYPE_IP)"

definition arp_for_us :: "u32 \<Rightarrow> u32 \<Rightarrow> bool" where
  "arp_for_us dipaddr ip = (if ip = IPADDR_ANY then False else dipaddr = ip)"

definition arp_act :: "'w arp_env \<Rightarrow> nat \<Rightarrow> bytes \<Rightarrow> nat \<Rightarrow> u32 \<Rightarrow> bool \<Rightarrow> 'w arp \<Rightarrow> 'w arp option" where
  "arp_act env netif ethaddr p sipaddr for_us s = do {
     m \<leftarrow> payload_read p 0 SIZEOF_ETHARP_PACKET (pbufs s);
     if field 20 2 m = u16_bytes (lwip_htons ARP_REQUEST) then
       if for_us then do {
         let ip = ip_addr (netifs s netif);
         let dst = (if LWIP_AUTOIP env \<and> ip4_addr_islinklocal ip then ethbroadcast else field 22 6 m);
         hp \<leftarrow> payload_write p 0 (arp_reply_frame dst ethaddr ip m) (pbufs s);
         (_, s) \<leftarrow> link_output env netif p (s\<lparr>pbufs := hp\<rparr>);
         Some s
       }
       else Some s
     else if field 20 2 m = u16_bytes (lwip_htons ARP_REPLY) then
       Some (if DHCP_DOES_ARP_CHECK env
             then s\<lparr>env_state := dhcp_arp_reply env netif sipaddr (env_state s)\<rparr> else s)
     else Some s
   }"

definition etharp_arp_input :: "'w arp_env \<Rightarrow> nat \<Rightarrow> bytes \<Rightarrow> nat \<Rightarrow> 'w arp \<Rightarrow> 'w arp option" where
  "etharp_arp_input env netif ethaddr p s = do {
     n \<leftarrow> nodes (pbufs s) p;
     if unat (n_len n) < SIZEOF_ETHARP_PACKET then free_pbuf p s
     else do {
       m \<leftarrow> payload_read p 0 SIZEOF_ETHARP_PACKET (pbufs s);
       if \<not> arp_header_ok m then free_pbuf p s
       else do {
         let s = (if LWIP_AUTOIP env
                  then s\<lparr>env_state := autoip_arp_reply env netif (field 14 28 m) (env_state s)\<rparr> else s);
         let sipaddr = addr_field 28 m;
         let for_us = arp_for_us (addr_field 38 m) (ip_addr (netifs s netif));
         (_, s) \<leftarrow> etharp_update_arp_entry env netif sipaddr (field 22 6 m)
                     (if for_us then ETHARP_FLAG_TRY_HARD else ETHARP_FLAG_FIND_ONLY) s;
         s \<leftarrow> arp_act env netif ethaddr p sipaddr for_us s;
         free_pbuf p s
       }
     }
   }"

subsection \<open>Outgoing packets\<close>

definition etharp_output_to_arp_index ::
  "'w arp_env \<Rightarrow> nat \<Rightarrow> nat \<Rightarrow> nat \<Rightarrow> 'w arp \<Rightarrow> (err_t \<times> 'w arp) option" where
  "etharp_output_to_arp_index env netif q arp_idx s = do {
     let e = arp_table s ! arp_idx;
     s \<leftarrow> (if arp_state e = ETHARP_STATE_STABLE then
              if arp_ctime e \<ge> ARP_AGE_REREQUEST_USED_BROADCAST then do {
                (r, s) \<leftarrow> etharp_request env netif (arp_ipaddr e) s;
                Some (if r = ERR_OK then set_entry arp_idx
                        ((arp_table s ! arp_idx)\<lparr>arp_state := ETHARP_STATE_STABLE_REREQUESTING_1\<rparr>) s else s)
              }
              else if arp_ctime e \<ge> ARP_AGE_REREQUEST_USED_UNICAST then do {
                (r, s) \<leftarrow> etharp_request_dst env netif (arp_ipaddr e) (arp_ethaddr e) s;
                Some (if r = ERR_OK then set_entry arp_idx
                        ((arp_table s ! arp_idx)\<lparr>arp_state := ETHARP_STATE_STABLE_REREQUESTING_1\<rparr>) s else s)
              }
              else Some s
            else Some s);
     etharp_send_ip env netif q (hwaddr (netifs s netif)) (arp_ethaddr (arp_table s ! arp_idx)) s
   }"

text \<open>
  \<open>etharp_query\<close>. The first loop looks for a pbuf that is not in ROM and stops there; the
  result is that pbuf. The new pbuf gets the length stored in it.
\<close>

partial_function (option) first_not_rom :: "nat option \<Rightarrow> pheap \<Rightarrow> (nat option) option" where
  "first_not_rom p hp =
     (case p of
        None \<Rightarrow> Some None
      | Some a \<Rightarrow>
          (case nodes hp a of
             None \<Rightarrow> None
           | Some n \<Rightarrow> if n_type n \<noteq> PBUF_ROM then Some (Some a) else first_not_rom (n_next n) hp))"

definition take_over :: "'w arp_env \<Rightarrow> nat \<Rightarrow> 'w arp \<Rightarrow> (nat option \<times> 'w arp) option" where
  "take_over env q s = do {
     p \<leftarrow> first_not_rom (Some q) (pbufs s);
     case p of
       Some a \<Rightarrow> do {
         n \<leftarrow> nodes (pbufs s) a;
         (p, hp) \<leftarrow> pbuf_alloc (pbuf_memory env) PBUF_RAW_TX (n_tot_len n) PBUF_RAM (pbufs s);
         case p of
           None \<Rightarrow> Some (None, s\<lparr>pbufs := hp\<rparr>)
         | Some p \<Rightarrow> do {
             (err, hp) \<leftarrow> pbuf_copy (Some p) (Some q) hp;
             let s = s\<lparr>pbufs := hp\<rparr>;
             if err \<noteq> ERR_OK then map_option (Pair None) (free_pbuf p s) else Some (Some p, s)
           }
       }
     | None \<Rightarrow> do {
         hp \<leftarrow> pbuf_ref (Some q) (pbufs s);
         Some (Some q, s\<lparr>pbufs := hp\<rparr>)
       }
   }"

definition append_queue :: "'w arp_env \<Rightarrow> nat \<Rightarrow> nat \<Rightarrow> 'w arp \<Rightarrow> (err_t \<times> 'w arp) option" where
  "append_queue env i p s =
     (if ARP_QUEUEING env then
        let new_entry = memp_arp_queue env (queue_requests s);
            s = s\<lparr>queue_requests := queue_requests s + 1\<rparr>
        in if new_entry then
             let e = arp_table s ! i; qlen = length (arp_q e); s = set_entry i (e\<lparr>arp_q := arp_q e @ [p]\<rparr>) s
             in if qlen \<ge> ARP_QUEUE_LEN then do {
                  let e = arp_table s ! i;
                  let old = hd (arp_q e);
                  s \<leftarrow> free_pbuf old (set_entry i (e\<lparr>arp_q := tl (arp_q e)\<rparr>) s);
                  Some (ERR_OK, s)
                }
                else Some (ERR_OK, s)
           else do { s \<leftarrow> free_pbuf p s; Some (ERR_MEM, s) }
      else do {
        s \<leftarrow> (case arp_q (arp_table s ! i) of [] \<Rightarrow> Some s | old # _ \<Rightarrow> free_pbuf old s);
        Some (ERR_OK, set_entry i ((arp_table s ! i)\<lparr>arp_q := [p]\<rparr>) s)
      })"

definition etharp_query :: "'w arp_env \<Rightarrow> nat \<Rightarrow> u32 \<Rightarrow> nat option \<Rightarrow> 'w arp \<Rightarrow> (err_t \<times> 'w arp) option" where
  "etharp_query env netif ipaddr q s =
     (if ip4_addr_isbroadcast ipaddr (netifs s netif) \<or> ip4_addr_ismulticast ipaddr \<or> ipaddr = IPADDR_ANY
      then Some (ERR_ARG, s)
      else do {
        (found, s) \<leftarrow> etharp_find_entry env (Some ipaddr) ETHARP_FLAG_TRY_HARD (Some netif) s;
        case found of
          Inl err \<Rightarrow> Some (err, s)
        | Inr i \<Rightarrow> do {
            let is_new_entry = (arp_state (arp_table s ! i) = ETHARP_STATE_EMPTY);
            let s = (if is_new_entry
                     then set_entry i ((arp_table s ! i)\<lparr>arp_state := ETHARP_STATE_PENDING,
                                                        arp_netif := Some netif\<rparr>) s else s);
            (result, s) \<leftarrow> (if is_new_entry \<or> q = None then etharp_request env netif ipaddr s
                            else Some (ERR_MEM, s));
            case q of
              None \<Rightarrow> Some (result, s)
            | Some q \<Rightarrow>
                if arp_state (arp_table s ! i) \<ge> ETHARP_STATE_STABLE then
                  etharp_send_ip env netif q (hwaddr (netifs s netif)) (arp_ethaddr (arp_table s ! i))
                    (s\<lparr>etharp_cached_entry := i\<rparr>)
                else if arp_state (arp_table s ! i) = ETHARP_STATE_PENDING then do {
                  (p, s) \<leftarrow> take_over env q s;
                  case p of None \<Rightarrow> Some (ERR_MEM, s) | Some p \<Rightarrow> append_queue env i p s
                }
                else Some (result, s)
          }
      })"

fun find_stable :: "u32 \<Rightarrow> nat \<Rightarrow> etharp_entry list \<Rightarrow> nat option" where
  "find_stable dst_addr i [] = None"
| "find_stable dst_addr i (e # es) =
     (if arp_state e \<ge> ETHARP_STATE_STABLE \<and> dst_addr = arp_ipaddr e then Some i
      else find_stable dst_addr (i + 1) es)"

definition mcast_ethaddr :: "u32 \<Rightarrow> bytes" where
  "mcast_ethaddr a = (let b = u32_bytes a in [0x01, 0x00, 0x5e, b ! 1 AND 0x7f, b ! 2, b ! 3])"

text \<open>The address to ask for; \<open>None\<close> inside is the error \<open>ERR_RTE\<close>.\<close>

definition next_hop :: "'w arp_env \<Rightarrow> nat \<Rightarrow> nat \<Rightarrow> u32 \<Rightarrow> 'w arp \<Rightarrow> (u32 option) option" where
  "next_hop env netif q ipaddr s =
     (let n = netifs s netif
      in if \<not> ip4_addr_netcmp ipaddr (ip_addr n) (netmask n) \<and> \<not> ip4_addr_islinklocal ipaddr then do {
           direct \<leftarrow> (if LWIP_AUTOIP env
                       then map_option (\<lambda>src. ip4_addr_islinklocal (addr_field 0 src))
                              (payload_read q (SIZEOF_ETH_HDR + 12) 4 (pbufs s))
                       else Some False);
           Some (if direct then Some ipaddr else if gw n \<noteq> IPADDR_ANY then Some (gw n) else None)
         }
         else Some (Some ipaddr))"

definition etharp_output :: "'w arp_env \<Rightarrow> nat \<Rightarrow> nat \<Rightarrow> u32 \<Rightarrow> 'w arp \<Rightarrow> (err_t \<times> 'w arp) option" where
  "etharp_output env netif q ipaddr s = do {
     (failed, hp) \<leftarrow> pbuf_header (Some q) (of_nat SIZEOF_ETH_HDR) (pbufs s);
     let s = s\<lparr>pbufs := hp\<rparr>;
     if failed then Some (ERR_BUF, s)
     else if ip4_addr_isbroadcast ipaddr (netifs s netif) then
       etharp_send_ip env netif q (hwaddr (netifs s netif)) ethbroadcast s
     else if ip4_addr_ismulticast ipaddr then
       etharp_send_ip env netif q (hwaddr (netifs s netif)) (mcast_ethaddr ipaddr) s
     else do {
       dst_addr \<leftarrow> next_hop env netif q ipaddr s;
       case dst_addr of
         None \<Rightarrow> Some (ERR_RTE, s)
       | Some dst_addr \<Rightarrow>
           let e = arp_table s ! etharp_cached_entry s
           in if arp_state e \<ge> ETHARP_STATE_STABLE \<and> dst_addr = arp_ipaddr e
              then etharp_output_to_arp_index env netif q (etharp_cached_entry s) s
              else case find_stable dst_addr 0 (arp_table s) of
                Some i \<Rightarrow> etharp_output_to_arp_index env netif q i (s\<lparr>etharp_cached_entry := i\<rparr>)
              | None \<Rightarrow> etharp_query env netif dst_addr (Some q) s
     }
   }"

subsection \<open>Ethernet input\<close>

definition link_flags :: "bytes \<Rightarrow> u8" where
  "link_flags m =
     (if m ! 0 AND 1 \<noteq> 0 then
        if m ! 0 = 0x01 then (if m ! 1 = 0x00 \<and> m ! 2 = 0x5e then PBUF_FLAG_LLMCAST else 0)
        else if field 0 6 m = ethbroadcast then PBUF_FLAG_LLBCAST else 0
      else 0)"

definition ethernet_input :: "'w arp_env \<Rightarrow> nat \<Rightarrow> nat \<Rightarrow> 'w arp \<Rightarrow> (err_t \<times> 'w arp) option" where
  "ethernet_input env p netif s = do {
     n \<leftarrow> nodes (pbufs s) p;
     s \<leftarrow> (if unat (n_len n) \<le> SIZEOF_ETH_HDR then free_pbuf p s
            else do {
              m \<leftarrow> payload_read p 0 SIZEOF_ETH_HDR (pbufs s);
              let s = s\<lparr>pbufs := put_node p (n\<lparr>n_flags := n_flags n OR link_flags m\<rparr>) (pbufs s)\<rparr>;
              if field 12 2 m = u16_bytes (lwip_htons ETHTYPE_IP) then
                if netif_flags (netifs s netif) AND NETIF_FLAG_ETHARP = 0 then free_pbuf p s
                else do {
                  s \<leftarrow> (if ETHARP_TRUST_IP_MAC env then etharp_ip_input env netif p s else Some s);
                  n \<leftarrow> nodes (pbufs s) p;
                  if unat (n_len n) < SIZEOF_ETH_HDR then free_pbuf p s
                  else do {
                    (failed, hp) \<leftarrow> pbuf_header (Some p) (- of_nat SIZEOF_ETH_HDR) (pbufs s);
                    let s = s\<lparr>pbufs := hp\<rparr>;
                    if failed then free_pbuf p s else ip4_input env p netif s
                  }
                }
              else if field 12 2 m = u16_bytes (lwip_htons ETHTYPE_ARP) then
                if netif_flags (netifs s netif) AND NETIF_FLAG_ETHARP = 0 then free_pbuf p s
                else etharp_arp_input env netif (hwaddr (netifs s netif)) p s
              else free_pbuf p s
            });
     Some (ERR_OK, s)
   }"

section \<open>What the operations keep\<close>

lemma set_entry_sel [simp]:
  "arp_table (set_entry i e s) = (arp_table s)[i := e]"
  "etharp_cached_entry (set_entry i e s) = etharp_cached_entry s"
  "netifs (set_entry i e s) = netifs s" "pbufs (set_entry i e s) = pbufs s"
  "frames (set_entry i e s) = frames s" "env_state (set_entry i e s) = env_state s"
  "queue_requests (set_entry i e s) = queue_requests s"
  by (simp_all add: set_entry_def)

text \<open>Nothing that sends or frees touches the table or the interfaces.\<close>

definition same_table :: "'w arp \<Rightarrow> 'w arp \<Rightarrow> bool" where
  "same_table s t \<longleftrightarrow> arp_table t = arp_table s \<and> netifs t = netifs s
     \<and> etharp_cached_entry t = etharp_cached_entry s"

lemma same_table_refl [simp]: "same_table s s"
  by (simp add: same_table_def)

lemma same_table_trans: "same_table s t \<Longrightarrow> same_table t u \<Longrightarrow> same_table s u"
  by (simp add: same_table_def)

lemma same_table_upd [simp]:
  "same_table s (t\<lparr>pbufs := hp\<rparr>) = same_table s t" "same_table s (t\<lparr>frames := fs\<rparr>) = same_table s t"
  "same_table s (t\<lparr>env_state := w\<rparr>) = same_table s t"
  "same_table s (t\<lparr>queue_requests := k\<rparr>) = same_table s t"
  "same_table (s\<lparr>pbufs := hp\<rparr>) t = same_table s t" "same_table (s\<lparr>env_state := w\<rparr>) t = same_table s t"
  "same_table (s\<lparr>queue_requests := k\<rparr>) t = same_table s t"
  by (simp_all add: same_table_def)

lemma link_outputD:
  assumes "link_output env netif p s = Some (r, t)"
  obtains frame w where "frame_of (Some p) (pbufs s) = Some frame" "linkoutput env netif frame (env_state s) = (r, w)"
    "t = s\<lparr>frames := frames s @ [(netif, frame)], env_state := w\<rparr>"
proof -
  from assms obtain frame where "frame_of (Some p) (pbufs s) = Some frame"
    by (auto simp: link_output_def)
  with assms that show thesis
    by (cases "linkoutput env netif frame (env_state s)") (auto simp: link_output_def)
qed

lemma link_output_same: "link_output env netif p s = Some (r, t) \<Longrightarrow> same_table s t"
  by (erule link_outputD) simp

lemma link_output_pbufs: "link_output env netif p s = Some (r, t) \<Longrightarrow> pbufs t = pbufs s"
  by (erule link_outputD) simp

lemma free_pbuf_same: "free_pbuf p s = Some t \<Longrightarrow> same_table s t \<and> frames t = frames s \<and> env_state t = env_state s"
  by (auto simp: free_pbuf_def)

lemma free_etharp_q_same: "free_etharp_q q s = Some t \<Longrightarrow> same_table s t \<and> frames t = frames s \<and> env_state t = env_state s"
  unfolding free_etharp_q_def
proof (induction q arbitrary: s)
  case (Cons p q)
  then obtain u where u: "free_pbuf p s = Some u" "run_all free_pbuf q u = Some t"
    by (auto simp: bind_eq_Some_conv)
  from Cons.IH [OF u(2)] free_pbuf_same [OF u(1)] show ?case
    by (auto intro: same_table_trans)
qed simp

lemma etharp_raw_same: "etharp_raw env netif a b c d e f g s = Some (r, t) \<Longrightarrow> same_table s t"
  unfolding etharp_raw_def
  by (auto simp: bind_eq_Some_conv Let_def split: option.splits
      dest!: link_output_same free_pbuf_same) (rule same_table_trans)

lemma etharp_request_dst_same: "etharp_request_dst env netif a d s = Some (r, t) \<Longrightarrow> same_table s t"
  by (auto simp: etharp_request_dst_def Let_def dest: etharp_raw_same)

lemma etharp_request_same: "etharp_request env netif a s = Some (r, t) \<Longrightarrow> same_table s t"
  by (auto simp: etharp_request_def dest: etharp_request_dst_same)

lemma etharp_send_ip_same: "etharp_send_ip env netif p src dst s = Some (r, t) \<Longrightarrow> same_table s t"
  by (auto simp: etharp_send_ip_def bind_eq_Some_conv dest!: link_output_same)

lemma take_over_same: "take_over env q s = Some (p, t) \<Longrightarrow> same_table s t"
  unfolding take_over_def
  by (auto simp: bind_eq_Some_conv Let_def split: option.splits if_splits dest!: free_pbuf_same)

lemma arp_act_same: "arp_act env netif a p ip f s = Some t \<Longrightarrow> same_table s t"
  unfolding arp_act_def
  by (auto simp: bind_eq_Some_conv Let_def split: if_splits dest!: link_output_same)

section \<open>The choice of an entry\<close>

text \<open>
  The sweep has seen the entries \<open>es\<close>. \<open>best_of P\<close>: the oldest entry with \<open>P\<close>, the last one
  of the same age.
\<close>

definition best_of :: "(etharp_entry \<Rightarrow> bool) \<Rightarrow> etharp_entry list \<Rightarrow> nat \<Rightarrow> u16 \<Rightarrow> bool" where
  "best_of P es i age \<longleftrightarrow>
     i = ARP_TABLE_SIZE \<and> age = 0 \<and> (\<forall>e \<in> set es. \<not> P e)
     \<or> i < length es \<and> P (es ! i) \<and> age = arp_ctime (es ! i)
       \<and> (\<forall>j < length es. P (es ! j) \<longrightarrow> arp_ctime (es ! j) \<le> age \<and> (i < j \<longrightarrow> arp_ctime (es ! j) < age))"

definition first_empty :: "etharp_entry list \<Rightarrow> nat \<Rightarrow> bool" where
  "first_empty es i \<longleftrightarrow>
     i = ARP_TABLE_SIZE \<and> (\<forall>e \<in> set es. arp_state e \<noteq> ETHARP_STATE_EMPTY)
     \<or> i < length es \<and> arp_state (es ! i) = ETHARP_STATE_EMPTY
       \<and> (\<forall>j < i. arp_state (es ! j) \<noteq> ETHARP_STATE_EMPTY)"

definition waiting :: "etharp_entry \<Rightarrow> bool" where
  "waiting e \<longleftrightarrow> arp_state e = ETHARP_STATE_PENDING \<and> arp_q e \<noteq> []"

definition idle :: "etharp_entry \<Rightarrow> bool" where
  "idle e \<longleftrightarrow> arp_state e = ETHARP_STATE_PENDING \<and> arp_q e = []"

definition dynamic :: "'w arp_env \<Rightarrow> etharp_entry \<Rightarrow> bool" where
  "dynamic env e \<longleftrightarrow> arp_state e \<ge> ETHARP_STATE_STABLE
     \<and> (ETHARP_SUPPORT_STATIC_ENTRIES env \<longrightarrow> arp_state e < ETHARP_STATE_STATIC)"

lemma best_of_Nil: "best_of P [] ARP_TABLE_SIZE 0"
  by (simp add: best_of_def)

lemma best_of_skip: "best_of P es i age \<Longrightarrow> \<not> P e \<Longrightarrow> best_of P (es @ [e]) i age"
  by (auto simp: best_of_def nth_append less_Suc_eq)

lemma best_of_older: "best_of P es i age \<Longrightarrow> \<not> age \<le> arp_ctime e \<Longrightarrow> best_of P (es @ [e]) i age"
  by (auto simp: best_of_def nth_append less_Suc_eq)

lemma best_of_newer:
  assumes "best_of P es i age" "P e" "age \<le> arp_ctime e"
  shows "best_of P (es @ [e]) (length es) (arp_ctime e)"
proof -
  have "arp_ctime (es ! j) \<le> arp_ctime e" if "j < length es" "P (es ! j)" for j
    using assms that by (auto simp: best_of_def intro: order_trans dest: nth_mem)
  with assms show ?thesis
    by (auto simp: best_of_def nth_append less_Suc_eq)
qed

lemmas best_of_step = best_of_skip best_of_older best_of_newer

definition seen :: "'w arp_env \<Rightarrow> etharp_entry list \<Rightarrow> candidates \<Rightarrow> bool" where
  "seen env es c \<longleftrightarrow> first_empty es (empty_entry c)
     \<and> best_of (dynamic env) es (old_stable c) (age_stable c)
     \<and> best_of idle es (old_pending c) (age_pending c)
     \<and> best_of waiting es (old_queue c) (age_queue c)"

lemma seen_Nil: "seen env [] no_candidates"
  by (simp add: seen_def no_candidates_def best_of_Nil first_empty_def)

lemma first_empty_skip: "first_empty es i \<Longrightarrow> arp_state e \<noteq> ETHARP_STATE_EMPTY \<Longrightarrow> first_empty (es @ [e]) i"
  by (auto simp: first_empty_def nth_append)

lemma first_empty_have: "first_empty es i \<Longrightarrow> i \<noteq> ARP_TABLE_SIZE \<Longrightarrow> first_empty (es @ [e]) i"
  by (auto simp: first_empty_def nth_append)

lemma first_empty_new:
  "first_empty es ARP_TABLE_SIZE \<Longrightarrow> length es < ARP_TABLE_SIZE \<Longrightarrow> arp_state e = ETHARP_STATE_EMPTY \<Longrightarrow>
   first_empty (es @ [e]) (length es)"
  by (auto simp: first_empty_def nth_append)

lemma state_classes:
  "arp_state e = ETHARP_STATE_EMPTY \<Longrightarrow> \<not> dynamic env e \<and> \<not> idle e \<and> \<not> waiting e"
  "arp_state e = ETHARP_STATE_PENDING \<Longrightarrow> \<not> dynamic env e \<and> (idle e \<longleftrightarrow> arp_q e = []) \<and> (waiting e \<longleftrightarrow> arp_q e \<noteq> [])"
  "arp_state e \<ge> ETHARP_STATE_STABLE \<Longrightarrow> \<not> idle e \<and> \<not> waiting e"
  by (auto simp: dynamic_def idle_def waiting_def less_eq_etharp_state_def)

lemma stable_or_pending:
  "arp_state e \<noteq> ETHARP_STATE_EMPTY \<Longrightarrow> arp_state e \<noteq> ETHARP_STATE_PENDING \<Longrightarrow> arp_state e \<ge> ETHARP_STATE_STABLE"
  by (cases "arp_state e") (simp_all add: less_eq_etharp_state_def)

lemma seen_empty:
  "seen env es c \<Longrightarrow> arp_state e = ETHARP_STATE_EMPTY \<Longrightarrow> empty_entry c = ARP_TABLE_SIZE \<Longrightarrow>
   length es < ARP_TABLE_SIZE \<Longrightarrow> seen env (es @ [e]) (c\<lparr>empty_entry := length es\<rparr>)"
  by (auto simp: seen_def state_classes intro: best_of_skip first_empty_new)

lemma seen_more_empty:
  "seen env es c \<Longrightarrow> arp_state e = ETHARP_STATE_EMPTY \<Longrightarrow> empty_entry c \<noteq> ARP_TABLE_SIZE \<Longrightarrow> seen env (es @ [e]) c"
  by (auto simp: seen_def state_classes intro: best_of_skip first_empty_have)

lemma seen_remember:
  assumes "seen env es c" "arp_state e \<noteq> ETHARP_STATE_EMPTY"
  shows "seen env (es @ [e]) (remember env (length es) e c)"
proof (cases "arp_state e = ETHARP_STATE_PENDING")
  case True
  note classes = state_classes(2) [OF True, of env]
  show ?thesis
    using assms True classes
    by (auto simp: seen_def remember_def intro: best_of_step first_empty_skip)
next
  case False
  note classes = state_classes(3) [OF stable_or_pending [OF assms(2) False]]
  show ?thesis
    using assms False classes stable_or_pending [OF assms(2) False]
    by (auto simp: seen_def remember_def dynamic_def intro: best_of_step first_empty_skip)
qed

lemma find_sweep_Inl:
  "find_sweep env ip nif (length es) es' c = Inl i \<Longrightarrow>
   length es \<le> i \<and> i < length (es @ es') \<and> arp_state ((es @ es') ! i) \<noteq> ETHARP_STATE_EMPTY
   \<and> entry_matches env ip nif ((es @ es') ! i)"
proof (induction es' arbitrary: es c)
  case (Cons e es')
  show ?case
  proof (cases "arp_state e \<noteq> ETHARP_STATE_EMPTY \<and> entry_matches env ip nif e")
    case True
    with Cons.prems have "i = length es" by (simp split: if_splits)
    with True show ?thesis by simp
  next
    case False
    with Cons.prems obtain c' where "find_sweep env ip nif (length (es @ [e])) es' c' = Inl i"
      by (auto split: if_splits)
    from Cons.IH [OF this] show ?thesis by simp
  qed
qed simp

lemma find_sweep_Inr:
  assumes "find_sweep env ip nif (length es) es' c = Inr c'" "seen env es c"
    "length (es @ es') \<le> ARP_TABLE_SIZE"
  shows "seen env (es @ es') c'
    \<and> (\<forall>e \<in> set es'. arp_state e \<noteq> ETHARP_STATE_EMPTY \<longrightarrow> \<not> entry_matches env ip nif e)"
  using assms
proof (induction es' arbitrary: es c)
  case (Cons e es')
  let ?c = "if arp_state e = ETHARP_STATE_EMPTY
            then if empty_entry c = ARP_TABLE_SIZE then c\<lparr>empty_entry := length es\<rparr> else c
            else remember env (length es) e c"
  have "seen env (es @ [e]) ?c"
    using Cons.prems by (simp add: seen_empty seen_more_empty seen_remember)
  moreover have "find_sweep env ip nif (length (es @ [e])) es' ?c = Inr c'"
    using Cons.prems(1) by (simp split: if_splits)
  moreover have "arp_state e \<noteq> ETHARP_STATE_EMPTY \<longrightarrow> \<not> entry_matches env ip nif e"
    using Cons.prems(1) by (auto split: if_splits)
  ultimately show ?case
    using Cons.IH [of "es @ [e]" ?c] Cons.prems(3) by simp
qed simp

lemmas find_sweep_start =
  find_sweep_Inl [where es = "[]", simplified] find_sweep_Inr [where es = "[]", simplified, OF _ seen_Nil]

text \<open>A free entry for \<open>ipaddr\<close> and \<open>netif\<close>.\<close>

definition fresh_entry :: "'w arp_env \<Rightarrow> u32 option \<Rightarrow> nat option \<Rightarrow> etharp_entry \<Rightarrow> bool" where
  "fresh_entry env ip nif e \<longleftrightarrow> arp_state e = ETHARP_STATE_EMPTY \<and> arp_ctime e = 0
     \<and> (ip \<noteq> None \<longrightarrow> ip = Some (arp_ipaddr e)) \<and> (ETHARP_TABLE_MATCH_NETIF env \<longrightarrow> arp_netif e = nif)"

lemma etharp_free_entryD:
  assumes "etharp_free_entry i s = Some t"
  shows "arp_table t = (arp_table s)[i := (arp_table s ! i)\<lparr>arp_q := [], arp_state := ETHARP_STATE_EMPTY,
      arp_ctime := 0, arp_netif := None, arp_ipaddr := 0, arp_ethaddr := ethzero\<rparr>]"
    and "netifs t = netifs s" "etharp_cached_entry t = etharp_cached_entry s" "frames t = frames s"
    "env_state t = env_state s"
  using assms
  by (auto simp: etharp_free_entry_def bind_eq_Some_conv same_table_def dest!: free_etharp_q_same)

text \<open>What \<open>etharp_find_entry\<close> may do to the table.\<close>

lemma etharp_find_entry_match:
  assumes "etharp_find_entry env ip fl nif s = Some (Inr i, t)"
    "find_sweep env ip nif 0 (arp_table s) no_candidates = Inl j"
  shows "i = j \<and> t = s"
  using assms by (simp add: etharp_find_entry_def)

lemma etharp_find_entry_new:
  assumes "etharp_find_entry env ip fl nif s = Some (Inr i, t)"
    and c: "find_sweep env ip nif 0 (arp_table s) no_candidates = Inr c"
    and size: "length (arp_table s) = ARP_TABLE_SIZE"
  obtains e where "i < ARP_TABLE_SIZE" "arp_table t = (arp_table s)[i := e]" "fresh_entry env ip nif e"
    "arp_q e = (if empty_entry c < ARP_TABLE_SIZE then arp_q (arp_table s ! i) else [])"
    "netifs t = netifs s" "etharp_cached_entry t = etharp_cached_entry s" "frames t = frames s"
    "env_state t = env_state s" "fl AND ETHARP_FLAG_FIND_ONLY = 0"
    "if empty_entry c < ARP_TABLE_SIZE then i = empty_entry c \<and> pbufs t = pbufs s
     else fl AND ETHARP_FLAG_TRY_HARD \<noteq> 0 \<and> recycle c = Some i"
proof -
  from find_sweep_start(2) [OF c] size have seen: "seen env (arp_table s) c" by simp
  have empty: "empty_entry c < ARP_TABLE_SIZE \<or> empty_entry c = ARP_TABLE_SIZE"
    using seen size by (auto simp: seen_def first_empty_def)
  have fl: "fl AND ETHARP_FLAG_FIND_ONLY = 0"
    using assms(1) c by (auto simp: etharp_find_entry_def split: if_splits)
  define fill where "fill e = (let
      e = (case ip of None \<Rightarrow> e | Some a \<Rightarrow> e\<lparr>arp_ipaddr := a\<rparr>); e = e\<lparr>arp_ctime := 0\<rparr>
    in if ETHARP_TABLE_MATCH_NETIF env then e\<lparr>arp_netif := nif\<rparr> else e)" for e :: etharp_entry
  have fill: "fresh_entry env ip nif (fill e)" "arp_q (fill e) = arp_q e"
    if "arp_state e = ETHARP_STATE_EMPTY" for e
    using that by (auto simp: fill_def fresh_entry_def Let_def split: option.split)
  show thesis
  proof (cases "empty_entry c < ARP_TABLE_SIZE")
    case True
    from True have i: "i = empty_entry c" and t: "t = set_entry i (fill (arp_table s ! i)) s"
      using assms(1) c fl by (auto simp: etharp_find_entry_def fill_def Let_def split: if_splits)
    have "arp_state (arp_table s ! i) = ETHARP_STATE_EMPTY"
      using seen True by (auto simp: seen_def first_empty_def i)
    from fill [OF this] that [of "fill (arp_table s ! i)"] True i t fl show thesis by simp
  next
    case False
    with assms(1) c fl empty obtain u where u: "recycle c = Some i" "etharp_free_entry i s = Some u"
      "t = set_entry i (fill (arp_table u ! i)) u" "fl AND ETHARP_FLAG_TRY_HARD \<noteq> 0"
      by (auto simp: etharp_find_entry_def fill_def Let_def bind_eq_Some_conv split: if_splits option.splits)
    have i: "i < ARP_TABLE_SIZE"
      using u(1) by (auto simp: recycle_def split: if_splits)
    note free = etharp_free_entryD [OF u(2)]
    have "arp_state (arp_table u ! i) = ETHARP_STATE_EMPTY" "arp_q (arp_table u ! i) = []"
      using i size by (simp_all add: free(1))
    from fill [OF this(1)] this(2) that [of "fill (arp_table u ! i)"] False i u free fl show thesis
      by simp
  qed
qed

text \<open>
  The price of losing an entry: nothing for an empty one, then stable entries, pending ones
  that nobody waits for, pending ones with packets, each the cheaper the older it is. Static
  entries are not for sale.
\<close>

definition price :: "'w arp_env \<Rightarrow> etharp_entry \<Rightarrow> nat" where
  "price env e =
     (let age = 65535 - unat (arp_ctime e)
      in if arp_state e = ETHARP_STATE_EMPTY then 0
         else if dynamic env e then 65536 + age
         else if idle e then 2 * 65536 + age
         else if waiting e then 3 * 65536 + age
         else 4 * 65536)"

lemma price_classes:
  "dynamic env e \<Longrightarrow> price env e = 65536 + (65535 - unat (arp_ctime e))"
  "idle e \<Longrightarrow> price env e = 2 * 65536 + (65535 - unat (arp_ctime e))"
  "waiting e \<Longrightarrow> price env e = 3 * 65536 + (65535 - unat (arp_ctime e))"
  "arp_state e \<noteq> ETHARP_STATE_EMPTY \<Longrightarrow> 65536 \<le> price env e"
  "arp_state e \<noteq> ETHARP_STATE_EMPTY \<Longrightarrow> \<not> dynamic env e \<Longrightarrow> 2 * 65536 \<le> price env e"
  "arp_state e \<noteq> ETHARP_STATE_EMPTY \<Longrightarrow> \<not> dynamic env e \<Longrightarrow> \<not> idle e \<Longrightarrow> 3 * 65536 \<le> price env e"
  by (auto simp: price_def Let_def dynamic_def idle_def waiting_def less_eq_etharp_state_def)

lemma no_price:
  "arp_state e \<noteq> ETHARP_STATE_EMPTY \<Longrightarrow> \<not> dynamic env e \<Longrightarrow> \<not> idle e \<Longrightarrow> \<not> waiting e \<Longrightarrow>
   arp_state e = ETHARP_STATE_STATIC \<and> ETHARP_SUPPORT_STATIC_ENTRIES env"
  by (cases "arp_state e")
    (auto simp: dynamic_def idle_def waiting_def less_eq_etharp_state_def less_etharp_state_def)

lemma best_ofD:
  "best_of P es i age \<Longrightarrow> length es = ARP_TABLE_SIZE \<Longrightarrow> i < ARP_TABLE_SIZE \<Longrightarrow>
   P (es ! i) \<and> (\<forall>e \<in> set es. P e \<longrightarrow> unat (arp_ctime e) \<le> unat (arp_ctime (es ! i)))"
  by (auto simp: best_of_def in_set_conv_nth word_le_nat_alt)

lemma best_of_noneD: "best_of P es i age \<Longrightarrow> length es = ARP_TABLE_SIZE \<Longrightarrow> \<not> i < ARP_TABLE_SIZE \<Longrightarrow> e \<in> set es \<Longrightarrow> \<not> P e"
  by (auto simp: best_of_def)

lemma recycle_cheapest:
  assumes seen: "seen env es c" and size: "length es = ARP_TABLE_SIZE" and e: "e \<in> set es"
    and full: "\<not> empty_entry c < ARP_TABLE_SIZE"
  shows "case recycle c of None \<Rightarrow> arp_state e = ETHARP_STATE_STATIC \<and> ETHARP_SUPPORT_STATIC_ENTRIES env
                         | Some i \<Rightarrow> price env (es ! i) \<le> price env e"
proof -
  have st: "arp_state e \<noteq> ETHARP_STATE_EMPTY"
    using seen full size e by (auto simp: seen_def first_empty_def)
  have b: "best_of (dynamic env) es (old_stable c) (age_stable c)" "best_of idle es (old_pending c) (age_pending c)"
    "best_of waiting es (old_queue c) (age_queue c)"
    using seen by (simp_all add: seen_def)
  show ?thesis
  proof (cases "old_stable c < ARP_TABLE_SIZE")
    case True
    note best = best_ofD [OF b(1) size True]
    show ?thesis
    proof (cases "dynamic env e")
      case True2: True
      with best e True show ?thesis by (auto simp: recycle_def price_classes(1) diff_le_mono2)
    next
      case False
      from price_classes(5) [OF st this] best True show ?thesis
        by (auto simp: recycle_def price_classes(1))
    qed
  next
    case no_stable: False
    note nd = best_of_noneD [OF b(1) size no_stable e]
    show ?thesis
    proof (cases "old_pending c < ARP_TABLE_SIZE")
      case True
      note best = best_ofD [OF b(2) size True]
      show ?thesis
      proof (cases "idle e")
        case True2: True
        with best e True no_stable show ?thesis by (auto simp: recycle_def price_classes(2) diff_le_mono2)
      next
        case False
        from price_classes(6) [OF st nd this] best True no_stable show ?thesis
          by (auto simp: recycle_def price_classes(2))
      qed
    next
      case no_idle: False
      note ni = best_of_noneD [OF b(2) size no_idle e]
      show ?thesis
      proof (cases "old_queue c < ARP_TABLE_SIZE")
        case True
        note best = best_ofD [OF b(3) size True]
        show ?thesis
        proof (cases "waiting e")
          case True2: True
          with best e True no_stable no_idle show ?thesis
            by (auto simp: recycle_def price_classes(3) diff_le_mono2)
        next
          case False
          from no_price [OF st nd ni this] st nd ni False
          have "price env e = 4 * 65536" by (simp add: price_def Let_def)
          with best True no_stable no_idle show ?thesis
            by (auto simp: recycle_def price_classes(3))
        qed
      next
        case False
        with no_price [OF st nd ni best_of_noneD [OF b(3) size False e]] no_stable no_idle
        show ?thesis by (auto simp: recycle_def)
      qed
    qed
  qed
qed

section \<open>The invariant of the table\<close>

definition entry_ok :: "'w arp_env \<Rightarrow> etharp_entry \<Rightarrow> bool" where
  "entry_ok env e \<longleftrightarrow>
     length (arp_q e) \<le> (if ARP_QUEUEING env then ARP_QUEUE_LEN else 1)
     \<and> (arp_state e \<noteq> ETHARP_STATE_PENDING \<longrightarrow> arp_q e = [])
     \<and> (arp_state e \<noteq> ETHARP_STATE_EMPTY \<longrightarrow> arp_netif e \<noteq> None)
     \<and> (arp_state e = ETHARP_STATE_PENDING \<longrightarrow> arp_ctime e < ARP_MAXPENDING)
     \<and> (arp_state e = ETHARP_STATE_STATIC \<longrightarrow> ETHARP_SUPPORT_STATIC_ENTRIES env)
     \<and> (arp_state e \<noteq> ETHARP_STATE_STATIC \<longrightarrow> arp_ctime e < ARP_MAXAGE)"

definition entry_key :: "'w arp_env \<Rightarrow> etharp_entry \<Rightarrow> u32 \<times> nat option" where
  "entry_key env e = (arp_ipaddr e, if ETHARP_TABLE_MATCH_NETIF env then arp_netif e else None)"

definition table_ok :: "'w arp_env \<Rightarrow> etharp_entry list \<Rightarrow> bool" where
  "table_ok env es \<longleftrightarrow> length es = ARP_TABLE_SIZE \<and> (\<forall>e \<in> set es. entry_ok env e)
     \<and> (\<forall>i < ARP_TABLE_SIZE. \<forall>j < ARP_TABLE_SIZE.
          i \<noteq> j \<and> arp_state (es ! i) \<noteq> ETHARP_STATE_EMPTY \<and> arp_state (es ! j) \<noteq> ETHARP_STATE_EMPTY
          \<longrightarrow> entry_key env (es ! i) \<noteq> entry_key env (es ! j))"

definition arp_ok :: "'w arp_env \<Rightarrow> 'w arp \<Rightarrow> bool" where
  "arp_ok env s \<longleftrightarrow> table_ok env (arp_table s) \<and> etharp_cached_entry s < ARP_TABLE_SIZE"

lemma arp_ok_same: "same_table s t \<Longrightarrow> arp_ok env t = arp_ok env s"
  by (simp add: arp_ok_def same_table_def)

lemma arp_ok_upd [simp]:
  "arp_ok env (s\<lparr>pbufs := hp\<rparr>) = arp_ok env s" "arp_ok env (s\<lparr>env_state := w\<rparr>) = arp_ok env s"
  "arp_ok env (s\<lparr>frames := fs\<rparr>) = arp_ok env s" "arp_ok env (s\<lparr>queue_requests := k\<rparr>) = arp_ok env s"
  "i < ARP_TABLE_SIZE \<Longrightarrow> arp_ok env s \<Longrightarrow> arp_ok env (s\<lparr>etharp_cached_entry := i\<rparr>)"
  by (simp_all add: arp_ok_def)

lemma arp_ok_entry: "arp_ok env s \<Longrightarrow> i < ARP_TABLE_SIZE \<Longrightarrow> entry_ok env (arp_table s ! i)"
  by (simp add: arp_ok_def table_ok_def)

lemma arp_ok_size: "arp_ok env s \<Longrightarrow> length (arp_table s) = ARP_TABLE_SIZE"
  by (simp add: arp_ok_def table_ok_def)

lemma table_ok_set:
  assumes "table_ok env es" "i < ARP_TABLE_SIZE" "entry_ok env e"
    and "arp_state e = ETHARP_STATE_EMPTY
      \<or> (\<forall>j < ARP_TABLE_SIZE. j \<noteq> i \<and> arp_state (es ! j) \<noteq> ETHARP_STATE_EMPTY
           \<longrightarrow> entry_key env (es ! j) \<noteq> entry_key env e)"
  shows "table_ok env (es[i := e])"
proof -
  have "\<forall>e' \<in> set (es[i := e]). entry_ok env e'"
    using assms(1,3) set_update_subset_insert [of es i e] by (auto simp: table_ok_def)
  with assms show ?thesis
    by (auto simp: table_ok_def nth_list_update)
qed

text \<open>An entry may change as long as it stays sound and keeps its address.\<close>

lemma table_ok_keep:
  assumes "table_ok env es" "i < ARP_TABLE_SIZE" "entry_ok env e"
    "arp_state (es ! i) \<noteq> ETHARP_STATE_EMPTY" "entry_key env e = entry_key env (es ! i)"
  shows "table_ok env (es[i := e])"
  using assms by (intro table_ok_set) (auto simp: table_ok_def)

lemma arp_ok_keep:
  assumes "arp_ok env s" "i < ARP_TABLE_SIZE" "entry_ok env e"
    "arp_state (arp_table s ! i) \<noteq> ETHARP_STATE_EMPTY" "entry_key env e = entry_key env (arp_table s ! i)"
  shows "arp_ok env (set_entry i e s)"
  using assms by (simp add: arp_ok_def table_ok_keep)

lemma arp_ok_empty:
  assumes "arp_ok env s" "i < ARP_TABLE_SIZE" "entry_ok env e" "arp_state e = ETHARP_STATE_EMPTY"
  shows "arp_ok env (set_entry i e s)"
  using assms by (simp add: arp_ok_def table_ok_set)

lemma entry_ok_cleaned: "entry_ok env (e\<lparr>arp_q := [], arp_state := ETHARP_STATE_EMPTY, arp_ctime := 0,
      arp_netif := None, arp_ipaddr := 0, arp_ethaddr := ethzero\<rparr>)"
  by (simp add: entry_ok_def ARP_MAXAGE_def)

lemma etharp_free_entry_ok:
  assumes "etharp_free_entry i s = Some t" "table_ok env (arp_table s)" "etharp_cached_entry s < ARP_TABLE_SIZE"
    "i < ARP_TABLE_SIZE"
  shows "arp_ok env t"
  using assms(2-) etharp_free_entryD [OF assms(1)]
  by (simp add: arp_ok_def table_ok_set entry_ok_cleaned)

lemma fresh_entry_ok:
  "fresh_entry env ip nif e \<Longrightarrow> arp_q e = [] \<Longrightarrow> entry_ok env e"
  by (simp add: fresh_entry_def entry_ok_def ARP_MAXAGE_def)

text \<open>
  The entry found for an address is the one with this address, or a fresh one and there is
  none with this address.
\<close>

lemma etharp_find_entry_ok:
  assumes run: "etharp_find_entry env (Some ip) fl nif s = Some (r, t)" and ok: "arp_ok env s"
  shows "arp_ok env t"
    and "r = Inr i \<Longrightarrow> i < ARP_TABLE_SIZE"
    and "r = Inr i \<Longrightarrow> arp_state (arp_table t ! i) \<noteq> ETHARP_STATE_EMPTY \<Longrightarrow>
           t = s \<and> entry_matches env (Some ip) nif (arp_table t ! i)"
    and "r = Inr i \<Longrightarrow> arp_state (arp_table t ! i) = ETHARP_STATE_EMPTY \<Longrightarrow>
           fresh_entry env (Some ip) nif (arp_table t ! i) \<and> arp_q (arp_table t ! i) = []
           \<and> (\<forall>j < ARP_TABLE_SIZE. arp_state (arp_table t ! j) \<noteq> ETHARP_STATE_EMPTY \<longrightarrow>
                \<not> entry_matches env (Some ip) nif (arp_table t ! j))"
    and "netifs t = netifs s" "frames t = frames s" "env_state t = env_state s"
proof -
  note size = arp_ok_size [OF ok]
  have cached: "etharp_cached_entry s < ARP_TABLE_SIZE" and tab: "table_ok env (arp_table s)"
    using ok by (simp_all add: arp_ok_def)
  have all: "arp_ok env t \<and> netifs t = netifs s \<and> frames t = frames s \<and> env_state t = env_state s
    \<and> (r = Inr i \<longrightarrow> i < ARP_TABLE_SIZE
       \<and> (arp_state (arp_table t ! i) \<noteq> ETHARP_STATE_EMPTY \<longrightarrow>
            t = s \<and> entry_matches env (Some ip) nif (arp_table t ! i))
       \<and> (arp_state (arp_table t ! i) = ETHARP_STATE_EMPTY \<longrightarrow>
            fresh_entry env (Some ip) nif (arp_table t ! i) \<and> arp_q (arp_table t ! i) = []
           \<and> (\<forall>j < ARP_TABLE_SIZE. arp_state (arp_table t ! j) \<noteq> ETHARP_STATE_EMPTY \<longrightarrow>
                \<not> entry_matches env (Some ip) nif (arp_table t ! j))))" for i
  proof (cases "find_sweep env (Some ip) nif 0 (arp_table s) no_candidates")
    case (Inl k)
    from find_sweep_start(1) [OF Inl] size run Inl ok show ?thesis
      by (auto simp: etharp_find_entry_def)
  next
    case (Inr c)
    note sweep = find_sweep_start(2) [OF Inr]
    have none: "\<not> entry_matches env (Some ip) nif (arp_table s ! j)"
      if "j < ARP_TABLE_SIZE" "arp_state (arp_table s ! j) \<noteq> ETHARP_STATE_EMPTY" for j
      using sweep size that by simp
    show ?thesis
    proof (cases r)
      case (Inl err)
      with run Inr sweep size ok show ?thesis
        by (auto simp: etharp_find_entry_def bind_eq_Some_conv Let_def split: if_splits option.splits)
    next
      case r: (Inr k)
      from run have "etharp_find_entry env (Some ip) fl nif s = Some (Inr k, t)" by (simp add: r)
      from etharp_find_entry_new [OF this Inr size] obtain e where e: "k < ARP_TABLE_SIZE"
        "arp_table t = (arp_table s)[k := e]" "fresh_entry env (Some ip) nif e"
        "arp_q e = (if empty_entry c < ARP_TABLE_SIZE then arp_q (arp_table s ! k) else [])"
        "netifs t = netifs s" "etharp_cached_entry t = etharp_cached_entry s" "frames t = frames s"
        "env_state t = env_state s"
        "if empty_entry c < ARP_TABLE_SIZE then k = empty_entry c \<and> pbufs t = pbufs s
         else fl AND ETHARP_FLAG_TRY_HARD \<noteq> 0 \<and> recycle c = Some k"
        by metis
      have "arp_q e = []"
      proof (cases "empty_entry c < ARP_TABLE_SIZE")
        case True
        with sweep size e(9) have "arp_state (arp_table s ! k) = ETHARP_STATE_EMPTY"
          by (auto simp: seen_def first_empty_def)
        with arp_ok_entry [OF ok e(1)] have "arp_q (arp_table s ! k) = []" by (auto simp: entry_ok_def)
        with e(4) True show ?thesis by simp
      qed (use e(4) in simp)
      with e fresh_entry_ok [OF e(3)] have "table_ok env (arp_table t)"
        using tab by (auto simp: fresh_entry_def intro!: table_ok_set)
      with e(6) cached have "arp_ok env t" by (simp add: arp_ok_def)
      moreover have "arp_state e = ETHARP_STATE_EMPTY" using e(3) by (simp add: fresh_entry_def)
      ultimately show ?thesis
        using e \<open>arp_q e = []\<close> none size r by (auto simp: nth_list_update)
    qed
  qed
  show "arp_ok env t" "netifs t = netifs s" "frames t = frames s" "env_state t = env_state s"
    using all [of 0] by simp_all
  show "i < ARP_TABLE_SIZE" if "r = Inr i"
    using all [of i] that by simp
  show "t = s \<and> entry_matches env (Some ip) nif (arp_table t ! i)"
    if "r = Inr i" "arp_state (arp_table t ! i) \<noteq> ETHARP_STATE_EMPTY"
    using all [of i] that by blast
  show "fresh_entry env (Some ip) nif (arp_table t ! i) \<and> arp_q (arp_table t ! i) = []
      \<and> (\<forall>j < ARP_TABLE_SIZE. arp_state (arp_table t ! j) \<noteq> ETHARP_STATE_EMPTY \<longrightarrow>
           \<not> entry_matches env (Some ip) nif (arp_table t ! j))"
    if "r = Inr i" "arp_state (arp_table t ! i) = ETHARP_STATE_EMPTY"
    using all [of i] that by simp
qed

text \<open>Every operation keeps it.\<close>

named_theorems arp_keeps \<open>operations keep the invariant of the table\<close>

lemma send_queueD:
  "send_queue env netif i ethaddr q s = Some t \<Longrightarrow>
   arp_table t = (if q = [] then arp_table s else (arp_table s)[i := (arp_table s ! i)\<lparr>arp_q := []\<rparr>])
   \<and> netifs t = netifs s \<and> etharp_cached_entry t = etharp_cached_entry s"
proof (induction q arbitrary: s)
  case (Cons p q)
  from Cons.prems obtain u v r
    where u: "etharp_send_ip env netif p (hwaddr (netifs s netif)) ethaddr
                (set_entry i ((arp_table s ! i)\<lparr>arp_q := q\<rparr>) s) = Some (r, u)"
      and v: "free_pbuf p u = Some v" and rest: "send_queue env netif i ethaddr q v = Some t"
    by (auto simp: bind_eq_Some_conv)
  from etharp_send_ip_same [OF u] free_pbuf_same [OF v] Cons.IH [OF rest] show ?case
    by (cases "i < length (arp_table s)") (auto simp: same_table_def list_update_beyond)
qed simp

lemma etharp_update_arp_entry_ok [arp_keeps]:
  assumes run: "etharp_update_arp_entry env netif ip ethaddr fl s = Some (r, t)" and ok: "arp_ok env s"
  shows "arp_ok env t"
proof (cases "ip = IPADDR_ANY \<or> ip4_addr_isbroadcast ip (netifs s netif) \<or> ip4_addr_ismulticast ip")
  case True
  with run ok show ?thesis by (auto simp: etharp_update_arp_entry_def)
next
  case False
  with run obtain f u where f: "etharp_find_entry env (Some ip) fl (Some netif) s = Some (f, u)"
    by (auto simp: etharp_update_arp_entry_def bind_eq_Some_conv)
  note found = etharp_find_entry_ok [OF f ok]
  show ?thesis
  proof (cases f)
    case (Inl err)
    with run False f found(1) show ?thesis
      by (auto simp: etharp_update_arp_entry_def bind_eq_Some_conv)
  next
    case (Inr i)
    define e where "e = (arp_table u ! i)\<lparr>arp_state := if ETHARP_SUPPORT_STATIC_ENTRIES env
        \<and> fl AND ETHARP_FLAG_STATIC_ENTRY \<noteq> 0 then ETHARP_STATE_STATIC else ETHARP_STATE_STABLE,
      arp_netif := Some netif, arp_ethaddr := ethaddr, arp_ctime := 0\<rparr>"
    from run False f Inr have q: "send_queue env netif i ethaddr (arp_q e) (set_entry i e u) = Some t"
      by (auto simp: etharp_update_arp_entry_def bind_eq_Some_conv e_def Let_def)
    note i = found(2) [OF Inr]
    have size: "length (arp_table u) = ARP_TABLE_SIZE" by (rule arp_ok_size [OF found(1)])
    have table: "arp_table t = (arp_table u)[i := e\<lparr>arp_q := []\<rparr>]"
    proof (cases "arp_q e = []")
      case True
      then have same: "e\<lparr>arp_q := []\<rparr> = e" by (cases e) simp
      have "arp_table t = (arp_table u)[i := e]" using send_queueD [OF q] True by simp
      then show ?thesis by (simp only: same)
    qed (use send_queueD [OF q] i size in simp)
    have sound: "entry_ok env (e\<lparr>arp_q := []\<rparr>)"
      by (simp add: e_def entry_ok_def ARP_MAXAGE_def)
    have "table_ok env ((arp_table u)[i := e\<lparr>arp_q := []\<rparr>])"
    proof (cases "arp_state (arp_table u ! i) = ETHARP_STATE_EMPTY")
      case True
      from found(4) [OF Inr True] show ?thesis
        using found(1) sound i
        by (intro table_ok_set) (auto simp: arp_ok_def entry_key_def e_def entry_matches_def fresh_entry_def)
    next
      case False
      from found(3) [OF Inr False] have "entry_matches env (Some ip) (Some netif) (arp_table u ! i)" by blast
      then have "entry_key env (e\<lparr>arp_q := []\<rparr>) = entry_key env (arp_table u ! i)"
        by (auto simp: entry_key_def e_def entry_matches_def)
      with found(1) i sound False show ?thesis
        by (intro table_ok_keep) (auto simp: arp_ok_def)
    qed
    with table send_queueD [OF q] found(1) show ?thesis by (simp add: arp_ok_def)
  qed
qed

lemma etharp_ip_input_ok [arp_keeps]:
  "etharp_ip_input env netif p s = Some t \<Longrightarrow> arp_ok env s \<Longrightarrow> arp_ok env t"
  by (auto simp: etharp_ip_input_def bind_eq_Some_conv Let_def split: if_splits
      dest: etharp_update_arp_entry_ok)

lemma free_pbuf_ok [arp_keeps]: "free_pbuf p s = Some t \<Longrightarrow> arp_ok env s \<Longrightarrow> arp_ok env t"
  using free_pbuf_same arp_ok_same by blast

lemma etharp_arp_inputE:
  assumes "etharp_arp_input env netif ethaddr p s = Some t"
  obtains "free_pbuf p s = Some t"
  | n m s1 r u v where "nodes (pbufs s) p = Some n" "SIZEOF_ETHARP_PACKET \<le> unat (n_len n)"
      "payload_read p 0 SIZEOF_ETHARP_PACKET (pbufs s) = Some m" "arp_header_ok m"
      "s1 = (if LWIP_AUTOIP env
             then s\<lparr>env_state := autoip_arp_reply env netif (field 14 28 m) (env_state s)\<rparr> else s)"
      "etharp_update_arp_entry env netif (addr_field 28 m) (field 22 6 m)
         (if arp_for_us (addr_field 38 m) (ip_addr (netifs s netif)) then ETHARP_FLAG_TRY_HARD
          else ETHARP_FLAG_FIND_ONLY) s1 = Some (r, u)"
      "arp_act env netif ethaddr p (addr_field 28 m) (arp_for_us (addr_field 38 m) (ip_addr (netifs s netif))) u = Some v"
      "free_pbuf p v = Some t"
proof -
  from assms obtain n where n: "nodes (pbufs s) p = Some n"
    by (auto simp: etharp_arp_input_def bind_eq_Some_conv)
  show thesis
  proof (cases "unat (n_len n) < SIZEOF_ETHARP_PACKET")
    case True
    with assms n that(1) show thesis by (simp add: etharp_arp_input_def)
  next
    case False
    with assms n obtain m where m: "payload_read p 0 SIZEOF_ETHARP_PACKET (pbufs s) = Some m"
      by (auto simp: etharp_arp_input_def bind_eq_Some_conv)
    show thesis
    proof (cases "arp_header_ok m")
      case False2: False
      with assms n m False that(1) show thesis by (simp add: etharp_arp_input_def)
    next
      case True
      define s1 where "s1 = (if LWIP_AUTOIP env
             then s\<lparr>env_state := autoip_arp_reply env netif (field 14 28 m) (env_state s)\<rparr> else s)"
      have "netifs s1 = netifs s" by (simp add: s1_def)
      with assms n m False True obtain r u v where
        "etharp_update_arp_entry env netif (addr_field 28 m) (field 22 6 m)
         (if arp_for_us (addr_field 38 m) (ip_addr (netifs s netif)) then ETHARP_FLAG_TRY_HARD
          else ETHARP_FLAG_FIND_ONLY) s1 = Some (r, u)"
        "arp_act env netif ethaddr p (addr_field 28 m) (arp_for_us (addr_field 38 m) (ip_addr (netifs s netif))) u = Some v"
        "free_pbuf p v = Some t"
        by (auto simp: etharp_arp_input_def bind_eq_Some_conv Let_def s1_def [symmetric])
      with that(2) [OF n _ m True s1_def] False show thesis by simp
    qed
  qed
qed

lemma etharp_arp_input_ok [arp_keeps]:
  "etharp_arp_input env netif ethaddr p s = Some t \<Longrightarrow> arp_ok env s \<Longrightarrow> arp_ok env t"
proof (erule etharp_arp_inputE)
  fix m s1 r u v
  assume ok: "arp_ok env s"
    and s1: "s1 = (if LWIP_AUTOIP env
             then s\<lparr>env_state := autoip_arp_reply env netif (field 14 28 m) (env_state s)\<rparr> else s)"
    and u: "etharp_update_arp_entry env netif (addr_field 28 m) (field 22 6 m)
         (if arp_for_us (addr_field 38 m) (ip_addr (netifs s netif)) then ETHARP_FLAG_TRY_HARD
          else ETHARP_FLAG_FIND_ONLY) s1 = Some (r, u)"
    and v: "arp_act env netif ethaddr p (addr_field 28 m)
        (arp_for_us (addr_field 38 m) (ip_addr (netifs s netif))) u = Some v"
    and t: "free_pbuf p v = Some t"
  have "arp_ok env s1" using ok by (simp add: s1)
  from etharp_update_arp_entry_ok [OF u this] arp_ok_same [OF arp_act_same [OF v]]
  have "arp_ok env v" by simp
  from free_pbuf_ok [OF t this] show "arp_ok env t" .
qed (rule free_pbuf_ok)

lemma run_all_keeps:
  "run_all f xs s = Some t \<Longrightarrow> P s \<Longrightarrow> (\<And>x s t. x \<in> set xs \<Longrightarrow> f x s = Some t \<Longrightarrow> P s \<Longrightarrow> P t) \<Longrightarrow> P t"
proof (induction xs arbitrary: s)
  case (Cons x xs)
  from Cons.prems(1) obtain u where u: "f x s = Some u" "run_all f xs u = Some t"
    by (auto simp: bind_eq_Some_conv)
  show ?case
    by (rule Cons.IH [OF u(2)]) (use Cons.prems u in auto)
qed simp

lemma tmr_entry_ok:
  assumes run: "tmr_entry env i s = Some t" and i: "i < ARP_TABLE_SIZE" and ok: "arp_ok env s"
  shows "arp_ok env t"
proof -
  define e where "e = arp_table s ! i"
  define e1 where "e1 = e\<lparr>arp_ctime := arp_ctime e + 1\<rparr>"
  have sound: "entry_ok env e" by (simp add: e_def arp_ok_entry [OF ok i])
  note size = arp_ok_size [OF ok]
  show ?thesis
  proof (cases "arp_state e \<noteq> ETHARP_STATE_EMPTY
      \<and> (ETHARP_SUPPORT_STATIC_ENTRIES env \<longrightarrow> arp_state e \<noteq> ETHARP_STATE_STATIC)")
    case False
    with run ok show ?thesis by (auto simp: tmr_entry_def e_def)
  next
    case active: True
    show ?thesis
    proof (cases "arp_ctime e1 \<ge> ARP_MAXAGE \<or> arp_state e1 = ETHARP_STATE_PENDING \<and> arp_ctime e1 \<ge> ARP_MAXPENDING")
      case True
      with run active have "etharp_free_entry i (set_entry i e1 s) = Some t"
        by (auto simp: tmr_entry_def e_def [symmetric] e1_def Let_def)
      from etharp_free_entryD [OF this] have
        "arp_table t = (arp_table s)[i := e1\<lparr>arp_q := [], arp_state := ETHARP_STATE_EMPTY, arp_ctime := 0,
           arp_netif := None, arp_ipaddr := 0, arp_ethaddr := ethzero\<rparr>]"
        "etharp_cached_entry t = etharp_cached_entry s"
        using i size by simp_all
      with ok i show ?thesis
        by (simp add: arp_ok_def table_ok_set entry_ok_cleaned)
    next
      case False
      have ok1: "entry_ok env e1"
        using sound active False by (auto simp: entry_ok_def e1_def not_le)
      have ok2: "entry_ok env (e1\<lparr>arp_state := st\<rparr>)"
        if "arp_state e1 \<noteq> ETHARP_STATE_PENDING" "st \<in> {ETHARP_STATE_STABLE, ETHARP_STATE_STABLE_REREQUESTING_2}" for st
        using ok1 that active False by (auto simp: entry_ok_def e1_def not_le)
      have new: "arp_ok env (set_entry i e1 s)"
        "st \<in> {ETHARP_STATE_STABLE, ETHARP_STATE_STABLE_REREQUESTING_2} \<Longrightarrow> arp_state e1 \<noteq> ETHARP_STATE_PENDING \<Longrightarrow>
           arp_ok env (set_entry i (e1\<lparr>arp_state := st\<rparr>) (set_entry i e1 s))" for st
        using ok i active ok1 ok2 [of st] size
        by (auto simp: arp_ok_def e_def [symmetric] entry_key_def e1_def intro!: table_ok_keep)
      show ?thesis
      proof (cases "arp_state e1 = ETHARP_STATE_PENDING")
        case True
        with run active False obtain netif r where
          "etharp_request env netif (arp_ipaddr e1) (set_entry i e1 s) = Some (r, t)"
          by (auto simp: tmr_entry_def e_def [symmetric] e1_def Let_def bind_eq_Some_conv)
        from arp_ok_same [OF etharp_request_same [OF this]] new(1) show ?thesis by simp
      next
        case False2: False
        from run active False False2 new show ?thesis
          by (auto simp: tmr_entry_def e_def [symmetric] e1_def [symmetric] Let_def split: if_splits)
      qed
    qed
  qed
qed

lemma etharp_tmr_ok [arp_keeps]: "etharp_tmr env s = Some t \<Longrightarrow> arp_ok env s \<Longrightarrow> arp_ok env t"
  unfolding etharp_tmr_def by (rule run_all_keeps [where P = "arp_ok env"]) (auto intro: tmr_entry_ok)

lemma etharp_cleanup_netif_ok [arp_keeps]:
  "etharp_cleanup_netif netif s = Some t \<Longrightarrow> arp_ok env s \<Longrightarrow> arp_ok env t"
  unfolding etharp_cleanup_netif_def
  by (rule run_all_keeps [where P = "arp_ok env"])
    (auto simp: cleanup_entry_def Let_def arp_ok_def split: if_splits dest: etharp_free_entry_ok
      [where env = env, unfolded arp_ok_def])

lemma etharp_request_ok [arp_keeps]:
  "etharp_request env netif ip s = Some (r, t) \<Longrightarrow> arp_ok env s \<Longrightarrow> arp_ok env t"
  using etharp_request_same arp_ok_same by blast

lemma etharp_send_ip_ok: "etharp_send_ip env netif p src dst s = Some (r, t) \<Longrightarrow> arp_ok env s \<Longrightarrow> arp_ok env t"
  using etharp_send_ip_same arp_ok_same by blast

text \<open>Requests before the packet leave everything but the state of the entry as it was.\<close>

lemma rerequest_ok:
  assumes "arp_ok env s" "i < ARP_TABLE_SIZE" "arp_state (arp_table s ! i) = ETHARP_STATE_STABLE" "same_table s t"
  shows "arp_ok env (set_entry i ((arp_table t ! i)\<lparr>arp_state := ETHARP_STATE_STABLE_REREQUESTING_1\<rparr>) t)"
  using assms arp_ok_entry [OF assms(1,2)]
  by (auto simp: same_table_def entry_key_def entry_ok_def arp_ok_same [OF assms(4)] intro!: arp_ok_keep)

lemma etharp_output_to_arp_index_ok:
  assumes run: "etharp_output_to_arp_index env netif q i s = Some (r, t)"
    and ok: "arp_ok env s" and i: "i < ARP_TABLE_SIZE"
  shows "arp_ok env t"
proof -
  from run obtain u where u: "etharp_send_ip env netif q (hwaddr (netifs u netif)) (arp_ethaddr (arp_table u ! i)) u = Some (r, t)"
    and cases: "u = s \<or> (arp_state (arp_table s ! i) = ETHARP_STATE_STABLE \<and> (\<exists>v. same_table s v \<and> (u = v \<or>
        u = set_entry i ((arp_table v ! i)\<lparr>arp_state := ETHARP_STATE_STABLE_REREQUESTING_1\<rparr>) v)))"
    by (fastforce simp: etharp_output_to_arp_index_def bind_eq_Some_conv Let_def split: if_splits
        dest: etharp_request_same etharp_request_dst_same)
  have "arp_ok env u"
    using cases ok rerequest_ok [OF ok i] arp_ok_same by blast
  from etharp_send_ip_ok [OF u this] show ?thesis .
qed

lemma append_queue_ok:
  assumes run: "append_queue env i p s = Some (r, t)" and ok: "arp_ok env s" and i: "i < ARP_TABLE_SIZE"
    and pending: "arp_state (arp_table s ! i) = ETHARP_STATE_PENDING"
  shows "arp_ok env t"
proof -
  have sound: "entry_ok env (arp_table s ! i)" by (rule arp_ok_entry [OF ok i])
  note size = arp_ok_size [OF ok]
  have keep: "arp_ok env (set_entry i ((arp_table s ! i)\<lparr>arp_q := q\<rparr>) s)"
    if "length q \<le> (if ARP_QUEUEING env then ARP_QUEUE_LEN else 1)" for q
    using ok i pending sound that by (intro arp_ok_keep) (auto simp: entry_ok_def entry_key_def)
  show ?thesis
  proof (cases "ARP_QUEUEING env")
    case False
    with run have "\<exists>u. same_table s u \<and> t = set_entry i ((arp_table u ! i)\<lparr>arp_q := [p]\<rparr>) u"
      by (cases "arp_q (arp_table s ! i)")
        (auto simp: append_queue_def bind_eq_Some_conv dest!: free_pbuf_same intro: exI [of _ s])
    then obtain u where "same_table s u" "t = set_entry i ((arp_table u ! i)\<lparr>arp_q := [p]\<rparr>) u" by blast
    moreover from this have "arp_ok env (set_entry i ((arp_table s ! i)\<lparr>arp_q := [p]\<rparr>) s)"
      using keep [of "[p]"] False by simp
    ultimately show ?thesis by (simp add: arp_ok_def same_table_def)
  next
    case queueing: True
    let ?s = "s\<lparr>queue_requests := queue_requests s + 1\<rparr>" and ?e = "arp_table s ! i"
    show ?thesis
    proof (cases "memp_arp_queue env (queue_requests s)")
      case False
      with run queueing have "free_pbuf p ?s = Some t"
        by (auto simp: append_queue_def bind_eq_Some_conv)
      from free_pbuf_ok [OF this] ok show ?thesis by simp
    next
      case True
      show ?thesis
      proof (cases "length (arp_q ?e) \<ge> ARP_QUEUE_LEN")
        case False
        with run queueing True have "t = set_entry i (?e\<lparr>arp_q := arp_q ?e @ [p]\<rparr>) ?s"
          by (auto simp: append_queue_def Let_def)
        with keep [of "arp_q ?e @ [p]"] False queueing show ?thesis by (simp add: arp_ok_def)
      next
        case full: True
        let ?q = "tl (arp_q ?e @ [p])"
        from run queueing True full i size obtain old u where
          "free_pbuf old u = Some t" "same_table (set_entry i (?e\<lparr>arp_q := ?q\<rparr>) s) u"
          by (auto simp: append_queue_def Let_def bind_eq_Some_conv same_table_def)
        moreover have "arp_ok env (set_entry i (?e\<lparr>arp_q := ?q\<rparr>) s)"
          using keep [of ?q] sound queueing by (simp add: entry_ok_def)
        ultimately show ?thesis using free_pbuf_ok arp_ok_same by blast
      qed
    qed
  qed
qed

lemma etharp_query_ok [arp_keeps]:
  assumes run: "etharp_query env netif ip q s = Some (r, t)" and ok: "arp_ok env s"
  shows "arp_ok env t"
proof (cases "ip4_addr_isbroadcast ip (netifs s netif) \<or> ip4_addr_ismulticast ip \<or> ip = IPADDR_ANY")
  case True
  with run ok show ?thesis by (auto simp: etharp_query_def)
next
  case False
  with run obtain f u where f: "etharp_find_entry env (Some ip) ETHARP_FLAG_TRY_HARD (Some netif) s = Some (f, u)"
    by (auto simp: etharp_query_def bind_eq_Some_conv)
  note found = etharp_find_entry_ok [OF f ok]
  show ?thesis
  proof (cases f)
    case (Inl err)
    with run False f found(1) show ?thesis by (auto simp: etharp_query_def bind_eq_Some_conv)
  next
    case (Inr i)
    note i = found(2) [OF Inr]
    define e where "e = arp_table u ! i"
    define v where "v = (if arp_state e = ETHARP_STATE_EMPTY
      then set_entry i (e\<lparr>arp_state := ETHARP_STATE_PENDING, arp_netif := Some netif\<rparr>) u else u)"
    have v: "arp_ok env v"
    proof (cases "arp_state e = ETHARP_STATE_EMPTY")
      case True
      note fresh = found(4) [OF Inr True [unfolded e_def]]
      then have "entry_ok env (e\<lparr>arp_state := ETHARP_STATE_PENDING, arp_netif := Some netif\<rparr>)"
        by (auto simp: entry_ok_def e_def fresh_entry_def ARP_MAXAGE_def ARP_MAXPENDING_def)
      with fresh found(1) i True show ?thesis
        by (auto simp: v_def arp_ok_def e_def fresh_entry_def entry_matches_def entry_key_def
            intro!: table_ok_set)
    qed (use found(1) in \<open>simp add: v_def\<close>)
    from run False f Inr obtain r1 w where w: "same_table v w" and
      rest: "(case q of None \<Rightarrow> Some (r1, w)
            | Some q \<Rightarrow>
                if arp_state (arp_table w ! i) \<ge> ETHARP_STATE_STABLE then
                  etharp_send_ip env netif q (hwaddr (netifs w netif)) (arp_ethaddr (arp_table w ! i))
                    (w\<lparr>etharp_cached_entry := i\<rparr>)
                else if arp_state (arp_table w ! i) = ETHARP_STATE_PENDING then do {
                  (p, s) \<leftarrow> take_over env q w;
                  case p of None \<Rightarrow> Some (ERR_MEM, s) | Some p \<Rightarrow> append_queue env i p s
                }
                else Some (r1, w)) = Some (r, t)"
      by (fastforce simp: etharp_query_def bind_eq_Some_conv Let_def v_def e_def split: if_splits
          dest: etharp_request_same)
    have ok_w: "arp_ok env w" using v arp_ok_same [OF w] by simp
    show ?thesis
    proof (cases q)
      case None
      with rest ok_w show ?thesis by simp
    next
      case (Some p)
      show ?thesis
      proof (cases "arp_state (arp_table w ! i) \<ge> ETHARP_STATE_STABLE")
        case True
        with rest Some have "etharp_send_ip env netif p (hwaddr (netifs w netif)) (arp_ethaddr (arp_table w ! i))
                    (w\<lparr>etharp_cached_entry := i\<rparr>) = Some (r, t)" by simp
        from etharp_send_ip_ok [OF this] ok_w i show ?thesis by simp
      next
        case not_stable: False
        show ?thesis
        proof (cases "arp_state (arp_table w ! i) = ETHARP_STATE_PENDING")
          case True
          with rest Some not_stable obtain p' x where x: "take_over env p w = Some (p', x)"
            "(case p' of None \<Rightarrow> Some (ERR_MEM, x) | Some p \<Rightarrow> append_queue env i p x) = Some (r, t)"
            by (auto simp: bind_eq_Some_conv)
          have "arp_ok env x" using arp_ok_same [OF take_over_same [OF x(1)]] ok_w by simp
          moreover have "arp_state (arp_table x ! i) = ETHARP_STATE_PENDING"
            using take_over_same [OF x(1)] True by (simp add: same_table_def)
          ultimately show ?thesis
            using x(2) append_queue_ok [OF _ _ i] by (cases p') auto
        next
          case False
          with rest Some not_stable ok_w show ?thesis by simp
        qed
      qed
    qed
  qed
qed

lemma find_stable_Some:
  "find_stable a k es = Some i \<Longrightarrow>
   k \<le> i \<and> i < k + length es \<and> arp_state (es ! (i - k)) \<ge> ETHARP_STATE_STABLE \<and> arp_ipaddr (es ! (i - k)) = a"
proof (induction es arbitrary: k)
  case (Cons e es)
  show ?case
  proof (cases "arp_state e \<ge> ETHARP_STATE_STABLE \<and> a = arp_ipaddr e")
    case False
    with Cons.prems have "find_stable a (k + 1) es = Some i" by auto
    from Cons.IH [OF this] show ?thesis by (auto simp: nth_Cons')
  qed (use Cons.prems in auto)
qed simp

lemma etharp_output_ok [arp_keeps]:
  assumes run: "etharp_output env netif q ip s = Some (r, t)" and ok: "arp_ok env s"
  shows "arp_ok env t"
proof -
  from run obtain failed hp where hp: "pbuf_header (Some q) (of_nat SIZEOF_ETH_HDR) (pbufs s) = Some (failed, hp)"
    by (auto simp: etharp_output_def bind_eq_Some_conv Let_def)
  let ?s = "s\<lparr>pbufs := hp\<rparr>" and ?e = "arp_table s ! etharp_cached_entry s"
  have ok1: "arp_ok env ?s" "etharp_cached_entry s < ARP_TABLE_SIZE"
    using ok by (simp_all add: arp_ok_def)
  show ?thesis
  proof (cases "failed \<or> ip4_addr_isbroadcast ip (netifs s netif) \<or> ip4_addr_ismulticast ip")
    case True
    with run hp ok1 show ?thesis
      by (auto simp: etharp_output_def Let_def split: if_splits dest: etharp_send_ip_ok)
  next
    case False
    with run hp obtain hop where hop: "next_hop env netif q ip ?s = Some hop"
      by (auto simp: etharp_output_def bind_eq_Some_conv Let_def)
    show ?thesis
    proof (cases hop)
      case None
      with run hp False hop ok1 show ?thesis by (auto simp: etharp_output_def Let_def)
    next
      case (Some a)
      show ?thesis
      proof (cases "arp_state ?e \<ge> ETHARP_STATE_STABLE \<and> a = arp_ipaddr ?e")
        case True
        with run hp False hop Some have "etharp_output_to_arp_index env netif q (etharp_cached_entry s) ?s = Some (r, t)"
          by (auto simp: etharp_output_def Let_def)
        from etharp_output_to_arp_index_ok [OF this] ok1 show ?thesis by simp
      next
        case no_hit: False
        show ?thesis
        proof (cases "find_stable a 0 (arp_table s)")
          case None
          with run hp False hop Some no_hit have "etharp_query env netif a (Some q) ?s = Some (r, t)"
            by (auto simp: etharp_output_def Let_def)
          from etharp_query_ok [OF this] ok1 show ?thesis by simp
        next
          case found: (Some i)
          with run hp False hop Some no_hit
          have "etharp_output_to_arp_index env netif q i (?s\<lparr>etharp_cached_entry := i\<rparr>) = Some (r, t)"
            by (auto simp: etharp_output_def Let_def)
          moreover have "i < ARP_TABLE_SIZE"
            using find_stable_Some [OF found] arp_ok_size [OF ok] by simp
          ultimately show ?thesis
            using etharp_output_to_arp_index_ok ok1 by (metis arp_ok_upd(5))
        qed
      qed
    qed
  qed
qed

lemma etharp_add_static_entry_ok [arp_keeps]:
  "etharp_add_static_entry env ip a s = Some (r, t) \<Longrightarrow> arp_ok env s \<Longrightarrow> arp_ok env t"
  by (auto simp: etharp_add_static_entry_def split: option.splits dest: etharp_update_arp_entry_ok)

lemma etharp_remove_static_entry_ok [arp_keeps]:
  assumes run: "etharp_remove_static_entry env ip s = Some (r, t)" and ok: "arp_ok env s"
  shows "arp_ok env t"
proof -
  from run obtain f u where f: "etharp_find_entry env (Some ip) ETHARP_FLAG_FIND_ONLY None s = Some (f, u)"
    by (auto simp: etharp_remove_static_entry_def bind_eq_Some_conv)
  note found = etharp_find_entry_ok [OF f ok]
  from run f have "t = u \<or> (\<exists>i. f = Inr i \<and> etharp_free_entry i u = Some t)"
    by (auto simp: etharp_remove_static_entry_def split: sum.splits if_splits)
  with found(1,2) show ?thesis
    by (auto simp: arp_ok_def dest: etharp_free_entry_ok [where env = env, unfolded arp_ok_def])
qed

text \<open>
  The life of the table: any of its operations, on any packet, and anything the rest of the
  program does to the other variables.
\<close>

definition arp_init :: "'w arp \<Rightarrow> bool" where
  "arp_init s \<longleftrightarrow> etharp_cached_entry s = 0 \<and>
     arp_table s = replicate ARP_TABLE_SIZE \<lparr>arp_q = [], arp_ipaddr = 0, arp_netif = None,
       arp_ethaddr = ethzero, arp_ctime = 0, arp_state = ETHARP_STATE_EMPTY\<rparr>"

inductive arp_step :: "'w arp_env \<Rightarrow> 'w arp \<Rightarrow> 'w arp \<Rightarrow> bool" for env where
  step_tmr: "etharp_tmr env s = Some t \<Longrightarrow> arp_step env s t"
| step_arp_input: "etharp_arp_input env netif ethaddr p s = Some t \<Longrightarrow> arp_step env s t"
| step_ip_input: "etharp_ip_input env netif p s = Some t \<Longrightarrow> arp_step env s t"
| step_output: "etharp_output env netif p ip s = Some (r, t) \<Longrightarrow> arp_step env s t"
| step_query: "etharp_query env netif ip q s = Some (r, t) \<Longrightarrow> arp_step env s t"
| step_request: "etharp_request env netif ip s = Some (r, t) \<Longrightarrow> arp_step env s t"
| step_add: "etharp_add_static_entry env ip a s = Some (r, t) \<Longrightarrow> arp_step env s t"
| step_remove: "etharp_remove_static_entry env ip s = Some (r, t) \<Longrightarrow> arp_step env s t"
| step_cleanup: "etharp_cleanup_netif netif s = Some t \<Longrightarrow> arp_step env s t"
| step_other: "arp_table t = arp_table s \<Longrightarrow> etharp_cached_entry t = etharp_cached_entry s \<Longrightarrow> arp_step env s t"

lemma arp_init_ok: "arp_init s \<Longrightarrow> arp_ok env s"
  by (simp add: arp_init_def arp_ok_def table_ok_def entry_ok_def ARP_TABLE_SIZE_def ARP_MAXAGE_def)

lemma arp_step_ok: "arp_step env s t \<Longrightarrow> arp_ok env s \<Longrightarrow> arp_ok env t"
  by (induction rule: arp_step.induct) (erule (1) arp_keeps | simp add: arp_ok_def)+

interpretation arp_machine: invariant_of arp_init "arp_step env" "arp_ok env" for env
  by unfold_locales (blast intro: arp_init_ok arp_step_ok)+

section \<open>Frames on the wire\<close>

lemma frame_of_None [simp]: "frame_of None hp = Some []"
  by (simp add: frame_of.simps)

lemma frame_of_Some:
  "nodes hp a = Some n \<Longrightarrow> frame_of (Some a) hp =
     (if in_pbuf n 0 (unat (n_len n))
      then map_option (append (node_read n 0 (unat (n_len n)))) (frame_of (n_next n) hp) else None)"
  by (subst frame_of.simps) (cases "frame_of (n_next n) hp"; simp)

lemma frame_of_cong:
  "linked (nodes hp) p as \<Longrightarrow> (\<And>a. a \<in> set as \<Longrightarrow> nodes hp' a = nodes hp a) \<Longrightarrow> frame_of p hp' = frame_of p hp"
proof (induction as arbitrary: p)
  case (Cons a as)
  obtain n where n: "p = Some a" "nodes hp a = Some n" "linked (nodes hp) (n_next n) as"
    by (rule linked_ConsE [OF Cons.prems(1)])
  have "frame_of (n_next n) hp' = frame_of (n_next n) hp"
    by (rule Cons.IH [OF n(3)]) (use Cons.prems(2) in auto)
  moreover have "nodes hp' a = Some n" using Cons.prems(2) n(2) by simp
  ultimately show ?case by (simp add: n(1,2) frame_of_Some)
qed simp

lemma node_read_write:
  assumes "in_pbuf n 0 len" "length src \<le> len"
  shows "node_read (node_write 0 src n) 0 len = src @ drop (length src) (node_read n 0 len)"
    and "in_pbuf (node_write 0 src n) 0 len"
proof -
  define d where "d = n_payload n - n_base n"
  have "d + len \<le> length (n_mem n)" using assms(1) unfolding in_pbuf_def d_def by linarith
  then have "take len (drop d (mem_write d src (n_mem n))) = src @ drop (length src) (take len (drop d (n_mem n)))"
    using assms(2) by (simp add: mem_write_def drop_take min_def add.commute)
  then show "node_read (node_write 0 src n) 0 len = src @ drop (length src) (node_read n 0 len)"
    by (simp add: node_read_def node_write_def d_def)
  show "in_pbuf (node_write 0 src n) 0 len"
    using assms \<open>d + len \<le> length (n_mem n)\<close> unfolding in_pbuf_def node_write_def
    by (simp add: d_def)
qed

lemma length_node_read: "in_pbuf n off len \<Longrightarrow> length (node_read n off len) = len"
  unfolding node_read_def in_pbuf_def length_take length_drop by linarith

text \<open>Writing a header over the first bytes of a packet.\<close>

lemma frame_of_header:
  assumes "linked (nodes hp) (Some p) as" "nodes hp p = Some n" "length src \<le> unat (n_len n)"
    "frame_of (Some p) hp = Some f" "payload_write p 0 src hp = Some hp'"
  shows "frame_of (Some p) hp' = Some (src @ drop (length src) f)"
proof -
  obtain as' where as: "as = p # as'" "linked (nodes hp) (n_next n) as'" "p \<notin> set as'"
  proof (cases as)
    case (Cons a as')
    from linked_ConsE [OF assms(1) [unfolded Cons]] obtain m where
      "Some p = Some a" "nodes hp a = Some m" "linked (nodes hp) (n_next m) as'" "a \<notin> set as'" by blast
    with assms(2) Cons that show thesis by simp
  qed (use assms(1) in simp)
  from assms(5,2) have hp': "hp' = put_node p (node_write 0 src n) hp"
    by (auto simp: payload_write_def split: if_splits)
  have tail: "frame_of (n_next n) hp' = frame_of (n_next n) hp"
    by (rule frame_of_cong [OF as(2)]) (use as(3) in \<open>auto simp: hp'\<close>)
  from assms(4) have n: "in_pbuf n 0 (unat (n_len n))"
    by (simp add: frame_of_Some [OF assms(2)] split: if_splits)
  have at: "nodes hp' p = Some (node_write 0 src n)" by (simp add: hp')
  from node_read_write [OF n assms(3)] show ?thesis
    using assms(4) n length_node_read [OF n] assms(3) tail
    by (auto simp: frame_of_Some [OF assms(2)] frame_of_Some [OF at])
qed

text \<open>What is sent, and that sending changes nothing else but the packet.\<close>

lemma etharp_send_ipD:
  assumes "etharp_send_ip env netif p src dst s = Some (r, t)" "linked (nodes (pbufs s)) (Some p) as"
    "nodes (pbufs s) p = Some n" "frame_of (Some p) (pbufs s) = Some f"
    "length src = 6" "length dst = 6" "14 \<le> unat (n_len n)"
  obtains w where "frames t = frames s @ [(netif, dst @ src @ [8, 0] @ drop 14 f)]"
    "linkoutput env netif (dst @ src @ [8, 0] @ drop 14 f) (env_state s) = (r, w)" "env_state t = w"
    "pbufs t = put_node p (node_write 0 (dst @ src @ [8, 0]) n) (pbufs s)"
proof -
  have h: "u16_bytes (lwip_htons ETHTYPE_IP) = [8, 0]"
    by (simp add: u16_bytes_def lwip_htons_def ETHTYPE_IP_def)
  let ?h = "dst @ src @ [8, 0]"
  from assms(1) obtain hp where hp: "payload_write p 0 ?h (pbufs s) = Some hp"
    and out: "link_output env netif p (s\<lparr>pbufs := hp\<rparr>) = Some (r, t)"
    by (auto simp: etharp_send_ip_def bind_eq_Some_conv h)
  have "frame_of (Some p) hp = Some (?h @ drop 14 f)"
    using frame_of_header [OF assms(2,3) _ assms(4) hp] assms(5-7) by simp
  moreover from hp assms(3) have "hp = put_node p (node_write 0 ?h n) (pbufs s)"
    by (auto simp: payload_write_def split: if_splits)
  ultimately show thesis
    using out that by (auto elim!: link_outputD)
qed

section \<open>Updating the table\<close>

lemma find_sweep_known:
  assumes ok: "arp_ok env s" and i: "i < ARP_TABLE_SIZE" "arp_state (arp_table s ! i) \<noteq> ETHARP_STATE_EMPTY"
    and m: "entry_matches env (Some ip) (Some netif) (arp_table s ! i)"
  shows "find_sweep env (Some ip) (Some netif) 0 (arp_table s) no_candidates = Inl i"
proof (cases "find_sweep env (Some ip) (Some netif) 0 (arp_table s) no_candidates")
  case (Inl j)
  note size = arp_ok_size [OF ok]
  from find_sweep_start(1) [OF Inl] size have j: "j < ARP_TABLE_SIZE"
    "arp_state (arp_table s ! j) \<noteq> ETHARP_STATE_EMPTY"
    "entry_matches env (Some ip) (Some netif) (arp_table s ! j)" by auto
  with i m arp_ok_entry [OF ok] have "entry_key env (arp_table s ! i) = entry_key env (arp_table s ! j)"
    by (auto simp: entry_key_def entry_matches_def entry_ok_def)
  with ok i j Inl show ?thesis by (auto simp: arp_ok_def table_ok_def)
next
  case (Inr c)
  from find_sweep_start(2) [OF Inr] arp_ok_size [OF ok] i m show ?thesis by simp
qed

definition unicast :: "'w arp \<Rightarrow> nat \<Rightarrow> u32 \<Rightarrow> bool" where
  "unicast s netif ip \<longleftrightarrow> ip \<noteq> IPADDR_ANY \<and> \<not> ip4_addr_isbroadcast ip (netifs s netif) \<and> \<not> ip4_addr_ismulticast ip"

text \<open>The entry after an update; its packets are sent.\<close>

definition updated :: "'w arp_env \<Rightarrow> u8 \<Rightarrow> nat \<Rightarrow> bytes \<Rightarrow> etharp_entry \<Rightarrow> etharp_entry" where
  "updated env fl netif ethaddr e = e\<lparr>arp_state := (if ETHARP_SUPPORT_STATIC_ENTRIES env
        \<and> fl AND ETHARP_FLAG_STATIC_ENTRY \<noteq> 0 then ETHARP_STATE_STATIC else ETHARP_STATE_STABLE),
      arp_netif := Some netif, arp_ethaddr := ethaddr, arp_ctime := 0\<rparr>"

lemma etharp_update_known:
  assumes "arp_ok env s" "i < ARP_TABLE_SIZE" "arp_state (arp_table s ! i) \<noteq> ETHARP_STATE_EMPTY"
    "entry_matches env (Some ip) (Some netif) (arp_table s ! i)" "unicast s netif ip"
  shows "etharp_update_arp_entry env netif ip ethaddr fl s =
    map_option (Pair ERR_OK)
      (send_queue env netif i ethaddr (arp_q (arp_table s ! i))
         (set_entry i (updated env fl netif ethaddr (arp_table s ! i)) s))"
  using assms(5) find_sweep_known [OF assms(1-4)]
  by (cases "send_queue env netif i ethaddr (arp_q (arp_table s ! i))
         (set_entry i (updated env fl netif ethaddr (arp_table s ! i)) s)")
    (simp_all add: etharp_update_arp_entry_def etharp_find_entry_def unicast_def updated_def Let_def)

lemma etharp_update_known_table:
  assumes "arp_ok env s" "i < ARP_TABLE_SIZE" "arp_state (arp_table s ! i) \<noteq> ETHARP_STATE_EMPTY"
    "entry_matches env (Some ip) (Some netif) (arp_table s ! i)" "unicast s netif ip"
    "etharp_update_arp_entry env netif ip ethaddr fl s = Some (r, t)"
  shows "arp_table t = (arp_table s)[i := (updated env fl netif ethaddr (arp_table s ! i))\<lparr>arp_q := []\<rparr>]"
proof -
  let ?e = "updated env fl netif ethaddr (arp_table s ! i)"
  have q: "arp_q ?e = arp_q (arp_table s ! i)" by (simp add: updated_def)
  from assms(6) have "send_queue env netif i ethaddr (arp_q ?e) (set_entry i ?e s) = Some t"
    by (auto simp: etharp_update_known [OF assms(1-5)] q)
  note sent = send_queueD [OF this]
  show ?thesis
  proof (cases "arp_q ?e = []")
    case True
    then have same: "?e\<lparr>arp_q := []\<rparr> = ?e" by (cases ?e) simp
    have "arp_table t = (arp_table s)[i := ?e]" using sent True by simp
    then show ?thesis by (simp only: same)
  qed (use sent assms(2) arp_ok_size [OF assms(1)] in simp)
qed

text \<open>An address without an entry is not entered when only existing entries are to be updated.\<close>

lemma etharp_update_unknown:
  assumes "length (arp_table s) = ARP_TABLE_SIZE"
    "\<forall>e \<in> set (arp_table s). arp_state e \<noteq> ETHARP_STATE_EMPTY \<longrightarrow> \<not> entry_matches env (Some ip) (Some netif) e"
  shows "\<exists>r. etharp_update_arp_entry env netif ip ethaddr ETHARP_FLAG_FIND_ONLY s = Some (r, s)"
proof (cases "find_sweep env (Some ip) (Some netif) 0 (arp_table s) no_candidates")
  case (Inl i)
  from find_sweep_start(1) [OF Inl] assms have False by auto
  then show ?thesis ..
next
  case (Inr c)
  then show ?thesis
    by (simp add: etharp_update_arp_entry_def etharp_find_entry_def ETHARP_FLAG_FIND_ONLY_def)
qed

text \<open>An ARP message that the code accepts, as it lies in a pbuf.\<close>

definition arp_message :: "'w arp \<Rightarrow> nat \<Rightarrow> bytes \<Rightarrow> bool" where
  "arp_message s p m \<longleftrightarrow> (\<exists>n. nodes (pbufs s) p = Some n \<and> SIZEOF_ETHARP_PACKET \<le> unat (n_len n))
     \<and> payload_read p 0 SIZEOF_ETHARP_PACKET (pbufs s) = Some m \<and> arp_header_ok m"

lemma arp_message_input:
  assumes "etharp_arp_input env netif ethaddr p s = Some t" "arp_message s p m"
  obtains s1 r u v where
      "s1 = (if LWIP_AUTOIP env
             then s\<lparr>env_state := autoip_arp_reply env netif (field 14 28 m) (env_state s)\<rparr> else s)"
      "etharp_update_arp_entry env netif (addr_field 28 m) (field 22 6 m)
         (if arp_for_us (addr_field 38 m) (ip_addr (netifs s netif)) then ETHARP_FLAG_TRY_HARD
          else ETHARP_FLAG_FIND_ONLY) s1 = Some (r, u)"
      "arp_act env netif ethaddr p (addr_field 28 m) (arp_for_us (addr_field 38 m) (ip_addr (netifs s netif))) u = Some v"
      "free_pbuf p v = Some t"
proof -
  define s1 where "s1 = (if LWIP_AUTOIP env
             then s\<lparr>env_state := autoip_arp_reply env netif (field 14 28 m) (env_state s)\<rparr> else s)"
  have "netifs s1 = netifs s" by (simp add: s1_def)
  with assms obtain r u v where
        "etharp_update_arp_entry env netif (addr_field 28 m) (field 22 6 m)
         (if arp_for_us (addr_field 38 m) (ip_addr (netifs s netif)) then ETHARP_FLAG_TRY_HARD
          else ETHARP_FLAG_FIND_ONLY) s1 = Some (r, u)"
        "arp_act env netif ethaddr p (addr_field 28 m) (arp_for_us (addr_field 38 m) (ip_addr (netifs s netif))) u = Some v"
        "free_pbuf p v = Some t"
        by (auto simp: arp_message_def etharp_arp_input_def bind_eq_Some_conv Let_def s1_def [symmetric])
  with that s1_def show thesis by blast
qed

text \<open>Searching and updating touch no pbuf as long as nobody waits.\<close>

lemma run_all_Nil_free: "free_etharp_q [] s = Some s"
  by (simp add: free_etharp_q_def)

lemma etharp_find_entry_quiet:
  assumes "etharp_find_entry env ip fl nif s = Some (r, t)" "\<forall>e \<in> set (arp_table s). arp_q e = []"
    "length (arp_table s) = ARP_TABLE_SIZE"
  shows "pbufs t = pbufs s"
  using assms
  by (auto simp: etharp_find_entry_def bind_eq_Some_conv Let_def etharp_free_entry_def run_all_Nil_free
      recycle_def split: sum.splits if_splits option.splits)

lemma etharp_update_quiet:
  assumes "etharp_update_arp_entry env netif ip ethaddr fl s = Some (r, t)" "\<forall>e \<in> set (arp_table s). arp_q e = []"
    and ok: "arp_ok env s"
  shows "pbufs t = pbufs s \<and> frames t = frames s"
proof (cases "unicast s netif ip")
  case True
  with assms(1) obtain f u where f: "etharp_find_entry env (Some ip) fl (Some netif) s = Some (f, u)"
    by (auto simp: etharp_update_arp_entry_def unicast_def bind_eq_Some_conv)
  note found = etharp_find_entry_ok [OF f ok]
  have quiet: "pbufs u = pbufs s"
    by (rule etharp_find_entry_quiet [OF f assms(2) arp_ok_size [OF ok]])
  show ?thesis
  proof (cases f)
    case (Inr i)
    have "arp_q (arp_table u ! i) = []"
    proof (cases "arp_state (arp_table u ! i) = ETHARP_STATE_EMPTY")
      case True
      from found(4) [OF Inr True] show ?thesis by simp
    next
      case False
      from found(3) [OF Inr False] found(2) [OF Inr] assms(2) arp_ok_size [OF ok] show ?thesis by simp
    qed
    with assms(1) True f Inr quiet found(6) show ?thesis
      by (auto simp: etharp_update_arp_entry_def unicast_def Let_def bind_eq_Some_conv)
  qed (use assms(1) True f quiet found(6) in \<open>auto simp: etharp_update_arp_entry_def unicast_def\<close>)
qed (use assms(1) in \<open>auto simp: etharp_update_arp_entry_def unicast_def\<close>)

lemma etharp_update_netifs:
  assumes "etharp_update_arp_entry env netif ip ethaddr fl s = Some (r, t)" "arp_ok env s"
  shows "netifs t = netifs s"
proof (cases "unicast s netif ip")
  case True
  with assms(1) obtain f u where f: "etharp_find_entry env (Some ip) fl (Some netif) s = Some (f, u)"
    by (auto simp: etharp_update_arp_entry_def unicast_def bind_eq_Some_conv)
  from assms(1) True f etharp_find_entry_ok(5) [OF f assms(2)] show ?thesis
    by (cases f) (auto simp: etharp_update_arp_entry_def unicast_def bind_eq_Some_conv Let_def dest!: send_queueD)
qed (use assms(1) in \<open>auto simp: etharp_update_arp_entry_def unicast_def\<close>)

lemma etharp_update_enters:
  assumes run: "etharp_update_arp_entry env netif ip ethaddr fl s = Some (ERR_OK, t)" and ok: "arp_ok env s"
  shows "\<exists>e \<in> set (arp_table t). arp_ipaddr e = ip \<and> arp_state e \<ge> ETHARP_STATE_STABLE
    \<and> arp_ethaddr e = ethaddr \<and> arp_netif e = Some netif \<and> arp_ctime e = 0 \<and> arp_q e = []"
proof -
  from run have uni: "unicast s netif ip"
    by (auto simp: etharp_update_arp_entry_def unicast_def split: if_splits)
  with run obtain f u where f: "etharp_find_entry env (Some ip) fl (Some netif) s = Some (f, u)"
    by (auto simp: etharp_update_arp_entry_def unicast_def bind_eq_Some_conv)
  note found = etharp_find_entry_ok [OF f ok]
  show ?thesis
  proof (cases f)
    case (Inl err)
    with f have "err = ERR_MEM"
      by (auto simp: etharp_find_entry_def bind_eq_Some_conv Let_def split: sum.splits if_splits option.splits)
    with run uni f Inl show ?thesis by (simp add: etharp_update_arp_entry_def unicast_def)
  next
    case (Inr i)
    let ?e = "updated env fl netif ethaddr (arp_table u ! i)"
    from run uni f Inr have "send_queue env netif i ethaddr (arp_q ?e) (set_entry i ?e u) = Some t"
      by (auto simp: etharp_update_arp_entry_def unicast_def bind_eq_Some_conv updated_def Let_def)
    note sent = send_queueD [OF this]
    have i: "i < length (arp_table u)"
      using found(1,2) Inr by (simp add: arp_ok_size)
    have ip: "arp_ipaddr (arp_table u ! i) = ip"
    proof (cases "arp_state (arp_table u ! i) = ETHARP_STATE_EMPTY")
      case True
      from found(4) [OF Inr True] show ?thesis by (auto simp: fresh_entry_def)
    next
      case False
      from found(3) [OF Inr False] show ?thesis by (auto simp: entry_matches_def)
    qed
    have "arp_table t ! i = ?e\<lparr>arp_q := []\<rparr> \<and> length (arp_table t) = length (arp_table u)"
      using sent i by (cases "arp_q ?e = []") simp_all
    with i have "?e\<lparr>arp_q := []\<rparr> \<in> set (arp_table t)" by (metis nth_mem)
    then show ?thesis
      by (rule rev_bexI) (simp add: updated_def ip less_eq_etharp_state_def)
  qed
qed

lemma etharp_update_succeeds:
  assumes "etharp_update_arp_entry env netif ip ethaddr ETHARP_FLAG_TRY_HARD s = Some (r, t)" "arp_ok env s"
    "unicast s netif ip" "\<not> ETHARP_SUPPORT_STATIC_ENTRIES env"
  shows "r = ERR_OK"
proof -
  from assms(1,3) obtain f u where f: "etharp_find_entry env (Some ip) ETHARP_FLAG_TRY_HARD (Some netif) s = Some (f, u)"
    by (auto simp: etharp_update_arp_entry_def unicast_def bind_eq_Some_conv)
  show ?thesis
  proof (cases f)
    case (Inl err)
    with f obtain c where c: "find_sweep env (Some ip) (Some netif) 0 (arp_table s) no_candidates = Inr c"
      "\<not> empty_entry c < ARP_TABLE_SIZE" "recycle c = None"
      by (auto simp: etharp_find_entry_def bind_eq_Some_conv Let_def ETHARP_FLAG_TRY_HARD_def
          ETHARP_FLAG_FIND_ONLY_def split: sum.splits if_splits option.splits)
    note size = arp_ok_size [OF assms(2)]
    have "seen env (arp_table s) c" using find_sweep_start(2) [OF c(1)] size by simp
    from recycle_cheapest [OF this size, of "arp_table s ! 0"] c(2,3) size assms(4) show ?thesis
      by (simp add: ARP_TABLE_SIZE_def)
  qed (use assms(1,3) f in \<open>auto simp: etharp_update_arp_entry_def unicast_def bind_eq_Some_conv Let_def\<close>)
qed

lemma length_payload_read: "payload_read p off len hp = Some m \<Longrightarrow> length m = len"
  by (auto simp: payload_read_def length_node_read split: option.splits if_splits)

lemma length_field: "off + len \<le> length m \<Longrightarrow> length (field off len m) = len"
  by (simp add: field_def)

lemma field_append: "field off (j + k) m = field off j m @ field (off + j) k m"
  by (simp add: field_def take_add add.commute)

lemma arp_bytes:
  "u16_bytes (lwip_htons HWTYPE_ETHERNET) = [0, 1]" "u16_bytes (lwip_htons ETHTYPE_IP) = [8, 0]"
  "u16_bytes (lwip_htons ETHTYPE_ARP) = [8, 6]"
  "u16_bytes (lwip_htons ARP_REQUEST) = [0, 1]" "u16_bytes (lwip_htons ARP_REPLY) = [0, 2]"
  by (simp_all add: u16_bytes_def lwip_htons_def HWTYPE_ETHERNET_def ETHTYPE_IP_def ETHTYPE_ARP_def
      ARP_REQUEST_def ARP_REPLY_def)

lemma field_pair: "off + 1 < length m \<Longrightarrow> field off 2 m = [m ! off, m ! (off + 1)]"
  by (simp add: field_def numeral_2_eq_2 take_Suc_conv_app_nth)

lemma arp_header_bytes:
  assumes "arp_header_ok m" "length m = SIZEOF_ETHARP_PACKET"
  shows "field 12 8 m = field 12 2 m @ [0, 1, 8, 0, 6, 4]"
proof -
  have len: "length m = 42"
    using assms(2) by (simp add: SIZEOF_ETHARP_PACKET_def SIZEOF_ETH_HDR_def SIZEOF_ETHARP_HDR_def)
  have "field 12 8 m = field 12 2 m @ field 14 2 m @ field 16 2 m @ field 18 2 m"
    using field_append [of 12 2 6 m] field_append [of 14 2 4 m] field_append [of 16 2 2 m] by simp
  moreover have "field 18 2 m = [6, 4]"
    using assms(1) len by (simp add: field_pair arp_header_ok_def)
  ultimately show ?thesis
    using assms(1) by (simp add: arp_header_ok_def arp_bytes)
qed

text \<open>Room for the Ethernet header in front of an IP packet.\<close>

definition header_room :: "nat \<Rightarrow> pnode \<Rightarrow> bool" where
  "header_room q n \<longleftrightarrow> (n_type n = PBUF_RAM \<or> n_type n = PBUF_POOL) \<and> n_base n = q + SIZEOF_STRUCT_PBUF
     \<and> n_base n + SIZEOF_ETH_HDR \<le> n_payload n \<and> unat (n_len n) + SIZEOF_ETH_HDR < 65536"

lemma frame_of_reveal:
  assumes "linked (nodes hp) (Some q) as" "nodes hp q = Some n" "header_room q n" "frame_of (Some q) hp = Some f"
  obtains hp' n' h where "pbuf_header (Some q) (of_nat SIZEOF_ETH_HDR) hp = Some (False, hp')"
    "nodes hp' = (nodes hp)(q := Some n')" "linked (nodes hp') (Some q) as" "14 \<le> unat (n_len n')"
    "frame_of (Some q) hp' = Some (h @ f)" "length h = 14"
proof -
  have k: "sint (of_nat SIZEOF_ETH_HDR :: u16) = 14" "(of_nat SIZEOF_ETH_HDR :: u16) = 14"
    by (simp_all add: SIZEOF_ETH_HDR_def)
  let ?n = "n\<lparr>n_payload := nat (int (n_payload n) - 14), n_len := n_len n + 14, n_tot_len := n_tot_len n + 14\<rparr>"
  let ?hp = "put_node q ?n hp"
  have n: "n_base n + 14 \<le> n_payload n" "unat (n_len n) + 14 < 65536" "n_base n = q + SIZEOF_STRUCT_PBUF"
    using assms(3) by (simp_all add: header_room_def SIZEOF_ETH_HDR_def)
  have hdr: "pbuf_header (Some q) (of_nat SIZEOF_ETH_HDR) hp = Some (False, ?hp)"
    using pbuf_header_reveal [OF assms(2), of "of_nat SIZEOF_ETH_HDR"] assms(3) k n
    by (auto simp: header_room_def)
  have len: "unat (n_len n + 14) = unat (n_len n) + 14"
    using n(2) by (subst unat_add_nowrap) simp_all
  obtain as' where as: "as = q # as'" "linked (nodes hp) (n_next n) as'" "q \<notin> set as'"
  proof (cases as)
    case (Cons a as')
    from linked_ConsE [OF assms(1) [unfolded Cons]] obtain m where
      "Some q = Some a" "nodes hp a = Some m" "linked (nodes hp) (n_next m) as'" "a \<notin> set as'" by blast
    with assms(2) Cons that show thesis by simp
  qed (use assms(1) in simp)
  have tail: "frame_of (n_next n) ?hp = frame_of (n_next n) hp"
    by (rule frame_of_cong [OF as(2)]) (use as(3) in auto)
  have inp: "in_pbuf n 0 (unat (n_len n))"
    using assms(4) by (simp add: frame_of_Some [OF assms(2)] split: if_splits)
  have inp': "in_pbuf ?n 0 (unat (n_len n + 14))"
    using inp n(1) len by (auto simp: in_pbuf_def nat_diff_distrib)
  define d where "d = n_payload n - n_base n"
  have d: "14 \<le> d" "nat (int (n_payload n) - 14) - n_base n = d - 14"
    using n(1) by (auto simp: d_def nat_diff_distrib)
  have "take (unat (n_len n) + 14) (drop (d - 14) (n_mem n))
      = take 14 (drop (d - 14) (n_mem n)) @ take (unat (n_len n)) (drop d (n_mem n))"
    using d(1) take_add [of 14 "unat (n_len n)" "drop (d - 14) (n_mem n)"] by (simp add: add.commute)
  then have read: "node_read ?n 0 (unat (n_len n + 14)) = take 14 (drop (d - 14) (n_mem n)) @ node_read n 0 (unat (n_len n))"
    by (simp add: node_read_def len d(2)) (simp add: d_def)
  have "length (take 14 (drop (d - 14) (n_mem n))) = 14"
    using inp d(1) unfolding in_pbuf_def d_def length_take length_drop by linarith
  moreover have "nodes ?hp q = Some ?n" by simp
  moreover have "frame_of (Some q) ?hp = Some (take 14 (drop (d - 14) (n_mem n)) @ f)"
    using assms(4) inp inp' tail read
    by (auto simp: frame_of_Some [OF assms(2)] frame_of_Some [of ?hp q ?n])
  moreover have "linked (nodes ?hp) (Some q) as"
    using as by simp
  ultimately show thesis
    using that [OF hdr, of ?n] len by simp
qed

text \<open>Where a packet for an address goes on the link, when that is known and not about to expire.\<close>

definition link_destination :: "'w arp \<Rightarrow> nat \<Rightarrow> u32 \<Rightarrow> bytes \<Rightarrow> bool" where
  "link_destination s netif ip dst \<longleftrightarrow>
     (let n = netifs s netif; b = u32_bytes ip
      in if ip4_addr_isbroadcast ip n then dst = replicate 6 0xff
         else if ip4_addr_ismulticast ip then dst = [0x01, 0x00, 0x5e, b ! 1 AND 0x7f, b ! 2, b ! 3]
         else let local = ip4_addr_netcmp ip (ip_addr n) (netmask n) \<or> ip4_addr_islinklocal ip
           in (local \<or> gw n \<noteq> IPADDR_ANY)
              \<and> (\<exists>e \<in> set (arp_table s). arp_state e \<ge> ETHARP_STATE_STABLE
                   \<and> arp_ipaddr e = (if local then ip else gw n) \<and> dst = arp_ethaddr e
                   \<and> (arp_state e = ETHARP_STATE_STABLE \<longrightarrow> arp_ctime e < ARP_AGE_REREQUEST_USED_UNICAST)))"

lemma stable_not_empty: "arp_state e \<ge> ETHARP_STATE_STABLE \<Longrightarrow> arp_state e \<noteq> ETHARP_STATE_EMPTY"
  by (auto simp: less_eq_etharp_state_def)

lemma find_stable_None: "find_stable a k es = None \<Longrightarrow> e \<in> set es \<Longrightarrow> \<not> (arp_state e \<ge> ETHARP_STATE_STABLE \<and> a = arp_ipaddr e)"
  by (induction es arbitrary: k) (auto split: if_splits)

lemma one_entry_per_address:
  assumes "arp_ok env s" "\<not> ETHARP_TABLE_MATCH_NETIF env" "i < ARP_TABLE_SIZE" "j < ARP_TABLE_SIZE"
    "arp_state (arp_table s ! i) \<ge> ETHARP_STATE_STABLE" "arp_state (arp_table s ! j) \<ge> ETHARP_STATE_STABLE"
    "arp_ipaddr (arp_table s ! i) = arp_ipaddr (arp_table s ! j)"
  shows "i = j"
  using assms stable_not_empty [OF assms(5)] stable_not_empty [OF assms(6)]
  by (auto simp: arp_ok_def table_ok_def entry_key_def)

lemma linked_node_write:
  assumes "linked ns p as" "ns a = Some n" "n_next n' = n_next n"
  shows "linked (ns(a := Some n')) p as"
  using assms(1)
proof (induction as arbitrary: p)
  case (Cons b as)
  from linked_ConsE [OF Cons.prems] obtain m where "p = Some b" "ns b = Some m" "linked ns (n_next m) as" by blast
  with Cons.IH assms(2,3) show ?case by auto
qed simp

lemma etharp_output_direct:
  assumes "arp_state (arp_table s ! i) = ETHARP_STATE_STABLE \<Longrightarrow> arp_ctime (arp_table s ! i) < ARP_AGE_REREQUEST_USED_UNICAST"
  shows "etharp_output_to_arp_index env netif q i s
    = etharp_send_ip env netif q (hwaddr (netifs s netif)) (arp_ethaddr (arp_table s ! i)) s"
proof -
  have "ARP_AGE_REREQUEST_USED_UNICAST < ARP_AGE_REREQUEST_USED_BROADCAST"
    by (simp add: ARP_AGE_REREQUEST_USED_UNICAST_def ARP_AGE_REREQUEST_USED_BROADCAST_def ARP_MAXAGE_def)
  with assms show ?thesis
    by (auto simp: etharp_output_to_arp_index_def Let_def not_le dest: less_trans)
qed

section \<open>Properties\<close>

text \<open>C19: In every reachable state the table has ten entries, no two of them in use are for the
  same address, packets wait only at pending entries and at most as many as configured,
  pending entries are younger than five ticks and all but static ones younger than 300.\<close>

theorem arp_table_invariant:
  assumes "reachable arp_init (arp_step env) s"
  shows "table_ok env (arp_table s) \<and> etharp_cached_entry s < ARP_TABLE_SIZE"
  using arp_machine.reachable_inv [OF assms] by (simp_all add: arp_ok_def)

text \<open>C23: When no entry is for the address, the cheapest entry of the table is recycled, and the
  search fails only if all entries are static.\<close>

theorem etharp_find_entry_cheapest:
  assumes "length (arp_table s) = ARP_TABLE_SIZE"
    and "\<forall>e \<in> set (arp_table s). arp_state e \<noteq> ETHARP_STATE_EMPTY \<longrightarrow> \<not> entry_matches env (Some ip) (Some netif) e"
    and "etharp_find_entry env (Some ip) ETHARP_FLAG_TRY_HARD (Some netif) s = Some (r, t)"
  shows "case r of
      Inl err \<Rightarrow> err = ERR_MEM \<and> t = s \<and> (\<forall>e \<in> set (arp_table s). arp_state e = ETHARP_STATE_STATIC)
    | Inr i \<Rightarrow> i < ARP_TABLE_SIZE \<and> fresh_entry env (Some ip) (Some netif) (arp_table t ! i)
        \<and> (\<forall>j < ARP_TABLE_SIZE. j \<noteq> i \<longrightarrow> arp_table t ! j = arp_table s ! j)
        \<and> (\<forall>j < ARP_TABLE_SIZE. price env (arp_table s ! i) \<le> price env (arp_table s ! j))"
proof (cases "find_sweep env (Some ip) (Some netif) 0 (arp_table s) no_candidates")
  case (Inl k)
  from find_sweep_start(1) [OF Inl] assms(2) have False by auto
  then show ?thesis ..
next
  case (Inr c)
  have seen: "seen env (arp_table s) c"
    using find_sweep_start(2) [OF Inr] assms(1) by simp
  note cheap = recycle_cheapest [OF seen assms(1)]
  show ?thesis
  proof (cases r)
    case (Inl err)
    with assms(3) Inr have "\<not> empty_entry c < ARP_TABLE_SIZE" "recycle c = None" "err = ERR_MEM" "t = s"
      by (auto simp: etharp_find_entry_def bind_eq_Some_conv Let_def ETHARP_FLAG_TRY_HARD_def
          ETHARP_FLAG_FIND_ONLY_def split: if_splits option.splits)
    with Inl cheap show ?thesis by fastforce
  next
    case r: (Inr i)
    from assms(3) have "etharp_find_entry env (Some ip) ETHARP_FLAG_TRY_HARD (Some netif) s = Some (Inr i, t)"
      by (simp add: r)
    from etharp_find_entry_new [OF this Inr assms(1)] obtain e where e: "i < ARP_TABLE_SIZE"
      "arp_table t = (arp_table s)[i := e]" "fresh_entry env (Some ip) (Some netif) e"
      "if empty_entry c < ARP_TABLE_SIZE then i = empty_entry c \<and> pbufs t = pbufs s
       else ETHARP_FLAG_TRY_HARD AND ETHARP_FLAG_TRY_HARD \<noteq> 0 \<and> recycle c = Some i"
      by metis
    have "price env (arp_table s ! i) \<le> price env (arp_table s ! j)" if "j < ARP_TABLE_SIZE" for j
    proof (cases "empty_entry c < ARP_TABLE_SIZE")
      case True
      with seen e(1,4) have "arp_state (arp_table s ! i) = ETHARP_STATE_EMPTY"
        by (auto simp: seen_def first_empty_def)
      then show ?thesis by (simp add: price_def)
    next
      case False
      from cheap [of "arp_table s ! j"] False e(4) that assms(1) show ?thesis by simp
    qed
    with e r assms(1) show ?thesis by (auto simp: nth_list_update)
  qed
qed

text \<open>A tick, seen at one entry.\<close>

definition ticked :: "'w arp_env \<Rightarrow> etharp_entry \<Rightarrow> etharp_entry \<Rightarrow> bool" where
  "ticked env e e' \<longleftrightarrow>
     (if arp_state e = ETHARP_STATE_EMPTY \<or> ETHARP_SUPPORT_STATIC_ENTRIES env \<and> arp_state e = ETHARP_STATE_STATIC
      then e' = e
      else if arp_ctime e + 1 \<ge> ARP_MAXAGE \<or> arp_state e = ETHARP_STATE_PENDING \<and> arp_ctime e + 1 \<ge> ARP_MAXPENDING
      then arp_state e' = ETHARP_STATE_EMPTY \<and> arp_q e' = []
      else arp_ctime e' = arp_ctime e + 1 \<and> arp_ipaddr e' = arp_ipaddr e \<and> arp_q e' = arp_q e
        \<and> arp_state e' = (if arp_state e = ETHARP_STATE_STABLE_REREQUESTING_1 then ETHARP_STATE_STABLE_REREQUESTING_2
                          else if arp_state e = ETHARP_STATE_STABLE_REREQUESTING_2 then ETHARP_STATE_STABLE
                          else arp_state e))"

lemma tmr_entry_ticked:
  assumes run: "tmr_entry env i s = Some t" and i: "i < length (arp_table s)"
  shows "length (arp_table t) = length (arp_table s)" "ticked env (arp_table s ! i) (arp_table t ! i)"
    "j \<noteq> i \<Longrightarrow> arp_table t ! j = arp_table s ! j"
proof -
  define e where "e = arp_table s ! i"
  define e1 where "e1 = e\<lparr>arp_ctime := arp_ctime e + 1\<rparr>"
  have "\<exists>e'. arp_table t = (arp_table s)[i := e'] \<and> ticked env e e'"
  proof (cases "arp_state e \<noteq> ETHARP_STATE_EMPTY
      \<and> (ETHARP_SUPPORT_STATIC_ENTRIES env \<longrightarrow> arp_state e \<noteq> ETHARP_STATE_STATIC)")
    case False
    with run i show ?thesis
      by (auto simp: tmr_entry_def e_def ticked_def intro: exI [of _ "arp_table s ! i"])
  next
    case active: True
    show ?thesis
    proof (cases "arp_ctime e1 \<ge> ARP_MAXAGE \<or> arp_state e1 = ETHARP_STATE_PENDING \<and> arp_ctime e1 \<ge> ARP_MAXPENDING")
      case True
      with run active have "etharp_free_entry i (set_entry i e1 s) = Some t"
        by (auto simp: tmr_entry_def e_def [symmetric] e1_def Let_def)
      from etharp_free_entryD(1) [OF this] show ?thesis
        using active True i by (auto simp: ticked_def e1_def)
    next
      case False
      show ?thesis
      proof (cases "arp_state e1 = ETHARP_STATE_PENDING")
        case True
        with run active False obtain netif r where
          "etharp_request env netif (arp_ipaddr e1) (set_entry i e1 s) = Some (r, t)"
          by (auto simp: tmr_entry_def e_def [symmetric] e1_def Let_def bind_eq_Some_conv)
        from etharp_request_same [OF this] active False True i show ?thesis
          by (auto simp: same_table_def ticked_def e1_def)
      next
        case False2: False
        from run active False False2 i show ?thesis
          by (auto simp: tmr_entry_def e_def [symmetric] e1_def Let_def ticked_def split: if_splits)
      qed
    qed
  qed
  then obtain e' where e': "arp_table t = (arp_table s)[i := e']" "ticked env e e'" by blast
  then show "length (arp_table t) = length (arp_table s)" "ticked env (arp_table s ! i) (arp_table t ! i)"
    using i by (simp_all add: e_def)
  show "arp_table t ! j = arp_table s ! j" if "j \<noteq> i" using e' that by simp
qed

lemma run_tmr_ticked:
  "run_all (tmr_entry env) xs s = Some t \<Longrightarrow> distinct xs \<Longrightarrow> \<forall>i \<in> set xs. i < length (arp_table s) \<Longrightarrow>
   length (arp_table t) = length (arp_table s)
   \<and> (\<forall>i. if i \<in> set xs then ticked env (arp_table s ! i) (arp_table t ! i) else arp_table t ! i = arp_table s ! i)"
proof (induction xs arbitrary: s)
  case (Cons x xs)
  from Cons.prems(1) obtain u where u: "tmr_entry env x s = Some u" "run_all (tmr_entry env) xs u = Some t"
    by (auto simp: bind_eq_Some_conv)
  from Cons.prems(3) have x: "x < length (arp_table s)" by simp
  note tick = tmr_entry_ticked [OF u(1) x]
  have "length (arp_table t) = length (arp_table u)
   \<and> (\<forall>i. if i \<in> set xs then ticked env (arp_table u ! i) (arp_table t ! i) else arp_table t ! i = arp_table u ! i)"
    by (rule Cons.IH [OF u(2)]) (use Cons.prems tick(1) in auto)
  moreover have "x \<notin> set xs" using Cons.prems(2) by simp
  ultimately show ?case using tick by (metis set_ConsD list.set_intros)
qed simp

lemma etharp_tmr_ticked:
  assumes "etharp_tmr env s = Some t" "length (arp_table s) = ARP_TABLE_SIZE"
  shows "length (arp_table t) = ARP_TABLE_SIZE"
    "i < ARP_TABLE_SIZE \<Longrightarrow> ticked env (arp_table s ! i) (arp_table t ! i)"
  using run_tmr_ticked [OF assms(1) [unfolded etharp_tmr_def]] assms(2) by (auto split: if_splits)

lemma unat_Suc_16: "c < ARP_MAXAGE \<Longrightarrow> unat (c + 1) = Suc (unat c)"
  by (subst unat_add_nowrap) (simp_all add: ARP_MAXAGE_def word_less_nat_alt)

lemma ticks_age:
  assumes "run_all (\<lambda>_. etharp_tmr env) (replicate k ()) s = Some t" "arp_ok env s" "i < ARP_TABLE_SIZE"
    and "arp_state (arp_table s ! i) \<noteq> ETHARP_STATE_STATIC"
  shows "arp_ok env t \<and> (arp_state (arp_table t ! i) = ETHARP_STATE_EMPTY
    \<or> arp_state (arp_table s ! i) \<noteq> ETHARP_STATE_EMPTY \<and> arp_state (arp_table t ! i) \<noteq> ETHARP_STATE_STATIC
      \<and> (arp_state (arp_table t ! i) = ETHARP_STATE_PENDING \<longleftrightarrow> arp_state (arp_table s ! i) = ETHARP_STATE_PENDING)
      \<and> unat (arp_ctime (arp_table t ! i)) = unat (arp_ctime (arp_table s ! i)) + k)"
  using assms
proof (induction k arbitrary: s)
  case (Suc k)
  from Suc.prems(1) obtain u where u: "etharp_tmr env s = Some u"
    "run_all (\<lambda>_. etharp_tmr env) (replicate k ()) u = Some t"
    by (auto simp: bind_eq_Some_conv)
  have ok: "arp_ok env u" by (rule etharp_tmr_ok [OF u(1) Suc.prems(2)])
  note tick = etharp_tmr_ticked(2) [OF u(1) arp_ok_size [OF Suc.prems(2)] Suc.prems(3)]
  have young: "arp_ctime (arp_table s ! i) < ARP_MAXAGE"
    using arp_ok_entry [OF Suc.prems(2,3)] Suc.prems(4) by (simp add: entry_ok_def)
  have u_cases: "arp_state (arp_table u ! i) = ETHARP_STATE_EMPTY
    \<or> arp_state (arp_table s ! i) \<noteq> ETHARP_STATE_EMPTY \<and> arp_state (arp_table u ! i) \<noteq> ETHARP_STATE_STATIC
      \<and> (arp_state (arp_table u ! i) = ETHARP_STATE_PENDING \<longleftrightarrow> arp_state (arp_table s ! i) = ETHARP_STATE_PENDING)
      \<and> unat (arp_ctime (arp_table u ! i)) = Suc (unat (arp_ctime (arp_table s ! i)))"
    using tick Suc.prems(4) unat_Suc_16 [OF young] by (auto simp: ticked_def split: if_splits)
  then have "arp_state (arp_table u ! i) \<noteq> ETHARP_STATE_STATIC" by auto
  from Suc.IH [OF u(2) ok Suc.prems(3) this] u_cases show ?case by auto
qed simp


text \<open>Whatever ARP message names a known host as its sender, the entry of that host takes over the
  address from the message, is young again and stable, even when it was static; no other
  entry changes.\<close>

theorem arp_message_updates_sender:
  assumes "arp_ok env s" "etharp_arp_input env netif ethaddr p s = Some t"
    "arp_message s p m" "unicast s netif (addr_field 28 m)"
    "i < ARP_TABLE_SIZE" "arp_state (arp_table s ! i) \<noteq> ETHARP_STATE_EMPTY"
    "entry_matches env (Some (addr_field 28 m)) (Some netif) (arp_table s ! i)"
  shows "arp_table t = (arp_table s)[i := (arp_table s ! i)\<lparr>arp_state := ETHARP_STATE_STABLE,
    arp_netif := Some netif, arp_ethaddr := field 22 6 m, arp_ctime := 0, arp_q := []\<rparr>]"
proof -
  have ok: "arp_ok env s" by (rule assms(1))
  from arp_message_input [OF assms(2,3)] obtain s1 r u v where
    s1: "s1 = (if LWIP_AUTOIP env
             then s\<lparr>env_state := autoip_arp_reply env netif (field 14 28 m) (env_state s)\<rparr> else s)" and
    u: "etharp_update_arp_entry env netif (addr_field 28 m) (field 22 6 m)
         (if arp_for_us (addr_field 38 m) (ip_addr (netifs s netif)) then ETHARP_FLAG_TRY_HARD
          else ETHARP_FLAG_FIND_ONLY) s1 = Some (r, u)" and
    v: "arp_act env netif ethaddr p (addr_field 28 m) (arp_for_us (addr_field 38 m) (ip_addr (netifs s netif))) u = Some v" and
    t: "free_pbuf p v = Some t" by metis
  have same: "arp_table t = arp_table u"
    using arp_act_same [OF v] free_pbuf_same [OF t] by (simp add: same_table_def)
  have "arp_ok env s1" "arp_table s1 = arp_table s" "unicast s1 netif (addr_field 28 m)"
    using ok assms(4) by (simp_all add: s1 unicast_def)
  with etharp_update_known_table [OF _ _ _ _ _ u, of i] assms(5-7) same show ?thesis
    by (cases "arp_for_us (addr_field 38 m) (ip_addr (netifs s netif))")
      (simp_all add: updated_def ETHARP_FLAG_TRY_HARD_def ETHARP_FLAG_FIND_ONLY_def ETHARP_FLAG_STATIC_ENTRY_def)
qed

text \<open>An ARP message from an unknown host that is not meant for us changes neither the table nor the
  wire; only the packet is freed.\<close>

theorem arp_message_not_for_us:
  assumes "arp_ok env s" "etharp_arp_input env netif ethaddr p s = Some t"
    "\<forall>m. arp_message s p m \<longrightarrow> \<not> arp_for_us (addr_field 38 m) (ip_addr (netifs s netif))
       \<and> (\<forall>e \<in> set (arp_table s). arp_state e \<noteq> ETHARP_STATE_EMPTY \<longrightarrow>
            \<not> entry_matches env (Some (addr_field 28 m)) (Some netif) e)"
  shows "arp_table t = arp_table s \<and> frames t = frames s
    \<and> (\<exists>c. pbuf_free (Some p) (pbufs s) = Some (c, pbufs t))"
  using assms(2)
proof (cases rule: etharp_arp_inputE)
  case 1
  then show ?thesis by (auto simp: free_pbuf_def)
next
  case (2 n m s1 r u v)
  have ok: "arp_ok env s" by (rule assms(1))
  from 2(1-4) have "arp_message s p m" by (auto simp: arp_message_def)
  with assms(3) have not_us: "\<not> arp_for_us (addr_field 38 m) (ip_addr (netifs s netif))"
    and unknown: "\<forall>e \<in> set (arp_table s). arp_state e \<noteq> ETHARP_STATE_EMPTY \<longrightarrow>
            \<not> entry_matches env (Some (addr_field 28 m)) (Some netif) e" by blast+
  have s1: "arp_table s1 = arp_table s" "pbufs s1 = pbufs s" "frames s1 = frames s"
    using 2(5) by simp_all
  have "u = s1"
    using etharp_update_unknown [of s1 env "addr_field 28 m" netif "field 22 6 m"] s1(1) unknown
      arp_ok_size [OF ok] 2(6) not_us by auto
  moreover from 2(7) not_us have "arp_table v = arp_table u \<and> pbufs v = pbufs u \<and> frames v = frames u"
    by (auto simp: arp_act_def bind_eq_Some_conv split: if_splits)
  ultimately show ?thesis
    using s1 2(8) by (auto simp: free_pbuf_def)
qed

text \<open>C22: A request for our address is answered with a reply from our hardware address to that of the
  sender, in the rest of the packet that brought the request; the sender is in the table
  afterwards. Here nobody waits for an answer of ours.\<close>

theorem arp_request_answered:
  assumes "arp_ok env s" "etharp_arp_input env netif ethaddr p s = Some t"
    "arp_message s p m" "field 20 2 m = [0, 1]" "length ethaddr = 6"
    "arp_for_us (addr_field 38 m) (ip_addr (netifs s netif))"
    "linked (nodes (pbufs s)) (Some p) as" "frame_of (Some p) (pbufs s) = Some f"
    "\<forall>e \<in> set (arp_table s). arp_q e = []" "\<not> LWIP_AUTOIP env"
  shows "frames t = frames s @ [(netif,
      field 22 6 m @ ethaddr @ field 12 2 m @ [0, 1, 8, 0, 6, 4, 0, 2] @ ethaddr
      @ u32_bytes (ip_addr (netifs s netif)) @ field 22 6 m @ field 28 4 m @ drop 42 f)]
    \<and> (unicast s netif (addr_field 28 m) \<and> \<not> ETHARP_SUPPORT_STATIC_ENTRIES env \<longrightarrow>
         (\<exists>e \<in> set (arp_table t). arp_ipaddr e = addr_field 28 m \<and> arp_state e \<ge> ETHARP_STATE_STABLE
            \<and> arp_ethaddr e = field 22 6 m))"
proof -
  have ok: "arp_ok env s" by (rule assms(1))
  let ?ip = "ip_addr (netifs s netif)"
  from arp_message_input [OF assms(2,3)] obtain s1 r u v where
    "s1 = (if LWIP_AUTOIP env
             then s\<lparr>env_state := autoip_arp_reply env netif (field 14 28 m) (env_state s)\<rparr> else s)"
    "etharp_update_arp_entry env netif (addr_field 28 m) (field 22 6 m)
         (if arp_for_us (addr_field 38 m) ?ip then ETHARP_FLAG_TRY_HARD else ETHARP_FLAG_FIND_ONLY) s1 = Some (r, u)"
    "arp_act env netif ethaddr p (addr_field 28 m) (arp_for_us (addr_field 38 m) ?ip) u = Some v"
    and t: "free_pbuf p v = Some t" by metis
  with assms(6,10) have
    u: "etharp_update_arp_entry env netif (addr_field 28 m) (field 22 6 m) ETHARP_FLAG_TRY_HARD s = Some (r, u)" and
    v: "arp_act env netif ethaddr p (addr_field 28 m) True u = Some v" by simp_all
  note quiet = etharp_update_quiet [OF u assms(9) ok]
  have ifs: "netifs u = netifs s" by (rule etharp_update_netifs [OF u ok])
  from assms(3) obtain n where n: "nodes (pbufs s) p = Some n" "SIZEOF_ETHARP_PACKET \<le> unat (n_len n)"
    and m: "payload_read p 0 SIZEOF_ETHARP_PACKET (pbufs s) = Some m" "arp_header_ok m"
    by (auto simp: arp_message_def)
  have len: "length m = 42"
    using length_payload_read [OF m(1)] by (simp add: SIZEOF_ETHARP_PACKET_def SIZEOF_ETH_HDR_def SIZEOF_ETHARP_HDR_def)
  let ?r = "arp_reply_frame (field 22 6 m) ethaddr ?ip m"
  have r: "?r = field 22 6 m @ ethaddr @ field 12 2 m @ [0, 1, 8, 0, 6, 4, 0, 2] @ ethaddr
      @ u32_bytes ?ip @ field 22 6 m @ field 28 4 m"
    using arp_header_bytes [OF m(2)] len
    by (simp add: arp_reply_frame_def arp_bytes SIZEOF_ETHARP_PACKET_def SIZEOF_ETH_HDR_def SIZEOF_ETHARP_HDR_def)
  have rlen: "length ?r = 42"
    using len assms(5) by (simp add: r length_field u32_bytes_def)
  from v assms(4,10) m(1) quiet ifs obtain hp x w where
    hp: "payload_write p 0 ?r (pbufs s) = Some hp" and
    w: "link_output env netif p (u\<lparr>pbufs := hp\<rparr>) = Some (x, v)"
    by (auto simp: arp_act_def bind_eq_Some_conv Let_def arp_bytes)
  have "frame_of (Some p) hp = Some (?r @ drop 42 f)"
    using frame_of_header [OF assms(7) n(1) _ assms(8) hp] n(2) rlen
    by (simp add: SIZEOF_ETHARP_PACKET_def SIZEOF_ETH_HDR_def SIZEOF_ETHARP_HDR_def)
  with w have "frames v = frames s @ [(netif, ?r @ drop 42 f)]"
    using quiet by (auto elim!: link_outputD)
  moreover have "arp_table t = arp_table u"
    using arp_act_same [OF v] free_pbuf_same [OF t] by (simp add: same_table_def)
  moreover have "frames t = frames v" using free_pbuf_same [OF t] by simp
  ultimately show ?thesis
    using etharp_update_succeeds [OF u ok] etharp_update_enters [OF _ ok] u by (fastforce simp: r)
qed


text \<open>C20: The packet that waits for a host leaves, addressed to it, as soon as an ARP reply from that
  host comes in.\<close>

theorem arp_reply_releases_packet:
  assumes "arp_ok env s" "etharp_arp_input env netif ethaddr p s = Some t"
    "arp_message s p m" "field 20 2 m = [0, 2]" "unicast s netif (addr_field 28 m)"
    "i < ARP_TABLE_SIZE" "arp_state (arp_table s ! i) \<noteq> ETHARP_STATE_EMPTY"
    "entry_matches env (Some (addr_field 28 m)) (Some netif) (arp_table s ! i)"
    "arp_q (arp_table s ! i) = [x]" "linked (nodes (pbufs s)) (Some x) xs" "p \<notin> set xs"
    "nodes (pbufs s) x = Some n" "14 \<le> unat (n_len n)" "frame_of (Some x) (pbufs s) = Some f"
    "length (hwaddr (netifs s netif)) = 6"
  shows "frames t = frames s @ [(netif, field 22 6 m @ hwaddr (netifs s netif) @ [8, 0] @ drop 14 f)]"
proof -
  have ok: "arp_ok env s" by (rule assms(1))
  let ?ip = "ip_addr (netifs s netif)"
  from arp_message_input [OF assms(2,3)] obtain s1 r u v where
    s1: "s1 = (if LWIP_AUTOIP env
             then s\<lparr>env_state := autoip_arp_reply env netif (field 14 28 m) (env_state s)\<rparr> else s)" and
    u: "etharp_update_arp_entry env netif (addr_field 28 m) (field 22 6 m)
         (if arp_for_us (addr_field 38 m) ?ip then ETHARP_FLAG_TRY_HARD else ETHARP_FLAG_FIND_ONLY) s1 = Some (r, u)" and
    v: "arp_act env netif ethaddr p (addr_field 28 m) (arp_for_us (addr_field 38 m) ?ip) u = Some v"
    and t: "free_pbuf p v = Some t" by metis
  have s1': "arp_ok env s1" "arp_table s1 = arp_table s" "pbufs s1 = pbufs s" "frames s1 = frames s"
    "netifs s1 = netifs s" "unicast s1 netif (addr_field 28 m)"
    using ok assms(5) by (simp_all add: s1 unicast_def)
  let ?fl = "if arp_for_us (addr_field 38 m) ?ip then ETHARP_FLAG_TRY_HARD else ETHARP_FLAG_FIND_ONLY"
  let ?e = "updated env ?fl netif (field 22 6 m) (arp_table s ! i)"
  from u assms(6-9) s1' have "send_queue env netif i (field 22 6 m) [x] (set_entry i ?e s1) = Some u"
    by (subst (asm) etharp_update_known [of env s1 i]) auto
  moreover define s2 where "s2 = set_entry i ((arp_table (set_entry i ?e s1) ! i)\<lparr>arp_q := []\<rparr>) (set_entry i ?e s1)"
  ultimately obtain y z where
    y: "etharp_send_ip env netif x (hwaddr (netifs s2 netif)) (field 22 6 m) s2 = Some (z, y)"
    and x: "free_pbuf x y = Some u"
    by (auto simp: bind_eq_Some_conv Let_def)
  have s2: "pbufs s2 = pbufs s" "frames s2 = frames s" "netifs s2 = netifs s"
    using s1' by (simp_all add: s2_def)
  have m: "length m = 42" "payload_read p 0 SIZEOF_ETHARP_PACKET (pbufs s) = Some m"
    using assms(3) length_payload_read [of p 0 SIZEOF_ETHARP_PACKET "pbufs s" m]
    by (auto simp: arp_message_def SIZEOF_ETHARP_PACKET_def SIZEOF_ETH_HDR_def SIZEOF_ETHARP_HDR_def)
  have six: "length (field 22 6 m) = 6" using m(1) by (simp add: length_field)
  define w where "w = node_write 0 (field 22 6 m @ hwaddr (netifs s netif) @ [8, 0]) n"
  have y': "frames y = frames s @ [(netif, field 22 6 m @ hwaddr (netifs s netif) @ [8, 0] @ drop 14 f)]"
    "pbufs y = put_node x w (pbufs s)" "n_next w = n_next n"
    using etharp_send_ipD [OF y [unfolded s2(3)], unfolded s2(1,2), OF assms(10,12,14,15) six assms(13)]
    by (auto simp: w_def)
  have "frames u = frames y" using free_pbuf_same [OF x] by simp
  moreover have "nodes (pbufs u) p = nodes (pbufs s) p"
  proof -
    have "linked (nodes (pbufs y)) (Some x) xs"
      using linked_node_write [OF assms(10,12), of w] by (simp add: y'(2,3))
    from pbuf_free_nodes [OF this] x have "nodes (pbufs u) = freed_nodes (nodes (pbufs y)) xs"
      by (auto simp: free_pbuf_def)
    moreover have "p \<noteq> x" using assms(10,11) by (cases xs) auto
    ultimately show ?thesis
      using assms(11) by (simp add: freed_nodes_other y'(2))
  qed
  then have "payload_read p 0 SIZEOF_ETHARP_PACKET (pbufs u) = Some m"
    using m(2) by (simp add: payload_read_def)
  with v assms(4) have "frames v = frames u"
    by (auto simp: arp_act_def bind_eq_Some_conv arp_bytes split: if_splits)
  ultimately show ?thesis
    using free_pbuf_same [OF t] y'(1) by simp
qed

section \<open>An example\<close>

text \<open>
  A host 10.0.0.1 on one interface. The table holds a pending entry for 10.0.0.2 with a packet
  and a stable one for 10.0.0.3; the pbuf at 400 holds an incoming message.
\<close>

definition empty_arp_entry :: etharp_entry where
  "empty_arp_entry = \<lparr>arp_q = [], arp_ipaddr = 0, arp_netif = None, arp_ethaddr = ethzero,
     arp_ctime = 0, arp_state = ETHARP_STATE_EMPTY\<rparr>"

definition lan_env :: "unit arp_env" where
  "lan_env = \<lparr>pbuf_memory = (\<lambda>_ _ _ _. None), memp_arp_queue = (\<lambda>_. False), linkoutput = (\<lambda>_ _ w. (ERR_OK, w)),
     ip4_route = (\<lambda>_ _. Some 0), ip4_input = (\<lambda>_ _. Some), autoip_arp_reply = (\<lambda>_ _ w. w), dhcp_arp_reply = (\<lambda>_ _ w. w),
     ARP_QUEUEING = False, ETHARP_SUPPORT_STATIC_ENTRIES = False, ETHARP_TABLE_MATCH_NETIF = False,
     ETHARP_TRUST_IP_MAC = False, LWIP_AUTOIP = False, DHCP_DOES_ARP_CHECK = True\<rparr>"

definition lan_table :: "nat list \<Rightarrow> etharp_entry list" where
  "lan_table q =
     [\<lparr>arp_q = q, arp_ipaddr = 0x0200000a, arp_netif = Some 0, arp_ethaddr = ethzero, arp_ctime = 3,
       arp_state = ETHARP_STATE_PENDING\<rparr>,
      \<lparr>arp_q = [], arp_ipaddr = 0x0300000a, arp_netif = Some 0, arp_ethaddr = [2, 0, 0, 0, 0, 3],
       arp_ctime = 100, arp_state = ETHARP_STATE_STABLE\<rparr>] @ replicate 8 empty_arp_entry"

definition lan_node :: "nat \<Rightarrow> nat \<Rightarrow> bytes \<Rightarrow> pnode" where
  "lan_node a off m = \<lparr>n_next = None, n_payload = a + 16 + off, n_tot_len = of_nat (length m - off),
     n_len = of_nat (length m - off), n_type = PBUF_RAM, n_flags = 0, n_ref = 1, n_base = a + 16, n_mem = m\<rparr>"

definition waiting_packet :: bytes where
  "waiting_packet = replicate 14 0 @ [0x45, 1, 2]"

definition lan :: "nat list \<Rightarrow> bytes \<Rightarrow> unit arp" where
  "lan q m = \<lparr>arp_table = lan_table q, etharp_cached_entry = 0,
     netifs = (\<lambda>_. \<lparr>ip_addr = 0x0100000a, netmask = 0xff, netif_flags = 0x0a, hwaddr = [2, 0, 0, 0, 0, 1], gw = 0\<rparr>),
     pbufs = \<lparr>nodes = (\<lambda>a. if a = 400 then Some (lan_node 400 0 m)
                           else if a = 800 then Some (lan_node 800 0 waiting_packet)
                           else if a = 1200 then Some (lan_node 1200 14 waiting_packet) else None),
              requests = 0, pbuf_free_ooseq_pending = False, ooseq_calls = 0, ooseq_call_ok = (\<lambda>_. False)\<rparr>,
     frames = [], queue_requests = 0, env_state = ()\<rparr>"

definition arp_from :: "u8 \<Rightarrow> u8 \<Rightarrow> u8 \<Rightarrow> bytes" where
  "arp_from opcode sender target = ethbroadcast @ [2, 0, 0, 0, 0, sender, 8, 6, 0, 1, 8, 0, 6, 4, 0, opcode,
     2, 0, 0, 0, 0, sender, 10, 0, 0, sender] @ ethzero @ [10, 0, 0, target]"

declare frame_of.simps [code] pbuf_free_loop.simps [code]

lemma lan_ok: "q = [] \<or> q = [a] \<Longrightarrow> arp_ok lan_env (lan q m)"
proof -
  assume q: "q = [] \<or> q = [a]"
  have size: "length (lan_table q) = ARP_TABLE_SIZE"
    by (simp add: lan_table_def ARP_TABLE_SIZE_def)
  have used: "i = 0 \<or> i = 1" if "i < ARP_TABLE_SIZE" "arp_state (lan_table q ! i) \<noteq> ETHARP_STATE_EMPTY" for i
    using that by (auto simp: lan_table_def nth_Cons' empty_arp_entry_def ARP_TABLE_SIZE_def split: if_splits)
  have entries: "\<forall>e \<in> set (lan_table q). entry_ok lan_env e"
    using q by (auto simp: lan_table_def lan_env_def entry_ok_def empty_arp_entry_def ARP_MAXAGE_def
        ARP_MAXPENDING_def ARP_QUEUE_LEN_def)
  have keys: "entry_key lan_env (lan_table q ! 0) \<noteq> entry_key lan_env (lan_table q ! 1)"
    by (simp add: entry_key_def lan_table_def lan_env_def)
  have "entry_key lan_env (lan_table q ! i) \<noteq> entry_key lan_env (lan_table q ! j)"
    if "i < ARP_TABLE_SIZE" "j < ARP_TABLE_SIZE" "i \<noteq> j" "arp_state (lan_table q ! i) \<noteq> ETHARP_STATE_EMPTY"
      "arp_state (lan_table q ! j) \<noteq> ETHARP_STATE_EMPTY" for i j
    using used [OF that(1,4)] used [OF that(2,5)] that(3) keys keys [symmetric] by (elim disjE) simp_all
  with size entries show "arp_ok lan_env (lan q m)"
    by (simp add: arp_ok_def table_ok_def lan_def ARP_TABLE_SIZE_def)
qed

lemma lan_message:
  assumes "length m = 42" "arp_header_ok m"
  shows "arp_message (lan q m) 400 m' \<longleftrightarrow> m' = m"
  using assms
  by (auto simp: arp_message_def lan_def lan_node_def payload_read_def in_pbuf_def node_read_def
      SIZEOF_ETHARP_PACKET_def SIZEOF_ETH_HDR_def SIZEOF_ETHARP_HDR_def)

lemma arp_from_ok: "length (arp_from op a b) = 42" "arp_header_ok (arp_from op a b)"
  by (simp_all add: arp_from_def ethbroadcast_def ethzero_def arp_header_ok_def field_def arp_bytes)

lemma arp_from_fields:
  "field 20 2 (arp_from op a b) = [0, op]" "field 22 6 (arp_from op a b) = [2, 0, 0, 0, 0, a]"
  "addr_field 28 (arp_from op a b) = le32 10 0 0 a" "addr_field 38 (arp_from op a b) = le32 10 0 0 b"
  by (simp_all add: arp_from_def ethbroadcast_def ethzero_def field_def addr_field_def)

lemma lan_linked:
  "linked (nodes (pbufs (lan q m))) (Some 400) [400]" "linked (nodes (pbufs (lan q m))) (Some 800) [800]"
  "linked (nodes (pbufs (lan q m))) (Some 1200) [1200]"
  by (simp_all add: lan_def lan_node_def)

lemma lan_runs:
  "etharp_arp_input lan_env 0 [2, 0, 0, 0, 0, 1] 400 (lan [800] (arp_from 2 2 1)) \<noteq> None"
  "etharp_arp_input lan_env 0 [2, 0, 0, 0, 0, 1] 400 (lan [] (arp_from 1 3 1)) \<noteq> None"
  "etharp_arp_input lan_env 0 [2, 0, 0, 0, 0, 1] 400 (lan [] (arp_from 2 3 9)) \<noteq> None"
  "etharp_arp_input lan_env 0 [2, 0, 0, 0, 0, 1] 400 (lan [] (arp_from 1 9 4)) \<noteq> None"
  "etharp_output lan_env 0 1200 (le32 10 0 0 3) (lan [] []) \<noteq> None"
  "run_all (\<lambda>_. etharp_tmr lan_env) (replicate 2 ()) (lan [] []) \<noteq> None"
  by code_simp+

lemma lan_entry:
  "arp_table (lan q m) ! 0 = \<lparr>arp_q = q, arp_ipaddr = 0x0200000a, arp_netif = Some 0, arp_ethaddr = ethzero,
     arp_ctime = 3, arp_state = ETHARP_STATE_PENDING\<rparr>"
  "arp_table (lan q m) ! 1 = \<lparr>arp_q = [], arp_ipaddr = 0x0300000a, arp_netif = Some 0,
     arp_ethaddr = [2, 0, 0, 0, 0, 3], arp_ctime = 100, arp_state = ETHARP_STATE_STABLE\<rparr>"
  "length (arp_table (lan q m)) = ARP_TABLE_SIZE"
  by (simp_all add: lan_def lan_table_def ARP_TABLE_SIZE_def)

lemma lan_all: "(\<forall>e \<in> set (arp_table (lan q m)). P e) \<longleftrightarrow>
    P (arp_table (lan q m) ! 0) \<and> P (arp_table (lan q m) ! 1) \<and> P empty_arp_entry"
  by (auto simp: lan_def lan_table_def)

lemma lan_unicast: "a \<in> {le32 10 0 0 2, le32 10 0 0 3} \<Longrightarrow> unicast (lan q m) 0 a"
  by (elim insertE) (simp_all, code_simp+)

lemma lan_addr: "le32 10 0 0 2 = 0x0200000a" "le32 10 0 0 3 = 0x0300000a" "le32 10 0 0 9 = 0x0900000a"
  "le32 10 0 0 1 = 0x0100000a" "le32 10 0 0 4 = 0x0400000a"
  by code_simp+

theorem arp_table_invariant_witness:
  "\<exists>s. reachable arp_init (arp_step lan_env) s \<and> arp_state (arp_table s ! 0) = ETHARP_STATE_PENDING
     \<and> table_ok lan_env (arp_table s) \<and> etharp_cached_entry s < ARP_TABLE_SIZE"
proof -
  let ?s = "(lan [] [])\<lparr>arp_table := replicate 10 empty_arp_entry\<rparr>"
  have "arp_init ?s"
    by (simp add: arp_init_def lan_def empty_arp_entry_def ARP_TABLE_SIZE_def)
  then have start: "reachable arp_init (arp_step lan_env) ?s" by (rule reachable_init)
  have "map_option (\<lambda>(r, t). arp_state (arp_table t ! 0)) (etharp_query lan_env 0 (le32 10 0 0 2) None ?s)
      = Some ETHARP_STATE_PENDING" by code_simp
  then obtain r t where t: "etharp_query lan_env 0 (le32 10 0 0 2) None ?s = Some (r, t)"
    "arp_state (arp_table t ! 0) = ETHARP_STATE_PENDING" by auto
  have "reachable arp_init (arp_step lan_env) t"
    by (rule reachable_step [OF start step_query [OF t(1)]])
  from arp_table_invariant [OF this] this t(2) show ?thesis by blast
qed

theorem etharp_find_entry_cheapest_witness:
  "\<exists>t. etharp_find_entry lan_env (Some (le32 10 0 0 9)) ETHARP_FLAG_TRY_HARD (Some 0) (lan [800] []) = Some (Inr 2, t)
     \<and> (\<forall>j < ARP_TABLE_SIZE. price lan_env (arp_table (lan [800] []) ! 2) \<le> price lan_env (arp_table (lan [800] []) ! j))"
proof -
  have "map_option fst (etharp_find_entry lan_env (Some (le32 10 0 0 9)) ETHARP_FLAG_TRY_HARD (Some 0) (lan [800] []))
      = Some (Inr 2)" by code_simp
  then obtain t where t: "etharp_find_entry lan_env (Some (le32 10 0 0 9)) ETHARP_FLAG_TRY_HARD (Some 0) (lan [800] [])
      = Some (Inr 2, t)" by auto
  have "\<forall>e \<in> set (arp_table (lan [800] [])). arp_state e \<noteq> ETHARP_STATE_EMPTY \<longrightarrow>
      \<not> entry_matches lan_env (Some (le32 10 0 0 9)) (Some 0) e"
    by (simp add: lan_all lan_entry [simplified] lan_addr entry_matches_def empty_arp_entry_def)
  from etharp_find_entry_cheapest [OF lan_entry(3) this t] t show ?thesis by auto
qed


theorem arp_message_updates_sender_witness:
  "\<exists>t. etharp_arp_input lan_env 0 [2, 0, 0, 0, 0, 1] 400 (lan [] (arp_from 2 3 9)) = Some t
     \<and> arp_ctime (arp_table t ! 1) = 0 \<and> arp_table t ! 0 = arp_table (lan [] (arp_from 2 3 9)) ! 0"
proof -
  let ?s = "lan [] (arp_from 2 3 9)"
  from lan_runs(3) obtain t where t: "etharp_arp_input lan_env 0 [2, 0, 0, 0, 0, 1] 400 ?s = Some t" by blast
  have ok: "arp_ok lan_env ?s" by (rule lan_ok) simp
  have m: "arp_message ?s 400 (arp_from 2 3 9)" by (simp add: lan_message arp_from_ok)
  have "arp_table t = (arp_table ?s)[1 := (arp_table ?s ! 1)\<lparr>arp_state := ETHARP_STATE_STABLE,
    arp_netif := Some 0, arp_ethaddr := field 22 6 (arp_from 2 3 9), arp_ctime := 0, arp_q := []\<rparr>]"
    by (rule arp_message_updates_sender [OF ok t m])
      (simp_all add: arp_from_fields lan_unicast lan_entry [simplified] lan_addr entry_matches_def ARP_TABLE_SIZE_def)
  with t lan_entry(3) [of "[]" "arp_from 2 3 9"] show ?thesis by (simp add: ARP_TABLE_SIZE_def)
qed

theorem arp_message_not_for_us_witness:
  "\<exists>t. etharp_arp_input lan_env 0 [2, 0, 0, 0, 0, 1] 400 (lan [] (arp_from 1 9 4)) = Some t
     \<and> arp_table t = lan_table [] \<and> frames t = []"
proof -
  let ?s = "lan [] (arp_from 1 9 4)"
  from lan_runs(4) obtain t where t: "etharp_arp_input lan_env 0 [2, 0, 0, 0, 0, 1] 400 ?s = Some t" by blast
  have ok: "arp_ok lan_env ?s" by (rule lan_ok) simp
  have ip: "ip_addr (netifs ?s 0) = le32 10 0 0 1" by (simp add: lan_def lan_addr)
  have "\<forall>m. arp_message ?s 400 m \<longrightarrow> \<not> arp_for_us (addr_field 38 m) (ip_addr (netifs ?s 0))
       \<and> (\<forall>e \<in> set (arp_table ?s). arp_state e \<noteq> ETHARP_STATE_EMPTY \<longrightarrow>
            \<not> entry_matches lan_env (Some (addr_field 28 m)) (Some 0) e)"
    by (simp add: lan_message arp_from_ok arp_from_fields lan_all lan_entry [simplified] entry_matches_def
        empty_arp_entry_def arp_for_us_def ip lan_addr)
  from arp_message_not_for_us [OF ok t this] t show ?thesis by (simp add: lan_def)
qed

theorem arp_request_answered_witness:
  "\<exists>t. etharp_arp_input lan_env 0 [2, 0, 0, 0, 0, 1] 400 (lan [] (arp_from 1 3 1)) = Some t
     \<and> frames t = [(0, [2, 0, 0, 0, 0, 3, 2, 0, 0, 0, 0, 1, 8, 6, 0, 1, 8, 0, 6, 4, 0, 2,
         2, 0, 0, 0, 0, 1, 10, 0, 0, 1, 2, 0, 0, 0, 0, 3, 10, 0, 0, 3])]"
proof -
  let ?s = "lan [] (arp_from 1 3 1)"
  from lan_runs(2) obtain t where t: "etharp_arp_input lan_env 0 [2, 0, 0, 0, 0, 1] 400 ?s = Some t" by blast
  have ok: "arp_ok lan_env ?s" by (rule lan_ok) simp
  have m: "arp_message ?s 400 (arp_from 1 3 1)" by (simp add: lan_message arp_from_ok)
  have f: "frame_of (Some 400) (pbufs ?s) = Some (arp_from 1 3 1)" by code_simp
  have ip: "ip_addr (netifs ?s 0) = le32 10 0 0 1" "u32_bytes (le32 10 0 0 1) = [10, 0, 0, 1]"
    by (simp add: lan_def lan_addr, code_simp)
  have g: "field 12 2 (arp_from 1 3 1) = [8, 6]" "field 28 4 (arp_from 1 3 1) = [10, 0, 0, 3]" "drop 42 (arp_from 1 3 1) = []"
    by (simp_all add: arp_from_def ethbroadcast_def ethzero_def field_def)
  have "frames t = frames ?s @ [(0,
      field 22 6 (arp_from 1 3 1) @ [2, 0, 0, 0, 0, 1] @ field 12 2 (arp_from 1 3 1) @ [0, 1, 8, 0, 6, 4, 0, 2]
      @ [2, 0, 0, 0, 0, 1] @ u32_bytes (ip_addr (netifs ?s 0)) @ field 22 6 (arp_from 1 3 1)
      @ field 28 4 (arp_from 1 3 1) @ drop 42 (arp_from 1 3 1))]"
    using arp_request_answered [OF ok t m _ _ _ lan_linked(1) f]
    by (simp add: arp_from_fields arp_for_us_def ip lan_addr IPADDR_ANY_def lan_all lan_entry [simplified]
        empty_arp_entry_def lan_env_def)
  with t show ?thesis by (simp add: arp_from_fields ip g) (simp add: lan_def)
qed


theorem arp_reply_releases_packet_witness:
  "\<exists>t. etharp_arp_input lan_env 0 [2, 0, 0, 0, 0, 1] 400 (lan [800] (arp_from 2 2 1)) = Some t
     \<and> frames t = [(0, [2, 0, 0, 0, 0, 2, 2, 0, 0, 0, 0, 1, 8, 0, 0x45, 1, 2])]"
proof -
  let ?s = "lan [800] (arp_from 2 2 1)"
  from lan_runs(1) obtain t where t: "etharp_arp_input lan_env 0 [2, 0, 0, 0, 0, 1] 400 ?s = Some t" by blast
  have ok: "arp_ok lan_env ?s" by (rule lan_ok) simp
  have m: "arp_message ?s 400 (arp_from 2 2 1)" by (simp add: lan_message arp_from_ok)
  have n: "nodes (pbufs ?s) 800 = Some (lan_node 800 0 waiting_packet)" by (simp add: lan_def)
  have f: "frame_of (Some 800) (pbufs ?s) = Some waiting_packet" by code_simp
  have "frames t = frames ?s @ [(0, field 22 6 (arp_from 2 2 1) @ hwaddr (netifs ?s 0) @ [8, 0] @ drop 14 waiting_packet)]"
    by (rule arp_reply_releases_packet [OF ok t m _ _ _ _ _ _ lan_linked(2) _ n _ f, of 0])
      (simp_all add: arp_from_fields lan_unicast lan_entry [simplified] lan_addr entry_matches_def ARP_TABLE_SIZE_def
        lan_node_def waiting_packet_def, simp add: lan_def)
  with t show ?thesis by (simp add: arp_from_fields lan_def waiting_packet_def)
qed

end
