(* ===== verification/Packets.thy ===== *)
theory Packets
  imports Etharp
begin

text \<open>
  Packets in the store of pbufs, for the layers above Ethernet: a packet is a chain with
  right lengths whose bytes lie in the memory of its pbufs, and what reading, writing, hiding
  and revealing a header and trimming do to its bytes.
\<close>

text \<open>A chain with right lengths whose bytes lie inside the memory of its pbufs.\<close>

definition packet :: "pheap \<Rightarrow> nat \<Rightarrow> nat list \<Rightarrow> bytes \<Rightarrow> bool" where
  "packet hp p as d \<longleftrightarrow> linked (nodes hp) (Some p) as \<and> chain_ok (chain_of (nodes hp) as)
     \<and> (\<forall>a \<in> set as. in_pbuf (the (nodes hp a)) 0 (unat (n_len (the (nodes hp a)))))
     \<and> chain_bytes (chain_of (nodes hp) as) = d"

text \<open>A pbuf that lies behind its own structure.\<close>

definition own_memory :: "nat \<Rightarrow> pnode \<Rightarrow> bool" where
  "own_memory p n \<longleftrightarrow> (n_type n = PBUF_RAM \<or> n_type n = PBUF_POOL) \<and> n_base n = p + SIZEOF_STRUCT_PBUF"

definition same_memory :: "pnode \<Rightarrow> pnode \<Rightarrow> bool" where
  "same_memory n n' \<longleftrightarrow> n_base n' = n_base n \<and> n_payload n' = n_payload n \<and> n_type n' = n_type n
     \<and> n_mem n' = n_mem n \<and> n_flags n' = n_flags n"

lemma pbuf_bytes_of: "pbuf_bytes (pbuf_of n) = node_read n 0 (unat (n_len n))"
  by (simp add: node_read_all)

lemma packetE:
  assumes "packet hp p as d"
  obtains n as' where "as = p # as'" "nodes hp p = Some n" "linked (nodes hp) (n_next n) as'" "p \<notin> set as'"
    "chain_ok (chain_of (nodes hp) as')" "in_pbuf n 0 (unat (n_len n))"
    "d = node_read n 0 (unat (n_len n)) @ chain_bytes (chain_of (nodes hp) as')"
    "unat (n_tot_len n) = length d" "unat (n_len n) \<le> length d"
proof (cases as)
  case (Cons a as')
  have link: "linked (nodes hp) (Some p) (a # as')" using assms Cons by (simp add: packet_def)
  obtain n where n: "Some p = Some a" "nodes hp a = Some n" "linked (nodes hp) (n_next n) as'" "a \<notin> set as'"
    by (rule linked_ConsE [OF link])
  then have p: "p = a" by simp
  have ok: "chain_ok (chain_of (nodes hp) (p # as'))" "in_pbuf n 0 (unat (n_len n))"
    "d = node_read n 0 (unat (n_len n)) @ chain_bytes (chain_of (nodes hp) as')"
    using assms Cons n p by (simp_all add: packet_def pbuf_bytes_of)
  have tot: "unat (n_tot_len n) = length d"
    using prefix_ok_tot [of "pbuf_of n" "chain_of (nodes hp) as'" 0] ok n p
    by (simp add: chain_ok_prefix pbuf_bytes_of)
  show thesis
    using that [of as' n] Cons n p ok tot by (simp add: length_node_read)
qed (use assms in \<open>simp add: packet_def\<close>)

lemma packet_lengths:
  assumes "packet hp p as d" "nodes hp p = Some n"
  shows "unat (n_tot_len n) = length d" "unat (n_len n) \<le> length d"
  using assms by (auto elim: packetE)

lemma packet_frame: "packet hp p as d \<Longrightarrow> frame_of (Some p) hp = Some d"
proof (induction as arbitrary: p d)
  case (Cons a as)
  from Cons.prems obtain n where n: "a = p" "nodes hp p = Some n" "linked (nodes hp) (n_next n) as"
    "chain_ok (chain_of (nodes hp) as)" "in_pbuf n 0 (unat (n_len n))"
    "d = node_read n 0 (unat (n_len n)) @ chain_bytes (chain_of (nodes hp) as)"
    by (auto elim: packetE)
  have "frame_of (n_next n) hp = Some (chain_bytes (chain_of (nodes hp) as))"
  proof (cases "n_next n")
    case None
    with n(3) have "as = []" by (cases as) auto
    then show ?thesis by (simp add: None)
  next
    case (Some q)
    with Cons.prems n(3,4) have "packet hp q as (chain_bytes (chain_of (nodes hp) as))"
      by (simp add: packet_def)
    from Cons.IH [OF this] show ?thesis by (simp add: Some)
  qed
  with n show ?case by (simp add: frame_of_Some)
qed (simp add: packet_def)

lemma packet_read:
  assumes "packet hp p as d" "nodes hp p = Some n" "off + len \<le> unat (n_len n)"
  shows "payload_read p off len hp = Some (take len (drop off d))"
proof -
  obtain as' where n: "in_pbuf n 0 (unat (n_len n))"
      "d = node_read n 0 (unat (n_len n)) @ chain_bytes (chain_of (nodes hp) as')"
    using packetE [OF assms(1)] assms(2) by (metis option.inject)
  have "in_pbuf n off len" using n(1) assms(3) unfolding in_pbuf_def by linarith
  moreover have "node_read n off len = take len (drop off (node_read n 0 (unat (n_len n))))"
    using assms(3) by (simp add: node_read_def drop_take min_def add.commute)
  moreover have "take len (drop off d) = take len (drop off (node_read n 0 (unat (n_len n))))"
    using assms(3) length_node_read [OF n(1)] by (simp add: n(2))
  ultimately show ?thesis by (simp add: payload_read_def assms(2))
qed

text \<open>One pbuf at the head is changed, in its fields or its bytes.\<close>

lemma packet_update:
  assumes "packet hp p as d" "nodes hp p = Some n" "n_next n' = n_next n" "in_pbuf n' 0 (unat (n_len n'))"
    "node_read n' 0 (unat (n_len n')) @ drop (unat (n_len n)) d = d'" "unat (n_tot_len n') = length d'"
  shows "packet (put_node p n' hp) p as d'"
proof -
  obtain as' where n: "as = p # as'" "linked (nodes hp) (n_next n) as'" "p \<notin> set as'"
      "chain_ok (chain_of (nodes hp) as')" "in_pbuf n 0 (unat (n_len n))"
      "d = node_read n 0 (unat (n_len n)) @ chain_bytes (chain_of (nodes hp) as')"
    by (rule packetE [OF assms(1)]) (use assms(2) in auto)
  have rest: "drop (unat (n_len n)) d = chain_bytes (chain_of (nodes hp) as')"
    by (simp add: n(6) length_node_read [OF n(5)])
  have len: "length (chain_bytes (chain_of (nodes hp) as')) = chain_tot_len (chain_of (nodes hp) as')"
  proof (cases "chain_of (nodes hp) as'")
    case (Cons q qs)
    with n(4) prefix_ok_tot [of q qs 0] show ?thesis by (simp add: chain_ok_prefix chain_tot_len_def)
  qed (simp add: chain_tot_len_def)
  have "unat (n_len n') \<le> length (drop (n_payload n' - n_base n') (n_mem n'))"
    using assms(4) unfolding in_pbuf_def by auto
  then have "chain_ok (chain_of (nodes (put_node p n' hp)) as)"
    using n(1,3,4) assms(5,6) length_node_read [OF assms(4)] len rest by auto
  moreover have "\<forall>a \<in> set as'. in_pbuf (the (nodes hp a)) 0 (unat (n_len (the (nodes hp a))))"
    using assms(1) n(1) by (simp add: packet_def)
  ultimately show ?thesis
    using n(1-4) assms(3-6) rest by (auto simp: packet_def pbuf_bytes_of)
qed

lemma packet_write:
  assumes "packet hp p as d" "nodes hp p = Some n" "length src \<le> unat (n_len n)"
  shows "payload_write p 0 src hp = Some (put_node p (node_write 0 src n) hp)"
    and "packet (put_node p (node_write 0 src n) hp) p as (src @ drop (length src) d)"
proof -
  obtain as' where n: "in_pbuf n 0 (unat (n_len n))" "unat (n_tot_len n) = length d" "unat (n_len n) \<le> length d"
      "d = node_read n 0 (unat (n_len n)) @ chain_bytes (chain_of (nodes hp) as')"
    by (rule packetE [OF assms(1)]) (use assms(2) in auto)
  have "in_pbuf n 0 (length src)" using n(1) assms(3) unfolding in_pbuf_def by linarith
  then show "payload_write p 0 src hp = Some (put_node p (node_write 0 src n) hp)"
    by (simp add: payload_write_def assms(2))
  show "packet (put_node p (node_write 0 src n) hp) p as (src @ drop (length src) d)"
    by (rule packet_update [OF assms(1,2)])
      (use node_read_write [OF n(1) assms(3)] n assms(3) length_node_read [OF n(1)] in \<open>auto\<close>)
qed

lemma packet_reveal:
  assumes "packet hp p as d" "nodes hp p = Some n" "own_memory p n" "0 < sint k"
    "n_base n + unat k \<le> n_payload n" "length d + unat k < 65536"
  obtains n' h where "pbuf_header (Some p) k hp = Some (False, put_node p n' hp)"
    "packet (put_node p n' hp) p as (h @ d)" "length h = unat k" "own_memory p n'"
    "n_payload n' = n_payload n - unat k" "unat (n_len n') = unat (n_len n) + unat k" "n_base n' = n_base n"
    "n_next n' = n_next n" "n_flags n' = n_flags n" "n_ref n' = n_ref n" "n_mem n' = n_mem n"
proof -
  obtain as' where n: "in_pbuf n 0 (unat (n_len n))" "unat (n_tot_len n) = length d" "unat (n_len n) \<le> length d"
      "d = node_read n 0 (unat (n_len n)) @ chain_bytes (chain_of (nodes hp) as')"
    by (rule packetE [OF assms(1)]) (use assms(2) in auto)
  define n' where "n' = n\<lparr>n_payload := nat (int (n_payload n) - sint k), n_len := n_len n + k, n_tot_len := n_tot_len n + k\<rparr>"
  define off where "off = n_payload n - n_base n"
  have k: "sint k = int (unat k)" using uint_pos [OF assms(4)] by simp
  have "nat (int (n_payload n) - sint k) = n_payload n - unat k"
    using assms(5) by (simp only: k of_nat_diff [symmetric] nat_int)
  then have n': "n_payload n' = n_payload n - unat k" "n_base n' = n_base n" "n_mem n' = n_mem n" "n_type n' = n_type n"
      "n_next n' = n_next n" "n_flags n' = n_flags n" "n_ref n' = n_ref n"
    by (simp_all add: n'_def)
  have len: "unat (n_len n') = unat (n_len n) + unat k" "unat (n_tot_len n') = length d + unat k"
    using n(2,3) assms(6) by (simp_all add: n'_def unat_add_nowrap)
  have off: "unat k \<le> off" "n_payload n' - n_base n' = off - unat k" using assms(5) by (simp_all add: off_def n')
  have fits: "off + unat (n_len n) \<le> length (n_mem n)" "n_base n \<le> n_payload n"
    using n(1) by (auto simp: in_pbuf_def off_def)
  have in': "in_pbuf n' 0 (unat (n_len n'))"
    using fits off assms(5) by (simp add: in_pbuf_def n' len)
  let ?h = "take (unat k) (drop (off - unat k) (n_mem n))"
  have h: "length ?h = unat k" using fits off by simp
  have "node_read n' 0 (unat (n_len n')) = ?h @ node_read n 0 (unat (n_len n))"
    using take_add [of "unat k" "unat (n_len n)" "drop (off - unat k) (n_mem n)"] off
    by (simp add: node_read_def len n'(3) off_def [symmetric] add.commute)
  then have "packet (put_node p n' hp) p as (?h @ d)"
    by (intro packet_update [OF assms(1,2) n'(5) in']) (use n len h length_node_read [OF n(1)] in auto)
  moreover have "\<not> int (n_payload n) - sint k < int (p + SIZEOF_STRUCT_PBUF)"
    using assms(3,5) unfolding k own_memory_def by linarith
  then have "pbuf_header (Some p) k hp = Some (False, put_node p n' hp)"
    using pbuf_header_reveal [OF assms(2) _ assms(4)] assms(3) by (simp add: own_memory_def n'_def)
  ultimately show thesis
    using that [of n' ?h] h n' len assms(3) by (simp add: own_memory_def)
qed

lemma packet_hide:
  assumes "packet hp p as d" "nodes hp p = Some n" "own_memory p n" "0 < sint k" "k \<le> n_len n"
  obtains n' where "pbuf_header (Some p) (- k) hp = Some (False, put_node p n' hp)"
    "packet (put_node p n' hp) p as (drop (unat k) d)" "own_memory p n'"
    "n_payload n' = n_payload n + unat k" "unat (n_len n') = unat (n_len n) - unat k" "n_base n' = n_base n"
    "n_next n' = n_next n" "n_flags n' = n_flags n" "n_ref n' = n_ref n" "n_mem n' = n_mem n"
proof -
  obtain as' where n: "in_pbuf n 0 (unat (n_len n))" "unat (n_tot_len n) = length d" "unat (n_len n) \<le> length d"
      "d = node_read n 0 (unat (n_len n)) @ chain_bytes (chain_of (nodes hp) as')"
    by (rule packetE [OF assms(1)]) (use assms(2) in auto)
  define n' where "n' = n\<lparr>n_payload := nat (int (n_payload n) + sint k), n_len := n_len n - k, n_tot_len := n_tot_len n - k\<rparr>"
  define off where "off = n_payload n - n_base n"
  have k: "sint k = int (unat k)" using uint_pos [OF assms(4)] by simp
  have le: "unat k \<le> unat (n_len n)" using assms(5) by (simp add: word_le_nat_alt)
  have "nat (int (n_payload n) + sint k) = n_payload n + unat k"
    by (simp only: k of_nat_add [symmetric] nat_int)
  then have n': "n_payload n' = n_payload n + unat k" "n_base n' = n_base n" "n_mem n' = n_mem n" "n_type n' = n_type n"
      "n_next n' = n_next n" "n_flags n' = n_flags n" "n_ref n' = n_ref n"
    by (simp_all add: n'_def)
  have len: "unat (n_len n') = unat (n_len n) - unat k" "unat (n_tot_len n') = length d - unat k"
    using n(2,3) le by (simp_all add: n'_def unat_sub_nowrap)
  have fits: "off + unat (n_len n) \<le> length (n_mem n)" "n_base n \<le> n_payload n"
    using n(1) by (auto simp: in_pbuf_def off_def)
  have off: "n_payload n' - n_base n' = off + unat k" using fits by (simp add: off_def n')
  have in': "in_pbuf n' 0 (unat (n_len n'))"
    using fits off le by (simp add: in_pbuf_def n' len)
  have "node_read n' 0 (unat (n_len n')) = drop (unat k) (node_read n 0 (unat (n_len n)))"
    by (simp add: node_read_def off len n'(3) off_def [symmetric] drop_take add.commute)
  then have "packet (put_node p n' hp) p as (drop (unat k) d)"
    by (intro packet_update [OF assms(1,2) n'(5) in']) (use n len le length_node_read [OF n(1)] in auto)
  moreover have "pbuf_header (Some p) (- k) hp = Some (False, put_node p n' hp)"
    using pbuf_header_hide [OF assms(2,4,5)] fits assms(3) by (simp add: own_memory_def n'_def)
  ultimately show thesis
    using that [of n'] n' len assms(3) by (simp add: own_memory_def)
qed

text \<open>What \<open>pbuf_realloc\<close> keeps of each pbuf.\<close>

definition same_data :: "pnode \<Rightarrow> pnode \<Rightarrow> bool" where
  "same_data n n' \<longleftrightarrow> same_memory n n' \<and> n_len n' = n_len n"

lemma same_data_trans: "same_data a b \<Longrightarrow> same_data b c \<Longrightarrow> same_data a c"
  by (simp add: same_data_def same_memory_def)

lemma same_data_tot: "same_data n (n\<lparr>n_tot_len := k\<rparr>)"
  by (simp add: same_data_def same_memory_def)

definition keeps_data :: "pheap \<Rightarrow> pheap \<Rightarrow> bool" where
  "keeps_data hp hp' \<longleftrightarrow> (\<forall>a n'. nodes hp' a = Some n' \<longrightarrow> (\<exists>n. nodes hp a = Some n \<and> same_data n n'))"

lemma keeps_data_refl: "keeps_data hp hp"
  by (simp add: keeps_data_def same_data_def same_memory_def)

lemma keeps_data_trans: "keeps_data a b \<Longrightarrow> keeps_data b c \<Longrightarrow> keeps_data a c"
  unfolding keeps_data_def by (meson same_data_trans)

lemma keeps_data_put: "keeps_data hp hp' \<Longrightarrow> nodes hp a = Some n \<Longrightarrow> same_data n n' \<Longrightarrow> keeps_data hp (put_node a n' hp')"
  by (simp add: keeps_data_def)

lemma keeps_data_drop: "keeps_data hp (drop_node a hp)"
  by (simp add: keeps_data_def same_data_def same_memory_def)

lemma pbuf_free_loop_keeps:
  assumes "pbuf_free_loop p c hp = Some r"
  shows "keeps_data hp (snd r)"
  by (rule pbuf_free_loop.raw_induct [where P = "\<lambda>p c hp r. keeps_data hp (snd r)", OF _ assms])
    (auto simp: Let_def same_data_def same_memory_def intro!: keeps_data_refl keeps_data_put split: option.splits if_splits,
      blast intro: keeps_data_trans [OF keeps_data_drop])

lemma pbuf_realloc_loop_keeps:
  assumes "pbuf_realloc_loop q r g hp = Some x"
  shows "keeps_data hp (snd (snd x))"
  by (rule pbuf_realloc_loop.raw_induct [where P = "\<lambda>q r g hp x. keeps_data hp (snd (snd x))", OF _ assms])
    (auto intro: keeps_data_refl split: option.splits if_splits,
      blast intro: keeps_data_trans [OF keeps_data_put [OF keeps_data_refl _ same_data_tot]])

lemma pbuf_realloc_loop_last:
  assumes "pbuf_realloc_loop q r g hp = Some x"
  shows "\<exists>n. nodes (snd (snd x)) (fst x) = Some n \<and> fst (snd x) \<le> n_len n"
  by (rule pbuf_realloc_loop.raw_induct [where P = "\<lambda>q r g hp x. \<exists>n. nodes (snd (snd x)) (fst x) = Some n \<and> fst (snd x) \<le> n_len n",
        OF _ assms])
    (auto split: option.splits if_splits simp: not_less)

lemma pbuf_free_keeps: "pbuf_free p hp = Some r \<Longrightarrow> keeps_data hp (snd r)"
  by (auto simp: pbuf_free_def keeps_data_refl split: if_splits dest: pbuf_free_loop_keeps)

lemma pbuf_realloc_keeps:
  assumes "pbuf_realloc p k hp = Some hp'" "nodes hp' a = Some n'"
  obtains n where "nodes hp a = Some n" "same_memory n n'" "n_len n' = n_len n \<or> n_next n' = None" "n_len n' \<le> n_len n"
proof -
  define kept where "kept (hp' :: pheap) \<longleftrightarrow> (\<forall>a n'. nodes hp' a = Some n' \<longrightarrow>
     (\<exists>n. nodes hp a = Some n \<and> same_memory n n' \<and> (n_len n' = n_len n \<or> n_next n' = None) \<and> n_len n' \<le> n_len n))" for hp' :: pheap
  have kept: "kept h" if "keeps_data hp h" for h
    using that by (fastforce simp: kept_def keeps_data_def same_data_def)
  have cut: "kept (put_node q (n\<lparr>n_len := r, n_tot_len := r, n_next := None\<rparr>) hp2)"
    if run: "pbuf_realloc_loop p k g hp = Some (q, r, hp1)" "nodes hp1 q = Some n"
      "hp2 = hp1 \<or> pbuf_free f (put_node q (n\<lparr>n_len := r, n_tot_len := r\<rparr>) hp1) = Some (c, hp2)" for q r hp1 hp2 n g f c
  proof -
    have one: "keeps_data hp hp1" using pbuf_realloc_loop_keeps [OF run(1)] by simp
    then obtain m where m: "nodes hp q = Some m" "same_data m n" using run(2) by (auto simp: keeps_data_def)
    have "\<exists>n. nodes hp b = Some n \<and> same_data n n'" if at: "nodes hp2 b = Some n'" "b \<noteq> q" for b n'
    proof -
      from run(3) consider "hp2 = hp1" | "keeps_data (put_node q (n\<lparr>n_len := r, n_tot_len := r\<rparr>) hp1) hp2"
        using pbuf_free_keeps by fastforce
      then have "\<exists>n. nodes hp1 b = Some n \<and> same_data n n'"
      proof cases
        case 1
        with at show ?thesis by (simp add: same_data_def same_memory_def)
      next
        case 2
        with at(1) obtain m where "nodes (put_node q (n\<lparr>n_len := r, n_tot_len := r\<rparr>) hp1) b = Some m" "same_data m n'"
          unfolding keeps_data_def by blast
        with at(2) show ?thesis by auto
      qed
      with one show ?thesis by (meson keeps_data_def same_data_trans)
    qed
    moreover have "r \<le> n_len n" using pbuf_realloc_loop_last [OF run(1)] run(2) by simp
    ultimately show ?thesis using m by (fastforce simp: kept_def same_data_def same_memory_def)
  qed
  have "kept hp'"
    using assms(1) unfolding pbuf_realloc_def Let_def
    by (auto split: option.splits if_splits intro: cut kept keeps_data_refl)
  with assms(2) that show thesis by (auto simp: kept_def)
qed

lemma chain_ok_member: "chain_ok ps \<Longrightarrow> q \<in> set ps \<Longrightarrow> unat (p_len q) \<le> length (p_payload q)"
  by (induction ps) auto

lemma packet_realloc:
  assumes "packet hp p as d" "nodes hp p = Some n" "unat k < length d"
  obtains hp' bs cs n' where "pbuf_realloc p k hp = Some hp'" "as = bs @ cs" "packet hp' p bs (take (unat k) d)"
    "nodes hp' p = Some n'" "same_memory n n'" "unat (n_len n') = min (unat (n_len n)) (unat k)"
    "\<forall>b. b \<notin> set bs \<longrightarrow> nodes hp' b = freed_nodes (nodes hp) cs b"
proof -
  obtain as' where as: "as = p # as'" by (rule packetE [OF assms(1)])
  have pre: "linked (nodes hp) (Some p) (p # as')" "chain_ok (chain_of (nodes hp) (p # as'))"
    "unat k < length (chain_bytes (chain_of (nodes hp) (p # as')))"
    using assms(1,3) as by (simp_all add: packet_def del: path.simps chain_of_simps)
  obtain hp' bs cs where cut: "pbuf_realloc p k hp = Some hp'" "as = bs @ cs" "bs \<noteq> []"
    "linked (nodes hp') (Some p) bs" "chain_ok (chain_of (nodes hp') bs)"
    "chain_bytes (chain_of (nodes hp') bs) = take (unat k) d"
    "\<forall>b. b \<notin> set bs \<longrightarrow> nodes hp' b = freed_nodes (nodes hp) cs b"
    using pbuf_realloc_chain [OF pre] assms(1) as by (auto simp: packet_def simp del: path.simps chain_of_simps)
  have inp: "in_pbuf (the (nodes hp' a)) 0 (unat (n_len (the (nodes hp' a))))" if a: "a \<in> set bs" for a
  proof -
    obtain m' where m': "nodes hp' a = Some m'" using linked_alloc [OF cut(4) a] by blast
    obtain m where m: "nodes hp a = Some m" "same_memory m m'" by (rule pbuf_realloc_keeps [OF cut(1) m'])
    have "a \<in> set as" using a cut(2) by simp
    with assms(1) have "in_pbuf (the (nodes hp a)) 0 (unat (n_len (the (nodes hp a))))" unfolding packet_def by blast
    with m(1) have "in_pbuf m 0 (unat (n_len m))" by simp
    moreover have "unat (n_len m') \<le> length (drop (n_payload m' - n_base m') (n_mem m'))"
    proof -
      have "pbuf_of m' \<in> set (chain_of (nodes hp') bs)"
        using a m' by (force simp: chain_of_def)
      from chain_ok_member [OF cut(5) this] show ?thesis by simp
    qed
    ultimately show ?thesis using m m' by (auto simp: in_pbuf_def same_memory_def)
  qed
  then have pk: "packet hp' p bs (take (unat k) d)" using cut by (simp add: packet_def)
  obtain bs' n' where n': "bs = p # bs'" "nodes hp' p = Some n'" "linked (nodes hp') (n_next n') bs'"
      "take (unat k) d = node_read n' 0 (unat (n_len n')) @ chain_bytes (chain_of (nodes hp') bs')"
      "in_pbuf n' 0 (unat (n_len n'))" "unat (n_len n') \<le> length (take (unat k) d)"
    by (rule packetE [OF pk])
  obtain m where "nodes hp p = Some m" "same_memory m n'" "n_len n' = n_len m \<or> n_next n' = None" "n_len n' \<le> n_len m"
    by (rule pbuf_realloc_keeps [OF cut(1) n'(2)])
  with assms(2) have keeps: "same_memory n n'" "n_len n' = n_len n \<or> n_next n' = None" "n_len n' \<le> n_len n" by simp_all
  have "unat (n_len n') = unat k" if "n_next n' = None"
  proof -
    have "bs' = []" using n'(3) that by (cases bs') auto
    with n'(4,5) assms(3) have "length (take (unat k) d) = unat (n_len n')" by (simp add: length_node_read)
    with assms(3) show ?thesis by simp
  qed
  with keeps n'(6) have "unat (n_len n') = min (unat (n_len n)) (unat k)"
    by (auto simp: word_le_nat_alt)
  with cut pk n'(2) keeps(1) show thesis by (intro that)
qed

end
