(* ===== verification/Ip4.thy ===== *)
theory Ip4
  imports Packets PbufChksum
begin

text \<open>
  IPv4 (\<open>core/ipv4/ip4.c\<close>, \<open>include/lwip/ip4.h\<close>, \<open>include/lwip/ip.h\<close>): routing, input and output of
  packets, on the store of pbufs. The state of the file and \<open>ip_data\<close> are part of the state that
  the ARP code leaves alone; the drivers (\<open>netif->output\<close>), the protocols above and IGMP are
  parameters. Built as configured: IGMP and multicast options are in; forwarding, fragments, AutoIP,
  loopback, raw pcbs and checksum control for each interface are not. \<open>None\<close> is a run that dereferences
  \<open>NULL\<close>, a freed pbuf or memory outside a pbuf.
\<close>

subsection \<open>Data\<close>

record 'w inet =
  netif_list :: "nat list"
  netif_default :: "nat option"
  ip4_default_multicast_netif :: "nat option"
  ip_id :: u16
  current_netif :: "nat option"
  current_input_netif :: "nat option"
  current_ip4_header :: "nat option"
  current_ip_header_tot_len :: u16
  current_iphdr_src :: u32
  current_iphdr_dest :: u32
  above :: 'w

type_synonym 'w ip = "'w inet arp"

record 'w ip_env =
  chksum_algorithm :: nat
  netif_output :: "nat \<Rightarrow> nat \<Rightarrow> u32 \<Rightarrow> 'w ip \<Rightarrow> (err_t \<times> 'w ip) option"
  igmp_lookfor_group :: "nat \<Rightarrow> u32 \<Rightarrow> 'w \<Rightarrow> bool"
  udp_input :: "nat \<Rightarrow> nat \<Rightarrow> 'w ip \<Rightarrow> 'w ip option"
  tcp_input :: "nat \<Rightarrow> nat \<Rightarrow> 'w ip \<Rightarrow> 'w ip option"
  icmp_input :: "nat \<Rightarrow> nat \<Rightarrow> 'w ip \<Rightarrow> 'w ip option"
  igmp_input :: "nat \<Rightarrow> nat \<Rightarrow> u32 \<Rightarrow> 'w ip \<Rightarrow> 'w ip option"
  icmp_dest_unreach :: "nat \<Rightarrow> nat \<Rightarrow> 'w ip \<Rightarrow> 'w ip option"

definition NETIF_FLAG_UP :: u8 where "NETIF_FLAG_UP = 0x01"
definition NETIF_FLAG_LINK_UP :: u8 where "NETIF_FLAG_LINK_UP = 0x04"
definition NETIF_FLAG_IGMP :: u8 where "NETIF_FLAG_IGMP = 0x20"
definition IP_HLEN :: u16 where "IP_HLEN = 20"
definition IP_MF :: u16 where "IP_MF = 0x2000"
definition IP_OFFMASK :: u16 where "IP_OFFMASK = 0x1fff"
definition IP_PROTO_ICMP :: u8 where "IP_PROTO_ICMP = 1"
definition IP_PROTO_IGMP :: u8 where "IP_PROTO_IGMP = 2"
definition IP_PROTO_TCP :: u8 where "IP_PROTO_TCP = 6"
definition IP_PROTO_UDP :: u8 where "IP_PROTO_UDP = 17"
definition DHCP_CLIENT_PORT :: u16 where "DHCP_CLIENT_PORT = 68"
definition ICMP_DUR_PROTO :: nat where "ICMP_DUR_PROTO = 2"

definition netif_is_up :: "eth_netif \<Rightarrow> bool" where
  "netif_is_up n \<longleftrightarrow> netif_flags n AND NETIF_FLAG_UP \<noteq> 0"

definition netif_is_link_up :: "eth_netif \<Rightarrow> bool" where
  "netif_is_link_up n \<longleftrightarrow> netif_flags n AND NETIF_FLAG_LINK_UP \<noteq> 0"

definition ip4_addr_isany_val :: "u32 \<Rightarrow> bool" where
  "ip4_addr_isany_val a \<longleftrightarrow> a = IPADDR_ANY"

text \<open>Of a pointer that may be \<open>NULL\<close>.\<close>

definition ip4_addr_isany :: "u32 option \<Rightarrow> bool" where
  "ip4_addr_isany a \<longleftrightarrow> (case a of None \<Rightarrow> True | Some a \<Rightarrow> ip4_addr_isany_val a)"

text \<open>Fields of 16 bits in memory.\<close>

definition u16_field :: "nat \<Rightarrow> bytes \<Rightarrow> u16" where
  "u16_field off m = le16 (m ! off) (m ! (off + 1))"

definition upd_inet :: "('w inet \<Rightarrow> 'w inet) \<Rightarrow> 'w ip \<Rightarrow> 'w ip" where
  "upd_inet f s = s\<lparr>env_state := f (env_state s)\<rparr>"

subsection \<open>Routing\<close>

definition ip4_set_default_multicast_netif :: "nat option \<Rightarrow> 'w ip \<Rightarrow> 'w ip" where
  "ip4_set_default_multicast_netif n = upd_inet (\<lambda>w. w\<lparr>ip4_default_multicast_netif := n\<rparr>)"

text \<open>The first interface of the list that reaches \<open>dest\<close> directly.\<close>

fun route_loop :: "u32 \<Rightarrow> (nat \<Rightarrow> eth_netif) \<Rightarrow> nat list \<Rightarrow> nat option" where
  "route_loop dest ifs [] = None"
| "route_loop dest ifs (i # is) =
     (let n = ifs i
      in if netif_is_up n \<and> netif_is_link_up n \<and> \<not> ip4_addr_isany_val (ip_addr n)
            \<and> (ip4_addr_netcmp dest (ip_addr n) (netmask n)
               \<or> netif_flags n AND NETIF_FLAG_BROADCAST = 0 \<and> dest = gw n)
         then Some i else route_loop dest ifs is)"

definition ip4_route :: "u32 \<Rightarrow> 'w ip \<Rightarrow> nat option" where
  "ip4_route dest s =
     (let w = env_state s
      in if ip4_addr_ismulticast dest \<and> ip4_default_multicast_netif w \<noteq> None
         then ip4_default_multicast_netif w
         else case route_loop dest (netifs s) (netif_list w) of
           Some i \<Rightarrow> Some i
         | None \<Rightarrow>
             (case netif_default w of
                None \<Rightarrow> None
              | Some d \<Rightarrow>
                  let n = netifs s d
                  in if \<not> netif_is_up n \<or> \<not> netif_is_link_up n \<or> ip4_addr_isany_val (ip_addr n) then None
                     else Some d))"

subsection \<open>Input\<close>

text \<open>The first interface, beginning with the one the packet came in on, that takes it.\<close>

fun accept_loop :: "u32 \<Rightarrow> (nat \<Rightarrow> eth_netif) \<Rightarrow> nat list \<Rightarrow> nat option" where
  "accept_loop dest ifs [] = None"
| "accept_loop dest ifs (i # is) =
     (let n = ifs i
      in if netif_is_up n \<and> \<not> ip4_addr_isany_val (ip_addr n) \<and> (dest = ip_addr n \<or> ip4_addr_isbroadcast dest n)
         then Some i else accept_loop dest ifs is)"

text \<open>The interface and whether the source has to be checked.\<close>

definition accept_netif :: "'w ip_env \<Rightarrow> nat \<Rightarrow> u32 \<Rightarrow> u32 \<Rightarrow> 'w ip \<Rightarrow> nat option \<times> bool" where
  "accept_netif env inp src dest s =
     (if ip4_addr_ismulticast dest then
        (if netif_flags (netifs s inp) AND NETIF_FLAG_IGMP \<noteq> 0 \<and> igmp_lookfor_group env inp dest (above (env_state s))
         then (Some inp, \<not> (dest = lwip_htonl 0xe0000001 \<and> ip4_addr_isany_val src))
         else (None, True))
      else (accept_loop dest (netifs s) (inp # filter (\<lambda>i. i \<noteq> inp) (netif_list (env_state s))), True))"

text \<open>A packet for nobody is taken all the same when it is for the DHCP client.\<close>

definition accept_dhcp :: "nat \<Rightarrow> nat \<Rightarrow> u8 \<Rightarrow> u16 \<Rightarrow> nat option \<times> bool \<Rightarrow> 'w ip \<Rightarrow> (nat option \<times> bool) option" where
  "accept_dhcp p inp proto hlen a s =
     (if fst a = None \<and> proto = IP_PROTO_UDP
      then map_option (\<lambda>m. if u16_field 0 m = lwip_ntohs DHCP_CLIENT_PORT then (Some inp, False) else a)
             (payload_read p (unat hlen + 2) 2 (pbufs s))
      else Some a)"

definition current_packet :: "nat \<Rightarrow> nat \<Rightarrow> nat \<Rightarrow> u16 \<Rightarrow> 'w inet \<Rightarrow> 'w inet" where
  "current_packet netif inp hdr hlen w =
     w\<lparr>current_netif := Some netif, current_input_netif := Some inp, current_ip4_header := Some hdr,
       current_ip_header_tot_len := hlen\<rparr>"

definition no_packet :: "'w inet \<Rightarrow> 'w inet" where
  "no_packet w = w\<lparr>current_netif := None, current_input_netif := None, current_ip4_header := None,
       current_ip_header_tot_len := 0, current_iphdr_src := IPADDR_ANY, current_iphdr_dest := IPADDR_ANY\<rparr>"

text \<open>The protocols that are known.\<close>

definition protocol_input :: "'w ip_env \<Rightarrow> u8 \<Rightarrow> (nat \<Rightarrow> nat \<Rightarrow> 'w ip \<Rightarrow> 'w ip option) option" where
  "protocol_input env proto =
     (if proto = IP_PROTO_UDP then Some (udp_input env)
      else if proto = IP_PROTO_TCP then Some (tcp_input env)
      else if proto = IP_PROTO_ICMP then Some (icmp_input env)
      else if proto = IP_PROTO_IGMP then Some (\<lambda>p inp s. igmp_input env p inp (current_iphdr_dest (env_state s)) s)
      else None)"

text \<open>The header is hidden and the packet given to its protocol.\<close>

definition deliver :: "'w ip_env \<Rightarrow> nat \<Rightarrow> nat \<Rightarrow> nat \<Rightarrow> nat \<Rightarrow> u16 \<Rightarrow> u8 \<Rightarrow> 'w ip \<Rightarrow> 'w ip option" where
  "deliver env p inp netif hdr hlen proto s = do {
     (_, hp) \<leftarrow> pbuf_header (Some p) (- hlen) (pbufs s);
     let s = s\<lparr>pbufs := hp\<rparr>;
     case protocol_input env proto of
       Some handler \<Rightarrow> handler p inp s
     | None \<Rightarrow> do {
         let dest = current_iphdr_dest (env_state s);
         s \<leftarrow> (if \<not> ip4_addr_isbroadcast dest (netifs s netif) \<and> \<not> ip4_addr_ismulticast dest
               then do {
                 (_, hp) \<leftarrow> pbuf_header_force (Some p) hlen (pbufs s);
                 n \<leftarrow> nodes hp p;
                 icmp_dest_unreach env p ICMP_DUR_PROTO (s\<lparr>pbufs := put_node p (n\<lparr>n_payload := hdr\<rparr>) hp\<rparr>)
               }
               else Some s);
         free_pbuf p s
       }
   }"

text \<open>A packet whose header has been checked: its interface is found, and it is given to its protocol.\<close>

definition ip4_accept :: "'w ip_env \<Rightarrow> nat \<Rightarrow> nat \<Rightarrow> u16 \<Rightarrow> nat \<Rightarrow> bytes \<Rightarrow> 'w ip \<Rightarrow> 'w ip option" where
  "ip4_accept env p inp iphdr_hlen iphdr h s = do {
     let src = addr_field 12 h;
     let dest = addr_field 16 h;
     let s = upd_inet (\<lambda>w. w\<lparr>current_iphdr_dest := dest, current_iphdr_src := src\<rparr>) s;
     (netif, check_ip_src) \<leftarrow> accept_dhcp p inp (h ! 9) iphdr_hlen (accept_netif env inp src dest s) s;
     if check_ip_src \<and> \<not> ip4_addr_isany_val src
        \<and> (ip4_addr_isbroadcast src (netifs s inp) \<or> ip4_addr_ismulticast src)
     then free_pbuf p s
     else case netif of
       None \<Rightarrow> free_pbuf p s
     | Some netif \<Rightarrow>
         if u16_field 6 h AND lwip_htons (IP_OFFMASK OR IP_MF) \<noteq> 0 then free_pbuf p s
         else do {
           let s = upd_inet (current_packet netif inp iphdr iphdr_hlen) s;
           s \<leftarrow> deliver env p inp netif iphdr iphdr_hlen (h ! 9) s;
           Some (upd_inet no_packet s)
         }
   }"

text \<open>A packet of at most the length in its header.\<close>

definition ip4_check :: "'w ip_env \<Rightarrow> nat \<Rightarrow> nat \<Rightarrow> u16 \<Rightarrow> u16 \<Rightarrow> 'w ip \<Rightarrow> 'w ip option" where
  "ip4_check env p inp iphdr_hlen iphdr_len s = do {
     n \<leftarrow> nodes (pbufs s) p;
     if iphdr_hlen > n_len n \<or> iphdr_len > n_tot_len n then free_pbuf p s
     else do {
       h \<leftarrow> payload_read p 0 (unat iphdr_hlen) (pbufs s);
       if inet_chksum (LWIP_CHKSUM (chksum_algorithm env)) (of_nat (n_payload n)) h \<noteq> 0 then free_pbuf p s
       else do {
         h \<leftarrow> payload_read p 0 20 (pbufs s);
         ip4_accept env p inp iphdr_hlen (n_payload n) h s
       }
     }
   }"

definition ip4_input :: "'w ip_env \<Rightarrow> nat \<Rightarrow> nat \<Rightarrow> 'w ip \<Rightarrow> 'w ip option" where
  "ip4_input env p inp s = do {
     v \<leftarrow> payload_read p 0 1 (pbufs s);
     if drop_bit 4 (v ! 0) \<noteq> 4 then free_pbuf p s
     else do {
       m \<leftarrow> payload_read p 2 2 (pbufs s);
       let iphdr_hlen = ucast (v ! 0 AND 0x0f) * 4;
       let iphdr_len = lwip_ntohs (u16_field 0 m);
       n \<leftarrow> nodes (pbufs s) p;
       hp \<leftarrow> (if iphdr_len < n_tot_len n then pbuf_realloc p iphdr_len (pbufs s) else Some (pbufs s));
       ip4_check env p inp iphdr_hlen iphdr_len (s\<lparr>pbufs := hp\<rparr>)
     }
   }"

subsection \<open>Output\<close>

definition LWIP_MAKE_U16 :: "u8 \<Rightarrow> u8 \<Rightarrow> u32" where
  "LWIP_MAKE_U16 a b = push_bit 8 (ucast a) OR ucast b"

text \<open>The sum over a block of even length, read in halves of words.\<close>

fun sum_halves :: "bytes \<Rightarrow> u32 \<Rightarrow> u32" where
  "sum_halves (a # b # bs) acc = sum_halves bs (acc + ucast (le16 a b))"
| "sum_halves _ acc = acc"

definition sum_addr :: "u32 \<Rightarrow> u32" where
  "sum_addr a = (a AND 0xffff) + drop_bit 16 a"

definition fold_chk_sum :: "u32 \<Rightarrow> u16" where
  "fold_chk_sum c =
     (let c = drop_bit 16 c + (c AND 0xffff);
          c = drop_bit 16 c + c
      in ucast (NOT c))"

text \<open>The header of 20 bytes, with the checksum summed up while it is written.\<close>

definition ip_header :: "u32 \<Rightarrow> u8 \<Rightarrow> u8 \<Rightarrow> u8 \<Rightarrow> u16 \<Rightarrow> u16 \<Rightarrow> u16 \<Rightarrow> u32 \<Rightarrow> u32 \<Rightarrow> bytes" where
  "ip_header opt_sum ttl tos proto ip_hlen tot_len ident src dest =
     (let v_hl = push_bit 4 4 OR ucast (ip_hlen div 4);
          chk_sum = opt_sum + LWIP_MAKE_U16 proto ttl;
          chk_sum = chk_sum + sum_addr dest;
          chk_sum = chk_sum + LWIP_MAKE_U16 tos v_hl;
          chk_sum = chk_sum + ucast (lwip_htons tot_len);
          chk_sum = chk_sum + ucast (lwip_htons ident);
          chk_sum = chk_sum + sum_addr src
      in [v_hl, tos] @ u16_bytes (lwip_htons tot_len) @ u16_bytes (lwip_htons ident) @ [0, 0]
         @ [ttl, proto] @ u16_bytes (fold_chk_sum chk_sum) @ u32_bytes src @ u32_bytes dest)"

text \<open>The options, padded to a multiple of four bytes, are put in front of the packet.\<close>

definition put_options :: "nat \<Rightarrow> bytes \<Rightarrow> pheap \<Rightarrow> (bool \<times> u16 \<times> u32 \<times> pheap) option" where
  "put_options p ip_options hp =
     (if ip_options = [] then Some (False, IP_HLEN, 0, hp)
      else do {
        let optlen_aligned = (of_nat (length ip_options) + 3) AND NOT (3 :: u16);
        (failed, hp) \<leftarrow> pbuf_header (Some p) optlen_aligned hp;
        if failed then Some (True, IP_HLEN + optlen_aligned, 0, hp)
        else do {
          let opts = ip_options @ replicate (unat optlen_aligned - length ip_options) 0;
          hp \<leftarrow> payload_write p 0 opts hp;
          Some (False, IP_HLEN + optlen_aligned, sum_halves opts 0, hp)
        }
      })"

text \<open>
  \<open>dest\<close> is \<open>None\<close> for \<open>IP_HDRINCL\<close>, when the packet has its header already; \<open>src\<close> may
  be \<open>NULL\<close>; the options come with their length.
\<close>

definition ip4_output_if_opt_src ::
  "'w ip_env \<Rightarrow> nat \<Rightarrow> u32 option \<Rightarrow> u32 option \<Rightarrow> u8 \<Rightarrow> u8 \<Rightarrow> u8 \<Rightarrow> nat \<Rightarrow> bytes \<Rightarrow> 'w ip \<Rightarrow> (err_t \<times> 'w ip) option" where
  "ip4_output_if_opt_src env p src dest ttl tos proto netif ip_options s =
     (case dest of
        None \<Rightarrow> do {
          h \<leftarrow> payload_read p 16 4 (pbufs s);
          netif_output env netif p (addr_field 0 h) s
        }
      | Some dest \<Rightarrow> do {
          (failed, ip_hlen, opt_sum, hp) \<leftarrow> put_options p ip_options (pbufs s);
          if failed then Some (ERR_BUF, s\<lparr>pbufs := hp\<rparr>)
          else do {
            (failed, hp) \<leftarrow> pbuf_header (Some p) IP_HLEN hp;
            if failed then Some (ERR_BUF, s\<lparr>pbufs := hp\<rparr>)
            else do {
              n \<leftarrow> nodes hp p;
              let ident = ip_id (env_state s);
              let src = (case src of None \<Rightarrow> IPADDR_ANY | Some src \<Rightarrow> src);
              hp \<leftarrow> payload_write p 0 (ip_header opt_sum ttl tos proto ip_hlen (n_tot_len n) ident src dest) hp;
              netif_output env netif p dest (upd_inet (\<lambda>w. w\<lparr>ip_id := ident + 1\<rparr>) (s\<lparr>pbufs := hp\<rparr>))
            }
          }
        })"

definition ip4_output_if_src ::
  "'w ip_env \<Rightarrow> nat \<Rightarrow> u32 option \<Rightarrow> u32 option \<Rightarrow> u8 \<Rightarrow> u8 \<Rightarrow> u8 \<Rightarrow> nat \<Rightarrow> 'w ip \<Rightarrow> (err_t \<times> 'w ip) option" where
  "ip4_output_if_src env p src dest ttl tos proto netif =
     ip4_output_if_opt_src env p src dest ttl tos proto netif []"

definition ip4_output_if_opt ::
  "'w ip_env \<Rightarrow> nat \<Rightarrow> u32 option \<Rightarrow> u32 option \<Rightarrow> u8 \<Rightarrow> u8 \<Rightarrow> u8 \<Rightarrow> nat \<Rightarrow> bytes \<Rightarrow> 'w ip \<Rightarrow> (err_t \<times> 'w ip) option" where
  "ip4_output_if_opt env p src dest ttl tos proto netif ip_options s =
     (let src_used = (if dest \<noteq> None \<and> ip4_addr_isany src then Some (ip_addr (netifs s netif)) else src)
      in ip4_output_if_opt_src env p src_used dest ttl tos proto netif ip_options s)"

definition ip4_output_if ::
  "'w ip_env \<Rightarrow> nat \<Rightarrow> u32 option \<Rightarrow> u32 option \<Rightarrow> u8 \<Rightarrow> u8 \<Rightarrow> u8 \<Rightarrow> nat \<Rightarrow> 'w ip \<Rightarrow> (err_t \<times> 'w ip) option" where
  "ip4_output_if env p src dest ttl tos proto netif =
     ip4_output_if_opt env p src dest ttl tos proto netif []"

definition ip4_output ::
  "'w ip_env \<Rightarrow> nat \<Rightarrow> u32 option \<Rightarrow> u32 \<Rightarrow> u8 \<Rightarrow> u8 \<Rightarrow> u8 \<Rightarrow> 'w ip \<Rightarrow> (err_t \<times> 'w ip) option" where
  "ip4_output env p src dest ttl tos proto s =
     (case ip4_route dest s of
        None \<Rightarrow> Some (ERR_RTE, s)
      | Some netif \<Rightarrow> ip4_output_if env p src (Some dest) ttl tos proto netif s)"

subsection \<open>The checksum of the header\<close>

lemma unat_LWIP_MAKE_U16: "unat (LWIP_MAKE_U16 a b) = sum_le [b, a]"
proof -
  have "LWIP_MAKE_U16 a b = ucast (le16 b a)"
    unfolding LWIP_MAKE_U16_def le16_def by (rule bit_word_eqI) (auto simp: bit_simps dest: bit_u8_lt)
  then show ?thesis by (simp add: unat_simps)
qed

lemma unat_sum_addr: "unat (sum_addr a) = sum_le (u32_bytes a)"
proof -
  have "sum_addr a = FOLD_U32T a" by (simp add: sum_addr_def FOLD_U32T_def add.commute)
  then show ?thesis by (simp add: unat_FOLD_U32T sum_le_u32_bytes)
qed

lemma sum_le_bound: "sum_le d \<le> 65535 * length d"
proof (induction d rule: sum_le.induct)
  case (1 a b ws)
  with unat_le_8 [of a] unat_le_8 [of b] show ?case by simp
next
  case (2 a)
  with unat_le_8 [of a] show ?case by simp
qed simp

lemma unat_sum_halves:
  "even (length d) \<Longrightarrow> unat acc + sum_le d < 2 ^ 32 \<Longrightarrow> unat (sum_halves d acc) = unat acc + sum_le d"
proof (induction d acc rule: sum_halves.induct)
  case (1 a b bs acc)
  have "unat (acc + ucast (le16 a b)) = unat acc + (unat a + 256 * unat b)"
    using "1.prems"(2) by (subst unat_add_nowrap) (simp_all add: unat_simps)
  with 1 show ?case by simp
qed auto

lemma unat_fold_chk_sum:
  assumes "unat c < 2 ^ 24"
  shows "unat (fold_chk_sum c) = 65535 - ocs (unat c)"
proof -
  define n where "n = unat c"
  have n: "n < 256 * 65536" using assms by (simp add: n_def)
  define m where "m = n div 65536 + n mod 65536"
  have q: "n div 65536 < 256" "n mod 65536 < 65536" using n by (simp_all add: less_mult_imp_div_less)
  have c1: "unat (drop_bit 16 c + (c AND 0xffff)) = m"
    using unat_sum_addr [of c] by (simp add: sum_addr_def sum_le_u32_bytes m_def n_def add.commute)
  have m: "m < 65792" using q by (simp add: m_def)
  have "unat (drop_bit 16 (drop_bit 16 c + (c AND 0xffff))) = m div 65536"
    by (simp add: unat_drop_bit_div c1)
  then have c2: "unat (drop_bit 16 (drop_bit 16 c + (c AND 0xffff)) + (drop_bit 16 c + (c AND 0xffff))) = m div 65536 + m"
    using c1 m by (simp add: unat_add_nowrap)
  have mn: "m mod 65535 = n mod 65535"
  proof -
    have "n = 65536 * (n div 65536) + n mod 65536" by simp
    then have "n = 65535 * (n div 65536) + m" unfolding m_def by linarith
    then show ?thesis by (metis mod_mult_self4)
  qed
  have zero: "m = 0 \<longleftrightarrow> n = 0"
    unfolding m_def by (metis add_is_0 div_mod_decomp mult_0 mult_0_right add_0 div_0 mod_0)
  have low: "(m div 65536 + m) mod 65536 = ocs n"
  proof (cases "m < 65536")
    case True
    with mn zero show ?thesis by (cases "m = 65535") (auto simp: ocs_def)
  next
    case False
    then have "m div 65536 = 1" "m mod 65535 = m - 65535" using m by (auto simp: mod_if div_if)
    then have "n mod 65535 = m - 65535" "0 < m - 65535" "m - 65535 < 65535" using mn False m by simp_all
    moreover have "(m div 65536 + m) mod 65536 = m - 65535"
      using \<open>m div 65536 = 1\<close> False m by (simp add: mod_if)
    ultimately show ?thesis by (auto simp: ocs_def)
  qed
  have "unat (ucast (NOT x) :: u16) = 65535 - unat x mod 65536" for x :: u32
  proof -
    have "(ucast (NOT x) :: u16) = NOT (ucast x)" by (rule bit_word_eqI) (simp add: bit_simps)
    then show ?thesis by (simp add: unat_NOT_16 unat_ucast_mod)
  qed
  with c2 low show ?thesis by (simp add: fold_chk_sum_def Let_def n_def)
qed

text \<open>The header with the checksum field filled in sums up to all ones, whatever the options.\<close>

lemma length_ip_header [simp]: "length (ip_header opt_sum ttl tos proto ip_hlen tot_len ident src dest) = 20"
  by (simp add: ip_header_def Let_def u16_bytes_def u32_bytes_def)

lemma even_sums: "sum_le ([a, b] @ d) = sum_le [a, b] + sum_le d" "sum_le (u32_bytes w @ d) = sum_le (u32_bytes w) + sum_le d"
  by (simp_all add: sum_le_append_even u32_bytes_def)

lemma ip_header_sum:
  assumes "even (length opts)" "length opts \<le> 40"
  shows "ocs (sum_le (ip_header (sum_halves opts 0) ttl tos proto ip_hlen tot_len ident src dest @ opts)) = 65535"
proof -
  define v_hl where "v_hl = (push_bit 4 4 OR ucast (ip_hlen div 4) :: u8)"
  define c where "c = sum_halves opts 0 + LWIP_MAKE_U16 proto ttl + sum_addr dest + LWIP_MAKE_U16 tos v_hl
     + ucast (lwip_htons tot_len) + ucast (lwip_htons ident) + sum_addr src"
  let ?xs = "[v_hl, tos] @ u16_bytes (lwip_htons tot_len) @ u16_bytes (lwip_htons ident) @ [0, 0] @ [ttl, proto]"
  let ?ys = "u32_bytes src @ u32_bytes dest @ opts"
  have hdr: "ip_header (sum_halves opts 0) ttl tos proto ip_hlen tot_len ident src dest @ opts
      = ?xs @ u16_bytes (fold_chk_sum c) @ ?ys"
    by (simp add: ip_header_def Let_def v_hl_def c_def)
  have b: "unat (lwip_htons x) \<le> 65535" "sum_le [e, f] \<le> 65535 * 2" "sum_le (u32_bytes w) \<le> 65535 * 4" "sum_le opts \<le> 65535 * 40"
    for x :: u16 and e f :: u8 and w :: u32
    using unat_le_16 sum_le_bound [of "[e, f]"] sum_le_bound [of "u32_bytes w"] sum_le_bound [of opts] assms(2)
    by (simp_all add: u32_bytes_def)
  have o: "unat (sum_halves opts 0) = sum_le opts"
    using unat_sum_halves [of opts 0] assms(1) b(4) by simp
  have sum: "unat c = sum_le opts + sum_le [ttl, proto] + sum_le (u32_bytes dest) + sum_le [v_hl, tos]
      + unat (lwip_htons tot_len) + unat (lwip_htons ident) + sum_le (u32_bytes src)"
    unfolding c_def using b(1) [of tot_len] b(1) [of ident] b(2) [of ttl proto] b(2) [of v_hl tos] b(3) [of src] b(3) [of dest] b(4)
    by (simp add: unat_add_nowrap unat_LWIP_MAKE_U16 unat_sum_addr o unat_ucast_16_32 del: sum_le.simps)
  also have "\<dots> = sum_le (?xs @ [0, 0] @ ?ys)"
    by (simp only: append_assoc even_sums sum_le_u16_bytes) (simp add: even_sums)
  finally have "unat c = sum_le (?xs @ [0, 0] @ ?ys)" .
  moreover have "unat c < 2 ^ 24"
    using b(1) [of tot_len] b(1) [of ident] b(2) [of ttl proto] b(2) [of v_hl tos] b(3) [of src] b(3) [of dest] b(4)
    unfolding sum by simp
  ultimately have "unat (fold_chk_sum c) = 65535 - ocs (0 + sum_le (?xs @ [0, 0] @ ?ys))"
    by (simp add: unat_fold_chk_sum)
  from chksum_field_fill [OF _ this] show ?thesis
    unfolding hdr by (simp add: u16_bytes_def)
qed

lemma ip_header_verifies:
  assumes "even (length opts)" "length opts \<le> 40"
  shows "inet_chksum (LWIP_CHKSUM a) addr (ip_header (sum_halves opts 0) ttl tos proto ip_hlen tot_len ident src dest @ opts) = 0"
proof -
  let ?d = "ip_header (sum_halves opts 0) ttl tos proto ip_hlen tot_len ident src dest @ opts"
  have "unat (LWIP_CHKSUM a addr ?d) = ocs (sum_le ?d)"
    by (rule ck.chk_value) (use assms(2) in \<open>simp add: length_ip_header\<close>)
  with ip_header_sum [OF assms] have "unat (LWIP_CHKSUM a addr ?d) = 65535" by simp
  then have "unat (inet_chksum (LWIP_CHKSUM a) addr ?d) = 0"
    by (simp add: inet_chksum_def unat_NOT_16)
  then show ?thesis by (simp add: unat_eq_zero)
qed

subsection \<open>Output\<close>

lemma upd_inet_sel [simp]:
  "pbufs (upd_inet f s) = pbufs s" "netifs (upd_inet f s) = netifs s" "frames (upd_inet f s) = frames s"
  "arp_table (upd_inet f s) = arp_table s" "env_state (upd_inet f s) = f (env_state s)"
  by (simp_all add: upd_inet_def)

text \<open>A packet goes to the driver behind a header that verifies; the identification is counted up.\<close>

lemma ip4_output_if_srcE:
  assumes "packet (pbufs s) p as d" "nodes (pbufs s) p = Some n" "own_memory p n"
    "n_base n + 20 \<le> n_payload n" "length d + 20 < 65536"
  obtains hp n' where "ip4_output_if_src env p (Some src) (Some dest) ttl tos proto netif s =
      netif_output env netif p dest (upd_inet (\<lambda>w. w\<lparr>ip_id := ip_id w + 1\<rparr>) (s\<lparr>pbufs := hp\<rparr>))"
    "packet hp p as (ip_header 0 ttl tos proto 20 (of_nat (20 + length d)) (ip_id (env_state s)) src dest @ d)"
    "nodes hp p = Some n'" "own_memory p n'" "n_payload n' = n_payload n - 20" "unat (n_len n') = unat (n_len n) + 20"
    "\<forall>a. a \<noteq> p \<longrightarrow> nodes hp a = nodes (pbufs s) a"
proof -
  have k: "0 < sint IP_HLEN" "unat IP_HLEN = 20" by (simp_all add: IP_HLEN_def)
  obtain n1 h where hdr: "pbuf_header (Some p) IP_HLEN (pbufs s) = Some (False, put_node p n1 (pbufs s))"
    "packet (put_node p n1 (pbufs s)) p as (h @ d)" "length h = 20" "own_memory p n1"
    "n_payload n1 = n_payload n - 20" "unat (n_len n1) = unat (n_len n) + 20"
    by (rule packet_reveal [OF assms(1-3) k(1)]) (use assms(4,5) k(2) in auto)
  let ?hp = "put_node p n1 (pbufs s)"
  have tot: "n_tot_len n1 = of_nat (20 + length d)"
  proof -
    have "unat (n_tot_len n1) = length (h @ d)"
      using packet_lengths(1) [OF hdr(2)] by simp
    then have "unat (n_tot_len n1) = 20 + length d" by (simp add: hdr(3))
    then show ?thesis by (metis of_nat_unat ucast_id)
  qed
  let ?ih = "ip_header 0 ttl tos proto 20 (of_nat (20 + length d)) (ip_id (env_state s)) src dest"
  have len: "length ?ih \<le> unat (n_len n1)" by (simp add: length_ip_header hdr(6))
  have n1: "nodes ?hp p = Some n1" by simp
  note wr = packet_write [OF hdr(2) n1 len]
  have run: "ip4_output_if_src env p (Some src) (Some dest) ttl tos proto netif s =
      netif_output env netif p dest (upd_inet (\<lambda>w. w\<lparr>ip_id := ip_id w + 1\<rparr>) (s\<lparr>pbufs := put_node p (node_write 0 ?ih n1) ?hp\<rparr>))"
    using hdr(1) wr(1) tot
    by (simp add: ip4_output_if_src_def ip4_output_if_opt_src_def put_options_def Let_def IP_HLEN_def upd_inet_def)
  show thesis
    by (rule that [OF run, of "node_write 0 ?ih n1"])
      (use wr(2) hdr in \<open>auto simp: length_ip_header own_memory_def node_write_def\<close>)
qed

subsection \<open>Input\<close>

lemma u16_field_bytes [simp]: "u16_field 0 (u16_bytes x @ d) = x"
  using le16_split [of x] by (simp add: u16_field_def u16_bytes_def)

lemma addr_field_bytes [simp]: "addr_field 0 (u32_bytes a @ d) = a"
proof -
  have "addr_field 0 (u32_bytes a @ d) = le32 (ucast a) (ucast (drop_bit 8 a)) (ucast (drop_bit 16 a)) (ucast (drop_bit 24 a))"
    by (simp add: addr_field_def u32_bytes_def)
  also have "\<dots> = a" by (rule bit_word_eqI) (auto simp: bit_le32 bit_simps)
  finally show ?thesis .
qed

lemma u16_field_drop: "off \<le> length m \<Longrightarrow> u16_field off m = u16_field 0 (drop off m)"
  by (simp add: u16_field_def)

lemma ip_header_fields:
  assumes h_def: "h = ip_header opt_sum ttl tos proto 20 tot_len ident src dest"
  shows "h ! 0 = 0x45" "h ! 9 = proto" "u16_field 2 (h @ d) = lwip_htons tot_len" "u16_field 6 h = 0"
    "addr_field 12 h = src" "addr_field 16 h = dest"
proof -
  have a: "addr_field off m = addr_field 0 (drop off m)" if "off \<le> length m" for off m using that by (simp add: addr_field_def)
  show "h ! 0 = 0x45" by (simp add: h_def ip_header_def Let_def)
  show "h ! 9 = proto" by (simp add: h_def ip_header_def Let_def u16_bytes_def)
  have "drop 2 (h @ d) = u16_bytes (lwip_htons tot_len) @ drop 4 (h @ d)"
    by (simp add: h_def ip_header_def Let_def u16_bytes_def)
  then show "u16_field 2 (h @ d) = lwip_htons tot_len" using length_ip_header [of opt_sum ttl tos proto 20 tot_len ident src dest]
    by (simp add: u16_field_drop [of 2] h_def)
  show "u16_field 6 h = 0" by (simp add: h_def ip_header_def Let_def u16_bytes_def u16_field_def le16_def)
  have "drop 12 h = u32_bytes src @ u32_bytes dest" "drop 16 h = u32_bytes dest @ []"
    by (simp_all add: h_def ip_header_def Let_def u16_bytes_def u32_bytes_def)
  then show "addr_field 12 h = src" "addr_field 16 h = dest"
    using a [of 12 h] a [of 16 h] length_ip_header [of opt_sum ttl tos proto 20 tot_len ident src dest]
    by (simp_all only: addr_field_bytes h_def)
qed

text \<open>A packet of version 4 is cut to the length in its header.\<close>

lemma ip4_input_trim:
  fixes s :: "'w ip"
  assumes "packet (pbufs s) p as m" "nodes (pbufs s) p = Some n" "4 \<le> unat (n_len n)" "drop_bit 4 (m ! 0) = 4"
    and len: "len = lwip_ntohs (u16_field 2 m)"
  obtains hp bs n' where
    "ip4_input env p inp s = ip4_check env p inp (ucast (m ! 0 AND 0x0f) * 4) len (s\<lparr>pbufs := hp\<rparr>)"
    "packet hp p bs (take (unat len) m)" "nodes hp p = Some n'" "same_memory n n'"
    "unat (n_len n') = min (unat (n_len n)) (unat len)"
proof -
  have n: "unat (n_tot_len n) = length m" "unat (n_len n) \<le> length m"
    using packet_lengths [OF assms(1,2)] .
  have v: "payload_read p 0 1 (pbufs s) = Some (take 1 (drop 0 m))" "payload_read p 2 2 (pbufs s) = Some (take 2 (drop 2 m))"
    using packet_read [OF assms(1,2), of 0 1] packet_read [OF assms(1,2), of 2 2] assms(3) by auto
  have nth: "take 1 (drop 0 m) ! 0 = m ! 0" by simp
  have f: "u16_field 0 (take 2 (drop 2 m)) = u16_field 2 m" using n assms(3) by (simp add: u16_field_def)
  have run: "ip4_input env p inp s = ip4_check env p inp (ucast (m ! 0 AND 0x0f) * 4) len (s\<lparr>pbufs := hp\<rparr>)"
    if "(if len < n_tot_len n then pbuf_realloc p len (pbufs s) else Some (pbufs s)) = Some hp" for hp
    using v assms(2,4) that unfolding ip4_input_def len
    by (simp add: f Let_def) (auto split: if_splits)
  show thesis
  proof (cases "len < n_tot_len n")
    case True
    then have "unat len < length m" using n(1) by (simp add: word_less_nat_alt)
    from packet_realloc [OF assms(1,2) this] obtain hp' bs cs n' where cut: "pbuf_realloc p len (pbufs s) = Some hp'"
      "packet hp' p bs (take (unat len) m)" "nodes hp' p = Some n'" "same_memory n n'"
      "unat (n_len n') = min (unat (n_len n)) (unat len)" by metis
    show thesis by (rule that [OF run]) (use True cut in auto)
  next
    case False
    then have "length m \<le> unat len" using n(1) by (simp add: word_less_nat_alt)
    then show thesis
      by (intro that [OF run, of "pbufs s"]) (use False assms(1,2) n in \<open>auto simp: same_memory_def\<close>)
  qed
qed

text \<open>The state in which a protocol finds an accepted packet.\<close>

definition accepted :: "nat \<Rightarrow> nat \<Rightarrow> nat \<Rightarrow> u16 \<Rightarrow> u32 \<Rightarrow> u32 \<Rightarrow> pheap \<Rightarrow> 'w ip \<Rightarrow> 'w ip" where
  "accepted netif inp hdr hlen src dest hp s =
     upd_inet (\<lambda>w. current_packet netif inp hdr hlen (w\<lparr>current_iphdr_dest := dest, current_iphdr_src := src\<rparr>)) (s\<lparr>pbufs := hp\<rparr>)"

lemma accept_netif_cong:
  "netifs s' = netifs s \<Longrightarrow> netif_list (env_state s') = netif_list (env_state s) \<Longrightarrow> above (env_state s') = above (env_state s)
   \<Longrightarrow> accept_netif env inp src dest s' = accept_netif env inp src dest s"
  by (simp add: accept_netif_def)

lemma ip_commute: "(s :: 'w ip)\<lparr>env_state := w, pbufs := hp\<rparr> = s\<lparr>pbufs := hp, env_state := w\<rparr>"
  by simp

lemma ip4_accept_delivers:
  fixes s :: "'w ip"
  assumes "u16_field 6 h AND lwip_htons (IP_OFFMASK OR IP_MF) = 0" "addr_field 12 h = src" "addr_field 16 h = dest"
    "accept_netif env inp src dest s = (Some netif, chk)"
    "\<not> (chk \<and> \<not> ip4_addr_isany_val src \<and> (ip4_addr_isbroadcast src (netifs s inp) \<or> ip4_addr_ismulticast src))"
    "protocol_input env (h ! 9) = Some handler" "pbuf_header (Some p) (- hlen) hp = Some (False, hp')"
  shows "ip4_accept env p inp hlen hdr h (s\<lparr>pbufs := hp\<rparr>)
    = map_option (upd_inet no_packet) (handler p inp (accepted netif inp hdr hlen src dest hp' s))"
proof -
  have "accept_netif env inp src dest
      (upd_inet (\<lambda>w. w\<lparr>current_iphdr_dest := dest, current_iphdr_src := src\<rparr>) (s\<lparr>pbufs := hp\<rparr>)) = (Some netif, chk)"
    unfolding assms(4) [symmetric] by (rule accept_netif_cong) simp_all
  then show ?thesis
    using assms(1-3,5-7)
    by (cases "handler p inp (accepted netif inp hdr hlen src dest hp' s)")
      (auto simp: ip4_accept_def accept_dhcp_def deliver_def accepted_def Let_def upd_inet_def ip_commute)
qed

lemma ip4_input_accepted:
  fixes s :: "'w ip"
  assumes "packet (pbufs s) p as (ip_header 0 ttl tos proto 20 (of_nat (20 + length d)) ident src dest @ d @ pad)"
    "nodes (pbufs s) p = Some n" "own_memory p n" "20 \<le> unat (n_len n)" "length d + 20 < 65536"
    "accept_netif env inp src dest s = (Some netif, chk)"
    "\<not> (chk \<and> \<not> ip4_addr_isany_val src \<and> (ip4_addr_isbroadcast src (netifs s inp) \<or> ip4_addr_ismulticast src))"
    "protocol_input env proto = Some handler"
  obtains hp bs n' where
    "ip4_input env p inp s = map_option (upd_inet no_packet) (handler p inp (accepted netif inp (n_payload n) 20 src dest hp s))"
    "packet hp p bs d" "nodes hp p = Some n'" "own_memory p n'" "n_payload n' = n_payload n + 20"
    "unat (n_len n') = min (unat (n_len n) - 20) (length d)" "n_flags n' = n_flags n"
proof -
  define h where "h = ip_header 0 ttl tos proto 20 (of_nat (20 + length d)) ident src dest"
  define len where "len = (of_nat (20 + length d) :: u16)"
  let ?m = "h @ d @ pad"
  have h: "length h = 20" "h ! 0 = 0x45" "h ! 9 = proto" "u16_field 2 ?m = lwip_htons len" "u16_field 6 h = 0"
    "addr_field 12 h = src" "addr_field 16 h = dest"
    using ip_header_fields [OF h_def] by (simp_all add: h_def len_def)
  have nth: "?m ! 0 = 0x45" using h by (simp add: nth_append)
  have len: "unat len = 20 + length d" unfolding len_def using assms(5) by (intro unat_of_nat_16) simp
  have hlen: "ucast (?m ! 0 AND 0x0f) * 4 = (20 :: u16)" unfolding nth by simp
  have l: "len = lwip_ntohs (u16_field 2 ?m)" by (simp add: h(4) lwip_ntohs_def)
  have v: "drop_bit 4 (?m ! 0) = 4" unfolding nth by simp
  have four: "4 \<le> unat (n_len n)" using assms(4) by simp
  have pm: "packet (pbufs s) p as ?m" using assms(1) by (simp add: h_def)
  obtain hp bs n' where trim: "ip4_input env p inp s = ip4_check env p inp 20 len (s\<lparr>pbufs := hp\<rparr>)"
    "packet hp p bs (take (unat len) ?m)" "nodes hp p = Some n'" "same_memory n n'"
    "unat (n_len n') = min (unat (n_len n)) (unat len)"
    by (rule ip4_input_trim [OF pm assms(2) four v l]) (use hlen in auto)
  have pk: "packet hp p bs (h @ d)" using trim(2) len by (simp add: h)
  have n20: "20 \<le> unat (n_len n')" using trim(5) assms(4) len by simp
  have tot: "unat (n_tot_len n') = 20 + length d"
    using packet_lengths(1) [OF pk trim(3)] by (simp add: h)
  have read: "payload_read p 0 20 hp = Some h"
    using packet_read [OF pk trim(3), of 0 20] n20 h by simp
  have pay: "n_payload n' = n_payload n" and own: "own_memory p n'"
    using trim(4) assms(3) by (simp_all add: own_memory_def same_memory_def)
  have sum: "inet_chksum (LWIP_CHKSUM a) x h = 0" for a x
    using ip_header_verifies [of "[]"] by (simp add: h_def)
  have check: "ip4_check env p inp 20 len (s\<lparr>pbufs := hp\<rparr>) = ip4_accept env p inp 20 (n_payload n) h (s\<lparr>pbufs := hp\<rparr>)"
    using trim(3) n20 tot len read sum pay by (simp add: ip4_check_def word_less_nat_alt)
  obtain n2 where hide: "pbuf_header (Some p) (- 20) hp = Some (False, put_node p n2 hp)"
    "packet (put_node p n2 hp) p bs d" "own_memory p n2" "n_payload n2 = n_payload n' + 20"
    "unat (n_len n2) = unat (n_len n') - 20" "n_flags n2 = n_flags n'"
    by (rule packet_hide [OF pk trim(3) own, of 20]) (use n20 h in \<open>auto simp: word_le_nat_alt\<close>)
  have run: "ip4_input env p inp s
      = map_option (upd_inet no_packet) (handler p inp (accepted netif inp (n_payload n) 20 src dest (put_node p n2 hp) s))"
    unfolding trim(1) check
    by (rule ip4_accept_delivers [OF _ h(6,7) assms(6,7) _ hide(1)]) (use assms(8) h(3,5) in simp_all)
  show thesis
    by (rule that [OF run hide(2), of n2]) (use hide trim assms(4) len pay in \<open>auto simp: same_memory_def\<close>)
qed

lemma payload_read_same:
  "nodes hp p = Some n \<Longrightarrow> nodes hp' p = Some n' \<Longrightarrow> same_memory n n' \<Longrightarrow> payload_read p off len hp' = payload_read p off len hp"
  by (auto simp: payload_read_def in_pbuf_def node_read_def same_memory_def)

lemma in_pbuf_read: "nodes hp p = Some n \<Longrightarrow> in_pbuf n 0 k \<Longrightarrow> off + len \<le> k \<Longrightarrow> payload_read p off len hp = Some (node_read n off len)"
  by (auto simp: payload_read_def in_pbuf_def)

text \<open>What is kept when a packet is dropped.\<close>

definition only_packet :: "'w ip \<Rightarrow> 'w ip \<Rightarrow> bool" where
  "only_packet s s1 \<longleftrightarrow> frames s1 = frames s \<and> arp_table s1 = arp_table s \<and> netifs s1 = netifs s \<and> above (env_state s1) = above (env_state s)"

text \<open>The reasons to drop a packet \<open>m\<close> of which the first pbuf holds \<open>k\<close> bytes.\<close>

definition rejected :: "'w ip_env \<Rightarrow> nat \<Rightarrow> nat \<Rightarrow> nat \<Rightarrow> bytes \<Rightarrow> 'w ip \<Rightarrow> bool" where
  "rejected env inp addr k m s \<longleftrightarrow>
     (let hlen = 4 * unat (m ! 0 AND 0x0f); len = unat (lwip_ntohs (u16_field 2 m));
          src = addr_field 12 m; dest = addr_field 16 m; a = accept_netif env inp src dest s
      in drop_bit 4 (m ! 0) \<noteq> 4 \<or> length m < len \<or> min k len < hlen
         \<or> inet_chksum (LWIP_CHKSUM (chksum_algorithm env)) (of_nat addr) (take hlen m) \<noteq> 0
         \<or> u16_field 6 m AND lwip_htons (IP_OFFMASK OR IP_MF) \<noteq> 0
         \<or> fst a = None \<and> m ! 9 \<noteq> IP_PROTO_UDP
         \<or> fst a \<noteq> None \<and> snd a \<and> src \<noteq> IPADDR_ANY
             \<and> (ip4_addr_isbroadcast src (netifs s inp) \<or> ip4_addr_ismulticast src))"

lemma ip4_accept_rejects:
  fixes s :: "'w ip"
  assumes "nodes (pbufs s) p = Some n" "in_pbuf n 0 64" "hlen \<le> 60"
    "u16_field 6 h AND lwip_htons (IP_OFFMASK OR IP_MF) \<noteq> 0 \<or> fst a = None \<and> h ! 9 \<noteq> IP_PROTO_UDP
     \<or> fst a \<noteq> None \<and> snd a \<and> addr_field 12 h \<noteq> IPADDR_ANY
         \<and> (ip4_addr_isbroadcast (addr_field 12 h) (netifs s inp) \<or> ip4_addr_ismulticast (addr_field 12 h))"
    and a: "a = accept_netif env inp (addr_field 12 h) (addr_field 16 h) s"
  shows "\<exists>s1. ip4_accept env p inp hlen hdr h s = free_pbuf p s1 \<and> pbufs s1 = pbufs s \<and> only_packet s s1"
proof -
  let ?s = "upd_inet (\<lambda>w. w\<lparr>current_iphdr_dest := addr_field 16 h, current_iphdr_src := addr_field 12 h\<rparr>) s"
  have acc: "accept_netif env inp (addr_field 12 h) (addr_field 16 h) ?s = a"
    unfolding a by (rule accept_netif_cong) simp_all
  have "unat hlen + 2 + 2 \<le> 64" using assms(3) by (simp add: word_le_nat_alt)
  then have read: "payload_read p (unat hlen + 2) 2 (pbufs s) = Some (node_read n (unat hlen + 2) 2)"
    by (intro in_pbuf_read [OF assms(1,2)])
  have "ip4_accept env p inp hlen hdr h s = free_pbuf p ?s"
    using assms(4) acc read
    by (cases a) (auto simp: ip4_accept_def accept_dhcp_def Let_def ip4_addr_isany_val_def split: option.splits)
  then show ?thesis by (intro exI [of _ ?s]) (simp add: only_packet_def)
qed

lemma ip4_input_rejected:
  fixes s :: "'w ip"
  assumes pk: "packet (pbufs s) p as m" and n: "nodes (pbufs s) p = Some n" and k: "20 \<le> unat (n_len n)" and mem: "in_pbuf n 0 64"
    and rej: "rejected env inp (n_payload n) (unat (n_len n)) m s"
  shows "\<exists>s1 bs. ip4_input env p inp s = free_pbuf p s1 \<and> linked (nodes (pbufs s1)) (Some p) bs \<and> only_packet s s1"
proof -
  let ?hlen = "ucast (m ! 0 AND 0x0f) * 4 :: u16" and ?len = "lwip_ntohs (u16_field 2 m)"
  have v: "payload_read p 0 1 (pbufs s) = Some (take 1 (drop 0 m))"
    using packet_read [OF pk n, of 0 1] k by simp
  have link: "linked (nodes (pbufs s)) (Some p) as" using pk by (simp add: packet_def)
  have lenm: "20 \<le> length m" using packet_lengths [OF pk n] k by simp
  show ?thesis
  proof (cases "drop_bit 4 (m ! 0) = 4")
    case False
    then have "ip4_input env p inp s = free_pbuf p s"
      using v lenm by (simp add: ip4_input_def)
    with link show ?thesis by (auto simp: only_packet_def)
  next
    case True
    have four: "4 \<le> unat (n_len n)" using k by simp
    obtain hp bs n' where trim: "ip4_input env p inp s = ip4_check env p inp ?hlen ?len (s\<lparr>pbufs := hp\<rparr>)"
      "packet hp p bs (take (unat ?len) m)" "nodes hp p = Some n'" "same_memory n n'"
      "unat (n_len n') = min (unat (n_len n)) (unat ?len)"
      by (rule ip4_input_trim [OF pk n four True refl])
    have low: "unat (m ! 0 AND 0x0f) \<le> 15"
      using word_and_le1 [of "m ! 0" "0x0f"] by (simp add: word_le_nat_alt)
    then have hlen: "unat ?hlen = 4 * unat (m ! 0 AND 0x0f)" by (simp add: unat_word_ariths unat_simps)
    have tot: "unat (n_tot_len n') = min (length m) (unat ?len)"
      using packet_lengths(1) [OF trim(2,3)] by simp
    have link': "linked (nodes hp) (Some p) bs" using trim(2) by (simp add: packet_def)
    have mem': "in_pbuf n' 0 64" using mem trim(4) by (auto simp: in_pbuf_def same_memory_def)
    show ?thesis
    proof (cases "?hlen > n_len n' \<or> ?len > n_tot_len n'")
      case True
      then have "ip4_input env p inp s = free_pbuf p (s\<lparr>pbufs := hp\<rparr>)"
        using trim(1,3) by (simp add: ip4_check_def)
      with link' show ?thesis by (intro exI [of _ "s\<lparr>pbufs := hp\<rparr>"]) (auto simp: only_packet_def)
    next
      case False
      then have fits: "unat ?hlen \<le> unat (n_len n)" "unat ?len \<le> length m" "unat ?hlen \<le> unat ?len"
        using trim(5) tot by (auto simp: word_less_nat_alt)
      have rd: "payload_read p 0 j hp = payload_read p 0 j (pbufs s)" for j
        by (rule payload_read_same [OF n trim(3,4)])
      have h: "payload_read p 0 (unat ?hlen) hp = Some (take (unat ?hlen) m)" "payload_read p 0 20 hp = Some (take 20 m)"
        unfolding rd using packet_read [OF pk n, of 0 "unat ?hlen"] packet_read [OF pk n, of 0 20] fits k by simp_all
      have pay: "n_payload n' = n_payload n" using trim(4) by (simp add: same_memory_def)
      show ?thesis
      proof (cases "inet_chksum (LWIP_CHKSUM (chksum_algorithm env)) (of_nat (n_payload n)) (take (unat ?hlen) m) = 0")
        case False
        then have "ip4_input env p inp s = free_pbuf p (s\<lparr>pbufs := hp\<rparr>)"
          using trim(1,3) h pay \<open>\<not> (n_len n' < ?hlen \<or> n_tot_len n' < ?len)\<close> by (simp add: ip4_check_def)
        with link' show ?thesis by (intro exI [of _ "s\<lparr>pbufs := hp\<rparr>"]) (auto simp: only_packet_def)
      next
        case sum: True
        define a where "a = accept_netif env inp (addr_field 12 (take 20 m)) (addr_field 16 (take 20 m)) (s\<lparr>pbufs := hp\<rparr>)"
        have t: "take 20 m ! 9 = m ! 9" "u16_field 6 (take 20 m) = u16_field 6 m"
          "addr_field 12 (take 20 m) = addr_field 12 m" "addr_field 16 (take 20 m) = addr_field 16 m"
          using lenm by (simp_all add: u16_field_def addr_field_def)
        have a: "a = accept_netif env inp (addr_field 12 m) (addr_field 16 m) s"
          unfolding a_def t by (rule accept_netif_cong) simp_all
        have h60: "?hlen \<le> 60" using hlen low by (simp add: word_le_nat_alt)
        have run: "ip4_input env p inp s = ip4_accept env p inp ?hlen (n_payload n) (take 20 m) (s\<lparr>pbufs := hp\<rparr>)"
          using trim(1,3) h pay sum \<open>\<not> (n_len n' < ?hlen \<or> n_tot_len n' < ?len)\<close> by (simp add: ip4_check_def)
        have "nodes (pbufs (s\<lparr>pbufs := hp\<rparr>)) p = Some n'" using trim(3) by simp
        from ip4_accept_rejects [OF this mem' h60 _ a_def, of "n_payload n"] rej sum hlen fits True
        obtain s1 where "ip4_input env p inp s = free_pbuf p s1" "pbufs s1 = hp" "only_packet (s\<lparr>pbufs := hp\<rparr>) s1"
          unfolding run by (auto simp: rejected_def Let_def t a [symmetric])
        with link' show ?thesis by (intro exI [of _ s1]) (auto simp: only_packet_def)
      qed
    qed
  qed
qed

subsection \<open>Properties\<close>

text \<open>
  C16: What one host sends, another delivers. A packet leaves behind a header of 20 bytes whose
  checksum verifies, with the next identification; whoever receives that frame, cut into pbufs in
  any way and padded by the link, and takes packets for the destination, gives exactly the
  bytes of the packet to the protocol named in it, with the source and the destination.
\<close>

theorem ip4_sent_is_delivered:
  fixes s :: "'w ip" and t :: "'v ip"
  assumes "packet (pbufs s) p as d" "nodes (pbufs s) p = Some n" "own_memory p n"
    and "n_base n + 20 \<le> n_payload n" "length d + 20 < 65536"
    and frame: "f = ip_header 0 ttl tos proto 20 (of_nat (20 + length d)) (ip_id (env_state s)) src dest @ d"
    and "packet (pbufs t) q bs (f @ pad)" "nodes (pbufs t) q = Some m" "own_memory q m" "20 \<le> unat (n_len m)"
    and "accept_netif env' inp src dest t = (Some netif', check)"
    and "\<not> (check \<and> \<not> ip4_addr_isany_val src \<and> (ip4_addr_isbroadcast src (netifs t inp) \<or> ip4_addr_ismulticast src))"
    and "protocol_input env' proto = Some handler"
  shows "(\<exists>s1. ip4_output_if_src env p (Some src) (Some dest) ttl tos proto netif s = netif_output env netif p dest s1
       \<and> frame_of (Some p) (pbufs s1) = Some f \<and> ip_id (env_state s1) = ip_id (env_state s) + 1)
    \<and> (\<exists>t1 cs. ip4_input env' q inp t = map_option (upd_inet no_packet) (handler q inp t1)
       \<and> packet (pbufs t1) q cs d \<and> current_iphdr_src (env_state t1) = src \<and> current_iphdr_dest (env_state t1) = dest
       \<and> current_netif (env_state t1) = Some netif' \<and> above (env_state t1) = above (env_state t))"
proof
  obtain hp n' where out: "ip4_output_if_src env p (Some src) (Some dest) ttl tos proto netif s =
      netif_output env netif p dest (upd_inet (\<lambda>w. w\<lparr>ip_id := ip_id w + 1\<rparr>) (s\<lparr>pbufs := hp\<rparr>))"
    "packet hp p as (ip_header 0 ttl tos proto 20 (of_nat (20 + length d)) (ip_id (env_state s)) src dest @ d)"
    by (rule ip4_output_if_srcE [OF assms(1-5)])
  show "\<exists>s1. ip4_output_if_src env p (Some src) (Some dest) ttl tos proto netif s = netif_output env netif p dest s1
       \<and> frame_of (Some p) (pbufs s1) = Some f \<and> ip_id (env_state s1) = ip_id (env_state s) + 1"
    using out(1) packet_frame [OF out(2)] unfolding frame by (intro exI conjI) (assumption, simp_all)
next
  have "packet (pbufs t) q bs (ip_header 0 ttl tos proto 20 (of_nat (20 + length d)) (ip_id (env_state s)) src dest @ d @ pad)"
    using assms(7) by (simp add: frame)
  then obtain hp cs where "ip4_input env' q inp t
      = map_option (upd_inet no_packet) (handler q inp (accepted netif' inp (n_payload m) 20 src dest hp t))" "packet hp q cs d"
    by (rule ip4_input_accepted [OF _ assms(8-10,5,11-13)])
  then show "\<exists>t1 cs. ip4_input env' q inp t = map_option (upd_inet no_packet) (handler q inp t1)
       \<and> packet (pbufs t1) q cs d \<and> current_iphdr_src (env_state t1) = src \<and> current_iphdr_dest (env_state t1) = dest
       \<and> current_netif (env_state t1) = Some netif' \<and> above (env_state t1) = above (env_state t)"
    by (intro exI [of _ "accepted netif' inp (n_payload m) 20 src dest hp t"] exI [of _ cs])
      (simp add: accepted_def current_packet_def)
qed


text \<open>
  C18: The length of the header is not compared with 20. A packet that says its header has 8 bytes is
  accepted when these 8 bytes sum up to all ones; its protocol is then given the rest of the
  header as its own.
\<close>

theorem ip4_input_short_header:
  fixes s :: "'w ip"
  assumes "packet (pbufs s) p as m" "nodes (pbufs s) p = Some n" "own_memory p n" "20 \<le> unat (n_len n)"
    and "m ! 0 = 0x42" "unat (lwip_ntohs (u16_field 2 m)) = length m" "ocs (sum_le (take 8 m)) = 65535"
    and "u16_field 6 m = 0" "accept_netif env inp (addr_field 12 m) (addr_field 16 m) s = (Some netif, check)"
    and "\<not> ip4_addr_isbroadcast (addr_field 12 m) (netifs s inp)" "\<not> ip4_addr_ismulticast (addr_field 12 m)"
    and "protocol_input env (m ! 9) = Some handler"
  shows "\<exists>s1 bs. ip4_input env p inp s = map_option (upd_inet no_packet) (handler p inp s1)
    \<and> packet (pbufs s1) p bs (drop 8 m)"
proof -
  let ?len = "lwip_ntohs (u16_field 2 m)"
  have v: "drop_bit 4 (m ! 0) = 4" and hlen: "ucast (m ! 0 AND 0x0f) * 4 = (8 :: u16)" by (simp_all add: assms(5))
  have four: "4 \<le> unat (n_len n)" using assms(4) by simp
  obtain hp bs n' where trim: "ip4_input env p inp s = ip4_check env p inp 8 ?len (s\<lparr>pbufs := hp\<rparr>)"
    "packet hp p bs (take (unat ?len) m)" "nodes hp p = Some n'" "same_memory n n'"
    "unat (n_len n') = min (unat (n_len n)) (unat ?len)"
    by (rule ip4_input_trim [OF assms(1,2) four v refl]) (use hlen in auto)
  have pk: "packet hp p bs m" using trim(2) assms(6) by simp
  have tot: "unat (n_tot_len n') = length m" using packet_lengths(1) [OF pk trim(3)] .
  have n20: "20 \<le> unat (n_len n')"
    using trim(5) assms(4,6) packet_lengths(2) [OF assms(1,2)] by simp
  have lenm: "20 \<le> length m" using packet_lengths(2) [OF pk trim(3)] n20 by simp
  have read: "payload_read p 0 8 hp = Some (take 8 m)" "payload_read p 0 20 hp = Some (take 20 m)"
    using packet_read [OF pk trim(3), of 0 8] packet_read [OF pk trim(3), of 0 20] n20 by simp_all
  have "unat (LWIP_CHKSUM a x (take 8 m)) = 65535" for a x
    using ck.chk_value [of "take 8 m" a x] assms(7) by simp
  then have sum: "inet_chksum (LWIP_CHKSUM a) x (take 8 m) = 0" for a x
    unfolding unat_eq_zero [symmetric] inet_chksum_def unat_NOT_16 by simp
  have own: "own_memory p n'" using trim(4) assms(3) by (simp add: own_memory_def same_memory_def)
  have check: "ip4_check env p inp 8 ?len (s\<lparr>pbufs := hp\<rparr>) = ip4_accept env p inp 8 (n_payload n') (take 20 m) (s\<lparr>pbufs := hp\<rparr>)"
    using trim(3) n20 tot read sum assms(6) by (simp add: ip4_check_def word_less_nat_alt)
  obtain n2 where hide: "pbuf_header (Some p) (- 8) hp = Some (False, put_node p n2 hp)"
    "packet (put_node p n2 hp) p bs (drop 8 m)"
    by (rule packet_hide [OF pk trim(3) own, of 8]) (use n20 in \<open>auto simp: word_le_nat_alt\<close>)
  have t: "take 20 m ! 9 = m ! 9" "u16_field 6 (take 20 m) = u16_field 6 m"
    "addr_field 12 (take 20 m) = addr_field 12 m" "addr_field 16 (take 20 m) = addr_field 16 m"
    using lenm by (simp_all add: u16_field_def addr_field_def)
  have "ip4_input env p inp s = map_option (upd_inet no_packet)
      (handler p inp (accepted netif inp (n_payload n') 8 (addr_field 12 m) (addr_field 16 m) (put_node p n2 hp) s))"
    unfolding trim(1) check
    by (rule ip4_accept_delivers [OF _ t(3,4) assms(9) _ _ hide(1)]) (use assms(8,10-12) t in simp_all)
  with hide(2) show ?thesis
    by (intro exI [of _ "accepted netif inp (n_payload n') 8 (addr_field 12 m) (addr_field 16 m) (put_node p n2 hp) s"] exI [of _ bs])
      (simp add: accepted_def)
qed

subsection \<open>Witnesses\<close>

text \<open>A host 10.0.0.1 with one interface, and a packet in the memory behind its pbuf.\<close>

definition host_env :: "unit ip_env" where
  "host_env = \<lparr>chksum_algorithm = 1, netif_output = \<lambda>i p a s. Some (ERR_OK, s), igmp_lookfor_group = \<lambda>i a w. False,
     udp_input = \<lambda>p i s. Some s, tcp_input = \<lambda>p i s. Some s, icmp_input = \<lambda>p i s. Some s,
     igmp_input = \<lambda>p i a s. Some s, icmp_dest_unreach = \<lambda>p c s. Some s\<rparr>"

definition host_netif :: eth_netif where
  "host_netif = \<lparr>ip_addr = 0x0100000a, netmask = 0x00ffffff, netif_flags = 0x0f, hwaddr = [2, 0, 0, 0, 0, 1], gw = 0\<rparr>"

definition host_world :: "unit inet" where
  "host_world = \<lparr>netif_list = [0], netif_default = Some 0, ip4_default_multicast_netif = None, ip_id = 7, current_netif = None,
     current_input_netif = None, current_ip4_header = None, current_ip_header_tot_len = 0, current_iphdr_src = 0,
     current_iphdr_dest = 0, above = ()\<rparr>"

definition packet_node :: "bytes \<Rightarrow> pnode" where
  "packet_node d = \<lparr>n_next = None, n_payload = 1016 + 48, n_tot_len = of_nat (length d), n_len = of_nat (length d),
     n_type = PBUF_RAM, n_flags = 0, n_ref = 1, n_base = 1016, n_mem = replicate 48 0 @ d @ replicate 64 0\<rparr>"

definition host :: "bytes \<Rightarrow> unit ip" where
  "host d = \<lparr>arp_table = [], etharp_cached_entry = 0, netifs = \<lambda>_. host_netif,
     pbufs = \<lparr>nodes = [1000 \<mapsto> packet_node d], requests = 0, pbuf_free_ooseq_pending = False, ooseq_calls = 0, ooseq_call_ok = \<lambda>_. True\<rparr>,
     frames = [], queue_requests = 0, env_state = host_world\<rparr>"

lemma host_sel [simp]: "env_state (host d) = host_world" "netifs (host d) i = host_netif" "nodes (pbufs (host d)) 1000 = Some (packet_node d)"
  by (simp_all add: host_def)

lemma packet_node_sel [simp]:
  "n_payload (packet_node d) = 1064" "n_base (packet_node d) = 1016" "n_len (packet_node d) = of_nat (length d)"
  by (simp_all add: packet_node_def)

lemma host_packet: "length d < 65536 \<Longrightarrow> packet (pbufs (host d)) 1000 [1000] d"
  by (simp add: packet_def host_def packet_node_def pbuf_of_def pbuf_bytes_def chain_tot_len_def in_pbuf_def unat_of_nat_16)

lemma host_node: "own_memory 1000 (packet_node d)" "length d < 65536 \<Longrightarrow> in_pbuf (packet_node d) 0 64"
  by (simp_all add: own_memory_def packet_node_def SIZEOF_STRUCT_PBUF_def in_pbuf_def)

lemma host_accepts: "accept_netif host_env 0 0x0200000a 0x0100000a (host d) = (Some 0, True)"
  by (simp add: accept_netif_def ip4_addr_ismulticast_def host_netif_def netif_is_up_def NETIF_FLAG_UP_def
      ip4_addr_isany_val_def IPADDR_ANY_def lwip_htonl_def)

lemma host_source: "\<not> ip4_addr_isbroadcast 0x0200000a host_netif" "\<not> ip4_addr_ismulticast 0x0200000a"
  by code_simp+

theorem ip4_sent_is_delivered_witness:
  "(\<exists>s1. ip4_output_if_src host_env 1000 (Some 0x0200000a) (Some 0x0100000a) 64 0 17 0 (host [1, 2, 3]) = netif_output host_env 0 1000 0x0100000a s1
       \<and> frame_of (Some 1000) (pbufs s1) = Some (ip_header 0 64 0 17 20 23 7 0x0200000a 0x0100000a @ [1, 2, 3])
       \<and> ip_id (env_state s1) = ip_id (env_state (host [1, 2, 3])) + 1)
   \<and> (\<exists>t1 cs. ip4_input host_env 1000 0 (host ((ip_header 0 64 0 17 20 23 7 0x0200000a 0x0100000a @ [1, 2, 3]) @ replicate 23 0))
         = map_option (upd_inet no_packet) (udp_input host_env 1000 0 t1)
       \<and> packet (pbufs t1) 1000 cs [1, 2, 3] \<and> current_iphdr_src (env_state t1) = 0x0200000a
       \<and> current_iphdr_dest (env_state t1) = 0x0100000a \<and> current_netif (env_state t1) = Some 0
       \<and> above (env_state t1) = above (env_state (host ((ip_header 0 64 0 17 20 23 7 0x0200000a 0x0100000a @ [1, 2, 3]) @ replicate 23 0))))"
proof (rule ip4_sent_is_delivered [where as = "[1000]" and n = "packet_node [1, 2, 3]" and d = "[1, 2, 3]" and bs = "[1000]"
      and pad = "replicate 23 0" and check = True
      and m = "packet_node ((ip_header 0 64 0 17 20 23 7 0x0200000a 0x0100000a @ [1, 2, 3]) @ replicate 23 0)"])
  show "packet (pbufs (host [1, 2, 3])) 1000 [1000] [1, 2, 3]" by (rule host_packet) simp
  show "packet (pbufs (host ((ip_header 0 64 0 17 20 23 7 0x0200000a 0x0100000a @ [1, 2, 3]) @ replicate 23 0))) 1000 [1000]
      ((ip_header 0 64 0 17 20 23 7 0x0200000a 0x0100000a @ [1, 2, 3]) @ replicate 23 0)"
    by (rule host_packet) simp
qed (simp_all add: host_node host_accepts host_source host_world_def protocol_input_def IP_PROTO_UDP_def)

text \<open>The header of 20 bytes that says 8: the checksum of the first 8 bytes is right.\<close>

definition short_header :: bytes where
  "short_header = [0x42, 0, 0, 20, 0xbd, 0xeb, 0, 0, 64, 17, 0, 0, 10, 0, 0, 2, 10, 0, 0, 1]"

theorem ip4_input_short_header_witness:
  "\<exists>s1 bs. ip4_input host_env 1000 0 (host short_header) = map_option (upd_inet no_packet) (udp_input host_env 1000 0 s1)
     \<and> packet (pbufs s1) 1000 bs [64, 17, 0, 0, 10, 0, 0, 2, 10, 0, 0, 1]"
proof -
  have f: "addr_field 12 short_header = 0x0200000a" by code_simp
  have g: "addr_field 16 short_header = 0x0100000a" by code_simp
  have "lwip_ntohs (u16_field 2 short_header) = 20" by code_simp
  then have h: "unat (lwip_ntohs (u16_field 2 short_header)) = length short_header" by (simp add: short_header_def)
  have i: "ocs (sum_le (take 8 short_header)) = 65535" by (simp add: short_header_def ocs_def)
  have j: "u16_field 6 short_header = 0" by code_simp
  have k: "short_header ! 0 = 0x42" "short_header ! 9 = 17" "length short_header = 20"
    "drop 8 short_header = [64, 17, 0, 0, 10, 0, 0, 2, 10, 0, 0, 1]"
    by (simp_all add: short_header_def)
  have "\<exists>s1 bs. ip4_input host_env 1000 0 (host short_header) = map_option (upd_inet no_packet) (udp_input host_env 1000 0 s1)
     \<and> packet (pbufs s1) 1000 bs (drop 8 short_header)"
    by (rule ip4_input_short_header [where as = "[1000]" and n = "packet_node short_header" and check = True,
          OF host_packet host_sel(3) host_node(1) _ k(1) h i j])
      (simp_all only: f g host_accepts host_source host_sel packet_node_sel k, simp_all add: protocol_input_def IP_PROTO_UDP_def)
  then show ?thesis by (simp only: k)
qed


end
