(* ===== verification/UdpPcbs.thy ===== *)
theory UdpPcbs
  imports Ip4
begin

text \<open>
  The control blocks of UDP (\<open>core/udp.c\<close>): binding, connecting and removing them, the choice of
  a local port, and the choice of the block that gets a datagram. Built for IPv4 only, with broadcast
  filters and without the reuse of addresses. The list \<open>udp_pcbs\<close> is the list of the addresses of the
  blocks on it; \<open>None\<close> is a run that touches a block that is not allocated.
\<close>

subsection \<open>Data\<close>

record udp_pcb =
  local_ip :: u32
  remote_ip :: u32
  so_options :: u8
  pcb_tos :: u8
  pcb_ttl :: u8
  pcb_flags :: u8
  local_port :: u16
  remote_port :: u16
  multicast_ip :: u32
  mcast_ttl :: u8
  recv :: "nat option"
  recv_arg :: nat

record 'w udp =
  udp_port :: u16
  udp_pcbs :: "nat list"
  pcb_at :: "nat \<Rightarrow> udp_pcb option"
  app :: 'w

definition UDP_LOCAL_PORT_RANGE_START :: u16 where "UDP_LOCAL_PORT_RANGE_START = 0xc000"
definition UDP_LOCAL_PORT_RANGE_END :: u16 where "UDP_LOCAL_PORT_RANGE_END = 0xffff"
definition UDP_FLAGS_NOCHKSUM :: u8 where "UDP_FLAGS_NOCHKSUM = 0x01"
definition UDP_FLAGS_CONNECTED :: u8 where "UDP_FLAGS_CONNECTED = 0x04"
definition UDP_FLAGS_MULTICAST_LOOP :: u8 where "UDP_FLAGS_MULTICAST_LOOP = 0x08"
definition SOF_BROADCAST :: u8 where "SOF_BROADCAST = 0x20"
definition UDP_TTL :: u8 where "UDP_TTL = 255"

definition set_pcb :: "nat \<Rightarrow> udp_pcb \<Rightarrow> 'w udp \<Rightarrow> 'w udp" where
  "set_pcb a q w = w\<lparr>pcb_at := (pcb_at w)(a \<mapsto> q)\<rparr>"

text \<open>The blocks on the list with their addresses.\<close>

definition listed :: "'w udp \<Rightarrow> (nat \<times> udp_pcb) list option" where
  "listed w = those (map (\<lambda>a. map_option (Pair a) (pcb_at w a)) (udp_pcbs w))"

subsection \<open>Local ports\<close>

text \<open>The ports of the range are tried in turn; \<open>n\<close> counts those that are taken.\<close>

function new_port_loop :: "u16 list \<Rightarrow> u16 \<Rightarrow> u16 \<Rightarrow> u16 \<times> u16" where
  "new_port_loop ports n port =
     (let port = (if port = UDP_LOCAL_PORT_RANGE_END then UDP_LOCAL_PORT_RANGE_START else port + 1)
      in if port \<in> set ports then
           if n + 1 > UDP_LOCAL_PORT_RANGE_END - UDP_LOCAL_PORT_RANGE_START then (0, port)
           else new_port_loop ports (n + 1) port
         else (port, port))"
  by pat_completeness auto

termination new_port_loop
proof (relation "measure (\<lambda>(ports, n, port). if n = 0xffff then 0x10000 else 0xffff - unat n)", goal_cases)
  case (2 ports n port port')
  then have n: "\<not> 0x3fff < n + 1"
    by (simp add: UDP_LOCAL_PORT_RANGE_END_def UDP_LOCAL_PORT_RANGE_START_def)
  show ?case
  proof (cases "n = 0xffff")
    case False
    have "1 + n \<noteq> 0"
    proof
      assume "1 + n = 0"
      then have "n = - 1" by (metis add_eq_0_iff)
      with False show "False" by simp
    qed
    then have one: "unat (n + 1) = unat n + 1" by (simp add: unatSuc add.commute)
    then have "unat n + 1 \<le> 0x3fff" using n by (simp add: word_less_nat_alt)
    with one show ?thesis using False by (auto simp: word_unat_eq_iff)
  qed simp
qed simp

declare new_port_loop.simps [simp del]

definition udp_new_port :: "'w udp \<Rightarrow> (u16 \<times> 'w udp) option" where
  "udp_new_port w = do {
     ps \<leftarrow> listed w;
     let (port, last_port) = new_port_loop (map (local_port \<circ> snd) ps) 0 (udp_port w);
     Some (port, w\<lparr>udp_port := last_port\<rparr>)
   }"

subsection \<open>Binding and connecting\<close>

text \<open>Another block on the list has the port and an address that overlaps.\<close>

definition port_taken :: "nat \<Rightarrow> u32 \<Rightarrow> u16 \<Rightarrow> (nat \<times> udp_pcb) list \<Rightarrow> bool" where
  "port_taken a ip port ps \<longleftrightarrow> list_ex (\<lambda>(b, q). a \<noteq> b \<and> local_port q = port
     \<and> (ip4_addr_isany_val (local_ip q) \<or> ip4_addr_isany_val ip \<or> local_ip q = ip)) ps"

definition udp_bind :: "nat option \<Rightarrow> u32 option \<Rightarrow> u16 \<Rightarrow> 'w udp \<Rightarrow> (err_t \<times> 'w udp) option" where
  "udp_bind pcb ipaddr port w =
     (let ip = (case ipaddr of None \<Rightarrow> IPADDR_ANY | Some ip \<Rightarrow> ip)
      in case pcb of
           None \<Rightarrow> Some (ERR_VAL, w)
         | Some a \<Rightarrow> do {
             let rebind = (a \<in> set (udp_pcbs w));
             (port, ok, w) \<leftarrow>
               (if port = 0 then map_option (\<lambda>(port, w). (port, port \<noteq> 0, w)) (udp_new_port w)
                else map_option (\<lambda>ps. (port, \<not> port_taken a ip port ps, w)) (listed w));
             if \<not> ok then Some (ERR_USE, w)
             else do {
               q \<leftarrow> pcb_at w a;
               let w = set_pcb a (q\<lparr>local_ip := ip, local_port := port\<rparr>) w;
               Some (ERR_OK, if rebind then w else w\<lparr>udp_pcbs := a # udp_pcbs w\<rparr>)
             }
           })"

definition udp_connect :: "nat option \<Rightarrow> u32 option \<Rightarrow> u16 \<Rightarrow> 'w udp \<Rightarrow> (err_t \<times> 'w udp) option" where
  "udp_connect pcb ipaddr port w =
     (case (pcb, ipaddr) of
        (Some a, Some ip) \<Rightarrow> do {
          q \<leftarrow> pcb_at w a;
          (err, w) \<leftarrow> (if local_port q = 0 then udp_bind pcb (Some (local_ip q)) (local_port q) w
                       else Some (ERR_OK, w));
          if err \<noteq> ERR_OK then Some (err, w)
          else do {
            q \<leftarrow> pcb_at w a;
            let w = set_pcb a (q\<lparr>remote_ip := ip, remote_port := port,
                                 pcb_flags := pcb_flags q OR UDP_FLAGS_CONNECTED\<rparr>) w;
            Some (ERR_OK, if a \<in> set (udp_pcbs w) then w else w\<lparr>udp_pcbs := a # udp_pcbs w\<rparr>)
          }
        }
      | _ \<Rightarrow> Some (ERR_VAL, w))"

definition udp_disconnect :: "nat \<Rightarrow> 'w udp \<Rightarrow> 'w udp option" where
  "udp_disconnect a w = do {
     q \<leftarrow> pcb_at w a;
     Some (set_pcb a (q\<lparr>remote_ip := IPADDR_ANY, remote_port := 0,
                        pcb_flags := pcb_flags q AND NOT UDP_FLAGS_CONNECTED\<rparr>) w)
   }"

definition udp_recv :: "nat \<Rightarrow> nat option \<Rightarrow> nat \<Rightarrow> 'w udp \<Rightarrow> 'w udp option" where
  "udp_recv a f arg w = do {
     q \<leftarrow> pcb_at w a;
     Some (set_pcb a (q\<lparr>recv := f, recv_arg := arg\<rparr>) w)
   }"

definition udp_remove :: "nat \<Rightarrow> 'w udp \<Rightarrow> 'w udp" where
  "udp_remove a w = w\<lparr>udp_pcbs := remove1 a (udp_pcbs w), pcb_at := (pcb_at w)(a := None)\<rparr>"

text \<open>The block that the pool hands out, or \<open>NULL\<close>.\<close>

definition udp_new :: "nat option \<Rightarrow> 'w udp \<Rightarrow> nat option \<times> 'w udp" where
  "udp_new pcb w =
     (case pcb of
        None \<Rightarrow> (None, w)
      | Some a \<Rightarrow>
          (Some a, set_pcb a
             \<lparr>local_ip = 0, remote_ip = 0, so_options = 0, pcb_tos = 0, pcb_ttl = UDP_TTL, pcb_flags = 0,
              local_port = 0, remote_port = 0, multicast_ip = 0, mcast_ttl = UDP_TTL, recv = None, recv_arg = 0\<rparr> w))"

definition udp_new_ip_type :: "nat option \<Rightarrow> 'w udp \<Rightarrow> nat option \<times> 'w udp" where
  "udp_new_ip_type pcb w = udp_new pcb w"

definition addr_changed :: "u32 \<Rightarrow> u32 \<Rightarrow> udp_pcb \<Rightarrow> udp_pcb" where
  "addr_changed old_addr new_addr q =
     (if \<not> ip4_addr_isany_val (local_ip q) \<and> local_ip q = old_addr then q\<lparr>local_ip := new_addr\<rparr> else q)"

definition udp_netif_ipv4_addr_changed :: "u32 \<Rightarrow> u32 option \<Rightarrow> 'w udp \<Rightarrow> 'w udp option" where
  "udp_netif_ipv4_addr_changed old_addr new_addr w =
     (case new_addr of
        Some new \<Rightarrow>
          if ip4_addr_isany_val new then Some w
          else map_option (\<lambda>ps. fold (\<lambda>(a, q). set_pcb a (addr_changed old_addr new q)) ps w) (listed w)
      | None \<Rightarrow> Some w)"

subsection \<open>Demultiplexing\<close>

text \<open>Whether the destination of the current packet is the address of a block.\<close>

definition udp_input_local_match :: "udp_pcb \<Rightarrow> eth_netif \<Rightarrow> bool \<Rightarrow> u32 \<Rightarrow> bool" where
  "udp_input_local_match q inp broadcast dest \<longleftrightarrow>
     (if broadcast then
        so_options q AND SOF_BROADCAST \<noteq> 0
        \<and> (ip4_addr_isany_val (local_ip q) \<or> dest = IPADDR_BROADCAST \<or> ip4_addr_netcmp (local_ip q) dest (netmask inp))
      else ip4_addr_isany_val (local_ip q) \<or> ip4_addr_ismulticast dest \<or> local_ip q = dest)"

definition remote_match :: "udp_pcb \<Rightarrow> u32 \<Rightarrow> u16 \<Rightarrow> bool" where
  "remote_match q src port \<longleftrightarrow> remote_port q = port \<and> (ip4_addr_isany_val (remote_ip q) \<or> remote_ip q = src)"

text \<open>
  The first block with the local address that has the remote address too, and the first that is not
  connected before it.
\<close>

fun input_loop :: "(udp_pcb \<Rightarrow> bool) \<Rightarrow> (udp_pcb \<Rightarrow> bool) \<Rightarrow> (nat \<times> udp_pcb) list \<Rightarrow> nat option \<Rightarrow> nat option \<times> nat option" where
  "input_loop is_local is_remote [] uncon = (None, uncon)"
| "input_loop is_local is_remote ((a, q) # ps) uncon =
     (if is_local q then
        let uncon = (if uncon = None \<and> pcb_flags q AND UDP_FLAGS_CONNECTED = 0 then Some a else uncon)
        in if is_remote q then (Some a, uncon) else input_loop is_local is_remote ps uncon
      else input_loop is_local is_remote ps uncon)"

text \<open>The block that gets a datagram; one that matches fully is moved to the front of the list.\<close>

definition udp_demux :: "eth_netif \<Rightarrow> bool \<Rightarrow> u32 \<Rightarrow> u16 \<Rightarrow> u32 \<Rightarrow> u16 \<Rightarrow> 'w udp \<Rightarrow> (nat option \<times> 'w udp) option" where
  "udp_demux inp broadcast src_ip src dest_ip dest w = do {
     ps \<leftarrow> listed w;
     let (pcb, uncon_pcb) = input_loop (\<lambda>q. local_port q = dest \<and> udp_input_local_match q inp broadcast dest_ip)
                              (\<lambda>q. remote_match q src_ip src) ps None;
     case pcb of
       Some a \<Rightarrow> Some (Some a, if hd (udp_pcbs w) = a then w else w\<lparr>udp_pcbs := a # remove1 a (udp_pcbs w)\<rparr>)
     | None \<Rightarrow> Some (uncon_pcb, w)
   }"

subsection \<open>The blocks on the list\<close>

lemma those_map: "those (map f xs) = Some ys \<longleftrightarrow> map f xs = map Some ys"
proof (induction xs arbitrary: ys)
  case (Cons x xs)
  show ?case by (cases ys) (auto split: option.splits simp: Cons.IH)
qed (auto simp: eq_commute)

lemma listed_iff: "listed w = Some ps \<longleftrightarrow> map fst ps = udp_pcbs w \<and> (\<forall>(a, q) \<in> set ps. pcb_at w a = Some q)"
proof
  assume "listed w = Some ps"
  then have eq: "map (\<lambda>a. map_option (Pair a) (pcb_at w a)) (udp_pcbs w) = map Some ps"
    by (simp add: listed_def those_map)
  then have len: "length (udp_pcbs w) = length ps" by (metis length_map)
  have nth: "map_option (Pair (udp_pcbs w ! i)) (pcb_at w (udp_pcbs w ! i)) = Some (ps ! i)" if "i < length ps" for i
    using arg_cong [OF eq, of "\<lambda>l. l ! i"] that len by simp
  have "udp_pcbs w ! i = fst (ps ! i) \<and> pcb_at w (fst (ps ! i)) = Some (snd (ps ! i))" if "i < length ps" for i
    using nth [OF that] by (cases "ps ! i") auto
  then have parts: "udp_pcbs w ! i = fst (ps ! i)" "pcb_at w (fst (ps ! i)) = Some (snd (ps ! i))" if "i < length ps" for i
    using that by blast+
  have "map fst ps = udp_pcbs w" by (rule nth_equalityI) (use len parts in simp_all)
  moreover have "pcb_at w (fst x) = Some (snd x)" if "x \<in> set ps" for x
    using that parts(2) by (metis in_set_conv_nth)
  ultimately show "map fst ps = udp_pcbs w \<and> (\<forall>(a, q) \<in> set ps. pcb_at w a = Some q)" by auto
next
  assume ps: "map fst ps = udp_pcbs w \<and> (\<forall>(a, q) \<in> set ps. pcb_at w a = Some q)"
  then have "map (\<lambda>a. map_option (Pair a) (pcb_at w a)) (map fst ps) = map Some ps"
    unfolding map_map by (intro map_cong refl) auto
  with ps show "listed w = Some ps" by (simp add: listed_def those_map)
qed

lemma listed_exists:
  assumes "\<forall>a \<in> set (udp_pcbs w). pcb_at w a \<noteq> None"
  obtains ps where "listed w = Some ps"
proof -
  have "listed w = Some (map (\<lambda>a. (a, the (pcb_at w a))) (udp_pcbs w))"
    unfolding listed_iff using assms by (auto simp: o_def)
  then show thesis by (rule that)
qed

lemma set_pcb_sel [simp]: "pcb_at (set_pcb a q w) = (pcb_at w)(a \<mapsto> q)" "udp_pcbs (set_pcb a q w) = udp_pcbs w"
  "udp_port (set_pcb a q w) = udp_port w" "app (set_pcb a q w) = app w"
  by (simp_all add: set_pcb_def)

subsection \<open>Local ports\<close>

definition next_port :: "u16 \<Rightarrow> u16" where
  "next_port port = (if port = 0xffff then 0xc000 else port + 1)"

lemma unat_next_port:
  assumes "0xc000 \<le> unat p"
  shows "unat (next_port p) = 0xc000 + (unat p - 0xc000 + 1) mod 0x4000"
proof (cases "p = 0xffff")
  case False
  have "1 + p \<noteq> 0"
  proof
    assume "1 + p = 0"
    then have "p = - 1" by (metis add_eq_0_iff)
    with False show "False" by simp
  qed
  then have one: "unat (next_port p) = unat p + 1" using False by (simp add: next_port_def unatSuc add.commute)
  have "unat p \<noteq> 0xffff" using False by (simp add: word_unat_eq_iff)
  then have "unat p < 0xffff" using unat_lt_16 [of p] by linarith
  with one assms show ?thesis by simp
qed (simp add: next_port_def)

lemma next_port_range: "0xc000 \<le> unat p \<Longrightarrow> 0xc000 \<le> unat (next_port p)"
  by (simp add: unat_next_port)

lemma unat_next_port_iter: "0xc000 \<le> unat p \<Longrightarrow> unat ((next_port ^^ k) p) = 0xc000 + (unat p - 0xc000 + k) mod 0x4000"
proof (induction k)
  case 0
  with unat_lt_16 [of p] show ?case by (simp del: unat_lt_16)
next
  case (Suc k)
  then have "0xc000 \<le> unat ((next_port ^^ k) p)" by simp
  from unat_next_port [OF this] Suc show ?case by (simp add: mod_Suc_eq)
qed

text \<open>Every port of the range is tried.\<close>

lemma mod_Suc_right: "(x + Suc (y mod m)) mod m = (x + Suc y) mod (m :: nat)"
  using mod_add_right_eq [of "Suc x" y m] by simp

lemma next_port_reaches:
  assumes "0xc000 \<le> unat p" "0xc000 \<le> unat q"
  obtains k where "k < 0x4000" "(next_port ^^ Suc k) p = q"
proof -
  define k where "k = (unat q - 0xc000 + 0x4000 - (unat p - 0xc000) + 0x4000 - 1) mod (0x4000 :: nat)"
  have b: "unat p < 65536" "unat q < 65536" by (rule unat_lt_16)+
  have "(unat p - 0xc000 + Suc k) mod 0x4000 = unat q - 0xc000"
  proof -
    have "(unat p - 0xc000 + Suc k) mod 0x4000
        = (unat p - 0xc000 + Suc (unat q - 0xc000 + 0x4000 - (unat p - 0xc000) + 0x4000 - 1)) mod 0x4000"
      unfolding k_def by (rule mod_Suc_right)
    also have "unat p - 0xc000 + Suc (unat q - 0xc000 + 0x4000 - (unat p - 0xc000) + 0x4000 - 1) = unat q - 0xc000 + 2 * 0x4000"
      using assms b by linarith
    also have "(unat q - 0xc000 + 2 * 0x4000) mod 0x4000 = unat q - 0xc000"
      unfolding mod_mult_self1 by (rule mod_less) (use b in linarith)
    finally show ?thesis .
  qed
  then have "unat ((next_port ^^ Suc k) p) = unat q"
    using unat_next_port_iter [OF assms(1), of "Suc k"] assms(2) by simp
  then show thesis by (intro that [of k]) (simp_all add: k_def word_unat_eq_iff)
qed

lemma new_port_loop_result:
  assumes "unat n < 0x4000" "0xc000 \<le> unat port" "new_port_loop ports n port = (r, last_port)"
  shows "0xc000 \<le> unat last_port \<and> (if r = 0 then \<forall>k < 0x4000 - unat n. (next_port ^^ Suc k) port \<in> set ports
           else r = last_port \<and> r \<notin> set ports)"
  using assms
proof (induction ports n port rule: new_port_loop.induct)
  case (1 ports n port)
  let ?p = "next_port port"
  have step: "new_port_loop ports n port = (if ?p \<in> set ports then if n + 1 > 0x3fff then (0, ?p) else new_port_loop ports (n + 1) ?p else (?p, ?p))"
    by (subst new_port_loop.simps) (simp add: Let_def next_port_def UDP_LOCAL_PORT_RANGE_START_def UDP_LOCAL_PORT_RANGE_END_def)
  have range: "0xc000 \<le> unat ?p" by (rule next_port_range [OF "1.prems"(2)])
  have "1 + n \<noteq> 0"
  proof
    assume "1 + n = 0"
    then have "n = - 1" by (metis add_eq_0_iff)
    with "1.prems"(1) show "False" by (simp add: unsigned_minus_1_eq_mask mask_eq_exp_minus_1)
  qed
  then have n1: "unat (n + 1) = Suc (unat n)" by (simp add: unatSuc add.commute)
  consider "?p \<notin> set ports" | "?p \<in> set ports" "unat n = 0x3fff" | "?p \<in> set ports" "unat n < 0x3fff"
    using "1.prems"(1) by linarith
  then show ?case
  proof cases
    case 1
    then have "new_port_loop ports n port = (?p, ?p)" using step by simp
    then have "r = ?p" "last_port = ?p" using "1.prems"(3) by simp_all
    then show ?thesis using 1 range by auto
  next
    case 2
    then have "n + 1 > 0x3fff" by (simp add: word_less_nat_alt n1)
    then show ?thesis using 2 "1.prems"(3) step range by auto
  next
    case 3
    then have le: "\<not> n + 1 > 0x3fff" by (simp add: word_less_nat_alt n1)
    then have run: "new_port_loop ports (n + 1) ?p = (r, last_port)" using 3 "1.prems"(3) step by simp
    have IH: "0xc000 \<le> unat last_port \<and> (if r = 0 then \<forall>k < 0x4000 - unat (n + 1). (next_port ^^ Suc k) ?p \<in> set ports
           else r = last_port \<and> r \<notin> set ports)"
    proof (rule "1.IH" [OF _ _ _ _ _ run])
      show "?p = (if port = UDP_LOCAL_PORT_RANGE_END then UDP_LOCAL_PORT_RANGE_START else port + 1)"
        by (simp add: next_port_def UDP_LOCAL_PORT_RANGE_START_def UDP_LOCAL_PORT_RANGE_END_def)
      show "\<not> n + 1 > UDP_LOCAL_PORT_RANGE_END - UDP_LOCAL_PORT_RANGE_START"
        using le by (simp add: UDP_LOCAL_PORT_RANGE_START_def UDP_LOCAL_PORT_RANGE_END_def)
    qed (use 3 range n1 in auto)
    have "(next_port ^^ Suc k) port \<in> set ports" if "r = 0" "k < 0x4000 - unat n" for k
    proof (cases k)
      case 0
      then show ?thesis using 3 by simp
    next
      case (Suc j)
      then have "(next_port ^^ Suc j) ?p \<in> set ports" using IH that n1 by simp
      then show ?thesis by (simp only: Suc funpow_Suc_right o_apply)
    qed
    with IH show ?thesis by auto
  qed
qed

lemma new_port_loop_free:
  assumes "0xc000 \<le> unat port" "new_port_loop ports 0 port = (r, last_port)"
  shows "0xc000 \<le> unat last_port" "r \<noteq> 0 \<Longrightarrow> r \<notin> set ports \<and> 0xc000 \<le> unat r"
    "r = 0 \<Longrightarrow> 0xc000 \<le> unat q \<Longrightarrow> q \<in> set ports"
proof -
  have res: "0xc000 \<le> unat last_port \<and> (if r = 0 then \<forall>k < 0x4000 - unat (0 :: u16). (next_port ^^ Suc k) port \<in> set ports
           else r = last_port \<and> r \<notin> set ports)"
    by (rule new_port_loop_result [OF _ assms]) simp
  then show "0xc000 \<le> unat last_port" "r \<noteq> 0 \<Longrightarrow> r \<notin> set ports \<and> 0xc000 \<le> unat r" by auto
  assume "r = 0" "0xc000 \<le> unat q"
  obtain k where "k < 0x4000" "(next_port ^^ Suc k) port = q" by (rule next_port_reaches [OF assms(1) \<open>0xc000 \<le> unat q\<close>])
  with res \<open>r = 0\<close> show "q \<in> set ports" by auto
qed

subsection \<open>The invariant\<close>

text \<open>
  Exactly the allocated blocks with a local port are on the list, once; two of them that share a port
  have different addresses, of which none is the wildcard; the last local port is in its range.
\<close>

definition overlap :: "u32 \<Rightarrow> u32 \<Rightarrow> bool" where
  "overlap a b \<longleftrightarrow> a = IPADDR_ANY \<or> b = IPADDR_ANY \<or> a = b"

definition udp_ok :: "'w udp \<Rightarrow> bool" where
  "udp_ok w \<longleftrightarrow> distinct (udp_pcbs w) \<and> (\<forall>a. a \<in> set (udp_pcbs w) \<longleftrightarrow> (\<exists>q. pcb_at w a = Some q \<and> local_port q \<noteq> 0))
     \<and> (\<forall>a b p q. pcb_at w a = Some p \<and> pcb_at w b = Some q \<and> a \<noteq> b \<and> local_port p \<noteq> 0 \<and> local_port p = local_port q
          \<longrightarrow> \<not> overlap (local_ip p) (local_ip q))
     \<and> UDP_LOCAL_PORT_RANGE_START \<le> udp_port w"

lemma udp_okD:
  assumes "udp_ok w"
  shows "distinct (udp_pcbs w)" "a \<in> set (udp_pcbs w) \<longleftrightarrow> (\<exists>q. pcb_at w a = Some q \<and> local_port q \<noteq> 0)"
    "0xc000 \<le> unat (udp_port w)"
    "pcb_at w a = Some p \<Longrightarrow> pcb_at w b = Some q \<Longrightarrow> local_port p \<noteq> 0 \<Longrightarrow> local_port p = local_port q
       \<Longrightarrow> overlap (local_ip p) (local_ip q) \<Longrightarrow> a = b"
proof -
  show "distinct (udp_pcbs w)" "a \<in> set (udp_pcbs w) \<longleftrightarrow> (\<exists>q. pcb_at w a = Some q \<and> local_port q \<noteq> 0)"
    using assms by (simp_all add: udp_ok_def)
  show "0xc000 \<le> unat (udp_port w)"
    using assms by (simp add: udp_ok_def UDP_LOCAL_PORT_RANGE_START_def word_le_nat_alt)
  show "pcb_at w a = Some p \<Longrightarrow> pcb_at w b = Some q \<Longrightarrow> local_port p \<noteq> 0 \<Longrightarrow> local_port p = local_port q
       \<Longrightarrow> overlap (local_ip p) (local_ip q) \<Longrightarrow> a = b"
    using assms unfolding udp_ok_def by blast
qed

lemma udp_okI:
  assumes "distinct (udp_pcbs w)" "\<And>a. a \<in> set (udp_pcbs w) \<longleftrightarrow> (\<exists>q. pcb_at w a = Some q \<and> local_port q \<noteq> 0)"
    "\<And>a b p q. pcb_at w a = Some p \<Longrightarrow> pcb_at w b = Some q \<Longrightarrow> a \<noteq> b \<Longrightarrow> local_port p \<noteq> 0 \<Longrightarrow> local_port p = local_port q
       \<Longrightarrow> \<not> overlap (local_ip p) (local_ip q)"
    "0xc000 \<le> unat (udp_port w)"
  shows "udp_ok w"
  using assms unfolding udp_ok_def UDP_LOCAL_PORT_RANGE_START_def word_le_nat_alt by (simp, blast)

lemma overlap_sym: "overlap a b \<longleftrightarrow> overlap b a"
  by (auto simp: overlap_def)

lemma udp_ok_listed:
  assumes "udp_ok w"
  obtains ps where "listed w = Some ps" "\<forall>a q. (a, q) \<in> set ps \<longleftrightarrow> pcb_at w a = Some q \<and> local_port q \<noteq> 0"
    "map fst ps = udp_pcbs w"
proof -
  obtain ps where ps: "listed w = Some ps"
    by (rule listed_exists [of w]) (use udp_okD(2) [OF assms] in auto)
  then have parts: "map fst ps = udp_pcbs w" "\<forall>(a, q) \<in> set ps. pcb_at w a = Some q" by (simp_all add: listed_iff)
  have "(a, q) \<in> set ps \<longleftrightarrow> pcb_at w a = Some q \<and> local_port q \<noteq> 0" for a q
  proof
    assume "(a, q) \<in> set ps"
    then have "pcb_at w a = Some q" "a \<in> set (map fst ps)" using parts(2) by force+
    then show "pcb_at w a = Some q \<and> local_port q \<noteq> 0"
      unfolding parts(1) using udp_okD(2) [OF assms, of a] by simp
  next
    assume q: "pcb_at w a = Some q \<and> local_port q \<noteq> 0"
    then have "a \<in> set (map fst ps)" unfolding parts(1) using udp_okD(2) [OF assms, of a] by simp
    then obtain r where "(a, r) \<in> set ps" by auto
    with q parts(2) show "(a, q) \<in> set ps" by fastforce
  qed
  with that [OF ps _ parts(1)] show thesis by blast
qed

text \<open>What is kept when a block changes.\<close>

lemma udp_ok_unbound:
  assumes "udp_ok w" "pcb_at w a = Some q" "local_ip q' = local_ip q" "local_port q' = local_port q"
  shows "udp_ok (set_pcb a q' w)"
proof (rule udp_okI)
  show "distinct (udp_pcbs (set_pcb a q' w))" "0xc000 \<le> unat (udp_port (set_pcb a q' w))"
    using udp_okD(1,3) [OF assms(1)] by simp_all
  show "b \<in> set (udp_pcbs (set_pcb a q' w)) \<longleftrightarrow> (\<exists>r. pcb_at (set_pcb a q' w) b = Some r \<and> local_port r \<noteq> 0)" for b
    using udp_okD(2) [OF assms(1)] assms(2,4) by simp
next
  fix b c p r
  assume h: "pcb_at (set_pcb a q' w) b = Some p" "pcb_at (set_pcb a q' w) c = Some r" "b \<noteq> c" "local_port p \<noteq> 0" "local_port p = local_port r"
  obtain p0 where "pcb_at w b = Some p0" "local_ip p0 = local_ip p" "local_port p0 = local_port p"
    using h(1) assms(2-4) by (cases "b = a") auto
  moreover obtain r0 where "pcb_at w c = Some r0" "local_ip r0 = local_ip r" "local_port r0 = local_port r"
    using h(2) assms(2-4) by (cases "c = a") auto
  ultimately show "\<not> overlap (local_ip p) (local_ip r)" using udp_okD(4) [OF assms(1)] h(3-5) by metis
qed

lemma udp_ok_bound:
  assumes "udp_ok w" "pcb_at w a = Some q" "local_port q' \<noteq> 0" "0xc000 \<le> unat port"
    and free: "\<And>b r. b \<noteq> a \<Longrightarrow> pcb_at w b = Some r \<Longrightarrow> local_port r = local_port q' \<Longrightarrow> \<not> overlap (local_ip r) (local_ip q')"
    and w': "w' = set_pcb a q' (w\<lparr>udp_port := port\<rparr>)"
  shows "udp_ok (if a \<in> set (udp_pcbs w) then w' else w'\<lparr>udp_pcbs := a # udp_pcbs w'\<rparr>)"
proof (rule udp_okI)
  let ?w = "if a \<in> set (udp_pcbs w) then w' else w'\<lparr>udp_pcbs := a # udp_pcbs w'\<rparr>"
  have at: "pcb_at ?w = (pcb_at w)(a \<mapsto> q')" by (simp add: w')
  show "distinct (udp_pcbs ?w)" using udp_okD(1) [OF assms(1)] by (simp add: w')
  show "0xc000 \<le> unat (udp_port ?w)" using assms(4) by (simp add: w')
  show "b \<in> set (udp_pcbs ?w) \<longleftrightarrow> (\<exists>r. pcb_at ?w b = Some r \<and> local_port r \<noteq> 0)" for b
    unfolding at using udp_okD(2) [OF assms(1), of b] assms(2,3) by (cases "b = a") (auto simp: w')
  fix b c p r
  assume h: "pcb_at ?w b = Some p" "pcb_at ?w c = Some r" "b \<noteq> c" "local_port p \<noteq> 0" "local_port p = local_port r"
  then show "\<not> overlap (local_ip p) (local_ip r)"
    unfolding at using free [of b p] free [of c r] udp_okD(4) [OF assms(1), of b p c r] overlap_sym [of "local_ip p"]
    by (auto split: if_splits)
qed

lemma udp_ok_sel: "udp_ok w \<Longrightarrow> set ps = set (udp_pcbs w) \<Longrightarrow> distinct ps \<Longrightarrow> 0xc000 \<le> unat port \<Longrightarrow> udp_ok (w\<lparr>udp_pcbs := ps, udp_port := port, app := x\<rparr>)"
  unfolding udp_ok_def UDP_LOCAL_PORT_RANGE_START_def word_le_nat_alt by (simp, blast)

subsection \<open>What the operations do\<close>

text \<open>A local port is found exactly when one of the range is free.\<close>

lemma udp_new_port_result:
  assumes "udp_ok w"
  obtains port l where "udp_new_port w = Some (port, w\<lparr>udp_port := l\<rparr>)" "0xc000 \<le> unat l"
    "port \<noteq> 0 \<longrightarrow> 0xc000 \<le> unat port \<and> (\<forall>a q. pcb_at w a = Some q \<longrightarrow> local_port q \<noteq> port)"
    "port = 0 \<longrightarrow> (\<forall>other. 0xc000 \<le> unat other \<longrightarrow> (\<exists>a q. pcb_at w a = Some q \<and> local_port q = other))"
proof -
  obtain ps where ps: "listed w = Some ps" "\<forall>a q. (a, q) \<in> set ps \<longleftrightarrow> pcb_at w a = Some q \<and> local_port q \<noteq> 0"
    "map fst ps = udp_pcbs w" by (rule udp_ok_listed [OF assms])
  obtain port l where run: "new_port_loop (map (local_port \<circ> snd) ps) 0 (udp_port w) = (port, l)" by force
  note res = new_port_loop_free [OF udp_okD(3) [OF assms] run]
  have member: "p \<in> set (map (local_port \<circ> snd) ps) \<longleftrightarrow> (\<exists>a q. pcb_at w a = Some q \<and> local_port q \<noteq> 0 \<and> local_port q = p)" for p
    using ps(2) by (force simp: image_iff)
  have "port \<noteq> 0 \<longrightarrow> 0xc000 \<le> unat port \<and> (\<forall>a q. pcb_at w a = Some q \<longrightarrow> local_port q \<noteq> port)"
    using res(2) member [of port] by blast
  moreover have "port = 0 \<longrightarrow> (\<forall>other. 0xc000 \<le> unat other \<longrightarrow> (\<exists>a q. pcb_at w a = Some q \<and> local_port q = other))"
    using res(3) member by blast
  moreover have "udp_new_port w = Some (port, w\<lparr>udp_port := l\<rparr>)" by (simp add: udp_new_port_def ps(1) run)
  ultimately show thesis using res(1) by (intro that [of port l])
qed

lemma port_taken_iff:
  assumes "\<forall>a q. (a, q) \<in> set ps \<longleftrightarrow> pcb_at w a = Some q \<and> local_port q \<noteq> 0" "port \<noteq> 0"
  shows "port_taken a ip port ps \<longleftrightarrow> (\<exists>b q. b \<noteq> a \<and> pcb_at w b = Some q \<and> local_port q = port \<and> overlap (local_ip q) ip)"
  unfolding port_taken_def list_ex_iff overlap_def ip4_addr_isany_val_def using assms by fastforce

lemma udp_ok_port: "udp_ok w \<Longrightarrow> 0xc000 \<le> unat l \<Longrightarrow> udp_ok (w\<lparr>udp_port := l\<rparr>)"
  unfolding udp_ok_def UDP_LOCAL_PORT_RANGE_START_def word_le_nat_alt by (simp, blast)

text \<open>A block is bound, or no port is free or the one asked for is taken.\<close>

lemma udp_bindE:
  assumes ok: "udp_ok w" and q: "pcb_at w a = Some q" and ip: "ip = (case ipaddr of None \<Rightarrow> IPADDR_ANY | Some ip \<Rightarrow> ip)"
  obtains (bound) port' w' where "udp_bind (Some a) ipaddr port w = Some (ERR_OK, w')" "port' \<noteq> 0" "port \<noteq> 0 \<longrightarrow> port' = port"
    "port = 0 \<longrightarrow> 0xc000 \<le> unat port' \<and> (\<forall>b r. pcb_at w b = Some r \<longrightarrow> local_port r \<noteq> port')"
    "\<forall>b r. b \<noteq> a \<longrightarrow> pcb_at w b = Some r \<longrightarrow> local_port r = port' \<longrightarrow> \<not> overlap (local_ip r) ip"
    "pcb_at w' = (pcb_at w)(a \<mapsto> q\<lparr>local_ip := ip, local_port := port'\<rparr>)" "app w' = app w" "udp_ok w'" "a \<in> set (udp_pcbs w')"
  | (in_use) l where "udp_bind (Some a) ipaddr port w = Some (ERR_USE, w\<lparr>udp_port := l\<rparr>)" "0xc000 \<le> unat l"
    "port \<noteq> 0 \<longrightarrow> l = udp_port w \<and> (\<exists>b r. b \<noteq> a \<and> pcb_at w b = Some r \<and> local_port r = port \<and> overlap (local_ip r) ip)"
    "port = 0 \<longrightarrow> (\<forall>p. 0xc000 \<le> unat p \<longrightarrow> (\<exists>b r. pcb_at w b = Some r \<and> local_port r = p))"
proof -
  note range = udp_okD(3) [OF ok]
  have bind: thesis
    if run: "udp_bind (Some a) ipaddr port w = Some (ERR_OK, if a \<in> set (udp_pcbs w) then w1 else w1\<lparr>udp_pcbs := a # udp_pcbs w1\<rparr>)"
      and w1: "w1 = set_pcb a (q\<lparr>local_ip := ip, local_port := p\<rparr>) (w\<lparr>udp_port := l\<rparr>)" and p: "p \<noteq> 0" "0xc000 \<le> unat l"
      and free: "\<forall>b r. b \<noteq> a \<longrightarrow> pcb_at w b = Some r \<longrightarrow> local_port r = p \<longrightarrow> \<not> overlap (local_ip r) ip"
      and port: "port \<noteq> 0 \<longrightarrow> p = port" "port = 0 \<longrightarrow> 0xc000 \<le> unat p \<and> (\<forall>b r. pcb_at w b = Some r \<longrightarrow> local_port r \<noteq> p)"
    for p l w1
  proof (rule bound [OF run p(1) port free])
    show "udp_ok (if a \<in> set (udp_pcbs w) then w1 else w1\<lparr>udp_pcbs := a # udp_pcbs w1\<rparr>)"
      by (rule udp_ok_bound [OF ok q _ p(2) _ w1]) (use p free in auto)
  qed (simp_all add: w1)
  show thesis
  proof (cases "port = 0")
    case True
    obtain p l where new: "udp_new_port w = Some (p, w\<lparr>udp_port := l\<rparr>)" "0xc000 \<le> unat l"
      "p \<noteq> 0 \<longrightarrow> 0xc000 \<le> unat p \<and> (\<forall>a q. pcb_at w a = Some q \<longrightarrow> local_port q \<noteq> p)"
      "p = 0 \<longrightarrow> (\<forall>other. 0xc000 \<le> unat other \<longrightarrow> (\<exists>a q. pcb_at w a = Some q \<and> local_port q = other))"
      by (rule udp_new_port_result [OF ok])
    show thesis
    proof (cases "p = 0")
      case True
      show thesis
        by (rule in_use [of l]) (use new True \<open>port = 0\<close> in \<open>simp_all add: udp_bind_def\<close>)
    next
      case False
      show thesis
        by (rule bind [OF _ refl False new(2)]) (use new False True q in \<open>simp_all add: udp_bind_def ip\<close>)
    qed
  next
    case False
    obtain ps where ps: "listed w = Some ps" "\<forall>a q. (a, q) \<in> set ps \<longleftrightarrow> pcb_at w a = Some q \<and> local_port q \<noteq> 0"
      "map fst ps = udp_pcbs w" by (rule udp_ok_listed [OF ok])
    note taken = port_taken_iff [OF ps(2) False, of a ip]
    show thesis
    proof (cases "port_taken a ip port ps")
      case True
      then show thesis
        using taken by (intro in_use [of "udp_port w"]) (use False ps(1) range in \<open>simp_all add: udp_bind_def ip [symmetric]\<close>)
    next
      case free: False
      have w: "w = w\<lparr>udp_port := udp_port w\<rparr>" by simp
      show thesis
        by (rule bind [OF _ refl False range]) (use free taken False q ps(1) in \<open>auto simp: udp_bind_def ip [symmetric]\<close>)
    qed
  qed
qed

lemma udp_bind_after:
  assumes "udp_ok w" "pcb_at w a = Some q" "udp_bind (Some a) ipaddr port w = Some (e, w')"
  shows "udp_ok w'" "e = ERR_OK \<Longrightarrow> pcb_at w' a \<noteq> None \<and> a \<in> set (udp_pcbs w')"
proof -
  have "udp_ok w' \<and> (e = ERR_OK \<longrightarrow> pcb_at w' a \<noteq> None \<and> a \<in> set (udp_pcbs w'))"
    by (rule udp_bindE [OF assms(1,2) refl, of ipaddr port]) (use assms(3) udp_ok_port [OF assms(1)] in auto)
  then show "udp_ok w'" "e = ERR_OK \<Longrightarrow> pcb_at w' a \<noteq> None \<and> a \<in> set (udp_pcbs w')" by simp_all
qed

lemma udp_connect_keeps:
  assumes "udp_ok w" "pcb_at w a = Some q" "udp_connect (Some a) ipaddr port w = Some (e, w')"
  shows "udp_ok w'"
proof (cases ipaddr)
  case (Some ip)
  obtain e1 w1 where first: "(if local_port q = 0 then udp_bind (Some a) (Some (local_ip q)) (local_port q) w else Some (ERR_OK, w)) = Some (e1, w1)"
    using assms(2,3) Some by (auto simp: udp_connect_def split: if_splits bind_splits)
  have "udp_ok w1 \<and> (e1 = ERR_OK \<longrightarrow> (\<exists>r. pcb_at w1 a = Some r) \<and> a \<in> set (udp_pcbs w1))"
  proof (cases "local_port q = 0")
    case True
    then have "udp_bind (Some a) (Some (local_ip q)) (local_port q) w = Some (e1, w1)" using first by simp
    from udp_bind_after [OF assms(1,2) this] show ?thesis by simp
  next
    case False
    then show ?thesis using first assms(1,2) udp_okD(2) [OF assms(1), of a] by auto
  qed
  then show ?thesis
    using first assms(2,3) Some by (auto simp: udp_connect_def Let_def split: if_splits bind_splits intro: udp_ok_unbound)
qed (use assms in \<open>simp add: udp_connect_def\<close>)

lemma udp_remove_keeps: "udp_ok w \<Longrightarrow> udp_ok (udp_remove a w)"
  unfolding udp_ok_def udp_remove_def by auto

lemma udp_new_keeps: "udp_ok w \<Longrightarrow> pcb_at w a = None \<Longrightarrow> udp_ok (snd (udp_new (Some a) w))"
  unfolding udp_ok_def udp_new_def by (auto simp: set_pcb_def)

text \<open>The new address replaces the old one in the blocks on the list.\<close>

lemma fold_set_pcb:
  "distinct (map fst ps) \<Longrightarrow> pcb_at (fold (\<lambda>(a, q). set_pcb a (f q)) ps w) b
     = (case map_of ps b of Some q \<Rightarrow> Some (f q) | None \<Rightarrow> pcb_at w b)"
  "udp_pcbs (fold (\<lambda>(a, q). set_pcb a (f q)) ps w) = udp_pcbs w"
  "udp_port (fold (\<lambda>(a, q). set_pcb a (f q)) ps w) = udp_port w"
proof (induction ps arbitrary: w)
  case (Cons x ps)
  obtain a q where x: "x = (a, q)" by force
  {
    case 1
    then have "map_of ps a = None" by (force simp: x map_of_eq_None_iff)
    with 1 show ?case using Cons.IH(1) by (simp add: x split: option.splits)
  }
qed (simp_all add: split_def)

lemma addr_changedE:
  assumes "udp_ok w" "new \<noteq> IPADDR_ANY"
  obtains w' where "udp_netif_ipv4_addr_changed old (Some new) w = Some w'" "udp_pcbs w' = udp_pcbs w" "udp_port w' = udp_port w"
    "\<forall>a. pcb_at w' a = map_option (\<lambda>q. if local_port q \<noteq> 0 then addr_changed old new q else q) (pcb_at w a)"
proof -
  obtain ps where ps: "listed w = Some ps" "\<forall>a q. (a, q) \<in> set ps \<longleftrightarrow> pcb_at w a = Some q \<and> local_port q \<noteq> 0"
    "map fst ps = udp_pcbs w" by (rule udp_ok_listed [OF assms(1)])
  have d: "distinct (map fst ps)" using udp_okD(1) [OF assms(1)] ps(3) by simp
  let ?w = "fold (\<lambda>(a, q). set_pcb a (addr_changed old new q)) ps w"
  have "pcb_at ?w a = map_option (\<lambda>q. if local_port q \<noteq> 0 then addr_changed old new q else q) (pcb_at w a)" for a
  proof (cases "map_of ps a")
    case None
    then have "(a, q) \<notin> set ps" for q by (force simp: map_of_eq_None_iff)
    then show ?thesis using ps(2) None by (cases "pcb_at w a") (auto simp: fold_set_pcb(1) [OF d])
  next
    case (Some q)
    then have "pcb_at w a = Some q \<and> local_port q \<noteq> 0" using ps(2) map_of_SomeD by metis
    with Some show ?thesis by (simp add: fold_set_pcb(1) [OF d])
  qed
  then show thesis
    by (intro that [of ?w]) (simp_all add: udp_netif_ipv4_addr_changed_def assms(2) ip4_addr_isany_val_def ps(1) fold_set_pcb)
qed

lemma addr_changed_sel [simp]: "local_port (addr_changed old new q) = local_port q"
  by (simp add: addr_changed_def)

lemma addr_changed_keeps:
  assumes "udp_ok w" "\<forall>a q. pcb_at w a = Some q \<and> local_port q \<noteq> 0 \<longrightarrow> local_ip q \<noteq> new"
    and "udp_netif_ipv4_addr_changed old (Some new) w = Some w'"
  shows "udp_ok w'"
proof (cases "new = IPADDR_ANY")
  case True
  then show ?thesis using assms by (simp add: udp_netif_ipv4_addr_changed_def ip4_addr_isany_val_def)
next
  case False
  have w': "udp_pcbs w' = udp_pcbs w" "udp_port w' = udp_port w"
    "pcb_at w' a = map_option (\<lambda>q. if local_port q \<noteq> 0 then addr_changed old new q else q) (pcb_at w a)" for a
    by (rule addr_changedE [OF assms(1) False, of old]; use assms(3) in simp)+
  show ?thesis
  proof (rule udp_okI)
    show "distinct (udp_pcbs w')" "0xc000 \<le> unat (udp_port w')" using udp_okD(1,3) [OF assms(1)] w' by simp_all
    show "a \<in> set (udp_pcbs w') \<longleftrightarrow> (\<exists>q. pcb_at w' a = Some q \<and> local_port q \<noteq> 0)" for a
      unfolding w' using udp_okD(2) [OF assms(1), of a] by (auto split: if_splits)
    fix a b p q
    assume h: "pcb_at w' a = Some p" "pcb_at w' b = Some q" "a \<noteq> b" "local_port p \<noteq> 0" "local_port p = local_port q"
    obtain p0 where p0: "pcb_at w a = Some p0" "local_port p0 = local_port p" "p = addr_changed old new p0"
      using h(1,4) by (auto simp: w' split: if_splits)
    obtain q0 where q0: "pcb_at w b = Some q0" "local_port q0 = local_port q" "q = addr_changed old new q0"
      using h(2,4,5) by (auto simp: w' split: if_splits)
    have "\<not> overlap (local_ip p0) (local_ip q0)" using udp_okD(4) [OF assms(1) p0(1) q0(1)] h p0(2) q0(2) by auto
    moreover have "local_ip p0 \<noteq> new" using assms(2) p0(1,2) h(4) by auto
    moreover have "local_ip q0 \<noteq> new" using assms(2) q0(1,2) h(4,5) by auto
    ultimately show "\<not> overlap (local_ip p) (local_ip q)"
      using False unfolding p0(3) q0(3) overlap_def addr_changed_def ip4_addr_isany_val_def by (auto split: if_splits)
  qed
qed

text \<open>Demultiplexing: the first full match, or else the first block that is not connected.\<close>

lemma input_loop_result:
  "fst (input_loop L R ps u) = map_option fst (find (\<lambda>(a, q). L q \<and> R q) ps)"
  "fst (input_loop L R ps u) = None \<Longrightarrow> snd (input_loop L R ps u) =
     (case u of Some a \<Rightarrow> Some a | None \<Rightarrow> map_option fst (find (\<lambda>(a, q). L q \<and> pcb_flags q AND UDP_FLAGS_CONNECTED = 0) ps))"
proof (induction ps arbitrary: u)
  case (Cons x ps)
  obtain a q where x: "x = (a, q)" by force
  {
    case 1
    show ?case using Cons.IH(1) by (simp add: x Let_def)
  next
    case 2
    then have "\<not> (L q \<and> R q)" "find (\<lambda>(a, q). L q \<and> R q) ps = None"
      unfolding Cons.IH(1) [symmetric] by (auto simp: x Let_def Cons.IH(1) split: if_splits)
    then show ?case using Cons.IH by (cases u) (auto simp: x Let_def)
  }
qed (simp_all split: option.splits)

lemma find_SomeD: "find P xs = Some x \<Longrightarrow> x \<in> set xs \<and> P x"
  by (metis find_Some_iff nth_mem)

lemma udp_demuxE:
  assumes "udp_ok w"
  obtains a l where "udp_demux inp broadcast src_ip src dest_ip dest w = Some (a, w\<lparr>udp_pcbs := l\<rparr>)"
    "distinct l" "set l = set (udp_pcbs w)"
proof -
  obtain ps where ps: "listed w = Some ps" "\<forall>a q. (a, q) \<in> set ps \<longleftrightarrow> pcb_at w a = Some q \<and> local_port q \<noteq> 0"
    "map fst ps = udp_pcbs w" by (rule udp_ok_listed [OF assms])
  let ?L = "\<lambda>q. local_port q = dest \<and> udp_input_local_match q inp broadcast dest_ip"
  let ?R = "\<lambda>q. remote_match q src_ip src"
  note d = udp_okD(1) [OF assms]
  obtain full uncon where run: "input_loop ?L ?R ps None = (full, uncon)" by force
  show thesis
  proof (cases full)
    case None
    have w: "w = w\<lparr>udp_pcbs := udp_pcbs w\<rparr>" by simp
    show thesis
      by (rule that [of uncon "udp_pcbs w"]) (use None run ps(1) d in \<open>simp_all add: udp_demux_def\<close>)
  next
    case (Some a)
    then obtain q where "find (\<lambda>(a, q). ?L q \<and> ?R q) ps = Some (a, q)"
      using input_loop_result(1) [of ?L ?R ps None] unfolding run by (auto simp: eq_commute [of "Some a"])
    then have "(a, q) \<in> set ps" using find_SomeD by fast
    then have "a \<in> set (udp_pcbs w)" unfolding ps(3) [symmetric] by force
    then show thesis
      by (intro that [of full "if hd (udp_pcbs w) = a then udp_pcbs w else a # remove1 a (udp_pcbs w)"])
        (use Some run ps(1) d in \<open>auto simp: udp_demux_def\<close>)
  qed
qed

text \<open>The block that gets a unicast datagram.\<close>

lemma find_unique:
  assumes "\<And>x y. x \<in> set xs \<Longrightarrow> y \<in> set xs \<Longrightarrow> P x \<Longrightarrow> P y \<Longrightarrow> x = y"
  shows "find P xs = Some x \<longleftrightarrow> x \<in> set xs \<and> P x"
proof
  assume "x \<in> set xs \<and> P x"
  moreover from this obtain y where "find P xs = Some y" by (metis find_None_iff not_None_eq)
  ultimately show "find P xs = Some x" using find_SomeD [of P xs y] assms [of x y] by simp
qed (rule find_SomeD)

lemma udp_demux_result:
  assumes "udp_ok w" "\<not> ip4_addr_ismulticast dest_ip"
  shows "\<exists>r w'. udp_demux inp False src_ip src dest_ip dest w = Some (r, w') \<and> pcb_at w' = pcb_at w
    \<and> (\<forall>a. r = Some a \<longleftrightarrow> (\<exists>q. pcb_at w a = Some q \<and> local_port q \<noteq> 0 \<and> local_port q = dest
         \<and> (local_ip q = IPADDR_ANY \<or> local_ip q = dest_ip)
         \<and> (remote_match q src_ip src \<or> pcb_flags q AND UDP_FLAGS_CONNECTED = 0)))"
proof -
  obtain ps where ps: "listed w = Some ps" "\<forall>a q. (a, q) \<in> set ps \<longleftrightarrow> pcb_at w a = Some q \<and> local_port q \<noteq> 0"
    "map fst ps = udp_pcbs w" by (rule udp_ok_listed [OF assms(1)])
  let ?L = "\<lambda>q. local_port q = dest \<and> udp_input_local_match q inp False dest_ip"
  let ?R = "\<lambda>q. remote_match q src_ip src" and ?C = "\<lambda>q. pcb_flags q AND UDP_FLAGS_CONNECTED = 0"
  have local: "?L q \<longleftrightarrow> local_port q = dest \<and> (local_ip q = IPADDR_ANY \<or> local_ip q = dest_ip)" for q
    using assms(2) by (simp add: udp_input_local_match_def ip4_addr_isany_val_def)
  have one: "x = y" if xy: "(\<lambda>(a, q). ?L q) x" "(\<lambda>(a, q). ?L q) y" "x \<in> set ps" "y \<in> set ps" for x y
  proof -
    obtain a p b q where [simp]: "x = (a, p)" "y = (b, q)" by (cases x, cases y)
    have at: "pcb_at w a = Some p" "pcb_at w b = Some q" "local_port p \<noteq> 0" using xy(3,4) ps(2) by auto
    have "a = b"
      by (rule udp_okD(4) [OF assms(1) at]) (use xy(1,2) local in \<open>auto simp: overlap_def\<close>)
    with at show ?thesis by simp
  qed
  have find: "map_option fst (find (\<lambda>(a, q). ?L q \<and> P q) ps) = Some a \<longleftrightarrow> (\<exists>q. (a, q) \<in> set ps \<and> ?L q \<and> P q)" for P a
  proof -
    have "find (\<lambda>(a, q). ?L q \<and> P q) ps = Some x \<longleftrightarrow> x \<in> set ps \<and> (\<lambda>(a, q). ?L q \<and> P q) x" for x
      by (rule find_unique) (use one in auto)
    then show ?thesis by force
  qed
  obtain full uncon where loop: "input_loop ?L ?R ps None = (full, uncon)" by force
  have full: "full = map_option fst (find (\<lambda>(a, q). ?L q \<and> ?R q) ps)"
    using input_loop_result(1) [of ?L ?R ps None] by (simp add: loop)
  have run: "udp_demux inp False src_ip src dest_ip dest w = Some (if full = None then uncon else full,
      case full of None \<Rightarrow> w | Some a \<Rightarrow> if hd (udp_pcbs w) = a then w else w\<lparr>udp_pcbs := a # remove1 a (udp_pcbs w)\<rparr>)"
    by (simp add: udp_demux_def ps(1) loop split: option.split)
  have "(if full = None then uncon else full) = Some a \<longleftrightarrow> (\<exists>q. (a, q) \<in> set ps \<and> ?L q \<and> (?R q \<or> ?C q))" for a
  proof (cases full)
    case None
    then have "uncon = map_option fst (find (\<lambda>(a, q). ?L q \<and> ?C q) ps)"
      using input_loop_result(2) [of ?L ?R ps None] by (simp add: loop)
    moreover have "\<not> (?L q \<and> ?R q)" if "(b, q) \<in> set ps" for b q
      using None that unfolding full by (auto simp: find_None_iff)
    ultimately show ?thesis using None find [of ?C a] by auto
  next
    case (Some b)
    then obtain q where q: "(b, q) \<in> set ps" "?L q \<and> ?R q" using find [of ?R b] full by auto
    show ?thesis
    proof
      assume "\<exists>r. (a, r) \<in> set ps \<and> ?L r \<and> (?R r \<or> ?C r)"
      then obtain r where "(a, r) \<in> set ps" "?L r" by blast
      then have "(a, r) = (b, q)" using q by (intro one) simp_all
      with Some show "(if full = None then uncon else full) = Some a" by simp
    qed (use Some q in auto)
  qed
  note receiver = this
  show ?thesis
    by (rule exI, rule exI, rule conjI [OF run], rule conjI)
      (use receiver ps(2) local in \<open>auto split: option.split\<close>)
qed

text \<open>A block that gets a datagram has its port.\<close>

lemma udp_demux_bound:
  assumes "udp_ok w" "udp_demux inp broadcast src_ip src dest_ip dest w = Some (Some a, w')"
  shows "\<exists>q. pcb_at w a = Some q \<and> local_port q \<noteq> 0 \<and> local_port q = dest \<and> udp_input_local_match q inp broadcast dest_ip"
proof -
  obtain ps where ps: "listed w = Some ps" "\<forall>a q. (a, q) \<in> set ps \<longleftrightarrow> pcb_at w a = Some q \<and> local_port q \<noteq> 0"
    "map fst ps = udp_pcbs w" by (rule udp_ok_listed [OF assms(1)])
  let ?L = "\<lambda>q. local_port q = dest \<and> udp_input_local_match q inp broadcast dest_ip"
  let ?R = "\<lambda>q. remote_match q src_ip src" and ?C = "\<lambda>q. pcb_flags q AND UDP_FLAGS_CONNECTED = 0"
  obtain full uncon where loop: "input_loop ?L ?R ps None = (full, uncon)" by force
  have who: "full = Some a \<or> full = None \<and> uncon = Some a"
    using assms(2) by (auto simp: udp_demux_def ps(1) loop split: option.splits)
  have full: "full = map_option fst (find (\<lambda>(a, q). ?L q \<and> ?R q) ps)"
    using input_loop_result(1) [of ?L ?R ps None] unfolding loop by simp
  have uncon: "full = None \<Longrightarrow> uncon = map_option fst (find (\<lambda>(a, q). ?L q \<and> ?C q) ps)"
    using input_loop_result(2) [of ?L ?R ps None] unfolding loop by simp
  have found: "\<exists>q. (a, q) \<in> set ps \<and> ?L q" if some: "map_option fst (find (\<lambda>(a, q). ?L q \<and> P q) ps) = Some a" for P
  proof -
    obtain x where "find (\<lambda>(a, q). ?L q \<and> P q) ps = Some x" "a = fst x" using some by (auto simp: map_option_eq_Some)
    then show ?thesis using find_SomeD [of "\<lambda>(a, q). ?L q \<and> P q" ps x] by (cases x) auto
  qed
  have "\<exists>q. (a, q) \<in> set ps \<and> ?L q"
    using who
  proof
    assume "full = Some a"
    then show ?thesis using full by (intro found [of ?R]) simp
  next
    assume "full = None \<and> uncon = Some a"
    then show ?thesis using uncon by (intro found [of ?C]) simp
  qed
  then obtain q where "(a, q) \<in> set ps" "?L q" by blast
  with ps(2) show ?thesis by blast
qed

subsection \<open>Every reachable state\<close>

definition udp_start :: "'w udp \<Rightarrow> bool" where
  "udp_start w \<longleftrightarrow> udp_port w = UDP_LOCAL_PORT_RANGE_START \<and> udp_pcbs w = [] \<and> pcb_at w = Map.empty"

text \<open>
  What programs and the stack do with the blocks: programs may set the options of a block
  themselves; an interface changes its address to one that no block is bound to.
\<close>

inductive udp_step :: "'w udp \<Rightarrow> 'w udp \<Rightarrow> bool" where
  step_new: "pcb_at w a = None \<Longrightarrow> udp_step w (snd (udp_new (Some a) w))"
| step_bind: "pcb_at w a = Some q \<Longrightarrow> udp_bind (Some a) ipaddr port w = Some (e, w') \<Longrightarrow> udp_step w w'"
| step_connect: "pcb_at w a = Some q \<Longrightarrow> udp_connect (Some a) ipaddr port w = Some (e, w') \<Longrightarrow> udp_step w w'"
| step_disconnect: "udp_disconnect a w = Some w' \<Longrightarrow> udp_step w w'"
| step_recv: "udp_recv a f arg w = Some w' \<Longrightarrow> udp_step w w'"
| step_options: "pcb_at w a = Some q \<Longrightarrow> local_ip q' = local_ip q \<Longrightarrow> local_port q' = local_port q \<Longrightarrow> udp_step w (set_pcb a q' w)"
| step_remove: "udp_step w (udp_remove a w)"
| step_demux: "udp_demux inp broadcast src_ip src dest_ip dest w = Some (a, w') \<Longrightarrow> udp_step w w'"
| step_addr_changed: "\<forall>a q. pcb_at w a = Some q \<and> local_port q \<noteq> 0 \<longrightarrow> local_ip q \<noteq> new \<Longrightarrow>
    udp_netif_ipv4_addr_changed old (Some new) w = Some w' \<Longrightarrow> udp_step w w'"
| step_app: "udp_step w (w\<lparr>app := x\<rparr>)"

interpretation udp: invariant_of udp_start udp_step udp_ok
proof
  fix w :: "'w udp"
  assume "udp_start w"
  then show "udp_ok w" by (simp add: udp_start_def udp_ok_def)
next
  fix w w' :: "'w udp"
  assume ok: "udp_ok w" and step: "udp_step w w'"
  from step show "udp_ok w'"
  proof cases
    case (step_demux inp broadcast src_ip src dest_ip dest a)
    show ?thesis
      by (rule udp_demuxE [OF ok, of inp broadcast src_ip src dest_ip dest])
        (use ok step_demux in \<open>auto simp: udp_ok_def\<close>)
  qed (auto intro: udp_new_keeps [OF ok] udp_bind_after(1) [OF ok] udp_connect_keeps [OF ok] udp_remove_keeps [OF ok]
      addr_changed_keeps [OF ok] udp_ok_unbound [OF ok] simp: udp_disconnect_def udp_recv_def split: bind_splits,
      use ok in \<open>auto simp: udp_ok_def\<close>)
qed

subsection \<open>Properties\<close>


text \<open>
  C11: Binding to a port succeeds exactly when no other block holds the port at an address that
  overlaps; binding without a port exactly when a port of the dynamic range is free, whatever
  port was given out last, and then to a port that no block has. A bind that fails changes no block.
\<close>

theorem udp_bind_result:
  assumes "udp_ok w" "pcb_at w a = Some q"
  shows "\<exists>e w'. udp_bind (Some a) (Some ip) port w = Some (e, w')
    \<and> (e = ERR_OK \<longleftrightarrow> (if port = 0 then \<exists>p. 0xc000 \<le> unat p \<and> (\<forall>b r. pcb_at w b = Some r \<longrightarrow> local_port r \<noteq> p)
         else \<forall>b r. b \<noteq> a \<and> pcb_at w b = Some r \<and> local_port r = port \<longrightarrow> \<not> overlap (local_ip r) ip))
    \<and> (if e = ERR_OK then a \<in> set (udp_pcbs w') \<and> (\<exists>p. pcb_at w' = (pcb_at w)(a \<mapsto> q\<lparr>local_ip := ip, local_port := p\<rparr>)
         \<and> (if port = 0 then 0xc000 \<le> unat p \<and> (\<forall>b r. pcb_at w b = Some r \<longrightarrow> local_port r \<noteq> p) else p = port))
       else e = ERR_USE \<and> pcb_at w' = pcb_at w \<and> udp_pcbs w' = udp_pcbs w)"
proof (rule udp_bindE [OF assms refl, of "Some ip" port])
  fix p w'
  assume "udp_bind (Some a) (Some ip) port w = Some (ERR_OK, w')" "port \<noteq> 0 \<longrightarrow> p = port"
    "port = 0 \<longrightarrow> 0xc000 \<le> unat p \<and> (\<forall>b r. pcb_at w b = Some r \<longrightarrow> local_port r \<noteq> p)"
    "\<forall>b r. b \<noteq> a \<longrightarrow> pcb_at w b = Some r \<longrightarrow> local_port r = p \<longrightarrow> \<not> overlap (local_ip r) (case Some ip of None \<Rightarrow> IPADDR_ANY | Some ip \<Rightarrow> ip)"
    "pcb_at w' = (pcb_at w)(a \<mapsto> q\<lparr>local_ip := case Some ip of None \<Rightarrow> IPADDR_ANY | Some ip \<Rightarrow> ip, local_port := p\<rparr>)"
    "a \<in> set (udp_pcbs w')"
  then show ?thesis by (intro exI [of _ ERR_OK] exI [of _ w']) (cases "port = 0"; auto)
next
  fix l
  assume "udp_bind (Some a) (Some ip) port w = Some (ERR_USE, w\<lparr>udp_port := l\<rparr>)"
    "port \<noteq> 0 \<longrightarrow> l = udp_port w \<and> (\<exists>b r. b \<noteq> a \<and> pcb_at w b = Some r \<and> local_port r = port
       \<and> overlap (local_ip r) (case Some ip of None \<Rightarrow> IPADDR_ANY | Some ip \<Rightarrow> ip))"
    "port = 0 \<longrightarrow> (\<forall>p. 0xc000 \<le> unat p \<longrightarrow> (\<exists>b r. pcb_at w b = Some r \<and> local_port r = p))"
  then show ?thesis
    by (intro exI [of _ ERR_USE] exI [of _ "w\<lparr>udp_port := l\<rparr>"]) (cases "port = 0"; auto)
qed

text \<open>
  C12: A unicast datagram is for the one block that is bound to its port at its address or the
  wildcard, unless that block is connected to somebody else. The order of the list, which changes with
  every datagram that matches fully, is of no account.
\<close>

theorem udp_demux_unicast:
  assumes "udp_ok w" "\<not> ip4_addr_ismulticast dest_ip"
  shows "\<exists>r w'. udp_demux inp False src_ip src dest_ip dest w = Some (r, w') \<and> pcb_at w' = pcb_at w
    \<and> (\<forall>a. r = Some a \<longleftrightarrow> (\<exists>q. pcb_at w a = Some q \<and> local_port q \<noteq> 0 \<and> local_port q = dest
         \<and> (local_ip q = IPADDR_ANY \<or> local_ip q = dest_ip)
         \<and> (remote_match q src_ip src \<or> pcb_flags q AND UDP_FLAGS_CONNECTED = 0)))"
  by (rule udp_demux_result [OF assms])

text \<open>Two blocks on the same port at the addresses of two interfaces.\<close>

definition blank :: udp_pcb where
  "blank = \<lparr>local_ip = 0, remote_ip = 0, so_options = 0, pcb_tos = 0, pcb_ttl = UDP_TTL, pcb_flags = 0,
     local_port = 0, remote_port = 0, multicast_ip = 0, mcast_ttl = UDP_TTL, recv = None, recv_arg = 0\<rparr>"

definition blocks :: "nat list \<Rightarrow> (nat \<Rightarrow> udp_pcb option) \<Rightarrow> unit udp" where
  "blocks as m = \<lparr>udp_port = 0xc000, udp_pcbs = as, pcb_at = m, app = ()\<rparr>"

definition at_53 :: "u32 \<Rightarrow> udp_pcb" where
  "at_53 ip = blank\<lparr>local_ip := ip, local_port := 53\<rparr>"

definition two_blocks :: "unit udp" where
  "two_blocks = blocks [2, 1] [1 \<mapsto> at_53 0x0100000a, 2 \<mapsto> at_53 0x0200000a]"

lemma new_blocks: "snd (udp_new (Some a) (blocks as m)) = blocks as (m(a \<mapsto> blank))"
  by (simp add: udp_new_def blocks_def set_pcb_def blank_def)

lemma bind_blocks:
  assumes "a \<notin> set as" "listed (blocks as (m(a \<mapsto> blank))) = Some ps" "\<not> port_taken a ip 53 ps"
  shows "udp_bind (Some a) (Some ip) 53 (blocks as (m(a \<mapsto> blank))) = Some (ERR_OK, blocks (a # as) (m(a \<mapsto> at_53 ip)))"
  using assms by (simp add: udp_bind_def) (simp add: blocks_def set_pcb_def at_53_def)

lemma two_blocks_reachable: "reachable udp_start udp_step two_blocks"
proof -
  have "reachable udp_start udp_step (blocks [] Map.empty)"
    by (rule reachable_init) (simp add: udp_start_def blocks_def UDP_LOCAL_PORT_RANGE_START_def)
  then have "reachable udp_start udp_step (blocks [] [1 \<mapsto> blank])"
    by (rule reachable_step) (metis step_new [of "blocks [] Map.empty" 1] new_blocks blocks_def udp.select_convs(3))
  then have "reachable udp_start udp_step (blocks [1] [1 \<mapsto> at_53 0x0100000a])"
    by (rule reachable_step) (rule step_bind [of _ 1 blank "Some 0x0100000a" 53 ERR_OK];
      (rule bind_blocks [of _ _ Map.empty "[]", simplified])?; simp add: blocks_def listed_def port_taken_def)
  then have "reachable udp_start udp_step (blocks [1] [1 \<mapsto> at_53 0x0100000a, 2 \<mapsto> blank])"
    by (rule reachable_step) (use step_new [of "blocks [1] [1 \<mapsto> at_53 0x0100000a]" 2] in \<open>simp add: new_blocks; simp add: blocks_def\<close>)
  then show ?thesis unfolding two_blocks_def
    by (rule reachable_step) (rule step_bind [of _ 2 blank "Some 0x0200000a" 53 ERR_OK];
      (rule bind_blocks [of _ _ "[1 \<mapsto> at_53 0x0100000a]" "[(1, at_53 0x0100000a)]"])?;
      simp add: blocks_def listed_def port_taken_def at_53_def ip4_addr_isany_val_def IPADDR_ANY_def)
qed

text \<open>
  C14: The address of an interface is put into the blocks that were bound to its old one without a look at the
  others, so two blocks may end up with the same address and port. All datagrams then go to whichever
  comes first on the list.
\<close>

theorem udp_address_change_ambiguous:
  "\<exists>w w' p q. reachable udp_start udp_step (w :: unit udp) \<and> udp_netif_ipv4_addr_changed 0x0100000a (Some 0x0200000a) w = Some w'
     \<and> pcb_at w' 1 = Some p \<and> pcb_at w' 2 = Some q \<and> local_port p = 53 \<and> local_port q = 53 \<and> local_ip p = local_ip q
     \<and> map_option fst (udp_demux inp False src_ip src 0x0200000a 53 w') = Some (Some 2)
     \<and> map_option fst (udp_demux inp False src_ip src 0x0200000a 53 (w'\<lparr>udp_pcbs := [1, 2]\<rparr>)) = Some (Some 1)"
proof -
  let ?w = "blocks [2, 1] [1 \<mapsto> at_53 0x0200000a, 2 \<mapsto> at_53 0x0200000a]"
  have change: "udp_netif_ipv4_addr_changed 0x0100000a (Some 0x0200000a) two_blocks = Some ?w"
    by (simp add: udp_netif_ipv4_addr_changed_def two_blocks_def blocks_def listed_def addr_changed_def at_53_def blank_def
        ip4_addr_isany_val_def IPADDR_ANY_def set_pcb_def fun_upd_twist)
  have mine: "local_port (at_53 ip) = 53" "udp_input_local_match (at_53 0x0200000a) inp False 0x0200000a" "pcb_flags (at_53 ip) = 0" for ip
    by (simp_all add: at_53_def blank_def udp_input_local_match_def)
  have first: "map_option fst (udp_demux inp False src_ip src 0x0200000a 53 (?w\<lparr>udp_pcbs := [a, b]\<rparr>)) = Some (Some a)"
    if "a \<in> {1, 2}" "b \<in> {1, 2}" for a b
    using that by (auto simp: udp_demux_def listed_def blocks_def mine Let_def)
  show ?thesis
    by (intro exI conjI, rule two_blocks_reachable, rule change)
      (use first [of 2 1] first [of 1 2] in \<open>simp_all add: blocks_def\<close>, simp_all add: at_53_def)
qed

subsection \<open>Witnesses\<close>

lemma two_blocks_ok: "udp_ok two_blocks"
  by (rule udp.reachable_inv [OF two_blocks_reachable])

lemma two_blocks_at: "pcb_at two_blocks = [1 \<mapsto> at_53 0x0100000a, 2 \<mapsto> at_53 0x0200000a]"
  by (simp add: two_blocks_def blocks_def)


theorem udp_bind_result_witness:
  "\<exists>w'. udp_bind (Some 1) (Some 0) 53 two_blocks = Some (ERR_USE, w') \<and> pcb_at w' = pcb_at two_blocks"
proof -
  have taken: "\<not> (\<forall>b r. b \<noteq> 1 \<and> pcb_at two_blocks b = Some r \<and> local_port r = 53 \<longrightarrow> \<not> overlap (local_ip r) 0)"
    unfolding two_blocks_at not_all
    by (rule exI [of _ 2], rule exI [of _ "at_53 0x0200000a"]) (simp add: at_53_def overlap_def IPADDR_ANY_def)
  have "pcb_at two_blocks 1 = Some (at_53 0x0100000a)" by (simp add: two_blocks_at)
  from udp_bind_result [OF two_blocks_ok this, of 0 53] taken show ?thesis by fastforce
qed

theorem udp_demux_unicast_witness:
  "\<exists>w'. udp_demux host_netif False 0x0300000a 9 0x0200000a 53 two_blocks = Some (Some 2, w') \<and> pcb_at w' = pcb_at two_blocks"
proof -
  have "\<not> ip4_addr_ismulticast 0x0200000a" by (rule host_source)
  from udp_demux_unicast [OF two_blocks_ok this, of host_netif "0x0300000a" 9 53] obtain r w' where
    run: "udp_demux host_netif False 0x0300000a 9 0x0200000a 53 two_blocks = Some (r, w')" "pcb_at w' = pcb_at two_blocks"
    and r: "r = Some 2 \<longleftrightarrow> (\<exists>q. pcb_at two_blocks 2 = Some q \<and> local_port q \<noteq> 0 \<and> local_port q = 53
         \<and> (local_ip q = IPADDR_ANY \<or> local_ip q = 0x0200000a)
         \<and> (remote_match q 0x0300000a 9 \<or> pcb_flags q AND UDP_FLAGS_CONNECTED = 0))" by metis
  have "r = Some 2" unfolding r two_blocks_at by (simp add: at_53_def blank_def)
  with run show ?thesis by blast
qed

end
