(* ===== verification/Udp.thy ===== *)
theory Udp
  imports UdpPcbs
begin

text \<open>
  UDP datagrams (\<open>core/udp.c\<close>): input with its checksum and the choice of the control block, and
  the functions that send, on the IP of \<open>Ip4\<close>. Built for IPv4, with checksums on copy, without
  UDP-Lite. The callbacks of the blocks and the allocator of pbufs are parameters; IP is that of \<open>Ip4\<close>
  with the drivers and ICMP as its parameters.
\<close>

subsection \<open>Data\<close>

type_synonym 'w udp_ip = "'w udp ip"

record 'w udp_env =
  lower :: "'w udp ip_env"
  malloc :: pbuf_malloc
  recv_call :: "nat \<Rightarrow> nat \<Rightarrow> nat \<Rightarrow> nat \<Rightarrow> u32 \<Rightarrow> u16 \<Rightarrow> 'w udp_ip \<Rightarrow> 'w udp_ip option"

definition UDP_HLEN :: u16 where "UDP_HLEN = 8"
definition PBUF_FLAG_MCASTLOOP :: u8 where "PBUF_FLAG_MCASTLOOP = 0x04"
definition ICMP_DUR_PORT :: nat where "ICMP_DUR_PORT = 3"

definition udp_of :: "'w udp_ip \<Rightarrow> 'w udp" where
  "udp_of s = above (env_state s)"

definition put_udp :: "'w udp \<Rightarrow> 'w udp_ip \<Rightarrow> 'w udp_ip" where
  "put_udp u = upd_inet (\<lambda>w. w\<lparr>above := u\<rparr>)"

definition udp_chksum :: "'w udp_env \<Rightarrow> chksum_fn" where
  "udp_chksum env = LWIP_CHKSUM (chksum_algorithm (lower env))"

text \<open>The pbufs of a chain, for the checksum.\<close>

partial_function (option) pbuf_chain_of :: "nat option \<Rightarrow> pheap \<Rightarrow> pbuf list option" where
  "pbuf_chain_of p hp =
     (case p of
        None \<Rightarrow> Some []
      | Some a \<Rightarrow> do {
          n \<leftarrow> nodes hp a;
          ps \<leftarrow> pbuf_chain_of (n_next n) hp;
          Some (pbuf_of n # ps)
        })"

subsection \<open>Input\<close>

text \<open>A checksum of zero in the header says that there is none.\<close>

definition udp_checksum_ok :: "'w udp_env \<Rightarrow> nat \<Rightarrow> bytes \<Rightarrow> 'w udp_ip \<Rightarrow> bool option" where
  "udp_checksum_ok env p udphdr s =
     (if u16_field 6 udphdr = 0 then Some True
      else do {
        n \<leftarrow> nodes (pbufs s) p;
        ps \<leftarrow> pbuf_chain_of (Some p) (pbufs s);
        let w = env_state s;
        Some (inet_chksum_pseudo (udp_chksum env) ps IP_PROTO_UDP (n_tot_len n) (current_iphdr_src w) (current_iphdr_dest w) = 0)
      })"

text \<open>The datagram without its header is given to the block, or ICMP is told that nobody has the port.\<close>

definition udp_deliver :: "'w udp_env \<Rightarrow> nat \<Rightarrow> bool \<Rightarrow> nat option \<Rightarrow> u16 \<Rightarrow> 'w udp_ip \<Rightarrow> 'w udp_ip option" where
  "udp_deliver env p broadcast pcb src s =
     (case pcb of
        Some a \<Rightarrow> do {
          q \<leftarrow> pcb_at (udp_of s) a;
          case recv q of
            Some f \<Rightarrow> recv_call env f (recv_arg q) a p (current_iphdr_src (env_state s)) src s
          | None \<Rightarrow> free_pbuf p s
        }
      | None \<Rightarrow> do {
          s \<leftarrow> (if \<not> broadcast \<and> \<not> ip4_addr_ismulticast (current_iphdr_dest (env_state s))
                then do {
                  (_, hp) \<leftarrow> pbuf_header_force (Some p) (current_ip_header_tot_len (env_state s) + UDP_HLEN) (pbufs s);
                  icmp_dest_unreach (lower env) p ICMP_DUR_PORT (s\<lparr>pbufs := hp\<rparr>)
                }
                else Some s);
          free_pbuf p s
        })"

definition udp_input :: "'w udp_env \<Rightarrow> nat \<Rightarrow> nat \<Rightarrow> 'w udp_ip \<Rightarrow> 'w udp_ip option" where
  "udp_input env p inp s = do {
     n \<leftarrow> nodes (pbufs s) p;
     if n_len n < UDP_HLEN then free_pbuf p s
     else do {
       udphdr \<leftarrow> payload_read p 0 8 (pbufs s);
       netif \<leftarrow> current_netif (env_state s);
       let dest_ip = current_iphdr_dest (env_state s);
       let broadcast = ip4_addr_isbroadcast dest_ip (netifs s netif);
       let src = lwip_ntohs (u16_field 0 udphdr);
       let dest = lwip_ntohs (u16_field 2 udphdr);
       (pcb, u) \<leftarrow> udp_demux (netifs s inp) broadcast (current_iphdr_src (env_state s)) src dest_ip dest (udp_of s);
       let s = put_udp u s;
       let for_us = (pcb \<noteq> None \<or> ip_addr (netifs s inp) = dest_ip);
       if \<not> for_us then free_pbuf p s
       else do {
         ok \<leftarrow> udp_checksum_ok env p udphdr s;
         if \<not> ok then free_pbuf p s
         else do {
           (failed, hp) \<leftarrow> pbuf_header (Some p) (- UDP_HLEN) (pbufs s);
           let s = s\<lparr>pbufs := hp\<rparr>;
           if failed then free_pbuf p s else udp_deliver env p broadcast pcb src s
         }
       }
     }
   }"

subsection \<open>Output\<close>

text \<open>The header with a zero checksum in front of the datagram, and the checksum.\<close>

definition udp_header :: "u16 \<Rightarrow> u16 \<Rightarrow> u16 \<Rightarrow> bytes" where
  "udp_header src dest len = u16_bytes (lwip_htons src) @ u16_bytes (lwip_htons dest) @ u16_bytes (lwip_htons len) @ [0, 0]"

definition udp_gen_chksum :: "'w udp_env \<Rightarrow> nat \<Rightarrow> bool \<Rightarrow> u16 \<Rightarrow> u32 \<Rightarrow> u32 \<Rightarrow> pheap \<Rightarrow> pheap option" where
  "udp_gen_chksum env q have_chksum chksum src_ip dst_ip hp = do {
     n \<leftarrow> nodes hp q;
     ps \<leftarrow> pbuf_chain_of (Some q) hp;
     let udpchksum =
       (if have_chksum then
          let udpchksum = inet_chksum_pseudo_partial (udp_chksum env) ps IP_PROTO_UDP (n_tot_len n) UDP_HLEN src_ip dst_ip;
              acc = (ucast udpchksum :: u32) + ucast (NOT chksum)
          in ucast (FOLD_U32T acc)
        else inet_chksum_pseudo (udp_chksum env) ps IP_PROTO_UDP (n_tot_len n) src_ip dst_ip);
     payload_write q 6 (u16_bytes (if udpchksum = 0 then 0xffff else udpchksum)) hp
   }"

text \<open>The header goes into the datagram when there is room, and else into a pbuf of its own.\<close>

definition udp_add_header :: "'w udp_env \<Rightarrow> nat \<Rightarrow> pheap \<Rightarrow> (nat option \<times> pheap) option" where
  "udp_add_header env p hp = do {
     (failed, hp) \<leftarrow> pbuf_header (Some p) UDP_HLEN hp;
     if failed then do {
       (q, hp) \<leftarrow> pbuf_alloc (malloc env) PBUF_IP UDP_HLEN PBUF_RAM hp;
       case q of
         None \<Rightarrow> Some (None, hp)
       | Some q \<Rightarrow> do {
           n \<leftarrow> nodes hp p;
           hp \<leftarrow> (if n_tot_len n \<noteq> 0 then pbuf_chain (Some q) (Some p) hp else Some hp);
           Some (Some q, hp)
         }
     }
     else Some (Some p, hp)
   }"

definition udp_sendto_if_src_chksum ::
  "'w udp_env \<Rightarrow> nat option \<Rightarrow> nat \<Rightarrow> u32 option \<Rightarrow> u16 \<Rightarrow> nat \<Rightarrow> bool \<Rightarrow> u16 \<Rightarrow> u32 \<Rightarrow> 'w udp_ip \<Rightarrow> (err_t \<times> 'w udp_ip) option" where
  "udp_sendto_if_src_chksum env pcb p dst_ip dst_port netif have_chksum chksum src_ip s =
     (case (pcb, dst_ip) of
        (Some a, Some dst_ip) \<Rightarrow> do {
          c \<leftarrow> pcb_at (udp_of s) a;
          if so_options c AND SOF_BROADCAST = 0 \<and> ip4_addr_isbroadcast dst_ip (netifs s netif) then Some (ERR_VAL, s)
          else do {
            (err, s) \<leftarrow> (if local_port c = 0
                         then map_option (\<lambda>(err, u). (err, put_udp u s))
                                (udp_bind (Some a) (Some (local_ip c)) (local_port c) (udp_of s))
                         else Some (ERR_OK, s));
            if err \<noteq> ERR_OK then Some (err, s)
            else do {
              (q, hp) \<leftarrow> udp_add_header env p (pbufs s);
              case q of
                None \<Rightarrow> Some (ERR_MEM, s\<lparr>pbufs := hp\<rparr>)
              | Some q \<Rightarrow> do {
                  c \<leftarrow> pcb_at (udp_of s) a;
                  n \<leftarrow> nodes hp q;
                  hp \<leftarrow> payload_write q 0 (udp_header (local_port c) dst_port (n_tot_len n)) hp;
                  n \<leftarrow> nodes hp q;
                  let hp = (if pcb_flags c AND UDP_FLAGS_MULTICAST_LOOP \<noteq> 0 \<and> ip4_addr_ismulticast dst_ip
                            then put_node q (n\<lparr>n_flags := n_flags n OR PBUF_FLAG_MCASTLOOP\<rparr>) hp else hp);
                  hp \<leftarrow> (if pcb_flags c AND UDP_FLAGS_NOCHKSUM = 0
                         then udp_gen_chksum env q have_chksum chksum src_ip dst_ip hp else Some hp);
                  let time_to_live = (if ip4_addr_ismulticast dst_ip then mcast_ttl c else pcb_ttl c);
                  (err, s) \<leftarrow> ip4_output_if_src (lower env) q (Some src_ip) (Some dst_ip) time_to_live (pcb_tos c)
                                IP_PROTO_UDP netif (s\<lparr>pbufs := hp\<rparr>);
                  s \<leftarrow> (if q \<noteq> p then free_pbuf q s else Some s);
                  Some (err, s)
                }
            }
          }
        }
      | _ \<Rightarrow> Some (ERR_VAL, s))"

definition udp_sendto_if_src ::
  "'w udp_env \<Rightarrow> nat option \<Rightarrow> nat \<Rightarrow> u32 option \<Rightarrow> u16 \<Rightarrow> nat \<Rightarrow> u32 \<Rightarrow> 'w udp_ip \<Rightarrow> (err_t \<times> 'w udp_ip) option" where
  "udp_sendto_if_src env pcb p dst_ip dst_port netif = udp_sendto_if_src_chksum env pcb p dst_ip dst_port netif False 0"

definition udp_sendto_if_chksum ::
  "'w udp_env \<Rightarrow> nat option \<Rightarrow> nat \<Rightarrow> u32 option \<Rightarrow> u16 \<Rightarrow> nat \<Rightarrow> bool \<Rightarrow> u16 \<Rightarrow> 'w udp_ip \<Rightarrow> (err_t \<times> 'w udp_ip) option" where
  "udp_sendto_if_chksum env pcb p dst_ip dst_port netif have_chksum chksum s =
     (case (pcb, dst_ip) of
        (Some a, Some _) \<Rightarrow> do {
          c \<leftarrow> pcb_at (udp_of s) a;
          if ip4_addr_isany_val (local_ip c)
          then udp_sendto_if_src_chksum env pcb p dst_ip dst_port netif have_chksum chksum (ip_addr (netifs s netif)) s
          else if local_ip c \<noteq> ip_addr (netifs s netif) then Some (ERR_VAL, s)
          else udp_sendto_if_src_chksum env pcb p dst_ip dst_port netif have_chksum chksum (local_ip c) s
        }
      | _ \<Rightarrow> Some (ERR_VAL, s))"

definition udp_sendto_if ::
  "'w udp_env \<Rightarrow> nat option \<Rightarrow> nat \<Rightarrow> u32 option \<Rightarrow> u16 \<Rightarrow> nat \<Rightarrow> 'w udp_ip \<Rightarrow> (err_t \<times> 'w udp_ip) option" where
  "udp_sendto_if env pcb p dst_ip dst_port netif = udp_sendto_if_chksum env pcb p dst_ip dst_port netif False 0"

text \<open>The address that is routed: for multicast, that of the interface chosen by the program.\<close>

definition route_address :: "udp_pcb \<Rightarrow> u32 \<Rightarrow> u32" where
  "route_address c dst_ip =
     (if ip4_addr_ismulticast dst_ip \<and> \<not> ip4_addr_isany_val (multicast_ip c) \<and> multicast_ip c \<noteq> IPADDR_BROADCAST
      then multicast_ip c else dst_ip)"

definition udp_sendto_chksum ::
  "'w udp_env \<Rightarrow> nat option \<Rightarrow> nat \<Rightarrow> u32 option \<Rightarrow> u16 \<Rightarrow> bool \<Rightarrow> u16 \<Rightarrow> 'w udp_ip \<Rightarrow> (err_t \<times> 'w udp_ip) option" where
  "udp_sendto_chksum env pcb p dst_ip dst_port have_chksum chksum s =
     (case (pcb, dst_ip) of
        (Some a, Some ip) \<Rightarrow> do {
          c \<leftarrow> pcb_at (udp_of s) a;
          case ip4_route (route_address c ip) s of
            None \<Rightarrow> Some (ERR_RTE, s)
          | Some netif \<Rightarrow> udp_sendto_if_chksum env pcb p dst_ip dst_port netif have_chksum chksum s
        }
      | _ \<Rightarrow> Some (ERR_VAL, s))"

definition udp_sendto ::
  "'w udp_env \<Rightarrow> nat option \<Rightarrow> nat \<Rightarrow> u32 option \<Rightarrow> u16 \<Rightarrow> 'w udp_ip \<Rightarrow> (err_t \<times> 'w udp_ip) option" where
  "udp_sendto env pcb p dst_ip dst_port = udp_sendto_chksum env pcb p dst_ip dst_port False 0"

definition udp_send_chksum ::
  "'w udp_env \<Rightarrow> nat option \<Rightarrow> nat \<Rightarrow> bool \<Rightarrow> u16 \<Rightarrow> 'w udp_ip \<Rightarrow> (err_t \<times> 'w udp_ip) option" where
  "udp_send_chksum env pcb p have_chksum chksum s =
     (case pcb of
        None \<Rightarrow> Some (ERR_VAL, s)
      | Some a \<Rightarrow> do {
          c \<leftarrow> pcb_at (udp_of s) a;
          udp_sendto_chksum env pcb p (Some (remote_ip c)) (remote_port c) have_chksum chksum s
        })"

definition udp_send :: "'w udp_env \<Rightarrow> nat option \<Rightarrow> nat \<Rightarrow> 'w udp_ip \<Rightarrow> (err_t \<times> 'w udp_ip) option" where
  "udp_send env pcb p s =
     (case pcb of
        None \<Rightarrow> Some (ERR_VAL, s)
      | Some a \<Rightarrow> do {
          c \<leftarrow> pcb_at (udp_of s) a;
          udp_sendto env pcb p (Some (remote_ip c)) (remote_port c) s
        })"

subsection \<open>Chains and headers\<close>

lemma udp_of_sel [simp]: "udp_of (put_udp u s) = u" "pbufs (put_udp u s) = pbufs s" "netifs (put_udp u s) = netifs s"
  "udp_of (s\<lparr>pbufs := hp\<rparr>) = udp_of s" "env_state (put_udp u s) = (env_state s)\<lparr>above := u\<rparr>"
  by (simp_all add: udp_of_def put_udp_def upd_inet_def)

lemma pbuf_chain_of_None [simp]: "pbuf_chain_of None hp = Some []"
  by (simp add: pbuf_chain_of.simps)

lemma pbuf_chain_of_linked: "linked (nodes hp) p as \<Longrightarrow> pbuf_chain_of p hp = Some (chain_of (nodes hp) as)"
proof (induction as arbitrary: p)
  case (Cons a as)
  from Cons.prems obtain n where n: "p = Some a" "nodes hp a = Some n" "linked (nodes hp) (n_next n) as"
    by (rule linked_ConsE)
  from Cons.IH [OF n(3)] show ?case by (subst pbuf_chain_of.simps) (simp add: n)
qed auto

lemma packet_chain:
  assumes "packet hp p as d"
  obtains ps where "pbuf_chain_of (Some p) hp = Some ps" "chain_ok ps" "chain_bytes ps = d"
  using assms pbuf_chain_of_linked [of hp "Some p" as] by (auto simp: packet_def)

text \<open>Writing a field inside a header.\<close>

lemma mem_write_inside:
  assumes "d + len \<le> length m" "off + length src \<le> len"
  shows "take len (drop d (mem_write (d + off) src m)) = take off (take len (drop d m)) @ src @ drop (off + length src) (take len (drop d m))"
    and "length (mem_write (d + off) src m) = length m"
proof -
  define a b where "a = take d m" and "b = drop d m"
  have m: "m = a @ b" "length a = d" using assms by (simp_all add: a_def b_def)
  have "drop d (mem_write (d + off) src m) = take off b @ src @ drop (off + length src) b"
    using m by (simp add: mem_write_def)
  moreover have "len \<le> length b" using assms(1) m by simp
  moreover have "len = off \<and> src = [] \<or> \<not> len \<le> off" using assms(2) by (cases src) auto
  ultimately show "take len (drop d (mem_write (d + off) src m)) = take off (take len (drop d m)) @ src @ drop (off + length src) (take len (drop d m))"
    using assms(2) by (auto simp: b_def [symmetric] min_def drop_take)
  show "length (mem_write (d + off) src m) = length m" using assms by (simp add: mem_write_def)
qed

lemma node_read_write_at:
  assumes "in_pbuf n 0 len" "off + length src \<le> len"
  shows "node_read (node_write off src n) 0 len = take off (node_read n 0 len) @ src @ drop (off + length src) (node_read n 0 len)"
    and "in_pbuf (node_write off src n) 0 len"
proof -
  define d where "d = n_payload n - n_base n"
  have d: "d + len \<le> length (n_mem n)" "n_base n \<le> n_payload n" using assms(1) unfolding in_pbuf_def d_def by linarith+
  note inside = mem_write_inside [OF d(1) assms(2)]
  show "node_read (node_write off src n) 0 len = take off (node_read n 0 len) @ src @ drop (off + length src) (node_read n 0 len)"
    using inside(1) d(2) by (simp add: node_read_def node_write_def d_def)
  show "in_pbuf (node_write off src n) 0 len"
    using assms inside(2) d(2) unfolding in_pbuf_def node_write_def d_def by simp
qed

lemma packet_write_at:
  assumes "packet hp p as d" "nodes hp p = Some n" "off + length src \<le> unat (n_len n)"
  shows "payload_write p off src hp = Some (put_node p (node_write off src n) hp)"
    and "packet (put_node p (node_write off src n) hp) p as (take off d @ src @ drop (off + length src) d)"
proof -
  obtain as' where n: "in_pbuf n 0 (unat (n_len n))" "unat (n_tot_len n) = length d" "unat (n_len n) \<le> length d"
      "d = node_read n 0 (unat (n_len n)) @ chain_bytes (chain_of (nodes hp) as')"
    by (rule packetE [OF assms(1)]) (use assms(2) in auto)
  have "in_pbuf n off (length src)" using n(1) assms(3) unfolding in_pbuf_def by linarith
  then show "payload_write p off src hp = Some (put_node p (node_write off src n) hp)"
    by (simp add: payload_write_def assms(2))
  have len: "length (node_read n 0 (unat (n_len n))) = unat (n_len n)" by (rule length_node_read [OF n(1)])
  show "packet (put_node p (node_write off src n) hp) p as (take off d @ src @ drop (off + length src) d)"
  proof (rule packet_update [OF assms(1,2)])
    have sel: "n_len (node_write off src n) = n_len n" "n_tot_len (node_write off src n) = n_tot_len n"
      by (simp_all add: node_write_def)
    show "in_pbuf (node_write off src n) 0 (unat (n_len (node_write off src n)))"
      unfolding sel by (rule node_read_write_at(2) [OF n(1) assms(3)])
    have "take off d = take off (node_read n 0 (unat (n_len n)))"
      "drop (off + length src) d = drop (off + length src) (node_read n 0 (unat (n_len n))) @ drop (unat (n_len n)) d"
      using assms(3) len by (subst n(4), simp)+
    then show "node_read (node_write off src n) 0 (unat (n_len (node_write off src n))) @ drop (unat (n_len n)) d
        = take off d @ src @ drop (off + length src) d"
      unfolding sel node_read_write_at(1) [OF n(1) assms(3)] by simp
    show "unat (n_tot_len (node_write off src n)) = length (take off d @ src @ drop (off + length src) d)"
      unfolding sel using n(2,3) assms(3) by simp
  qed (simp add: node_write_def)
qed

text \<open>A datagram with its header.\<close>

definition datagram :: "u16 \<Rightarrow> u16 \<Rightarrow> u16 \<Rightarrow> bytes \<Rightarrow> bytes" where
  "datagram src dest c d = u16_bytes (lwip_htons src) @ u16_bytes (lwip_htons dest)
     @ u16_bytes (lwip_htons (of_nat (8 + length d))) @ u16_bytes c @ d"

definition chksum_ok :: "u32 \<Rightarrow> u32 \<Rightarrow> u16 \<Rightarrow> bytes \<Rightarrow> bool" where
  "chksum_ok src_ip dst_ip c m \<longleftrightarrow> c = 0 \<or> ocs (sum_le (pseudo_header src_ip dst_ip IP_PROTO_UDP (of_nat (length m)) @ m)) = 65535"

lemma length_u16_bytes [simp]: "length (u16_bytes w) = 2"
  by (simp add: u16_bytes_def)

lemma length_datagram [simp]: "length (datagram src dest c d) = 8 + length d"
  by (simp add: datagram_def)

lemma u16_bytes_0: "u16_bytes 0 = [0, 0]"
  by (simp add: u16_bytes_def)

lemma datagram_header: "udp_header src dest (of_nat (8 + length d)) @ d = datagram src dest 0 d"
  by (simp add: udp_header_def datagram_def u16_bytes_0 del: of_nat_add)

lemma datagram_put: "take 6 (datagram src dest c d) @ u16_bytes c' @ drop 8 (datagram src dest c d) = datagram src dest c' d"
  by (simp add: datagram_def u16_bytes_def)

lemma datagram_fields:
  "u16_field 0 (take 8 (datagram src dest c d)) = lwip_htons src" "u16_field 2 (take 8 (datagram src dest c d)) = lwip_htons dest"
  "u16_field 6 (take 8 (datagram src dest c d)) = c" "drop 8 (datagram src dest c d) = d"
  using le16_split [of "lwip_htons src"] le16_split [of "lwip_htons dest"] le16_split [of c]
  by (simp_all add: datagram_def u16_field_def u16_bytes_def)

lemma sum_le_datagram: "sum_le (datagram src dest c d) = unat c + sum_le (datagram src dest 0 d)"
proof -
  let ?xs = "u16_bytes (lwip_htons src) @ u16_bytes (lwip_htons dest) @ u16_bytes (lwip_htons (of_nat (8 + length d)))"
  have "sum_le (?xs @ (u16_bytes c @ d)) = sum_le ?xs + (unat c + sum_le d)" for c
    by (subst sum_le_append_even) (simp_all add: sum_le_u16_bytes)
  then have "sum_le (datagram src dest c d) = sum_le ?xs + (unat c + sum_le d)" for c
    by (simp add: datagram_def del: of_nat_add)
  from this [of c] this [of 0] show ?thesis by simp
qed

subsection \<open>The checksum\<close>

lemma ocs_add_eq: "ocs a = 65535 \<Longrightarrow> ocs b = 65535 \<Longrightarrow> ocs (a + b) = 65535"
  using ocs_add_cong [of a 65535 b 65535] by (simp add: ocs_def)

lemma sum_le_pseudo_append: "sum_le (pseudo_header src dest proto len @ d) = sum_le (pseudo_header src dest proto len) + sum_le d"
  by (simp add: sum_le_append_even)

lemma complement_of_parts:
  assumes "unat c = 65535 - ocs a" "unat c' = 65535 - ocs b"
  shows "ocs (a + b + unat (ucast (FOLD_U32T (ucast (c :: u16) + ucast (c' :: u16))) :: u16)) = 65535"
proof -
  have "unat (ucast c + ucast c' :: u32) = unat c + unat c'"
    using unat_le_16 [of c] unat_le_16 [of c'] by (subst unat_add_nowrap) (simp_all add: unat_simps)
  moreover from this have "unat (ucast c + ucast c' :: u32) \<le> 131070"
    using unat_le_16 [of c] unat_le_16 [of c'] by linarith
  ultimately have fold: "unat (FOLD_U32T (ucast c + ucast c')) = ocs (unat c + unat c')"
    using unat_FOLD_small by metis
  then have "unat (ucast (FOLD_U32T (ucast c + ucast c')) :: u16) = ocs (unat c + unat c')"
    by (simp add: unat_simps)
  then have "ocs (a + b + unat (ucast (FOLD_U32T (ucast c + ucast c')) :: u16)) = ocs (a + b + (unat c + unat c'))"
    by simp
  also have "\<dots> = ocs ((65535 - ocs a + a) + (65535 - ocs b + b))" by (simp only: assms add_ac)
  also have "\<dots> = 65535" by (intro ocs_add_eq ocs_fill_complement)
  finally show ?thesis .
qed

text \<open>The checksum that is written makes the datagram verify, also when that of the payload is handed in.\<close>

lemma udp_gen_chksum_packet:
  assumes pk: "packet hp q as (datagram sp dp 0 d)" and n: "nodes hp q = Some n" "8 \<le> unat (n_len n)" and len: "length d + 8 < 65536"
    and given: "have_chksum \<longrightarrow> unat chksum = ocs (sum_le d)"
  obtains c where "udp_gen_chksum env q have_chksum chksum src dst hp = Some (put_node q (node_write 6 (u16_bytes c) n) hp)"
    "packet (put_node q (node_write 6 (u16_bytes c) n) hp) q as (datagram sp dp c d)" "chksum_ok src dst c (datagram sp dp c d)"
proof -
  obtain ps where ps: "pbuf_chain_of (Some q) hp = Some ps" "chain_ok ps" "chain_bytes ps = datagram sp dp 0 d"
    by (rule packet_chain [OF pk])
  define l where "l = (of_nat (8 + length d) :: u16)"
  define h where "h = sum_le (pseudo_header src dst IP_PROTO_UDP l)"
  define S where "S = sum_le (datagram sp dp 0 d)"
  have "unat (n_tot_len n) = 8 + length d" using packet_lengths(1) [OF pk n(1)] by simp
  then have tot: "n_tot_len n = l" unfolding l_def by (metis of_nat_unat ucast_id)
  define c0 where "c0 = (if have_chksum then ucast (FOLD_U32T
        ((ucast (inet_chksum_pseudo_partial (udp_chksum env) ps IP_PROTO_UDP l UDP_HLEN src dst) :: u32) + ucast (NOT chksum)))
      else inet_chksum_pseudo (udp_chksum env) ps IP_PROTO_UDP l src dst)"
  have c0: "ocs (h + S + unat c0) = 65535"
  proof (cases have_chksum)
    case True
    have "take 8 (datagram sp dp 0 d) @ d = datagram sp dp 0 d"
      using datagram_fields(4) [of sp dp 0 d] by (metis append_take_drop_id)
    then have S: "S = sum_le (take 8 (datagram sp dp 0 d)) + sum_le d"
      unfolding S_def by (metis sum_le_append_even [of "take 8 (datagram sp dp 0 d)" d] length_take length_datagram
          min.absorb2 le_add1 even_numeral)
    have "unat (inet_chksum_pseudo_partial (udp_chksum env) ps IP_PROTO_UDP l UDP_HLEN src dst) = 65535 - ocs (h + sum_le (take 8 (datagram sp dp 0 d)))"
      unfolding udp_chksum_def ck.inet_chksum_pseudo_partial_eq [OF ps(2)] ps(3) h_def sum_le_pseudo_append by (simp add: UDP_HLEN_def)
    moreover have "unat (NOT chksum) = 65535 - ocs (sum_le d)" using given True by (simp add: unat_NOT_16)
    ultimately have "ocs (h + sum_le (take 8 (datagram sp dp 0 d)) + sum_le d + unat c0) = 65535"
      using True by (simp only: c0_def if_True complement_of_parts)
    then show ?thesis by (simp add: S add_ac)
  next
    case False
    then have "unat c0 = 65535 - ocs (h + S)"
      by (simp add: c0_def udp_chksum_def ck.inet_chksum_pseudo_eq [OF ps(2)] ps(3) h_def S_def sum_le_pseudo_append)
    then show ?thesis using ocs_fill_complement [of "h + S"] by (simp add: add.commute)
  qed
  define c where "c = (if c0 = 0 then 0xffff else c0)"
  have "ocs (h + S + unat c) = 65535"
  proof (cases "c0 = 0")
    case True
    then have "ocs (h + S) = 65535" using c0 by simp
    moreover have "ocs 65535 = 65535" by (simp add: ocs_def)
    ultimately have "ocs (h + S + 65535) = 65535" by (rule ocs_add_eq)
    with True show ?thesis by (simp add: c_def)
  qed (use c0 in \<open>simp add: c_def\<close>)
  then have ok: "chksum_ok src dst c (datagram sp dp c d)"
    using sum_le_datagram [of sp dp c d] by (simp add: chksum_ok_def sum_le_pseudo_append h_def S_def l_def add_ac)
  have six: "6 + length (u16_bytes c) \<le> unat (n_len n)" using n(2) by simp
  note wr = packet_write_at [OF pk n(1) six]
  have run: "udp_gen_chksum env q have_chksum chksum src dst hp = Some (put_node q (node_write 6 (u16_bytes c) n) hp)"
    using wr(1) unfolding c_def c0_def udp_gen_chksum_def n(1) ps(1) Let_def by (simp only: bind.bind_lunit tot)
  show thesis
    by (rule that [OF run _ ok]) (use wr(2) datagram_put [of sp dp 0 d c] in simp)
qed

subsection \<open>Sending\<close>

lemma node_write_type [simp]: "n_type (node_write off src n) = n_type n"
  by (simp add: node_write_def)

lemma own_memory_cong: "n_base n' = n_base n \<Longrightarrow> n_type n' = n_type n \<Longrightarrow> own_memory p n \<Longrightarrow> own_memory p n'"
  by (simp add: own_memory_def)

lemma packet_flags:
  assumes "packet hp p as d" "nodes hp p = Some n"
  shows "packet (put_node p (n\<lparr>n_flags := f\<rparr>) hp) p as d"
proof -
  obtain as' where n: "in_pbuf n 0 (unat (n_len n))" "unat (n_tot_len n) = length d"
      "d = node_read n 0 (unat (n_len n)) @ chain_bytes (chain_of (nodes hp) as')"
    by (rule packetE [OF assms(1)]) (use assms(2) in auto)
  have "node_read n 0 (unat (n_len n)) @ drop (unat (n_len n)) d = d"
    using n(3) length_node_read [OF n(1)] by (metis append_eq_conv_conj)
  moreover have "node_read (n\<lparr>n_flags := f\<rparr>) off k = node_read n off k" "in_pbuf (n\<lparr>n_flags := f\<rparr>) off k = in_pbuf n off k" for off k
    by (simp_all add: in_pbuf_def node_read_def)
  ultimately show ?thesis by (intro packet_update [OF assms]) (use n(1,2) in simp_all)
qed

lemma length_udp_header [simp]: "length (udp_header sp dp len) = 8"
  by (simp add: udp_header_def)

lemma bind_pair_Some [simp]: "Option.bind x (\<lambda>(e, s). Some (e, s)) = x"
  by (cases x) auto

lemma udp_write_header:
  assumes pk: "packet hp p as d" and n: "nodes hp p = Some n" "own_memory p n"
    and room: "n_base n + 8 \<le> n_payload n" "length d + 8 < 65536"
  obtains n1 where "udp_add_header env p hp = Some (Some p, put_node p n1 hp)" "n_tot_len n1 = of_nat (8 + length d)"
    "payload_write p 0 (udp_header sp dp (n_tot_len n1)) (put_node p n1 hp)
       = Some (put_node p (node_write 0 (udp_header sp dp (n_tot_len n1)) n1) (put_node p n1 hp))"
    "packet (put_node p (node_write 0 (udp_header sp dp (n_tot_len n1)) n1) (put_node p n1 hp)) p as (datagram sp dp 0 d)"
    "own_memory p n1" "n_base n1 = n_base n" "n_payload n1 = n_payload n - 8" "unat (n_len n1) = unat (n_len n) + 8"
proof -
  have k: "0 < sint UDP_HLEN" "unat UDP_HLEN = 8" by (simp_all add: UDP_HLEN_def)
  obtain n1 h where hdr: "pbuf_header (Some p) UDP_HLEN hp = Some (False, put_node p n1 hp)"
    "packet (put_node p n1 hp) p as (h @ d)" "length h = 8" "own_memory p n1"
    "n_payload n1 = n_payload n - 8" "unat (n_len n1) = unat (n_len n) + 8" "n_base n1 = n_base n"
    by (rule packet_reveal [OF pk n k(1)]) (use room k(2) in auto)
  have n1: "nodes (put_node p n1 hp) p = Some n1" by simp
  have "unat (n_tot_len n1) = 8 + length d"
    using packet_lengths(1) [OF hdr(2) n1] by (simp add: hdr(3))
  then have tot: "n_tot_len n1 = of_nat (8 + length d)" by (metis of_nat_unat ucast_id)
  have fits: "length (udp_header sp dp (n_tot_len n1)) \<le> unat (n_len n1)" by (simp add: hdr(6))
  note wr = packet_write [OF hdr(2) n1 fits]
  have "drop 8 (h @ d) = d" using hdr(3) by simp
  then have "udp_header sp dp (n_tot_len n1) @ drop (length (udp_header sp dp (n_tot_len n1))) (h @ d) = datagram sp dp 0 d"
    by (simp only: length_udp_header tot datagram_header)
  then show thesis
    using wr by (intro that [of n1]) (simp_all add: udp_add_header_def hdr tot del: of_nat_add)
qed

lemma udp_sendE:
  assumes pk: "packet (pbufs s) p as d" and n: "nodes (pbufs s) p = Some n" "own_memory p n"
    and room: "n_base n + 28 \<le> n_payload n" "length d + 28 < 65536"
    and c: "pcb_at (udp_of s) a = Some c" "local_port c \<noteq> 0"
    and dst: "so_options c AND SOF_BROADCAST \<noteq> 0 \<or> \<not> ip4_addr_isbroadcast dst (netifs s netif)"
    and given: "have_chksum \<longrightarrow> unat chksum = ocs (sum_le d)"
  obtains k s1 where "udp_sendto_if_src_chksum env (Some a) p (Some dst) dport netif have_chksum chksum src s
      = netif_output (lower env) netif p dst s1"
    "packet (pbufs s1) p as (ip_header 0 (if ip4_addr_ismulticast dst then mcast_ttl c else pcb_ttl c) (pcb_tos c) IP_PROTO_UDP 20
       (of_nat (20 + (8 + length d))) (ip_id (env_state s)) src dst @ datagram (local_port c) dport k d)"
    "chksum_ok src dst k (datagram (local_port c) dport k d)"
proof -
  let ?sp = "local_port c"
  obtain n1 where hdr: "udp_add_header env p (pbufs s) = Some (Some p, put_node p n1 (pbufs s))"
    "payload_write p 0 (udp_header ?sp dport (n_tot_len n1)) (put_node p n1 (pbufs s))
       = Some (put_node p (node_write 0 (udp_header ?sp dport (n_tot_len n1)) n1) (put_node p n1 (pbufs s)))"
    "packet (put_node p (node_write 0 (udp_header ?sp dport (n_tot_len n1)) n1) (put_node p n1 (pbufs s))) p as (datagram ?sp dport 0 d)"
    "own_memory p n1" "n_base n1 = n_base n" "n_payload n1 = n_payload n - 8" "unat (n_len n1) = unat (n_len n) + 8"
    by (rule udp_write_header [OF pk n, of env ?sp dport]) (use room in auto)
  define n2 where "n2 = node_write 0 (udp_header ?sp dport (n_tot_len n1)) n1"
  define hp2 where "hp2 = put_node p n2 (put_node p n1 (pbufs s))"
  have n2: "nodes hp2 p = Some n2" by (simp add: hp2_def)
  define loops where "loops \<longleftrightarrow> pcb_flags c AND UDP_FLAGS_MULTICAST_LOOP \<noteq> 0 \<and> ip4_addr_ismulticast dst"
  define n3 where "n3 = (if loops then n2\<lparr>n_flags := n_flags n2 OR PBUF_FLAG_MCASTLOOP\<rparr> else n2)"
  define hp3 where "hp3 = (if loops then put_node p n3 hp2 else hp2)"
  have pk3: "packet hp3 p as (datagram ?sp dport 0 d)" and n3: "nodes hp3 p = Some n3"
    using packet_flags [OF hdr(3) [folded n2_def, folded hp2_def] n2] hdr(3) n2 by (simp_all add: hp3_def n3_def hp2_def n2_def)
  have sel: "n_base n3 = n_base n" "n_payload n3 = n_payload n - 8" "n_type n3 = n_type n1" "unat (n_len n3) = unat (n_len n) + 8"
    using hdr by (simp_all add: n3_def n2_def)
  obtain k hp4 n4 where gen: "(if pcb_flags c AND UDP_FLAGS_NOCHKSUM = 0 then udp_gen_chksum env p have_chksum chksum src dst hp3 else Some hp3) = Some hp4"
    "packet hp4 p as (datagram ?sp dport k d)" "chksum_ok src dst k (datagram ?sp dport k d)" "nodes hp4 p = Some n4"
    "n_base n4 = n_base n3" "n_payload n4 = n_payload n3" "n_type n4 = n_type n3"
  proof (cases "pcb_flags c AND UDP_FLAGS_NOCHKSUM = 0")
    case True
    have eight: "8 \<le> unat (n_len n3)" "length d + 8 < 65536" using sel(4) room(2) by simp_all
    obtain k where "udp_gen_chksum env p have_chksum chksum src dst hp3 = Some (put_node p (node_write 6 (u16_bytes k) n3) hp3)"
      "packet (put_node p (node_write 6 (u16_bytes k) n3) hp3) p as (datagram ?sp dport k d)" "chksum_ok src dst k (datagram ?sp dport k d)"
      by (rule udp_gen_chksum_packet [OF pk3 n3 eight given])
    then show thesis using True by (intro that [of "put_node p (node_write 6 (u16_bytes k) n3) hp3" k "node_write 6 (u16_bytes k) n3"]) simp_all
  next
    case False
    show thesis by (rule that [of hp3 0 n3]) (use False pk3 n3 in \<open>simp_all add: chksum_ok_def\<close>)
  qed
  have own: "own_memory p n4" by (rule own_memory_cong [OF _ _ hdr(4)]) (use gen sel hdr in simp_all)
  have len: "length (datagram ?sp dport k d) + 20 < 65536" "n_base n4 + 20 \<le> n_payload n4" using room gen(5,6) sel by simp_all
  let ?s4 = "s\<lparr>pbufs := hp4\<rparr>"
  let ?ttl = "if ip4_addr_ismulticast dst then mcast_ttl c else pcb_ttl c"
  obtain hp5 where out: "ip4_output_if_src (lower env) p (Some src) (Some dst) ?ttl (pcb_tos c) IP_PROTO_UDP netif ?s4 =
      netif_output (lower env) netif p dst (upd_inet (\<lambda>w. w\<lparr>ip_id := ip_id w + 1\<rparr>) (?s4\<lparr>pbufs := hp5\<rparr>))"
    "packet hp5 p as (ip_header 0 ?ttl (pcb_tos c) IP_PROTO_UDP 20 (of_nat (20 + length (datagram ?sp dport k d))) (ip_id (env_state ?s4)) src dst
       @ datagram ?sp dport k d)"
    by (rule ip4_output_if_srcE [of ?s4 p as "datagram ?sp dport k d" n4]) (use gen own len in simp_all)
  have "udp_sendto_if_src_chksum env (Some a) p (Some dst) dport netif have_chksum chksum src s
      = ip4_output_if_src (lower env) p (Some src) (Some dst) ?ttl (pcb_tos c) IP_PROTO_UDP netif ?s4"
  proof -
    have nb: "\<not> (so_options c AND SOF_BROADCAST = 0 \<and> ip4_addr_isbroadcast dst (netifs s netif))" using dst by auto
    have "hp3 = (if loops then put_node p (n2\<lparr>n_flags := n_flags n2 OR PBUF_FLAG_MCASTLOOP\<rparr>) hp2 else hp2)"
      by (simp add: hp3_def n3_def)
    then have hp: "(if pcb_flags c AND UDP_FLAGS_MULTICAST_LOOP \<noteq> 0 \<and> ip4_addr_ismulticast dst
        then put_node p (n2\<lparr>n_flags := n_flags n2 OR PBUF_FLAG_MCASTLOOP\<rparr>) hp2 else hp2) = hp3"
      by (simp only: loops_def)
    show ?thesis
      unfolding udp_sendto_if_src_chksum_def
      by (simp only: nb c(2) if_False bind.bind_lunit prod.case hdr(1,2) option.case udp_of_sel c(1) simp_thms
          nodes_put fun_upd_same hp2_def [symmetric] n2_def [symmetric] n2 Let_def hp gen(1) if_True bind_pair_Some)
  qed
  then show thesis
    by (intro that [of "upd_inet (\<lambda>w. w\<lparr>ip_id := ip_id w + 1\<rparr>) (?s4\<lparr>pbufs := hp5\<rparr>)" k])
      (use out gen(3) in \<open>simp_all add: upd_inet_def\<close>)
qed

subsection \<open>Receiving\<close>

lemma accepted_sel [simp]:
  "pbufs (accepted netif inp hdr hlen src dest hp t) = hp" "netifs (accepted netif inp hdr hlen src dest hp t) = netifs t"
  "udp_of (accepted netif inp hdr hlen src dest hp t') = udp_of t'"
  "current_netif (env_state (accepted netif inp hdr hlen src dest hp t)) = Some netif"
  "current_iphdr_src (env_state (accepted netif inp hdr hlen src dest hp t)) = src"
  "current_iphdr_dest (env_state (accepted netif inp hdr hlen src dest hp t)) = dest"
  by (simp_all add: accepted_def upd_inet_def current_packet_def udp_of_def)

text \<open>What is read of a datagram.\<close>

lemma take_field: "off + 2 \<le> k \<Longrightarrow> k \<le> length m \<Longrightarrow> u16_field off (take k m) = u16_field off m"
  by (simp add: u16_field_def)

lemma udp_checksum_ok_packet:
  assumes pk: "packet (pbufs t) q cs m" and n: "nodes (pbufs t) q = Some n" "8 \<le> unat (n_len n)"
    and cur: "current_iphdr_src (env_state t) = src" "current_iphdr_dest (env_state t) = dst"
  shows "udp_checksum_ok env q (take 8 m) (put_udp u t) = Some (chksum_ok src dst (u16_field 6 m) m)"
proof -
  obtain ps where ps: "pbuf_chain_of (Some q) (pbufs t) = Some ps" "chain_ok ps" "chain_bytes ps = m"
    by (rule packet_chain [OF pk])
  have tot: "n_tot_len n = of_nat (length m)"
    using packet_lengths(1) [OF pk n(1)] by (metis of_nat_unat ucast_id)
  have field: "u16_field 6 (take 8 m) = u16_field 6 m"
    by (rule take_field) (use packet_lengths(2) [OF pk n(1)] n(2) in simp_all)
  have "inet_chksum_pseudo (udp_chksum env) ps IP_PROTO_UDP (n_tot_len n) src dst = 0
      \<longleftrightarrow> ocs (sum_le (pseudo_header src dst IP_PROTO_UDP (n_tot_len n) @ m)) = 65535"
    using ocs_le [of "sum_le (pseudo_header src dst IP_PROTO_UDP (n_tot_len n) @ m)"]
    unfolding unat_eq_zero [symmetric] udp_chksum_def ck.inet_chksum_pseudo_eq [OF ps(2)] ps(3) by linarith
  then show ?thesis by (simp add: udp_checksum_ok_def field n(1) ps(1) cur chksum_ok_def tot)
qed

lemma udp_inputE:
  assumes pk: "packet (pbufs t) q cs m" and n: "nodes (pbufs t) q = Some n" "own_memory q n" "8 \<le> unat (n_len n)"
    and cur: "current_netif (env_state t) = Some netif" "current_iphdr_src (env_state t) = src" "current_iphdr_dest (env_state t) = dst"
    and sp: "u16_field 0 m = lwip_htons sp" and dport: "u16_field 2 m = lwip_htons dport"
    and demux: "udp_demux (netifs t inp) (ip4_addr_isbroadcast dst (netifs t netif)) src sp dst dport (udp_of t) = Some (r, u)"
  shows "r = None \<Longrightarrow> ip_addr (netifs t inp) \<noteq> dst \<Longrightarrow> udp_input env q inp t = free_pbuf q (put_udp u t)"
    "\<not> chksum_ok src dst (u16_field 6 m) m \<Longrightarrow> udp_input env q inp t = free_pbuf q (put_udp u t)"
    "chksum_ok src dst (u16_field 6 m) m \<Longrightarrow> r = Some b \<Longrightarrow> pcb_at u b = Some c \<Longrightarrow> recv c = Some f \<Longrightarrow>
       \<exists>t1. udp_input env q inp t = recv_call env f (recv_arg c) b q src sp t1 \<and> packet (pbufs t1) q cs (drop 8 m) \<and> udp_of t1 = u"
proof -
  let ?t = "put_udp u t"
  have len: "8 \<le> length m" using packet_lengths(2) [OF pk n(1)] n(3) by simp
  have read: "payload_read q 0 8 (pbufs t) = Some (take 8 m)"
    using packet_read [OF pk n(1), of 0 8] n(3) by simp
  have fields: "lwip_ntohs (u16_field 0 (take 8 m)) = sp" "lwip_ntohs (u16_field 2 (take 8 m)) = dport"
    using sp dport len by (simp_all add: take_field lwip_ntohs_def)
  have k: "0 < sint UDP_HLEN" "unat UDP_HLEN = 8" "UDP_HLEN \<le> n_len n" using n(3) by (simp_all add: UDP_HLEN_def word_le_nat_alt)
  have long: "\<not> n_len n < UDP_HLEN" using k(3) by simp
  note sum = udp_checksum_ok_packet [OF pk n(1,3) cur(2,3), of env u]
  have run: "udp_input env q inp t = (if r = None \<and> ip_addr (netifs t inp) \<noteq> dst \<or> \<not> chksum_ok src dst (u16_field 6 m) m then free_pbuf q ?t
      else do {
        (failed, hp) \<leftarrow> pbuf_header (Some q) (- UDP_HLEN) (pbufs t);
        if failed then free_pbuf q (?t\<lparr>pbufs := hp\<rparr>)
        else udp_deliver env q (ip4_addr_isbroadcast dst (netifs t netif)) r sp (?t\<lparr>pbufs := hp\<rparr>)
      })"
    using demux sum len by (auto simp: udp_input_def n(1) long read cur fields Let_def cong: if_cong)
  show "r = None \<Longrightarrow> ip_addr (netifs t inp) \<noteq> dst \<Longrightarrow> udp_input env q inp t = free_pbuf q ?t"
    "\<not> chksum_ok src dst (u16_field 6 m) m \<Longrightarrow> udp_input env q inp t = free_pbuf q ?t"
    by (simp_all add: run)
  assume h: "chksum_ok src dst (u16_field 6 m) m" "r = Some b" "pcb_at u b = Some c" "recv c = Some f"
  obtain n' where hide: "pbuf_header (Some q) (- UDP_HLEN) (pbufs t) = Some (False, put_node q n' (pbufs t))"
    "packet (put_node q n' (pbufs t)) q cs (drop 8 m)"
    by (rule packet_hide [OF pk n(1,2) k(1,3)]) (simp add: k(2))
  have "udp_input env q inp t = recv_call env f (recv_arg c) b q src sp (?t\<lparr>pbufs := put_node q n' (pbufs t)\<rparr>)"
    using h hide(1) by (simp add: run udp_deliver_def cur)
  then show "\<exists>t1. udp_input env q inp t = recv_call env f (recv_arg c) b q src sp t1 \<and> packet (pbufs t1) q cs (drop 8 m) \<and> udp_of t1 = u"
    using hide(2) by (intro exI conjI) (assumption, simp_all)
qed

lemma datagram_fields_whole:
  "u16_field 0 (datagram src dest c d) = lwip_htons src" "u16_field 2 (datagram src dest c d) = lwip_htons dest"
  "u16_field 6 (datagram src dest c d) = c"
  using datagram_fields(1-3) [of src dest c d] take_field [of _ 8 "datagram src dest c d"] by simp_all

subsection \<open>Properties\<close>

text \<open>
  C9: A datagram reaches its receiver. Sent from a block that is bound, with the checksum of its
  payload handed in, computed or left out, it is one IP packet; a host that accepts this packet for one of its
  interfaces, however the packet lies in its pbufs and whatever follows it in the frame, calls the
  receive function of the block that is bound to the port, with exactly the payload, the address and
  the port of the sender.
\<close>

theorem udp_datagram_is_received:
  fixes s :: "'w udp_ip" and env :: "'w udp_env" and env' :: "'v udp_env" and ipenv :: "'v udp ip_env"
  assumes "packet (pbufs s) p as d" "nodes (pbufs s) p = Some n" "own_memory p n"
    and "n_base n + 28 \<le> n_payload n" "length d + 28 < 65536"
    and "pcb_at (udp_of s) a = Some c" "local_port c \<noteq> 0"
    and "so_options c AND SOF_BROADCAST \<noteq> 0 \<or> \<not> ip4_addr_isbroadcast dst (netifs s netif)"
    and "have_chksum \<longrightarrow> unat chksum = ocs (sum_le d)"
    and handler: "ip_env.udp_input ipenv = udp_input env'"
  shows "\<exists>s1 frame. udp_sendto_if_src_chksum env (Some a) p (Some dst) dport netif have_chksum chksum src s = netif_output (lower env) netif p dst s1
    \<and> frame_of (Some p) (pbufs s1) = Some frame \<and> length frame = 28 + length d
    \<and> (\<forall>t q bs pad m inp netif' check b c' f.
         packet (pbufs t) q bs (frame @ pad) \<and> nodes (pbufs t) q = Some m \<and> own_memory q m \<and> 28 \<le> unat (n_len m)
         \<and> accept_netif ipenv inp src dst t = (Some netif', check)
         \<and> \<not> (check \<and> \<not> ip4_addr_isany_val src \<and> (ip4_addr_isbroadcast src (netifs t inp) \<or> ip4_addr_ismulticast src))
         \<and> udp_ok (udp_of t) \<and> \<not> ip4_addr_isbroadcast dst (netifs t netif') \<and> \<not> ip4_addr_ismulticast dst
         \<and> pcb_at (udp_of t) b = Some c' \<and> local_port c' = dport \<and> dport \<noteq> 0 \<and> (local_ip c' = IPADDR_ANY \<or> local_ip c' = dst)
         \<and> (remote_match c' src (local_port c) \<or> pcb_flags c' AND UDP_FLAGS_CONNECTED = 0) \<and> recv c' = Some f
         \<longrightarrow> (\<exists>t1 cs. ip4_input ipenv q inp t = map_option (upd_inet no_packet) (recv_call env' f (recv_arg c') b q src (local_port c) t1)
              \<and> packet (pbufs t1) q cs d))"
proof -
  let ?ttl = "if ip4_addr_ismulticast dst then mcast_ttl c else pcb_ttl c"
  let ?h = "ip_header 0 ?ttl (pcb_tos c) IP_PROTO_UDP 20 (of_nat (20 + (8 + length d))) (ip_id (env_state s)) src dst"
  obtain k s1 where out: "udp_sendto_if_src_chksum env (Some a) p (Some dst) dport netif have_chksum chksum src s = netif_output (lower env) netif p dst s1"
    "packet (pbufs s1) p as (?h @ datagram (local_port c) dport k d)" "chksum_ok src dst k (datagram (local_port c) dport k d)"
    by (rule udp_sendE [OF assms(1-9)])
  show ?thesis
  proof (rule exI, rule exI, rule conjI [OF out(1)], rule conjI [OF packet_frame [OF out(2)]], rule conjI, simp, intro allI impI, elim conjE)
    fix t q bs pad m inp netif' check b c' f
    let ?m = "datagram (local_port c) dport k d"
    assume pk: "packet (pbufs t) q bs ((?h @ ?m) @ pad)" and m: "nodes (pbufs t) q = Some m" "own_memory q m" "28 \<le> unat (n_len m)"
      and acc: "accept_netif ipenv inp src dst t = (Some netif', check)"
      and src: "\<not> (check \<and> \<not> ip4_addr_isany_val src \<and> (ip4_addr_isbroadcast src (netifs t inp) \<or> ip4_addr_ismulticast src))"
      and u: "udp_ok (udp_of t)" "\<not> ip4_addr_isbroadcast dst (netifs t netif')" "\<not> ip4_addr_ismulticast dst"
      and c': "pcb_at (udp_of t) b = Some c'" "local_port c' = dport" "dport \<noteq> 0" "local_ip c' = IPADDR_ANY \<or> local_ip c' = dst"
        "remote_match c' src (local_port c) \<or> pcb_flags c' AND UDP_FLAGS_CONNECTED = 0" "recv c' = Some f"
    have pk': "packet (pbufs t) q bs (ip_header 0 ?ttl (pcb_tos c) IP_PROTO_UDP 20 (of_nat (20 + length ?m)) (ip_id (env_state s)) src dst @ ?m @ pad)"
      using pk by (simp only: append_assoc length_datagram)
    have udp: "protocol_input ipenv IP_PROTO_UDP = Some (udp_input env')" by (simp add: protocol_input_def handler)
    have len: "20 \<le> unat (n_len m)" "length ?m + 20 < 65536" using m(3) assms(5) by simp_all
    obtain hp cs n' where inp: "ip4_input ipenv q inp t = map_option (upd_inet no_packet)
        (udp_input env' q inp (accepted netif' inp (n_payload m) 20 src dst hp t))"
      "packet hp q cs ?m" "nodes hp q = Some n'" "own_memory q n'" "unat (n_len n') = min (unat (n_len m) - 20) (length ?m)"
      by (rule ip4_input_accepted [OF pk' m(1,2) len acc src udp])
    let ?t = "accepted netif' inp (n_payload m) 20 src dst hp t"
    obtain r u' where demux: "udp_demux (netifs t inp) False src (local_port c) dst dport (udp_of t) = Some (r, u')"
      "pcb_at u' = pcb_at (udp_of t)" "r = Some b"
      using udp_demux_result [OF u(1,3), of "netifs t inp" src "local_port c" dport] c' by blast
    have n8: "8 \<le> unat (n_len n')" using inp(5) m(3) by simp
    have demux': "udp_demux (netifs ?t inp) (ip4_addr_isbroadcast dst (netifs ?t netif')) src (local_port c) dst dport (udp_of ?t) = Some (r, u')"
      using demux u(2) by simp
    have pk2: "packet (pbufs ?t) q cs ?m" "nodes (pbufs ?t) q = Some n'" using inp(2,3) by simp_all
    have "\<exists>t1. udp_input env' q inp ?t = recv_call env' f (recv_arg c') b q src (local_port c) t1 \<and> packet (pbufs t1) q cs (drop 8 ?m) \<and> udp_of t1 = u'"
      by (rule udp_inputE(3) [OF pk2 inp(4) n8 _ _ _ datagram_fields_whole(1,2) demux'])
        (use out(3) demux(2,3) c' in \<open>simp_all add: datagram_fields_whole\<close>)
    with inp(1) show "\<exists>t1 cs. ip4_input ipenv q inp t = map_option (upd_inet no_packet) (recv_call env' f (recv_arg c') b q src (local_port c) t1)
        \<and> packet (pbufs t1) q cs d" by (auto simp: datagram_fields)
  qed
qed

text \<open>
  C13: A datagram that nobody here is meant to get or whose checksum does not verify is given to no block:
  the pbuf is released, nothing is sent, no callback and no part of ICMP is called, and all that
  may change of UDP is the order of its list.
\<close>

theorem udp_input_drops:
  assumes "packet (pbufs t) q cs m" "nodes (pbufs t) q = Some n" "own_memory q n" "8 \<le> unat (n_len n)"
    and "current_netif (env_state t) = Some netif" "current_iphdr_src (env_state t) = src" "current_iphdr_dest (env_state t) = dst"
    and "udp_ok (udp_of t)"
    and "\<not> chksum_ok src dst (u16_field 6 m) m
      \<or> ip_addr (netifs t inp) \<noteq> dst \<and> (\<forall>b c. pcb_at (udp_of t) b = Some c \<longrightarrow> local_port c = 0 \<or> local_port c \<noteq> lwip_ntohs (u16_field 2 m))"
  shows "\<exists>l. udp_input env q inp t = free_pbuf q (put_udp ((udp_of t)\<lparr>udp_pcbs := l\<rparr>) t) \<and> set l = set (udp_pcbs (udp_of t))"
proof -
  define sp dport where "sp = lwip_ntohs (u16_field 0 m)" and "dport = lwip_ntohs (u16_field 2 m)"
  have ports: "u16_field 0 m = lwip_htons sp" "u16_field 2 m = lwip_htons dport"
    by (simp_all add: sp_def dport_def lwip_ntohs_def)
  obtain r l where demux: "udp_demux (netifs t inp) (ip4_addr_isbroadcast dst (netifs t netif)) src sp dst dport (udp_of t)
      = Some (r, (udp_of t)\<lparr>udp_pcbs := l\<rparr>)" "set l = set (udp_pcbs (udp_of t))"
    by (rule udp_demuxE [OF assms(8)])
  have nobody: "r = None" if "\<forall>b c. pcb_at (udp_of t) b = Some c \<longrightarrow> local_port c = 0 \<or> local_port c \<noteq> dport"
  proof (cases r)
    case (Some b)
    from udp_demux_bound [OF assms(8) demux(1) [unfolded Some]] that show ?thesis by auto
  qed
  have "udp_input env q inp t = free_pbuf q (put_udp ((udp_of t)\<lparr>udp_pcbs := l\<rparr>) t)"
  proof (cases "chksum_ok src dst (u16_field 6 m) m")
    case True
    then have "ip_addr (netifs t inp) \<noteq> dst" "r = None" using assms(9) nobody by (simp_all add: dport_def)
    then show ?thesis by (intro udp_inputE(1) [OF assms(1-7) ports demux(1)])
  qed (rule udp_inputE(2) [OF assms(1-7) ports demux(1)])
  with demux(2) show ?thesis by blast
qed

text \<open>
  C15: The length in the header of a datagram is not looked at. Whatever it says, the block gets all the
  bytes that follow the header in the IP packet.
\<close>

theorem udp_length_ignored:
  assumes "packet (pbufs t) q cs (u16_bytes (lwip_htons sp) @ u16_bytes (lwip_htons dport) @ u16_bytes len @ u16_bytes 0 @ d)"
    and "nodes (pbufs t) q = Some n" "own_memory q n" "8 \<le> unat (n_len n)"
    and "current_netif (env_state t) = Some netif" "current_iphdr_src (env_state t) = src" "current_iphdr_dest (env_state t) = dst"
    and "udp_ok (udp_of t)" "\<not> ip4_addr_isbroadcast dst (netifs t netif)" "\<not> ip4_addr_ismulticast dst"
    and "pcb_at (udp_of t) b = Some c" "local_port c = dport" "dport \<noteq> 0" "local_ip c = IPADDR_ANY \<or> local_ip c = dst"
    and "pcb_flags c AND UDP_FLAGS_CONNECTED = 0" "recv c = Some f"
  shows "\<exists>t1. udp_input env q inp t = recv_call env f (recv_arg c) b q src sp t1 \<and> packet (pbufs t1) q cs d"
proof -
  let ?m = "u16_bytes (lwip_htons sp) @ u16_bytes (lwip_htons dport) @ u16_bytes len @ u16_bytes 0 @ d"
  have fields: "u16_field 0 ?m = lwip_htons sp" "u16_field 2 ?m = lwip_htons dport" "u16_field 6 ?m = 0" "drop 8 ?m = d"
    using le16_split [of "lwip_htons sp"] le16_split [of "lwip_htons dport"] le16_split [of 0]
    by (simp_all add: u16_field_def u16_bytes_def)
  obtain r u where demux: "udp_demux (netifs t inp) False src sp dst dport (udp_of t) = Some (r, u)"
    "pcb_at u = pcb_at (udp_of t)" "r = Some b"
    using udp_demux_result [OF assms(8,10), of "netifs t inp" src sp dport] assms(11-15) by blast
  then have run: "udp_demux (netifs t inp) (ip4_addr_isbroadcast dst (netifs t netif)) src sp dst dport (udp_of t) = Some (r, u)"
    using assms(9) by simp
  have "\<exists>t1. udp_input env q inp t = recv_call env f (recv_arg c) b q src sp t1 \<and> packet (pbufs t1) q cs (drop 8 ?m) \<and> udp_of t1 = u"
    by (rule udp_inputE(3) [OF assms(1-7) fields(1,2) run]) (use demux assms(11,16) fields(3) in \<open>simp_all add: chksum_ok_def\<close>)
  then show ?thesis unfolding fields(4) by blast
qed

subsection \<open>Witnesses\<close>

text \<open>A host 10.0.0.1 with a block that is bound to port 53 and hands datagrams to function 9.\<close>

definition server :: "unit udp" where
  "server = blocks [1] [1 \<mapsto> (at_53 0x0100000a)\<lparr>recv := Some 9\<rparr>]"

definition server_ip :: "unit udp ip_env" where
  "server_ip = \<lparr>chksum_algorithm = 1, netif_output = \<lambda>i p a s. Some (ERR_OK, s), igmp_lookfor_group = \<lambda>i a w. False,
     udp_input = \<lambda>p i s. Some s, tcp_input = \<lambda>p i s. Some s, icmp_input = \<lambda>p i s. Some s,
     igmp_input = \<lambda>p i a s. Some s, icmp_dest_unreach = \<lambda>p c s. Some s\<rparr>"

definition server_env :: "unit udp_env" where
  "server_env = \<lparr>lower = server_ip, malloc = \<lambda>k f y l. None, recv_call = \<lambda>f x a p src port s. Some s\<rparr>"

definition server_stack :: "unit udp ip_env" where
  "server_stack = server_ip\<lparr>udp_input := udp_input server_env\<rparr>"

definition server_world :: "unit udp inet" where
  "server_world = \<lparr>netif_list = [0], netif_default = Some 0, ip4_default_multicast_netif = None, ip_id = 7, current_netif = Some 0,
     current_input_netif = Some 0, current_ip4_header = None, current_ip_header_tot_len = 20, current_iphdr_src = 0x0200000a,
     current_iphdr_dest = 0x0100000a, above = server\<rparr>"

definition server_host :: "bytes \<Rightarrow> unit udp_ip" where
  "server_host d = \<lparr>arp_table = [], etharp_cached_entry = 0, netifs = \<lambda>_. host_netif, pbufs = pbufs (host d),
     frames = [], queue_requests = 0, env_state = server_world\<rparr>"

lemma server_host_sel [simp]: "pbufs (server_host d) = pbufs (host d)" "netifs (server_host d) i = host_netif"
  "env_state (server_host d) = server_world" "udp_of (server_host d) = server"
  by (simp_all add: server_host_def server_world_def udp_of_def)

lemma server_world_sel [simp]: "current_netif server_world = Some 0" "current_iphdr_src server_world = 0x0200000a"
  "current_iphdr_dest server_world = 0x0100000a"
  by (simp_all add: server_world_def)

lemma server_at: "pcb_at server b = Some c \<longleftrightarrow> b = 1 \<and> c = (at_53 0x0100000a)\<lparr>recv := Some 9\<rparr>"
  by (auto simp: server_def blocks_def)

lemma server_block: "local_port ((at_53 ip)\<lparr>recv := f\<rparr>) = 53" "local_ip ((at_53 ip)\<lparr>recv := f\<rparr>) = ip"
  "pcb_flags ((at_53 ip)\<lparr>recv := f\<rparr>) = 0" "recv_arg ((at_53 ip)\<lparr>recv := f\<rparr>) = 0"
  by (simp_all add: at_53_def blank_def)

lemma server_ok: "udp_ok server"
  by (rule udp_okI) (auto simp: server_at server_block, auto simp: server_def blocks_def at_53_def)

lemma server_not_broadcast: "\<not> ip4_addr_isbroadcast 0x0100000a host_netif" "\<not> ip4_addr_ismulticast 0x0100000a"
  by code_simp+

lemma server_accepts: "accept_netif server_stack 0 0x0200000a 0x0100000a (server_host d) = (Some 0, True)"
  by (simp add: accept_netif_def ip4_addr_ismulticast_def host_netif_def netif_is_up_def NETIF_FLAG_UP_def
      ip4_addr_isany_val_def IPADDR_ANY_def lwip_htonl_def)

theorem udp_datagram_is_received_witness:
  "\<exists>s1 frame. udp_sendto_if_src_chksum server_env (Some 1) 1000 (Some 0x0100000a) 53 0 True 0x0204 0x0200000a (server_host [1, 2, 3])
        = netif_output (lower server_env) 0 1000 0x0100000a s1
     \<and> frame_of (Some 1000) (pbufs s1) = Some frame
     \<and> (\<exists>t1 cs. ip4_input server_stack 1000 0 (server_host (frame @ replicate 15 0))
          = map_option (upd_inet no_packet) (recv_call server_env 9 0 1 1000 0x0200000a 53 t1) \<and> packet (pbufs t1) 1000 cs [1, 2, 3])"
proof -
  have pk: "packet (pbufs (server_host [1, 2, 3])) 1000 [1000] [1, 2, 3]" by (simp add: host_packet)
  have sum: "True \<longrightarrow> unat (0x0204 :: u16) = ocs (sum_le [1, 2, 3])" by (simp add: ocs_def)
  have handler: "ip_env.udp_input server_stack = udp_input server_env" by (simp add: server_stack_def)
  obtain s1 frame where sent: "udp_sendto_if_src_chksum server_env (Some 1) 1000 (Some 0x0100000a) 53 0 True 0x0204 0x0200000a (server_host [1, 2, 3])
        = netif_output (lower server_env) 0 1000 0x0100000a s1"
    "frame_of (Some 1000) (pbufs s1) = Some frame" "length frame = 28 + length [1 :: u8, 2, 3]"
    and received: "\<forall>t q bs pad m inp netif' check b c' f.
         packet (pbufs t) q bs (frame @ pad) \<and> nodes (pbufs t) q = Some m \<and> own_memory q m \<and> 28 \<le> unat (n_len m)
         \<and> accept_netif server_stack inp 0x0200000a 0x0100000a t = (Some netif', check)
         \<and> \<not> (check \<and> \<not> ip4_addr_isany_val 0x0200000a \<and> (ip4_addr_isbroadcast 0x0200000a (netifs t inp) \<or> ip4_addr_ismulticast 0x0200000a))
         \<and> udp_ok (udp_of t) \<and> \<not> ip4_addr_isbroadcast 0x0100000a (netifs t netif') \<and> \<not> ip4_addr_ismulticast 0x0100000a
         \<and> pcb_at (udp_of t) b = Some c' \<and> local_port c' = 53 \<and> 53 \<noteq> (0 :: u16) \<and> (local_ip c' = IPADDR_ANY \<or> local_ip c' = 0x0100000a)
         \<and> (remote_match c' 0x0200000a (local_port ((at_53 0x0100000a)\<lparr>recv := Some 9\<rparr>)) \<or> pcb_flags c' AND UDP_FLAGS_CONNECTED = 0) \<and> recv c' = Some f
         \<longrightarrow> (\<exists>t1 cs. ip4_input server_stack q inp t = map_option (upd_inet no_packet)
                (recv_call server_env f (recv_arg c') b q 0x0200000a (local_port ((at_53 0x0100000a)\<lparr>recv := Some 9\<rparr>)) t1)
              \<and> packet (pbufs t1) q cs [1, 2, 3])"
    using udp_datagram_is_received [OF pk _ _ _ _ _ _ _ sum handler, where n = "packet_node [1, 2, 3]" and a = 1 and c = "(at_53 0x0100000a)\<lparr>recv := Some 9\<rparr>"
        and dst = "0x0100000a" and netif = 0 and dport = 53 and src = "0x0200000a" and env = server_env]
    by (auto simp: server_at server_block host_node server_not_broadcast)
  let ?f = "frame @ replicate 15 0"
  have len: "length ?f < 65536" "length ?f = 46" using sent(3) by simp_all
  have "packet (pbufs (server_host ?f)) 1000 [1000] ?f" using host_packet [OF len(1)] by simp
  moreover have "28 \<le> unat (n_len (packet_node ?f))" by (simp only: packet_node_sel len(2)) simp
  ultimately have "\<exists>t1 cs. ip4_input server_stack 1000 0 (server_host ?f)
      = map_option (upd_inet no_packet) (recv_call server_env 9 0 1 1000 0x0200000a 53 t1) \<and> packet (pbufs t1) 1000 cs [1, 2, 3]"
    using received [rule_format, of "server_host ?f" 1000 "[1000]" "replicate 15 0" "packet_node ?f" 0 0 True 1 "(at_53 0x0100000a)\<lparr>recv := Some 9\<rparr>" 9]
    by (simp add: server_at server_block host_node server_accepts host_source server_not_broadcast server_ok)
  with sent(1,2) show ?thesis by blast
qed

theorem udp_input_drops_witness:
  "\<exists>l. udp_input server_env 1000 0 (server_host [0, 9, 0, 53, 0, 9, 1, 1, 7])
      = free_pbuf 1000 (put_udp (server\<lparr>udp_pcbs := l\<rparr>) (server_host [0, 9, 0, 53, 0, 9, 1, 1, 7])) \<and> set l = set (udp_pcbs server)"
proof -
  let ?m = "[0, 9, 0, 53, 0, 9, 1, 1, 7] :: bytes"
  have bad: "\<not> chksum_ok 0x0200000a 0x0100000a (u16_field 6 ?m) ?m"
    by (simp add: chksum_ok_def ocs_def pseudo_header_def u16_field_def u32_bytes_def u16_bytes_be_def IP_PROTO_UDP_def le16_def)
  have pk: "packet (pbufs (server_host ?m)) 1000 [1000] ?m" by (simp add: host_packet)
  have "\<exists>l. udp_input server_env 1000 0 (server_host ?m) = free_pbuf 1000 (put_udp ((udp_of (server_host ?m))\<lparr>udp_pcbs := l\<rparr>) (server_host ?m))
      \<and> set l = set (udp_pcbs (udp_of (server_host ?m)))"
    by (rule udp_input_drops [OF pk, where n = "packet_node ?m" and netif = 0 and src = "0x0200000a" and dst = "0x0100000a"])
      (use bad in \<open>simp_all add: host_node server_ok\<close>)
  then show ?thesis by simp
qed

theorem udp_length_ignored_witness:
  "\<exists>t1. udp_input server_env 1000 0
      (server_host (u16_bytes (lwip_htons 9) @ u16_bytes (lwip_htons 53) @ u16_bytes 0 @ u16_bytes 0 @ [1, 2, 3]))
      = recv_call server_env 9 0 1 1000 0x0200000a 9 t1 \<and> packet (pbufs t1) 1000 [1000] [1, 2, 3]"
proof -
  let ?m = "u16_bytes (lwip_htons 9) @ u16_bytes (lwip_htons 53) @ u16_bytes 0 @ u16_bytes 0 @ [1, 2, 3]"
  have pk: "packet (pbufs (server_host ?m)) 1000 [1000] ?m" unfolding server_host_sel by (rule host_packet) simp
  have "pcb_at (udp_of (server_host ?m)) 1 = Some ((at_53 0x0100000a)\<lparr>recv := Some 9\<rparr>)" by (simp add: server_at)
  from udp_length_ignored [OF pk _ _ _ _ _ _ _ _ _ this, where n = "packet_node ?m" and netif = 0 and src = "0x0200000a" and dst = "0x0100000a" and inp = 0 and env = server_env and f = 9] show ?thesis
    by (simp add: host_node server_block server_ok server_not_broadcast)
qed

end
