(* ===== verification/Shell.thy ===== *)
theory Shell
  imports Ip4Addr Machine "HOL-Library.Monad_Syntax" "HOL-Library.Multiset"
begin

text \<open>
  The interactive shell (\<open>lwip_apps/shell/shell.c\<close>): the parser of command lines, the commands
  on the table of connections and the loop that serves a client. The state is the global
  line buffer, the table and the calls made to the connection interface so far, with their
  results; what a call returns may depend on all calls before it. An argument is the offset
  of its text in the line buffer, or nothing while it has not been set. \<open>None\<close> is a run that
  reads or writes outside the buffer or the table, or uses an argument that was never set.
  Statistics and the echo are not compiled in.
\<close>

subsection \<open>Data\<close>

datatype shell_result = ESUCCESS | ESYNTAX | ETOOFEW | ETOOMANY | ECLOSED

datatype netconn_type = NETCONN_TCP | NETCONN_UDP | NETCONN_UDPLITE | NETCONN_UDPNOCHKSUM

text \<open>Connections are numbers. Every call is recorded with its arguments and its result.\<close>

datatype netconn_call =
    Call_new netconn_type "nat option"
  | Call_connect nat u32 u16 err_t
  | Call_bind nat u32 u16 err_t
  | Call_listen nat err_t
  | Call_accept nat err_t "nat option"
  | Call_close nat err_t
  | Call_delete nat
  | Call_write nat bytes err_t
  | Call_recv nat err_t bytes
  | Call_err nat err_t
  | Call_send nat bytes err_t
  | Call_recv_pbuf nat err_t bytes

record shell_env =
  netconn_new :: "netconn_call list \<Rightarrow> netconn_type \<Rightarrow> nat option"
  netconn_connect :: "netconn_call list \<Rightarrow> nat \<Rightarrow> u32 \<Rightarrow> u16 \<Rightarrow> err_t"
  netconn_bind :: "netconn_call list \<Rightarrow> nat \<Rightarrow> u32 \<Rightarrow> u16 \<Rightarrow> err_t"
  netconn_listen :: "netconn_call list \<Rightarrow> nat \<Rightarrow> err_t"
  netconn_accept :: "netconn_call list \<Rightarrow> nat \<Rightarrow> err_t \<times> nat option"
  netconn_close :: "netconn_call list \<Rightarrow> nat \<Rightarrow> err_t"
  netconn_write :: "netconn_call list \<Rightarrow> nat \<Rightarrow> bytes \<Rightarrow> err_t"
  netconn_recv :: "netconn_call list \<Rightarrow> nat \<Rightarrow> err_t \<times> bytes"
  netconn_err :: "netconn_call list \<Rightarrow> nat \<Rightarrow> err_t"
  netconn_send :: "netconn_call list \<Rightarrow> nat \<Rightarrow> bytes \<Rightarrow> err_t"
  netconn_recv_tcp_pbuf :: "netconn_call list \<Rightarrow> nat \<Rightarrow> err_t \<times> bytes"
  netbuf_alloc :: "netconn_call list \<Rightarrow> nat \<Rightarrow> bool"
  lwip_strerr :: "err_t \<Rightarrow> bytes"
  strerror_errno :: bytes
  uninitialised :: "netconn_call list \<Rightarrow> u32"

record shell =
  buffer :: bytes
  conns :: "nat option list"
  trace :: "netconn_call list"

text \<open>The function a command is executed by.\<close>

datatype shell_command =
    Com_open | Com_lstn | Com_acpt | Com_clos | Com_send | Com_recv
  | Com_udpc | Com_udpb | Com_udpl | Com_udpn | Com_usnd | Com_help

record command =
  conn :: nat
  exec :: "shell_command option"
  nargs :: nat
  args :: "nat option list"

definition NCONNS :: nat where "NCONNS = 3"
definition BUFSIZE :: nat where "BUFSIZE = 256"

definition str :: "string \<Rightarrow> bytes" where "str = map of_char"

definition NEWLINE :: bytes where "NEWLINE = [0x0a]"

definition help_msg1 :: bytes where
  "help_msg1 = str ''Available commands:'' @ NEWLINE @
     str ''open [IP address] [TCP port]: opens a TCP connection to the specified address.'' @ NEWLINE @
     str ''lstn [TCP port]: sets up a server on the specified port.'' @ NEWLINE @
     str ''acpt [connection #]: waits for an incoming connection request.'' @ NEWLINE @
     str ''send [connection #] [message]: sends a message on a TCP connection.'' @ NEWLINE @
     str ''udpc [local UDP port] [IP address] [remote port]: opens a UDP \"connection\".'' @ NEWLINE @
     str ''udpl [local UDP port] [IP address] [remote port]: opens a UDP-Lite \"connection\".'' @ NEWLINE"

definition help_msg2 :: bytes where
  "help_msg2 = str ''udpn [local UDP port] [IP address] [remote port]: opens a UDP \"connection\" without checksums.'' @ NEWLINE @
     str ''udpb [local port] [remote port]: opens a UDP broadcast \"connection\".'' @ NEWLINE @
     str ''usnd [connection #] [message]: sends a message on a UDP connection.'' @ NEWLINE @
     str ''recv [connection #]: receives data on a TCP or UDP connection.'' @ NEWLINE @
     str ''clos [connection #]: closes a TCP or UDP connection.'' @ NEWLINE @
     str ''stat: prints out lwIP statistics.'' @ NEWLINE @
     str ''quit: quits.'' @ NEWLINE"

subsection \<open>The line buffer\<close>

definition buf_get :: "nat \<Rightarrow> bytes \<Rightarrow> u8 option" where
  "buf_get i b = (if i < length b then Some (b ! i) else None)"

definition buf_set :: "nat \<Rightarrow> u8 \<Rightarrow> bytes \<Rightarrow> bytes option" where
  "buf_set i c b = (if i < length b then Some (b[i := c]) else None)"

text \<open>The string at an offset: up to its terminating zero, which has to be in the buffer.\<close>

definition c_string :: "nat \<Rightarrow> bytes \<Rightarrow> bytes option" where
  "c_string a b = (if a < length b \<and> 0 \<in> set (drop a b) then Some (takeWhile (\<lambda>c. c \<noteq> 0) (drop a b)) else None)"

definition arg :: "nat \<Rightarrow> command \<Rightarrow> shell \<Rightarrow> bytes option" where
  "arg k com s = do { a \<leftarrow> args com ! k; c_string a (buffer s) }"

text \<open>\<open>strtol\<close> of the C library in base 10, for a \<open>long\<close> of 32 bits.\<close>

definition strtol_digits :: "bytes \<Rightarrow> int" where
  "strtol_digits cs = foldl (\<lambda>n c. 10 * n + uint (c - 0x30)) 0 (takeWhile isdigit cs)"

definition strtol :: "bytes \<Rightarrow> int" where
  "strtol cs =
     (let cs = dropWhile isspace cs;
          neg = (cur cs = 0x2d);
          cs = (if cur cs = 0x2d \<or> cur cs = 0x2b then tl cs else cs);
          n = strtol_digits cs
      in max (- (2 ^ 31)) (min (2 ^ 31 - 1) (if neg then - n else n)))"

subsection \<open>Calls\<close>

definition record_call :: "netconn_call \<Rightarrow> shell \<Rightarrow> shell" where
  "record_call c s = s\<lparr>trace := trace s @ [c]\<rparr>"

definition do_write :: "shell_env \<Rightarrow> nat \<Rightarrow> bytes \<Rightarrow> shell \<Rightarrow> err_t \<times> shell" where
  "do_write env c data s =
     (let r = netconn_write env (trace s) c data in (r, record_call (Call_write c data r) s))"

definition sendstr :: "shell_env \<Rightarrow> bytes \<Rightarrow> nat \<Rightarrow> shell \<Rightarrow> shell" where
  "sendstr env text c s = snd (do_write env c text s)"

definition do_delete :: "nat \<Rightarrow> shell \<Rightarrow> shell" where
  "do_delete c s = record_call (Call_delete c) s"

text \<open>The messages about a failed call.\<close>

definition report :: "shell_env \<Rightarrow> nat \<Rightarrow> bytes \<Rightarrow> err_t \<Rightarrow> shell \<Rightarrow> shell" where
  "report env c text err s = sendstr env NEWLINE c (sendstr env (lwip_strerr env err) c (sendstr env text c s))"

definition set_conn :: "nat \<Rightarrow> nat option \<Rightarrow> shell \<Rightarrow> shell" where
  "set_conn i c s = s\<lparr>conns := (conns s)[i := c]\<rparr>"

fun first_free :: "nat option list \<Rightarrow> nat" where
  "first_free [] = 0"
| "first_free (c # cs) = (if c = None then 0 else Suc (first_free cs))"

text \<open>\<open>netconn_delete\<close> of an entry that has just been filled, and the message.\<close>

definition drop_conn :: "shell_env \<Rightarrow> nat \<Rightarrow> nat \<Rightarrow> bytes \<Rightarrow> err_t \<Rightarrow> command \<Rightarrow> shell \<Rightarrow> shell_result \<times> shell" where
  "drop_conn env i c text err com s =
     (ESUCCESS, report env (conn com) text err (set_conn i None (do_delete c s)))"

text \<open>\<open>snprintf(buffer, "%d\n", i)\<close> for an index of the table, and the messages that announce it.\<close>

definition announce :: "shell_env \<Rightarrow> bytes \<Rightarrow> nat \<Rightarrow> command \<Rightarrow> shell \<Rightarrow> shell_result \<times> shell" where
  "announce env text i com s =
     (let s = sendstr env text (conn com) s;
          line = [0x30 + of_nat i] @ NEWLINE;
          s = s\<lparr>buffer := mem_write 0 (line @ [0]) (buffer s)\<rparr>
      in (ESUCCESS, sendstr env line (conn com) s))"

definition invalid_port :: "shell_env \<Rightarrow> command \<Rightarrow> shell \<Rightarrow> shell_result \<times> shell" where
  "invalid_port env com s = (ESUCCESS, sendstr env (str ''Invalid port number.'' @ NEWLINE) (conn com) s)"

definition no_more :: "shell_env \<Rightarrow> command \<Rightarrow> shell \<Rightarrow> shell_result \<times> shell" where
  "no_more env com s =
     (ESUCCESS, sendstr env (str ''No more connections available, sorry.'' @ NEWLINE) (conn com) s)"

text \<open>\<open>ipaddr_aton\<close> returns 0 or 1 and leaves the address alone when it fails.\<close>

definition ipaddr_aton :: "shell_env \<Rightarrow> bytes \<Rightarrow> shell \<Rightarrow> int \<times> u32" where
  "ipaddr_aton env text s =
     (case ip4addr_aton text of None \<Rightarrow> (0, uninitialised env (trace s)) | Some a \<Rightarrow> (1, a))"

subsection \<open>The commands\<close>

definition com_open :: "shell_env \<Rightarrow> command \<Rightarrow> shell \<Rightarrow> (shell_result \<times> shell) option" where
  "com_open env com s = do {
     a0 \<leftarrow> arg 0 com s;
     let (r, ipaddr) = ipaddr_aton env a0 s;
     if r = -1 then Some (ESYNTAX, sendstr env (strerror_errno env) (conn com) s)
     else do {
       a1 \<leftarrow> arg 1 com s;
       let tmp = strtol a1;
       if tmp < 0 \<or> tmp > 0xffff then Some (invalid_port env com s)
       else do {
         let port = (word_of_int tmp :: u16);
         let i = first_free (conns s);
         if i = NCONNS then Some (no_more env com s)
         else do {
           let s = sendstr env (str ''Opening connection to '') (conn com) s;
           let s = sendstr env a0 (conn com) s;
           let s = sendstr env (str '':'') (conn com) s;
           let s = sendstr env a1 (conn com) s;
           let s = sendstr env NEWLINE (conn com) s;
           let new = netconn_new env (trace s) NETCONN_TCP;
           let s = set_conn i new (record_call (Call_new NETCONN_TCP new) s);
           case new of
             None \<Rightarrow> Some (ESUCCESS, sendstr env
               (str ''Could not create connection identifier (out of memory).'' @ NEWLINE) (conn com) s)
           | Some c \<Rightarrow>
               let err = netconn_connect env (trace s) c ipaddr port;
                   s = record_call (Call_connect c ipaddr port err) s
               in Some (if err \<noteq> ERR_OK then
                    (ESUCCESS, set_conn i None (do_delete c
                       (report env (conn com) (str ''Could not connect to remote host: '') err s)))
                  else announce env (str ''Opened connection, connection identifier is '') i com s)
         }
       }
     }
   }"

definition com_lstn :: "shell_env \<Rightarrow> command \<Rightarrow> shell \<Rightarrow> (shell_result \<times> shell) option" where
  "com_lstn env com s = do {
     a0 \<leftarrow> arg 0 com s;
     let tmp = strtol a0;
     if tmp < 0 \<or> tmp > 0xffff then Some (invalid_port env com s)
     else do {
       let port = (word_of_int tmp :: u16);
       let i = first_free (conns s);
       if i = NCONNS then Some (no_more env com s)
       else do {
         let s = sendstr env (str ''Opening a listening connection on port '') (conn com) s;
         let s = sendstr env a0 (conn com) s;
         let s = sendstr env NEWLINE (conn com) s;
         let new = netconn_new env (trace s) NETCONN_TCP;
         let s = set_conn i new (record_call (Call_new NETCONN_TCP new) s);
         case new of
           None \<Rightarrow> Some (ESUCCESS, sendstr env
             (str ''Could not create connection identifier (out of memory).'' @ NEWLINE) (conn com) s)
         | Some c \<Rightarrow>
             let err = netconn_bind env (trace s) c IPADDR_ANY port;
                 s = record_call (Call_bind c IPADDR_ANY port err) s
             in Some (if err \<noteq> ERR_OK then drop_conn env i c (str ''Could not bind: '') err com s
                else let err = netconn_listen env (trace s) c; s = record_call (Call_listen c err) s
                  in if err \<noteq> ERR_OK then drop_conn env i c (str ''Could not listen: '') err com s
                     else announce env (str ''Opened connection, connection identifier is '') i com s)
       }
     }
   }"

text \<open>
  How a command finds its connection: the identifier is compared with the size of the table
  as \<open>i > NCONNS\<close>, then used as an index.
\<close>

definition with_conn ::
  "shell_env \<Rightarrow> int \<Rightarrow> command \<Rightarrow> shell \<Rightarrow> (nat \<Rightarrow> nat \<Rightarrow> (shell_result \<times> shell) option) \<Rightarrow> (shell_result \<times> shell) option" where
  "with_conn env i com s f =
     (if i > int NCONNS
      then Some (ESUCCESS, sendstr env (str ''Connection identifier too high.'' @ NEWLINE) (conn com) s)
      else if i < 0 \<or> i \<ge> int (length (conns s)) then None
      else case conns s ! nat i of
             None \<Rightarrow> Some (ESUCCESS, sendstr env (str ''Connection identifier not in use.'' @ NEWLINE) (conn com) s)
           | Some c \<Rightarrow> f (nat i) c)"

definition com_clos :: "shell_env \<Rightarrow> command \<Rightarrow> shell \<Rightarrow> (shell_result \<times> shell) option" where
  "com_clos env com s = do {
     a0 \<leftarrow> arg 0 com s;
     with_conn env (strtol a0) com s (\<lambda>i c.
       let err = netconn_close env (trace s) c; s = record_call (Call_close c err) s
       in Some (if err \<noteq> ERR_OK
                then (ESUCCESS, report env (conn com) (str ''Could not close connection: '') err s)
                else let s = sendstr env (str ''Connection closed.'' @ NEWLINE) (conn com) s
                  in (ESUCCESS, set_conn i None (do_delete c s))))
   }"

definition com_acpt :: "shell_env \<Rightarrow> command \<Rightarrow> shell \<Rightarrow> (shell_result \<times> shell) option" where
  "com_acpt env com s =
     (let j = first_free (conns s)
      in if j = NCONNS then Some (no_more env com s)
         else do {
           a0 \<leftarrow> arg 0 com s;
           with_conn env (strtol a0) com s (\<lambda>i c.
             let (err, new) = netconn_accept env (trace s) c;
                 s = set_conn j new (record_call (Call_accept c err new) s)
             in Some (if err \<noteq> ERR_OK
                      then (ESUCCESS, report env (conn com) (str ''Could not accept connection: '') err s)
                      else announce env (str ''Accepted connection, connection identifier for new connection is '') j com s))
         })"

definition com_send :: "shell_env \<Rightarrow> command \<Rightarrow> shell \<Rightarrow> (shell_result \<times> shell) option" where
  "com_send env com s = do {
     a0 \<leftarrow> arg 0 com s;
     with_conn env (strtol a0) com s (\<lambda>i c. do {
       a \<leftarrow> args com ! 1;
       text \<leftarrow> c_string a (buffer s);
       let len = length text;
       b \<leftarrow> buf_set (a + len) 0x0d (buffer s);
       b \<leftarrow> buf_set (a + len + 1) 0x0a b;
       b \<leftarrow> buf_set (a + len + 2) 0 b;
       let s = s\<lparr>buffer := b\<rparr>;
       let (err, s) = do_write env c (take (len + 3) (drop a b)) s;
       Some (if err \<noteq> ERR_OK then (ESUCCESS, report env (conn com) (str ''Could not send data: '') err s)
             else (ESUCCESS, sendstr env (str ''Data enqueued for sending.'' @ NEWLINE) (conn com) s))
     })
   }"

definition com_recv :: "shell_env \<Rightarrow> command \<Rightarrow> shell \<Rightarrow> (shell_result \<times> shell) option" where
  "com_recv env com s = do {
     a0 \<leftarrow> arg 0 com s;
     with_conn env (strtol a0) com s (\<lambda>i c. do {
       let (err, data) = netconn_recv env (trace s) c;
       let s = record_call (Call_recv c err data) s;
       s \<leftarrow> (if err = ERR_OK then do {
                let s = s\<lparr>buffer := mem_write 0 (take BUFSIZE data) (buffer s)\<rparr>;
                let len = (of_nat (length data) :: u16);
                let s = sendstr env (str ''Reading from connection:'' @ NEWLINE) (conn com) s;
                if unat len \<le> length (buffer s)
                then Some (sendstr env (take (unat len) (buffer s)) (conn com) s) else None
              }
              else Some (sendstr env (str ''EOF.'' @ NEWLINE) (conn com) s));
       let err = netconn_err env (trace s) c;
       let s = record_call (Call_err c err) s;
       Some (if err \<noteq> ERR_OK then (ESUCCESS, report env (conn com) (str ''Could not receive data: '') err s)
             else (ESUCCESS, s))
     })
   }"

text \<open>The four commands for UDP differ in the type, the messages and the local address.\<close>

definition udp_connection ::
  "shell_env \<Rightarrow> netconn_type \<Rightarrow> bytes \<Rightarrow> bool \<Rightarrow> u32 \<Rightarrow> command \<Rightarrow> shell \<Rightarrow> (shell_result \<times> shell) option" where
  "udp_connection env kind text show_port local com s = do {
     a0 \<leftarrow> arg 0 com s;
     let tmp = strtol a0;
     if tmp < 0 \<or> tmp > 0xffff then Some (invalid_port env com s)
     else do {
       let lport = (word_of_int tmp :: u16);
       a1 \<leftarrow> arg 1 com s;
       let (r, ipaddr) = ipaddr_aton env a1 s;
       if r = -1 then Some (ESYNTAX, sendstr env (strerror_errno env) (conn com) s)
       else do {
         a2 \<leftarrow> arg 2 com s;
         let tmp = strtol a2;
         if tmp < 0 \<or> tmp > 0xffff then Some (invalid_port env com s)
         else do {
           let rport = (word_of_int tmp :: u16);
           let i = first_free (conns s);
           if i = NCONNS then Some (no_more env com s)
           else do {
             let s = sendstr env text (conn com) s;
             let s = sendstr env a0 (conn com) s;
             let s = sendstr env (str '' to '') (conn com) s;
             let s = sendstr env a1 (conn com) s;
             let s = (if show_port then sendstr env a2 (conn com) (sendstr env (str '':'') (conn com) s) else s);
             let s = sendstr env NEWLINE (conn com) s;
             let new = netconn_new env (trace s) kind;
             let s = set_conn i new (record_call (Call_new kind new) s);
             case new of
               None \<Rightarrow> Some (ESUCCESS, sendstr env
                 (str ''Could not create connection identifier (out of memory).'' @ NEWLINE) (conn com) s)
             | Some c \<Rightarrow>
                 let err = netconn_connect env (trace s) c ipaddr rport;
                     s = record_call (Call_connect c ipaddr rport err) s
                 in Some (if err \<noteq> ERR_OK
                    then drop_conn env i c (str ''Could not connect to remote host: '') err com s
                    else let err = netconn_bind env (trace s) c local lport;
                             s = record_call (Call_bind c local lport err) s
                      in if err \<noteq> ERR_OK then drop_conn env i c (str ''Could not bind: '') err com s
                         else announce env (str ''Connection set up, connection identifier is '') i com s)
           }
         }
       }
     }
   }"

definition com_udpc :: "shell_env \<Rightarrow> command \<Rightarrow> shell \<Rightarrow> (shell_result \<times> shell) option" where
  "com_udpc env = udp_connection env NETCONN_UDP (str ''Setting up UDP connection from port '') True IPADDR_ANY"

definition com_udpl :: "shell_env \<Rightarrow> command \<Rightarrow> shell \<Rightarrow> (shell_result \<times> shell) option" where
  "com_udpl env = udp_connection env NETCONN_UDPLITE (str ''Setting up UDP-Lite connection from port '') True IPADDR_ANY"

definition com_udpn :: "shell_env \<Rightarrow> command \<Rightarrow> shell \<Rightarrow> (shell_result \<times> shell) option" where
  "com_udpn env = udp_connection env NETCONN_UDPNOCHKSUM
     (str ''Setting up UDP connection without checksums from port '') True IPADDR_ANY"

definition com_udpb :: "shell_env \<Rightarrow> command \<Rightarrow> shell \<Rightarrow> (shell_result \<times> shell) option" where
  "com_udpb env = udp_connection env NETCONN_UDP
     (str ''Setting up UDP broadcast connection from port '') False IPADDR_BROADCAST"

definition com_usnd :: "shell_env \<Rightarrow> command \<Rightarrow> shell \<Rightarrow> (shell_result \<times> shell) option" where
  "com_usnd env com s = do {
     a0 \<leftarrow> arg 0 com s;
     with_conn env (strtol a0) com s (\<lambda>i c. do {
       a1 \<leftarrow> arg 1 com s;
       let tmp = length a1 + 1;
       if tmp > 0xffff then Some (ESUCCESS, sendstr env (str ''Invalid length.'' @ NEWLINE) (conn com) s)
       else if \<not> netbuf_alloc env (trace s) tmp
       then Some (ESUCCESS, sendstr env (str ''Could not allocate memory for sending.'' @ NEWLINE) (conn com) s)
       else
         let err = netconn_send env (trace s) c (a1 @ [0]);
             s = record_call (Call_send c (a1 @ [0]) err) s
         in Some (if err \<noteq> ERR_OK then (ESUCCESS, report env (conn com) (str ''Could not send data: '') err s)
                  else (ESUCCESS, sendstr env (str ''Data sent.'' @ NEWLINE) (conn com) s))
     })
   }"

definition com_help :: "shell_env \<Rightarrow> command \<Rightarrow> shell \<Rightarrow> (shell_result \<times> shell) option" where
  "com_help env com s = Some (ESUCCESS, sendstr env help_msg2 (conn com) (sendstr env help_msg1 (conn com) s))"

fun execute :: "shell_env \<Rightarrow> shell_command \<Rightarrow> command \<Rightarrow> shell \<Rightarrow> (shell_result \<times> shell) option" where
  "execute env Com_open = com_open env"
| "execute env Com_lstn = com_lstn env"
| "execute env Com_acpt = com_acpt env"
| "execute env Com_clos = com_clos env"
| "execute env Com_send = com_send env"
| "execute env Com_recv = com_recv env"
| "execute env Com_udpc = com_udpc env"
| "execute env Com_udpb = com_udpb env"
| "execute env Com_udpl = com_udpl env"
| "execute env Com_udpn = com_udpn env"
| "execute env Com_usnd = com_usnd env"
| "execute env Com_help = com_help env"

subsection \<open>The parser of command lines\<close>

text \<open>\<open>strncmp(buffer, name, 4) == 0\<close>, tried for the names in this order; the number is that of the arguments.\<close>

definition command_table :: "(string \<times> shell_command option \<times> nat) list" where
  "command_table =
     [(''open'', Some Com_open, 2), (''lstn'', Some Com_lstn, 1), (''acpt'', Some Com_acpt, 1),
      (''clos'', Some Com_clos, 1), (''send'', Some Com_send, 2), (''recv'', Some Com_recv, 1),
      (''udpc'', Some Com_udpc, 3), (''udpb'', Some Com_udpb, 2), (''udpl'', Some Com_udpl, 3),
      (''udpn'', Some Com_udpn, 3), (''usnd'', Some Com_usnd, 2), (''help'', Some Com_help, 0),
      (''quit'', None, 0)]"

definition find_command :: "bytes \<Rightarrow> (shell_command option \<times> nat) option" where
  "find_command b = map_of (map (\<lambda>(name, e). (str name, e)) command_table) (take 4 b)"

text \<open>\<open>for(; bufp < len && buffer[bufp] ...; bufp++);\<close>\<close>

function skip_loop :: "(u8 \<Rightarrow> bool) \<Rightarrow> nat \<Rightarrow> nat \<Rightarrow> bytes \<Rightarrow> nat option" where
  "skip_loop P len bufp b =
     (if bufp < len
      then do { c \<leftarrow> buf_get bufp b; if P c then skip_loop P len (bufp + 1) b else Some bufp }
      else Some bufp)"
  by pat_completeness auto
termination by (relation "measure (\<lambda>(_, len, bufp, _). len - bufp)") auto

function word_loop :: "nat \<Rightarrow> nat \<Rightarrow> bytes \<Rightarrow> (nat \<times> bytes) option" where
  "word_loop len bufp b =
     (if bufp < len
      then do {
        c \<leftarrow> buf_get bufp b;
        if c \<noteq> 0x20 \<and> c \<noteq> 0x0d \<and> c \<noteq> 0x0a
        then word_loop len (bufp + 1) (if c = 0x5c then b[bufp := 0x20] else b)
        else Some (bufp, b)
      }
      else Some (bufp, b))"
  by pat_completeness auto
termination by (relation "measure (\<lambda>(len, bufp, _). len - bufp)") auto

function args_loop :: "nat \<Rightarrow> nat \<Rightarrow> nat \<Rightarrow> command \<Rightarrow> bytes \<Rightarrow> (shell_result \<times> command \<times> bytes) option" where
  "args_loop len i bufp com b =
     (if i < 10
      then do {
        bufp \<leftarrow> skip_loop (\<lambda>c. c = 0x20) len bufp b;
        c \<leftarrow> buf_get bufp b;
        if c = 0x0d \<or> c = 0x0a
        then do {
          b \<leftarrow> buf_set bufp 0 b;
          Some (if i + 1 < nargs com then ETOOFEW else if i + 1 > nargs com then ETOOMANY else ESUCCESS, com, b)
        }
        else if bufp > len then Some (ETOOFEW, com, b)
        else do {
          let com = com\<lparr>args := (args com)[i := Some bufp]\<rparr>;
          (bufp, b) \<leftarrow> word_loop len bufp b;
          if bufp > len then Some (ESYNTAX, com, b)
          else do {
            b \<leftarrow> buf_set bufp 0 b;
            if i + 1 = nargs com then Some (ESUCCESS, com, b) else args_loop len (i + 1) (bufp + 1) com b
          }
        }
      }
      else Some (ESUCCESS, com, b))"
  by pat_completeness auto
termination by (relation "measure (\<lambda>(_, i, _, _, _). 10 - i)") auto

declare skip_loop.simps [simp del] word_loop.simps [simp del] args_loop.simps [simp del]

definition parse_command :: "command \<Rightarrow> nat \<Rightarrow> shell \<Rightarrow> (shell_result \<times> command \<times> shell) option" where
  "parse_command com len s =
     (case find_command (buffer s) of
        None \<Rightarrow> Some (ESYNTAX, com, s)
      | Some (None, n) \<Rightarrow> Some (ECLOSED, com, s)
      | Some (Some f, n) \<Rightarrow>
          let com = com\<lparr>exec := Some f, nargs := n\<rparr>
          in if n = 0 then Some (ESUCCESS, com, s)
             else do {
               bufp \<leftarrow> skip_loop (\<lambda>c. c \<noteq> 0x20) len 0 (buffer s);
               (r, com, b) \<leftarrow> args_loop len 0 bufp com (buffer s);
               Some (r, com, s\<lparr>buffer := b\<rparr>)
             })"

subsection \<open>Serving a client\<close>

fun shell_error :: "shell_env \<Rightarrow> shell_result \<Rightarrow> nat \<Rightarrow> shell \<Rightarrow> shell" where
  "shell_error env ESYNTAX c s = sendstr env (str ''## Syntax error'' @ NEWLINE) c s"
| "shell_error env ETOOFEW c s = sendstr env (str ''## Too few arguments to command given'' @ NEWLINE) c s"
| "shell_error env ETOOMANY c s = sendstr env (str ''## Too many arguments to command given'' @ NEWLINE) c s"
| "shell_error env ECLOSED c s = sendstr env (str ''## Connection closed'' @ NEWLINE) c s"
| "shell_error env ESUCCESS c s = s"

definition prompt :: "shell_env \<Rightarrow> nat \<Rightarrow> shell \<Rightarrow> shell" where
  "prompt env c s = sendstr env (str ''# '') c s"

definition shell_banner :: bytes where
  "shell_banner = NEWLINE @ str ''lwIP simple interactive shell.'' @ NEWLINE @
     str ''(c) Copyright 2001, Swedish Institute of Computer Science.'' @ NEWLINE @
     str ''Written by Adam Dunkels.'' @ NEWLINE @
     str ''For help, try the \"help\" command.'' @ NEWLINE"

text \<open>A complete line: parsed, executed, and its result reported.\<close>

definition run_line :: "shell_env \<Rightarrow> nat \<Rightarrow> u16 \<Rightarrow> command \<Rightarrow> shell \<Rightarrow> (shell_result \<times> command \<times> shell) option" where
  "run_line env c len com s = do {
     b0 \<leftarrow> buf_get 0 (buffer s);
     b1 \<leftarrow> buf_get 1 (buffer s);
     if b0 \<noteq> 0xff \<and> b1 \<noteq> 0xfe
     then do {
       (err, com, s) \<leftarrow> parse_command com (unat len) s;
       let com = (if err = ESUCCESS then com\<lparr>conn := c\<rparr> else com);
       (err, s) \<leftarrow> (if err = ESUCCESS
                     then do { f \<leftarrow> exec com; execute env f com s } else Some (err, s));
       Some (err, com, shell_error env err c s)
     }
     else Some (ESUCCESS, com, sendstr env shell_banner c s)
   }"

text \<open>
  One pass of the loop of \<open>shell_main\<close>: whether to go on, the number of bytes of the line
  so far, the command structure, and the state. \<open>len\<close> has 16 bits.
\<close>

definition shell_iter ::
  "shell_env \<Rightarrow> nat \<Rightarrow> u16 \<Rightarrow> command \<Rightarrow> shell \<Rightarrow> (bool \<times> u16 \<times> command \<times> shell) option" where
  "shell_iter env c len com s = do {
     let (ret, data) = netconn_recv_tcp_pbuf env (trace s) c;
     let s = record_call (Call_recv_pbuf c ret data) s;
     if ret \<noteq> ERR_OK then Some (False, len, com, s)
     else do {
       let s = s\<lparr>buffer := mem_write (unat len) (take (BUFSIZE - unat len) data) (buffer s)\<rparr>;
       let len = len + of_nat (length data);
       eol \<leftarrow> (if len > 0 then map_option (\<lambda>b. b = 0x0d \<or> b = 0x0a) (buf_get (unat len - 1) (buffer s))
               else Some False);
       if eol \<or> unat len \<ge> BUFSIZE
       then do {
         (err, com, s) \<leftarrow> run_line env c len com s;
         if err = ECLOSED then Some (False, len, com, s) else Some (True, 0, com, prompt env c s)
       }
       else Some (True, len, com, s)
     }
   }"

partial_function (option) shell_loop ::
  "shell_env \<Rightarrow> nat \<Rightarrow> u16 \<Rightarrow> command \<Rightarrow> shell \<Rightarrow> shell option" where
  "shell_loop env c len com s =
     Option.bind (shell_iter env c len com s)
       (\<lambda>(go_on, len, com, s). if go_on then shell_loop env c len com s else Some s)"

text \<open>At \<open>close\<close> every connection of the table is deleted.\<close>

fun delete_all :: "nat option list \<Rightarrow> shell \<Rightarrow> shell" where
  "delete_all [] s = s"
| "delete_all (None # cs) s = delete_all cs s"
| "delete_all (Some c # cs) s = delete_all cs (do_delete c s)"

definition shell_close :: "shell_env \<Rightarrow> nat \<Rightarrow> shell \<Rightarrow> shell" where
  "shell_close env c s =
     (let s = record_call (Call_close c (netconn_close env (trace s) c)) s;
          s = delete_all (conns s) s
      in s\<lparr>conns := replicate NCONNS None\<rparr>)"

text \<open>The command structure is not initialised; only its arguments matter.\<close>

definition fresh_command :: "nat \<Rightarrow> command" where
  "fresh_command c = \<lparr>conn = c, exec = None, nargs = 0, args = replicate 10 None\<rparr>"

definition shell_main :: "shell_env \<Rightarrow> nat \<Rightarrow> shell \<Rightarrow> shell option" where
  "shell_main env c s = map_option (shell_close env c) (shell_loop env c 0 (fresh_command c) s)"

text \<open>One pass of the loop of \<open>shell_thread\<close> on its listening connection.\<close>

definition shell_serve :: "shell_env \<Rightarrow> nat \<Rightarrow> shell \<Rightarrow> shell option" where
  "shell_serve env listener s =
     (let (err, new) = netconn_accept env (trace s) listener;
          s = record_call (Call_accept listener err new) s
      in if err \<noteq> ERR_OK then Some s
         else do { c \<leftarrow> new; s \<leftarrow> shell_main env c s; Some (do_delete c s) })"

subsection \<open>What the parser does\<close>

text \<open>The words of a line: their gaps (one space and \<open>k\<close> more) and their text.\<close>

definition line_text :: "(nat \<times> bytes) list \<Rightarrow> bytes" where
  "line_text ws = concat (map (\<lambda>(k, w). replicate (Suc k) 0x20 @ w) ws)"

definition unescape :: "u8 \<Rightarrow> u8" where
  "unescape c = (if c = 0x5c then 0x20 else c)"

definition is_word :: "bytes \<Rightarrow> bool" where
  "is_word w \<longleftrightarrow> w \<noteq> [] \<and> (\<forall>c\<in>set w. c \<noteq> 0x20 \<and> c \<noteq> 0x0d \<and> c \<noteq> 0x0a \<and> c \<noteq> 0)"

lemma line_text_simps [simp]:
  "line_text [] = []"
  "line_text ((k, w) # ws) = 0x20 # replicate k 0x20 @ w @ line_text ws"
  by (simp_all add: line_text_def)

lemma buf_get_mid [simp]: "buf_get (length pre) (pre @ c # post) = Some c"
  by (simp add: buf_get_def)

lemma buf_set_mid [simp]: "buf_set (length pre) d (pre @ c # post) = Some (pre @ d # post)"
  by (simp add: buf_set_def)

lemma skip_loop_exact:
  "\<forall>x\<in>set xs. P x \<Longrightarrow> \<not> P c \<Longrightarrow> length pre + length xs < len \<Longrightarrow>
   skip_loop P len (length pre) (pre @ xs @ c # post) = Some (length pre + length xs)"
proof (induction xs arbitrary: pre)
  case Nil
  then show ?case by (subst skip_loop.simps) simp
next
  case (Cons x xs)
  from Cons.IH [of "pre @ [x]"] Cons.prems show ?case
    by (subst skip_loop.simps) simp
qed

lemma word_loop_exact:
  "\<forall>x\<in>set w. x \<noteq> 0x20 \<and> x \<noteq> 0x0d \<and> x \<noteq> 0x0a \<Longrightarrow> d = 0x20 \<or> d = 0x0d \<or> d = 0x0a \<Longrightarrow>
   length pre + length w < len \<Longrightarrow>
   word_loop len (length pre) (pre @ w @ d # post) =
     Some (length pre + length w, pre @ map unescape w @ d # post)"
proof (induction w arbitrary: pre)
  case Nil
  then show ?case by (subst word_loop.simps) auto
next
  case (Cons x xs)
  have x: "x \<noteq> 0x20" "x \<noteq> 0x0d" "x \<noteq> 0x0a"
    using Cons.prems(1) by simp_all
  show ?case
  proof (cases "x = 0x5c")
    case True
    with Cons.IH [of "pre @ [0x20]"] Cons.prems show ?thesis
      by (subst word_loop.simps) (simp add: unescape_def)
  next
    case False
    with Cons.IH [of "pre @ [x]"] Cons.prems x show ?thesis
      by (subst word_loop.simps) (simp add: unescape_def)
  qed
qed

lemma c_string_mid:
  "0 \<notin> set w \<Longrightarrow> c_string (length pre) (pre @ w @ 0 # rest) = Some w"
  by (simp add: c_string_def takeWhile_append)

lemma unescape_word: "is_word w \<Longrightarrow> 0 \<notin> unescape ` set w"
  by (auto simp: is_word_def unescape_def)

text \<open>One pass of the loop over the arguments.\<close>

lemma args_loop_word:
  assumes "is_word w" "d = 0x20 \<or> d = 0x0d \<or> d = 0x0a" "length pre + k + length w < len" "i < 10"
  shows "args_loop len i (length pre) com (pre @ replicate k 0x20 @ w @ d # rest) =
     (let com' = com\<lparr>args := (args com)[i := Some (length pre + k)]\<rparr>;
          b = pre @ replicate k 0x20 @ map unescape w @ 0 # rest
      in if i + 1 = nargs com then Some (ESUCCESS, com', b)
         else args_loop len (i + 1) (length pre + k + length w + 1) com' b)"
proof -
  obtain c cs where w: "w = c # cs" and c: "c \<noteq> 0x20" "c \<noteq> 0x0d" "c \<noteq> 0x0a"
    using assms(1) by (cases w) (auto simp: is_word_def)
  let ?pre = "pre @ replicate k (0x20 :: u8)"
  have skip: "skip_loop (\<lambda>c. c = 0x20) len (length pre) (pre @ replicate k 0x20 @ w @ d # rest) =
      Some (length ?pre)"
    using skip_loop_exact [of "replicate k 0x20" "\<lambda>c. c = 0x20" c pre len "cs @ d # rest"] assms(3) c w by simp
  have get: "buf_get (length ?pre) (pre @ replicate k 0x20 @ w @ d # rest) = Some c"
    using buf_get_mid [of ?pre c "cs @ d # rest"] w by simp
  have word: "word_loop len (length ?pre) (pre @ replicate k 0x20 @ w @ d # rest) =
      Some (length ?pre + length w, pre @ replicate k 0x20 @ map unescape w @ d # rest)"
    using word_loop_exact [of w d ?pre len rest] assms by (simp add: is_word_def)
  have set: "buf_set (length ?pre + length w) 0 (pre @ replicate k 0x20 @ map unescape w @ d # rest) =
      Some (pre @ replicate k 0x20 @ map unescape w @ 0 # rest)"
    using buf_set_mid [of "?pre @ map unescape w" 0 d rest] by (simp add: ac_simps)
  show ?thesis
    using assms(3,4) c skip get word set by (subst args_loop.simps) (simp add: Let_def)
qed

text \<open>The words of a line end up as the arguments from \<open>i\<close> on.\<close>

definition args_are :: "nat \<Rightarrow> bytes list \<Rightarrow> bytes \<Rightarrow> command \<Rightarrow> bool" where
  "args_are i ws pre com \<longleftrightarrow>
     (\<forall>j<length ws. \<exists>a. args com ! (i + j) = Some a \<and> (\<forall>rest. c_string a (pre @ rest) = Some (ws ! j)))"

definition words_parsed ::
  "nat \<Rightarrow> nat \<Rightarrow> nat \<Rightarrow> bytes \<Rightarrow> (nat \<times> bytes) list \<Rightarrow> command \<Rightarrow> bytes \<Rightarrow> bytes \<Rightarrow> command \<Rightarrow> bytes \<Rightarrow> bool" where
  "words_parsed len i k0 w0 ws com pre rest com' pre' \<longleftrightarrow>
     take i (args com') = take i (args com) \<and> length (args com') = 10
     \<and> exec com' = exec com \<and> nargs com' = nargs com
     \<and> drop (i + Suc (length ws)) (args com') = drop (i + Suc (length ws)) (args com)
     \<and> (\<exists>mid. pre' = pre @ mid \<and> length mid = k0 + length w0 + length (line_text ws) + 1)
     \<and> args_are i (map unescape w0 # map (\<lambda>kw. map unescape (snd kw)) ws) pre' com'
     \<and> args_loop len i (length pre) com (pre @ replicate k0 0x20 @ w0 @ line_text ws @ 0x0d # rest) =
          (if i + Suc (length ws) = nargs com then Some (ESUCCESS, com', pre' @ rest)
           else args_loop len (i + Suc (length ws)) (length pre') com' (pre' @ rest))"

lemma words_parsed_head:
  "is_word w0 \<Longrightarrow>
   c_string (length pre + k0) (pre @ replicate k0 0x20 @ map unescape w0 @ 0 # rest) = Some (map unescape w0)"
  using c_string_mid [of "map unescape w0" "pre @ replicate k0 0x20" rest] by (simp add: unescape_word)

lemma args_loop_words:
  assumes "is_word w0" "\<forall>(k, w)\<in>set ws. is_word w"
    and "i + Suc (length ws) \<le> nargs com" "nargs com \<le> 10" "length (args com) = 10"
    and "length pre + k0 + length w0 + length (line_text ws) < len"
  shows "\<exists>com' pre'. words_parsed len i k0 w0 ws com pre rest com' pre'"
  using assms
proof (induction ws arbitrary: i com pre k0 w0)
  case Nil
  let ?com = "com\<lparr>args := (args com)[i := Some (length pre + k0)]\<rparr>"
  let ?pre = "pre @ replicate k0 0x20 @ map unescape w0 @ [0]"
  have "words_parsed len i k0 w0 [] com pre rest ?com ?pre"
    using Nil.prems args_loop_word [of w0 "0x0d" pre k0 len i com rest] words_parsed_head [of w0 pre k0]
    unfolding words_parsed_def by (auto simp: args_are_def Let_def add.assoc)
  then show ?case by blast
next
  case (Cons kw ws)
  obtain k w where kw: "kw = (k, w)" by (cases kw)
  let ?com = "com\<lparr>args := (args com)[i := Some (length pre + k0)]\<rparr>"
  let ?pre = "pre @ replicate k0 0x20 @ map unescape w0 @ [0]"
  have first: "args_loop len i (length pre) com (pre @ replicate k0 0x20 @ w0 @ line_text (kw # ws) @ 0x0d # rest) =
      args_loop len (Suc i) (length ?pre) ?com (?pre @ replicate k 0x20 @ w @ line_text ws @ 0x0d # rest)"
    using Cons.prems args_loop_word [of w0 "0x20" pre k0 len i com "replicate k 0x20 @ w @ line_text ws @ 0x0d # rest"]
    by (simp add: kw Let_def add.assoc)
  have "\<exists>com' pre'. words_parsed len (Suc i) k w ws ?com ?pre rest com' pre'"
    using Cons.prems by (intro Cons.IH) (auto simp: kw)
  then obtain com' pre' where parsed: "words_parsed len (Suc i) k w ws ?com ?pre rest com' pre'"
    by blast
  note ih = parsed [unfolded words_parsed_def]
  obtain mid where mid: "pre' = ?pre @ mid" "length mid = k + length w + length (line_text ws) + 1"
    using ih by blast
  have i: "i < length (args com)" using Cons.prems by simp
  have t: "take (Suc i) (args com') = take (Suc i) (args ?com)" using ih by blast
  have nth: "args com' ! i = Some (length pre + k0)"
    using i arg_cong [OF t, of "\<lambda>xs. xs ! i"] by simp
  have take: "take i (args com') = take i (args com)"
    using arg_cong [OF t, of "take i"] by (simp add: min_def)
  have "args_are (Suc i) (map unescape w # map (\<lambda>kw. map unescape (snd kw)) ws) pre' com'"
    using ih by blast
  then have "args_are i (map unescape w0 # map (\<lambda>kw. map unescape (snd kw)) (kw # ws)) pre' com'"
    using words_parsed_head [of w0 pre k0] Cons.prems(1) nth unfolding args_are_def
    by (auto simp: kw mid(1) less_Suc_eq_0_disj)
  moreover have "drop (i + Suc (length (kw # ws))) (args com') = drop (i + Suc (length (kw # ws))) (args com)"
    using ih by simp
  moreover have "args_loop len i (length pre) com (pre @ replicate k0 0x20 @ w0 @ line_text (kw # ws) @ 0x0d # rest) =
      (if i + Suc (length (kw # ws)) = nargs com then Some (ESUCCESS, com', pre' @ rest)
       else args_loop len (i + Suc (length (kw # ws))) (length pre') com' (pre' @ rest))"
    unfolding first using ih by simp
  moreover have "\<exists>mid. pre' = pre @ mid \<and> length mid = k0 + length w0 + length (line_text (kw # ws)) + 1"
    using mid by (simp add: kw)
  ultimately have "words_parsed len i k0 w0 (kw # ws) com pre rest com' pre'"
    using take ih unfolding words_parsed_def by simp
  then show ?case by blast
qed

lemma find_command_nargs:
  "find_command b = Some (Some f, n) \<Longrightarrow> n \<le> 3"
proof -
  have "\<forall>(name, e)\<in>set command_table. snd e \<le> 3"
    by (simp add: command_table_def)
  then show "find_command b = Some (Some f, n) \<Longrightarrow> n \<le> 3"
    unfolding find_command_def by (drule_tac map_of_SomeD) auto
qed

lemma first_gap:
  assumes "0x20 \<notin> set name" "length name < len"
  shows "skip_loop (\<lambda>c. c \<noteq> 0x20) len 0 (name @ 0x20 # rest) = Some (length name)"
proof -
  have "\<forall>x\<in>set name. x \<noteq> 0x20" using assms(1) by blast
  then show ?thesis
    using skip_loop_exact [of name "\<lambda>c. c \<noteq> 0x20" "0x20" "[]" len rest] assms(2) by simp
qed

text \<open>
  C31: A command line of a known command, followed by as many words as the command has
  arguments, is accepted: the command structure names the function and every argument is the
  text of its word, with every backslash turned into a space. The table of connections and
  the calls made so far are untouched.
\<close>

theorem parse_command_words:
  assumes "find_command (buffer s) = Some (Some f, length ws)"
    and "buffer s = name @ line_text ws @ 0x0d # rest" "0x20 \<notin> set name"
    and "\<forall>(k, w)\<in>set ws. is_word w"
    and "length name + length (line_text ws) < len" "length (args com) = 10"
  shows "\<exists>com' b. parse_command com len s = Some (ESUCCESS, com', s\<lparr>buffer := b\<rparr>) \<and> exec com' = Some f
     \<and> (\<forall>j<length ws. arg j com' (s\<lparr>buffer := b\<rparr>) = Some (map unescape (snd (ws ! j))))"
proof (cases ws)
  case Nil
  with assms(1) show ?thesis
    by (intro exI [of _ "com\<lparr>exec := Some f, nargs := 0\<rparr>"] exI [of _ "buffer s"]) (simp add: parse_command_def)
next
  case (Cons kw ws')
  obtain k w where kw: "kw = (k, w)" by (cases kw)
  let ?com = "com\<lparr>exec := Some f, nargs := length ws\<rparr>"
  have n: "length ws \<le> 3" by (rule find_command_nargs [OF assms(1)])
  have gap: "skip_loop (\<lambda>c. c \<noteq> 0x20) len 0 (buffer s) = Some (length name)"
    using assms(2,3,5) first_gap [of name len] by (simp add: Cons kw)
  have "\<exists>com' pre'. words_parsed len 0 (Suc k) w ws' ?com name rest com' pre'"
    using assms(4-6) n by (intro args_loop_words) (auto simp: Cons kw)
  then obtain com' pre' where parsed: "words_parsed len 0 (Suc k) w ws' ?com name rest com' pre'"
    by blast
  note p = parsed [unfolded words_parsed_def]
  have loop: "args_loop len 0 (length name) ?com (buffer s) = Some (ESUCCESS, com', pre' @ rest)"
    using p assms(2) by (simp add: Cons kw)
  have are: "args_are 0 (map (\<lambda>kw. map unescape (snd kw)) ws) pre' com'" and f: "exec com' = Some f"
    using p by (simp_all add: Cons kw)
  have "\<forall>j<length ws. arg j com' (s\<lparr>buffer := pre' @ rest\<rparr>) = Some (map unescape (snd (ws ! j)))"
    using are by (auto simp: args_are_def arg_def)
  moreover have "parse_command com len s = Some (ESUCCESS, com', s\<lparr>buffer := pre' @ rest\<rparr>)"
    using assms(1) gap loop by (simp add: parse_command_def Cons)
  ultimately show ?thesis using f by blast
qed

text \<open>
  When only the last argument of a command is missing, the line is accepted all the same
  and that argument is left as it was: unset, or pointing to what an earlier line left.
\<close>

theorem parse_command_missing_argument:
  assumes "find_command (buffer s) = Some (Some f, Suc (length ws))" "ws \<noteq> []"
    and "buffer s = name @ line_text ws @ 0x0d # 0x0a # rest" "0x20 \<notin> set name"
    and "\<forall>(k, w)\<in>set ws. is_word w"
    and "length name + length (line_text ws) + 1 < len" "length (args com) = 10"
  shows "\<exists>com' s'. parse_command com len s = Some (ESUCCESS, com', s') \<and> exec com' = Some f
     \<and> args com' ! length ws = args com ! length ws"
proof -
  obtain k w ws' where ws: "ws = (k, w) # ws'"
    using assms(2) by (cases ws) auto
  let ?com = "com\<lparr>exec := Some f, nargs := Suc (length ws)\<rparr>"
  have n: "Suc (length ws) \<le> 3" by (rule find_command_nargs [OF assms(1)])
  have gap: "skip_loop (\<lambda>c. c \<noteq> 0x20) len 0 (buffer s) = Some (length name)"
    using assms(3,4,6) first_gap [of name len] by (simp add: ws)
  have "\<exists>com' pre'. words_parsed len 0 (Suc k) w ws' ?com name (0x0a # rest) com' pre'"
    using assms(5-7) n by (intro args_loop_words) (auto simp: ws)
  then obtain com' pre' where parsed: "words_parsed len 0 (Suc k) w ws' ?com name (0x0a # rest) com' pre'"
    by blast
  note p = parsed [unfolded words_parsed_def]
  have loop: "exec com' = Some f" "nargs com' = Suc (length ws)" "length (args com') = 10"
      "drop (length ws) (args com') = drop (length ws) (args com)"
      "args_loop len 0 (length name) ?com (buffer s) = args_loop len (length ws) (length pre') com' (pre' @ 0x0a # rest)"
    using p assms(3) by (simp_all add: ws)
  have pre': "length pre' < len"
    using p assms(6) by (auto simp: ws)
  have same: "args com' ! length ws = args com ! length ws"
    using arg_cong [OF loop(4), of hd] n loop(3) assms(7) by (simp add: hd_drop_conv_nth)
  have skip: "skip_loop (\<lambda>c. c = 0x20) len (length pre') (pre' @ 0x0a # rest) = Some (length pre')"
    using skip_loop_exact [of "[]" "\<lambda>c. c = 0x20" "0x0a" pre' len rest] pre' by simp
  have "args_loop len (length ws) (length pre') com' (pre' @ 0x0a # rest) =
      Some (ESUCCESS, com', pre' @ 0 # rest)"
    using skip n loop(2) by (subst args_loop.simps) simp
  then show ?thesis
    using assms(1) gap loop(1,5) same by (simp add: parse_command_def)
qed

subsection \<open>The rules of the connection interface\<close>

text \<open>
  What a call does to the connections its caller owns. Only a connection that is owned may
  be used, and deleting it gives it up.
\<close>

definition gained :: "nat option \<Rightarrow> nat multiset" where
  "gained new = (case new of None \<Rightarrow> {#} | Some c \<Rightarrow> {#c#})"

fun use_call :: "netconn_call \<Rightarrow> nat multiset \<Rightarrow> nat multiset option" where
  "use_call (Call_new _ new) own = Some (own + gained new)"
| "use_call (Call_accept c _ new) own = (if c \<in># own then Some (own + gained new) else None)"
| "use_call (Call_delete c) own = (if c \<in># own then Some (own - {#c#}) else None)"
| "use_call (Call_connect c _ _ _) own = (if c \<in># own then Some own else None)"
| "use_call (Call_bind c _ _ _) own = (if c \<in># own then Some own else None)"
| "use_call (Call_listen c _) own = (if c \<in># own then Some own else None)"
| "use_call (Call_close c _) own = (if c \<in># own then Some own else None)"
| "use_call (Call_write c _ _) own = (if c \<in># own then Some own else None)"
| "use_call (Call_recv c _ _) own = (if c \<in># own then Some own else None)"
| "use_call (Call_err c _) own = (if c \<in># own then Some own else None)"
| "use_call (Call_send c _ _) own = (if c \<in># own then Some own else None)"
| "use_call (Call_recv_pbuf c _ _) own = (if c \<in># own then Some own else None)"

definition use_calls :: "netconn_call list \<Rightarrow> nat multiset option" where
  "use_calls = foldl (\<lambda>own c. Option.bind own (use_call c)) (Some {#})"

definition table :: "nat option list \<Rightarrow> nat multiset" where
  "table cs = sum_list (map gained cs)"

text \<open>
  The state of the shell while it serves client \<open>c\<close>: the calls so far were all allowed, and
  what is owned is the table and the connections \<open>base\<close> of the server, the client among them.
\<close>

definition shell_ok :: "nat multiset \<Rightarrow> shell \<Rightarrow> bool" where
  "shell_ok base s \<longleftrightarrow> use_calls (trace s) = Some (base + table (conns s)) \<and> length (conns s) = NCONNS"

named_theorems shell_keeps \<open>what the operations of the shell keep of its state\<close>

lemma use_calls_snoc [simp]: "use_calls (cs @ [c]) = Option.bind (use_calls cs) (use_call c)"
  by (simp add: use_calls_def)

lemma use_calls_Nil [simp]: "use_calls [] = Some {#}"
  by (simp add: use_calls_def)

lemma gained_simps [simp]: "gained None = {#}" "gained (Some c) = {#c#}"
  by (simp_all add: gained_def)

lemma table_update_new: "i < length cs \<Longrightarrow> cs ! i = None \<Longrightarrow> table (cs[i := new]) = table cs + gained new"
  unfolding table_def by (induction cs arbitrary: i) (auto simp: less_Suc_eq_0_disj nth_Cons ac_simps split: nat.splits)

lemma table_update_drop:
  "i < length cs \<Longrightarrow> cs ! i = Some c \<Longrightarrow> table (cs[i := None]) + {#c#} = table cs"
  unfolding table_def by (induction cs arbitrary: i) (auto simp: nth_Cons split: nat.splits)

lemma in_table: "i < length cs \<Longrightarrow> cs ! i = Some c \<Longrightarrow> c \<in># table cs"
  using table_update_drop [of i cs c] by (metis union_iff union_single_eq_member)

lemma first_free_le: "first_free cs \<le> length cs"
  by (induction cs) auto

lemma first_free_None: "first_free cs \<noteq> length cs \<Longrightarrow> cs ! first_free cs = None"
  by (induction cs) (auto split: if_splits)

lemma ok_calls:
  "shell_ok base s \<Longrightarrow> use_call c (base + table (conns s)) = Some own \<Longrightarrow>
   own = base + table (conns (s\<lparr>trace := trace s @ [c]\<rparr>)) \<Longrightarrow> shell_ok base (record_call c s)"
  by (simp add: shell_ok_def record_call_def)

lemma conns_calls [simp]:
  "conns (record_call c s) = conns s" "conns (sendstr env text k s) = conns s"
  "conns (do_delete k s) = conns s" "conns (report env k text e s) = conns s"
  "conns (snd (do_write env k text s)) = conns s"
  "conns (set_conn i x s) = (conns s)[i := x]"
  by (simp_all add: record_call_def sendstr_def do_write_def do_delete_def report_def set_conn_def Let_def)

lemma ok_buffer [simp]: "shell_ok base (s\<lparr>buffer := b\<rparr>) = shell_ok base s"
  by (simp add: shell_ok_def)

lemma ok_do_write [shell_keeps]:
  "shell_ok base s \<Longrightarrow> c \<in># base + table (conns s) \<Longrightarrow> shell_ok base (snd (do_write env c text s))"
  by (simp add: do_write_def Let_def) (rule ok_calls; simp)

lemma ok_sendstr [shell_keeps]:
  "shell_ok base s \<Longrightarrow> c \<in># base \<Longrightarrow> shell_ok base (sendstr env text c s)"
  by (simp add: sendstr_def ok_do_write)

lemma ok_report [shell_keeps]:
  "shell_ok base s \<Longrightarrow> c \<in># base \<Longrightarrow> shell_ok base (report env c text e s)"
  by (simp add: report_def ok_sendstr)

text \<open>Filling a free entry with the connection a call has returned, and emptying an entry.\<close>

lemma ok_new:
  assumes "shell_ok base s" "i = first_free (conns s)" "i \<noteq> NCONNS"
    and "use_call c (base + table (conns s)) = Some (base + table (conns s) + gained new)"
  shows "shell_ok base (set_conn i new (record_call c s))"
proof -
  have "length (conns s) = NCONNS" using assms(1) by (simp add: shell_ok_def)
  then have "i < length (conns s)" "conns s ! i = None"
    using assms(2,3) first_free_le [of "conns s"] first_free_None [of "conns s"] by auto
  then show ?thesis
    using assms(1,4) by (simp add: shell_ok_def record_call_def set_conn_def table_update_new ac_simps)
qed

lemma ok_drop:
  assumes "shell_ok base s" "i < NCONNS" "conns s ! i = Some c"
  shows "shell_ok base (set_conn i None (do_delete c s))"
proof -
  have i: "i < length (conns s)" using assms(1,2) by (simp add: shell_ok_def)
  have "table (conns s) = table ((conns s)[i := None]) + {#c#}"
    using table_update_drop [OF i assms(3)] by simp
  then show ?thesis
    using assms(1) by (simp add: shell_ok_def do_delete_def record_call_def set_conn_def)
qed

lemma ok_announce [shell_keeps]:
  "shell_ok base s \<Longrightarrow> conn com \<in># base \<Longrightarrow> shell_ok base (snd (announce env text i com s))"
  by (simp add: announce_def Let_def ok_sendstr)

lemma ok_invalid_port [shell_keeps]:
  "shell_ok base s \<Longrightarrow> conn com \<in># base \<Longrightarrow> shell_ok base (snd (invalid_port env com s))"
  by (simp add: invalid_port_def ok_sendstr)

lemma ok_no_more [shell_keeps]:
  "shell_ok base s \<Longrightarrow> conn com \<in># base \<Longrightarrow> shell_ok base (snd (no_more env com s))"
  by (simp add: no_more_def ok_sendstr)

lemma ok_drop_conn [shell_keeps]:
  "shell_ok base s \<Longrightarrow> conn com \<in># base \<Longrightarrow> i < NCONNS \<Longrightarrow> conns s ! i = Some c \<Longrightarrow>
   shell_ok base (snd (drop_conn env i c text e com s))"
  by (simp add: drop_conn_def ok_report ok_drop)


lemma ok_with_conn:
  assumes "with_conn env i com s f = Some (r, s')" "shell_ok base s" "conn com \<in># base"
    and "\<And>n c. n < NCONNS \<Longrightarrow> conns s ! n = Some c \<Longrightarrow> c \<in># base + table (conns s) \<Longrightarrow> f n c = Some (r, s') \<Longrightarrow> shell_ok base s'"
  shows "shell_ok base s'"
proof -
  have len: "length (conns s) = NCONNS" using assms(2) by (simp add: shell_ok_def)
  show ?thesis
    using assms(1-3) len assms(4) [of "nat i"] in_table [of "nat i" "conns s"]
    by (auto simp: with_conn_def split: if_splits option.splits intro: shell_keeps)
qed

lemma ok_use:
  "shell_ok base s \<Longrightarrow> use_call c (base + table (conns s)) = Some (base + table (conns s)) \<Longrightarrow>
   shell_ok base (record_call c s)"
  by (rule ok_calls) simp_all

lemma ok_com_clos:
  "com_clos env com s = Some (r, s') \<Longrightarrow> shell_ok base s \<Longrightarrow> conn com \<in># base \<Longrightarrow> shell_ok base s'"
  unfolding com_clos_def bind_eq_Some_conv
  by (elim exE conjE, erule ok_with_conn)
    (auto simp: Let_def split: if_splits intro!: shell_keeps ok_drop ok_use)

text \<open>The same for the results of the last calls of a command.\<close>

named_theorems shell_ends \<open>what the last calls of a command keep of the state of the shell\<close>

lemma ok_snd: "x = (r, s') \<Longrightarrow> shell_ok base (snd x) \<Longrightarrow> shell_ok base s'"
  by simp

lemma ok_announce_end [shell_ends]:
  "announce env text i com s = (r, s') \<Longrightarrow> shell_ok base s \<Longrightarrow> conn com \<in># base \<Longrightarrow> shell_ok base s'"
  by (erule ok_snd) (rule ok_announce)

lemma ok_invalid_port_end [shell_ends]:
  "invalid_port env com s = (r, s') \<Longrightarrow> shell_ok base s \<Longrightarrow> conn com \<in># base \<Longrightarrow> shell_ok base s'"
  by (erule ok_snd) (rule ok_invalid_port)

lemma ok_no_more_end [shell_ends]:
  "no_more env com s = (r, s') \<Longrightarrow> shell_ok base s \<Longrightarrow> conn com \<in># base \<Longrightarrow> shell_ok base s'"
  by (erule ok_snd) (rule ok_no_more)

lemma ok_drop_conn_end [shell_ends]:
  "drop_conn env i c text e com s = (r, s') \<Longrightarrow> shell_ok base s \<Longrightarrow> conn com \<in># base \<Longrightarrow>
   i < NCONNS \<Longrightarrow> conns s ! i = Some c \<Longrightarrow> shell_ok base s'"
  by (erule ok_snd) (rule ok_drop_conn)

lemma ok_com_acpt:
  "com_acpt env com s = Some (r, s') \<Longrightarrow> shell_ok base s \<Longrightarrow> conn com \<in># base \<Longrightarrow> shell_ok base s'"
  unfolding com_acpt_def Let_def
  apply (split if_split_asm)
   apply (auto elim: shell_ends)[1]
  unfolding bind_eq_Some_conv
  by (elim exE conjE, erule ok_with_conn)
    (auto simp: Let_def split: if_splits prod.splits intro!: ok_report ok_new elim!: shell_ends)

lemma ok_com_send:
  "com_send env com s = Some (r, s') \<Longrightarrow> shell_ok base s \<Longrightarrow> conn com \<in># base \<Longrightarrow> shell_ok base s'"
  unfolding com_send_def bind_eq_Some_conv
  by (elim exE conjE, erule ok_with_conn)
    (auto simp: Let_def bind_eq_Some_conv do_write_def split: if_splits intro!: shell_keeps ok_drop ok_use)

lemma ok_com_recv:
  "com_recv env com s = Some (r, s') \<Longrightarrow> shell_ok base s \<Longrightarrow> conn com \<in># base \<Longrightarrow> shell_ok base s'"
  unfolding com_recv_def bind_eq_Some_conv
  by (elim exE conjE, erule ok_with_conn)
    (auto simp: Let_def bind_eq_Some_conv split: if_splits prod.splits intro!: shell_keeps ok_drop ok_use)

lemma ok_com_usnd:
  "com_usnd env com s = Some (r, s') \<Longrightarrow> shell_ok base s \<Longrightarrow> conn com \<in># base \<Longrightarrow> shell_ok base s'"
  unfolding com_usnd_def bind_eq_Some_conv
  by (elim exE conjE, erule ok_with_conn)
    (auto simp: Let_def bind_eq_Some_conv split: if_splits prod.splits intro!: shell_keeps ok_drop ok_use)

lemma ok_com_help:
  "com_help env com s = Some (r, s') \<Longrightarrow> shell_ok base s \<Longrightarrow> conn com \<in># base \<Longrightarrow> shell_ok base s'"
  by (auto simp: com_help_def intro!: shell_keeps)



text \<open>A free entry is filled with a new connection.\<close>

lemma ok_created:
  assumes "(case new of None \<Rightarrow> Some (ESUCCESS, sendstr env text k (set_conn i new (record_call (Call_new kind new) s)))
              | Some c \<Rightarrow> f c) = Some (r, s')"
    and "shell_ok base s" "i = first_free (conns s)" "i \<noteq> NCONNS" "k \<in># base"
    and rest: "\<And>c t. t = set_conn i (Some c) (record_call (Call_new kind (Some c)) s) \<Longrightarrow> shell_ok base t \<Longrightarrow>
      i < NCONNS \<Longrightarrow> conns t ! i = Some c \<Longrightarrow> c \<in># base + table (conns t) \<Longrightarrow> new = Some c \<Longrightarrow>
      f c = Some (r, s') \<Longrightarrow> shell_ok base s'"
  shows "shell_ok base s'"
proof -
  have len: "length (conns s) = NCONNS" using assms(2) by (simp add: shell_ok_def)
  have i: "i < NCONNS"
    using assms(3,4) first_free_le [of "conns s"] len by simp
  have ok: "shell_ok base (set_conn i new (record_call (Call_new kind new) s))"
    using assms(2-4) by (intro ok_new) simp_all
  show ?thesis
  proof (cases new)
    case None
    with assms(1,5) ok show ?thesis by (auto intro!: ok_sendstr)
  next
    case (Some c)
    let ?t = "set_conn i (Some c) (record_call (Call_new kind (Some c)) s)"
    have entry: "conns ?t ! i = Some c" using i len by simp
    have "c \<in># base + table (conns ?t)"
      using in_table [of i "conns ?t" c] entry i len by simp
    with rest [of ?t c] ok entry i assms(1) Some show ?thesis by simp
  qed
qed

lemma ok_com_lstn:
  "com_lstn env com s = Some (r, s') \<Longrightarrow> shell_ok base s \<Longrightarrow> conn com \<in># base \<Longrightarrow> shell_ok base s'"
  unfolding com_lstn_def bind_eq_Some_conv Let_def
  apply (elim exE conjE)
  apply (split if_split_asm)
   apply (auto elim: shell_ends)[1]
  apply (split if_split_asm)
   apply (auto elim: shell_ends)[1]
  apply (erule ok_created)
      apply (auto intro!: shell_keeps)[4]
  apply (auto split: if_splits elim!: shell_ends intro!: ok_use)
  done


lemma ok_com_open:
  "com_open env com s = Some (r, s') \<Longrightarrow> shell_ok base s \<Longrightarrow> conn com \<in># base \<Longrightarrow> shell_ok base s'"
  unfolding com_open_def bind_eq_Some_conv Let_def prod.case_eq_if
  apply (elim exE conjE)
  apply (split if_split_asm)
   apply (auto intro!: shell_keeps)[1]
  unfolding bind_eq_Some_conv
  apply (elim exE conjE)
  apply (split if_split_asm)
   apply (auto elim: shell_ends)[1]
  apply (split if_split_asm)
   apply (auto elim: shell_ends)[1]
  apply (erule ok_created)
      apply (auto intro!: shell_keeps)[4]
  apply (auto split: if_splits elim!: shell_ends intro!: ok_use ok_drop ok_report)
  done

lemma ok_udp_connection:
  "udp_connection env kind text show_port local com s = Some (r, s') \<Longrightarrow> shell_ok base s \<Longrightarrow> conn com \<in># base \<Longrightarrow>
   shell_ok base s'"
  unfolding udp_connection_def bind_eq_Some_conv Let_def prod.case_eq_if
  apply (elim exE conjE)
  apply (split if_split_asm)
   apply (auto elim: shell_ends)[1]
  unfolding bind_eq_Some_conv
  apply (elim exE conjE)
  apply (split if_split_asm)
   apply (auto intro!: shell_keeps)[1]
  unfolding bind_eq_Some_conv
  apply (elim exE conjE)
  apply (split if_split_asm)
   apply (auto elim: shell_ends)[1]
  apply (split if_split_asm)
   apply (auto elim: shell_ends)[1]
  apply (erule ok_created)
      apply (auto intro!: shell_keeps)[4]
  apply (auto split: if_split_asm elim!: shell_ends intro!: ok_use)
  done

lemma ok_execute:
  "execute env f com s = Some (r, s') \<Longrightarrow> shell_ok base s \<Longrightarrow> conn com \<in># base \<Longrightarrow> shell_ok base s'"
  by (cases f)
    (simp_all add: ok_com_open ok_com_lstn ok_com_acpt ok_com_clos ok_com_send ok_com_recv ok_com_usnd
      ok_com_help com_udpc_def com_udpl_def com_udpn_def com_udpb_def ok_udp_connection)

text \<open>The loop of \<open>shell_main\<close>.\<close>

lemma parse_command_keeps:
  "parse_command com len s = Some (r, com', s') \<Longrightarrow> conns s' = conns s \<and> trace s' = trace s"
  by (auto simp: parse_command_def Let_def bind_eq_Some_conv split: option.splits if_splits prod.splits)

lemma ok_shell_error:
  "shell_ok base s \<Longrightarrow> c \<in># base \<Longrightarrow> shell_ok base (shell_error env r c s)"
  by (cases r) (simp_all add: ok_sendstr)

lemma ok_run_line:
  assumes "run_line env c len com s = Some (r, com', s')" "shell_ok base s" "c \<in># base"
  shows "shell_ok base s'"
proof -
  obtain b0 b1 where b: "buf_get 0 (buffer s) = Some b0" "buf_get 1 (buffer s) = Some b1"
    using assms(1) by (auto simp: run_line_def bind_eq_Some_conv)
  show ?thesis
  proof (cases "b0 \<noteq> 0xff \<and> b1 \<noteq> 0xfe")
    case False
    then show ?thesis
      using assms b by (auto simp: run_line_def ok_sendstr split: if_splits)
  next
    case True
    then obtain err com1 s1 where parse: "parse_command com (unat len) s = Some (err, com1, s1)"
      using assms(1) b by (auto simp: run_line_def bind_eq_Some_conv)
    have s1: "shell_ok base s1"
      using parse_command_keeps [OF parse] assms(2) by (simp add: shell_ok_def)
    show ?thesis
    proof (cases "err = ESUCCESS")
      case False
      then show ?thesis
        using assms(1,3) b parse s1 True by (auto simp: run_line_def ok_shell_error)
    next
      case ok: True
      obtain f err2 s2 where "execute env f (com1\<lparr>conn := c\<rparr>) s1 = Some (err2, s2)"
          "s' = shell_error env err2 c s2"
        using assms(1) parse True b ok by (auto simp: run_line_def bind_eq_Some_conv Let_def)
      then show ?thesis
        using ok_execute [of env f "com1\<lparr>conn := c\<rparr>" s1 err2 s2 base] s1 assms(3)
        by (simp add: ok_shell_error)
    qed
  qed
qed

lemma ok_shell_iter:
  assumes "shell_iter env c len com s = Some (go_on, len', com', s')" "shell_ok base s" "c \<in># base"
  shows "shell_ok base s'"
proof -
  obtain ret data where recv: "netconn_recv_tcp_pbuf env (trace s) c = (ret, data)" by fastforce
  let ?s = "(record_call (Call_recv_pbuf c ret data) s)
    \<lparr>buffer := mem_write (unat len) (take (BUFSIZE - unat len) data) (buffer (record_call (Call_recv_pbuf c ret data) s))\<rparr>"
  have "shell_ok base (record_call (Call_recv_pbuf c ret data) s)"
    using assms(2,3) by (intro ok_use) simp_all
  then have ok: "shell_ok base (record_call (Call_recv_pbuf c ret data) s)" "shell_ok base ?s"
    by simp_all
  show ?thesis
  proof (cases "s' = record_call (Call_recv_pbuf c ret data) s \<or> s' = ?s")
    case True
    then show ?thesis using ok by blast
  next
    case False
    then obtain err com1 s1 where "run_line env c (len + of_nat (length data)) com ?s = Some (err, com1, s1)"
        "s' = s1 \<or> s' = prompt env c s1"
      using assms(1) recv
      by (auto simp: shell_iter_def Let_def bind_eq_Some_conv split: if_split_asm)
    with ok_run_line [of env c "len + of_nat (length data)" com ?s err com1 s1 base] ok(2) assms(3)
    show ?thesis by (auto simp: prompt_def ok_sendstr)
  qed
qed

lemma ok_shell_loop:
  assumes "shell_loop env c len com s = Some s'" "shell_ok base s" "c \<in># base"
  shows "shell_ok base s'"
proof -
  have "shell_ok base s \<longrightarrow> c \<in># base \<longrightarrow> shell_ok base s'"
    by (rule shell_loop.raw_induct [where P = "\<lambda>env c len com s s'. shell_ok base s \<longrightarrow> c \<in># base \<longrightarrow> shell_ok base s'",
          OF _ assms(1)])
      (auto simp: bind_eq_Some_conv split: if_splits dest: ok_shell_iter)
  with assms(2,3) show ?thesis by blast
qed

lemma ok_delete_all:
  "use_calls (trace s) = Some (base + table cs) \<Longrightarrow> use_calls (trace (delete_all cs s)) = Some base"
proof (induction cs arbitrary: s)
  case Nil
  then show ?case by (simp add: table_def)
next
  case (Cons x cs)
  then show ?case
    by (cases x) (simp_all add: table_def do_delete_def record_call_def ac_simps)
qed

lemma trace_delete_all:
  "trace (delete_all cs s) = trace s @ map Call_delete (List.map_filter id cs)"
proof (induction cs arbitrary: s)
  case (Cons x cs)
  then show ?case by (cases x) (simp_all add: do_delete_def record_call_def List.map_filter_simps)
qed (simp add: List.map_filter_simps)

lemma shell_main_owns:
  assumes "shell_main env c s = Some s'" "shell_ok base s" "c \<in># base"
  shows "use_calls (trace s') = Some base \<and> conns s' = replicate NCONNS None"
proof -
  obtain t where t: "shell_loop env c 0 (fresh_command c) s = Some t" "s' = shell_close env c t"
    using assms(1) by (auto simp: shell_main_def)
  have ok: "shell_ok base t" by (rule ok_shell_loop [OF t(1) assms(2,3)])
  let ?t = "record_call (Call_close c (netconn_close env (trace t) c)) t"
  have "shell_ok base ?t"
    using ok assms(3) by (intro ok_use) simp_all
  then show ?thesis
    using ok_delete_all [of ?t base "conns ?t"] by (simp add: t(2) shell_close_def Let_def shell_ok_def)
qed


text \<open>
  A client that types \<open>quit\<close> is told that the connection is closed, the connection is
  closed, every connection of the table is deleted, and \<open>shell_main\<close> returns.
\<close>

theorem shell_main_quit:
  assumes "netconn_recv_tcp_pbuf env (trace s) c = (ERR_OK, data)" "take 4 data = str ''quit''"
    and "last data = 0x0d \<or> last data = 0x0a" "length data \<le> BUFSIZE" "length (buffer s) = BUFSIZE"
  shows "\<exists>s' e r. shell_main env c s = Some s' \<and> conns s' = replicate NCONNS None \<and>
     trace s' = trace s @ [Call_recv_pbuf c ERR_OK data, Call_write c (str ''## Connection closed'' @ NEWLINE) e, Call_close c r]
       @ map Call_delete (List.map_filter id (conns s))"
proof -
  let ?b = "mem_write 0 data (buffer s)"
  have quit: "str ''quit'' = [0x71, 0x75, 0x69, 0x74]" by code_simp
  have len: "4 \<le> length data"
    using arg_cong [OF assms(2), of length] by (simp add: quit)
  have b: "?b = data @ drop (length data) (buffer s)" by (simp add: mem_write_def)
  have find: "find_command ?b = Some (None, 0)"
  proof -
    have "take 4 ?b = str ''quit''" using len assms(2) by (simp add: b)
    moreover have "map_of (map (\<lambda>(name, e). (str name, e)) command_table) (str ''quit'') = Some (None, 0)"
      by code_simp
    ultimately show ?thesis by (simp only: find_command_def)
  qed
  have first: "buf_get 0 ?b = Some 0x71" "buf_get 1 ?b = Some 0x75"
    using assms(2) len nth_take [of 0 4 data] nth_take [of 1 4 data]
    by (auto simp: b buf_get_def nth_append quit)
  have eol: "buf_get (length data - 1) ?b = Some (last data)"
    unfolding b using len by (cases data rule: rev_cases) (auto simp: buf_get_def nth_append)
  have word: "unat (of_nat (length data) :: u16) = length data"
    using assms(4) by (simp add: unat_of_nat_16 BUFSIZE_def)
  have pos: "(of_nat (length data) :: u16) > 0"
    using word len by (metis not_numeral_le_zero unat_0 word_neq_0_conv)
  let ?s = "(record_call (Call_recv_pbuf c ERR_OK data) s)\<lparr>buffer := ?b\<rparr>"
  have run: "run_line env c (of_nat (length data)) com ?s = Some (ECLOSED, com, shell_error env ECLOSED c ?s)" for com
    using first find by (simp add: run_line_def parse_command_def)
  have iter: "shell_iter env c 0 com s = Some (False, of_nat (length data), com, shell_error env ECLOSED c ?s)" for com
    using assms(1,3,4) eol pos run word
    by (simp add: shell_iter_def Let_def record_call_def)
  have "shell_loop env c 0 (fresh_command c) s = Some (shell_error env ECLOSED c ?s)"
    by (subst shell_loop.simps) (simp add: iter)
  then show ?thesis
    by (simp add: shell_main_def shell_close_def Let_def trace_delete_all sendstr_def do_write_def record_call_def)
qed

text \<open>
  The identifier of a connection is compared with the size of the table by \<open>>\<close>: the
  first identifier behind the table, and every negative one, reads outside of it; all others
  get an answer.
\<close>

theorem com_clos_outside_table:
  assumes "arg 0 com s = Some number" "length (conns s) = NCONNS"
  shows "com_clos env com s = None \<longleftrightarrow> strtol number = int NCONNS \<or> strtol number < 0"
  using assms by (auto simp: com_clos_def with_conn_def Let_def split: option.splits)

text \<open>
  The length of the data that was received is not limited to what was copied: whenever
  more than the size of the buffer arrives, \<open>com_recv\<close> sends bytes from behind the buffer.
\<close>

theorem com_recv_reads_beyond_buffer:
  assumes "arg 0 com s = Some number" "0 \<le> strtol number" "strtol number < int NCONNS" "length (conns s) = NCONNS"
    and "conns s ! nat (strtol number) = Some c" "netconn_recv env (trace s) c = (ERR_OK, data)"
    and "length (buffer s) = BUFSIZE" "length data < 65536"
  shows "com_recv env com s = None \<longleftrightarrow> BUFSIZE < length data"
proof -
  have "length (buffer (sendstr env x k t)) = length (buffer t)" for x k t
    by (simp add: sendstr_def do_write_def record_call_def Let_def)
  then show ?thesis
    using assms by (auto simp: com_recv_def with_conn_def Let_def unat_of_nat_16 record_call_def min_def)
qed

text \<open>
  A malformed address is never refused: \<open>open\<close> answers \<open>ESUCCESS\<close> whenever it returns,
  and goes on to connect to whatever the uninitialised address holds.
\<close>

theorem com_open_never_refuses_address:
  "arg 0 com s = Some a0 \<Longrightarrow> arg 1 com s = Some a1 \<Longrightarrow> \<exists>s'. com_open env com s = Some (ESUCCESS, s')"
  by (auto simp: com_open_def Let_def ipaddr_aton_def invalid_port_def no_more_def announce_def
      split: option.splits prod.splits)

subsection \<open>Runs\<close>

text \<open>
  A server that grants every request: it hands out connection numbers in turn, and its
  client sends the given lines one after the other.
\<close>

definition granting :: "bytes list \<Rightarrow> bytes \<Rightarrow> shell_env" where
  "granting lines data =
     \<lparr>netconn_new = \<lambda>cs k. Some (100 + length cs), netconn_connect = \<lambda>_ _ _ _. ERR_OK,
      netconn_bind = \<lambda>_ _ _ _. ERR_OK, netconn_listen = \<lambda>_ _. ERR_OK,
      netconn_accept = \<lambda>cs _. (ERR_OK, Some (100 + length cs)), netconn_close = \<lambda>_ _. ERR_OK,
      netconn_write = \<lambda>_ _ _. ERR_OK, netconn_recv = \<lambda>_ _. (ERR_OK, data), netconn_err = \<lambda>_ _. ERR_OK,
      netconn_send = \<lambda>_ _ _. ERR_OK,
      netconn_recv_tcp_pbuf = \<lambda>cs _.
        (let n = length (filter (\<lambda>c. case c of Call_recv_pbuf _ _ _ \<Rightarrow> True | _ \<Rightarrow> False) cs)
         in if n < length lines then (ERR_OK, lines ! n) else (ERR_CLSD, [])),
      netbuf_alloc = \<lambda>_ _. True, lwip_strerr = \<lambda>_. [], strerror_errno = [], uninitialised = \<lambda>_. 0\<rparr>"

definition shell_with :: "bytes \<Rightarrow> shell" where
  "shell_with line = \<lparr>buffer = line @ replicate (BUFSIZE - length line) 0, conns = [Some 5, None, None],
     trace = [Call_accept 0 ERR_OK (Some 1)]\<rparr>"

declare shell_loop.simps [code]

theorem parse_command_words_witness:
  "\<exists>com' b. parse_command (fresh_command 1) 18 (shell_with (str ''open 10.0.0.1 80'' @ [0x0d, 0x0a])) =
       Some (ESUCCESS, com', shell_with (str ''open 10.0.0.1 80'' @ [0x0d, 0x0a])\<lparr>buffer := b\<rparr>) \<and> exec com' = Some Com_open
     \<and> (\<forall>j<length [(0, str ''10.0.0.1''), (0 :: nat, str ''80'')].
          arg j com' (shell_with (str ''open 10.0.0.1 80'' @ [0x0d, 0x0a])\<lparr>buffer := b\<rparr>) =
            Some (map unescape (snd ([(0, str ''10.0.0.1''), (0 :: nat, str ''80'')] ! j))))"
proof (rule parse_command_words [where name = "str ''open''" and rest = "0x0a # replicate 238 0"])
  show "find_command (buffer (shell_with (str ''open 10.0.0.1 80'' @ [0x0d, 0x0a]))) =
      Some (Some Com_open, length [(0, str ''10.0.0.1''), (0 :: nat, str ''80'')])" by code_simp
  show "buffer (shell_with (str ''open 10.0.0.1 80'' @ [0x0d, 0x0a])) =
      str ''open'' @ line_text [(0, str ''10.0.0.1''), (0, str ''80'')] @ 0x0d # 0x0a # replicate 238 0" by code_simp
qed (code_simp+)

theorem parse_command_missing_argument_witness:
  "\<exists>com' s'. parse_command (fresh_command 1) 15 (shell_with (str ''open 10.0.0.1'' @ [0x0d, 0x0a])) =
       Some (ESUCCESS, com', s') \<and> exec com' = Some Com_open
     \<and> args com' ! length [(0 :: nat, str ''10.0.0.1'')] = args (fresh_command 1) ! length [(0 :: nat, str ''10.0.0.1'')]"
  by (rule parse_command_missing_argument [where name = "str ''open''" and rest = "replicate 241 0"]) code_simp+


theorem shell_main_quit_witness:
  "\<exists>s' e r. shell_main (granting [str ''quit'' @ [0x0a]] []) 1 (shell_with []) = Some s' \<and> conns s' = replicate NCONNS None \<and>
     trace s' = trace (shell_with []) @ [Call_recv_pbuf 1 ERR_OK (str ''quit'' @ [0x0a]),
         Call_write 1 (str ''## Connection closed'' @ NEWLINE) e, Call_close 1 r]
       @ map Call_delete (List.map_filter id (conns (shell_with [])))"
  by (rule shell_main_quit) code_simp+

theorem com_clos_outside_table_witness:
  "com_clos (granting [] []) ((fresh_command 1)\<lparr>args := [Some 0]\<rparr>) (shell_with (str ''3'')) = None \<longleftrightarrow>
     strtol (str ''3'') = int NCONNS \<or> strtol (str ''3'') < 0"
  by (rule com_clos_outside_table) code_simp+

theorem com_recv_reads_beyond_buffer_witness:
  "com_recv (granting [] (replicate 300 7)) ((fresh_command 1)\<lparr>args := [Some 0]\<rparr>) (shell_with (str ''0'')) = None \<longleftrightarrow>
     BUFSIZE < length (replicate 300 (7 :: u8))"
proof (rule com_recv_reads_beyond_buffer [where number = "str ''0''" and c = 5])
  show "arg 0 ((fresh_command 1)\<lparr>args := [Some 0]\<rparr>) (shell_with (str ''0'')) = Some (str ''0'')"
    "0 \<le> strtol (str ''0'')" "strtol (str ''0'') < int NCONNS"
    "conns (shell_with (str ''0'')) ! nat (strtol (str ''0'')) = Some 5" by code_simp+
  show "length (conns (shell_with (str ''0''))) = NCONNS" "length (buffer (shell_with (str ''0''))) = BUFSIZE"
    by (simp_all add: shell_with_def NCONNS_def BUFSIZE_def str_def)
  show "netconn_recv (granting [] (replicate 300 7)) (trace (shell_with (str ''0''))) 5 = (ERR_OK, replicate 300 7)"
    "length (replicate 300 (7 :: u8)) < 65536" by (simp_all add: granting_def)
qed

theorem com_open_never_refuses_address_witness:
  "\<exists>s'. com_open (granting [] []) ((fresh_command 1)\<lparr>args := [Some 0, Some 4]\<rparr>)
      (shell_with (str ''bad'' @ [0] @ str ''80'')) = Some (ESUCCESS, s')"
  by (rule com_open_never_refuses_address [where ?a0.0 = "str ''bad''" and ?a1.0 = "str ''80''"]) code_simp+

end
