(* ===== verification/RtosList.thy ===== *)
theory RtosList
  imports Machine
begin

text \<open>
  The linked lists of the RTOS kernel (\<open>freertos/list.c\<close> and the macros of
  \<open>freertos/include/list.h\<close>): circular, doubly linked, with a marker \<open>xListEnd\<close> that holds the
  greatest value, and a cursor \<open>pxIndex\<close> that walks through the list. A pointer is the
  address of an item or of the marker inside a list. The integrity checks are compiled out.
  \<open>None\<close> is a use of a null pointer, of a field that the marker does not have, or a loop that
  does not end.
\<close>

subsection \<open>Lists\<close>

datatype item_ptr = Item nat | End nat

record list_item =
  xItemValue :: u32
  pxNext :: item_ptr
  pxPrevious :: item_ptr
  pvOwner :: nat
  pvContainer :: "nat option"

record rtos_list =
  uxNumberOfItems :: u32
  pxIndex :: item_ptr

text \<open>All items, the markers among them, and all lists.\<close>

record list_store =
  items :: "item_ptr \<Rightarrow> list_item"
  lists :: "nat \<Rightarrow> rtos_list"

definition portMAX_DELAY :: u32 where "portMAX_DELAY = 0xffffffff"

definition upd_item :: "item_ptr \<Rightarrow> (list_item \<Rightarrow> list_item) \<Rightarrow> list_store \<Rightarrow> list_store" where
  "upd_item p f st = st\<lparr>items := (items st)(p := f (items st p))\<rparr>"

definition upd_list :: "nat \<Rightarrow> (rtos_list \<Rightarrow> rtos_list) \<Rightarrow> list_store \<Rightarrow> list_store" where
  "upd_list l f st = st\<lparr>lists := (lists st)(l := f (lists st l))\<rparr>"

definition set_next :: "item_ptr \<Rightarrow> item_ptr \<Rightarrow> list_store \<Rightarrow> list_store" where
  "set_next p q = upd_item p (\<lambda>i. i\<lparr>pxNext := q\<rparr>)"

definition set_previous :: "item_ptr \<Rightarrow> item_ptr \<Rightarrow> list_store \<Rightarrow> list_store" where
  "set_previous p q = upd_item p (\<lambda>i. i\<lparr>pxPrevious := q\<rparr>)"

definition set_container :: "item_ptr \<Rightarrow> nat option \<Rightarrow> list_store \<Rightarrow> list_store" where
  "set_container p c = upd_item p (\<lambda>i. i\<lparr>pvContainer := c\<rparr>)"

definition set_index :: "nat \<Rightarrow> item_ptr \<Rightarrow> list_store \<Rightarrow> list_store" where
  "set_index l p = upd_list l (\<lambda>x. x\<lparr>pxIndex := p\<rparr>)"

definition set_number :: "nat \<Rightarrow> u32 \<Rightarrow> list_store \<Rightarrow> list_store" where
  "set_number l n = upd_list l (\<lambda>x. x\<lparr>uxNumberOfItems := n\<rparr>)"

abbreviation next_of :: "list_store \<Rightarrow> item_ptr \<Rightarrow> item_ptr" where "next_of st p \<equiv> pxNext (items st p)"
abbreviation prev_of :: "list_store \<Rightarrow> item_ptr \<Rightarrow> item_ptr" where "prev_of st p \<equiv> pxPrevious (items st p)"
abbreviation value_of :: "list_store \<Rightarrow> item_ptr \<Rightarrow> u32" where "value_of st p \<equiv> xItemValue (items st p)"
abbreviation index_of :: "list_store \<Rightarrow> nat \<Rightarrow> item_ptr" where "index_of st l \<equiv> pxIndex (lists st l)"
abbreviation number_of :: "list_store \<Rightarrow> nat \<Rightarrow> u32" where "number_of st l \<equiv> uxNumberOfItems (lists st l)"

subsection \<open>Operations\<close>

definition listSET_LIST_ITEM_VALUE :: "nat \<Rightarrow> u32 \<Rightarrow> list_store \<Rightarrow> list_store" where
  "listSET_LIST_ITEM_VALUE i v = upd_item (Item i) (\<lambda>x. x\<lparr>xItemValue := v\<rparr>)"

definition listSET_LIST_ITEM_OWNER :: "nat \<Rightarrow> nat \<Rightarrow> list_store \<Rightarrow> list_store" where
  "listSET_LIST_ITEM_OWNER i t = upd_item (Item i) (\<lambda>x. x\<lparr>pvOwner := t\<rparr>)"

definition listGET_LIST_ITEM_VALUE :: "nat \<Rightarrow> list_store \<Rightarrow> u32" where
  "listGET_LIST_ITEM_VALUE i st = value_of st (Item i)"

definition listGET_LIST_ITEM_OWNER :: "nat \<Rightarrow> list_store \<Rightarrow> nat" where
  "listGET_LIST_ITEM_OWNER i st = pvOwner (items st (Item i))"

definition listGET_ITEM_VALUE_OF_HEAD_ENTRY :: "nat \<Rightarrow> list_store \<Rightarrow> u32" where
  "listGET_ITEM_VALUE_OF_HEAD_ENTRY l st = value_of st (next_of st (End l))"

definition listLIST_IS_EMPTY :: "nat \<Rightarrow> list_store \<Rightarrow> bool" where
  "listLIST_IS_EMPTY l st = (number_of st l = 0)"

definition listCURRENT_LIST_LENGTH :: "nat \<Rightarrow> list_store \<Rightarrow> u32" where
  "listCURRENT_LIST_LENGTH l st = number_of st l"

definition listIS_CONTAINED_WITHIN :: "nat \<Rightarrow> nat \<Rightarrow> list_store \<Rightarrow> bool" where
  "listIS_CONTAINED_WITHIN l i st = (pvContainer (items st (Item i)) = Some l)"

definition listLIST_ITEM_CONTAINER :: "nat \<Rightarrow> list_store \<Rightarrow> nat option" where
  "listLIST_ITEM_CONTAINER i st = pvContainer (items st (Item i))"

text \<open>The marker has no owner.\<close>

definition owner_at :: "item_ptr \<Rightarrow> list_store \<Rightarrow> nat option" where
  "owner_at p st = (case p of Item i \<Rightarrow> Some (pvOwner (items st p)) | End _ \<Rightarrow> None)"

definition listGET_OWNER_OF_HEAD_ENTRY :: "nat \<Rightarrow> list_store \<Rightarrow> nat option" where
  "listGET_OWNER_OF_HEAD_ENTRY l st = owner_at (next_of st (End l)) st"

definition listGET_OWNER_OF_NEXT_ENTRY :: "nat \<Rightarrow> list_store \<Rightarrow> (nat \<times> list_store) option" where
  "listGET_OWNER_OF_NEXT_ENTRY l st =
     (let st = set_index l (next_of st (index_of st l)) st;
          st = (if index_of st l = End l then set_index l (next_of st (index_of st l)) st else st)
      in map_option (\<lambda>t. (t, st)) (owner_at (index_of st l) st))"

definition vListInitialise :: "nat \<Rightarrow> list_store \<Rightarrow> list_store" where
  "vListInitialise l st =
     (let st = set_index l (End l) st;
          st = upd_item (End l) (\<lambda>i. i\<lparr>xItemValue := portMAX_DELAY\<rparr>) st;
          st = set_next (End l) (End l) st;
          st = set_previous (End l) (End l) st
      in set_number l 0 st)"

definition vListInitialiseItem :: "nat \<Rightarrow> list_store \<Rightarrow> list_store" where
  "vListInitialiseItem i = set_container (Item i) None"

definition vListInsertEnd :: "nat \<Rightarrow> nat \<Rightarrow> list_store \<Rightarrow> list_store" where
  "vListInsertEnd l i st =
     (let pxIndex = index_of st l;
          st = set_next (Item i) pxIndex st;
          st = set_previous (Item i) (prev_of st pxIndex) st;
          st = set_next (prev_of st pxIndex) (Item i) st;
          st = set_previous pxIndex (Item i) st;
          st = set_container (Item i) (Some l) st
      in set_number l (number_of st l + 1) st)"

text \<open>The search for the position of a value smaller than the marker's.\<close>

partial_function (option) insert_position :: "u32 \<Rightarrow> item_ptr \<Rightarrow> list_store \<Rightarrow> item_ptr option" where
  "insert_position v p st =
     (if value_of st (next_of st p) \<le> v then insert_position v (next_of st p) st else Some p)"

definition link_after :: "item_ptr \<Rightarrow> item_ptr \<Rightarrow> list_store \<Rightarrow> list_store" where
  "link_after p new st =
     (let st = set_next new (next_of st p) st;
          st = set_previous (next_of st new) new st;
          st = set_previous new p st
      in set_next p new st)"

definition vListInsert :: "nat \<Rightarrow> nat \<Rightarrow> list_store \<Rightarrow> list_store option" where
  "vListInsert l i st =
     (let v = value_of st (Item i)
      in case (if v = portMAX_DELAY then Some (prev_of st (End l)) else insert_position v (End l) st) of
           None \<Rightarrow> None
         | Some p \<Rightarrow>
             let st = link_after p (Item i) st;
                 st = set_container (Item i) (Some l) st
             in Some (set_number l (number_of st l + 1) st))"

definition unlink :: "item_ptr \<Rightarrow> list_store \<Rightarrow> list_store" where
  "unlink p st =
     (let st = set_previous (next_of st p) (prev_of st p) st
      in set_next (prev_of st p) (next_of st p) st)"

definition uxListRemove :: "nat \<Rightarrow> list_store \<Rightarrow> (u32 \<times> list_store) option" where
  "uxListRemove i st =
     (case pvContainer (items st (Item i)) of
        None \<Rightarrow> None
      | Some l \<Rightarrow>
          let st = unlink (Item i) st;
              st = (if index_of st l = Item i then set_index l (prev_of st (Item i)) st else st);
              st = set_container (Item i) None st;
              st = set_number l (number_of st l - 1) st
          in Some (number_of st l, st))"

subsection \<open>Rings\<close>

text \<open>From \<open>a\<close> through \<open>ps\<close> to \<open>b\<close>, linked in both directions; a ring leads from its marker back to it.\<close>

fun path :: "(item_ptr \<Rightarrow> item_ptr) \<Rightarrow> (item_ptr \<Rightarrow> item_ptr) \<Rightarrow> item_ptr \<Rightarrow> item_ptr list \<Rightarrow> item_ptr \<Rightarrow> bool" where
  "path nx pv a [] b \<longleftrightarrow> nx a = b \<and> pv b = a"
| "path nx pv a (p # ps) b \<longleftrightarrow> nx a = p \<and> pv p = a \<and> path nx pv p ps b"

lemma ring_path_cong:
  "(\<And>x. x = a \<or> x \<in> set ps \<Longrightarrow> nx' x = nx x) \<Longrightarrow> (\<And>x. x = b \<or> x \<in> set ps \<Longrightarrow> pv' x = pv x) \<Longrightarrow>
   path nx' pv' a ps b = path nx pv a ps b"
  by (induction ps arbitrary: a) auto

lemma path_next: "path nx pv a (us @ vs) b \<Longrightarrow> nx (last (a # us)) = hd (vs @ [b])"
  by (induction us arbitrary: a) (cases vs; auto)+

lemma path_prev: "path nx pv a (us @ vs) b \<Longrightarrow> pv (hd (vs @ [b])) = last (a # us)"
  by (induction us arbitrary: a) (cases vs; auto)+

lemma path_link:
  assumes "path nx pv a (us @ vs) b" "distinct (us @ vs)" "a \<notin> set (us @ vs)" "b \<notin> set (us @ vs)"
    and "new \<notin> set (us @ vs)" "new \<noteq> a" "new \<noteq> b"
  shows "path (nx(last (a # us) := new, new := hd (vs @ [b]))) (pv(hd (vs @ [b]) := new, new := last (a # us)))
     a (us @ new # vs) b"
  using assms
proof (induction us arbitrary: a)
  case Nil
  show ?case
  proof (cases vs)
    case (Cons v vs')
    have "path (nx(a := new, new := v)) (pv(v := new, new := a)) v vs' b = path nx pv v vs' b"
      using Nil.prems by (intro ring_path_cong) (auto simp: Cons)
    then show ?thesis using Nil.prems by (auto simp: Cons fun_upd_def)
  qed (use Nil.prems in auto)
next
  case (Cons u us)
  let ?p = "last (a # u # us)"
  let ?q = "hd (vs @ [b])"
  have p: "?p \<in> set (u # us)" by simp
  have q: "?q = b \<or> ?q \<in> set vs" by (cases vs) auto
  have "path (nx(last (u # us) := new, new := ?q)) (pv(?q := new, new := last (u # us))) u (us @ new # vs) b"
    using Cons.prems by (intro Cons.IH) auto
  moreover have "?p \<noteq> a" using p Cons.prems(3) by auto
  moreover have "?q \<noteq> u" using q Cons.prems(2,4) by auto
  ultimately show ?case using Cons.prems by (auto simp: fun_upd_def)
qed

lemma path_unlink:
  assumes "path nx pv a (us @ x # vs) b" "distinct (us @ x # vs)" "a \<notin> set (us @ x # vs)" "b \<notin> set (us @ x # vs)"
  shows "path (nx(last (a # us) := hd (vs @ [b]))) (pv(hd (vs @ [b]) := last (a # us))) a (us @ vs) b"
  using assms
proof (induction us arbitrary: a)
  case Nil
  show ?case
  proof (cases vs)
    case (Cons v vs')
    have "path (nx(a := v)) (pv(v := a)) v vs' b = path nx pv v vs' b"
      using Nil.prems by (intro ring_path_cong) (auto simp: Cons)
    then show ?thesis using Nil.prems by (auto simp: Cons fun_upd_def)
  qed (use Nil.prems in auto)
next
  case (Cons u us)
  let ?p = "last (a # u # us)"
  let ?q = "hd (vs @ [b])"
  have p: "?p \<in> set (u # us)" by simp
  have q: "?q = b \<or> ?q \<in> set vs" by (cases vs) auto
  have "path (nx(last (u # us) := ?q)) (pv(?q := last (u # us))) u (us @ vs) b"
    using Cons.prems by (intro Cons.IH) auto
  moreover have "?p \<noteq> a" using p Cons.prems(3) by auto
  moreover have "?q \<noteq> u" using q Cons.prems(2,4) by auto
  ultimately show ?case using Cons.prems by (auto simp: fun_upd_def)
qed

subsection \<open>What a list stands for\<close>

text \<open>
  List \<open>l\<close> holds the items \<open>xs\<close>, and its cursor has moved past the first \<open>k\<close> of them: the
  item returned last is the last of these, and for \<open>k = 0\<close> the cursor is at the marker.
\<close>

definition list_rep :: "list_store \<Rightarrow> nat \<Rightarrow> nat list \<Rightarrow> nat \<Rightarrow> bool" where
  "list_rep st l xs k \<longleftrightarrow>
     path (next_of st) (prev_of st) (End l) (map Item xs) (End l) \<and> distinct xs
     \<and> number_of st l = of_nat (length xs) \<and> length xs < 2 ^ 32 \<and> value_of st (End l) = portMAX_DELAY
     \<and> (\<forall>i. pvContainer (items st (Item i)) = Some l \<longleftrightarrow> i \<in> set xs)
     \<and> k \<le> length xs \<and> index_of st l = (End l # map Item xs) ! k"

lemma upd_item_sel [simp]:
  "items (upd_item p f st) = (items st)(p := f (items st p))" "lists (upd_item p f st) = lists st"
  by (simp_all add: upd_item_def)

lemma upd_list_sel [simp]:
  "items (upd_list l f st) = items st" "lists (upd_list l f st) = (lists st)(l := f (lists st l))"
  by (simp_all add: upd_list_def)

abbreviation container_of :: "list_store \<Rightarrow> item_ptr \<Rightarrow> nat option" where
  "container_of st p \<equiv> pvContainer (items st p)"

lemma list_rep_frame:
  assumes "list_rep st m ys j" "lists st' m = lists st m" "value_of st' (End m) = value_of st (End m)"
    and "\<And>x. x = End m \<or> x \<in> Item ` set ys \<Longrightarrow> next_of st' x = next_of st x \<and> prev_of st' x = prev_of st x"
    and "\<And>i. container_of st' (Item i) = Some m \<longleftrightarrow> container_of st (Item i) = Some m"
  shows "list_rep st' m ys j"
proof -
  have "path (next_of st') (prev_of st') (End m) (map Item ys) (End m) =
      path (next_of st) (prev_of st) (End m) (map Item ys) (End m)"
    using assms(4) by (intro ring_path_cong) auto
  then show ?thesis using assms unfolding list_rep_def by simp
qed

lemma ring_members:
  assumes "list_rep st l xs k"
  shows "last (End l # map Item (take n xs)) \<in> insert (End l) (Item ` set xs)"
    and "hd (map Item (drop n xs) @ [End l]) \<in> insert (End l) (Item ` set xs)"
proof -
  have "set (take n xs) \<subseteq> set xs" "set (drop n xs) \<subseteq> set xs"
    by (rule set_take_subset, rule set_drop_subset)
  moreover have "last (End l # map Item (take n xs)) \<in> insert (End l) (Item ` set (take n xs))"
    by (metis last_in_set list.discI list.set(2) list.set_map)
  moreover have "hd (map Item (drop n xs) @ [End l]) \<in> insert (End l) (Item ` set (drop n xs))"
    by (cases "drop n xs") auto
  ultimately show "last (End l # map Item (take n xs)) \<in> insert (End l) (Item ` set xs)"
    "hd (map Item (drop n xs) @ [End l]) \<in> insert (End l) (Item ` set xs)"
    by blast+
qed

lemma list_rep_disjoint:
  "list_rep st l xs k \<Longrightarrow> list_rep st m ys j \<Longrightarrow> m \<noteq> l \<Longrightarrow> set xs \<inter> set ys = {}"
  unfolding list_rep_def by (metis disjoint_iff option.inject)

text \<open>Linking an item behind the first \<open>n\<close> items of a list.\<close>

lemma list_rep_link:
  assumes rep: "list_rep st l xs k" and free: "container_of st (Item i) = None"
    and len: "Suc (length xs) < 2 ^ 32" and n: "n \<le> length xs"
    and p: "p = last (End l # map Item (take n xs))" and q: "q = hd (map Item (drop n xs) @ [End l])"
    and st': "next_of st' = (next_of st)(p := Item i, Item i := q)"
      "prev_of st' = (prev_of st)(q := Item i, Item i := p)"
      "value_of st' = value_of st" "container_of st' = (container_of st)(Item i := Some l)"
      "lists st' = (lists st)(l := (lists st l)\<lparr>uxNumberOfItems := number_of st l + 1\<rparr>)"
  shows "list_rep st' l (take n xs @ i # drop n xs) (if k \<le> n then k else Suc k)"
    and "\<And>m ys j. m \<noteq> l \<Longrightarrow> list_rep st m ys j \<Longrightarrow> list_rep st' m ys j"
proof -
  have fields: "value_of st' x = value_of st x" "container_of st' x = (if x = Item i then Some l else container_of st x)" for x
    using fun_cong [OF st'(3), of x] fun_cong [OF st'(4), of x] by simp_all
  have links: "next_of st' x = (if x = Item i then q else if x = p then Item i else next_of st x)"
    "prev_of st' x = (if x = Item i then p else if x = q then Item i else prev_of st x)" for x
    using fun_cong [OF st'(1), of x] fun_cong [OF st'(2), of x] by simp_all
  have i: "i \<notin> set xs" using rep free unfolding list_rep_def by (metis option.distinct(1))
  have ring: "path (next_of st) (prev_of st) (End l) (map Item (take n xs) @ map Item (drop n xs)) (End l)"
    and dist: "distinct xs"
    using rep unfolding list_rep_def by (simp_all flip: map_append)
  have "path (next_of st') (prev_of st') (End l) (map Item (take n xs) @ Item i # map Item (drop n xs)) (End l)"
    unfolding st' p q
    by (rule path_link [OF ring])
      (use dist i in \<open>auto simp: distinct_map inj_on_def dest: in_set_takeD in_set_dropD simp flip: map_append\<close>)
  moreover have "distinct (take n xs @ i # drop n xs)"
    using dist i by (auto simp: set_take_disj_set_drop_if_distinct dest: in_set_takeD in_set_dropD)
  moreover have "set (take n xs @ i # drop n xs) = insert i (set xs)"
    by (metis append_take_drop_id set_append list.set(2) Un_insert_right)
  moreover have "(End l # map Item (take n xs @ i # drop n xs)) ! (if k \<le> n then k else Suc k) =
      (End l # map Item xs) ! k"
    using rep n unfolding list_rep_def
    by (cases k) (auto simp: nth_append min_def Suc_diff_le)
  ultimately show "list_rep st' l (take n xs @ i # drop n xs) (if k \<le> n then k else Suc k)"
    using rep len n unfolding list_rep_def st' by (auto simp: algebra_simps fields)
  fix m ys j
  assume m: "m \<noteq> l" and other: "list_rep st m ys j"
  have "p \<in> insert (End l) (Item ` set xs)" "q \<in> insert (End l) (Item ` set xs)"
    using ring_members [OF rep, of n] unfolding p q .
  moreover have "set xs \<inter> set ys = {}" by (rule list_rep_disjoint [OF rep other m])
  moreover have "i \<notin> set ys" using other free unfolding list_rep_def by (metis option.distinct(1))
  ultimately show "list_rep st' m ys j"
    using m free by (intro list_rep_frame [OF other]) (auto simp: st'(5) links fields)
qed

text \<open>Taking the item behind the first \<open>n\<close> out of a list.\<close>

lemma list_rep_unlink:
  assumes rep: "list_rep st l xs k" and n: "n < length xs" and i: "i = xs ! n"
    and p: "p = last (End l # map Item (take n xs))" and q: "q = hd (map Item (drop (Suc n) xs) @ [End l])"
    and st': "next_of st' = (next_of st)(p := q)" "prev_of st' = (prev_of st)(q := p)"
      "value_of st' = value_of st" "container_of st' = (container_of st)(Item i := None)"
      "lists st' = (lists st)(l := \<lparr>uxNumberOfItems = number_of st l - 1,
         pxIndex = if index_of st l = Item i then p else index_of st l\<rparr>)"
  shows "list_rep st' l (take n xs @ drop (Suc n) xs) (if k \<le> n then k else k - 1)"
    and "\<And>m ys j. m \<noteq> l \<Longrightarrow> list_rep st m ys j \<Longrightarrow> list_rep st' m ys j"
proof -
  have fields: "value_of st' x = value_of st x" "container_of st' x = (if x = Item i then None else container_of st x)" for x
    using fun_cong [OF st'(3), of x] fun_cong [OF st'(4), of x] by simp_all
  have links: "next_of st' x = (if x = p then q else next_of st x)"
    "prev_of st' x = (if x = q then p else prev_of st x)" for x
    using fun_cong [OF st'(1), of x] fun_cong [OF st'(2), of x] by simp_all
  have xs: "xs = take n xs @ i # drop (Suc n) xs" using n i by (simp add: id_take_nth_drop)
  have dist: "distinct xs" using rep unfolding list_rep_def by blast
  have dist': "distinct (take n xs @ i # drop (Suc n) xs)" using dist xs by simp
  have ring: "path (next_of st) (prev_of st) (End l) (map Item (take n xs) @ Item i # map Item (drop (Suc n) xs)) (End l)"
    using rep xs unfolding list_rep_def by (metis map_append list.simps(9))
  have "path (next_of st') (prev_of st') (End l) (map Item (take n xs) @ map Item (drop (Suc n) xs)) (End l)"
    unfolding st' p q
    by (rule path_unlink [OF ring])
      (use dist' in \<open>auto simp: distinct_map inj_on_def\<close>)
  moreover have "set (take n xs @ drop (Suc n) xs) = set xs - {i}"
    using dist' arg_cong [OF xs, of set] by auto
  moreover have "(End l # map Item (take n xs @ drop (Suc n) xs)) ! (if k \<le> n then k else k - 1) =
      (if index_of st l = Item i then p else index_of st l)"
  proof (cases "k = Suc n")
    case True
    then have "index_of st l = Item i" using rep n i unfolding list_rep_def by simp
    then show ?thesis
      using True n by (cases n) (auto simp: p nth_append min_def take_Suc_conv_app_nth)
  next
    case False
    have "index_of st l \<noteq> Item i"
      using rep False n i dist unfolding list_rep_def
      by (cases k) (auto simp: nth_eq_iff_index_eq)
    then show ?thesis
      using rep False n unfolding list_rep_def
      by (cases k) (auto simp: nth_append min_def nth_Cons split: nat.splits)
  qed
  moreover have "number_of st l - 1 = of_nat (length (take n xs @ drop (Suc n) xs))"
    using rep n unfolding list_rep_def by (cases xs) (simp_all add: Suc_diff_Suc)
  moreover have "length (take n xs @ drop (Suc n) xs) < 2 ^ 32" "(if k \<le> n then k else k - 1) \<le> length (take n xs @ drop (Suc n) xs)"
  proof -
    have "length xs < 2 ^ 32" "k \<le> length xs" using rep unfolding list_rep_def by simp_all
    with n show "length (take n xs @ drop (Suc n) xs) < 2 ^ 32" "(if k \<le> n then k else k - 1) \<le> length (take n xs @ drop (Suc n) xs)"
      by auto
  qed
  ultimately show "list_rep st' l (take n xs @ drop (Suc n) xs) (if k \<le> n then k else k - 1)"
    using rep dist' unfolding list_rep_def st' by (simp add: fields)
  fix m ys j
  assume m: "m \<noteq> l" and other: "list_rep st m ys j"
  have "p \<in> insert (End l) (Item ` set xs)" "q \<in> insert (End l) (Item ` set xs)"
    using ring_members(1) [OF rep, of n] ring_members(2) [OF rep, of "Suc n"] unfolding p q .
  moreover have "set xs \<inter> set ys = {}" by (rule list_rep_disjoint [OF rep other m])
  moreover have "container_of st (Item i) = Some l"
    using rep n i unfolding list_rep_def by simp
  ultimately show "list_rep st' m ys j"
    using m by (intro list_rep_frame [OF other]) (auto simp: st'(5) links fields)
qed

subsection \<open>The operations on what the lists stand for\<close>

text \<open>
  All lists in \<open>L\<close> at once: list \<open>l\<close> holds the items \<open>X l\<close> with its cursor at \<open>K l\<close>.
\<close>

definition lists_rep :: "list_store \<Rightarrow> nat set \<Rightarrow> (nat \<Rightarrow> nat list) \<Rightarrow> (nat \<Rightarrow> nat) \<Rightarrow> bool" where
  "lists_rep st L X K \<longleftrightarrow> (\<forall>l\<in>L. list_rep st l (X l) (K l))"

definition insert_at :: "nat \<Rightarrow> nat \<Rightarrow> nat list \<Rightarrow> nat list" where
  "insert_at n i xs = take n xs @ i # drop n xs"

text \<open>Where an item goes: before the one the cursor is at, or behind all that are not greater.\<close>

definition before_cursor :: "nat list \<Rightarrow> nat \<Rightarrow> nat" where
  "before_cursor xs k = (if k = 0 then length xs else k - 1)"

definition behind_value :: "list_store \<Rightarrow> u32 \<Rightarrow> nat list \<Rightarrow> nat" where
  "behind_value st v xs = length (takeWhile (\<lambda>x. value_of st (Item x) \<le> v) xs)"

lemma lists_rep_insert:
  assumes "lists_rep st L X K" "l \<in> L"
    and "list_rep st' l (insert_at n i (X l)) (if K l \<le> n then K l else Suc (K l))"
    and "\<And>m ys j. m \<noteq> l \<Longrightarrow> list_rep st m ys j \<Longrightarrow> list_rep st' m ys j"
  shows "lists_rep st' L (X(l := insert_at n i (X l))) (K(l := if K l \<le> n then K l else Suc (K l)))"
  using assms unfolding lists_rep_def by auto

lemma vListInsertEnd_rep:
  assumes rep: "list_rep st l xs k" and free: "container_of st (Item i) = None" and len: "Suc (length xs) < 2 ^ 32"
  shows "list_rep (vListInsertEnd l i st) l (insert_at (before_cursor xs k) i xs) (if k = 0 then 0 else Suc k)"
    and "\<And>m ys j. m \<noteq> l \<Longrightarrow> list_rep st m ys j \<Longrightarrow> list_rep (vListInsertEnd l i st) m ys j"
proof -
  let ?n = "before_cursor xs k"
  let ?q = "hd (map Item (drop ?n xs) @ [End l])"
  let ?p = "last (End l # map Item (take ?n xs))"
  have k: "k \<le> length xs" and idx: "index_of st l = (End l # map Item xs) ! k"
    using rep unfolding list_rep_def by simp_all
  have q: "index_of st l = ?q"
    using k idx by (cases k) (auto simp: before_cursor_def hd_append hd_drop_conv_nth hd_map)
  have n: "?n \<le> length xs" using k by (auto simp: before_cursor_def)
  have ring: "path (next_of st) (prev_of st) (End l) (map Item (take ?n xs) @ map Item (drop ?n xs)) (End l)"
    using rep unfolding list_rep_def by (simp flip: map_append)
  have p: "prev_of st ?q = ?p" by (rule path_prev [OF ring])
  have i: "i \<notin> set xs" using rep free unfolding list_rep_def by (metis option.distinct(1))
  have ne: "?p \<noteq> Item i" "?q \<noteq> Item i"
    using ring_members [OF rep, of ?n] i by auto
  have st': "next_of (vListInsertEnd l i st) = (next_of st)(?p := Item i, Item i := ?q)"
      "prev_of (vListInsertEnd l i st) = (prev_of st)(?q := Item i, Item i := ?p)"
      "value_of (vListInsertEnd l i st) = value_of st"
      "container_of (vListInsertEnd l i st) = (container_of st)(Item i := Some l)"
      "lists (vListInsertEnd l i st) = (lists st)(l := (lists st l)\<lparr>uxNumberOfItems := number_of st l + 1\<rparr>)"
    using q p ne
    by (auto simp: vListInsertEnd_def Let_def set_next_def set_previous_def set_container_def set_number_def fun_eq_iff)
  have cursor: "(if k \<le> ?n then k else Suc k) = (if k = 0 then 0 else Suc k)"
    using k by (auto simp: before_cursor_def)
  show "list_rep (vListInsertEnd l i st) l (insert_at ?n i xs) (if k = 0 then 0 else Suc k)"
    using list_rep_link(1) [OF rep free len n refl refl st'] by (simp only: insert_at_def cursor)
  show "\<And>m ys j. m \<noteq> l \<Longrightarrow> list_rep st m ys j \<Longrightarrow> list_rep (vListInsertEnd l i st) m ys j"
    by (rule list_rep_link(2) [OF rep free len n refl refl st'])
qed

lemma insert_position_path:
  "path (next_of st) (prev_of st) p (map Item xs) (End l) \<Longrightarrow> v < value_of st (End l) \<Longrightarrow>
   insert_position v p st = Some (last (p # map Item (take (behind_value st v xs) xs)))"
proof (induction xs arbitrary: p)
  case Nil
  then have "\<not> value_of st (next_of st p) \<le> v" by (simp add: not_le)
  then show ?case by (subst insert_position.simps) (simp add: behind_value_def)
next
  case (Cons x xs)
  then show ?case by (subst insert_position.simps) (simp add: behind_value_def)
qed

lemma le_portMAX_DELAY [simp]: "v \<le> portMAX_DELAY"
proof -
  have "portMAX_DELAY = - 1" by (simp add: portMAX_DELAY_def)
  then show ?thesis using word_order.extremum [of v] by simp
qed

lemma behind_value_max: "behind_value st portMAX_DELAY xs = length xs"
  unfolding behind_value_def by (subst takeWhile_eq_all_conv [THEN iffD2]) simp_all

lemma link_after_sel:
  assumes "next_of st p = q" "p \<noteq> new" "q \<noteq> new"
  shows "next_of (link_after p new st) = (next_of st)(p := new, new := q)"
    and "prev_of (link_after p new st) = (prev_of st)(q := new, new := p)"
    and "value_of (link_after p new st) = value_of st"
    and "container_of (link_after p new st) = container_of st"
    and "pvOwner (items (link_after p new st) x) = pvOwner (items st x)"
    and "lists (link_after p new st) = lists st"
  using assms
  by (simp_all add: link_after_def Let_def set_next_def set_previous_def fun_eq_iff)

lemma insert_number_sel:
  "next_of (set_number l n (set_container p c st)) = next_of st"
  "prev_of (set_number l n (set_container p c st)) = prev_of st"
  "value_of (set_number l n (set_container p c st)) = value_of st"
  "container_of (set_number l n (set_container p c st)) = (container_of st)(p := c)"
  "pvOwner (items (set_number l n (set_container p c st)) x) = pvOwner (items st x)"
  "lists (set_number l n (set_container p c st)) = (lists st)(l := (lists st l)\<lparr>uxNumberOfItems := n\<rparr>)"
  "number_of (set_container p c st) m = number_of st m"
  by (simp_all add: set_container_def set_number_def fun_eq_iff)

lemma vListInsert_rep:
  assumes rep: "list_rep st l xs k" and free: "container_of st (Item i) = None" and len: "Suc (length xs) < 2 ^ 32"
    and n: "n = behind_value st (value_of st (Item i)) xs"
  shows "\<exists>st'. vListInsert l i st = Some st' \<and> list_rep st' l (insert_at n i xs) (if k \<le> n then k else Suc k)
     \<and> (\<forall>m ys j. m \<noteq> l \<longrightarrow> list_rep st m ys j \<longrightarrow> list_rep st' m ys j)
     \<and> value_of st' = value_of st \<and> container_of st' = (container_of st)(Item i := Some l)
     \<and> (\<forall>x. pvOwner (items st' x) = pvOwner (items st x))"
proof -
  let ?v = "value_of st (Item i)"
  let ?q = "hd (map Item (drop n xs) @ [End l])"
  let ?p = "last (End l # map Item (take n xs))"
  have n_le: "n \<le> length xs" using n length_takeWhile_le by (simp add: behind_value_def)
  have whole: "path (next_of st) (prev_of st) (End l) (map Item xs) (End l)" and marker: "value_of st (End l) = portMAX_DELAY"
    using rep unfolding list_rep_def by simp_all
  have ring: "path (next_of st) (prev_of st) (End l) (map Item (take n xs) @ map Item (drop n xs)) (End l)"
    using whole by (simp flip: map_append)
  have q: "next_of st ?p = ?q" by (rule path_next [OF ring])
  have i: "i \<notin> set xs" using rep free unfolding list_rep_def by (metis option.distinct(1))
  have ne: "?p \<noteq> Item i" "?q \<noteq> Item i"
    using ring_members [OF rep, of n] i by auto
  have pos: "(if ?v = portMAX_DELAY then Some (prev_of st (End l)) else insert_position ?v (End l) st) = Some ?p"
  proof (cases "?v = portMAX_DELAY")
    case True
    then have "n = length xs" using n by (simp add: behind_value_max)
    then show ?thesis using True path_prev [of _ _ _ "map Item xs" "[]"] whole by simp
  next
    case False
    have "?v < value_of st (End l)" using False marker le_portMAX_DELAY [of ?v] by (metis order_le_imp_less_or_eq)
    then show ?thesis using False insert_position_path [OF whole] n by simp
  qed
  let ?st = "set_number l (number_of (set_container (Item i) (Some l) (link_after ?p (Item i) st)) l + 1)
    (set_container (Item i) (Some l) (link_after ?p (Item i) st))"
  have ins: "vListInsert l i st = Some ?st"
    using pos by (simp add: vListInsert_def Let_def)
  have st': "next_of ?st = (next_of st)(?p := Item i, Item i := ?q)"
      "prev_of ?st = (prev_of st)(?q := Item i, Item i := ?p)"
      "value_of ?st = value_of st" "container_of ?st = (container_of st)(Item i := Some l)"
      "lists ?st = (lists st)(l := (lists st l)\<lparr>uxNumberOfItems := number_of st l + 1\<rparr>)"
    by (simp_all only: insert_number_sel link_after_sel [OF q ne])
  have owner: "pvOwner (items ?st x) = pvOwner (items st x)" for x
    by (simp only: insert_number_sel link_after_sel [OF q ne])
  have "\<forall>m ys j. m \<noteq> l \<longrightarrow> list_rep st m ys j \<longrightarrow> list_rep ?st m ys j"
    using list_rep_link(2) [OF rep free len n_le refl refl st'] by blast
  then show ?thesis
    unfolding insert_at_def
    using ins list_rep_link(1) [OF rep free len n_le refl refl st'] st'(3,4) owner by blast
qed

lemma unlink_sel:
  assumes "next_of st x = q" "prev_of st x = p" "p \<noteq> x" "q \<noteq> x"
  shows "next_of (unlink x st) = (next_of st)(p := q)"
    and "prev_of (unlink x st) = (prev_of st)(q := p)"
    and "value_of (unlink x st) = value_of st"
    and "container_of (unlink x st) = container_of st"
    and "pvOwner (items (unlink x st) y) = pvOwner (items st y)"
    and "lists (unlink x st) = lists st"
  using assms
  by (simp_all add: unlink_def Let_def set_next_def set_previous_def fun_eq_iff)

lemma set_index_sel:
  "items (set_index l p st) = items st" "lists (set_index l p st) = (lists st)(l := (lists st l)\<lparr>pxIndex := p\<rparr>)"
  by (simp_all add: set_index_def)

lemma uxListRemove_rep:
  assumes rep: "list_rep st l xs k" and n: "n < length xs" and i: "i = xs ! n"
  shows "\<exists>st'. uxListRemove i st = Some (of_nat (length xs - 1), st')
     \<and> list_rep st' l (take n xs @ drop (Suc n) xs) (if k \<le> n then k else k - 1)
     \<and> (\<forall>m ys j. m \<noteq> l \<longrightarrow> list_rep st m ys j \<longrightarrow> list_rep st' m ys j)
     \<and> value_of st' = value_of st \<and> container_of st' = (container_of st)(Item i := None)
     \<and> (\<forall>x. pvOwner (items st' x) = pvOwner (items st x))"
proof -
  let ?q = "hd (map Item (drop (Suc n) xs) @ [End l])"
  let ?p = "last (End l # map Item (take n xs))"
  have xs: "xs = take n xs @ i # drop (Suc n) xs" using n i by (simp add: id_take_nth_drop)
  have dist: "distinct (take n xs @ i # drop (Suc n) xs)" using rep xs unfolding list_rep_def by simp
  have cont: "container_of st (Item i) = Some l" using rep n i unfolding list_rep_def by simp
  have ring: "path (next_of st) (prev_of st) (End l) (map Item (take n xs) @ Item i # map Item (drop (Suc n) xs)) (End l)"
    using rep xs unfolding list_rep_def by (metis map_append list.simps(9))
  then have ring': "path (next_of st) (prev_of st) (End l) ((map Item (take n xs) @ [Item i]) @ map Item (drop (Suc n) xs)) (End l)"
    by simp
  have p: "prev_of st (Item i) = ?p" using path_prev [OF ring] by simp
  have q: "next_of st (Item i) = ?q" using path_next [OF ring'] by simp
  have ne: "?p \<noteq> Item i" "?q \<noteq> Item i"
  proof -
    have "?p \<in> insert (End l) (Item ` set (take n xs))"
      by (metis last_in_set list.discI list.set(2) list.set_map)
    moreover have "?q \<in> insert (End l) (Item ` set (drop (Suc n) xs))"
      by (cases "drop (Suc n) xs") auto
    ultimately show "?p \<noteq> Item i" "?q \<noteq> Item i" using dist by auto
  qed
  obtain r st1 where rm: "uxListRemove i st = Some (r, st1)" using cont by (simp add: uxListRemove_def Let_def)
  have fields: "next_of st1 = (next_of st)(?p := ?q)" "prev_of st1 = (prev_of st)(?q := ?p)"
      "value_of st1 = value_of st" "container_of st1 = (container_of st)(Item i := None)"
      "lists st1 = (lists st)(l := \<lparr>uxNumberOfItems = number_of st l - 1,
         pxIndex = if index_of st l = Item i then ?p else index_of st l\<rparr>)"
      "\<forall>x. pvOwner (items st1 x) = pvOwner (items st x)" "r = number_of st1 l"
  proof -
    let ?u = "unlink (Item i) st"
    have u: "index_of ?u l = index_of st l" "number_of ?u l = number_of st l"
      by (simp_all only: unlink_sel(6) [OF q p ne])
    have up: "prev_of ?u (Item i) = ?p"
      using fun_cong [OF unlink_sel(2) [OF q p ne], of "Item i"] p fun_upd_other [OF ne(2) [symmetric], of "prev_of st" ?p] by simp
    let ?w = "if index_of st l = Item i then set_index l ?p ?u else ?u"
    have w: "items ?w = items ?u" "number_of ?w l = number_of st l"
        "lists ?w = (lists st)(l := (lists st l)\<lparr>pxIndex := if index_of st l = Item i then ?p else index_of st l\<rparr>)"
      using unlink_sel(6) [OF q p ne] by (auto simp: set_index_sel)
    have st1: "st1 = set_number l (number_of st l - 1) (set_container (Item i) None ?w)" "r = number_of st1 l"
      using rm cont u up w(2) by (auto simp: uxListRemove_def Let_def insert_number_sel split: if_splits)
    show "next_of st1 = (next_of st)(?p := ?q)" "prev_of st1 = (prev_of st)(?q := ?p)"
        "value_of st1 = value_of st" "container_of st1 = (container_of st)(Item i := None)"
        "\<forall>x. pvOwner (items st1 x) = pvOwner (items st x)"
      by (simp_all only: st1(1) insert_number_sel w(1) unlink_sel [OF q p ne] simp_thms)
    show "lists st1 = (lists st)(l := \<lparr>uxNumberOfItems = number_of st l - 1,
         pxIndex = if index_of st l = Item i then ?p else index_of st l\<rparr>)"
      unfolding st1(1) insert_number_sel w(3) by (cases "lists st l") simp
    show "r = number_of st1 l" by (rule st1(2))
  qed
  have rep': "list_rep st1 l (take n xs @ drop (Suc n) xs) (if k \<le> n then k else k - 1)"
    by (rule list_rep_unlink(1) [OF rep n i refl refl fields(1-5)])
  moreover have "\<forall>m ys j. m \<noteq> l \<longrightarrow> list_rep st m ys j \<longrightarrow> list_rep st1 m ys j"
    using list_rep_unlink(2) [OF rep n i refl refl fields(1-5)] by blast
  moreover have "r = of_nat (length xs - 1)"
    using rep' n fields(7) unfolding list_rep_def by (simp add: min_def)
  ultimately show ?thesis using rm fields(3,4,6) by blast
qed

lemma vListInitialise_rep:
  assumes "\<forall>i. container_of st (Item i) \<noteq> Some l"
  shows "list_rep (vListInitialise l st) l [] 0"
    and "\<And>m ys j. m \<noteq> l \<Longrightarrow> list_rep st m ys j \<Longrightarrow> list_rep (vListInitialise l st) m ys j"
proof -
  show "list_rep (vListInitialise l st) l [] 0"
    using assms
    by (auto simp: list_rep_def vListInitialise_def Let_def set_next_def set_previous_def set_number_def set_index_def)
  show "list_rep (vListInitialise l st) m ys j" if "m \<noteq> l" "list_rep st m ys j" for m ys j
    using that
    by (intro list_rep_frame [OF that(2)])
      (auto simp: vListInitialise_def Let_def set_next_def set_previous_def set_number_def set_index_def)
qed

text \<open>The cursor moves on, past the marker, and the owner it comes to is returned.\<close>

definition next_cursor :: "nat list \<Rightarrow> nat \<Rightarrow> nat" where
  "next_cursor xs k = (if k < length xs then Suc k else 1)"

lemma path_step:
  "path nx pv a ps b \<Longrightarrow> n \<le> length ps \<Longrightarrow> nx ((a # ps) ! n) = (ps @ [b]) ! n"
  by (induction ps arbitrary: a n) (auto simp: nth_Cons split: nat.splits)

lemma next_entry_rep:
  assumes rep: "list_rep st l xs k" and ne: "xs \<noteq> []"
  shows "\<exists>st'. listGET_OWNER_OF_NEXT_ENTRY l st = Some (pvOwner (items st (Item (xs ! (next_cursor xs k - 1)))), st')
     \<and> list_rep st' l xs (next_cursor xs k) \<and> items st' = items st
     \<and> (\<forall>m ys j. m \<noteq> l \<longrightarrow> list_rep st m ys j \<longrightarrow> list_rep st' m ys j)"
proof -
  have k: "k \<le> length xs" and idx: "index_of st l = (End l # map Item xs) ! k"
    and ring: "path (next_of st) (prev_of st) (End l) (map Item xs) (End l)"
    using rep unfolding list_rep_def by simp_all
  have step: "next_of st (index_of st l) = (if k < length xs then Item (xs ! k) else End l)"
    using path_step [OF ring, of k] k idx by (auto simp: nth_append)
  have head: "next_of st (End l) = Item (xs ! 0)"
    using path_step [OF ring, of 0] ne by (cases xs) auto
  let ?p = "Item (xs ! (next_cursor xs k - 1))"
  let ?st = "set_index l ?p st"
  have run: "listGET_OWNER_OF_NEXT_ENTRY l st = Some (pvOwner (items st ?p), ?st)"
    using step head
    by (cases "k < length xs")
      (auto simp: listGET_OWNER_OF_NEXT_ENTRY_def Let_def next_cursor_def owner_at_def set_index_def upd_list_def)
  have rep': "list_rep ?st l xs (next_cursor xs k)"
    using rep ne unfolding list_rep_def by (auto simp: set_index_def next_cursor_def Suc_le_eq)
  have "list_rep ?st m ys j" if "m \<noteq> l" "list_rep st m ys j" for m ys j
    using that by (intro list_rep_frame [OF that(2)]) (auto simp: set_index_def)
  moreover have "items ?st = items st" by (simp add: set_index_def)
  ultimately show ?thesis using run rep' by blast
qed

subsection \<open>The kernel's use of its lists\<close>

text \<open>
  The calls of the kernel on its lists \<open>L\<close>, whose items are numbered below \<open>N\<close>: an item is
  inserted only when it is in no list, removed only when it is in one, and the cursor moves
  only in a list that is not empty. Owners are set, and values changed, while an item is in
  no list.
\<close>

inductive list_step :: "nat set \<Rightarrow> nat \<Rightarrow> list_store \<Rightarrow> list_store \<Rightarrow> bool" for L N where
  step_insert: "l \<in> L \<Longrightarrow> i < N \<Longrightarrow> container_of st (Item i) = None \<Longrightarrow> vListInsert l i st = Some st' \<Longrightarrow> list_step L N st st'"
| step_insert_end: "l \<in> L \<Longrightarrow> i < N \<Longrightarrow> container_of st (Item i) = None \<Longrightarrow> list_step L N st (vListInsertEnd l i st)"
| step_remove: "container_of st (Item i) = Some l \<Longrightarrow> l \<in> L \<Longrightarrow> uxListRemove i st = Some (r, st') \<Longrightarrow> list_step L N st st'"
| step_next: "l \<in> L \<Longrightarrow> \<not> listLIST_IS_EMPTY l st \<Longrightarrow> listGET_OWNER_OF_NEXT_ENTRY l st = Some (t, st') \<Longrightarrow> list_step L N st st'"
| step_value: "container_of st (Item i) = None \<Longrightarrow> list_step L N st (listSET_LIST_ITEM_VALUE i v st)"
| step_owner: "container_of st (Item i) = None \<Longrightarrow> list_step L N st (listSET_LIST_ITEM_OWNER i t st)"

text \<open>All lists have been initialised and no item is in one.\<close>

definition lists_start :: "nat set \<Rightarrow> list_store \<Rightarrow> bool" where
  "lists_start L st \<longleftrightarrow> (\<forall>l\<in>L. list_rep st l [] 0) \<and> (\<forall>i. container_of st (Item i) = None)"

definition lists_ok :: "nat set \<Rightarrow> nat \<Rightarrow> list_store \<Rightarrow> bool" where
  "lists_ok L N st \<longleftrightarrow> (\<forall>l\<in>L. \<exists>xs k. list_rep st l xs k \<and> set xs \<subseteq> {..<N})"

lemma distinct_below: "distinct xs \<Longrightarrow> set xs \<subseteq> {..<N} \<Longrightarrow> length xs \<le> N"
  using card_mono [of "{..<N}" "set xs"] by (simp add: distinct_card)

lemma list_rep_room:
  assumes "list_rep st l xs k" "set xs \<subseteq> {..<N}" "i < N" "container_of st (Item i) = None" "N < 2 ^ 32"
  shows "Suc (length xs) < 2 ^ 32"
proof -
  have "i \<notin> set xs" using assms(1,4) unfolding list_rep_def by (metis option.distinct(1))
  moreover have "distinct xs" using assms(1) unfolding list_rep_def by blast
  ultimately have "length (i # xs) \<le> N" using assms(2,3) by (intro distinct_below) auto
  then show ?thesis using assms(5) by simp
qed

lemma set_insert_at: "set (insert_at n i xs) = insert i (set xs)"
  unfolding insert_at_def by (metis append_take_drop_id set_append list.set(2) Un_insert_right)

text \<open>When list \<open>l\<close> has been changed and the others have not, all are well-formed again.\<close>

lemma lists_ok_change:
  assumes "lists_ok L N st" "list_rep st' l xs k" "set xs \<subseteq> {..<N}"
    and "\<And>m ys j. m \<noteq> l \<Longrightarrow> list_rep st m ys j \<Longrightarrow> list_rep st' m ys j"
  shows "lists_ok L N st'"
  using assms unfolding lists_ok_def by metis

lemma lists_ok_free_item:
  assumes "lists_ok L N st" "container_of st (Item i) = None" "pxNext (f (items st (Item i))) = next_of st (Item i)"
    "pxPrevious (f (items st (Item i))) = prev_of st (Item i)" "pvContainer (f (items st (Item i))) = None"
  shows "lists_ok L N (upd_item (Item i) f st)"
  unfolding lists_ok_def
proof
  fix l assume "l \<in> L"
  then obtain xs k where rep: "list_rep st l xs k" "set xs \<subseteq> {..<N}"
    using assms(1) unfolding lists_ok_def by blast
  have "list_rep (upd_item (Item i) f st) l xs k"
    using assms by (intro list_rep_frame [OF rep(1)]) auto
  then show "\<exists>xs k. list_rep (upd_item (Item i) f st) l xs k \<and> set xs \<subseteq> {..<N}" using rep(2) by blast
qed

lemma remove_at_set: "set (take n xs @ drop (Suc n) xs) \<subseteq> set xs"
  using set_take_subset [of n xs] set_drop_subset [of "Suc n" xs] by auto

lemma lists_ok_step:
  assumes "list_step L N st st'" "N < 2 ^ 32" "lists_ok L N st"
  shows "lists_ok L N st'"
  using assms
proof (induction rule: list_step.induct)
  case (step_insert l i st st')
  then obtain xs k where rep: "list_rep st l xs k" "set xs \<subseteq> {..<N}" unfolding lists_ok_def by blast
  have room: "Suc (length xs) < 2 ^ 32" using list_rep_room [OF rep] step_insert by blast
  obtain n j where rep': "list_rep st' l (insert_at n i xs) j"
      and frame: "\<And>m ys j. m \<noteq> l \<Longrightarrow> list_rep st m ys j \<Longrightarrow> list_rep st' m ys j"
    using vListInsert_rep [OF rep(1) step_insert(3) room refl] step_insert(4) by force
  show ?case
    by (rule lists_ok_change [OF step_insert(6) rep' _ frame]) (use rep(2) step_insert(2) in \<open>auto simp: set_insert_at\<close>)
next
  case (step_insert_end l i st)
  then obtain xs k where rep: "list_rep st l xs k" "set xs \<subseteq> {..<N}" unfolding lists_ok_def by blast
  have room: "Suc (length xs) < 2 ^ 32" using list_rep_room [OF rep] step_insert_end by blast
  show ?case
    using step_insert_end rep(2)
    by (intro lists_ok_change [OF step_insert_end(5) vListInsertEnd_rep(1) [OF rep(1) step_insert_end(3) room]
        _ vListInsertEnd_rep(2) [OF rep(1) step_insert_end(3) room]]) (auto simp: set_insert_at)
next
  case (step_remove st i l r st')
  then obtain xs k where rep: "list_rep st l xs k" "set xs \<subseteq> {..<N}" unfolding lists_ok_def by blast
  have "i \<in> set xs" using rep(1) step_remove(1) unfolding list_rep_def by blast
  then obtain n where n: "n < length xs" "i = xs ! n" by (metis in_set_conv_nth)
  obtain j where rep': "list_rep st' l (take n xs @ drop (Suc n) xs) j"
      and frame: "\<And>m ys j. m \<noteq> l \<Longrightarrow> list_rep st m ys j \<Longrightarrow> list_rep st' m ys j"
    using uxListRemove_rep [OF rep(1) n] step_remove(3) by force
  show ?case
    by (rule lists_ok_change [OF step_remove(5) rep' _ frame]) (use rep(2) remove_at_set [of n xs] in auto)
next
  case (step_next l st t st')
  then obtain xs k where rep: "list_rep st l xs k" "set xs \<subseteq> {..<N}" unfolding lists_ok_def by blast
  have "xs \<noteq> []" using rep(1) step_next(2) by (auto simp: list_rep_def listLIST_IS_EMPTY_def)
  then obtain j where rep': "list_rep st' l xs j"
      and frame: "\<And>m ys j. m \<noteq> l \<Longrightarrow> list_rep st m ys j \<Longrightarrow> list_rep st' m ys j"
    using next_entry_rep [OF rep(1)] step_next(3) by force
  show ?case by (rule lists_ok_change [OF step_next(5) rep' rep(2) frame])
next
  case (step_value st i v)
  then show ?case unfolding listSET_LIST_ITEM_VALUE_def by (intro lists_ok_free_item) simp_all
next
  case (step_owner st i t)
  then show ?case unfolding listSET_LIST_ITEM_OWNER_def by (intro lists_ok_free_item) simp_all
qed

interpretation kernel_lists: invariant_of "lists_start L" "\<lambda>st st'. N < 2 ^ 32 \<and> list_step L N st st'" "lists_ok L N" for L N
proof
  fix st
  assume "lists_start L st"
  then show "lists_ok L N st"
    by (auto simp: lists_start_def lists_ok_def intro!: exI [of _ "[] :: nat list"])
qed (blast intro: lists_ok_step)

subsection \<open>Properties\<close>

text \<open>
  Following \<open>pxNext\<close> or \<open>pxPrevious\<close> from a pointer, for at most \<open>n\<close> items.
\<close>

fun walk :: "nat \<Rightarrow> (item_ptr \<Rightarrow> item_ptr) \<Rightarrow> item_ptr \<Rightarrow> nat list" where
  "walk 0 f p = []"
| "walk (Suc n) f p = (case f p of Item i \<Rightarrow> i # walk n f (Item i) | End _ \<Rightarrow> [])"

lemma walk_next: "path nx pv p (map Item xs) (End l) \<Longrightarrow> walk (Suc (length xs)) nx p = xs"
  by (induction xs arbitrary: p) auto

lemma path_rev: "path nx pv a ps b \<Longrightarrow> path pv nx b (rev ps) a"
proof (induction ps arbitrary: a)
  case (Cons p ps)
  have append: "path pv nx b (qs @ [p]) a" if "path pv nx b qs p" "pv p = a" "nx a = p" for qs b
    using that by (induction qs arbitrary: b) auto
  from Cons have "path pv nx b (rev ps) p" "pv p = a" "nx a = p" by simp_all
  then show ?case using append by simp
qed simp


lemma sorted_takeWhile_filter:
  "sorted (map f xs) \<Longrightarrow> takeWhile (\<lambda>x. f x \<le> v) xs = filter (\<lambda>x. f x \<le> v) xs
     \<and> dropWhile (\<lambda>x. f x \<le> v) xs = filter (\<lambda>x. \<not> f x \<le> v) xs" for v :: "'a :: linorder"
proof (induction xs)
  case (Cons a xs)
  have "filter (\<lambda>x. f x \<le> v) xs = [] \<and> filter (\<lambda>x. \<not> f x \<le> v) xs = xs" if "\<not> f a \<le> v"
  proof -
    have "\<forall>x\<in>set xs. \<not> f x \<le> v" using that Cons.prems by fastforce
    then show ?thesis by simp
  qed
  then show ?case using Cons by auto
qed simp

lemma insert_at_behind:
  "insert_at (behind_value st v xs) i xs =
     takeWhile (\<lambda>x. value_of st (Item x) \<le> v) xs @ i # dropWhile (\<lambda>x. value_of st (Item x) \<le> v) xs"
  by (simp add: insert_at_def behind_value_def takeWhile_eq_take [symmetric] dropWhile_eq_drop [symmetric])

text \<open>
  C33: \<open>vListInsert\<close> puts an item into a sorted list behind all items that are not greater and
  before all that are, so the list stays sorted and items of the same value keep the order
  of their insertion; every other list is as before.
\<close>

theorem vListInsert_sorted:
  assumes "list_rep st l xs k" "container_of st (Item i) = None" "Suc (length xs) < 2 ^ 32"
    and "sorted (map (\<lambda>x. listGET_LIST_ITEM_VALUE x st) xs)" "v = listGET_LIST_ITEM_VALUE i st"
  shows "\<exists>st' k' ys. vListInsert l i st = Some st' \<and> list_rep st' l ys k'
     \<and> ys = filter (\<lambda>x. listGET_LIST_ITEM_VALUE x st \<le> v) xs @ i # filter (\<lambda>x. v < listGET_LIST_ITEM_VALUE x st) xs
     \<and> sorted (map (\<lambda>x. listGET_LIST_ITEM_VALUE x st') ys)
     \<and> (\<forall>m zs j. m \<noteq> l \<longrightarrow> list_rep st m zs j \<longrightarrow> list_rep st' m zs j)"
proof -
  let ?f = "\<lambda>x. value_of st (Item x)"
  let ?ys = "filter (\<lambda>x. ?f x \<le> v) xs @ i # filter (\<lambda>x. v < ?f x) xs"
  have sorted: "sorted (map ?f xs)" using assms(4) by (simp add: listGET_LIST_ITEM_VALUE_def)
  obtain st' where st': "vListInsert l i st = Some st'" "list_rep st' l (insert_at (behind_value st (?f i) xs) i xs)
        (if k \<le> behind_value st (?f i) xs then k else Suc k)" "value_of st' = value_of st"
      "\<forall>m zs j. m \<noteq> l \<longrightarrow> list_rep st m zs j \<longrightarrow> list_rep st' m zs j"
    using vListInsert_rep [OF assms(1-3) refl] by blast
  have ys: "insert_at (behind_value st (?f i) xs) i xs = ?ys"
    using sorted_takeWhile_filter [OF sorted] assms(5)
    by (simp add: insert_at_behind listGET_LIST_ITEM_VALUE_def not_le)
  have vals: "listGET_LIST_ITEM_VALUE x st' = ?f x" for x
    using fun_cong [OF st'(3), of "Item x"] by (simp add: listGET_LIST_ITEM_VALUE_def)
  have "sorted (map (\<lambda>x. listGET_LIST_ITEM_VALUE x st') ?ys)"
    using sorted assms(5) unfolding vals
    by (auto simp: sorted_append listGET_LIST_ITEM_VALUE_def sorted_filter)
  then show ?thesis using st'(1,2,4) ys by (auto simp: listGET_LIST_ITEM_VALUE_def)
qed

text \<open>Several uses of \<open>listGET_OWNER_OF_NEXT_ENTRY\<close> in turn.\<close>

fun next_entries :: "nat \<Rightarrow> nat \<Rightarrow> list_store \<Rightarrow> (nat list \<times> list_store) option" where
  "next_entries 0 l st = Some ([], st)"
| "next_entries (Suc n) l st =
     (case listGET_OWNER_OF_NEXT_ENTRY l st of
        None \<Rightarrow> None
      | Some (t, st) \<Rightarrow> map_option (\<lambda>(ts, st). (t # ts, st)) (next_entries n l st))"

text \<open>The items in the order of their turns.\<close>

definition turns :: "nat list \<Rightarrow> nat \<Rightarrow> nat list" where
  "turns xs k = drop k xs @ take k xs"

lemma next_entries_upto:
  "list_rep st l xs k \<Longrightarrow> k + n \<le> length xs \<Longrightarrow>
   \<exists>st'. next_entries n l st = Some (map (\<lambda>x. pvOwner (items st (Item x))) (take n (drop k xs)), st')
     \<and> list_rep st' l xs (k + n) \<and> items st' = items st"
proof (induction n arbitrary: k st)
  case (Suc n)
  then have k: "k < length xs" by simp
  obtain st1 where st1: "listGET_OWNER_OF_NEXT_ENTRY l st = Some (pvOwner (items st (Item (xs ! k))), st1)"
      "list_rep st1 l xs (Suc k)" "items st1 = items st"
    using next_entry_rep [OF Suc.prems(1)] k by (force simp: next_cursor_def)
  show ?case
    using Suc.IH [OF st1(2)] Suc.prems(2) st1 k by (auto simp: Cons_nth_drop_Suc [symmetric])
qed simp

lemma next_entries_append:
  "next_entries (m + n) l st =
     Option.bind (next_entries m l st) (\<lambda>(ts, st). map_option (\<lambda>(us, st). (ts @ us, st)) (next_entries n l st))"
proof (induction m arbitrary: st)
  case 0
  show ?case by (cases "next_entries n l st") auto
next
  case (Suc m)
  show ?case
  proof (cases "listGET_OWNER_OF_NEXT_ENTRY l st")
    case (Some r)
    then show ?thesis
      using Suc.IH [of "snd r"]
      by (cases r; cases "next_entries m l (snd r)") (auto simp: option.map_comp comp_def prod.case_eq_if)
  qed simp
qed

lemma next_entries_wrap:
  assumes "list_rep st l xs (length xs)" "n \<le> length xs" "0 < n"
  shows "\<exists>st'. next_entries n l st = Some (map (\<lambda>x. pvOwner (items st (Item x))) (take n xs), st')
     \<and> list_rep st' l xs n \<and> items st' = items st"
proof -
  obtain m where m: "n = Suc m" using assms(3) by (cases n) auto
  have ne: "xs \<noteq> []" using assms by auto
  obtain st1 where st1: "listGET_OWNER_OF_NEXT_ENTRY l st = Some (pvOwner (items st (Item (xs ! 0))), st1)"
      "list_rep st1 l xs 1" "items st1 = items st"
    using next_entry_rep [OF assms(1) ne] by (force simp: next_cursor_def)
  show ?thesis
    using next_entries_upto [OF st1(2), of m] assms(2) st1 ne m
    by (cases xs) auto
qed

text \<open>A round: as many turns as the list has items.\<close>

lemma next_entries_round:
  assumes "list_rep st l xs k"
  shows "\<exists>st'. next_entries (length xs) l st = Some (map (\<lambda>x. pvOwner (items st (Item x))) (turns xs k), st')
     \<and> list_rep st' l xs (if k = 0 then length xs else k) \<and> items st' = items st"
proof -
  have k: "k \<le> length xs" using assms unfolding list_rep_def by blast
  obtain st1 where st1: "next_entries (length xs - k) l st = Some (map (\<lambda>x. pvOwner (items st (Item x))) (drop k xs), st1)"
      "list_rep st1 l xs (length xs)" "items st1 = items st"
    using next_entries_upto [OF assms, of "length xs - k"] k by force
  show ?thesis
  proof (cases "k = 0")
    case True
    then show ?thesis using st1 by (auto simp: turns_def)
  next
    case False
    then obtain st2 where "next_entries k l st1 = Some (map (\<lambda>x. pvOwner (items st1 (Item x))) (take k xs), st2)"
        "list_rep st2 l xs k" "items st2 = items st1"
      using next_entries_wrap [OF st1(2) k] by blast
    then show ?thesis
      using st1 next_entries_append [of "length xs - k" k l st] k False by (auto simp: turns_def)
  qed
qed

text \<open>
  Taking entry after entry, every item of a list gets its turn exactly once in a round,
  and an item that \<open>vListInsertEnd\<close> has added comes last: behind all that were waiting, and
  before the one whose turn it is now comes again.
\<close>

theorem vListInsertEnd_takes_last_turn:
  assumes "list_rep st l xs k" "container_of st (Item i) = None" "Suc (length xs) < 2 ^ 32"
  shows "\<exists>st'. next_entries (Suc (length xs)) l (vListInsertEnd l i st) =
     Some (map (\<lambda>x. pvOwner (items st (Item x)))
       (if k = 0 then xs @ [i] else drop k xs @ take (k - 1) xs @ [i, xs ! (k - 1)]), st')"
proof -
  let ?ys = "insert_at (before_cursor xs k) i xs"
  have k: "k \<le> length xs" using assms(1) unfolding list_rep_def by blast
  have rep: "list_rep (vListInsertEnd l i st) l ?ys (if k = 0 then 0 else Suc k)"
    by (rule vListInsertEnd_rep(1) [OF assms])
  have owner: "pvOwner (items (vListInsertEnd l i st) x) = pvOwner (items st x)" for x
    by (simp add: vListInsertEnd_def Let_def set_next_def set_previous_def set_container_def set_number_def)
  have "length ?ys = Suc (length xs)"
    using k by (auto simp: insert_at_def before_cursor_def)
  moreover have "turns ?ys (if k = 0 then 0 else Suc k) =
      (if k = 0 then xs @ [i] else drop k xs @ take (k - 1) xs @ [i, xs ! (k - 1)])"
    using k by (cases k) (auto simp: turns_def insert_at_def before_cursor_def drop_Suc_Cons Cons_nth_drop_Suc [symmetric])
  ultimately show ?thesis using next_entries_round [OF rep] owner by auto
qed

text \<open>
  Removing an item, even the one whose turn it is, leaves the turns of all other items in
  their order.
\<close>

theorem uxListRemove_keeps_turns:
  assumes "list_rep st l xs k" "i \<in> set xs"
  shows "\<exists>st' st''. uxListRemove i st = Some (of_nat (length xs - 1), st')
     \<and> next_entries (length xs - 1) l st' =
         Some (map (\<lambda>x. pvOwner (items st (Item x))) (remove1 i (turns xs k)), st'')
     \<and> \<not> listIS_CONTAINED_WITHIN l i st'"
proof -
  obtain n where n: "n < length xs" "i = xs ! n" using assms(2) by (metis in_set_conv_nth)
  let ?ys = "take n xs @ drop (Suc n) xs"
  have k: "k \<le> length xs" and dist: "distinct xs" using assms(1) unfolding list_rep_def by simp_all
  obtain st' where st': "uxListRemove i st = Some (of_nat (length xs - 1), st')"
      "list_rep st' l ?ys (if k \<le> n then k else k - 1)" "\<forall>x. pvOwner (items st' x) = pvOwner (items st x)"
    using uxListRemove_rep [OF assms(1) n] by blast
  have xs: "xs = take n xs @ i # drop (Suc n) xs" using n by (simp add: id_take_nth_drop)
  have not_in: "i \<notin> set (take n xs)" "i \<notin> set (drop (Suc n) xs)"
    using dist xs by (metis distinct_append distinct.simps(2) disjoint_iff list.set_intros(1), metis distinct_append distinct.simps(2))
  have "turns ?ys (if k \<le> n then k else k - 1) = remove1 i (turns xs k)"
  proof (cases "k \<le> n")
    case True
    have "drop k xs = drop k (take n xs) @ i # drop (Suc n) xs"
      using True n arg_cong [OF xs, of "drop k"] by simp
    moreover have "i \<notin> set (drop k (take n xs))" using not_in by (meson in_set_dropD)
    ultimately show ?thesis using True n by (simp add: turns_def remove1_append)
  next
    case False
    have "take k xs = take n xs @ i # take (k - Suc n) (drop (Suc n) xs)"
      using False n arg_cong [OF xs, of "take k"] by (simp add: take_Cons')
    moreover have "drop k xs = drop (k - Suc n) (drop (Suc n) xs)" using False by simp
    moreover have "i \<notin> set (drop (k - Suc n) (drop (Suc n) xs))" using not_in by (meson in_set_dropD)
    ultimately show ?thesis using False n not_in by (simp add: turns_def remove1_append)
  qed
  moreover have "length ?ys = length xs - 1" using n by simp
  moreover have "\<not> listIS_CONTAINED_WITHIN l i st'"
    using st'(2) not_in unfolding list_rep_def listIS_CONTAINED_WITHIN_def by auto
  ultimately show ?thesis using next_entries_round [OF st'(2)] st'(1,3) by auto
qed

text \<open>
  \<open>uxListRemove\<close> undoes \<open>vListInsert\<close>: the items, their order and the cursor are again
  what they were.
\<close>

theorem vListInsert_uxListRemove:
  assumes "list_rep st l xs k" "container_of st (Item i) = None" "Suc (length xs) < 2 ^ 32"
  shows "\<exists>st' st''. vListInsert l i st = Some st' \<and> uxListRemove i st' = Some (of_nat (length xs), st'')
     \<and> list_rep st'' l xs k"
proof -
  let ?n = "behind_value st (value_of st (Item i)) xs"
  obtain st' where st': "vListInsert l i st = Some st'" "list_rep st' l (insert_at ?n i xs) (if k \<le> ?n then k else Suc k)"
    using vListInsert_rep [OF assms refl] by blast
  have n: "?n \<le> length xs" using length_takeWhile_le by (simp add: behind_value_def)
  have pos: "?n < length (insert_at ?n i xs)" "i = insert_at ?n i xs ! ?n"
    using n by (simp_all add: insert_at_def nth_append)
  have same: "take ?n (insert_at ?n i xs) @ drop (Suc ?n) (insert_at ?n i xs) = xs"
    using n by (simp add: insert_at_def)
  have "length (insert_at ?n i xs) - 1 = length xs" using n by (simp add: insert_at_def)
  with uxListRemove_rep [OF st'(2) pos] st'(1) show ?thesis
    by (auto simp: same split: if_splits)
qed

subsection \<open>A list of two items\<close>

definition empty_store :: list_store where
  "empty_store = vListInitialise 0
     \<lparr>items = \<lambda>p. \<lparr>xItemValue = (if p = Item 2 then 5 else 3), pxNext = End 0, pxPrevious = End 0,
        pvOwner = (case p of Item i \<Rightarrow> 10 + i | End _ \<Rightarrow> 0), pvContainer = None\<rparr>,
      lists = \<lambda>_. \<lparr>uxNumberOfItems = 0, pxIndex = End 0\<rparr>\<rparr>"

definition two_items :: list_store where
  "two_items = vListInsertEnd 0 2 (vListInsertEnd 0 1 empty_store)"

lemma empty_store_rep: "list_rep empty_store 0 [] 0" "container_of empty_store (Item i) = None"
  unfolding empty_store_def
  by (rule vListInitialise_rep(1))
    (simp_all add: vListInitialise_def Let_def set_next_def set_previous_def set_number_def set_index_def)

lemma insert_end_container:
  "container_of (vListInsertEnd l i st) x = (if x = Item i then Some l else container_of st x)"
  by (simp add: vListInsertEnd_def Let_def set_next_def set_previous_def set_container_def set_number_def)

lemma two_items_rep: "list_rep two_items 0 [1, 2] 0" "container_of two_items (Item 3) = None"
proof -
  have "list_rep (vListInsertEnd 0 1 empty_store) 0 [1] 0"
    using vListInsertEnd_rep(1) [OF empty_store_rep] by (simp add: insert_at_def before_cursor_def)
  then show "list_rep two_items 0 [1, 2] 0"
    using vListInsertEnd_rep(1) [of "vListInsertEnd 0 1 empty_store" 0 "[1]" 0 2] empty_store_rep(2)
    by (simp add: two_items_def insert_at_def before_cursor_def insert_end_container)
  show "container_of two_items (Item 3) = None"
    by (simp add: two_items_def insert_end_container empty_store_rep)
qed

lemma two_items_value: "listGET_LIST_ITEM_VALUE i two_items = (if i = 2 then 5 else 3)"
  by (simp add: two_items_def empty_store_def listGET_LIST_ITEM_VALUE_def vListInsertEnd_def vListInitialise_def Let_def
      set_next_def set_previous_def set_container_def set_number_def set_index_def)


theorem vListInsert_sorted_witness:
  "\<exists>st' k' ys. vListInsert 0 3 two_items = Some st' \<and> list_rep st' 0 ys k' \<and> ys = [1, 3, 2]
     \<and> sorted (map (\<lambda>x. listGET_LIST_ITEM_VALUE x st') ys)"
  using vListInsert_sorted [OF two_items_rep(1) two_items_rep(2)]
  by (force simp: two_items_value)

theorem vListInsertEnd_takes_last_turn_witness:
  "\<exists>st'. next_entries 3 0 (vListInsertEnd 0 3 two_items) = Some ([11, 12, 13], st')"
proof -
  have "pvOwner (items two_items (Item i)) = 10 + i" for i
    by (simp add: two_items_def empty_store_def vListInsertEnd_def vListInitialise_def Let_def
      set_next_def set_previous_def set_container_def set_number_def set_index_def)
  then show ?thesis
    using vListInsertEnd_takes_last_turn [OF two_items_rep] by (simp del: next_entries.simps add: numeral_3_eq_3)
qed

theorem uxListRemove_keeps_turns_witness:
  "\<exists>st' st''. uxListRemove 1 two_items = Some (1, st') \<and> next_entries 1 0 st' = Some ([12], st'')
     \<and> \<not> listIS_CONTAINED_WITHIN 0 1 st'"
proof -
  have "pvOwner (items two_items (Item i)) = 10 + i" for i
    by (simp add: two_items_def empty_store_def vListInsertEnd_def vListInitialise_def Let_def
      set_next_def set_previous_def set_container_def set_number_def set_index_def)
  then show ?thesis
    using uxListRemove_keeps_turns [OF two_items_rep(1), of 1] by (simp del: next_entries.simps add: turns_def)
qed

theorem vListInsert_uxListRemove_witness:
  "\<exists>st' st''. vListInsert 0 3 two_items = Some st' \<and> uxListRemove 3 st' = Some (2, st'') \<and> list_rep st'' 0 [1, 2] 0"
  using vListInsert_uxListRemove [OF two_items_rep] by simp

end
