(* ===== verification/RtosTasks.thy ===== *)
theory RtosTasks
  imports RtosList "HOL-Library.Monad_Syntax"
begin

text \<open>
  The scheduler of the RTOS kernel (\<open>freertos/tasks.c\<close>): the ready lists and their bit map,
  the two lists of delayed tasks that are exchanged when the tick counter wraps, suspension
  of tasks and of the scheduler, waiting for events, inherited priorities and notifications.
  The state lists are those of theory \<open>RtosList\<close>. Critical sections make each function atomic;
  a yield pends the interrupt that calls \<open>vTaskSwitchContext\<close>. \<open>None\<close> is a use of a null pointer
  or of an item in no list, or a loop that does not end. Stacks, names, traces, run time
  statistics and the hooks are left out.
\<close>

subsection \<open>Data\<close>

datatype eNotifyValue = eNotWaitingNotification | eWaitingNotification | eNotified

datatype eNotifyAction =
  eNoAction | eSetBits | eIncrement | eSetValueWithOverwrite | eSetValueWithoutOverwrite

record tcb =
  uxPriority :: nat
  uxBasePriority :: nat
  uxMutexesHeld :: u32
  ulNotifiedValue :: u32
  eNotifyState :: eNotifyValue

record kernel =
  store :: list_store
  tcbs :: "nat \<Rightarrow> tcb"
  pxCurrentTCB :: "nat option"
  pxDelayedTaskList :: nat
  pxOverflowDelayedTaskList :: nat
  uxCurrentNumberOfTasks :: u32
  xTickCount :: u32
  uxTopReadyPriority :: u32
  xSchedulerRunning :: bool
  uxPendedTicks :: u32
  xYieldPending :: bool
  xNumOfOverflows :: u32
  xNextTaskUnblockTime :: u32
  uxSchedulerSuspended :: u32
  uxTasksDeleted :: u32
  switch_pended :: bool

record time_out =
  xOverflowCount :: u32
  xTimeOnEntering :: u32

definition configMAX_PRIORITIES :: nat where "configMAX_PRIORITIES = 5"

text \<open>The ready lists come first; numbers from 10 on are lists of tasks that wait for events.\<close>

definition xDelayedTaskList1 :: nat where "xDelayedTaskList1 = 5"
definition xDelayedTaskList2 :: nat where "xDelayedTaskList2 = 6"
definition xPendingReadyList :: nat where "xPendingReadyList = 7"
definition xTasksWaitingTermination :: nat where "xTasksWaitingTermination = 8"
definition xSuspendedTaskList :: nat where "xSuspendedTaskList = 9"

text \<open>The two items of a task.\<close>

definition xGenericListItem :: "nat \<Rightarrow> nat" where "xGenericListItem t = 2 * t"
definition xEventListItem :: "nat \<Rightarrow> nat" where "xEventListItem t = 2 * t + 1"

definition taskEVENT_LIST_ITEM_VALUE_IN_USE :: u32 where "taskEVENT_LIST_ITEM_VALUE_IN_USE = 0x80000000"

definition on_store :: "(list_store \<Rightarrow> list_store) \<Rightarrow> kernel \<Rightarrow> kernel" where
  "on_store f k = k\<lparr>store := f (store k)\<rparr>"

definition upd_tcb :: "nat \<Rightarrow> (tcb \<Rightarrow> tcb) \<Rightarrow> kernel \<Rightarrow> kernel" where
  "upd_tcb t f k = k\<lparr>tcbs := (tcbs k)(t := f (tcbs k t))\<rparr>"

abbreviation priority :: "kernel \<Rightarrow> nat \<Rightarrow> nat" where
  "priority k t \<equiv> uxPriority (tcbs k t)"

definition item_container :: "nat \<Rightarrow> kernel \<Rightarrow> nat option" where
  "item_container i k = listLIST_ITEM_CONTAINER i (store k)"

text \<open>\<open>uxListRemove\<close>, \<open>vListInsert\<close> and \<open>vListInsertEnd\<close> on the lists of the kernel.\<close>

definition remove_item :: "nat \<Rightarrow> kernel \<Rightarrow> (u32 \<times> kernel) option" where
  "remove_item i k = map_option (\<lambda>(n, st). (n, k\<lparr>store := st\<rparr>)) (uxListRemove i (store k))"

definition insert_item :: "nat \<Rightarrow> nat \<Rightarrow> kernel \<Rightarrow> kernel option" where
  "insert_item l i k = map_option (\<lambda>st. k\<lparr>store := st\<rparr>) (vListInsert l i (store k))"

definition insert_item_end :: "nat \<Rightarrow> nat \<Rightarrow> kernel \<Rightarrow> kernel" where
  "insert_item_end l i = on_store (vListInsertEnd l i)"

subsection \<open>Ready tasks\<close>

definition portRECORD_READY_PRIORITY :: "nat \<Rightarrow> kernel \<Rightarrow> kernel" where
  "portRECORD_READY_PRIORITY p k = k\<lparr>uxTopReadyPriority := uxTopReadyPriority k OR push_bit p 1\<rparr>"

definition portRESET_READY_PRIORITY :: "nat \<Rightarrow> kernel \<Rightarrow> kernel" where
  "portRESET_READY_PRIORITY p k = k\<lparr>uxTopReadyPriority := uxTopReadyPriority k AND NOT (push_bit p 1)\<rparr>"

definition taskRESET_READY_PRIORITY :: "nat \<Rightarrow> kernel \<Rightarrow> kernel" where
  "taskRESET_READY_PRIORITY p k =
     (if listCURRENT_LIST_LENGTH p (store k) = 0 then portRESET_READY_PRIORITY p k else k)"

text \<open>The \<open>clz\<close> instruction.\<close>

definition ucPortCountLeadingZeros :: "u32 \<Rightarrow> nat" where
  "ucPortCountLeadingZeros w = length (takeWhile (\<lambda>n. \<not> bit w n) (rev [0..<32]))"

definition portYIELD :: "kernel \<Rightarrow> kernel" where
  "portYIELD k = k\<lparr>switch_pended := True\<rparr>"

definition prvAddTaskToReadyList :: "nat \<Rightarrow> kernel \<Rightarrow> kernel" where
  "prvAddTaskToReadyList t k =
     insert_item_end (priority k t) (xGenericListItem t) (portRECORD_READY_PRIORITY (priority k t) k)"

definition taskSELECT_HIGHEST_PRIORITY_TASK :: "kernel \<Rightarrow> kernel option" where
  "taskSELECT_HIGHEST_PRIORITY_TASK k =
     (let z = ucPortCountLeadingZeros (uxTopReadyPriority k)
      in if z \<ge> 32 \<or> 31 - z \<ge> configMAX_PRIORITIES then None
         else map_option (\<lambda>(t, st). k\<lparr>store := st, pxCurrentTCB := Some t\<rparr>)
                (listGET_OWNER_OF_NEXT_ENTRY (31 - z) (store k)))"

definition vTaskSwitchContext :: "kernel \<Rightarrow> kernel option" where
  "vTaskSwitchContext k =
     (if uxSchedulerSuspended k \<noteq> 0 then Some (k\<lparr>xYieldPending := True\<rparr>)
      else taskSELECT_HIGHEST_PRIORITY_TASK (k\<lparr>xYieldPending := False\<rparr>))"

subsection \<open>Time\<close>

definition prvResetNextTaskUnblockTime :: "kernel \<Rightarrow> kernel option" where
  "prvResetNextTaskUnblockTime k =
     (if listLIST_IS_EMPTY (pxDelayedTaskList k) (store k)
      then Some (k\<lparr>xNextTaskUnblockTime := portMAX_DELAY\<rparr>)
      else do {
        t \<leftarrow> listGET_OWNER_OF_HEAD_ENTRY (pxDelayedTaskList k) (store k);
        Some (k\<lparr>xNextTaskUnblockTime := listGET_LIST_ITEM_VALUE (xGenericListItem t) (store k)\<rparr>)
      })"

definition taskSWITCH_DELAYED_LISTS :: "kernel \<Rightarrow> kernel option" where
  "taskSWITCH_DELAYED_LISTS k =
     prvResetNextTaskUnblockTime (k\<lparr>pxDelayedTaskList := pxOverflowDelayedTaskList k,
       pxOverflowDelayedTaskList := pxDelayedTaskList k, xNumOfOverflows := xNumOfOverflows k + 1\<rparr>)"

text \<open>The loop over the tasks whose time has come; the result says whether one of them should run.\<close>

partial_function (option) unblock_loop :: "bool \<Rightarrow> kernel \<Rightarrow> (bool \<times> kernel) option" where
  "unblock_loop sw k =
     (if listLIST_IS_EMPTY (pxDelayedTaskList k) (store k)
      then Some (sw, k\<lparr>xNextTaskUnblockTime := portMAX_DELAY\<rparr>)
      else Option.bind (listGET_OWNER_OF_HEAD_ENTRY (pxDelayedTaskList k) (store k)) (\<lambda>t.
        let v = listGET_LIST_ITEM_VALUE (xGenericListItem t) (store k)
        in if xTickCount k < v then Some (sw, k\<lparr>xNextTaskUnblockTime := v\<rparr>)
           else Option.bind (remove_item (xGenericListItem t) k) (\<lambda>(n, k).
             Option.bind
               (if item_container (xEventListItem t) k \<noteq> None
                then map_option snd (remove_item (xEventListItem t) k) else Some k) (\<lambda>k.
                  let k = prvAddTaskToReadyList t k
                  in Option.bind (pxCurrentTCB k) (\<lambda>c.
                       unblock_loop (if priority k t \<ge> priority k c then True else sw) k)))))"

definition xTaskIncrementTick :: "kernel \<Rightarrow> (bool \<times> kernel) option" where
  "xTaskIncrementTick k = do {
     (sw, k) \<leftarrow>
       (if uxSchedulerSuspended k = 0
        then do {
          let k = k\<lparr>xTickCount := xTickCount k + 1\<rparr>;
          k \<leftarrow> (if xTickCount k = 0 then taskSWITCH_DELAYED_LISTS k else Some k);
          (sw, k) \<leftarrow> (if xTickCount k \<ge> xNextTaskUnblockTime k then unblock_loop False k else Some (False, k));
          c \<leftarrow> pxCurrentTCB k;
          Some (if listCURRENT_LIST_LENGTH (priority k c) (store k) > 1 then True else sw, k)
        }
        else Some (False, k\<lparr>uxPendedTicks := uxPendedTicks k + 1\<rparr>));
     Some (if xYieldPending k then True else sw, k)
   }"

definition prvAddCurrentTaskToDelayedList :: "u32 \<Rightarrow> kernel \<Rightarrow> kernel option" where
  "prvAddCurrentTaskToDelayedList xTimeToWake k = do {
     c \<leftarrow> pxCurrentTCB k;
     let k = on_store (listSET_LIST_ITEM_VALUE (xGenericListItem c) xTimeToWake) k;
     if xTimeToWake < xTickCount k
     then insert_item (pxOverflowDelayedTaskList k) (xGenericListItem c) k
     else do {
       k \<leftarrow> insert_item (pxDelayedTaskList k) (xGenericListItem c) k;
       Some (if xTimeToWake < xNextTaskUnblockTime k then k\<lparr>xNextTaskUnblockTime := xTimeToWake\<rparr> else k)
     }
   }"

definition vTaskSetTimeOutState :: "kernel \<Rightarrow> time_out" where
  "vTaskSetTimeOutState k = \<lparr>xOverflowCount = xNumOfOverflows k, xTimeOnEntering = xTickCount k\<rparr>"

text \<open>Whether the time has run out, and the time-out and the number of ticks left afterwards.\<close>

definition xTaskCheckForTimeOut :: "time_out \<Rightarrow> u32 \<Rightarrow> kernel \<Rightarrow> bool \<times> time_out \<times> u32" where
  "xTaskCheckForTimeOut pxTimeOut xTicksToWait k =
     (if xTicksToWait = portMAX_DELAY then (False, pxTimeOut, xTicksToWait)
      else if xNumOfOverflows k \<noteq> xOverflowCount pxTimeOut \<and> xTickCount k \<ge> xTimeOnEntering pxTimeOut
      then (True, pxTimeOut, xTicksToWait)
      else if xTickCount k - xTimeOnEntering pxTimeOut < xTicksToWait
      then (False, vTaskSetTimeOutState k, xTicksToWait - (xTickCount k - xTimeOnEntering pxTimeOut))
      else (True, pxTimeOut, xTicksToWait))"

subsection \<open>Suspending the scheduler\<close>

definition vTaskSuspendAll :: "kernel \<Rightarrow> kernel" where
  "vTaskSuspendAll k = k\<lparr>uxSchedulerSuspended := uxSchedulerSuspended k + 1\<rparr>"

partial_function (option) resume_pending :: "kernel \<Rightarrow> kernel option" where
  "resume_pending k =
     (if listLIST_IS_EMPTY xPendingReadyList (store k) then Some k
      else Option.bind (listGET_OWNER_OF_HEAD_ENTRY xPendingReadyList (store k)) (\<lambda>t.
        Option.bind (remove_item (xEventListItem t) k) (\<lambda>(_, k).
          Option.bind (remove_item (xGenericListItem t) k) (\<lambda>(_, k).
            let k = prvAddTaskToReadyList t k
            in Option.bind (pxCurrentTCB k) (\<lambda>c.
                 resume_pending (if priority k t \<ge> priority k c then k\<lparr>xYieldPending := True\<rparr> else k))))))"

partial_function (option) resume_ticks :: "kernel \<Rightarrow> kernel option" where
  "resume_ticks k =
     (if uxPendedTicks k > 0
      then Option.bind (xTaskIncrementTick k) (\<lambda>(sw, k).
        let k = (if sw then k\<lparr>xYieldPending := True\<rparr> else k)
        in resume_ticks (k\<lparr>uxPendedTicks := uxPendedTicks k - 1\<rparr>))
      else Some k)"

definition xTaskResumeAll :: "kernel \<Rightarrow> (bool \<times> kernel) option" where
  "xTaskResumeAll k =
     (let k = k\<lparr>uxSchedulerSuspended := uxSchedulerSuspended k - 1\<rparr>
      in if uxSchedulerSuspended k = 0 \<and> uxCurrentNumberOfTasks k > 0
         then do {
           k \<leftarrow> resume_pending k;
           k \<leftarrow> resume_ticks k;
           Some (if xYieldPending k then (True, portYIELD k) else (False, k))
         }
         else Some (False, k))"

subsection \<open>Blocking\<close>

text \<open>The running task leaves its ready list.\<close>

definition leave_ready :: "kernel \<Rightarrow> kernel option" where
  "leave_ready k = do {
     c \<leftarrow> pxCurrentTCB k;
     (n, k) \<leftarrow> remove_item (xGenericListItem c) k;
     Some (if n = 0 then portRESET_READY_PRIORITY (priority k c) k else k)
   }"

definition vTaskDelay :: "u32 \<Rightarrow> kernel \<Rightarrow> kernel option" where
  "vTaskDelay xTicksToDelay k = do {
     (xAlreadyYielded, k) \<leftarrow>
       (if xTicksToDelay > 0
        then do {
          let k = vTaskSuspendAll k;
          let xTimeToWake = xTickCount k + xTicksToDelay;
          k \<leftarrow> leave_ready k;
          k \<leftarrow> prvAddCurrentTaskToDelayedList xTimeToWake k;
          xTaskResumeAll k
        }
        else Some (False, k));
     Some (if \<not> xAlreadyYielded then portYIELD k else k)
   }"

text \<open>The result includes the new value of the previous wake time.\<close>

definition vTaskDelayUntil :: "u32 \<Rightarrow> u32 \<Rightarrow> kernel \<Rightarrow> (u32 \<times> kernel) option" where
  "vTaskDelayUntil pxPreviousWakeTime xTimeIncrement k = do {
     let k = vTaskSuspendAll k;
     let xConstTickCount = xTickCount k;
     let xTimeToWake = pxPreviousWakeTime + xTimeIncrement;
     let xShouldDelay =
       (if xConstTickCount < pxPreviousWakeTime
        then xTimeToWake < pxPreviousWakeTime \<and> xTimeToWake > xConstTickCount
        else xTimeToWake < pxPreviousWakeTime \<or> xTimeToWake > xConstTickCount);
     k \<leftarrow> (if xShouldDelay
           then do { k \<leftarrow> leave_ready k; prvAddCurrentTaskToDelayedList xTimeToWake k }
           else Some k);
     (xAlreadyYielded, k) \<leftarrow> xTaskResumeAll k;
     Some (xTimeToWake, if \<not> xAlreadyYielded then portYIELD k else k)
   }"

text \<open>The running task waits for at most some ticks, or without limit in the suspended list.\<close>

definition wait_ticks :: "u32 \<Rightarrow> kernel \<Rightarrow> kernel option" where
  "wait_ticks xTicksToWait k =
     (if xTicksToWait = portMAX_DELAY
      then do { c \<leftarrow> pxCurrentTCB k; Some (insert_item_end xSuspendedTaskList (xGenericListItem c) k) }
      else prvAddCurrentTaskToDelayedList (xTickCount k + xTicksToWait) k)"

definition vTaskPlaceOnEventList :: "nat \<Rightarrow> u32 \<Rightarrow> kernel \<Rightarrow> kernel option" where
  "vTaskPlaceOnEventList pxEventList xTicksToWait k = do {
     c \<leftarrow> pxCurrentTCB k;
     k \<leftarrow> insert_item pxEventList (xEventListItem c) k;
     k \<leftarrow> leave_ready k;
     wait_ticks xTicksToWait k
   }"

definition vTaskPlaceOnUnorderedEventList :: "nat \<Rightarrow> u32 \<Rightarrow> u32 \<Rightarrow> kernel \<Rightarrow> kernel option" where
  "vTaskPlaceOnUnorderedEventList pxEventList xValue xTicksToWait k = do {
     c \<leftarrow> pxCurrentTCB k;
     let k = on_store (listSET_LIST_ITEM_VALUE (xEventListItem c) (xValue OR taskEVENT_LIST_ITEM_VALUE_IN_USE)) k;
     let k = insert_item_end pxEventList (xEventListItem c) k;
     k \<leftarrow> leave_ready k;
     wait_ticks xTicksToWait k
   }"

subsection \<open>Unblocking\<close>

text \<open>A task is taken out of the list its generic item is in and made ready.\<close>

definition make_ready :: "nat \<Rightarrow> kernel \<Rightarrow> kernel option" where
  "make_ready t k = do { (_, k) \<leftarrow> remove_item (xGenericListItem t) k; Some (prvAddTaskToReadyList t k) }"

definition xTaskRemoveFromEventList :: "nat \<Rightarrow> kernel \<Rightarrow> (bool \<times> kernel) option" where
  "xTaskRemoveFromEventList pxEventList k = do {
     t \<leftarrow> listGET_OWNER_OF_HEAD_ENTRY pxEventList (store k);
     (_, k) \<leftarrow> remove_item (xEventListItem t) k;
     k \<leftarrow> (if uxSchedulerSuspended k = 0 then make_ready t k
           else Some (insert_item_end xPendingReadyList (xEventListItem t) k));
     c \<leftarrow> pxCurrentTCB k;
     Some (if priority k t > priority k c then (True, k\<lparr>xYieldPending := True\<rparr>) else (False, k))
   }"

definition xTaskRemoveFromUnorderedEventList :: "nat \<Rightarrow> u32 \<Rightarrow> kernel \<Rightarrow> (bool \<times> kernel) option" where
  "xTaskRemoveFromUnorderedEventList pxEventListItem xValue k = do {
     let k = on_store (listSET_LIST_ITEM_VALUE pxEventListItem (xValue OR taskEVENT_LIST_ITEM_VALUE_IN_USE)) k;
     let t = listGET_LIST_ITEM_OWNER pxEventListItem (store k);
     (_, k) \<leftarrow> remove_item pxEventListItem k;
     k \<leftarrow> make_ready t k;
     c \<leftarrow> pxCurrentTCB k;
     Some (if priority k t > priority k c then (True, k\<lparr>xYieldPending := True\<rparr>) else (False, k))
   }"

definition vTaskMissedYield :: "kernel \<Rightarrow> kernel" where
  "vTaskMissedYield k = k\<lparr>xYieldPending := True\<rparr>"

definition uxTaskResetEventItemValue :: "kernel \<Rightarrow> (u32 \<times> kernel) option" where
  "uxTaskResetEventItemValue k = do {
     c \<leftarrow> pxCurrentTCB k;
     Some (listGET_LIST_ITEM_VALUE (xEventListItem c) (store k),
       on_store (listSET_LIST_ITEM_VALUE (xEventListItem c) (of_nat configMAX_PRIORITIES - of_nat (priority k c))) k)
   }"

subsection \<open>Suspending, resuming and deleting tasks\<close>

text \<open>A null handle stands for the running task.\<close>

definition prvGetTCBFromHandle :: "nat option \<Rightarrow> kernel \<Rightarrow> nat option" where
  "prvGetTCBFromHandle h k = (case h of None \<Rightarrow> pxCurrentTCB k | Some t \<Rightarrow> Some t)"

text \<open>A task leaves the list of its state, and the list of its event if it waits for one.\<close>

definition leave_lists :: "nat \<Rightarrow> kernel \<Rightarrow> kernel option" where
  "leave_lists t k = do {
     (n, k) \<leftarrow> remove_item (xGenericListItem t) k;
     let k = (if n = 0 then taskRESET_READY_PRIORITY (priority k t) k else k);
     if item_container (xEventListItem t) k \<noteq> None
     then map_option snd (remove_item (xEventListItem t) k) else Some k
   }"

definition vTaskSuspend :: "nat option \<Rightarrow> kernel \<Rightarrow> kernel option" where
  "vTaskSuspend xTaskToSuspend k = do {
     t \<leftarrow> prvGetTCBFromHandle xTaskToSuspend k;
     k \<leftarrow> leave_lists t k;
     let k = insert_item_end xSuspendedTaskList (xGenericListItem t) k;
     if Some t = pxCurrentTCB k
     then (if xSchedulerRunning k then Some (portYIELD k)
           else if listCURRENT_LIST_LENGTH xSuspendedTaskList (store k) = uxCurrentNumberOfTasks k
           then Some (k\<lparr>pxCurrentTCB := None\<rparr>)
           else vTaskSwitchContext k)
     else (if xSchedulerRunning k then prvResetNextTaskUnblockTime k else Some k)
   }"

definition prvTaskIsTaskSuspended :: "nat \<Rightarrow> kernel \<Rightarrow> bool" where
  "prvTaskIsTaskSuspended t k =
     (listIS_CONTAINED_WITHIN xSuspendedTaskList (xGenericListItem t) (store k)
      \<and> \<not> listIS_CONTAINED_WITHIN xPendingReadyList (xEventListItem t) (store k)
      \<and> item_container (xEventListItem t) k = None)"

definition vTaskResume :: "nat option \<Rightarrow> kernel \<Rightarrow> kernel option" where
  "vTaskResume xTaskToResume k =
     (case xTaskToResume of
        None \<Rightarrow> Some k
      | Some t \<Rightarrow>
          if Some t \<noteq> pxCurrentTCB k \<and> prvTaskIsTaskSuspended t k
          then do {
            k \<leftarrow> make_ready t k;
            c \<leftarrow> pxCurrentTCB k;
            Some (if priority k t \<ge> priority k c then portYIELD k else k)
          }
          else Some k)"

definition xTaskResumeFromISR :: "nat \<Rightarrow> kernel \<Rightarrow> (bool \<times> kernel) option" where
  "xTaskResumeFromISR t k =
     (if prvTaskIsTaskSuspended t k
      then if uxSchedulerSuspended k = 0
           then do {
             c \<leftarrow> pxCurrentTCB k;
             k' \<leftarrow> make_ready t k;
             Some (priority k t \<ge> priority k c, k')
           }
           else Some (False, insert_item_end xPendingReadyList (xEventListItem t) k)
      else Some (False, k))"

definition vTaskDelete :: "nat option \<Rightarrow> kernel \<Rightarrow> kernel option" where
  "vTaskDelete xTaskToDelete k = do {
     t \<leftarrow> prvGetTCBFromHandle xTaskToDelete k;
     k \<leftarrow> leave_lists t k;
     let k = insert_item_end xTasksWaitingTermination (xGenericListItem t) k;
     let k = k\<lparr>uxTasksDeleted := uxTasksDeleted k + 1\<rparr>;
     if xSchedulerRunning k
     then (if Some t = pxCurrentTCB k then Some (portYIELD k) else prvResetNextTaskUnblockTime k)
     else Some k
   }"

text \<open>One pass of the loop by which the idle task frees deleted tasks; the task that is freed.\<close>

definition free_deleted_task :: "kernel \<Rightarrow> (nat option \<times> kernel) option" where
  "free_deleted_task k = do {
     let k = vTaskSuspendAll k;
     let xListIsEmpty = listLIST_IS_EMPTY xTasksWaitingTermination (store k);
     (_, k) \<leftarrow> xTaskResumeAll k;
     if \<not> xListIsEmpty
     then do {
       t \<leftarrow> listGET_OWNER_OF_HEAD_ENTRY xTasksWaitingTermination (store k);
       (_, k) \<leftarrow> remove_item (xGenericListItem t) k;
       Some (Some t, k\<lparr>uxCurrentNumberOfTasks := uxCurrentNumberOfTasks k - 1, uxTasksDeleted := uxTasksDeleted k - 1\<rparr>)
     }
     else Some (None, k)
   }"

partial_function (option) prvCheckTasksWaitingTermination :: "kernel \<Rightarrow> kernel option" where
  "prvCheckTasksWaitingTermination k =
     (if uxTasksDeleted k > 0
      then Option.bind (free_deleted_task k) (\<lambda>(_, k). prvCheckTasksWaitingTermination k)
      else Some k)"

subsection \<open>Creating tasks\<close>

definition prvInitialiseTaskLists :: "kernel \<Rightarrow> kernel" where
  "prvInitialiseTaskLists k =
     (let st = fold vListInitialise [0..<configMAX_PRIORITIES] (store k);
          st = vListInitialise xDelayedTaskList1 st;
          st = vListInitialise xDelayedTaskList2 st;
          st = vListInitialise xPendingReadyList st;
          st = vListInitialise xTasksWaitingTermination st;
          st = vListInitialise xSuspendedTaskList st
      in k\<lparr>store := st, pxDelayedTaskList := xDelayedTaskList1, pxOverflowDelayedTaskList := xDelayedTaskList2\<rparr>)"

definition prvInitialiseTCBVariables :: "nat \<Rightarrow> nat \<Rightarrow> kernel \<Rightarrow> kernel" where
  "prvInitialiseTCBVariables t p k =
     (let p = (if p \<ge> configMAX_PRIORITIES then configMAX_PRIORITIES - 1 else p);
          k = upd_tcb t (\<lambda>x. x\<lparr>uxPriority := p, uxBasePriority := p, uxMutexesHeld := 0\<rparr>) k;
          k = on_store (vListInitialiseItem (xGenericListItem t)) k;
          k = on_store (vListInitialiseItem (xEventListItem t)) k;
          k = on_store (listSET_LIST_ITEM_OWNER (xGenericListItem t) t) k;
          k = on_store (listSET_LIST_ITEM_VALUE (xEventListItem t) (of_nat configMAX_PRIORITIES - of_nat p)) k;
          k = on_store (listSET_LIST_ITEM_OWNER (xEventListItem t) t) k
      in upd_tcb t (\<lambda>x. x\<lparr>ulNotifiedValue := 0, eNotifyState := eNotWaitingNotification\<rparr>) k)"

text \<open>The part of \<open>xTaskGenericCreate\<close> behind the allocation of task \<open>t\<close> and the set-up of its stack.\<close>

definition xTaskGenericCreate :: "nat \<Rightarrow> nat \<Rightarrow> kernel \<Rightarrow> kernel option" where
  "xTaskGenericCreate t p k = do {
     let k = prvInitialiseTCBVariables t p k;
     let k = k\<lparr>uxCurrentNumberOfTasks := uxCurrentNumberOfTasks k + 1\<rparr>;
     let k =
       (case pxCurrentTCB k of
          None \<Rightarrow>
            let k = k\<lparr>pxCurrentTCB := Some t\<rparr>
            in if uxCurrentNumberOfTasks k = 1 then prvInitialiseTaskLists k else k
        | Some c \<Rightarrow> if \<not> xSchedulerRunning k \<and> priority k c \<le> p then k\<lparr>pxCurrentTCB := Some t\<rparr> else k);
     let k = prvAddTaskToReadyList t k;
     c \<leftarrow> pxCurrentTCB k;
     Some (if xSchedulerRunning k \<and> priority k c < p then portYIELD k else k)
   }"

text \<open>\<open>vTaskStartScheduler\<close> once the idle task has been created and until the port takes over.\<close>

definition start_scheduler :: "kernel \<Rightarrow> kernel" where
  "start_scheduler k = k\<lparr>xNextTaskUnblockTime := portMAX_DELAY, xSchedulerRunning := True, xTickCount := 0\<rparr>"

subsection \<open>Priorities\<close>

definition uxTaskPriorityGet :: "nat option \<Rightarrow> kernel \<Rightarrow> nat option" where
  "uxTaskPriorityGet h k = map_option (priority k) (prvGetTCBFromHandle h k)"

definition event_value :: "nat \<Rightarrow> u32" where
  "event_value p = of_nat configMAX_PRIORITIES - of_nat p"

definition set_event_value :: "nat \<Rightarrow> nat \<Rightarrow> kernel \<Rightarrow> kernel" where
  "set_event_value t p k =
     (if listGET_LIST_ITEM_VALUE (xEventListItem t) (store k) AND taskEVENT_LIST_ITEM_VALUE_IN_USE = 0
      then on_store (listSET_LIST_ITEM_VALUE (xEventListItem t) (event_value p)) k else k)"

definition vTaskPrioritySet :: "nat option \<Rightarrow> nat \<Rightarrow> kernel \<Rightarrow> kernel option" where
  "vTaskPrioritySet xTask uxNewPriority k = do {
     let p = (if uxNewPriority \<ge> configMAX_PRIORITIES then configMAX_PRIORITIES - 1 else uxNewPriority);
     t \<leftarrow> prvGetTCBFromHandle xTask k;
     c \<leftarrow> pxCurrentTCB k;
     let base = uxBasePriority (tcbs k t);
     if base = p then Some k
     else do {
       let xYieldRequired = (if p > base then t \<noteq> c \<and> p \<ge> priority k c else t = c);
       let used = priority k t;
       let k = (if base = used then upd_tcb t (\<lambda>x. x\<lparr>uxPriority := p\<rparr>) k else k);
       let k = upd_tcb t (\<lambda>x. x\<lparr>uxBasePriority := p\<rparr>) k;
       let k = set_event_value t p k;
       k \<leftarrow> (if listIS_CONTAINED_WITHIN used (xGenericListItem t) (store k)
             then do {
               (n, k) \<leftarrow> remove_item (xGenericListItem t) k;
               let k = (if n = 0 then portRESET_READY_PRIORITY used k else k);
               Some (prvAddTaskToReadyList t k)
             }
             else Some k);
       Some (if xYieldRequired then portYIELD k else k)
     }
   }"

definition vTaskPriorityInherit :: "nat option \<Rightarrow> kernel \<Rightarrow> kernel option" where
  "vTaskPriorityInherit pxMutexHolder k =
     (case pxMutexHolder of
        None \<Rightarrow> Some k
      | Some t \<Rightarrow> do {
          c \<leftarrow> pxCurrentTCB k;
          if priority k t < priority k c
          then do {
            let k = set_event_value t (priority k c) k;
            if listIS_CONTAINED_WITHIN (priority k t) (xGenericListItem t) (store k)
            then do {
              (n, k) \<leftarrow> remove_item (xGenericListItem t) k;
              let k = (if n = 0 then taskRESET_READY_PRIORITY (priority k t) k else k);
              let k = upd_tcb t (\<lambda>x. x\<lparr>uxPriority := priority k c\<rparr>) k;
              Some (prvAddTaskToReadyList t k)
            }
            else Some (upd_tcb t (\<lambda>x. x\<lparr>uxPriority := priority k c\<rparr>) k)
          }
          else Some k
        })"

definition xTaskPriorityDisinherit :: "nat option \<Rightarrow> kernel \<Rightarrow> (bool \<times> kernel) option" where
  "xTaskPriorityDisinherit pxMutexHolder k =
     (case pxMutexHolder of
        None \<Rightarrow> Some (False, k)
      | Some t \<Rightarrow>
          let k = upd_tcb t (\<lambda>x. x\<lparr>uxMutexesHeld := uxMutexesHeld x - 1\<rparr>) k
          in if priority k t \<noteq> uxBasePriority (tcbs k t) \<and> uxMutexesHeld (tcbs k t) = 0
             then do {
               (n, k) \<leftarrow> remove_item (xGenericListItem t) k;
               let k = (if n = 0 then taskRESET_READY_PRIORITY (priority k t) k else k);
               let k = upd_tcb t (\<lambda>x. x\<lparr>uxPriority := uxBasePriority x\<rparr>) k;
               let k = on_store (listSET_LIST_ITEM_VALUE (xEventListItem t) (event_value (priority k t))) k;
               Some (True, prvAddTaskToReadyList t k)
             }
             else Some (False, k))"

definition pvTaskIncrementMutexHeldCount :: "kernel \<Rightarrow> nat option \<times> kernel" where
  "pvTaskIncrementMutexHeldCount k =
     (pxCurrentTCB k,
      case pxCurrentTCB k of None \<Rightarrow> k | Some c \<Rightarrow> upd_tcb c (\<lambda>x. x\<lparr>uxMutexesHeld := uxMutexesHeld x + 1\<rparr>) k)"

subsection \<open>Notifications\<close>

text \<open>
  Waiting has two critical sections: before the first the task may be found to be notified
  already; otherwise it blocks, and the second runs when it is scheduled again.
\<close>

definition block_for_notification :: "nat \<Rightarrow> u32 \<Rightarrow> kernel \<Rightarrow> kernel option" where
  "block_for_notification c xTicksToWait k = do {
     let k = upd_tcb c (\<lambda>x. x\<lparr>eNotifyState := eWaitingNotification\<rparr>) k;
     if xTicksToWait > 0
     then do { k \<leftarrow> leave_ready k; k \<leftarrow> wait_ticks xTicksToWait k; Some (portYIELD k) }
     else Some k
   }"

definition ulTaskNotifyTake_wait :: "u32 \<Rightarrow> kernel \<Rightarrow> kernel option" where
  "ulTaskNotifyTake_wait xTicksToWait k = do {
     c \<leftarrow> pxCurrentTCB k;
     if ulNotifiedValue (tcbs k c) = 0 then block_for_notification c xTicksToWait k else Some k
   }"

definition ulTaskNotifyTake_end :: "bool \<Rightarrow> kernel \<Rightarrow> (u32 \<times> kernel) option" where
  "ulTaskNotifyTake_end xClearCountOnExit k = do {
     c \<leftarrow> pxCurrentTCB k;
     let r = ulNotifiedValue (tcbs k c);
     let k = (if r \<noteq> 0 then upd_tcb c (\<lambda>x. x\<lparr>ulNotifiedValue := if xClearCountOnExit then 0 else ulNotifiedValue x - 1\<rparr>) k
              else k);
     Some (r, upd_tcb c (\<lambda>x. x\<lparr>eNotifyState := eNotWaitingNotification\<rparr>) k)
   }"

definition xTaskNotifyWait_wait :: "u32 \<Rightarrow> u32 \<Rightarrow> kernel \<Rightarrow> kernel option" where
  "xTaskNotifyWait_wait ulBitsToClearOnEntry xTicksToWait k = do {
     c \<leftarrow> pxCurrentTCB k;
     if eNotifyState (tcbs k c) \<noteq> eNotified
     then block_for_notification c xTicksToWait
       (upd_tcb c (\<lambda>x. x\<lparr>ulNotifiedValue := ulNotifiedValue x AND NOT ulBitsToClearOnEntry\<rparr>) k)
     else Some k
   }"

text \<open>Whether a notification has come, and its value.\<close>

definition xTaskNotifyWait_end :: "u32 \<Rightarrow> kernel \<Rightarrow> (bool \<times> u32 \<times> kernel) option" where
  "xTaskNotifyWait_end ulBitsToClearOnExit k = do {
     c \<leftarrow> pxCurrentTCB k;
     let v = ulNotifiedValue (tcbs k c);
     let got = (eNotifyState (tcbs k c) \<noteq> eWaitingNotification);
     let k = (if got then upd_tcb c (\<lambda>x. x\<lparr>ulNotifiedValue := ulNotifiedValue x AND NOT ulBitsToClearOnExit\<rparr>) k else k);
     Some (got, v, upd_tcb c (\<lambda>x. x\<lparr>eNotifyState := eNotWaitingNotification\<rparr>) k)
   }"

fun notify_value :: "eNotifyAction \<Rightarrow> eNotifyValue \<Rightarrow> u32 \<Rightarrow> u32 \<Rightarrow> bool \<times> u32" where
  "notify_value eSetBits s v old = (True, old OR v)"
| "notify_value eIncrement s v old = (True, old + 1)"
| "notify_value eSetValueWithOverwrite s v old = (True, v)"
| "notify_value eSetValueWithoutOverwrite s v old = (if s \<noteq> eNotified then (True, v) else (False, old))"
| "notify_value eNoAction s v old = (True, old)"

definition xTaskGenericNotify :: "nat \<Rightarrow> u32 \<Rightarrow> eNotifyAction \<Rightarrow> kernel \<Rightarrow> (bool \<times> u32 \<times> kernel) option" where
  "xTaskGenericNotify t ulValue eAction k = do {
     let old = ulNotifiedValue (tcbs k t);
     let s = eNotifyState (tcbs k t);
     let (r, v) = notify_value eAction s ulValue old;
     let k = upd_tcb t (\<lambda>x. x\<lparr>eNotifyState := eNotified, ulNotifiedValue := v\<rparr>) k;
     k \<leftarrow> (if s = eWaitingNotification
           then do {
             k \<leftarrow> make_ready t k;
             c \<leftarrow> pxCurrentTCB k;
             Some (if priority k t > priority k c then portYIELD k else k)
           }
           else Some k);
     Some (r, old, k)
   }"

text \<open>From an interrupt; the result includes whether a task of higher priority was woken.\<close>

definition wake_notified :: "nat \<Rightarrow> kernel \<Rightarrow> (bool \<times> kernel) option" where
  "wake_notified t k = do {
     k \<leftarrow> (if uxSchedulerSuspended k = 0 then make_ready t k
           else Some (insert_item_end xPendingReadyList (xEventListItem t) k));
     c \<leftarrow> pxCurrentTCB k;
     Some (priority k t > priority k c, k)
   }"

definition xTaskGenericNotifyFromISR :: "nat \<Rightarrow> u32 \<Rightarrow> eNotifyAction \<Rightarrow> kernel \<Rightarrow> (bool \<times> u32 \<times> bool \<times> kernel) option" where
  "xTaskGenericNotifyFromISR t ulValue eAction k = do {
     let old = ulNotifiedValue (tcbs k t);
     let s = eNotifyState (tcbs k t);
     let (r, v) = notify_value eAction s ulValue old;
     let k = upd_tcb t (\<lambda>x. x\<lparr>eNotifyState := eNotified, ulNotifiedValue := v\<rparr>) k;
     (woken, k) \<leftarrow> (if s = eWaitingNotification then wake_notified t k else Some (False, k));
     Some (r, old, woken, k)
   }"

definition vTaskNotifyGiveFromISR :: "nat \<Rightarrow> kernel \<Rightarrow> (bool \<times> kernel) option" where
  "vTaskNotifyGiveFromISR t k = do {
     let s = eNotifyState (tcbs k t);
     let k = upd_tcb t (\<lambda>x. x\<lparr>eNotifyState := eNotified, ulNotifiedValue := ulNotifiedValue x + 1\<rparr>) k;
     if s = eWaitingNotification then wake_notified t k else Some (False, k)
   }"

definition xTaskNotifyStateClear :: "nat option \<Rightarrow> kernel \<Rightarrow> (bool \<times> kernel) option" where
  "xTaskNotifyStateClear h k = do {
     t \<leftarrow> prvGetTCBFromHandle h k;
     Some (if eNotifyState (tcbs k t) = eNotified
           then (True, upd_tcb t (\<lambda>x. x\<lparr>eNotifyState := eNotWaitingNotification\<rparr>) k) else (False, k))
   }"

end
