(* ===== verification/RtosTaskLists.thy ===== *)
theory RtosTaskLists
  imports RtosTasks
begin

text \<open>
  Towards the invariant of the scheduler of theory \<open>RtosTasks\<close>: how its operations change the
  lists of the kernel, what holds between two calls (\<open>kernel_inv\<close>, \<open>future\<close>, \<open>paired\<close>), the delayed
  tasks and the choice of the next one, the loop of the tick, and the loops by which a scheduler
  that was suspended catches up. The \<open>partial_function\<close> loops are shown to end.
\<close>

subsection \<open>The lists of the kernel\<close>

text \<open>
  List \<open>l\<close> holds the items \<open>X l\<close>. The items of a task with an item in a list are owned by the
  task, and there are fewer than \<open>2 ^ 30\<close> tasks.
\<close>

definition proper :: "list_store \<Rightarrow> nat \<Rightarrow> bool" where
  "proper st t \<longleftrightarrow> t < 2 ^ 30 \<and> pvOwner (items st (Item (xGenericListItem t))) = t
     \<and> pvOwner (items st (Item (xEventListItem t))) = t"

definition has_lists :: "kernel \<Rightarrow> (nat \<Rightarrow> nat list) \<Rightarrow> bool" where
  "has_lists k X \<longleftrightarrow>
     (\<forall>l. \<exists>c. list_rep (store k) l (X l) c)
     \<and> (\<forall>l. \<forall>x\<in>set (X l). proper (store k) (x div 2))"

abbreviation item_value :: "kernel \<Rightarrow> nat \<Rightarrow> u32" where
  "item_value k i \<equiv> value_of (store k) (Item i)"

lemma has_lists_container:
  "has_lists k X \<Longrightarrow> container_of (store k) (Item i) = Some l \<longleftrightarrow> i \<in> set (X l)"
  unfolding has_lists_def list_rep_def by metis

lemma has_lists_free:
  "has_lists k X \<Longrightarrow> container_of (store k) (Item i) = None \<longleftrightarrow> (\<forall>l. i \<notin> set (X l))"
  using has_lists_container [of k X i] by (metis not_None_eq)

lemma has_lists_distinct: "has_lists k X \<Longrightarrow> distinct (X l)"
  unfolding has_lists_def list_rep_def by blast

lemma has_lists_unique: "has_lists k X \<Longrightarrow> i \<in> set (X l) \<Longrightarrow> i \<in> set (X m) \<Longrightarrow> l = m"
  using has_lists_container [of k X i] by (metis option.inject)

lemma proper_less: "proper st (x div 2) \<Longrightarrow> x < 2 ^ 31"
  unfolding proper_def by (auto simp: div_less_iff_less_mult)

lemma has_lists_proper: "has_lists k X \<Longrightarrow> x \<in> set (X l) \<Longrightarrow> proper (store k) (x div 2)"
  unfolding has_lists_def by blast

lemma has_lists_length:
  assumes "has_lists k X"
  shows "length (X l) \<le> 2 ^ 31"
  using has_lists_proper [OF assms] proper_less
  by (intro distinct_below [OF has_lists_distinct [OF assms, of l]]) blast

lemma has_lists_number: "has_lists k X \<Longrightarrow> number_of (store k) l = of_nat (length (X l))"
  unfolding has_lists_def list_rep_def by blast

lemma of_nat_0_iff_32: "n < 2 ^ 32 \<Longrightarrow> (of_nat n :: u32) = 0 \<longleftrightarrow> n = 0"
  by (auto simp: word_of_nat_eq_0_iff dest: dvd_imp_le)

lemma has_lists_empty: "has_lists k X \<Longrightarrow> listLIST_IS_EMPTY l (store k) \<longleftrightarrow> X l = []"
  using has_lists_length [of k X l] has_lists_number [of k X l] of_nat_0_iff_32 [of "length (X l)"]
  by (simp add: listLIST_IS_EMPTY_def)

lemma has_lists_head:
  assumes "has_lists k X" "X l = x # xs"
  shows "listGET_OWNER_OF_HEAD_ENTRY l (store k) = Some (pvOwner (items (store k) (Item x)))"
proof -
  obtain c where "list_rep (store k) l (x # xs) c" using assms unfolding has_lists_def by metis
  then show ?thesis
    by (simp add: list_rep_def listGET_OWNER_OF_HEAD_ENTRY_def owner_at_def)
qed

lemma has_lists_store: "has_lists (k\<lparr>store := st\<rparr>) X \<Longrightarrow> store k' = st \<Longrightarrow> has_lists k' X"
  by (simp add: has_lists_def)

text \<open>When one list has changed and the others and all owners have not.\<close>

lemma has_lists_change:
  assumes "has_lists k X" "list_rep st l ys c" "\<And>x. x \<in> set ys \<Longrightarrow> proper (store k) (x div 2)"
    and "\<And>m zs j. m \<noteq> l \<Longrightarrow> list_rep (store k) m zs j \<Longrightarrow> list_rep st m zs j"
    and "\<And>x. pvOwner (items st x) = pvOwner (items (store k) x)"
  shows "has_lists (k\<lparr>store := st\<rparr>) (X(l := ys))"
proof -
  have "\<exists>c. list_rep st m ((X(l := ys)) m) c" for m
    using assms(1,2,4) unfolding has_lists_def by (cases "m = l") (auto, metis)
  moreover have "proper st = proper (store k)"
    using assms(5) by (simp add: proper_def fun_eq_iff)
  ultimately show ?thesis using assms(1,3) unfolding has_lists_def by auto
qed

lemma remove_item_lists:
  assumes "has_lists k X" "i \<in> set (X l)"
  shows "\<exists>st. remove_item i k = Some (of_nat (length (X l) - 1), k\<lparr>store := st\<rparr>)
     \<and> has_lists (k\<lparr>store := st\<rparr>) (X(l := remove1 i (X l))) \<and> value_of st = value_of (store k)
     \<and> (\<forall>x. pvOwner (items st x) = pvOwner (items (store k) x))"
proof -
  obtain c where rep: "list_rep (store k) l (X l) c" using assms(1) unfolding has_lists_def by blast
  obtain n where n: "n < length (X l)" "i = X l ! n" using assms(2) by (metis in_set_conv_nth)
  have dist: "distinct (X l)" by (rule has_lists_distinct [OF assms(1)])
  have ys: "take n (X l) @ drop (Suc n) (X l) = remove1 i (X l)"
  proof -
    have "X l = take n (X l) @ i # drop (Suc n) (X l)" using n by (simp add: id_take_nth_drop)
    moreover have "i \<notin> set (take n (X l))"
      using n dist by (simp add: in_set_conv_nth nth_eq_iff_index_eq)
    ultimately show ?thesis by (metis remove1.simps(2) remove1_append)
  qed
  obtain st c' where st: "uxListRemove i (store k) = Some (of_nat (length (X l) - 1), st)"
      "list_rep st l (remove1 i (X l)) c'" "value_of st = value_of (store k)"
      "\<forall>m ys j. m \<noteq> l \<longrightarrow> list_rep (store k) m ys j \<longrightarrow> list_rep st m ys j"
      "\<forall>x. pvOwner (items st x) = pvOwner (items (store k) x)"
    using uxListRemove_rep [OF rep n] unfolding ys by blast
  have "proper (store k) (x div 2)" if "x \<in> set (remove1 i (X l))" for x
    using has_lists_proper [OF assms(1), of x l] that set_remove1_subset [of i "X l"] by blast
  then show ?thesis
    using has_lists_change [OF assms(1) st(2)] st by (auto simp: remove_item_def)
qed

lemma insert_item_end_lists:
  assumes "has_lists k X" "\<forall>l. i \<notin> set (X l)" "proper (store k) (i div 2)"
  shows "\<exists>st n. insert_item_end l i k = k\<lparr>store := st\<rparr>
     \<and> has_lists (k\<lparr>store := st\<rparr>) (X(l := insert_at n i (X l))) \<and> value_of st = value_of (store k)
     \<and> (\<forall>x. pvOwner (items st x) = pvOwner (items (store k) x))"
proof -
  obtain c where rep: "list_rep (store k) l (X l) c" using assms(1) unfolding has_lists_def by blast
  have free: "container_of (store k) (Item i) = None" using has_lists_free [OF assms(1)] assms(2) by simp
  have len: "Suc (length (X l)) < 2 ^ 32" using has_lists_length [OF assms(1), of l] by simp
  let ?st = "vListInsertEnd l i (store k)"
  have owner: "pvOwner (items ?st x) = pvOwner (items (store k) x)" for x
    by (simp add: vListInsertEnd_def Let_def set_next_def set_previous_def set_container_def set_number_def)
  have vals: "value_of ?st = value_of (store k)"
    by (simp add: vListInsertEnd_def Let_def set_next_def set_previous_def set_container_def set_number_def fun_eq_iff)
  have "proper (store k) (x div 2)" if "x \<in> set (insert_at (before_cursor (X l) c) i (X l))" for x
    using has_lists_proper [OF assms(1), of x l] assms(3) that by (auto simp: set_insert_at)
  then have "has_lists (k\<lparr>store := ?st\<rparr>) (X(l := insert_at (before_cursor (X l) c) i (X l)))"
    using vListInsertEnd_rep [OF rep free len] owner by (intro has_lists_change [OF assms(1)]) auto
  then show ?thesis using vals owner by (auto simp: insert_item_end_def on_store_def)
qed

lemma insert_item_lists:
  assumes "has_lists k X" "\<forall>l. i \<notin> set (X l)" "proper (store k) (i div 2)"
  shows "\<exists>st. insert_item l i k = Some (k\<lparr>store := st\<rparr>)
     \<and> has_lists (k\<lparr>store := st\<rparr>) (X(l := insert_at (behind_value (store k) (item_value k i) (X l)) i (X l)))
     \<and> value_of st = value_of (store k) \<and> (\<forall>x. pvOwner (items st x) = pvOwner (items (store k) x))"
proof -
  obtain c where rep: "list_rep (store k) l (X l) c" using assms(1) unfolding has_lists_def by blast
  have free: "container_of (store k) (Item i) = None" using has_lists_free [OF assms(1)] assms(2) by simp
  have len: "Suc (length (X l)) < 2 ^ 32" using has_lists_length [OF assms(1), of l] by simp
  let ?ys = "insert_at (behind_value (store k) (item_value k i) (X l)) i (X l)"
  obtain st c' where st: "vListInsert l i (store k) = Some st" "list_rep st l ?ys c'" "value_of st = value_of (store k)"
      "\<forall>m ys j. m \<noteq> l \<longrightarrow> list_rep (store k) m ys j \<longrightarrow> list_rep st m ys j"
      "\<forall>x. pvOwner (items st x) = pvOwner (items (store k) x)"
    using vListInsert_rep [OF rep free len refl] by blast
  have "proper (store k) (x div 2)" if "x \<in> set ?ys" for x
    using has_lists_proper [OF assms(1), of x l] assms(3) that by (auto simp: set_insert_at)
  then show ?thesis
    using has_lists_change [OF assms(1) st(2)] st by (auto simp: insert_item_def)
qed

lemma set_value_lists:
  assumes "has_lists k X"
  shows "\<exists>st. on_store (listSET_LIST_ITEM_VALUE i v) k = k\<lparr>store := st\<rparr> \<and> has_lists (k\<lparr>store := st\<rparr>) X
     \<and> value_of st = (value_of (store k))(Item i := v) \<and> container_of st = container_of (store k)
     \<and> (\<forall>x. pvOwner (items st x) = pvOwner (items (store k) x))"
proof -
  let ?st = "listSET_LIST_ITEM_VALUE i v (store k)"
  have owner: "pvOwner (items ?st x) = pvOwner (items (store k) x)" for x
    by (simp add: listSET_LIST_ITEM_VALUE_def)
  have "list_rep ?st l xs c" if "list_rep (store k) l xs c" for l xs c
    by (intro list_rep_frame [OF that]) (auto simp: listSET_LIST_ITEM_VALUE_def)
  moreover have "proper ?st = proper (store k)" using owner by (simp add: proper_def fun_eq_iff)
  ultimately have "has_lists (k\<lparr>store := ?st\<rparr>) X"
    using assms unfolding has_lists_def by (simp, metis)
  moreover have "value_of ?st = (value_of (store k))(Item i := v)" "container_of ?st = container_of (store k)"
    by (simp_all add: listSET_LIST_ITEM_VALUE_def fun_eq_iff)
  ultimately show ?thesis using owner by (auto simp: on_store_def)
qed

subsection \<open>What holds between the calls\<close>

text \<open>
  Which items are where: the ready lists hold the tasks of their priority, the other lists of
  states hold items of tasks, and the pending list and the lists of events their second items.
\<close>

definition kind :: "kernel \<Rightarrow> nat \<Rightarrow> nat \<Rightarrow> bool" where
  "kind k l x \<longleftrightarrow>
     (if l < 5 then \<exists>t. x = xGenericListItem t \<and> priority k t = l
      else if l = 7 \<or> 10 \<le> l then \<exists>t. x = xEventListItem t
      else \<exists>t. x = xGenericListItem t)"

definition kinds :: "kernel \<Rightarrow> (nat \<Rightarrow> nat list) \<Rightarrow> bool" where
  "kinds k X \<longleftrightarrow>
     (\<forall>l. \<forall>x\<in>set (X l). kind k l x) \<and> (\<forall>t. priority k t < 5 \<and> uxBasePriority (tcbs k t) < 5)
     \<and> {pxDelayedTaskList k, pxOverflowDelayedTaskList k} = {5, 6} \<and> pxCurrentTCB k \<noteq> None"

text \<open>The bit map marks the ready lists that are not empty; in between, also those in \<open>S\<close>.\<close>

definition marked :: "kernel \<Rightarrow> (nat \<Rightarrow> nat list) \<Rightarrow> nat set \<Rightarrow> bool" where
  "marked k X S \<longleftrightarrow> (\<forall>p. bit (uxTopReadyPriority k) p \<longleftrightarrow> p < 5 \<and> (X p \<noteq> [] \<or> p \<in> S))"

text \<open>
  The lists of delayed tasks are sorted by the time to wake; what is in the overflow list
  wakes after the counter has wrapped; the alarm is not later than any time in the other.
\<close>

definition timed :: "kernel \<Rightarrow> (nat \<Rightarrow> nat list) \<Rightarrow> bool" where
  "timed k X \<longleftrightarrow>
     sorted (map (item_value k) (X (pxDelayedTaskList k))) \<and> sorted (map (item_value k) (X (pxOverflowDelayedTaskList k)))
     \<and> (\<forall>x\<in>set (X (pxOverflowDelayedTaskList k)). item_value k x < xTickCount k)
     \<and> (\<forall>x\<in>set (X (pxDelayedTaskList k)). xNextTaskUnblockTime k \<le> item_value k x)"

definition future :: "kernel \<Rightarrow> bool" where
  "future k \<longleftrightarrow> (\<forall>x. item_container x k = Some (pxDelayedTaskList k) \<longrightarrow> xTickCount k < item_value k x)"

definition kernel_ok :: "kernel \<Rightarrow> (nat \<Rightarrow> nat list) \<Rightarrow> nat set \<Rightarrow> bool" where
  "kernel_ok k X S \<longleftrightarrow> has_lists k X \<and> kinds k X \<and> marked k X S \<and> timed k X"

text \<open>A task waits for an event only while it is delayed or suspended.\<close>

definition paired :: "kernel \<Rightarrow> bool" where
  "paired k \<longleftrightarrow>
     (\<forall>t. item_container (xEventListItem t) k \<noteq> None \<longrightarrow> item_container (xGenericListItem t) k \<in> {Some 5, Some 6, Some 9})"

named_theorems rtos_defs \<open>the numbers of the lists\<close>

lemmas [rtos_defs] = configMAX_PRIORITIES_def xDelayedTaskList1_def xDelayedTaskList2_def xPendingReadyList_def
  xTasksWaitingTermination_def xSuspendedTaskList_def

lemma item_kinds [simp]:
  "xGenericListItem t = xGenericListItem u \<longleftrightarrow> t = u" "xEventListItem t = xEventListItem u \<longleftrightarrow> t = u"
  "xGenericListItem t \<noteq> xEventListItem u" "xEventListItem u \<noteq> xGenericListItem t"
  unfolding xGenericListItem_def xEventListItem_def by presburger+

lemma item_task [simp]: "xGenericListItem t div 2 = t" "xEventListItem t div 2 = t"
  by (simp_all add: xGenericListItem_def xEventListItem_def)

lemma kernel_okD:
  assumes "kernel_ok k X S"
  shows "has_lists k X" "kinds k X" "marked k X S" "timed k X"
  using assms unfolding kernel_ok_def by blast+

lemma delayed_lists:
  assumes "kinds k X"
  shows "pxDelayedTaskList k \<in> {5, 6}" "pxOverflowDelayedTaskList k \<in> {5, 6}"
    "pxDelayedTaskList k \<noteq> pxOverflowDelayedTaskList k"
  using assms unfolding kinds_def by (auto simp: doubleton_eq_iff)

text \<open>Changes of the fields that the lists do not depend on.\<close>

lemma kernel_ok_fields:
  assumes "kernel_ok k X S" "store k' = store k" "tcbs k' = tcbs k" "pxDelayedTaskList k' = pxDelayedTaskList k"
    "pxOverflowDelayedTaskList k' = pxOverflowDelayedTaskList k" "uxTopReadyPriority k' = uxTopReadyPriority k"
    "xTickCount k' = xTickCount k" "xNextTaskUnblockTime k' = xNextTaskUnblockTime k"
    "pxCurrentTCB k = None \<longleftrightarrow> pxCurrentTCB k' = None"
  shows "kernel_ok k' X S"
proof -
  note ok = assms(1) [unfolded kernel_ok_def]
  have "has_lists k' X" using ok assms(2) by (simp add: has_lists_def)
  moreover have "kinds k' X"
    using kernel_okD(2) [OF assms(1)] assms(9) unfolding kinds_def kind_def assms(3-5)
    by (elim conjE, intro conjI) (assumption | simp)+
  moreover have "marked k' X S" using kernel_okD(3) [OF assms(1)] unfolding marked_def assms(6) .
  moreover have "timed k' X" using kernel_okD(4) [OF assms(1)] unfolding timed_def assms(2,4,5,7,8) .
  ultimately show ?thesis unfolding kernel_ok_def by blast
qed

lemma marked_reset:
  assumes "marked k X S" "X p = []" "p < 5"
  shows "marked (portRESET_READY_PRIORITY p k) X (S - {p})"
proof -
  have "bit (NOT (push_bit p 1) :: u32) q \<longleftrightarrow> q < 32 \<and> q \<noteq> p" for q
    using assms(3) by (auto simp: bit_simps)
  then have "bit (uxTopReadyPriority (portRESET_READY_PRIORITY p k)) q \<longleftrightarrow> bit (uxTopReadyPriority k) q \<and> q < 32 \<and> q \<noteq> p" for q
    by (simp add: portRESET_READY_PRIORITY_def bit_and_iff)
  moreover have "bit (uxTopReadyPriority k) q \<Longrightarrow> q < 32" for q
    using assms(1) unfolding marked_def by simp
  ultimately show ?thesis using assms unfolding marked_def by (metis Diff_iff empty_iff insert_iff)
qed

lemma marked_less: "marked k X S \<Longrightarrow> X p \<noteq> [] \<Longrightarrow> marked k X (S - {p})"
  unfolding marked_def by auto

lemma marked_other:
  assumes "marked k X S" "5 \<le> l" "uxTopReadyPriority k' = uxTopReadyPriority k"
  shows "marked k' (X(l := ys)) S"
  unfolding marked_def
proof
  fix p
  show "bit (uxTopReadyPriority k') p \<longleftrightarrow> p < 5 \<and> ((X(l := ys)) p \<noteq> [] \<or> p \<in> S)"
    using assms unfolding marked_def by (cases "p = l") simp_all
qed

lemma marked_record:
  assumes "marked k X S" "p < 5" "X' p \<noteq> []" "\<And>q. q \<noteq> p \<Longrightarrow> X' q = X q"
  shows "marked (portRECORD_READY_PRIORITY p k) X' (S - {p})"
proof -
  have "bit (push_bit p 1 :: u32) q \<longleftrightarrow> q = p" for q
    using assms(2) by (auto simp: bit_simps)
  then have "bit (uxTopReadyPriority (portRECORD_READY_PRIORITY p k)) q \<longleftrightarrow> bit (uxTopReadyPriority k) q \<or> q = p" for q
    by (simp add: portRECORD_READY_PRIORITY_def bit_or_iff)
  then show ?thesis using assms unfolding marked_def by (metis Diff_iff singletonD singletonI)
qed

text \<open>A change of the lists and the bit map only, in which no item changes its value.\<close>

definition same_rest :: "kernel \<Rightarrow> kernel \<Rightarrow> bool" where
  "same_rest k k' \<longleftrightarrow>
     (\<exists>st top. k' = k\<lparr>store := st, uxTopReadyPriority := top\<rparr> \<and> (\<forall>x. value_of st x = value_of (store k) x)
       \<and> (\<forall>x. pvOwner (items st x) = pvOwner (items (store k) x)))"

lemma same_rest_fields:
  assumes "same_rest k k'"
  shows "tcbs k' = tcbs k" "pxCurrentTCB k' = pxCurrentTCB k" "pxDelayedTaskList k' = pxDelayedTaskList k"
    "pxOverflowDelayedTaskList k' = pxOverflowDelayedTaskList k" "uxCurrentNumberOfTasks k' = uxCurrentNumberOfTasks k"
    "xTickCount k' = xTickCount k" "xSchedulerRunning k' = xSchedulerRunning k" "uxPendedTicks k' = uxPendedTicks k"
    "xYieldPending k' = xYieldPending k" "xNumOfOverflows k' = xNumOfOverflows k"
    "xNextTaskUnblockTime k' = xNextTaskUnblockTime k" "uxSchedulerSuspended k' = uxSchedulerSuspended k"
    "uxTasksDeleted k' = uxTasksDeleted k" "switch_pended k' = switch_pended k" "item_value k' i = item_value k i"
  using assms unfolding same_rest_def by auto

lemma same_rest_proper: "same_rest k k' \<Longrightarrow> proper (store k') t = proper (store k) t"
  unfolding same_rest_def proper_def by auto

lemma same_rest_refl [simp]: "same_rest k k"
  unfolding same_rest_def by (rule exI [of _ "store k"], rule exI [of _ "uxTopReadyPriority k"]) simp

lemma same_rest_trans: "same_rest k k' \<Longrightarrow> same_rest k' k'' \<Longrightarrow> same_rest k k''"
  unfolding same_rest_def by (elim exE conjE) (simp, blast)

lemma same_rest_store:
  "value_of st = value_of (store k) \<Longrightarrow> \<forall>x. pvOwner (items st x) = pvOwner (items (store k) x)
    \<Longrightarrow> same_rest k (k\<lparr>store := st\<rparr>)"
  unfolding same_rest_def by (rule exI [of _ st], rule exI [of _ "uxTopReadyPriority k"]) (auto dest: fun_cong)

lemma same_rest_bits:
  "same_rest k (portRESET_READY_PRIORITY p k)" "same_rest k (portRECORD_READY_PRIORITY p k)"
  unfolding same_rest_def portRESET_READY_PRIORITY_def portRECORD_READY_PRIORITY_def
  by (rule exI [of _ "store k"]; auto)+

text \<open>The item \<open>i\<close> has moved to the list \<open>m\<close>, or out of all lists; every other is where it was.\<close>

definition moved :: "kernel \<Rightarrow> nat \<Rightarrow> nat option \<Rightarrow> kernel \<Rightarrow> bool" where
  "moved k i m k' \<longleftrightarrow> (\<forall>x. item_container x k' = (if x = i then m else item_container x k))"

lemma has_lists_at: "has_lists k X \<Longrightarrow> item_container i k = Some l \<longleftrightarrow> i \<in> set (X l)"
  using has_lists_container [of k X i l] by (simp add: item_container_def listLIST_ITEM_CONTAINER_def)

lemma has_lists_moved:
  assumes "has_lists k X" "has_lists k' X'" "\<And>x l. x \<in> set (X' l) \<longleftrightarrow> (if x = i then m = Some l else x \<in> set (X l))"
  shows "moved k i m k'"
  unfolding moved_def
proof
  fix x
  have "item_container x k' = Some l \<longleftrightarrow> (if x = i then m else item_container x k) = Some l" for l
    using has_lists_at [OF assms(1), of x l] has_lists_at [OF assms(2), of x l] assms(3) [of x l] by simp
  then show "item_container x k' = (if x = i then m else item_container x k)"
    by (metis not_None_eq)
qed

lemma moved_future:
  assumes "moved k i m k'" "same_rest k k'" "future k" "m \<noteq> Some (pxDelayedTaskList k)"
  shows "future k'"
  using assms(1,3,4) unfolding future_def moved_def by (simp only: same_rest_fields [OF assms(2)]) metis

lemma kinds_change:
  assumes "kinds k X" "same_rest k k'" "\<And>l x. x \<in> set (X' l) \<Longrightarrow> kind k l x"
  shows "kinds k' X'"
  using assms(1,3) unfolding kinds_def kind_def by (simp only: same_rest_fields [OF assms(2)]) simp

lemma kinds_same:
  assumes "kinds k X" "tcbs k' = tcbs k" "{pxDelayedTaskList k', pxOverflowDelayedTaskList k'} = {5, 6}" "pxCurrentTCB k' \<noteq> None"
  shows "kinds k' X"
proof -
  have "kind k' = kind k" using assms(2) by (simp add: kind_def fun_eq_iff)
  then show ?thesis using assms unfolding kinds_def by simp
qed

lemma kinds_mono:
  assumes "kinds k X" "same_rest k k'" "\<And>l. set (X' l) \<subseteq> set (X l)"
  shows "kinds k' X'"
  using assms(1,3) by (intro kinds_change [OF assms(1,2)]) (auto simp: kinds_def)

lemma timed_change:
  assumes "timed k X" "same_rest k k'"
    and "\<And>l. l \<in> {pxDelayedTaskList k, pxOverflowDelayedTaskList k} \<Longrightarrow> set (X' l) \<subseteq> set (X l) \<and> (sorted (map (item_value k) (X l)) \<longrightarrow> sorted (map (item_value k) (X' l)))"
  shows "timed k' X'"
  using assms(1) assms(3) [of "pxDelayedTaskList k"] assms(3) [of "pxOverflowDelayedTaskList k"]
  unfolding timed_def by (simp only: same_rest_fields [OF assms(2)]) auto

text \<open>Taking an item out of its list.\<close>

lemma remove_item_ok:
  assumes "kernel_ok k X S" "i \<in> set (X l)"
  shows "\<exists>k'. remove_item i k = Some (of_nat (length (X l) - 1), k') \<and> same_rest k k'
     \<and> moved k i None k' \<and> kernel_ok k' (X(l := remove1 i (X l))) (if l < 5 then insert l S else S)"
proof -
  let ?X = "X(l := remove1 i (X l))"
  note ok = kernel_okD [OF assms(1)]
  obtain st where st: "remove_item i k = Some (of_nat (length (X l) - 1), k\<lparr>store := st\<rparr>)"
      "has_lists (k\<lparr>store := st\<rparr>) ?X" "value_of st = value_of (store k)"
      "\<forall>x. pvOwner (items st x) = pvOwner (items (store k) x)"
    using remove_item_lists [OF ok(1) assms(2)] by blast
  have same: "same_rest k (k\<lparr>store := st\<rparr>)" by (rule same_rest_store [OF st(3,4)])
  have sub: "set (?X m) \<subseteq> set (X m)" for m
    using set_remove1_subset [of i "X l"] by (cases "m = l") auto
  have "kinds (k\<lparr>store := st\<rparr>) ?X"
    using kinds_mono [OF ok(2) same sub] .
  moreover have "marked (k\<lparr>store := st\<rparr>) ?X (if l < 5 then insert l S else S)"
    unfolding marked_def
  proof
    fix p
    have "X l \<noteq> []" using assms(2) by auto
    then show "bit (uxTopReadyPriority (k\<lparr>store := st\<rparr>)) p \<longleftrightarrow> p < 5 \<and> (?X p \<noteq> [] \<or> p \<in> (if l < 5 then insert l S else S))"
      using ok(3) unfolding marked_def by (cases "p = l") simp_all
  qed
  moreover have "timed (k\<lparr>store := st\<rparr>) ?X"
    using sub by (intro timed_change [OF ok(4) same]) (auto simp: sorted_map_remove1)
  moreover have "moved k i None (k\<lparr>store := st\<rparr>)"
    using has_lists_distinct [OF ok(1), of l] has_lists_unique [OF ok(1) assms(2)]
    by (intro has_lists_moved [OF ok(1) st(2)]) (auto; blast)
  ultimately show ?thesis using st(1,2) same unfolding kernel_ok_def by blast
qed

lemma removed_all:
  assumes "has_lists k X" "i \<in> set (X l)"
  shows "(of_nat (length (X l) - 1) :: u32) = 0 \<longleftrightarrow> remove1 i (X l) = []"
proof -
  have "length (X l) - 1 < 2 ^ 32" using has_lists_length [OF assms(1), of l] by simp
  then show ?thesis
    using assms(2) of_nat_0_iff_32 [of "length (X l) - 1"] by (simp add: length_remove1 flip: length_0_conv)
qed

text \<open>Clearing and keeping marks.\<close>

lemma kernel_ok_rest:
  assumes "kernel_ok k X S" "same_rest k k'" "store k' = store k" "marked k' X S'"
  shows "kernel_ok k' X S'"
proof -
  note ok = assms(1) [unfolded kernel_ok_def]
  have "has_lists k' X" using ok assms(3) by (simp add: has_lists_def)
  moreover have "kinds k' X" using ok kinds_mono [OF _ assms(2)] by blast
  moreover have "timed k' X" using ok timed_change [OF _ assms(2)] by blast
  ultimately show ?thesis using assms(4) unfolding kernel_ok_def by blast
qed

lemma reset_ok:
  assumes "kernel_ok k X S" "X p = []" "p < 5"
  shows "kernel_ok (portRESET_READY_PRIORITY p k) X (S - {p})"
  by (rule kernel_ok_rest [OF assms(1) same_rest_bits(1) _ marked_reset])
    (use assms kernel_okD in \<open>auto simp: portRESET_READY_PRIORITY_def\<close>)

lemma keep_ok: "kernel_ok k X S \<Longrightarrow> X p \<noteq> [] \<Longrightarrow> kernel_ok k X (S - {p})"
  unfolding kernel_ok_def using marked_less by blast

lemma moved_bits [simp]:
  "moved k i m (portRESET_READY_PRIORITY p k') = moved k i m k'"
  "moved (portRECORD_READY_PRIORITY p k) i m k' = moved k i m k'"
  by (simp_all add: moved_def item_container_def portRESET_READY_PRIORITY_def portRECORD_READY_PRIORITY_def)

lemma kinds_at:
  assumes "kinds k X" "xGenericListItem t \<in> set (X l)"
  shows "(l < 5 \<and> priority k t = l) \<or> l \<in> {5, 6, 8, 9}"
proof -
  have kind: "kind k l (xGenericListItem t)" using assms unfolding kinds_def by blast
  show ?thesis
  proof (cases "l < 5")
    case True
    then show ?thesis using kind by (auto simp: kind_def)
  next
    case False
    then have "l \<noteq> 7 \<and> l < 10" using kind unfolding kind_def by (metis item_kinds(3) not_le)
    then show ?thesis using False by (simp, presburger)
  qed
qed

text \<open>A ready task leaves its ready list.\<close>

lemma remove_ready_ok:
  assumes "kernel_ok k X {}" "xGenericListItem t \<in> set (X (priority k t))" "priority k t < 5"
  shows "\<exists>n k1 k' X'. remove_item (xGenericListItem t) k = Some (n, k1)
     \<and> k' = (if n = 0 then portRESET_READY_PRIORITY (priority k t) k1 else k1)
     \<and> tcbs k1 = tcbs k \<and> same_rest k k' \<and> moved k (xGenericListItem t) None k' \<and> kernel_ok k' X' {}"
proof -
  let ?i = "xGenericListItem t" and ?p = "priority k t"
  let ?X = "X(?p := remove1 ?i (X ?p))"
  obtain k1 where k1: "remove_item ?i k = Some (of_nat (length (X ?p) - 1), k1)" "same_rest k k1"
      "moved k ?i None k1" "kernel_ok k1 ?X {?p}"
    using remove_item_ok [OF assms(1,2)] assms(3) by auto
  note empty = removed_all [OF kernel_okD(1) [OF assms(1)] assms(2)]
  have tcbs: "tcbs k1 = tcbs k" by (simp only: same_rest_fields [OF k1(2)])
  show ?thesis
  proof (cases "remove1 ?i (X ?p) = []")
    case True
    have "kernel_ok (portRESET_READY_PRIORITY ?p k1) ?X {}"
      using reset_ok [OF k1(4), of ?p] True assms(3) by simp
    then show ?thesis
      using k1 tcbs True empty same_rest_trans [OF k1(2) same_rest_bits(1)] by fastforce
  next
    case False
    have "kernel_ok k1 ?X {}" using keep_ok [OF k1(4), of ?p] False by simp
    then show ?thesis using k1 tcbs False empty by fastforce
  qed
qed

lemma leave_ready_ok:
  assumes "kernel_ok k X {}" "pxCurrentTCB k = Some c" "xGenericListItem c \<in> set (X (priority k c))" "priority k c < 5"
  shows "\<exists>k' X'. leave_ready k = Some k' \<and> same_rest k k' \<and> moved k (xGenericListItem c) None k'
     \<and> kernel_ok k' X' {}"
proof -
  obtain n k1 k' X' where k': "remove_item (xGenericListItem c) k = Some (n, k1)"
      "k' = (if n = 0 then portRESET_READY_PRIORITY (priority k c) k1 else k1)"
      "tcbs k1 = tcbs k" "same_rest k k'" "moved k (xGenericListItem c) None k'" "kernel_ok k' X' {}"
    using remove_ready_ok [OF assms(1,3,4)] by blast
  then have "leave_ready k = Some k'" using assms(2) by (simp add: leave_ready_def)
  then show ?thesis using k'(4-6) by blast
qed

text \<open>A task enters the ready list of its priority.\<close>

lemma insert_end_ok:
  assumes "kernel_ok k X S" "\<forall>l. i \<notin> set (X l)" "proper (store k) (i div 2)" "kind k l i" "l \<noteq> 5" "l \<noteq> 6"
  shows "\<exists>k' n. insert_item_end l i k = k' \<and> same_rest k k' \<and> moved k i (Some l) k'
     \<and> has_lists k' (X(l := insert_at n i (X l))) \<and> kinds k' (X(l := insert_at n i (X l)))
     \<and> timed k' (X(l := insert_at n i (X l))) \<and> uxTopReadyPriority k' = uxTopReadyPriority k"
proof -
  note ok = kernel_okD [OF assms(1)]
  obtain st n where st: "insert_item_end l i k = k\<lparr>store := st\<rparr>"
      "has_lists (k\<lparr>store := st\<rparr>) (X(l := insert_at n i (X l)))" "value_of st = value_of (store k)"
      "\<forall>x. pvOwner (items st x) = pvOwner (items (store k) x)"
    using insert_item_end_lists [OF ok(1) assms(2,3)] by blast
  let ?X = "X(l := insert_at n i (X l))"
  have same: "same_rest k (k\<lparr>store := st\<rparr>)" by (rule same_rest_store [OF st(3,4)])
  have "kinds (k\<lparr>store := st\<rparr>) ?X"
    using ok(2) assms(4) by (intro kinds_change [OF ok(2) same]) (auto simp: kinds_def set_insert_at split: if_splits)
  moreover have "timed (k\<lparr>store := st\<rparr>) ?X"
    using delayed_lists [OF ok(2)] assms(5,6) by (intro timed_change [OF ok(4) same]) auto
  moreover have "moved k i (Some l) (k\<lparr>store := st\<rparr>)"
    using assms(2) by (intro has_lists_moved [OF ok(1) st(2)]) (auto simp: set_insert_at)
  ultimately show ?thesis using st same by auto
qed

lemma add_ready_ok:
  assumes "kernel_ok k X S" "\<forall>l. xGenericListItem t \<notin> set (X l)" "proper (store k) t"
  shows "\<exists>k' X'. prvAddTaskToReadyList t k = k' \<and> same_rest k k' \<and> moved k (xGenericListItem t) (Some (priority k t)) k'
     \<and> kernel_ok k' X' (S - {priority k t})"
proof -
  let ?p = "priority k t" and ?i = "xGenericListItem t"
  let ?k = "portRECORD_READY_PRIORITY ?p k"
  have p: "?p < 5" using kernel_okD(2) [OF assms(1)] unfolding kinds_def by blast
  have rest: "same_rest k ?k" by (rule same_rest_bits)
  have prio: "priority ?k t = ?p" by (simp only: same_rest_fields [OF rest])
  have kk: "kernel_ok ?k X (insert ?p S)"
  proof (rule kernel_ok_rest [OF assms(1) rest])
    show "store ?k = store k" by (simp add: portRECORD_READY_PRIORITY_def)
    have "bit (push_bit ?p 1 :: u32) q \<longleftrightarrow> q = ?p" for q using p by (auto simp: bit_simps)
    then show "marked ?k X (insert ?p S)"
      using kernel_okD(3) [OF assms(1)] p unfolding marked_def portRECORD_READY_PRIORITY_def
      by (auto simp: bit_or_iff)
  qed
  have kind: "kind ?k ?p ?i" using p prio by (simp add: kind_def)
  obtain k' n where k': "insert_item_end ?p ?i ?k = k'" "same_rest ?k k'" "moved ?k ?i (Some ?p) k'"
      "has_lists k' (X(?p := insert_at n ?i (X ?p)))" "kinds k' (X(?p := insert_at n ?i (X ?p)))"
      "timed k' (X(?p := insert_at n ?i (X ?p)))" "uxTopReadyPriority k' = uxTopReadyPriority ?k"
    using insert_end_ok [OF kk assms(2) _ kind] p assms(3) same_rest_proper [OF rest] by auto
  have "X(?p := insert_at n ?i (X ?p)) \<noteq> X \<longrightarrow> insert_at n ?i (X ?p) \<noteq> []"
    by (simp add: insert_at_def)
  then have "marked k' (X(?p := insert_at n ?i (X ?p))) (S - {?p})"
    using kernel_okD(3) [OF kk] k'(7) p unfolding marked_def by (simp add: insert_at_def)
  then have "kernel_ok k' (X(?p := insert_at n ?i (X ?p))) (S - {?p})"
    using k' unfolding kernel_ok_def by blast
  then show ?thesis
    using k'(1-3) same_rest_trans [OF rest k'(2)] unfolding prvAddTaskToReadyList_def by auto
qed

text \<open>The same without naming the contents of the lists.\<close>

definition kernel_inv :: "kernel \<Rightarrow> nat set \<Rightarrow> bool" where
  "kernel_inv k S \<longleftrightarrow> (\<exists>X. kernel_ok k X S)"

lemma inv_priority: "kernel_inv k S \<Longrightarrow> priority k t < 5"
  unfolding kernel_inv_def kernel_ok_def kinds_def by blast

lemma kernel_ok_at: "kernel_ok k X S \<Longrightarrow> item_container i k = Some l \<longleftrightarrow> i \<in> set (X l)"
  using has_lists_at kernel_okD(1) by blast

lemma kernel_ok_free: "kernel_ok k X S \<Longrightarrow> item_container i k = None \<longleftrightarrow> (\<forall>l. i \<notin> set (X l))"
  using kernel_ok_at [of k X S i] by (metis not_None_eq)

lemma inv_proper:
  assumes "kernel_inv k S" "item_container i k \<noteq> None"
  shows "proper (store k) (i div 2)"
  using assms has_lists_proper kernel_ok_at kernel_okD(1) unfolding kernel_inv_def by (metis not_None_eq)

lemma inv_generic_at:
  "kernel_inv k S \<Longrightarrow> item_container (xGenericListItem t) k = Some l \<Longrightarrow> (l < 5 \<and> priority k t = l) \<or> l \<in> {5, 6, 8, 9}"
  unfolding kernel_inv_def using kinds_at kernel_ok_at kernel_okD(2) by blast

lemma inv_event_at:
  assumes "kernel_inv k S" "item_container (xEventListItem t) k = Some l"
  shows "l = 7 \<or> 10 \<le> l"
proof -
  have "kind k l (xEventListItem t)"
    using assms kernel_ok_at kernel_okD(2) unfolding kernel_inv_def kinds_def by metis
  then show ?thesis unfolding kind_def by (metis item_kinds(4))
qed

lemma moved_trans: "moved k i None k' \<Longrightarrow> moved k' i m k'' \<Longrightarrow> moved k i m k''"
  unfolding moved_def by simp

lemma moved_at: "moved k i m k' \<Longrightarrow> item_container x k' = (if x = i then m else item_container x k)"
  unfolding moved_def by blast

lemma leave_ready_inv:
  assumes "kernel_inv k {}" "pxCurrentTCB k = Some c" "item_container (xGenericListItem c) k = Some (priority k c)"
  shows "\<exists>k'. leave_ready k = Some k' \<and> same_rest k k' \<and> moved k (xGenericListItem c) None k' \<and> kernel_inv k' {}"
proof -
  obtain X where X: "kernel_ok k X {}" using assms(1) unfolding kernel_inv_def by blast
  show ?thesis
    using leave_ready_ok [OF X assms(2)] assms(3) kernel_ok_at [OF X] inv_priority [OF assms(1)] unfolding kernel_inv_def by blast
qed

lemma add_ready_inv:
  assumes "kernel_inv k S" "item_container (xGenericListItem t) k = None" "proper (store k) t"
  shows "same_rest k (prvAddTaskToReadyList t k)
    \<and> moved k (xGenericListItem t) (Some (priority k t)) (prvAddTaskToReadyList t k)
    \<and> kernel_inv (prvAddTaskToReadyList t k) (S - {priority k t})"
proof -
  obtain X where X: "kernel_ok k X S" using assms(1) unfolding kernel_inv_def by blast
  show ?thesis
    using add_ready_ok [OF X _ assms(3)] assms(2) kernel_ok_free [OF X] unfolding kernel_inv_def by blast
qed

lemma insert_end_inv:
  assumes "kernel_inv k S" "item_container i k = None" "proper (store k) (i div 2)" "kind k l i" "7 \<le> l"
  shows "same_rest k (insert_item_end l i k) \<and> moved k i (Some l) (insert_item_end l i k) \<and> kernel_inv (insert_item_end l i k) S"
proof -
  obtain X where X: "kernel_ok k X S" using assms(1) unfolding kernel_inv_def by blast
  obtain n where n: "same_rest k (insert_item_end l i k)" "moved k i (Some l) (insert_item_end l i k)"
      "has_lists (insert_item_end l i k) (X(l := insert_at n i (X l)))" "kinds (insert_item_end l i k) (X(l := insert_at n i (X l)))"
      "timed (insert_item_end l i k) (X(l := insert_at n i (X l)))"
      "uxTopReadyPriority (insert_item_end l i k) = uxTopReadyPriority k"
    using insert_end_ok [OF X _ assms(3,4)] assms(2,5) kernel_ok_free [OF X] by fastforce
  have "marked (insert_item_end l i k) (X(l := insert_at n i (X l))) S"
    using kernel_okD(3) [OF X] n(6) assms(5) unfolding marked_def by simp
  then show ?thesis using n unfolding kernel_inv_def kernel_ok_def by blast
qed

lemma remove_inv:
  assumes "kernel_inv k S" "item_container i k = Some l" "5 \<le> l"
  shows "\<exists>n k'. remove_item i k = Some (n, k') \<and> same_rest k k' \<and> moved k i None k' \<and> kernel_inv k' S"
proof -
  obtain X where X: "kernel_ok k X S" using assms(1) unfolding kernel_inv_def by blast
  show ?thesis
    using remove_item_ok [OF X, of i l] assms(2,3) kernel_ok_at [OF X] unfolding kernel_inv_def by auto
qed

lemma make_ready_inv:
  assumes "kernel_inv k S" "item_container (xGenericListItem t) k = Some l" "5 \<le> l"
  shows "\<exists>k'. make_ready t k = Some k' \<and> same_rest k k'
    \<and> moved k (xGenericListItem t) (Some (priority k t)) k' \<and> kernel_inv k' (S - {priority k t})"
proof -
  let ?i = "xGenericListItem t"
  obtain n k1 where k1: "remove_item ?i k = Some (n, k1)" "same_rest k k1" "moved k ?i None k1" "kernel_inv k1 S"
    using remove_inv [OF assms] by blast
  have "proper (store k1) t"
    using inv_proper [OF assms(1), of ?i] assms(2) same_rest_proper [OF k1(2)] by simp
  then have "same_rest k1 (prvAddTaskToReadyList t k1)
      \<and> moved k1 ?i (Some (priority k1 t)) (prvAddTaskToReadyList t k1)
      \<and> kernel_inv (prvAddTaskToReadyList t k1) (S - {priority k1 t})"
    using add_ready_inv [OF k1(4)] moved_at [OF k1(3)] by simp
  moreover have "priority k1 t = priority k t" by (simp only: same_rest_fields [OF k1(2)])
  ultimately show ?thesis
    using k1(1) same_rest_trans [OF k1(2)] moved_trans [OF k1(3)]
    by (intro exI [of _ "prvAddTaskToReadyList t k1"]) (simp add: make_ready_def)
qed

text \<open>A task leaves its lists; when it was the last one of a ready list, the mark of the list goes too.\<close>

lemma remove_mark_inv:
  assumes "kernel_inv k {}" "item_container (xGenericListItem t) k = Some l"
  shows "\<exists>n k' k''. remove_item (xGenericListItem t) k = Some (n, k')
    \<and> k'' = (if n = 0 then taskRESET_READY_PRIORITY (priority k' t) k' else k')
    \<and> same_rest k k'' \<and> moved k (xGenericListItem t) None k'' \<and> kernel_inv k'' {}"
proof -
  let ?i = "xGenericListItem t"
  obtain X where X: "kernel_ok k X {}" using assms(1) unfolding kernel_inv_def by blast
  have at: "?i \<in> set (X l)" using kernel_ok_at [OF X] assms(2) by blast
  let ?X = "X(l := remove1 ?i (X l))" and ?S = "if l < 5 then {l} else {} :: nat set"
  obtain k' where k': "remove_item ?i k = Some (of_nat (length (X l) - 1), k')" "same_rest k k'"
      "moved k ?i None k'" "kernel_ok k' ?X ?S"
    using remove_item_ok [OF X at] by auto
  have p: "priority k' t = priority k t" by (simp only: same_rest_fields [OF k'(2)])
  have l: "l < 5 \<longrightarrow> priority k t = l" using inv_generic_at [OF assms] by auto
  note empty = has_lists_empty [OF kernel_okD(1) [OF k'(4)], unfolded listLIST_IS_EMPTY_def]
  let ?k = "taskRESET_READY_PRIORITY (priority k' t) k'"
  have k: "?k = (if ?X (priority k t) = [] then portRESET_READY_PRIORITY (priority k t) k' else k')"
    using empty [of "priority k t"] by (simp add: taskRESET_READY_PRIORITY_def listCURRENT_LIST_LENGTH_def p)
  have reset: "kernel_ok (portRESET_READY_PRIORITY q k') ?X (?S - {q})" if "?X q = []" "q < 5" for q
    using reset_ok [OF k'(4)] that by blast
  have keep: "kernel_ok k' ?X (?S - {q})" if "?X q \<noteq> []" for q
    using keep_ok [OF k'(4)] that by blast
  have all: "?S - {priority k t} = {}" using l by auto
  have "kernel_inv ?k {}"
    using reset [of "priority k t"] keep [of "priority k t"] inv_priority [OF assms(1), of t] all
    unfolding k kernel_inv_def by (cases "?X (priority k t) = []") (simp_all, blast+)
  moreover have "same_rest k ?k"
    unfolding k using k'(2) same_rest_trans [OF k'(2) same_rest_bits(1)] by simp
  moreover have "moved k ?i None ?k" unfolding k using k'(3) by simp
  moreover have "kernel_inv k' {}" if "of_nat (length (X l) - 1) \<noteq> (0::u32)"
  proof -
    have "?X l \<noteq> []" using that removed_all [OF kernel_okD(1) [OF X] at] by simp
    then show ?thesis using keep [of l] k'(4) unfolding kernel_inv_def by (cases "l < 5") auto
  qed
  ultimately show ?thesis using k' by (cases "of_nat (length (X l) - 1) = (0::u32)") auto
qed

lemma drop_event_inv:
  assumes "kernel_inv k S"
  shows "\<exists>k'. (if item_container (xEventListItem t) k \<noteq> None
      then map_option snd (remove_item (xEventListItem t) k) else Some k) = Some k'
    \<and> same_rest k k' \<and> moved k (xEventListItem t) None k' \<and> kernel_inv k' S"
proof (cases "item_container (xEventListItem t) k")
  case None
  then show ?thesis using assms by (auto simp: moved_def)
next
  case (Some m)
  then have "5 \<le> m" using inv_event_at [OF assms] by fastforce
  then show ?thesis using remove_inv [OF assms Some] Some by fastforce
qed

lemma leave_lists_inv:
  assumes "kernel_inv k {}" "item_container (xGenericListItem t) k = Some l"
  shows "\<exists>k'. leave_lists t k = Some k' \<and> same_rest k k' \<and> kernel_inv k' {}
    \<and> (\<forall>x. item_container x k' = (if x = xGenericListItem t \<or> x = xEventListItem t then None else item_container x k))"
proof -
  let ?i = "xGenericListItem t" and ?e = "xEventListItem t"
  obtain n k1 k2 where k2: "remove_item ?i k = Some (n, k1)"
      "k2 = (if n = 0 then taskRESET_READY_PRIORITY (priority k1 t) k1 else k1)"
      "same_rest k k2" "moved k ?i None k2" "kernel_inv k2 {}"
    using remove_mark_inv [OF assms] by blast
  obtain k3 where k3: "(if item_container ?e k2 \<noteq> None then map_option snd (remove_item ?e k2) else Some k2) = Some k3"
      "same_rest k2 k3" "moved k2 ?e None k3" "kernel_inv k3 {}"
    using drop_event_inv [OF k2(5)] by blast
  have "leave_lists t k = (if item_container ?e k2 \<noteq> None then map_option snd (remove_item ?e k2) else Some k2)"
    using k2(1,2) by (simp add: leave_lists_def)
  then have "leave_lists t k = Some k3" unfolding k3(1) .
  then show ?thesis
    using same_rest_trans [OF k2(3) k3(2)] k3(4) moved_at [OF k2(4)] moved_at [OF k3(3)] by simp
qed

subsection \<open>Delayed tasks and the choice of the next one\<close>

lemma sorted_insert_behind:
  fixes v :: "'a :: linorder"
  assumes "sorted (map f xs)" "f i = v"
  shows "sorted (map f (takeWhile (\<lambda>x. f x \<le> v) xs @ i # dropWhile (\<lambda>x. f x \<le> v) xs))"
proof -
  have "takeWhile (\<lambda>x. f x \<le> v) xs = filter (\<lambda>x. f x \<le> v) xs" "dropWhile (\<lambda>x. f x \<le> v) xs = filter (\<lambda>x. \<not> f x \<le> v) xs"
    using sorted_takeWhile_filter [OF assms(1), of v] by blast+
  then show ?thesis using assms by (auto simp: sorted_append sorted_filter)
qed

text \<open>The running task, in no list, enters the list of delayed tasks that its time to wake belongs to.\<close>

definition delay_list :: "u32 \<Rightarrow> kernel \<Rightarrow> nat" where
  "delay_list w k = (if w < xTickCount k then pxOverflowDelayedTaskList k else pxDelayedTaskList k)"

definition delayed_to :: "nat \<Rightarrow> u32 \<Rightarrow> kernel \<Rightarrow> kernel \<Rightarrow> bool" where
  "delayed_to c w k k' \<longleftrightarrow>
     (\<exists>st n. k' = k\<lparr>store := st, xNextTaskUnblockTime := n\<rparr>
        \<and> (\<forall>x. value_of st x = (if x = Item (xGenericListItem c) then w else value_of (store k) x))
        \<and> (\<forall>x. pvOwner (items st x) = pvOwner (items (store k) x)))
     \<and> moved k (xGenericListItem c) (Some (delay_list w k)) k'"

lemma delay_inv:
  assumes "kernel_inv k {}" "pxCurrentTCB k = Some c" "item_container (xGenericListItem c) k = None" "proper (store k) c"
  shows "\<exists>k'. prvAddCurrentTaskToDelayedList w k = Some k' \<and> delayed_to c w k k' \<and> kernel_inv k' {}"
proof -
  let ?i = "xGenericListItem c" and ?l = "delay_list w k"
  obtain X where X: "kernel_ok k X {}" using assms(1) unfolding kernel_inv_def by blast
  note ok = kernel_okD [OF X]
  have free: "\<forall>l. ?i \<notin> set (X l)" using kernel_ok_free [OF X] assms(3) by blast
  obtain st1 where st1: "on_store (listSET_LIST_ITEM_VALUE ?i w) k = k\<lparr>store := st1\<rparr>" "has_lists (k\<lparr>store := st1\<rparr>) X"
      "value_of st1 = (value_of (store k))(Item ?i := w)" "\<forall>x. pvOwner (items st1 x) = pvOwner (items (store k) x)"
    using set_value_lists [OF ok(1), of ?i w] by blast
  let ?k1 = "k\<lparr>store := st1\<rparr>"
  have val1: "value_of st1 x = (if x = Item ?i then w else value_of (store k) x)" for x
    using fun_cong [OF st1(3), of x] by simp
  have proper1: "proper (store ?k1) (?i div 2)" using assms(4) st1(4) by (simp add: proper_def)
  let ?ys = "takeWhile (\<lambda>x. value_of st1 (Item x) \<le> w) (X ?l) @ ?i # dropWhile (\<lambda>x. value_of st1 (Item x) \<le> w) (X ?l)"
  obtain st where st: "insert_item ?l ?i ?k1 = Some (?k1\<lparr>store := st\<rparr>)" "has_lists (?k1\<lparr>store := st\<rparr>) (X(?l := ?ys))"
      "value_of st = value_of st1" "\<forall>x. pvOwner (items st x) = pvOwner (items st1 x)"
    using insert_item_lists [OF st1(2) free proper1, of ?l] by (auto simp: insert_at_behind val1)
  have val: "value_of st x = (if x = Item ?i then w else value_of (store k) x)" for x
    using fun_cong [OF st(3), of x] val1 by simp
  define n where "n = (if \<not> w < xTickCount k \<and> w < xNextTaskUnblockTime k then w else xNextTaskUnblockTime k)"
  let ?k = "k\<lparr>store := st, xNextTaskUnblockTime := n\<rparr>"
  have run: "prvAddCurrentTaskToDelayedList w k = Some ?k"
    using st(1) assms(2) st1(1)
    by (simp add: prvAddCurrentTaskToDelayedList_def delay_list_def n_def split: if_splits)
  have lists: "has_lists ?k (X(?l := ?ys))" using st(2) by (simp add: has_lists_def)
  have delayed: "?l \<in> {5, 6}" using delayed_lists [OF ok(2)] by (simp add: delay_list_def)
  have sets: "set (?ys) = insert ?i (set (X ?l))"
    by (metis (no_types, lifting) Un_insert_right list.simps(15) set_append takeWhile_dropWhile_id)
  have mem: "x \<in> set ((X(?l := ?ys)) m) \<longleftrightarrow> x \<in> set (X m) \<or> (m = ?l \<and> x = ?i)" for x m
    by (metis (no_types, lifting) fun_upd_other fun_upd_same insert_iff sets)
  have moved: "moved k ?i (Some ?l) ?k"
    using free by (intro has_lists_moved [OF ok(1) lists]) (simp only: mem, auto)
  have "kinds ?k (X(?l := ?ys))"
  proof -
    have "kind k ?l ?i" using delayed by (auto simp: kind_def)
    then have "kind k m x" if "x \<in> set ((X(?l := ?ys)) m)" for m x
      using ok(2) that unfolding mem kinds_def by blast
    then have "kind ?k m x" if "x \<in> set ((X(?l := ?ys)) m)" for m x
      using that by (simp add: kind_def)
    then show ?thesis using ok(2) unfolding kinds_def by simp
  qed
  moreover have "marked ?k (X(?l := ?ys)) {}"
    by (rule marked_other [OF ok(3)]) (use delayed in auto)
  moreover have "timed ?k (X(?l := ?ys))"
  proof -
    have old: "map (item_value ?k) (X m) = map (item_value k) (X m)" for m
      using free val by auto
    have new: "sorted (map (item_value ?k) ?ys)" if "sorted (map (item_value k) (X ?l))"
    proof -
      have eq: "item_value ?k = (\<lambda>x. value_of st1 (Item x))"
        by (rule ext, simp add: val1 val)
      have "sorted (map (\<lambda>x. value_of st1 (Item x)) (X ?l))"
        using that old [of ?l] unfolding eq by (simp only:)
      moreover have "value_of st1 (Item ?i) = w" by (simp add: val1)
      ultimately show ?thesis unfolding eq by (rule sorted_insert_behind)
    qed
    have sorted: "sorted (map (item_value ?k) ((X(?l := ?ys)) m))" if "sorted (map (item_value k) (X m))" for m
    proof (cases "m = ?l")
      case True
      then show ?thesis using new that by (simp only: fun_upd_same)
    next
      case False
      show ?thesis using that unfolding fun_upd_other [OF False] old .
    qed
    have over: "item_value ?k x < xTickCount k" if "x \<in> set ((X(?l := ?ys)) (pxOverflowDelayedTaskList k))" for x
    proof (cases "x = ?i")
      case True
      then have "pxOverflowDelayedTaskList k = ?l" using that free unfolding mem by blast
      then show ?thesis
        using True val delayed_lists(3) [OF ok(2)] by (simp add: delay_list_def split: if_splits)
    next
      case False
      then show ?thesis using that ok(4) val unfolding mem timed_def by auto
    qed
    have alarm: "n \<le> item_value ?k x" if "x \<in> set ((X(?l := ?ys)) (pxDelayedTaskList k))" for x
    proof (cases "x = ?i")
      case True
      then have "pxDelayedTaskList k = ?l" using that free unfolding mem by blast
      then show ?thesis
        using True val delayed_lists(3) [OF ok(2)] by (auto simp: delay_list_def n_def not_less split: if_splits)
    next
      case False
      then have "xNextTaskUnblockTime k \<le> item_value ?k x"
        using that ok(4) val unfolding mem timed_def by auto
      then show ?thesis by (auto simp: n_def)
    qed
    show ?thesis
      using ok(4) sorted over alarm unfolding timed_def by simp
  qed
  ultimately have "kernel_inv ?k {}" using lists unfolding kernel_inv_def kernel_ok_def by blast
  moreover have "delayed_to c w k ?k"
    using moved val st(4) st1(4) unfolding delayed_to_def by auto
  ultimately show ?thesis using run by blast
qed

text \<open>The bit map and the leading zeros give the ready list of highest priority that is not empty.\<close>

lemma ucPortCountLeadingZeros_at:
  assumes "bit w p" "p < 32" "\<And>q. p < q \<Longrightarrow> \<not> bit w q"
  shows "ucPortCountLeadingZeros w = 31 - p"
proof -
  have "[0..<32] = [0..<p] @ p # [Suc p..<32]"
    using assms(2) by (metis le_add_same_cancel1 le_add_diff_inverse less_imp_le upt_add_eq_append upt_conv_Cons zero_le)
  then have rev: "rev [0..<32] = rev [Suc p..<32] @ p # rev [0..<p]" by simp
  have "takeWhile (\<lambda>n. \<not> bit w n) (rev [0..<32]) = rev [Suc p..<32]"
    unfolding rev using assms(1,3) by (subst takeWhile_append2) auto
  then show ?thesis by (simp add: ucPortCountLeadingZeros_def)
qed

lemma switch_inv:
  assumes "kernel_inv k {}" "uxSchedulerSuspended k = 0" "item_container (xGenericListItem u) k = Some (priority k u)"
  shows "\<exists>k' t st. vTaskSwitchContext k = Some k' \<and> k' = k\<lparr>store := st, pxCurrentTCB := Some t, xYieldPending := False\<rparr>
    \<and> items st = items (store k) \<and> item_container (xGenericListItem t) k = Some (priority k t)
    \<and> priority k u \<le> priority k t \<and> kernel_inv k' {}"
proof -
  obtain X where X: "kernel_ok k X {}" using assms(1) unfolding kernel_inv_def by blast
  note ok = kernel_okD [OF X]
  let ?w = "uxTopReadyPriority k"
  have bits: "bit ?w p \<longleftrightarrow> p < 5 \<and> X p \<noteq> []" for p using ok(3) unfolding marked_def by blast
  have "X (priority k u) \<noteq> []" using kernel_ok_at [OF X] assms(3) by (metis empty_iff list.set(1))
  then have u: "bit ?w (priority k u)" using bits inv_priority [OF assms(1)] by blast
  define p where "p = Max {p. bit ?w p}"
  have finite: "finite {p. bit ?w p}"
    by (rule finite_subset [of _ "{..<5}"]) (auto simp: bits)
  have "p \<in> {p. bit ?w p}" unfolding p_def by (rule Max_in [OF finite]) (use u in blast)
  then have p: "bit ?w p" "p < 5" "X p \<noteq> []" using bits by simp_all
  have max: "q \<le> p" if "bit ?w q" for q
    unfolding p_def by (rule Max_ge [OF finite]) (use that in blast)
  have clz: "ucPortCountLeadingZeros ?w = 31 - p"
    by (rule ucPortCountLeadingZeros_at) (use p max in \<open>auto simp: not_le [symmetric]\<close>)
  obtain c where rep: "list_rep (store k) p (X p) c" using ok(1) unfolding has_lists_def by blast
  let ?x = "X p ! (next_cursor (X p) c - 1)"
  obtain st where st: "listGET_OWNER_OF_NEXT_ENTRY p (store k) = Some (pvOwner (items (store k) (Item ?x)), st)"
      "list_rep st p (X p) (next_cursor (X p) c)" "items st = items (store k)"
      "\<forall>m ys j. m \<noteq> p \<longrightarrow> list_rep (store k) m ys j \<longrightarrow> list_rep st m ys j"
    using next_entry_rep [OF rep p(3)] by blast
  have "next_cursor (X p) c - 1 < length (X p)" using p(3) by (auto simp: next_cursor_def)
  then have x: "?x \<in> set (X p)" by simp
  then have "kind k p ?x" using ok(2) unfolding kinds_def by blast
  then obtain t where t: "?x = xGenericListItem t" "priority k t = p" using p(2) unfolding kind_def by auto
  have owner: "pvOwner (items (store k) (Item ?x)) = t"
    using has_lists_proper [OF ok(1) x] unfolding t proper_def by simp
  let ?k = "k\<lparr>store := st, pxCurrentTCB := Some t, xYieldPending := False\<rparr>"
  have run: "vTaskSwitchContext k = Some ?k"
    using assms(2) st(1) owner p(2)
    by (simp add: vTaskSwitchContext_def taskSELECT_HIGHEST_PRIORITY_TASK_def clz configMAX_PRIORITIES_def Let_def)
  have "has_lists (k\<lparr>store := st\<rparr>) (X(p := X p))"
    using st by (intro has_lists_change [OF ok(1) st(2)]) (auto intro: has_lists_proper [OF ok(1)])
  then have "kernel_ok (k\<lparr>store := st\<rparr>) X {}"
    using ok st(3) by (simp add: kernel_ok_def kinds_def kind_def marked_def timed_def)
  then have "kernel_ok ?k X {}" by (rule kernel_ok_fields) (use ok(2) in \<open>auto simp: kinds_def\<close>)
  moreover have "item_container (xGenericListItem t) k = Some (priority k t)"
    using kernel_ok_at [OF X] x t by simp
  moreover have "priority k u \<le> priority k t" using max [OF u] t(2) by simp
  ultimately show ?thesis using run st(3) unfolding kernel_inv_def by blast
qed

subsection \<open>The tick\<close>

text \<open>A change of the lists, the bit map and the alarm only.\<close>

definition same_time :: "kernel \<Rightarrow> kernel \<Rightarrow> bool" where
  "same_time k k' \<longleftrightarrow>
     (\<exists>st top n. k' = k\<lparr>store := st, uxTopReadyPriority := top, xNextTaskUnblockTime := n\<rparr>
        \<and> (\<forall>x. value_of st x = value_of (store k) x) \<and> (\<forall>x. pvOwner (items st x) = pvOwner (items (store k) x)))"

lemma same_time_fields:
  assumes "same_time k k'"
  shows "tcbs k' = tcbs k" "pxCurrentTCB k' = pxCurrentTCB k" "pxDelayedTaskList k' = pxDelayedTaskList k"
    "pxOverflowDelayedTaskList k' = pxOverflowDelayedTaskList k" "uxCurrentNumberOfTasks k' = uxCurrentNumberOfTasks k"
    "xTickCount k' = xTickCount k" "xSchedulerRunning k' = xSchedulerRunning k" "uxPendedTicks k' = uxPendedTicks k"
    "xYieldPending k' = xYieldPending k" "xNumOfOverflows k' = xNumOfOverflows k"
    "uxSchedulerSuspended k' = uxSchedulerSuspended k" "uxTasksDeleted k' = uxTasksDeleted k"
    "switch_pended k' = switch_pended k" "item_value k' i = item_value k i"
  using assms unfolding same_time_def by auto

lemma same_time_alarm: "same_time k (k\<lparr>xNextTaskUnblockTime := n\<rparr>)"
  unfolding same_time_def
  by (rule exI [of _ "store k"], rule exI [of _ "uxTopReadyPriority k"], rule exI [of _ n]) simp

lemma same_rest_time: "same_rest k k' \<Longrightarrow> same_time k k'"
  unfolding same_rest_def same_time_def
proof (elim exE conjE)
  fix st top
  assume "k' = k\<lparr>store := st, uxTopReadyPriority := top\<rparr>" "\<forall>x. value_of st x = value_of (store k) x"
    "\<forall>x. pvOwner (items st x) = pvOwner (items (store k) x)"
  then show "\<exists>st top n. k' = k\<lparr>store := st, uxTopReadyPriority := top, xNextTaskUnblockTime := n\<rparr>
      \<and> (\<forall>x. value_of st x = value_of (store k) x) \<and> (\<forall>x. pvOwner (items st x) = pvOwner (items (store k) x))"
    by (intro exI [of _ st] exI [of _ top] exI [of _ "xNextTaskUnblockTime k"]) simp
qed

lemma same_time_trans: "same_time k k' \<Longrightarrow> same_time k' k'' \<Longrightarrow> same_time k k''"
  unfolding same_time_def by (elim exE conjE) (simp, blast)

text \<open>The tasks whose time has come, and what becomes of them.\<close>

definition woken :: "kernel \<Rightarrow> nat \<Rightarrow> bool" where
  "woken k t \<longleftrightarrow> item_container (xGenericListItem t) k = Some (pxDelayedTaskList k)
     \<and> item_value k (xGenericListItem t) \<le> xTickCount k"

definition unblocked :: "(nat \<Rightarrow> bool) \<Rightarrow> kernel \<Rightarrow> kernel \<Rightarrow> bool" where
  "unblocked P k k' \<longleftrightarrow>
     (\<forall>t. item_container (xGenericListItem t) k' = (if P t then Some (priority k t) else item_container (xGenericListItem t) k)
        \<and> item_container (xEventListItem t) k' = (if P t then None else item_container (xEventListItem t) k))"

lemma delayed_head:
  assumes "has_lists k X" "kinds k X" "X l = x # xs" "l \<in> {5, 6}"
  shows "\<exists>t. x = xGenericListItem t \<and> listGET_OWNER_OF_HEAD_ENTRY l (store k) = Some t"
proof -
  have "kind k l x" using assms(2,3) unfolding kinds_def by (metis list.set_intros(1))
  then obtain t where t: "x = xGenericListItem t"
    using assms(4) unfolding kind_def by (auto split: if_splits)
  have "proper (store k) (x div 2)" using has_lists_proper [OF assms(1), of x l] assms(3) by simp
  then show ?thesis using has_lists_head [OF assms(1,3)] t unfolding proper_def by simp
qed

lemma sorted_head: "sorted (map f (x # xs)) \<Longrightarrow> y \<in> set (x # xs) \<Longrightarrow> f x \<le> f y"
  by auto

lemma reset_alarm:
  assumes "has_lists k X" "kinds k X" "sorted (map (item_value k) (X (pxDelayedTaskList k)))"
  shows "\<exists>n. prvResetNextTaskUnblockTime k = Some (k\<lparr>xNextTaskUnblockTime := n\<rparr>)
    \<and> (\<forall>x\<in>set (X (pxDelayedTaskList k)). n \<le> item_value k x)"
proof (cases "X (pxDelayedTaskList k)")
  case Nil
  then show ?thesis using has_lists_empty [OF assms(1)] by (auto simp: prvResetNextTaskUnblockTime_def)
next
  case (Cons x xs)
  obtain t where t: "x = xGenericListItem t" "listGET_OWNER_OF_HEAD_ENTRY (pxDelayedTaskList k) (store k) = Some t"
    using delayed_head [OF assms(1,2) Cons] delayed_lists(1) [OF assms(2)] by blast
  have "prvResetNextTaskUnblockTime k = Some (k\<lparr>xNextTaskUnblockTime := item_value k x\<rparr>)"
    using t Cons has_lists_empty [OF assms(1)] by (simp add: prvResetNextTaskUnblockTime_def listGET_LIST_ITEM_VALUE_def)
  then show ?thesis
    using assms(3) sorted_head [of "item_value k" x xs] unfolding Cons by blast
qed

lemma alarm_ok:
  assumes "kernel_ok k X S" "\<And>x. x \<in> set (X (pxDelayedTaskList k)) \<Longrightarrow> n \<le> item_value k x"
  shows "kernel_ok (k\<lparr>xNextTaskUnblockTime := n\<rparr>) X S"
proof -
  have "timed (k\<lparr>xNextTaskUnblockTime := n\<rparr>) X"
    using kernel_okD(4) [OF assms(1)] assms(2) unfolding timed_def by simp
  then show ?thesis
    using assms(1) by (simp add: kernel_ok_def has_lists_def kinds_def kind_def marked_def)
qed

lemma unblock_done:
  assumes X: "kernel_ok k X {}" and D: "D = pxDelayedTaskList k" and v: "\<And>x. x \<in> set (X D) \<Longrightarrow> v \<le> item_value k x"
    and later: "\<And>x. x \<in> set (X D) \<Longrightarrow> xTickCount k < item_value k x"
  shows "same_time k (k\<lparr>xNextTaskUnblockTime := v\<rparr>) \<and> kernel_inv (k\<lparr>xNextTaskUnblockTime := v\<rparr>) {}
    \<and> future (k\<lparr>xNextTaskUnblockTime := v\<rparr>) \<and> unblocked (woken k) k (k\<lparr>xNextTaskUnblockTime := v\<rparr>) \<and> (\<forall>t. \<not> woken k t)"
proof -
  have none: "\<not> woken k t" for t
    using later kernel_ok_at [OF X] D unfolding woken_def by (metis not_le)
  have "future (k\<lparr>xNextTaskUnblockTime := v\<rparr>)"
    using later kernel_ok_at [OF X] D unfolding future_def item_container_def by simp
  moreover have "unblocked (woken k) k (k\<lparr>xNextTaskUnblockTime := v\<rparr>)"
    using none unfolding unblocked_def item_container_def by simp
  ultimately show ?thesis
    using same_time_alarm alarm_ok [OF X] v none D unfolding kernel_inv_def by blast
qed

lemma item_cases:
  obtains (generic) u where "y = xGenericListItem u" | (event) u where "y = xEventListItem u"
  unfolding xGenericListItem_def xEventListItem_def by (metis oddE evenE)

lemma unblock_step:
  assumes "kernel_inv k {}" "woken k t"
  shows "\<exists>n k1 k2. remove_item (xGenericListItem t) k = Some (n, k1)
    \<and> (if item_container (xEventListItem t) k1 \<noteq> None
        then map_option snd (remove_item (xEventListItem t) k1) else Some k1) = Some k2
    \<and> same_rest k (prvAddTaskToReadyList t k2) \<and> kernel_inv (prvAddTaskToReadyList t k2) {}
    \<and> unblocked (\<lambda>u. u = t) k (prvAddTaskToReadyList t k2)"
proof -
  let ?i = "xGenericListItem t"
  obtain X where X: "kernel_ok k X {}" using assms(1) unfolding kernel_inv_def by blast
  have at: "item_container ?i k = Some (pxDelayedTaskList k)" using assms(2) unfolding woken_def by blast
  have "5 \<le> pxDelayedTaskList k" using delayed_lists [OF kernel_okD(2) [OF X]] by auto
  then obtain n k1 where k1: "remove_item ?i k = Some (n, k1)" "same_rest k k1" "moved k ?i None k1" "kernel_inv k1 {}"
    using remove_inv [OF assms(1) at] by blast
  obtain k2 where k2: "(if item_container (xEventListItem t) k1 \<noteq> None
        then map_option snd (remove_item (xEventListItem t) k1) else Some k1) = Some k2"
      "same_rest k1 k2" "moved k1 (xEventListItem t) None k2" "kernel_inv k2 {}"
    using drop_event_inv [OF k1(4)] by blast
  have rest: "same_rest k k2" by (rule same_rest_trans [OF k1(2) k2(2)])
  have "proper (store k2) t"
    using inv_proper [OF assms(1), of ?i] at same_rest_proper [OF rest] by simp
  moreover have "item_container ?i k2 = None" using moved_at [OF k2(3)] moved_at [OF k1(3)] by simp
  ultimately have k3: "same_rest k2 (prvAddTaskToReadyList t k2)"
      "moved k2 ?i (Some (priority k2 t)) (prvAddTaskToReadyList t k2)"
      "kernel_inv (prvAddTaskToReadyList t k2) ({} - {priority k2 t})"
    using add_ready_inv [OF k2(4), of t] by blast+
  have prio: "priority k2 t = priority k t" by (simp only: same_rest_fields [OF rest])
  have "unblocked (\<lambda>u. u = t) k (prvAddTaskToReadyList t k2)"
    unfolding unblocked_def using moved_at [OF k1(3)] moved_at [OF k2(3)] moved_at [OF k3(2)] prio by simp
  then show ?thesis
    using k1(1) k2(1) same_rest_trans [OF rest k3(1)] k3(3) by auto
qed

lemma unblocked_woken:
  assumes "unblocked (\<lambda>u. u = t) k k'" "same_rest k k'" "woken k t" "kernel_inv k {}"
  shows "woken k' u \<longleftrightarrow> woken k u \<and> u \<noteq> t"
proof -
  have "pxDelayedTaskList k \<noteq> priority k t"
    using assms(4) delayed_lists(1) kernel_okD(2) inv_priority [OF assms(4), of t] unfolding kernel_inv_def by fastforce
  then show ?thesis
    using assms(1,3) unfolding woken_def unblocked_def same_rest_fields [OF assms(2)] by auto
qed

lemma unblocked_trans:
  assumes "unblocked P k k'" "unblocked Q k' k''" "tcbs k' = tcbs k" "\<And>u. R u \<longleftrightarrow> P u \<or> Q u" "\<And>u. \<not> (P u \<and> Q u)"
  shows "unblocked R k k''"
  using assms(1,2,4,5) unfolding unblocked_def assms(3) by auto

lemma unblock_loop_inv:
  assumes "kernel_inv k {}" "pxCurrentTCB k = Some c"
  shows "\<exists>k'. unblock_loop sw k = Some (sw \<or> (\<exists>t. woken k t \<and> priority k c \<le> priority k t), k')
    \<and> same_time k k' \<and> kernel_inv k' {} \<and> future k' \<and> unblocked (woken k) k k'"
  using assms
proof (induction "card {x. item_container x k = Some (pxDelayedTaskList k)}" arbitrary: k sw rule: less_induct)
  case less
  obtain X where X: "kernel_ok k X {}" using less.prems(1) unfolding kernel_inv_def by blast
  note ok = kernel_okD [OF X]
  let ?D = "pxDelayedTaskList k"
  have empty: "listLIST_IS_EMPTY ?D (store k) \<longleftrightarrow> X ?D = []" by (rule has_lists_empty [OF ok(1)])
  have sorted: "sorted (map (item_value k) (X ?D))" using ok(4) unfolding timed_def by blast
  show ?case
  proof (cases "X ?D")
    case Nil
    then have run: "unblock_loop sw k = Some (sw, k\<lparr>xNextTaskUnblockTime := portMAX_DELAY\<rparr>)"
      by (subst unblock_loop.simps) (simp add: empty)
    have "same_time k (k\<lparr>xNextTaskUnblockTime := portMAX_DELAY\<rparr>) \<and> kernel_inv (k\<lparr>xNextTaskUnblockTime := portMAX_DELAY\<rparr>) {}
      \<and> future (k\<lparr>xNextTaskUnblockTime := portMAX_DELAY\<rparr>)
      \<and> unblocked (woken k) k (k\<lparr>xNextTaskUnblockTime := portMAX_DELAY\<rparr>) \<and> (\<forall>t. \<not> woken k t)"
      by (rule unblock_done [OF X refl]) (simp_all add: Nil)
    then show ?thesis using run by auto
  next
    case (Cons x xs)
    obtain t where t: "x = xGenericListItem t" "listGET_OWNER_OF_HEAD_ENTRY ?D (store k) = Some t"
      using delayed_head [OF ok(1,2) Cons delayed_lists(1) [OF ok(2)]] by blast
    let ?v = "item_value k x"
    have v: "listGET_LIST_ITEM_VALUE (xGenericListItem t) (store k) = ?v"
      by (simp add: listGET_LIST_ITEM_VALUE_def t(1))
    show ?thesis
    proof (cases "xTickCount k < ?v")
      case True
      have run: "unblock_loop sw k = Some (sw, k\<lparr>xNextTaskUnblockTime := ?v\<rparr>)"
        using True t(2) v Cons by (subst unblock_loop.simps) (simp add: empty)
      have head: "?v \<le> item_value k y" if "y \<in> set (X ?D)" for y
        using sorted_head [of "item_value k" x xs y] sorted that unfolding Cons by blast
      have "same_time k (k\<lparr>xNextTaskUnblockTime := ?v\<rparr>) \<and> kernel_inv (k\<lparr>xNextTaskUnblockTime := ?v\<rparr>) {}
        \<and> future (k\<lparr>xNextTaskUnblockTime := ?v\<rparr>) \<and> unblocked (woken k) k (k\<lparr>xNextTaskUnblockTime := ?v\<rparr>) \<and> (\<forall>t. \<not> woken k t)"
        by (rule unblock_done [OF X refl head order.strict_trans2 [OF True head]])
      then show ?thesis using run by auto
    next
      case False
      have woken: "woken k t"
        using False kernel_ok_at [OF X, of x ?D] Cons t(1) unfolding woken_def by (simp add: not_less)
      obtain n k1 k2 where step: "remove_item (xGenericListItem t) k = Some (n, k1)"
          "(if item_container (xEventListItem t) k1 \<noteq> None
             then map_option snd (remove_item (xEventListItem t) k1) else Some k1) = Some k2"
          "same_rest k (prvAddTaskToReadyList t k2)" "kernel_inv (prvAddTaskToReadyList t k2) {}"
          "unblocked (\<lambda>u. u = t) k (prvAddTaskToReadyList t k2)"
        using unblock_step [OF less.prems(1) woken] by blast
      let ?k3 = "prvAddTaskToReadyList t k2"
      let ?sw = "if priority k c \<le> priority k t then True else sw"
      have fields: "tcbs ?k3 = tcbs k" "pxCurrentTCB ?k3 = Some c" "pxDelayedTaskList ?k3 = ?D"
        using less.prems(2) by (simp_all only: same_rest_fields [OF step(3)])
      have run: "unblock_loop sw k = unblock_loop ?sw ?k3"
        using False t(2) v Cons step(1) fields
        by (subst unblock_loop.simps) (simp add: empty step(2) Let_def del: not_None_eq split del: if_split)
      have in_k: "item_container y k = Some ?D \<and> y \<noteq> x" if "item_container y ?k3 = Some ?D" for y
      proof (cases y rule: item_cases)
        case (generic u)
        then show ?thesis
          using that step(5) t(1) inv_priority [OF less.prems(1), of t] delayed_lists(1) [OF ok(2)]
          unfolding unblocked_def by (auto split: if_splits)
      next
        case (event u)
        then show ?thesis
          using that step(5) t(1) unfolding unblocked_def by (auto split: if_splits)
      qed
      have "{y. item_container y ?k3 = Some ?D} \<subset> {y. item_container y k = Some ?D}"
        using in_k kernel_ok_at [OF X, of x ?D] Cons by auto
      moreover have "finite {y. item_container y k = Some ?D}"
        using kernel_ok_at [OF X] by simp
      ultimately have "card {y. item_container y ?k3 = Some (pxDelayedTaskList ?k3)} < card {y. item_container y k = Some ?D}"
        unfolding fields(3) by (rule psubset_card_mono [rotated])
      from less.hyps [OF this step(4) fields(2), of ?sw]
      obtain k' where k': "unblock_loop ?sw ?k3 = Some (?sw \<or> (\<exists>u. woken ?k3 u \<and> priority ?k3 c \<le> priority ?k3 u), k')"
          "same_time ?k3 k'" "kernel_inv k' {}" "future k'" "unblocked (woken ?k3) ?k3 k'"
        by blast
      note woken3 = unblocked_woken [OF step(5,3) woken less.prems(1)]
      have "unblocked (woken k) k k'"
        by (rule unblocked_trans [OF step(5) k'(5) fields(1)]) (use woken3 woken in auto)
      moreover have "(?sw \<or> (\<exists>u. woken ?k3 u \<and> priority ?k3 c \<le> priority ?k3 u)) =
          (sw \<or> (\<exists>u. woken k u \<and> priority k c \<le> priority k u))"
        using woken woken3 unfolding fields(1) by auto
      ultimately show ?thesis
        using run k' same_time_trans [OF same_rest_time [OF step(3)] k'(2)] by auto
    qed
  qed
qed

text \<open>What the tick, and the calls that make tasks ready, leave alone.\<close>

definition same_tasks :: "kernel \<Rightarrow> kernel \<Rightarrow> bool" where
  "same_tasks k k' \<longleftrightarrow> tcbs k' = tcbs k \<and> pxCurrentTCB k' = pxCurrentTCB k
     \<and> uxCurrentNumberOfTasks k' = uxCurrentNumberOfTasks k \<and> xSchedulerRunning k' = xSchedulerRunning k
     \<and> uxSchedulerSuspended k' = uxSchedulerSuspended k \<and> uxTasksDeleted k' = uxTasksDeleted k
     \<and> (\<forall>x. item_value k' x = item_value k x) \<and> (\<forall>x. pvOwner (items (store k') x) = pvOwner (items (store k) x))"

lemma same_tasks_fields:
  assumes "same_tasks k k'"
  shows "tcbs k' = tcbs k" "pxCurrentTCB k' = pxCurrentTCB k"
    "uxCurrentNumberOfTasks k' = uxCurrentNumberOfTasks k" "xSchedulerRunning k' = xSchedulerRunning k"
    "uxSchedulerSuspended k' = uxSchedulerSuspended k" "uxTasksDeleted k' = uxTasksDeleted k"
    "item_value k' i = item_value k i" "proper (store k') = proper (store k)"
  using assms unfolding same_tasks_def proper_def by (auto simp: fun_eq_iff)

lemma same_tasks_refl [simp]: "same_tasks k k"
  by (simp add: same_tasks_def)

lemma same_tasks_trans: "same_tasks k k' \<Longrightarrow> same_tasks k' k'' \<Longrightarrow> same_tasks k k''"
  by (simp add: same_tasks_def)

lemma same_time_tasks: "same_time k k' \<Longrightarrow> same_tasks k k'"
  unfolding same_time_def same_tasks_def by auto

lemma same_rest_tasks: "same_rest k k' \<Longrightarrow> same_tasks k k'"
  by (rule same_time_tasks [OF same_rest_time])

lemma word_Suc_less:
  fixes v w :: u32
  assumes "w + 1 \<noteq> 0"
  shows "v < w \<Longrightarrow> v < w + 1" "w < v \<Longrightarrow> v \<le> w + 1 \<longleftrightarrow> v = w + 1" "w < w + 1"
proof -
  have "unat (w + 1) = Suc (unat w)" using assms by (metis add.commute unatSuc)
  then show "v < w \<Longrightarrow> v < w + 1" "w < v \<Longrightarrow> v \<le> w + 1 \<longleftrightarrow> v = w + 1" "w < w + 1"
    unfolding word_less_nat_alt word_le_nat_alt word_unat_eq_iff by auto
qed

lemma word_Suc_0: "(w :: u32) + 1 = 0 \<Longrightarrow> v \<le> w"
  by (metis add.inverse_inverse add_eq_0_iff word_n1_ge)

text \<open>The tasks that the next tick wakes.\<close>

definition due :: "kernel \<Rightarrow> nat \<Rightarrow> bool" where
  "due k t \<longleftrightarrow> item_container (xGenericListItem t) k \<in> {Some xDelayedTaskList1, Some xDelayedTaskList2}
     \<and> item_value k (xGenericListItem t) = xTickCount k + 1"

lemma tick_start:
  assumes "kernel_inv k {}" "future k"
  shows "\<exists>k2. (if xTickCount k + 1 = 0 then taskSWITCH_DELAYED_LISTS (k\<lparr>xTickCount := xTickCount k + 1\<rparr>)
      else Some (k\<lparr>xTickCount := xTickCount k + 1\<rparr>)) = Some k2
    \<and> kernel_inv k2 {} \<and> (\<forall>t. woken k2 t \<longleftrightarrow> due k t) \<and> store k2 = store k \<and> same_tasks k k2
    \<and> xTickCount k2 = xTickCount k + 1 \<and> uxPendedTicks k2 = uxPendedTicks k \<and> xYieldPending k2 = xYieldPending k
    \<and> switch_pended k2 = switch_pended k"
proof -
  obtain X where X: "kernel_ok k X {}" using assms(1) unfolding kernel_inv_def by blast
  note ok = kernel_okD [OF X]
  let ?D = "pxDelayedTaskList k" and ?O = "pxOverflowDelayedTaskList k" and ?n = "xTickCount k + 1"
  have lists: "{?D, ?O} = {5, 6}" using ok(2) unfolding kinds_def by blast
  have over: "item_value k x < xTickCount k" if "x \<in> set (X ?O)" for x
    using ok(4) that unfolding timed_def by blast
  have later: "xTickCount k < item_value k x" if "x \<in> set (X ?D)" for x
    using assms(2) that kernel_ok_at [OF X] unfolding future_def by blast
  have due: "due k t \<longleftrightarrow> (xGenericListItem t \<in> set (X ?D) \<or> xGenericListItem t \<in> set (X ?O)) \<and> item_value k (xGenericListItem t) = ?n" for t
    using kernel_ok_at [OF X] lists unfolding due_def rtos_defs by (metis doubleton_eq_iff empty_iff insert_iff)
  show ?thesis
  proof (cases "?n = 0")
    case False
    let ?k2 = "k\<lparr>xTickCount := ?n\<rparr>"
    have "timed ?k2 X" using ok(4) over word_Suc_less(1) [OF False] unfolding timed_def by simp
    then have "kernel_inv ?k2 {}"
      using ok unfolding kernel_inv_def by (intro exI [of _ X]) (simp add: kernel_ok_def has_lists_def kinds_def kind_def marked_def)
    moreover have "woken ?k2 t \<longleftrightarrow> due k t" for t
    proof -
      have "item_container x ?k2 = item_container x k" for x by (simp add: item_container_def)
      then have "woken ?k2 t \<longleftrightarrow> xGenericListItem t \<in> set (X ?D) \<and> item_value k (xGenericListItem t) \<le> ?n"
        using kernel_ok_at [OF X] unfolding woken_def by simp
      also have "\<dots> \<longleftrightarrow> xGenericListItem t \<in> set (X ?D) \<and> item_value k (xGenericListItem t) = ?n"
        using later word_Suc_less(2) [OF False] by blast
      also have "\<dots> \<longleftrightarrow> due k t"
        unfolding due using over word_Suc_less(3) [OF False] by (metis order.asym)
      finally show ?thesis .
    qed
    ultimately show ?thesis using False by (simp add: same_tasks_def)
  next
    case True
    have none: "X ?D = []" using later word_Suc_0 [OF True] by (metis leD list.set_intros(1) neq_Nil_conv)
    let ?k1 = "k\<lparr>xTickCount := ?n, pxDelayedTaskList := ?O, pxOverflowDelayedTaskList := ?D, xNumOfOverflows := xNumOfOverflows k + 1\<rparr>"
    have fields: "has_lists ?k1 X" "kinds ?k1 X" "sorted (map (item_value ?k1) (X (pxDelayedTaskList ?k1)))"
      using ok lists by (simp_all add: has_lists_def kinds_def kind_def timed_def insert_commute)
    obtain n where n: "prvResetNextTaskUnblockTime ?k1 = Some (?k1\<lparr>xNextTaskUnblockTime := n\<rparr>)"
        "\<forall>x\<in>set (X (pxDelayedTaskList ?k1)). n \<le> item_value ?k1 x"
      using reset_alarm [OF fields] by blast
    let ?k2 = "?k1\<lparr>xNextTaskUnblockTime := n\<rparr>"
    have run: "taskSWITCH_DELAYED_LISTS (k\<lparr>xTickCount := ?n\<rparr>) = Some ?k2"
      using n(1) by (simp add: taskSWITCH_DELAYED_LISTS_def)
    have "timed ?k2 X" using n(2) fields(3) none unfolding timed_def by simp
    moreover have "kinds ?k2 X" by (rule kinds_same [OF ok(2)]) (use lists ok(2) in \<open>auto simp: kinds_def\<close>)
    ultimately have "kernel_ok ?k2 X {}"
      using fields(1) ok(3) by (simp add: kernel_ok_def has_lists_def marked_def)
    then have "kernel_inv ?k2 {}" unfolding kernel_inv_def by blast
    moreover have "woken ?k2 t \<longleftrightarrow> due k t" for t
    proof -
      have "item_container x ?k2 = item_container x k" for x by (simp add: item_container_def)
      then have "woken ?k2 t \<longleftrightarrow> xGenericListItem t \<in> set (X ?O) \<and> item_value k (xGenericListItem t) \<le> ?n"
        using kernel_ok_at [OF X] unfolding woken_def by simp
      also have "\<dots> \<longleftrightarrow> due k t" unfolding due True using none by simp
      finally show ?thesis .
    qed
    ultimately show ?thesis using True run by (simp add: same_tasks_def)
  qed
qed

lemma same_time_fields':
  assumes "same_time k k'"
  shows "uxPendedTicks k' = uxPendedTicks k" "xYieldPending k' = xYieldPending k" "switch_pended k' = switch_pended k"
    "xTickCount k' = xTickCount k"
  by (simp_all only: same_time_fields [OF assms])

lemma tick_inv:
  assumes "kernel_inv k {}" "future k" "uxSchedulerSuspended k = 0"
  shows "\<exists>sw k'. xTaskIncrementTick k = Some (sw, k') \<and> kernel_inv k' {} \<and> future k' \<and> unblocked (due k) k k'
    \<and> same_tasks k k' \<and> xTickCount k' = xTickCount k + 1 \<and> uxPendedTicks k' = uxPendedTicks k
    \<and> xYieldPending k' = xYieldPending k \<and> switch_pended k' = switch_pended k"
proof -
  obtain k2 where k2: "(if xTickCount k + 1 = 0 then taskSWITCH_DELAYED_LISTS (k\<lparr>xTickCount := xTickCount k + 1\<rparr>)
      else Some (k\<lparr>xTickCount := xTickCount k + 1\<rparr>)) = Some k2"
      "kernel_inv k2 {}" "\<forall>t. woken k2 t \<longleftrightarrow> due k t" "store k2 = store k" "same_tasks k k2"
      "xTickCount k2 = xTickCount k + 1" "uxPendedTicks k2 = uxPendedTicks k" "xYieldPending k2 = xYieldPending k"
      "switch_pended k2 = switch_pended k"
    using tick_start [OF assms(1,2)] by blast
  obtain X where X: "kernel_ok k2 X {}" using k2(2) unfolding kernel_inv_def by blast
  obtain c where c: "pxCurrentTCB k2 = Some c" using kernel_okD(2) [OF X] unfolding kinds_def by blast
  have woken: "woken k2 = due k" using k2(3) by blast
  obtain sw k3 where k3: "(if xTickCount k2 \<ge> xNextTaskUnblockTime k2 then unblock_loop False k2 else Some (False, k2)) = Some (sw, k3)"
      "same_time k2 k3" "kernel_inv k3 {}" "future k3" "unblocked (woken k2) k2 k3"
  proof (cases "xTickCount k2 \<ge> xNextTaskUnblockTime k2")
    case True
    then show ?thesis using unblock_loop_inv [OF k2(2) c] that by auto
  next
    case False
    have later: "xTickCount k2 < item_value k2 x" if "x \<in> set (X (pxDelayedTaskList k2))" for x
      using kernel_okD(4) [OF X] that False unfolding timed_def by (meson not_le order.strict_trans2)
    then have "future k2" "\<not> woken k2 t" for t
      using kernel_ok_at [OF X] unfolding future_def woken_def by (auto simp: not_le)
    then show ?thesis
      using False k2(2) that [of False k2] same_rest_time [OF same_rest_refl] by (simp add: unblocked_def)
  qed
  have c3: "pxCurrentTCB k3 = Some c" using c by (simp only: same_time_fields [OF k3(2)])
  have "xTaskIncrementTick k = Some (if xYieldPending k3 then True
      else if listCURRENT_LIST_LENGTH (priority k3 c) (store k3) > 1 then True else sw, k3)"
    using assms(3) k2(1) k3(1) c3 by (simp add: xTaskIncrementTick_def Let_def split: if_splits)
  moreover have "unblocked (due k) k k3"
    using k3(5) k2(4) unfolding woken unblocked_def item_container_def same_tasks_fields(1) [OF k2(5)] by simp
  moreover have "same_tasks k k3" by (rule same_tasks_trans [OF k2(5) same_time_tasks [OF k3(2)]])
  ultimately show ?thesis
    using k3(3,4) k2(6-9) same_time_fields' [OF k3(2)] by simp
qed

subsection \<open>Resuming the scheduler\<close>

definition pends :: "kernel \<Rightarrow> nat \<Rightarrow> bool" where
  "pends k t \<longleftrightarrow> item_container (xEventListItem t) k = Some xPendingReadyList"

lemma ready_step:
  assumes "kernel_inv k {}" "paired k" "item_container (xEventListItem t) k = Some e"
  shows "\<exists>n k1 m k2. remove_item (xEventListItem t) k = Some (n, k1) \<and> remove_item (xGenericListItem t) k1 = Some (m, k2)
    \<and> same_rest k (prvAddTaskToReadyList t k2) \<and> kernel_inv (prvAddTaskToReadyList t k2) {}
    \<and> unblocked (\<lambda>u. u = t) k (prvAddTaskToReadyList t k2)"
proof -
  let ?i = "xGenericListItem t" and ?e = "xEventListItem t"
  have e: "5 \<le> e" using inv_event_at [OF assms(1,3)] by auto
  obtain l where l: "item_container ?i k = Some l" "5 \<le> l"
    using assms(2,3) unfolding paired_def by fastforce
  obtain n k1 where k1: "remove_item ?e k = Some (n, k1)" "same_rest k k1" "moved k ?e None k1" "kernel_inv k1 {}"
    using remove_inv [OF assms(1,3) e] by blast
  have "item_container ?i k1 = Some l" using moved_at [OF k1(3)] l(1) by simp
  then obtain m k2 where k2: "remove_item ?i k1 = Some (m, k2)" "same_rest k1 k2" "moved k1 ?i None k2" "kernel_inv k2 {}"
    using remove_inv [OF k1(4)] l(2) by blast
  have rest: "same_rest k k2" by (rule same_rest_trans [OF k1(2) k2(2)])
  have "proper (store k2) t"
    using inv_proper [OF assms(1), of ?i] l(1) same_rest_proper [OF rest] by simp
  moreover have "item_container ?i k2 = None" using moved_at [OF k2(3)] by simp
  ultimately have k3: "same_rest k2 (prvAddTaskToReadyList t k2)"
      "moved k2 ?i (Some (priority k2 t)) (prvAddTaskToReadyList t k2)"
      "kernel_inv (prvAddTaskToReadyList t k2) ({} - {priority k2 t})"
    using add_ready_inv [OF k2(4), of t] by blast+
  have prio: "priority k2 t = priority k t" by (simp only: same_rest_fields [OF rest])
  have "unblocked (\<lambda>u. u = t) k (prvAddTaskToReadyList t k2)"
    unfolding unblocked_def using moved_at [OF k1(3)] moved_at [OF k2(3)] moved_at [OF k3(2)] prio by simp
  then show ?thesis
    using k1(1) k2(1) same_rest_trans [OF rest k3(1)] k3(3) by auto
qed

lemma unblocked_paired:
  assumes "unblocked P k k'" "paired k"
  shows "paired k'"
  using assms unfolding unblocked_def paired_def by (auto split: if_splits)

text \<open>Nothing has changed but the lists, the bit map, the alarm and the pending yield.\<close>

definition same_clock :: "kernel \<Rightarrow> kernel \<Rightarrow> bool" where
  "same_clock k k' \<longleftrightarrow> same_tasks k k' \<and> xTickCount k' = xTickCount k \<and> uxPendedTicks k' = uxPendedTicks k
     \<and> pxDelayedTaskList k' = pxDelayedTaskList k \<and> switch_pended k' = switch_pended k"

lemma same_clock_fields:
  assumes "same_clock k k'"
  shows "same_tasks k k'" "xTickCount k' = xTickCount k" "uxPendedTicks k' = uxPendedTicks k"
    "pxDelayedTaskList k' = pxDelayedTaskList k" "switch_pended k' = switch_pended k" "tcbs k' = tcbs k"
    "item_value k' x = item_value k x"
  using assms by (auto simp: same_clock_def same_tasks_fields)

lemma same_rest_clock: "same_rest k k' \<Longrightarrow> same_clock k k'"
  unfolding same_clock_def using same_rest_tasks by (auto simp: same_rest_fields)

lemma same_clock_trans: "same_clock k k' \<Longrightarrow> same_clock k' k'' \<Longrightarrow> same_clock k k''"
  unfolding same_clock_def using same_tasks_trans by auto

lemma unblocked_future:
  assumes "unblocked P k k'" "same_clock k k'" "kernel_inv k {}" "future k"
  shows "future k'"
  unfolding future_def same_clock_fields [OF assms(2)]
proof (intro allI impI)
  fix x
  assume x: "item_container x k' = Some (pxDelayedTaskList k)"
  have D: "pxDelayedTaskList k \<in> {5, 6}"
    using assms(3) delayed_lists(1) kernel_okD(2) unfolding kernel_inv_def by blast
  have "item_container x k = Some (pxDelayedTaskList k)"
  proof (cases x rule: item_cases)
    case (generic u)
    then show ?thesis
      using x assms(1) D inv_priority [OF assms(3), of u] unfolding unblocked_def by (auto split: if_splits)
  next
    case (event u)
    then show ?thesis using x assms(1) unfolding unblocked_def by (auto split: if_splits)
  qed
  then show "xTickCount k < item_value k x" using assms(4) unfolding future_def by blast
qed

text \<open>Setting the flag of a pending yield changes nothing else.\<close>

lemma yield_flag [simp]:
  "kernel_inv (k\<lparr>xYieldPending := y\<rparr>) S = kernel_inv k S"
  "paired (k\<lparr>xYieldPending := y\<rparr>) = paired k" "future (k\<lparr>xYieldPending := y\<rparr>) = future k"
  "pends (k\<lparr>xYieldPending := y\<rparr>) = pends k" "unblocked P k' (k\<lparr>xYieldPending := y\<rparr>) = unblocked P k' k"
  "item_container x (k\<lparr>xYieldPending := y\<rparr>) = item_container x k"
  "same_clock k' (k\<lparr>xYieldPending := y\<rparr>) = same_clock k' k"
proof -
  have "kernel_ok (k\<lparr>xYieldPending := y\<rparr>) X S = kernel_ok k X S" for X
    by (auto elim: kernel_ok_fields)
  then show "kernel_inv (k\<lparr>xYieldPending := y\<rparr>) S = kernel_inv k S" unfolding kernel_inv_def by simp
qed (simp_all add: paired_def future_def pends_def unblocked_def item_container_def same_clock_def same_tasks_def fun_eq_iff)

lemma resume_pending_inv:
  assumes "kernel_inv k {}" "paired k" "future k"
  shows "\<exists>k'. resume_pending k = Some k' \<and> same_clock k k' \<and> kernel_inv k' {} \<and> future k' \<and> paired k'
    \<and> unblocked (pends k) k k' \<and> (\<forall>t. \<not> pends k' t) \<and> (xYieldPending k \<longrightarrow> xYieldPending k')"
  using assms
proof (induction "card {x. item_container x k = Some xPendingReadyList}" arbitrary: k rule: less_induct)
  case less
  obtain X where X: "kernel_ok k X {}" using less.prems(1) unfolding kernel_inv_def by blast
  note ok = kernel_okD [OF X]
  have empty: "listLIST_IS_EMPTY xPendingReadyList (store k) \<longleftrightarrow> X 7 = []"
    using has_lists_empty [OF ok(1)] unfolding rtos_defs .
  show ?case
  proof (cases "X 7")
    case Nil
    then have run: "resume_pending k = Some k" by (subst resume_pending.simps) (simp add: empty)
    have none: "\<not> pends k t" for t
      using kernel_ok_at [OF X, of "xEventListItem t" 7] Nil unfolding pends_def rtos_defs by simp
    show ?thesis
      using run none less.prems same_rest_clock [OF same_rest_refl] by (simp add: unblocked_def)
  next
    case (Cons x xs)
    have "kind k 7 x" using ok(2) Cons unfolding kinds_def by (metis list.set_intros(1))
    then obtain t where t: "x = xEventListItem t" unfolding kind_def by auto
    have owner: "listGET_OWNER_OF_HEAD_ENTRY xPendingReadyList (store k) = Some t"
      using has_lists_head [OF ok(1) Cons] has_lists_proper [OF ok(1), of x 7] Cons
      unfolding t rtos_defs proper_def by simp
    have pends: "pends k t"
      using kernel_ok_at [OF X, of x 7] Cons unfolding pends_def t rtos_defs by simp
    obtain n k1 m k2 where step: "remove_item (xEventListItem t) k = Some (n, k1)" "remove_item (xGenericListItem t) k1 = Some (m, k2)"
        "same_rest k (prvAddTaskToReadyList t k2)" "kernel_inv (prvAddTaskToReadyList t k2) {}"
        "unblocked (\<lambda>u. u = t) k (prvAddTaskToReadyList t k2)"
      using ready_step [OF less.prems(1,2) pends [unfolded pends_def]] by blast
    let ?k3 = "prvAddTaskToReadyList t k2"
    obtain c where c: "pxCurrentTCB k = Some c" using ok(2) unfolding kinds_def by blast
    let ?k4 = "if priority ?k3 t \<ge> priority ?k3 c then ?k3\<lparr>xYieldPending := True\<rparr> else ?k3"
    have c3: "pxCurrentTCB ?k3 = Some c" using c by (simp only: same_rest_fields [OF step(3)])
    have run: "resume_pending k = resume_pending ?k4"
      using step(1,2) c3 Cons
      by (subst resume_pending.simps) (simp add: empty owner Let_def split del: if_split)
    have k4: "kernel_inv ?k4 {}" "unblocked (\<lambda>u. u = t) k ?k4" "same_clock k ?k4" "xYieldPending k \<longrightarrow> xYieldPending ?k4"
      using step(4,5) same_rest_clock [OF step(3)] same_rest_fields(9) [OF step(3)] by simp_all
    have k4': "paired ?k4" "future ?k4"
      using unblocked_paired [OF k4(2) less.prems(2)] unblocked_future [OF k4(2,3) less.prems(1,3)] by blast+
    have in_k: "item_container y k = Some 7 \<and> y \<noteq> x" if "item_container y ?k4 = Some 7" for y
    proof (cases y rule: item_cases)
      case (generic u)
      then show ?thesis
        using inv_generic_at [OF k4(1), of u 7] that by simp
    next
      case (event u)
      then show ?thesis
        using that k4(2) t unfolding unblocked_def by (auto split: if_splits)
    qed
    have "{y. item_container y ?k4 = Some 7} \<subset> {y. item_container y k = Some 7}"
      using in_k pends t unfolding pends_def rtos_defs by blast
    moreover have "finite {y. item_container y k = Some 7}" using kernel_ok_at [OF X] by simp
    ultimately have "card {y. item_container y ?k4 = Some xPendingReadyList} < card {y. item_container y k = Some xPendingReadyList}"
      unfolding rtos_defs by (rule psubset_card_mono [rotated])
    from less.hyps [OF this k4(1) k4']
    obtain k' where k': "resume_pending ?k4 = Some k'" "same_clock ?k4 k'" "kernel_inv k' {}" "future k'" "paired k'"
        "unblocked (pends ?k4) ?k4 k'" "\<forall>t. \<not> pends k' t" "xYieldPending ?k4 \<longrightarrow> xYieldPending k'"
      by blast
    have pends4: "pends ?k4 u \<longleftrightarrow> pends k u \<and> u \<noteq> t" for u
      using k4(2) unfolding pends_def unblocked_def by simp
    have "unblocked (pends k) k k'"
      by (rule unblocked_trans [OF k4(2) k'(6)]) (use pends4 pends k4(3) in \<open>auto simp: same_clock_fields\<close>)
    then show ?thesis
      using run k' k4(4) same_clock_trans [OF k4(3) k'(2)] by simp
  qed
qed

text \<open>Some waiting tasks have been made ready.\<close>

definition unblocks :: "kernel \<Rightarrow> kernel \<Rightarrow> bool" where
  "unblocks k k' \<longleftrightarrow>
     (\<exists>P. unblocked P k k' \<and> (\<forall>t. P t \<longrightarrow> item_container (xGenericListItem t) k \<in> {Some 5, Some 6, Some 9}))"

lemma unblocksI:
  "unblocked P k k' \<Longrightarrow> (\<And>t. P t \<Longrightarrow> item_container (xGenericListItem t) k \<in> {Some 5, Some 6, Some 9}) \<Longrightarrow> unblocks k k'"
  unfolding unblocks_def by blast

lemma unblocks_refl [simp]: "unblocks k k"
  by (rule unblocksI [of "\<lambda>_. False"]) (simp_all add: unblocked_def)

lemma unblocks_trans:
  assumes "unblocks k k'" "unblocks k' k''" "tcbs k' = tcbs k" "kernel_inv k {}"
  shows "unblocks k k''"
proof -
  obtain P where P: "unblocked P k k'" "\<And>t. P t \<Longrightarrow> item_container (xGenericListItem t) k \<in> {Some 5, Some 6, Some 9}"
    using assms(1) unfolding unblocks_def by blast
  obtain Q where Q: "unblocked Q k' k''" "\<And>t. Q t \<Longrightarrow> item_container (xGenericListItem t) k' \<in> {Some 5, Some 6, Some 9}"
    using assms(2) unfolding unblocks_def by blast
  have not_both: "\<not> (P t \<and> Q t)" for t
    using P(1) Q(2) [of t] inv_priority [OF assms(4), of t] unfolding unblocked_def by auto
  have both: "item_container (xGenericListItem t) k \<in> {Some 5, Some 6, Some 9}" if "P t \<or> Q t" for t
  proof (cases "P t")
    case False
    then have "item_container (xGenericListItem t) k' = item_container (xGenericListItem t) k"
      using P(1) unfolding unblocked_def by simp
    then show ?thesis using Q(2) [of t] that False by simp
  qed (rule P(2))
  show ?thesis
    by (rule unblocksI [OF unblocked_trans [OF P(1) Q(1) assms(3) refl not_both]]) (use both in blast)
qed

lemma unblocks_paired: "unblocks k k' \<Longrightarrow> paired k \<Longrightarrow> paired k'"
  unfolding unblocks_def using unblocked_paired by blast

lemma unblocks_keeps:
  assumes "unblocks k k'" "kernel_inv k {}"
  shows "item_container (xGenericListItem t) k' = None \<longleftrightarrow> item_container (xGenericListItem t) k = None"
    "item_container (xGenericListItem t) k' = Some 8 \<longleftrightarrow> item_container (xGenericListItem t) k = Some 8"
    "item_container (xGenericListItem t) k = Some (priority k t) \<Longrightarrow> item_container (xGenericListItem t) k' = Some (priority k t)"
    "item_container (xEventListItem t) k' = None \<or> item_container (xEventListItem t) k' = item_container (xEventListItem t) k"
proof -
  obtain P where P: "unblocked P k k'" "P t \<longrightarrow> item_container (xGenericListItem t) k \<in> {Some 5, Some 6, Some 9}"
    using assms(1) unfolding unblocks_def by blast
  show "item_container (xGenericListItem t) k' = None \<longleftrightarrow> item_container (xGenericListItem t) k = None"
    "item_container (xGenericListItem t) k' = Some 8 \<longleftrightarrow> item_container (xGenericListItem t) k = Some 8"
    "item_container (xGenericListItem t) k = Some (priority k t) \<Longrightarrow> item_container (xGenericListItem t) k' = Some (priority k t)"
    "item_container (xEventListItem t) k' = None \<or> item_container (xEventListItem t) k' = item_container (xEventListItem t) k"
    using P inv_priority [OF assms(2), of t] unfolding unblocked_def by (cases "P t"; auto)+
qed

lemma pended_ticks [simp]:
  "kernel_inv (k\<lparr>uxPendedTicks := n\<rparr>) S = kernel_inv k S"
  "paired (k\<lparr>uxPendedTicks := n\<rparr>) = paired k" "future (k\<lparr>uxPendedTicks := n\<rparr>) = future k"
  "item_container x (k\<lparr>uxPendedTicks := n\<rparr>) = item_container x k"
  "unblocks k' (k\<lparr>uxPendedTicks := n\<rparr>) = unblocks k' k" "same_tasks k' (k\<lparr>uxPendedTicks := n\<rparr>) = same_tasks k' k"
proof -
  have "kernel_ok (k\<lparr>uxPendedTicks := n\<rparr>) X S = kernel_ok k X S" for X
    by (auto elim: kernel_ok_fields)
  then show "kernel_inv (k\<lparr>uxPendedTicks := n\<rparr>) S = kernel_inv k S" unfolding kernel_inv_def by simp
qed (simp_all add: paired_def future_def unblocks_def unblocked_def item_container_def same_tasks_def fun_eq_iff)

lemma yield_flag_tasks [simp]:
  "unblocks k' (k\<lparr>xYieldPending := y\<rparr>) = unblocks k' k" "same_tasks k' (k\<lparr>xYieldPending := y\<rparr>) = same_tasks k' k"
  by (simp_all add: unblocks_def same_tasks_def)

lemma resume_ticks_inv:
  assumes "kernel_inv k {}" "future k" "paired k" "uxSchedulerSuspended k = 0"
  shows "\<exists>k'. resume_ticks k = Some k' \<and> kernel_inv k' {} \<and> future k' \<and> unblocks k k' \<and> same_tasks k k'
    \<and> xTickCount k' = xTickCount k + uxPendedTicks k \<and> uxPendedTicks k' = 0 \<and> switch_pended k' = switch_pended k"
  using assms
proof (induction "unat (uxPendedTicks k)" arbitrary: k rule: less_induct)
  case less
  show ?case
  proof (cases "uxPendedTicks k = 0")
    case True
    then have "resume_ticks k = Some k" by (subst resume_ticks.simps) simp
    then show ?thesis using True less.prems by simp
  next
    case False
    obtain sw k1 where k1: "xTaskIncrementTick k = Some (sw, k1)" "kernel_inv k1 {}" "future k1" "unblocked (due k) k k1"
        "same_tasks k k1" "xTickCount k1 = xTickCount k + 1" "uxPendedTicks k1 = uxPendedTicks k"
        "switch_pended k1 = switch_pended k"
      using tick_inv [OF less.prems(1,2,4)] by blast
    have blocks: "unblocks k k1"
      by (rule unblocksI [OF k1(4)]) (auto simp: due_def rtos_defs)
    let ?k1 = "(if sw then k1\<lparr>xYieldPending := True\<rparr> else k1)"
    let ?k2 = "?k1\<lparr>uxPendedTicks := uxPendedTicks k - 1\<rparr>"
    have run: "resume_ticks k = resume_ticks ?k2"
      using False k1(1,7) by (subst resume_ticks.simps) (auto simp: word_neq_0_conv Let_def)
    have less': "unat (uxPendedTicks ?k2) < unat (uxPendedTicks k)"
      using False by (simp add: unat_pred_less)
    have k2: "kernel_inv ?k2 {}" "future ?k2" "paired ?k2" "uxSchedulerSuspended ?k2 = 0" "unblocks k ?k2" "same_tasks k ?k2"
      using k1(2,3) blocks k1(5) unblocks_paired [OF blocks less.prems(3)] less.prems(4) same_tasks_fields(5) [OF k1(5)] by simp_all
    obtain k' where k': "resume_ticks ?k2 = Some k'" "kernel_inv k' {}" "future k'" "unblocks ?k2 k'" "same_tasks ?k2 k'"
        "xTickCount k' = xTickCount ?k2 + uxPendedTicks ?k2" "uxPendedTicks k' = 0" "switch_pended k' = switch_pended ?k2"
      using less.hyps [OF less' k2(1-4)] by blast
    have "unblocks k k'" by (rule unblocks_trans [OF k2(5) k'(4) same_tasks_fields(1) [OF k2(6)] less.prems(1)])
    moreover have "xTickCount k' = xTickCount k + uxPendedTicks k" using k'(6) k1(6) by simp
    moreover have "same_tasks k k'" by (rule same_tasks_trans [OF k2(6) k'(5)])
    ultimately show ?thesis using run k' k1(8) by simp
  qed
qed

end
