(* ===== verification/RtosTasksInv.thy ===== *)
theory RtosTasksInv
  imports RtosTaskLists Machine
begin

text \<open>
  The invariant of the scheduler, \<open>rtos_ok\<close>, and that every call of theory \<open>RtosTasks\<close> succeeds
  and keeps it. The calls that tasks, interrupts and the idle task can make at a time are the
  step relation \<open>rtos_step\<close>, and the model is an instance of the locale of machines with an
  invariant.
\<close>

subsection \<open>The invariant of the scheduler\<close>

text \<open>
  Outside of a suspension of the scheduler no tick and no ready task is pending; tasks are
  counted; once the scheduler runs, the idle task, number 0, is always ready.
\<close>

definition settled :: "kernel \<Rightarrow> bool" where
  "settled k \<longleftrightarrow> (uxSchedulerSuspended k = 0 \<longrightarrow> uxPendedTicks k = 0 \<and> (\<forall>t. \<not> pends k t))"

definition tasks_in :: "(nat option \<Rightarrow> bool) \<Rightarrow> kernel \<Rightarrow> nat set" where
  "tasks_in P k = {t. P (item_container (xGenericListItem t) k)}"

definition counted :: "kernel \<Rightarrow> bool" where
  "counted k \<longleftrightarrow> uxCurrentNumberOfTasks k = of_nat (card (tasks_in (\<lambda>l. l \<noteq> None) k))
     \<and> uxTasksDeleted k = of_nat (card (tasks_in (\<lambda>l. l = Some 8) k))"

definition idle_ready :: "kernel \<Rightarrow> bool" where
  "idle_ready k \<longleftrightarrow> item_container (xGenericListItem 0) k = Some (priority k 0)"

definition scheduler_ok :: "kernel \<Rightarrow> bool" where
  "scheduler_ok k \<longleftrightarrow> kernel_inv k {} \<and> future k \<and> paired k \<and> settled k \<and> counted k
     \<and> (xSchedulerRunning k \<longrightarrow> idle_ready k)"

lemma scheduler_okD:
  assumes "scheduler_ok k"
  shows "kernel_inv k {}" "future k" "paired k" "settled k" "counted k" "xSchedulerRunning k \<Longrightarrow> idle_ready k"
  using assms unfolding scheduler_ok_def by blast+

lemma current_task: "kernel_inv k S \<Longrightarrow> \<exists>c. pxCurrentTCB k = Some c"
  unfolding kernel_inv_def kernel_ok_def kinds_def by blast

lemma inv_live_bounded: "kernel_inv k S \<Longrightarrow> tasks_in (\<lambda>l. l \<noteq> None) k \<subseteq> {..<2 ^ 30}"
  using inv_proper unfolding tasks_in_def proper_def by fastforce

lemma tasks_in_card:
  assumes "kernel_inv k S" "\<not> P None"
  shows "finite (tasks_in P k)" "card (tasks_in P k) < 2 ^ 32"
proof -
  have sub: "tasks_in P k \<subseteq> {..<2 ^ 30}"
  proof
    fix x
    assume "x \<in> tasks_in P k"
    then have "P (item_container (xGenericListItem x) k)" unfolding tasks_in_def by blast
    then have "item_container (xGenericListItem x) k \<noteq> None" using assms(2) by metis
    then show "x \<in> {..<2 ^ 30}" using inv_live_bounded [OF assms(1)] unfolding tasks_in_def by blast
  qed
  then show "finite (tasks_in P k)" by (rule finite_subset) simp
  have "card (tasks_in P k) \<le> card {..<2 ^ 30 :: nat}" by (rule card_mono [OF _ sub]) simp
  also have "\<dots> < 2 ^ 32" by simp
  finally show "card (tasks_in P k) < 2 ^ 32" .
qed

lemma unblocks_counts:
  assumes "unblocks k k'" "kernel_inv k {}"
  shows "tasks_in (\<lambda>l. l \<noteq> None) k' = tasks_in (\<lambda>l. l \<noteq> None) k" "tasks_in (\<lambda>l. l = Some 8) k' = tasks_in (\<lambda>l. l = Some 8) k"
  unfolding tasks_in_def using unblocks_keeps [OF assms] by simp_all

lemma unblocks_pends: "unblocks k k' \<Longrightarrow> kernel_inv k {} \<Longrightarrow> pends k' t \<Longrightarrow> pends k t"
  unfolding pends_def by (metis unblocks_keeps(4) option.distinct(1))

lemma unblocks_counted:
  assumes "unblocks k k'" "kernel_inv k {}" "counted k" "same_tasks k k'"
  shows "counted k'"
  using assms(3) unfolding counted_def unblocks_counts [OF assms(1,2)] same_tasks_fields [OF assms(4)] .

lemma unblocks_idle:
  assumes "unblocks k k'" "kernel_inv k {}" "idle_ready k" "same_tasks k k'"
  shows "idle_ready k'"
  using assms(3) unblocks_keeps(3) [OF assms(1,2), of 0] unfolding idle_ready_def same_tasks_fields [OF assms(4)] by blast

lemma tick_ok:
  assumes "scheduler_ok k"
  shows "\<exists>sw k'. xTaskIncrementTick k = Some (sw, k') \<and> scheduler_ok k'"
proof (cases "uxSchedulerSuspended k = 0")
  case True
  note ok = scheduler_okD [OF assms]
  obtain sw k' where k': "xTaskIncrementTick k = Some (sw, k')" "kernel_inv k' {}" "future k'" "unblocked (due k) k k'"
      "same_tasks k k'" "xTickCount k' = xTickCount k + 1" "uxPendedTicks k' = uxPendedTicks k"
    using tick_inv [OF ok(1,2) True] by blast
  have blocks: "unblocks k k'" by (rule unblocksI [OF k'(4)]) (auto simp: due_def rtos_defs)
  have "settled k'"
    using ok(4) True k'(7) unblocks_pends [OF blocks ok(1)] same_tasks_fields(5) [OF k'(5)] unfolding settled_def by metis
  then show ?thesis
    using k' unblocks_paired [OF blocks ok(3)] unblocks_counted [OF blocks ok(1,5) k'(5)]
      unblocks_idle [OF blocks ok(1) _ k'(5)] ok(6) same_tasks_fields(4) [OF k'(5)]
    unfolding scheduler_ok_def by metis
next
  case False
  note ok = scheduler_okD [OF assms]
  let ?k = "k\<lparr>uxPendedTicks := uxPendedTicks k + 1\<rparr>"
  have "scheduler_ok ?k"
    using assms False by (simp add: scheduler_ok_def settled_def counted_def tasks_in_def idle_ready_def)
  then show ?thesis using False by (simp add: xTaskIncrementTick_def)
qed

text \<open>Changes of the remaining fields.\<close>

lemma other_fields [simp]:
  "kernel_inv (k\<lparr>uxSchedulerSuspended := n\<rparr>) S = kernel_inv k S" "kernel_inv (k\<lparr>switch_pended := b\<rparr>) S = kernel_inv k S"
  "paired (k\<lparr>uxSchedulerSuspended := n\<rparr>) = paired k" "paired (k\<lparr>switch_pended := b\<rparr>) = paired k"
  "future (k\<lparr>uxSchedulerSuspended := n\<rparr>) = future k" "future (k\<lparr>switch_pended := b\<rparr>) = future k"
  "item_container x (k\<lparr>uxSchedulerSuspended := n\<rparr>) = item_container x k" "item_container x (k\<lparr>switch_pended := b\<rparr>) = item_container x k"
  "pends (k\<lparr>uxSchedulerSuspended := n\<rparr>) = pends k" "pends (k\<lparr>switch_pended := b\<rparr>) = pends k"
proof -
  have "kernel_ok (k\<lparr>uxSchedulerSuspended := n\<rparr>) X S = kernel_ok k X S" "kernel_ok (k\<lparr>switch_pended := b\<rparr>) X S = kernel_ok k X S" for X
    by (auto elim: kernel_ok_fields)
  then show "kernel_inv (k\<lparr>uxSchedulerSuspended := n\<rparr>) S = kernel_inv k S" "kernel_inv (k\<lparr>switch_pended := b\<rparr>) S = kernel_inv k S"
    unfolding kernel_inv_def by simp_all
qed (simp_all add: paired_def future_def pends_def item_container_def fun_eq_iff)

lemma yield_ok [simp]: "scheduler_ok (portYIELD k) = scheduler_ok k"
  by (simp add: portYIELD_def scheduler_ok_def settled_def counted_def tasks_in_def idle_ready_def)

lemma yield_flag_ok [simp]: "scheduler_ok (k\<lparr>xYieldPending := y\<rparr>) = scheduler_ok k"
  by (simp add: scheduler_ok_def settled_def counted_def tasks_in_def idle_ready_def)

lemma vTaskSuspendAll_ok: "scheduler_ok k \<Longrightarrow> uxSchedulerSuspended k + 1 \<noteq> 0 \<Longrightarrow> scheduler_ok (vTaskSuspendAll k)"
  by (simp add: vTaskSuspendAll_def scheduler_ok_def settled_def counted_def tasks_in_def idle_ready_def)

lemma running_counts:
  assumes "scheduler_ok k" "xSchedulerRunning k"
  shows "uxCurrentNumberOfTasks k \<noteq> 0"
proof -
  note ok = scheduler_okD [OF assms(1)]
  have card: "finite (tasks_in (\<lambda>l. l \<noteq> None) k)" "card (tasks_in (\<lambda>l. l \<noteq> None) k) < 2 ^ 32"
    by (rule tasks_in_card [OF ok(1)], simp)+
  have "0 \<in> tasks_in (\<lambda>l. l \<noteq> None) k" using ok(6) [OF assms(2)] unfolding idle_ready_def tasks_in_def by simp
  then have "card (tasks_in (\<lambda>l. l \<noteq> None) k) \<noteq> 0" using card_0_eq [OF card(1)] by blast
  then have "(of_nat (card (tasks_in (\<lambda>l. l \<noteq> None) k)) :: u32) \<noteq> 0" using of_nat_0_iff_32 [OF card(2)] by (simp only: simp_thms)
  then show ?thesis using ok(5) unfolding counted_def by presburger
qed

text \<open>What resuming the scheduler, and the calls that contain it, leave alone.\<close>

definition same_threads :: "kernel \<Rightarrow> kernel \<Rightarrow> bool" where
  "same_threads k k' \<longleftrightarrow> tcbs k' = tcbs k \<and> pxCurrentTCB k' = pxCurrentTCB k \<and> xSchedulerRunning k' = xSchedulerRunning k
     \<and> (\<forall>x. item_value k' x = item_value k x)"

lemma resume_all_ok:
  assumes "scheduler_ok k" "xSchedulerRunning k" "uxSchedulerSuspended k \<noteq> 0"
  shows "\<exists>y k'. xTaskResumeAll k = Some (y, k') \<and> scheduler_ok k' \<and> unblocks k k' \<and> same_threads k k'
    \<and> uxSchedulerSuspended k' = uxSchedulerSuspended k - 1"
proof -
  note ok = scheduler_okD [OF assms(1)]
  let ?k = "k\<lparr>uxSchedulerSuspended := uxSchedulerSuspended k - 1\<rparr>"
  have blocks0: "unblocks k ?k" by (rule unblocksI [of "\<lambda>_. False"]) (simp_all add: unblocked_def)
  show ?thesis
  proof (cases "uxSchedulerSuspended ?k = 0")
    case False
    then have "scheduler_ok ?k"
      using ok assms(2) by (simp add: scheduler_ok_def settled_def counted_def tasks_in_def idle_ready_def)
    moreover have "same_threads k ?k" by (simp add: same_threads_def)
    moreover have "xTaskResumeAll k = Some (False, ?k)" using False by (simp add: xTaskResumeAll_def)
    ultimately show ?thesis using blocks0 by fastforce
  next
    case True
    have k: "kernel_inv ?k {}" "paired ?k" "future ?k" using ok by simp_all
    obtain k1 where k1: "resume_pending ?k = Some k1" "same_clock ?k k1" "kernel_inv k1 {}" "future k1" "paired k1"
        "unblocked (pends ?k) ?k k1" "\<forall>t. \<not> pends k1 t"
      using resume_pending_inv [OF k] by blast
    have blocks1: "unblocks ?k k1"
      using k(2) by (intro unblocksI [OF k1(6)]) (auto simp: pends_def paired_def)
    note same1 = same_clock_fields(1) [OF k1(2)]
    have unsusp: "uxSchedulerSuspended k1 = 0" using same_tasks_fields(5) [OF same1] True by simp
    obtain k2 where k2: "resume_ticks k1 = Some k2" "kernel_inv k2 {}" "future k2" "unblocks k1 k2" "same_tasks k1 k2"
        "uxPendedTicks k2 = 0"
      using resume_ticks_inv [OF k1(3,4,5) unsusp] by blast
    have blocks2: "unblocks ?k k2"
      by (rule unblocks_trans [OF blocks1 k2(4) same_tasks_fields(1) [OF same1] k(1)])
    have blocks: "unblocks k k2" by (rule unblocks_trans [OF blocks0 blocks2 _ ok(1)]) simp
    have same: "same_tasks ?k k2" by (rule same_tasks_trans [OF same1 k2(5)])
    let ?k' = "if xYieldPending k2 then portYIELD k2 else k2"
    have run: "xTaskResumeAll k = Some (xYieldPending k2, ?k')"
      using True k1(1) k2(1) running_counts [OF assms(1,2)]
      by (simp add: xTaskResumeAll_def word_neq_0_conv)
    have "counted ?k" "idle_ready ?k"
      using ok(5,6) assms(2) by (simp_all add: counted_def tasks_in_def idle_ready_def)
    then have "counted k2" "idle_ready k2"
      using unblocks_counted [OF blocks2 k(1) _ same] unblocks_idle [OF blocks2 k(1) _ same] by blast+
    moreover have "settled k2"
      using k2(6) unblocks_pends [OF k2(4) k1(3)] k1(7) unfolding settled_def by blast
    ultimately have "scheduler_ok k2"
      using k2(2,3) unblocks_paired [OF blocks2 k(2)] unfolding scheduler_ok_def by blast
    moreover have "unblocks k (portYIELD k2)"
      using blocks by (simp add: portYIELD_def unblocks_def unblocked_def)
    moreover have "same_threads k k2" "uxSchedulerSuspended k2 = uxSchedulerSuspended k - 1"
      using same_tasks_fields [OF same] by (simp_all add: same_threads_def)
    moreover have "same_threads k (portYIELD k2)" "uxSchedulerSuspended (portYIELD k2) = uxSchedulerSuspended k2"
      using calculation(3) by (simp_all add: portYIELD_def same_threads_def)
    ultimately show ?thesis using run blocks by (cases "xYieldPending k2") auto
  qed
qed

text \<open>A call that moves items of one task.\<close>

definition same_state :: "kernel \<Rightarrow> kernel \<Rightarrow> bool" where
  "same_state k k' \<longleftrightarrow> tcbs k' = tcbs k \<and> pxCurrentTCB k' = pxCurrentTCB k
     \<and> uxCurrentNumberOfTasks k' = uxCurrentNumberOfTasks k \<and> xSchedulerRunning k' = xSchedulerRunning k
     \<and> uxPendedTicks k' = uxPendedTicks k \<and> uxSchedulerSuspended k' = uxSchedulerSuspended k
     \<and> uxTasksDeleted k' = uxTasksDeleted k \<and> xTickCount k' = xTickCount k
     \<and> pxDelayedTaskList k' = pxDelayedTaskList k \<and> pxOverflowDelayedTaskList k' = pxOverflowDelayedTaskList k"

lemma same_state_fields:
  assumes "same_state k k'"
  shows "tcbs k' = tcbs k" "pxCurrentTCB k' = pxCurrentTCB k" "uxCurrentNumberOfTasks k' = uxCurrentNumberOfTasks k"
    "xSchedulerRunning k' = xSchedulerRunning k" "uxPendedTicks k' = uxPendedTicks k"
    "uxSchedulerSuspended k' = uxSchedulerSuspended k" "uxTasksDeleted k' = uxTasksDeleted k" "xTickCount k' = xTickCount k"
    "pxDelayedTaskList k' = pxDelayedTaskList k" "pxOverflowDelayedTaskList k' = pxOverflowDelayedTaskList k"
  using assms by (simp_all add: same_state_def)

lemma same_state_refl [simp]: "same_state k k"
  by (simp add: same_state_def)

lemma same_rest_state: "same_rest k k' \<Longrightarrow> same_state k k'"
  unfolding same_state_def by (simp add: same_rest_fields)

lemma same_state_trans: "same_state k k' \<Longrightarrow> same_state k' k'' \<Longrightarrow> same_state k k''"
  by (simp add: same_state_def)

definition same_counts :: "kernel \<Rightarrow> kernel \<Rightarrow> bool" where
  "same_counts k k' \<longleftrightarrow> uxCurrentNumberOfTasks k' = uxCurrentNumberOfTasks k \<and> xSchedulerRunning k' = xSchedulerRunning k
     \<and> uxPendedTicks k' = uxPendedTicks k \<and> uxSchedulerSuspended k' = uxSchedulerSuspended k
     \<and> uxTasksDeleted k' = uxTasksDeleted k"

lemma same_counts_refl [simp]: "same_counts k k"
  by (simp add: same_counts_def)

lemma same_state_counts: "same_state k k' \<Longrightarrow> same_counts k k'"
  by (simp add: same_state_def same_counts_def)

lemma scheduler_ok_counts:
  assumes "scheduler_ok k" "same_counts k k'" "kernel_inv k' {}" "future k'" "paired k'"
    and "\<And>t. item_container (xGenericListItem t) k' = None \<longleftrightarrow> item_container (xGenericListItem t) k = None"
    and "\<And>t. item_container (xGenericListItem t) k' = Some 8 \<longleftrightarrow> item_container (xGenericListItem t) k = Some 8"
    and "\<And>t. pends k' t \<Longrightarrow> pends k t \<or> uxSchedulerSuspended k \<noteq> 0"
    and "idle_ready k \<Longrightarrow> idle_ready k'"
  shows "scheduler_ok k'"
proof -
  note ok = scheduler_okD [OF assms(1)]
  have same: "uxCurrentNumberOfTasks k' = uxCurrentNumberOfTasks k" "xSchedulerRunning k' = xSchedulerRunning k"
    "uxPendedTicks k' = uxPendedTicks k" "uxSchedulerSuspended k' = uxSchedulerSuspended k" "uxTasksDeleted k' = uxTasksDeleted k"
    using assms(2) unfolding same_counts_def by blast+
  have "settled k'" using ok(4) assms(8) unfolding settled_def same by blast
  moreover have "counted k'" using ok(5) assms(6,7) unfolding counted_def tasks_in_def same by simp
  ultimately show ?thesis using ok(6) assms(3,4,5,9) unfolding scheduler_ok_def same by blast
qed

lemma scheduler_ok_change:
  assumes "scheduler_ok k" "same_state k k'" "kernel_inv k' {}" "future k'" "paired k'"
    and "\<And>t. item_container (xGenericListItem t) k' = None \<longleftrightarrow> item_container (xGenericListItem t) k = None"
    and "\<And>t. item_container (xGenericListItem t) k' = Some 8 \<longleftrightarrow> item_container (xGenericListItem t) k = Some 8"
    and "\<And>t. pends k' t \<Longrightarrow> pends k t \<or> uxSchedulerSuspended k \<noteq> 0"
    and "idle_ready k \<Longrightarrow> idle_ready k'"
  shows "scheduler_ok k'"
  by (rule scheduler_ok_counts [OF assms(1) same_state_counts [OF assms(2)] assms(3-9)])

subsection \<open>The calls keep the invariant\<close>

text \<open>An item enters a list other than those of ready and delayed tasks.\<close>

lemma insert_sorted_inv:
  assumes "kernel_inv k S" "item_container i k = None" "proper (store k) (i div 2)" "kind k l i" "7 \<le> l"
  shows "\<exists>k'. insert_item l i k = Some k' \<and> same_rest k k' \<and> moved k i (Some l) k' \<and> kernel_inv k' S"
proof -
  obtain X where X: "kernel_ok k X S" using assms(1) unfolding kernel_inv_def by blast
  note ok = kernel_okD [OF X]
  have free: "\<forall>l. i \<notin> set (X l)" using kernel_ok_free [OF X] assms(2) by blast
  obtain st where st: "insert_item l i k = Some (k\<lparr>store := st\<rparr>)"
      "has_lists (k\<lparr>store := st\<rparr>) (X(l := insert_at (behind_value (store k) (item_value k i) (X l)) i (X l)))"
      "value_of st = value_of (store k)" "\<forall>x. pvOwner (items st x) = pvOwner (items (store k) x)"
    using insert_item_lists [OF ok(1) free assms(3)] by blast
  let ?ys = "insert_at (behind_value (store k) (item_value k i) (X l)) i (X l)" and ?k = "k\<lparr>store := st\<rparr>"
  have same: "same_rest k ?k" by (rule same_rest_store [OF st(3,4)])
  have "kinds ?k (X(l := ?ys))"
    using ok(2) assms(4) by (intro kinds_change [OF ok(2) same]) (auto simp: kinds_def set_insert_at split: if_splits)
  moreover have "timed ?k (X(l := ?ys))"
    using delayed_lists [OF ok(2)] assms(5) by (intro timed_change [OF ok(4) same]) auto
  moreover have "marked ?k (X(l := ?ys)) S"
    by (rule marked_other [OF ok(3)]) (use assms(5) in auto)
  moreover have "moved k i (Some l) ?k"
    using free by (intro has_lists_moved [OF ok(1) st(2)]) (auto simp: set_insert_at)
  ultimately show ?thesis using st(1,2) same unfolding kernel_inv_def kernel_ok_def by blast
qed

text \<open>The running task waits.\<close>

lemma delayed_to_state:
  assumes "delayed_to c w k k'"
  shows "same_state k k'" "item_value k' x = (if x = xGenericListItem c then w else item_value k x)"
    "proper (store k') = proper (store k)"
  using assms unfolding delayed_to_def same_state_def proper_def by (auto simp: fun_eq_iff)

lemma delayed_to_at:
  "delayed_to c w k k' \<Longrightarrow> item_container x k' = (if x = xGenericListItem c then Some (delay_list w k) else item_container x k)"
  unfolding delayed_to_def using moved_at by blast

text \<open>\<open>c\<close> has been moved to one of the lists \<open>L\<close>, and its time to wake may have been set.\<close>

definition waits :: "nat \<Rightarrow> nat set \<Rightarrow> kernel \<Rightarrow> kernel \<Rightarrow> bool" where
  "waits c L k k' \<longleftrightarrow> same_state k k' \<and> kernel_inv k' {} \<and> future k'
     \<and> (\<exists>l\<in>L. moved k (xGenericListItem c) (Some l) k')"

lemma delay_future:
  assumes "delayed_to c w k k'" "future k" "w \<noteq> xTickCount k" "kernel_inv k S"
  shows "future k'"
  unfolding future_def
proof (intro allI impI)
  fix x
  note same = same_state_fields [OF delayed_to_state(1) [OF assms(1)]]
  assume x: "item_container x k' = Some (pxDelayedTaskList k')"
  show "xTickCount k' < item_value k' x"
  proof (cases "x = xGenericListItem c")
    case False
    then show ?thesis
      using x assms(2) delayed_to_at [OF assms(1), of x] delayed_to_state(2) [OF assms(1)] unfolding future_def same by simp
  next
    case True
    then have "delay_list w k = pxDelayedTaskList k" using x delayed_to_at [OF assms(1), of x] unfolding same by simp
    moreover have "pxDelayedTaskList k \<noteq> pxOverflowDelayedTaskList k"
      using assms(4) delayed_lists(3) kernel_okD(2) unfolding kernel_inv_def by blast
    ultimately show ?thesis using True assms(3) delayed_to_state(2) [OF assms(1)] unfolding same
      by (auto simp: delay_list_def split: if_splits)
  qed
qed

lemma delay_list_at: "kernel_inv k S \<Longrightarrow> delay_list w k \<in> {5, 6}"
  using delayed_lists(1,2) kernel_okD(2) unfolding kernel_inv_def delay_list_def by fastforce

lemma wait_delayed:
  assumes "kernel_inv k {}" "future k" "pxCurrentTCB k = Some c" "item_container (xGenericListItem c) k = Some (priority k c)"
    and "w \<noteq> xTickCount k"
  shows "\<exists>k1 k2. leave_ready k = Some k1 \<and> prvAddCurrentTaskToDelayedList w k1 = Some k2 \<and> waits c {delay_list w k} k k2
    \<and> delayed_to c w k1 k2 \<and> same_rest k k1"
proof -
  let ?i = "xGenericListItem c"
  obtain k1 where k1: "leave_ready k = Some k1" "same_rest k k1" "moved k ?i None k1" "kernel_inv k1 {}"
    using leave_ready_inv [OF assms(1,3,4)] by blast
  note same1 = same_rest_fields [OF k1(2)]
  have "pxCurrentTCB k1 = Some c" using assms(3) by (simp only: same1)
  moreover have "proper (store k1) c"
    using inv_proper [OF assms(1), of ?i] assms(4) same_rest_proper [OF k1(2)] by simp
  ultimately obtain k2 where k2: "prvAddCurrentTaskToDelayedList w k1 = Some k2" "delayed_to c w k1 k2" "kernel_inv k2 {}"
    using delay_inv [OF k1(4)] moved_at [OF k1(3)] by fastforce
  have "future k1" by (rule moved_future [OF k1(3,2) assms(2)]) simp
  then have "future k2" using delay_future [OF k2(2) _ _ k1(4)] assms(5) same1 by simp
  moreover have "delay_list w k1 = delay_list w k" unfolding delay_list_def same1 ..
  then have "moved k ?i (Some (delay_list w k)) k2"
    using k2(2) moved_trans [OF k1(3)] unfolding delayed_to_def by simp
  moreover have "same_state k k2"
    by (rule same_state_trans [OF same_rest_state [OF k1(2)] delayed_to_state(1) [OF k2(2)]])
  ultimately show ?thesis using k1(1,2) k2 unfolding waits_def by blast
qed

lemma wait_forever:
  assumes "kernel_inv k {}" "future k" "pxCurrentTCB k = Some c" "item_container (xGenericListItem c) k = Some (priority k c)"
  shows "\<exists>k1 k2. leave_ready k = Some k1 \<and> wait_ticks portMAX_DELAY k1 = Some k2 \<and> waits c {9} k k2"
proof -
  let ?i = "xGenericListItem c"
  obtain k1 where k1: "leave_ready k = Some k1" "same_rest k k1" "moved k ?i None k1" "kernel_inv k1 {}"
    using leave_ready_inv [OF assms(1,3,4)] by blast
  have cur: "pxCurrentTCB k1 = Some c" using assms(3) by (simp only: same_rest_fields [OF k1(2)])
  have "proper (store k1) (?i div 2)"
    using inv_proper [OF assms(1), of ?i] assms(4) same_rest_proper [OF k1(2)] by simp
  moreover have "item_container ?i k1 = None" using moved_at [OF k1(3)] by simp
  moreover have "kind k1 9 ?i" by (simp add: kind_def)
  ultimately have k2: "same_rest k1 (insert_item_end 9 ?i k1)" "moved k1 ?i (Some 9) (insert_item_end 9 ?i k1)"
      "kernel_inv (insert_item_end 9 ?i k1) {}"
    using insert_end_inv [OF k1(4), of ?i 9] by simp_all
  have "future k1" by (rule moved_future [OF k1(3,2) assms(2)]) simp
  then have "future (insert_item_end 9 ?i k1)"
    using delay_list_at [OF k1(4), of "xTickCount k1"]
    by (intro moved_future [OF k2(2,1)]) (auto simp: delay_list_def)
  then have "waits c {9} k (insert_item_end 9 ?i k1)"
    using k2(3) same_rest_state [OF same_rest_trans [OF k1(2) k2(1)]] moved_trans [OF k1(3) k2(2)]
    unfolding waits_def by simp
  moreover have "wait_ticks portMAX_DELAY k1 = Some (insert_item_end 9 ?i k1)"
    using cur by (simp add: wait_ticks_def xSuspendedTaskList_def)
  ultimately show ?thesis using k1(1) by blast
qed

lemma waits_mono: "waits c L k k' \<Longrightarrow> L \<subseteq> M \<Longrightarrow> waits c M k k'"
  unfolding waits_def by blast

lemma wait_ticks_ok:
  assumes "kernel_inv k {}" "future k" "pxCurrentTCB k = Some c" "item_container (xGenericListItem c) k = Some (priority k c)"
    and "n \<noteq> 0"
  shows "\<exists>k1 k2. leave_ready k = Some k1 \<and> wait_ticks n k1 = Some k2 \<and> waits c {5, 6, 9} k k2"
proof (cases "n = portMAX_DELAY")
  case True
  obtain k1 k2 where "leave_ready k = Some k1" "wait_ticks n k1 = Some k2" "waits c {9} k k2"
    using wait_forever [OF assms(1-4)] True by blast
  then show ?thesis using waits_mono [of c "{9}" k k2 "{5, 6, 9}"] by (metis insert_subset subset_insertI)
next
  case False
  have "xTickCount k + n \<noteq> xTickCount k" using assms(5) by simp
  then obtain k1 k2 where k2: "leave_ready k = Some k1" "prvAddCurrentTaskToDelayedList (xTickCount k + n) k1 = Some k2"
      "waits c {delay_list (xTickCount k + n) k} k k2" "same_rest k k1"
    using wait_delayed [OF assms(1-4)] by blast
  have "wait_ticks n k1 = Some k2"
    using False k2(2) by (simp add: wait_ticks_def same_rest_fields [OF k2(4)])
  moreover have "waits c {5, 6, 9} k k2"
    by (rule waits_mono [OF k2(3)]) (use delay_list_at [OF assms(1), of "xTickCount k + n"] in auto)
  ultimately show ?thesis using k2(1) by blast
qed

text \<open>Block without waiting for an event.\<close>

lemma waits_ok:
  assumes "scheduler_ok k" "waits c {5, 6, 9} k k'" "item_container (xGenericListItem c) k = Some (priority k c)" "c \<noteq> 0"
  shows "scheduler_ok k'"
proof -
  obtain l where l: "same_state k k'" "kernel_inv k' {}" "future k'" "l \<in> {5, 6, 9}" "moved k (xGenericListItem c) (Some l) k'"
    using assms(2) unfolding waits_def by blast
  note moved = moved_at [OF l(5)] and ok = scheduler_okD [OF assms(1)]
  have prio: "priority k c < 5" by (rule inv_priority [OF ok(1)])
  have "paired k'"
    using ok(3) l(4) unfolding paired_def moved by auto
  then show ?thesis
    using assms(3,4) l(4) prio
    by (intro scheduler_ok_change [OF assms(1) l(1-3)])
      (auto simp: moved pends_def idle_ready_def same_state_fields [OF l(1)])
qed

text \<open>Setting the value of an event item does not matter to the scheduler.\<close>

lemma set_event_inv:
  fixes t :: nat and v :: u32
  assumes "kernel_inv k S"
  defines "k' \<equiv> on_store (listSET_LIST_ITEM_VALUE (xEventListItem t) v) k"
  shows "kernel_inv k' S" "same_state k k'" "item_container x k' = item_container x k" "future k' = future k"
    "proper (store k') = proper (store k)" "item_value k' (xGenericListItem u) = item_value k (xGenericListItem u)"
    "uxTopReadyPriority k' = uxTopReadyPriority k" "switch_pended k' = switch_pended k"
proof -
  obtain X where X: "kernel_ok k X S" using assms(1) unfolding kernel_inv_def by blast
  note ok = kernel_okD [OF X]
  obtain st where st: "k' = k\<lparr>store := st\<rparr>" "has_lists (k\<lparr>store := st\<rparr>) X"
      "value_of st = (value_of (store k))(Item (xEventListItem t) := v)" "container_of st = container_of (store k)"
      "\<forall>x. pvOwner (items st x) = pvOwner (items (store k) x)"
    using set_value_lists [OF ok(1)] unfolding k'_def by blast
  have val: "value_of st x = (if x = Item (xEventListItem t) then v else value_of (store k) x)" for x
    using fun_cong [OF st(3), of x] by simp
  show at: "item_container x k' = item_container x k" for x
    using fun_cong [OF st(4), of "Item x"] st(1) by (simp add: item_container_def listLIST_ITEM_CONTAINER_def)
  show same: "same_state k k'" "uxTopReadyPriority k' = uxTopReadyPriority k" "switch_pended k' = switch_pended k"
    unfolding same_state_def st(1) by simp_all
  show "proper (store k') = proper (store k)" using st(1,5) by (simp add: proper_def fun_eq_iff)
  show "item_value k' (xGenericListItem u) = item_value k (xGenericListItem u)" for u
    using val st(1) by simp
  have generic: "item_value k' x = item_value k x" if x: "x \<in> set (X l)" and l: "l \<in> {5, 6}" for x l
  proof -
    have "kind k l x" using ok(2) x unfolding kinds_def by blast
    then obtain u where "x = xGenericListItem u" using l unfolding kind_def by auto
    then show ?thesis using val st(1) by simp
  qed
  then have map: "map (item_value k') (X l) = map (item_value k) (X l)" if "l \<in> {5, 6}" for l
    using that by simp
  have "timed k' X"
  proof -
    have alarm: "xNextTaskUnblockTime k' = xNextTaskUnblockTime k" using st(1) by simp
    note D = delayed_lists(1) [OF ok(2)] and O = delayed_lists(2) [OF ok(2)]
    show ?thesis
      using ok(4) generic [OF _ D] generic [OF _ O]
      unfolding timed_def same_state_fields [OF same(1)] map [OF D] map [OF O] alarm by simp
  qed
  moreover have "kinds k' X" by (rule kinds_same [OF ok(2)]) (use ok(2) st(1) in \<open>simp_all add: kinds_def\<close>)
  moreover have "marked k' X S" using ok(3) st(1) by (simp add: marked_def)
  ultimately show "kernel_inv k' S" using st(1,2) unfolding kernel_inv_def kernel_ok_def by blast
  have "item_value k' x = item_value k x" if "item_container x k = Some (pxDelayedTaskList k)" for x
    using generic [of x "pxDelayedTaskList k"] that kernel_ok_at [OF X] delayed_lists(1) [OF ok(2)] by blast
  then show "future k' = future k" unfolding future_def at same_state_fields [OF same(1)] by auto
qed

text \<open>The running task waits for an event.\<close>

lemma place_ok:
  assumes "scheduler_ok k" "same_state k k1" "kernel_inv k1 {}" "future k1"
    and "\<And>x. item_container x k1 = (if x = xEventListItem c then Some l else item_container x k)" "10 \<le> l"
    and "waits c {5, 6, 9} k1 k'" "item_container (xGenericListItem c) k = Some (priority k c)" "c \<noteq> 0"
  shows "scheduler_ok k'"
proof -
  obtain m where m: "same_state k1 k'" "kernel_inv k' {}" "future k'" "m \<in> {5, 6, 9}" "moved k1 (xGenericListItem c) (Some m) k'"
    using assms(7) unfolding waits_def by blast
  have at: "item_container x k' = (if x = xGenericListItem c then Some m else if x = xEventListItem c then Some l else item_container x k)" for x
    using moved_at [OF m(5), of x] assms(5) by simp
  note ok = scheduler_okD [OF assms(1)]
  have prio: "priority k c < 5" by (rule inv_priority [OF ok(1)])
  have same: "same_state k k'" by (rule same_state_trans [OF assms(2) m(1)])
  have "paired k'" using ok(3) m(4) unfolding paired_def at by auto
  then show ?thesis
    using assms(6,8,9) m(4) prio
    by (intro scheduler_ok_change [OF assms(1) same m(2,3)])
      (auto simp: at pends_def idle_ready_def same_state_fields [OF same] rtos_defs split: if_splits)
qed

lemma vTaskPlaceOnEventList_ok:
  assumes "scheduler_ok k" "pxCurrentTCB k = Some c" "item_container (xGenericListItem c) k = Some (priority k c)" "c \<noteq> 0"
    and "item_container (xEventListItem c) k = None" "10 \<le> l" "n \<noteq> 0"
  shows "\<exists>k'. vTaskPlaceOnEventList l n k = Some k' \<and> scheduler_ok k'"
proof -
  note ok = scheduler_okD [OF assms(1)]
  have "proper (store k) (xEventListItem c div 2)"
    using inv_proper [OF ok(1), of "xGenericListItem c"] assms(3) by simp
  moreover have "kind k l (xEventListItem c)" using assms(6) by (simp add: kind_def)
  ultimately obtain k1 where k1: "insert_item l (xEventListItem c) k = Some k1" "same_rest k k1"
      "moved k (xEventListItem c) (Some l) k1" "kernel_inv k1 {}"
    using insert_sorted_inv [OF ok(1) assms(5)] assms(6) by fastforce
  note same = same_rest_fields [OF k1(2)] and at = moved_at [OF k1(3)]
  have "pxDelayedTaskList k \<noteq> l"
    using delay_list_at [OF ok(1), of "xTickCount k"] assms(6) unfolding delay_list_def by auto
  then have fut: "future k1" by (intro moved_future [OF k1(3,2) ok(2)]) simp
  have cur: "pxCurrentTCB k1 = Some c" "item_container (xGenericListItem c) k1 = Some (priority k1 c)"
    using assms(2,3) at same by simp_all
  obtain k2 k' where k': "leave_ready k1 = Some k2" "wait_ticks n k2 = Some k'" "waits c {5, 6, 9} k1 k'"
    using wait_ticks_ok [OF k1(4) fut cur assms(7)] by blast
  have "scheduler_ok k'"
    by (rule place_ok [OF assms(1) same_rest_state [OF k1(2)] k1(4) fut at assms(6) k'(3) assms(3,4)])
  then show ?thesis using k1(1) k'(1,2) assms(2) by (simp add: vTaskPlaceOnEventList_def)
qed

lemma vTaskPlaceOnUnorderedEventList_ok:
  assumes "scheduler_ok k" "pxCurrentTCB k = Some c" "item_container (xGenericListItem c) k = Some (priority k c)" "c \<noteq> 0"
    and "item_container (xEventListItem c) k = None" "10 \<le> l" "n \<noteq> 0"
  shows "\<exists>k'. vTaskPlaceOnUnorderedEventList l v n k = Some k' \<and> scheduler_ok k'"
proof -
  note ok = scheduler_okD [OF assms(1)]
  let ?k = "on_store (listSET_LIST_ITEM_VALUE (xEventListItem c) (v OR taskEVENT_LIST_ITEM_VALUE_IN_USE)) k"
  note set = set_event_inv [OF ok(1), where t = c and v = "v OR taskEVENT_LIST_ITEM_VALUE_IN_USE"]
  let ?k1 = "insert_item_end l (xEventListItem c) ?k"
  have "proper (store ?k) (xEventListItem c div 2)"
    using inv_proper [OF ok(1), of "xGenericListItem c"] assms(3) set(5) by simp
  moreover have "kind ?k l (xEventListItem c)" using assms(6) by (simp add: kind_def)
  moreover have "item_container (xEventListItem c) ?k = None" using assms(5) set(3) by simp
  ultimately have k1: "same_rest ?k ?k1" "moved ?k (xEventListItem c) (Some l) ?k1" "kernel_inv ?k1 {}"
    using insert_end_inv [OF set(1)] assms(6) by auto
  have same: "same_state k ?k1" by (rule same_state_trans [OF set(2) same_rest_state [OF k1(1)]])
  have at: "item_container x ?k1 = (if x = xEventListItem c then Some l else item_container x k)" for x
    using moved_at [OF k1(2), of x] set(3) by simp
  have "pxDelayedTaskList ?k \<noteq> l"
    using delay_list_at [OF set(1), of "xTickCount ?k"] assms(6) unfolding delay_list_def by auto
  then have fut: "future ?k1"
    using set(4) ok(2) by (intro moved_future [OF k1(2,1)]) auto
  have cur: "pxCurrentTCB ?k1 = Some c" "item_container (xGenericListItem c) ?k1 = Some (priority ?k1 c)"
    using assms(2,3) at same_state_fields [OF same] by simp_all
  obtain k2 k' where k': "leave_ready ?k1 = Some k2" "wait_ticks n k2 = Some k'" "waits c {5, 6, 9} ?k1 k'"
    using wait_ticks_ok [OF k1(3) fut cur assms(7)] by blast
  have "scheduler_ok k'"
    by (rule place_ok [OF assms(1) same k1(3) fut at assms(6) k'(3) assms(3,4)])
  then show ?thesis using k'(1,2) assms(2) by (simp add: vTaskPlaceOnUnorderedEventList_def Let_def)
qed

text \<open>Tasks become ready.\<close>

lemma unblocked_ok:
  assumes "scheduler_ok k" "unblocked P k k'" "same_rest k k'" "kernel_inv k' {}"
    and "\<And>t. P t \<Longrightarrow> item_container (xGenericListItem t) k \<in> {Some 5, Some 6, Some 9}"
  shows "scheduler_ok k'"
proof -
  note ok = scheduler_okD [OF assms(1)]
  have blocks: "unblocks k k'" by (rule unblocksI [OF assms(2,5)])
  have "future k'" by (rule unblocked_future [OF assms(2) same_rest_clock [OF assms(3)] ok(1,2)])
  moreover have "idle_ready k'" if "idle_ready k"
    by (rule unblocks_idle [OF blocks ok(1) that same_rest_tasks [OF assms(3)]])
  ultimately show ?thesis
    using unblocks_keeps(1,2) [OF blocks ok(1)] unblocks_pends [OF blocks ok(1)] unblocks_paired [OF blocks ok(3)] assms(4)
    by (intro scheduler_ok_change [OF assms(1) same_rest_state [OF assms(3)]]) blast+
qed

lemma event_ready_ok:
  assumes "scheduler_ok k" "item_container (xEventListItem t) k = Some e"
  shows "\<exists>n k1 k'. remove_item (xEventListItem t) k = Some (n, k1) \<and> make_ready t k1 = Some k' \<and> scheduler_ok k'
    \<and> same_rest k k' \<and> unblocked (\<lambda>u. u = t) k k'"
proof -
  note ok = scheduler_okD [OF assms(1)]
  obtain n k1 m k2 where step: "remove_item (xEventListItem t) k = Some (n, k1)" "remove_item (xGenericListItem t) k1 = Some (m, k2)"
      "same_rest k (prvAddTaskToReadyList t k2)" "kernel_inv (prvAddTaskToReadyList t k2) {}"
      "unblocked (\<lambda>u. u = t) k (prvAddTaskToReadyList t k2)"
    using ready_step [OF ok(1,3) assms(2)] by blast
  have "scheduler_ok (prvAddTaskToReadyList t k2)"
    using ok(3) assms(2) by (intro unblocked_ok [OF assms(1) step(5,3,4)]) (simp add: paired_def)
  then show ?thesis using step by (simp add: make_ready_def)
qed

lemma suspended_ready_ok:
  assumes "scheduler_ok k" "item_container (xGenericListItem t) k = Some 9" "item_container (xEventListItem t) k = None"
  shows "\<exists>k'. make_ready t k = Some k' \<and> scheduler_ok k' \<and> same_rest k k' \<and> unblocked (\<lambda>u. u = t) k k'"
proof -
  note ok = scheduler_okD [OF assms(1)]
  obtain k' where k': "make_ready t k = Some k'" "same_rest k k'"
      "moved k (xGenericListItem t) (Some (priority k t)) k'" "kernel_inv k' ({} - {priority k t})"
    using make_ready_inv [OF ok(1) assms(2)] by auto
  have un: "unblocked (\<lambda>u. u = t) k k'"
    using moved_at [OF k'(3)] assms(3) unfolding unblocked_def by simp
  have "scheduler_ok k'"
    by (rule unblocked_ok [OF assms(1) un k'(2)]) (use k'(4) assms(2) in simp_all)
  then show ?thesis using k' un by blast
qed

text \<open>A waiting task becomes pending while the scheduler is suspended.\<close>

lemma insert_pending_ok:
  assumes "kernel_inv k' {}" "same_rest k k'" "scheduler_ok k" "uxSchedulerSuspended k \<noteq> 0" "item_container (xEventListItem t) k' = None"
    and "item_container (xGenericListItem t) k \<in> {Some 5, Some 6, Some 9}"
    and "\<And>x. item_container x k' = (if x = xEventListItem t then None else item_container x k)"
  shows "scheduler_ok (insert_item_end xPendingReadyList (xEventListItem t) k')
    \<and> same_rest k (insert_item_end xPendingReadyList (xEventListItem t) k')
    \<and> moved k (xEventListItem t) (Some xPendingReadyList) (insert_item_end xPendingReadyList (xEventListItem t) k')"
proof -
  let ?k = "insert_item_end 7 (xEventListItem t) k'"
  note ok = scheduler_okD [OF assms(3)]
  have "item_container (xGenericListItem t) k \<noteq> None" using assms(6) by auto
  then have "proper (store k') (xEventListItem t div 2)"
    using inv_proper [OF ok(1), of "xGenericListItem t"] same_rest_proper [OF assms(2)] by simp
  then have k: "same_rest k' ?k" "moved k' (xEventListItem t) (Some 7) ?k" "kernel_inv ?k {}"
    using insert_end_inv [OF assms(1,5)] by (simp_all add: kind_def)
  have same: "same_rest k ?k" by (rule same_rest_trans [OF assms(2) k(1)])
  have moved: "moved k (xEventListItem t) (Some 7) ?k"
    using moved_at [OF k(2)] assms(7) unfolding moved_def by simp
  note at = moved_at [OF moved]
  have D: "pxDelayedTaskList k \<noteq> 7" using delay_list_at [OF ok(1), of "xTickCount k"] unfolding delay_list_def by auto
  have "future ?k" by (rule moved_future [OF moved same ok(2)]) (use D in simp)
  moreover have "paired ?k" using ok(3) assms(6) unfolding paired_def at by auto
  ultimately have "scheduler_ok ?k"
    using assms(4) by (intro scheduler_ok_change [OF assms(3) same_rest_state [OF same] k(3)])
      (auto simp: at idle_ready_def same_rest_fields [OF same])
  then show ?thesis using same moved by (simp add: rtos_defs)
qed

lemma event_head:
  assumes "kernel_inv k S" "\<not> listLIST_IS_EMPTY l (store k)" "10 \<le> l"
  shows "\<exists>t. listGET_OWNER_OF_HEAD_ENTRY l (store k) = Some t \<and> item_container (xEventListItem t) k = Some l"
proof -
  obtain X where X: "kernel_ok k X S" using assms(1) unfolding kernel_inv_def by blast
  note ok = kernel_okD [OF X]
  obtain x xs where x: "X l = x # xs" using has_lists_empty [OF ok(1), of l] assms(2) by (cases "X l") auto
  have "kind k l x" using ok(2) x unfolding kinds_def by (metis list.set_intros(1))
  then obtain t where t: "x = xEventListItem t" using assms(3) unfolding kind_def by auto
  then show ?thesis
    using has_lists_head [OF ok(1) x] has_lists_proper [OF ok(1), of x l] x kernel_ok_at [OF X, of x l]
    by (simp add: proper_def)
qed

lemma xTaskRemoveFromEventList_ok:
  assumes "scheduler_ok k" "\<not> listLIST_IS_EMPTY l (store k)" "10 \<le> l"
  shows "\<exists>y k'. xTaskRemoveFromEventList l k = Some (y, k') \<and> scheduler_ok k'"
proof -
  note ok = scheduler_okD [OF assms(1)]
  obtain t where t: "listGET_OWNER_OF_HEAD_ENTRY l (store k) = Some t" "item_container (xEventListItem t) k = Some l"
    using event_head [OF ok(1) assms(2,3)] by blast
  obtain n k1 where k1: "remove_item (xEventListItem t) k = Some (n, k1)" "same_rest k k1"
      "moved k (xEventListItem t) None k1" "kernel_inv k1 {}"
    using remove_inv [OF ok(1) t(2)] assms(3) by auto
  obtain k2 where k2: "(if uxSchedulerSuspended k1 = 0 then make_ready t k1
      else Some (insert_item_end xPendingReadyList (xEventListItem t) k1)) = Some k2" "scheduler_ok k2"
  proof (cases "uxSchedulerSuspended k = 0")
    case True
    then show ?thesis
      using event_ready_ok [OF assms(1) t(2)] k1(1) same_rest_fields(12) [OF k1(2)] that by auto
  next
    case False
    have at: "item_container (xGenericListItem t) k \<in> {Some 5, Some 6, Some 9}"
      using ok(3) t(2) unfolding paired_def by simp
    have "scheduler_ok (insert_item_end xPendingReadyList (xEventListItem t) k1)"
      using insert_pending_ok [OF k1(4,2) assms(1) False _ at] moved_at [OF k1(3)] by simp
    then show ?thesis using False same_rest_fields(12) [OF k1(2)] that by simp
  qed
  obtain c where "pxCurrentTCB k2 = Some c" using current_task [OF scheduler_okD(1) [OF k2(2)]] by blast
  then show ?thesis using t(1) k1(1) k2 by (auto simp: xTaskRemoveFromEventList_def)
qed

lemma xTaskRemoveFromUnorderedEventList_ok:
  assumes "scheduler_ok k" "item_container (xEventListItem t) k = Some l"
  shows "\<exists>y k'. xTaskRemoveFromUnorderedEventList (xEventListItem t) v k = Some (y, k') \<and> scheduler_ok k'"
proof -
  note ok = scheduler_okD [OF assms(1)]
  let ?k = "on_store (listSET_LIST_ITEM_VALUE (xEventListItem t) (v OR taskEVENT_LIST_ITEM_VALUE_IN_USE)) k"
  note set = set_event_inv [OF ok(1), where t = t and v = "v OR taskEVENT_LIST_ITEM_VALUE_IN_USE"]
  have k: "scheduler_ok ?k"
    using ok by (intro scheduler_ok_change [OF assms(1) set(2,1)])
      (auto simp: set(3,4) paired_def pends_def idle_ready_def same_state_fields [OF set(2)])
  have at: "item_container (xEventListItem t) ?k = Some l" using set(3) assms(2) by simp
  then have "proper (store ?k) t" using inv_proper [OF set(1), of "xEventListItem t"] by simp
  then have owner: "listGET_LIST_ITEM_OWNER (xEventListItem t) (store ?k) = t"
    by (simp add: proper_def listGET_LIST_ITEM_OWNER_def)
  obtain n k1 k' where k': "remove_item (xEventListItem t) ?k = Some (n, k1)" "make_ready t k1 = Some k'" "scheduler_ok k'"
    using event_ready_ok [OF k at] by blast
  obtain c where "pxCurrentTCB k' = Some c" using current_task [OF scheduler_okD(1) [OF k'(3)]] by blast
  then show ?thesis using owner k' by (auto simp: xTaskRemoveFromUnorderedEventList_def Let_def)
qed

text \<open>Resuming suspended tasks.\<close>

lemma suspended_at:
  assumes "prvTaskIsTaskSuspended t k"
  shows "item_container (xGenericListItem t) k = Some 9" "item_container (xEventListItem t) k = None"
  using assms by (simp_all add: prvTaskIsTaskSuspended_def listIS_CONTAINED_WITHIN_def item_container_def listLIST_ITEM_CONTAINER_def rtos_defs)

lemma vTaskResume_ok:
  assumes "scheduler_ok k"
  shows "\<exists>k'. vTaskResume h k = Some k' \<and> scheduler_ok k'"
proof (cases "\<exists>t. h = Some t \<and> Some t \<noteq> pxCurrentTCB k \<and> prvTaskIsTaskSuspended t k")
  case True
  then obtain t where t: "h = Some t" "Some t \<noteq> pxCurrentTCB k" "prvTaskIsTaskSuspended t k" by blast
  obtain k' where k': "make_ready t k = Some k'" "scheduler_ok k'" "same_rest k k'"
    using suspended_ready_ok [OF assms suspended_at [OF t(3)]] by blast
  obtain c where "pxCurrentTCB k' = Some c" using current_task [OF scheduler_okD(1) [OF k'(2)]] by blast
  then show ?thesis using t k' by (simp add: vTaskResume_def)
next
  case False
  then have "vTaskResume h k = Some k" by (auto simp: vTaskResume_def split: option.splits)
  then show ?thesis using assms by simp
qed

lemma xTaskResumeFromISR_ok:
  assumes "scheduler_ok k"
  shows "\<exists>y k'. xTaskResumeFromISR t k = Some (y, k') \<and> scheduler_ok k'"
proof (cases "prvTaskIsTaskSuspended t k")
  case True
  note at = suspended_at [OF True] and ok = scheduler_okD [OF assms]
  obtain c where c: "pxCurrentTCB k = Some c" using current_task [OF ok(1)] by blast
  show ?thesis
  proof (cases "uxSchedulerSuspended k = 0")
    case running: True
    obtain k' where "make_ready t k = Some k'" "scheduler_ok k'"
      using suspended_ready_ok [OF assms at] by blast
    then show ?thesis using True running c by (auto simp: xTaskResumeFromISR_def)
  next
    case False
    have "scheduler_ok (insert_item_end xPendingReadyList (xEventListItem t) k)"
      using insert_pending_ok [OF ok(1) same_rest_refl assms False at(2)] at by simp
    then show ?thesis using True False by (auto simp: xTaskResumeFromISR_def)
  qed
qed (use assms in \<open>auto simp: xTaskResumeFromISR_def\<close>)

text \<open>A task leaves its lists for the list of suspended or that of deleted tasks.\<close>

lemma alarm_inv:
  assumes "kernel_inv k S"
  shows "\<exists>n. prvResetNextTaskUnblockTime k = Some (k\<lparr>xNextTaskUnblockTime := n\<rparr>) \<and> kernel_inv (k\<lparr>xNextTaskUnblockTime := n\<rparr>) S"
proof -
  obtain X where X: "kernel_ok k X S" using assms unfolding kernel_inv_def by blast
  note ok = kernel_okD [OF X]
  have "sorted (map (item_value k) (X (pxDelayedTaskList k)))" using ok(4) unfolding timed_def by blast
  then obtain n where n: "prvResetNextTaskUnblockTime k = Some (k\<lparr>xNextTaskUnblockTime := n\<rparr>)"
      "\<forall>x\<in>set (X (pxDelayedTaskList k)). n \<le> item_value k x"
    using reset_alarm [OF ok(1,2)] by blast
  have "kernel_ok (k\<lparr>xNextTaskUnblockTime := n\<rparr>) X S" by (rule alarm_ok [OF X]) (use n(2) in blast)
  then show ?thesis using n(1) unfolding kernel_inv_def by blast
qed

lemma reset_alarm_ok:
  assumes "scheduler_ok k"
  shows "\<exists>n. prvResetNextTaskUnblockTime k = Some (k\<lparr>xNextTaskUnblockTime := n\<rparr>) \<and> scheduler_ok (k\<lparr>xNextTaskUnblockTime := n\<rparr>)"
proof -
  note ok = scheduler_okD [OF assms]
  obtain n where n: "prvResetNextTaskUnblockTime k = Some (k\<lparr>xNextTaskUnblockTime := n\<rparr>)" "kernel_inv (k\<lparr>xNextTaskUnblockTime := n\<rparr>) {}"
    using alarm_inv [OF ok(1)] by blast
  have "scheduler_ok (k\<lparr>xNextTaskUnblockTime := n\<rparr>)"
    using ok n(2)
    by (simp add: scheduler_ok_def future_def paired_def settled_def pends_def counted_def tasks_in_def idle_ready_def item_container_def)
  then show ?thesis using n(1) by blast
qed

lemma leave_for:
  assumes "kernel_inv k {}" "future k" "paired k" "item_container (xGenericListItem t) k = Some m" "l \<in> {8, 9}"
  shows "\<exists>k1. leave_lists t k = Some k1 \<and> (\<forall>k'. k' = insert_item_end l (xGenericListItem t) k1 \<longrightarrow>
     same_rest k k' \<and> kernel_inv k' {} \<and> future k' \<and> paired k'
     \<and> (\<forall>x. item_container x k' = (if x = xGenericListItem t then Some l else if x = xEventListItem t then None else item_container x k)))"
proof -
  obtain k1 where k1: "leave_lists t k = Some k1" "same_rest k k1" "kernel_inv k1 {}"
      "\<forall>x. item_container x k1 = (if x = xGenericListItem t \<or> x = xEventListItem t then None else item_container x k)"
    using leave_lists_inv [OF assms(1,4)] by blast
  let ?k = "insert_item_end l (xGenericListItem t) k1"
  have "proper (store k1) (xGenericListItem t div 2)"
    using inv_proper [OF assms(1), of "xGenericListItem t"] assms(4) same_rest_proper [OF k1(2)] by simp
  then have k: "same_rest k1 ?k" "moved k1 (xGenericListItem t) (Some l) ?k" "kernel_inv ?k {}"
    using insert_end_inv [OF k1(3), of "xGenericListItem t" l] k1(4) assms(5) by (auto simp: kind_def)
  have at: "item_container x ?k = (if x = xGenericListItem t then Some l else if x = xEventListItem t then None else item_container x k)" for x
    using moved_at [OF k(2), of x] k1(4) by simp
  have D: "pxDelayedTaskList k \<in> {5, 6}"
    using delay_list_at [OF assms(1), of "xTickCount k"] unfolding delay_list_def by simp
  have same: "same_rest k ?k" by (rule same_rest_trans [OF k1(2) k(1)])
  have "future ?k"
    using assms(2,5) D unfolding future_def at same_rest_fields [OF same] by auto
  moreover have "paired ?k" using assms(3) unfolding paired_def at by simp
  ultimately show ?thesis using k1(1) same k(3) at by blast
qed

lemma vTaskSuspend_ok:
  assumes "scheduler_ok k" "xSchedulerRunning k" "prvGetTCBFromHandle h k = Some t" "t \<noteq> 0"
    and "item_container (xGenericListItem t) k \<notin> {None, Some 8}"
  shows "\<exists>k'. vTaskSuspend h k = Some k' \<and> scheduler_ok k'
    \<and> item_container (xGenericListItem t) k' = Some 9 \<and> item_container (xEventListItem t) k' = None"
proof -
  note ok = scheduler_okD [OF assms(1)]
  obtain k1 where k1: "leave_lists t k = Some k1" and k2: "\<forall>k'. k' = insert_item_end 9 (xGenericListItem t) k1 \<longrightarrow>
     same_rest k k' \<and> kernel_inv k' {} \<and> future k' \<and> paired k'
     \<and> (\<forall>x. item_container x k' = (if x = xGenericListItem t then Some 9 else if x = xEventListItem t then None else item_container x k))"
    using leave_for [OF ok(1-3), of t _ 9] assms(5) by auto
  let ?k = "insert_item_end 9 (xGenericListItem t) k1"
  have k: "same_rest k ?k" "kernel_inv ?k {}" "future ?k" "paired ?k"
      "\<And>x. item_container x ?k = (if x = xGenericListItem t then Some 9 else if x = xEventListItem t then None else item_container x k)"
    using k2 by simp_all
  note same = same_rest_fields [OF k(1)]
  have good: "scheduler_ok ?k"
    using assms(4,5) by (intro scheduler_ok_change [OF assms(1) same_rest_state [OF k(1)] k(2-4)])
      (auto simp: k(5) pends_def idle_ready_def same rtos_defs split: if_splits)
  have run: "xSchedulerRunning ?k" "pxCurrentTCB ?k = pxCurrentTCB k" using assms(2) by (simp_all only: same)
  show ?thesis
  proof (cases "Some t = pxCurrentTCB k")
    case True
    then have "pxCurrentTCB k = Some t" by simp
    then have "vTaskSuspend h k = Some (portYIELD ?k)"
      using assms(3) k1 run by (simp add: vTaskSuspend_def xSuspendedTaskList_def Let_def)
    then show ?thesis using good k(5) by (simp add: portYIELD_def yield_ok [unfolded portYIELD_def])
  next
    case False
    obtain n where n: "prvResetNextTaskUnblockTime ?k = Some (?k\<lparr>xNextTaskUnblockTime := n\<rparr>)"
        "scheduler_ok (?k\<lparr>xNextTaskUnblockTime := n\<rparr>)"
      using reset_alarm_ok [OF good] by blast
    have "vTaskSuspend h k = Some (?k\<lparr>xNextTaskUnblockTime := n\<rparr>)"
      using assms(3) k1 run n(1) False by (simp add: vTaskSuspend_def xSuspendedTaskList_def Let_def)
    moreover have "item_container x (?k\<lparr>xNextTaskUnblockTime := n\<rparr>) = item_container x ?k" for x
      by (simp add: item_container_def)
    ultimately show ?thesis using n(2) k(5) by simp
  qed
qed

text \<open>Deleting a task, and freeing it.\<close>

lemma count_fields [simp]:
  "kernel_inv (k\<lparr>uxTasksDeleted := n\<rparr>) S = kernel_inv k S" "kernel_inv (k\<lparr>uxCurrentNumberOfTasks := n\<rparr>) S = kernel_inv k S"
proof -
  have "kernel_ok (k\<lparr>uxTasksDeleted := n\<rparr>) X S = kernel_ok k X S"
    "kernel_ok (k\<lparr>uxCurrentNumberOfTasks := n\<rparr>) X S = kernel_ok k X S" for X
    by (auto elim: kernel_ok_fields)
  then show "kernel_inv (k\<lparr>uxTasksDeleted := n\<rparr>) S = kernel_inv k S" "kernel_inv (k\<lparr>uxCurrentNumberOfTasks := n\<rparr>) S = kernel_inv k S"
    unfolding kernel_inv_def by simp_all
qed

lemma vTaskDelete_ok:
  assumes "scheduler_ok k" "xSchedulerRunning k" "prvGetTCBFromHandle h k = Some t" "t \<noteq> 0"
    and "item_container (xGenericListItem t) k \<notin> {None, Some 8}"
  shows "\<exists>k'. vTaskDelete h k = Some k' \<and> scheduler_ok k'"
proof -
  note ok = scheduler_okD [OF assms(1)]
  obtain k1 where k1: "leave_lists t k = Some k1" and k2: "\<forall>k'. k' = insert_item_end 8 (xGenericListItem t) k1 \<longrightarrow>
     same_rest k k' \<and> kernel_inv k' {} \<and> future k' \<and> paired k'
     \<and> (\<forall>x. item_container x k' = (if x = xGenericListItem t then Some 8 else if x = xEventListItem t then None else item_container x k))"
    using leave_for [OF ok(1-3), of t _ 8] assms(5) by auto
  let ?k = "insert_item_end 8 (xGenericListItem t) k1"
  have k: "same_rest k ?k" "kernel_inv ?k {}" "future ?k" "paired ?k"
      "\<And>x. item_container x ?k = (if x = xGenericListItem t then Some 8 else if x = xEventListItem t then None else item_container x k)"
    using k2 by simp_all
  note same = same_rest_fields [OF k(1)]
  let ?d = "?k\<lparr>uxTasksDeleted := uxTasksDeleted ?k + 1\<rparr>"
  have at: "item_container x ?d = item_container x ?k" for x by (simp add: item_container_def)
  have inv: "kernel_inv ?d {}"
    using k(2) by simp
  have "counted ?d"
  proof -
    let ?T = "tasks_in (\<lambda>l. l = Some 8) k"
    have "tasks_in (\<lambda>l. l = Some 8) ?d = insert t ?T" "t \<notin> ?T"
      using assms(5) unfolding tasks_in_def at k(5) by auto
    moreover have "finite ?T" by (rule tasks_in_card(1) [OF ok(1)]) simp
    moreover have "tasks_in (\<lambda>l. l \<noteq> None) ?d = tasks_in (\<lambda>l. l \<noteq> None) k"
      using assms(5) unfolding tasks_in_def at k(5) by auto
    ultimately show ?thesis using ok(5) unfolding counted_def by (simp add: same)
  qed
  moreover have "settled ?d"
    using ok(4) unfolding settled_def pends_def at k(5) by (auto simp: same)
  moreover have "idle_ready ?d"
    using ok(6) [OF assms(2)] assms(4) unfolding idle_ready_def at k(5) by (simp add: same)
  moreover have "future ?d" "paired ?d" using k(3,4) by (simp_all add: future_def paired_def item_container_def)
  ultimately have good: "scheduler_ok ?d" using inv unfolding scheduler_ok_def by blast
  have run: "xSchedulerRunning ?d" "pxCurrentTCB ?d = pxCurrentTCB k" using assms(2) by (simp_all add: same)
  show ?thesis
  proof (cases "Some t = pxCurrentTCB k")
    case True
    then have "pxCurrentTCB k = Some t" by simp
    then have "vTaskDelete h k = Some (portYIELD ?d)"
      using assms(3) k1 run by (simp add: vTaskDelete_def xTasksWaitingTermination_def Let_def)
    then show ?thesis using good by simp
  next
    case False
    obtain n where n: "prvResetNextTaskUnblockTime ?d = Some (?d\<lparr>xNextTaskUnblockTime := n\<rparr>)"
        "scheduler_ok (?d\<lparr>xNextTaskUnblockTime := n\<rparr>)"
      using reset_alarm_ok [OF good] by blast
    have "vTaskDelete h k = Some (?d\<lparr>xNextTaskUnblockTime := n\<rparr>)"
      using assms(3) k1 run n(1) False by (simp add: vTaskDelete_def xTasksWaitingTermination_def Let_def)
    then show ?thesis using n(2) by simp
  qed
qed

lemma doomed_head:
  assumes "kernel_inv k S" "\<not> listLIST_IS_EMPTY xTasksWaitingTermination (store k)"
  shows "\<exists>t. listGET_OWNER_OF_HEAD_ENTRY xTasksWaitingTermination (store k) = Some t \<and> item_container (xGenericListItem t) k = Some 8"
proof -
  obtain X where X: "kernel_ok k X S" using assms(1) unfolding kernel_inv_def by blast
  note ok = kernel_okD [OF X]
  obtain x xs where x: "X 8 = x # xs" using has_lists_empty [OF ok(1), of 8] assms(2) unfolding rtos_defs by (cases "X 8") auto
  have "kind k 8 x" using ok(2) x unfolding kinds_def by (metis list.set_intros(1))
  then obtain t where t: "x = xGenericListItem t" unfolding kind_def by auto
  then show ?thesis
    using has_lists_head [OF ok(1) x] has_lists_proper [OF ok(1), of x 8] x kernel_ok_at [OF X, of x 8]
    by (simp add: proper_def rtos_defs)
qed

text \<open>The task is in no list any more, and is not counted any more.\<close>

lemma free_ok:
  assumes "scheduler_ok k" "item_container (xGenericListItem t) k = Some 8"
  shows "\<exists>n k'. remove_item (xGenericListItem t) k = Some (n, k')
    \<and> scheduler_ok (k'\<lparr>uxCurrentNumberOfTasks := uxCurrentNumberOfTasks k' - 1, uxTasksDeleted := uxTasksDeleted k' - 1\<rparr>)
    \<and> uxTasksDeleted k' = uxTasksDeleted k"
proof -
  note ok = scheduler_okD [OF assms(1)]
  obtain n k' where k': "remove_item (xGenericListItem t) k = Some (n, k')" "same_rest k k'"
      "moved k (xGenericListItem t) None k'" "kernel_inv k' {}"
    using remove_inv [OF ok(1) assms(2)] by auto
  note same = same_rest_fields [OF k'(2)] and moved = moved_at [OF k'(3)]
  let ?k = "k'\<lparr>uxCurrentNumberOfTasks := uxCurrentNumberOfTasks k' - 1, uxTasksDeleted := uxTasksDeleted k' - 1\<rparr>"
  have at: "item_container x ?k = item_container x k'" for x by (simp add: item_container_def)
  have inv: "kernel_inv ?k {}" using k'(4) by simp
  have less: "card (tasks_in P ?k) = card (tasks_in P k) - 1" "tasks_in P k \<noteq> {}" "finite (tasks_in P k)"
    if "\<not> P None" "P (Some 8)" for P
  proof -
    have "tasks_in P ?k = tasks_in P k - {t}" "t \<in> tasks_in P k"
      using that assms(2) unfolding tasks_in_def at moved by auto
    then show "card (tasks_in P ?k) = card (tasks_in P k) - 1" "tasks_in P k \<noteq> {}" "finite (tasks_in P k)"
      using tasks_in_card(1) [of k "{}" P] ok(1) that(1) by auto
  qed
  have one: "(of_nat (card (tasks_in P ?k)) :: u32) = of_nat (card (tasks_in P k)) - 1" if "\<not> P None" "P (Some 8)" for P
  proof -
    have "card (tasks_in P k) = Suc (card (tasks_in P ?k))"
      using less [where P = P, OF that] by (cases "card (tasks_in P k)") simp_all
    then show ?thesis by simp
  qed
  have "uxCurrentNumberOfTasks ?k = of_nat (card (tasks_in (\<lambda>l. l \<noteq> None) ?k))"
    using ok(5) unfolding counted_def by (subst one) (simp_all add: same)
  moreover have "uxTasksDeleted ?k = of_nat (card (tasks_in (\<lambda>l. l = Some 8) ?k))"
    using ok(5) unfolding counted_def by (subst one) (simp_all add: same)
  ultimately have "counted ?k" unfolding counted_def by blast
  moreover have "paired ?k"
    using ok(3) assms(2) unfolding paired_def at moved by auto
  moreover have "settled ?k"
    using ok(4) unfolding settled_def pends_def at moved by (auto simp: same)
  moreover have "future k'" by (rule moved_future [OF k'(3,2) ok(2)]) simp
  then have "future ?k" by (simp add: future_def item_container_def)
  moreover have "idle_ready ?k" if "idle_ready k"
    using that assms(2) inv_priority [OF ok(1), of 0] unfolding idle_ready_def at moved
    by (cases "t = 0") (auto simp: same)
  ultimately have "scheduler_ok ?k" using inv ok(6) unfolding scheduler_ok_def by (simp add: same)
  then show ?thesis using k'(1) same by simp
qed

lemma free_deleted_task_ok:
  assumes "scheduler_ok k" "xSchedulerRunning k" "uxSchedulerSuspended k = 0" "uxTasksDeleted k \<noteq> 0"
  shows "\<exists>t k'. free_deleted_task k = Some (Some t, k') \<and> scheduler_ok k' \<and> uxTasksDeleted k' = uxTasksDeleted k - 1
    \<and> item_container (xGenericListItem t) k = Some 8 \<and> xSchedulerRunning k' \<and> uxSchedulerSuspended k' = 0"
proof -
  let ?s = "vTaskSuspendAll k"
  have s: "scheduler_ok ?s" by (rule vTaskSuspendAll_ok [OF assms(1)]) (simp add: assms(3))
  have susp: "uxSchedulerSuspended ?s \<noteq> 0" "xSchedulerRunning ?s" using assms(2,3) by (simp_all add: vTaskSuspendAll_def)
  obtain y k1 where k1: "xTaskResumeAll ?s = Some (y, k1)" "scheduler_ok k1" "unblocks ?s k1" "same_threads ?s k1"
      "uxSchedulerSuspended k1 = uxSchedulerSuspended ?s - 1"
    using resume_all_ok [OF s susp(2,1)] by blast
  note ok = scheduler_okD [OF s] and ok1 = scheduler_okD [OF k1(2)] and keeps = unblocks_keeps [OF k1(3) ok(1)]
  have deleted: "uxTasksDeleted k1 = uxTasksDeleted k"
    using ok(5) ok1(5) keeps(2) unfolding counted_def tasks_in_def by (simp add: vTaskSuspendAll_def)
  obtain X where X: "kernel_ok k1 X {}" using ok1(1) unfolding kernel_inv_def by blast
  obtain Y where Y: "kernel_ok ?s Y {}" using ok(1) unfolding kernel_inv_def by blast
  have "X 8 \<noteq> []"
  proof
    assume "X 8 = []"
    then have "tasks_in (\<lambda>l. l = Some 8) k1 = {}" using kernel_ok_at [OF X] unfolding tasks_in_def by simp
    then show False using ok1(5) deleted assms(4) unfolding counted_def by simp
  qed
  then obtain t where t: "listGET_OWNER_OF_HEAD_ENTRY xTasksWaitingTermination (store k1) = Some t"
      "item_container (xGenericListItem t) k1 = Some 8"
    using doomed_head [OF ok1(1)] has_lists_empty [OF kernel_okD(1) [OF X], of 8] unfolding rtos_defs by blast
  have "Y 8 \<noteq> []" using keeps(2) t(2) kernel_ok_at [OF Y, of "xGenericListItem t" 8] by auto
  then have nonempty: "\<not> listLIST_IS_EMPTY xTasksWaitingTermination (store ?s)"
    using has_lists_empty [OF kernel_okD(1) [OF Y], of 8] unfolding rtos_defs by blast
  obtain n k2 where k2: "remove_item (xGenericListItem t) k1 = Some (n, k2)"
      "scheduler_ok (k2\<lparr>uxCurrentNumberOfTasks := uxCurrentNumberOfTasks k2 - 1, uxTasksDeleted := uxTasksDeleted k2 - 1\<rparr>)"
      "uxTasksDeleted k2 = uxTasksDeleted k1"
    using free_ok [OF k1(2) t(2)] by blast
  have same: "xSchedulerRunning k2 = xSchedulerRunning k1" "uxSchedulerSuspended k2 = uxSchedulerSuspended k1"
    using k2(1) by (auto simp: remove_item_def)
  have "item_container (xGenericListItem t) k = Some 8"
    using keeps(2) t(2) by (simp add: vTaskSuspendAll_def)
  moreover have "xSchedulerRunning k1" "uxSchedulerSuspended k1 = 0"
    using k1(4,5) susp(2) assms(3) by (simp_all add: same_threads_def vTaskSuspendAll_def)
  ultimately show ?thesis
    using k1(1) nonempty t k2 deleted same by (auto simp: free_deleted_task_def Let_def)
qed

lemma free_all_ok:
  assumes "scheduler_ok k" "xSchedulerRunning k" "uxSchedulerSuspended k = 0"
  shows "\<exists>k'. prvCheckTasksWaitingTermination k = Some k' \<and> scheduler_ok k' \<and> uxTasksDeleted k' = 0"
  using assms
proof (induction "unat (uxTasksDeleted k)" arbitrary: k rule: less_induct)
  case less
  show ?case
  proof (cases "uxTasksDeleted k = 0")
    case True
    then have "prvCheckTasksWaitingTermination k = Some k" by (subst prvCheckTasksWaitingTermination.simps) simp
    then show ?thesis using less.prems True by simp
  next
    case False
    obtain t k1 where k1: "free_deleted_task k = Some (Some t, k1)" "scheduler_ok k1" "uxTasksDeleted k1 = uxTasksDeleted k - 1"
        "xSchedulerRunning k1" "uxSchedulerSuspended k1 = 0"
      using free_deleted_task_ok [OF less.prems False] by blast
    have "unat (uxTasksDeleted k1) < unat (uxTasksDeleted k)" using False k1(3) by (simp add: unat_pred_less)
    then obtain k' where "prvCheckTasksWaitingTermination k1 = Some k'" "scheduler_ok k'" "uxTasksDeleted k' = 0"
      using less.hyps k1(2,4,5) by blast
    moreover have "prvCheckTasksWaitingTermination k = prvCheckTasksWaitingTermination k1"
      using False k1(1) by (subst prvCheckTasksWaitingTermination.simps) (simp add: word_neq_0_conv)
    ultimately show ?thesis by simp
  qed
qed

text \<open>Switching tasks.\<close>

lemma vTaskSwitchContext_ok:
  assumes "scheduler_ok k" "xSchedulerRunning k"
  shows "\<exists>k'. vTaskSwitchContext k = Some k' \<and> scheduler_ok k'"
proof (cases "uxSchedulerSuspended k = 0")
  case False
  then show ?thesis using assms(1) by (simp add: vTaskSwitchContext_def)
next
  case True
  note ok = scheduler_okD [OF assms(1)]
  obtain k' t st where k': "vTaskSwitchContext k = Some k'" "k' = k\<lparr>store := st, pxCurrentTCB := Some t, xYieldPending := False\<rparr>"
      "items st = items (store k)" "kernel_inv k' {}"
    using switch_inv [OF ok(1) True ok(6) [OF assms(2), unfolded idle_ready_def]] by blast
  have at: "item_container x k' = item_container x k" for x
    using k'(2,3) by (simp add: item_container_def listLIST_ITEM_CONTAINER_def)
  have "scheduler_ok k'"
    using ok k'(4) unfolding scheduler_ok_def future_def paired_def settled_def pends_def counted_def tasks_in_def idle_ready_def at
    by (simp add: k'(2,3))
  then show ?thesis using k'(1) by blast
qed

subsection \<open>Changes of priority keep the invariant\<close>

lemma upd_tcb_fields [simp]:
  "store (upd_tcb t f k) = store k" "pxCurrentTCB (upd_tcb t f k) = pxCurrentTCB k"
  "uxTopReadyPriority (upd_tcb t f k) = uxTopReadyPriority k" "xTickCount (upd_tcb t f k) = xTickCount k"
  "pxDelayedTaskList (upd_tcb t f k) = pxDelayedTaskList k" "pxOverflowDelayedTaskList (upd_tcb t f k) = pxOverflowDelayedTaskList k"
  "xNextTaskUnblockTime (upd_tcb t f k) = xNextTaskUnblockTime k" "same_counts k' (upd_tcb t f k) = same_counts k' k"
  "item_container x (upd_tcb t f k) = item_container x k" "future (upd_tcb t f k) = future k" "paired (upd_tcb t f k) = paired k"
  "tcbs (upd_tcb t f k) u = (if u = t then f (tcbs k t) else tcbs k u)"
  by (simp_all add: upd_tcb_def same_counts_def item_container_def future_def paired_def)

text \<open>The priority of a task that is in no ready list may change.\<close>

lemma upd_tcb_inv:
  assumes "kernel_inv k S" "\<And>l. item_container (xGenericListItem t) k = Some l \<Longrightarrow> 5 \<le> l"
    and "uxPriority (f (tcbs k t)) < 5" "uxBasePriority (f (tcbs k t)) < 5"
  shows "kernel_inv (upd_tcb t f k) S"
proof -
  obtain X where X: "kernel_ok k X S" using assms(1) unfolding kernel_inv_def by blast
  note ok = kernel_okD [OF X]
  have kind: "kind (upd_tcb t f k) l x" if x: "x \<in> set (X l)" for l x
  proof -
    have old: "kind k l x" using ok(2) x unfolding kinds_def by blast
    show ?thesis
    proof (cases "l < 5")
      case True
      then obtain u where u: "x = xGenericListItem u" "priority k u = l" using old unfolding kind_def by auto
      have "u \<noteq> t" using assms(2) [of l] kernel_ok_at [OF X, of x l] x u(1) True by auto
      then show ?thesis using u True by (simp add: kind_def)
    next
      case False
      then show ?thesis using old by (simp add: kind_def)
    qed
  qed
  have "kinds (upd_tcb t f k) X"
    using ok(2) kind assms(3,4) unfolding kinds_def by simp
  moreover have "has_lists (upd_tcb t f k) X" "marked (upd_tcb t f k) X S" "timed (upd_tcb t f k) X"
    using ok(1,3,4) by (simp_all add: has_lists_def marked_def timed_def)
  ultimately show ?thesis unfolding kernel_inv_def kernel_ok_def by blast
qed

text \<open>A ready task gets another priority and the ready list of it.\<close>

lemma ready_again_ok:
  assumes "scheduler_ok k" "same_state k k1" "kernel_inv k1 {}" "proper (store k1) t"
    and "\<And>x. item_container x k1 = (if x = xGenericListItem t then None else item_container x k)"
    and "future k1" "item_container (xGenericListItem t) k = Some (priority k t)"
    and "uxPriority (f (tcbs k t)) < 5" "uxBasePriority (f (tcbs k t)) < 5"
  shows "scheduler_ok (prvAddTaskToReadyList t (upd_tcb t f k1))
    \<and> item_container (xGenericListItem t) (prvAddTaskToReadyList t (upd_tcb t f k1)) = Some (uxPriority (f (tcbs k t)))"
proof -
  let ?k2 = "upd_tcb t f k1" and ?k3 = "prvAddTaskToReadyList t (upd_tcb t f k1)" and ?p = "uxPriority (f (tcbs k t))"
  note ok = scheduler_okD [OF assms(1)] and same1 = same_state_fields [OF assms(2)]
  have inv2: "kernel_inv ?k2 {}" using assms(5,8,9) by (intro upd_tcb_inv [OF assms(3)]) (auto simp: same1)
  have prio: "priority ?k2 t = ?p" by (simp add: same1)
  have k3: "same_rest ?k2 ?k3" "moved ?k2 (xGenericListItem t) (Some ?p) ?k3" "kernel_inv ?k3 ({} - {?p})"
    using add_ready_inv [OF inv2, of t] assms(4,5) unfolding prio by simp_all
  have at: "item_container x ?k3 = (if x = xGenericListItem t then Some ?p else item_container x k)" for x
    using moved_at [OF k3(2), of x] assms(5) by simp
  have old: "priority k t < 5" by (rule inv_priority [OF ok(1)])
  have D: "pxDelayedTaskList ?k2 \<noteq> ?p"
    using delay_list_at [OF inv2, of "xTickCount ?k2"] assms(8) unfolding delay_list_def by auto
  have "future ?k3" using assms(6) D by (intro moved_future [OF k3(2,1)]) simp_all
  moreover have "paired ?k3"
    using ok(3) assms(7) old unfolding paired_def at by auto
  moreover have "same_counts k ?k3"
    using same_state_counts [OF assms(2)] same_state_counts [OF same_rest_state [OF k3(1)]] unfolding same_counts_def by (simp add: upd_tcb_def)
  moreover have "tcbs ?k3 u = (if u = t then f (tcbs k t) else tcbs k u)" for u
    by (simp add: same_rest_fields [OF k3(1)] same1)
  ultimately have "scheduler_ok ?k3"
    using k3(3) assms(7,8) old
    by (intro scheduler_ok_counts [OF assms(1)]) (auto simp: at pends_def idle_ready_def)
  then show ?thesis using at by simp
qed

text \<open>The priority of a task that is not ready changes.\<close>

lemma not_ready_ok:
  assumes "scheduler_ok k" "item_container (xGenericListItem t) k \<noteq> Some (priority k t)"
    and "uxPriority (f (tcbs k t)) < 5" "uxBasePriority (f (tcbs k t)) < 5" "xSchedulerRunning k"
  shows "scheduler_ok (upd_tcb t f k)"
proof -
  note ok = scheduler_okD [OF assms(1)]
  have idle: "idle_ready k" by (rule ok(6) [OF assms(5)])
  then have "t \<noteq> 0" using assms(2) unfolding idle_ready_def by metis
  then have idle': "idle_ready (upd_tcb t f k)" using idle by (simp add: idle_ready_def)
  have "5 \<le> l" if "item_container (xGenericListItem t) k = Some l" for l
    using inv_generic_at [OF ok(1) that] assms(2) that by auto
  then have "kernel_inv (upd_tcb t f k) {}" by (intro upd_tcb_inv [OF ok(1)] assms(3,4))
  then show ?thesis
    using ok idle' by (intro scheduler_ok_counts [OF assms(1)]) (simp_all add: pends_def)
qed

text \<open>The fields that are not priorities, and the counters, may change at any time.\<close>

lemma upd_tcb_ok:
  assumes "scheduler_ok k" "uxPriority (f (tcbs k t)) = priority k t" "uxBasePriority (f (tcbs k t)) = uxBasePriority (tcbs k t)"
  shows "scheduler_ok (upd_tcb t f k)"
proof -
  note ok = scheduler_okD [OF assms(1)]
  obtain X where X: "kernel_ok k X {}" using ok(1) unfolding kernel_inv_def by blast
  have prio: "priority (upd_tcb t f k) u = priority k u" "uxBasePriority (tcbs (upd_tcb t f k) u) = uxBasePriority (tcbs k u)" for u
    using assms(2,3) by simp_all
  have "kernel_ok (upd_tcb t f k) X {}"
    using kernel_okD [OF X] unfolding kernel_ok_def has_lists_def kinds_def kind_def marked_def timed_def prio by simp
  then have "kernel_inv (upd_tcb t f k) {}" unfolding kernel_inv_def by blast
  then show ?thesis
    using ok assms(2) by (intro scheduler_ok_counts [OF assms(1)]) (auto simp: pends_def idle_ready_def)
qed

text \<open>Changes of a task's record and of the lists do not depend on each other.\<close>

lemma upd_tcb_commutes:
  "remove_item i (upd_tcb t f k) = map_option (\<lambda>(n, k). (n, upd_tcb t f k)) (remove_item i k)"
  "portRESET_READY_PRIORITY p (upd_tcb t f k) = upd_tcb t f (portRESET_READY_PRIORITY p k)"
  "set_event_value u q (upd_tcb t f k) = upd_tcb t f (set_event_value u q k)"
  "on_store h (upd_tcb t f k) = upd_tcb t f (on_store h k)"
  "upd_tcb t f (upd_tcb t g k) = upd_tcb t (\<lambda>x. f (g x)) k"
  by (cases "uxListRemove i (store k)";
    simp add: remove_item_def upd_tcb_def portRESET_READY_PRIORITY_def set_event_value_def on_store_def split_beta)+

lemma set_event_value_ok:
  assumes "scheduler_ok k"
  shows "scheduler_ok (set_event_value t p k)" "same_state k (set_event_value t p k)"
    "item_container x (set_event_value t p k) = item_container x k" "proper (store (set_event_value t p k)) = proper (store k)"
proof -
  note ok = scheduler_okD [OF assms]
  let ?k = "on_store (listSET_LIST_ITEM_VALUE (xEventListItem t) (event_value p)) k"
  note set = set_event_inv [OF ok(1), where t = t and v = "event_value p"]
  have "scheduler_ok ?k"
    using ok by (intro scheduler_ok_change [OF assms set(2,1)])
      (auto simp: set(3,4) paired_def pends_def idle_ready_def same_state_fields [OF set(2)])
  then show "scheduler_ok (set_event_value t p k)" "same_state k (set_event_value t p k)"
    "item_container x (set_event_value t p k) = item_container x k" "proper (store (set_event_value t p k)) = proper (store k)"
    using assms set(2,3,5) by (simp_all add: set_event_value_def)
qed

lemma contained_at: "listIS_CONTAINED_WITHIN l i (store k) \<longleftrightarrow> item_container i k = Some l"
  by (simp add: listIS_CONTAINED_WITHIN_def item_container_def listLIST_ITEM_CONTAINER_def)

lemma vTaskPrioritySet_ok:
  assumes "scheduler_ok k" "xSchedulerRunning k"
  shows "\<exists>k'. vTaskPrioritySet h q k = Some k' \<and> scheduler_ok k'"
proof -
  note ok = scheduler_okD [OF assms(1)]
  obtain c where c: "pxCurrentTCB k = Some c" using current_task [OF ok(1)] by blast
  then obtain t where t: "prvGetTCBFromHandle h k = Some t" by (cases h) (auto simp: prvGetTCBFromHandle_def)
  define p where "p = (if configMAX_PRIORITIES \<le> q then configMAX_PRIORITIES - 1 else q)"
  have p: "p < 5" by (simp add: p_def configMAX_PRIORITIES_def)
  let ?base = "uxBasePriority (tcbs k t)" and ?used = "priority k t"
  have base: "?base < 5" "?used < 5" using ok(1) unfolding kernel_inv_def kernel_ok_def kinds_def by blast+
  define f where "f = (\<lambda>x::tcb. (if ?base = ?used then x\<lparr>uxPriority := p\<rparr> else x)\<lparr>uxBasePriority := p\<rparr>)"
  have f: "uxPriority (f (tcbs k t)) < 5" "uxBasePriority (f (tcbs k t)) < 5" using p base by (simp_all add: f_def)
  let ?k1 = "set_event_value t p k"
  note set = set_event_value_ok [OF assms(1), where t = t and p = p]
  note same1 = same_state_fields [OF set(2)]
  define y where "y = (if p > ?base then t \<noteq> c \<and> p \<ge> priority k c else t = c)"
  have upd: "set_event_value t p (upd_tcb t (\<lambda>x. x\<lparr>uxBasePriority := p\<rparr>) (if ?base = ?used then upd_tcb t (\<lambda>x. x\<lparr>uxPriority := p\<rparr>) k else k))
      = upd_tcb t f ?k1"
    by (cases "?base = ?used") (simp_all add: upd_tcb_commutes f_def)
  show ?thesis
  proof (cases "?base = p")
    case True
    then have "vTaskPrioritySet h q k = Some k" using t c by (simp add: vTaskPrioritySet_def p_def [symmetric])
    then show ?thesis using assms(1) by simp
  next
    case change: False
    show ?thesis
    proof (cases "item_container (xGenericListItem t) k = Some ?used")
      case False
      then have "vTaskPrioritySet h q k = Some (if y then portYIELD (upd_tcb t f ?k1) else upd_tcb t f ?k1)"
        using t c change set(3) unfolding y_def
        by (simp add: vTaskPrioritySet_def p_def [symmetric] upd contained_at Let_def)
      moreover have "scheduler_ok (upd_tcb t f ?k1)"
        using False f assms(2) by (intro not_ready_ok [OF set(1)]) (simp_all add: set(3) same1)
      ultimately show ?thesis by simp
    next
      case True
      obtain X where X: "kernel_ok ?k1 X {}" using scheduler_okD(1) [OF set(1)] unfolding kernel_inv_def by blast
      have "xGenericListItem t \<in> set (X (priority ?k1 t))" "priority ?k1 t < 5"
        using kernel_ok_at [OF X] True set(3) base(2) by (simp_all add: same1)
      then obtain n k2 k3 X' where k3: "remove_item (xGenericListItem t) ?k1 = Some (n, k2)"
          "k3 = (if n = 0 then portRESET_READY_PRIORITY (priority ?k1 t) k2 else k2)"
          "same_rest ?k1 k3" "moved ?k1 (xGenericListItem t) None k3" "kernel_ok k3 X' {}"
        using remove_ready_ok [OF X] by blast
      have rem: "remove_item (xGenericListItem t) (upd_tcb t f ?k1) = Some (n, upd_tcb t f k2)"
        using k3(1) by (simp add: upd_tcb_commutes)
      have res: "(if n = 0 then portRESET_READY_PRIORITY ?used (upd_tcb t f k2) else upd_tcb t f k2) = upd_tcb t f k3"
        using k3(2) by (simp add: upd_tcb_commutes same1)
      let ?k4 = "prvAddTaskToReadyList t (upd_tcb t f k3)"
      have "vTaskPrioritySet h q k = Some (if y then portYIELD ?k4 else ?k4)"
        using t c change True set(3) unfolding y_def
        by (simp add: vTaskPrioritySet_def p_def [symmetric] upd contained_at Let_def rem res)
      moreover have "proper (store k3) t"
        using inv_proper [OF scheduler_okD(1) [OF set(1)], of "xGenericListItem t"] True set(3) same_rest_proper [OF k3(3)] by simp
      moreover have "kernel_inv k3 {}" using k3(5) unfolding kernel_inv_def by blast
      moreover have "item_container x k3 = (if x = xGenericListItem t then None else item_container x k)" for x
        using moved_at [OF k3(4), of x] set(3) by simp
      moreover have "future k3" by (rule moved_future [OF k3(4,3) scheduler_okD(2) [OF set(1)]]) simp
      ultimately show ?thesis
        using ready_again_ok [where f = f and t = t, OF assms(1) same_state_trans [OF set(2) same_rest_state [OF k3(3)]] _ _ _ _ True f] by simp
    qed
  qed
qed

text \<open>A holder of a mutex inherits a priority, and loses it again.\<close>

lemma vTaskPriorityInherit_ok:
  assumes "scheduler_ok k" "xSchedulerRunning k" "pxCurrentTCB k = Some c" "priority k t < priority k c"
  shows "\<exists>k'. vTaskPriorityInherit (Some t) k = Some k' \<and> scheduler_ok k' \<and> priority k' t = priority k c
    \<and> (\<forall>u. u \<noteq> t \<longrightarrow> tcbs k' u = tcbs k u) \<and> uxBasePriority (tcbs k' t) = uxBasePriority (tcbs k t)
    \<and> (item_container (xGenericListItem t) k = Some (priority k t)
       \<longrightarrow> item_container (xGenericListItem t) k' = Some (priority k c))
    \<and> (item_container (xGenericListItem t) k \<noteq> Some (priority k t)
       \<longrightarrow> item_container (xGenericListItem t) k' = item_container (xGenericListItem t) k)"
proof -
  let ?k1 = "set_event_value t (priority k c) k"
  define f where "f = (\<lambda>x::tcb. x\<lparr>uxPriority := priority k c\<rparr>)"
  note set = set_event_value_ok [OF assms(1), where t = t and p = "priority k c"]
  note same1 = same_state_fields [OF set(2)] and ok = scheduler_okD [OF assms(1)]
  have ne: "t \<noteq> c" using assms(4) by auto
  have f: "uxPriority (f (tcbs k t)) < 5" "uxBasePriority (f (tcbs k t)) < 5"
    using ok(1) unfolding kernel_inv_def kernel_ok_def kinds_def f_def by auto
  show ?thesis
  proof (cases "item_container (xGenericListItem t) k = Some (priority k t)")
    case False
    then have "vTaskPriorityInherit (Some t) k = Some (upd_tcb t f ?k1)"
      using assms(3,4) by (simp add: vTaskPriorityInherit_def contained_at set(3) same1 f_def)
    moreover have "scheduler_ok (upd_tcb t f ?k1)"
      using False f assms(2) by (intro not_ready_ok [OF set(1)]) (simp_all add: set(3) same1)
    ultimately show ?thesis using False by (simp add: set(3) same1 f_def)
  next
    case True
    have at1: "item_container (xGenericListItem t) ?k1 = Some (priority k t)" using True set(3) by simp
    obtain n k2 k3 where k3: "remove_item (xGenericListItem t) ?k1 = Some (n, k2)"
        "k3 = (if n = 0 then taskRESET_READY_PRIORITY (priority k2 t) k2 else k2)"
        "same_rest ?k1 k3" "moved ?k1 (xGenericListItem t) None k3" "kernel_inv k3 {}"
      using remove_mark_inv [OF scheduler_okD(1) [OF set(1)] at1] by blast
    have tcbs2: "tcbs k2 = tcbs k" using k3(1) same1 by (auto simp: remove_item_def)
    have tcbs3: "tcbs k3 = tcbs k" by (simp only: same_rest_fields [OF k3(3)] same1)
    let ?k4 = "prvAddTaskToReadyList t (upd_tcb t f k3)"
    have cur3: "pxCurrentTCB k3 = Some c" using assms(3) by (simp only: same_rest_fields [OF k3(3)] same1)
    have "vTaskPriorityInherit (Some t) k =
        Some (prvAddTaskToReadyList t (upd_tcb t (\<lambda>x. x\<lparr>uxPriority := priority k3 c\<rparr>) k3))"
      using assms(3,4) True k3(1) unfolding k3(2)
      by (simp add: vTaskPriorityInherit_def contained_at set(3) same1 Let_def split del: if_split)
    then have run: "vTaskPriorityInherit (Some t) k = Some ?k4" by (simp add: tcbs3 f_def)
    have "proper (store k3) t"
      using inv_proper [OF scheduler_okD(1) [OF set(1)], of "xGenericListItem t"] at1 same_rest_proper [OF k3(3)] by simp
    moreover have "item_container x k3 = (if x = xGenericListItem t then None else item_container x k)" for x
      using moved_at [OF k3(4), of x] set(3) by simp
    moreover have "future k3" by (rule moved_future [OF k3(4,3) scheduler_okD(2) [OF set(1)]]) simp
    ultimately have k4: "scheduler_ok ?k4" "item_container (xGenericListItem t) ?k4 = Some (priority k c)"
      using ready_again_ok [where f = f and t = t, OF assms(1) same_state_trans [OF set(2) same_rest_state [OF k3(3)]] k3(5) _ _ _ True f]
      by (simp_all add: f_def)
    have "tcbs ?k4 = tcbs (upd_tcb t f k3)"
      by (simp add: prvAddTaskToReadyList_def insert_item_end_def on_store_def portRECORD_READY_PRIORITY_def)
    then have tcbs4: "tcbs ?k4 u = (if u = t then f (tcbs k t) else tcbs k u)" for u
      by (simp add: tcbs3)
    have "priority ?k4 t = priority k c" "\<forall>u. u \<noteq> t \<longrightarrow> tcbs ?k4 u = tcbs k u" "uxBasePriority (tcbs ?k4 t) = uxBasePriority (tcbs k t)"
      unfolding tcbs4 by (simp_all add: f_def)
    then show ?thesis using run k4 True by blast
  qed
qed

lemma vTaskPriorityInherit_tcbs:
  assumes "pxCurrentTCB k = Some c" "priority k t < priority k c" "vTaskPriorityInherit (Some t) k = Some k'"
  shows "tcbs k' = (tcbs k)(t := (tcbs k t)\<lparr>uxPriority := priority k c\<rparr>)"
proof -
  let ?k1 = "set_event_value t (priority k c) k"
  have tcbs1: "tcbs ?k1 = tcbs k" by (simp add: set_event_value_def on_store_def)
  have add: "tcbs (prvAddTaskToReadyList t x) = tcbs x" for x
    by (simp add: prvAddTaskToReadyList_def insert_item_end_def on_store_def portRECORD_READY_PRIORITY_def)
  have reset: "tcbs (taskRESET_READY_PRIORITY p x) = tcbs x" for p x
    by (simp add: taskRESET_READY_PRIORITY_def portRESET_READY_PRIORITY_def)
  show ?thesis
  proof (cases "listIS_CONTAINED_WITHIN (priority ?k1 t) (xGenericListItem t) (store ?k1)")
    case True
    then obtain n k2 where "remove_item (xGenericListItem t) ?k1 = Some (n, k2)"
      using assms by (cases "remove_item (xGenericListItem t) ?k1") (auto simp: vTaskPriorityInherit_def)
    then show ?thesis
      using True assms tcbs1
      by (auto simp: vTaskPriorityInherit_def remove_item_def add reset upd_tcb_def Let_def split: if_splits)
  next
    case False
    then show ?thesis using assms tcbs1 by (auto simp: vTaskPriorityInherit_def upd_tcb_def)
  qed
qed

lemma vTaskPriorityInherit_none:
  "vTaskPriorityInherit None k = Some k"
  "pxCurrentTCB k = Some c \<Longrightarrow> \<not> priority k t < priority k c \<Longrightarrow> vTaskPriorityInherit (Some t) k = Some k"
  by (simp_all add: vTaskPriorityInherit_def)

lemma xTaskPriorityDisinherit_ok:
  assumes "scheduler_ok k" "item_container (xGenericListItem t) k = Some (priority k t)"
    and "priority k t \<noteq> uxBasePriority (tcbs k t)" "uxMutexesHeld (tcbs k t) = 1"
  shows "\<exists>k'. xTaskPriorityDisinherit (Some t) k = Some (True, k') \<and> scheduler_ok k'
    \<and> tcbs k' = (tcbs k)(t := (tcbs k t)\<lparr>uxMutexesHeld := 0, uxPriority := uxBasePriority (tcbs k t)\<rparr>)
    \<and> item_container (xGenericListItem t) k' = Some (uxBasePriority (tcbs k t))"
proof -
  define h where "h = (\<lambda>x::tcb. x\<lparr>uxMutexesHeld := uxMutexesHeld x - 1\<rparr>)"
  let ?k1 = "upd_tcb t h k"
  have k1: "scheduler_ok ?k1" by (rule upd_tcb_ok [OF assms(1)]) (simp_all add: h_def)
  note ok = scheduler_okD [OF k1]
  have at1: "item_container (xGenericListItem t) ?k1 = Some (priority ?k1 t)" using assms(2) by (simp add: h_def)
  obtain n k2 k3 where k3: "remove_item (xGenericListItem t) ?k1 = Some (n, k2)"
      "k3 = (if n = 0 then taskRESET_READY_PRIORITY (priority k2 t) k2 else k2)"
      "same_rest ?k1 k3" "moved ?k1 (xGenericListItem t) None k3" "kernel_inv k3 {}"
    using remove_mark_inv [OF ok(1) at1] by blast
  have tcbs3: "tcbs k3 = tcbs ?k1" by (simp only: same_rest_fields [OF k3(3)])
  define f where "f = (\<lambda>x::tcb. x\<lparr>uxPriority := uxBasePriority x\<rparr>)"
  let ?base = "uxBasePriority (tcbs k t)"
  let ?v = "listSET_LIST_ITEM_VALUE (xEventListItem t) (event_value ?base)"
  let ?k4 = "on_store ?v k3"
  note set = set_event_inv [OF k3(5), where t = t and v = "event_value ?base"]
  let ?k5 = "prvAddTaskToReadyList t (upd_tcb t f ?k4)"
  have base: "?base < 5" using scheduler_okD(1) [OF assms(1)] unfolding kernel_inv_def kernel_ok_def kinds_def by blast
  then have f: "uxPriority (f (tcbs ?k1 t)) < 5" "uxBasePriority (f (tcbs ?k1 t)) < 5" by (simp_all add: f_def h_def)
  have run: "xTaskPriorityDisinherit (Some t) k = Some (True, ?k5)"
    using assms(3,4) k3(1) tcbs3 unfolding k3(2)
    by (simp add: xTaskPriorityDisinherit_def Let_def upd_tcb_commutes(4) h_def f_def split del: if_split)
  have "proper (store ?k4) t"
    using inv_proper [OF ok(1), of "xGenericListItem t"] at1 same_rest_proper [OF k3(3)] set(5) by simp
  moreover have "item_container x ?k4 = (if x = xGenericListItem t then None else item_container x ?k1)" for x
    using moved_at [OF k3(4), of x] set(3) by simp
  moreover have "future ?k4" using moved_future [OF k3(4,3) ok(2)] set(4) by simp
  ultimately have k5: "scheduler_ok ?k5" "item_container (xGenericListItem t) ?k5 = Some ?base"
    using ready_again_ok [where f = f and t = t, OF k1 same_state_trans [OF same_rest_state [OF k3(3)] set(2)] set(1) _ _ _ at1 f]
    by (simp_all add: f_def h_def)
  have "tcbs ?k5 = tcbs (upd_tcb t f ?k4)"
    by (simp add: prvAddTaskToReadyList_def insert_item_end_def on_store_def portRECORD_READY_PRIORITY_def)
  then have "tcbs ?k5 = (tcbs k)(t := (tcbs k t)\<lparr>uxMutexesHeld := 0, uxPriority := ?base\<rparr>)"
    using assms(4) by (auto simp: fun_eq_iff same_state_fields [OF set(2)] tcbs3 f_def h_def)
  then show ?thesis using run k5 by blast
qed

subsection \<open>Creating tasks keeps the invariant\<close>

lemma set_owner_inv:
  assumes "kernel_inv k S" "item_container (xGenericListItem t) k = None" "item_container (xEventListItem t) k = None"
    and "i \<in> {xGenericListItem t, xEventListItem t}"
  shows "kernel_inv (on_store (listSET_LIST_ITEM_OWNER i u) k) S"
proof -
  obtain X where X: "kernel_ok k X S" using assms(1) unfolding kernel_inv_def by blast
  note ok = kernel_okD [OF X]
  let ?st = "listSET_LIST_ITEM_OWNER i u (store k)" and ?k = "on_store (listSET_LIST_ITEM_OWNER i u) k"
  have "list_rep ?st l xs c" if "list_rep (store k) l xs c" for l xs c
    by (intro list_rep_frame [OF that]) (auto simp: listSET_LIST_ITEM_OWNER_def)
  moreover have "proper ?st (x div 2)" if x: "x \<in> set (X l)" for x l
  proof -
    have "x div 2 \<noteq> t"
      using x kernel_ok_at [OF X, of x l] assms(2,3) by (cases x rule: item_cases) auto
    then have "i \<noteq> xGenericListItem (x div 2)" "i \<noteq> xEventListItem (x div 2)" using assms(4) by auto
    then show ?thesis
      using has_lists_proper [OF ok(1) x] by (simp add: proper_def listSET_LIST_ITEM_OWNER_def)
  qed
  ultimately have "has_lists ?k X"
    using ok(1) unfolding has_lists_def by (simp add: on_store_def, metis)
  moreover have val: "item_value ?k x = item_value k x" for x by (simp add: on_store_def listSET_LIST_ITEM_OWNER_def)
  then have "timed ?k X" using ok(4) unfolding timed_def val by (simp add: on_store_def)
  moreover have "kinds ?k X" by (rule kinds_same [OF ok(2)]) (use ok(2) in \<open>simp_all add: kinds_def on_store_def\<close>)
  moreover have "marked ?k X S" using ok(3) by (simp add: marked_def on_store_def)
  ultimately show ?thesis unfolding kernel_inv_def kernel_ok_def by blast
qed

lemma init_item_same: "item_container i k = None \<Longrightarrow> on_store (vListInitialiseItem i) k = k"
  by (simp add: on_store_def vListInitialiseItem_def set_container_def item_container_def listLIST_ITEM_CONTAINER_def
    upd_item_def fun_upd_idem)

lemma on_store_fields [simp]:
  "tcbs (on_store g k) = tcbs k" "pxCurrentTCB (on_store g k) = pxCurrentTCB k" "xTickCount (on_store g k) = xTickCount k"
  "pxDelayedTaskList (on_store g k) = pxDelayedTaskList k" "same_counts k' (on_store g k) = same_counts k' k"
  "store (on_store g k) = g (store k)" "xSchedulerRunning (on_store g k) = xSchedulerRunning k"
  by (simp_all add: on_store_def same_counts_def)

lemma owner_container [simp]:
  "item_container x (on_store (listSET_LIST_ITEM_OWNER i u) k) = item_container x k"
  "item_container x (on_store (listSET_LIST_ITEM_VALUE i v) k) = item_container x k"
  by (simp_all add: item_container_def listLIST_ITEM_CONTAINER_def listSET_LIST_ITEM_OWNER_def listSET_LIST_ITEM_VALUE_def)

lemma owner_future [simp]: "future (on_store (listSET_LIST_ITEM_OWNER i u) k) = future k"
proof -
  have "item_value (on_store (listSET_LIST_ITEM_OWNER i u) k) x = item_value k x" for x
    by (simp add: listSET_LIST_ITEM_OWNER_def)
  then show ?thesis unfolding future_def by simp
qed

text \<open>The fields of a new task.\<close>

definition new_priority :: "nat \<Rightarrow> nat" where
  "new_priority p = (if p \<ge> configMAX_PRIORITIES then configMAX_PRIORITIES - 1 else p)"

lemma new_priority_less [simp]:
  "new_priority p < 5" "new_priority p \<noteq> 5" "new_priority p \<noteq> 6" "new_priority p \<noteq> 8"
  by (auto simp: new_priority_def configMAX_PRIORITIES_def)

lemma init_tcb_inv:
  assumes "kernel_inv k S" "item_container (xGenericListItem t) k = None" "item_container (xEventListItem t) k = None" "t < 2 ^ 30"
  shows "kernel_inv (prvInitialiseTCBVariables t p k) S" "future (prvInitialiseTCBVariables t p k) = future k"
    "item_container x (prvInitialiseTCBVariables t p k) = item_container x k"
    "proper (store (prvInitialiseTCBVariables t p k)) t" "priority (prvInitialiseTCBVariables t p k) t = new_priority p"
    "u \<noteq> t \<Longrightarrow> tcbs (prvInitialiseTCBVariables t p k) u = tcbs k u"
    "pxCurrentTCB (prvInitialiseTCBVariables t p k) = pxCurrentTCB k" "same_counts k (prvInitialiseTCBVariables t p k)"
    "pxDelayedTaskList (prvInitialiseTCBVariables t p k) = pxDelayedTaskList k"
    "item_value (prvInitialiseTCBVariables t p k) (xGenericListItem v) = item_value k (xGenericListItem v)"
proof -
  let ?f = "\<lambda>x::tcb. x\<lparr>uxPriority := new_priority p, uxBasePriority := new_priority p, uxMutexesHeld := 0\<rparr>"
  let ?g = "\<lambda>x::tcb. x\<lparr>ulNotifiedValue := 0, eNotifyState := eNotWaitingNotification\<rparr>"
  let ?k1 = "upd_tcb t ?f k"
  let ?k2 = "on_store (listSET_LIST_ITEM_OWNER (xGenericListItem t) t) ?k1"
  let ?v = "of_nat configMAX_PRIORITIES - of_nat (new_priority p) :: u32"
  let ?k3 = "on_store (listSET_LIST_ITEM_VALUE (xEventListItem t) ?v) ?k2"
  let ?k4 = "on_store (listSET_LIST_ITEM_OWNER (xEventListItem t) t) ?k3"
  have eq: "prvInitialiseTCBVariables t p k = upd_tcb t ?g ?k4"
    using assms(2,3)
    by (simp add: prvInitialiseTCBVariables_def Let_def new_priority_def [symmetric] init_item_same)
  have k1: "kernel_inv ?k1 S" by (rule upd_tcb_inv [OF assms(1)]) (simp_all add: assms(2))
  have k2: "kernel_inv ?k2 S" by (rule set_owner_inv [OF k1, where t = t]) (simp_all add: assms(2,3))
  have k3: "kernel_inv ?k3 S" by (rule set_event_inv(1) [OF k2])
  have k4: "kernel_inv ?k4 S" by (rule set_owner_inv [OF k3, where t = t]) (simp_all add: assms(2,3))
  have "priority ?k4 t < 5" "uxBasePriority (tcbs ?k4 t) < 5" by simp_all
  then show "kernel_inv (prvInitialiseTCBVariables t p k) S"
    unfolding eq by (intro upd_tcb_inv [OF k4]) (simp_all add: assms(2))
  show val: "item_value (prvInitialiseTCBVariables t p k) (xGenericListItem v) = item_value k (xGenericListItem v)" for v
    unfolding eq by (simp add: listSET_LIST_ITEM_OWNER_def listSET_LIST_ITEM_VALUE_def)
  show at: "item_container x (prvInitialiseTCBVariables t p k) = item_container x k" for x
    unfolding eq by simp
  have "future ?k3 = future ?k2" by (rule set_event_inv(4) [OF k2])
  then show "future (prvInitialiseTCBVariables t p k) = future k"
    unfolding eq by simp
  show "proper (store (prvInitialiseTCBVariables t p k)) t"
    using assms(4) unfolding eq by (simp add: proper_def listSET_LIST_ITEM_OWNER_def listSET_LIST_ITEM_VALUE_def)
  show "priority (prvInitialiseTCBVariables t p k) t = new_priority p" unfolding eq by simp
  show "tcbs (prvInitialiseTCBVariables t p k) u = tcbs k u" if "u \<noteq> t" using that unfolding eq by simp
  show "pxCurrentTCB (prvInitialiseTCBVariables t p k) = pxCurrentTCB k" "same_counts k (prvInitialiseTCBVariables t p k)"
    "pxDelayedTaskList (prvInitialiseTCBVariables t p k) = pxDelayedTaskList k"
    unfolding eq by simp_all
qed

text \<open>The new task enters its ready list and is counted.\<close>

lemma current_inv [simp]:
  assumes "kernel_inv k S"
  shows "kernel_inv (k\<lparr>pxCurrentTCB := Some t\<rparr>) S"
proof -
  obtain X where X: "kernel_ok k X S" using assms unfolding kernel_inv_def by blast
  have "kernel_ok (k\<lparr>pxCurrentTCB := Some t\<rparr>) X S"
    by (rule kernel_ok_fields [OF X]) (use current_task [OF assms] in auto)
  then show ?thesis unfolding kernel_inv_def by blast
qed

lemma enter_ok:
  assumes "scheduler_ok k" "item_container (xGenericListItem t) k = None" "item_container (xEventListItem t) k = None"
    and "t < 2 ^ 30" "k1 = prvInitialiseTCBVariables t p k"
    and "k2 = k1\<lparr>uxCurrentNumberOfTasks := uxCurrentNumberOfTasks k1 + 1, pxCurrentTCB := Some c\<rparr>"
  shows "scheduler_ok (prvAddTaskToReadyList t k2)
    \<and> (\<forall>x. item_container x (prvAddTaskToReadyList t k2) = (if x = xGenericListItem t then Some (new_priority p) else item_container x k))
    \<and> same_rest k2 (prvAddTaskToReadyList t k2)"
proof -
  note ok = scheduler_okD [OF assms(1)] and init = init_tcb_inv [OF ok(1) assms(2-4), where p = p, folded assms(5)]
  let ?k = "prvAddTaskToReadyList t k2"
  have inv2: "kernel_inv k2 {}" unfolding assms(6) using init(1) by simp
  have at2: "item_container x k2 = item_container x k" for x
    using init(3) unfolding assms(6) by (simp add: item_container_def)
  have prio2: "priority k2 t = new_priority p" unfolding assms(6) using init(5) by simp
  have k: "same_rest k2 ?k" "moved k2 (xGenericListItem t) (Some (new_priority p)) ?k" "kernel_inv ?k ({} - {new_priority p})"
    using add_ready_inv [OF inv2, of t] init(4) at2 assms(2) unfolding prio2 by (simp_all add: assms(6))
  note same = same_rest_fields [OF k(1)]
  have at: "item_container x ?k = (if x = xGenericListItem t then Some (new_priority p) else item_container x k)" for x
    using moved_at [OF k(2), of x] at2 by simp
  have "5 \<le> pxDelayedTaskList k2"
    using delay_list_at [OF inv2, of "xTickCount k2"] unfolding delay_list_def by auto
  then have D: "pxDelayedTaskList k2 \<noteq> new_priority p" using new_priority_less [of p] by linarith
  have "future k2" using init(2) ok(2) unfolding assms(6) by (simp add: future_def item_container_def)
  then have fut: "future ?k" using D by (intro moved_future [OF k(2,1)]) simp_all
  have pair: "paired ?k" using ok(3) assms(2,3) unfolding paired_def at by auto
  have counts: "uxPendedTicks ?k = uxPendedTicks k" "uxSchedulerSuspended ?k = uxSchedulerSuspended k"
      "uxTasksDeleted ?k = uxTasksDeleted k" "xSchedulerRunning ?k = xSchedulerRunning k"
      "uxCurrentNumberOfTasks ?k = uxCurrentNumberOfTasks k + 1"
    using init(8) unfolding same unfolding assms(6) by (simp_all add: same_counts_def)
  have set: "settled ?k" using ok(4) unfolding settled_def pends_def at counts by simp
  have "tasks_in (\<lambda>l. l \<noteq> None) ?k = insert t (tasks_in (\<lambda>l. l \<noteq> None) k)" "t \<notin> tasks_in (\<lambda>l. l \<noteq> None) k"
    "tasks_in (\<lambda>l. l = Some 8) ?k = tasks_in (\<lambda>l. l = Some 8) k"
    using assms(2) new_priority_less [of p] unfolding tasks_in_def at by auto
  moreover have "finite (tasks_in (\<lambda>l. l \<noteq> None) k)" by (rule tasks_in_card(1) [OF ok(1)]) simp
  ultimately have "counted ?k" using ok(5) unfolding counted_def counts by simp
  moreover have "idle_ready ?k" if "xSchedulerRunning k"
  proof -
    have idle: "item_container (xGenericListItem 0) k = Some (priority k 0)" using ok(6) [OF that] unfolding idle_ready_def .
    then have "t \<noteq> 0" using assms(2) by (metis option.distinct(1))
    moreover from this have "priority ?k 0 = priority k 0" unfolding same unfolding assms(6) using init(6) [of 0] by simp
    ultimately show ?thesis using idle unfolding idle_ready_def at by simp
  qed
  ultimately have "scheduler_ok ?k" using k(3) fut pair set unfolding scheduler_ok_def counts by simp
  then show ?thesis using at k(1) by blast
qed

lemma create_ok:
  assumes "scheduler_ok k" "item_container (xGenericListItem t) k = None" "item_container (xEventListItem t) k = None"
    and "t < 2 ^ 30"
  shows "\<exists>k'. xTaskGenericCreate t p k = Some k' \<and> scheduler_ok k' \<and> xSchedulerRunning k' = xSchedulerRunning k
    \<and> (\<forall>x. item_container x k' = (if x = xGenericListItem t then Some (new_priority p) else item_container x k))
    \<and> priority k' t = new_priority p"
proof -
  obtain c where c: "pxCurrentTCB k = Some c" using current_task [OF scheduler_okD(1) [OF assms(1)]] by blast
  let ?k1 = "prvInitialiseTCBVariables t p k"
  note init = init_tcb_inv [OF scheduler_okD(1) [OF assms(1)] assms(2-4), where p = p]
  define d where "d = (if \<not> xSchedulerRunning k \<and> priority ?k1 c \<le> p then t else c)"
  let ?k2 = "?k1\<lparr>uxCurrentNumberOfTasks := uxCurrentNumberOfTasks ?k1 + 1, pxCurrentTCB := Some d\<rparr>"
  let ?k3 = "prvAddTaskToReadyList t ?k2"
  have k3: "scheduler_ok ?k3" "same_rest ?k2 ?k3"
      "\<forall>x. item_container x ?k3 = (if x = xGenericListItem t then Some (new_priority p) else item_container x k)"
    using enter_ok [OF assms refl refl] by blast+
  have run: "xSchedulerRunning ?k1 = xSchedulerRunning k" using init(8) by (simp add: same_counts_def)
  have same: "pxCurrentTCB ?k3 = Some d" "xSchedulerRunning ?k3 = xSchedulerRunning k" "tcbs ?k3 = tcbs ?k1"
    using run by (simp_all add: same_rest_fields [OF k3(2)])
  have old: "(?k1\<lparr>uxCurrentNumberOfTasks := uxCurrentNumberOfTasks ?k1 + 1\<rparr>)\<lparr>pxCurrentTCB := Some c\<rparr>
      = ?k1\<lparr>uxCurrentNumberOfTasks := uxCurrentNumberOfTasks ?k1 + 1\<rparr>"
    using init(7) c by simp
  let ?kk = "?k1\<lparr>uxCurrentNumberOfTasks := uxCurrentNumberOfTasks ?k1 + 1\<rparr>"
  have cur: "pxCurrentTCB ?kk = Some c" using c init(7) by simp
  have mid: "(case pxCurrentTCB ?kk of
      None \<Rightarrow> let k = ?kk\<lparr>pxCurrentTCB := Some t\<rparr>
        in if uxCurrentNumberOfTasks k = 1 then prvInitialiseTaskLists k else k
    | Some c \<Rightarrow> if \<not> xSchedulerRunning ?kk \<and> priority ?kk c \<le> p then ?kk\<lparr>pxCurrentTCB := Some t\<rparr> else ?kk) = ?k2"
    unfolding cur option.case using old run by (simp add: d_def)
  have "xTaskGenericCreate t p k = Some (if xSchedulerRunning k \<and> priority ?k1 d < p then portYIELD ?k3 else ?k3)"
    using same unfolding xTaskGenericCreate_def Let_def mid [unfolded Let_def] by simp
  moreover have "item_container x (portYIELD ?k3) = item_container x ?k3" for x by (simp add: portYIELD_def)
  ultimately show ?thesis using k3(1,3) same init(5) by (simp add: portYIELD_def yield_ok [unfolded portYIELD_def])
qed

text \<open>
  The memory before the first task is created: all is zero, the lists of events that exist
  have been initialised, no item is in a list.
\<close>

definition fresh_kernel :: "kernel \<Rightarrow> bool" where
  "fresh_kernel k \<longleftrightarrow> pxCurrentTCB k = None \<and> uxCurrentNumberOfTasks k = 0 \<and> uxTasksDeleted k = 0
     \<and> uxSchedulerSuspended k = 0 \<and> uxPendedTicks k = 0 \<and> uxTopReadyPriority k = 0 \<and> \<not> xSchedulerRunning k
     \<and> (\<forall>t. priority k t < 5 \<and> uxBasePriority (tcbs k t) < 5) \<and> (\<forall>i. item_container i k = None)
     \<and> (\<forall>l\<ge>10. list_rep (store k) l [] 0)"

definition empty_lists :: "list_store \<Rightarrow> nat set \<Rightarrow> bool" where
  "empty_lists st L \<longleftrightarrow> (\<forall>i. container_of st (Item i) = None) \<and> (\<forall>l\<in>L. list_rep st l [] 0)"

lemma vListInitialise_items [simp]: "items (vListInitialise l st) (Item i) = items st (Item i)"
  by (simp add: vListInitialise_def Let_def set_next_def set_previous_def set_number_def set_index_def)

lemma empty_lists_init:
  assumes "empty_lists st L"
  shows "empty_lists (vListInitialise l st) (insert l L)"
  unfolding empty_lists_def
proof (intro conjI ballI)
  have free: "\<forall>i. container_of st (Item i) \<noteq> Some l" using assms unfolding empty_lists_def by simp
  show "\<forall>i. container_of (vListInitialise l st) (Item i) = None" using assms unfolding empty_lists_def by simp
  fix m
  assume "m \<in> insert l L"
  then show "list_rep (vListInitialise l st) m [] 0"
    using vListInitialise_rep [OF free] assms unfolding empty_lists_def by (cases "m = l") auto
qed

lemma empty_lists_fold:
  "empty_lists st L \<Longrightarrow> empty_lists (fold vListInitialise ls st) (set ls \<union> L)
    \<and> (\<forall>i. items (fold vListInitialise ls st) (Item i) = items st (Item i))"
proof (induction ls arbitrary: st L)
  case (Cons l ls)
  have "set (l # ls) \<union> L = set ls \<union> insert l L" by auto
  then show ?case using Cons.IH [OF empty_lists_init [OF Cons.prems, of l]] by simp
qed simp

lemma init_lists:
  assumes "empty_lists (store k) {10..}"
  shows "empty_lists (store (prvInitialiseTaskLists k)) UNIV"
    "items (store (prvInitialiseTaskLists k)) (Item i) = items (store k) (Item i)"
proof -
  let ?ls = "[0..<configMAX_PRIORITIES] @ [xDelayedTaskList1, xDelayedTaskList2, xPendingReadyList, xTasksWaitingTermination, xSuspendedTaskList]"
  have "store (prvInitialiseTaskLists k) = fold vListInitialise ?ls (store k)"
    by (simp add: prvInitialiseTaskLists_def Let_def)
  moreover have "set ?ls \<union> {10..} = UNIV"
  proof -
    have "x \<in> set ?ls \<union> {10..}" for x :: nat by (simp add: rtos_defs, presburger)
    then show ?thesis by blast
  qed
  ultimately show "empty_lists (store (prvInitialiseTaskLists k)) UNIV"
    "items (store (prvInitialiseTaskLists k)) (Item i) = items (store k) (Item i)"
    using empty_lists_fold [OF assms, of ?ls] by metis+
qed

text \<open>The first task: the kernel sets its lists up.\<close>

definition asleep :: "kernel \<Rightarrow> bool" where
  "asleep k \<longleftrightarrow> (\<exists>x. item_container x k \<in> {Some xDelayedTaskList1, Some xDelayedTaskList2})"

definition rtos_ok :: "kernel \<Rightarrow> bool" where
  "rtos_ok k \<longleftrightarrow> scheduler_ok k \<and> (\<not> xSchedulerRunning k \<longrightarrow> \<not> asleep k
     \<and> item_container (xGenericListItem 0) k = None \<and> item_container (xEventListItem 0) k = None)"

lemma empty_kernel_ok:
  assumes "empty_lists (store k) UNIV" "\<forall>t. priority k t < 5 \<and> uxBasePriority (tcbs k t) < 5"
    and "pxDelayedTaskList k = 5" "pxOverflowDelayedTaskList k = 6" "pxCurrentTCB k \<noteq> None" "uxTopReadyPriority k = 0"
  shows "kernel_inv k {}" "item_container x k = None" "future k" "paired k"
proof -
  have "has_lists k (\<lambda>l. [])" using assms(1) unfolding has_lists_def empty_lists_def by auto
  moreover have "kinds k (\<lambda>l. [])" using assms(2-5) unfolding kinds_def by simp
  moreover have "marked k (\<lambda>l. []) {}" using assms(6) unfolding marked_def by simp
  moreover have "timed k (\<lambda>l. [])" unfolding timed_def by simp
  ultimately show "kernel_inv k {}" unfolding kernel_inv_def kernel_ok_def by blast
  show at: "item_container x k = None" for x
    using assms(1) unfolding empty_lists_def by (simp add: item_container_def listLIST_ITEM_CONTAINER_def)
  show "future k" "paired k" unfolding future_def paired_def by (simp_all add: at)
qed

lemma first_create_ok:
  assumes "fresh_kernel k" "t < 2 ^ 30" "t \<noteq> 0"
  shows "\<exists>k'. xTaskGenericCreate t p k = Some k' \<and> rtos_ok k'"
proof -
  note fresh = assms(1) [unfolded fresh_kernel_def]
  let ?k1 = "prvInitialiseTCBVariables t p k"
  let ?k2 = "?k1\<lparr>uxCurrentNumberOfTasks := uxCurrentNumberOfTasks ?k1 + 1, pxCurrentTCB := Some t\<rparr>"
  let ?k3 = "prvInitialiseTaskLists ?k2"
  let ?k4 = "prvAddTaskToReadyList t ?k3"
  have at0: "item_container i k = None" for i using fresh by blast
  have fields: "pxCurrentTCB ?k1 = None" "uxCurrentNumberOfTasks ?k1 = 0" "uxTasksDeleted ?k1 = 0" "uxSchedulerSuspended ?k1 = 0"
    "uxPendedTicks ?k1 = 0" "uxTopReadyPriority ?k1 = 0" "\<not> xSchedulerRunning ?k1" "priority ?k1 t = new_priority p"
    "\<And>u. priority ?k1 u < 5 \<and> uxBasePriority (tcbs ?k1 u) < 5"
    using fresh at0 by (simp_all add: prvInitialiseTCBVariables_def Let_def new_priority_def [symmetric] init_item_same upd_tcb_def on_store_def)
  have at1: "item_container i ?k1 = None" for i
    using at0 by (simp add: prvInitialiseTCBVariables_def Let_def init_item_same)
  have proper1: "proper (store ?k1) t"
    using assms(2) at0 by (simp add: prvInitialiseTCBVariables_def Let_def init_item_same proper_def listSET_LIST_ITEM_OWNER_def
      listSET_LIST_ITEM_VALUE_def)
  have "list_rep (store ?k1) l [] 0" if "10 \<le> l" for l
  proof -
    have rep: "list_rep (store k) l [] 0" using fresh that by blast
    show ?thesis
      using at0 by (intro list_rep_frame [OF rep])
        (auto simp: prvInitialiseTCBVariables_def Let_def init_item_same listSET_LIST_ITEM_OWNER_def listSET_LIST_ITEM_VALUE_def)
  qed
  then have "empty_lists (store ?k2) {10..}"
    using at1 unfolding empty_lists_def by (simp add: item_container_def listLIST_ITEM_CONTAINER_def)
  note lists = init_lists [OF this]
  have k3: "tcbs ?k3 = tcbs ?k1" "pxCurrentTCB ?k3 = Some t" "pxDelayedTaskList ?k3 = 5" "pxOverflowDelayedTaskList ?k3 = 6"
    "uxTopReadyPriority ?k3 = 0" "uxCurrentNumberOfTasks ?k3 = 1" "uxTasksDeleted ?k3 = 0" "uxSchedulerSuspended ?k3 = 0"
    "uxPendedTicks ?k3 = 0" "\<not> xSchedulerRunning ?k3"
    using fields by (simp_all add: prvInitialiseTaskLists_def Let_def rtos_defs)
  have inv3: "kernel_inv ?k3 {}" and at3: "item_container x ?k3 = None" and fut3: "future ?k3" for x
    by (rule empty_kernel_ok [OF lists(1)]; use fields k3 in simp)+
  have prio: "priority ?k3 t = new_priority p" using k3(1) fields(8) by simp
  have "proper (store ?k3) t" using proper1 lists(2) by (simp add: proper_def)
  then have k4: "same_rest ?k3 ?k4" "moved ?k3 (xGenericListItem t) (Some (new_priority p)) ?k4" "kernel_inv ?k4 ({} - {new_priority p})"
    using add_ready_inv [where t = t, OF inv3 at3] unfolding prio by blast+
  note same = same_rest_fields [OF k4(1)]
  have at: "item_container x ?k4 = (if x = xGenericListItem t then Some (new_priority p) else None)" for x
    using moved_at [OF k4(2), of x] at3 by simp
  have "pxDelayedTaskList ?k3 \<noteq> new_priority p" using new_priority_less [of p] k3(3) by linarith
  then have "future ?k4" by (intro moved_future [OF k4(2,1) fut3]) simp
  moreover have "paired ?k4" unfolding paired_def at by simp
  moreover have "settled ?k4" unfolding settled_def pends_def at using k3(9) by (simp add: same)
  moreover have "counted ?k4"
  proof -
    have "tasks_in (\<lambda>l. l \<noteq> None) ?k4 = {t}" "tasks_in (\<lambda>l. l = Some 8) ?k4 = {}"
      unfolding tasks_in_def at by auto
    then show ?thesis using k3(6,7) unfolding counted_def by (simp add: same)
  qed
  moreover have run4: "\<not> xSchedulerRunning ?k4" using k3(10) by (simp only: same not_False_eq_True)
  moreover have cur4: "pxCurrentTCB ?k4 = Some t" using k3(2) by (simp only: same)
  ultimately have "scheduler_ok ?k4" using k4(3) unfolding scheduler_ok_def by simp
  moreover have "\<not> asleep ?k4" using new_priority_less [of p] unfolding asleep_def at rtos_defs by auto
  moreover have "xTaskGenericCreate t p k = Some ?k4"
    using fields k3 run4 cur4 by (simp add: xTaskGenericCreate_def Let_def)
  ultimately show ?thesis using assms(3) at unfolding rtos_ok_def by simp
qed

subsection \<open>The kernel as a machine\<close>

text \<open>
  The calls of tasks and interrupts, in any order. Before the scheduler runs, tasks are created;
  then the idle task is created and the scheduler started. A call that blocks is made by a
  running task that is ready and is not the idle task, and one that waits for an event while the
  scheduler is suspended, or from the unlocked state of a queue; a task that is
  deleted or suspended exists; the idle task frees deleted tasks; a priority is given back by the
  running task. Notifications are not among the calls (see below).
\<close>

definition current_ready :: "nat \<Rightarrow> kernel \<Rightarrow> bool" where
  "current_ready c k \<longleftrightarrow> pxCurrentTCB k = Some c \<and> item_container (xGenericListItem c) k = Some (priority k c)"

definition task_exists :: "nat \<Rightarrow> kernel \<Rightarrow> bool" where
  "task_exists t k \<longleftrightarrow> item_container (xGenericListItem t) k \<notin> {None, Some xTasksWaitingTermination}"

definition no_task :: "nat \<Rightarrow> kernel \<Rightarrow> bool" where
  "no_task t k \<longleftrightarrow> t < 2 ^ 30 \<and> item_container (xGenericListItem t) k = None \<and> item_container (xEventListItem t) k = None"

text \<open>The calls, with the results that the callers see left out.\<close>

inductive rtos_call :: "kernel \<Rightarrow> kernel option \<Rightarrow> bool" where
  call_tick: "rtos_call k (map_option (\<lambda>(sw, k). if sw then portYIELD k else k) (xTaskIncrementTick k))"
| call_switch: "rtos_call k (vTaskSwitchContext (k\<lparr>switch_pended := False\<rparr>))"
| call_suspend_all: "uxSchedulerSuspended k + 1 \<noteq> 0 \<Longrightarrow> rtos_call k (Some (vTaskSuspendAll k))"
| call_resume_all: "uxSchedulerSuspended k \<noteq> 0 \<Longrightarrow> rtos_call k (map_option snd (xTaskResumeAll k))"
| call_delay: "current_ready c k \<Longrightarrow> c \<noteq> 0 \<Longrightarrow> w \<noteq> xTickCount k
    \<Longrightarrow> rtos_call k (Option.bind (leave_ready k) (prvAddCurrentTaskToDelayedList w))"
| call_place: "current_ready c k \<Longrightarrow> c \<noteq> 0 \<Longrightarrow> item_container (xEventListItem c) k = None \<Longrightarrow> 10 \<le> l \<Longrightarrow> n \<noteq> 0
    \<Longrightarrow> rtos_call k (vTaskPlaceOnEventList l n k)"
| call_place_unordered: "current_ready c k \<Longrightarrow> c \<noteq> 0 \<Longrightarrow> item_container (xEventListItem c) k = None \<Longrightarrow> 10 \<le> l \<Longrightarrow> n \<noteq> 0
    \<Longrightarrow> rtos_call k (vTaskPlaceOnUnorderedEventList l v n k)"
| call_remove: "\<not> listLIST_IS_EMPTY l (store k) \<Longrightarrow> 10 \<le> l \<Longrightarrow> rtos_call k (map_option snd (xTaskRemoveFromEventList l k))"
| call_remove_unordered: "item_container (xEventListItem t) k = Some l
    \<Longrightarrow> rtos_call k (map_option snd (xTaskRemoveFromUnorderedEventList (xEventListItem t) v k))"
| call_suspend: "prvGetTCBFromHandle h k = Some t \<Longrightarrow> t \<noteq> 0 \<Longrightarrow> task_exists t k \<Longrightarrow> rtos_call k (vTaskSuspend h k)"
| call_resume: "rtos_call k (vTaskResume h k)"
| call_resume_isr: "rtos_call k (map_option snd (xTaskResumeFromISR t k))"
| call_delete: "prvGetTCBFromHandle h k = Some t \<Longrightarrow> t \<noteq> 0 \<Longrightarrow> task_exists t k \<Longrightarrow> rtos_call k (vTaskDelete h k)"
| call_free: "uxSchedulerSuspended k = 0 \<Longrightarrow> rtos_call k (prvCheckTasksWaitingTermination k)"
| call_create: "no_task t k \<Longrightarrow> rtos_call k (xTaskGenericCreate t p k)"
| call_priority: "rtos_call k (vTaskPrioritySet h p k)"
| call_inherit: "rtos_call k (vTaskPriorityInherit h k)"
| call_disinherit: "current_ready c k \<Longrightarrow> rtos_call k (map_option snd (xTaskPriorityDisinherit (Some c) k))"
| call_mutex: "rtos_call k (Some (snd (pvTaskIncrementMutexHeldCount k)))"
| call_missed_yield: "rtos_call k (Some (vTaskMissedYield k))"

inductive rtos_step :: "kernel \<Rightarrow> kernel \<Rightarrow> bool" where
  step_call: "xSchedulerRunning k \<Longrightarrow> rtos_call k (Some k') \<Longrightarrow> rtos_step k k'"
| step_boot: "\<not> xSchedulerRunning k \<Longrightarrow> no_task t k \<Longrightarrow> t \<noteq> 0 \<Longrightarrow> xTaskGenericCreate t p k = Some k' \<Longrightarrow> rtos_step k k'"
| step_start: "\<not> xSchedulerRunning k \<Longrightarrow> xTaskGenericCreate 0 0 k = Some k' \<Longrightarrow> rtos_step k (start_scheduler k')"

definition rtos_start :: "kernel \<Rightarrow> bool" where
  "rtos_start k \<longleftrightarrow> (\<exists>k0 t p. fresh_kernel k0 \<and> t < 2 ^ 30 \<and> t \<noteq> 0 \<and> xTaskGenericCreate t p k0 = Some k)"



text \<open>Only \<open>vTaskStartScheduler\<close> changes whether the scheduler runs.\<close>

named_theorems running \<open>what leaves the flag alone\<close>

lemma running_simps [running]:
  "xSchedulerRunning (portYIELD k) = xSchedulerRunning k" "xSchedulerRunning (insert_item_end l i k) = xSchedulerRunning k"
  "xSchedulerRunning (portRECORD_READY_PRIORITY p k) = xSchedulerRunning k"
  "xSchedulerRunning (portRESET_READY_PRIORITY p k) = xSchedulerRunning k"
  "xSchedulerRunning (taskRESET_READY_PRIORITY p k) = xSchedulerRunning k" "xSchedulerRunning (upd_tcb t f k) = xSchedulerRunning k"
  "xSchedulerRunning (prvAddTaskToReadyList t k) = xSchedulerRunning k" "xSchedulerRunning (set_event_value t p k) = xSchedulerRunning k"
  by (simp_all add: portYIELD_def insert_item_end_def on_store_def portRECORD_READY_PRIORITY_def portRESET_READY_PRIORITY_def
    taskRESET_READY_PRIORITY_def upd_tcb_def prvAddTaskToReadyList_def set_event_value_def)

lemma running_remove:
  "remove_item i k = Some (n, k') \<Longrightarrow> xSchedulerRunning k' = xSchedulerRunning k"
  "insert_item l i k = Some k' \<Longrightarrow> xSchedulerRunning k' = xSchedulerRunning k"
  "prvResetNextTaskUnblockTime k = Some k' \<Longrightarrow> xSchedulerRunning k' = xSchedulerRunning k"
  by (auto simp: remove_item_def insert_item_def prvResetNextTaskUnblockTime_def bind_eq_Some_conv split: if_splits)

lemma running_ready:
  "make_ready t k = Some k' \<Longrightarrow> xSchedulerRunning k' = xSchedulerRunning k"
  "leave_ready k = Some k' \<Longrightarrow> xSchedulerRunning k' = xSchedulerRunning k"
  "leave_lists t k = Some k' \<Longrightarrow> xSchedulerRunning k' = xSchedulerRunning k"
  by (auto simp: make_ready_def leave_ready_def leave_lists_def bind_eq_Some_conv running Let_def
    dest!: running_remove split: if_splits)

lemma running_delay:
  assumes "prvAddCurrentTaskToDelayedList w k = Some k'"
  shows "xSchedulerRunning k' = xSchedulerRunning k"
proof -
  obtain c where c: "pxCurrentTCB k = Some c"
    using assms by (cases "pxCurrentTCB k") (simp_all add: prvAddCurrentTaskToDelayedList_def)
  let ?k = "on_store (listSET_LIST_ITEM_VALUE (xGenericListItem c) w) k"
  show ?thesis
  proof (cases "w < xTickCount k")
    case True
    then have "insert_item (pxOverflowDelayedTaskList ?k) (xGenericListItem c) ?k = Some k'"
      using assms c by (simp add: prvAddCurrentTaskToDelayedList_def Let_def)
    then show ?thesis using running_remove(2) by fastforce
  next
    case False
    then obtain k1 where "insert_item (pxDelayedTaskList ?k) (xGenericListItem c) ?k = Some k1"
        "Some k' = Some (if w < xNextTaskUnblockTime k1 then k1\<lparr>xNextTaskUnblockTime := w\<rparr> else k1)"
      using assms c by (cases "insert_item (pxDelayedTaskList ?k) (xGenericListItem c) ?k")
        (simp_all add: prvAddCurrentTaskToDelayedList_def Let_def)
    then show ?thesis using running_remove(2) [of "pxDelayedTaskList ?k" "xGenericListItem c" ?k k1] by simp
  qed
qed

lemma running_wait: "wait_ticks n k = Some k' \<Longrightarrow> xSchedulerRunning k' = xSchedulerRunning k"
  using running_delay by (auto simp: wait_ticks_def bind_eq_Some_conv running split: if_splits)

lemma running_place:
  assumes "vTaskPlaceOnEventList l n k = Some k'"
  shows "xSchedulerRunning k' = xSchedulerRunning k"
proof -
  obtain c k1 k2 where "insert_item l (xEventListItem c) k = Some k1" "leave_ready k1 = Some k2" "wait_ticks n k2 = Some k'"
    using assms by (auto simp: vTaskPlaceOnEventList_def bind_eq_Some_conv)
  then show ?thesis using running_remove(2) running_ready(2) running_wait by metis
qed

lemma running_place_unordered:
  assumes "vTaskPlaceOnUnorderedEventList l v n k = Some k'"
  shows "xSchedulerRunning k' = xSchedulerRunning k"
proof -
  obtain c k2 where "leave_ready (insert_item_end l (xEventListItem c)
      (on_store (listSET_LIST_ITEM_VALUE (xEventListItem c) (v OR taskEVENT_LIST_ITEM_VALUE_IN_USE)) k)) = Some k2"
      "wait_ticks n k2 = Some k'"
    using assms by (auto simp: vTaskPlaceOnUnorderedEventList_def bind_eq_Some_conv Let_def)
  then show ?thesis using running_ready(2) running_wait by (fastforce simp: running)
qed

lemma running_remove_event:
  assumes "xTaskRemoveFromEventList l k = Some (y, k')"
  shows "xSchedulerRunning k' = xSchedulerRunning k"
proof -
  obtain t n k1 k2 where "remove_item (xEventListItem t) k = Some (n, k1)" "k' = k2 \<or> k' = k2\<lparr>xYieldPending := True\<rparr>"
      "make_ready t k1 = Some k2 \<or> k2 = insert_item_end xPendingReadyList (xEventListItem t) k1"
    using assms by (auto simp: xTaskRemoveFromEventList_def bind_eq_Some_conv split: if_splits)
  then show ?thesis using running_remove(1) running_ready(1) by (auto simp: running)
qed

lemma running_remove_unordered:
  assumes "xTaskRemoveFromUnorderedEventList i v k = Some (y, k')"
  shows "xSchedulerRunning k' = xSchedulerRunning k"
proof -
  obtain t n k1 k2 where "remove_item i (on_store (listSET_LIST_ITEM_VALUE i (v OR taskEVENT_LIST_ITEM_VALUE_IN_USE)) k) = Some (n, k1)"
      "make_ready t k1 = Some k2" "k' = k2 \<or> k' = k2\<lparr>xYieldPending := True\<rparr>"
    using assms by (auto simp: xTaskRemoveFromUnorderedEventList_def bind_eq_Some_conv Let_def split: if_splits)
  then show ?thesis using running_remove(1) running_ready(1) by fastforce
qed

lemma running_select:
  assumes "taskSELECT_HIGHEST_PRIORITY_TASK k = Some k'"
  shows "xSchedulerRunning k' = xSchedulerRunning k"
proof -
  obtain z where "map_option (\<lambda>(t, st). k\<lparr>store := st, pxCurrentTCB := Some t\<rparr>) (listGET_OWNER_OF_NEXT_ENTRY z (store k)) = Some k'"
    using assms unfolding taskSELECT_HIGHEST_PRIORITY_TASK_def Let_def by (metis option.distinct(1))
  then show ?thesis by (auto simp: map_option_case split: option.splits)
qed

lemma running_switch:
  assumes "vTaskSwitchContext k = Some k'"
  shows "xSchedulerRunning k' = xSchedulerRunning k"
proof (cases "uxSchedulerSuspended k = 0")
  case True
  then show ?thesis using running_select [of "k\<lparr>xYieldPending := False\<rparr>" k'] assms by (simp add: vTaskSwitchContext_def)
next
  case False
  then show ?thesis using assms by (auto simp: vTaskSwitchContext_def)
qed

lemma running_suspend:
  "vTaskSuspend h k = Some k' \<Longrightarrow> xSchedulerRunning k' = xSchedulerRunning k"
  "vTaskResume h k = Some k' \<Longrightarrow> xSchedulerRunning k' = xSchedulerRunning k"
  "xTaskResumeFromISR t k = Some (y, k') \<Longrightarrow> xSchedulerRunning k' = xSchedulerRunning k"
  "vTaskDelete h k = Some k' \<Longrightarrow> xSchedulerRunning k' = xSchedulerRunning k"
  by (auto simp: vTaskSuspend_def vTaskResume_def xTaskResumeFromISR_def vTaskDelete_def bind_eq_Some_conv running Let_def
    dest!: running_remove running_ready running_switch split: if_splits option.splits)

lemma running_priority_set:
  assumes "vTaskPrioritySet h p k = Some k'"
  shows "xSchedulerRunning k' = xSchedulerRunning k"
  using assms running_remove(1)
  by (fastforce simp: vTaskPrioritySet_def bind_eq_Some_conv running Let_def split: if_splits)

lemma running_inherit:
  assumes "vTaskPriorityInherit h k = Some k'"
  shows "xSchedulerRunning k' = xSchedulerRunning k"
  using assms running_remove(1)
  by (fastforce simp: vTaskPriorityInherit_def bind_eq_Some_conv running Let_def split: if_splits option.splits)

lemma running_disinherit:
  assumes "xTaskPriorityDisinherit h k = Some (y, k')"
  shows "xSchedulerRunning k' = xSchedulerRunning k"
  using assms running_remove(1)
  by (fastforce simp: xTaskPriorityDisinherit_def bind_eq_Some_conv running Let_def split: if_splits option.splits)

text \<open>No call goes wrong, and all keep the invariant.\<close>

lemma call_delay_ok:
  assumes "scheduler_ok k" "current_ready c k" "c \<noteq> 0" "w \<noteq> xTickCount k"
  shows "\<exists>k'. Option.bind (leave_ready k) (prvAddCurrentTaskToDelayedList w) = Some k' \<and> scheduler_ok k'
    \<and> xSchedulerRunning k' = xSchedulerRunning k"
proof -
  note ok = scheduler_okD [OF assms(1)]
  have c: "pxCurrentTCB k = Some c" "item_container (xGenericListItem c) k = Some (priority k c)"
    using assms(2) unfolding current_ready_def by blast+
  obtain k1 k2 where k2: "leave_ready k = Some k1" "prvAddCurrentTaskToDelayedList w k1 = Some k2" "waits c {delay_list w k} k k2"
    using wait_delayed [OF ok(1,2) c assms(4)] by blast
  have "scheduler_ok k2"
    by (rule waits_ok [OF assms(1) waits_mono [OF k2(3)] c(2) assms(3)]) (use delay_list_at [OF ok(1), of w] in auto)
  moreover have "xSchedulerRunning k2 = xSchedulerRunning k"
    using k2(3) same_state_fields(4) unfolding waits_def by blast
  ultimately show ?thesis using k2(1,2) by simp
qed

lemma running_tick:
  assumes "scheduler_ok k" "xTaskIncrementTick k = Some (sw, k')"
  shows "xSchedulerRunning k' = xSchedulerRunning k"
proof (cases "uxSchedulerSuspended k = 0")
  case True
  obtain sw1 k1 where "xTaskIncrementTick k = Some (sw1, k1)" "same_tasks k k1"
    using tick_inv [OF scheduler_okD(1,2) [OF assms(1)] True] by blast
  then show ?thesis using assms(2) same_tasks_fields(4) by simp
next
  case False
  then show ?thesis using assms(2) by (auto simp: xTaskIncrementTick_def)
qed

lemma running_free:
  assumes "scheduler_ok k" "xSchedulerRunning k" "uxSchedulerSuspended k = 0" "prvCheckTasksWaitingTermination k = Some k'"
  shows "xSchedulerRunning k'"
  using assms
proof (induction "unat (uxTasksDeleted k)" arbitrary: k rule: less_induct)
  case less
  show ?case
  proof (cases "uxTasksDeleted k = 0")
    case True
    then have "prvCheckTasksWaitingTermination k = Some k" by (subst prvCheckTasksWaitingTermination.simps) simp
    then show ?thesis using less.prems by simp
  next
    case False
    obtain t k1 where k1: "free_deleted_task k = Some (Some t, k1)" "scheduler_ok k1" "uxTasksDeleted k1 = uxTasksDeleted k - 1"
        "xSchedulerRunning k1" "uxSchedulerSuspended k1 = 0"
      using free_deleted_task_ok [OF less.prems(1-3) False] by blast
    have "unat (uxTasksDeleted k1) < unat (uxTasksDeleted k)" using False k1(3) by (simp add: unat_pred_less)
    moreover have "prvCheckTasksWaitingTermination k = prvCheckTasksWaitingTermination k1"
      using False k1(1) by (subst prvCheckTasksWaitingTermination.simps) (simp add: word_neq_0_conv)
    ultimately show ?thesis using less.hyps k1(2,4,5) less.prems(4) by simp
  qed
qed

definition call_good :: "kernel option \<Rightarrow> bool" where
  "call_good r \<longleftrightarrow> (\<exists>k'. r = Some k' \<and> scheduler_ok k' \<and> xSchedulerRunning k')"

lemma rtos_call_good:
  assumes "rtos_call k r" "scheduler_ok k" "xSchedulerRunning k"
  shows "call_good r"
  using assms
proof (induction rule: rtos_call.induct)
  case (call_tick k)
  then obtain sw k' where k': "xTaskIncrementTick k = Some (sw, k')" "scheduler_ok k'" using tick_ok by blast
  then show ?case using running_tick [OF call_tick(1) k'(1)] call_tick(2) by (simp add: call_good_def running)
next
  case (call_switch k)
  have "scheduler_ok (k\<lparr>switch_pended := False\<rparr>)"
    using call_switch(1) by (simp add: scheduler_ok_def settled_def counted_def tasks_in_def idle_ready_def)
  then show ?case using vTaskSwitchContext_ok [of "k\<lparr>switch_pended := False\<rparr>"] running_switch call_switch(2)
    unfolding call_good_def by fastforce
next
  case (call_suspend_all k)
  then show ?case using vTaskSuspendAll_ok by (simp add: call_good_def vTaskSuspendAll_def)
next
  case (call_resume_all k)
  obtain y k' where "xTaskResumeAll k = Some (y, k')" "scheduler_ok k'" "same_threads k k'"
    using resume_all_ok [OF call_resume_all(2,3,1)] by blast
  then show ?case using call_resume_all(3) by (simp add: call_good_def same_threads_def)
next
  case (call_delay c k w)
  then show ?case using call_delay_ok [of k c w] unfolding call_good_def by fastforce
next
  case (call_place c k l n)
  then show ?case using vTaskPlaceOnEventList_ok [of k c l n] running_place
    unfolding call_good_def current_ready_def by fastforce
next
  case (call_place_unordered c k l n v)
  then show ?case using vTaskPlaceOnUnorderedEventList_ok [of k c l n v] running_place_unordered
    unfolding call_good_def current_ready_def by fastforce
next
  case (call_remove l k)
  then show ?case using xTaskRemoveFromEventList_ok [of k l] running_remove_event
    unfolding call_good_def by fastforce
next
  case (call_remove_unordered t k l v)
  then show ?case using xTaskRemoveFromUnorderedEventList_ok [of k t l v] running_remove_unordered
    unfolding call_good_def by fastforce
next
  case (call_suspend h k t)
  then show ?case using vTaskSuspend_ok [of k h t] running_suspend(1)
    unfolding call_good_def task_exists_def rtos_defs by fastforce
next
  case (call_resume k h)
  then show ?case using vTaskResume_ok [of k h] running_suspend(2) unfolding call_good_def by fastforce
next
  case (call_resume_isr k t)
  then show ?case using xTaskResumeFromISR_ok [of k t] running_suspend(3) unfolding call_good_def by fastforce
next
  case (call_delete h k t)
  then show ?case using vTaskDelete_ok [of k h t] running_suspend(4)
    unfolding call_good_def task_exists_def rtos_defs by fastforce
next
  case (call_free k)
  then show ?case using free_all_ok [of k] running_free unfolding call_good_def by blast
next
  case (call_create t k p)
  then show ?case using create_ok [of k t p] unfolding call_good_def no_task_def by fastforce
next
  case (call_priority k h p)
  then show ?case using vTaskPrioritySet_ok [of k h p] running_priority_set unfolding call_good_def by fastforce
next
  case (call_inherit k h)
  show ?case
  proof (cases h)
    case None
    then show ?thesis using call_inherit by (simp add: call_good_def vTaskPriorityInherit_none(1))
  next
    case (Some t)
    obtain c where c: "pxCurrentTCB k = Some c" using current_task [OF scheduler_okD(1) [OF call_inherit(1)]] by blast
    show ?thesis
    proof (cases "priority k t < priority k c")
      case True
      then show ?thesis
        using vTaskPriorityInherit_ok [OF call_inherit c True] running_inherit Some call_inherit(2) unfolding call_good_def by blast
    next
      case False
      then show ?thesis
        using vTaskPriorityInherit_none(2) [OF c False] Some call_inherit by (simp add: call_good_def)
    qed
  qed
next
  case (call_disinherit c k)
  show ?case
  proof (cases "priority k c \<noteq> uxBasePriority (tcbs k c) \<and> uxMutexesHeld (tcbs k c) = 1")
    case True
    then obtain k' where k': "xTaskPriorityDisinherit (Some c) k = Some (True, k')" "scheduler_ok k'"
      using xTaskPriorityDisinherit_ok [OF call_disinherit(2), of c] call_disinherit(1) unfolding current_ready_def by blast
    then show ?thesis using running_disinherit [OF k'(1)] call_disinherit(3) by (simp add: call_good_def)
  next
    case False
    let ?k = "upd_tcb c (\<lambda>x. x\<lparr>uxMutexesHeld := uxMutexesHeld x - 1\<rparr>) k"
    have "xTaskPriorityDisinherit (Some c) k = Some (False, ?k)"
      using False by (auto simp: xTaskPriorityDisinherit_def Let_def)
    moreover have "scheduler_ok ?k" by (rule upd_tcb_ok [OF call_disinherit(2)]) simp_all
    ultimately show ?thesis using call_disinherit(3) by (simp add: call_good_def running)
  qed
next
  case (call_mutex k)
  obtain c where "pxCurrentTCB k = Some c" using current_task [OF scheduler_okD(1) [OF call_mutex(1)]] by blast
  then show ?case using upd_tcb_ok [OF call_mutex(1), of "\<lambda>x. x\<lparr>uxMutexesHeld := uxMutexesHeld x + 1\<rparr>" c] call_mutex(2)
    by (simp add: call_good_def pvTaskIncrementMutexHeldCount_def running)
next
  case (call_missed_yield k)
  then show ?case by (simp add: call_good_def vTaskMissedYield_def)
qed



lemma boot_ok:
  assumes "rtos_ok k" "\<not> xSchedulerRunning k" "no_task t k" "t \<noteq> 0" "xTaskGenericCreate t p k = Some k'"
  shows "rtos_ok k'"
proof -
  have "scheduler_ok k" using assms(1) unfolding rtos_ok_def by blast
  moreover have "item_container (xGenericListItem t) k = None" "item_container (xEventListItem t) k = None" "t < 2 ^ 30"
    using assms(3) unfolding no_task_def by blast+
  ultimately obtain k1 where k1: "xTaskGenericCreate t p k = Some k1" "scheduler_ok k1" "xSchedulerRunning k1 = xSchedulerRunning k"
      "\<forall>x. item_container x k1 = (if x = xGenericListItem t then Some (new_priority p) else item_container x k)"
    using create_ok [of k t p] by meson
  have "\<not> asleep k1"
    using assms(1,2) k1(4) unfolding rtos_ok_def asleep_def rtos_defs by auto
  then show ?thesis using k1 assms unfolding rtos_ok_def by auto
qed

lemma start_ok:
  assumes "rtos_ok k" "\<not> xSchedulerRunning k" "xTaskGenericCreate 0 0 k = Some k'"
  shows "scheduler_ok (start_scheduler k') \<and> xSchedulerRunning (start_scheduler k')"
proof -
  have old: "scheduler_ok k" "\<not> asleep k" "item_container (xGenericListItem 0) k = None" "item_container (xEventListItem 0) k = None"
    using assms(1,2) unfolding rtos_ok_def by blast+
  obtain k1 where k1: "xTaskGenericCreate 0 0 k = Some k1" "scheduler_ok k1"
      "\<forall>x. item_container x k1 = (if x = xGenericListItem 0 then Some (new_priority 0) else item_container x k)"
      "priority k1 0 = new_priority 0"
    using create_ok [OF old(1,3,4), of 0] by auto
  have k': "k' = k1" using k1(1) assms(3) by simp
  note ok = scheduler_okD [OF k1(2)]
  obtain X where X: "kernel_ok k1 X {}" using ok(1) unfolding kernel_inv_def by blast
  let ?k = "start_scheduler k1"
  have "item_container x k1 \<notin> {Some 5, Some 6}" for x
    using k1(3) old(2) unfolding asleep_def rtos_defs by auto
  then have "X 5 = []" "X 6 = []"
    using kernel_ok_at [OF X] by (metis (no_types, opaque_lifting) insertCI list.set_intros(1) neq_Nil_conv)+
  then have empty: "X (pxDelayedTaskList k1) = []" "X (pxOverflowDelayedTaskList k1) = []"
    using delayed_lists(1,2) [OF kernel_okD(2) [OF X]] by auto
  have at: "item_container x ?k = item_container x k1" for x
    by (simp add: start_scheduler_def item_container_def)
  have "kernel_ok ?k X {}"
    using kernel_okD [OF X] empty
    by (simp add: start_scheduler_def kernel_ok_def has_lists_def kinds_def kind_def marked_def timed_def)
  moreover have "item_container x k1 \<noteq> Some (pxDelayedTaskList k1)" for x
    using kernel_ok_at [OF X] empty(1) by simp
  then have "future ?k"
    unfolding future_def at by (simp add: start_scheduler_def)
  moreover have "idle_ready ?k"
    using k1(3,4) unfolding idle_ready_def at by (simp add: start_scheduler_def)
  moreover have "paired ?k" using ok(3) unfolding paired_def at .
  moreover have "settled ?k" "counted ?k"
    using ok(4,5) unfolding settled_def counted_def pends_def tasks_in_def at by (simp_all add: start_scheduler_def)
  ultimately have "scheduler_ok ?k" unfolding scheduler_ok_def kernel_inv_def by blast
  then show ?thesis unfolding k' by (simp add: start_scheduler_def)
qed

interpretation rtos: invariant_of rtos_start rtos_step rtos_ok
proof
  show "rtos_ok k" if start: "rtos_start k" for k
  proof -
    obtain k0 t p where "fresh_kernel k0" "t < 2 ^ 30" "t \<noteq> 0" "xTaskGenericCreate t p k0 = Some k"
      using start unfolding rtos_start_def by blast
    then show ?thesis using first_create_ok [of k0 t p] by auto
  qed
  show "rtos_ok k'" if ok: "rtos_ok k" and step: "rtos_step k k'" for k k'
    using step
  proof (cases rule: rtos_step.cases)
    case step_call
    then have "call_good (Some k')" using ok rtos_call_good unfolding rtos_ok_def by blast
    then show ?thesis unfolding call_good_def rtos_ok_def by simp
  next
    case (step_boot t p)
    then show ?thesis using boot_ok ok by blast
  next
    case (step_start k1)
    then show ?thesis using start_ok ok unfolding rtos_ok_def by blast
  qed
qed

end
