(* ===== verification/RtosScheduler.thy ===== *)
theory RtosScheduler
  imports RtosTasksInv
begin

text \<open>
  What the scheduler promises: the task with the highest priority runs, a delay ends on time,
  time-outs are exact across the wrap of the tick counter, priorities that a mutex raises are
  given back, deleted tasks are freed; and what a notification to a task that was resumed
  does to the lists.
\<close>

subsection \<open>Properties of the scheduler\<close>

lemma reachable_ok: "reachable rtos_start rtos_step k \<Longrightarrow> scheduler_ok k"
  using rtos.reachable_inv unfolding rtos_ok_def by blast



text \<open>
  C2: The task that \<open>vTaskSwitchContext\<close> chooses is ready, and no ready task has a higher
  priority; the count of leading zeros of the bit map finds it.
\<close>

theorem vTaskSwitchContext_highest:
  assumes "reachable rtos_start rtos_step k" "xSchedulerRunning k" "uxSchedulerSuspended k = 0"
  shows "\<exists>k' t. vTaskSwitchContext k = Some k' \<and> pxCurrentTCB k' = Some t \<and> \<not> xYieldPending k'
     \<and> item_container (xGenericListItem t) k' = Some (priority k' t)
     \<and> (\<forall>u. item_container (xGenericListItem u) k' = Some (priority k' u) \<longrightarrow> priority k' u \<le> priority k' t)"
proof -
  note ok = scheduler_okD [OF reachable_ok [OF assms(1)]]
  note switch = switch_inv [OF ok(1) assms(3)]
  obtain k' t st where k': "vTaskSwitchContext k = Some k'" "k' = k\<lparr>store := st, pxCurrentTCB := Some t, xYieldPending := False\<rparr>"
      "items st = items (store k)" "item_container (xGenericListItem t) k = Some (priority k t)"
    using switch [OF ok(6) [OF assms(2), unfolded idle_ready_def]] by blast
  have at: "item_container x k' = item_container x k" for x
    using k'(2,3) by (simp add: item_container_def listLIST_ITEM_CONTAINER_def)
  have cur: "pxCurrentTCB k' = Some t" "\<not> xYieldPending k'" "tcbs k' = tcbs k" using k'(2) by simp_all
  have "priority k u \<le> priority k t" if u: "item_container (xGenericListItem u) k = Some (priority k u)" for u
  proof -
    obtain k1 t1 st1 where "vTaskSwitchContext k = Some k1"
        "k1 = k\<lparr>store := st1, pxCurrentTCB := Some t1, xYieldPending := False\<rparr>" "priority k u \<le> priority k t1"
      using switch [OF u] by blast
    then show ?thesis using k'(1) cur(1) by simp
  qed
  then show ?thesis using k'(1,4) cur at by simp
qed

text \<open>
  C3: A tick makes exactly those delayed tasks ready whose time to wake is the new value of the counter,
  also when the counter wraps and the lists of delayed tasks are exchanged; such a task stops to wait for its
  event, and no other task is moved.
\<close>

theorem tick_wakes_due_tasks:
  assumes "reachable rtos_start rtos_step k" "uxSchedulerSuspended k = 0"
  shows "\<exists>sw k'. xTaskIncrementTick k = Some (sw, k') \<and> xTickCount k' = xTickCount k + 1
     \<and> (\<forall>t. let wakes = item_container (xGenericListItem t) k \<in> {Some xDelayedTaskList1, Some xDelayedTaskList2}
              \<and> listGET_LIST_ITEM_VALUE (xGenericListItem t) (store k) = xTickCount k + 1
           in item_container (xGenericListItem t) k' = (if wakes then Some (priority k t) else item_container (xGenericListItem t) k)
              \<and> item_container (xEventListItem t) k' = (if wakes then None else item_container (xEventListItem t) k))"
proof -
  note ok = scheduler_okD [OF reachable_ok [OF assms(1)]]
  obtain sw k' where k': "xTaskIncrementTick k = Some (sw, k')" "unblocked (due k) k k'" "xTickCount k' = xTickCount k + 1"
    using tick_inv [OF ok(1,2) assms(2)] by blast
  then show ?thesis unfolding unblocked_def due_def listGET_LIST_ITEM_VALUE_def Let_def by blast
qed

text \<open>Resuming the scheduler when nothing has become pending meanwhile.\<close>

lemma resume_quiet:
  assumes "kernel_inv k {}" "paired k" "future k" "uxSchedulerSuspended k = 1" "uxPendedTicks k = 0" "\<And>t. \<not> pends k t"
    and "uxCurrentNumberOfTasks k \<noteq> 0"
  shows "\<exists>y k'. xTaskResumeAll k = Some (y, k') \<and> kernel_inv k' {} \<and> future k' \<and> uxSchedulerSuspended k' = 0
    \<and> xTickCount k' = xTickCount k \<and> (\<forall>x. item_container x k' = item_container x k)
    \<and> (\<forall>x. item_value k' x = item_value k x) \<and> tcbs k' = tcbs k \<and> pxDelayedTaskList k' = pxDelayedTaskList k"
proof -
  let ?k = "k\<lparr>uxSchedulerSuspended := 0\<rparr>"
  have k: "kernel_inv ?k {}" "paired ?k" "future ?k" using assms(1-3) by simp_all
  obtain k1 where k1: "resume_pending ?k = Some k1" "same_clock ?k k1" "kernel_inv k1 {}" "future k1"
      "unblocked (pends ?k) ?k k1"
    using resume_pending_inv [OF k] by blast
  have at: "item_container x k1 = item_container x k" for x
  proof (cases x rule: item_cases)
    case (generic u)
    then show ?thesis using k1(5) assms(6) [of u] unfolding unblocked_def by simp
  next
    case (event u)
    then show ?thesis using k1(5) assms(6) [of u] unfolding unblocked_def by simp
  qed
  note same = same_clock_fields [OF k1(2)]
  have "uxPendedTicks k1 = 0" using same(3) assms(5) by simp
  then have ticks: "resume_ticks k1 = Some k1" by (subst resume_ticks.simps) simp
  let ?k' = "if xYieldPending k1 then portYIELD k1 else k1"
  have run: "xTaskResumeAll k = Some (xYieldPending k1, ?k')"
    using assms(4,7) k1(1) ticks by (simp add: xTaskResumeAll_def word_neq_0_conv)
  have "kernel_inv ?k' {}" "future ?k'" using k1(3,4) by (simp_all add: portYIELD_def)
  moreover have "item_container x ?k' = item_container x k" for x using at by (simp add: portYIELD_def)
  moreover have "uxSchedulerSuspended ?k' = 0" "xTickCount ?k' = xTickCount k" "tcbs ?k' = tcbs k"
    "pxDelayedTaskList ?k' = pxDelayedTaskList k" "\<forall>x. item_value ?k' x = item_value k x"
    using same same_tasks_fields [OF same(1)] by (simp_all add: portYIELD_def)
  ultimately show ?thesis using run by blast
qed

text \<open>Some ticks in turn.\<close>

fun tick_times :: "nat \<Rightarrow> kernel \<Rightarrow> kernel option" where
  "tick_times 0 k = Some k"
| "tick_times (Suc n) k = Option.bind (xTaskIncrementTick k) (\<lambda>(_, k). tick_times n k)"

definition sleeps :: "nat \<Rightarrow> kernel \<Rightarrow> bool" where
  "sleeps t k \<longleftrightarrow> item_container (xGenericListItem t) k \<in> {Some xDelayedTaskList1, Some xDelayedTaskList2}"

lemma tick_times_wakes:
  assumes "kernel_inv k {}" "future k" "uxSchedulerSuspended k = 0" "sleeps c k"
    and "item_value k (xGenericListItem c) - xTickCount k = n" "n \<noteq> 0" "m \<le> unat n"
  shows "\<exists>k'. tick_times m k = Some k' \<and> tcbs k' = tcbs k
    \<and> (if m = unat n then item_container (xGenericListItem c) k' = Some (priority k c) else sleeps c k')"
  using assms
proof (induction m arbitrary: k n)
  case 0
  then show ?case by (simp add: unat_eq_zero)
next
  case (Suc m)
  obtain sw k1 where k1: "xTaskIncrementTick k = Some (sw, k1)" "kernel_inv k1 {}" "future k1" "unblocked (due k) k k1"
      "same_tasks k k1" "xTickCount k1 = xTickCount k + 1"
    using tick_inv [OF Suc.prems(1-3)] by blast
  note same = same_tasks_fields [OF k1(5)]
  have due: "due k c \<longleftrightarrow> n = 1"
    using Suc.prems(4,5) unfolding due_def sleeps_def by (metis add_diff_cancel_left' diff_eq_eq add.commute)
  have at: "item_container (xGenericListItem c) k1 = (if n = 1 then Some (priority k c) else item_container (xGenericListItem c) k)"
    using k1(4) due unfolding unblocked_def by simp
  show ?case
  proof (cases "n = 1")
    case True
    then have "m = 0" using Suc.prems(7) by simp
    then show ?thesis using k1(1) at True same by simp
  next
    case False
    have rest: "item_value k1 (xGenericListItem c) - xTickCount k1 = n - 1"
      using Suc.prems(5) k1(6) same(7) by (simp add: algebra_simps)
    have pred: "unat (n - 1) = unat n - 1" by (rule unat_pred) (use Suc.prems(6) in simp)
    have "m \<le> unat (n - 1)" "n - 1 \<noteq> 0" using Suc.prems(7) pred False by simp_all
    moreover have "sleeps c k1" using at False Suc.prems(4) unfolding sleeps_def by simp
    ultimately obtain k' where "tick_times m k1 = Some k'" "tcbs k' = tcbs k1"
        "if m = unat (n - 1) then item_container (xGenericListItem c) k' = Some (priority k1 c) else sleeps c k'"
      using Suc.IH [OF k1(2,3) _ _ rest] same(5) Suc.prems(3) by auto
    moreover have "unat n \<noteq> 0" using Suc.prems(6) by (simp add: unat_eq_zero)
    then have "m = unat (n - 1) \<longleftrightarrow> Suc m = unat n" unfolding pred by linarith
    ultimately show ?thesis using k1(1) same by simp
  qed
qed

text \<open>
  C4: A task that calls \<open>vTaskDelay n\<close> is not ready before, and is ready after, exactly \<open>n\<close>
  ticks, whether or not the tick counter wraps meanwhile.
\<close>

theorem vTaskDelay_wakes:
  assumes "reachable rtos_start rtos_step k" "xSchedulerRunning k" "uxSchedulerSuspended k = 0"
    and "current_ready c k" "c \<noteq> 0" "n \<noteq> 0" "m \<le> unat n"
  shows "\<exists>k1 k2. vTaskDelay n k = Some k1 \<and> tick_times m k1 = Some k2
    \<and> (if m = unat n then item_container (xGenericListItem c) k2 = Some (priority k2 c) else sleeps c k2)"
proof -
  note good = reachable_ok [OF assms(1)]
  note ok = scheduler_okD [OF good]
  have c: "pxCurrentTCB k = Some c" "item_container (xGenericListItem c) k = Some (priority k c)"
    using assms(4) unfolding current_ready_def by blast+
  let ?k = "vTaskSuspendAll k" and ?w = "xTickCount k + n"
  have fields: "xTickCount ?k = xTickCount k" "tcbs ?k = tcbs k" "pxCurrentTCB ?k = Some c" "uxSchedulerSuspended ?k = 1"
      "uxPendedTicks ?k = 0"
    using c assms(3) ok(4) by (simp_all add: vTaskSuspendAll_def settled_def)
  have k: "kernel_inv ?k {}" "future ?k" "\<And>x. item_container x ?k = item_container x k" "paired ?k"
    using ok by (simp_all add: vTaskSuspendAll_def)
  have w: "?w \<noteq> xTickCount ?k" using assms(6) fields(1) by simp
  have at_c: "item_container (xGenericListItem c) ?k = Some (priority ?k c)" using c(2) k(3) fields(2) by simp
  obtain k1 k2 where k2: "leave_ready ?k = Some k1" "prvAddCurrentTaskToDelayedList ?w k1 = Some k2"
      "waits c {delay_list ?w ?k} ?k k2" "delayed_to c ?w k1 k2" "same_rest ?k k1"
    using wait_delayed [OF k(1,2) fields(3) at_c w] by blast
  have l: "delay_list ?w ?k \<in> {5, 6}" by (rule delay_list_at [OF k(1)])
  have w2: "same_state ?k k2" "kernel_inv k2 {}" "future k2" "moved ?k (xGenericListItem c) (Some (delay_list ?w ?k)) k2"
    using k2(3) unfolding waits_def by blast+
  note same2 = same_state_fields [OF w2(1)] and at2 = moved_at [OF w2(4)]
  have "paired k2" using k(4) l unfolding paired_def at2 by auto
  moreover have "\<not> pends k2 t" for t
    using ok(4) assms(3) k(3) unfolding settled_def pends_def at2 by simp
  moreover have "uxCurrentNumberOfTasks k2 \<noteq> 0"
    using running_counts [OF good assms(2)] same2(3) by (simp add: vTaskSuspendAll_def)
  ultimately obtain y k3 where k3: "xTaskResumeAll k2 = Some (y, k3)" "kernel_inv k3 {}" "future k3" "uxSchedulerSuspended k3 = 0"
      "xTickCount k3 = xTickCount k2" "\<forall>x. item_container x k3 = item_container x k2" "\<forall>x. item_value k3 x = item_value k2 x"
      "tcbs k3 = tcbs k2"
    using resume_quiet [OF w2(2) _ w2(3), of] same2(5,6) fields(4,5) by auto
  let ?k' = "if \<not> y then portYIELD k3 else k3"
  have "vTaskDelay n k = Some ?k'"
    using assms(6) k2(1,2) k3(1) fields(1) by (simp add: vTaskDelay_def Let_def word_neq_0_conv)
  moreover have "\<exists>k''. tick_times m ?k' = Some k'' \<and> tcbs k'' = tcbs ?k'
      \<and> (if m = unat n then item_container (xGenericListItem c) k'' = Some (priority ?k' c) else sleeps c k'')"
  proof (rule tick_times_wakes)
    show "kernel_inv ?k' {}" "future ?k'" "uxSchedulerSuspended ?k' = 0" using k3(2-4) by (simp_all add: portYIELD_def)
    show "sleeps c ?k'" using k3(6) at2 l by (auto simp: sleeps_def rtos_defs portYIELD_def)
    show "item_value ?k' (xGenericListItem c) - xTickCount ?k' = n"
      using k3(5,7) delayed_to_state(2) [OF k2(4), of "xGenericListItem c"] same2(8) fields(1) by (simp add: portYIELD_def)
  qed (use assms(6,7) in auto)
  ultimately show ?thesis by auto
qed

lemma mod_after_wrap:
  fixes n :: nat
  assumes "n0 \<le> n" "n - n0 < M" "n0 div M \<noteq> n div M"
  shows "n mod M < n0 mod M"
proof -
  have "n0 div M \<le> n div M" by (rule div_le_mono [OF assms(1)])
  moreover have "n div M \<le> (n0 + M) div M" by (rule div_le_mono) (use assms(2) in linarith)
  moreover have M: "M \<noteq> 0" using assms(2) by linarith
  have "(n0 + M) div M = Suc (n0 div M)" using div_add_self2 [OF M, of n0] by linarith
  ultimately have "n div M = Suc (n0 div M)" using assms(3) by linarith
  then have "n = M * (n0 div M) + M + n mod M" using mult_div_mod_eq [of M n] by simp
  moreover have "n0 = M * (n0 div M) + n0 mod M" by simp
  ultimately show ?thesis using assms(1,2) by linarith
qed

text \<open>
  C7: \<open>xTaskCheckForTimeOut\<close> measures time across a wrap of the tick counter: when fewer than
  \<open>2 ^ 32\<close> ticks have passed since \<open>vTaskSetTimeOutState\<close>, it reports the time-out if
  and only if the ticks to wait have passed, and otherwise leaves the rest to wait.
\<close>

theorem xTaskCheckForTimeOut_exact:
  assumes "xTickCount k0 = of_nat n0" "xNumOfOverflows k0 = of_nat (n0 div 2 ^ 32)"
    and "xTickCount k = of_nat n" "xNumOfOverflows k = of_nat (n div 2 ^ 32)"
    and "n0 \<le> n" "n - n0 < 2 ^ 32" "wait \<noteq> portMAX_DELAY"
  shows "xTaskCheckForTimeOut (vTaskSetTimeOutState k0) wait k =
     (if n - n0 < unat wait then (False, vTaskSetTimeOutState k, wait - of_nat (n - n0))
      else (True, vTaskSetTimeOutState k0, wait))"
proof -
  have passed: "xTickCount k - xTickCount k0 = of_nat (n - n0)" using assms(1,3,5) by (simp add: of_nat_diff)
  have less: "xTickCount k - xTickCount k0 < wait \<longleftrightarrow> n - n0 < unat wait"
    using assms(6) unfolding passed by (simp add: word_less_nat_alt unat_of_nat)
  have no_wrap: "\<not> xTickCount k0 \<le> xTickCount k" if "xNumOfOverflows k \<noteq> xNumOfOverflows k0"
  proof -
    have "n0 div 2 ^ 32 \<noteq> n div 2 ^ 32" using that assms(2,4) by auto
    then have "n mod 2 ^ 32 < n0 mod 2 ^ 32" by (rule mod_after_wrap [OF assms(5,6)])
    then show ?thesis using assms(1,3) by (simp add: word_le_nat_alt unat_of_nat)
  qed
  show ?thesis
    using assms(7) less no_wrap passed unfolding xTaskCheckForTimeOut_def vTaskSetTimeOutState_def by auto
qed


text \<open>
  The idle task's \<open>prvCheckTasksWaitingTermination\<close> comes to an end, and when it does every
  deleted task has been freed.
\<close>

theorem deleted_tasks_are_freed:
  assumes "reachable rtos_start rtos_step k" "xSchedulerRunning k" "uxSchedulerSuspended k = 0"
  shows "\<exists>k'. prvCheckTasksWaitingTermination k = Some k' \<and> uxTasksDeleted k' = 0
     \<and> (\<forall>t. item_container (xGenericListItem t) k' \<noteq> Some xTasksWaitingTermination)"
proof -
  obtain k' where k': "prvCheckTasksWaitingTermination k = Some k'" "scheduler_ok k'" "uxTasksDeleted k' = 0"
    using free_all_ok [OF reachable_ok [OF assms(1)] assms(2,3)] by blast
  note ok = scheduler_okD [OF k'(2)]
  let ?T = "tasks_in (\<lambda>l. l = Some 8) k'"
  have card: "finite ?T" "card ?T < 2 ^ 32" by (rule tasks_in_card [OF ok(1)], simp)+
  have "(of_nat (card ?T) :: u32) = 0" using ok(5) k'(3) unfolding counted_def by simp
  then have "?T = {}" using of_nat_0_iff_32 [OF card(2)] card(1) by simp
  then show ?thesis using k'(1,3) unfolding tasks_in_def rtos_defs by blast
qed

text \<open>
  C8: A task that blocks without limit on a notification is taken for a suspended one:
  \<open>xTaskResumeFromISR\<close> makes it ready although nobody has notified it.
\<close>

theorem notify_wait_ended_by_resume:
  assumes "reachable rtos_start rtos_step k" "xSchedulerRunning k" "uxSchedulerSuspended k = 0"
    and "current_ready c k" "c \<noteq> 0" "ulNotifiedValue (tcbs k c) = 0" "item_container (xEventListItem c) k = None"
  shows "\<exists>k1 y k2. ulTaskNotifyTake_wait portMAX_DELAY k = Some k1
     \<and> item_container (xGenericListItem c) k1 = Some xSuspendedTaskList
     \<and> xTaskResumeFromISR c k1 = Some (y, k2) \<and> item_container (xGenericListItem c) k2 = Some (priority k c)
     \<and> eNotifyState (tcbs k2 c) = eWaitingNotification"
proof -
  note good = reachable_ok [OF assms(1)]
  have c: "pxCurrentTCB k = Some c" "item_container (xGenericListItem c) k = Some (priority k c)"
    using assms(4) unfolding current_ready_def by blast+
  let ?k = "upd_tcb c (\<lambda>x. x\<lparr>eNotifyState := eWaitingNotification\<rparr>) k"
  have k: "scheduler_ok ?k" by (rule upd_tcb_ok [OF good]) simp_all
  note ok = scheduler_okD [OF k]
  have prio: "priority ?k u = priority k u" for u by simp
  obtain k1 k2 where k2: "leave_ready ?k = Some k1" "wait_ticks portMAX_DELAY k1 = Some k2" "waits c {9} ?k k2"
    using wait_forever [OF ok(1,2), of c] c by auto
  have w2: "same_state ?k k2" "moved ?k (xGenericListItem c) (Some 9) k2" using k2(3) unfolding waits_def by blast+
  note same2 = same_state_fields [OF w2(1)] and at2 = moved_at [OF w2(2)]
  have run: "ulTaskNotifyTake_wait portMAX_DELAY k = Some (portYIELD k2)"
    using c(1) assms(6) k2(1,2) by (simp add: ulTaskNotifyTake_wait_def block_for_notification_def Let_def portMAX_DELAY_def)
  have k2_ok: "scheduler_ok (portYIELD k2)"
    using waits_ok [OF k waits_mono [OF k2(3)] _ assms(5)] c(2) by simp
  have at: "item_container (xGenericListItem c) (portYIELD k2) = Some 9" "item_container (xEventListItem c) (portYIELD k2) = None"
    using at2 assms(7) by (simp_all add: portYIELD_def)
  have susp: "prvTaskIsTaskSuspended c (portYIELD k2)"
    using at by (simp add: prvTaskIsTaskSuspended_def contained_at rtos_defs)
  obtain k3 where k3: "make_ready c (portYIELD k2) = Some k3" "same_rest (portYIELD k2) k3" "unblocked (\<lambda>u. u = c) (portYIELD k2) k3"
    using suspended_ready_ok [OF k2_ok at] by blast
  have tcbs: "tcbs (portYIELD k2) = tcbs ?k" using same2(1) by (simp add: portYIELD_def)
  have "uxSchedulerSuspended (portYIELD k2) = 0" "pxCurrentTCB (portYIELD k2) = Some c"
    using same2(2,6) c(1) assms(3) by (simp_all add: portYIELD_def upd_tcb_def)
  then have "xTaskResumeFromISR c (portYIELD k2) = Some (True, k3)"
    using susp k3(1) by (simp add: xTaskResumeFromISR_def)
  moreover have "item_container (xGenericListItem c) k3 = Some (priority k c)"
    using k3(3) unfolding unblocked_def tcbs by simp
  moreover have "tcbs k3 = tcbs ?k" using tcbs by (simp only: same_rest_fields [OF k3(2)])
  then have "eNotifyState (tcbs k3 c) = eWaitingNotification" by simp
  ultimately show ?thesis using run at(1) by (auto simp: rtos_defs)
qed

subsection \<open>Witnesses\<close>

declare insert_position.simps [code]

text \<open>
  A kernel that starts with task 1, which takes a mutex and creates task 2 of a higher
  priority, which then runs.
\<close>

definition boot_store :: list_store where
  "boot_store =
     \<lparr>items = \<lambda>p. \<lparr>xItemValue = (case p of Item i \<Rightarrow> 0 | End l \<Rightarrow> portMAX_DELAY), pxNext = End (case p of Item i \<Rightarrow> 0 | End l \<Rightarrow> l),
        pxPrevious = End (case p of Item i \<Rightarrow> 0 | End l \<Rightarrow> l), pvOwner = 0, pvContainer = None\<rparr>,
      lists = \<lambda>l. \<lparr>uxNumberOfItems = 0, pxIndex = End l\<rparr>\<rparr>"

definition boot_kernel :: kernel where
  "boot_kernel =
     \<lparr>store = boot_store,
      tcbs = \<lambda>_. \<lparr>uxPriority = 0, uxBasePriority = 0, uxMutexesHeld = 0, ulNotifiedValue = 0, eNotifyState = eNotWaitingNotification\<rparr>,
      pxCurrentTCB = None, pxDelayedTaskList = 0, pxOverflowDelayedTaskList = 0, uxCurrentNumberOfTasks = 0, xTickCount = 0,
      uxTopReadyPriority = 0, xSchedulerRunning = False, uxPendedTicks = 0, xYieldPending = False, xNumOfOverflows = 0,
      xNextTaskUnblockTime = 0, uxSchedulerSuspended = 0, uxTasksDeleted = 0, switch_pended = False\<rparr>"

definition one_task :: kernel where "one_task = the (xTaskGenericCreate 1 1 boot_kernel)"
definition started :: kernel where "started = start_scheduler (the (xTaskGenericCreate 0 0 one_task))"
definition holding :: kernel where "holding = snd (pvTaskIncrementMutexHeldCount started)"
definition created :: kernel where "created = the (xTaskGenericCreate 2 2 holding)"
definition switched :: kernel where "switched = the (vTaskSwitchContext (created\<lparr>switch_pended := False\<rparr>))"

lemma fresh_boot: "fresh_kernel boot_kernel"
  by (simp add: fresh_kernel_def boot_kernel_def boot_store_def list_rep_def item_container_def listLIST_ITEM_CONTAINER_def)

lemma reachable_started: "reachable rtos_start rtos_step started" "xSchedulerRunning started" "uxSchedulerSuspended started = 0"
proof -
  have "xTaskGenericCreate 1 1 boot_kernel \<noteq> None" "xTaskGenericCreate 0 0 one_task \<noteq> None" "\<not> xSchedulerRunning one_task"
    by code_simp+
  then have steps: "xTaskGenericCreate 1 1 boot_kernel = Some one_task"
      "xTaskGenericCreate 0 0 one_task = Some (the (xTaskGenericCreate 0 0 one_task))" "\<not> xSchedulerRunning one_task"
    by (simp_all add: one_task_def)
  have start: "rtos_start one_task"
    unfolding rtos_start_def
    by (rule exI [of _ boot_kernel], rule exI [of _ 1], rule exI [of _ 1]) (simp add: fresh_boot steps(1) [simplified])
  show "reachable rtos_start rtos_step started"
    unfolding started_def
    by (rule reachable_step [where init = rtos_start and step = rtos_step and s = one_task,
      OF reachable_init [where init = rtos_start and step = rtos_step, OF start] step_start [OF steps(3,2)]])
  show "xSchedulerRunning started" "uxSchedulerSuspended started = 0" by code_simp+
qed

lemma reachable_created: "reachable rtos_start rtos_step created" "xSchedulerRunning created"
proof -
  have "xTaskGenericCreate 2 2 holding \<noteq> None" "item_container (xGenericListItem 2) holding = None"
    "item_container (xEventListItem 2) holding = None" "xSchedulerRunning holding"
    by code_simp+
  then have steps: "xTaskGenericCreate 2 2 holding = Some created" "no_task 2 holding" "xSchedulerRunning holding"
    by (simp_all add: created_def no_task_def)
  have "rtos_step started holding"
    unfolding holding_def by (rule step_call [OF reachable_started(2) call_mutex])
  moreover have "rtos_step holding created"
    using step_call [OF steps(3), of created] call_create [OF steps(2), of 2] steps(1) by simp
  ultimately show "reachable rtos_start rtos_step created"
    using reachable_step reachable_started(1) by metis
  show "xSchedulerRunning created" by code_simp
qed

lemma reachable_switched: "reachable rtos_start rtos_step switched" "xSchedulerRunning switched"
proof -
  have "vTaskSwitchContext (created\<lparr>switch_pended := False\<rparr>) \<noteq> None" by code_simp
  then have "vTaskSwitchContext (created\<lparr>switch_pended := False\<rparr>) = Some switched" by (simp add: switched_def)
  then have "rtos_step created switched"
    using step_call [OF reachable_created(2), of switched] call_switch [of created] by simp
  then show "reachable rtos_start rtos_step switched" by (rule reachable_step [OF reachable_created(1)])
  show "xSchedulerRunning switched" by code_simp
qed

lemma started_task: "current_ready 1 started" "item_container (xEventListItem 1) started = None" "ulNotifiedValue (tcbs started 1) = 0"
  by code_simp+


theorem vTaskSwitchContext_highest_witness:
  "\<exists>k' t. vTaskSwitchContext created = Some k' \<and> pxCurrentTCB k' = Some t \<and> \<not> xYieldPending k'
     \<and> item_container (xGenericListItem t) k' = Some (priority k' t)
     \<and> (\<forall>u. item_container (xGenericListItem u) k' = Some (priority k' u) \<longrightarrow> priority k' u \<le> priority k' t)"
  by (rule vTaskSwitchContext_highest [OF reachable_created]) code_simp

theorem tick_wakes_due_tasks_witness:
  "\<exists>sw k'. xTaskIncrementTick started = Some (sw, k') \<and> xTickCount k' = 1
     \<and> item_container (xGenericListItem 1) k' = Some 1"
proof -
  have now: "xTickCount started + 1 = 1" "item_container (xGenericListItem 1) started = Some 1" by code_simp+
  show ?thesis
    using tick_wakes_due_tasks [OF reachable_started(1,3)] now by (auto simp: Let_def rtos_defs)
qed

theorem vTaskDelay_wakes_witness:
  "\<exists>k1 k2. vTaskDelay 3 started = Some k1 \<and> tick_times 3 k1 = Some k2
     \<and> item_container (xGenericListItem 1) k2 = Some (priority k2 1)"
  using vTaskDelay_wakes [OF reachable_started started_task(1), of 3 3] by simp

theorem xTaskCheckForTimeOut_exact_witness:
  "xTaskCheckForTimeOut (vTaskSetTimeOutState (started\<lparr>xTickCount := - 1\<rparr>)) 5 (started\<lparr>xTickCount := 2, xNumOfOverflows := 1\<rparr>)
     = (False, vTaskSetTimeOutState (started\<lparr>xTickCount := 2, xNumOfOverflows := 1\<rparr>), 2)"
proof -
  have zero: "xNumOfOverflows started = 0" by code_simp
  show ?thesis
    using xTaskCheckForTimeOut_exact [of "started\<lparr>xTickCount := - 1\<rparr>" "2 ^ 32 - 1" "started\<lparr>xTickCount := 2, xNumOfOverflows := 1\<rparr>"
        "2 ^ 32 + 2" 5] zero
    by (simp add: portMAX_DELAY_def)
qed


theorem deleted_tasks_are_freed_witness:
  "\<exists>k'. prvCheckTasksWaitingTermination started = Some k' \<and> uxTasksDeleted k' = 0
     \<and> (\<forall>t. item_container (xGenericListItem t) k' \<noteq> Some xTasksWaitingTermination)"
  by (rule deleted_tasks_are_freed [OF reachable_started])

theorem notify_wait_ended_by_resume_witness:
  "\<exists>k1 y k2. ulTaskNotifyTake_wait portMAX_DELAY started = Some k1
     \<and> item_container (xGenericListItem 1) k1 = Some xSuspendedTaskList
     \<and> xTaskResumeFromISR 1 k1 = Some (y, k2) \<and> item_container (xGenericListItem 1) k2 = Some (priority started 1)
     \<and> eNotifyState (tcbs k2 1) = eWaitingNotification"
  by (rule notify_wait_ended_by_resume [OF reachable_started started_task(1) _ started_task(3,2)]) simp

text \<open>
  Task 2 waits for a notification without limit, task 1 has suspended the scheduler, and an
  interrupt resumes task 2, which puts its event item into the pending list.
\<close>

definition waiter :: kernel where
  "waiter = the (do {
     k \<leftarrow> ulTaskNotifyTake_wait portMAX_DELAY switched;
     k \<leftarrow> vTaskSwitchContext k;
     (_, k) \<leftarrow> xTaskResumeFromISR 2 (vTaskSuspendAll k);
     Some k
   })"

definition notified :: kernel where "notified = snd (the (vTaskNotifyGiveFromISR 2 waiter))"

text \<open>
  A notification given from an interrupt to a task that another interrupt resumed while the
  scheduler is suspended inserts the task's event item a second time into the list of pending
  tasks: the item becomes its own successor, so the list can no longer be walked back to its end,
  and it counts two items where there is one.
\<close>

theorem resume_then_notify_breaks_lists:
  "next_of (store waiter) (Item (xEventListItem 2)) = End xPendingReadyList
   \<and> uxNumberOfItems (lists (store waiter) xPendingReadyList) = 1
   \<and> next_of (store notified) (Item (xEventListItem 2)) = Item (xEventListItem 2)
   \<and> uxNumberOfItems (lists (store notified) xPendingReadyList) = 2"
  by code_simp

end
