(* ===== verification/Spec2Isabelle.thy ===== *)
theory Spec2Isabelle
  imports Prelude ByteOrder Pbuf Chksum PbufChksum Ip4Addr SnmpStream Asn1 Machine PppFsm Timers PbufHeap Heap4 Etharp Udp Shell RtosScheduler
begin

text \<open>
  A verification library of the lwIP applications repository: the lwIP stack, the RTOS kernel
  it runs on, and the network applications of the board, as shallow embeddings of the C code.
  Paths are relative to \<open>src/lwipserver/\<close>; \<open>lwip/src/\<close> is left out for files of the stack.

  \<^bold>\<open>The program.\<close> The board runs the RTOS kernel (\<open>freertos/\<close>). The stack has one thread, which
  takes messages and runs the timers (\<open>core/timers.c\<close>), and interrupts feed it frames. A frame
  is a chain of packet buffers (\<open>core/pbuf.c\<close>); Ethernet and ARP (\<open>netif/etharp.c\<close>,
  \<open>netif/ethernet.c\<close>) sit below IP, whose packets are guarded by the Internet checksum
  (\<open>core/inet_chksum.c\<close>) and routed, checked and handed to the protocols above by
  \<open>core/ipv4/ip4.c\<close>, of which UDP (\<open>core/udp.c\<close>) gives datagrams to the blocks that programs have bound. A serial link runs PPP, whose protocols share one automaton
  (\<open>netif/ppp/fsm.c\<close>). SNMP messages are BER values (\<open>apps/snmp/snmp_asn1.c\<close>) in a stream over
  a chain (\<open>apps/snmp/snmp_pbuf_stream.c\<close>). The shell (\<open>lwip_apps/shell/shell.c\<close>) serves
  clients over the connection interface. \<open>mem_malloc\<close> and the kernel use the heap of
  \<open>freertos/portable/MemMang/heap_4.c\<close>, and the kernel keeps its tasks in the linked lists
  of \<open>freertos/list.c\<close>.

  \<^bold>\<open>Theories.\<close>
  \<^item> \<open>Prelude\<close>: the machine integers \<open>u8\<close> to \<open>u64\<close> and the facts on words, lists and options that
    the components share. \<open>Machine\<close>: the locale \<open>invariant_of\<close> of an initial predicate, a step
    relation and an inductive invariant, and \<open>invariant_with\<close> for a second one above it.
  \<^item> \<open>ByteOrder\<close> (\<open>core/def.c\<close>), \<open>Ip4Addr\<close> (\<open>core/ipv4/ip4_addr.c\<close>: masks, the reader and the writer
    of dotted addresses), \<open>Chksum\<close> and \<open>PbufChksum\<close> (\<open>core/inet_chksum.c\<close>: the three versions of
    \<open>lwip_standard_chksum\<close>, each an instance of the locale \<open>lwip_chksum\<close>, in which the checksum over a
    chain is computed for any of them).
  \<^item> \<open>Pbuf\<close> and \<open>PbufHeap\<close> (\<open>core/pbuf.c\<close>): the operations on the bytes of a chain, which is a list
    of segments, and the operations on a store of pbufs with addresses, reference counts and
    shared tails, whose chains are abstracted to those lists.
  \<^item> \<open>SnmpStream\<close> and \<open>Asn1\<close>: a cursor over a chain refines the list of bytes in its window, and each
    encoder is the writing of a list of bytes that the decoder reads back.
  \<^item> \<open>PppFsm\<close>: the events, packets and the timer of the automaton; the routines of a protocol are
    parameters. Five invariants are interpretations of the locales of \<open>Machine\<close>.
  \<^item> \<open>Timers\<close>: the list of relative times refines the queue of absolute deadlines
    (locale \<open>timeout_service\<close>), and every cyclic timer stays pending.
  \<^item> \<open>Etharp\<close>: the ARP table with states, ages and queued packets; packets live in the store
    of \<open>PbufHeap\<close> and leave through the driver, which is a parameter that records frames.
  \<^item> \<open>Packets\<close> and \<open>Ip4\<close> (\<open>core/ipv4/ip4.c\<close>): a packet is a chain in the store with its bytes, and what
    revealing, hiding, reading and writing a header does to them; on top of it routing, the input
    of packets with its checks and the output with the header and its checksum.
  \<^item> \<open>UdpPcbs\<close> and \<open>Udp\<close> (\<open>core/udp.c\<close>): the control blocks with their list and local ports, as an
    instance of \<open>invariant_of\<close>; and the input and output of datagrams on top of \<open>Ip4\<close>, which the
    round trip from one host to the other joins. The receive functions are parameters.
  \<^item> \<open>Heap4\<close>: headers lie in the heap itself, and the free list refines a tiling of the heap.
  \<^item> \<open>Shell\<close>: the parser of lines, the commands and the loop of a client over an environment that
    may answer each call depending on all calls before it.
  \<^item> \<open>RtosList\<close> (\<open>freertos/list.c\<close>, \<open>freertos/include/list.h\<close>): doubly linked circular lists in
    a store refine lists of items with a cursor.
  \<^item> \<open>RtosTasks\<close>, \<open>RtosTaskLists\<close>, \<open>RtosTasksInv\<close>, \<open>RtosScheduler\<close> (\<open>freertos/tasks.c\<close>): the operations
    of the scheduler on these lists; how each changes them; the invariant under all calls of
    tasks and interrupts, as an instance of \<open>invariant_of\<close>; and the promises of the scheduler.

  \<^bold>\<open>How the code is read.\<close> A struct is a record and an enumeration a datatype; integers keep their
  width and wrap; an error code is a value. A run that dereferences \<open>NULL\<close> or freed memory, reads
  outside of an array, or does not end is \<open>None\<close>, so that a theorem that gives \<open>Some\<close> shows
  that the code does none of these. The build options are those of \<open>lwipopts.h\<close> and
  \<open>FreeRTOSConfig.h\<close>, or parameters where both readings are of use; assertions are compiled out.
  Functions that run in a critical section or with the scheduler suspended are atomic steps; what
  several threads or interrupts do is an arbitrary sequence of such steps.

  \<^bold>\<open>What the lemmas show.\<close> Each theory first gives the data and the operations in the order of the
  code, then what each operation does to the representation, then the invariant and the
  abstract view that the operations refine, and last the properties, each with an instance on
  a concrete input. Among the properties: first fit and coalescing of the heap and that its
  blocks never overlap; the checksum of any segmentation of a packet, and that a receiver
  accepts what a sender fills in; that a packet of one host is delivered with its payload by
  another, and which packets reach no protocol; that a UDP datagram reaches the one block it is
  for, and that no two blocks hold the same port at overlapping addresses; that the best entry of the ARP table is recycled, that
  requests are answered and waiting packets are released; that timeouts and cyclic timers are
  neither lost nor late; that the automaton gives up, never stays without a timer while it
  waits, and reports up and down in turn; round trips of addresses and BER headers; that
  the shell releases what it opens; that the scheduler runs a ready task of the highest
  priority, wakes delayed tasks on their tick across the wrap of the counter, and gives
  inherited priorities back. Properties of kind error show where the code fails.

  \<^bold>\<open>Loops and bounds.\<close> Loops over lists in a store are \<open>partial_function (option)\<close>, and are shown to
  return on every well-formed state. \<open>pbuf_memfind\<close> counts with 16 bits up to a bound that may
  never be passed, and has 65537 rounds of fuel, which are enough for a pattern that is not
  empty. The lists of the kernel hold fewer than \<open>2 ^ 32\<close> items, and tasks have numbers below \<open>2 ^ 30\<close>, so
  that their items, two for each task, and the counts stay below the width of a word.

  \<^bold>\<open>Not modelled.\<close> TCP, reassembly, ICMP, IGMP, DHCP, AutoIP and DNS:
  not reached; what the modelled parts call of them is a parameter or a log. The connection and
  socket interface and the operating system layer: threads and mailboxes around those protocols, a
  parameter of the shell. Drivers, port, startup and vendor libraries: register accesses and
  assembly. IPv6, 6LoWPAN and the statistics are not compiled in. The protocols above the PPP automaton,
  the SNMP agent, the HTTP server and the other applications, the queues, timers and event groups
  of the RTOS: not reached. In the scheduler, stacks, names, traces and the memory of the tasks are left out.
\<close>

end
